(* ===== verification/Prelude.thy ===== *)
theory Prelude
  imports Main "HOL-Library.Word" "HOL-Library.Multiset" "HOL-Library.Monad_Syntax"
begin

text \<open>
  The shared base of the development.

  The sources report a broken contract by aborting the simulator: \<open>assert\<close> and
  \<open>ASSERT\<close> (\<open>common/Debug.h\<close>) and \<open>ERROR_MSG\<close>.  Such an operation is modelled as
  a function into \<open>'a option\<close>: \<open>None\<close> is the aborted run and \<open>Some r\<close> a run
  that reaches the end of the function.  \<open>assert_that\<close> is the \<open>assert\<close> of the sources.

  The theory also holds the type names of \<open>common/Global.h\<close>, the simplification
  collections of the development and the facts on lists, options, words and
  multisets that several components use.
\<close>

unbundle bit_operations_syntax

section \<open>Types of the program\<close>

type_synonym physical_address_t = "64 word"
type_synonym Time = int
type_synonym NodeID = int

datatype CacheRequestType = CR_LD | CR_ST | CR_ATOMIC | CR_IFETCH | CR_IO | CR_REPLACEMENT | CR_COMMIT
  | CR_LD_XACT | CR_LDX_XACT | CR_ST_XACT | CR_BEGIN_XACT | CR_COMMIT_XACT | CR_ABORT_XACT | CR_MEM_FENCE
  | CR_IDEAL_INV | CR_NULL

definition ADDRESS_WIDTH :: int where
  "ADDRESS_WIDTH = 64"

section \<open>Aborting code\<close>

definition assert_that :: "bool \<Rightarrow> unit option" where
  "assert_that b = (if b then Some () else None)"

named_theorems abort_simps \<open>how an aborting program is unfolded\<close>

lemma assert_that_True [simp, abort_simps]: "assert_that True = Some ()"
  by (simp add: assert_that_def)

lemma assert_that_False [simp, abort_simps]: "assert_that False = None"
  by (simp add: assert_that_def)

lemma assert_that_Some [simp, abort_simps]: "assert_that b = Some u \<longleftrightarrow> b"
  by (simp add: assert_that_def)

lemma assert_that_None [simp]: "assert_that b = None \<longleftrightarrow> \<not> b"
  by (simp add: assert_that_def)

lemma bind_assert_Some [simp, abort_simps]:
  "Option.bind (assert_that b) f = Some r \<longleftrightarrow> b \<and> f () = Some r"
  by (simp add: assert_that_def)

lemma bind_assert_None [simp]:
  "Option.bind (assert_that b) f = None \<longleftrightarrow> (b \<longrightarrow> f () = None)"
  by (simp add: assert_that_def)

lemma bind_assert_holds: "b \<Longrightarrow> Option.bind (assert_that b) f = f ()"
  by simp

lemma bind_Some_iff [abort_simps]:
  "Option.bind m f = Some r \<longleftrightarrow> (\<exists>x. m = Some x \<and> f x = Some r)"
  by (cases m) auto

lemma bind_SomeE:
  assumes "Option.bind m f = Some r"
  obtains x where "m = Some x" "f x = Some r"
  using assms by (cases m) auto

text \<open>Running an aborting operation over a list of inputs, left to right: what a
  sequence of calls does.\<close>

primrec run_all :: "('i \<Rightarrow> 's \<Rightarrow> 's option) \<Rightarrow> 'i list \<Rightarrow> 's \<Rightarrow> 's option" where
  "run_all f [] s = Some s"
| "run_all f (i # is) s = Option.bind (f i s) (run_all f is)"

lemma run_all_append:
  "run_all f (xs @ ys) s = Option.bind (run_all f xs s) (run_all f ys)"
  by (induction xs arbitrary: s) (auto split: Option.bind_splits)

lemma run_all_invariant:
  assumes step: "\<And>i s s'. \<lbrakk> i \<in> set is; P s; f i s = Some s' \<rbrakk> \<Longrightarrow> P s'"
    and "P s" and "run_all f is s = Some s'"
  shows "P s'"
  using assms(2,3) step
proof (induction "is" arbitrary: s)
  case (Cons i "is")
  then obtain t where t: "f i s = Some t" "run_all f is t = Some s'"
    by (auto elim: bind_SomeE)
  have "P t" using Cons.prems t(1) by (meson list.set_intros(1))
  then show ?case using Cons.IH [OF _ t(2)] Cons.prems(3) by (meson list.set_intros(2))
qed simp

text \<open>Loops over two arrays: an operation on every pair of elements, and a test of every pair
  that stops at the first one that fails.\<close>

fun traverse2 :: "('a \<Rightarrow> 'b \<Rightarrow> 'c option) \<Rightarrow> 'a list \<Rightarrow> 'b list \<Rightarrow> 'c list option" where
  "traverse2 f (x # xs) (y # ys) = do { z \<leftarrow> f x y; zs \<leftarrow> traverse2 f xs ys; Some (z # zs) }"
| "traverse2 f [] [] = Some []"
| "traverse2 f _ _ = None"

fun all2_until :: "('a \<Rightarrow> 'b \<Rightarrow> bool option) \<Rightarrow> 'a list \<Rightarrow> 'b list \<Rightarrow> bool option" where
  "all2_until f (x # xs) (y # ys) = do { b \<leftarrow> f x y; (if b then all2_until f xs ys else Some False) }"
| "all2_until f [] [] = Some True"
| "all2_until f _ _ = None"

lemma traverse2_total:
  assumes "length xs = length ys"
    and "\<And>i. i < length xs \<Longrightarrow> \<exists>z. f (xs ! i) (ys ! i) = Some z \<and> P i z"
  shows "\<exists>zs. traverse2 f xs ys = Some zs \<and> length zs = length xs \<and> (\<forall>i<length xs. P i (zs ! i))"
  using assms
proof (induction xs ys arbitrary: P rule: list_induct2)
  case (Cons x xs y ys)
  obtain z where z: "f x y = Some z" "P 0 z" using Cons.prems [of 0] by auto
  have "\<exists>z. f (xs ! i) (ys ! i) = Some z \<and> P (Suc i) z" if "i < length xs" for i
    using Cons.prems [of "Suc i"] that by simp
  then obtain zs where "traverse2 f xs ys = Some zs" "length zs = length xs"
    "\<forall>i<length xs. P (Suc i) (zs ! i)" using Cons.IH [of "\<lambda>i. P (Suc i)"] by auto
  then show ?case using z by (auto simp: nth_Cons split: nat.splits)
qed simp

lemma all2_until_total:
  assumes "length xs = length ys"
    and "\<And>i. i < length xs \<Longrightarrow> f (xs ! i) (ys ! i) = Some (P i)"
  shows "all2_until f xs ys = Some (\<forall>i<length xs. P i)"
  using assms
proof (induction xs ys arbitrary: P rule: list_induct2)
  case (Cons x xs y ys)
  have "f x y = Some (P 0)" using Cons.prems [of 0] by simp
  moreover have "all2_until f xs ys = Some (\<forall>i<length xs. P (Suc i))"
    using Cons.IH [of "\<lambda>i. P (Suc i)"] Cons.prems [of "Suc _"] by simp
  ultimately show ?case by (auto simp: All_less_Suc2)
qed simp

section \<open>Lists\<close>

lemma mset_list_update_swap:
  assumes "i < length xs" "j < length xs"
  shows "mset (xs[i := xs ! j, j := xs ! i]) = mset xs"
  using assms by (simp add: mset_swap)

lemma take_drop_update_outside [simp]:
  "n + d \<le> i \<Longrightarrow> take n (drop d (xs[i := v])) = take n (drop d xs)"
  by (rule nth_equalityI) auto

lemma map_upt_cong: "(\<And>i. i < n \<Longrightarrow> f i = g i) \<Longrightarrow> map f [0..<n] = map g [0..<n]"
  by auto

lemma sum_list_update_nat:
  fixes xs :: "nat list"
  assumes "i < length xs"
  shows "sum_list (xs[i := v]) + xs ! i = sum_list xs + v"
  using assms by (induction xs arbitrary: i) (auto split: nat.splits)

section \<open>Words\<close>

named_theorems word_bits \<open>the bit of a word expression\<close>

lemma bit_mask_shift [word_bits]:
  fixes n :: nat
  shows "bit (NOT (push_bit k (NOT 0)) :: 'a::len word) n \<longleftrightarrow> n < k \<and> n < LENGTH('a)"
  by (auto simp: bit_simps)

lemma unat_drop_bit: "unat (drop_bit k w) = unat w div 2 ^ k"
  for w :: "'a::len word"
  by (simp add: unat_drop_bit_eq flip: drop_bit_eq_div)

lemma unat_take_bit: "unat (take_bit k w) = unat w mod 2 ^ k"
  for w :: "'a::len word"
  by (simp add: unsigned_take_bit_eq flip: take_bit_eq_mod)

lemma word_test_bit: "(w AND push_bit i 1) \<noteq> 0 \<longleftrightarrow> bit w i" for w :: "'a::len word"
proof -
  have "w AND push_bit i 1 = (if bit w i then push_bit i 1 else 0)"
    by (rule bit_eqI) (auto simp: bit_simps)
  moreover have "bit (push_bit i 1 :: 'a word) i" if "bit w i"
    using that by (auto simp: bit_simps dest: bit_imp_le_length)
  ultimately show ?thesis by (auto dest: bit_imp_le_length)
qed

lemma word_eq_0_iff_bits: "w = 0 \<longleftrightarrow> (\<forall>i. \<not> bit w i)" for w :: "'a::len word"
  using bit_word_eqI [of w 0] by auto

lemma finite_word_bits [simp]: "finite {i. bit w i}" for w :: "'a::len word"
  by (rule finite_subset [of _ "{..<LENGTH('a)}"]) (auto dest: bit_imp_le_length)

lemma nat_and_63: "n AND 63 = n mod 64" for n :: nat
  using take_bit_eq_mask [of 6 n] by (simp add: take_bit_eq_mod mask_eq_exp_minus_1)

lemma sint_nonneg_unat:
  fixes w :: "64 word"
  assumes "0 \<le> sint w"
  shows "sint w = int (unat w)"
proof -
  have "sint w < 2 ^ 64" using sint_lt [of w] by simp
  then have "take_bit 64 (sint w) = sint w" using assms by (intro take_bit_int_eq_self)
  then show ?thesis using uint_sint [of w] by simp
qed

section \<open>Division\<close>

lemma int_div_less:
  fixes a k n :: int
  assumes "0 < k" "a < n * k"
  shows "a div k < n"
proof (rule ccontr)
  assume "\<not> a div k < n"
  then have "n * k \<le> a div k * k" using assms(1) by (intro mult_right_mono) auto
  also have "\<dots> \<le> a"
    using assms(1) by (simp add: minus_mod_eq_div_mult [symmetric])
  finally show False using assms(2) by simp
qed

lemma int_mod_2_power_less: "int (x mod 2 ^ k) < 2 ^ k"
  by (simp add: of_nat_mod)

end
