(* ===== verification/Prio_Heap.thy ===== *)
theory Prio_Heap
  imports Prelude
begin

text \<open>
  \<open>common/PrioHeap.h\<close>: the binary heap behind the event queue and the message buffers.
  The comparison \<open>node_less_then_eq\<close> of the element type is the argument \<open>le\<close>; it may
  abort (the one of the message buffers asserts that arrival counters differ), hence its type
  \<open>'a \<Rightarrow> 'a \<Rightarrow> bool option\<close>.

  The loops are modelled twice: as the code runs them, and as \<open>sift_up\<close> and \<open>sift_down\<close>
  over a total order \<open>r\<close>.  On a heap whose elements \<open>le\<close> can compare, both agree; the
  heap property and the multiset of elements are then shown of the pure loops.  The interface
  locale \<open>priority_queue\<close> is what the clients of the heap rely on.
\<close>

section \<open>The heap\<close>

record 'a prio_heap =
  m_heap :: "'a list"
  m_current_size :: nat

definition get_parent :: "nat \<Rightarrow> nat" where
  "get_parent i = drop_bit 1 i"

definition get_right :: "nat \<Rightarrow> nat" where
  "get_right i = push_bit 1 i OR 1"

definition get_left :: "nat \<Rightarrow> nat" where
  "get_left i = push_bit 1 i"

text \<open>The comments in the source state the arithmetic meaning of the three index functions.\<close>

lemma get_parent_eq [simp]: "get_parent i = i div 2"
  by (simp add: get_parent_def drop_bit_eq_div)

lemma get_left_eq [simp]: "get_left i = 2 * i"
  by (simp add: get_left_def push_bit_eq_mult)

lemma get_right_eq [simp]: "get_right i = 2 * i + 1"
  by (simp add: get_right_def push_bit_eq_mult or_Suc_0_eq)

text \<open>\<open>Vector::setSize\<close> leaves fresh slots with whatever the storage held; \<open>pad\<close> stands
  for that value, and every slot is written before it is read.\<close>

definition vec_setSize :: "nat \<Rightarrow> 'a \<Rightarrow> 'a list \<Rightarrow> 'a list" where
  "vec_setSize n pad xs = take n xs @ replicate (n - length xs) pad"

definition vec_ref :: "'a list \<Rightarrow> int \<Rightarrow> 'a option" where
  "vec_ref xs i = do { assert_that (0 \<le> i \<and> i < int (length xs)); Some (xs ! nat i) }"

definition heap_init :: "'a prio_heap" where
  "heap_init = \<lparr> m_heap = [], m_current_size = 0 \<rparr>"

definition heap_size :: "'a prio_heap \<Rightarrow> nat" where
  "heap_size h = m_current_size h"

fun insert_loop :: "('a \<Rightarrow> 'a \<Rightarrow> bool option) \<Rightarrow> 'a \<Rightarrow> 'a list \<Rightarrow> nat \<Rightarrow> ('a list \<times> nat) option" where
  "insert_loop le key a i =
     (if i > 1 then do {
        b \<leftarrow> le key (a ! get_parent i);
        (if b then insert_loop le key (a[i := a ! get_parent i]) (get_parent i) else Some (a, i))
      } else Some (a, i))"

declare insert_loop.simps [simp del]

definition heap_insert :: "('a \<Rightarrow> 'a \<Rightarrow> bool option) \<Rightarrow> 'a \<Rightarrow> 'a prio_heap \<Rightarrow> 'a prio_heap option" where
  "heap_insert le key h = do {
     let n = m_current_size h + 1;
     let a = vec_setSize (n + 1) key (m_heap h);
     let a = (if n = 1 then a[0 := key] else a);
     (a, i) \<leftarrow> insert_loop le key a n;
     Some \<lparr> m_heap = a[i := key], m_current_size = n \<rparr> }"

definition peekMin :: "'a prio_heap \<Rightarrow> 'a option" where
  "peekMin h = do { assert_that (heap_size h > 0); Some (m_heap h ! 1) }"

definition peekElement :: "'a prio_heap \<Rightarrow> int \<Rightarrow> 'a option" where
  "peekElement h index = do { assert_that (heap_size h > 0); vec_ref (m_heap h) index }"

function heapify_loop :: "('a \<Rightarrow> 'a \<Rightarrow> bool option) \<Rightarrow> nat \<Rightarrow> 'a list \<Rightarrow> nat \<Rightarrow> 'a list option" where
  "heapify_loop le n a current_node =
     (let left = get_left current_node; right = get_right current_node in
      case (if left \<le> n then le (a ! left) (a ! current_node) else Some False) of
        None \<Rightarrow> None
      | Some b \<Rightarrow>
          (let smallest = (if b then left else current_node) in
           case (if right \<le> n then le (a ! right) (a ! smallest) else Some False) of
             None \<Rightarrow> None
           | Some b' \<Rightarrow>
               (let smallest' = (if b' then right else smallest) in
                if smallest' = current_node then Some a
                else heapify_loop le n
                       (a[current_node := a ! smallest', smallest' := a ! current_node])
                       smallest')))"
  by auto
termination
  by (relation "measure (\<lambda>(le, n, a, i). n - i)") (auto split: if_splits)

declare heapify_loop.simps [simp del]

definition extractMin :: "('a \<Rightarrow> 'a \<Rightarrow> bool option) \<Rightarrow> 'a prio_heap \<Rightarrow> ('a \<times> 'a prio_heap) option" where
  "extractMin le h = do {
     assert_that (heap_size h > 0);
     let temp = m_heap h ! 1;
     let a = (m_heap h)[1 := m_heap h ! m_current_size h];
     let n = m_current_size h - 1;
     a \<leftarrow> heapify_loop le n a 1;
     Some (temp, \<lparr> m_heap = a, m_current_size = n \<rparr>) }"

function verifyHeap_at :: "('a \<Rightarrow> 'a \<Rightarrow> bool option) \<Rightarrow> 'a prio_heap \<Rightarrow> nat \<Rightarrow> bool option" where
  "verifyHeap_at le h index =
     (if index > m_current_size h then Some True
      else if index = 0 then None
      else if index = 1 then do {
        b \<leftarrow> verifyHeap_at le h (get_right index);
        (if b then verifyHeap_at le h (get_left index) else Some False) }
      else do {
        c \<leftarrow> le (m_heap h ! get_parent index) (m_heap h ! index);
        (if c then do {
           b \<leftarrow> verifyHeap_at le h (get_right index);
           (if b then verifyHeap_at le h (get_left index) else Some False) }
         else Some False) })"
  by auto
termination
  by (relation "measure (\<lambda>(le, h, i). Suc (m_current_size h) - i)") auto

text \<open>\<open>verifyHeap(0)\<close> would call itself forever (0 is its own left child); it is the value
  \<open>None\<close> here, and \<open>verifyHeap()\<close> starts at 1.\<close>

declare verifyHeap_at.simps [simp del]

definition verifyHeap :: "('a \<Rightarrow> 'a \<Rightarrow> bool option) \<Rightarrow> 'a prio_heap \<Rightarrow> bool option" where
  "verifyHeap le h = verifyHeap_at le h 1"

section \<open>Abstraction and invariant\<close>

definition elems_of :: "nat \<Rightarrow> 'a list \<Rightarrow> 'a multiset" where
  "elems_of n a = mset (take n (tl a))"

definition heap_elems :: "'a prio_heap \<Rightarrow> 'a multiset" where
  "heap_elems h = elems_of (m_current_size h) (m_heap h)"

definition is_heap :: "('a \<Rightarrow> 'a \<Rightarrow> bool) \<Rightarrow> nat \<Rightarrow> 'a list \<Rightarrow> bool" where
  "is_heap r n a \<longleftrightarrow> (\<forall>j\<in>{2..n}. r (a ! (j div 2)) (a ! j))"

definition heap_invar :: "('a \<Rightarrow> 'a \<Rightarrow> bool) \<Rightarrow> 'a prio_heap \<Rightarrow> bool" where
  "heap_invar r h \<longleftrightarrow> (m_current_size h > 0 \<longrightarrow> m_current_size h < length (m_heap h))
                      \<and> is_heap r (m_current_size h) (m_heap h)"

text \<open>\<open>le\<close> answers as \<open>r\<close> on any two elements of \<open>M\<close> (two occurrences of one value are
  two elements).\<close>

definition comparable :: "('a \<Rightarrow> 'a \<Rightarrow> bool option) \<Rightarrow> ('a \<Rightarrow> 'a \<Rightarrow> bool) \<Rightarrow> 'a multiset \<Rightarrow> bool" where
  "comparable le r M \<longleftrightarrow> (\<forall>x y. {#x, y#} \<subseteq># M \<longrightarrow> le x y = Some (r x y))"

definition total_preorder :: "('a \<Rightarrow> 'a \<Rightarrow> bool) \<Rightarrow> bool" where
  "total_preorder r \<longleftrightarrow> (\<forall>x y. r x y \<or> r y x) \<and> (\<forall>x y z. r x y \<longrightarrow> r y z \<longrightarrow> r x z)"

lemma total_preorderD:
  assumes "total_preorder r"
  shows "r x x" "r x y \<or> r y x" "\<lbrakk> r x y; r y z \<rbrakk> \<Longrightarrow> r x z"
  using assms unfolding total_preorder_def by blast+

lemma comparable_mono: "\<lbrakk> comparable le r M; N \<subseteq># M \<rbrakk> \<Longrightarrow> comparable le r N"
  unfolding comparable_def by (meson subset_mset.order_trans)

lemma elems_of_update:
  assumes "1 \<le> i" "i \<le> n" "n < length a"
  shows "elems_of n (a[i := x]) = add_mset x (elems_of n a - {#a ! i#})"
proof -
  have "take n (tl (a[i := x])) = (take n (tl a))[i - 1 := x]"
    using assms by (cases a) (auto simp: take_update_swap split: nat.splits)
  moreover have "take n (tl a) ! (i - 1) = a ! i"
    using assms by (cases a) (auto simp: nth_Cons split: nat.splits)
  ultimately show ?thesis
    using assms by (simp add: elems_of_def mset_update)
qed

lemma elems_of_swap:
  assumes "1 \<le> i" "i \<le> n" "1 \<le> j" "j \<le> n" "n < length a"
  shows "elems_of n (a[i := a ! j, j := a ! i]) = elems_of n a"
proof -
  obtain x xs where a: "a = x # xs" using assms by (cases a) auto
  obtain i' j' where ij: "i = Suc i'" "j = Suc j'" using assms by (cases i; cases j) auto
  have "mset ((take n xs)[i' := take n xs ! j', j' := take n xs ! i']) = mset (take n xs)"
    using assms a ij by (intro mset_list_update_swap) auto
  then show ?thesis using assms a ij by (simp add: elems_of_def take_update_swap)
qed

lemma nth_in_elems_of:
  assumes "1 \<le> i" "i \<le> n" "n < length a"
  shows "a ! i \<in># elems_of n a"
proof -
  obtain x xs where a: "a = x # xs" using assms by (cases a) auto
  obtain i' where i: "i = Suc i'" using assms by (cases i) auto
  have "take n xs ! i' \<in> set (take n xs)" using assms a i by (intro nth_mem) auto
  then show ?thesis using assms a i by (simp add: elems_of_def)
qed

lemma pair_in_elems_of:
  assumes "1 \<le> i" "i \<le> n" "1 \<le> j" "j \<le> n" "i \<noteq> j" "n < length a"
  shows "{#a ! i, a ! j#} \<subseteq># elems_of n a"
proof -
  have e: "elems_of n a = add_mset (a ! i) (elems_of n a - {#a ! i#})"
    using elems_of_update [of i n a "a ! i"] assms by simp
  have "a ! j \<in># elems_of n a - {#a ! i#}"
  proof (cases "a ! i = a ! j")
    case False
    then show ?thesis using nth_in_elems_of [of j n a] assms by (simp add: in_diff_count)
  next
    case True
    obtain x xs where a: "a = x # xs" using assms by (cases a) auto
    obtain i' j' where ij: "i = Suc i'" "j = Suc j'" using assms by (cases i; cases j) auto
    let ?ys = "take n xs"
    have l: "i' < length ?ys" "j' < length ?ys" using assms a ij by auto
    have "{i', j'} \<subseteq> {k. k < length ?ys \<and> a ! i = ?ys ! k}"
      using l True a ij assms by auto
    then have "card {i', j'} \<le> length (filter ((=) (a ! i)) ?ys)"
      unfolding length_filter_conv_card by (intro card_mono) auto
    then have "2 \<le> count (mset ?ys) (a ! i)"
      using assms(5) ij by (simp add: count_mset count_list_eq_length_filter)
    then show ?thesis using True a by (simp add: elems_of_def in_diff_count)
  qed
  then show ?thesis using e by (metis insert_subset_eq_iff mset_subset_eq_single
        union_single_eq_member mset_subset_eq_add_mset_cancel)
qed

lemma comparable_nth:
  assumes "comparable le r (elems_of n a)" "1 \<le> i" "i \<le> n" "1 \<le> j" "j \<le> n" "i \<noteq> j"
    "n < length a"
  shows "le (a ! i) (a ! j) = Some (r (a ! i) (a ! j))"
  using assms pair_in_elems_of [of i n j a] by (simp add: comparable_def)

section \<open>The loops over a total order\<close>

fun sift_up :: "('a \<Rightarrow> 'a \<Rightarrow> bool) \<Rightarrow> 'a \<Rightarrow> 'a list \<Rightarrow> nat \<Rightarrow> 'a list \<times> nat" where
  "sift_up r key a i =
     (if i > 1 \<and> r key (a ! (i div 2)) then sift_up r key (a[i := a ! (i div 2)]) (i div 2)
      else (a, i))"

declare sift_up.simps [simp del]

definition least_of :: "('a \<Rightarrow> 'a \<Rightarrow> bool) \<Rightarrow> nat \<Rightarrow> 'a list \<Rightarrow> nat \<Rightarrow> nat" where
  "least_of r n a i =
     (let s = (if 2 * i \<le> n \<and> r (a ! (2 * i)) (a ! i) then 2 * i else i)
      in if 2 * i + 1 \<le> n \<and> r (a ! (2 * i + 1)) (a ! s) then 2 * i + 1 else s)"

lemma least_of_cases:
  "least_of r n a i = i \<or> (least_of r n a i \<in> {2 * i, 2 * i + 1} \<and> least_of r n a i \<le> n)"
  by (auto simp: least_of_def Let_def)

function sift_down :: "('a \<Rightarrow> 'a \<Rightarrow> bool) \<Rightarrow> nat \<Rightarrow> 'a list \<Rightarrow> nat \<Rightarrow> 'a list" where
  "sift_down r n a i =
     (let s = least_of r n a i in
      if s = i then a else sift_down r n (a[i := a ! s, s := a ! i]) s)"
  by auto
termination
proof (relation "measure (\<lambda>(r, n, a, i). n - i)", goal_cases)
  case (2 r n a i s)
  then show ?case using least_of_cases [of r n a i] by auto
qed simp

declare sift_down.simps [simp del]

text \<open>Every element of the heap is above the root.\<close>

lemma is_heap_root:
  assumes "total_preorder r" "is_heap r n a" "1 \<le> i" "i \<le> n"
  shows "r (a ! 1) (a ! i)"
  using assms(3,4)
proof (induction i rule: less_induct)
  case (less i)
  show ?case
  proof (cases "i = 1")
    case True
    then show ?thesis using total_preorderD(1) [OF assms(1)] by simp
  next
    case False
    then have "r (a ! 1) (a ! (i div 2))" using less by auto
    moreover have "r (a ! (i div 2)) (a ! i)"
      using assms(2) False less.prems by (auto simp: is_heap_def)
    ultimately show ?thesis using total_preorderD(3) [OF assms(1)] by blast
  qed
qed

text \<open>Sifting up: the array with the key written at \<open>i\<close> is a heap but for the edge above
  \<open>i\<close>.\<close>

definition heap_but_above :: "('a \<Rightarrow> 'a \<Rightarrow> bool) \<Rightarrow> nat \<Rightarrow> 'a list \<Rightarrow> nat \<Rightarrow> bool" where
  "heap_but_above r n v i \<longleftrightarrow>
     (\<forall>j\<in>{2..n}. j \<noteq> i \<longrightarrow> r (v ! (j div 2)) (v ! j)) \<and>
     (\<forall>j\<in>{2..n}. 2 \<le> i \<and> j div 2 = i \<longrightarrow> r (v ! (i div 2)) (v ! j))"

lemma heap_but_above_step:
  assumes r: "total_preorder r" and h: "heap_but_above r n v i"
    and i: "1 < i" "i \<le> n" "n < length v" and k: "r (v ! i) (v ! (i div 2))"
  shows "heap_but_above r n (v[i := v ! (i div 2), i div 2 := v ! i]) (i div 2)"
proof -
  let ?p = "i div 2"
  let ?w = "v[i := v ! ?p, ?p := v ! i]"
  have p: "?p < i" "1 \<le> ?p" "?p \<le> n" using i by auto
  have w: "?w ! j = (if j = ?p then v ! i else if j = i then v ! ?p else v ! j)" if "j \<le> n" for j
    using that i p by (auto simp: nth_list_update)
  have e: "r (v ! (j div 2)) (v ! j)" if "j \<in> {2..n}" "j \<noteq> i" for j
    using h that by (simp add: heap_but_above_def)
  have g: "r (v ! ?p) (v ! j)" if "j \<in> {2..n}" "j div 2 = i" for j
    using h that i by (simp add: heap_but_above_def)
  note tr = total_preorderD(3) [OF r]
  have "r (?w ! (j div 2)) (?w ! j)" if j: "j \<in> {2..n}" "j \<noteq> ?p" for j
  proof -
    have jn: "j \<le> n" "j div 2 \<le> n" "j div 2 \<noteq> j" using j by auto
    show ?thesis
      using j e [of j] g [of j] k tr [of "v ! i" "v ! ?p" "v ! j"] p
      unfolding w [OF jn(1)] w [OF jn(2)] by (cases "j = i"; cases "j div 2 = i"; auto)
  qed
  moreover have "r (?w ! (?p div 2)) (?w ! j)" if j: "j \<in> {2..n}" "2 \<le> ?p" "j div 2 = ?p" for j
  proof -
    have jn: "j \<le> n" "?p div 2 \<le> n" "?p div 2 \<noteq> ?p" "?p div 2 \<noteq> i" using j p by auto
    have "r (v ! (?p div 2)) (v ! ?p)" using e [of ?p] p j by auto
    moreover have "j \<noteq> i \<Longrightarrow> r (v ! ?p) (v ! j)" using e [of j] j by auto
    ultimately show ?thesis
      using j tr [of "v ! (?p div 2)" "v ! ?p" "v ! j"] jn p
      unfolding w [OF jn(1)] w [OF jn(2)] by (cases "j = i") auto
  qed
  ultimately show ?thesis unfolding heap_but_above_def by blast
qed

lemma sift_up_correct:
  assumes r: "total_preorder r" and "1 \<le> i" "i \<le> n" "n < length a"
    and "heap_but_above r n (a[i := key]) i" and "sift_up r key a i = (a', i')"
  shows "length a' = length a \<and> is_heap r n (a'[i' := key]) \<and>
         elems_of n (a'[i' := key]) = elems_of n (a[i := key])"
  using assms
proof (induction r key a i rule: sift_up.induct)
  case (1 r key a i)
  let ?p = "i div 2" and ?v = "a[i := key]"
  show ?case
  proof (cases "i > 1 \<and> r key (a ! ?p)")
    case True
    let ?a = "a[i := a ! ?p]"
    have p: "?p < i" "1 \<le> ?p" "?p \<le> n" using True 1 by auto
    have sw: "?a[?p := key] = ?v[i := ?v ! ?p, ?p := ?v ! i]"
      using p 1 by (simp add: list_update_swap)
    have "heap_but_above r n (?a[?p := key]) ?p"
      unfolding sw using 1 True p by (intro heap_but_above_step) auto
    moreover have "elems_of n (?a[?p := key]) = elems_of n ?v"
      unfolding sw using 1 p by (intro elems_of_swap) auto
    moreover have "sift_up r key ?a ?p = (a', i')"
      using 1 True by (simp add: sift_up.simps [of r key a i])
    ultimately show ?thesis using 1(1) [OF True] p 1 by auto
  next
    case False
    then have ai: "a' = a" "i' = i" using 1 by (auto simp: sift_up.simps [of r key a i])
    have "r (?v ! ?p) (?v ! i)" if "i > 1"
      using False that total_preorderD(2) [OF 1(2), of key "a ! ?p"] 1 by auto
    then have "is_heap r n ?v"
      using 1 unfolding is_heap_def heap_but_above_def by (metis atLeastAtMost_iff one_less_numeral_iff
          less_le_trans semiring_norm(76))
    then show ?thesis using ai by simp
  qed
qed

text \<open>Sifting down: the array is a heap but for the edges below \<open>i\<close>.\<close>

definition heap_but_below :: "('a \<Rightarrow> 'a \<Rightarrow> bool) \<Rightarrow> nat \<Rightarrow> 'a list \<Rightarrow> nat \<Rightarrow> bool" where
  "heap_but_below r n v i \<longleftrightarrow>
     (\<forall>j\<in>{2..n}. j div 2 \<noteq> i \<longrightarrow> r (v ! (j div 2)) (v ! j)) \<and>
     (\<forall>j\<in>{2..n}. 2 \<le> i \<and> j div 2 = i \<longrightarrow> r (v ! (i div 2)) (v ! j))"

text \<open>The chosen child is below its sibling and, when nothing is chosen, the node is below both
  children.\<close>

lemma least_of_least:
  assumes r: "total_preorder r" and j: "j \<in> {2..n}" "j div 2 = i"
  shows "r (v ! least_of r n v i) (v ! j)" and "r (v ! least_of r n v i) (v ! i)"
proof -
  have ji: "j = 2 * i \<or> j = 2 * i + 1" "j \<le> n" using j by auto
  note refl = total_preorderD(1) [OF r]
  note tot = total_preorderD(2) [OF r]
  have t: "r (v ! (2 * i + 1)) (v ! (2 * i)) \<Longrightarrow> r (v ! (2 * i)) (v ! i) \<Longrightarrow>
           r (v ! (2 * i + 1)) (v ! i)"
    "r (v ! (2 * i + 1)) (v ! i) \<Longrightarrow> r (v ! i) (v ! (2 * i)) \<Longrightarrow>
           r (v ! (2 * i + 1)) (v ! (2 * i))"
    using total_preorderD(3) [OF r] by blast+
  show "r (v ! least_of r n v i) (v ! i)"
    using refl [of "v ! i"] t by (auto simp: least_of_def Let_def)
  show "r (v ! least_of r n v i) (v ! j)"
    using ji refl [of "v ! (2 * i)"] refl [of "v ! (2 * i + 1)"] t
      tot [of "v ! (2 * i)" "v ! i"] tot [of "v ! (2 * i + 1)" "v ! i"]
      tot [of "v ! (2 * i + 1)" "v ! (2 * i)"]
    by (auto simp: least_of_def Let_def)
qed

lemma heap_but_below_step:
  assumes r: "total_preorder r" and h: "heap_but_below r n v i"
    and i: "1 \<le> i" "i \<le> n" "n < length v" and s: "s = least_of r n v i" "s \<noteq> i"
  shows "heap_but_below r n (v[i := v ! s, s := v ! i]) s"
proof -
  let ?w = "v[i := v ! s, s := v ! i]"
  have sn: "s div 2 = i" "s \<le> n" "2 \<le> s" using least_of_cases [of r n v i] s i by auto
  have w: "?w ! j = (if j = s then v ! i else if j = i then v ! s else v ! j)" if "j \<le> n" for j
    using that i sn by (auto simp: nth_list_update)
  have e: "r (v ! (j div 2)) (v ! j)" if "j \<in> {2..n}" "j div 2 \<noteq> i" for j
    using h that by (simp add: heap_but_below_def)
  have g: "r (v ! (i div 2)) (v ! j)" if "j \<in> {2..n}" "2 \<le> i" "j div 2 = i" for j
    using h that by (simp add: heap_but_below_def)
  have l: "r (v ! s) (v ! j)" if "j \<in> {2..n}" "j div 2 = i" for j
    using least_of_least(1) [OF r that] s by simp
  have si: "r (v ! s) (v ! i)"
    using least_of_least(2) [OF r, of s n i v] s sn by simp
  have "r (?w ! (j div 2)) (?w ! j)" if j: "j \<in> {2..n}" "j div 2 \<noteq> s" for j
  proof -
    have jn: "j \<le> n" "j div 2 \<le> n" "j div 2 \<noteq> j" using j by auto
    show ?thesis
    proof (cases "j = s")
      case True
      then show ?thesis using si sn s unfolding w [OF jn(1)] w [OF jn(2)] by simp
    next
      case js: False
      show ?thesis
      proof (cases "j div 2 = i")
        case True
        then have "j \<noteq> i" using j by auto
        then show ?thesis using l [OF j(1) True] js True s(2) unfolding w [OF jn(1)] w [OF jn(2)] by simp
      next
        case False
        have "j = i \<Longrightarrow> r (v ! (i div 2)) (v ! s)" using g [of s] j sn by simp
        then show ?thesis using e [OF j(1) False] js j(2) False
          unfolding w [OF jn(1)] w [OF jn(2)] by simp
      qed
    qed
  qed
  moreover have "r (?w ! (s div 2)) (?w ! j)" if j: "j \<in> {2..n}" "j div 2 = s" for j
  proof -
    have jn: "j \<le> n" "s div 2 \<le> n" "j \<noteq> s" "j \<noteq> i" using j sn i by auto
    then show ?thesis
      using j sn s e [of j] unfolding w [OF jn(1)] w [OF jn(2)] by auto
  qed
  ultimately show ?thesis unfolding heap_but_below_def by blast
qed

lemma sift_down_correct:
  assumes "total_preorder r" "1 \<le> i" "i \<le> n" "n < length a" "heap_but_below r n a i"
  shows "length (sift_down r n a i) = length a \<and> is_heap r n (sift_down r n a i) \<and>
         elems_of n (sift_down r n a i) = elems_of n a"
  using assms
proof (induction r n a i rule: sift_down.induct)
  case (1 r n a i)
  define s where "s = least_of r n a i"
  show ?case
  proof (cases "s = i")
    case True
    have "r (a ! (j div 2)) (a ! j)" if "j \<in> {2..n}" for j
    proof (cases "j div 2 = i")
      case True
      then show ?thesis using least_of_least(1) [OF 1(2) that True, of a] \<open>s = i\<close> s_def by simp
    next
      case False
      then show ?thesis using 1(6) that by (simp add: heap_but_below_def)
    qed
    then show ?thesis using True s_def by (simp add: sift_down.simps [of r n a i] is_heap_def)
  next
    case False
    let ?w = "a[i := a ! s, s := a ! i]"
    have sn: "1 \<le> s" "s \<le> n" using least_of_cases [of r n a i] False s_def 1 by auto
    have "heap_but_below r n ?w s" using heap_but_below_step [OF 1(2,6)] 1 s_def False by simp
    moreover have "elems_of n ?w = elems_of n a" using 1 sn by (intro elems_of_swap) auto
    moreover have "sift_down r n a i = sift_down r n ?w s"
      using False s_def by (simp add: sift_down.simps [of r n a i] Let_def)
    ultimately show ?thesis using 1(1) [OF s_def False 1(2)] sn 1 by simp
  qed
qed

section \<open>The code runs the loops\<close>

lemma elems_of_Suc:
  "Suc n < length a \<Longrightarrow> elems_of (Suc n) a = add_mset (a ! Suc n) (elems_of n a)"
  by (cases a) (simp_all add: elems_of_def take_Suc_conv_app_nth)

lemma elems_of_cong:
  assumes "n < length a" "n < length b" "\<And>i. \<lbrakk> 1 \<le> i; i \<le> n \<rbrakk> \<Longrightarrow> a ! i = b ! i"
  shows "elems_of n a = elems_of n b"
proof -
  have "take n (tl a) = take n (tl b)"
    using assms by (intro nth_equalityI) (auto simp: nth_tl)
  then show ?thesis by (simp add: elems_of_def)
qed

lemma insert_loop_sift_up:
  assumes "1 \<le> i" "i \<le> n" "n < length a" "comparable le r (elems_of n (a[i := key]))"
  shows "insert_loop le key a i = Some (sift_up r key a i)"
  using assms
proof (induction r key a i rule: sift_up.induct)
  case (1 r key a i)
  let ?p = "i div 2" and ?v = "a[i := key]"
  show ?case
  proof (cases "i > 1")
    case True
    have p: "?p < i" "1 \<le> ?p" "?p \<le> n" using True 1 by auto
    have cmp: "le key (a ! ?p) = Some (r key (a ! ?p))"
      using comparable_nth [OF 1(5), of i ?p] 1 p by simp
    have sw: "a[i := a ! ?p, ?p := key] = ?v[i := ?v ! ?p, ?p := ?v ! i]"
      using p 1 by (simp add: list_update_swap)
    have "elems_of n (a[i := a ! ?p, ?p := key]) = elems_of n ?v"
      unfolding sw using 1 p by (intro elems_of_swap) auto
    then show ?thesis
      using 1 p True cmp
      by (simp add: sift_up.simps [of r key a i] insert_loop.simps [of le key a i])
  next
    case False
    then show ?thesis by (simp add: sift_up.simps insert_loop.simps)
  qed
qed

lemma heapify_loop_sift_down:
  assumes "1 \<le> i" "n < length a" "comparable le r (elems_of n a)"
  shows "heapify_loop le n a i = Some (sift_down r n a i)"
  using assms
proof (induction r n a i rule: sift_down.induct)
  case (1 r n a i)
  define s where "s = least_of r n a i"
  note cmp = comparable_nth [OF 1(4)]
  have step: "heapify_loop le n a i =
      (if s = i then Some a else heapify_loop le n (a[i := a ! s, s := a ! i]) s)"
    using 1(2,3) cmp [of "2 * i" i] cmp [of "2 * i + 1" i] cmp [of "2 * i + 1" "2 * i"]
    by (subst heapify_loop.simps) (auto simp: s_def least_of_def Let_def)
  show ?case
  proof (cases "s = i")
    case False
    have sn: "1 \<le> s" "s \<le> n" "i \<le> n" using least_of_cases [of r n a i] False s_def 1 by auto
    have "elems_of n (a[i := a ! s, s := a ! i]) = elems_of n a"
      using 1 sn by (intro elems_of_swap) auto
    then show ?thesis using 1(1) [OF s_def False] 1 sn step False s_def
      by (simp add: sift_down.simps [of r n a i] Let_def)
  qed (simp add: step sift_down.simps [of r n a i] flip: s_def)
qed

lemma heap_insert_correct:
  assumes r: "total_preorder r" and h: "heap_invar r h"
    and c: "comparable le r (add_mset key (heap_elems h))"
  shows "\<exists>h'. heap_insert le key h = Some h' \<and> heap_invar r h' \<and>
              heap_elems h' = add_mset key (heap_elems h)"
proof -
  let ?n = "Suc (m_current_size h)"
  define a0 where "a0 = vec_setSize (?n + 1) key (m_heap h)"
  define a where "a = (if ?n = 1 then a0[0 := key] else a0)"
  have len: "length a = ?n + 1" by (auto simp: a_def a0_def vec_setSize_def min_def)
  have old: "a ! i = m_heap h ! i" if "1 \<le> i" "i < ?n" for i
    using that h by (auto simp: a_def a0_def vec_setSize_def heap_invar_def nth_append)
  have e: "elems_of ?n (a[?n := key]) = add_mset key (heap_elems h)"
  proof (cases "m_current_size h = 0")
    case False
    then have "elems_of (m_current_size h) (a[?n := key]) = heap_elems h"
      using len old h unfolding heap_elems_def
      by (intro elems_of_cong) (auto simp: heap_invar_def)
    then show ?thesis using len by (simp add: elems_of_Suc)
  qed (use len in \<open>simp add: elems_of_Suc heap_elems_def\<close>, simp add: elems_of_def)
  have but: "heap_but_above r ?n (a[?n := key]) ?n"
  proof -
    have "r (a[?n := key] ! (j div 2)) (a[?n := key] ! j)" if "j \<in> {2..?n}" "j \<noteq> ?n" for j
      using that h old [of j] old [of "j div 2"] by (auto simp: heap_invar_def is_heap_def)
    then show ?thesis by (auto simp: heap_but_above_def)
  qed
  obtain a' i' where s: "sift_up r key a ?n = (a', i')" by (cases "sift_up r key a ?n")
  have loop: "insert_loop le key a ?n = Some (a', i')"
    using insert_loop_sift_up [of ?n ?n a le r key] len c e s by simp
  have ok: "length a' = length a" "is_heap r ?n (a'[i' := key])"
    "elems_of ?n (a'[i' := key]) = add_mset key (heap_elems h)"
    using sift_up_correct [OF r _ _ _ but s] len e by auto
  have "heap_insert le key h = Some \<lparr> m_heap = a'[i' := key], m_current_size = ?n \<rparr>"
    using loop unfolding a_def a0_def by (auto simp: heap_insert_def Let_def)
  then show ?thesis using ok len by (simp add: heap_invar_def heap_elems_def)
qed

lemma heap_extract_correct:
  assumes r: "total_preorder r" and h: "heap_invar r h" and c: "comparable le r (heap_elems h)"
    and n: "heap_size h > 0"
  shows "\<exists>h'. extractMin le h = Some (m_heap h ! 1, h') \<and> heap_invar r h' \<and>
              heap_elems h = add_mset (m_heap h ! 1) (heap_elems h') \<and>
              (\<forall>y\<in>#heap_elems h. r (m_heap h ! 1) y)"
proof -
  let ?a = "m_heap h"
  obtain n where sz: "m_current_size h = Suc n" using n by (cases "m_current_size h") (auto simp: heap_size_def)
  have len: "Suc n < length ?a" and heap: "is_heap r (Suc n) ?a"
    using h sz by (auto simp: heap_invar_def)
  define b where "b = ?a[1 := ?a ! Suc n]"
  have lb: "length b = length ?a" by (simp add: b_def)
  have eb: "elems_of n (b[Suc n := ?a ! 1]) = elems_of n b"
    using len lb by (intro elems_of_cong) auto
  have "elems_of (Suc n) ?a = elems_of (Suc n) (?a[1 := ?a ! Suc n, Suc n := ?a ! 1])"
    using len elems_of_swap [of 1 "Suc n" "Suc n" ?a] by simp
  also have "\<dots> = add_mset (?a ! 1) (elems_of n b)"
    using len eb by (simp add: elems_of_Suc b_def)
  finally have e: "heap_elems h = add_mset (?a ! 1) (elems_of n b)"
    by (simp add: heap_elems_def sz)
  have but: "heap_but_below r n b 1"
    using heap len by (auto simp: heap_but_below_def is_heap_def b_def nth_list_update)
  have cb: "comparable le r (elems_of n b)" using comparable_mono [OF c] e by simp
  have loop: "heapify_loop le n b 1 = Some (sift_down r n b 1)"
    using heapify_loop_sift_down [OF _ _ cb] len lb by simp
  have ok: "length (sift_down r n b 1) = length b \<and> is_heap r n (sift_down r n b 1) \<and>
            elems_of n (sift_down r n b 1) = elems_of n b"
  proof (cases n)
    case 0
    then have "sift_down r n b 1 = b" by (simp add: sift_down.simps least_of_def Let_def)
    then show ?thesis using 0 by (simp add: is_heap_def)
  qed (use sift_down_correct [OF r _ _ _ but] len lb in auto)
  have x: "extractMin le h = Some (?a ! 1, \<lparr> m_heap = sift_down r n b 1, m_current_size = n \<rparr>)"
    using loop n sz by (simp add: extractMin_def Let_def b_def)
  have "r (?a ! 1) y" if y: "y \<in># heap_elems h" for y
  proof -
    have "y \<in> set (take (Suc n) (tl ?a))" using y by (simp add: heap_elems_def elems_of_def sz)
    then obtain k where "k < Suc n" "y = ?a ! Suc k" using len
      by (auto simp: in_set_conv_nth nth_tl)
    then show ?thesis using is_heap_root [OF r heap, of "Suc k"] by simp
  qed
  then show ?thesis using x ok e len lb by (auto simp: heap_invar_def heap_elems_def)
qed

lemma verifyHeap_at_holds:
  assumes "heap_invar r h" "comparable le r (heap_elems h)" "1 \<le> i"
  shows "verifyHeap_at le h i = Some True"
  using assms
proof (induction le h i rule: verifyHeap_at.induct)
  case (1 le h i)
  show ?case
  proof (cases "i > m_current_size h \<or> i = 1")
    case True
    then show ?thesis using 1 by (subst verifyHeap_at.simps) auto
  next
    case False
    have "le (m_heap h ! (i div 2)) (m_heap h ! i) = Some (r (m_heap h ! (i div 2)) (m_heap h ! i))"
      using 1 False by (intro comparable_nth [of _ _ "m_current_size h"])
        (auto simp: heap_elems_def heap_invar_def)
    moreover have "r (m_heap h ! (i div 2)) (m_heap h ! i)"
      using 1 False by (auto simp: heap_invar_def is_heap_def)
    ultimately show ?thesis using 1 False by (subst verifyHeap_at.simps) simp
  qed
qed

section \<open>The interface the clients use\<close>

text \<open>A priority queue whose operations may abort.  \<open>ok\<close> says of which multisets of
  elements the queue can hold; it is closed under taking elements out.\<close>

locale priority_queue =
  fixes r :: "'a \<Rightarrow> 'a \<Rightarrow> bool"
    and ok :: "'a multiset \<Rightarrow> bool"
    and empty :: 'q
    and ins :: "'a \<Rightarrow> 'q \<Rightarrow> 'q option"
    and del_min :: "'q \<Rightarrow> ('a \<times> 'q) option"
    and peek :: "'q \<Rightarrow> 'a option"
    and card :: "'q \<Rightarrow> nat"
    and invar :: "'q \<Rightarrow> bool"
    and elems :: "'q \<Rightarrow> 'a multiset"
  assumes invar_empty: "invar empty"
    and elems_empty: "elems empty = {#}"
    and ok_mono: "\<lbrakk> ok M; N \<subseteq># M \<rbrakk> \<Longrightarrow> ok N"
    and card_elems: "invar q \<Longrightarrow> card q = size (elems q)"
    and insert_total: "\<lbrakk> invar q; ok (add_mset x (elems q)) \<rbrakk> \<Longrightarrow>
          \<exists>q'. ins x q = Some q' \<and> invar q' \<and> elems q' = add_mset x (elems q)"
    and del_min_total: "\<lbrakk> invar q; ok (elems q); elems q \<noteq> {#} \<rbrakk> \<Longrightarrow>
          \<exists>x q'. del_min q = Some (x, q') \<and> peek q = Some x \<and> invar q' \<and>
                 elems q = add_mset x (elems q') \<and> (\<forall>y\<in>#elems q. r x y)"
    and del_min_empty: "\<lbrakk> invar q; elems q = {#} \<rbrakk> \<Longrightarrow> del_min q = None \<and> peek q = None"
begin

lemma insertD:
  assumes "invar q" "ok (add_mset x (elems q))" "ins x q = Some q'"
  shows "invar q'" "elems q' = add_mset x (elems q)"
  using insert_total [OF assms(1,2)] assms(3) by auto

lemma del_minD:
  assumes "invar q" "ok (elems q)" "del_min q = Some (x, q')"
  shows "invar q'" "elems q = add_mset x (elems q')" "\<forall>y\<in>#elems q. r x y" "peek q = Some x"
    "ok (elems q')"
proof -
  have ne: "elems q \<noteq> {#}" using del_min_empty assms by fastforce
  show "invar q'" "elems q = add_mset x (elems q')" "\<forall>y\<in>#elems q. r x y" "peek q = Some x"
    using del_min_total [OF assms(1,2) ne] assms(3) by auto
  then show "ok (elems q')" using ok_mono [OF assms(2)] by simp
qed

text \<open>Taking everything out, \<open>k\<close> calls of the extraction.\<close>

primrec drain :: "nat \<Rightarrow> 'q \<Rightarrow> 'a list option" where
  "drain 0 q = Some []"
| "drain (Suc k) q = (case del_min q of None \<Rightarrow> None
     | Some (x, q') \<Rightarrow> map_option ((#) x) (drain k q'))"

lemma drain_sorted:
  assumes "invar q" "ok (elems q)"
  shows "\<exists>xs. drain (card q) q = Some xs \<and> mset xs = elems q \<and> sorted_wrt r xs"
proof -
  have "\<exists>xs. drain k q = Some xs \<and> mset xs = elems q \<and> sorted_wrt r xs"
    if "k = size (elems q)" "invar q" "ok (elems q)" for k q
    using that
  proof (induction k arbitrary: q)
    case (Suc k)
    then obtain x q' where x: "del_min q = Some (x, q')" "invar q'"
      "elems q = add_mset x (elems q')" "\<forall>y\<in>#elems q. r x y"
      using del_min_total [of q] by fastforce
    then obtain xs where "drain k q' = Some xs" "mset xs = elems q'" "sorted_wrt r xs"
      using Suc.IH [of q'] Suc.prems del_minD(5) [OF _ _ x(1)] by auto
    moreover from this have "\<forall>y\<in>set xs. r x y"
      using x(3,4) by (metis set_mset_mset set_mset_add_mset_insert insertCI)
    ultimately show ?case using x by simp
  qed simp
  then show ?thesis using assms card_elems by metis
qed

end

lemma prio_heap_priority_queue:
  assumes "total_preorder r"
  shows "priority_queue r (comparable le r) heap_init (heap_insert le) (extractMin le)
           peekMin heap_size (heap_invar r) heap_elems"
proof (standard, goal_cases)
  case (5 q x)
  then show ?case using heap_insert_correct [OF assms] by blast
next
  case (6 q)
  have "heap_size q > 0" using 6 by (auto simp: heap_size_def heap_elems_def elems_of_def)
  then show ?case using heap_extract_correct [OF assms 6(1,2)] by (auto simp: peekMin_def)
next
  case (4 q)
  then show ?case
    by (auto simp: heap_size_def heap_elems_def elems_of_def heap_invar_def min_def)
next
  case (7 q)
  then have "heap_size q = 0"
    by (cases "m_heap q") (auto simp: heap_size_def heap_elems_def elems_of_def heap_invar_def)
  then show ?case by (simp add: extractMin_def peekMin_def)
qed (auto simp: heap_invar_def heap_init_def is_heap_def heap_elems_def elems_of_def
      intro: comparable_mono)

section \<open>Properties\<close>

text \<open>C20. \<open>PrioHeap::insert\<close> adds exactly the key and keeps the heap ordered.\<close>

theorem heap_insert_adds_key:
  assumes "total_preorder r" "heap_invar r h" "comparable le r (add_mset key (heap_elems h))"
  shows "\<exists>h'. heap_insert le key h = Some h' \<and> heap_invar r h' \<and>
              heap_elems h' = add_mset key (heap_elems h)"
  using assms by (rule heap_insert_correct)

text \<open>C19. \<open>PrioHeap::extractMin\<close> on a non-empty heap returns the element that
  \<open>peekMin\<close> shows, a least one, removes exactly it and keeps the heap ordered.\<close>

theorem extractMin_removes_least:
  assumes "total_preorder r" "heap_invar r h" "comparable le r (heap_elems h)" "heap_size h > 0"
  shows "\<exists>x h'. extractMin le h = Some (x, h') \<and> peekMin h = Some x \<and> heap_invar r h' \<and>
                heap_elems h = add_mset x (heap_elems h') \<and> (\<forall>y\<in>#heap_elems h. r x y)"
  using heap_extract_correct [OF assms] assms(4) by (auto simp: peekMin_def)

text \<open>The self check \<open>verifyHeap\<close>, whose calls are commented out in the source, answers
  true on every heap that satisfies the invariant, so enabling the assertions is harmless.\<close>

theorem verifyHeap_holds:
  assumes "heap_invar r h" "comparable le r (heap_elems h)"
  shows "verifyHeap le h = Some True"
  using verifyHeap_at_holds [OF assms] by (simp add: verifyHeap_def)

definition int_le :: "int \<Rightarrow> int \<Rightarrow> bool option" where
  "int_le x y = Some (x \<le> y)"

lemma int_le_comparable: "comparable int_le (\<le>) M"
  by (simp add: comparable_def int_le_def)

lemma int_total_preorder: "total_preorder ((\<le>) :: int \<Rightarrow> int \<Rightarrow> bool)"
  by (auto simp: total_preorder_def)

definition sample_heap :: "int prio_heap" where
  "sample_heap = \<lparr> m_heap = [9, 2, 5, 4, 9], m_current_size = 4 \<rparr>"

lemma sample_heap_invar: "heap_invar (\<le>) sample_heap"
  by code_simp

lemma heap_insert_adds_key_witness:
  "\<exists>h'. heap_insert int_le 1 sample_heap = Some h' \<and> heap_invar (\<le>) h' \<and>
        heap_elems h' = add_mset 1 (heap_elems sample_heap)"
  by (rule heap_insert_adds_key [OF int_total_preorder sample_heap_invar int_le_comparable])

lemma extractMin_removes_least_witness:
  "\<exists>x h'. extractMin int_le sample_heap = Some (x, h') \<and> peekMin sample_heap = Some x \<and>
      heap_invar (\<le>) h' \<and> heap_elems sample_heap = add_mset x (heap_elems h') \<and>
      (\<forall>y\<in>#heap_elems sample_heap. x \<le> y)"
  by (rule extractMin_removes_least [OF int_total_preorder sample_heap_invar int_le_comparable])
    code_simp

lemma verifyHeap_holds_witness: "verifyHeap int_le sample_heap = Some True"
  by (rule verifyHeap_holds [OF sample_heap_invar int_le_comparable])

end
