(* ===== verification/Event_Queue.thy ===== *)
theory Event_Queue
  imports Prio_Heap
begin

text \<open>
  \<open>ruby_clean/eventqueue/EventQueue.C\<close>, \<open>EventQueueNode.h\<close> and
  \<open>ruby_clean/common/Consumer.h\<close>: the discrete-event core.

  Consumers are named by a type \<open>'c\<close>; the \<open>Consumer\<close> fields are maps from names.  The
  pure virtual \<open>wakeup()\<close> is the argument \<open>wake\<close>: given the consumer, the current time and
  the state of all components, it returns the new component state and the calls of
  \<open>scheduleEventAbsolute\<close> it makes, in order.  The field \<open>woken\<close> is a history of the
  \<open>wakeup()\<close> calls, newest first; the code does not have it and nothing reads it.
\<close>

record 'c event_node =
  m_time :: Time
  m_consumer_ptr :: 'c

definition event_le :: "'c event_node \<Rightarrow> 'c event_node \<Rightarrow> bool" where
  "event_le n1 n2 \<longleftrightarrow> m_time n1 \<le> m_time n2"

definition event_less_then_eq :: "'c event_node \<Rightarrow> 'c event_node \<Rightarrow> bool option" where
  "event_less_then_eq n1 n2 = Some (m_time n1 \<le> m_time n2)"

record ('c, 's) sim =
  m_prio_heap :: "'c event_node prio_heap"
  m_globalTime :: Time
  m_timeOfLastRecovery :: Time
  m_last_scheduled_wakeup :: "'c \<Rightarrow> Time"
  m_last_wakeup :: "'c \<Rightarrow> Time"
  components :: 's
  woken :: "('c \<times> Time) list"

type_synonym ('c, 's) wakeup_fun = "'c \<Rightarrow> Time \<Rightarrow> 's \<Rightarrow> 's \<times> ('c \<times> Time) list"

definition EventQueue_init :: "'s \<Rightarrow> ('c, 's) sim" where
  "EventQueue_init st = \<lparr> m_prio_heap = heap_init, m_globalTime = 1, m_timeOfLastRecovery = 1,
     m_last_scheduled_wakeup = (\<lambda>_. 0), m_last_wakeup = (\<lambda>_. 0), components = st, woken = [] \<rparr>"

definition EventQueue_isEmpty :: "('c, 's) sim \<Rightarrow> bool" where
  "EventQueue_isEmpty s \<longleftrightarrow> heap_size (m_prio_heap s) = 0"

definition scheduleEventAbsolute ::
    "'c option \<Rightarrow> Time \<Rightarrow> ('c, 's) sim \<Rightarrow> ('c, 's) sim option" where
  "scheduleEventAbsolute consumer timeAbs s =
     (case consumer of
        None \<Rightarrow> None
      | Some c \<Rightarrow>
          if m_last_scheduled_wakeup s c \<noteq> timeAbs then do {
            assert_that (timeAbs > m_globalTime s);
            h \<leftarrow> heap_insert event_less_then_eq
                   \<lparr> m_time = timeAbs, m_consumer_ptr = c \<rparr> (m_prio_heap s);
            Some (s\<lparr> m_prio_heap := h,
                     m_last_scheduled_wakeup := (m_last_scheduled_wakeup s)(c := timeAbs) \<rparr>)
          } else Some s)"

definition scheduleEvent :: "'c option \<Rightarrow> Time \<Rightarrow> ('c, 's) sim \<Rightarrow> ('c, 's) sim option" where
  "scheduleEvent consumer timeDelta s = scheduleEventAbsolute consumer (timeDelta + m_globalTime s) s"

definition schedule_all :: "('c \<times> Time) list \<Rightarrow> ('c, 's) sim \<Rightarrow> ('c, 's) sim option" where
  "schedule_all = run_all (\<lambda>(c, t). scheduleEventAbsolute (Some c) t)"

definition triggerWakeup :: "('c, 's) wakeup_fun \<Rightarrow> 'c \<Rightarrow> ('c, 's) sim \<Rightarrow> ('c, 's) sim option" where
  "triggerWakeup wake c s = (let time = m_globalTime s in
     if m_last_wakeup s c \<noteq> time then
       case wake c time (components s) of (st, calls) \<Rightarrow> do {
         s' \<leftarrow> schedule_all calls (s\<lparr> components := st, woken := (c, time) # woken s \<rparr>);
         Some (s'\<lparr> m_last_wakeup := (m_last_wakeup s')(c := time) \<rparr>) }
     else Some s)"

text \<open>The body of the two loops: advance the time, take the first event out, wake its
  consumer.\<close>

definition trigger_first :: "('c, 's) wakeup_fun \<Rightarrow> ('c, 's) sim \<Rightarrow> ('c, 's) sim option" where
  "trigger_first wake s = do {
     first \<leftarrow> peekMin (m_prio_heap s);
     (thisNode, h) \<leftarrow> extractMin event_less_then_eq (m_prio_heap s);
     triggerWakeup wake (m_consumer_ptr thisNode)
       (s\<lparr> m_globalTime := m_time first, m_prio_heap := h \<rparr>) }"

partial_function (option) triggerEvents_loop ::
    "('c, 's) wakeup_fun \<Rightarrow> Time \<Rightarrow> ('c, 's) sim \<Rightarrow> ('c, 's) sim option" where
  "triggerEvents_loop wake t s =
     (if heap_size (m_prio_heap s) > 0 then
        Option.bind (peekMin (m_prio_heap s)) (\<lambda>first.
          if m_time first \<le> t then
            Option.bind (trigger_first wake s) (triggerEvents_loop wake t)
          else Some s)
      else Some s)"

declare triggerEvents_loop.simps [code]

definition triggerEvents :: "('c, 's) wakeup_fun \<Rightarrow> Time \<Rightarrow> ('c, 's) sim \<Rightarrow> ('c, 's) sim option" where
  "triggerEvents wake t s = do {
     s' \<leftarrow> triggerEvents_loop wake t s;
     Some (s'\<lparr> m_globalTime := t \<rparr>) }"

partial_function (option) triggerAllEvents ::
    "('c, 's) wakeup_fun \<Rightarrow> ('c, 's) sim \<Rightarrow> ('c, 's) sim option" where
  "triggerAllEvents wake s =
     (if heap_size (m_prio_heap s) > 0 then
        Option.bind (trigger_first wake s) (triggerAllEvents wake)
      else Some s)"

declare triggerAllEvents.simps [code]

section \<open>The heap of events\<close>

interpretation events: priority_queue event_le "comparable event_less_then_eq event_le"
  heap_init "heap_insert event_less_then_eq" "extractMin event_less_then_eq" peekMin heap_size
  "heap_invar event_le" heap_elems
  by (rule prio_heap_priority_queue) (auto simp: total_preorder_def event_le_def)

lemma event_comparable [simp]: "comparable event_less_then_eq event_le M"
  by (simp add: comparable_def event_less_then_eq_def event_le_def)

definition pending :: "('c, 's) sim \<Rightarrow> 'c event_node multiset" where
  "pending s = heap_elems (m_prio_heap s)"

section \<open>The invariant\<close>

text \<open>The queue: no pending event is in the past, and the last scheduled wakeup of a consumer is
  still pending unless its time has come.\<close>

definition queue_ok :: "('c, 's) sim \<Rightarrow> bool" where
  "queue_ok s \<longleftrightarrow> heap_invar event_le (m_prio_heap s) \<and>
     (\<forall>e\<in>#pending s. m_globalTime s \<le> m_time e) \<and>
     (\<forall>c. m_last_scheduled_wakeup s c > m_globalTime s \<longrightarrow>
          \<lparr> m_time = m_last_scheduled_wakeup s c, m_consumer_ptr = c \<rparr> \<in># pending s)"

text \<open>The history: the last wakeup of a consumer is its newest one and not in the future, and
  the history is in the order of time without repetition.\<close>

definition history_ok :: "('c, 's) sim \<Rightarrow> bool" where
  "history_ok s \<longleftrightarrow> m_globalTime s \<ge> 1 \<and>
     (\<forall>c. m_last_wakeup s c \<le> m_globalTime s) \<and>
     (\<forall>c. m_last_wakeup s c > 0 \<longrightarrow> (c, m_last_wakeup s c) \<in> set (woken s)) \<and>
     (\<forall>(c, t)\<in>set (woken s). t \<le> m_last_wakeup s c) \<and>
     sorted_wrt (\<lambda>x y. snd y \<le> snd x) (woken s) \<and> distinct (woken s)"

definition sim_ok :: "('c, 's) sim \<Rightarrow> bool" where
  "sim_ok s \<longleftrightarrow> queue_ok s \<and> history_ok s"

definition wake_future :: "('c, 's) wakeup_fun \<Rightarrow> bool" where
  "wake_future wake \<longleftrightarrow> (\<forall>c t st. \<forall>(d, u)\<in>set (snd (wake c t st)). t < u)"

lemma sim_ok_init: "sim_ok (EventQueue_init st)"
  by (auto simp: sim_ok_def queue_ok_def history_ok_def EventQueue_init_def pending_def
      events.invar_empty events.elems_empty)

text \<open>What a call of \<open>scheduleEventAbsolute\<close> may change: it adds events after the current
  time, and nothing else but the last scheduled wakeups.\<close>

definition scheduled :: "('c, 's) sim \<Rightarrow> ('c, 's) sim \<Rightarrow> bool" where
  "scheduled s s' \<longleftrightarrow> (\<exists>N. pending s' = pending s + N \<and> (\<forall>e\<in>#N. m_globalTime s < m_time e)) \<and>
     m_globalTime s' = m_globalTime s \<and> m_last_wakeup s' = m_last_wakeup s \<and>
     components s' = components s \<and> woken s' = woken s"

lemma scheduled_trans:
  assumes "scheduled s s'" "scheduled s' s''"
  shows "scheduled s s''"
proof -
  obtain N N' where "pending s' = pending s + N" "\<forall>e\<in>#N. m_globalTime s < m_time e"
    "pending s'' = pending s' + N'" "\<forall>e\<in>#N'. m_globalTime s' < m_time e"
    using assms unfolding scheduled_def by blast
  then have "pending s'' = pending s + (N + N')" "\<forall>e\<in>#N + N'. m_globalTime s < m_time e"
    using assms by (auto simp: scheduled_def)
  then show ?thesis using assms by (auto simp: scheduled_def)
qed

lemma scheduleEventAbsolute_future:
  assumes ok: "queue_ok s" and t: "t > m_globalTime s"
  shows "\<exists>s'. scheduleEventAbsolute (Some c) t s = Some s' \<and> queue_ok s' \<and> scheduled s s' \<and>
              \<lparr> m_time = t, m_consumer_ptr = c \<rparr> \<in># pending s'"
proof (cases "m_last_scheduled_wakeup s c = t")
  case True
  then have "\<lparr> m_time = t, m_consumer_ptr = c \<rparr> \<in># pending s"
    using ok t by (auto simp: queue_ok_def)
  then show ?thesis using True ok by (auto simp: scheduleEventAbsolute_def scheduled_def)
next
  case False
  let ?e = "\<lparr> m_time = t, m_consumer_ptr = c \<rparr>"
  obtain h where h: "heap_insert event_less_then_eq ?e (m_prio_heap s) = Some h"
    "heap_invar event_le h" "heap_elems h = add_mset ?e (pending s)"
    using events.insert_total [of "m_prio_heap s" ?e] ok by (auto simp: queue_ok_def pending_def)
  let ?s = "s\<lparr> m_prio_heap := h,
               m_last_scheduled_wakeup := (m_last_scheduled_wakeup s)(c := t) \<rparr>"
  have p: "pending ?s = pending s + {#?e#}" using h by (simp add: pending_def)
  have "queue_ok ?s" using ok h t p by (auto simp: queue_ok_def)
  moreover have "scheduled s ?s" unfolding scheduled_def using p t by fastforce
  ultimately show ?thesis using h False t p by (simp add: scheduleEventAbsolute_def)
qed

lemma schedule_all_future:
  assumes "queue_ok s" "\<forall>(c, t)\<in>set calls. t > m_globalTime s"
  shows "\<exists>s'. schedule_all calls s = Some s' \<and> queue_ok s' \<and> scheduled s s'"
  using assms
proof (induction calls arbitrary: s)
  case Nil
  then show ?case by (simp add: schedule_all_def scheduled_def)
next
  case (Cons ct calls)
  obtain c t where ct: "ct = (c, t)" by (cases ct)
  obtain s1 where s1: "scheduleEventAbsolute (Some c) t s = Some s1" "queue_ok s1" "scheduled s s1"
    using scheduleEventAbsolute_future [OF Cons.prems(1), of t c] Cons.prems(2) ct by auto
  obtain s2 where "schedule_all calls s1 = Some s2" "queue_ok s2" "scheduled s1 s2"
    using Cons.IH [OF s1(2)] Cons.prems(2) s1(3) by (auto simp: scheduled_def)
  then show ?case using s1 ct scheduled_trans by (auto simp: schedule_all_def)
qed

section \<open>One event\<close>

text \<open>Triggering the first event: its consumer is awake at its time afterwards, the event is gone
  and only later events were added.\<close>

definition first_triggered :: "('c, 's) sim \<Rightarrow> 'c event_node \<Rightarrow> ('c, 's) sim \<Rightarrow> bool" where
  "first_triggered s e s' \<longleftrightarrow> sim_ok s' \<and> e \<in># pending s \<and>
     (\<forall>x\<in>#pending s. m_time e \<le> m_time x) \<and>
     (\<exists>N. pending s' = pending s - {#e#} + N \<and> (\<forall>x\<in>#N. m_time e < m_time x)) \<and>
     m_globalTime s' = m_time e \<and> (m_consumer_ptr e, m_time e) \<in> set (woken s') \<and>
     set (woken s) \<subseteq> set (woken s')"

lemma triggerWakeup_ok:
  assumes w: "wake_future wake" and ok: "queue_ok s" "history_ok s"
  shows "\<exists>s'. triggerWakeup wake c s = Some s' \<and> sim_ok s' \<and>
     (\<exists>N. pending s' = pending s + N \<and> (\<forall>e\<in>#N. m_globalTime s < m_time e)) \<and>
     m_globalTime s' = m_globalTime s \<and> (c, m_globalTime s) \<in> set (woken s') \<and>
     set (woken s) \<subseteq> set (woken s')"
proof (cases "m_last_wakeup s c = m_globalTime s")
  case True
  then have "(c, m_globalTime s) \<in> set (woken s)" 
    using ok(2) unfolding history_ok_def by (metis less_le_trans zero_less_one)
  then show ?thesis using True ok by (auto simp: triggerWakeup_def sim_ok_def)
next
  case False
  let ?t = "m_globalTime s"
  obtain st calls where wk: "wake c ?t (components s) = (st, calls)" by fastforce
  let ?s = "s\<lparr> components := st, woken := (c, ?t) # woken s \<rparr>"
  have "\<forall>(d, u)\<in>set (snd (wake c ?t (components s))). ?t < u"
    using w unfolding wake_future_def by blast
  then have "\<forall>(d, u)\<in>set calls. m_globalTime ?s < u" using wk by simp
  moreover have q: "queue_ok ?s" using ok by (simp add: queue_ok_def pending_def)
  ultimately obtain s1 where s1: "schedule_all calls ?s = Some s1" "queue_ok s1" "scheduled ?s s1"
    using schedule_all_future [of ?s calls] by blast
  let ?s' = "s1\<lparr> m_last_wakeup := (m_last_wakeup s1)(c := ?t) \<rparr>"
  have e: "m_globalTime s1 = ?t" "m_last_wakeup s1 = m_last_wakeup s" "woken s1 = (c, ?t) # woken s"
    using s1(3) by (auto simp: scheduled_def)
  have lw: "u \<le> m_last_wakeup s d" if "(d, u) \<in> set (woken s)" for d u
    using ok(2) that by (auto simp: history_ok_def)
  have lt: "m_last_wakeup s d \<le> ?t" for d using ok(2) by (simp add: history_ok_def)
  have old: "\<forall>(d, u)\<in>set (woken s). u \<le> ?t" "(c, ?t) \<notin> set (woken s)"
    using lw lt False by (auto intro: order_trans) (meson order_antisym)
  have "history_ok ?s'"
    using ok(2) e old by (auto simp: history_ok_def)
  moreover have "queue_ok ?s'" using s1(2) by (simp add: queue_ok_def pending_def)
  ultimately have "sim_ok ?s'" by (simp add: sim_ok_def)
  moreover have "triggerWakeup wake c s = Some ?s'"
    using False wk s1 by (simp add: triggerWakeup_def Let_def)
  moreover have "\<exists>N. pending ?s' = pending s + N \<and> (\<forall>e\<in>#N. ?t < m_time e)"
    using s1(3) by (auto simp: scheduled_def pending_def)
  ultimately show ?thesis using e by auto
qed

lemma trigger_first_ok:
  assumes w: "wake_future wake" and ok: "sim_ok s" and ne: "heap_size (m_prio_heap s) > 0"
  shows "\<exists>e s'. peekMin (m_prio_heap s) = Some e \<and> trigger_first wake s = Some s' \<and>
                first_triggered s e s'"
proof -
  have inv: "heap_invar event_le (m_prio_heap s)" using ok by (simp add: sim_ok_def queue_ok_def)
  have "pending s \<noteq> {#}" using events.card_elems [OF inv] ne by (auto simp: pending_def)
  then obtain e h where h: "extractMin event_less_then_eq (m_prio_heap s) = Some (e, h)"
    "peekMin (m_prio_heap s) = Some e" "heap_invar event_le h"
    "pending s = add_mset e (heap_elems h)" "\<forall>x\<in>#pending s. m_time e \<le> m_time x"
    using events.del_min_total [OF inv event_comparable] by (auto simp: pending_def event_le_def)
  let ?s = "s\<lparr> m_globalTime := m_time e, m_prio_heap := h \<rparr>"
  have ge: "m_globalTime s \<le> m_time e" using ok h by (simp add: sim_ok_def queue_ok_def)
  have p: "pending ?s = heap_elems h" by (simp add: pending_def)
  have "queue_ok ?s"
  proof -
    have "\<lparr> m_time = m_last_scheduled_wakeup s c, m_consumer_ptr = c \<rparr> \<in># heap_elems h"
      if "m_last_scheduled_wakeup s c > m_time e" for c
    proof -
      have "\<lparr> m_time = m_last_scheduled_wakeup s c, m_consumer_ptr = c \<rparr> \<in># pending s"
        using ok that ge by (simp add: sim_ok_def queue_ok_def)
      then show ?thesis using h(4) that by auto
    qed
    then show ?thesis using h p by (auto simp: queue_ok_def)
  qed
  moreover have "history_ok ?s" using ok ge by (auto simp: sim_ok_def history_ok_def intro: order_trans)
  ultimately obtain s' where s': "triggerWakeup wake (m_consumer_ptr e) ?s = Some s'" "sim_ok s'"
    "\<exists>N. pending s' = pending ?s + N \<and> (\<forall>x\<in>#N. m_globalTime ?s < m_time x)"
    "m_globalTime s' = m_globalTime ?s" "(m_consumer_ptr e, m_globalTime ?s) \<in> set (woken s')"
    "set (woken ?s) \<subseteq> set (woken s')"
    using triggerWakeup_ok [OF w] by blast
  then have "first_triggered s e s'" using h p by (simp add: first_triggered_def)
  moreover have "trigger_first wake s = Some s'" using h s' by (simp add: trigger_first_def)
  ultimately show ?thesis using h(2) by blast
qed

section \<open>The loop ends\<close>

text \<open>The times left until \<open>t\<close> of the pending events that are due.  Every iteration replaces
  one by finitely many smaller ones.\<close>

definition due :: "Time \<Rightarrow> ('c, 's) sim \<Rightarrow> nat multiset" where
  "due t s = image_mset (\<lambda>e. nat (t - m_time e)) (filter_mset (\<lambda>e. m_time e \<le> t) (pending s))"

lemma first_triggered_due:
  assumes "first_triggered s e s'" "m_time e \<le> t"
  shows "(due t s', due t s) \<in> mult less_than"
proof -
  obtain N where N: "pending s' = pending s - {#e#} + N" "\<forall>x\<in>#N. m_time e < m_time x"
    "e \<in># pending s" using assms(1) by (auto simp: first_triggered_def)
  let ?f = "\<lambda>e. nat (t - m_time e)" and ?P = "\<lambda>e. m_time e \<le> t"
  let ?K = "image_mset ?f (filter_mset ?P N)"
  let ?I = "image_mset ?f (filter_mset ?P (pending s - {#e#}))"
  have "pending s = add_mset e (pending s - {#e#})" using N(3) by simp
  then have "due t s = ?I + {#?f e#}" using assms(2) unfolding due_def
    by (metis (no_types, lifting) add_mset_add_single filter_mset_add_mset image_mset_add_mset)
  moreover have "due t s' = ?I + ?K" using N(1) by (simp add: due_def)
  moreover have "\<forall>k\<in>set_mset ?K. \<exists>j\<in>set_mset {#?f e#}. (k, j) \<in> less_than"
    using N(2) assms(2) by auto
  ultimately show ?thesis using one_step_implies_mult [of "{#?f e#}" ?K less_than ?I] by simp
qed

text \<open>What the loop leaves: everything due has been woken, nothing due is pending.\<close>

definition triggered_until :: "Time \<Rightarrow> ('c, 's) sim \<Rightarrow> ('c, 's) sim \<Rightarrow> bool" where
  "triggered_until t s s' \<longleftrightarrow> sim_ok s' \<and> (\<forall>e\<in>#pending s'. t < m_time e) \<and>
     (\<forall>e\<in>#pending s. m_time e \<le> t \<longrightarrow> (m_consumer_ptr e, m_time e) \<in> set (woken s')) \<and>
     set (woken s) \<subseteq> set (woken s') \<and> m_globalTime s' \<le> max t (m_globalTime s)"

lemma triggerEvents_loop_ok:
  assumes w: "wake_future wake" and "sim_ok s"
  shows "\<exists>s'. triggerEvents_loop wake t s = Some s' \<and> triggered_until t s s'"
  using assms(2)
proof (induction "due t s" arbitrary: s rule: wf_induct_rule [OF wf_mult [OF wf_less_than]])
  case (1 s)
  have inv: "heap_invar event_le (m_prio_heap s)" using 1 by (simp add: sim_ok_def queue_ok_def)
  show ?case
  proof (cases "heap_size (m_prio_heap s) > 0")
    case False
    then have "pending s = {#}" using events.card_elems [OF inv] by (simp add: pending_def)
    then show ?thesis using False 1(2)
      by (subst triggerEvents_loop.simps) (simp add: triggered_until_def)
  next
    case True
    then obtain e s1 where e: "peekMin (m_prio_heap s) = Some e" "trigger_first wake s = Some s1"
      "first_triggered s e s1" using trigger_first_ok [OF w 1(2)] by blast
    note ft = e(3) [unfolded first_triggered_def]
    show ?thesis
    proof (cases "m_time e \<le> t")
      case False
      then have "triggered_until t s s" using ft 1(2) by (force simp: triggered_until_def)
      then show ?thesis using True False e(1) by (subst triggerEvents_loop.simps) simp
    next
      case due: True
      obtain s' where s': "triggerEvents_loop wake t s1 = Some s'" "triggered_until t s1 s'"
        using 1(1) [OF first_triggered_due [OF e(3) due]] ft by blast
      have "(m_consumer_ptr x, m_time x) \<in> set (woken s')"
        if "x \<in># pending s" "m_time x \<le> t" for x
      proof (cases "x = e")
        case True
        then show ?thesis using ft s'(2) by (auto simp: triggered_until_def)
      next
        case False
        then have "x \<in># pending s1" using ft that by (auto simp: in_diff_count)
        then show ?thesis using s'(2) that by (simp add: triggered_until_def)
      qed
      then have "triggered_until t s s'" using s'(2) ft due by (auto simp: triggered_until_def)
      moreover have "triggerEvents_loop wake t s = Some s'"
        using True due e(1,2) s'(1) by (subst triggerEvents_loop.simps) simp
      ultimately show ?thesis by blast
    qed
  qed
qed

lemma triggerEvents_ok:
  assumes "wake_future wake" "sim_ok s" "m_globalTime s \<le> t"
  shows "\<exists>s'. triggerEvents wake t s = Some s' \<and> triggered_until t s s' \<and> m_globalTime s' = t"
proof -
  obtain s1 where s1: "triggerEvents_loop wake t s = Some s1" "triggered_until t s s1"
    using triggerEvents_loop_ok assms by blast
  let ?s = "s1\<lparr> m_globalTime := t \<rparr>"
  have le: "m_globalTime s1 \<le> t" using s1(2) assms(3) by (simp add: triggered_until_def)
  have "queue_ok ?s" using s1(2) le
    by (fastforce simp: triggered_until_def sim_ok_def queue_ok_def pending_def)
  moreover have "history_ok ?s" using s1(2) le
    by (auto simp: triggered_until_def sim_ok_def history_ok_def intro: order_trans)
  ultimately have "triggered_until t s ?s" using s1(2)
    by (simp add: triggered_until_def sim_ok_def pending_def)
  then show ?thesis using s1(1) by (simp add: triggerEvents_def)
qed

section \<open>Properties\<close>

text \<open>C30. \<open>triggerEvents(t)\<close> returns, whatever the consumers schedule while they run, as
  long as they schedule into the future: afterwards every event that was due has woken its
  consumer at its time, no event up to \<open>t\<close> is pending and the time is \<open>t\<close>.\<close>

theorem triggerEvents_returns:
  assumes "wake_future wake" "sim_ok s" "m_globalTime s \<le> t"
  shows "\<exists>s'. triggerEvents wake t s = Some s' \<and> sim_ok s' \<and> m_globalTime s' = t \<and>
     (\<forall>e\<in>#pending s'. t < m_time e) \<and>
     (\<forall>e\<in>#pending s. m_time e \<le> t \<longrightarrow> (m_consumer_ptr e, m_time e) \<in> set (woken s'))"
  using triggerEvents_ok [OF assms] by (auto simp: triggered_until_def)

text \<open>C29. The wakeups happen in the order of time and no consumer is woken twice at one time:
  after any run of \<open>triggerEvents\<close> the history, newest first, has non-increasing times and no
  repetition.\<close>

theorem wakeups_in_order_and_once:
  assumes "wake_future wake" "sim_ok s" "m_globalTime s \<le> t" "triggerEvents wake t s = Some s'"
  shows "sorted_wrt (\<lambda>x y. snd y \<le> snd x) (woken s') \<and> distinct (woken s')"
  using triggerEvents_ok [OF assms(1-3)] assms(4)
  by (auto simp: triggered_until_def sim_ok_def history_ok_def)

text \<open>C8. No wakeup is lost to the redundancy check of \<open>scheduleEventAbsolute\<close>: scheduling
  consumer \<open>c\<close> for a future time \<open>u\<close> and then triggering up to \<open>t \<ge> u\<close> wakes \<open>c\<close> at
  \<open>u\<close>.\<close>

theorem scheduled_wakeup_happens:
  assumes "wake_future wake" "sim_ok s" "m_globalTime s < u" "u \<le> t"
  shows "\<exists>s1 s2. scheduleEventAbsolute (Some c) u s = Some s1 \<and>
                 triggerEvents wake t s1 = Some s2 \<and> (c, u) \<in> set (woken s2)"
proof -
  obtain s1 where s1: "scheduleEventAbsolute (Some c) u s = Some s1" "queue_ok s1" "scheduled s s1"
    "\<lparr> m_time = u, m_consumer_ptr = c \<rparr> \<in># pending s1"
    using scheduleEventAbsolute_future assms by (metis sim_ok_def)
  then have "sim_ok s1" using assms(2) by (simp add: sim_ok_def history_ok_def scheduled_def)
  moreover have "m_globalTime s1 \<le> t" using s1(3) assms by (simp add: scheduled_def)
  ultimately obtain s2 where "triggerEvents wake t s1 = Some s2" "triggered_until t s1 s2"
    using triggerEvents_ok assms(1) by blast
  then show ?thesis using s1 assms(4) unfolding triggered_until_def by fastforce
qed

definition sample_wake :: "(nat, nat) wakeup_fun" where
  "sample_wake c t n = (Suc n, if t < 6 then [(Suc c, t + 1), (c, t + 2)] else [])"

definition sample_sim :: "(nat, nat) sim" where
  "sample_sim = the (scheduleEventAbsolute (Some 0) 3 (EventQueue_init 0))"

lemma sample_wake_future: "wake_future sample_wake"
  by (auto simp: wake_future_def sample_wake_def)

lemma sample_sim_ok: "sim_ok sample_sim" "m_globalTime sample_sim = 1"
proof -
  have q: "queue_ok (EventQueue_init (0::nat) :: (nat, nat) sim)"
    "history_ok (EventQueue_init (0::nat) :: (nat, nat) sim)"
    using sim_ok_init [of "0::nat"] unfolding sim_ok_def by blast+
  have "m_globalTime (EventQueue_init (0::nat) :: (nat, nat) sim) = 1"
    by (simp add: EventQueue_init_def)
  then obtain s' where "scheduleEventAbsolute (Some 0) 3 (EventQueue_init 0) = Some s'"
    "queue_ok s'" "scheduled (EventQueue_init 0 :: (nat, nat) sim) s'"
    using scheduleEventAbsolute_future [OF q(1), of 3 0] by auto
  then show "sim_ok sample_sim" "m_globalTime sample_sim = 1" using q
    by (auto simp: sample_sim_def sim_ok_def history_ok_def scheduled_def EventQueue_init_def)
qed

lemma triggerEvents_returns_witness:
  "\<exists>s'. triggerEvents sample_wake 9 sample_sim = Some s' \<and> sim_ok s' \<and> m_globalTime s' = 9 \<and>
     (\<forall>e\<in>#pending s'. 9 < m_time e) \<and>
     (\<forall>e\<in>#pending sample_sim. m_time e \<le> 9 \<longrightarrow> (m_consumer_ptr e, m_time e) \<in> set (woken s'))"
  by (rule triggerEvents_returns [OF sample_wake_future sample_sim_ok(1)])
    (simp add: sample_sim_ok)

lemma wakeups_in_order_and_once_witness:
  "sorted_wrt (\<lambda>x y. snd y \<le> snd x) (woken (the (triggerEvents sample_wake 9 sample_sim))) \<and>
   distinct (woken (the (triggerEvents sample_wake 9 sample_sim)))"
proof -
  obtain s' where "triggerEvents sample_wake 9 sample_sim = Some s'"
    using triggerEvents_ok [OF sample_wake_future sample_sim_ok(1), of 9] sample_sim_ok(2) by auto
  then show ?thesis
    using wakeups_in_order_and_once [OF sample_wake_future sample_sim_ok(1), of 9 s']
      sample_sim_ok(2) by simp
qed

lemma scheduled_wakeup_happens_witness:
  "\<exists>s1 s2. scheduleEventAbsolute (Some 7) 4 sample_sim = Some s1 \<and>
           triggerEvents sample_wake 9 s1 = Some s2 \<and> (7, 4) \<in> set (woken s2)"
  by (rule scheduled_wakeup_happens [OF sample_wake_future sample_sim_ok(1)])
    (simp_all add: sample_sim_ok)

end
