(* ===== verification/Message_Buffer.thy ===== *)
theory Message_Buffer
  imports Event_Queue
begin

text \<open>
  \<open>ruby_clean/buffers/MessageBuffer.C\<close>, \<open>MessageBuffer.h\<close>, \<open>MessageBufferNode.h\<close>
  and the message fields of \<open>slicc_interface/Message.h\<close>: the timed queues between the
  controllers and the network.

  The buffer reads the time of the event queue and schedules its consumer on it; both are in the
  state \<open>sim\<close> of \<open>Event_Queue\<close>, which every operation that schedules takes and returns.
  \<open>RANDOMIZATION\<close> and \<open>RECYCLE_LATENCY\<close> are configuration values and arguments here, and
  the results of \<open>random()\<close> are arguments of \<open>random_time\<close>.  The fields of a message that
  the buffer does not read are its \<open>payload\<close>.  The occupancy histogram, which is only
  printed, is left out.

  The counter \<open>m_msg_counter\<close> is an \<open>int\<close> in the source, where an overflow is undefined (\<open>MessageBufferNode.h\<close> has a
  remark on it); here it is an integer, and the theorems on the order of messages, for which it decides, assume that the
  counter is below the largest \<open>int\<close> and state that it stays in range.  The other theorems do not depend on its
  size.
\<close>

record 'm message =
  payload :: 'm
  m_LastEnqueueTime :: Time
  m_DelayedCycles :: int

record 'm buffer_node =
  node_time :: Time
  node_msg_counter :: int
  node_msgptr :: "'m message"
  node_reply_wts :: Time
  node_delay_queue :: bool

definition node_less_then_eq :: "'m buffer_node \<Rightarrow> 'm buffer_node \<Rightarrow> bool option" where
  "node_less_then_eq n1 n2 = do {
     assert_that (node_delay_queue n1 = node_delay_queue n2);
     if node_delay_queue n1 = False then
       (if node_time n1 = node_time n2 then do {
          assert_that (node_msg_counter n1 \<noteq> node_msg_counter n2);
          Some (node_msg_counter n1 \<le> node_msg_counter n2) }
        else Some (node_time n1 \<le> node_time n2))
     else
       (if node_reply_wts n1 = node_reply_wts n2 then do {
          assert_that (node_msg_counter n1 \<noteq> node_msg_counter n2);
          Some (node_msg_counter n1 \<le> node_msg_counter n2) }
        else Some (node_reply_wts n1 \<le> node_reply_wts n2)) }"

record ('c, 'm) message_buffer =
  mb_consumer_ptr :: "'c option"
  mb_prio_heap :: "'m buffer_node prio_heap"
  m_max_size :: int
  m_size :: int
  m_time_last_time_size_checked :: Time
  m_size_last_time_size_checked :: int
  m_time_last_time_enqueue :: Time
  m_time_last_time_pop :: Time
  m_size_at_cycle_start :: int
  m_msgs_this_cycle :: int
  m_not_avail_count :: int
  m_msg_counter :: int
  m_priority_rank :: int
  m_strict_fifo :: bool
  m_ordering_set :: bool
  m_randomization :: bool
  m_last_arrival_time :: Time

definition MessageBuffer_new :: "('c, 'm) message_buffer" where
  "MessageBuffer_new = \<lparr> mb_consumer_ptr = None, mb_prio_heap = heap_init, m_max_size = -1,
     m_size = 0, m_time_last_time_size_checked = 0, m_size_last_time_size_checked = 0,
     m_time_last_time_enqueue = 0, m_time_last_time_pop = 0, m_size_at_cycle_start = 0,
     m_msgs_this_cycle = 0, m_not_avail_count = 0, m_msg_counter = 0, m_priority_rank = 0,
     m_strict_fifo = True, m_ordering_set = False, m_randomization = True,
     m_last_arrival_time = 0 \<rparr>"

definition setConsumer :: "'c option \<Rightarrow> ('c, 'm) message_buffer \<Rightarrow> ('c, 'm) message_buffer option" where
  "setConsumer consumer_ptr b = do {
     assert_that (mb_consumer_ptr b = None);
     Some (b\<lparr> mb_consumer_ptr := consumer_ptr \<rparr>) }"

definition setOrdering :: "bool \<Rightarrow> ('c, 'm) message_buffer \<Rightarrow> ('c, 'm) message_buffer" where
  "setOrdering order b = b\<lparr> m_strict_fifo := order, m_ordering_set := True \<rparr>"

definition setSize :: "int \<Rightarrow> ('c, 'm) message_buffer \<Rightarrow> ('c, 'm) message_buffer" where
  "setSize sz b = b\<lparr> m_max_size := sz \<rparr>"

definition setRandomization :: "bool \<Rightarrow> ('c, 'm) message_buffer \<Rightarrow> ('c, 'm) message_buffer" where
  "setRandomization random_flag b = b\<lparr> m_randomization := random_flag \<rparr>"

definition clearStats :: "('c, 'm) message_buffer \<Rightarrow> ('c, 'm) message_buffer" where
  "clearStats b = b\<lparr> m_not_avail_count := 0, m_msg_counter := 0 \<rparr>"

definition isReady :: "Time \<Rightarrow> ('c, 'm) message_buffer \<Rightarrow> bool" where
  "isReady now b \<longleftrightarrow> (case peekMin (mb_prio_heap b) of None \<Rightarrow> False | Some n \<Rightarrow> node_time n \<le> now)"

definition getSize :: "Time \<Rightarrow> ('c, 'm) message_buffer \<Rightarrow> int \<times> ('c, 'm) message_buffer" where
  "getSize now b =
     (if m_time_last_time_size_checked b = now then (m_size_last_time_size_checked b, b)
      else (m_size b, b\<lparr> m_time_last_time_size_checked := now,
                          m_size_last_time_size_checked := m_size b \<rparr>))"

definition areNSlotsAvailable ::
    "Time \<Rightarrow> int \<Rightarrow> ('c, 'm) message_buffer \<Rightarrow> bool \<times> ('c, 'm) message_buffer" where
  "areNSlotsAvailable now n b =
     (if m_max_size b = -1 then (True, b)
      else let current_size =
             (if m_time_last_time_pop b < now then m_size b
              else if m_time_last_time_enqueue b < now then m_size_at_cycle_start b
              else m_size_at_cycle_start b + m_msgs_this_cycle b)
           in if current_size + n \<le> m_max_size b then (True, b)
              else (False, b\<lparr> m_not_avail_count := m_not_avail_count b + 1 \<rparr>))"

definition getMsgPtrCopy :: "Time \<Rightarrow> ('c, 'm) message_buffer \<Rightarrow> 'm message option" where
  "getMsgPtrCopy now b = do {
     assert_that (isReady now b);
     n \<leftarrow> peekMin (mb_prio_heap b);
     Some (node_msgptr n) }"

definition peekAtHeadOfQueue :: "Time \<Rightarrow> ('c, 'm) message_buffer \<Rightarrow> 'm message option" where
  "peekAtHeadOfQueue now b = do {
     assert_that (isReady now b);
     n \<leftarrow> peekMin (mb_prio_heap b);
     Some (node_msgptr n) }"

text \<open>\<open>r1\<close>, \<open>r2\<close> and \<open>r3\<close> are what the calls of \<open>random()\<close> return, in order.\<close>

definition random_time :: "int \<Rightarrow> int \<Rightarrow> int \<Rightarrow> int" where
  "random_time r1 r2 r3 =
     (let time = 1 + (r1 AND 3) in
      if (r2 AND 7) = 0 then time + (100 + r3 mod 15) else time)"

text \<open>The arrival time of a message and the last arrival time that the check compares it with.\<close>

definition arrival_of ::
    "bool \<Rightarrow> int \<Rightarrow> Time \<Rightarrow> Time \<Rightarrow> ('c, 'm) message_buffer \<Rightarrow> Time \<times> Time" where
  "arrival_of RANDOMIZATION rt current_time delta b =
     (if \<not> RANDOMIZATION \<or> m_randomization b = False then
        (current_time + delta, m_last_arrival_time b)
      else if m_strict_fifo b then
        (let last = (if m_last_arrival_time b < current_time then current_time
                     else m_last_arrival_time b)
         in (last + rt, last))
      else (current_time + rt, m_last_arrival_time b))"

text \<open>The two overloads of \<open>enqueue\<close> are one text but for the last two arguments of the node.
  \<open>rt\<close> is the value of \<open>random_time()\<close>; \<open>None\<close> for the message is a null pointer.\<close>

definition enqueue_node ::
    "bool \<Rightarrow> int \<Rightarrow> 'm message option \<Rightarrow> Time \<Rightarrow> Time \<Rightarrow> bool \<Rightarrow> ('c, 'm) message_buffer \<Rightarrow>
     ('c, 's) sim \<Rightarrow> (('c, 'm) message_buffer \<times> ('c, 's) sim) option" where
  "enqueue_node RANDOMIZATION rt message delta reply_wts delay_queue b s = (
     let now = m_globalTime s;
         b1 = b\<lparr> m_msg_counter := m_msg_counter b + 1, m_size := m_size b + 1 \<rparr>;
         b2 = (if m_time_last_time_enqueue b1 < now
               then b1\<lparr> m_msgs_this_cycle := 0, m_time_last_time_enqueue := now \<rparr> else b1);
         b3 = b2\<lparr> m_msgs_this_cycle := m_msgs_this_cycle b2 + 1 \<rparr>
     in do {
       assert_that (m_ordering_set b3);
       assert_that (delta > 0);
       let (arrival_time, last) = arrival_of RANDOMIZATION rt now delta b3;
       assert_that (arrival_time > now);
       assert_that (m_strict_fifo b3 \<longrightarrow> arrival_time \<ge> last);
       msg \<leftarrow> message;
       assert_that (now \<ge> m_LastEnqueueTime msg);
       let msg' = msg\<lparr> m_DelayedCycles := (now - m_LastEnqueueTime msg) + m_DelayedCycles msg,
                       m_LastEnqueueTime := arrival_time \<rparr>;
       h \<leftarrow> heap_insert node_less_then_eq
              \<lparr> node_time = arrival_time, node_msg_counter = m_msg_counter b3, node_msgptr = msg',
                node_reply_wts = reply_wts, node_delay_queue = delay_queue \<rparr> (mb_prio_heap b3);
       assert_that (mb_consumer_ptr b3 \<noteq> None);
       s' \<leftarrow> scheduleEventAbsolute (mb_consumer_ptr b3) arrival_time s;
       Some (b3\<lparr> m_last_arrival_time := arrival_time, mb_prio_heap := h \<rparr>, s') })"

definition enqueue ::
    "bool \<Rightarrow> int \<Rightarrow> 'm message option \<Rightarrow> Time \<Rightarrow> ('c, 'm) message_buffer \<Rightarrow>
     ('c, 's) sim \<Rightarrow> (('c, 'm) message_buffer \<times> ('c, 's) sim) option" where
  "enqueue RANDOMIZATION rt message delta = enqueue_node RANDOMIZATION rt message delta 0 False"

definition enqueue_wts ::
    "bool \<Rightarrow> int \<Rightarrow> 'm message option \<Rightarrow> Time \<Rightarrow> Time \<Rightarrow> bool \<Rightarrow> ('c, 'm) message_buffer \<Rightarrow>
     ('c, 's) sim \<Rightarrow> (('c, 'm) message_buffer \<times> ('c, 's) sim) option" where
  "enqueue_wts = enqueue_node"

definition setAndReturnDelayCycles :: "Time \<Rightarrow> 'm message \<Rightarrow> (int \<times> 'm message) option" where
  "setAndReturnDelayCycles now msg = do {
     assert_that (m_LastEnqueueTime msg \<le> now);
     let delay_cycles = (now - m_LastEnqueueTime msg) + m_DelayedCycles msg;
     assert_that (delay_cycles \<ge> 0);
     Some (delay_cycles, msg\<lparr> m_DelayedCycles := delay_cycles \<rparr>) }"

definition pop :: "Time \<Rightarrow> ('c, 'm) message_buffer \<Rightarrow> ('c, 'm) message_buffer option" where
  "pop now b = do {
     assert_that (isReady now b);
     (n, h) \<leftarrow> extractMin node_less_then_eq (mb_prio_heap b);
     let b1 = b\<lparr> mb_prio_heap := h \<rparr>;
     let b2 = (if m_time_last_time_pop b1 < now
               then b1\<lparr> m_size_at_cycle_start := m_size b1, m_time_last_time_pop := now \<rparr> else b1);
     Some (b2\<lparr> m_size := m_size b2 - 1 \<rparr>) }"

definition dequeue :: "Time \<Rightarrow> ('c, 'm) message_buffer \<Rightarrow> ('m message \<times> ('c, 'm) message_buffer) option" where
  "dequeue now b = do {
     n \<leftarrow> peekMin (mb_prio_heap b);
     b' \<leftarrow> pop now b;
     Some (node_msgptr n, b') }"

definition dequeue_getDelayCycles ::
    "Time \<Rightarrow> ('c, 'm) message_buffer \<Rightarrow> (int \<times> 'm message \<times> ('c, 'm) message_buffer) option" where
  "dequeue_getDelayCycles now b = do {
     (msg, b') \<leftarrow> dequeue now b;
     (delay_cycles, msg') \<leftarrow> setAndReturnDelayCycles now msg;
     assert_that (delay_cycles \<ge> 0);
     Some (delay_cycles, msg', b') }"

text \<open>The overload without a message argument: the delay is computed before the message is
  removed.\<close>

definition dequeue_getDelayCycles_head ::
    "Time \<Rightarrow> ('c, 'm) message_buffer \<Rightarrow> (int \<times> ('c, 'm) message_buffer) option" where
  "dequeue_getDelayCycles_head now b = do {
     n \<leftarrow> peekMin (mb_prio_heap b);
     (delay_cycles, msg') \<leftarrow> setAndReturnDelayCycles now (node_msgptr n);
     b' \<leftarrow> pop now b;
     assert_that (delay_cycles \<ge> 0);
     Some (delay_cycles, b') }"

function clear_loop :: "'m buffer_node prio_heap \<Rightarrow> 'm buffer_node prio_heap option" where
  "clear_loop h =
     (if heap_size h > 0 then
        (case extractMin node_less_then_eq h of None \<Rightarrow> None | Some (n, h') \<Rightarrow> clear_loop h')
      else Some h)"
  by auto
termination
  by (relation "measure heap_size") (auto simp: extractMin_def heap_size_def bind_Some_iff Let_def)

declare clear_loop.simps [simp del]

definition clear :: "('c, 'm) message_buffer \<Rightarrow> ('c, 'm) message_buffer option" where
  "clear b = do {
     h \<leftarrow> clear_loop (mb_prio_heap b);
     assert_that (heap_size h = 0);
     Some (b\<lparr> mb_prio_heap := h, m_msg_counter := 0, m_size := 0, m_time_last_time_enqueue := 0,
              m_time_last_time_pop := 0, m_size_at_cycle_start := 0, m_msgs_this_cycle := 0 \<rparr>) }"

definition recycle ::
    "Time \<Rightarrow> ('c, 'm) message_buffer \<Rightarrow> ('c, 's) sim \<Rightarrow> (('c, 'm) message_buffer \<times> ('c, 's) sim) option" where
  "recycle RECYCLE_LATENCY b s = do {
     let now = m_globalTime s;
     assert_that (isReady now b);
     (node, h) \<leftarrow> extractMin node_less_then_eq (mb_prio_heap b);
     h' \<leftarrow> heap_insert node_less_then_eq (node\<lparr> node_time := now + RECYCLE_LATENCY \<rparr>) h;
     s' \<leftarrow> scheduleEventAbsolute (mb_consumer_ptr b) (now + RECYCLE_LATENCY) s;
     Some (b\<lparr> mb_prio_heap := h' \<rparr>, s') }"

section \<open>The heap of messages\<close>

definition node_key :: "'m buffer_node \<Rightarrow> Time" where
  "node_key n = (if node_delay_queue n then node_reply_wts n else node_time n)"

definition node_le :: "'m buffer_node \<Rightarrow> 'm buffer_node \<Rightarrow> bool" where
  "node_le n1 n2 \<longleftrightarrow> node_key n1 < node_key n2 \<or>
     node_key n1 = node_key n2 \<and> node_msg_counter n1 \<le> node_msg_counter n2"

lemma node_le_linear: "node_le x y \<or> node_le y x"
  by (auto simp: node_le_def)

lemma node_le_trans: "\<lbrakk> node_le x y; node_le y z \<rbrakk> \<Longrightarrow> node_le x z"
  by (auto simp: node_le_def)

lemma node_le_strict:
  "\<lbrakk> node_le x y; node_msg_counter x \<noteq> node_msg_counter y \<rbrakk> \<Longrightarrow> \<not> node_le y x"
  by (auto simp: node_le_def)

text \<open>The nodes that can be in one buffer: all of one kind, with different counters.\<close>

definition nodes_ok :: "'m buffer_node multiset \<Rightarrow> bool" where
  "nodes_ok M \<longleftrightarrow> (\<exists>d. \<forall>x\<in>#M. node_delay_queue x = d) \<and>
     (\<forall>x y. {#x, y#} \<subseteq># M \<longrightarrow> node_msg_counter x \<noteq> node_msg_counter y)"

lemma nodes_ok_comparable: "nodes_ok M \<Longrightarrow> comparable node_less_then_eq node_le M"
  unfolding comparable_def
proof (intro allI impI)
  fix x y assume ok: "nodes_ok M" and s: "{#x, y#} \<subseteq># M"
  have "x \<in># M" "y \<in># M" using s by (auto dest: mset_subset_eqD)
  then have "node_delay_queue x = node_delay_queue y" "node_msg_counter x \<noteq> node_msg_counter y"
    using ok s by (auto simp: nodes_ok_def)
  then show "node_less_then_eq x y = Some (node_le x y)"
    by (auto simp: node_less_then_eq_def node_le_def node_key_def)
qed

lemma nodes_ok_mono: "\<lbrakk> nodes_ok M; N \<subseteq># M \<rbrakk> \<Longrightarrow> nodes_ok N"
  unfolding nodes_ok_def by (meson mset_subset_eqD subset_mset.order_trans)

lemma nodes_ok_add:
  assumes "nodes_ok M" "\<forall>y\<in>#M. node_delay_queue y = node_delay_queue x"
    "\<forall>y\<in>#M. node_msg_counter y \<noteq> node_msg_counter x"
  shows "nodes_ok (add_mset x M)"
proof -
  have "node_msg_counter a \<noteq> node_msg_counter b" if s: "{#a, b#} \<subseteq># add_mset x M" for a b
  proof (cases "{#a, b#} \<subseteq># M")
    case True
    then show ?thesis using assms(1) by (simp add: nodes_ok_def)
  next
    case False
    have "a \<in># add_mset x M" "b \<in># add_mset x M" using s by (auto dest: mset_subset_eqD)
    moreover have "{#a, b#} \<subseteq># M" if "a \<noteq> x" "b \<noteq> x"
    proof (rule mset_subset_eqI)
      fix z show "count {#a, b#} z \<le> count M z"
        using mset_subset_eq_count [OF s, of z] that by (cases "z = x") auto
    qed
    moreover have "\<not> (a = x \<and> b = x)"
      using s assms(3) by auto
    ultimately show ?thesis using assms(3) False by auto
  qed
  then show ?thesis using assms(2) by (auto simp: nodes_ok_def)
qed

interpretation nodes: priority_queue node_le "comparable node_less_then_eq node_le"
  heap_init "heap_insert node_less_then_eq" "extractMin node_less_then_eq" peekMin heap_size
  "heap_invar node_le" heap_elems
  by (rule prio_heap_priority_queue) (auto simp: total_preorder_def node_le_def)

definition mb_nodes :: "('c, 'm) message_buffer \<Rightarrow> 'm buffer_node multiset" where
  "mb_nodes b = heap_elems (mb_prio_heap b)"

text \<open>The invariant of a buffer whose messages have the kind \<open>d\<close>.\<close>

definition buffer_ok :: "bool \<Rightarrow> ('c, 'm) message_buffer \<Rightarrow> bool" where
  "buffer_ok d b \<longleftrightarrow> heap_invar node_le (mb_prio_heap b) \<and> nodes_ok (mb_nodes b) \<and>
     (\<forall>x\<in>#mb_nodes b. node_delay_queue x = d \<and> node_msg_counter x \<le> m_msg_counter b) \<and>
     m_size b = int (size (mb_nodes b))"

lemma buffer_ok_new: "buffer_ok d MessageBuffer_new"
  by (simp add: buffer_ok_def MessageBuffer_new_def mb_nodes_def nodes.invar_empty
      nodes.elems_empty nodes_ok_def)

lemma buffer_ok_comparable: "buffer_ok d b \<Longrightarrow> comparable node_less_then_eq node_le (mb_nodes b)"
  by (simp add: buffer_ok_def nodes_ok_comparable)

text \<open>The nodes of a buffer in the order in which they are taken out.\<close>

definition in_order :: "'m buffer_node list \<Rightarrow> bool" where
  "in_order ns \<longleftrightarrow> sorted_wrt (\<lambda>x y. node_le x y \<and> \<not> node_le y x) ns"

definition represents :: "('c, 'm) message_buffer \<Rightarrow> 'm buffer_node list \<Rightarrow> bool" where
  "represents b ns \<longleftrightarrow> mset ns = mb_nodes b \<and> in_order ns"

lemma represents_head:
  assumes "buffer_ok d b" "represents b (n # ns)"
  shows "\<exists>h. extractMin node_less_then_eq (mb_prio_heap b) = Some (n, h) \<and>
             peekMin (mb_prio_heap b) = Some n \<and> heap_invar node_le h \<and> heap_elems h = mset ns"
proof -
  have ne: "mb_nodes b \<noteq> {#}" and inv: "heap_invar node_le (mb_prio_heap b)"
    using assms by (auto simp: represents_def buffer_ok_def)
  obtain x h where x: "extractMin node_less_then_eq (mb_prio_heap b) = Some (x, h)"
    "peekMin (mb_prio_heap b) = Some x" "heap_invar node_le h"
    "mb_nodes b = add_mset x (heap_elems h)" "\<forall>y\<in>#mb_nodes b. node_le x y"
    using nodes.del_min_total [OF inv] buffer_ok_comparable [OF assms(1)] ne
    unfolding mb_nodes_def by blast
  have m: "mset (n # ns) = mb_nodes b" and o: "\<forall>y\<in>set ns. node_le n y \<and> \<not> node_le y n"
    using assms(2) by (auto simp: represents_def in_order_def)
  have "x \<in> set (n # ns)" using x(4) m by (metis set_mset_mset union_single_eq_member)
  moreover have "node_le x n" using x(5) m by (metis list.set_intros(1) set_mset_mset)
  ultimately have "x = n" using o by auto
  then show ?thesis using x m by auto
qed

lemma represents_empty:
  assumes "buffer_ok d b" "represents b []"
  shows "peekMin (mb_prio_heap b) = None"
  using assms nodes.del_min_empty [of "mb_prio_heap b"]
  by (simp add: represents_def buffer_ok_def mb_nodes_def)

lemma isReady_represents:
  assumes "buffer_ok d b" "represents b ns"
  shows "isReady now b \<longleftrightarrow> (\<exists>n ns'. ns = n # ns' \<and> node_time n \<le> now)"
proof (cases ns)
  case Nil
  then show ?thesis using represents_empty [OF assms(1)] assms(2) by (simp add: isReady_def)
next
  case (Cons n ns')
  then show ?thesis using represents_head [of d b n ns'] assms by (auto simp: isReady_def)
qed

text \<open>Every buffer that satisfies the invariant has such a list.\<close>

lemma buffer_ok_represented:
  assumes "buffer_ok d b"
  shows "\<exists>ns. represents b ns"
proof -
  have inv: "heap_invar node_le (mb_prio_heap b)" using assms by (simp add: buffer_ok_def)
  obtain xs where xs: "mset xs = mb_nodes b" "sorted_wrt node_le xs"
    using nodes.drain_sorted [OF inv] buffer_ok_comparable [OF assms] by (auto simp: mb_nodes_def)
  have c: "node_msg_counter x \<noteq> node_msg_counter y" if "{#x, y#} \<subseteq># mset xs" for x y
    using that assms xs(1) by (simp add: buffer_ok_def nodes_ok_def)
  have "in_order xs" unfolding in_order_def
  proof (rule sorted_wrt_iff_nth_less [THEN iffD2], intro allI impI)
    fix i j assume ij: "i < j" "j < length xs"
    have "{#xs ! i, xs ! j#} \<subseteq># mset xs"
      using pair_in_elems_of [of "Suc i" "length xs" "Suc j" "undefined # xs"] ij
      by (simp add: elems_of_def)
    moreover have "node_le (xs ! i) (xs ! j)" using xs(2) ij by (simp add: sorted_wrt_iff_nth_less)
    ultimately show "node_le (xs ! i) (xs ! j) \<and> \<not> node_le (xs ! j) (xs ! i)"
      using c by (auto simp: node_le_def)
  qed
  then show ?thesis using xs(1) by (auto simp: represents_def)
qed

section \<open>Taking messages out\<close>

lemma pop_represents:
  assumes "buffer_ok d b" "represents b (n # ns)" "node_time n \<le> now"
  shows "\<exists>b'. pop now b = Some b' \<and> buffer_ok d b' \<and> represents b' ns \<and>
     m_last_arrival_time b' = m_last_arrival_time b \<and> m_strict_fifo b' = m_strict_fifo b"
proof -
  obtain h where h: "extractMin node_less_then_eq (mb_prio_heap b) = Some (n, h)"
    "heap_invar node_le h" "heap_elems h = mset ns"
    using represents_head assms(1,2) by blast
  have rd: "isReady now b" using isReady_represents [OF assms(1,2)] assms(3) by blast
  obtain b' where b': "pop now b = Some b'" "mb_prio_heap b' = h" "m_size b' = m_size b - 1"
    "m_msg_counter b' = m_msg_counter b" "m_last_arrival_time b' = m_last_arrival_time b"
    "m_strict_fifo b' = m_strict_fifo b"
    using h rd by (simp add: pop_def Let_def)
  have m: "mb_nodes b = add_mset n (mb_nodes b')"
    using assms(2) h b' by (simp add: represents_def mb_nodes_def)
  have "nodes_ok (mb_nodes b')"
    using assms(1) m nodes_ok_mono [of "mb_nodes b" "mb_nodes b'"] by (simp add: buffer_ok_def)
  then have "buffer_ok d b'" using assms(1) m h b' by (auto simp: buffer_ok_def)
  moreover have "represents b' ns"
    using assms(2) h b' by (simp add: represents_def mb_nodes_def in_order_def)
  ultimately show ?thesis using b' by blast
qed

lemma pop_SomeD:
  assumes "buffer_ok d b" "represents b ns" "pop now b = Some b'"
  shows "\<exists>n. ns = n # tl ns \<and> node_time n \<le> now"
  using assms isReady_represents [OF assms(1,2), of now] by (auto simp: pop_def)

lemma clear_loop_empties:
  assumes "heap_invar node_le h" "comparable node_less_then_eq node_le (heap_elems h)"
  shows "\<exists>h'. clear_loop h = Some h' \<and> heap_invar node_le h' \<and> heap_size h' = 0"
  using assms
proof (induction h rule: clear_loop.induct)
  case (1 h)
  show ?case
  proof (cases "heap_size h > 0")
    case True
    then have "heap_elems h \<noteq> {#}" using nodes.card_elems [OF 1(2)] by auto
    then obtain x h' where "extractMin node_less_then_eq h = Some (x, h')"
      using nodes.del_min_total [OF 1(2,3)] by blast
    then show ?thesis
      using 1(1) [OF True] nodes.del_minD [OF 1(2,3)] True by (auto simp: clear_loop.simps [of h])
  qed (use 1 in \<open>simp add: clear_loop.simps [of h]\<close>)
qed

lemma clear_ok:
  assumes "buffer_ok d b"
  shows "\<exists>b'. clear b = Some b' \<and> buffer_ok e b' \<and> represents b' [] \<and> m_size b' = 0"
proof -
  obtain h where h: "clear_loop (mb_prio_heap b) = Some h" "heap_invar node_le h" "heap_size h = 0"
    using clear_loop_empties buffer_ok_comparable [OF assms] assms
    by (auto simp: buffer_ok_def mb_nodes_def)
  then have "heap_elems h = {#}" using nodes.card_elems [OF h(2)] by simp
  then show ?thesis using h
    by (simp add: clear_def buffer_ok_def represents_def in_order_def mb_nodes_def nodes_ok_def)
qed

section \<open>Putting messages in\<close>

definition arrival :: "bool \<Rightarrow> int \<Rightarrow> Time \<Rightarrow> Time \<Rightarrow> ('c, 'm) message_buffer \<Rightarrow> Time" where
  "arrival RANDOMIZATION rt now delta b = fst (arrival_of RANDOMIZATION rt now delta b)"

definition new_node :: "bool \<Rightarrow> int \<Rightarrow> Time \<Rightarrow> 'm message \<Rightarrow> Time \<Rightarrow> Time \<Rightarrow> bool \<Rightarrow>
    ('c, 'm) message_buffer \<Rightarrow> 'm buffer_node" where
  "new_node R rt now msg delta wts dq b =
     \<lparr> node_time = arrival R rt now delta b, node_msg_counter = m_msg_counter b + 1,
       node_msgptr = msg\<lparr> m_DelayedCycles := (now - m_LastEnqueueTime msg) + m_DelayedCycles msg,
                          m_LastEnqueueTime := arrival R rt now delta b \<rparr>,
       node_reply_wts = wts, node_delay_queue = dq \<rparr>"

text \<open>When an enqueue goes through: what the code asserts.\<close>

definition enqueue_pre ::
    "bool \<Rightarrow> int \<Rightarrow> 'm message \<Rightarrow> Time \<Rightarrow> ('c, 'm) message_buffer \<Rightarrow> ('c, 's) sim \<Rightarrow> bool" where
  "enqueue_pre R rt msg delta b s \<longleftrightarrow> m_ordering_set b \<and> delta > 0 \<and> mb_consumer_ptr b \<noteq> None \<and>
     arrival R rt (m_globalTime s) delta b > m_globalTime s \<and>
     (m_strict_fifo b \<longrightarrow>
        arrival R rt (m_globalTime s) delta b \<ge> snd (arrival_of R rt (m_globalTime s) delta b)) \<and>
     m_LastEnqueueTime msg \<le> m_globalTime s"

lemma arrival_of_cong:
  assumes "m_randomization b' = m_randomization b" "m_strict_fifo b' = m_strict_fifo b"
    "m_last_arrival_time b' = m_last_arrival_time b"
  shows "arrival_of R rt now delta b' = arrival_of R rt now delta b"
  by (simp add: arrival_of_def assms)

lemma arrival_of_last: "m_last_arrival_time b \<le> snd (arrival_of R rt now delta b)"
  by (simp add: arrival_of_def Let_def)

text \<open>The bookkeeping at the start of \<open>enqueue\<close>.\<close>

definition enqueue_counted :: "Time \<Rightarrow> ('c, 'm) message_buffer \<Rightarrow> ('c, 'm) message_buffer" where
  "enqueue_counted now b = b\<lparr> m_msg_counter := m_msg_counter b + 1, m_size := m_size b + 1,
     m_time_last_time_enqueue := max now (m_time_last_time_enqueue b),
     m_msgs_this_cycle := (if m_time_last_time_enqueue b < now then 1 else m_msgs_this_cycle b + 1) \<rparr>"

lemma enqueue_node_eq:
  assumes "enqueue_pre R rt msg delta b s"
  shows "enqueue_node R rt (Some msg) delta wts dq b s = do {
     h \<leftarrow> heap_insert node_less_then_eq (new_node R rt (m_globalTime s) msg delta wts dq b)
            (mb_prio_heap b);
     s' \<leftarrow> scheduleEventAbsolute (mb_consumer_ptr b) (arrival R rt (m_globalTime s) delta b) s;
     Some ((enqueue_counted (m_globalTime s) b)
              \<lparr> m_last_arrival_time := arrival R rt (m_globalTime s) delta b, mb_prio_heap := h \<rparr>, s') }"
proof -
  let ?now = "m_globalTime s"
  define b1 where "b1 = b\<lparr> m_msg_counter := m_msg_counter b + 1, m_size := m_size b + 1 \<rparr>"
  define b2 where "b2 = (if m_time_last_time_enqueue b1 < ?now
       then b1\<lparr> m_msgs_this_cycle := 0, m_time_last_time_enqueue := ?now \<rparr> else b1)"
  define b3 where "b3 = b2\<lparr> m_msgs_this_cycle := m_msgs_this_cycle b2 + 1 \<rparr>"
  have b3: "b3 = enqueue_counted ?now b"
    by (simp add: b3_def b2_def b1_def enqueue_counted_def max_def)
  have a: "arrival_of R rt ?now delta b3 = arrival_of R rt ?now delta b"
    by (rule arrival_of_cong) (simp_all add: b3 enqueue_counted_def)
  show ?thesis using assms a
    unfolding enqueue_node_def Let_def b1_def [symmetric] b2_def [symmetric] b3_def [symmetric]
    by (simp add: enqueue_pre_def arrival_def new_node_def b3 enqueue_counted_def case_prod_unfold)
qed

lemma enqueue_node_ok:
  assumes ok: "buffer_ok dq b" and q: "queue_ok s" and pre: "enqueue_pre R rt msg delta b s"
  shows "\<exists>b' s'. enqueue_node R rt (Some msg) delta wts dq b s = Some (b', s') \<and>
     buffer_ok dq b' \<and> queue_ok s' \<and> scheduled s s' \<and>
     mb_nodes b' = add_mset (new_node R rt (m_globalTime s) msg delta wts dq b) (mb_nodes b) \<and>
     m_last_arrival_time b' = arrival R rt (m_globalTime s) delta b \<and>
     m_strict_fifo b' = m_strict_fifo b \<and> m_msg_counter b' = m_msg_counter b + 1 \<and>
     \<lparr> m_time = arrival R rt (m_globalTime s) delta b,
       m_consumer_ptr = the (mb_consumer_ptr b) \<rparr> \<in># pending s'"
proof -
  let ?n = "new_node R rt (m_globalTime s) msg delta wts dq b"
  let ?t = "arrival R rt (m_globalTime s) delta b"
  have nok: "nodes_ok (add_mset ?n (mb_nodes b))"
    using ok by (intro nodes_ok_add) (auto simp: buffer_ok_def new_node_def)
  obtain h where h: "heap_insert node_less_then_eq ?n (mb_prio_heap b) = Some h"
    "heap_invar node_le h" "heap_elems h = add_mset ?n (mb_nodes b)"
    using nodes.insert_total [of "mb_prio_heap b" ?n] ok nodes_ok_comparable [OF nok]
    by (auto simp: buffer_ok_def mb_nodes_def)
  obtain c where c: "mb_consumer_ptr b = Some c" using pre by (auto simp: enqueue_pre_def)
  obtain s' where s': "scheduleEventAbsolute (Some c) ?t s = Some s'" "queue_ok s'" "scheduled s s'"
    "\<lparr> m_time = ?t, m_consumer_ptr = c \<rparr> \<in># pending s'"
    using scheduleEventAbsolute_future [OF q, of ?t c] pre by (auto simp: enqueue_pre_def)
  let ?b = "(enqueue_counted (m_globalTime s) b)\<lparr> m_last_arrival_time := ?t, mb_prio_heap := h \<rparr>"
  have "buffer_ok dq ?b" using ok h nok
    by (auto simp: buffer_ok_def mb_nodes_def enqueue_counted_def new_node_def)
  then show ?thesis using enqueue_node_eq [OF pre] h s' c
    by (simp add: mb_nodes_def enqueue_counted_def)
qed

text \<open>Without strict checks: the new node goes to its place in the order.\<close>

lemma represents_add:
  assumes "buffer_ok d b'" "mb_nodes b' = add_mset n (mb_nodes b)" "represents b (xs @ ys)"
    "\<forall>x\<in>set xs. node_le x n" "\<forall>y\<in>set ys. \<not> node_le y n"
  shows "represents b' (xs @ n # ys)"
proof -
  have m: "mset (xs @ n # ys) = mb_nodes b'" using assms by (simp add: represents_def)
  have c: "node_msg_counter x \<noteq> node_msg_counter n" if "x \<in> set (xs @ ys)" for x
  proof -
    have "x \<in># mb_nodes b" using that assms(3) by (metis represents_def set_mset_mset)
    then have "{#x, n#} \<subseteq># mb_nodes b'" using assms(2) by simp
    then show ?thesis using assms(1) by (simp add: buffer_ok_def nodes_ok_def)
  qed
  have "\<forall>x\<in>set xs. node_le x n \<and> \<not> node_le n x" using assms(4) c node_le_strict by force
  moreover have "\<forall>y\<in>set ys. node_le n y \<and> \<not> node_le y n" using assms(5) node_le_linear by blast
  ultimately have "in_order (xs @ n # ys)"
    using assms(3) by (simp add: represents_def in_order_def sorted_wrt_append)
  then show ?thesis using m by (simp add: represents_def)
qed

section \<open>Slot accounting\<close>

text \<open>The size that \<open>areNSlotsAvailable\<close> compares with the maximum never is below the real
  one: pops of the current cycle are not counted yet, enqueues are.\<close>

definition slots_ok :: "Time \<Rightarrow> ('c, 'm) message_buffer \<Rightarrow> bool" where
  "slots_ok now b \<longleftrightarrow> m_time_last_time_pop b \<le> now \<and> m_time_last_time_enqueue b \<le> now \<and>
     m_msgs_this_cycle b \<ge> 0 \<and>
     (m_time_last_time_pop b = now \<longrightarrow> m_size b \<le> m_size_at_cycle_start b +
        (if m_time_last_time_enqueue b = now then m_msgs_this_cycle b else 0))"

lemma slots_ok_new: "now > 0 \<Longrightarrow> slots_ok now MessageBuffer_new"
  by (simp add: slots_ok_def MessageBuffer_new_def)

lemma slots_ok_later: "\<lbrakk> slots_ok now b; now < later \<rbrakk> \<Longrightarrow> slots_ok later b"
  by (auto simp: slots_ok_def)

lemma slots_ok_enqueue_counted: "slots_ok now b \<Longrightarrow> slots_ok now (enqueue_counted now b)"
  by (auto simp: slots_ok_def enqueue_counted_def)

lemma slots_ok_cong:
  assumes "slots_ok now b" "m_time_last_time_pop b' = m_time_last_time_pop b"
    "m_time_last_time_enqueue b' = m_time_last_time_enqueue b" "m_size b' = m_size b"
    "m_msgs_this_cycle b' = m_msgs_this_cycle b" "m_size_at_cycle_start b' = m_size_at_cycle_start b"
  shows "slots_ok now b'"
  using assms by (auto simp: slots_ok_def)

lemma slots_ok_enqueue:
  assumes "slots_ok (m_globalTime s) b" "enqueue_pre R rt msg delta b s"
    "enqueue_node R rt (Some msg) delta wts dq b s = Some (b', s')"
  shows "slots_ok (m_globalTime s) b'"
proof -
  obtain h where "b' = (enqueue_counted (m_globalTime s) b)
      \<lparr> m_last_arrival_time := arrival R rt (m_globalTime s) delta b, mb_prio_heap := h \<rparr>"
    using assms(3) enqueue_node_eq [OF assms(2)] by (auto simp: bind_Some_iff)
  then show ?thesis
    by (intro slots_ok_cong [OF slots_ok_enqueue_counted [OF assms(1)]]) simp_all
qed

lemma slots_ok_pop: "\<lbrakk> slots_ok now b; pop now b = Some b' \<rbrakk> \<Longrightarrow> slots_ok now b'"
  by (auto simp: pop_def bind_Some_iff Let_def slots_ok_def split: if_splits)

lemma slots_available_size:
  assumes "slots_ok now b" "fst (areNSlotsAvailable now n b)" "m_max_size b \<noteq> -1"
  shows "m_size b + n \<le> m_max_size b"
  using assms by (auto simp: areNSlotsAvailable_def slots_ok_def Let_def split: if_splits)

lemma enqueue_node_SomeD:
  assumes "enqueue_node R rt (Some msg) delta wts dq b s = Some (b', s')"
  shows "enqueue_pre R rt msg delta b s" "m_max_size b' = m_max_size b"
proof -
  let ?now = "m_globalTime s"
  define b1 where "b1 = b\<lparr> m_msg_counter := m_msg_counter b + 1, m_size := m_size b + 1 \<rparr>"
  define b2 where "b2 = (if m_time_last_time_enqueue b1 < ?now
       then b1\<lparr> m_msgs_this_cycle := 0, m_time_last_time_enqueue := ?now \<rparr> else b1)"
  define b3 where "b3 = b2\<lparr> m_msgs_this_cycle := m_msgs_this_cycle b2 + 1 \<rparr>"
  have b3: "b3 = enqueue_counted ?now b" by (simp add: b3_def b2_def b1_def enqueue_counted_def max_def)
  have a: "arrival_of R rt ?now delta b3 = arrival_of R rt ?now delta b"
    by (rule arrival_of_cong) (simp_all add: b3 enqueue_counted_def)
  show pre: "enqueue_pre R rt msg delta b s" using assms a
    unfolding enqueue_node_def Let_def b1_def [symmetric] b2_def [symmetric] b3_def [symmetric]
    by (auto simp: enqueue_pre_def arrival_def b3 enqueue_counted_def bind_Some_iff split: prod.splits)
  show "m_max_size b' = m_max_size b"
    using assms unfolding enqueue_node_eq [OF pre] by (auto simp: bind_Some_iff enqueue_counted_def)
qed

text \<open>The life of a buffer between its users: they ask for slots, put in as many messages as they were granted, and take
  messages out, while time passes.  The last component is the number of slots that were granted and are not used yet.\<close>

inductive buffer_run ::
  "bool \<Rightarrow> ('c, 'm) message_buffer \<times> ('c, 's) sim \<Rightarrow> ('c, 'm) message_buffer \<times> ('c, 's) sim \<times> int \<Rightarrow> bool"
  for dq x0 where
  start: "buffer_run dq x0 (fst x0, snd x0, 0)"
| ask: "\<lbrakk> buffer_run dq x0 (b, s, k); areNSlotsAvailable (m_globalTime s) n b = (granted, b') \<rbrakk> \<Longrightarrow>
    buffer_run dq x0 (b', s, if granted then n else k)"
| put: "\<lbrakk> buffer_run dq x0 (b, s, k); 0 < k; enqueue_wts R rt (Some msg) delta wts dq b s = Some (b', s') \<rbrakk> \<Longrightarrow>
    buffer_run dq x0 (b', s', k - 1)"
| take: "\<lbrakk> buffer_run dq x0 (b, s, k); pop (m_globalTime s) b = Some b' \<rbrakk> \<Longrightarrow> buffer_run dq x0 (b', s, k)"
| time: "\<lbrakk> buffer_run dq x0 (b, s, k); queue_ok s'; m_globalTime s < m_globalTime s' \<rbrakk> \<Longrightarrow> buffer_run dq x0 (b, s', k)"

lemma areNSlotsAvailable_buffer:
  assumes "areNSlotsAvailable now n b = (granted, b')"
  shows "b' = b\<lparr>m_not_avail_count := m_not_avail_count b'\<rparr>"
  using assms by (auto simp: areNSlotsAvailable_def Let_def split: if_splits)

lemma pop_max_size: "pop now b = Some b' \<Longrightarrow> m_max_size b' = m_max_size b \<and> m_size b' = m_size b - 1"
  by (auto simp: pop_def bind_Some_iff Let_def split: if_splits)

lemma buffer_run_slots:
  assumes "buffer_run dq x0 (b, s, k)" "buffer_ok dq (fst x0)" "queue_ok (snd x0)" "slots_ok (m_globalTime (snd x0)) (fst x0)"
    "m_max_size (fst x0) = max_size" "max_size \<noteq> - 1" "m_size (fst x0) \<le> max_size"
  shows "buffer_ok dq b \<and> queue_ok s \<and> slots_ok (m_globalTime s) b \<and> m_max_size b = max_size \<and> m_size b + k \<le> max_size"
  using assms(1)
proof (induction "(b, s, k)" arbitrary: b s k rule: buffer_run.induct)
  case start
  then show ?case using assms by simp
next
  case (ask b s k n granted b')
  note b' = areNSlotsAvailable_buffer [OF ask.hyps(3)]
  have same: "mb_prio_heap b' = mb_prio_heap b" "m_msg_counter b' = m_msg_counter b" "m_size b' = m_size b" "m_max_size b' = m_max_size b"
    by (subst b', simp)+
  have "buffer_ok dq b'" using ask.hyps(2) same by (simp add: buffer_ok_def mb_nodes_def)
  moreover have "slots_ok (m_globalTime s) b'" by (rule slots_ok_cong [of _ b]) (use ask.hyps(2) in simp, (subst b', simp)+)
  moreover have "m_size b + n \<le> max_size" if "granted"
    using slots_available_size [of "m_globalTime s" b n] ask.hyps(2,3) assms(6) that by simp
  ultimately show ?case using ask.hyps(2) same by auto
next
  case (put b s k R rt msg delta wts b' s')
  have e: "enqueue_node R rt (Some msg) delta wts dq b s = Some (b', s')" using put.hyps(4) by (simp add: enqueue_wts_def)
  note pre = enqueue_node_SomeD [OF e]
  have ok: "buffer_ok dq b" "queue_ok s" "slots_ok (m_globalTime s) b" using put.hyps(2) by simp_all
  have b': "buffer_ok dq b'" "queue_ok s'" "scheduled s s'"
      "mb_nodes b' = add_mset (new_node R rt (m_globalTime s) msg delta wts dq b) (mb_nodes b)"
    using enqueue_node_ok [OF ok(1,2) pre(1), of wts] e by auto
  then have "m_size b' = m_size b + 1" using ok(1) by (simp add: buffer_ok_def)
  moreover have "slots_ok (m_globalTime s') b'"
    using slots_ok_enqueue [OF ok(3) pre(1) e] b'(3) by (simp add: scheduled_def)
  ultimately show ?case using put.hyps(2) b' pre(2) by simp
next
  case (take b s k b')
  then have ok: "buffer_ok dq b" "slots_ok (m_globalTime s) b" by simp_all
  obtain ns where ns: "represents b ns" using buffer_ok_represented [OF ok(1)] by blast
  obtain n where "ns = n # tl ns" "node_time n \<le> m_globalTime s" using pop_SomeD [OF ok(1) ns take.hyps(3)] by blast
  then have "buffer_ok dq b'" using pop_represents [OF ok(1), of n "tl ns" "m_globalTime s"] ns take.hyps(3) by auto
  then show ?case using take.hyps(2,3) slots_ok_pop [OF ok(2) take.hyps(3)] pop_max_size [OF take.hyps(3)] by simp
next
  case (time b s k s')
  then show ?case using slots_ok_later by blast
qed

section \<open>Order of delivery\<close>

text \<open>In a strict FIFO buffer no message in the buffer arrives after the last one enqueued.\<close>

definition fifo_ok :: "('c, 'm) message_buffer \<Rightarrow> bool" where
  "fifo_ok b \<longleftrightarrow> (\<forall>x\<in>#mb_nodes b. node_time x \<le> m_last_arrival_time b)"

lemma fifo_ok_new: "fifo_ok MessageBuffer_new"
  by (simp add: fifo_ok_def MessageBuffer_new_def mb_nodes_def nodes.elems_empty)

lemma enqueue_at_end:
  assumes ok: "buffer_ok False b" "fifo_ok b" "m_strict_fifo b" and q: "queue_ok s"
    and pre: "enqueue_pre R rt msg delta b s" and ns: "represents b ns"
  shows "\<exists>b' s'. enqueue R rt (Some msg) delta b s = Some (b', s') \<and>
     buffer_ok False b' \<and> fifo_ok b' \<and> m_strict_fifo b' \<and> queue_ok s' \<and>
     represents b' (ns @ [new_node R rt (m_globalTime s) msg delta 0 False b]) \<and> m_msg_counter b' = m_msg_counter b + 1"
proof -
  let ?n = "new_node R rt (m_globalTime s) msg delta 0 False b"
  obtain b' s' where b': "enqueue_node R rt (Some msg) delta 0 False b s = Some (b', s')"
    "buffer_ok False b'" "queue_ok s'" "mb_nodes b' = add_mset ?n (mb_nodes b)"
    "m_last_arrival_time b' = arrival R rt (m_globalTime s) delta b" "m_strict_fifo b'" "m_msg_counter b' = m_msg_counter b + 1"
    using enqueue_node_ok [OF ok(1) q pre, of 0] ok(3) by blast
  have last: "m_last_arrival_time b \<le> node_time ?n"
    using pre ok(3) arrival_of_last [of b R rt "m_globalTime s" delta]
    by (auto simp: enqueue_pre_def new_node_def)
  have "\<forall>x\<in>set ns. x \<in># mb_nodes b" using ns by (metis represents_def set_mset_mset)
  then have "\<forall>x\<in>set ns. node_le x ?n"
    using ok last by (fastforce simp: node_le_def node_key_def buffer_ok_def fifo_ok_def new_node_def)
  then have "represents b' (ns @ [?n])"
    using represents_add [OF b'(2,4), of ns "[]"] ns by simp
  moreover have "fifo_ok b'"
    using b'(4,5) ok(2) last by (auto simp: fifo_ok_def new_node_def)
  ultimately show ?thesis using b' by (auto simp: enqueue_def)
qed

lemma dequeue_first:
  assumes "buffer_ok d b" "represents b (n # ns)" "node_time n \<le> now"
  shows "\<exists>b'. dequeue now b = Some (node_msgptr n, b') \<and> buffer_ok d b' \<and> represents b' ns \<and>
     m_last_arrival_time b' = m_last_arrival_time b \<and> m_strict_fifo b' = m_strict_fifo b"
proof -
  obtain b' where b': "pop now b = Some b'" "buffer_ok d b'" "represents b' ns"
    "m_last_arrival_time b' = m_last_arrival_time b" "m_strict_fifo b' = m_strict_fifo b"
    using pop_represents [OF assms] by blast
  moreover have "peekMin (mb_prio_heap b) = Some n" using represents_head assms by blast
  ultimately show ?thesis by (simp add: dequeue_def)
qed

lemma in_order_split:
  assumes "in_order ns"
  shows "\<forall>x\<in>set (takeWhile (\<lambda>x. node_le x n) ns). node_le x n"
    and "\<forall>x\<in>set (dropWhile (\<lambda>x. node_le x n) ns). \<not> node_le x n"
proof -
  show "\<forall>x\<in>set (takeWhile (\<lambda>x. node_le x n) ns). node_le x n" by (auto dest: set_takeWhileD)
  show "\<forall>x\<in>set (dropWhile (\<lambda>x. node_le x n) ns). \<not> node_le x n"
    using assms
  proof (induction ns)
    case (Cons y ns)
    have "\<forall>x\<in>set ns. node_le y x" using Cons.prems by (simp add: in_order_def)
    then have later: "\<forall>x\<in>set ns. \<not> node_le x n" if "\<not> node_le y n"
      using that node_le_trans by blast
    have tl: "in_order ns" using Cons.prems by (simp add: in_order_def)
    show ?case
    proof (cases "node_le y n")
      case True
      then have "dropWhile (\<lambda>x. node_le x n) (y # ns) = dropWhile (\<lambda>x. node_le x n) ns" by simp
      then show ?thesis using Cons.IH [OF tl] by (simp only:)
    next
      case False
      then show ?thesis using later by simp
    qed
  qed simp
qed

section \<open>Properties\<close>

text \<open>C17. A strict FIFO buffer refines a list: as long as the counter of its messages has not reached the largest C
  \<open>int\<close>, \<open>enqueue\<close> succeeds whenever its assertions hold, appends the message at the end, whatever the delay or the random
  arrival time, and the buffer stays a strict FIFO; the counter grows by one and still is an \<open>int\<close>, and so are those of
  the messages.\<close>

theorem fifo_enqueue_appends:
  assumes "buffer_ok False b" "fifo_ok b" "m_strict_fifo b" "queue_ok s"
    and "enqueue_pre R rt msg delta b s" "represents b ns" "m_msg_counter b < 2 ^ 31 - 1"
  shows "\<exists>b' s'. enqueue R rt (Some msg) delta b s = Some (b', s') \<and>
     buffer_ok False b' \<and> fifo_ok b' \<and> m_strict_fifo b' \<and> queue_ok s' \<and>
     represents b' (ns @ [new_node R rt (m_globalTime s) msg delta 0 False b]) \<and>
     m_msg_counter b' = m_msg_counter b + 1 \<and> m_msg_counter b' < 2 ^ 31 \<and> (\<forall>x\<in>#mb_nodes b'. node_msg_counter x < 2 ^ 31)"
proof -
  obtain b' s' where b': "enqueue R rt (Some msg) delta b s = Some (b', s')" "buffer_ok False b'" "fifo_ok b'" "m_strict_fifo b'" "queue_ok s'"
      "represents b' (ns @ [new_node R rt (m_globalTime s) msg delta 0 False b])" "m_msg_counter b' = m_msg_counter b + 1"
    using enqueue_at_end [OF assms(1-6)] by blast
  then have "\<forall>x\<in>#mb_nodes b'. node_msg_counter x < 2 ^ 31" using assms(7) by (fastforce simp: buffer_ok_def)
  then show ?thesis using b' assms(7) by auto
qed

text \<open>C18. \<open>dequeue\<close> takes the first message of that list once its arrival time is reached,
  and aborts exactly when there is none or it has not arrived.\<close>

theorem dequeue_takes_first:
  assumes "buffer_ok d b" "represents b ns"
  shows "case ns of
       [] \<Rightarrow> dequeue now b = None
     | n # ns' \<Rightarrow> if node_time n \<le> now
                 then \<exists>b'. dequeue now b = Some (node_msgptr n, b') \<and> buffer_ok d b' \<and>
                           represents b' ns' \<and> (fifo_ok b \<longrightarrow> fifo_ok b')
                 else dequeue now b = None"
proof (cases ns)
  case Nil
  then show ?thesis using represents_empty [OF assms(1)] assms(2) by (simp add: dequeue_def)
next
  case (Cons n ns')
  show ?thesis
  proof (cases "node_time n \<le> now")
    case True
    then obtain b' where b': "dequeue now b = Some (node_msgptr n, b')" "buffer_ok d b'"
      "represents b' ns'" "m_last_arrival_time b' = m_last_arrival_time b"
      using dequeue_first [of d b n ns' now] assms Cons by blast
    have "mb_nodes b = add_mset n (mb_nodes b')"
      using assms(2) b'(3) Cons by (simp add: represents_def)
    then have "fifo_ok b \<longrightarrow> fifo_ok b'" using b'(4) by (simp add: fifo_ok_def)
    then show ?thesis using True Cons b' by auto
  next
    case False
    then have "pop now b = None"
      using isReady_represents [OF assms] Cons by (simp add: pop_def)
    then show ?thesis using False Cons by (simp add: dequeue_def)
  qed
qed

text \<open>C28. A delay queue is ordered by logical time: as long as the counter of its messages has not reached the largest C
  \<open>int\<close>, \<open>enqueue\<close> with a reply write timestamp puts the message behind all messages with a smaller or equal timestamp and
  before all with a larger one, so that messages leave in the order of their write timestamps, equal ones in the
  order of arrival; the counter grows by one and still is an \<open>int\<close>.\<close>

theorem delay_queue_ordered_by_wts:
  assumes "buffer_ok True b" "queue_ok s" "enqueue_pre R rt msg delta b s" "represents b ns" "m_msg_counter b < 2 ^ 31 - 1"
  shows "\<exists>b' s'. enqueue_wts R rt (Some msg) delta wts True b s = Some (b', s') \<and>
     buffer_ok True b' \<and> queue_ok s' \<and>
     represents b' (takeWhile (\<lambda>x. node_reply_wts x \<le> wts) ns
        @ new_node R rt (m_globalTime s) msg delta wts True b
        # dropWhile (\<lambda>x. node_reply_wts x \<le> wts) ns) \<and>
     m_msg_counter b' = m_msg_counter b + 1 \<and> m_msg_counter b' < 2 ^ 31"
proof -
  let ?n = "new_node R rt (m_globalTime s) msg delta wts True b"
  obtain b' s' where b': "enqueue_node R rt (Some msg) delta wts True b s = Some (b', s')"
    "buffer_ok True b'" "queue_ok s'" "mb_nodes b' = add_mset ?n (mb_nodes b)" "m_msg_counter b' = m_msg_counter b + 1"
    using enqueue_node_ok [OF assms(1-3), of wts] by blast
  have "node_le x ?n = (node_reply_wts x \<le> wts)" if "x \<in> set ns" for x
  proof -
    have "x \<in># mb_nodes b" using that assms(4) by (metis represents_def set_mset_mset)
    then show ?thesis using assms(1)
      by (auto simp: node_le_def node_key_def new_node_def buffer_ok_def)
  qed
  note le = this
  have tw: "takeWhile (\<lambda>x. node_le x ?n) ns = takeWhile (\<lambda>x. node_reply_wts x \<le> wts) ns"
    by (rule takeWhile_cong [OF refl le])
  have dw: "dropWhile (\<lambda>x. node_le x ?n) ns = dropWhile (\<lambda>x. node_reply_wts x \<le> wts) ns"
    by (rule dropWhile_cong [OF refl le])
  have "in_order ns" using assms(4) by (simp add: represents_def)
  note split = in_order_split [OF this, of ?n]
  have "represents b' (takeWhile (\<lambda>x. node_le x ?n) ns @ ?n # dropWhile (\<lambda>x. node_le x ?n) ns)"
    by (rule represents_add [OF b'(2,4) _ split]) (simp add: assms(4))
  then show ?thesis using b' assms(5) unfolding enqueue_wts_def tw dw by (intro exI conjI) auto
qed

text \<open>The consumer of a buffer is scheduled for the arrival of every message: after
  \<open>enqueue\<close> the event queue holds a wakeup of the consumer at the arrival time.\<close>

theorem enqueue_schedules_consumer:
  assumes "buffer_ok dq b" "queue_ok s" "enqueue_pre R rt msg delta b s"
  shows "\<exists>b' s'. enqueue_wts R rt (Some msg) delta wts dq b s = Some (b', s') \<and>
     \<lparr> m_time = arrival R rt (m_globalTime s) delta b,
       m_consumer_ptr = the (mb_consumer_ptr b) \<rparr> \<in># pending s'"
  using enqueue_node_ok [OF assms, of wts] unfolding enqueue_wts_def by blast

text \<open>C31. A bounded buffer does not overflow.  Set up a new buffer with a maximal size and let its users ask for slots
  with \<open>areNSlotsAvailable\<close>, enqueue only as many messages as were granted at the last time, and pop, in any order and
  over any time.  Then the number of messages that are really in the heap, with the slots granted and not yet used,
  never exceeds the maximal size, although \<open>areNSlotsAvailable\<close> computes it from the sizes of the cycle start.\<close>

theorem slots_available_no_overflow:
  assumes "setConsumer c MessageBuffer_new = Some b0" "0 \<le> max_size" "queue_ok s0" "0 \<le> m_globalTime s0"
    and "buffer_run dq (setRandomization rnd (setSize max_size (setOrdering order b0)), s0) (b, s, k)"
  shows "int (size (mb_nodes b)) + k \<le> max_size \<and> m_size b = int (size (mb_nodes b))"
proof -
  let ?b = "setRandomization rnd (setSize max_size (setOrdering order b0))"
  have new: "?b = MessageBuffer_new\<lparr>mb_consumer_ptr := c, m_max_size := max_size, m_strict_fifo := order, m_ordering_set := True,
      m_randomization := rnd\<rparr>"
    using assms(1) by (auto simp: setConsumer_def MessageBuffer_new_def setRandomization_def setSize_def setOrdering_def)
  have "buffer_ok dq ?b" using buffer_ok_new [of dq] unfolding new by (simp add: buffer_ok_def mb_nodes_def)
  moreover have "slots_ok (m_globalTime s0) ?b" "m_max_size ?b = max_size" "m_size ?b \<le> max_size"
    using assms(2,4) unfolding new by (simp_all add: slots_ok_def MessageBuffer_new_def)
  ultimately have "buffer_ok dq b" "m_size b + k \<le> max_size"
    using buffer_run_slots [OF assms(5), of max_size] assms(2,3) by simp_all
  then show ?thesis by (simp add: buffer_ok_def)
qed

text \<open>The random delay is at least one cycle and at most 118: the long delay adds 100 to
  114 cycles, not up to 115 as the comment in the source says.\<close>

theorem random_time_bounds:
  "1 \<le> random_time r1 r2 r3 \<and> random_time r1 r2 r3 \<le> 118"
proof -
  define a where "a = r1 AND 3"
  have "a = take_bit 2 r1" by (simp add: a_def take_bit_eq_mask mask_eq_exp_minus_1)
  then have "0 \<le> a" "a \<le> 3" using take_bit_int_less_exp [of 2 r1] by auto
  moreover have "0 \<le> r3 mod 15" "r3 mod 15 \<le> 14" by auto
  ultimately show ?thesis by (simp add: random_time_def Let_def flip: a_def)
qed

section \<open>Sample buffers\<close>

definition sample_msg :: "nat message" where
  "sample_msg = \<lparr> payload = 7, m_LastEnqueueTime = 1, m_DelayedCycles = 0 \<rparr>"

definition sample_node :: "bool \<Rightarrow> nat buffer_node" where
  "sample_node d = \<lparr> node_time = 4, node_msg_counter = 1, node_msgptr = sample_msg,
     node_reply_wts = 5, node_delay_queue = d \<rparr>"

definition empty_sim :: "(nat, nat) sim" where
  "empty_sim = EventQueue_init 0"

text \<open>A buffer of consumer 0 with room for four messages that holds one message, which arrives
  at time 4.\<close>

definition sample_buffer :: "bool \<Rightarrow> (nat, nat) message_buffer" where
  "sample_buffer d = (setSize 4 (setRandomization False (setOrdering True MessageBuffer_new)))
     \<lparr> mb_consumer_ptr := Some 0,
       mb_prio_heap := \<lparr> m_heap = [sample_node d, sample_node d], m_current_size = 1 \<rparr>,
       m_size := 1, m_msg_counter := 1, m_last_arrival_time := 4 \<rparr>"

lemmas sample_buffer_defs = sample_buffer_def setSize_def setRandomization_def setOrdering_def
  MessageBuffer_new_def

lemma sample_buffer_nodes: "mb_nodes (sample_buffer d) = {#sample_node d#}"
  by (simp add: sample_buffer_defs mb_nodes_def heap_elems_def elems_of_def)

lemma sample_buffer_ok: "buffer_ok d (sample_buffer d)" "fifo_ok (sample_buffer d)"
  "m_strict_fifo (sample_buffer d)" "represents (sample_buffer d) [sample_node d]"
proof -
  have "nodes_ok {#sample_node d#}" by (rule nodes_ok_add) (simp_all add: nodes_ok_def)
  then show "buffer_ok d (sample_buffer d)"
    unfolding buffer_ok_def sample_buffer_nodes
    by (simp add: sample_buffer_defs sample_node_def heap_invar_def is_heap_def)
  show "fifo_ok (sample_buffer d)" "m_strict_fifo (sample_buffer d)"
    unfolding fifo_ok_def sample_buffer_nodes by (simp_all add: sample_buffer_defs sample_node_def)
  show "represents (sample_buffer d) [sample_node d]"
    by (simp add: represents_def sample_buffer_nodes in_order_def)
qed

lemma sample_enqueue_pre: "enqueue_pre False 0 sample_msg 5 (sample_buffer d) sample_sim"
  using sample_sim_ok(2)
  by (simp add: enqueue_pre_def arrival_def arrival_of_def sample_buffer_defs sample_msg_def)

lemma sample_queue_ok: "queue_ok sample_sim"
  using sample_sim_ok(1) by (simp add: sim_ok_def)

lemma fifo_enqueue_appends_witness:
  "\<exists>b' s'. enqueue False 0 (Some sample_msg) 5 (sample_buffer False) sample_sim = Some (b', s') \<and>
     buffer_ok False b' \<and> fifo_ok b' \<and> m_strict_fifo b' \<and> queue_ok s' \<and>
     represents b' ([sample_node False] @
       [new_node False 0 (m_globalTime sample_sim) sample_msg 5 0 False (sample_buffer False)])"
proof -
  have "m_msg_counter (sample_buffer False) < 2 ^ 31 - 1" by (simp add: sample_buffer_defs)
  from fifo_enqueue_appends [OF sample_buffer_ok(1-3) sample_queue_ok sample_enqueue_pre sample_buffer_ok(4) this]
  show ?thesis by blast
qed

lemma dequeue_takes_first_witness:
  "\<exists>b'. dequeue 4 (sample_buffer False) = Some (sample_msg, b') \<and> buffer_ok False b' \<and>
        represents b' []"
  using dequeue_takes_first [OF sample_buffer_ok(1) [of False] sample_buffer_ok(4), of 4]
  by (auto simp: sample_node_def)

lemma delay_queue_ordered_by_wts_witness:
  "\<exists>b' s'. enqueue_wts False 0 (Some sample_msg) 5 3 True (sample_buffer True) sample_sim = Some (b', s') \<and>
     buffer_ok True b' \<and> queue_ok s' \<and>
     represents b' [new_node False 0 (m_globalTime sample_sim) sample_msg 5 3 True (sample_buffer True),
        sample_node True]"
proof -
  have "m_msg_counter (sample_buffer True) < 2 ^ 31 - 1" by (simp add: sample_buffer_defs)
  from delay_queue_ordered_by_wts [OF sample_buffer_ok(1) sample_queue_ok sample_enqueue_pre sample_buffer_ok(4) this, of 3]
  show ?thesis by (auto simp: sample_node_def)
qed

lemma enqueue_schedules_consumer_witness:
  "\<exists>b' s'. enqueue_wts False 0 (Some sample_msg) 5 0 False (sample_buffer False) sample_sim = Some (b', s') \<and>
     \<lparr> m_time = arrival False 0 (m_globalTime sample_sim) 5 (sample_buffer False),
       m_consumer_ptr = the (mb_consumer_ptr (sample_buffer False)) \<rparr> \<in># pending s'"
  by (rule enqueue_schedules_consumer [OF sample_buffer_ok(1) sample_queue_ok sample_enqueue_pre])

lemma slots_available_no_overflow_witness:
  "\<exists>(b :: (nat, nat) message_buffer) s. buffer_run False (setRandomization False (setSize 4 (setOrdering True
       (MessageBuffer_new\<lparr>mb_consumer_ptr := Some 0\<rparr>))), sample_sim) (b, s, 2) \<and>
     mb_nodes b \<noteq> {#} \<and> int (size (mb_nodes b)) + 2 \<le> 4"
proof -
  let ?new = "MessageBuffer_new\<lparr>mb_consumer_ptr := Some 0\<rparr> :: (nat, nat) message_buffer"
  let ?b = "setRandomization False (setSize 4 (setOrdering True ?new))"
  have c: "setConsumer (Some 0) MessageBuffer_new = Some ?new" by (simp add: setConsumer_def MessageBuffer_new_def)
  have ok: "buffer_ok False ?b" using buffer_ok_new [of False]
    by (simp add: buffer_ok_def mb_nodes_def setRandomization_def setSize_def setOrdering_def)
  have pre: "enqueue_pre False 0 sample_msg 5 ?b sample_sim"
    using sample_sim_ok(2) by (simp add: enqueue_pre_def arrival_def arrival_of_def sample_msg_def setRandomization_def setSize_def
        setOrdering_def MessageBuffer_new_def)
  have now: "m_globalTime sample_sim = 1" using sample_sim_ok(2) by simp
  have "areNSlotsAvailable (m_globalTime sample_sim) 3 ?b = (True, ?b)"
    by (simp add: now areNSlotsAvailable_def setRandomization_def setSize_def setOrdering_def MessageBuffer_new_def)
  then have run: "buffer_run False (?b, sample_sim) (?b, sample_sim, 3)"
    using buffer_run.ask [of False "(?b, sample_sim)" ?b sample_sim 0 3 True ?b] buffer_run.start [of False "(?b, sample_sim)"] by simp
  obtain b' s' where b': "enqueue_wts False 0 (Some sample_msg) 5 0 False ?b sample_sim = Some (b', s')"
      "mb_nodes b' = add_mset (new_node False 0 (m_globalTime sample_sim) sample_msg 5 0 False ?b) (mb_nodes ?b)"
    using enqueue_node_ok [OF ok sample_queue_ok pre, of 0] by (auto simp: enqueue_wts_def)
  have "buffer_run False (?b, sample_sim) (b', s', 2)" using buffer_run.put [OF run _ b'(1)] by simp
  moreover from this have "int (size (mb_nodes b')) + 2 \<le> 4"
    using slots_available_no_overflow [OF c _ sample_queue_ok, of 4 False False True b' s' 2] now by simp
  ultimately show ?thesis using b'(2) by (intro exI [of _ b'] exI [of _ s']) simp
qed

text \<open>\<open>clearStats\<close> resets the message counter of a buffer that still holds messages, so
  that the next message can get the counter of one in the buffer.  When both arrive in the same
  cycle, the comparison of the heap aborts: the same \<open>enqueue\<close> goes through before
  \<open>clearStats\<close> and aborts after it.\<close>

theorem clearStats_breaks_enqueue:
  "enqueue False 0 (Some sample_msg) 3 (sample_buffer False) empty_sim \<noteq> None \<and>
   enqueue False 0 (Some sample_msg) 3 (clearStats (sample_buffer False)) empty_sim = None"
proof -
  have "enqueue False 0 (Some sample_msg) 3 (clearStats (sample_buffer False))
          empty_sim = None"
    by (simp add: enqueue_def enqueue_node_def Let_def arrival_of_def clearStats_def
        sample_buffer_defs empty_sim_def EventQueue_init_def sample_msg_def heap_insert_def vec_setSize_def
        insert_loop.simps node_less_then_eq_def sample_node_def)
  moreover have "enqueue_pre False 0 sample_msg 3 (sample_buffer False)
          empty_sim"
    by (simp add: enqueue_pre_def arrival_def arrival_of_def sample_buffer_defs sample_msg_def
        empty_sim_def EventQueue_init_def)
  moreover have "queue_ok empty_sim"
    using sim_ok_init [of "0::nat"] unfolding sim_ok_def empty_sim_def by blast
  ultimately show ?thesis
    using enqueue_at_end [OF sample_buffer_ok(1-3) _ _ sample_buffer_ok(4), of empty_sim False 0 sample_msg 3]
    by auto
qed

end
