(* ===== verification/Node_Set.thy ===== *)
theory Node_Set
  imports Prelude
begin

text \<open>
  The sets of node identifiers.  \<open>ruby_clean/common/Set.h\<close> chooses one of three
  implementations at compile time: the 32-bit word of \<open>Set.C\<close>, the vector of flags of
  \<open>BigSet.C\<close> and the array of words of \<open>OptBigSet\<close> (the one that is built, in theory
  \<open>Opt_Set\<close>).  The locale \<open>node_set\<close> is the contract all three promise: they refine sets of
  numbers below the size of the set.  Node identifiers are modelled as \<open>nat\<close>.
\<close>

section \<open>The contract\<close>

locale node_set =
  fixes size_of :: "'s \<Rightarrow> nat"
    and invar :: "'s \<Rightarrow> bool"
    and elems :: "'s \<Rightarrow> nat set"
    and add :: "nat \<Rightarrow> 's \<Rightarrow> 's option"
    and remove :: "nat \<Rightarrow> 's \<Rightarrow> 's option"
    and addSet :: "'s \<Rightarrow> 's \<Rightarrow> 's option"
    and removeSet :: "'s \<Rightarrow> 's \<Rightarrow> 's option"
    and clear :: "'s \<Rightarrow> 's"
    and broadcast :: "'s \<Rightarrow> 's"
    and count_of :: "'s \<Rightarrow> nat"
    and or_set :: "'s \<Rightarrow> 's \<Rightarrow> 's option"
    and and_set :: "'s \<Rightarrow> 's \<Rightarrow> 's option"
    and intersectionIsNotEmpty :: "'s \<Rightarrow> 's \<Rightarrow> bool option"
    and isSuperset :: "'s \<Rightarrow> 's \<Rightarrow> bool option"
    and isElement :: "nat \<Rightarrow> 's \<Rightarrow> bool option"
    and isBroadcast :: "'s \<Rightarrow> bool option"
    and isEmpty :: "'s \<Rightarrow> bool option"
    and smallestElement :: "'s \<Rightarrow> nat option"
  assumes elems_bounded: "invar s \<Longrightarrow> elems s \<subseteq> {..<size_of s}"
    and add_law: "\<lbrakk> invar s; i < size_of s \<rbrakk> \<Longrightarrow>
          \<exists>s'. add i s = Some s' \<and> invar s' \<and> size_of s' = size_of s \<and> elems s' = insert i (elems s)"
    and remove_law: "\<lbrakk> invar s; i < size_of s \<rbrakk> \<Longrightarrow>
          \<exists>s'. remove i s = Some s' \<and> invar s' \<and> size_of s' = size_of s \<and> elems s' = elems s - {i}"
    and addSet_law: "\<lbrakk> invar s; invar t; size_of s = size_of t \<rbrakk> \<Longrightarrow>
          \<exists>s'. addSet t s = Some s' \<and> invar s' \<and> size_of s' = size_of s \<and> elems s' = elems s \<union> elems t"
    and removeSet_law: "\<lbrakk> invar s; invar t; size_of s = size_of t \<rbrakk> \<Longrightarrow>
          \<exists>s'. removeSet t s = Some s' \<and> invar s' \<and> size_of s' = size_of s \<and> elems s' = elems s - elems t"
    and clear_law: "invar s \<Longrightarrow> invar (clear s) \<and> size_of (clear s) = size_of s \<and> elems (clear s) = {}"
    and broadcast_law: "invar s \<Longrightarrow>
          invar (broadcast s) \<and> size_of (broadcast s) = size_of s \<and> elems (broadcast s) = {..<size_of s}"
    and count_law: "invar s \<Longrightarrow> count_of s = card (elems s)"
    and or_law: "\<lbrakk> invar s; invar t; size_of s = size_of t \<rbrakk> \<Longrightarrow>
          \<exists>u. or_set s t = Some u \<and> invar u \<and> size_of u = size_of s \<and> elems u = elems s \<union> elems t"
    and and_law: "\<lbrakk> invar s; invar t; size_of s = size_of t \<rbrakk> \<Longrightarrow>
          \<exists>u. and_set s t = Some u \<and> invar u \<and> size_of u = size_of s \<and> elems u = elems s \<inter> elems t"
    and intersection_law: "\<lbrakk> invar s; invar t; size_of s = size_of t \<rbrakk> \<Longrightarrow>
          intersectionIsNotEmpty s t = Some (elems s \<inter> elems t \<noteq> {})"
    and superset_law: "\<lbrakk> invar s; invar t; size_of s = size_of t \<rbrakk> \<Longrightarrow>
          isSuperset s t = Some (elems t \<subseteq> elems s)"
    and isElement_law: "\<lbrakk> invar s; i < size_of s \<rbrakk> \<Longrightarrow> isElement i s = Some (i \<in> elems s)"
    and isBroadcast_law: "invar s \<Longrightarrow> isBroadcast s = Some (elems s = {..<size_of s})"
    and isEmpty_law: "invar s \<Longrightarrow> isEmpty s = Some (elems s = {})"
    and smallestElement_law: "invar s \<Longrightarrow>
          smallestElement s = (if elems s = {} then None else Some (Min (elems s)))"
begin

lemma finite_elems: "invar s \<Longrightarrow> finite (elems s)"
  using elems_bounded finite_subset by blast

text \<open>Adding a list of nodes one after the other.\<close>

lemma add_all_law:
  assumes "invar s" "\<forall>i\<in>set is. i < size_of s"
  shows "\<exists>s'. run_all add is s = Some s' \<and> invar s' \<and> size_of s' = size_of s \<and>
              elems s' = set is \<union> elems s"
  using assms
proof (induction "is" arbitrary: s)
  case (Cons i "is")
  then obtain s1 where s1: "add i s = Some s1" "invar s1" "size_of s1 = size_of s"
    "elems s1 = insert i (elems s)" using add_law [of s i] by auto
  then obtain s2 where "run_all add is s1 = Some s2" "invar s2" "size_of s2 = size_of s1"
    "elems s2 = set is \<union> elems s1"
    using Cons.IH [OF s1(2)] Cons.prems(2) s1(3) by auto
  then show ?case using s1 by auto
qed simp

text \<open>Removing what was added gives the set back: the sharers an invalidation clears.\<close>

lemma remove_after_add:
  assumes "invar s" "i < size_of s" "i \<notin> elems s"
  shows "\<exists>s1 s2. add i s = Some s1 \<and> remove i s1 = Some s2 \<and> elems s2 = elems s"
proof -
  obtain s1 where s1: "add i s = Some s1" "invar s1" "size_of s1 = size_of s"
    "elems s1 = insert i (elems s)" using add_law [OF assms(1,2)] by blast
  then obtain s2 where "remove i s1 = Some s2" "elems s2 = elems s1 - {i}"
    using remove_law [OF s1(2), of i] assms(2) by auto
  then show ?thesis using s1 assms(3) by auto
qed

text \<open>A multicast set that covers every node is the broadcast set.\<close>

lemma isBroadcast_iff_count:
  assumes "invar s"
  shows "isBroadcast s = Some (count_of s = size_of s)"
proof -
  have "card (elems s) = size_of s \<longleftrightarrow> elems s = {..<size_of s}"
    using elems_bounded [OF assms] by (metis card_lessThan card_subset_eq finite_lessThan)
  then show ?thesis using isBroadcast_law count_law assms by simp
qed

end

section \<open>The first element of a loop\<close>

text \<open>\<open>for (i = 0; i < n; i++) if (P(i)) return i;\<close>\<close>

definition first_index :: "(nat \<Rightarrow> bool) \<Rightarrow> nat \<Rightarrow> nat option" where
  "first_index P n = List.find P [0..<n]"

lemma first_index_Min:
  assumes "finite A" "A = {i. i < n \<and> P i}"
  shows "first_index P n = (if A = {} then None else Some (Min A))"
proof (cases "A = {}")
  case True
  then show ?thesis using assms by (auto simp: first_index_def find_None_iff)
next
  case False
  have m: "Min A < n" "P (Min A)" using Min_in [OF assms(1) False] assms(2) by auto
  have "\<not> P j" if "j < Min A" for j
  proof
    assume "P j"
    then have "j \<in> A" using that m(1) assms(2) by auto
    then show False using Min_le [OF assms(1)] that by force
  qed
  then have "\<exists>i<length [0..<n]. P ([0..<n] ! i) \<and> Min A = [0..<n] ! i \<and> (\<forall>j<i. \<not> P ([0..<n] ! j))"
    using m by (intro exI [of _ "Min A"]) auto
  then show ?thesis using False by (simp add: first_index_def find_Some_iff)
qed

lemma count_filter_upt: "length (filter P [0..<n]) = card {i. i < n \<and> P i}"
proof -
  have "card (set (filter P [0..<n])) = length (filter P [0..<n])"
    by (rule distinct_card) simp
  moreover have "set (filter P [0..<n]) = {i. i < n \<and> P i}" by auto
  ultimately show ?thesis by simp
qed

section \<open>Set.C: one 32-bit word\<close>

record small_set =
  m_bits :: "32 word"
  m_mask :: "32 word"
  m_size :: nat

text \<open>\<open>assert((m_bits & m_mask) == m_bits)\<close>, which most methods end with.\<close>

definition in_range :: "small_set \<Rightarrow> small_set option" where
  "in_range s = do { assert_that ((m_bits s AND m_mask s) = m_bits s); Some s }"

definition small_setSize :: "nat \<Rightarrow> small_set option" where
  "small_setSize sz = do {
     assert_that (sz < 32);
     let s = \<lparr> m_bits = 0, m_mask = NOT (push_bit sz (NOT 0)), m_size = sz \<rparr>;
     assert_that (m_mask s \<noteq> 0);
     in_range s }"

definition small_isEqual :: "small_set \<Rightarrow> small_set \<Rightarrow> bool" where
  "small_isEqual s t \<longleftrightarrow> m_bits s = m_bits t"

definition small_add :: "nat \<Rightarrow> small_set \<Rightarrow> small_set option" where
  "small_add index s = do {
     s \<leftarrow> in_range s;
     assert_that (index < m_size s);
     in_range (s\<lparr> m_bits := m_bits s OR push_bit index 1 \<rparr>) }"

definition small_addSet :: "small_set \<Rightarrow> small_set \<Rightarrow> small_set option" where
  "small_addSet t s = do {
     assert_that (m_size s = m_size t);
     in_range (s\<lparr> m_bits := m_bits s OR m_bits t \<rparr>) }"

definition small_addRandom :: "32 word \<Rightarrow> small_set \<Rightarrow> small_set option" where
  "small_addRandom rnd s = in_range (s\<lparr> m_bits := (m_bits s OR rnd) AND m_mask s \<rparr>)"

definition small_remove :: "nat \<Rightarrow> small_set \<Rightarrow> small_set option" where
  "small_remove index s = do {
     assert_that (index < m_size s);
     in_range (s\<lparr> m_bits := m_bits s AND NOT (push_bit index 1) \<rparr>) }"

definition small_removeSet :: "small_set \<Rightarrow> small_set \<Rightarrow> small_set option" where
  "small_removeSet t s = do {
     assert_that (m_size s = m_size t);
     in_range (s\<lparr> m_bits := m_bits s AND NOT (m_bits t) \<rparr>) }"

definition small_clear :: "small_set \<Rightarrow> small_set" where
  "small_clear s = s\<lparr> m_bits := 0 \<rparr>"

definition small_broadcast :: "small_set \<Rightarrow> small_set" where
  "small_broadcast s = s\<lparr> m_bits := m_mask s \<rparr>"

definition small_test :: "small_set \<Rightarrow> nat \<Rightarrow> bool" where
  "small_test s i \<longleftrightarrow> (m_bits s AND push_bit i 1) \<noteq> 0"

definition small_count :: "small_set \<Rightarrow> nat" where
  "small_count s = length (filter (small_test s) [0..<m_size s])"

fun small_elementAt_loop :: "small_set \<Rightarrow> nat list \<Rightarrow> int \<Rightarrow> nat option" where
  "small_elementAt_loop s [] index = None"
| "small_elementAt_loop s (i # is) index =
     (if small_test s i then (if index = 0 then Some i else small_elementAt_loop s is (index - 1))
      else small_elementAt_loop s is index)"

definition small_elementAt :: "int \<Rightarrow> small_set \<Rightarrow> nat option" where
  "small_elementAt index s = small_elementAt_loop s [0..<m_size s] index"

text \<open>\<open>isElement\<close> has no check; a shift by 32 or more is undefined.\<close>

definition small_isElement :: "nat \<Rightarrow> small_set \<Rightarrow> bool option" where
  "small_isElement element s = do { assert_that (element < 32); Some (small_test s element) }"

definition small_smallestElement :: "small_set \<Rightarrow> nat option" where
  "small_smallestElement s = do {
     assert_that (small_count s > 0);
     first_index (small_test s) (m_size s) }"

definition small_isBroadcast :: "small_set \<Rightarrow> bool option" where
  "small_isBroadcast s = do { s \<leftarrow> in_range s; Some (m_mask s = m_bits s) }"

definition small_isEmpty :: "small_set \<Rightarrow> bool option" where
  "small_isEmpty s = do { s \<leftarrow> in_range s; Some (m_bits s = 0) }"

definition small_OR :: "small_set \<Rightarrow> small_set \<Rightarrow> small_set option" where
  "small_OR s orSet = do {
     assert_that (m_size s = m_size orSet);
     result \<leftarrow> small_setSize (m_size s);
     in_range (result\<lparr> m_bits := m_bits s OR m_bits orSet \<rparr>) }"

definition small_AND :: "small_set \<Rightarrow> small_set \<Rightarrow> small_set option" where
  "small_AND s andSet = do {
     assert_that (m_size s = m_size andSet);
     result \<leftarrow> small_setSize (m_size s);
     in_range (result\<lparr> m_bits := m_bits s AND m_bits andSet \<rparr>) }"

definition small_intersectionIsNotEmpty :: "small_set \<Rightarrow> small_set \<Rightarrow> bool option" where
  "small_intersectionIsNotEmpty s t = do {
     assert_that (m_size s = m_size t);
     Some ((m_bits s AND m_bits t) \<noteq> 0) }"

definition small_intersectionIsEmpty :: "small_set \<Rightarrow> small_set \<Rightarrow> bool option" where
  "small_intersectionIsEmpty s t = do {
     assert_that (m_size s = m_size t);
     Some ((m_bits s AND m_bits t) = 0) }"

definition small_isSuperset :: "small_set \<Rightarrow> small_set \<Rightarrow> bool option" where
  "small_isSuperset s test = do {
     assert_that (m_size s = m_size test);
     Some ((m_bits test AND NOT (m_bits s)) = 0) }"

definition small_elems :: "small_set \<Rightarrow> nat set" where
  "small_elems s = {i. bit (m_bits s) i}"

definition small_invar :: "small_set \<Rightarrow> bool" where
  "small_invar s \<longleftrightarrow> 0 < m_size s \<and> m_size s < 32 \<and> m_mask s = mask (m_size s) \<and>
     small_elems s \<subseteq> {..<m_size s}"

lemma small_test_bit: "small_test s i \<longleftrightarrow> bit (m_bits s) i"
  by (simp only: small_test_def word_test_bit)

lemma in_range_eq:
  assumes "m_mask s = mask (m_size s)" "small_elems s \<subseteq> {..<m_size s}"
  shows "in_range s = Some s"
proof -
  have "m_bits s AND mask (m_size s) = m_bits s"
    using assms(2) by (intro bit_eqI) (auto simp: bit_simps small_elems_def)
  then show ?thesis using assms(1) by (simp add: in_range_def)
qed

lemma small_setSize_eq:
  assumes "0 < n" "n < 32"
  shows "small_setSize n = Some \<lparr> m_bits = 0, m_mask = mask n, m_size = n \<rparr>"
proof -
  have m: "NOT (push_bit n (NOT 0)) = (mask n :: 32 word)" by (rule bit_eqI) (auto simp: bit_simps)
  have "bit (mask n :: 32 word) 0" using assms by (simp add: bit_simps)
  then have "mask n \<noteq> (0 :: 32 word)" using assms by auto
  then show ?thesis using assms m by (simp add: small_setSize_def in_range_eq small_elems_def Let_def)
qed

lemma word32_eq_0_iff: "w = 0 \<longleftrightarrow> {i. bit w i} = {}" for w :: "32 word"
  using bit_word_eqI [of w 0] by auto

lemma word32_bit_less: "bit w i \<Longrightarrow> i < 32" for w :: "32 word"
  by (auto dest: bit_imp_le_length)

lemma small_elems_finite [simp]: "finite (small_elems s)"
  by (rule finite_subset [of _ "{..<32}"]) (auto simp: small_elems_def dest: bit_imp_le_length)

interpretation small: node_set m_size small_invar small_elems small_add small_remove small_addSet
  small_removeSet small_clear small_broadcast small_count small_OR small_AND
  small_intersectionIsNotEmpty small_isSuperset small_isElement small_isBroadcast small_isEmpty
  small_smallestElement
proof (standard, goal_cases)
  case (2 s i)
  let ?s = "s\<lparr> m_bits := m_bits s OR push_bit i 1 \<rparr>"
  have "small_elems ?s = insert i (small_elems s)"
    using 2 by (auto simp: small_elems_def bit_simps small_invar_def)
  then show ?case using 2 by (auto simp: small_add_def small_invar_def in_range_eq)
next
  case (3 s i)
  let ?s = "s\<lparr> m_bits := m_bits s AND NOT (push_bit i 1) \<rparr>"
  have "small_elems ?s = small_elems s - {i}"
    using 3 by (auto simp: small_elems_def bit_simps small_invar_def dest: bit_imp_le_length)
  moreover from this have "in_range ?s = Some ?s"
    using 3 by (intro in_range_eq) (auto simp: small_invar_def)
  ultimately show ?case using 3 by (auto simp: small_remove_def small_invar_def)
next
  case (4 s t)
  have "small_elems (s\<lparr> m_bits := m_bits s OR m_bits t \<rparr>) = small_elems s \<union> small_elems t"
    by (auto simp: small_elems_def bit_simps)
  then show ?case using 4 by (auto simp: small_addSet_def small_invar_def in_range_eq)
next
  case (5 s t)
  let ?s = "s\<lparr> m_bits := m_bits s AND NOT (m_bits t) \<rparr>"
  have "small_elems ?s = small_elems s - small_elems t"
    by (auto simp: small_elems_def bit_simps dest: bit_imp_le_length)
  moreover from this have "in_range ?s = Some ?s"
    using 5 by (intro in_range_eq) (auto simp: small_invar_def)
  ultimately show ?case using 5 by (auto simp: small_removeSet_def small_invar_def)
next
  case (7 s)
  then show ?case by (auto simp: small_broadcast_def small_invar_def small_elems_def bit_simps)
next
  case (8 s)
  then have "{i. i < m_size s \<and> small_test s i} = small_elems s"
    by (auto simp: small_test_bit small_elems_def small_invar_def)
  then show ?case by (simp add: small_count_def count_filter_upt)
next
  case (9 s t)
  have "small_elems \<lparr> m_bits = m_bits s OR m_bits t, m_mask = m_mask s, m_size = m_size s \<rparr>
      = small_elems s \<union> small_elems t" by (auto simp: small_elems_def bit_simps)
  then show ?case using 9 by (auto simp: small_OR_def small_setSize_eq small_invar_def in_range_eq)
next
  case (10 s t)
  have "small_elems \<lparr> m_bits = m_bits s AND m_bits t, m_mask = m_mask s, m_size = m_size s \<rparr>
      = small_elems s \<inter> small_elems t" by (auto simp: small_elems_def bit_simps)
  then show ?case using 10 by (auto simp: small_AND_def small_setSize_eq small_invar_def in_range_eq le_infI1)
next
  case (11 s t)
  then show ?case
    by (auto simp: small_intersectionIsNotEmpty_def word32_eq_0_iff small_elems_def bit_simps)
next
  case (12 s t)
  then show ?case
    by (auto simp: small_isSuperset_def word32_eq_0_iff small_elems_def bit_simps)
      (blast dest: word32_bit_less)
next
  case (13 s i)
  then show ?case by (auto simp: small_isElement_def small_test_bit small_elems_def small_invar_def)
next
  case (14 s)
  have "m_mask s = m_bits s \<longleftrightarrow> small_elems s = {..<m_size s}"
  proof
    assume "small_elems s = {..<m_size s}"
    then have "bit (m_bits s) i \<longleftrightarrow> i < m_size s" for i by (auto simp: small_elems_def)
    then show "m_mask s = m_bits s"
      using 14 by (intro bit_eqI) (auto simp: small_invar_def bit_simps)
  next
    assume e: "m_mask s = m_bits s"
    show "small_elems s = {..<m_size s}"
      unfolding small_elems_def e [symmetric] using 14 by (auto simp: small_invar_def bit_simps)
  qed
  then show ?case using 14 by (simp add: small_isBroadcast_def in_range_eq small_invar_def)
next
  case (15 s)
  then show ?case
    by (simp add: small_isEmpty_def in_range_eq small_invar_def word32_eq_0_iff small_elems_def)
next
  case (16 s)
  then have e: "small_elems s = {i. i < m_size s \<and> small_test s i}"
    by (auto simp: small_test_bit small_elems_def small_invar_def)
  then have "small_count s = card (small_elems s)" by (simp add: small_count_def count_filter_upt)
  then show ?case
    using first_index_Min [OF small_elems_finite e] by (auto simp: small_smallestElement_def)
qed (auto simp: small_invar_def small_clear_def small_elems_def)

section \<open>BigSet.C: a vector of flags\<close>

type_synonym flag_set = "bool list"

definition big_add :: "nat \<Rightarrow> flag_set \<Rightarrow> flag_set option" where
  "big_add index s = do { assert_that (index < length s); Some (s[index := True]) }"

definition big_remove :: "nat \<Rightarrow> flag_set \<Rightarrow> flag_set option" where
  "big_remove index s = do { assert_that (index < length s); Some (s[index := False]) }"

definition big_isElement :: "nat \<Rightarrow> flag_set \<Rightarrow> bool option" where
  "big_isElement element s = do { assert_that (element < length s); Some (s ! element) }"

text \<open>The loops of \<open>addSet\<close> and \<open>removeSet\<close> visit the indices in order.\<close>

definition big_addSet :: "flag_set \<Rightarrow> flag_set \<Rightarrow> flag_set option" where
  "big_addSet t s = do {
     assert_that (length s = length t);
     run_all (\<lambda>i s. do { b \<leftarrow> big_isElement i t; (if b then big_add i s else Some s) })
       [0..<length s] s }"

definition big_removeSet :: "flag_set \<Rightarrow> flag_set \<Rightarrow> flag_set option" where
  "big_removeSet t s = do {
     assert_that (length s = length t);
     run_all (\<lambda>i s. do { b \<leftarrow> big_isElement i t; (if b then big_remove i s else Some s) })
       [0..<length s] s }"

text \<open>The test of \<open>addRandom\<close> is \<open>rand & 0x1 == 0\<close>, which C reads as
  \<open>rand & (0x1 == 0)\<close>.\<close>

fun big_addRandom_loop :: "nat list \<Rightarrow> int \<Rightarrow> flag_set \<Rightarrow> flag_set option" where
  "big_addRandom_loop [] rand s = Some s"
| "big_addRandom_loop (i # is) rand s = do {
     s \<leftarrow> (if (rand AND (if (1::int) = 0 then 1 else 0)) \<noteq> 0 then big_add i s else Some s);
     big_addRandom_loop is (drop_bit 1 rand) s }"

definition big_addRandom :: "int \<Rightarrow> flag_set \<Rightarrow> flag_set option" where
  "big_addRandom rand s = big_addRandom_loop [0..<length s] rand s"

definition big_clear :: "flag_set \<Rightarrow> flag_set" where
  "big_clear s = replicate (length s) False"

definition big_broadcast :: "flag_set \<Rightarrow> flag_set" where
  "big_broadcast s = replicate (length s) True"

definition big_setSize :: "nat \<Rightarrow> flag_set" where
  "big_setSize n = big_clear (replicate n False)"

definition big_count :: "flag_set \<Rightarrow> nat" where
  "big_count s = length (filter (\<lambda>i. s ! i) [0..<length s])"

definition big_isEqual :: "flag_set \<Rightarrow> flag_set \<Rightarrow> bool option" where
  "big_isEqual s t = do {
     assert_that (length s = length t);
     Some (list_all (\<lambda>i. s ! i = t ! i) [0..<length s]) }"

definition big_smallestElement :: "flag_set \<Rightarrow> nat option" where
  "big_smallestElement s = do {
     assert_that (big_count s > 0);
     first_index (\<lambda>i. s ! i) (length s) }"

definition big_isBroadcast :: "flag_set \<Rightarrow> bool option" where
  "big_isBroadcast s = Some (list_all (\<lambda>i. s ! i \<noteq> False) [0..<length s])"

definition big_isEmpty :: "flag_set \<Rightarrow> bool option" where
  "big_isEmpty s = Some (list_all (\<lambda>i. s ! i \<noteq> True) [0..<length s])"

definition big_OR :: "flag_set \<Rightarrow> flag_set \<Rightarrow> flag_set option" where
  "big_OR s orSet = do {
     assert_that (length s = length orSet);
     run_all (\<lambda>i r. if s ! i \<or> orSet ! i then big_add i r else big_remove i r)
       [0..<length s] (big_setSize (length s)) }"

definition big_AND :: "flag_set \<Rightarrow> flag_set \<Rightarrow> flag_set option" where
  "big_AND s andSet = do {
     assert_that (length s = length andSet);
     run_all (\<lambda>i r. if s ! i \<and> andSet ! i then big_add i r else big_remove i r)
       [0..<length s] (big_setSize (length s)) }"

definition big_intersectionIsNotEmpty :: "flag_set \<Rightarrow> flag_set \<Rightarrow> bool option" where
  "big_intersectionIsNotEmpty s t = do {
     assert_that (length s = length t);
     Some (list_ex (\<lambda>i. t ! i \<and> s ! i) [0..<length s]) }"

definition big_intersectionIsEmpty :: "flag_set \<Rightarrow> flag_set \<Rightarrow> bool option" where
  "big_intersectionIsEmpty s t = do {
     assert_that (length s = length t);
     Some (\<not> list_ex (\<lambda>i. t ! i \<and> s ! i) [0..<length s]) }"

definition big_isSuperset :: "flag_set \<Rightarrow> flag_set \<Rightarrow> bool option" where
  "big_isSuperset s test = do {
     assert_that (length s = length test);
     Some (\<not> list_ex (\<lambda>i. test ! i \<and> \<not> s ! i) [0..<length s]) }"

text \<open>\<open>elementAt\<close> returns the flag, not an element.\<close>

definition big_elementAt :: "nat \<Rightarrow> flag_set \<Rightarrow> int option" where
  "big_elementAt index s = do {
     assert_that (index < length s);
     Some (if s ! index then 1 else 0) }"

definition big_elems :: "flag_set \<Rightarrow> nat set" where
  "big_elems s = {i. i < length s \<and> s ! i}"

text \<open>A loop over all indices that rewrites each flag from its old value.\<close>

lemma run_all_flags:
  assumes "\<And>i r. \<lbrakk> i < length r; length r = n \<rbrakk> \<Longrightarrow> step i r = Some (r[i := f i (r ! i)])"
    and "length s = n" "k \<le> n"
  shows "run_all step [0..<k] s = Some (map (\<lambda>i. if i < k then f i (s ! i) else s ! i) [0..<n])"
  using assms(3)
proof (induction k)
  case 0
  then show ?case using map_nth [of s] assms(2) by simp
next
  case (Suc k)
  let ?r = "map (\<lambda>i. if i < k then f i (s ! i) else s ! i) [0..<n]"
  have "run_all step [0..<Suc k] s = run_all step [k] ?r"
    using Suc by (simp add: run_all_append del: run_all.simps)
  also have "\<dots> = Some (?r[k := f k (?r ! k)])"
    using assms(1) [of k ?r] Suc by simp
  also have "?r[k := f k (?r ! k)] = map (\<lambda>i. if i < Suc k then f i (s ! i) else s ! i) [0..<n]"
    using Suc by (intro nth_equalityI) (auto simp: nth_list_update less_Suc_eq)
  finally show ?case .
qed

lemma run_all_flags_full:
  assumes "\<And>i r. \<lbrakk> i < length r; length r = length s \<rbrakk> \<Longrightarrow> step i r = Some (r[i := f i (r ! i)])"
  shows "run_all step [0..<length s] s = Some (map (\<lambda>i. f i (s ! i)) [0..<length s])"
  using run_all_flags [of "length s" step f s "length s"] assms
  by (simp cong: map_cong)

lemma big_addSet_eq:
  assumes "length s = length t"
  shows "big_addSet t s = Some (map (\<lambda>i. t ! i \<or> s ! i) [0..<length s])"
proof -
  let ?step = "\<lambda>i s. do { b \<leftarrow> big_isElement i t; (if b then big_add i s else Some s) }"
  have "run_all ?step [0..<length s] s = Some (map (\<lambda>i. t ! i \<or> s ! i) [0..<length s])"
    using assms by (intro run_all_flags_full) (auto simp: big_isElement_def big_add_def)
  then show ?thesis using assms by (simp add: big_addSet_def)
qed

lemma big_removeSet_eq:
  assumes "length s = length t"
  shows "big_removeSet t s = Some (map (\<lambda>i. \<not> t ! i \<and> s ! i) [0..<length s])"
proof -
  let ?step = "\<lambda>i s. do { b \<leftarrow> big_isElement i t; (if b then big_remove i s else Some s) }"
  have "run_all ?step [0..<length s] s = Some (map (\<lambda>i. \<not> t ! i \<and> s ! i) [0..<length s])"
    using assms by (intro run_all_flags_full) (auto simp: big_isElement_def big_remove_def)
  then show ?thesis using assms by (simp add: big_removeSet_def)
qed

lemma run_all_set_flags:
  "run_all (\<lambda>i r. if P i then big_add i r else big_remove i r) [0..<n] (big_setSize n)
   = Some (map P [0..<n])"
proof -
  have "length (big_setSize n) = n" by (simp add: big_setSize_def big_clear_def)
  then show ?thesis
    using run_all_flags_full [of "big_setSize n"
        "\<lambda>i r. if P i then big_add i r else big_remove i r" "\<lambda>i _. P i"]
    by (simp add: big_add_def big_remove_def)
qed

lemma big_OR_eq:
  "length s = length t \<Longrightarrow> big_OR s t = Some (map (\<lambda>i. s ! i \<or> t ! i) [0..<length s])"
  by (simp add: big_OR_def run_all_set_flags)

lemma big_AND_eq:
  "length s = length t \<Longrightarrow> big_AND s t = Some (map (\<lambda>i. s ! i \<and> t ! i) [0..<length s])"
  by (simp add: big_AND_def run_all_set_flags)

lemma big_elems_map [simp]: "big_elems (map P [0..<n]) = {i. i < n \<and> P i}"
  by (auto simp: big_elems_def)

interpretation big: node_set length "\<lambda>_. True" big_elems big_add big_remove big_addSet
  big_removeSet big_clear big_broadcast big_count big_OR big_AND
  big_intersectionIsNotEmpty big_isSuperset big_isElement big_isBroadcast big_isEmpty
  big_smallestElement
proof (standard, goal_cases)
  case (2 s i)
  then show ?case by (auto simp: big_add_def big_elems_def nth_list_update)
next
  case (3 s i)
  then show ?case by (auto simp: big_remove_def big_elems_def nth_list_update split: if_splits)
next
  case (4 s t)
  then show ?case by (auto simp: big_addSet_eq) (auto simp: big_elems_def)
next
  case (5 s t)
  then show ?case by (auto simp: big_removeSet_eq) (auto simp: big_elems_def)
next
  case (8 s)
  show ?case by (simp add: big_count_def big_elems_def count_filter_upt)
next
  case (9 s t)
  then show ?case by (auto simp: big_OR_eq) (auto simp: big_elems_def)
next
  case (10 s t)
  then show ?case by (auto simp: big_AND_eq) (auto simp: big_elems_def)
next
  case (11 s t)
  then show ?case by (auto simp: big_intersectionIsNotEmpty_def list_ex_iff big_elems_def)
next
  case (12 s t)
  then show ?case by (auto simp: big_isSuperset_def list_ex_iff big_elems_def)
next
  case (14 s)
  have "(\<forall>i\<in>{0..<length s}. s ! i) \<longleftrightarrow> big_elems s = {..<length s}"
    unfolding big_elems_def by (metis (mono_tags, lifting) Collect_mem_eq atLeast0LessThan
        lessThan_iff mem_Collect_eq Collect_cong)
  then show ?case by (simp add: big_isBroadcast_def list_all_iff)
next
  case (16 s)
  have f: "finite (big_elems s)" by (simp add: big_elems_def)
  have "big_count s = card (big_elems s)" by (simp add: big_count_def big_elems_def count_filter_upt)
  then have "big_count s > 0 \<longleftrightarrow> big_elems s \<noteq> {}" using f by (simp add: card_gt_0_iff)
  moreover have "first_index (\<lambda>i. s ! i) (length s)
      = (if big_elems s = {} then None else Some (Min (big_elems s)))"
    by (rule first_index_Min [OF f]) (simp add: big_elems_def)
  ultimately show ?case by (simp add: big_smallestElement_def)
qed (auto simp: big_elems_def big_clear_def big_broadcast_def big_isElement_def big_isEmpty_def
      list_all_iff)

lemma big_addRandom_loop_id: "big_addRandom_loop is rand s = Some s"
  by (induction "is" arbitrary: rand) simp_all

text \<open>\<open>addRandom\<close> of \<open>BigSet.C\<close> never adds an element: \<open>==\<close> binds tighter than
  \<open>&\<close>, so that the test is always false.  The word implementations do add elements.\<close>

theorem big_addRandom_adds_nothing: "big_addRandom rand s = Some s"
  by (simp add: big_addRandom_def big_addRandom_loop_id)

end
