(* ===== verification/Opt_Set.thy ===== *)
theory Opt_Set
  imports Node_Set
begin

text \<open>
  \<open>ruby_clean/common/OptBigSet.C\<close> and \<open>OptBigSet.h\<close>: the node set that \<open>Set.h\<close>
  selects, an array of machine words, on a 64-bit host (\<open>__64BITS__\<close>).  \<open>m_nArrayLen\<close> is
  the length of the array; the choice between the static and the allocated array does not
  change what is computed and is not modelled.  An access outside the array is modelled as an
  abort.  The result is the third interpretation of \<open>node_set\<close>.
\<close>

record opt_set =
  m_nSize :: nat
  m_p_nArray :: "64 word list"

definition opt_setSize :: "nat \<Rightarrow> opt_set" where
  "opt_setSize n = \<lparr> m_nSize = n,
     m_p_nArray = replicate (n div 64 + (if n mod 64 = 0 then 0 else 1)) 0 \<rparr>"

text \<open>The copy constructor and the assignment: resize, then copy word by word.\<close>

definition opt_copy :: "opt_set \<Rightarrow> opt_set" where
  "opt_copy obj = (let s = opt_setSize (m_nSize obj) in
     s\<lparr> m_p_nArray := map (\<lambda>i. m_p_nArray obj ! i) [0..<length (m_p_nArray s)] \<rparr>)"

definition opt_add :: "nat \<Rightarrow> opt_set \<Rightarrow> opt_set option" where
  "opt_add index s = (let k = drop_bit 6 index; a = m_p_nArray s in do {
     assert_that (k < length a);
     Some (s\<lparr> m_p_nArray := a[k := a ! k OR push_bit (index AND 63) 1] \<rparr>) })"

definition opt_remove :: "nat \<Rightarrow> opt_set \<Rightarrow> opt_set option" where
  "opt_remove index s = (let k = drop_bit 6 index; a = m_p_nArray s in do {
     assert_that (k < length a);
     Some (s\<lparr> m_p_nArray := a[k := a ! k AND NOT (push_bit (index AND 63) 1)] \<rparr>) })"

definition opt_isElement :: "nat \<Rightarrow> opt_set \<Rightarrow> bool option" where
  "opt_isElement element s = (let k = drop_bit 6 element in do {
     assert_that (k < length (m_p_nArray s));
     Some ((m_p_nArray s ! k AND push_bit (element AND 63) 1) \<noteq> 0) })"

definition opt_addSet :: "opt_set \<Rightarrow> opt_set \<Rightarrow> opt_set option" where
  "opt_addSet t s = do {
     assert_that (m_nSize s = m_nSize t);
     Some (s\<lparr> m_p_nArray := map (\<lambda>i. m_p_nArray s ! i OR m_p_nArray t ! i)
                               [0..<length (m_p_nArray s)] \<rparr>) }"

definition opt_removeSet :: "opt_set \<Rightarrow> opt_set \<Rightarrow> opt_set option" where
  "opt_removeSet t s = do {
     assert_that (m_nSize s = m_nSize t);
     Some (s\<lparr> m_p_nArray := map (\<lambda>i. m_p_nArray s ! i AND NOT (m_p_nArray t ! i))
                               [0..<length (m_p_nArray s)] \<rparr>) }"

definition opt_clear :: "opt_set \<Rightarrow> opt_set" where
  "opt_clear s = s\<lparr> m_p_nArray := map (\<lambda>_. 0) (m_p_nArray s) \<rparr>"

text \<open>The loop that clears the bits above the size: \<open>j\<close> rounds, the mask shifted right in
  each.\<close>

fun trim_loop :: "nat \<Rightarrow> 64 word \<Rightarrow> 64 word \<Rightarrow> 64 word" where
  "trim_loop 0 msk w = w"
| "trim_loop (Suc j) msk w = trim_loop j (drop_bit 1 msk) (w AND msk)"

definition trim_last :: "opt_set \<Rightarrow> opt_set" where
  "trim_last s = (if m_nSize s mod 64 \<noteq> 0 then
     (let k = length (m_p_nArray s) - 1 in
      s\<lparr> m_p_nArray := (m_p_nArray s)
           [k := trim_loop (64 - (m_nSize s AND 63)) 0x7FFFFFFFFFFFFFFF (m_p_nArray s ! k)] \<rparr>)
     else s)"

definition opt_broadcast :: "opt_set \<Rightarrow> opt_set" where
  "opt_broadcast s = trim_last (s\<lparr> m_p_nArray := map (\<lambda>_. -1) (m_p_nArray s) \<rparr>)"

text \<open>\<open>rs\<close> lists the two results of \<open>random()\<close> for each word.\<close>

definition opt_addRandom :: "(64 word \<times> 64 word) list \<Rightarrow> opt_set \<Rightarrow> opt_set" where
  "opt_addRandom rs s = trim_last (s\<lparr> m_p_nArray :=
     map (\<lambda>i. m_p_nArray s ! i OR (fst (rs ! i) XOR push_bit 4 (snd (rs ! i))))
         [0..<length (m_p_nArray s)] \<rparr>)"

fun count_loop :: "nat \<Rightarrow> 64 word \<Rightarrow> 64 word \<Rightarrow> nat \<Rightarrow> nat" where
  "count_loop 0 msk w counter = counter"
| "count_loop (Suc j) msk w counter =
     count_loop j (push_bit 1 msk) w (if (w AND msk) \<noteq> 0 then counter + 1 else counter)"

definition opt_count :: "opt_set \<Rightarrow> nat" where
  "opt_count s = foldl (\<lambda>counter w. count_loop 64 1 w counter) 0 (m_p_nArray s)"

definition opt_isEqual :: "opt_set \<Rightarrow> opt_set \<Rightarrow> bool option" where
  "opt_isEqual s t = do {
     assert_that (m_nSize s = m_nSize t);
     Some (list_all (\<lambda>i. m_p_nArray s ! i = m_p_nArray t ! i) [0..<length (m_p_nArray s)]) }"

text \<open>The inner loop of \<open>smallestElement\<close>: \<open>x\<close> is a signed \<open>long\<close> and shifts
  arithmetically.\<close>

fun smallest_loop :: "nat \<Rightarrow> nat \<Rightarrow> 64 word \<Rightarrow> nat option" where
  "smallest_loop 0 j x = None"
| "smallest_loop (Suc n) j x =
     (if (x AND 1) \<noteq> 0 then Some j else smallest_loop n (Suc j) (signed_drop_bit 1 x))"

fun smallest_word :: "nat \<Rightarrow> 64 word list \<Rightarrow> nat option" where
  "smallest_word i [] = None"
| "smallest_word i (w # ws) =
     (if w \<noteq> 0 then map_option (\<lambda>j. 64 * i + j) (smallest_loop 64 0 w)
      else smallest_word (Suc i) ws)"

definition opt_smallestElement :: "opt_set \<Rightarrow> nat option" where
  "opt_smallestElement s = do {
     assert_that (opt_count s > 0);
     smallest_word 0 (m_p_nArray s) }"

definition opt_isBroadcast :: "opt_set \<Rightarrow> bool option" where
  "opt_isBroadcast s =
     (let a = m_p_nArray s; n = m_nSize s in
      Some (list_all (\<lambda>i. a ! i = -1) [0..<(if n mod 64 = 0 then length a else length a - 1)] \<and>
            list_all (\<lambda>j. (push_bit j 1 AND a ! (length a - 1)) \<noteq> 0) [0..<n mod 64]))"

definition opt_isEmpty :: "opt_set \<Rightarrow> bool option" where
  "opt_isEmpty s = Some (list_all (\<lambda>w. w = 0) (m_p_nArray s))"

definition opt_OR :: "opt_set \<Rightarrow> opt_set \<Rightarrow> opt_set option" where
  "opt_OR s orSet = do {
     let result = opt_setSize (m_nSize s);
     assert_that (m_nSize s = m_nSize orSet);
     Some (result\<lparr> m_p_nArray := map (\<lambda>i. m_p_nArray s ! i OR m_p_nArray orSet ! i)
                                    [0..<length (m_p_nArray s)] \<rparr>) }"

definition opt_AND :: "opt_set \<Rightarrow> opt_set \<Rightarrow> opt_set option" where
  "opt_AND s andSet = do {
     let result = opt_setSize (m_nSize s);
     assert_that (m_nSize s = m_nSize andSet);
     Some (result\<lparr> m_p_nArray := map (\<lambda>i. m_p_nArray s ! i AND m_p_nArray andSet ! i)
                                    [0..<length (m_p_nArray s)] \<rparr>) }"

definition opt_intersectionIsNotEmpty :: "opt_set \<Rightarrow> opt_set \<Rightarrow> bool option" where
  "opt_intersectionIsNotEmpty s t = do {
     assert_that (length (m_p_nArray s) \<le> length (m_p_nArray t));
     Some (list_ex (\<lambda>i. (m_p_nArray s ! i AND m_p_nArray t ! i) \<noteq> 0) [0..<length (m_p_nArray s)]) }"

definition opt_intersectionIsEmpty :: "opt_set \<Rightarrow> opt_set \<Rightarrow> bool option" where
  "opt_intersectionIsEmpty s t = do {
     assert_that (length (m_p_nArray s) \<le> length (m_p_nArray t));
     Some (\<not> list_ex (\<lambda>i. (m_p_nArray s ! i AND m_p_nArray t ! i) \<noteq> 0) [0..<length (m_p_nArray s)]) }"

definition opt_isSuperset :: "opt_set \<Rightarrow> opt_set \<Rightarrow> bool option" where
  "opt_isSuperset s test = do {
     assert_that (m_nSize s = m_nSize test);
     Some (list_all (\<lambda>i. ((m_p_nArray test ! i AND m_p_nArray s ! i) OR NOT (m_p_nArray test ! i)) = -1)
             [0..<length (m_p_nArray s)]) }"

definition opt_isSubset :: "opt_set \<Rightarrow> opt_set \<Rightarrow> bool option" where
  "opt_isSubset s test = opt_isSuperset test s"

text \<open>\<open>elementAt\<close> returns the flag, not an element, for compatibility with \<open>BigSet\<close>.\<close>

definition opt_elementAt :: "nat \<Rightarrow> opt_set \<Rightarrow> int option" where
  "opt_elementAt index s = do { b \<leftarrow> opt_isElement index s; Some (if b then 1 else 0) }"

section \<open>The set of a word array\<close>

definition words_elems :: "64 word list \<Rightarrow> nat set" where
  "words_elems a = {i. i < 64 * length a \<and> bit (a ! (i div 64)) (i mod 64)}"

definition opt_elems :: "opt_set \<Rightarrow> nat set" where
  "opt_elems s = words_elems (m_p_nArray s)"

definition words_for :: "nat \<Rightarrow> nat" where
  "words_for n = n div 64 + (if n mod 64 = 0 then 0 else 1)"

definition opt_invar :: "opt_set \<Rightarrow> bool" where
  "opt_invar s \<longleftrightarrow> length (m_p_nArray s) = words_for (m_nSize s) \<and> opt_elems s \<subseteq> {..<m_nSize s}"

lemma words_for_bounds: "i < n \<Longrightarrow> i div 64 < words_for n" "n \<le> 64 * words_for n"
  by (auto simp: words_for_def)

lemma finite_words_elems [simp]: "finite (words_elems a)"
  by (rule finite_subset [of _ "{..<64 * length a}"]) (auto simp: words_elems_def)

lemma in_words_elems_map [simp]:
  "i \<in> words_elems (map f [0..<n]) \<longleftrightarrow> i < 64 * n \<and> bit (f (i div 64)) (i mod 64)"
  by (auto simp: words_elems_def)

lemma in_words_elems_update:
  assumes "k < length a"
  shows "i \<in> words_elems (a[k := w]) \<longleftrightarrow>
    (if i div 64 = k then bit w (i mod 64) else i \<in> words_elems a)"
  using assms by (auto simp: words_elems_def nth_list_update)

lemma words_elems_Nil [simp]: "words_elems [] = {}"
  by (simp add: words_elems_def)

lemma words_elems_Cons:
  "words_elems (w # ws) = {j. bit w j} \<union> (\<lambda>i. 64 + i) ` words_elems ws"
proof (rule set_eqI)
  fix i
  show "i \<in> words_elems (w # ws) \<longleftrightarrow> i \<in> {j. bit w j} \<union> (\<lambda>i. 64 + i) ` words_elems ws"
  proof (cases "i < 64")
    case True
    then show ?thesis by (simp add: words_elems_def image_iff)
  next
    case False
    define j where "j = i - 64"
    have j: "i = 64 + j" using False by (simp add: j_def)
    have "\<not> bit w i" using False by (auto dest: bit_imp_le_length)
    moreover have "(64 + j) div 64 = Suc (j div 64)" by simp
    ultimately show ?thesis using j by (simp add: words_elems_def image_iff)
  qed
qed

lemma word64_bit_less: "bit w i \<Longrightarrow> i < 64" for w :: "64 word"
  by (auto dest: bit_imp_le_length)

section \<open>The loops\<close>

lemma count_loop_eq:
  "count_loop j (push_bit k 1) w c = c + card {i. k \<le> i \<and> i < k + j \<and> bit w i}"
proof (induction j arbitrary: k c)
  case (Suc j)
  have e: "{i. k \<le> i \<and> i < k + Suc j \<and> bit w i}
      = (if bit w k then insert k {i. Suc k \<le> i \<and> i < Suc k + j \<and> bit w i}
         else {i. Suc k \<le> i \<and> i < Suc k + j \<and> bit w i})"
    by (auto simp: not_less_eq_eq le_less)
  have "count_loop (Suc j) (push_bit k 1) w c
      = count_loop j (push_bit (Suc k) 1) w (if bit w k then c + 1 else c)"
    by (simp only: count_loop.simps word_test_bit push_bit_push_bit plus_1_eq_Suc)
  also have "\<dots> = c + card {i. k \<le> i \<and> i < k + Suc j \<and> bit w i}"
    unfolding Suc.IH e by auto
  finally show ?case .
qed simp

lemma count_loop_word: "count_loop 64 1 w c = c + card {i. bit w i}"
proof -
  have "{i. 0 \<le> i \<and> i < 0 + 64 \<and> bit w i} = {i. bit w i}" using word64_bit_less by auto
  then show ?thesis using count_loop_eq [of 64 0 w c] by simp
qed

lemma count_words: "foldl (\<lambda>c w. count_loop 64 1 w c) n ws = n + card (words_elems ws)"
proof (induction ws arbitrary: n)
  case (Cons w ws)
  have "card (words_elems (w # ws)) = card {j. bit w j} + card ((\<lambda>i. 64 + i) ` words_elems ws)"
    unfolding words_elems_Cons by (rule card_Un_disjoint) (auto dest: word64_bit_less)
  also have "card ((\<lambda>i. 64 + i) ` words_elems ws) = card (words_elems ws)"
    by (rule card_image) (simp add: inj_on_def)
  finally show ?case using Cons by (simp add: count_loop_word)
qed simp

lemma smallest_loop_eq:
  assumes "\<forall>i<n. bit x i = bit w (j + i)" "j + n = 64"
  shows "smallest_loop n j x = List.find (bit w) [j..<64]"
  using assms
proof (induction n arbitrary: j x)
  case (Suc n)
  have b: "(x AND 1) \<noteq> 0 \<longleftrightarrow> bit w j" using Suc.prems(1) word_test_bit [of x 0] by simp
  have "\<forall>i<n. bit (signed_drop_bit 1 x) i = bit w (Suc j + i)"
    using Suc.prems by (auto simp: bit_signed_drop_bit_iff)
  then have "smallest_loop n (Suc j) (signed_drop_bit 1 x) = List.find (bit w) [Suc j..<64]"
    using Suc.IH Suc.prems(2) by simp
  then show ?case using b Suc.prems(2) by (simp add: upt_conv_Cons)
qed simp

lemma smallest_loop_Min:
  assumes "w \<noteq> 0"
  shows "smallest_loop 64 0 w = Some (Min {i. bit w i})"
proof -
  have "{i. bit w i} = {i. i < 64 \<and> bit w i}" by (auto dest: word64_bit_less)
  then have "first_index (bit w) 64 = (if {i. bit w i} = {} then None else Some (Min {i. bit w i}))"
    by (intro first_index_Min) auto
  moreover have "{i. bit w i} \<noteq> {}" using assms word_eq_0_iff_bits by auto
  ultimately show ?thesis using smallest_loop_eq [of 64 w w 0] by (simp add: first_index_def)
qed

lemma smallest_word_Min:
  "smallest_word k ws = (if words_elems ws = {} then None else Some (64 * k + Min (words_elems ws)))"
proof (induction ws arbitrary: k)
  case (Cons w ws)
  show ?case
  proof (cases "w = 0")
    case False
    then have ne: "{i. bit w i} \<noteq> {}" using word_eq_0_iff_bits by auto
    have "Min (words_elems (w # ws)) = Min {i. bit w i}"
    proof (rule Min_eqI)
      fix y assume "y \<in> words_elems (w # ws)"
      moreover have "Min {i. bit w i} < 64" using Min_in [OF _ ne] by (auto dest: word64_bit_less)
      ultimately show "Min {i. bit w i} \<le> y" unfolding words_elems_Cons by auto
    next
      show "Min {i. bit w i} \<in> words_elems (w # ws)"
        unfolding words_elems_Cons using Min_in [OF _ ne] by simp
    qed simp
    moreover have "words_elems (w # ws) \<noteq> {}" unfolding words_elems_Cons using ne by auto
    ultimately show ?thesis using False by (simp add: smallest_loop_Min)
  next
    case True
    then have e: "words_elems (w # ws) = (\<lambda>i. 64 + i) ` words_elems ws"
      by (auto simp: words_elems_Cons)
    have "Min ((\<lambda>i. 64 + i) ` words_elems ws) = 64 + Min (words_elems ws)"
      if "words_elems ws \<noteq> {}"
      using mono_Min_commute [of "\<lambda>i. 64 + i" "words_elems ws"] that by (simp add: mono_def)
    then show ?thesis using True Cons e by simp
  qed
qed simp

lemma trim_loop_mask: "trim_loop (Suc k) (mask m) w = take_bit (m - k) w" if "k \<le> m" "m \<le> 64"
  using that
proof (induction k arbitrary: m w)
  case 0
  then show ?case by (simp add: take_bit_eq_mask)
next
  case (Suc k)
  then obtain m' where m: "m = Suc m'" by (cases m) auto
  have "drop_bit 1 (mask m :: 64 word) = mask m'"
    using Suc.prems m by (intro bit_eqI) (auto simp: bit_simps)
  then have "trim_loop (Suc (Suc k)) (mask m) w = trim_loop (Suc k) (mask m') (take_bit m w)"
    by (simp only: trim_loop.simps take_bit_eq_mask)
  also have "\<dots> = take_bit (m' - k) (take_bit m w)" using Suc m by simp
  finally have "trim_loop (Suc (Suc k)) (mask m) w = take_bit (min (m' - k) m) w"
    by (simp only: take_bit_take_bit)
  moreover have "min (m' - k) m = m - Suc k" using m by simp
  ultimately show ?case by (simp only:)
qed

section \<open>The operations refine the operations on sets\<close>

lemma words_elems_zero [simp]: "words_elems (replicate n 0) = {}"
proof -
  have "i div 64 < n" if "i < 64 * n" for i
    using that by (simp add: less_mult_imp_div_less mult.commute)
  then show ?thesis by (auto simp: words_elems_def)
qed

lemma opt_setSize_eq: "opt_setSize n = \<lparr> m_nSize = n, m_p_nArray = replicate (words_for n) 0 \<rparr>"
  by (simp only: opt_setSize_def words_for_def)

lemma opt_setSize_invar:
  "opt_invar (opt_setSize n) \<and> m_nSize (opt_setSize n) = n \<and> opt_elems (opt_setSize n) = {}"
  by (simp add: opt_invar_def opt_setSize_eq opt_elems_def)

lemma trim_last_elems:
  assumes "length (m_p_nArray s) = words_for (m_nSize s)"
  shows "length (m_p_nArray (trim_last s)) = length (m_p_nArray s) \<and>
         m_nSize (trim_last s) = m_nSize s \<and> opt_elems (trim_last s) = opt_elems s \<inter> {..<m_nSize s}"
proof (cases "m_nSize s mod 64 = 0")
  case True
  then have "64 * length (m_p_nArray s) = m_nSize s" using assms by (auto simp: words_for_def)
  then show ?thesis using True by (auto simp: trim_last_def opt_elems_def words_elems_def)
next
  case False
  let ?n = "m_nSize s" and ?a = "m_p_nArray s"
  define k where "k = length ?a - 1"
  have k: "k = ?n div 64" "k < length ?a" using False assms by (auto simp: k_def words_for_def)
  have w: "trim_loop (64 - (?n AND 63)) 0x7FFFFFFFFFFFFFFF x = take_bit (?n mod 64) x" for x
  proof -
    have m: "(0x7FFFFFFFFFFFFFFF :: 64 word) = mask 63" by (simp add: mask_eq_exp_minus_1)
    have e: "64 - (?n AND 63) = Suc (63 - ?n mod 64)" using False by (simp add: nat_and_63)
    show ?thesis unfolding m e using trim_loop_mask [of "63 - ?n mod 64" 63 x] by simp
  qed
  have t: "m_p_nArray (trim_last s) = ?a[k := take_bit (?n mod 64) (?a ! k)]" "m_nSize (trim_last s) = ?n"
    using False by (simp_all add: trim_last_def w k_def Let_def)
  have "opt_elems (trim_last s) = opt_elems s \<inter> {..<?n}"
  proof (rule set_eqI)
    fix i
    have "i div 64 = k \<Longrightarrow> i mod 64 < ?n mod 64 \<longleftrightarrow> i < ?n"
      using k(1) by (metis div_mod_decomp nat_add_left_cancel_less)
    moreover have "i div 64 < k \<Longrightarrow> i < ?n" "i div 64 > k \<Longrightarrow> i \<notin> words_elems ?a"
      using k by (auto simp: words_elems_def k_def)
    moreover have "i div 64 = k \<Longrightarrow> i \<in> words_elems ?a \<longleftrightarrow> bit (?a ! k) (i mod 64)"
      using k(2) by (auto simp: words_elems_def)
    ultimately show "i \<in> opt_elems (trim_last s) \<longleftrightarrow> i \<in> opt_elems s \<inter> {..<?n}"
      unfolding opt_elems_def t(1) in_words_elems_update [OF k(2)]
      by (cases "i div 64" k rule: linorder_cases) (auto simp: bit_take_bit_iff)
  qed
  then show ?thesis using t by simp
qed

lemma words_elems_full: "words_elems (map (\<lambda>_. -1) a) = {..<64 * length a}"
  by (auto simp: words_elems_def)

lemma opt_broadcast_law:
  assumes "opt_invar s"
  shows "opt_invar (opt_broadcast s) \<and> m_nSize (opt_broadcast s) = m_nSize s \<and>
         opt_elems (opt_broadcast s) = {..<m_nSize s}"
proof -
  let ?s = "s\<lparr> m_p_nArray := map (\<lambda>_. -1) (m_p_nArray s) \<rparr>"
  have l: "length (m_p_nArray ?s) = words_for (m_nSize ?s)" using assms by (simp add: opt_invar_def)
  have "opt_elems ?s \<inter> {..<m_nSize s} = {..<m_nSize s}"
    using l words_for_bounds(2) [of "m_nSize s"] by (auto simp: opt_elems_def words_elems_full)
  then show ?thesis using trim_last_elems [OF l] l
    by (auto simp: opt_broadcast_def opt_invar_def)
qed

lemma opt_update_law:
  assumes "opt_invar s" "i < m_nSize s"
    and "\<And>j. bit (f (m_p_nArray s ! (i div 64))) j \<longleftrightarrow>
             (if j = i mod 64 then v else bit (m_p_nArray s ! (i div 64)) j)"
  defines "s' \<equiv> s\<lparr> m_p_nArray := (m_p_nArray s)[i div 64 := f (m_p_nArray s ! (i div 64))] \<rparr>"
  shows "opt_invar s' \<and> opt_elems s' = (if v then insert i (opt_elems s) else opt_elems s - {i})"
proof -
  have k: "i div 64 < length (m_p_nArray s)"
    using assms(1,2) words_for_bounds(1) by (simp add: opt_invar_def)
  have "opt_elems s' = (if v then insert i (opt_elems s) else opt_elems s - {i})"
  proof (rule set_eqI)
    fix j
    have "j div 64 = i div 64 \<Longrightarrow> j mod 64 = i mod 64 \<longleftrightarrow> j = i"
      by (metis div_mod_decomp)
    moreover have "j div 64 = i div 64 \<Longrightarrow> j \<in> opt_elems s \<longleftrightarrow> bit (m_p_nArray s ! (i div 64)) (j mod 64)"
      using k by (auto simp: opt_elems_def words_elems_def)
    ultimately show "j \<in> opt_elems s' \<longleftrightarrow> j \<in> (if v then insert i (opt_elems s) else opt_elems s - {i})"
      unfolding s'_def using assms(3) in_words_elems_update [OF k, of j]
      by (cases "j div 64 = i div 64") (auto simp: opt_elems_def)
  qed
  then show ?thesis using assms(1,2) by (auto simp: opt_invar_def s'_def)
qed

lemma opt_map_law:
  assumes "opt_invar s" "opt_invar t" "m_nSize s = m_nSize t"
    and f: "\<And>i j. bit (f i) j \<longleftrightarrow> j < 64 \<and> F (bit (m_p_nArray s ! i) j) (bit (m_p_nArray t ! i) j)"
    and z: "\<not> F False False"
  defines "a \<equiv> map f [0..<length (m_p_nArray s)]"
  shows "length a = words_for (m_nSize s)"
    and "words_elems a = {i. F (i \<in> opt_elems s) (i \<in> opt_elems t)}"
    and "words_elems a \<subseteq> {..<m_nSize s}"
proof -
  have l: "length (m_p_nArray s) = length (m_p_nArray t)" using assms by (simp add: opt_invar_def)
  show "length a = words_for (m_nSize s)" using assms by (simp add: opt_invar_def)
  show e: "words_elems a = {i. F (i \<in> opt_elems s) (i \<in> opt_elems t)}"
  proof (rule set_eqI)
    fix i
    have "i \<in> opt_elems s \<longleftrightarrow> i < 64 * length (m_p_nArray s) \<and> bit (m_p_nArray s ! (i div 64)) (i mod 64)"
      "i \<in> opt_elems t \<longleftrightarrow> i < 64 * length (m_p_nArray s) \<and> bit (m_p_nArray t ! (i div 64)) (i mod 64)"
      using l by (auto simp: opt_elems_def words_elems_def)
    then show "i \<in> words_elems a \<longleftrightarrow> i \<in> {i. F (i \<in> opt_elems s) (i \<in> opt_elems t)}"
      unfolding a_def using z f [of "i div 64" "i mod 64"]
      by (cases "i < 64 * length (m_p_nArray s)") auto
  qed
  have "i < m_nSize s" if "F (i \<in> opt_elems s) (i \<in> opt_elems t)" for i
  proof (rule ccontr)
    assume "\<not> i < m_nSize s"
    then have "i \<notin> opt_elems s" "i \<notin> opt_elems t" using assms(1-3) by (auto simp: opt_invar_def)
    then show False using that z by simp
  qed
  then show "words_elems a \<subseteq> {..<m_nSize s}" unfolding e by auto
qed

lemma word64_eq_bits: "w = v \<longleftrightarrow> (\<forall>j<64. bit w j = bit v j)" for w v :: "64 word"
  using bit_word_eqI [of w v] by auto

lemma all_words: "(\<forall>i<n. \<forall>j<64. P i j) \<longleftrightarrow> (\<forall>k<64 * n. P (k div 64) (k mod (64::nat)))"
proof
  assume a: "\<forall>k<64 * n. P (k div 64) (k mod 64)"
  show "\<forall>i<n. \<forall>j<64. P i j"
  proof (intro allI impI)
    fix i j :: nat assume "i < n" "j < 64"
    then have "64 * i + j < 64 * n" "(64 * i + j) div 64 = i" "(64 * i + j) mod 64 = j" by auto
    then show "P i j" using a by metis
  qed
next
  assume a: "\<forall>i<n. \<forall>j<64. P i j"
  show "\<forall>k<64 * n. P (k div 64) (k mod 64)"
    using a by (simp add: less_mult_imp_div_less mult.commute)
qed

lemma words_nth: "words_elems a = {k. k < 64 * length a \<and> bit (a ! (k div 64)) (k mod 64)}"
  by (rule words_elems_def)

lemma opt_isBroadcast_law:
  assumes "opt_invar s"
  shows "opt_isBroadcast s = Some (opt_elems s = {..<m_nSize s})"
proof -
  let ?a = "m_p_nArray s" and ?n = "m_nSize s"
  define q where "q = ?n div 64"
  have len: "length ?a = words_for ?n" and sub: "opt_elems s \<subseteq> {..<?n}"
    using assms by (auto simp: opt_invar_def)
  have hi: "(if ?n mod 64 = 0 then length ?a else length ?a - 1) = q"
    using len by (simp add: words_for_def q_def)
  have last: "?n mod 64 \<noteq> 0 \<Longrightarrow> length ?a - 1 = q" using len by (simp add: words_for_def q_def)
  have n: "?n = 64 * q + ?n mod 64" by (simp add: q_def)
  have "list_all (\<lambda>i. ?a ! i = -1) [0..<q] \<longleftrightarrow> (\<forall>i<q. \<forall>j<64. bit (?a ! i) j)"
    by (auto simp: list_all_iff word64_eq_bits)
  also have "\<dots> \<longleftrightarrow> (\<forall>k<64 * q. bit (?a ! (k div 64)) (k mod 64))" by (rule all_words)
  finally have full: "list_all (\<lambda>i. ?a ! i = -1) [0..<q]
      \<longleftrightarrow> (\<forall>k<64 * q. bit (?a ! (k div 64)) (k mod 64))" .
  have "(push_bit j 1 AND ?a ! (length ?a - 1)) \<noteq> 0 \<longleftrightarrow> bit (?a ! (length ?a - 1)) j" for j
    by (simp only: and.commute [of "push_bit j 1"] word_test_bit)
  then have part: "list_all (\<lambda>j. (push_bit j 1 AND ?a ! (length ?a - 1)) \<noteq> 0) [0..<?n mod 64]
      \<longleftrightarrow> (\<forall>j<?n mod 64. bit (?a ! ((64 * q + j) div 64)) ((64 * q + j) mod 64))"
    using last by (auto simp: list_all_iff)
  have split: "(\<forall>k<64 * q. P k) \<and> (\<forall>j<?n mod 64. P (64 * q + j)) \<longleftrightarrow> (\<forall>k<?n. P k)" for P
  proof -
    have "k < ?n \<Longrightarrow> k < 64 * q \<or> (\<exists>j<?n mod 64. k = 64 * q + j)" for k
      using n by (metis nat_add_left_cancel_less le_iff_add not_less)
    then show ?thesis using n by (metis nat_add_left_cancel_less trans_less_add1)
  qed
  have "opt_isBroadcast s = Some (\<forall>k<?n. bit (?a ! (k div 64)) (k mod 64))"
    unfolding opt_isBroadcast_def Let_def hi full part
    using split [of "\<lambda>k. bit (?a ! (k div 64)) (k mod 64)"] by (simp only:)
  moreover have "?n \<le> 64 * length ?a" using len words_for_bounds(2) by simp
  then have "(\<forall>k<?n. bit (?a ! (k div 64)) (k mod 64)) \<longleftrightarrow> opt_elems s = {..<?n}"
    using sub unfolding opt_elems_def words_elems_def by (auto simp: set_eq_iff)
  ultimately show ?thesis by simp
qed

lemma opt_index: "drop_bit 6 i = i div 64" "i AND 63 = i mod 64" for i :: nat
  by (simp_all add: drop_bit_eq_div nat_and_63)

lemma opt_index_in_array:
  "\<lbrakk> opt_invar s; i < m_nSize s \<rbrakk> \<Longrightarrow> i div 64 < length (m_p_nArray s)"
  using words_for_bounds(1) by (simp add: opt_invar_def)

lemma opt_isElement_law:
  assumes "opt_invar s" "i < m_nSize s"
  shows "opt_isElement i s = Some (i \<in> opt_elems s)"
proof -
  have k: "i div 64 < length (m_p_nArray s)" using opt_index_in_array assms by simp
  then have "i < 64 * length (m_p_nArray s)" by simp
  then show ?thesis using k
    unfolding opt_isElement_def Let_def opt_index word_test_bit opt_elems_def words_elems_def by simp
qed

lemma opt_set_ops:
  assumes "opt_invar s" "opt_invar t" "m_nSize s = m_nSize t"
  shows "\<exists>u. opt_addSet t s = Some u \<and> opt_invar u \<and> m_nSize u = m_nSize s \<and> opt_elems u = opt_elems s \<union> opt_elems t"
    and "\<exists>u. opt_removeSet t s = Some u \<and> opt_invar u \<and> m_nSize u = m_nSize s \<and> opt_elems u = opt_elems s - opt_elems t"
    and "\<exists>u. opt_OR s t = Some u \<and> opt_invar u \<and> m_nSize u = m_nSize s \<and> opt_elems u = opt_elems s \<union> opt_elems t"
    and "\<exists>u. opt_AND s t = Some u \<and> opt_invar u \<and> m_nSize u = m_nSize s \<and> opt_elems u = opt_elems s \<inter> opt_elems t"
proof -
  let ?a = "m_p_nArray s" and ?b = "m_p_nArray t"
  have len: "length ?a = words_for (m_nSize s)" using assms by (simp add: opt_invar_def)
  have o: "bit (?a ! i OR ?b ! i) j \<longleftrightarrow> j < 64 \<and> (bit (?a ! i) j \<or> bit (?b ! i) j)" for i j
    by (auto simp: bit_or_iff dest: word64_bit_less)
  have n: "bit (?a ! i AND NOT (?b ! i)) j \<longleftrightarrow> j < 64 \<and> (bit (?a ! i) j \<and> \<not> bit (?b ! i) j)" for i j
    by (auto simp: bit_simps dest: word64_bit_less)
  have a: "bit (?a ! i AND ?b ! i) j \<longleftrightarrow> j < 64 \<and> (bit (?a ! i) j \<and> bit (?b ! i) j)" for i j
    by (auto simp: bit_and_iff dest: word64_bit_less)
  note lo = opt_map_law [OF assms, of "\<lambda>i. ?a ! i OR ?b ! i" "\<lambda>x y. x \<or> y", OF o]
  note ln = opt_map_law [OF assms, of "\<lambda>i. ?a ! i AND NOT (?b ! i)" "\<lambda>x y. x \<and> \<not> y", OF n]
  note la = opt_map_law [OF assms, of "\<lambda>i. ?a ! i AND ?b ! i" "\<lambda>x y. x \<and> y", OF a]
  show "\<exists>u. opt_addSet t s = Some u \<and> opt_invar u \<and> m_nSize u = m_nSize s \<and> opt_elems u = opt_elems s \<union> opt_elems t"
    using lo assms(3) len by (auto simp: opt_addSet_def opt_invar_def opt_elems_def)
  show "\<exists>u. opt_removeSet t s = Some u \<and> opt_invar u \<and> m_nSize u = m_nSize s \<and> opt_elems u = opt_elems s - opt_elems t"
    using ln assms(3) len by (auto simp: opt_removeSet_def opt_invar_def opt_elems_def)
  show "\<exists>u. opt_OR s t = Some u \<and> opt_invar u \<and> m_nSize u = m_nSize s \<and> opt_elems u = opt_elems s \<union> opt_elems t"
    using lo assms(3) len by (auto simp: opt_OR_def opt_setSize_eq opt_invar_def opt_elems_def)
  show "\<exists>u. opt_AND s t = Some u \<and> opt_invar u \<and> m_nSize u = m_nSize s \<and> opt_elems u = opt_elems s \<inter> opt_elems t"
    using la assms(3) len by (auto simp: opt_AND_def opt_setSize_eq opt_invar_def opt_elems_def)
qed

text \<open>Comparisons word by word are comparisons bit by bit.\<close>

lemma opt_compare_words:
  assumes "opt_invar s" "opt_invar t" "m_nSize s = m_nSize t"
  shows "(\<forall>i<length (m_p_nArray s). \<forall>j<64. F (bit (m_p_nArray s ! i) j) (bit (m_p_nArray t ! i) j))
     \<longleftrightarrow> (\<forall>k<64 * length (m_p_nArray s). F (k \<in> opt_elems s) (k \<in> opt_elems t))"
proof -
  have l: "length (m_p_nArray s) = length (m_p_nArray t)" using assms by (simp add: opt_invar_def)
  have "bit (m_p_nArray s ! (k div 64)) (k mod 64) \<longleftrightarrow> k \<in> opt_elems s"
    "bit (m_p_nArray t ! (k div 64)) (k mod 64) \<longleftrightarrow> k \<in> opt_elems t"
    if "k < 64 * length (m_p_nArray s)" for k
    using that l by (auto simp: opt_elems_def words_elems_def)
  then show ?thesis unfolding all_words by auto
qed

lemma opt_elems_in_array: "i \<in> opt_elems s \<Longrightarrow> i < 64 * length (m_p_nArray s)"
  by (simp add: opt_elems_def words_elems_def)

lemma opt_intersectionIsNotEmpty_law:
  assumes "opt_invar s" "opt_invar t" "m_nSize s = m_nSize t"
  shows "opt_intersectionIsNotEmpty s t = Some (opt_elems s \<inter> opt_elems t \<noteq> {})"
proof -
  have l: "length (m_p_nArray s) = length (m_p_nArray t)" using assms by (simp add: opt_invar_def)
  have "list_ex (\<lambda>i. (m_p_nArray s ! i AND m_p_nArray t ! i) \<noteq> 0) [0..<length (m_p_nArray s)]
    \<longleftrightarrow> \<not> (\<forall>i<length (m_p_nArray s). \<forall>j<64. \<not> (bit (m_p_nArray s ! i) j \<and> bit (m_p_nArray t ! i) j))"
    by (auto simp: list_ex_iff word64_eq_bits bit_and_iff)
  also have "\<dots> \<longleftrightarrow> opt_elems s \<inter> opt_elems t \<noteq> {}"
    unfolding opt_compare_words [OF assms, of "\<lambda>x y. \<not> (x \<and> y)"]
    using opt_elems_in_array by blast
  finally show ?thesis using l by (simp add: opt_intersectionIsNotEmpty_def)
qed

lemma opt_isSuperset_law:
  assumes "opt_invar s" "opt_invar t" "m_nSize s = m_nSize t"
  shows "opt_isSuperset s t = Some (opt_elems t \<subseteq> opt_elems s)"
proof -
  have l: "length (m_p_nArray s) = length (m_p_nArray t)" using assms by (simp add: opt_invar_def)
  have "list_all (\<lambda>i. ((m_p_nArray t ! i AND m_p_nArray s ! i) OR NOT (m_p_nArray t ! i)) = -1)
          [0..<length (m_p_nArray s)]
    \<longleftrightarrow> (\<forall>i<length (m_p_nArray s). \<forall>j<64. (bit (m_p_nArray t ! i) j \<longrightarrow> bit (m_p_nArray s ! i) j))"
    by (auto simp: list_all_iff word64_eq_bits bit_simps)
  also have "\<dots> \<longleftrightarrow> opt_elems t \<subseteq> opt_elems s"
    unfolding opt_compare_words [OF assms, of "\<lambda>x y. y \<longrightarrow> x"]
    using opt_elems_in_array [of _ t] l by auto
  finally show ?thesis using assms(3) by (simp add: opt_isSuperset_def)
qed

lemma opt_isEmpty_law: "opt_isEmpty s = Some (opt_elems s = {})"
proof -
  have "list_all (\<lambda>w. w = 0) a \<longleftrightarrow> words_elems a = {}" for a
    by (induction a) (auto simp: words_elems_Cons word_eq_0_iff_bits)
  then show ?thesis by (simp add: opt_isEmpty_def opt_elems_def)
qed

interpretation opt: node_set m_nSize opt_invar opt_elems opt_add opt_remove opt_addSet
  opt_removeSet opt_clear opt_broadcast opt_count opt_OR opt_AND
  opt_intersectionIsNotEmpty opt_isSuperset opt_isElement opt_isBroadcast opt_isEmpty
  opt_smallestElement
proof (standard, goal_cases)
  case (2 s i)
  have "bit (m_p_nArray s ! (i div 64) OR push_bit (i mod 64) 1) j \<longleftrightarrow>
      (if j = i mod 64 then True else bit (m_p_nArray s ! (i div 64)) j)" for j
    by (auto simp: bit_simps)
  from opt_update_law [OF 2, where f = "\<lambda>w. w OR push_bit (i mod 64) 1", OF this] show ?case
    using opt_index_in_array [OF 2] unfolding opt_add_def Let_def opt_index by simp
next
  case (3 s i)
  have "bit (m_p_nArray s ! (i div 64) AND NOT (push_bit (i mod 64) 1)) j \<longleftrightarrow>
      (if j = i mod 64 then False else bit (m_p_nArray s ! (i div 64)) j)" for j
    by (auto simp: bit_simps dest: word64_bit_less)
  from opt_update_law [OF 3, where f = "\<lambda>w. w AND NOT (push_bit (i mod 64) 1)", OF this] show ?case
    using opt_index_in_array [OF 3] unfolding opt_remove_def Let_def opt_index by simp
next
  case (6 s)
  then show ?case by (simp add: opt_clear_def opt_invar_def opt_elems_def map_replicate_const)
next
  case (8 s)
  show ?case by (simp add: opt_count_def count_words opt_elems_def)
next
  case (16 s)
  have "opt_count s = card (opt_elems s)" by (simp add: opt_count_def count_words opt_elems_def)
  then have "opt_count s > 0 \<longleftrightarrow> words_elems (m_p_nArray s) \<noteq> {}"
    by (simp add: card_gt_0_iff opt_elems_def)
  then show ?case by (simp add: opt_smallestElement_def smallest_word_Min opt_elems_def)
next
  case (4 s t)
  then show ?case by (rule opt_set_ops(1))
next
  case (5 s t)
  then show ?case by (rule opt_set_ops(2))
next
  case (9 s t)
  then show ?case by (rule opt_set_ops(3))
next
  case (10 s t)
  then show ?case by (rule opt_set_ops(4))
qed (simp_all add: opt_broadcast_law opt_intersectionIsNotEmpty_law opt_isSuperset_law
      opt_isElement_law opt_isBroadcast_law opt_isEmpty_law, simp add: opt_invar_def)

section \<open>Properties\<close>

text \<open>The node set that is built refines sets of node numbers: \<open>add\<close> and
  \<open>remove\<close> of a node below the size change exactly that element, \<open>isElement\<close> reads it
  back and \<open>count\<close> is the number of elements.\<close>

theorem opt_set_add_remove:
  assumes "opt_invar s" "i < m_nSize s" "j < m_nSize s"
  shows "\<exists>a r. opt_add i s = Some a \<and> opt_remove i s = Some r \<and> opt_invar a \<and> opt_invar r \<and>
     opt_isElement j a = Some (j = i \<or> j \<in> opt_elems s) \<and>
     opt_isElement j r = Some (j \<noteq> i \<and> j \<in> opt_elems s) \<and>
     opt_count a = card (insert i (opt_elems s)) \<and> opt_count r = card (opt_elems s - {i})"
proof -
  obtain a r where "opt_add i s = Some a" "opt_invar a" "m_nSize a = m_nSize s"
    "opt_elems a = insert i (opt_elems s)" "opt_remove i s = Some r" "opt_invar r"
    "m_nSize r = m_nSize s" "opt_elems r = opt_elems s - {i}"
    using opt.add_law [OF assms(1,2)] opt.remove_law [OF assms(1,2)] by blast
  then show ?thesis using assms(3) opt.isElement_law [of a j] opt.isElement_law [of r j]
      opt.count_law [of a] opt.count_law [of r] by auto
qed

text \<open>\<open>broadcast\<close> fills exactly the nodes below the size, whatever the size is modulo
  the word length, and \<open>isBroadcast\<close> answers true exactly when every node is present.\<close>

theorem opt_set_broadcast:
  assumes "opt_invar s"
  shows "opt_elems (opt_broadcast s) = {..<m_nSize s} \<and>
     opt_isBroadcast (opt_broadcast s) = Some True \<and>
     opt_isBroadcast s = Some (opt_count s = m_nSize s)"
  using opt.broadcast_law [OF assms] opt.isBroadcast_law [of "opt_broadcast s"]
    opt.isBroadcast_iff_count [OF assms] by simp

text \<open>\<open>smallestElement\<close> returns the least element, across words, and aborts on an empty
  set.\<close>

theorem opt_set_smallestElement:
  assumes "opt_invar s"
  shows "opt_smallestElement s = (if opt_elems s = {} then None else Some (Min (opt_elems s)))"
  using assms by (rule opt.smallestElement_law)

text \<open>\<open>add\<close> has no range check (the assertion is commented out): a node number between
  the size and the end of the last word sets a bit that no node has, and the set is not empty
  any more although it has no element below its size.\<close>

theorem opt_add_out_of_range:
  "\<exists>s'. opt_add 5 (opt_setSize 3) = Some s' \<and> opt_isEmpty s' = Some False \<and>
        opt_elems s' \<inter> {..<m_nSize s'} = {} \<and> \<not> opt_invar s'"
proof -
  let ?s = "\<lparr> m_nSize = 3, m_p_nArray = [32] \<rparr> :: opt_set"
  have s: "opt_add 5 (opt_setSize 3) = Some ?s" by (simp add: opt_add_def opt_setSize_def Let_def)
  have "bit (32 :: 64 word) i \<longleftrightarrow> i = 5" for i
    using bit_exp_iff [of 5 i, where ?'a = "64 word"] by (auto dest: word64_bit_less)
  then have e: "opt_elems ?s = {5}" by (auto simp: opt_elems_def words_elems_Cons)
  have "opt_isEmpty ?s = Some False" by (simp add: opt_isEmpty_def)
  then show ?thesis using s e by (simp add: opt_invar_def)
qed

definition sample_set :: opt_set where
  "sample_set = \<lparr> m_nSize = 70, m_p_nArray = [0, 0x24] \<rparr>"

lemma sample_set_invar: "opt_invar sample_set"
proof -
  have "sample_set = the (do { s \<leftarrow> opt_add 66 (opt_setSize 70); opt_add 69 s })"
    by (simp add: sample_set_def opt_add_def opt_setSize_def Let_def)
  moreover obtain s1 where "opt_add 66 (opt_setSize 70) = Some s1" "opt_invar s1" "m_nSize s1 = 70"
    using opt.add_law [of "opt_setSize 70" 66] opt_setSize_invar [of 70] by auto
  moreover from this obtain s2 where "opt_add 69 s1 = Some s2" "opt_invar s2"
    using opt.add_law [of s1 69] by auto
  ultimately show ?thesis by simp
qed

lemma opt_set_add_remove_witness:
  "\<exists>a r. opt_add 3 sample_set = Some a \<and> opt_remove 3 sample_set = Some r \<and> opt_invar a \<and> opt_invar r \<and>
     opt_isElement 66 a = Some ((66::nat) = 3 \<or> 66 \<in> opt_elems sample_set) \<and>
     opt_isElement 66 r = Some ((66::nat) \<noteq> 3 \<and> 66 \<in> opt_elems sample_set) \<and>
     opt_count a = card (insert 3 (opt_elems sample_set)) \<and>
     opt_count r = card (opt_elems sample_set - {3})"
  by (rule opt_set_add_remove [OF sample_set_invar]) (simp_all add: sample_set_def)

lemma opt_set_broadcast_witness:
  "opt_elems (opt_broadcast sample_set) = {..<m_nSize sample_set} \<and>
   opt_isBroadcast (opt_broadcast sample_set) = Some True \<and>
   opt_isBroadcast sample_set = Some (opt_count sample_set = m_nSize sample_set)"
  by (rule opt_set_broadcast [OF sample_set_invar])

lemma opt_set_smallestElement_witness:
  "opt_smallestElement sample_set =
     (if opt_elems sample_set = {} then None else Some (Min (opt_elems sample_set)))"
  by (rule opt_set_smallestElement [OF sample_set_invar])

end
