(* ===== verification/Net_Dest.thy ===== *)
theory Net_Dest
  imports Opt_Set
begin

text \<open>
  \<open>ruby_clean/common/NetDest.C\<close>: the destination set of a network message, one node set per
  machine type.  The functions \<open>MachineType_base_level\<close>, \<open>MachineType_base_number\<close> and
  \<open>MachineType_base_count\<close> are generated from the protocol: the level of a type is its
  position among the types, its count is the number of machines of the type and its base number
  the number of machines of the types before it.  They are given by the list \<open>counts\<close>, and a
  machine identifier is the pair of its level and its number.
\<close>

type_synonym machine_id = "nat \<times> nat"
type_synonym net_dest = "opt_set list"

definition base_number :: "nat list \<Rightarrow> nat \<Rightarrow> nat" where
  "base_number counts i = sum_list (take i counts)"

definition nd_setSize :: "nat list \<Rightarrow> net_dest" where
  "nd_setSize counts = map opt_setSize counts"

definition vecIndex :: "machine_id \<Rightarrow> net_dest \<Rightarrow> nat option" where
  "vecIndex m d = do { assert_that (fst m < length d); Some (fst m) }"

definition nd_add :: "machine_id \<Rightarrow> net_dest \<Rightarrow> net_dest option" where
  "nd_add m d = do { k \<leftarrow> vecIndex m d; s \<leftarrow> opt_add (snd m) (d ! k); Some (d[k := s]) }"

definition nd_remove :: "machine_id \<Rightarrow> net_dest \<Rightarrow> net_dest option" where
  "nd_remove m d = do { k \<leftarrow> vecIndex m d; s \<leftarrow> opt_remove (snd m) (d ! k); Some (d[k := s]) }"

definition nd_isElement :: "machine_id \<Rightarrow> net_dest \<Rightarrow> bool option" where
  "nd_isElement m d = do { k \<leftarrow> vecIndex m d; opt_isElement (snd m) (d ! k) }"

definition nd_addNetDest :: "net_dest \<Rightarrow> net_dest \<Rightarrow> net_dest option" where
  "nd_addNetDest e d = do {
     assert_that (length d = length e);
     traverse2 (\<lambda>s t. do { assert_that (m_nSize t \<noteq> 0); opt_addSet t s }) d e }"

definition nd_removeNetDest :: "net_dest \<Rightarrow> net_dest \<Rightarrow> net_dest option" where
  "nd_removeNetDest e d = do {
     assert_that (length d = length e);
     traverse2 (\<lambda>s t. opt_removeSet t s) d e }"

text \<open>\<open>setNetDest\<close>: consecutive types have consecutive levels, so that the assertion on the
  levels holds for every type but the last value \<open>MachineType_NUM\<close>.\<close>

definition nd_setNetDest :: "nat \<Rightarrow> opt_set \<Rightarrow> net_dest \<Rightarrow> net_dest option" where
  "nd_setNetDest machine s d = do {
     assert_that (m_nSize s \<noteq> 0);
     assert_that (machine < length d);
     Some (d[machine := opt_copy s]) }"

definition nd_addRandom :: "nat \<Rightarrow> (64 word \<times> 64 word) list \<Rightarrow> net_dest \<Rightarrow> net_dest option" where
  "nd_addRandom r rs d = do {
     assert_that (length d \<noteq> 0);
     let i = r mod length d;
     Some (d[i := opt_addRandom rs (d ! i)]) }"

definition nd_clear :: "net_dest \<Rightarrow> net_dest" where
  "nd_clear d = map opt_clear d"

definition nd_broadcast_type :: "nat list \<Rightarrow> nat \<Rightarrow> net_dest \<Rightarrow> net_dest option" where
  "nd_broadcast_type counts machineType d =
     run_all (\<lambda>i. nd_add (machineType, i)) [0..<counts ! machineType] d"

definition nd_broadcast :: "nat list \<Rightarrow> net_dest \<Rightarrow> net_dest option" where
  "nd_broadcast counts d = run_all (nd_broadcast_type counts) [0..<length counts] d"

text \<open>The two nested loops of \<open>getAllDest\<close>.\<close>

definition nd_getAllDest :: "nat list \<Rightarrow> net_dest \<Rightarrow> nat list" where
  "nd_getAllDest counts d =
     concat (map (\<lambda>i. map (\<lambda>j. base_number counts i + j)
                        (filter (\<lambda>j. opt_isElement j (d ! i) = Some True) [0..<m_nSize (d ! i)]))
                 [0..<length d])"

definition nd_count :: "net_dest \<Rightarrow> nat" where
  "nd_count d = foldl (\<lambda>counter s. counter + opt_count s) 0 d"

definition nd_elementAt :: "machine_id \<Rightarrow> net_dest \<Rightarrow> int option" where
  "nd_elementAt m d = do { k \<leftarrow> vecIndex m d; opt_elementAt (snd m) (d ! k) }"

definition first_of_set :: "opt_set \<Rightarrow> nat option" where
  "first_of_set s = first_index (\<lambda>j. opt_isElement j s = Some True) (m_nSize s)"

fun nd_smallest_loop :: "net_dest \<Rightarrow> nat option" where
  "nd_smallest_loop [] = None"
| "nd_smallest_loop (s # d) = (case first_of_set s of None \<Rightarrow> nd_smallest_loop d | Some j \<Rightarrow> Some j)"

definition nd_smallestElement :: "net_dest \<Rightarrow> nat option" where
  "nd_smallestElement d = do { assert_that (nd_count d > 0); nd_smallest_loop d }"

definition nd_smallestElement_type :: "nat \<Rightarrow> net_dest \<Rightarrow> machine_id option" where
  "nd_smallestElement_type machine d = do {
     assert_that (machine < length d);
     j \<leftarrow> first_of_set (d ! machine);
     Some (machine, j) }"

definition nd_isBroadcast :: "net_dest \<Rightarrow> bool option" where
  "nd_isBroadcast d = all2_until (\<lambda>s _. opt_isBroadcast s) d d"

definition nd_isEmpty :: "net_dest \<Rightarrow> bool option" where
  "nd_isEmpty d = all2_until (\<lambda>s _. opt_isEmpty s) d d"

definition nd_OR :: "net_dest \<Rightarrow> net_dest \<Rightarrow> net_dest option" where
  "nd_OR d e = do { assert_that (length d = length e); traverse2 opt_OR d e }"

definition nd_AND :: "net_dest \<Rightarrow> net_dest \<Rightarrow> net_dest option" where
  "nd_AND d e = do { assert_that (length d = length e); traverse2 opt_AND d e }"

definition nd_intersectionIsNotEmpty :: "net_dest \<Rightarrow> net_dest \<Rightarrow> bool option" where
  "nd_intersectionIsNotEmpty d e = do {
     assert_that (length d = length e);
     map_option Not (all2_until (\<lambda>s t. map_option Not (opt_intersectionIsNotEmpty s t)) d e) }"

definition nd_isSuperset :: "net_dest \<Rightarrow> net_dest \<Rightarrow> bool option" where
  "nd_isSuperset d e = do {
     assert_that (length d = length e);
     all2_until opt_isSuperset d e }"

section \<open>Sets of machine identifiers\<close>

definition nd_elems :: "net_dest \<Rightarrow> machine_id set" where
  "nd_elems d = {(t, n). t < length d \<and> n \<in> opt_elems (d ! t)}"

definition nd_invar :: "nat list \<Rightarrow> net_dest \<Rightarrow> bool" where
  "nd_invar counts d \<longleftrightarrow> length d = length counts \<and>
     (\<forall>t<length d. opt_invar (d ! t) \<and> m_nSize (d ! t) = counts ! t)"

definition all_machines :: "nat list \<Rightarrow> machine_id set" where
  "all_machines counts = {(t, n). t < length counts \<and> n < counts ! t}"

lemma nd_setSize_empty: "nd_invar counts (nd_setSize counts) \<and> nd_elems (nd_setSize counts) = {}"
  using opt_setSize_invar by (auto simp: nd_invar_def nd_elems_def nd_setSize_def)

lemma nd_elems_in_range: "nd_invar counts d \<Longrightarrow> nd_elems d \<subseteq> all_machines counts"
  using opt.elems_bounded by (fastforce simp: nd_elems_def nd_invar_def all_machines_def)

lemma nd_update:
  assumes "nd_invar counts d" "t < length d" "opt_invar s" "m_nSize s = counts ! t"
  shows "nd_invar counts (d[t := s])"
    and "nd_elems (d[t := s]) = {(u, n) \<in> nd_elems d. u \<noteq> t} \<union> {t} \<times> opt_elems s"
  using assms by (auto simp: nd_invar_def nd_elems_def nth_list_update split: if_splits)

lemma nd_add_law:
  assumes "nd_invar counts d" "m \<in> all_machines counts"
  shows "\<exists>d'. nd_add m d = Some d' \<and> nd_invar counts d' \<and> nd_elems d' = insert m (nd_elems d)"
proof -
  obtain t n where m: "m = (t, n)" "t < length d" "n < m_nSize (d ! t)" "opt_invar (d ! t)"
    using assms by (auto simp: all_machines_def nd_invar_def)
  obtain s where s: "opt_add n (d ! t) = Some s" "opt_invar s" "m_nSize s = m_nSize (d ! t)"
    "opt_elems s = insert n (opt_elems (d ! t))" using opt.add_law [OF m(4,3)] by blast
  have sz: "m_nSize s = counts ! t" using s(3) assms(1) m(2) by (simp add: nd_invar_def)
  have "nd_elems (d[t := s]) = insert m (nd_elems d)"
    unfolding nd_update(2) [OF assms(1) m(2) s(2) sz] s(4) m(1) using m(2)
    by (auto simp: nd_elems_def)
  then show ?thesis using nd_update(1) [OF assms(1) m(2) s(2) sz] m s
    by (simp add: nd_add_def vecIndex_def)
qed

lemma nd_remove_law:
  assumes "nd_invar counts d" "m \<in> all_machines counts"
  shows "\<exists>d'. nd_remove m d = Some d' \<and> nd_invar counts d' \<and> nd_elems d' = nd_elems d - {m}"
proof -
  obtain t n where m: "m = (t, n)" "t < length d" "n < m_nSize (d ! t)" "opt_invar (d ! t)"
    using assms by (auto simp: all_machines_def nd_invar_def)
  obtain s where s: "opt_remove n (d ! t) = Some s" "opt_invar s" "m_nSize s = m_nSize (d ! t)"
    "opt_elems s = opt_elems (d ! t) - {n}" using opt.remove_law [OF m(4,3)] by blast
  have sz: "m_nSize s = counts ! t" using s(3) assms(1) m(2) by (simp add: nd_invar_def)
  have "nd_elems (d[t := s]) = nd_elems d - {m}"
    unfolding nd_update(2) [OF assms(1) m(2) s(2) sz] s(4) m(1) using m(2)
    by (auto simp: nd_elems_def)
  then show ?thesis using nd_update(1) [OF assms(1) m(2) s(2) sz] m s
    by (simp add: nd_remove_def vecIndex_def)
qed

lemma nd_isElement_law:
  assumes "nd_invar counts d" "m \<in> all_machines counts"
  shows "nd_isElement m d = Some (m \<in> nd_elems d)"
  using assms opt.isElement_law
  by (auto simp: nd_isElement_def vecIndex_def all_machines_def nd_invar_def nd_elems_def)

text \<open>An operation on every pair of node sets.\<close>

lemma nd_traverse:
  assumes "nd_invar counts d" "nd_invar counts e"
    and f: "\<And>i. i < length counts \<Longrightarrow> \<exists>u. f (d ! i) (e ! i) = Some u \<and> opt_invar u \<and>
               m_nSize u = counts ! i \<and>
               opt_elems u = {n. F (n \<in> opt_elems (d ! i)) (n \<in> opt_elems (e ! i))}"
    and "\<not> F False False"
  shows "\<exists>r. traverse2 f d e = Some r \<and> nd_invar counts r \<and>
             nd_elems r = {m. F (m \<in> nd_elems d) (m \<in> nd_elems e)}"
proof -
  have l: "length d = length counts" "length e = length counts"
    using assms(1,2) by (auto simp: nd_invar_def)
  obtain r where r: "traverse2 f d e = Some r" "length r = length d"
    "\<forall>i<length d. opt_invar (r ! i) \<and> m_nSize (r ! i) = counts ! i \<and>
        opt_elems (r ! i) = {n. F (n \<in> opt_elems (d ! i)) (n \<in> opt_elems (e ! i))}"
    using traverse2_total [of d e f "\<lambda>i u. opt_invar u \<and> m_nSize u = counts ! i \<and>
        opt_elems u = {n. F (n \<in> opt_elems (d ! i)) (n \<in> opt_elems (e ! i))}"] f l by auto
  have "nd_elems r = {m. F (m \<in> nd_elems d) (m \<in> nd_elems e)}"
  proof (rule set_eqI)
    fix m :: machine_id
    obtain t n where m: "m = (t, n)" by (cases m)
    show "m \<in> nd_elems r \<longleftrightarrow> m \<in> {m. F (m \<in> nd_elems d) (m \<in> nd_elems e)}"
      using r l assms(4) by (cases "t < length counts") (auto simp: nd_elems_def m)
  qed
  then show ?thesis using r l by (auto simp: nd_invar_def)
qed

lemma nd_addNetDest_law:
  assumes "nd_invar counts d" "nd_invar counts e" "0 \<notin> set counts"
  shows "\<exists>r. nd_addNetDest e d = Some r \<and> nd_invar counts r \<and> nd_elems r = nd_elems d \<union> nd_elems e"
proof -
  have "\<exists>u. (do { assert_that (m_nSize (e ! i) \<noteq> 0); opt_addSet (e ! i) (d ! i) }) = Some u \<and>
      opt_invar u \<and> m_nSize u = counts ! i \<and>
      opt_elems u = {n. n \<in> opt_elems (d ! i) \<or> n \<in> opt_elems (e ! i)}" if "i < length counts" for i
  proof -
    have "counts ! i \<noteq> 0" using assms(3) that by (metis nth_mem)
    then show ?thesis
      using opt.addSet_law [of "d ! i" "e ! i"] assms(1,2) that by (auto simp: nd_invar_def)
  qed
  from nd_traverse [OF assms(1,2) this] show ?thesis
    using assms(1,2) by (auto simp: nd_addNetDest_def nd_invar_def)
qed

lemma nd_removeNetDest_law:
  assumes "nd_invar counts d" "nd_invar counts e"
  shows "\<exists>r. nd_removeNetDest e d = Some r \<and> nd_invar counts r \<and> nd_elems r = nd_elems d - nd_elems e"
proof -
  have "\<exists>u. opt_removeSet (e ! i) (d ! i) = Some u \<and> opt_invar u \<and> m_nSize u = counts ! i \<and>
      opt_elems u = {n. n \<in> opt_elems (d ! i) \<and> n \<notin> opt_elems (e ! i)}" if "i < length counts" for i
    using opt.removeSet_law [of "d ! i" "e ! i"] assms that by (auto simp: nd_invar_def)
  from nd_traverse [OF assms this] show ?thesis
    using assms by (auto simp: nd_removeNetDest_def nd_invar_def)
qed

lemma nd_isSuperset_law:
  assumes "nd_invar counts d" "nd_invar counts e"
  shows "nd_isSuperset d e = Some (nd_elems e \<subseteq> nd_elems d)"
proof -
  have l: "length d = length e" using assms by (simp add: nd_invar_def)
  have "all2_until opt_isSuperset d e = Some (\<forall>i<length d. opt_elems (e ! i) \<subseteq> opt_elems (d ! i))"
    using assms by (intro all2_until_total) (auto simp: nd_invar_def opt.superset_law)
  moreover have "(\<forall>i<length d. opt_elems (e ! i) \<subseteq> opt_elems (d ! i)) \<longleftrightarrow> nd_elems e \<subseteq> nd_elems d"
    using l by (auto simp: nd_elems_def)
  ultimately show ?thesis using l by (simp add: nd_isSuperset_def)
qed

lemma nd_intersection_law:
  assumes "nd_invar counts d" "nd_invar counts e"
  shows "nd_intersectionIsNotEmpty d e = Some (nd_elems d \<inter> nd_elems e \<noteq> {})"
proof -
  have l: "length d = length e" using assms by (simp add: nd_invar_def)
  have "all2_until (\<lambda>s t. map_option Not (opt_intersectionIsNotEmpty s t)) d e
      = Some (\<forall>i<length d. opt_elems (d ! i) \<inter> opt_elems (e ! i) = {})"
    using assms by (intro all2_until_total) (auto simp: nd_invar_def opt.intersection_law)
  moreover have "(\<forall>i<length d. opt_elems (d ! i) \<inter> opt_elems (e ! i) = {})
      \<longleftrightarrow> nd_elems d \<inter> nd_elems e = {}"
    using l by (auto simp: nd_elems_def)
  ultimately show ?thesis using l by (simp add: nd_intersectionIsNotEmpty_def)
qed

lemma nd_add_all_law:
  assumes "nd_invar counts d" "\<forall>i\<in>set is. f i \<in> all_machines counts"
  shows "\<exists>d'. run_all (\<lambda>i. nd_add (f i)) is d = Some d' \<and> nd_invar counts d' \<and>
              nd_elems d' = f ` set is \<union> nd_elems d"
  using assms
proof (induction "is" arbitrary: d)
  case (Cons i "is")
  obtain d1 where d1: "nd_add (f i) d = Some d1" "nd_invar counts d1"
    "nd_elems d1 = insert (f i) (nd_elems d)" using nd_add_law [OF Cons.prems(1), of "f i"] Cons.prems by auto
  obtain d2 where "run_all (\<lambda>i. nd_add (f i)) is d1 = Some d2" "nd_invar counts d2"
    "nd_elems d2 = f ` set is \<union> nd_elems d1" using Cons.IH [OF d1(2)] Cons.prems by auto
  then show ?case using d1 by auto
qed simp

lemma nd_broadcast_type_law:
  assumes "nd_invar counts d" "t < length counts"
  shows "\<exists>d'. nd_broadcast_type counts t d = Some d' \<and> nd_invar counts d' \<and>
              nd_elems d' = {t} \<times> {..<counts ! t} \<union> nd_elems d"
proof -
  have "\<forall>i\<in>set [0..<counts ! t]. (t, i) \<in> all_machines counts"
    using assms(2) by (simp add: all_machines_def)
  from nd_add_all_law [OF assms(1) this] show ?thesis
    by (auto simp: nd_broadcast_type_def image_iff)
qed

lemma nd_broadcast_law:
  assumes "nd_invar counts d"
  shows "\<exists>d'. nd_broadcast counts d = Some d' \<and> nd_invar counts d' \<and> nd_elems d' = all_machines counts"
proof -
  have "\<exists>d'. run_all (nd_broadcast_type counts) ts d = Some d' \<and> nd_invar counts d' \<and>
      nd_elems d' = {(t, n). t \<in> set ts \<and> n < counts ! t} \<union> nd_elems d"
    if "\<forall>t\<in>set ts. t < length counts" "nd_invar counts d" for ts d
    using that
  proof (induction ts arbitrary: d)
    case (Cons t ts)
    obtain d1 where d1: "nd_broadcast_type counts t d = Some d1" "nd_invar counts d1"
      "nd_elems d1 = {t} \<times> {..<counts ! t} \<union> nd_elems d"
      using nd_broadcast_type_law [OF Cons.prems(2), of t] Cons.prems(1) by auto
    obtain d2 where "run_all (nd_broadcast_type counts) ts d1 = Some d2" "nd_invar counts d2"
      "nd_elems d2 = {(t, n). t \<in> set ts \<and> n < counts ! t} \<union> nd_elems d1"
      using Cons.IH [OF _ d1(2)] Cons.prems(1) by auto
    then show ?case using d1 by auto
  qed simp
  then obtain d' where "nd_broadcast counts d = Some d'" "nd_invar counts d'"
    "nd_elems d' = {(t, n). t < length counts \<and> n < counts ! t} \<union> nd_elems d"
    using assms by (force simp: nd_broadcast_def)
  then show ?thesis using nd_elems_in_range [OF assms] by (auto simp: all_machines_def)
qed

lemma nd_isBroadcast_law:
  assumes "nd_invar counts d"
  shows "nd_isBroadcast d = Some (nd_elems d = all_machines counts)"
proof -
  have "all2_until (\<lambda>s _. opt_isBroadcast s) d d
      = Some (\<forall>i<length d. opt_elems (d ! i) = {..<counts ! i})"
    using assms by (intro all2_until_total) (auto simp: nd_invar_def opt.isBroadcast_law)
  moreover have "(\<forall>i<length d. opt_elems (d ! i) = {..<counts ! i}) \<longleftrightarrow> nd_elems d = all_machines counts"
    using assms by (auto simp: nd_elems_def all_machines_def nd_invar_def set_eq_iff)
  ultimately show ?thesis by (simp add: nd_isBroadcast_def)
qed

lemma nd_isEmpty_law: "nd_isEmpty d = Some (nd_elems d = {})"
proof -
  have "all2_until (\<lambda>s _. opt_isEmpty s) d d = Some (\<forall>i<length d. opt_elems (d ! i) = {})"
    by (intro all2_until_total) (auto simp: opt_isEmpty_law)
  then show ?thesis by (auto simp: nd_isEmpty_def nd_elems_def)
qed

lemma nd_elems_Sigma: "nd_elems d = (SIGMA t:{..<length d}. opt_elems (d ! t))"
  by (auto simp: nd_elems_def)

lemma nd_count_law:
  assumes "nd_invar counts d"
  shows "nd_count d = card (nd_elems d)"
proof -
  have "foldl (\<lambda>c s. c + opt_count s) n xs = n + (\<Sum>t<length xs. opt_count (xs ! t))" for n xs
    by (induction xs arbitrary: n) (auto simp: sum.lessThan_Suc_shift simp del: sum.lessThan_Suc)
  then have "nd_count d = (\<Sum>t<length d. card (opt_elems (d ! t)))"
    using assms by (auto simp: nd_count_def nd_invar_def opt.count_law)
  also have "\<dots> = card (nd_elems d)"
    unfolding nd_elems_Sigma using assms opt.finite_elems
    by (intro card_SigmaI [symmetric]) (auto simp: nd_invar_def)
  finally show ?thesis .
qed

section \<open>Properties\<close>

text \<open>\<open>broadcast\<close> addresses every machine of every type, \<open>isBroadcast\<close> recognises
  exactly that set, and \<open>count\<close> is the number of destinations.\<close>

theorem nd_broadcast_all:
  assumes "nd_invar counts d"
  shows "\<exists>d'. nd_broadcast counts d = Some d' \<and> nd_elems d' = all_machines counts \<and>
     nd_isBroadcast d' = Some True \<and> nd_count d' = sum_list counts \<and>
     nd_isBroadcast d = Some (nd_elems d = all_machines counts)"
proof -
  obtain d' where d': "nd_broadcast counts d = Some d'" "nd_invar counts d'"
    "nd_elems d' = all_machines counts" using nd_broadcast_law [OF assms] by blast
  have "all_machines counts = (SIGMA t:{..<length counts}. {..<counts ! t})"
    by (auto simp: all_machines_def)
  then have "card (all_machines counts) = (\<Sum>t<length counts. counts ! t)" by simp
  also have "\<dots> = sum_list counts" by (simp add: sum_list_sum_nth atLeast0LessThan)
  finally show ?thesis using d' nd_count_law [OF d'(2)] nd_isBroadcast_law [OF d'(2)]
      nd_isBroadcast_law [OF assms] by simp
qed

text \<open>Adding the destinations of another message and removing them again leaves exactly the
  destinations that were not in the other one; when no machine type is empty, neither call
  aborts.\<close>

theorem nd_add_remove_netdest:
  assumes "nd_invar counts d" "nd_invar counts e" "0 \<notin> set counts"
  shows "\<exists>u r. nd_addNetDest e d = Some u \<and> nd_removeNetDest e u = Some r \<and>
     nd_elems u = nd_elems d \<union> nd_elems e \<and> nd_elems r = nd_elems d - nd_elems e \<and>
     nd_isSuperset u d = Some True \<and> nd_intersectionIsNotEmpty r e = Some False"
proof -
  obtain u where u: "nd_addNetDest e d = Some u" "nd_invar counts u" "nd_elems u = nd_elems d \<union> nd_elems e"
    using nd_addNetDest_law [OF assms] by blast
  obtain r where r: "nd_removeNetDest e u = Some r" "nd_invar counts r" "nd_elems r = nd_elems u - nd_elems e"
    using nd_removeNetDest_law [OF u(2) assms(2)] by blast
  show ?thesis using u r nd_isSuperset_law [OF u(2) assms(1)] nd_intersection_law [OF r(2) assms(2)]
    by auto
qed

text \<open>\<open>addNetDest\<close> aborts as soon as one machine type has no machines, even when the
  other set is empty: the assertion is on the size of the node set, not on its elements.\<close>

theorem nd_addNetDest_empty_type:
  assumes "nd_invar counts d" "nd_invar counts e" "t < length counts" "counts ! t = 0"
  shows "nd_addNetDest e d = None"
proof -
  let ?f = "\<lambda>s u. do { assert_that (m_nSize u \<noteq> 0); opt_addSet u s }"
  have "traverse2 ?f xs ys = None" if "k < length ys" "m_nSize (ys ! k) = 0" for k xs ys
    using that
  proof (induction ?f xs ys arbitrary: k rule: traverse2.induct)
    case (1 x xs y ys)
    show ?case
    proof (cases k)
      case (Suc k')
      then have "traverse2 ?f xs ys = None" if "?f x y = Some z" for z
        using 1 that by auto
      then show ?thesis by (cases "?f x y") auto
    qed (use 1 in simp)
  qed auto
  from this [of t e d] show ?thesis using assms by (auto simp: nd_addNetDest_def nd_invar_def)
qed

lemma base_number_Suc: "i < length counts \<Longrightarrow> base_number counts (Suc i) = base_number counts i + counts ! i"
  by (simp add: base_number_def take_Suc_conv_app_nth)

text \<open>\<open>getAllDest\<close> lists the global node number of every destination exactly once, in
  increasing order.\<close>

theorem nd_getAllDest_nodes:
  assumes "nd_invar counts d"
  shows "sorted_wrt (<) (nd_getAllDest counts d) \<and>
     set (nd_getAllDest counts d) = {base_number counts t + n |t n. (t, n) \<in> nd_elems d}"
proof -
  let ?js = "\<lambda>i. filter (\<lambda>j. opt_isElement j (d ! i) = Some True) [0..<m_nSize (d ! i)]"
  let ?block = "\<lambda>i. map (\<lambda>j. base_number counts i + j) (?js i)"
  have js: "set (?js i) = opt_elems (d ! i)" "\<forall>j\<in>set (?js i). j < counts ! i" if "i < length d" for i
    using assms that opt.isElement_law [of "d ! i"] opt.elems_bounded [of "d ! i"]
    by (auto simp: nd_invar_def)
  have "sorted_wrt (<) (concat (map ?block [0..<k])) \<and>
      (\<forall>x\<in>set (concat (map ?block [0..<k])). x < base_number counts k)" if "k \<le> length d" for k
    using that
  proof (induction k)
    case (Suc k)
    have kk: "k < length counts" using Suc.prems assms by (simp add: nd_invar_def)
    have "sorted_wrt (<) (?block k)" by (simp add: sorted_wrt_map sorted_wrt_filter)
    moreover have "\<forall>x\<in>set (?block k). base_number counts k \<le> x \<and> x < base_number counts (Suc k)"
      using js(2) [of k] Suc.prems base_number_Suc [OF kk] by auto
    ultimately show ?case using Suc base_number_Suc [OF kk]
      by (fastforce simp: sorted_wrt_append)
  qed simp
  moreover have "set (nd_getAllDest counts d) = (\<Union>i<length d. (\<lambda>j. base_number counts i + j) ` opt_elems (d ! i))"
    using js(1) by (auto simp: nd_getAllDest_def)
  ultimately show ?thesis by (auto simp: nd_getAllDest_def nd_elems_def)
qed

definition sample_dest :: net_dest where
  "sample_dest = the (nd_add (1, 3) (nd_setSize [16, 8, 2]))"

lemma sample_dest_invar: "nd_invar [16, 8, 2] sample_dest"
proof -
  have "(1, 3) \<in> all_machines [16, 8, 2]" by (simp add: all_machines_def)
  then show ?thesis using nd_add_law nd_setSize_empty unfolding sample_dest_def by fastforce
qed

lemma nd_broadcast_all_witness:
  "\<exists>d'. nd_broadcast [16, 8, 2] sample_dest = Some d' \<and> nd_elems d' = all_machines [16, 8, 2] \<and>
     nd_isBroadcast d' = Some True \<and> nd_count d' = sum_list [16, 8, 2] \<and>
     nd_isBroadcast sample_dest = Some (nd_elems sample_dest = all_machines [16, 8, 2])"
  by (rule nd_broadcast_all [OF sample_dest_invar])

lemma nd_add_remove_netdest_witness:
  "\<exists>u r. nd_addNetDest sample_dest (nd_setSize [16, 8, 2]) = Some u \<and>
     nd_removeNetDest sample_dest u = Some r \<and>
     nd_elems u = nd_elems (nd_setSize [16, 8, 2]) \<union> nd_elems sample_dest \<and>
     nd_elems r = nd_elems (nd_setSize [16, 8, 2]) - nd_elems sample_dest \<and>
     nd_isSuperset u (nd_setSize [16, 8, 2]) = Some True \<and>
     nd_intersectionIsNotEmpty r sample_dest = Some False"
  by (rule nd_add_remove_netdest [OF conjunct1 [OF nd_setSize_empty] sample_dest_invar]) simp

lemma nd_addNetDest_empty_type_witness:
  "nd_addNetDest (nd_setSize [16, 0]) (nd_setSize [16, 0]) = None"
  by (rule nd_addNetDest_empty_type [OF conjunct1 [OF nd_setSize_empty] conjunct1 [OF nd_setSize_empty],
        of 1]) simp_all

lemma nd_getAllDest_nodes_witness:
  "sorted_wrt (<) (nd_getAllDest [16, 8, 2] sample_dest) \<and>
   set (nd_getAllDest [16, 8, 2] sample_dest) =
     {base_number [16, 8, 2] t + n |t n. (t, n) \<in> nd_elems sample_dest}"
  by (rule nd_getAllDest_nodes [OF sample_dest_invar])

end
