(* ===== verification/Ruby_Address.thy ===== *)
theory Ruby_Address
  imports Prelude
begin

text \<open>
  \<open>common/util.C\<close>, \<open>ruby_clean/common/Address.h\<close> and \<open>ruby_clean/config/RubyConfig\<close>:
  the string and logarithm helpers, bit fields of 64-bit addresses, and the check and
  derivation of the configuration.  Bit positions are C \<open>int\<close>s and are modelled by \<open>int\<close>; a
  shift by a negative amount or by the width of the operand is undefined in C and is
  modelled as an abort, like a failed \<open>assert\<close>.
\<close>

section \<open>Helpers of util.C\<close>

primrec string_split :: "string \<Rightarrow> char \<Rightarrow> string \<times> string" where
  "string_split [] split_character = ([], [])"
| "string_split (c # str) split_character =
     (if c = split_character then ([], str)
      else (case string_split str split_character of (head, tail) \<Rightarrow> (c # head, tail)))"

definition bool_to_string :: "bool \<Rightarrow> string" where
  "bool_to_string value = (if value then ''true'' else ''false'')"

function log_int_loop :: "int \<Rightarrow> int \<Rightarrow> int" where
  "log_int_loop n counter =
     (if n \<ge> 2 then log_int_loop (drop_bit 1 n) (counter + 1) else counter)"
  by auto
termination
  by (relation "measure (\<lambda>(n, counter). nat n)") (auto simp: drop_bit_eq_div)

declare log_int_loop.simps [simp del]

definition log_int :: "int \<Rightarrow> int option" where
  "log_int n = do { assert_that (n > 0); Some (log_int_loop n 0) }"

definition is_power_of_2 :: "int \<Rightarrow> bool option" where
  "is_power_of_2 n = do { k \<leftarrow> log_int n; Some (n = push_bit (nat k) 1) }"

section \<open>Bit fields of an address\<close>

definition shift_defined :: "int \<Rightarrow> bool" where
  "shift_defined k \<longleftrightarrow> 0 \<le> k \<and> k < 64"

definition bitSelect :: "physical_address_t \<Rightarrow> int \<Rightarrow> int \<Rightarrow> physical_address_t option" where
  "bitSelect m_address small big = do {
     assert_that (big \<ge> small);
     assert_that (shift_defined small);
     if big \<ge> ADDRESS_WIDTH - 1 then Some (drop_bit (nat small) m_address)
     else let mask = NOT (push_bit (nat (big + 1)) (NOT 0));
              partial = m_address AND mask
          in Some (drop_bit (nat small) partial)
   }"

definition maskLowOrderBits :: "physical_address_t \<Rightarrow> int \<Rightarrow> physical_address_t option" where
  "maskLowOrderBits m_address number =
     (if number \<ge> ADDRESS_WIDTH - 1 then Some (m_address AND NOT 0)
      else do { assert_that (shift_defined number);
                Some (m_address AND push_bit (nat number) (NOT 0)) })"

definition maskHighOrderBits :: "physical_address_t \<Rightarrow> int \<Rightarrow> physical_address_t option" where
  "maskHighOrderBits m_address number =
     (if number \<ge> ADDRESS_WIDTH - 1 then Some (m_address AND NOT 0)
      else do { assert_that (shift_defined number);
                Some (m_address AND drop_bit (nat number) (NOT 0)) })"

definition shiftLowOrderBits :: "physical_address_t \<Rightarrow> int \<Rightarrow> physical_address_t option" where
  "shiftLowOrderBits m_address number = do {
     assert_that (shift_defined number); Some (drop_bit (nat number) m_address) }"

section \<open>The configuration\<close>

record ruby_config =
  MEM_BUS_CYCLE_MULTIPLIER :: int
  BANKS_PER_RANK :: int
  RANKS_PER_DIMM :: int
  DIMMS_PER_CHANNEL :: int
  BANK_QUEUE_SIZE :: int
  BANK_BUSY_TIME :: int
  MEM_CTL_LATENCY :: int
  REFRESH_PERIOD :: int
  BASIC_BUS_BUSY_TIME :: int
  g_MEMORY_SIZE_BYTES :: int
  g_DATA_BLOCK_BYTES :: int
  g_PAGE_SIZE_BYTES :: int
  g_NUM_PROCESSORS :: int
  g_PROCS_PER_CHIP :: int
  g_NUM_SMT_THREADS :: int
  g_NUM_L2_BANKS :: int
  g_NUM_MEMORIES :: int
  L2_CACHE_NUM_SETS_BITS :: int
  L2_DIRECTORY_NUM_SETS_BITS :: int
  MAP_L2BANKS_TO_LOWEST_BITS :: bool
  g_MEMORY_SIZE_BITS :: int
  g_DATA_BLOCK_BITS :: int
  g_PAGE_SIZE_BITS :: int
  g_NUM_PROCESSORS_BITS :: int
  g_NUM_CHIPS :: int
  g_NUM_CHIP_BITS :: int
  g_NUM_L2_BANKS_BITS :: int
  g_NUM_L2_BANKS_PER_CHIP :: int
  g_NUM_L2_BANKS_PER_CHIP_BITS :: int
  g_NUM_MEMORIES_BITS :: int
  g_NUM_MEMORIES_PER_CHIP :: int
  g_PROCS_PER_CHIP_BITS :: int
  g_MEMORY_MODULE_BITS :: int
  g_MEMORY_MODULE_BLOCKS :: int

definition CHECK_POWER_OF_2 :: "int \<Rightarrow> unit option" where
  "CHECK_POWER_OF_2 n = do { p \<leftarrow> is_power_of_2 n; assert_that p }"

definition CHECK_ZERO :: "int \<Rightarrow> unit option" where
  "CHECK_ZERO n = assert_that (n = 0)"

definition CHECK_NON_ZERO :: "int \<Rightarrow> unit option" where
  "CHECK_NON_ZERO n = assert_that (n \<noteq> 0)"

text \<open>The body of \<open>RubyConfig::init\<close> in its four parts: the checks on the inputs, the
  defaults, the checks that the derived variables are still zero and the sizes are powers of
  two, and the derivation.  \<open>m_CMP\<close> is the flag of the generated class \<open>Protocol\<close>.\<close>

definition init_check_inputs :: "ruby_config \<Rightarrow> unit option" where
  "init_check_inputs c = do {
     CHECK_NON_ZERO (MEM_BUS_CYCLE_MULTIPLIER c);
     CHECK_NON_ZERO (BANKS_PER_RANK c);
     CHECK_NON_ZERO (RANKS_PER_DIMM c);
     CHECK_NON_ZERO (DIMMS_PER_CHANNEL c);
     CHECK_NON_ZERO (BANK_QUEUE_SIZE c);
     CHECK_NON_ZERO (BANK_BUSY_TIME c);
     CHECK_NON_ZERO (MEM_CTL_LATENCY c);
     CHECK_NON_ZERO (REFRESH_PERIOD c);
     CHECK_NON_ZERO (BASIC_BUS_BUSY_TIME c);
     CHECK_POWER_OF_2 (BANKS_PER_RANK c);
     CHECK_POWER_OF_2 (RANKS_PER_DIMM c);
     CHECK_POWER_OF_2 (DIMMS_PER_CHANNEL c);
     CHECK_NON_ZERO (g_MEMORY_SIZE_BYTES c);
     CHECK_NON_ZERO (g_DATA_BLOCK_BYTES c);
     CHECK_NON_ZERO (g_PAGE_SIZE_BYTES c);
     CHECK_NON_ZERO (g_NUM_PROCESSORS c);
     CHECK_NON_ZERO (g_PROCS_PER_CHIP c)
   }"

definition init_defaults :: "ruby_config \<Rightarrow> ruby_config" where
  "init_defaults c =
     (let c1 = (if g_NUM_SMT_THREADS c = 0 then c\<lparr>g_NUM_SMT_THREADS := 1\<rparr> else c)
      in (if g_NUM_L2_BANKS c1 = 0 then c1\<lparr>g_NUM_L2_BANKS := g_NUM_PROCESSORS c1\<rparr> else c1))"

definition init_check_derived :: "ruby_config \<Rightarrow> unit option" where
  "init_check_derived c = do {
     CHECK_ZERO (g_MEMORY_SIZE_BITS c);
     CHECK_ZERO (g_DATA_BLOCK_BITS c);
     CHECK_ZERO (g_PAGE_SIZE_BITS c);
     CHECK_ZERO (g_NUM_PROCESSORS_BITS c);
     CHECK_ZERO (g_NUM_CHIP_BITS c);
     CHECK_ZERO (g_NUM_L2_BANKS_BITS c);
     CHECK_ZERO (g_NUM_MEMORIES_BITS c);
     CHECK_ZERO (g_PROCS_PER_CHIP_BITS c);
     CHECK_ZERO (g_NUM_L2_BANKS_PER_CHIP c);
     CHECK_ZERO (g_NUM_L2_BANKS_PER_CHIP_BITS c);
     CHECK_ZERO (g_NUM_MEMORIES_BITS c);
     CHECK_ZERO (g_MEMORY_MODULE_BLOCKS c);
     CHECK_ZERO (g_MEMORY_MODULE_BITS c);
     (if g_NUM_MEMORIES c \<noteq> 0 then CHECK_ZERO (g_NUM_MEMORIES_PER_CHIP c) else Some ());
     CHECK_POWER_OF_2 (g_MEMORY_SIZE_BYTES c);
     CHECK_POWER_OF_2 (g_DATA_BLOCK_BYTES c);
     CHECK_POWER_OF_2 (g_NUM_PROCESSORS c);
     CHECK_POWER_OF_2 (g_NUM_L2_BANKS c);
     (if g_NUM_MEMORIES c \<noteq> 0 then CHECK_POWER_OF_2 (g_NUM_MEMORIES c) else Some ());
     CHECK_POWER_OF_2 (g_PROCS_PER_CHIP c)
   }"

definition init_derive :: "bool \<Rightarrow> ruby_config \<Rightarrow> ruby_config option" where
  "init_derive m_CMP c = do {
     assert_that (g_NUM_PROCESSORS c \<ge> g_PROCS_PER_CHIP c);
     let chips = g_NUM_PROCESSORS c div g_PROCS_PER_CHIP c;
     assert_that (g_NUM_L2_BANKS c \<ge> chips);
     let l2_per_chip = g_NUM_L2_BANKS c div chips;
     l2_per_chip_bits \<leftarrow> log_int l2_per_chip;
     assert_that (L2_CACHE_NUM_SETS_BITS c > l2_per_chip_bits);
     assert_that (L2_DIRECTORY_NUM_SETS_BITS c > l2_per_chip_bits);
     let mem_per_chip =
           (if g_NUM_MEMORIES c \<noteq> 0 \<and> chips > g_NUM_MEMORIES c then 1
            else g_NUM_MEMORIES c div chips);
     chip_bits \<leftarrow> log_int chips;
     memory_bits \<leftarrow> log_int (g_MEMORY_SIZE_BYTES c);
     block_bits \<leftarrow> log_int (g_DATA_BLOCK_BYTES c);
     page_bits \<leftarrow> log_int (g_PAGE_SIZE_BYTES c);
     proc_bits \<leftarrow> log_int (g_NUM_PROCESSORS c);
     l2_bits \<leftarrow> log_int (g_NUM_L2_BANKS c);
     mem_bits \<leftarrow> (if g_NUM_MEMORIES c \<noteq> 0 then log_int (g_NUM_MEMORIES c)
                  else Some (g_NUM_MEMORIES_BITS c));
     ppc_bits \<leftarrow> log_int (g_PROCS_PER_CHIP c);
     let module_bits = memory_bits - block_bits - mem_bits;
     assert_that (shift_defined module_bits);
     assert_that (\<not> (\<not> m_CMP \<and> g_PROCS_PER_CHIP c > 1));
     Some (c\<lparr> g_NUM_CHIPS := chips,
              g_NUM_L2_BANKS_PER_CHIP := l2_per_chip,
              L2_CACHE_NUM_SETS_BITS := L2_CACHE_NUM_SETS_BITS c - l2_per_chip_bits,
              L2_DIRECTORY_NUM_SETS_BITS := L2_DIRECTORY_NUM_SETS_BITS c - l2_per_chip_bits,
              g_NUM_MEMORIES_PER_CHIP := mem_per_chip,
              g_NUM_CHIP_BITS := chip_bits,
              g_MEMORY_SIZE_BITS := memory_bits,
              g_DATA_BLOCK_BITS := block_bits,
              g_PAGE_SIZE_BITS := page_bits,
              g_NUM_PROCESSORS_BITS := proc_bits,
              g_NUM_L2_BANKS_BITS := l2_bits,
              g_NUM_L2_BANKS_PER_CHIP_BITS := l2_per_chip_bits,
              g_NUM_MEMORIES_BITS := mem_bits,
              g_PROCS_PER_CHIP_BITS := ppc_bits,
              g_MEMORY_MODULE_BITS := module_bits,
              g_MEMORY_MODULE_BLOCKS := push_bit (nat module_bits) 1 \<rparr>)
   }"

definition RubyConfig_init :: "bool \<Rightarrow> ruby_config \<Rightarrow> ruby_config option" where
  "RubyConfig_init m_CMP c = do {
     init_check_inputs c;
     let c1 = init_defaults c;
     init_check_derived c1;
     init_derive m_CMP c1
   }"

definition L1CacheNumToL2Base :: "ruby_config \<Rightarrow> int \<Rightarrow> int" where
  "L1CacheNumToL2Base c L1CacheNum = L1CacheNum div g_PROCS_PER_CHIP c"

section \<open>What the helpers compute\<close>

lemma string_split_absent:
  "split_character \<notin> set str \<Longrightarrow> string_split str split_character = (str, [])"
  by (induction str) auto

lemma string_split_at:
  "split_character \<notin> set head \<Longrightarrow>
   string_split (head @ split_character # tail) split_character = (head, tail)"
  by (induction head) auto

lemma log_int_loop_add: "log_int_loop n (counter + k) = log_int_loop n counter + k"
proof (induction n counter arbitrary: k rule: log_int_loop.induct)
  case (1 n counter)
  show ?case
    using 1 [of k] by (subst (1 2) log_int_loop.simps) (simp add: algebra_simps)
qed

lemma log_int_loop_bounds:
  "n > 0 \<Longrightarrow> log_int_loop n 0 \<ge> 0 \<and> 2 ^ nat (log_int_loop n 0) \<le> n
             \<and> n < 2 ^ Suc (nat (log_int_loop n 0))"
proof (induction "nat n" arbitrary: n rule: less_induct)
  case less
  show ?case
  proof (cases "n \<ge> 2")
    case True
    let ?m = "n div 2" and ?k = "log_int_loop (n div 2) 0"
    have step: "log_int_loop n 0 = ?k + 1"
      using True log_int_loop_add [of ?m 0 1]
      by (subst log_int_loop.simps) (simp add: drop_bit_eq_div)
    have IH: "?k \<ge> 0" "2 ^ nat ?k \<le> ?m" "?m < 2 ^ Suc (nat ?k)"
      using less.hyps [of ?m] True by auto
    have e: "nat (?k + 1) = Suc (nat ?k)" using IH(1) by simp
    show ?thesis using IH unfolding step e by simp linarith
  next
    case False
    then have "n = 1" using less.prems by simp
    then show ?thesis by (simp add: log_int_loop.simps)
  qed
qed

lemma log_int_floor:
  "log_int n = Some k \<Longrightarrow> n > 0 \<and> k \<ge> 0 \<and> 2 ^ nat k \<le> n \<and> n < 2 ^ Suc (nat k)"
  using log_int_loop_bounds by (auto simp: log_int_def)

lemma log_int_power:
  assumes "k \<ge> 0"
  shows "log_int (2 ^ nat k) = Some k"
proof -
  obtain j where j: "log_int (2 ^ nat k) = Some j"
    by (simp add: log_int_def)
  have b: "j \<ge> 0" "(2::int) ^ nat j \<le> 2 ^ nat k" "(2::int) ^ nat k < 2 ^ Suc (nat j)"
    using log_int_floor [OF j] by auto
  have "nat j \<le> nat k" using b(2) by (rule power_le_imp_le_exp [rotated]) simp
  moreover have "nat k < Suc (nat j)" using b(3) by (rule power_less_imp_less_exp [rotated]) simp
  ultimately have "j = k" using b(1) assms by linarith
  then show ?thesis using j by simp
qed

lemma is_power_of_2_eq:
  "is_power_of_2 n = (if n > 0 then Some (\<exists>k. n = 2 ^ k) else None)"
proof (cases "n > 0")
  case True
  have "n = 2 ^ nat (log_int_loop n 0)" if "n = 2 ^ k" for k :: nat
    using log_int_power [of "int k"] that by (auto simp: log_int_def)
  then show ?thesis using True
    by (auto simp: is_power_of_2_def log_int_def push_bit_eq_mult)
qed (simp add: is_power_of_2_def log_int_def)

lemma CHECK_POWER_OF_2_Some [simp]:
  "CHECK_POWER_OF_2 n = Some u \<longleftrightarrow> n > 0 \<and> (\<exists>k. n = 2 ^ k)"
  by (auto simp: CHECK_POWER_OF_2_def is_power_of_2_eq)

lemma CHECK_ZERO_Some [simp]: "CHECK_ZERO n = Some u \<longleftrightarrow> n = 0"
  by (simp add: CHECK_ZERO_def)

lemma CHECK_NON_ZERO_Some [simp]: "CHECK_NON_ZERO n = Some u \<longleftrightarrow> n \<noteq> 0"
  by (simp add: CHECK_NON_ZERO_def)

section \<open>What the bit fields are\<close>

lemma bitSelect_Some_iff:
  "(\<exists>r. bitSelect a small big = Some r) \<longleftrightarrow> 0 \<le> small \<and> small < 64 \<and> small \<le> big"
  by (auto simp: bitSelect_def shift_defined_def abort_simps Let_def)

lemma and_mask_take_bit:
  "w AND NOT (push_bit k (NOT 0)) = take_bit k w" for w :: "64 word"
  by (rule bit_eqI) (auto simp: bit_simps)

lemma bitSelect_eq:
  assumes "0 \<le> small" "small < 64" "small \<le> big"
  shows "bitSelect a small big
       = Some (take_bit (nat (big + 1 - small)) (drop_bit (nat small) a))"
proof (cases "big \<ge> 63")
  case True
  have "take_bit (nat (big + 1 - small)) (drop_bit (nat small) a) = drop_bit (nat small) a"
    using True assms by (intro bit_eqI) (auto simp: bit_simps dest: bit_imp_le_length)
  then show ?thesis using True assms
    by (simp add: bitSelect_def ADDRESS_WIDTH_def shift_defined_def)
next
  case False
  have "drop_bit (nat small) (take_bit (nat (big + 1)) a)
      = take_bit (nat (big + 1 - small)) (drop_bit (nat small) a)"
    using assms by (simp add: drop_bit_take_bit nat_diff_distrib')
  moreover have "bitSelect a small big
      = Some (drop_bit (nat small) (a AND NOT (push_bit (nat (big + 1)) (NOT 0))))"
    using False assms by (simp add: bitSelect_def ADDRESS_WIDTH_def shift_defined_def Let_def)
  ultimately show ?thesis unfolding and_mask_take_bit by simp
qed

lemma bitSelect_unat:
  assumes "bitSelect a small big = Some r"
  shows "unat r = (unat a div 2 ^ nat small) mod 2 ^ nat (big + 1 - small)"
  using assms bitSelect_eq [of small big a] bitSelect_Some_iff [of a small big]
  by (auto simp: unat_take_bit unat_drop_bit)

lemma maskLowOrderBits_eq:
  assumes "0 \<le> number" "number < 63"
  shows "maskLowOrderBits a number = Some (push_bit (nat number) (drop_bit (nat number) a))"
proof -
  have "a AND push_bit (nat number) (NOT 0) = push_bit (nat number) (drop_bit (nat number) a)"
    by (rule bit_eqI) (auto simp: bit_simps)
  then show ?thesis using assms
    by (simp add: maskLowOrderBits_def ADDRESS_WIDTH_def shift_defined_def)
qed

end
