(* ===== verification/Component_Mapping.thy ===== *)
theory Component_Mapping
  imports Ruby_Address
begin

text \<open>
  The address methods of \<open>Address.h\<close> that read the configuration and the mapping functions
  of \<open>RubySlicc_ComponentMapping.h\<close>: which line, offset, cache set, L2 bank and home
  directory an address belongs to.  \<open>config_ok\<close> is what \<open>RubyConfig::init\<close>
  establishes; under it the mapping functions never abort.
\<close>

section \<open>Address methods\<close>

definition getLineAddress :: "ruby_config \<Rightarrow> physical_address_t \<Rightarrow> physical_address_t option" where
  "getLineAddress c a = bitSelect a (g_DATA_BLOCK_BITS c) ADDRESS_WIDTH"

definition getOffset :: "ruby_config \<Rightarrow> physical_address_t \<Rightarrow> physical_address_t option" where
  "getOffset c a = bitSelect a 0 (g_DATA_BLOCK_BITS c - 1)"

definition makeLineAddress :: "ruby_config \<Rightarrow> physical_address_t \<Rightarrow> physical_address_t option" where
  "makeLineAddress c a = maskLowOrderBits a (g_DATA_BLOCK_BITS c)"

definition makeNextStrideAddress ::
    "ruby_config \<Rightarrow> physical_address_t \<Rightarrow> int \<Rightarrow> physical_address_t option" where
  "makeNextStrideAddress c a stride = do {
     l \<leftarrow> maskLowOrderBits a (g_DATA_BLOCK_BITS c);
     Some (l + word_of_int (g_DATA_BLOCK_BYTES c * stride)) }"

definition makePageAddress :: "ruby_config \<Rightarrow> physical_address_t \<Rightarrow> physical_address_t option" where
  "makePageAddress c a = maskLowOrderBits a (g_PAGE_SIZE_BITS c)"

definition setOffset :: "ruby_config \<Rightarrow> physical_address_t \<Rightarrow> int \<Rightarrow> physical_address_t option" where
  "setOffset c a offset = do {
     l \<leftarrow> makeLineAddress c a; Some (l OR word_of_int offset) }"

definition line_address :: "ruby_config \<Rightarrow> physical_address_t \<Rightarrow> physical_address_t option" where
  "line_address c addr = makeLineAddress c addr"

definition is_line :: "ruby_config \<Rightarrow> physical_address_t \<Rightarrow> bool" where
  "is_line c address \<longleftrightarrow> line_address c address = Some address"

definition next_stride_address ::
    "ruby_config \<Rightarrow> physical_address_t \<Rightarrow> int \<Rightarrow> physical_address_t option" where
  "next_stride_address c addr stride = do {
     temp \<leftarrow> makeNextStrideAddress c addr stride;
     maskHighOrderBits temp (ADDRESS_WIDTH - g_MEMORY_SIZE_BITS c) }"

definition page_address :: "ruby_config \<Rightarrow> physical_address_t \<Rightarrow> physical_address_t option" where
  "page_address c addr = makePageAddress c addr"

definition memoryModuleIndex :: "ruby_config \<Rightarrow> physical_address_t \<Rightarrow> int option" where
  "memoryModuleIndex c a = do {
     sel \<leftarrow> bitSelect a (g_DATA_BLOCK_BITS c + g_NUM_MEMORIES_BITS c) ADDRESS_WIDTH;
     let index = sint sel;
     assert_that (index \<ge> 0);
     assert_that (index < g_MEMORY_MODULE_BLOCKS c);
     Some index }"

section \<open>Mapping functions\<close>

datatype MachineType = MachineType_L1Cache | MachineType_L2Cache | MachineType_Directory
  | MachineType_NUM

record MachineID =
  mach_type :: MachineType
  mach_num :: NodeID

text \<open>An unsigned 64-bit value stored into a C \<open>int\<close>.\<close>

definition to_int32 :: "64 word \<Rightarrow> int" where
  "to_int32 w = sint (ucast w :: 32 word)"

definition map_address_to_L1CacheSet :: "ruby_config \<Rightarrow> physical_address_t \<Rightarrow> int \<Rightarrow> int option" where
  "map_address_to_L1CacheSet c addr cache_num_set_bits =
     map_option to_int32 (bitSelect addr (g_DATA_BLOCK_BITS c)
                                         (g_DATA_BLOCK_BITS c + cache_num_set_bits - 1))"

definition map_address_to_L2CacheSet :: "ruby_config \<Rightarrow> physical_address_t \<Rightarrow> int \<Rightarrow> int option" where
  "map_address_to_L2CacheSet c addr cache_num_set_bits = map_option to_int32
     (if MAP_L2BANKS_TO_LOWEST_BITS c then
        bitSelect addr (g_DATA_BLOCK_BITS c + g_NUM_L2_BANKS_PER_CHIP_BITS c)
          (g_DATA_BLOCK_BITS c + g_NUM_L2_BANKS_PER_CHIP_BITS c + cache_num_set_bits - 1)
      else bitSelect addr (g_DATA_BLOCK_BITS c)
             (g_DATA_BLOCK_BITS c + cache_num_set_bits - 1))"

text \<open>The computation of \<open>L2bank\<close>, with its two asserts, that
  \<open>map_L1CacheMachId_to_L2Cache\<close> and \<open>map_L2ChipId_to_L2Cache\<close> share.\<close>

definition L2bank :: "ruby_config \<Rightarrow> physical_address_t \<Rightarrow> int option" where
  "L2bank c addr = do {
     bank \<leftarrow> (if g_NUM_L2_BANKS_PER_CHIP_BITS c > 0 then map_option to_int32
       (if MAP_L2BANKS_TO_LOWEST_BITS c then
          bitSelect addr (g_DATA_BLOCK_BITS c)
            (g_DATA_BLOCK_BITS c + g_NUM_L2_BANKS_PER_CHIP_BITS c - 1)
        else bitSelect addr (g_DATA_BLOCK_BITS c + L2_CACHE_NUM_SETS_BITS c)
            (g_DATA_BLOCK_BITS c + L2_CACHE_NUM_SETS_BITS c
               + g_NUM_L2_BANKS_PER_CHIP_BITS c - 1))
       else Some 0);
     assert_that (bank < g_NUM_L2_BANKS_PER_CHIP c);
     assert_that (bank \<ge> 0);
     Some bank }"

definition map_L1CacheMachId_to_L2Cache ::
    "ruby_config \<Rightarrow> physical_address_t \<Rightarrow> MachineID \<Rightarrow> MachineID option" where
  "map_L1CacheMachId_to_L2Cache c addr L1CacheMachId = do {
     bank \<leftarrow> L2bank c addr;
     let num = L1CacheNumToL2Base c (mach_num L1CacheMachId) * g_NUM_L2_BANKS_PER_CHIP c + bank;
     assert_that (num < g_NUM_L2_BANKS c);
     Some \<lparr> mach_type = MachineType_L2Cache, mach_num = num \<rparr> }"

definition map_L2ChipId_to_L2Cache ::
    "ruby_config \<Rightarrow> physical_address_t \<Rightarrow> NodeID \<Rightarrow> MachineID option" where
  "map_L2ChipId_to_L2Cache c addr L2ChipId = do {
     assert_that (L2ChipId < g_NUM_CHIPS c);
     bank \<leftarrow> L2bank c addr;
     let num = L2ChipId * g_NUM_L2_BANKS_PER_CHIP c + bank;
     assert_that (num < g_NUM_L2_BANKS c);
     Some \<lparr> mach_type = MachineType_L2Cache, mach_num = num \<rparr> }"

definition map_Address_to_DirectoryNode :: "ruby_config \<Rightarrow> physical_address_t \<Rightarrow> NodeID option" where
  "map_Address_to_DirectoryNode c addr = do {
     dirNode \<leftarrow> (if g_NUM_MEMORIES_BITS c > 0 then map_option to_int32
                   (bitSelect addr (g_DATA_BLOCK_BITS c)
                      (g_DATA_BLOCK_BITS c + g_NUM_MEMORIES_BITS c - 1))
                 else Some 0);
     assert_that (dirNode < g_NUM_MEMORIES c);
     assert_that (dirNode \<ge> 0);
     Some dirNode }"

definition map_Address_to_Directory :: "ruby_config \<Rightarrow> physical_address_t \<Rightarrow> MachineID option" where
  "map_Address_to_Directory c addr = do {
     n \<leftarrow> map_Address_to_DirectoryNode c addr;
     Some \<lparr> mach_type = MachineType_Directory, mach_num = n \<rparr> }"

definition isL1OnChip :: "MachineID \<Rightarrow> NodeID \<Rightarrow> bool" where
  "isL1OnChip m n = (if mach_type m = MachineType_L1Cache then mach_num m = n else False)"

definition isL2OnChip :: "MachineID \<Rightarrow> NodeID \<Rightarrow> bool" where
  "isL2OnChip m n = (if mach_type m = MachineType_L2Cache then mach_num m = n else False)"

definition closest_clockwise_distance :: "ruby_config \<Rightarrow> NodeID \<Rightarrow> NodeID \<Rightarrow> NodeID" where
  "closest_clockwise_distance c this_node next_node =
     (if this_node \<le> next_node then next_node - this_node
      else next_node - this_node + g_NUM_CHIPS c)"

definition closer_clockwise_processor :: "ruby_config \<Rightarrow> NodeID \<Rightarrow> NodeID \<Rightarrow> NodeID \<Rightarrow> bool" where
  "closer_clockwise_processor c this_node newer older \<longleftrightarrow>
     closest_clockwise_distance c this_node newer < closest_clockwise_distance c this_node older"

text \<open>The loop of \<open>isLocalProcessor\<close> compares every node of the chip with the target.\<close>

definition isLocalProcessor :: "ruby_config \<Rightarrow> MachineID \<Rightarrow> MachineID \<Rightarrow> bool" where
  "isLocalProcessor c thisId tarID =
     (let start = (mach_num thisId div g_PROCS_PER_CHIP c) * g_PROCS_PER_CHIP c
      in list_ex (\<lambda>i. i = mach_num tarID) [start .. start + g_PROCS_PER_CHIP c - 1])"

definition L2CacheMachIDToChipID :: "ruby_config \<Rightarrow> MachineID \<Rightarrow> NodeID option" where
  "L2CacheMachIDToChipID c machID = do {
     assert_that (mach_type machID = MachineType_L2Cache);
     Some (mach_num machID div g_NUM_L2_BANKS_PER_CHIP c) }"

section \<open>What RubyConfig::init establishes\<close>

definition pow2_of :: "int \<Rightarrow> int \<Rightarrow> bool" where
  "pow2_of n k \<longleftrightarrow> 0 \<le> k \<and> n = 2 ^ nat k"

definition config_ok :: "ruby_config \<Rightarrow> bool" where
  "config_ok c \<longleftrightarrow>
     pow2_of (g_DATA_BLOCK_BYTES c) (g_DATA_BLOCK_BITS c) \<and> g_DATA_BLOCK_BITS c \<le> 30 \<and>
     pow2_of (g_MEMORY_SIZE_BYTES c) (g_MEMORY_SIZE_BITS c) \<and> g_MEMORY_SIZE_BITS c \<le> 62 \<and>
     pow2_of (g_NUM_PROCESSORS c) (g_NUM_PROCESSORS_BITS c) \<and>
     pow2_of (g_PROCS_PER_CHIP c) (g_PROCS_PER_CHIP_BITS c) \<and>
     pow2_of (g_NUM_CHIPS c) (g_NUM_CHIP_BITS c) \<and>
     g_NUM_PROCESSORS c = g_NUM_CHIPS c * g_PROCS_PER_CHIP c \<and>
     pow2_of (g_NUM_L2_BANKS c) (g_NUM_L2_BANKS_BITS c) \<and>
     pow2_of (g_NUM_L2_BANKS_PER_CHIP c) (g_NUM_L2_BANKS_PER_CHIP_BITS c) \<and>
     g_NUM_L2_BANKS_PER_CHIP_BITS c \<le> 30 \<and>
     g_NUM_L2_BANKS c = g_NUM_CHIPS c * g_NUM_L2_BANKS_PER_CHIP c \<and>
     L2_CACHE_NUM_SETS_BITS c > 0 \<and> L2_DIRECTORY_NUM_SETS_BITS c > 0 \<and>
     (if g_NUM_MEMORIES c = 0 then g_NUM_MEMORIES_BITS c = 0
      else pow2_of (g_NUM_MEMORIES c) (g_NUM_MEMORIES_BITS c)) \<and>
     g_NUM_MEMORIES_BITS c \<le> 30 \<and>
     pow2_of (g_MEMORY_MODULE_BLOCKS c) (g_MEMORY_MODULE_BITS c) \<and>
     g_MEMORY_SIZE_BITS c = g_DATA_BLOCK_BITS c + g_NUM_MEMORIES_BITS c + g_MEMORY_MODULE_BITS c"

text \<open>The variables that \<open>init\<close> reads hold C \<open>int\<close>s, the memory size a 64-bit integer.\<close>

definition config_in_range :: "ruby_config \<Rightarrow> bool" where
  "config_in_range c \<longleftrightarrow>
     g_MEMORY_SIZE_BYTES c < 2 ^ 63 \<and> g_DATA_BLOCK_BYTES c < 2 ^ 31 \<and>
     g_NUM_PROCESSORS c < 2 ^ 31 \<and> g_NUM_L2_BANKS c < 2 ^ 31 \<and> g_NUM_MEMORIES c < 2 ^ 31"

lemma pow2_of_log_int: "\<lbrakk> log_int n = Some k; \<exists>j. n = 2 ^ j \<rbrakk> \<Longrightarrow> pow2_of n k"
  using log_int_power log_int_floor unfolding pow2_of_def
  by (metis nat_int of_nat_0_le_iff option.inject)

lemma pow2_of_less: "\<lbrakk> pow2_of n k; n < 2 ^ m \<rbrakk> \<Longrightarrow> k < int m"
  unfolding pow2_of_def by (auto dest: power_less_imp_less_exp [rotated])

lemma pow2_divide:
  fixes m n :: int
  assumes "m = 2 ^ i" "n = 2 ^ j" "n \<le> m"
  shows "m = (m div n) * n" "\<exists>l. m div n = 2 ^ l"
proof -
  have "j \<le> i" using assms by (simp add: power_le_imp_le_exp)
  then obtain l where "i = l + j" using le_iff_add by (metis add.commute)
  then show "m = (m div n) * n" "\<exists>l. m div n = 2 ^ l"
    using assms by (auto simp: power_add)
qed

text \<open>The facts that the checks of \<open>init\<close> leave behind, one lemma per part.\<close>

lemma init_check_derived_SomeD:
  assumes "init_check_derived c = Some u"
  shows "g_NUM_MEMORIES_BITS c = 0"
    and "\<exists>j. g_MEMORY_SIZE_BYTES c = 2 ^ j" and "\<exists>j. g_DATA_BLOCK_BYTES c = 2 ^ j"
    and "\<exists>j. g_NUM_PROCESSORS c = 2 ^ j" and "\<exists>j. g_NUM_L2_BANKS c = 2 ^ j"
    and "g_NUM_MEMORIES c \<noteq> 0 \<Longrightarrow> \<exists>j. g_NUM_MEMORIES c = 2 ^ j"
    and "\<exists>j. g_PROCS_PER_CHIP c = 2 ^ j"
  using assms by (auto simp: init_check_derived_def bind_Some_iff split: if_splits)

lemma init_defaults_in_range:
  "config_in_range c \<Longrightarrow> config_in_range (init_defaults c)"
  by (auto simp: config_in_range_def init_defaults_def Let_def)

lemma init_derive_ok:
  assumes d: "init_derive m_CMP c = Some c'"
    and mb: "g_NUM_MEMORIES_BITS c = 0"
    and p: "\<exists>j. g_MEMORY_SIZE_BYTES c = 2 ^ j" "\<exists>j. g_DATA_BLOCK_BYTES c = 2 ^ j"
      "\<exists>j. g_NUM_PROCESSORS c = 2 ^ j" "\<exists>j. g_NUM_L2_BANKS c = 2 ^ j"
      "\<exists>j. g_PROCS_PER_CHIP c = 2 ^ j"
    and m: "g_NUM_MEMORIES c \<noteq> 0 \<Longrightarrow> \<exists>j. g_NUM_MEMORIES c = 2 ^ j"
    and r: "config_in_range c"
  shows "config_ok c'"
proof -
  let ?chips = "g_NUM_PROCESSORS c div g_PROCS_PER_CHIP c"
  let ?l2 = "g_NUM_L2_BANKS c div ?chips"
  obtain l2b cb sb bb pb nb lb memb ppb where
    le: "g_PROCS_PER_CHIP c \<le> g_NUM_PROCESSORS c" "?chips \<le> g_NUM_L2_BANKS c"
    and logs: "log_int ?l2 = Some l2b" "log_int ?chips = Some cb"
      "log_int (g_MEMORY_SIZE_BYTES c) = Some sb" "log_int (g_DATA_BLOCK_BYTES c) = Some bb"
      "log_int (g_NUM_PROCESSORS c) = Some nb" "log_int (g_NUM_L2_BANKS c) = Some lb"
      "log_int (g_PROCS_PER_CHIP c) = Some ppb"
    and mlog: "(if g_NUM_MEMORIES c \<noteq> 0 then log_int (g_NUM_MEMORIES c)
                else Some (g_NUM_MEMORIES_BITS c)) = Some memb"
    and sets: "l2b < L2_CACHE_NUM_SETS_BITS c" "l2b < L2_DIRECTORY_NUM_SETS_BITS c"
    and mod: "shift_defined (sb - bb - memb)"
    and c': "c' = c\<lparr> g_NUM_CHIPS := ?chips, g_NUM_L2_BANKS_PER_CHIP := ?l2,
              L2_CACHE_NUM_SETS_BITS := L2_CACHE_NUM_SETS_BITS c - l2b,
              L2_DIRECTORY_NUM_SETS_BITS := L2_DIRECTORY_NUM_SETS_BITS c - l2b,
              g_NUM_MEMORIES_PER_CHIP := (if g_NUM_MEMORIES c \<noteq> 0 \<and> ?chips > g_NUM_MEMORIES c
                 then 1 else g_NUM_MEMORIES c div ?chips),
              g_NUM_CHIP_BITS := cb, g_MEMORY_SIZE_BITS := sb, g_DATA_BLOCK_BITS := bb,
              g_PAGE_SIZE_BITS := pb, g_NUM_PROCESSORS_BITS := nb, g_NUM_L2_BANKS_BITS := lb,
              g_NUM_L2_BANKS_PER_CHIP_BITS := l2b, g_NUM_MEMORIES_BITS := memb,
              g_PROCS_PER_CHIP_BITS := ppb, g_MEMORY_MODULE_BITS := sb - bb - memb,
              g_MEMORY_MODULE_BLOCKS := push_bit (nat (sb - bb - memb)) 1 \<rparr>"
    using d unfolding init_derive_def Let_def bind_Some_iff assert_that_Some option.inject
    by blast
  have chips: "g_NUM_PROCESSORS c = ?chips * g_PROCS_PER_CHIP c" "\<exists>j. ?chips = 2 ^ j"
    using pow2_divide p(3,5) le(1) by blast+
  have l2: "g_NUM_L2_BANKS c = ?l2 * ?chips" "\<exists>j. ?l2 = 2 ^ j"
    using pow2_divide p(4) chips(2) le(2) by blast+
  have l2_le: "?l2 \<le> g_NUM_L2_BANKS c" 
    using chips(2) p(4) zdiv_mono2 [of "g_NUM_L2_BANKS c" 1 ?chips] by auto
  have bits: "pow2_of (g_DATA_BLOCK_BYTES c) bb" "pow2_of (g_MEMORY_SIZE_BYTES c) sb"
    "pow2_of (g_NUM_PROCESSORS c) nb" "pow2_of (g_PROCS_PER_CHIP c) ppb" "pow2_of ?chips cb"
    "pow2_of (g_NUM_L2_BANKS c) lb" "pow2_of ?l2 l2b"
    using logs pow2_of_log_int p chips(2) l2(2) by blast+
  have memb: "if g_NUM_MEMORIES c = 0 then memb = 0 else pow2_of (g_NUM_MEMORIES c) memb"
    using mlog mb m pow2_of_log_int by (auto split: if_splits)
  have r30: "bb < 31" "sb < 63" "l2b < 31" "memb < 31"
    using r pow2_of_less [OF bits(1), of 31] pow2_of_less [OF bits(2), of 63]
      pow2_of_less [OF bits(7), of 31] l2_le memb pow2_of_less [of "g_NUM_MEMORIES c" memb 31]
    by (auto simp: config_in_range_def split: if_splits)
  have "pow2_of (2 ^ nat (sb - bb - memb)) (sb - bb - memb)"
    using mod by (simp add: pow2_of_def shift_defined_def)
  then show ?thesis
    unfolding config_ok_def c'
    using bits memb r30 mod sets chips(1) l2(1)
    by (auto simp add: mult.commute)
qed

lemma RubyConfig_init_config_ok:
  assumes "RubyConfig_init m_CMP c = Some c'" "config_in_range c"
  shows "config_ok c'"
proof -
  obtain u where "init_check_derived (init_defaults c) = Some u"
    and "init_derive m_CMP (init_defaults c) = Some c'"
    using assms(1) by (auto simp: RubyConfig_init_def bind_Some_iff Let_def)
  then show ?thesis
    using init_check_derived_SomeD init_derive_ok init_defaults_in_range [OF assms(2)] by blast
qed

text \<open>The page size is not checked: its bit count is that of the largest power of two in it.\<close>

lemma RubyConfig_init_page_bits:
  assumes "RubyConfig_init m_CMP c = Some c'"
  shows "g_PAGE_SIZE_BYTES c' = g_PAGE_SIZE_BYTES c" "log_int (g_PAGE_SIZE_BYTES c) = Some (g_PAGE_SIZE_BITS c')"
proof -
  have d: "init_derive m_CMP (init_defaults c) = Some c'" using assms by (auto simp: RubyConfig_init_def bind_Some_iff Let_def)
  have "g_PAGE_SIZE_BYTES (init_defaults c) = g_PAGE_SIZE_BYTES c" by (simp add: init_defaults_def Let_def)
  moreover have "g_PAGE_SIZE_BYTES c' = g_PAGE_SIZE_BYTES (init_defaults c)" "log_int (g_PAGE_SIZE_BYTES (init_defaults c)) = Some (g_PAGE_SIZE_BITS c')"
    using d unfolding init_derive_def Let_def bind_Some_iff by auto
  ultimately show "g_PAGE_SIZE_BYTES c' = g_PAGE_SIZE_BYTES c" "log_int (g_PAGE_SIZE_BYTES c) = Some (g_PAGE_SIZE_BITS c')" by simp_all
qed

section \<open>Lines, offsets and homes\<close>

lemma config_ok_block_bits:
  "config_ok c \<Longrightarrow> 0 \<le> g_DATA_BLOCK_BITS c \<and> g_DATA_BLOCK_BITS c \<le> 30"
  by (simp add: config_ok_def pow2_of_def)

lemma line_address_eq:
  assumes "config_ok c"
  shows "line_address c a = Some (push_bit (nat (g_DATA_BLOCK_BITS c))
                                   (drop_bit (nat (g_DATA_BLOCK_BITS c)) a))"
  using config_ok_block_bits [OF assms]
  by (simp add: line_address_def makeLineAddress_def maskLowOrderBits_eq)

lemma getLineAddress_eq:
  "config_ok c \<Longrightarrow> getLineAddress c a = Some (drop_bit (nat (g_DATA_BLOCK_BITS c)) a)"
  using config_ok_block_bits [of c]
  by (simp add: getLineAddress_def bitSelect_def ADDRESS_WIDTH_def shift_defined_def)

lemma getOffset_eq:
  "\<lbrakk> config_ok c; g_DATA_BLOCK_BITS c > 0 \<rbrakk>
   \<Longrightarrow> getOffset c a = Some (take_bit (nat (g_DATA_BLOCK_BITS c)) a)"
  using config_ok_block_bits [of c] by (simp add: getOffset_def bitSelect_eq)

lemma to_int32_small:
  assumes "unat w < 2 ^ 31"
  shows "to_int32 w = int (unat w)"
proof -
  have "int (unat w) < int (2 ^ 31)" using assms by (simp only: of_nat_less_iff)
  then have u: "uint w < 2 ^ 31" by simp
  have "uint (ucast w :: 32 word) = uint w"
    unfolding unsigned_ucast_eq using u by (subst take_bit_int_eq_self) auto
  then have "sint (ucast w :: 32 word) = uint w"
    unfolding sint_uint using u order_trans [of "- 2147483648" 0 "uint w"]
    by (subst signed_take_bit_int_eq_self) simp_all
  then show ?thesis by (simp add: to_int32_def)
qed

text \<open>A bit field of \<open>k\<close> bits read into an \<open>int\<close>.\<close>

lemma bitSelect_to_int32:
  assumes "0 \<le> small" "small < 64" "0 < k" "k \<le> 31"
  shows "map_option to_int32 (bitSelect a small (small + k - 1))
       = Some (int ((unat a div 2 ^ nat small) mod 2 ^ nat k))"
proof -
  have u: "unat (take_bit (nat k) (drop_bit (nat small) a))
         = (unat a div 2 ^ nat small) mod 2 ^ nat k"
    by (simp add: unat_take_bit unat_drop_bit)
  have "(unat a div 2 ^ nat small) mod 2 ^ nat k < (2::nat) ^ nat k" by simp
  also have "\<dots> \<le> 2 ^ 31" using assms by (intro power_increasing) auto
  finally show ?thesis using assms u
    by (simp add: bitSelect_eq to_int32_small)
qed

lemma map_Address_to_DirectoryNode_eq:
  assumes "config_ok c" "g_NUM_MEMORIES c \<noteq> 0"
  shows "map_Address_to_DirectoryNode c a
       = Some (int ((unat a div 2 ^ nat (g_DATA_BLOCK_BITS c)) mod nat (g_NUM_MEMORIES c)))"
proof -
  have m: "g_NUM_MEMORIES c = 2 ^ nat (g_NUM_MEMORIES_BITS c)" "0 \<le> g_NUM_MEMORIES_BITS c"
    "g_NUM_MEMORIES_BITS c \<le> 30"
    using assms by (auto simp: config_ok_def pow2_of_def)
  have n: "nat (g_NUM_MEMORIES c) = 2 ^ nat (g_NUM_MEMORIES_BITS c)"
    unfolding m(1) by (simp add: nat_power_eq)
  have lt: "int ((unat a div 2 ^ nat (g_DATA_BLOCK_BITS c)) mod nat (g_NUM_MEMORIES c))
             < g_NUM_MEMORIES c"
    unfolding n by (subst m(1)) (rule int_mod_2_power_less)
  show ?thesis
  proof (cases "g_NUM_MEMORIES_BITS c > 0")
    case True
    then show ?thesis
      using config_ok_block_bits [OF assms(1)] m(3) lt n
      by (simp add: map_Address_to_DirectoryNode_def bitSelect_to_int32 nat_power_eq)
  next
    case False
    then have "g_NUM_MEMORIES c = 1" using m by simp
    then show ?thesis using False by (simp add: map_Address_to_DirectoryNode_def)
  qed
qed

lemma L2bank_total:
  assumes "config_ok c" "L2_CACHE_NUM_SETS_BITS c \<le> 32"
  shows "\<exists>b. L2bank c a = Some b \<and> 0 \<le> b \<and> b < g_NUM_L2_BANKS_PER_CHIP c"
proof -
  let ?k = "g_NUM_L2_BANKS_PER_CHIP_BITS c"
  have k: "0 \<le> ?k" "?k \<le> 30" "g_NUM_L2_BANKS_PER_CHIP c = 2 ^ nat ?k"
    using assms(1) by (auto simp: config_ok_def pow2_of_def)
  have s: "L2_CACHE_NUM_SETS_BITS c > 0" using assms(1) by (simp add: config_ok_def)
  have b: "0 \<le> g_DATA_BLOCK_BITS c" "g_DATA_BLOCK_BITS c \<le> 30"
    using config_ok_block_bits [OF assms(1)] by auto
  note lt = int_mod_2_power_less [of _ "nat ?k"]
  show ?thesis
  proof (cases "?k > 0")
    case True
    have "\<exists>x. L2bank c a = Some (int (x mod 2 ^ nat ?k))"
      using True b s assms(2) k lt
        bitSelect_to_int32 [of "g_DATA_BLOCK_BITS c + L2_CACHE_NUM_SETS_BITS c" ?k a]
      by (auto simp: L2bank_def bitSelect_to_int32 simp del: map_option_eq_Some)
    then show ?thesis using lt k(3) by auto
  next
    case False
    then show ?thesis using k by (simp add: L2bank_def)
  qed
qed

lemma block_times_chips:
  fixes i n b k :: int
  assumes "0 \<le> i" "i < n" "0 \<le> b" "b < k"
  shows "i * k + b < n * k" "(i * k + b) div k = i"
proof -
  have "i * k + b < i * k + k" using assms by simp
  also have "\<dots> = (i + 1) * k" by (simp add: algebra_simps)
  also have "\<dots> \<le> n * k" using assms by (intro mult_right_mono) auto
  finally show "i * k + b < n * k" .
  show "(i * k + b) div k = i" using assms by simp
qed

lemma map_L1CacheMachId_to_L2Cache_total:
  assumes ok: "config_ok c" "L2_CACHE_NUM_SETS_BITS c \<le> 32"
    and n: "0 \<le> mach_num m" "mach_num m < g_NUM_PROCESSORS c"
  shows "\<exists>r. map_L1CacheMachId_to_L2Cache c a m = Some r \<and> 0 \<le> mach_num r
           \<and> mach_num r < g_NUM_L2_BANKS c
           \<and> L2CacheMachIDToChipID c r = Some (mach_num m div g_PROCS_PER_CHIP c)"
proof -
  obtain b where b: "L2bank c a = Some b" "0 \<le> b" "b < g_NUM_L2_BANKS_PER_CHIP c"
    using L2bank_total [OF ok] by blast
  let ?chip = "mach_num m div g_PROCS_PER_CHIP c"
  have p: "g_PROCS_PER_CHIP c > 0" "g_NUM_PROCESSORS c = g_NUM_CHIPS c * g_PROCS_PER_CHIP c"
    and l: "g_NUM_L2_BANKS c = g_NUM_CHIPS c * g_NUM_L2_BANKS_PER_CHIP c"
    using ok(1) by (auto simp: config_ok_def pow2_of_def)
  have chip: "0 \<le> ?chip" "?chip < g_NUM_CHIPS c"
    using n p by (auto simp: pos_imp_zdiv_nonneg_iff intro: int_div_less)
  show ?thesis
    using b block_times_chips [OF chip b(2,3)] chip l
    by (auto simp: map_L1CacheMachId_to_L2Cache_def L1CacheNumToL2Base_def
        L2CacheMachIDToChipID_def Let_def)
qed

lemma memoryModuleIndex_eq:
  assumes "config_ok c" "memoryModuleIndex c a = Some i"
  shows "i = int (unat a div 2 ^ nat (g_DATA_BLOCK_BITS c) div 2 ^ nat (g_NUM_MEMORIES_BITS c))"
proof -
  let ?b = "g_DATA_BLOCK_BITS c" and ?m = "g_NUM_MEMORIES_BITS c"
  have b: "0 \<le> ?b" "?b \<le> 30" "0 \<le> ?m" "?m \<le> 30"
    using assms(1) by (auto simp: config_ok_def pow2_of_def split: if_splits)
  have e: "bitSelect a (?b + ?m) ADDRESS_WIDTH = Some (drop_bit (nat ?b + nat ?m) a)"
    using b by (simp add: bitSelect_def ADDRESS_WIDTH_def shift_defined_def nat_add_distrib)
  then have i: "i = sint (drop_bit (nat ?b + nat ?m) a)" "i \<ge> 0"
    using assms(2) by (auto simp: memoryModuleIndex_def Let_def)
  then have "i = int (unat (drop_bit (nat ?b + nat ?m) a))"
    using sint_nonneg_unat by metis
  then show ?thesis by (simp add: unat_drop_bit power_add div_mult2_eq)
qed

section \<open>Properties\<close>

text \<open>C36. A configuration that passes \<open>RubyConfig::init\<close> is consistent: the sizes of the memory, the block and a memory
  module and the numbers of processors, chips, L2 banks and memories (if there are any) are two to the power of their
  bit counts, the processors and L2 banks are split evenly over the chips, and a memory module holds exactly the blocks that
  the block and module bits leave.  The page size, which \<open>init\<close> does not check to be a power of two, is kept, and its
  bit count is that of the largest power of two that it contains.  The variables are in the ranges of their C types.\<close>

theorem RubyConfig_init_consistent:
  assumes "RubyConfig_init m_CMP c = Some c'" "config_in_range c"
  shows "config_ok c' \<and> g_PAGE_SIZE_BYTES c' = g_PAGE_SIZE_BYTES c \<and> g_PAGE_SIZE_BITS c' \<ge> 0 \<and>
    2 ^ nat (g_PAGE_SIZE_BITS c') \<le> g_PAGE_SIZE_BYTES c' \<and> g_PAGE_SIZE_BYTES c' < 2 ^ Suc (nat (g_PAGE_SIZE_BITS c'))"
proof -
  have "config_ok c'" using assms by (rule RubyConfig_init_config_ok)
  moreover have "g_PAGE_SIZE_BYTES c > 0" "g_PAGE_SIZE_BITS c' = log_int_loop (g_PAGE_SIZE_BYTES c) 0"
    using RubyConfig_init_page_bits(2) [OF assms(1)] by (simp_all add: log_int_def bind_Some_iff)
  ultimately show ?thesis using log_int_loop_bounds [of "g_PAGE_SIZE_BYTES c"] RubyConfig_init_page_bits(1) [OF assms(1)] by simp
qed

definition sample_config :: ruby_config where
  "sample_config = \<lparr> MEM_BUS_CYCLE_MULTIPLIER = 10, BANKS_PER_RANK = 8, RANKS_PER_DIMM = 2,
     DIMMS_PER_CHANNEL = 2, BANK_QUEUE_SIZE = 12, BANK_BUSY_TIME = 11, MEM_CTL_LATENCY = 20,
     REFRESH_PERIOD = 1560, BASIC_BUS_BUSY_TIME = 2, g_MEMORY_SIZE_BYTES = 4294967296,
     g_DATA_BLOCK_BYTES = 128, g_PAGE_SIZE_BYTES = 4096, g_NUM_PROCESSORS = 16,
     g_PROCS_PER_CHIP = 16, g_NUM_SMT_THREADS = 1, g_NUM_L2_BANKS = 8, g_NUM_MEMORIES = 8,
     L2_CACHE_NUM_SETS_BITS = 9, L2_DIRECTORY_NUM_SETS_BITS = 9,
     MAP_L2BANKS_TO_LOWEST_BITS = True, g_MEMORY_SIZE_BITS = 0, g_DATA_BLOCK_BITS = 0,
     g_PAGE_SIZE_BITS = 0, g_NUM_PROCESSORS_BITS = 0, g_NUM_CHIPS = 0, g_NUM_CHIP_BITS = 0,
     g_NUM_L2_BANKS_BITS = 0, g_NUM_L2_BANKS_PER_CHIP = 0, g_NUM_L2_BANKS_PER_CHIP_BITS = 0,
     g_NUM_MEMORIES_BITS = 0, g_NUM_MEMORIES_PER_CHIP = 0, g_PROCS_PER_CHIP_BITS = 0,
     g_MEMORY_MODULE_BITS = 0, g_MEMORY_MODULE_BLOCKS = 0 \<rparr>"

lemma RubyConfig_init_consistent_witness:
  "RubyConfig_init True sample_config \<noteq> None \<and>
   config_ok (the (RubyConfig_init True sample_config))"
proof -
  have "RubyConfig_init True sample_config \<noteq> None" by code_simp
  moreover have "config_in_range sample_config" by code_simp
  ultimately show ?thesis using RubyConfig_init_consistent [of True sample_config] by auto
qed

text \<open>C35. The home directory and the index inside its memory module identify a line: two
  addresses for which both mappings succeed agree on both exactly when they are on the same
  line.\<close>

theorem home_and_module_index_identify_line:
  assumes "config_ok c" "g_NUM_MEMORIES c \<noteq> 0"
    and "memoryModuleIndex c a = Some i" "memoryModuleIndex c b = Some j"
  shows "(map_Address_to_DirectoryNode c a = map_Address_to_DirectoryNode c b \<and> i = j)
     \<longleftrightarrow> line_address c a = line_address c b"
proof -
  let ?b = "nat (g_DATA_BLOCK_BITS c)" and ?m = "2 ^ nat (g_NUM_MEMORIES_BITS c) :: nat"
  let ?x = "unat a div 2 ^ ?b" and ?y = "unat b div 2 ^ ?b"
  have m: "nat (g_NUM_MEMORIES c) = ?m"
    using assms(1,2) by (simp add: config_ok_def pow2_of_def nat_power_eq)
  have ij: "i = int (?x div ?m)" "j = int (?y div ?m)"
    using memoryModuleIndex_eq [OF assms(1)] assms(3,4) by auto
  have "(map_Address_to_DirectoryNode c a = map_Address_to_DirectoryNode c b \<and> i = j)
      \<longleftrightarrow> ?x mod ?m = ?y mod ?m \<and> ?x div ?m = ?y div ?m"
    unfolding ij map_Address_to_DirectoryNode_eq [OF assms(1,2)] m by simp
  also have "\<dots> \<longleftrightarrow> ?x = ?y" by (metis div_mod_decomp)
  also have "\<dots> \<longleftrightarrow> drop_bit ?b a = drop_bit ?b b"
    by (simp add: word_unat_eq_iff unat_drop_bit)
  also have "\<dots> \<longleftrightarrow> line_address c a = line_address c b"
  proof -
    have "drop_bit ?b w = drop_bit ?b (push_bit ?b (drop_bit ?b w))" for w :: "64 word"
      by (rule bit_eqI) (auto simp: bit_simps dest: bit_imp_le_length)
    then show ?thesis unfolding line_address_eq [OF assms(1)] by (metis option.inject)
  qed
  finally show ?thesis .
qed

definition sample_config' :: ruby_config where
  "sample_config' = the (RubyConfig_init True sample_config)"

lemma sample_config'_ok: "config_ok sample_config'"
  by code_simp

lemma sample_line: "is_line sample_config' 0x1200"
  by code_simp

lemma home_and_module_index_identify_line_witness:
  "(map_Address_to_DirectoryNode sample_config' 0x1234 = map_Address_to_DirectoryNode sample_config' 0x1277
      \<and> (4::int) = 4)
     \<longleftrightarrow> line_address sample_config' 0x1234 = line_address sample_config' 0x1277"
proof -
  have "g_NUM_MEMORIES sample_config' \<noteq> 0" by code_simp
  moreover have "memoryModuleIndex sample_config' 0x1234 = Some 4" by code_simp
  moreover have "memoryModuleIndex sample_config' 0x1277 = Some 4" by code_simp
  ultimately show ?thesis
    using home_and_module_index_identify_line [OF sample_config'_ok] by blast
qed

text \<open>In a consistent configuration an L1 cache always finds its L2 bank: the mapping
  does not abort for any address, the bank number is in range and the bank is on the chip of
  the L1 cache.\<close>

theorem map_L1CacheMachId_to_L2Cache_in_range:
  assumes "config_ok c" "L2_CACHE_NUM_SETS_BITS c \<le> 32"
    and "0 \<le> mach_num m" "mach_num m < g_NUM_PROCESSORS c"
  shows "\<exists>r. map_L1CacheMachId_to_L2Cache c a m = Some r \<and> 0 \<le> mach_num r
           \<and> mach_num r < g_NUM_L2_BANKS c
           \<and> L2CacheMachIDToChipID c r = Some (mach_num m div g_PROCS_PER_CHIP c)"
  using assms by (rule map_L1CacheMachId_to_L2Cache_total)

lemma map_L1CacheMachId_to_L2Cache_in_range_witness:
  "\<exists>r. map_L1CacheMachId_to_L2Cache sample_config' 0x1234
          \<lparr> mach_type = MachineType_L1Cache, mach_num = 5 \<rparr> = Some r \<and> 0 \<le> mach_num r
     \<and> mach_num r < g_NUM_L2_BANKS sample_config'
     \<and> L2CacheMachIDToChipID sample_config' r = Some (5 div g_PROCS_PER_CHIP sample_config')"
proof -
  have "L2_CACHE_NUM_SETS_BITS sample_config' \<le> 32" "5 < g_NUM_PROCESSORS sample_config'"
    by code_simp+
  then show ?thesis
    using map_L1CacheMachId_to_L2Cache_in_range [OF sample_config'_ok,
        of "\<lparr> mach_type = MachineType_L1Cache, mach_num = 5 \<rparr>" "0x1234"] by simp
qed

text \<open>Setting the offset of an address and reading it back: an offset inside the block is
  returned by \<open>getOffset\<close>, and the line of the address does not change.\<close>

theorem setOffset_roundtrip:
  assumes "config_ok c" "g_DATA_BLOCK_BITS c > 0"
    and "0 \<le> offset" "offset < g_DATA_BLOCK_BYTES c"
  shows "\<exists>r. setOffset c a offset = Some r \<and> getOffset c r = Some (word_of_int offset)
           \<and> line_address c r = line_address c a"
proof -
  let ?k = "nat (g_DATA_BLOCK_BITS c)"
  let ?l = "push_bit ?k (drop_bit ?k a)" and ?o = "word_of_int offset :: 64 word"
  have off: "offset < 2 ^ ?k" using assms by (simp add: config_ok_def pow2_of_def)
  then have t: "take_bit ?k offset = offset" using assms(3) by (simp add: take_bit_int_eq_self)
  have low: "bit ?o n \<Longrightarrow> n < ?k" for n
    using t by (metis bit_take_bit_iff bit_word_of_int_iff)
  have r: "setOffset c a offset = Some (?l OR ?o)"
    using line_address_eq [OF assms(1), of a] by (simp add: setOffset_def line_address_def)
  have o: "take_bit ?k (?l OR ?o) = ?o"
    by (rule bit_eqI) (auto simp: bit_simps low dest: low)
  have "drop_bit ?k (?l OR ?o) = drop_bit ?k a"
    by (rule bit_eqI) (use low in \<open>auto simp: bit_simps dest: bit_imp_le_length\<close>)
  then show ?thesis
    using r o by (simp add: getOffset_eq [OF assms(1,2)] line_address_eq [OF assms(1)])
qed

lemma setOffset_roundtrip_witness:
  "\<exists>r. setOffset sample_config' 0x1234 17 = Some r
     \<and> getOffset sample_config' r = Some (word_of_int 17)
     \<and> line_address sample_config' r = line_address sample_config' 0x1234"
proof -
  have "g_DATA_BLOCK_BITS sample_config' > 0" "17 < g_DATA_BLOCK_BYTES sample_config'"
    by code_simp+
  then show ?thesis
    using setOffset_roundtrip [OF sample_config'_ok, of 17 "0x1234"] by simp
qed

end
