(* ===== verification/Persistent.thy ===== *)
theory Persistent
  imports Net_Dest Component_Mapping
begin

text \<open>
  \<open>ruby_clean/system/PersistentTable.C\<close>, \<open>NodePersistentTable.C\<close> and
  \<open>PersistentArbiter.C\<close>: the book-keeping of persistent requests, by which a starving
  processor gets a block in the token protocols.

  A table is a map from line addresses to entries.  The generated \<open>MachineType\<close> functions are
  given by \<open>counts\<close> as in \<open>Net_Dest\<close>; \<open>l1\<close> is the level of \<open>MachineType_L1Cache\<close>.  A
  default-constructed \<open>NetDest\<close> or \<open>Set\<close> is empty and has the size of the configuration.
\<close>

datatype AccessType = AccessType_Read | AccessType_Write

record 'd persistent_entry =
  m_starving :: 'd
  m_marked :: 'd
  m_request_to_write :: 'd

type_synonym persistent_table = "physical_address_t \<rightharpoonup> net_dest persistent_entry"
type_synonym node_persistent_table = "physical_address_t \<rightharpoonup> opt_set persistent_entry"

section \<open>PersistentTable\<close>

definition new_entry :: "nat list \<Rightarrow> net_dest persistent_entry" where
  "new_entry counts = \<lparr> m_starving = nd_setSize counts, m_marked = nd_setSize counts,
     m_request_to_write = nd_setSize counts \<rparr>"

text \<open>\<open>entry.m_starving.add(locker); if (type == Write) entry.m_request_to_write.add(locker);\<close>\<close>

definition entry_add :: "machine_id \<Rightarrow> AccessType \<Rightarrow> net_dest persistent_entry \<Rightarrow>
    net_dest persistent_entry option" where
  "entry_add locker ty entry = do {
     st \<leftarrow> nd_add locker (m_starving entry);
     w \<leftarrow> (if ty = AccessType_Write then nd_add locker (m_request_to_write entry)
           else Some (m_request_to_write entry));
     Some (entry\<lparr> m_starving := st, m_request_to_write := w \<rparr>) }"

definition persistentRequestLock ::
    "ruby_config \<Rightarrow> nat list \<Rightarrow> physical_address_t \<Rightarrow> machine_id \<Rightarrow> AccessType \<Rightarrow>
     persistent_table \<Rightarrow> persistent_table option" where
  "persistentRequestLock c counts address locker ty tab = do {
     assert_that (is_line c address);
     (case tab address of
        None \<Rightarrow> do { entry \<leftarrow> entry_add locker ty (new_entry counts); Some (tab(address \<mapsto> entry)) }
      | Some entry \<Rightarrow> do {
          e \<leftarrow> nd_isElement locker (m_starving entry);
          assert_that (\<not> e);
          entry' \<leftarrow> entry_add locker ty entry;
          sub \<leftarrow> nd_isSuperset (m_starving entry') (m_marked entry');
          assert_that sub;
          Some (tab(address \<mapsto> entry')) }) }"

definition persistentRequestUnlock ::
    "ruby_config \<Rightarrow> physical_address_t \<Rightarrow> machine_id \<Rightarrow> persistent_table \<Rightarrow> persistent_table option" where
  "persistentRequestUnlock c address unlocker tab = do {
     assert_that (is_line c address);
     entry \<leftarrow> tab address;
     e \<leftarrow> nd_isElement unlocker (m_starving entry);
     assert_that e;
     sub \<leftarrow> nd_isSuperset (m_starving entry) (m_marked entry);
     assert_that sub;
     st \<leftarrow> nd_remove unlocker (m_starving entry);
     mk \<leftarrow> nd_remove unlocker (m_marked entry);
     w \<leftarrow> nd_remove unlocker (m_request_to_write entry);
     sub' \<leftarrow> nd_isSuperset st mk;
     assert_that sub';
     emp \<leftarrow> nd_isEmpty st;
     (if emp then do {
        memp \<leftarrow> nd_isEmpty mk;
        assert_that memp;
        Some (tab(address := None)) }
      else Some (tab(address \<mapsto> \<lparr> m_starving = st, m_marked = mk, m_request_to_write = w \<rparr>))) }"

definition okToIssueStarving ::
    "ruby_config \<Rightarrow> nat \<Rightarrow> nat \<Rightarrow> physical_address_t \<Rightarrow> persistent_table \<Rightarrow> bool option" where
  "okToIssueStarving c l1 m_version address tab = do {
     assert_that (is_line c address);
     (case tab address of
        None \<Rightarrow> Some True
      | Some entry \<Rightarrow> do {
          e \<leftarrow> nd_isElement (l1, m_version) (m_starving entry);
          (if e then Some False else nd_isEmpty (m_marked entry)) }) }"

definition findSmallest ::
    "ruby_config \<Rightarrow> nat \<Rightarrow> physical_address_t \<Rightarrow> persistent_table \<Rightarrow> machine_id option" where
  "findSmallest c l1 address tab = do {
     assert_that (is_line c address);
     entry \<leftarrow> tab address;
     n \<leftarrow> nd_smallestElement (m_starving entry);
     Some (l1, n) }"

definition typeOfSmallest ::
    "ruby_config \<Rightarrow> nat \<Rightarrow> physical_address_t \<Rightarrow> persistent_table \<Rightarrow> AccessType option" where
  "typeOfSmallest c l1 address tab = do {
     assert_that (is_line c address);
     entry \<leftarrow> tab address;
     n \<leftarrow> nd_smallestElement (m_starving entry);
     b \<leftarrow> nd_isElement (l1, n) (m_request_to_write entry);
     Some (if b then AccessType_Write else AccessType_Read) }"

definition markEntries :: "ruby_config \<Rightarrow> physical_address_t \<Rightarrow> persistent_table \<Rightarrow> persistent_table option" where
  "markEntries c address tab = do {
     assert_that (is_line c address);
     (case tab address of
        None \<Rightarrow> Some tab
      | Some entry \<Rightarrow> do {
          emp \<leftarrow> nd_isEmpty (m_marked entry);
          assert_that emp;
          Some (tab(address \<mapsto> entry\<lparr> m_marked := m_starving entry \<rparr>)) }) }"

definition isLocked :: "ruby_config \<Rightarrow> physical_address_t \<Rightarrow> persistent_table \<Rightarrow> bool option" where
  "isLocked c address tab = do { assert_that (is_line c address); Some (tab address \<noteq> None) }"

definition countStarvingForAddress :: "physical_address_t \<Rightarrow> persistent_table \<Rightarrow> int" where
  "countStarvingForAddress address tab =
     (case tab address of None \<Rightarrow> 0 | Some entry \<Rightarrow> int (nd_count (m_starving entry)))"

definition countReadStarvingForAddress :: "physical_address_t \<Rightarrow> persistent_table \<Rightarrow> int" where
  "countReadStarvingForAddress address tab =
     (case tab address of None \<Rightarrow> 0
      | Some entry \<Rightarrow> int (nd_count (m_starving entry)) - int (nd_count (m_request_to_write entry)))"

section \<open>NodePersistentTable\<close>

definition persistent_randomize :: "nat list" where
  "persistent_randomize = [0, 1, 2, 3, 4, 5, 6, 7, 8, 9, 10, 11, 12, 13, 14, 15]"

definition randomized :: "nat \<Rightarrow> nat option" where
  "randomized n = do { assert_that (n < length persistent_randomize); Some (persistent_randomize ! n) }"

definition node_new_entry :: "ruby_config \<Rightarrow> opt_set persistent_entry" where
  "node_new_entry c = (let s = opt_setSize (nat (g_NUM_PROCESSORS c)) in
     \<lparr> m_starving = s, m_marked = s, m_request_to_write = s \<rparr>)"

definition node_entry_add :: "nat \<Rightarrow> AccessType \<Rightarrow> opt_set persistent_entry \<Rightarrow>
    opt_set persistent_entry option" where
  "node_entry_add locker ty entry = do {
     st \<leftarrow> opt_add locker (m_starving entry);
     w \<leftarrow> (if ty = AccessType_Write then opt_add locker (m_request_to_write entry)
           else Some (m_request_to_write entry));
     Some (entry\<lparr> m_starving := st, m_request_to_write := w \<rparr>) }"

definition node_persistentRequestLock ::
    "ruby_config \<Rightarrow> physical_address_t \<Rightarrow> nat \<Rightarrow> AccessType \<Rightarrow>
     node_persistent_table \<Rightarrow> node_persistent_table option" where
  "node_persistentRequestLock c address llocker ty tab = do {
     locker \<leftarrow> randomized llocker;
     assert_that (is_line c address);
     (case tab address of
        None \<Rightarrow> do { entry \<leftarrow> node_entry_add locker ty (node_new_entry c); Some (tab(address \<mapsto> entry)) }
      | Some entry \<Rightarrow> do {
          e \<leftarrow> opt_isElement locker (m_starving entry);
          assert_that (\<not> e);
          entry' \<leftarrow> node_entry_add locker ty entry;
          sub \<leftarrow> opt_isSubset (m_marked entry') (m_starving entry');
          assert_that sub;
          Some (tab(address \<mapsto> entry')) }) }"

definition node_persistentRequestUnlock ::
    "ruby_config \<Rightarrow> physical_address_t \<Rightarrow> nat \<Rightarrow> node_persistent_table \<Rightarrow> node_persistent_table option" where
  "node_persistentRequestUnlock c address uunlocker tab = do {
     unlocker \<leftarrow> randomized uunlocker;
     assert_that (is_line c address);
     entry \<leftarrow> tab address;
     e \<leftarrow> opt_isElement unlocker (m_starving entry);
     assert_that e;
     sub \<leftarrow> opt_isSubset (m_marked entry) (m_starving entry);
     assert_that sub;
     st \<leftarrow> opt_remove unlocker (m_starving entry);
     mk \<leftarrow> opt_remove unlocker (m_marked entry);
     w \<leftarrow> opt_remove unlocker (m_request_to_write entry);
     sub' \<leftarrow> opt_isSubset mk st;
     assert_that sub';
     emp \<leftarrow> opt_isEmpty st;
     (if emp then do {
        memp \<leftarrow> opt_isEmpty mk;
        assert_that memp;
        Some (tab(address := None)) }
      else Some (tab(address \<mapsto> \<lparr> m_starving = st, m_marked = mk, m_request_to_write = w \<rparr>))) }"

definition node_okToIssueStarving ::
    "ruby_config \<Rightarrow> nat \<Rightarrow> physical_address_t \<Rightarrow> node_persistent_table \<Rightarrow> bool option" where
  "node_okToIssueStarving c chip_id address tab = do {
     assert_that (is_line c address);
     (case tab address of
        None \<Rightarrow> Some True
      | Some entry \<Rightarrow> do {
          e \<leftarrow> opt_isElement chip_id (m_starving entry);
          (if e then Some False else opt_isEmpty (m_marked entry)) }) }"

definition node_findSmallest ::
    "ruby_config \<Rightarrow> physical_address_t \<Rightarrow> node_persistent_table \<Rightarrow> nat option" where
  "node_findSmallest c address tab = do {
     assert_that (is_line c address);
     entry \<leftarrow> tab address;
     n \<leftarrow> opt_smallestElement (m_starving entry);
     randomized n }"

definition node_typeOfSmallest ::
    "ruby_config \<Rightarrow> physical_address_t \<Rightarrow> node_persistent_table \<Rightarrow> AccessType option" where
  "node_typeOfSmallest c address tab = do {
     assert_that (is_line c address);
     entry \<leftarrow> tab address;
     n \<leftarrow> opt_smallestElement (m_starving entry);
     b \<leftarrow> opt_isElement n (m_request_to_write entry);
     Some (if b then AccessType_Write else AccessType_Read) }"

definition node_markEntries ::
    "ruby_config \<Rightarrow> physical_address_t \<Rightarrow> node_persistent_table \<Rightarrow> node_persistent_table option" where
  "node_markEntries c address tab = do {
     assert_that (is_line c address);
     (case tab address of
        None \<Rightarrow> Some tab
      | Some entry \<Rightarrow> do {
          emp \<leftarrow> opt_isEmpty (m_marked entry);
          assert_that emp;
          Some (tab(address \<mapsto> entry\<lparr> m_marked := opt_copy (m_starving entry) \<rparr>)) }) }"

definition node_isLocked :: "ruby_config \<Rightarrow> physical_address_t \<Rightarrow> node_persistent_table \<Rightarrow> bool option" where
  "node_isLocked c address tab = do { assert_that (is_line c address); Some (tab address \<noteq> None) }"

definition node_countStarvingForAddress :: "physical_address_t \<Rightarrow> node_persistent_table \<Rightarrow> int" where
  "node_countStarvingForAddress address tab =
     (case tab address of None \<Rightarrow> 0 | Some entry \<Rightarrow> int (opt_count (m_starving entry)))"

definition node_countReadStarvingForAddress :: "physical_address_t \<Rightarrow> node_persistent_table \<Rightarrow> int" where
  "node_countReadStarvingForAddress address tab =
     (case tab address of None \<Rightarrow> 0
      | Some entry \<Rightarrow> int (opt_count (m_starving entry)) - int (opt_count (m_request_to_write entry)))"

section \<open>PersistentArbiter\<close>

record ArbiterEntry =
  ae_valid :: bool
  ae_address :: physical_address_t
  ae_type :: AccessType
  ae_localId :: nat

record persistent_arbiter =
  m_entries :: "ArbiterEntry list"
  m_busy :: bool
  m_locker :: int
  m_issued_address :: physical_address_t

text \<open>\<open>fresh\<close> is what the uninitialised entries hold beside the flag.\<close>

definition PersistentArbiter_new :: "ruby_config \<Rightarrow> ArbiterEntry \<Rightarrow> persistent_arbiter" where
  "PersistentArbiter_new c fresh = \<lparr>
     m_entries = replicate (nat (g_NUM_PROCESSORS c)) (fresh\<lparr> ae_valid := False \<rparr>),
     m_busy = False, m_locker = -1, m_issued_address = 0 \<rparr>"

definition lockersExist :: "persistent_arbiter \<Rightarrow> bool" where
  "lockersExist a = list_ex ae_valid (m_entries a)"

definition addLocker ::
    "nat \<Rightarrow> physical_address_t \<Rightarrow> AccessType \<Rightarrow> persistent_arbiter \<Rightarrow> persistent_arbiter option" where
  "addLocker lid addr ty a = do {
     assert_that (lid < length (m_entries a));
     assert_that (\<not> ae_valid (m_entries a ! lid));
     Some (a\<lparr> m_entries := (m_entries a)[lid := \<lparr> ae_valid = True, ae_address = addr, ae_type = ty,
                                                ae_localId = lid \<rparr>] \<rparr>) }"

definition removeLocker :: "nat \<Rightarrow> persistent_arbiter \<Rightarrow> persistent_arbiter option" where
  "removeLocker lid a = do {
     assert_that (lid < length (m_entries a));
     assert_that (ae_valid (m_entries a ! lid));
     let a = a\<lparr> m_entries := (m_entries a)[lid := (m_entries a ! lid)\<lparr> ae_valid := False \<rparr>] \<rparr>;
     Some (if \<not> lockersExist a then a\<lparr> m_busy := False \<rparr> else a) }"

definition successorRequestPresent :: "physical_address_t \<Rightarrow> nat \<Rightarrow> persistent_arbiter \<Rightarrow> bool" where
  "successorRequestPresent addr lid a =
     list_ex (\<lambda>i. ae_address (m_entries a ! i) = addr \<and> ae_valid (m_entries a ! i))
       [lid + 1..<length (m_entries a)]"

definition advanceActiveLock :: "persistent_arbiter \<Rightarrow> persistent_arbiter option" where
  "advanceActiveLock a = do {
     assert_that (lockersExist a);
     let n = length (m_entries a);
     let valid = (\<lambda>i. ae_valid (m_entries a ! i));
     (case (if m_locker a < int n - 1 then List.find valid [nat (m_locker a + 1)..<n] else None) of
        Some i \<Rightarrow> Some (a\<lparr> m_locker := int i, m_busy := True \<rparr>)
      | None \<Rightarrow>
          (case List.find valid [0..<n] of
             Some i \<Rightarrow> Some (a\<lparr> m_locker := int i, m_busy := True \<rparr>)
           | None \<Rightarrow> None)) }"

text \<open>\<open>assert( m_entries[m_locker].valid = true )\<close> assigns: the entry becomes valid and the
  assertion holds.\<close>

definition touch_locker :: "persistent_arbiter \<Rightarrow> (ArbiterEntry \<times> persistent_arbiter) option" where
  "touch_locker a = do {
     assert_that (0 \<le> m_locker a \<and> m_locker a < int (length (m_entries a)));
     let k = nat (m_locker a);
     let e = (m_entries a ! k)\<lparr> ae_valid := True \<rparr>;
     Some (e, a\<lparr> m_entries := (m_entries a)[k := e] \<rparr>) }"

definition getActiveLockAddress :: "persistent_arbiter \<Rightarrow> (physical_address_t \<times> persistent_arbiter) option" where
  "getActiveLockAddress a = do { (e, a') \<leftarrow> touch_locker a; Some (ae_address e, a') }"

definition getActiveLocalId :: "persistent_arbiter \<Rightarrow> (nat \<times> persistent_arbiter) option" where
  "getActiveLocalId a = do { (e, a') \<leftarrow> touch_locker a; Some (ae_localId e, a') }"

definition getArbiterId :: "ruby_config \<Rightarrow> int \<Rightarrow> int" where
  "getArbiterId c chip_id = chip_id * g_PROCS_PER_CHIP c"

definition setIssuedAddress :: "physical_address_t \<Rightarrow> persistent_arbiter \<Rightarrow> persistent_arbiter" where
  "setIssuedAddress addr a = a\<lparr> m_issued_address := addr \<rparr>"

definition isIssuedAddress :: "physical_address_t \<Rightarrow> persistent_arbiter \<Rightarrow> bool" where
  "isIssuedAddress addr a \<longleftrightarrow> m_issued_address a = addr"

section \<open>What a table promises\<close>

text \<open>Both tables keep, for every line, the sets of starving, marked and writing nodes, with the
  marked and the writing ones among the starving ones.\<close>

locale persistent_requests =
  fixes ok :: "'t \<Rightarrow> bool"
    and line :: "physical_address_t \<Rightarrow> bool"
    and node :: "'n \<Rightarrow> bool"
    and starving :: "'t \<Rightarrow> physical_address_t \<Rightarrow> 'n set"
    and marked :: "'t \<Rightarrow> physical_address_t \<Rightarrow> 'n set"
    and writers :: "'t \<Rightarrow> physical_address_t \<Rightarrow> 'n set"
    and lock :: "physical_address_t \<Rightarrow> 'n \<Rightarrow> AccessType \<Rightarrow> 't \<Rightarrow> 't option"
    and unlock :: "physical_address_t \<Rightarrow> 'n \<Rightarrow> 't \<Rightarrow> 't option"
    and mark :: "physical_address_t \<Rightarrow> 't \<Rightarrow> 't option"
    and locked :: "physical_address_t \<Rightarrow> 't \<Rightarrow> bool option"
  assumes subsets: "ok t \<Longrightarrow> marked t a \<subseteq> starving t a \<and> writers t a \<subseteq> starving t a"
    and lock_law: "\<lbrakk> ok t; line a; node n; n \<notin> starving t a \<rbrakk> \<Longrightarrow>
      \<exists>t'. lock a n ty t = Some t' \<and> ok t' \<and>
           starving t' = (starving t)(a := insert n (starving t a)) \<and> marked t' = marked t \<and>
           writers t' = (if ty = AccessType_Write then (writers t)(a := insert n (writers t a))
                         else writers t)"
    and unlock_law: "\<lbrakk> ok t; line a; node n; n \<in> starving t a \<rbrakk> \<Longrightarrow>
      \<exists>t'. unlock a n t = Some t' \<and> ok t' \<and>
           starving t' = (starving t)(a := starving t a - {n}) \<and>
           marked t' = (marked t)(a := marked t a - {n}) \<and>
           writers t' = (writers t)(a := writers t a - {n})"
    and mark_law: "\<lbrakk> ok t; line a; marked t a = {} \<rbrakk> \<Longrightarrow>
      \<exists>t'. mark a t = Some t' \<and> ok t' \<and> starving t' = starving t \<and> writers t' = writers t \<and>
           marked t' = (marked t)(a := starving t a)"
    and locked_law: "\<lbrakk> ok t; line a \<rbrakk> \<Longrightarrow> locked a t = Some (starving t a \<noteq> {})"
begin

text \<open>A request that is locked and unlocked leaves the table as it was.\<close>

lemma lock_unlock:
  assumes "ok t" "line a" "node n" "n \<notin> starving t a"
  shows "\<exists>t1 t2. lock a n ty t = Some t1 \<and> locked a t1 = Some True \<and> unlock a n t1 = Some t2 \<and>
     ok t2 \<and> starving t2 = starving t \<and> marked t2 = marked t \<and> writers t2 = writers t"
proof -
  obtain t1 where t1: "lock a n ty t = Some t1" "ok t1"
    "starving t1 = (starving t)(a := insert n (starving t a))" "marked t1 = marked t"
    "writers t1 = (if ty = AccessType_Write then (writers t)(a := insert n (writers t a))
                   else writers t)" using lock_law [OF assms] by blast
  have "n \<in> starving t1 a" using t1(3) by simp
  then obtain t2 where t2: "unlock a n t1 = Some t2" "ok t2"
    "starving t2 = (starving t1)(a := starving t1 a - {n})"
    "marked t2 = (marked t1)(a := marked t1 a - {n})"
    "writers t2 = (writers t1)(a := writers t1 a - {n})"
    using unlock_law [OF t1(2) assms(2,3)] by blast
  have "n \<notin> marked t a" "n \<notin> writers t a" using subsets [OF assms(1), of a] assms(4) by auto
  then show ?thesis using t1 t2 locked_law [OF t1(2) assms(2)] assms(4) by auto
qed

text \<open>Marking starts a wave: the nodes that are starving now are marked, later ones are not, and
  a marked node leaves the wave only by its unlock.\<close>

lemma mark_then_lock:
  assumes "ok t" "line a" "marked t a = {}" "node n" "n \<notin> starving t a"
  shows "\<exists>t1 t2. mark a t = Some t1 \<and> lock a n ty t1 = Some t2 \<and> ok t2 \<and>
     marked t2 a = starving t a \<and> n \<in> starving t2 a \<and> n \<notin> marked t2 a"
proof -
  obtain t1 where t1: "mark a t = Some t1" "ok t1" "starving t1 = starving t"
    "marked t1 = (marked t)(a := starving t a)" using mark_law [OF assms(1-3)] by blast
  obtain t2 where "lock a n ty t1 = Some t2" "ok t2"
    "starving t2 = (starving t1)(a := insert n (starving t1 a))" "marked t2 = marked t1"
    using lock_law [OF t1(2) assms(2,4), of ty] assms(5) t1(3) by auto
  then show ?thesis using t1 assms(5) by auto
qed

end

section \<open>PersistentTable keeps the promise\<close>

definition entry_ok :: "nat list \<Rightarrow> net_dest persistent_entry \<Rightarrow> bool" where
  "entry_ok counts e \<longleftrightarrow> nd_invar counts (m_starving e) \<and> nd_invar counts (m_marked e) \<and>
     nd_invar counts (m_request_to_write e) \<and> nd_elems (m_starving e) \<noteq> {} \<and>
     nd_elems (m_marked e) \<subseteq> nd_elems (m_starving e) \<and>
     nd_elems (m_request_to_write e) \<subseteq> nd_elems (m_starving e)"

definition table_ok :: "nat list \<Rightarrow> persistent_table \<Rightarrow> bool" where
  "table_ok counts tab \<longleftrightarrow> (\<forall>a e. tab a = Some e \<longrightarrow> entry_ok counts e)"

definition set_of :: "('d persistent_entry \<Rightarrow> 'd) \<Rightarrow> ('d \<Rightarrow> 'n set) \<Rightarrow>
    (physical_address_t \<rightharpoonup> 'd persistent_entry) \<Rightarrow> physical_address_t \<Rightarrow> 'n set" where
  "set_of sel elems tab a = (case tab a of None \<Rightarrow> {} | Some e \<Rightarrow> elems (sel e))"

lemma set_of_update: "set_of sel elems (tab(a \<mapsto> e)) = (set_of sel elems tab)(a := elems (sel e))"
  by (rule ext) (simp add: set_of_def)

lemma set_of_delete: "set_of sel elems (tab(a := None)) = (set_of sel elems tab)(a := {})"
  by (rule ext) (simp add: set_of_def)

lemma table_ok_update: "\<lbrakk> table_ok counts tab; entry_ok counts e \<rbrakk> \<Longrightarrow> table_ok counts (tab(a \<mapsto> e))"
  by (simp add: table_ok_def)

lemma table_ok_delete: "table_ok counts tab \<Longrightarrow> table_ok counts (tab(a := None))"
  by (simp add: table_ok_def)

lemma entry_add_law:
  assumes "nd_invar counts (m_starving e)" "nd_invar counts (m_request_to_write e)"
    and "n \<in> all_machines counts"
  shows "\<exists>e'. entry_add n ty e = Some e' \<and> nd_invar counts (m_starving e') \<and>
     nd_invar counts (m_request_to_write e') \<and> m_marked e' = m_marked e \<and>
     nd_elems (m_starving e') = insert n (nd_elems (m_starving e)) \<and>
     nd_elems (m_request_to_write e') =
       (if ty = AccessType_Write then insert n (nd_elems (m_request_to_write e))
        else nd_elems (m_request_to_write e))"
  using nd_add_law [OF assms(1,3)] nd_add_law [OF assms(2,3)] assms(2)
  by (auto simp: entry_add_def)

lemma persistentRequestLock_law:
  assumes "table_ok counts tab" "is_line c a" "n \<in> all_machines counts"
    "n \<notin> set_of m_starving nd_elems tab a"
  shows "\<exists>e. persistentRequestLock c counts a n ty tab = Some (tab(a \<mapsto> e)) \<and>
     entry_ok counts e \<and> nd_elems (m_starving e) = insert n (set_of m_starving nd_elems tab a) \<and>
     nd_elems (m_marked e) = set_of m_marked nd_elems tab a \<and>
     nd_elems (m_request_to_write e) =
       (if ty = AccessType_Write then insert n (set_of m_request_to_write nd_elems tab a)
        else set_of m_request_to_write nd_elems tab a)"
proof (cases "tab a")
  case None
  let ?e = "new_entry counts"
  have "nd_invar counts (m_starving ?e)" "nd_invar counts (m_request_to_write ?e)"
    "nd_elems (m_starving ?e) = {}" "nd_elems (m_request_to_write ?e) = {}"
    "nd_invar counts (m_marked ?e)" "nd_elems (m_marked ?e) = {}"
    using nd_setSize_empty by (auto simp: new_entry_def)
  moreover from this obtain e' where "entry_add n ty ?e = Some e'" "nd_invar counts (m_starving e')"
     "nd_invar counts (m_request_to_write e')" "m_marked e' = m_marked ?e"
     "nd_elems (m_starving e') = {n}"
     "nd_elems (m_request_to_write e') = (if ty = AccessType_Write then {n} else {})"
    using entry_add_law [of counts ?e n ty] assms(3) by auto
  ultimately show ?thesis using assms(2) None
    by (intro exI [of _ e']) (simp add: persistentRequestLock_def set_of_def entry_ok_def)
next
  case (Some e)
  have ok: "entry_ok counts e" using assms(1) Some by (simp add: table_ok_def)
  obtain e' where e': "entry_add n ty e = Some e'" "nd_invar counts (m_starving e')"
     "nd_invar counts (m_request_to_write e')" "m_marked e' = m_marked e"
     "nd_elems (m_starving e') = insert n (nd_elems (m_starving e))"
     "nd_elems (m_request_to_write e') =
       (if ty = AccessType_Write then insert n (nd_elems (m_request_to_write e))
        else nd_elems (m_request_to_write e))"
    using entry_add_law [of counts e n ty] ok assms(3) by (auto simp: entry_ok_def)
  have "entry_ok counts e'" using ok e' by (auto simp: entry_ok_def)
  moreover have "nd_isElement n (m_starving e) = Some False"
    using nd_isElement_law [of counts _ n] ok assms(3,4) Some by (simp add: entry_ok_def set_of_def)
  moreover have "nd_isSuperset (m_starving e') (m_marked e') = Some True"
    using nd_isSuperset_law [of counts] calculation(1) by (simp add: entry_ok_def)
  ultimately show ?thesis using e' Some assms(2)
    by (intro exI [of _ e']) (simp add: persistentRequestLock_def set_of_def)
qed

lemma persistentRequestUnlock_law:
  assumes "table_ok counts tab" "is_line c a" "n \<in> all_machines counts"
    "n \<in> set_of m_starving nd_elems tab a"
  shows "\<exists>tab'. persistentRequestUnlock c a n tab = Some tab' \<and> table_ok counts tab' \<and>
     set_of m_starving nd_elems tab' = (set_of m_starving nd_elems tab)(a := set_of m_starving nd_elems tab a - {n}) \<and>
     set_of m_marked nd_elems tab' = (set_of m_marked nd_elems tab)(a := set_of m_marked nd_elems tab a - {n}) \<and>
     set_of m_request_to_write nd_elems tab' =
       (set_of m_request_to_write nd_elems tab)(a := set_of m_request_to_write nd_elems tab a - {n})"
proof -
  obtain e where e: "tab a = Some e" "n \<in> nd_elems (m_starving e)" "entry_ok counts e"
    using assms by (auto simp: set_of_def table_ok_def split: option.splits)
  note ok = e(3) [unfolded entry_ok_def]
  obtain st mk w where r: "nd_remove n (m_starving e) = Some st" "nd_invar counts st"
    "nd_elems st = nd_elems (m_starving e) - {n}"
    "nd_remove n (m_marked e) = Some mk" "nd_invar counts mk" "nd_elems mk = nd_elems (m_marked e) - {n}"
    "nd_remove n (m_request_to_write e) = Some w" "nd_invar counts w"
    "nd_elems w = nd_elems (m_request_to_write e) - {n}"
    using nd_remove_law [OF _ assms(3)] ok by metis
  have sub: "nd_elems mk \<subseteq> nd_elems st" "nd_elems w \<subseteq> nd_elems st" using r ok by auto
  have tests: "nd_isElement n (m_starving e) = Some True"
    "nd_isSuperset (m_starving e) (m_marked e) = Some True" "nd_isSuperset st mk = Some True"
    using nd_isElement_law [OF _ assms(3)] nd_isSuperset_law ok e(2) r(2,5) sub by metis+
  let ?e = "\<lparr> m_starving = st, m_marked = mk, m_request_to_write = w \<rparr>"
  have res: "persistentRequestUnlock c a n tab =
      Some (if nd_elems st = {} then tab(a := None) else tab(a \<mapsto> ?e))"
    using e(1) assms(2) r tests sub
    by (auto simp: persistentRequestUnlock_def nd_isEmpty_law)
  show ?thesis
  proof (cases "nd_elems st = {}")
    case True
    then show ?thesis using res r sub table_ok_delete [OF assms(1)] e(1)
      by (auto simp: set_of_delete) (auto simp: set_of_def fun_eq_iff)
  next
    case False
    then have "entry_ok counts ?e" using r sub by (simp add: entry_ok_def)
    then show ?thesis using False res r table_ok_update [OF assms(1)] e(1)
      by (auto simp: set_of_update) (auto simp: set_of_def fun_eq_iff)
  qed
qed

interpretation ptable: persistent_requests "table_ok counts" "is_line c" "\<lambda>n. n \<in> all_machines counts"
  "set_of m_starving nd_elems" "set_of m_marked nd_elems" "set_of m_request_to_write nd_elems"
  "persistentRequestLock c counts" "persistentRequestUnlock c" "markEntries c" "isLocked c"
  for c :: ruby_config and counts :: "nat list"
proof (standard, goal_cases)
  case (1 t a)
  then show ?case by (auto simp: table_ok_def entry_ok_def set_of_def split: option.splits)
next
  case (2 t a n ty)
  obtain e where e: "persistentRequestLock c counts a n ty t = Some (t(a \<mapsto> e))"
    "entry_ok counts e" "nd_elems (m_starving e) = insert n (set_of m_starving nd_elems t a)"
    "nd_elems (m_marked e) = set_of m_marked nd_elems t a"
    "nd_elems (m_request_to_write e) =
       (if ty = AccessType_Write then insert n (set_of m_request_to_write nd_elems t a)
        else set_of m_request_to_write nd_elems t a)"
    using persistentRequestLock_law [OF 2] by blast
  then show ?case using table_ok_update [OF 2(1) e(2)] by (simp add: set_of_update)
next
  case (3 t a n)
  then show ?case by (rule persistentRequestUnlock_law)
next
  case (4 t a)
  show ?case
  proof (cases "t a")
    case None
    then show ?thesis using 4 by (auto simp: markEntries_def set_of_def fun_eq_iff)
  next
    case (Some e)
    let ?e = "e\<lparr> m_marked := m_starving e \<rparr>"
    have "entry_ok counts ?e" using 4(1) Some by (auto simp: table_ok_def entry_ok_def)
    moreover have "nd_elems (m_marked e) = {}" using 4(3) Some by (simp add: set_of_def)
    ultimately show ?thesis using 4 Some table_ok_update [OF 4(1)]
      by (auto simp: markEntries_def nd_isEmpty_law set_of_update)
        (auto simp: set_of_def fun_eq_iff)
  qed
next
  case (5 t a)
  then show ?case
    by (auto simp: isLocked_def set_of_def table_ok_def entry_ok_def split: option.splits)
qed

section \<open>NodePersistentTable keeps the promise\<close>

definition node_entry_ok :: "nat \<Rightarrow> opt_set persistent_entry \<Rightarrow> bool" where
  "node_entry_ok p e \<longleftrightarrow>
     opt_invar (m_starving e) \<and> opt_invar (m_marked e) \<and> opt_invar (m_request_to_write e) \<and>
     m_nSize (m_starving e) = p \<and> m_nSize (m_marked e) = p \<and> m_nSize (m_request_to_write e) = p \<and>
     opt_elems (m_starving e) \<noteq> {} \<and> opt_elems (m_marked e) \<subseteq> opt_elems (m_starving e) \<and>
     opt_elems (m_request_to_write e) \<subseteq> opt_elems (m_starving e)"

definition node_table_ok :: "nat \<Rightarrow> node_persistent_table \<Rightarrow> bool" where
  "node_table_ok p tab \<longleftrightarrow> (\<forall>a e. tab a = Some e \<longrightarrow> node_entry_ok p e)"

lemma randomized_identity: "n < 16 \<Longrightarrow> randomized n = Some n"
proof -
  assume n: "n < 16"
  have "length persistent_randomize = 16" by (simp add: persistent_randomize_def)
  moreover have "list_all (\<lambda>n. persistent_randomize ! n = n) [0..<16]" by code_simp
  ultimately show ?thesis using n by (simp add: randomized_def list_all_iff)
qed

lemma opt_copy_eq: "opt_invar s \<Longrightarrow> opt_copy s = s"
proof -
  assume "opt_invar s"
  then have "length (m_p_nArray (opt_setSize (m_nSize s))) = length (m_p_nArray s)"
    by (simp add: opt_invar_def opt_setSize_eq)
  then show ?thesis by (simp add: opt_copy_def Let_def map_nth opt_setSize_eq)
qed

lemma node_entry_add_law:
  assumes "opt_invar (m_starving e)" "opt_invar (m_request_to_write e)" "m_nSize (m_starving e) = p"
    "m_nSize (m_request_to_write e) = p" "n < p"
  shows "\<exists>e'. node_entry_add n ty e = Some e' \<and> opt_invar (m_starving e') \<and>
     opt_invar (m_request_to_write e') \<and> m_marked e' = m_marked e \<and>
     m_nSize (m_starving e') = p \<and> m_nSize (m_request_to_write e') = p \<and>
     opt_elems (m_starving e') = insert n (opt_elems (m_starving e)) \<and>
     opt_elems (m_request_to_write e') =
       (if ty = AccessType_Write then insert n (opt_elems (m_request_to_write e))
        else opt_elems (m_request_to_write e))"
  using opt.add_law [of "m_starving e" n] opt.add_law [of "m_request_to_write e" n] assms
  by (auto simp: node_entry_add_def)

lemma node_lock_law:
  assumes "node_table_ok (nat (g_NUM_PROCESSORS c)) tab" "is_line c a"
    "n < 16 \<and> n < nat (g_NUM_PROCESSORS c)" "n \<notin> set_of m_starving opt_elems tab a"
  shows "\<exists>e. node_persistentRequestLock c a n ty tab = Some (tab(a \<mapsto> e)) \<and>
     node_entry_ok (nat (g_NUM_PROCESSORS c)) e \<and>
     opt_elems (m_starving e) = insert n (set_of m_starving opt_elems tab a) \<and>
     opt_elems (m_marked e) = set_of m_marked opt_elems tab a \<and>
     opt_elems (m_request_to_write e) =
       (if ty = AccessType_Write then insert n (set_of m_request_to_write opt_elems tab a)
        else set_of m_request_to_write opt_elems tab a)"
proof (cases "tab a")
  case None
  let ?p = "nat (g_NUM_PROCESSORS c)" and ?e = "node_new_entry c"
  have "opt_invar (m_starving ?e)" "opt_invar (m_request_to_write ?e)" "opt_invar (m_marked ?e)"
    "m_nSize (m_starving ?e) = ?p" "m_nSize (m_request_to_write ?e) = ?p" "m_nSize (m_marked ?e) = ?p"
    "opt_elems (m_starving ?e) = {}" "opt_elems (m_request_to_write ?e) = {}"
    "opt_elems (m_marked ?e) = {}"
    using opt_setSize_invar by (auto simp: node_new_entry_def Let_def)
  moreover from this obtain e' where "node_entry_add n ty ?e = Some e'" "opt_invar (m_starving e')"
     "opt_invar (m_request_to_write e')" "m_marked e' = m_marked ?e"
     "m_nSize (m_starving e') = ?p" "m_nSize (m_request_to_write e') = ?p"
     "opt_elems (m_starving e') = {n}"
     "opt_elems (m_request_to_write e') = (if ty = AccessType_Write then {n} else {})"
    using node_entry_add_law [of ?e ?p n ty] assms(3) by auto
  ultimately show ?thesis using assms(2,3) None
    by (intro exI [of _ e'])
      (simp add: node_persistentRequestLock_def set_of_def node_entry_ok_def randomized_identity)
next
  case (Some e)
  let ?p = "nat (g_NUM_PROCESSORS c)"
  have ok: "node_entry_ok ?p e" using assms(1) Some by (simp add: node_table_ok_def)
  obtain e' where e': "node_entry_add n ty e = Some e'" "opt_invar (m_starving e')"
     "opt_invar (m_request_to_write e')" "m_marked e' = m_marked e"
     "m_nSize (m_starving e') = ?p" "m_nSize (m_request_to_write e') = ?p"
     "opt_elems (m_starving e') = insert n (opt_elems (m_starving e))"
     "opt_elems (m_request_to_write e') =
       (if ty = AccessType_Write then insert n (opt_elems (m_request_to_write e))
        else opt_elems (m_request_to_write e))"
    using node_entry_add_law [of e ?p n ty] ok assms(3) by (auto simp: node_entry_ok_def)
  have ok': "node_entry_ok ?p e'" using ok e' by (auto simp: node_entry_ok_def)
  have "opt_isElement n (m_starving e) = Some False"
    using opt.isElement_law [of "m_starving e" n] ok assms(3,4) Some
    by (simp add: node_entry_ok_def set_of_def)
  moreover have "opt_isSubset (m_marked e') (m_starving e') = Some True"
    using opt.superset_law [of "m_starving e'" "m_marked e'"] ok'
    by (simp add: node_entry_ok_def opt_isSubset_def)
  ultimately show ?thesis using e' ok' Some assms(2,3)
    by (intro exI [of _ e'])
      (simp add: node_persistentRequestLock_def set_of_def randomized_identity)
qed

lemma node_unlock_law:
  assumes "node_table_ok p tab" "is_line c a" "n < 16 \<and> n < p" "n \<in> set_of m_starving opt_elems tab a"
  shows "\<exists>tab'. node_persistentRequestUnlock c a n tab = Some tab' \<and> node_table_ok p tab' \<and>
     set_of m_starving opt_elems tab' = (set_of m_starving opt_elems tab)(a := set_of m_starving opt_elems tab a - {n}) \<and>
     set_of m_marked opt_elems tab' = (set_of m_marked opt_elems tab)(a := set_of m_marked opt_elems tab a - {n}) \<and>
     set_of m_request_to_write opt_elems tab' =
       (set_of m_request_to_write opt_elems tab)(a := set_of m_request_to_write opt_elems tab a - {n})"
proof -
  obtain e where e: "tab a = Some e" "n \<in> opt_elems (m_starving e)" "node_entry_ok p e"
    using assms by (auto simp: set_of_def node_table_ok_def split: option.splits)
  note ok = e(3) [unfolded node_entry_ok_def]
  obtain st mk w where r: "opt_remove n (m_starving e) = Some st" "opt_invar st" "m_nSize st = p"
    "opt_elems st = opt_elems (m_starving e) - {n}"
    "opt_remove n (m_marked e) = Some mk" "opt_invar mk" "m_nSize mk = p"
    "opt_elems mk = opt_elems (m_marked e) - {n}"
    "opt_remove n (m_request_to_write e) = Some w" "opt_invar w" "m_nSize w = p"
    "opt_elems w = opt_elems (m_request_to_write e) - {n}"
    using opt.remove_law [of "m_starving e" n] opt.remove_law [of "m_marked e" n]
      opt.remove_law [of "m_request_to_write e" n] ok assms(3) by auto
  have sub: "opt_elems mk \<subseteq> opt_elems st" "opt_elems w \<subseteq> opt_elems st" using r ok by auto
  have t1: "opt_isElement n (m_starving e) = Some True"
    using opt.isElement_law [of "m_starving e" n] ok e(2) assms(3) by simp
  have t2: "opt_isSubset (m_marked e) (m_starving e) = Some True"
    using opt.superset_law [of "m_starving e" "m_marked e"] ok by (simp add: opt_isSubset_def)
  have t3: "opt_isSubset mk st = Some True"
    using opt.superset_law [OF r(2,6)] r(3,7) sub(1) by (simp add: opt_isSubset_def)
  let ?e = "\<lparr> m_starving = st, m_marked = mk, m_request_to_write = w \<rparr>"
  have res: "node_persistentRequestUnlock c a n tab =
      Some (if opt_elems st = {} then tab(a := None) else tab(a \<mapsto> ?e))"
    using e(1) assms(2,3) r(1,5,9) t1 t2 t3 sub(1)
    by (simp add: node_persistentRequestUnlock_def opt_isEmpty_law randomized_identity) blast
  have sets: "set_of m_starving opt_elems tab a = opt_elems (m_starving e)"
    "set_of m_marked opt_elems tab a = opt_elems (m_marked e)"
    "set_of m_request_to_write opt_elems tab a = opt_elems (m_request_to_write e)"
    using e(1) by (simp_all add: set_of_def)
  show ?thesis
  proof (cases "opt_elems st = {}")
    case True
    have "node_table_ok p (tab(a := None))" using assms(1) by (simp add: node_table_ok_def)
    moreover have z: "opt_elems (m_starving e) - {n} = {}" "opt_elems (m_marked e) - {n} = {}"
      "opt_elems (m_request_to_write e) - {n} = {}" using True sub r(4,8,12) by auto
    ultimately show ?thesis using True res unfolding sets z by (simp add: set_of_delete)
  next
    case False
    then have "node_table_ok p (tab(a \<mapsto> ?e))"
      using assms(1) r sub by (simp add: node_table_ok_def node_entry_ok_def)
    then show ?thesis using False res r(4,8,12) sets by (simp add: set_of_update)
  qed
qed

interpretation ntable: persistent_requests "node_table_ok (nat (g_NUM_PROCESSORS c))" "is_line c"
  "\<lambda>n. n < 16 \<and> n < nat (g_NUM_PROCESSORS c)"
  "set_of m_starving opt_elems" "set_of m_marked opt_elems" "set_of m_request_to_write opt_elems"
  "node_persistentRequestLock c" "node_persistentRequestUnlock c" "node_markEntries c" "node_isLocked c"
  for c :: ruby_config
proof (standard, goal_cases)
  case (1 t a)
  then show ?case by (auto simp: node_table_ok_def node_entry_ok_def set_of_def split: option.splits)
next
  case (2 t a n ty)
  obtain e where e: "node_persistentRequestLock c a n ty t = Some (t(a \<mapsto> e))"
    "node_entry_ok (nat (g_NUM_PROCESSORS c)) e"
    "opt_elems (m_starving e) = insert n (set_of m_starving opt_elems t a)"
    "opt_elems (m_marked e) = set_of m_marked opt_elems t a"
    "opt_elems (m_request_to_write e) =
       (if ty = AccessType_Write then insert n (set_of m_request_to_write opt_elems t a)
        else set_of m_request_to_write opt_elems t a)"
    using node_lock_law [OF 2] by blast
  have "node_table_ok (nat (g_NUM_PROCESSORS c)) (t(a \<mapsto> e))"
    using 2(1) e(2) by (simp add: node_table_ok_def)
  then show ?case using e by (simp add: set_of_update)
next
  case (3 t a n)
  then show ?case by (rule node_unlock_law)
next
  case (4 t a)
  show ?case
  proof (cases "t a")
    case None
    then show ?thesis using 4 by (auto simp: node_markEntries_def set_of_def fun_eq_iff)
  next
    case (Some e)
    let ?e = "e\<lparr> m_marked := m_starving e \<rparr>"
    have ok: "node_entry_ok (nat (g_NUM_PROCESSORS c)) e" using 4(1) Some by (simp add: node_table_ok_def)
    have "opt_copy (m_starving e) = m_starving e" using ok by (simp add: opt_copy_eq node_entry_ok_def)
    moreover have "node_table_ok (nat (g_NUM_PROCESSORS c)) (t(a \<mapsto> ?e))"
      using 4(1) ok by (auto simp: node_table_ok_def node_entry_ok_def)
    moreover have "opt_elems (m_marked e) = {}" using 4(3) Some by (simp add: set_of_def)
    ultimately show ?thesis using 4 Some
      by (auto simp: node_markEntries_def opt_isEmpty_law set_of_update)
        (auto simp: set_of_def fun_eq_iff)
  qed
next
  case (5 t a)
  then show ?case
    by (auto simp: node_isLocked_def set_of_def node_table_ok_def node_entry_ok_def split: option.splits)
qed

section \<open>The arbiter is a round robin\<close>

text \<open>The cyclic distance from the current locker to entry \<open>i\<close>, between 1 and the number of
  entries.\<close>

definition wait_of :: "persistent_arbiter \<Rightarrow> nat \<Rightarrow> int" where
  "wait_of a i = (let n = int (length (m_entries a)) in
     if int i > m_locker a then int i - m_locker a else int i - m_locker a + n)"

definition arbiter_ok :: "persistent_arbiter \<Rightarrow> bool" where
  "arbiter_ok a \<longleftrightarrow> -1 \<le> m_locker a \<and> m_locker a < int (length (m_entries a))"

lemma find_upt_Some:
  assumes "List.find P [k..<n] = Some i"
  shows "k \<le> i \<and> i < n \<and> P i \<and> (\<forall>j. k \<le> j \<and> j < i \<longrightarrow> \<not> P j)"
proof -
  obtain m where m: "m < length [k..<n]" "P ([k..<n] ! m)" "i = [k..<n] ! m"
    "\<forall>j<m. \<not> P ([k..<n] ! j)" using assms by (auto simp: find_Some_iff)
  have i: "i = k + m" "i < n" using m(1,3) by auto
  moreover have "\<not> P j" if "k \<le> j" "j < i" for j
    using m(4) [rule_format, of "j - k"] that i by auto
  ultimately show ?thesis using m(2,3) by auto
qed

lemma find_upt_None: "List.find P [k..<n] = None \<longleftrightarrow> (\<forall>j. k \<le> j \<and> j < n \<longrightarrow> \<not> P j)"
  by (auto simp: find_None_iff)

lemma advanceActiveLock_next:
  assumes ok: "arbiter_ok a" and ex: "lockersExist a"
  shows "\<exists>i. advanceActiveLock a = Some (a\<lparr> m_locker := int i, m_busy := True \<rparr>) \<and>
     i < length (m_entries a) \<and> ae_valid (m_entries a ! i) \<and>
     (\<forall>j<length (m_entries a). ae_valid (m_entries a ! j) \<longrightarrow> wait_of a i \<le> wait_of a j)"
proof -
  let ?n = "length (m_entries a)" and ?valid = "\<lambda>i. ae_valid (m_entries a ! i)"
  let ?first = "if m_locker a < int ?n - 1 then List.find ?valid [nat (m_locker a + 1)..<?n] else None"
  show ?thesis
  proof (cases ?first)
    case (Some i)
    then have "List.find ?valid [nat (m_locker a + 1)..<?n] = Some i" by (auto split: if_splits)
    then have i: "nat (m_locker a + 1) \<le> i" "i < ?n" "?valid i"
      "\<forall>j. nat (m_locker a + 1) \<le> j \<and> j < i \<longrightarrow> \<not> ?valid j"
      using find_upt_Some by blast+
    have "wait_of a i \<le> wait_of a j" if "j < ?n" "?valid j" for j
    proof -
      have "\<not> (nat (m_locker a + 1) \<le> j \<and> j < i)" using i(4) that(2) by blast
      then show ?thesis using i(1,2) ok by (auto simp: wait_of_def Let_def arbiter_ok_def)
    qed
    moreover have "advanceActiveLock a = Some (a\<lparr> m_locker := int i, m_busy := True \<rparr>)"
      using Some ex by (simp add: advanceActiveLock_def Let_def)
    ultimately show ?thesis using i by blast
  next
    case None
    then have none: "\<forall>j. int j > m_locker a \<and> j < ?n \<longrightarrow> \<not> ?valid j"
      using ok by (auto simp: find_upt_None arbiter_ok_def split: if_splits)
    obtain j where "j < ?n" "?valid j"
      using ex by (auto simp: lockersExist_def list_ex_iff in_set_conv_nth)
    then obtain i where f: "List.find ?valid [0..<?n] = Some i"
      by (cases "List.find ?valid [0..<?n]") (auto simp: find_upt_None)
    then have i: "i < ?n" "?valid i" "\<forall>j<i. \<not> ?valid j" using find_upt_Some by force+
    have "wait_of a i \<le> wait_of a j" if j: "j < ?n" "?valid j" for j
    proof -
      have "\<not> int j > m_locker a" "i \<le> j" using none i(3) j not_less by blast+
      then show ?thesis by (auto simp: wait_of_def Let_def)
    qed
    moreover have "advanceActiveLock a = Some (a\<lparr> m_locker := int i, m_busy := True \<rparr>)"
      using None f ex by (simp add: advanceActiveLock_def Let_def)
    ultimately show ?thesis using i by blast
  qed
qed

section \<open>Properties\<close>

text \<open>A persistent request that is locked and later unlocked leaves the table as it was;
  in between the line is locked.  This holds of the table over machine identifiers.\<close>

theorem persistent_lock_unlock:
  assumes "table_ok counts tab" "is_line c a" "n \<in> all_machines counts"
    "n \<notin> set_of m_starving nd_elems tab a"
  shows "\<exists>t1 t2. persistentRequestLock c counts a n ty tab = Some t1 \<and>
     isLocked c a t1 = Some True \<and> persistentRequestUnlock c a n t1 = Some t2 \<and> table_ok counts t2 \<and>
     set_of m_starving nd_elems t2 = set_of m_starving nd_elems tab \<and>
     set_of m_marked nd_elems t2 = set_of m_marked nd_elems tab \<and>
     set_of m_request_to_write nd_elems t2 = set_of m_request_to_write nd_elems tab"
  using assms by (rule ptable.lock_unlock)

text \<open>Marking the entries of a line starts a wave: the nodes starving at that moment are
  marked, a node that locks later is not, in the table over node numbers.\<close>

theorem node_persistent_wave:
  assumes "node_table_ok (nat (g_NUM_PROCESSORS c)) tab" "is_line c a"
    "set_of m_marked opt_elems tab a = {}" "n < 16 \<and> n < nat (g_NUM_PROCESSORS c)"
    "n \<notin> set_of m_starving opt_elems tab a"
  shows "\<exists>t1 t2. node_markEntries c a tab = Some t1 \<and> node_persistentRequestLock c a n ty t1 = Some t2 \<and>
     node_table_ok (nat (g_NUM_PROCESSORS c)) t2 \<and>
     set_of m_marked opt_elems t2 a = set_of m_starving opt_elems tab a \<and>
     n \<in> set_of m_starving opt_elems t2 a \<and> n \<notin> set_of m_marked opt_elems t2 a"
  using assms by (rule ntable.mark_then_lock)

text \<open>C37. The arbiter serves its lockers in a round robin: every advance of the active lock goes
  to the valid entry that is next in cyclic order, and the cyclic distance of every other valid
  entry becomes smaller, so that none is passed over twice.\<close>

theorem arbiter_round_robin:
  assumes "arbiter_ok a" "lockersExist a"
  shows "\<exists>i a'. advanceActiveLock a = Some a' \<and> m_locker a' = int i \<and> m_busy a' \<and> arbiter_ok a' \<and>
     ae_valid (m_entries a ! i) \<and>
     (\<forall>j<length (m_entries a). ae_valid (m_entries a ! j) \<and> j \<noteq> i \<longrightarrow>
        1 \<le> wait_of a' j \<and> wait_of a' j < wait_of a j)"
proof -
  obtain i where i: "advanceActiveLock a = Some (a\<lparr> m_locker := int i, m_busy := True \<rparr>)"
    "i < length (m_entries a)" "ae_valid (m_entries a ! i)"
    "\<forall>j<length (m_entries a). ae_valid (m_entries a ! j) \<longrightarrow> wait_of a i \<le> wait_of a j"
    using advanceActiveLock_next [OF assms] by blast
  let ?a = "a\<lparr> m_locker := int i, m_busy := True \<rparr>"
  have "1 \<le> wait_of ?a j \<and> wait_of ?a j < wait_of a j"
    if j: "j < length (m_entries a)" "ae_valid (m_entries a ! j)" "j \<noteq> i" for j
    using i(4) [rule_format, OF j(1,2)] i(2) j assms(1)
    by (auto simp: wait_of_def Let_def arbiter_ok_def split: if_splits)
  then show ?thesis using i by (intro exI [of _ i] exI [of _ ?a]) (simp add: arbiter_ok_def)
qed

text \<open>Reading the active lock brings a removed locker back: \<open>getActiveLockAddress\<close>
  assigns the flag it means to check, so that after the last locker was removed the arbiter has
  a locker again.\<close>

theorem getActiveLockAddress_revives_locker:
  assumes "0 \<le> m_locker a" "m_locker a < int (length (m_entries a))" "\<not> lockersExist a"
  shows "\<exists>a'. getActiveLockAddress a = Some (ae_address (m_entries a ! nat (m_locker a)), a') \<and>
     lockersExist a'"
proof -
  let ?k = "nat (m_locker a)"
  have "ae_valid ((m_entries a)[?k := (m_entries a ! ?k)\<lparr> ae_valid := True \<rparr>] ! ?k)"
    using assms by simp
  then have "list_ex ae_valid ((m_entries a)[?k := (m_entries a ! ?k)\<lparr> ae_valid := True \<rparr>])"
    using assms unfolding list_ex_iff by (metis length_list_update nat_less_iff nth_mem)
  then show ?thesis using assms
    by (simp add: getActiveLockAddress_def touch_locker_def Let_def lockersExist_def)
qed

lemma persistent_lock_unlock_witness:
  "\<exists>t1 t2. persistentRequestLock sample_config' [16, 8, 2] 0x1200 (0, 3) AccessType_Write Map.empty = Some t1 \<and>
     isLocked sample_config' 0x1200 t1 = Some True \<and>
     persistentRequestUnlock sample_config' 0x1200 (0, 3) t1 = Some t2 \<and> table_ok [16, 8, 2] t2 \<and>
     set_of m_starving nd_elems t2 = set_of m_starving nd_elems Map.empty \<and>
     set_of m_marked nd_elems t2 = set_of m_marked nd_elems Map.empty \<and>
     set_of m_request_to_write nd_elems t2 = set_of m_request_to_write nd_elems Map.empty"
  by (rule persistent_lock_unlock [OF _ sample_line])
    (simp_all add: table_ok_def all_machines_def set_of_def)

lemma node_persistent_wave_witness:
  "\<exists>t1 t2. node_markEntries sample_config' 0x1200 Map.empty = Some t1 \<and>
     node_persistentRequestLock sample_config' 0x1200 5 AccessType_Read t1 = Some t2 \<and>
     node_table_ok (nat (g_NUM_PROCESSORS sample_config')) t2 \<and>
     set_of m_marked opt_elems t2 0x1200 = set_of m_starving opt_elems Map.empty 0x1200 \<and>
     5 \<in> set_of m_starving opt_elems t2 0x1200 \<and> 5 \<notin> set_of m_marked opt_elems t2 0x1200"
proof -
  have "nat (g_NUM_PROCESSORS sample_config') = 16" by code_simp
  then show ?thesis
    by (intro node_persistent_wave [OF _ sample_line]) (simp_all add: node_table_ok_def set_of_def)
qed

definition sample_arbiter :: persistent_arbiter where
  "sample_arbiter = \<lparr> m_entries =
     map (\<lambda>i. \<lparr> ae_valid = (i = 0 \<or> i = 2), ae_address = 0x1200, ae_type = AccessType_Read,
                ae_localId = i \<rparr>) [0..<4],
     m_busy = True, m_locker = 2, m_issued_address = 0 \<rparr>"

lemma arbiter_round_robin_witness:
  "\<exists>i a'. advanceActiveLock sample_arbiter = Some a' \<and> m_locker a' = int i \<and> m_busy a' \<and> arbiter_ok a' \<and>
     ae_valid (m_entries sample_arbiter ! i) \<and>
     (\<forall>j<length (m_entries sample_arbiter). ae_valid (m_entries sample_arbiter ! j) \<and> j \<noteq> i \<longrightarrow>
        1 \<le> wait_of a' j \<and> wait_of a' j < wait_of sample_arbiter j)"
proof -
  have "arbiter_ok sample_arbiter" "lockersExist sample_arbiter" by code_simp+
  then show ?thesis by (rule arbiter_round_robin)
qed

lemma getActiveLockAddress_revives_locker_witness:
  "let a = sample_arbiter\<lparr> m_entries := map (\<lambda>e. e\<lparr> ae_valid := False \<rparr>) (m_entries sample_arbiter) \<rparr> in
   \<exists>a'. getActiveLockAddress a = Some (ae_address (m_entries a ! nat (m_locker a)), a') \<and> lockersExist a'"
proof -
  let ?a = "sample_arbiter\<lparr> m_entries := map (\<lambda>e. e\<lparr> ae_valid := False \<rparr>) (m_entries sample_arbiter) \<rparr>"
  have "0 \<le> m_locker ?a" "m_locker ?a < int (length (m_entries ?a))" "\<not> lockersExist ?a"
    by (simp_all add: sample_arbiter_def lockersExist_def list_ex_iff)
  then show ?thesis unfolding Let_def by (rule getActiveLockAddress_revives_locker)
qed

end
