(* ===== verification/Memory_Control.thy ===== *)
theory Memory_Control
  imports Event_Queue Component_Mapping
begin

text \<open>
  \<open>ruby_clean/system/MemoryControl.C\<close> with \<open>MemoryControl.h\<close> and \<open>MemoryNode.h\<close>: the
  timing model of one DRAM channel.

  The constants that the constructor reads from \<open>RubyConfig\<close> are the record \<open>mem_config\<close>,
  the rest of the object is \<open>mem_ctl\<close>.  The calls of \<open>scheduleEventAbsolute\<close> that an
  operation makes are collected, in order, in the field \<open>m_events\<close> (the form in which
  \<open>triggerWakeup\<close> takes them).  The values of \<open>random()\<close> are the argument \<open>rnd\<close>, indexed by
  the number of calls made so far, the field \<open>m_random_calls\<close>.  An access outside an array, an
  \<open>int\<close> shift by 32 or more and a division by zero are aborted runs.  The counters of the
  profiler and the debug output are left out.
\<close>

section \<open>Data\<close>

definition ACTIVATE_PER_TFAW :: int where
  "ACTIVATE_PER_TFAW = 4"

definition IDLECOUNT_MAX_VALUE :: int where
  "IDLECOUNT_MAX_VALUE = 1000"

record 'm MemoryNode =
  mn_time :: Time
  mn_msg_counter :: int
  mn_msgptr :: "'m option"
  mn_addr :: physical_address_t
  mn_is_mem_read :: bool
  mn_is_dirty_wb :: bool

record mem_config =
  m_mem_bus_cycle_multiplier :: int
  m_banks_per_rank :: int
  m_ranks_per_dimm :: int
  m_dimms_per_channel :: int
  m_bank_bit_0 :: nat
  m_rank_bit_0 :: nat
  m_dimm_bit_0 :: nat
  m_bank_queue_size :: nat
  m_bank_busy_time :: int
  m_rank_rank_delay :: int
  m_read_write_delay :: int
  m_basic_bus_busy_time :: int
  m_mem_ctl_latency :: int
  m_refresh_period :: int
  m_memRandomArbitrate :: int
  m_tFaw :: int
  m_memFixedDelay :: int

record ('c, 'm) mem_ctl =
  m_mem_consumer :: "'c option"
  m_mem_msg_counter :: int
  m_awakened :: bool
  m_refresh_period_system :: int
  m_response_queue :: "'m MemoryNode list"
  m_input_queue :: "'m MemoryNode list"
  m_bankQueues :: "'m MemoryNode list list"
  m_bankBusyCounter :: "int list"
  m_oldRequest :: "bool list"
  m_tfaw_shift :: "64 word list"
  m_tfaw_count :: "int list"
  m_busBusyCounter_Write :: int
  m_busBusyCounter_ReadNewRank :: int
  m_busBusyCounter_Basic :: int
  m_busBusy_WhichRank :: int
  m_roundRobin :: nat
  m_refresh_count :: int
  m_need_refresh :: int
  m_refresh_bank :: nat
  m_ageCounter :: int
  m_idleCount :: int
  m_events :: "('c \<times> Time) list"
  m_random_calls :: nat

definition m_total_banks :: "mem_config \<Rightarrow> int" where
  "m_total_banks k = m_banks_per_rank k * m_ranks_per_dimm k * m_dimms_per_channel k"

definition m_total_ranks :: "mem_config \<Rightarrow> int" where
  "m_total_ranks k = m_ranks_per_dimm k * m_dimms_per_channel k"

section \<open>Operations\<close>

definition MemoryControl_new :: "mem_config \<Rightarrow> ('c, 'm) mem_ctl option" where
  "MemoryControl_new k = do {
     assert_that (m_tFaw k \<le> 62);
     assert_that (m_total_banks k \<noteq> 0);
     assert_that (0 \<le> m_total_banks k \<and> 0 \<le> m_total_ranks k);
     Some \<lparr> m_mem_consumer = None, m_mem_msg_counter = 0, m_awakened = False,
       m_refresh_period_system =
         (if m_refresh_period k < 0 then - ((- m_refresh_period k) div m_total_banks k)
          else m_refresh_period k div m_total_banks k),
       m_response_queue = [], m_input_queue = [],
       m_bankQueues = replicate (nat (m_total_banks k)) [],
       m_bankBusyCounter = replicate (nat (m_total_banks k)) 0,
       m_oldRequest = replicate (nat (m_total_banks k)) False,
       m_tfaw_shift = replicate (nat (m_total_ranks k)) 0,
       m_tfaw_count = replicate (nat (m_total_ranks k)) 0,
       m_busBusyCounter_Write = 0, m_busBusyCounter_ReadNewRank = 0, m_busBusyCounter_Basic = 0,
       m_busBusy_WhichRank = 0, m_roundRobin = 0, m_refresh_count = 1, m_need_refresh = 0,
       m_refresh_bank = 0, m_ageCounter = 0, m_idleCount = 0, m_events = [],
       m_random_calls = 0 \<rparr> }"

definition mem_setConsumer :: "'c option \<Rightarrow> ('c, 'm) mem_ctl \<Rightarrow> ('c, 'm) mem_ctl" where
  "mem_setConsumer c mc = mc\<lparr> m_mem_consumer := c \<rparr>"

text \<open>The masks are computed in \<open>uint64\<close> and stored in an \<open>int\<close>.\<close>

definition addr_field :: "physical_address_t \<Rightarrow> nat \<Rightarrow> int \<Rightarrow> int" where
  "addr_field addr b n = to_int32 (drop_bit b addr AND word_of_int (n - 1))"

definition getBank :: "mem_config \<Rightarrow> physical_address_t \<Rightarrow> int" where
  "getBank k addr =
     (let dimm = addr_field addr (m_dimm_bit_0 k) (m_dimms_per_channel k);
          rank = addr_field addr (m_rank_bit_0 k) (m_ranks_per_dimm k);
          bank = addr_field addr (m_bank_bit_0 k) (m_banks_per_rank k)
      in dimm * m_ranks_per_dimm k * m_banks_per_rank k + rank * m_banks_per_rank k + bank)"

definition getRank :: "mem_config \<Rightarrow> nat \<Rightarrow> nat option" where
  "getRank k bank = (let rank = int bank div m_banks_per_rank k in do {
     assert_that (m_banks_per_rank k > 0);
     assert_that (rank < m_ranks_per_dimm k * m_dimms_per_channel k);
     Some (nat rank) })"

definition enqueueMemRef ::
    "mem_config \<Rightarrow> 'c \<Rightarrow> Time \<Rightarrow> 'm MemoryNode \<Rightarrow> ('c, 'm) mem_ctl \<Rightarrow> ('c, 'm) mem_ctl" where
  "enqueueMemRef k self now memRef mc =
     (let n = m_mem_msg_counter mc + 1;
          mc = mc\<lparr> m_mem_msg_counter := n,
                   m_input_queue := m_input_queue mc @ [memRef\<lparr> mn_msg_counter := n \<rparr>] \<rparr>
      in if \<not> m_awakened mc
         then mc\<lparr> m_events := m_events mc @ [(self, now + 1)], m_awakened := True \<rparr>
         else mc)"

definition mem_enqueue ::
    "mem_config \<Rightarrow> 'c \<Rightarrow> Time \<Rightarrow> 'm \<Rightarrow> physical_address_t \<Rightarrow> bool \<Rightarrow> int \<Rightarrow>
     ('c, 'm) mem_ctl \<Rightarrow> ('c, 'm) mem_ctl" where
  "mem_enqueue k self now msg addr is_mem_read latency mc =
     enqueueMemRef k self now
       \<lparr> mn_time = now + latency, mn_msg_counter = 0, mn_msgptr = Some msg, mn_addr = addr,
         mn_is_mem_read = is_mem_read, mn_is_dirty_wb = \<not> is_mem_read \<rparr> mc"

definition mem_isReady :: "Time \<Rightarrow> ('c, 'm) mem_ctl \<Rightarrow> bool" where
  "mem_isReady now mc \<longleftrightarrow> (case m_response_queue mc of [] \<Rightarrow> False | r # _ \<Rightarrow> mn_time r \<le> now)"

definition mem_dequeue :: "Time \<Rightarrow> ('c, 'm) mem_ctl \<Rightarrow> ('c, 'm) mem_ctl option" where
  "mem_dequeue now mc = do {
     assert_that (mem_isReady now mc);
     Some (mc\<lparr> m_response_queue := tl (m_response_queue mc) \<rparr>) }"

definition peekNode :: "Time \<Rightarrow> ('c, 'm) mem_ctl \<Rightarrow> 'm MemoryNode option" where
  "peekNode now mc = do {
     assert_that (mem_isReady now mc);
     Some (hd (m_response_queue mc)) }"

definition mem_peek :: "Time \<Rightarrow> ('c, 'm) mem_ctl \<Rightarrow> 'm option" where
  "mem_peek now mc = do { node \<leftarrow> peekNode now mc; mn_msgptr node }"

definition enqueueToDirectory ::
    "mem_config \<Rightarrow> Time \<Rightarrow> 'm MemoryNode \<Rightarrow> int \<Rightarrow> ('c, 'm) mem_ctl \<Rightarrow> ('c, 'm) mem_ctl option" where
  "enqueueToDirectory k now req latency mc =
     (let arrival_time = now + latency * m_mem_bus_cycle_multiplier k in do {
        c \<leftarrow> m_mem_consumer mc;
        Some (mc\<lparr> m_response_queue := m_response_queue mc @ [req\<lparr> mn_time := arrival_time \<rparr>],
                  m_events := m_events mc @ [(c, arrival_time)] \<rparr>) })"

text \<open>\<open>1 << (m_tFaw-1)\<close> is an \<open>int\<close>, sign extended when it is stored in a \<open>uint64\<close>.\<close>

definition int_shift_1 :: "int \<Rightarrow> 64 word option" where
  "int_shift_1 n = do {
     assert_that (0 \<le> n \<and> n < 32);
     Some (scast (push_bit (nat n) 1 :: 32 word)) }"

definition markTfaw :: "mem_config \<Rightarrow> nat \<Rightarrow> ('c, 'm) mem_ctl \<Rightarrow> ('c, 'm) mem_ctl option" where
  "markTfaw k rank mc = (if m_tFaw k \<noteq> 0 then do {
     w \<leftarrow> int_shift_1 (m_tFaw k - 1);
     assert_that (rank < length (m_tfaw_shift mc) \<and> rank < length (m_tfaw_count mc));
     Some (mc\<lparr> m_tfaw_shift := (m_tfaw_shift mc)[rank := m_tfaw_shift mc ! rank OR w],
               m_tfaw_count := (m_tfaw_count mc)[rank := m_tfaw_count mc ! rank + 1] \<rparr>) }
   else Some mc)"

text \<open>The state changes of \<open>queueReady\<close> are those of \<open>random()\<close>.\<close>

definition queueReady_arbitrated ::
    "mem_config \<Rightarrow> nat \<Rightarrow> ('c, 'm) mem_ctl \<Rightarrow> bool option" where
  "queueReady_arbitrated k bank mc =
     (if m_memFixedDelay k \<noteq> 0 then Some True else do {
        assert_that (bank < length (m_oldRequest mc));
        (if m_ageCounter mc > 2 * m_bank_busy_time k \<and> \<not> m_oldRequest mc ! bank then Some False
         else if m_busBusyCounter_Basic mc = m_basic_bus_busy_time k then Some False
         else if m_busBusyCounter_Basic mc > 0 then Some False
         else do {
           rank \<leftarrow> getRank k bank;
           assert_that (rank < length (m_tfaw_count mc));
           (if m_tfaw_count mc ! rank \<ge> ACTIVATE_PER_TFAW then Some False else do {
              assert_that (bank < length (m_bankQueues mc) \<and> m_bankQueues mc ! bank \<noteq> []);
              let write = (\<not> mn_is_mem_read (hd (m_bankQueues mc ! bank)));
              (if write \<and> m_busBusyCounter_Write mc > 0 then Some False
               else if \<not> write \<and> int rank \<noteq> m_busBusy_WhichRank mc
                       \<and> m_busBusyCounter_ReadNewRank mc > 0 then Some False
               else Some True) }) }) })"

definition queueReady ::
    "(nat \<Rightarrow> nat) \<Rightarrow> mem_config \<Rightarrow> nat \<Rightarrow> ('c, 'm) mem_ctl \<Rightarrow> (bool \<times> ('c, 'm) mem_ctl) option" where
  "queueReady rnd k bank mc = do {
     assert_that (bank < length (m_bankBusyCounter mc));
     (if m_bankBusyCounter mc ! bank > 0 \<and> m_memFixedDelay k = 0 then Some (False, mc)
      else if m_memRandomArbitrate k \<ge> 2 then
        (let r = int (rnd (m_random_calls mc)) mod 100;
             mc = mc\<lparr> m_random_calls := m_random_calls mc + 1 \<rparr>
         in if r < m_memRandomArbitrate k then Some (False, mc)
            else map_option (\<lambda>b. (b, mc)) (queueReady_arbitrated k bank mc))
      else map_option (\<lambda>b. (b, mc)) (queueReady_arbitrated k bank mc)) }"

text \<open>The answer of \<open>issueRefresh\<close> is ignored by its caller.\<close>

definition issueRefresh ::
    "mem_config \<Rightarrow> nat \<Rightarrow> ('c, 'm) mem_ctl \<Rightarrow> (bool \<times> ('c, 'm) mem_ctl) option" where
  "issueRefresh k bank mc =
     (if m_need_refresh mc = 0 \<or> m_refresh_bank mc \<noteq> bank then Some (False, mc) else do {
        assert_that (bank < length (m_bankBusyCounter mc));
        (if m_bankBusyCounter mc ! bank > 0 then Some (False, mc)
         else if m_busBusyCounter_Basic mc > 0 then Some (False, mc) else do {
           rank \<leftarrow> getRank k bank;
           assert_that (rank < length (m_tfaw_count mc));
           (if m_tfaw_count mc ! rank \<ge> ACTIVATE_PER_TFAW then Some (False, mc) else do {
              let next = m_refresh_bank mc + 1;
              mc' \<leftarrow> markTfaw k rank
                (mc\<lparr> m_need_refresh := m_need_refresh mc - 1,
                     m_refresh_bank := (if int next \<ge> m_total_banks k then 0 else next),
                     m_bankBusyCounter := (m_bankBusyCounter mc)[bank := m_bank_busy_time k],
                     m_busBusyCounter_Basic := m_basic_bus_busy_time k,
                     m_busBusyCounter_Write := m_basic_bus_busy_time k,
                     m_busBusyCounter_ReadNewRank := m_basic_bus_busy_time k \<rparr>);
              Some (True, mc') }) }) })"

definition issueRequest ::
    "mem_config \<Rightarrow> Time \<Rightarrow> nat \<Rightarrow> ('c, 'm) mem_ctl \<Rightarrow> ('c, 'm) mem_ctl option" where
  "issueRequest k now bank mc = do {
     rank \<leftarrow> getRank k bank;
     assert_that (bank < length (m_bankQueues mc) \<and> m_bankQueues mc ! bank \<noteq> []);
     let req = hd (m_bankQueues mc ! bank);
     let mc = mc\<lparr> m_bankQueues := (m_bankQueues mc)[bank := tl (m_bankQueues mc ! bank)] \<rparr>;
     mc \<leftarrow> (if mn_msgptr req \<noteq> None
            then enqueueToDirectory k now req (m_mem_ctl_latency k + m_memFixedDelay k) mc
            else Some mc);
     assert_that (bank < length (m_oldRequest mc));
     mc \<leftarrow> markTfaw k rank (mc\<lparr> m_oldRequest := (m_oldRequest mc)[bank := False] \<rparr>);
     assert_that (bank < length (m_bankBusyCounter mc));
     let mc = mc\<lparr> m_bankBusyCounter := (m_bankBusyCounter mc)[bank := m_bank_busy_time k],
                  m_busBusy_WhichRank := int rank \<rparr>;
     Some (if mn_is_mem_read req then
             mc\<lparr> m_busBusyCounter_Basic := m_basic_bus_busy_time k,
                 m_busBusyCounter_Write := m_basic_bus_busy_time k + m_read_write_delay k,
                 m_busBusyCounter_ReadNewRank := m_basic_bus_busy_time k + m_rank_rank_delay k \<rparr>
           else
             mc\<lparr> m_busBusyCounter_Basic := m_basic_bus_busy_time k,
                 m_busBusyCounter_Write := m_basic_bus_busy_time k,
                 m_busBusyCounter_ReadNewRank := m_basic_bus_busy_time k \<rparr>) }"

definition down :: "int \<Rightarrow> int" where
  "down n = (if n > 0 then n - 1 else n)"

text \<open>The first part of \<open>executeCycle\<close>: the busy counters and the tFAW shift registers.\<close>

definition cycle_count_down :: "('c, 'm) mem_ctl \<Rightarrow> ('c, 'm) mem_ctl" where
  "cycle_count_down mc = mc\<lparr>
     m_bankBusyCounter := map down (m_bankBusyCounter mc),
     m_busBusyCounter_Write := down (m_busBusyCounter_Write mc),
     m_busBusyCounter_ReadNewRank := down (m_busBusyCounter_ReadNewRank mc),
     m_busBusyCounter_Basic := down (m_busBusyCounter_Basic mc),
     m_tfaw_count := map2 (\<lambda>w n. if w AND 1 \<noteq> 0 then n - 1 else n) (m_tfaw_shift mc) (m_tfaw_count mc),
     m_tfaw_shift := map (drop_bit 1) (m_tfaw_shift mc) \<rparr>"

definition cycle_refresh_timer :: "mem_config \<Rightarrow> ('c, 'm) mem_ctl \<Rightarrow> ('c, 'm) mem_ctl option" where
  "cycle_refresh_timer k mc =
     (let n = (if m_memFixedDelay k = 0 then m_refresh_count mc - 1 else m_refresh_count mc)
      in if n = 0 then do {
           assert_that (m_need_refresh mc < 10);
           Some (mc\<lparr> m_refresh_count := m_refresh_period_system mc,
                     m_need_refresh := m_need_refresh mc + 1 \<rparr>) }
         else Some (mc\<lparr> m_refresh_count := n \<rparr>))"

definition cycle_new_batch :: "('c, 'm) mem_ctl \<Rightarrow> ('c, 'm) mem_ctl" where
  "cycle_new_batch mc =
     (let mc = mc\<lparr> m_ageCounter := m_ageCounter mc + 1 \<rparr>
      in if \<not> list_ex (\<lambda>old. old) (m_oldRequest mc) then
           mc\<lparr> m_oldRequest := map2 (\<lambda>q old. q \<noteq> [] \<or> old) (m_bankQueues mc) (m_oldRequest mc),
               m_ageCounter := 0 \<rparr>
         else mc)"

definition cycle_randomize ::
    "(nat \<Rightarrow> nat) \<Rightarrow> mem_config \<Rightarrow> ('c, 'm) mem_ctl \<Rightarrow> ('c, 'm) mem_ctl" where
  "cycle_randomize rnd k mc =
     (if m_memRandomArbitrate k \<noteq> 0
      then mc\<lparr> m_roundRobin := rnd (m_random_calls mc) mod nat (m_total_banks k),
               m_random_calls := m_random_calls mc + 1 \<rparr>
      else mc)"

text \<open>One round of the scan over the banks.\<close>

definition next_bank :: "mem_config \<Rightarrow> ('c, 'm) mem_ctl \<Rightarrow> nat" where
  "next_bank k mc = (if int (m_roundRobin mc + 1) \<ge> m_total_banks k then 0 else m_roundRobin mc + 1)"

definition scan_bank ::
    "(nat \<Rightarrow> nat) \<Rightarrow> mem_config \<Rightarrow> Time \<Rightarrow> nat \<Rightarrow> ('c, 'm) mem_ctl \<Rightarrow> ('c, 'm) mem_ctl option" where
  "scan_bank rnd k now _ mc = do {
     let rr = next_bank k mc;
     (_, mc) \<leftarrow> issueRefresh k rr (mc\<lparr> m_roundRobin := rr \<rparr>);
     assert_that (rr < length (m_bankQueues mc));
     (if length (m_bankQueues mc ! rr) > 0 then do {
        (ready, mc) \<leftarrow> queueReady rnd k rr (mc\<lparr> m_idleCount := IDLECOUNT_MAX_VALUE \<rparr>);
        (if ready then issueRequest k now rr mc else Some mc) }
      else Some mc) }"

definition cycle_input :: "mem_config \<Rightarrow> ('c, 'm) mem_ctl \<Rightarrow> ('c, 'm) mem_ctl option" where
  "cycle_input k mc = (case m_input_queue mc of
       [] \<Rightarrow> Some mc
     | req # rest \<Rightarrow> (let bank = nat (getBank k (mn_addr req)) in do {
         assert_that (0 \<le> getBank k (mn_addr req) \<and> bank < length (m_bankQueues mc));
         (if length (m_bankQueues mc ! bank) < m_bank_queue_size k
          then Some (mc\<lparr> m_idleCount := IDLECOUNT_MAX_VALUE, m_input_queue := rest,
                 m_bankQueues := (m_bankQueues mc)[bank := m_bankQueues mc ! bank @ [req]] \<rparr>)
          else Some (mc\<lparr> m_idleCount := IDLECOUNT_MAX_VALUE \<rparr>)) }))"

definition executeCycle ::
    "(nat \<Rightarrow> nat) \<Rightarrow> mem_config \<Rightarrow> Time \<Rightarrow> ('c, 'm) mem_ctl \<Rightarrow> ('c, 'm) mem_ctl option" where
  "executeCycle rnd k now mc = do {
     mc \<leftarrow> cycle_refresh_timer k (cycle_count_down mc);
     mc \<leftarrow> run_all (scan_bank rnd k now) [0..<nat (m_total_banks k)]
             (cycle_randomize rnd k (cycle_new_batch mc));
     cycle_input k mc }"

definition MemoryControl_wakeup ::
    "(nat \<Rightarrow> nat) \<Rightarrow> mem_config \<Rightarrow> 'c \<Rightarrow> Time \<Rightarrow> ('c, 'm) mem_ctl \<Rightarrow> ('c, 'm) mem_ctl option" where
  "MemoryControl_wakeup rnd k self now mc = do {
     mc \<leftarrow> executeCycle rnd k now mc;
     let mc = mc\<lparr> m_idleCount := m_idleCount mc - 1 \<rparr>;
     Some (if m_idleCount mc \<le> 0 then mc\<lparr> m_awakened := False \<rparr>
           else mc\<lparr> m_events := m_events mc @ [(self, now + m_mem_bus_cycle_multiplier k)] \<rparr>) }"

section \<open>Invariant and abstraction\<close>

abbreviation nbanks :: "mem_config \<Rightarrow> nat" where
  "nbanks k \<equiv> nat (m_total_banks k)"

abbreviation nranks :: "mem_config \<Rightarrow> nat" where
  "nranks k \<equiv> nat (m_total_ranks k)"

definition mem_config_ok :: "mem_config \<Rightarrow> bool" where
  "mem_config_ok k \<longleftrightarrow> 0 < m_banks_per_rank k \<and> 0 < m_ranks_per_dimm k \<and> 0 < m_dimms_per_channel k \<and>
     m_banks_per_rank k \<le> 2 ^ 31 \<and> m_ranks_per_dimm k \<le> 2 ^ 31 \<and> m_dimms_per_channel k \<le> 2 ^ 31 \<and>
     0 \<le> m_tFaw k \<and> m_tFaw k \<le> 31 \<and> 0 < m_basic_bus_busy_time k"

definition bank_ok :: "mem_config \<Rightarrow> nat \<Rightarrow> 'm MemoryNode list \<Rightarrow> bool" where
  "bank_ok k b q \<longleftrightarrow> length q \<le> m_bank_queue_size k \<and> (\<forall>r\<in>set q. getBank k (mn_addr r) = int b)"

text \<open>The queues: every bank holds requests of its own and no more than its queue may have, and
  only a bank with a request has an old one.\<close>

definition mem_ok :: "mem_config \<Rightarrow> ('c, 'm) mem_ctl \<Rightarrow> bool" where
  "mem_ok k mc \<longleftrightarrow> m_mem_consumer mc \<noteq> None \<and>
     length (m_bankQueues mc) = nbanks k \<and> length (m_bankBusyCounter mc) = nbanks k \<and>
     length (m_oldRequest mc) = nbanks k \<and> length (m_tfaw_shift mc) = nranks k \<and>
     length (m_tfaw_count mc) = nranks k \<and> m_roundRobin mc < nbanks k \<and>
     0 \<le> m_busBusyCounter_Basic mc \<and>
     (\<forall>b<nbanks k. bank_ok k b (m_bankQueues mc ! b) \<and>
        (m_oldRequest mc ! b \<longrightarrow> m_bankQueues mc ! b \<noteq> []))"

text \<open>The activates of the last \<open>m_tFaw\<close> cycles: the counter of a rank is the number of ones in
  its shift register and at most four.\<close>

definition tfaw_ok :: "mem_config \<Rightarrow> ('c, 'm) mem_ctl \<Rightarrow> bool" where
  "tfaw_ok k mc \<longleftrightarrow> (\<forall>r<nranks k.
     m_tfaw_count mc ! r = int (card {i. bit (m_tfaw_shift mc ! r) i}) \<and>
     m_tfaw_count mc ! r \<le> ACTIVATE_PER_TFAW \<and>
     (\<forall>i. bit (m_tfaw_shift mc ! r) i \<longrightarrow> int i < m_tFaw k))"

text \<open>Nothing was activated in this cycle.\<close>

definition tfaw_fresh :: "mem_config \<Rightarrow> ('c, 'm) mem_ctl \<Rightarrow> bool" where
  "tfaw_fresh k mc \<longleftrightarrow> (\<forall>r<nranks k. \<forall>i. bit (m_tfaw_shift mc ! r) i \<longrightarrow> int i < m_tFaw k - 1)"

text \<open>The requests of one bank that will be answered, from the oldest to the newest: those
  answered and not yet taken by the directory, those in the bank queue, those in the input
  queue.\<close>

definition untimed :: "'m MemoryNode \<Rightarrow> 'm MemoryNode" where
  "untimed r = r\<lparr> mn_time := 0 \<rparr>"

definition answered :: "mem_config \<Rightarrow> nat \<Rightarrow> 'm MemoryNode list \<Rightarrow> 'm MemoryNode list" where
  "answered k b rs = map untimed
     (filter (\<lambda>r. mn_msgptr r \<noteq> None \<and> getBank k (mn_addr r) = int b) rs)"

definition bank_flow :: "mem_config \<Rightarrow> nat \<Rightarrow> ('c, 'm) mem_ctl \<Rightarrow> 'm MemoryNode list" where
  "bank_flow k b mc = answered k b (m_response_queue mc @ m_bankQueues mc ! b @ m_input_queue mc)"

section \<open>Banks and ranks\<close>

lemma nbanks_nranks:
  assumes "mem_config_ok k"
  shows "int (nbanks k) = m_total_banks k" "int (nranks k) = m_total_ranks k" "0 < nbanks k"
    "m_total_banks k = m_banks_per_rank k * m_total_ranks k"
  using assms by (auto simp: mem_config_ok_def m_total_banks_def m_total_ranks_def)

lemma addr_field_range:
  assumes "0 < n" "n \<le> 2 ^ 31"
  shows "0 \<le> addr_field a b n \<and> addr_field a b n < n"
proof -
  have m: "unat (word_of_int (n - 1) :: 64 word) = nat (n - 1)"
    using assms unsigned_of_int [of "n - 1", where 'a = nat and 'b = 64]
    by (simp add: take_bit_int_eq_self del: of_int_diff)
  define w where "w = drop_bit b a AND (word_of_int (n - 1) :: 64 word)"
  have w: "unat w \<le> nat (n - 1)"
    using word_and_le1 [of "drop_bit b a" "word_of_int (n - 1)"] m
    by (simp add: word_le_nat_alt w_def del: of_int_diff)
  moreover have "nat (n - 1) < 2 ^ 31" using assms by simp
  ultimately have "to_int32 w = int (unat w)" by (intro to_int32_small) simp
  moreover have "int (unat w) \<le> n - 1" using w assms by linarith
  ultimately show ?thesis by (simp add: addr_field_def flip: w_def del: of_int_diff)
qed

lemma mixed_radix_less:
  fixes b n d r :: int
  assumes "0 \<le> d" "d < m" "0 \<le> b" "b < n" "0 < n"
  shows "d * n + b < m * n" "0 \<le> d * n + b"
proof -
  have "(d + 1) * n \<le> m * n" using assms by (intro mult_right_mono) auto
  then show "d * n + b < m * n" using assms by (simp add: algebra_simps)
  show "0 \<le> d * n + b" using assms by simp
qed

lemma mixed_radix_unique:
  fixes b b' n d d' :: int
  assumes "d * n + b = d' * n + b'" "0 \<le> b" "b < n" "0 \<le> b'" "b' < n"
  shows "d = d' \<and> b = b'"
proof -
  have n: "n \<noteq> 0" using assms by simp
  have "(d * n + b) div n = d" "(d' * n + b') div n = d'"
    using assms(2-5) by (simp_all add: div_mult_self3 [OF n] div_pos_pos_trivial)
  then show ?thesis using assms(1) by auto
qed

lemma getBank_alt:
  "getBank k a = (addr_field a (m_dimm_bit_0 k) (m_dimms_per_channel k) * m_ranks_per_dimm k
     + addr_field a (m_rank_bit_0 k) (m_ranks_per_dimm k)) * m_banks_per_rank k
     + addr_field a (m_bank_bit_0 k) (m_banks_per_rank k)"
  by (simp add: getBank_def algebra_simps)

lemma getBank_range:
  assumes "mem_config_ok k"
  shows "0 \<le> getBank k a" "getBank k a < m_total_banks k"
proof -
  let ?d = "addr_field a (m_dimm_bit_0 k) (m_dimms_per_channel k)"
  let ?r = "addr_field a (m_rank_bit_0 k) (m_ranks_per_dimm k)"
  let ?b = "addr_field a (m_bank_bit_0 k) (m_banks_per_rank k)"
  have k: "0 < m_banks_per_rank k" "0 < m_ranks_per_dimm k" using assms by (auto simp: mem_config_ok_def)
  have d: "0 \<le> ?d" "?d < m_dimms_per_channel k" and r: "0 \<le> ?r" "?r < m_ranks_per_dimm k"
    and b: "0 \<le> ?b" "?b < m_banks_per_rank k"
    using addr_field_range assms by (auto simp: mem_config_ok_def)
  note dr = mixed_radix_less [OF d r k(2)]
  note drb = mixed_radix_less [OF dr(2,1) b k(1)]
  show "0 \<le> getBank k a" "getBank k a < m_total_banks k"
    using drb by (simp_all add: getBank_alt m_total_banks_def algebra_simps)
qed

lemma getRank_some:
  assumes "mem_config_ok k" "bank < nbanks k"
  obtains r where "getRank k bank = Some r" "r < nranks k"
proof -
  have k: "0 < m_banks_per_rank k" using assms(1) by (simp add: mem_config_ok_def)
  have "int bank < m_total_ranks k * m_banks_per_rank k"
    using assms nbanks_nranks [OF assms(1)] by (simp add: mult.commute)
  then have "int bank div m_banks_per_rank k < m_total_ranks k" using k by (intro int_div_less)
  moreover have "0 \<le> int bank div m_banks_per_rank k" using k by (simp add: pos_imp_zdiv_nonneg_iff)
  ultimately show ?thesis
    using that [of "nat (int bank div m_banks_per_rank k)"] k
    by (simp add: getRank_def m_total_ranks_def)
qed

section \<open>The parts of a cycle\<close>

lemma markTfaw_some:
  assumes "mem_config_ok k" "mem_ok k mc" "rank < nranks k"
  obtains sh ct where "markTfaw k rank mc = Some (mc\<lparr> m_tfaw_shift := sh, m_tfaw_count := ct \<rparr>)"
    "length sh = nranks k" "length ct = nranks k"
proof (cases "m_tFaw k = 0")
  case True
  then show ?thesis using assms that [where sh = "m_tfaw_shift mc" and ct = "m_tfaw_count mc"]
    by (simp add: markTfaw_def mem_ok_def)
next
  case False
  let ?w = "scast (push_bit (nat (m_tFaw k - 1)) 1 :: 32 word) :: 64 word"
  show ?thesis
    using assms False that [where sh = "(m_tfaw_shift mc)[rank := m_tfaw_shift mc ! rank OR ?w]"
        and ct = "(m_tfaw_count mc)[rank := m_tfaw_count mc ! rank + 1]"]
    by (simp add: markTfaw_def int_shift_1_def mem_ok_def mem_config_ok_def)
qed

lemma int_shift_1_small:
  assumes "0 \<le> n" "n < 31"
  shows "int_shift_1 n = Some (push_bit (nat n) 1)"
proof -
  have "scast (push_bit (nat n) 1 :: 32 word) = (push_bit (nat n) 1 :: 64 word)"
    using assms by (intro bit_word_eqI) (auto simp: bit_simps min_def)
  then show ?thesis using assms by (simp add: int_shift_1_def)
qed

lemma card_bits_set:
  fixes w :: "64 word"
  assumes "\<not> bit w n" "n < 64"
  shows "card {i. bit (w OR push_bit n 1) i} = card {i. bit w i} + 1"
proof -
  have "{i. bit (w OR push_bit n 1) i} = insert n {i. bit w i}"
    using assms by (auto simp: bit_simps)
  then show ?thesis using assms by simp
qed

lemma markTfaw_tfaw_ok:
  assumes "mem_config_ok k" "mem_ok k mc" "rank < nranks k" "tfaw_ok k mc" "tfaw_fresh k mc"
    "m_tfaw_count mc ! rank < ACTIVATE_PER_TFAW" "markTfaw k rank mc = Some mc'"
  shows "tfaw_ok k mc'"
proof (cases "m_tFaw k = 0")
  case True
  then show ?thesis using assms by (simp add: markTfaw_def)
next
  case False
  define n where "n = nat (m_tFaw k - 1)"
  have n: "int n = m_tFaw k - 1" "n < 64" "int_shift_1 (m_tFaw k - 1) = Some (push_bit n 1)"
    using assms(1) False int_shift_1_small [of "m_tFaw k - 1"]
    by (auto simp: n_def mem_config_ok_def)
  have len: "rank < length (m_tfaw_shift mc)" "rank < length (m_tfaw_count mc)"
    using assms by (auto simp: mem_ok_def)
  define v where "v = m_tfaw_shift mc ! rank OR push_bit n 1"
  have mc': "m_tfaw_shift mc' = (m_tfaw_shift mc)[rank := v]"
    "m_tfaw_count mc' = (m_tfaw_count mc)[rank := m_tfaw_count mc ! rank + 1]"
    using assms(7) False n(3) len by (auto simp: markTfaw_def v_def)
  have "\<not> bit (m_tfaw_shift mc ! rank) n"
    using assms(3,5) n(1) unfolding tfaw_fresh_def by force
  note card_v = card_bits_set [OF this n(2), folded v_def]
  have "\<forall>i. bit v i \<longrightarrow> int i < m_tFaw k"
    using assms(3,4) n(1) by (auto simp: v_def bit_simps tfaw_ok_def)
  then show ?thesis
    using assms(3,4,6) len n(1) card_v unfolding tfaw_ok_def mc'
    by (auto simp: nth_list_update)
qed

text \<open>Between two rounds of the scan: the bus is free only when nothing was activated.\<close>

definition tfaw_scan :: "mem_config \<Rightarrow> ('c, 'm) mem_ctl \<Rightarrow> bool" where
  "tfaw_scan k mc \<longleftrightarrow> tfaw_ok k mc \<and> (m_busBusyCounter_Basic mc = 0 \<longrightarrow> tfaw_fresh k mc)"

lemma tfaw_ok_cong:
  assumes "m_tfaw_shift mc' = m_tfaw_shift mc" "m_tfaw_count mc' = m_tfaw_count mc"
  shows "tfaw_ok k mc' = tfaw_ok k mc" "tfaw_fresh k mc' = tfaw_fresh k mc"
  unfolding tfaw_ok_def tfaw_fresh_def assms by (rule refl)+

lemma tfaw_scan_cong:
  assumes "m_tfaw_shift mc' = m_tfaw_shift mc" "m_tfaw_count mc' = m_tfaw_count mc"
    "m_busBusyCounter_Basic mc' = m_busBusyCounter_Basic mc"
  shows "tfaw_scan k mc' = tfaw_scan k mc"
  unfolding tfaw_scan_def tfaw_ok_cong [OF assms(1,2)] assms(3) by (rule refl)

lemma tfaw_scan_activated:
  assumes "tfaw_ok k mc" "m_tfaw_shift mc' = m_tfaw_shift mc" "m_tfaw_count mc' = m_tfaw_count mc"
    "m_busBusyCounter_Basic mc' \<noteq> 0"
  shows "tfaw_scan k mc'"
  using assms unfolding tfaw_scan_def tfaw_ok_cong [OF assms(2,3)] by simp

definition same_queues :: "('c, 'm) mem_ctl \<Rightarrow> ('c, 'm) mem_ctl \<Rightarrow> bool" where
  "same_queues mc mc' \<longleftrightarrow> m_response_queue mc' = m_response_queue mc \<and>
     m_input_queue mc' = m_input_queue mc \<and> m_bankQueues mc' = m_bankQueues mc \<and>
     m_roundRobin mc' = m_roundRobin mc \<and> m_oldRequest mc' = m_oldRequest mc \<and>
     m_events mc' = m_events mc"

lemma issueRefresh_some:
  assumes "mem_config_ok k" "mem_ok k mc" "bank < nbanks k"
  obtains b mc' where "issueRefresh k bank mc = Some (b, mc')" "mem_ok k mc'" "same_queues mc mc'"
    "tfaw_scan k mc \<longrightarrow> tfaw_scan k mc'"
proof (cases "issueRefresh k bank mc = Some (False, mc)")
  case True
  then show ?thesis using that assms by (auto simp: same_queues_def)
next
  case False
  obtain rank where rank: "getRank k bank = Some rank" "rank < nranks k"
    using assms getRank_some by blast
  have len: "bank < length (m_bankBusyCounter mc)" "rank < length (m_tfaw_count mc)"
    using assms rank(2) by (auto simp: mem_ok_def)
  let ?mc = "mc\<lparr> m_need_refresh := m_need_refresh mc - 1,
     m_refresh_bank := (if int (m_refresh_bank mc + 1) \<ge> m_total_banks k then 0 else m_refresh_bank mc + 1),
     m_bankBusyCounter := (m_bankBusyCounter mc)[bank := m_bank_busy_time k],
     m_busBusyCounter_Basic := m_basic_bus_busy_time k,
     m_busBusyCounter_Write := m_basic_bus_busy_time k,
     m_busBusyCounter_ReadNewRank := m_basic_bus_busy_time k \<rparr>"
  have ok: "mem_ok k ?mc" using assms by (auto simp: mem_ok_def mem_config_ok_def)
  then obtain sh ct where m: "markTfaw k rank ?mc = Some (?mc\<lparr> m_tfaw_shift := sh, m_tfaw_count := ct \<rparr>)"
    "length sh = nranks k" "length ct = nranks k" using assms(1) rank(2) markTfaw_some by metis
  have free: "\<not> m_busBusyCounter_Basic mc > 0" "m_tfaw_count mc ! rank < ACTIVATE_PER_TFAW"
    using False len rank by (auto simp: issueRefresh_def split: if_splits)
  have "issueRefresh k bank mc = Some (True, ?mc\<lparr> m_tfaw_shift := sh, m_tfaw_count := ct \<rparr>)"
    using False len rank(1) m(1) by (auto simp: issueRefresh_def Let_def split: if_splits)
  moreover have "mem_ok k (?mc\<lparr> m_tfaw_shift := sh, m_tfaw_count := ct \<rparr>)"
    using ok m(2,3) by (simp add: mem_ok_def)
  moreover have "tfaw_ok k (?mc\<lparr> m_tfaw_shift := sh, m_tfaw_count := ct \<rparr>)" if "tfaw_scan k mc"
  proof (rule markTfaw_tfaw_ok [OF assms(1) ok rank(2) _ _ _ m(1)])
    show "tfaw_ok k ?mc" "tfaw_fresh k ?mc" "m_tfaw_count ?mc ! rank < ACTIVATE_PER_TFAW"
      using that free assms(2) tfaw_ok_cong [of ?mc mc] by (auto simp: tfaw_scan_def mem_ok_def)
  qed
  ultimately show ?thesis
    using that assms(1) by (auto simp: same_queues_def tfaw_scan_def mem_config_ok_def)
qed

lemma queueReady_some:
  assumes "mem_config_ok k" "mem_ok k mc" "bank < nbanks k" "m_bankQueues mc ! bank \<noteq> []"
  obtains b n where "queueReady rnd k bank mc = Some (b, mc\<lparr> m_random_calls := n \<rparr>)"
    "b \<and> m_memFixedDelay k = 0 \<longrightarrow> m_busBusyCounter_Basic mc = 0 \<and>
       (\<forall>rank. getRank k bank = Some rank \<longrightarrow> m_tfaw_count mc ! rank < ACTIVATE_PER_TFAW)"
proof -
  obtain rank where rank: "getRank k bank = Some rank" "rank < nranks k"
    using assms getRank_some by blast
  have len: "bank < length (m_bankBusyCounter mc)" "rank < length (m_tfaw_count mc)"
    "bank < length (m_bankQueues mc)" "bank < length (m_oldRequest mc)"
    using assms rank(2) by (auto simp: mem_ok_def)
  have arb: "\<exists>b. queueReady_arbitrated k bank (mc\<lparr> m_random_calls := n \<rparr>) = Some b \<and>
    (b \<and> m_memFixedDelay k = 0 \<longrightarrow> m_busBusyCounter_Basic mc = 0 \<and>
       m_tfaw_count mc ! rank < ACTIVATE_PER_TFAW)" for n
    using len rank(1) assms(2,4) by (auto simp: queueReady_arbitrated_def Let_def mem_ok_def)
  show ?thesis
  proof (cases "m_bankBusyCounter mc ! bank > 0 \<and> m_memFixedDelay k = 0")
    case True
    then show ?thesis using that [of False "m_random_calls mc"] len by (simp add: queueReady_def)
  next
    case False
    obtain b where b: "queueReady_arbitrated k bank mc = Some b"
      "b \<and> m_memFixedDelay k = 0 \<longrightarrow> m_busBusyCounter_Basic mc = 0 \<and>
         m_tfaw_count mc ! rank < ACTIVATE_PER_TFAW"
      using arb [of "m_random_calls mc"] by auto
    obtain b' where b': "queueReady_arbitrated k bank
        (mc\<lparr> m_random_calls := m_random_calls mc + 1 \<rparr>) = Some b'"
      "b' \<and> m_memFixedDelay k = 0 \<longrightarrow> m_busBusyCounter_Basic mc = 0 \<and>
         m_tfaw_count mc ! rank < ACTIVATE_PER_TFAW"
      using arb [of "m_random_calls mc + 1"] by auto
    let ?next = "mc\<lparr> m_random_calls := m_random_calls mc + 1 \<rparr>"
    have q: "queueReady rnd k bank mc = (if m_memRandomArbitrate k \<ge> 2 then
        (if int (rnd (m_random_calls mc)) mod 100 < m_memRandomArbitrate k then Some (False, ?next)
         else Some (b', ?next)) else Some (b, mc))"
      using len(1) b(1) b'(1) unfolding queueReady_def if_not_P [OF False] by (simp add: Let_def)
    consider (plain) "queueReady rnd k bank mc = Some (b, mc)"
      | (held) "queueReady rnd k bank mc = Some (False, ?next)"
      | (passed) "queueReady rnd k bank mc = Some (b', ?next)"
      unfolding q by presburger
    then show ?thesis
    proof cases
      case plain
      then show ?thesis using that [of b "m_random_calls mc"] b(2) rank(1) by simp
    next
      case held
      then show ?thesis using that [of False "m_random_calls mc + 1"] by simp
    next
      case passed
      then show ?thesis using that [of b' "m_random_calls mc + 1"] b'(2) rank(1) by simp
    qed
  qed
qed

lemma bank_flow_issue:
  assumes "mem_ok k mc" "bank < nbanks k" "m_bankQueues mc ! bank = req # rest"
    "m_bankQueues mc' = (m_bankQueues mc)[bank := rest]" "m_input_queue mc' = m_input_queue mc"
    "m_response_queue mc' = m_response_queue mc @ (if mn_msgptr req = None then [] else [req\<lparr> mn_time := t \<rparr>])"
    "b < nbanks k"
  shows "bank_flow k b mc' = bank_flow k b mc"
proof -
  have "getBank k (mn_addr req) = int bank"
    using assms(1,2,3) by (auto simp: mem_ok_def bank_ok_def)
  moreover have "length (m_bankQueues mc) = nbanks k" using assms(1) by (simp add: mem_ok_def)
  ultimately show ?thesis using assms(2-7)
    by (auto simp: bank_flow_def answered_def untimed_def nth_list_update)
qed

lemma issueRequest_some:
  assumes "mem_config_ok k" "mem_ok k mc" "bank < nbanks k" "m_bankQueues mc ! bank \<noteq> []"
  obtains mc' where "issueRequest k now bank mc = Some mc'" "mem_ok k mc'"
    "\<forall>b<nbanks k. bank_flow k b mc' = bank_flow k b mc"
    "tfaw_scan k mc \<and> m_busBusyCounter_Basic mc = 0 \<and>
     (\<forall>rank. getRank k bank = Some rank \<longrightarrow> m_tfaw_count mc ! rank < ACTIVATE_PER_TFAW) \<longrightarrow> tfaw_scan k mc'"
proof -
  obtain rank where rank: "getRank k bank = Some rank" "rank < nranks k"
    using assms getRank_some by blast
  obtain c where c: "m_mem_consumer mc = Some c" using assms(2) by (auto simp: mem_ok_def)
  obtain req rest where q: "m_bankQueues mc ! bank = req # rest" using assms(4) by (cases "m_bankQueues mc ! bank") auto
  have len: "bank < length (m_bankQueues mc)" "bank < length (m_oldRequest mc)"
    "bank < length (m_bankBusyCounter mc)" using assms by (auto simp: mem_ok_def)
  let ?t = "now + (m_mem_ctl_latency k + m_memFixedDelay k) * m_mem_bus_cycle_multiplier k"
  let ?m1 = "mc\<lparr> m_bankQueues := (m_bankQueues mc)[bank := rest],
     m_response_queue := m_response_queue mc @ (if mn_msgptr req = None then [] else [req\<lparr> mn_time := ?t \<rparr>]),
     m_events := m_events mc @ (if mn_msgptr req = None then [] else [(c, ?t)]),
     m_oldRequest := (m_oldRequest mc)[bank := False] \<rparr>"
  have b: "bank_ok k bank rest" using assms(2,3) q by (auto simp: mem_ok_def bank_ok_def)
  have ok1: "mem_ok k ?m1"
    using assms(2,3) b by (auto simp: mem_ok_def nth_list_update)
  then obtain sh ct where m: "markTfaw k rank ?m1 = Some (?m1\<lparr> m_tfaw_shift := sh, m_tfaw_count := ct \<rparr>)"
    "length sh = nranks k" "length ct = nranks k" using assms(1) rank(2) markTfaw_some by metis
  let ?m2 = "?m1\<lparr> m_tfaw_shift := sh, m_tfaw_count := ct,
     m_bankBusyCounter := (m_bankBusyCounter mc)[bank := m_bank_busy_time k],
     m_busBusy_WhichRank := int rank, m_busBusyCounter_Basic := m_basic_bus_busy_time k,
     m_busBusyCounter_Write :=
       m_basic_bus_busy_time k + (if mn_is_mem_read req then m_read_write_delay k else 0),
     m_busBusyCounter_ReadNewRank :=
       m_basic_bus_busy_time k + (if mn_is_mem_read req then m_rank_rank_delay k else 0) \<rparr>"
  have tf: "tfaw_ok k (?m1\<lparr> m_tfaw_shift := sh, m_tfaw_count := ct \<rparr>)"
    if "tfaw_scan k mc" "m_busBusyCounter_Basic mc = 0" "m_tfaw_count mc ! rank < ACTIVATE_PER_TFAW"
  proof (rule markTfaw_tfaw_ok [OF assms(1) ok1 rank(2) _ _ _ m(1)])
    show "tfaw_ok k ?m1" "tfaw_fresh k ?m1" "m_tfaw_count ?m1 ! rank < ACTIVATE_PER_TFAW"
      using that tfaw_ok_cong [of ?m1 mc] by (auto simp: tfaw_scan_def)
  qed
  have "issueRequest k now bank mc = Some ?m2"
    using rank(1) q len m(1) c
    by (cases "mn_msgptr req = None")
      (auto simp: issueRequest_def enqueueToDirectory_def Let_def)
  moreover have "mem_ok k ?m2"
    using ok1 m(2,3) assms(1) by (simp add: mem_ok_def mem_config_ok_def)
  moreover have "\<forall>b<nbanks k. bank_flow k b ?m2 = bank_flow k b mc"
    using bank_flow_issue [OF assms(2,3) q, of ?m2 ?t] by simp
  moreover have "tfaw_scan k mc \<and> m_busBusyCounter_Basic mc = 0 \<and>
     (\<forall>rank. getRank k bank = Some rank \<longrightarrow> m_tfaw_count mc ! rank < ACTIVATE_PER_TFAW) \<longrightarrow> tfaw_scan k ?m2"
    using assms(1) tfaw_scan_activated [OF tf, of ?m2] rank(1) by (simp add: mem_config_ok_def)
  ultimately show ?thesis by (rule that)
qed

text \<open>What every part of a cycle keeps: the queues are sound, every bank has the same requests in
  the same order, and without a fixed delay the activates are counted right.\<close>

definition cycle_keeps :: "mem_config \<Rightarrow> ('c, 'm) mem_ctl \<Rightarrow> ('c, 'm) mem_ctl \<Rightarrow> bool" where
  "cycle_keeps k mc mc' \<longleftrightarrow> mem_ok k mc' \<and> (\<forall>b<nbanks k. bank_flow k b mc' = bank_flow k b mc) \<and>
     (m_memFixedDelay k = 0 \<and> tfaw_scan k mc \<longrightarrow> tfaw_scan k mc')"

lemma same_queues_flow: "same_queues mc mc' \<Longrightarrow> bank_flow k b mc' = bank_flow k b mc"
  by (simp add: same_queues_def bank_flow_def)

lemma scan_bank_keeps:
  assumes "mem_config_ok k" "mem_ok k mc"
  shows "\<exists>mc'. scan_bank rnd k now i mc = Some mc' \<and> cycle_keeps k mc mc'"
proof -
  define rr where "rr = next_bank k mc"
  have rr: "rr < nbanks k" using nbanks_nranks [OF assms(1)] by (auto simp: rr_def next_bank_def)
  let ?mc = "mc\<lparr> m_roundRobin := rr \<rparr>"
  have ok: "mem_ok k ?mc" using assms(2) rr by (simp add: mem_ok_def)
  obtain b m1 where m1: "issueRefresh k rr ?mc = Some (b, m1)" "mem_ok k m1" "same_queues ?mc m1"
    "tfaw_scan k ?mc \<longrightarrow> tfaw_scan k m1" using issueRefresh_some [OF assms(1) ok rr] by blast
  have s1: "tfaw_scan k mc \<longrightarrow> tfaw_scan k m1"
    using m1(4) tfaw_scan_cong [of ?mc mc] by simp
  have f1: "bank_flow k b m1 = bank_flow k b mc" for b
    using same_queues_flow [OF m1(3), of k b] by (simp add: bank_flow_def)
  have len: "rr < length (m_bankQueues m1)" using m1(2) rr by (simp add: mem_ok_def)
  show ?thesis
  proof (cases "m_bankQueues m1 ! rr = []")
    case True
    then have "scan_bank rnd k now i mc = Some m1"
      using m1(1) len by (simp add: scan_bank_def Let_def rr_def [symmetric])
    then show ?thesis using m1(2) s1 f1 by (simp add: cycle_keeps_def)
  next
    case False
    let ?m1 = "m1\<lparr> m_idleCount := IDLECOUNT_MAX_VALUE \<rparr>"
    have ok1: "mem_ok k ?m1" using m1(2) by (simp add: mem_ok_def)
    obtain rdy n where q: "queueReady rnd k rr ?m1 = Some (rdy, ?m1\<lparr> m_random_calls := n \<rparr>)"
      "rdy \<and> m_memFixedDelay k = 0 \<longrightarrow> m_busBusyCounter_Basic ?m1 = 0 \<and>
       (\<forall>rank. getRank k rr = Some rank \<longrightarrow> m_tfaw_count ?m1 ! rank < ACTIVATE_PER_TFAW)"
      by (rule queueReady_some [OF assms(1) ok1 rr, of rnd]) (use False in simp, rule that)
    let ?m2 = "?m1\<lparr> m_random_calls := n \<rparr>"
    have ok2: "mem_ok k ?m2" using ok1 by (simp add: mem_ok_def)
    have s2: "tfaw_scan k ?m2 = tfaw_scan k m1" by (rule tfaw_scan_cong) simp_all
    have f2: "bank_flow k b ?m2 = bank_flow k b mc" for b using f1 [of b] by (simp add: bank_flow_def)
    obtain m3 where m3: "issueRequest k now rr ?m2 = Some m3" "mem_ok k m3"
      "\<forall>b<nbanks k. bank_flow k b m3 = bank_flow k b ?m2"
      "tfaw_scan k ?m2 \<and> m_busBusyCounter_Basic ?m2 = 0 \<and>
       (\<forall>rank. getRank k rr = Some rank \<longrightarrow> m_tfaw_count ?m2 ! rank < ACTIVATE_PER_TFAW) \<longrightarrow> tfaw_scan k m3"
      by (rule issueRequest_some [OF assms(1) ok2 rr, of now]) (use False in simp, rule that)
    have scan: "scan_bank rnd k now i mc = (if rdy then Some m3 else Some ?m2)"
      using m1(1) len q(1) m3(1) False by (simp add: scan_bank_def Let_def rr_def [symmetric])
    show ?thesis
    proof (cases rdy)
      case True
      then show ?thesis using scan m3(2,3,4) q(2) s1 s2 f2 by (simp add: cycle_keeps_def)
    next
      case False
      then show ?thesis using scan ok2 s1 s2 f2 by (simp add: cycle_keeps_def)
    qed
  qed
qed

lemma cycle_keeps_trans:
  assumes "cycle_keeps k mc mc'" "cycle_keeps k mc' mc''"
  shows "cycle_keeps k mc mc''"
  using assms unfolding cycle_keeps_def by metis

lemma scan_all_keeps:
  assumes "mem_config_ok k" "mem_ok k mc"
  shows "\<exists>mc'. run_all (scan_bank rnd k now) xs mc = Some mc' \<and> cycle_keeps k mc mc'"
  using assms(2)
proof (induction xs arbitrary: mc)
  case Nil
  then show ?case by (simp add: cycle_keeps_def)
next
  case (Cons x xs)
  obtain m1 where m1: "scan_bank rnd k now x mc = Some m1" "cycle_keeps k mc m1"
    using scan_bank_keeps [OF assms(1) Cons.prems] by blast
  then have "mem_ok k m1" by (simp add: cycle_keeps_def)
  then show ?case using Cons.IH m1 cycle_keeps_trans by fastforce
qed

lemma drop_bit_1_card:
  fixes w :: "64 word"
  shows "int (card {i. bit (drop_bit 1 w) i}) =
    (if w AND 1 \<noteq> 0 then int (card {i. bit w i}) - 1 else int (card {i. bit w i}))"
proof -
  have *: "{i. bit (drop_bit 1 w) i} = (\<lambda>i. i - 1) ` ({i. bit w i} - {0})"
    by (auto simp: bit_simps image_iff intro!: bexI [of _ "Suc _"])
  have "inj_on (\<lambda>i. i - 1) ({i. bit w i} - {0})" by (auto simp: inj_on_def)
  then have "card {i. bit (drop_bit 1 w) i} = card ({i. bit w i} - {0})"
    unfolding * by (rule card_image)
  moreover have "w AND 1 \<noteq> 0 \<longleftrightarrow> bit w 0" using word_test_bit [of w 0] by simp
  moreover have "card {i. bit w i} > 0" if "bit w 0"
    using that by (auto simp: card_gt_0_iff)
  ultimately show ?thesis by (cases "bit w 0") (auto simp: card_Diff_singleton_if of_nat_diff)
qed

lemma count_down_tfaw:
  assumes "mem_ok k mc" "tfaw_ok k mc"
  shows "tfaw_ok k (cycle_count_down mc) \<and> tfaw_fresh k (cycle_count_down mc)"
proof -
  have len: "length (m_tfaw_shift mc) = nranks k" "length (m_tfaw_count mc) = nranks k"
    using assms(1) by (auto simp: mem_ok_def)
  have sh: "m_tfaw_shift (cycle_count_down mc) ! r = drop_bit 1 (m_tfaw_shift mc ! r)"
    and ct: "m_tfaw_count (cycle_count_down mc) ! r =
      (if m_tfaw_shift mc ! r AND 1 \<noteq> 0 then m_tfaw_count mc ! r - 1 else m_tfaw_count mc ! r)"
    if "r < nranks k" for r
    using that len by (simp_all add: cycle_count_down_def)
  have bits: "int i < m_tFaw k - 1" if "r < nranks k" "bit (drop_bit 1 (m_tfaw_shift mc ! r)) i" for r i
    using that assms(2) unfolding tfaw_ok_def bit_drop_bit_eq o_def by fastforce
  have "m_tfaw_count (cycle_count_down mc) ! r =
      int (card {i. bit (m_tfaw_shift (cycle_count_down mc) ! r) i}) \<and>
     m_tfaw_count (cycle_count_down mc) ! r \<le> ACTIVATE_PER_TFAW" if "r < nranks k" for r
    using assms(2) that unfolding tfaw_ok_def sh [OF that] ct [OF that] drop_bit_1_card by auto
  then show ?thesis using bits sh unfolding tfaw_ok_def tfaw_fresh_def by fastforce
qed

lemma prepare_keeps:
  assumes "mem_config_ok k" "mem_ok k mc" "cycle_refresh_timer k (cycle_count_down mc) = Some m1"
    and m2_def: "m2 = cycle_randomize rnd k (cycle_new_batch m1)"
  shows "mem_ok k m2" "bank_flow k b m2 = bank_flow k b mc" "tfaw_ok k mc \<longrightarrow> tfaw_scan k m2"
proof -
  have q1: "same_queues mc m1" "m_mem_consumer m1 = m_mem_consumer mc"
    "m_tfaw_shift m1 = m_tfaw_shift (cycle_count_down mc)"
    "m_tfaw_count m1 = m_tfaw_count (cycle_count_down mc)"
    "m_busBusyCounter_Basic m1 = down (m_busBusyCounter_Basic mc)"
    "m_bankBusyCounter m1 = map down (m_bankBusyCounter mc)"
    using assms(3) by (auto simp: cycle_refresh_timer_def Let_def cycle_count_down_def
        same_queues_def split: if_splits)
  have q2: "m_response_queue m2 = m_response_queue m1" "m_input_queue m2 = m_input_queue m1"
    "m_bankQueues m2 = m_bankQueues m1" "m_mem_consumer m2 = m_mem_consumer m1"
    "m_tfaw_shift m2 = m_tfaw_shift m1" "m_tfaw_count m2 = m_tfaw_count m1"
    "m_busBusyCounter_Basic m2 = m_busBusyCounter_Basic m1"
    "m_bankBusyCounter m2 = m_bankBusyCounter m1"
    by (simp_all add: m2_def cycle_randomize_def cycle_new_batch_def Let_def)
  have rr: "m_roundRobin m2 < nbanks k"
    using assms(2) nbanks_nranks(3) [OF assms(1)] q1(1)
    by (simp add: m2_def cycle_randomize_def cycle_new_batch_def Let_def mem_ok_def same_queues_def)
  have len: "length (m_oldRequest m1) = nbanks k" "length (m_bankQueues m1) = nbanks k"
    "\<forall>b<nbanks k. m_oldRequest m1 ! b \<longrightarrow> m_bankQueues m1 ! b \<noteq> []"
    using assms(2) q1(1) by (auto simp: mem_ok_def same_queues_def)
  have old2: "length (m_oldRequest m2) = nbanks k \<and>
     (\<forall>b<nbanks k. m_oldRequest m2 ! b \<longrightarrow> m_bankQueues m2 ! b \<noteq> [])"
  proof (cases "list_ex (\<lambda>old. old) (m_oldRequest m1)")
    case True
    then have "m_oldRequest m2 = m_oldRequest m1"
      by (simp add: m2_def cycle_randomize_def cycle_new_batch_def Let_def)
    then show ?thesis using len q2(3) by simp
  next
    case False
    then have "m_oldRequest m2 = map2 (\<lambda>q old. q \<noteq> [] \<or> old) (m_bankQueues m1) (m_oldRequest m1)"
      unfolding m2_def cycle_randomize_def cycle_new_batch_def Let_def by auto
    then show ?thesis using len q2(3) by auto
  qed
  show "mem_ok k m2"
    using assms(2) q1 q2 rr old2 by (simp add: mem_ok_def same_queues_def cycle_count_down_def down_def)
  show "bank_flow k b m2 = bank_flow k b mc"
    using q1(1) q2 by (simp add: bank_flow_def same_queues_def)
  show "tfaw_ok k mc \<longrightarrow> tfaw_scan k m2"
  proof
    assume "tfaw_ok k mc"
    from count_down_tfaw [OF assms(2) this]
    show "tfaw_scan k m2" using tfaw_ok_cong [of m2 "cycle_count_down mc" k] q1(3,4) q2(5,6)
      by (simp add: tfaw_scan_def)
  qed
qed

lemma cycle_input_keeps:
  assumes "mem_config_ok k" "mem_ok k mc"
  shows "\<exists>mc'. cycle_input k mc = Some mc' \<and> cycle_keeps k mc mc'"
proof (cases "m_input_queue mc")
  case Nil
  then show ?thesis using assms by (simp add: cycle_input_def cycle_keeps_def)
next
  case (Cons req rest)
  define bank where "bank = nat (getBank k (mn_addr req))"
  have bank: "0 \<le> getBank k (mn_addr req)" "bank < nbanks k" "getBank k (mn_addr req) = int bank"
    using getBank_range [OF assms(1), of "mn_addr req"] nbanks_nranks(1) [OF assms(1)]
    by (auto simp: bank_def)
  have len: "length (m_bankQueues mc) = nbanks k" using assms(2) by (simp add: mem_ok_def)
  show ?thesis
  proof (cases "length (m_bankQueues mc ! bank) < m_bank_queue_size k")
    case True
    let ?m = "mc\<lparr> m_idleCount := IDLECOUNT_MAX_VALUE, m_input_queue := rest,
      m_bankQueues := (m_bankQueues mc)[bank := m_bankQueues mc ! bank @ [req]] \<rparr>"
    have "cycle_input k mc = Some ?m"
      using Cons True bank(1,2) len by (simp add: cycle_input_def Let_def bank_def)
    moreover have "bank_ok k bank (m_bankQueues mc ! bank @ [req])"
      using True bank(2,3) assms(2) by (auto simp: mem_ok_def bank_ok_def)
    then have "mem_ok k ?m" using assms(2) bank(2) by (auto simp: mem_ok_def nth_list_update)
    moreover have "bank_flow k b ?m = bank_flow k b mc" if "b < nbanks k" for b
      using Cons bank(2,3) len that by (auto simp: bank_flow_def answered_def nth_list_update)
    moreover have "tfaw_scan k ?m = tfaw_scan k mc" by (rule tfaw_scan_cong) simp_all
    ultimately show ?thesis by (auto simp: cycle_keeps_def)
  next
    case False
    let ?m = "mc\<lparr> m_idleCount := IDLECOUNT_MAX_VALUE \<rparr>"
    have "cycle_input k mc = Some ?m"
      using Cons False bank(1,2) len by (simp add: cycle_input_def Let_def bank_def)
    moreover have "mem_ok k ?m" using assms(2) by (simp add: mem_ok_def)
    moreover have "bank_flow k b ?m = bank_flow k b mc" for b by (simp add: bank_flow_def)
    moreover have "tfaw_scan k ?m = tfaw_scan k mc" by (rule tfaw_scan_cong) simp_all
    ultimately show ?thesis by (auto simp: cycle_keeps_def)
  qed
qed

text \<open>A cycle aborts only in the check that refreshes keep up.\<close>

lemma executeCycle_keeps:
  assumes "mem_config_ok k" "mem_ok k mc" "cycle_refresh_timer k (cycle_count_down mc) = Some m1"
  shows "\<exists>mc'. executeCycle rnd k now mc = Some mc' \<and> mem_ok k mc' \<and>
     (\<forall>b<nbanks k. bank_flow k b mc' = bank_flow k b mc) \<and>
     (m_memFixedDelay k = 0 \<and> tfaw_ok k mc \<longrightarrow> tfaw_ok k mc')"
proof -
  define m2 where "m2 = cycle_randomize rnd k (cycle_new_batch m1)"
  note m2 = prepare_keeps [OF assms m2_def]
  obtain m3 where m3: "run_all (scan_bank rnd k now) [0..<nbanks k] m2 = Some m3" "cycle_keeps k m2 m3"
    using scan_all_keeps [OF assms(1) m2(1)] by blast
  then have "mem_ok k m3" by (simp add: cycle_keeps_def)
  then obtain m4 where m4: "cycle_input k m3 = Some m4" "cycle_keeps k m3 m4"
    using cycle_input_keeps [OF assms(1)] by blast
  have "cycle_keeps k m2 m4" using m3(2) m4(2) by (rule cycle_keeps_trans)
  moreover have "executeCycle rnd k now mc = Some m4"
    using assms(3) m3(1) m4(1) by (simp add: executeCycle_def m2_def)
  ultimately show ?thesis using m2 by (simp add: cycle_keeps_def tfaw_scan_def)
qed

lemma refresh_timer_some:
  assumes "m_need_refresh mc < 10"
  obtains m1 where "cycle_refresh_timer k (cycle_count_down mc) = Some m1"
proof -
  have "m_need_refresh (cycle_count_down mc) < 10" using assms by (simp add: cycle_count_down_def)
  then have "cycle_refresh_timer k (cycle_count_down mc) \<noteq> None"
    by (simp add: cycle_refresh_timer_def Let_def)
  then show ?thesis using that by blast
qed

lemma executeCycle_returned:
  assumes "mem_config_ok k" "mem_ok k mc" "executeCycle rnd k now mc = Some mc'"
  shows "mem_ok k mc'" "m_memFixedDelay k = 0 \<and> tfaw_ok k mc \<longrightarrow> tfaw_ok k mc'"
proof -
  obtain m1 where "cycle_refresh_timer k (cycle_count_down mc) = Some m1"
    using assms(3) by (auto simp: executeCycle_def bind_Some_iff)
  from executeCycle_keeps [OF assms(1,2) this, of rnd now] assms(3)
  show "mem_ok k mc'" "m_memFixedDelay k = 0 \<and> tfaw_ok k mc \<longrightarrow> tfaw_ok k mc'" by auto
qed

section \<open>Properties\<close>

text \<open>C21. The memory controller loses, duplicates and reorders nothing: as long as refreshes
  keep up, a cycle runs to its end, and for every bank the requests to be answered (those
  answered and not yet taken, those in the bank queue and those in the input queue, in this
  order) are the same as before.  The bank queues stay within their size, and only requests of
  a bank are in its queue.\<close>

theorem memory_requests_kept:
  assumes "mem_config_ok k" "mem_ok k mc" "m_need_refresh mc < 10"
  shows "\<exists>mc'. executeCycle rnd k now mc = Some mc' \<and> mem_ok k mc' \<and>
     (\<forall>b<nbanks k. bank_flow k b mc' = bank_flow k b mc)"
  using refresh_timer_some [OF assms(3)] executeCycle_keeps [OF assms(1,2)] by metis

text \<open>C22. The four-activate window is respected: without a fixed delay and for a window of at
  most 31 cycles, the counter of every rank is, after any number of cycles, the number of
  activates recorded in its shift register, and never more than four.\<close>

theorem activates_within_tfaw:
  assumes "mem_config_ok k" "m_memFixedDelay k = 0" "mem_ok k mc" "tfaw_ok k mc"
    and "run_all (executeCycle rnd k) ts mc = Some mc'"
  shows "\<forall>r<nranks k. m_tfaw_count mc' ! r = int (card {i. bit (m_tfaw_shift mc' ! r) i}) \<and>
     m_tfaw_count mc' ! r \<le> 4"
proof -
  have "mem_ok k mc' \<and> tfaw_ok k mc'"
    using run_all_invariant [of ts "\<lambda>m. mem_ok k m \<and> tfaw_ok k m" "executeCycle rnd k" mc mc']
      assms executeCycle_returned [OF assms(1)] by blast
  then show ?thesis unfolding tfaw_ok_def ACTIVATE_PER_TFAW_def by blast
qed

text \<open>\<open>getBank\<close> is a number below the number of banks, and two addresses have the same
  bank exactly when they select the same DIMM, rank and bank.\<close>

theorem getBank_unique:
  assumes "mem_config_ok k"
  shows "0 \<le> getBank k a \<and> getBank k a < m_total_banks k \<and>
    (getBank k a = getBank k a' \<longleftrightarrow>
       addr_field a (m_dimm_bit_0 k) (m_dimms_per_channel k) =
         addr_field a' (m_dimm_bit_0 k) (m_dimms_per_channel k) \<and>
       addr_field a (m_rank_bit_0 k) (m_ranks_per_dimm k) =
         addr_field a' (m_rank_bit_0 k) (m_ranks_per_dimm k) \<and>
       addr_field a (m_bank_bit_0 k) (m_banks_per_rank k) =
         addr_field a' (m_bank_bit_0 k) (m_banks_per_rank k))"
proof -
  have f: "0 \<le> addr_field x (m_rank_bit_0 k) (m_ranks_per_dimm k)"
    "addr_field x (m_rank_bit_0 k) (m_ranks_per_dimm k) < m_ranks_per_dimm k"
    "0 \<le> addr_field x (m_bank_bit_0 k) (m_banks_per_rank k)"
    "addr_field x (m_bank_bit_0 k) (m_banks_per_rank k) < m_banks_per_rank k" for x
    using addr_field_range assms by (auto simp: mem_config_ok_def)
  show ?thesis
    using getBank_range [OF assms] mixed_radix_unique [OF _ f(3,4) f(3,4), of _ a _ a']
      mixed_radix_unique [OF _ f(1,2) f(1,2), of _ a _ a'] unfolding getBank_alt by metis
qed

definition sample_mem_config :: mem_config where
  "sample_mem_config = \<lparr> m_mem_bus_cycle_multiplier = 10, m_banks_per_rank = 2,
     m_ranks_per_dimm = 1, m_dimms_per_channel = 1, m_bank_bit_0 = 8, m_rank_bit_0 = 11,
     m_dimm_bit_0 = 12, m_bank_queue_size = 12, m_bank_busy_time = 11, m_rank_rank_delay = 1,
     m_read_write_delay = 2, m_basic_bus_busy_time = 2, m_mem_ctl_latency = 12,
     m_refresh_period = 1560, m_memRandomArbitrate = 0, m_tFaw = 15, m_memFixedDelay = 0 \<rparr>"

definition sample_mem :: "(nat, nat) mem_ctl" where
  "sample_mem = mem_enqueue sample_mem_config 0 5 7 0x100 True 1
     (mem_setConsumer (Some 1) (the (MemoryControl_new sample_mem_config)))"

lemma sample_mem_config_ok: "mem_config_ok sample_mem_config"
  by (simp add: mem_config_ok_def sample_mem_config_def)

lemma sample_total: "m_total_banks sample_mem_config = 2" "m_total_ranks sample_mem_config = 1"
  by (simp_all add: m_total_banks_def m_total_ranks_def sample_mem_config_def)

lemma sample_mem_ok: "mem_ok sample_mem_config sample_mem" "tfaw_ok sample_mem_config sample_mem"
  "m_need_refresh sample_mem < 10"
  by (simp_all add: sample_mem_def mem_enqueue_def enqueueMemRef_def mem_setConsumer_def sample_total
      MemoryControl_new_def mem_ok_def bank_ok_def tfaw_ok_def ACTIVATE_PER_TFAW_def Let_def less_2_cases_iff
      sample_mem_config_def [THEN arg_cong [of _ _ m_tFaw]])

lemma memory_requests_kept_witness:
  "\<exists>mc'. executeCycle (\<lambda>_. 0) sample_mem_config 6 sample_mem = Some mc' \<and> mem_ok sample_mem_config mc' \<and>
     (\<forall>b<nbanks sample_mem_config. bank_flow sample_mem_config b mc' = bank_flow sample_mem_config b sample_mem)"
  by (rule memory_requests_kept [OF sample_mem_config_ok sample_mem_ok(1,3)])

lemma activates_within_tfaw_witness:
  "\<exists>mc'. run_all (executeCycle (\<lambda>_. 0) sample_mem_config) [6] sample_mem = Some mc' \<and>
     (\<forall>r<nranks sample_mem_config.
        m_tfaw_count mc' ! r = int (card {i. bit (m_tfaw_shift mc' ! r) i}) \<and> m_tfaw_count mc' ! r \<le> 4)"
proof -
  obtain m1 where "cycle_refresh_timer sample_mem_config (cycle_count_down sample_mem) = Some m1"
    using refresh_timer_some [OF sample_mem_ok(3)] by blast
  from executeCycle_keeps [OF sample_mem_config_ok sample_mem_ok(1) this, of "\<lambda>_. 0" 6]
  obtain mc' where "run_all (executeCycle (\<lambda>_. 0) sample_mem_config) [6] sample_mem = Some mc'" by auto
  moreover have "m_memFixedDelay sample_mem_config = 0" by (simp add: sample_mem_config_def)
  ultimately show ?thesis
    using activates_within_tfaw [OF sample_mem_config_ok _ sample_mem_ok(1,2)] by blast
qed

lemma getBank_unique_witness:
  "0 \<le> getBank sample_mem_config 0x100 \<and> getBank sample_mem_config 0x100 < 2 \<and>
   getBank sample_mem_config 0x100 \<noteq> getBank sample_mem_config 0x200"
proof -
  have "addr_field 0x100 8 2 = 1" "addr_field 0x200 8 2 = 0"
    by (simp_all add: addr_field_def to_int32_def)
  then show ?thesis using getBank_unique [OF sample_mem_config_ok, of "0x100" "0x200"]
    by (simp add: sample_total) (simp add: sample_mem_config_def)
qed

lemma count_down_iterated:
  assumes "m_tfaw_shift mc = [w]" "m_tfaw_count mc = [c]"
  shows "m_tfaw_shift ((cycle_count_down ^^ n) mc) = [drop_bit n w] \<and>
    m_tfaw_count ((cycle_count_down ^^ n) mc) = [c - int (card {i. i < n \<and> bit w i})]"
proof (induction n)
  case 0
  then show ?case using assms by simp
next
  case (Suc n)
  have "drop_bit n w AND 1 \<noteq> 0 \<longleftrightarrow> bit w n" using word_test_bit [of "drop_bit n w" 0] by (simp add: bit_simps)
  moreover have "{i. i < Suc n \<and> bit w i} = (if bit w n then insert n else id) {i. i < n \<and> bit w i}"
    by (auto simp: less_Suc_eq)
  moreover have "finite {i. i < n \<and> bit w i}" by simp
  ultimately show ?case using Suc by (simp add: cycle_count_down_def)
qed

lemma bit_int_shift_top:
  assumes "n < 32" "31 \<le> n"
  shows "bit (scast (push_bit n 1 :: 32 word) :: 64 word) i \<longleftrightarrow> n \<le> i \<and> i < 64"
  using assms by (auto simp: bit_simps min_def)

text \<open>The assertion of the constructor admits windows of up to 62 cycles, but the mark is
  an \<open>int\<close> shift.  For a window of 32 cycles it is negative and its sign extension sets 33 bits
  of the register: one activate is counted once and taken back 33 times, the counter ends at
  -32 and the limit no longer holds.\<close>

theorem tfaw_32_miscounts:
  "\<exists>mc. markTfaw (sample_mem_config\<lparr> m_tFaw := 32 \<rparr>) 0 sample_mem = Some mc \<and>
     m_tfaw_count mc = [1] \<and> m_tfaw_count ((cycle_count_down ^^ 64) mc) = [-32]"
proof -
  define w where "w = (scast (push_bit 31 1 :: 32 word) :: 64 word)"
  have bits: "bit w i \<longleftrightarrow> 31 \<le> i \<and> i < 64" for i
    unfolding w_def by (rule bit_int_shift_top) simp_all
  have sh: "int_shift_1 31 = Some w" by (simp add: int_shift_1_def w_def)
  have init: "m_tfaw_shift sample_mem = [0]" "m_tfaw_count sample_mem = [0]"
    by (simp_all add: sample_mem_def mem_enqueue_def enqueueMemRef_def mem_setConsumer_def sample_total
      MemoryControl_new_def Let_def sample_mem_config_def [THEN arg_cong [of _ _ m_tFaw]])
  let ?mc = "sample_mem\<lparr> m_tfaw_shift := [w], m_tfaw_count := [1] \<rparr>"
  have m: "markTfaw (sample_mem_config\<lparr> m_tFaw := 32 \<rparr>) 0 sample_mem = Some ?mc"
    by (simp add: markTfaw_def sh init)
  have "{i. i < 64 \<and> bit w i} = {31..<64}" by (auto simp: bits)
  then have "m_tfaw_count ((cycle_count_down ^^ 64) ?mc) = [-32]"
    using count_down_iterated [of ?mc w 1 64] by (simp del: funpow.simps)
  then show ?thesis using m by auto
qed

end
