(* ===== verification/Bloom_Filters.thy ===== *)
theory Bloom_Filters
  imports Component_Mapping Prio_Heap H3_Table
begin

text \<open>
  The Bloom filters of \<open>ruby_clean/system\<close>: \<open>NonCounting\<close>, \<open>Block\<close>, \<open>LSB_Counting\<close>,
  \<open>MultiGrain\<close>, \<open>MultiBitSel\<close>, \<open>H3\<close> and \<open>BulkBloomFilter.C\<close>, and the dispatch of
  \<open>GenericBloomFilter.C\<close>.

  A filter is a record with the vector of its cells and its sizes.  The cells are read and
  written through \<open>Vector::ref\<close>, whose bounds checks abort.  Member functions with an empty
  body are the identity in the dispatch at the end; a member function without a \<open>return\<close>
  (\<open>LSB_CountingBloomFilter::isSet\<close>) is an aborted run.  \<open>print\<close> is empty in every class.
\<close>

section \<open>Library functions\<close>

text \<open>\<open>atoi\<close> on the strings of the configuration: white space, a sign and digits; the rest is
  ignored.  A number that does not fit into an \<open>int\<close>, for which C leaves the result open, is not cut off.\<close>

definition digit_value :: "char \<Rightarrow> int option" where
  "digit_value ch = (let n = int (of_char ch :: nat) - 48 in if 0 \<le> n \<and> n \<le> 9 then Some n else None)"

primrec atoi_digits :: "string \<Rightarrow> int \<Rightarrow> int" where
  "atoi_digits [] n = n"
| "atoi_digits (ch # str) n =
     (case digit_value ch of None \<Rightarrow> n | Some d \<Rightarrow> atoi_digits str (10 * n + d))"

definition is_space :: "char \<Rightarrow> bool" where
  "is_space ch \<longleftrightarrow> (let n = of_char ch :: nat in n = 32 \<or> 9 \<le> n \<and> n \<le> 13)"

definition atoi :: "string \<Rightarrow> int" where
  "atoi str = (case dropWhile is_space str of
       [] \<Rightarrow> 0
     | ch # rest \<Rightarrow> if ch = CHR ''-'' then - atoi_digits rest 0
                    else if ch = CHR ''+'' then atoi_digits rest 0
                    else atoi_digits (ch # rest) 0)"

text \<open>Writing a cell, and the remainder of \<open>int\<close>s, which has the sign of the dividend.\<close>

definition vec_set :: "'a list \<Rightarrow> int \<Rightarrow> 'a \<Rightarrow> 'a list option" where
  "vec_set xs i v = do { assert_that (0 \<le> i \<and> i < int (length xs)); Some (xs[nat i := v]) }"

definition c_rem :: "int \<Rightarrow> int \<Rightarrow> int option" where
  "c_rem x m = do { assert_that (m \<noteq> 0); Some (if x < 0 then - ((- x) mod \<bar>m\<bar>) else x mod \<bar>m\<bar>) }"

definition select_int :: "physical_address_t \<Rightarrow> int \<Rightarrow> int \<Rightarrow> int option" where
  "select_int addr small big = map_option to_int32 (bitSelect addr small big)"

text \<open>\<open>for i: m_filter[i] |= other[i]\<close>\<close>

definition or_cells :: "int list \<Rightarrow> int list \<Rightarrow> int list option" where
  "or_cells xs ys = do {
     assert_that (length xs \<le> length ys);
     Some (map2 (\<lambda>x y. x OR y) xs (take (length xs) ys)) }"

text \<open>\<open>for i < n: m_filter[get_index(i)] = 1\<close> and the conjunction of the same cells.\<close>

definition set_cells :: "(nat \<Rightarrow> int option) \<Rightarrow> nat \<Rightarrow> int list \<Rightarrow> int list option" where
  "set_cells index n xs = run_all (\<lambda>i xs. do { idx \<leftarrow> index i; vec_set xs idx 1 }) [0..<n] xs"

definition test_cells :: "(nat \<Rightarrow> int option) \<Rightarrow> nat \<Rightarrow> int list \<Rightarrow> bool option" where
  "test_cells index n xs = run_all (\<lambda>i res. do { idx \<leftarrow> index i;
     (if res then map_option (\<lambda>v. v \<noteq> 0) (vec_ref xs idx) else Some False) }) [0..<n] True"

section \<open>NonCountingBloomFilter\<close>

record nc_filter =
  nc_cells :: "int list"
  nc_size :: int
  nc_size_bits :: int
  nc_offset :: int

definition nc_new :: "string \<Rightarrow> nc_filter option" where
  "nc_new str = (case string_split str (CHR ''_'') of (head, tail) \<Rightarrow> do {
     bits \<leftarrow> log_int (atoi head);
     Some \<lparr> nc_cells = replicate (nat (atoi head)) 0, nc_size = atoi head, nc_size_bits = bits,
            nc_offset = atoi tail \<rparr> })"

definition nc_clear :: "nc_filter \<Rightarrow> nc_filter" where
  "nc_clear f = f\<lparr> nc_cells := replicate (nat (nc_size f)) 0 \<rparr>"

definition nc_get_index :: "ruby_config \<Rightarrow> physical_address_t \<Rightarrow> nc_filter \<Rightarrow> int option" where
  "nc_get_index c addr f = select_int addr (g_DATA_BLOCK_BITS c + nc_offset f)
     (g_DATA_BLOCK_BITS c + nc_offset f + nc_size_bits f - 1)"

definition nc_merge :: "nc_filter \<Rightarrow> nc_filter \<Rightarrow> nc_filter option" where
  "nc_merge other f = do { xs \<leftarrow> or_cells (nc_cells f) (nc_cells other); Some (f\<lparr> nc_cells := xs \<rparr>) }"

definition nc_set :: "ruby_config \<Rightarrow> physical_address_t \<Rightarrow> nc_filter \<Rightarrow> nc_filter option" where
  "nc_set c addr f = do {
     i \<leftarrow> nc_get_index c addr f;
     xs \<leftarrow> vec_set (nc_cells f) i 1;
     Some (f\<lparr> nc_cells := xs \<rparr>) }"

definition nc_unset :: "ruby_config \<Rightarrow> physical_address_t \<Rightarrow> nc_filter \<Rightarrow> nc_filter option" where
  "nc_unset c addr f = do {
     i \<leftarrow> nc_get_index c addr f;
     xs \<leftarrow> vec_set (nc_cells f) i 0;
     Some (f\<lparr> nc_cells := xs \<rparr>) }"

definition nc_getCount :: "ruby_config \<Rightarrow> physical_address_t \<Rightarrow> nc_filter \<Rightarrow> int option" where
  "nc_getCount c addr f = do { i \<leftarrow> nc_get_index c addr f; vec_ref (nc_cells f) i }"

definition nc_isSet :: "ruby_config \<Rightarrow> physical_address_t \<Rightarrow> nc_filter \<Rightarrow> bool option" where
  "nc_isSet c addr f = do {
     i \<leftarrow> nc_get_index c addr f;
     v \<leftarrow> vec_ref (nc_cells f) i;
     Some (v \<noteq> 0) }"

definition nc_getTotalCount :: "nc_filter \<Rightarrow> int" where
  "nc_getTotalCount f = sum_list (nc_cells f)"

definition nc_readBit :: "int \<Rightarrow> nc_filter \<Rightarrow> int option" where
  "nc_readBit index f = vec_ref (nc_cells f) index"

definition nc_writeBit :: "int \<Rightarrow> int \<Rightarrow> nc_filter \<Rightarrow> nc_filter option" where
  "nc_writeBit index value f = do {
     xs \<leftarrow> vec_set (nc_cells f) index value; Some (f\<lparr> nc_cells := xs \<rparr>) }"

section \<open>BlockBloomFilter\<close>

record block_filter =
  blk_cells :: "int list"
  blk_size :: int
  blk_size_bits :: int

definition blk_new :: "string \<Rightarrow> block_filter option" where
  "blk_new str = (case string_split str (CHR ''_'') of (head, tail) \<Rightarrow> do {
     bits \<leftarrow> log_int (atoi head);
     Some \<lparr> blk_cells = replicate (nat (atoi head)) 0, blk_size = atoi head, blk_size_bits = bits \<rparr> })"

definition blk_clear :: "block_filter \<Rightarrow> block_filter" where
  "blk_clear f = f\<lparr> blk_cells := replicate (nat (blk_size f)) 0 \<rparr>"

definition blk_get_index :: "ruby_config \<Rightarrow> physical_address_t \<Rightarrow> block_filter \<Rightarrow> int option" where
  "blk_get_index c addr f = do {
     block_bits \<leftarrow> bitSelect addr (g_DATA_BLOCK_BITS c) (2 * g_DATA_BLOCK_BITS c - 1);
     other_bits \<leftarrow> bitSelect addr (2 * g_DATA_BLOCK_BITS c + 5)
                     (2 * g_DATA_BLOCK_BITS c + 5 + blk_size_bits f - 1);
     let index = to_int32 (block_bits XOR other_bits);
     assert_that (index < blk_size f);
     Some index }"

definition blk_set :: "ruby_config \<Rightarrow> physical_address_t \<Rightarrow> block_filter \<Rightarrow> block_filter option" where
  "blk_set c addr f = do {
     i \<leftarrow> blk_get_index c addr f;
     xs \<leftarrow> vec_set (blk_cells f) i 1;
     Some (f\<lparr> blk_cells := xs \<rparr>) }"

definition blk_unset :: "ruby_config \<Rightarrow> physical_address_t \<Rightarrow> block_filter \<Rightarrow> block_filter option" where
  "blk_unset c addr f = do {
     i \<leftarrow> blk_get_index c addr f;
     xs \<leftarrow> vec_set (blk_cells f) i 0;
     Some (f\<lparr> blk_cells := xs \<rparr>) }"

definition blk_getCount :: "ruby_config \<Rightarrow> physical_address_t \<Rightarrow> block_filter \<Rightarrow> int option" where
  "blk_getCount c addr f = do { i \<leftarrow> blk_get_index c addr f; vec_ref (blk_cells f) i }"

definition blk_isSet :: "ruby_config \<Rightarrow> physical_address_t \<Rightarrow> block_filter \<Rightarrow> bool option" where
  "blk_isSet c addr f = do {
     i \<leftarrow> blk_get_index c addr f;
     v \<leftarrow> vec_ref (blk_cells f) i;
     Some (v \<noteq> 0) }"

definition blk_getTotalCount :: "block_filter \<Rightarrow> int" where
  "blk_getTotalCount f = int (length (filter (\<lambda>v. v \<noteq> 0) (blk_cells f)))"

definition blk_readBit :: "int \<Rightarrow> block_filter \<Rightarrow> int option" where
  "blk_readBit index f = vec_ref (blk_cells f) index"

definition blk_writeBit :: "int \<Rightarrow> int \<Rightarrow> block_filter \<Rightarrow> block_filter option" where
  "blk_writeBit index value f = do {
     xs \<leftarrow> vec_set (blk_cells f) index value; Some (f\<lparr> blk_cells := xs \<rparr>) }"

section \<open>LSB_CountingBloomFilter\<close>

record lsb_filter =
  lsb_cells :: "int list"
  lsb_size :: int
  lsb_size_bits :: int
  lsb_count :: int
  lsb_count_bits :: int

definition lsb_new :: "string \<Rightarrow> lsb_filter option" where
  "lsb_new str = (case string_split str (CHR '':'') of (head, tail) \<Rightarrow> do {
     bits \<leftarrow> log_int (atoi head);
     count_bits \<leftarrow> log_int (atoi tail);
     Some \<lparr> lsb_cells = replicate (nat (atoi head)) 0, lsb_size = atoi head, lsb_size_bits = bits,
            lsb_count = atoi tail, lsb_count_bits = count_bits \<rparr> })"

definition lsb_clear :: "lsb_filter \<Rightarrow> lsb_filter" where
  "lsb_clear f = f\<lparr> lsb_cells := replicate (nat (lsb_size f)) 0 \<rparr>"

definition lsb_get_index :: "ruby_config \<Rightarrow> physical_address_t \<Rightarrow> lsb_filter \<Rightarrow> int option" where
  "lsb_get_index c addr f = select_int addr (g_DATA_BLOCK_BITS c)
     (g_DATA_BLOCK_BITS c + lsb_size_bits f - 1)"

text \<open>The \<open>if (m_filter[i] < m_count);\<close> of \<open>increment\<close> guards the empty statement.\<close>

definition lsb_increment :: "ruby_config \<Rightarrow> physical_address_t \<Rightarrow> lsb_filter \<Rightarrow> lsb_filter option" where
  "lsb_increment c addr f = do {
     i \<leftarrow> lsb_get_index c addr f;
     v \<leftarrow> vec_ref (lsb_cells f) i;
     xs \<leftarrow> vec_set (lsb_cells f) i (v + 1);
     Some (f\<lparr> lsb_cells := xs \<rparr>) }"

definition lsb_decrement :: "ruby_config \<Rightarrow> physical_address_t \<Rightarrow> lsb_filter \<Rightarrow> lsb_filter option" where
  "lsb_decrement c addr f = do {
     i \<leftarrow> lsb_get_index c addr f;
     v \<leftarrow> vec_ref (lsb_cells f) i;
     (if v > 0 then do {
        xs \<leftarrow> vec_set (lsb_cells f) i (v - 1);
        Some (f\<lparr> lsb_cells := xs \<rparr>) }
      else Some f) }"

definition lsb_getCount :: "ruby_config \<Rightarrow> physical_address_t \<Rightarrow> lsb_filter \<Rightarrow> int option" where
  "lsb_getCount c addr f = do { i \<leftarrow> lsb_get_index c addr f; vec_ref (lsb_cells f) i }"

definition lsb_getTotalCount :: "lsb_filter \<Rightarrow> int" where
  "lsb_getTotalCount f = sum_list (lsb_cells f)"

section \<open>MultiGrainBloomFilter\<close>

record mg_filter =
  mg_cells :: "int list"
  mg_size :: int
  mg_size_bits :: int
  mg_page_cells :: "int list"
  mg_page_size :: int
  mg_page_size_bits :: int

definition mg_new :: "string \<Rightarrow> mg_filter option" where
  "mg_new str = (case string_split str (CHR ''_'') of (head, tail) \<Rightarrow> do {
     bits \<leftarrow> log_int (atoi head);
     page_bits \<leftarrow> log_int (atoi tail);
     Some \<lparr> mg_cells = replicate (nat (atoi head)) 0, mg_size = atoi head, mg_size_bits = bits,
            mg_page_cells = replicate (nat (atoi tail)) 0, mg_page_size = atoi tail,
            mg_page_size_bits = page_bits \<rparr> })"

definition mg_clear :: "mg_filter \<Rightarrow> mg_filter" where
  "mg_clear f = f\<lparr> mg_cells := replicate (nat (mg_size f)) 0,
                   mg_page_cells := replicate (nat (mg_page_size f)) 0 \<rparr>"

definition mg_get_block_index :: "ruby_config \<Rightarrow> physical_address_t \<Rightarrow> mg_filter \<Rightarrow> int option" where
  "mg_get_block_index c addr f = select_int addr (g_DATA_BLOCK_BITS c)
     (g_DATA_BLOCK_BITS c + mg_size_bits f - 1)"

definition mg_get_page_index :: "ruby_config \<Rightarrow> physical_address_t \<Rightarrow> mg_filter \<Rightarrow> int option" where
  "mg_get_page_index c addr f = select_int addr (g_DATA_BLOCK_BITS c + mg_size_bits f - 1)
     (g_DATA_BLOCK_BITS c + mg_size_bits f - 1 + mg_page_size_bits f - 1)"

text \<open>Both cells are taken at the block index \<open>i\<close>; the page index \<open>j\<close> is only checked.\<close>

definition mg_set :: "ruby_config \<Rightarrow> physical_address_t \<Rightarrow> mg_filter \<Rightarrow> mg_filter option" where
  "mg_set c addr f = do {
     i \<leftarrow> mg_get_block_index c addr f;
     j \<leftarrow> mg_get_page_index c addr f;
     assert_that (i < mg_size f);
     assert_that (j < mg_page_size f);
     xs \<leftarrow> vec_set (mg_cells f) i 1;
     ys \<leftarrow> vec_set (mg_page_cells f) i 1;
     Some (f\<lparr> mg_cells := xs, mg_page_cells := ys \<rparr>) }"

definition mg_isSet :: "ruby_config \<Rightarrow> physical_address_t \<Rightarrow> mg_filter \<Rightarrow> bool option" where
  "mg_isSet c addr f = do {
     i \<leftarrow> mg_get_block_index c addr f;
     j \<leftarrow> mg_get_page_index c addr f;
     assert_that (i < mg_size f);
     assert_that (j < mg_page_size f);
     v \<leftarrow> vec_ref (mg_cells f) i;
     (if v \<noteq> 0 then map_option (\<lambda>w. w \<noteq> 0) (vec_ref (mg_page_cells f) i) else Some False) }"

text \<open>\<open>count += m_page_filter[i] = 0\<close> assigns.\<close>

definition mg_getTotalCount :: "mg_filter \<Rightarrow> int \<times> mg_filter" where
  "mg_getTotalCount f =
     (sum_list (mg_cells f), f\<lparr> mg_page_cells := replicate (nat (mg_page_size f)) 0 \<rparr>)"

section \<open>MultiBitSelBloomFilter\<close>

record mbs_filter =
  mbs_cells :: "int list"
  mbs_size :: int
  mbs_num_hashes :: int
  mbs_size_bits :: int
  mbs_skip_bits :: int
  mbs_par_size :: int
  mbs_par_size_bits :: int
  mbs_isParallel :: bool

definition parallel_mode :: "string \<Rightarrow> bool option" where
  "parallel_mode tail = (if tail = ''Regular'' then Some False
     else if tail = ''Parallel'' then Some True else None)"

definition mbs_new :: "string \<Rightarrow> mbs_filter option" where
  "mbs_new str =
     (case string_split str (CHR ''_'') of (size_str, tail) \<Rightarrow>
      case string_split tail (CHR ''_'') of (hashes, tail) \<Rightarrow>
      case string_split tail (CHR ''_'') of (skip, tail) \<Rightarrow> do {
        par \<leftarrow> parallel_mode tail;
        bits \<leftarrow> log_int (atoi size_str);
        assert_that (atoi hashes \<noteq> 0);
        let par_size = (if atoi hashes < 0 then - (atoi size_str div (- atoi hashes))
                        else atoi size_str div atoi hashes);
        par_bits \<leftarrow> log_int par_size;
        Some \<lparr> mbs_cells = replicate (nat (atoi size_str)) 0, mbs_size = atoi size_str,
               mbs_num_hashes = atoi hashes, mbs_size_bits = bits, mbs_skip_bits = atoi skip,
               mbs_par_size = par_size, mbs_par_size_bits = par_bits, mbs_isParallel = par \<rparr> })"

definition mbs_clear :: "mbs_filter \<Rightarrow> mbs_filter" where
  "mbs_clear f = f\<lparr> mbs_cells := replicate (nat (mbs_size f)) 0 \<rparr>"

definition mbs_merge :: "mbs_filter \<Rightarrow> mbs_filter \<Rightarrow> mbs_filter option" where
  "mbs_merge other f = do { xs \<leftarrow> or_cells (mbs_cells f) (mbs_cells other); Some (f\<lparr> mbs_cells := xs \<rparr>) }"

definition hash_bitsel :: "64 word \<Rightarrow> nat \<Rightarrow> nat \<Rightarrow> nat \<Rightarrow> nat \<Rightarrow> int" where
  "hash_bitsel value index jump maxBits numBits = foldl (\<lambda>result i.
     if value AND push_bit ((index + jump * i) mod maxBits) 1 \<noteq> 0
     then to_int32 (word_of_int result + push_bit i 1) else result) 0 [0..<numBits]"

definition mbs_get_index :: "ruby_config \<Rightarrow> physical_address_t \<Rightarrow> mbs_filter \<Rightarrow> nat \<Rightarrow> int option" where
  "mbs_get_index c addr f i = do {
     line \<leftarrow> getLineAddress c addr;
     assert_that (shift_defined (mbs_skip_bits f));
     let y = hash_bitsel (drop_bit (nat (mbs_skip_bits f)) line) i (nat (mbs_num_hashes f)) 30
               (nat (mbs_size_bits f));
     (if mbs_isParallel f then do { r \<leftarrow> c_rem y (mbs_par_size f); Some (r + int i * mbs_par_size f) }
      else c_rem y (mbs_size f)) }"

definition mbs_set :: "ruby_config \<Rightarrow> physical_address_t \<Rightarrow> mbs_filter \<Rightarrow> mbs_filter option" where
  "mbs_set c addr f = do {
     xs \<leftarrow> set_cells (mbs_get_index c addr f) (nat (mbs_num_hashes f)) (mbs_cells f);
     Some (f\<lparr> mbs_cells := xs \<rparr>) }"

definition mbs_isSet :: "ruby_config \<Rightarrow> physical_address_t \<Rightarrow> mbs_filter \<Rightarrow> bool option" where
  "mbs_isSet c addr f = test_cells (mbs_get_index c addr f) (nat (mbs_num_hashes f)) (mbs_cells f)"

definition mbs_getCount :: "ruby_config \<Rightarrow> physical_address_t \<Rightarrow> mbs_filter \<Rightarrow> int option" where
  "mbs_getCount c addr f = map_option (\<lambda>b. if b then 1 else 0) (mbs_isSet c addr f)"

definition mbs_getTotalCount :: "mbs_filter \<Rightarrow> int" where
  "mbs_getTotalCount f = sum_list (mbs_cells f)"

section \<open>H3BloomFilter\<close>

record h3_filter =
  h3_cells :: "int list"
  h3_size :: int
  h3_num_hashes :: int
  h3_size_bits :: int
  h3_par_size :: int
  h3_par_size_bits :: int
  h3_isParallel :: bool

definition h3_new :: "string \<Rightarrow> h3_filter option" where
  "h3_new str =
     (case string_split str (CHR ''_'') of (size_str, tail) \<Rightarrow>
      case string_split tail (CHR ''_'') of (hashes, tail) \<Rightarrow> do {
        par \<leftarrow> parallel_mode tail;
        bits \<leftarrow> log_int (atoi size_str);
        assert_that (atoi hashes \<noteq> 0);
        let par_size = (if atoi hashes < 0 then - (atoi size_str div (- atoi hashes))
                        else atoi size_str div atoi hashes);
        par_bits \<leftarrow> log_int par_size;
        Some \<lparr> h3_cells = replicate (nat (atoi size_str)) 0, h3_size = atoi size_str,
               h3_num_hashes = atoi hashes, h3_size_bits = bits, h3_par_size = par_size,
               h3_par_size_bits = par_bits, h3_isParallel = par \<rparr> })"

definition h3_clear :: "h3_filter \<Rightarrow> h3_filter" where
  "h3_clear f = f\<lparr> h3_cells := replicate (nat (h3_size f)) 0 \<rparr>"

definition h3_merge :: "h3_filter \<Rightarrow> h3_filter \<Rightarrow> h3_filter option" where
  "h3_merge other f = do { xs \<leftarrow> or_cells (h3_cells f) (h3_cells other); Some (f\<lparr> h3_cells := xs \<rparr>) }"

definition H3_entry :: "nat \<Rightarrow> nat \<Rightarrow> int option" where
  "H3_entry i index = do {
     assert_that (i < length H3 \<and> index < length (H3 ! i)); Some (H3 ! i ! index) }"

definition hash_H3_step :: "nat \<Rightarrow> nat \<Rightarrow> 64 word \<times> int \<Rightarrow> (64 word \<times> int) option" where
  "hash_H3_step index i = (\<lambda>(val, result). do {
     r \<leftarrow> (if val AND 1 \<noteq> 0 then map_option (\<lambda>h. result XOR h) (H3_entry i index) else Some result);
     Some (drop_bit 1 val, r) })"

definition hash_H3 :: "64 word \<Rightarrow> nat \<Rightarrow> int option" where
  "hash_H3 value index = map_option snd (run_all (hash_H3_step index) [0..<64] (value, 0))"

definition h3_get_index :: "ruby_config \<Rightarrow> physical_address_t \<Rightarrow> h3_filter \<Rightarrow> nat \<Rightarrow> int option" where
  "h3_get_index c addr f i = do {
     x \<leftarrow> getLineAddress c addr;
     y \<leftarrow> hash_H3 x i;
     (if h3_isParallel f then do { r \<leftarrow> c_rem y (h3_par_size f); Some (r + int i * h3_par_size f) }
      else c_rem y (h3_size f)) }"

definition h3_set :: "ruby_config \<Rightarrow> physical_address_t \<Rightarrow> h3_filter \<Rightarrow> h3_filter option" where
  "h3_set c addr f = do {
     xs \<leftarrow> set_cells (h3_get_index c addr f) (nat (h3_num_hashes f)) (h3_cells f);
     Some (f\<lparr> h3_cells := xs \<rparr>) }"

definition h3_isSet :: "ruby_config \<Rightarrow> physical_address_t \<Rightarrow> h3_filter \<Rightarrow> bool option" where
  "h3_isSet c addr f = test_cells (h3_get_index c addr f) (nat (h3_num_hashes f)) (h3_cells f)"

definition h3_getCount :: "ruby_config \<Rightarrow> physical_address_t \<Rightarrow> h3_filter \<Rightarrow> int option" where
  "h3_getCount c addr f = map_option (\<lambda>b. if b then 1 else 0) (h3_isSet c addr f)"

definition h3_getTotalCount :: "h3_filter \<Rightarrow> int" where
  "h3_getTotalCount f = sum_list (h3_cells f)"

section \<open>BulkBloomFilter\<close>

record bulk_filter =
  bulk_cells :: "int list"
  bulk_temp :: "int list"
  bulk_size :: int
  bulk_size_bits :: int
  bulk_sector_bits :: int

definition bulk_new :: "string \<Rightarrow> bulk_filter option" where
  "bulk_new str = (case string_split str (CHR ''_'') of (head, tail) \<Rightarrow> do {
     bits \<leftarrow> log_int (atoi head);
     Some \<lparr> bulk_cells = replicate (nat (atoi head)) 0, bulk_temp = replicate (nat (atoi head)) 0,
            bulk_size = atoi head, bulk_size_bits = bits, bulk_sector_bits = bits - 1 \<rparr> })"

definition bulk_clear :: "bulk_filter \<Rightarrow> bulk_filter" where
  "bulk_clear f = f\<lparr> bulk_cells := replicate (nat (bulk_size f)) 0 \<rparr>"

definition bulk_c0 :: "ruby_config \<Rightarrow> physical_address_t \<Rightarrow> bulk_filter \<Rightarrow> int option" where
  "bulk_c0 c addr f = select_int addr (g_DATA_BLOCK_BITS c) (g_DATA_BLOCK_BITS c + bulk_sector_bits f - 1)"

definition bulk_c1 :: "ruby_config \<Rightarrow> physical_address_t \<Rightarrow> bulk_filter \<Rightarrow> int option" where
  "bulk_c1 c addr f = select_int addr (g_DATA_BLOCK_BITS c + bulk_sector_bits f)
     (g_DATA_BLOCK_BITS c + 2 * bulk_sector_bits f - 1)"

definition bulk_set :: "ruby_config \<Rightarrow> physical_address_t \<Rightarrow> bulk_filter \<Rightarrow> bulk_filter option" where
  "bulk_set c addr f = do {
     c0 \<leftarrow> bulk_c0 c addr f;
     c1 \<leftarrow> bulk_c1 c addr f;
     xs \<leftarrow> vec_set (bulk_cells f) (c0 + bulk_size f div 2) 1;
     xs \<leftarrow> vec_set xs c1 1;
     Some (f\<lparr> bulk_cells := xs \<rparr>) }"

text \<open>One of the two loops of \<open>isSet\<close>: the intersection of the cells \<open>from..<to\<close> of the
  temporary filter with the filter, and whether any of them is set.\<close>

definition bulk_intersect :: "nat \<Rightarrow> nat \<Rightarrow> int list \<Rightarrow> int list \<Rightarrow> (int list \<times> bool) option" where
  "bulk_intersect from to cells temp = run_all (\<lambda>i (temp, zero). do {
     t \<leftarrow> vec_ref temp (int i);
     v \<leftarrow> (if t \<noteq> 0 then map_option (\<lambda>m. if m \<noteq> 0 then 1 else 0) (vec_ref cells (int i)) else Some 0);
     temp \<leftarrow> vec_set temp (int i) v;
     Some (temp, zero \<or> v \<noteq> 0) }) [from..<to] (temp, False)"

definition bulk_reset :: "int \<Rightarrow> int \<Rightarrow> bulk_filter \<Rightarrow> int list \<Rightarrow> bulk_filter option" where
  "bulk_reset c0 c1 f temp = do {
     temp \<leftarrow> vec_set temp (c0 + bulk_size f div 2) 0;
     temp \<leftarrow> vec_set temp c1 0;
     Some (f\<lparr> bulk_temp := temp \<rparr>) }"

definition bulk_isSet :: "ruby_config \<Rightarrow> physical_address_t \<Rightarrow> bulk_filter \<Rightarrow> (bool \<times> bulk_filter) option" where
  "bulk_isSet c addr f = do {
     c0 \<leftarrow> bulk_c0 c addr f;
     c1 \<leftarrow> bulk_c1 c addr f;
     temp \<leftarrow> vec_set (bulk_temp f) (c0 + bulk_size f div 2) 1;
     temp \<leftarrow> vec_set temp c1 1;
     (temp, found) \<leftarrow> bulk_intersect 0 (nat (bulk_size f div 2)) (bulk_cells f) temp;
     (if \<not> found then do { f' \<leftarrow> bulk_reset c0 c1 f temp; Some (False, f') } else do {
        (temp, found) \<leftarrow> bulk_intersect (nat (bulk_size f div 2)) (nat (bulk_size f)) (bulk_cells f) temp;
        f' \<leftarrow> bulk_reset c0 c1 f temp;
        Some (found, f') }) }"

definition bulk_getTotalCount :: "bulk_filter \<Rightarrow> int" where
  "bulk_getTotalCount f = int (length (filter (\<lambda>v. v \<noteq> 0) (bulk_cells f)))"

definition bulk_get_index :: "ruby_config \<Rightarrow> physical_address_t \<Rightarrow> bulk_filter \<Rightarrow> int option" where
  "bulk_get_index c addr f = select_int addr (g_DATA_BLOCK_BITS c)
     (g_DATA_BLOCK_BITS c + bulk_size_bits f - 1)"

definition bulk_permute :: "ruby_config \<Rightarrow> physical_address_t \<Rightarrow> physical_address_t option" where
  "bulk_permute c addr = (let bo = g_DATA_BLOCK_BITS c in do {
     part1 \<leftarrow> bitSelect addr bo (bo + 6);
     part2 \<leftarrow> bitSelect addr (bo + 9) (bo + 9);
     part3 \<leftarrow> bitSelect addr (bo + 11) (bo + 11);
     part4 \<leftarrow> bitSelect addr (bo + 17) (bo + 17);
     part5 \<leftarrow> bitSelect addr (bo + 7) (bo + 8);
     part6 \<leftarrow> bitSelect addr (bo + 10) (bo + 10);
     part7 \<leftarrow> bitSelect addr (bo + 12) (bo + 12);
     part8 \<leftarrow> bitSelect addr (bo + 13) (bo + 13);
     part9 \<leftarrow> bitSelect addr (bo + 15) (bo + 16);
     part10 \<leftarrow> bitSelect addr (bo + 18) (bo + 20);
     part11 \<leftarrow> bitSelect addr (bo + 14) (bo + 14);
     let result = push_bit 14 part1 OR push_bit 13 part2 OR push_bit 12 part3 OR push_bit 11 part4
       OR push_bit 9 part5 OR push_bit 8 part6 OR push_bit 7 part7 OR push_bit 6 part8
       OR push_bit 4 part9 OR push_bit 1 part10 OR part11;
     remaining \<leftarrow> bitSelect addr (bo + 21) 31;
     Some (result OR push_bit 21 remaining) })"

section \<open>GenericBloomFilter\<close>

datatype abstract_filter =
    LSB_CountingBloomFilter lsb_filter
  | NonCountingBloomFilter nc_filter
  | BulkBloomFilter bulk_filter
  | BlockBloomFilter block_filter
  | MultiGrainBloomFilter mg_filter
  | MultiBitSelBloomFilter mbs_filter
  | H3BloomFilter h3_filter

definition GenericBloomFilter_new :: "string \<Rightarrow> abstract_filter option" where
  "GenericBloomFilter_new config = (case string_split config (CHR ''_'') of (head, tail) \<Rightarrow>
     if head = ''LSB_Counting'' then map_option LSB_CountingBloomFilter (lsb_new tail)
     else if head = ''NonCounting'' then map_option NonCountingBloomFilter (nc_new tail)
     else if head = ''Bulk'' then map_option BulkBloomFilter (bulk_new tail)
     else if head = ''Block'' then map_option BlockBloomFilter (blk_new tail)
     else if head = ''Multigrain'' then map_option MultiGrainBloomFilter (mg_new tail)
     else if head = ''MultiBitSel'' then map_option MultiBitSelBloomFilter (mbs_new tail)
     else if head = ''H3'' then map_option H3BloomFilter (h3_new tail)
     else None)"

fun generic_clear :: "abstract_filter \<Rightarrow> abstract_filter" where
  "generic_clear (LSB_CountingBloomFilter f) = LSB_CountingBloomFilter (lsb_clear f)"
| "generic_clear (NonCountingBloomFilter f) = NonCountingBloomFilter (nc_clear f)"
| "generic_clear (BulkBloomFilter f) = BulkBloomFilter (bulk_clear f)"
| "generic_clear (BlockBloomFilter f) = BlockBloomFilter (blk_clear f)"
| "generic_clear (MultiGrainBloomFilter f) = MultiGrainBloomFilter (mg_clear f)"
| "generic_clear (MultiBitSelBloomFilter f) = MultiBitSelBloomFilter (mbs_clear f)"
| "generic_clear (H3BloomFilter f) = H3BloomFilter (h3_clear f)"

fun generic_increment :: "ruby_config \<Rightarrow> physical_address_t \<Rightarrow> abstract_filter \<Rightarrow> abstract_filter option" where
  "generic_increment c addr (LSB_CountingBloomFilter f) =
     map_option LSB_CountingBloomFilter (lsb_increment c addr f)"
| "generic_increment c addr f = Some f"

fun generic_decrement :: "ruby_config \<Rightarrow> physical_address_t \<Rightarrow> abstract_filter \<Rightarrow> abstract_filter option" where
  "generic_decrement c addr (LSB_CountingBloomFilter f) =
     map_option LSB_CountingBloomFilter (lsb_decrement c addr f)"
| "generic_decrement c addr f = Some f"

text \<open>The argument of \<open>merge\<close> is cast to the class of the receiver; a filter of another class is
  an aborted run.\<close>

fun generic_merge :: "abstract_filter \<Rightarrow> abstract_filter \<Rightarrow> abstract_filter option" where
  "generic_merge (NonCountingBloomFilter g) (NonCountingBloomFilter f) =
     map_option NonCountingBloomFilter (nc_merge g f)"
| "generic_merge (MultiBitSelBloomFilter g) (MultiBitSelBloomFilter f) =
     map_option MultiBitSelBloomFilter (mbs_merge g f)"
| "generic_merge (H3BloomFilter g) (H3BloomFilter f) = map_option H3BloomFilter (h3_merge g f)"
| "generic_merge _ (NonCountingBloomFilter f) = None"
| "generic_merge _ (MultiBitSelBloomFilter f) = None"
| "generic_merge _ (H3BloomFilter f) = None"
| "generic_merge _ f = Some f"

fun generic_set :: "ruby_config \<Rightarrow> physical_address_t \<Rightarrow> abstract_filter \<Rightarrow> abstract_filter option" where
  "generic_set c addr (LSB_CountingBloomFilter f) = Some (LSB_CountingBloomFilter f)"
| "generic_set c addr (NonCountingBloomFilter f) = map_option NonCountingBloomFilter (nc_set c addr f)"
| "generic_set c addr (BulkBloomFilter f) = map_option BulkBloomFilter (bulk_set c addr f)"
| "generic_set c addr (BlockBloomFilter f) = map_option BlockBloomFilter (blk_set c addr f)"
| "generic_set c addr (MultiGrainBloomFilter f) = map_option MultiGrainBloomFilter (mg_set c addr f)"
| "generic_set c addr (MultiBitSelBloomFilter f) = map_option MultiBitSelBloomFilter (mbs_set c addr f)"
| "generic_set c addr (H3BloomFilter f) = map_option H3BloomFilter (h3_set c addr f)"

fun generic_unset :: "ruby_config \<Rightarrow> physical_address_t \<Rightarrow> abstract_filter \<Rightarrow> abstract_filter option" where
  "generic_unset c addr (NonCountingBloomFilter f) = map_option NonCountingBloomFilter (nc_unset c addr f)"
| "generic_unset c addr (BlockBloomFilter f) = map_option BlockBloomFilter (blk_unset c addr f)"
| "generic_unset c addr (MultiBitSelBloomFilter f) = None"
| "generic_unset c addr (H3BloomFilter f) = None"
| "generic_unset c addr f = Some f"

fun generic_isSet ::
    "ruby_config \<Rightarrow> physical_address_t \<Rightarrow> abstract_filter \<Rightarrow> (bool \<times> abstract_filter) option" where
  "generic_isSet c addr (LSB_CountingBloomFilter f) = None"
| "generic_isSet c addr (NonCountingBloomFilter f) =
     map_option (\<lambda>b. (b, NonCountingBloomFilter f)) (nc_isSet c addr f)"
| "generic_isSet c addr (BulkBloomFilter f) =
     map_option (\<lambda>(b, f'). (b, BulkBloomFilter f')) (bulk_isSet c addr f)"
| "generic_isSet c addr (BlockBloomFilter f) =
     map_option (\<lambda>b. (b, BlockBloomFilter f)) (blk_isSet c addr f)"
| "generic_isSet c addr (MultiGrainBloomFilter f) =
     map_option (\<lambda>b. (b, MultiGrainBloomFilter f)) (mg_isSet c addr f)"
| "generic_isSet c addr (MultiBitSelBloomFilter f) =
     map_option (\<lambda>b. (b, MultiBitSelBloomFilter f)) (mbs_isSet c addr f)"
| "generic_isSet c addr (H3BloomFilter f) = map_option (\<lambda>b. (b, H3BloomFilter f)) (h3_isSet c addr f)"

fun generic_getCount :: "ruby_config \<Rightarrow> physical_address_t \<Rightarrow> abstract_filter \<Rightarrow> int option" where
  "generic_getCount c addr (LSB_CountingBloomFilter f) = lsb_getCount c addr f"
| "generic_getCount c addr (NonCountingBloomFilter f) = nc_getCount c addr f"
| "generic_getCount c addr (BulkBloomFilter f) = Some 0"
| "generic_getCount c addr (BlockBloomFilter f) = blk_getCount c addr f"
| "generic_getCount c addr (MultiGrainBloomFilter f) = Some 0"
| "generic_getCount c addr (MultiBitSelBloomFilter f) = mbs_getCount c addr f"
| "generic_getCount c addr (H3BloomFilter f) = h3_getCount c addr f"

fun generic_getTotalCount :: "abstract_filter \<Rightarrow> int \<times> abstract_filter" where
  "generic_getTotalCount (LSB_CountingBloomFilter f) = (lsb_getTotalCount f, LSB_CountingBloomFilter f)"
| "generic_getTotalCount (NonCountingBloomFilter f) = (nc_getTotalCount f, NonCountingBloomFilter f)"
| "generic_getTotalCount (BulkBloomFilter f) = (bulk_getTotalCount f, BulkBloomFilter f)"
| "generic_getTotalCount (BlockBloomFilter f) = (blk_getTotalCount f, BlockBloomFilter f)"
| "generic_getTotalCount (MultiGrainBloomFilter f) =
     (case mg_getTotalCount f of (n, f') \<Rightarrow> (n, MultiGrainBloomFilter f'))"
| "generic_getTotalCount (MultiBitSelBloomFilter f) = (mbs_getTotalCount f, MultiBitSelBloomFilter f)"
| "generic_getTotalCount (H3BloomFilter f) = (h3_getTotalCount f, H3BloomFilter f)"

fun generic_getIndex :: "ruby_config \<Rightarrow> physical_address_t \<Rightarrow> abstract_filter \<Rightarrow> int option" where
  "generic_getIndex c addr (LSB_CountingBloomFilter f) = lsb_get_index c addr f"
| "generic_getIndex c addr (NonCountingBloomFilter f) = nc_get_index c addr f"
| "generic_getIndex c addr (BulkBloomFilter f) = bulk_get_index c addr f"
| "generic_getIndex c addr (BlockBloomFilter f) = blk_get_index c addr f"
| "generic_getIndex c addr _ = Some 0"

fun generic_readBit :: "int \<Rightarrow> abstract_filter \<Rightarrow> int option" where
  "generic_readBit index (NonCountingBloomFilter f) = nc_readBit index f"
| "generic_readBit index (BlockBloomFilter f) = blk_readBit index f"
| "generic_readBit index _ = Some 0"

fun generic_writeBit :: "int \<Rightarrow> int \<Rightarrow> abstract_filter \<Rightarrow> abstract_filter option" where
  "generic_writeBit index value (NonCountingBloomFilter f) =
     map_option NonCountingBloomFilter (nc_writeBit index value f)"
| "generic_writeBit index value (BlockBloomFilter f) =
     map_option BlockBloomFilter (blk_writeBit index value f)"
| "generic_writeBit index value f = Some f"

section \<open>The contract of a Bloom filter\<close>

text \<open>\<open>indices\<close> are the cells that an address hashes to, \<open>marked\<close> the cells that are set.\<close>

locale bloom_filter =
  fixes ok :: "'f \<Rightarrow> bool"
    and insert_addr :: "physical_address_t \<Rightarrow> 'f \<Rightarrow> 'f option"
    and member :: "physical_address_t \<Rightarrow> 'f \<Rightarrow> (bool \<times> 'f) option"
    and empty :: "'f \<Rightarrow> 'f"
    and indices :: "physical_address_t \<Rightarrow> 'f \<Rightarrow> nat set"
    and marked :: "'f \<Rightarrow> nat set"
  assumes insert_law: "ok f \<Longrightarrow> \<exists>f'. insert_addr a f = Some f' \<and> ok f' \<and>
      marked f' = marked f \<union> indices a f \<and> (\<forall>b. indices b f' = indices b f)"
    and member_law: "ok f \<Longrightarrow> member a f = Some (indices a f \<subseteq> marked f, f)"
    and empty_law: "ok f \<Longrightarrow> ok (empty f) \<and> marked (empty f) = {} \<and> (\<forall>b. indices b (empty f) = indices b f)"
    and indices_nonempty: "ok f \<Longrightarrow> indices a f \<noteq> {}"
begin

lemma insert_all:
  "ok f \<Longrightarrow> \<exists>f'. run_all insert_addr as f = Some f' \<and> ok f' \<and>
     marked f' = marked f \<union> (\<Union>a\<in>set as. indices a f) \<and> (\<forall>b. indices b f' = indices b f)"
proof (induction as arbitrary: f)
  case (Cons a as)
  obtain f1 where f1: "insert_addr a f = Some f1" "ok f1" "marked f1 = marked f \<union> indices a f"
    "\<forall>b. indices b f1 = indices b f" using insert_law [OF Cons.prems] by blast
  obtain f2 where "run_all insert_addr as f1 = Some f2" "ok f2"
    "marked f2 = marked f1 \<union> (\<Union>a\<in>set as. indices a f1)" "\<forall>b. indices b f2 = indices b f1"
    using Cons.IH [OF f1(2)] by blast
  then show ?case using f1 by auto
qed simp

lemma membership:
  assumes "ok f"
  shows "\<exists>f'. run_all insert_addr as (empty f) = Some f' \<and> ok f' \<and>
    (\<forall>b. member b f' = Some (indices b f \<subseteq> (\<Union>a\<in>set as. indices a f), f'))"
proof -
  have e: "ok (empty f)" "marked (empty f) = {}" "\<And>b. indices b (empty f) = indices b f"
    using empty_law [OF assms] by auto
  obtain f' where "run_all insert_addr as (empty f) = Some f'" "ok f'"
    "marked f' = marked (empty f) \<union> (\<Union>a\<in>set as. indices a (empty f))"
    "\<forall>b. indices b f' = indices b (empty f)" using insert_all [OF e(1)] by blast
  then show ?thesis using e member_law by (intro exI [of _ f']) auto
qed

lemma no_false_negatives:
  assumes "ok f"
  shows "\<exists>f'. run_all insert_addr as (empty f) = Some f' \<and> ok f' \<and>
    (\<forall>a\<in>set as. member a f' = Some (True, f')) \<and> (as = [] \<longrightarrow> (\<forall>b. member b f' = Some (False, f')))"
  using membership [OF assms, of as] indices_nonempty [OF assms] by fastforce

end

text \<open>A filter that can be merged with another one of the same shape.\<close>

locale mergeable_bloom_filter = bloom_filter +
  fixes merge :: "'a \<Rightarrow> 'a \<Rightarrow> 'a option"
    and alike :: "'a \<Rightarrow> 'a \<Rightarrow> bool"
  assumes merge_law: "ok f \<Longrightarrow> ok g \<Longrightarrow> alike f g \<Longrightarrow> \<exists>f'. merge g f = Some f' \<and> ok f' \<and>
      marked f' = marked f \<union> marked g \<and> (\<forall>b. indices b f' = indices b f)"
    and alike_indices: "alike f g \<Longrightarrow> indices b g = indices b f"
begin

lemma merge_keeps_members:
  assumes "ok f" "ok g" "alike f g" "member a f = Some (True, f) \<or> member a g = Some (True, g)"
  shows "\<exists>f'. merge g f = Some f' \<and> ok f' \<and> member a f' = Some (True, f')"
proof -
  obtain f' where f': "merge g f = Some f'" "ok f'" "marked f' = marked f \<union> marked g"
    "\<forall>b. indices b f' = indices b f" using merge_law [OF assms(1-3)] by blast
  have "indices a f \<subseteq> marked f \<union> marked g"
    using assms(4) member_law [OF assms(1), of a] member_law [OF assms(2), of a]
      alike_indices [OF assms(3), of a] by auto
  then show ?thesis using f' member_law [OF f'(2)] by auto
qed

end

section \<open>Cells\<close>

definition cells_of :: "int list \<Rightarrow> nat set" where
  "cells_of xs = {i. i < length xs \<and> xs ! i \<noteq> 0}"

lemma cells_of_replicate [simp]: "cells_of (replicate n 0) = {}"
  by (auto simp: cells_of_def)

lemma cells_of_update:
  assumes "i < length xs"
  shows "cells_of (xs[i := 1]) = insert i (cells_of xs)"
  using assms by (auto simp: cells_of_def nth_list_update)

lemma vec_set_1:
  assumes "0 \<le> i" "i < int (length xs)"
  shows "vec_set xs i 1 = Some (xs[nat i := 1])" "cells_of (xs[nat i := 1]) = insert (nat i) (cells_of xs)"
  using assms by (auto simp: vec_set_def cells_of_update nat_less_iff)

lemma vec_ref_cells:
  assumes "0 \<le> i" "i < int (length xs)"
  obtains v where "vec_ref xs i = Some v" "v \<noteq> 0 \<longleftrightarrow> nat i \<in> cells_of xs"
  using assms that by (auto simp: vec_ref_def cells_of_def nat_less_iff)

text \<open>\<open>hits\<close>: the hash functions \<open>index i\<close>, \<open>i < n\<close>, give cells of a filter with \<open>m\<close> cells.\<close>

definition hits :: "(nat \<Rightarrow> int option) \<Rightarrow> nat \<Rightarrow> int \<Rightarrow> bool" where
  "hits index n m \<longleftrightarrow> (\<forall>i<n. \<exists>j. index i = Some j \<and> 0 \<le> j \<and> j < m)"

definition hit_cells :: "(nat \<Rightarrow> int option) \<Rightarrow> nat \<Rightarrow> nat set" where
  "hit_cells index n = (\<lambda>i. nat (the (index i))) ` {..<n}"

lemma hit_cells_Suc: "hit_cells index (Suc n) = insert (nat (the (index n))) (hit_cells index n)"
  by (simp add: hit_cells_def lessThan_Suc)

lemma set_cells_law:
  assumes "hits index n (int (length xs))"
  shows "\<exists>ys. set_cells index n xs = Some ys \<and> length ys = length xs \<and>
    cells_of ys = cells_of xs \<union> hit_cells index n"
  using assms
proof (induction n)
  case 0
  then show ?case by (simp add: set_cells_def hit_cells_def)
next
  case (Suc n)
  then obtain ys where ys: "set_cells index n xs = Some ys" "length ys = length xs"
    "cells_of ys = cells_of xs \<union> hit_cells index n" by (auto simp: hits_def)
  obtain j where j: "index n = Some j" "0 \<le> j" "j < int (length ys)"
    using Suc.prems ys(2) by (auto simp: hits_def)
  have "set_cells index (Suc n) xs = Some (ys[nat j := 1])"
    using ys(1) j(1) vec_set_1 [OF j(2,3)] by (simp add: set_cells_def run_all_append)
  then show ?case using ys j(1) vec_set_1(2) [OF j(2,3)] by (auto simp: hit_cells_Suc)
qed

lemma test_cells_law:
  assumes "hits index n (int (length xs))"
  shows "test_cells index n xs = Some (hit_cells index n \<subseteq> cells_of xs)"
  using assms
proof (induction n)
  case 0
  then show ?case by (simp add: test_cells_def hit_cells_def)
next
  case (Suc n)
  then have IH: "test_cells index n xs = Some (hit_cells index n \<subseteq> cells_of xs)" by (auto simp: hits_def)
  obtain j where j: "index n = Some j" "0 \<le> j" "j < int (length xs)"
    using Suc.prems by (auto simp: hits_def)
  obtain v where v: "vec_ref xs j = Some v" "v \<noteq> 0 \<longleftrightarrow> nat j \<in> cells_of xs"
    using vec_ref_cells [OF j(2,3)] by blast
  show ?case using IH j(1) v by (auto simp: test_cells_def run_all_append hit_cells_Suc)
qed

lemma or_cells_law:
  assumes "length xs = length ys"
  shows "\<exists>zs. or_cells xs ys = Some zs \<and> length zs = length xs \<and> cells_of zs = cells_of xs \<union> cells_of ys"
  using assms by (auto simp: or_cells_def cells_of_def or_eq_0_iff)

lemma select_int_range:
  assumes "0 \<le> small" "small < 64" "0 < k" "k \<le> 31"
  obtains i where "select_int a small (small + k - 1) = Some i" "0 \<le> i" "i < 2 ^ nat k"
proof -
  let ?r = "take_bit (nat k) (drop_bit (nat small) a)"
  have b: "bitSelect a small (small + k - 1) = Some ?r"
    using bitSelect_eq [of small "small + k - 1" a] assms by simp
  have u: "unat ?r < 2 ^ nat k" by (simp add: unat_take_bit)
  also have "(2::nat) ^ nat k \<le> 2 ^ 31" using assms by (intro power_increasing) auto
  finally have "to_int32 ?r = int (unat ?r)" by (rule to_int32_small)
  moreover have "int (unat ?r) < int (2 ^ nat k)" using u by (simp only: of_nat_less_iff)
  ultimately show ?thesis using that [of "to_int32 ?r"] b by (simp add: select_int_def)
qed

lemma c_rem_range:
  assumes "0 \<le> y" "0 < m"
  shows "\<exists>r. c_rem y m = Some r \<and> 0 \<le> r \<and> r < m"
  using assms by (auto simp: c_rem_def)

text \<open>The last step of \<open>get_index\<close> in the filters with several hash functions.\<close>

lemma spread_range:
  assumes "0 \<le> y" "i < n" "0 < par" "int n * par \<le> m"
  shows "\<exists>j. (if p then do { r \<leftarrow> c_rem y par; Some (r + int i * par) } else c_rem y m) = Some j \<and>
    0 \<le> j \<and> j < m"
proof (cases p)
  case True
  obtain r where r: "c_rem y par = Some r" "0 \<le> r" "r < par" using c_rem_range assms by blast
  have "(int i + 1) * par \<le> int n * par" using assms by (intro mult_right_mono) auto
  then have "r + int i * par < m" using r assms(4) by (simp add: algebra_simps)
  then show ?thesis using True r assms by simp
next
  case False
  have "0 < int n * par" using assms by (intro mult_pos_pos) auto
  then have "0 < m" using assms(4) by simp
  then show ?thesis using False c_rem_range [OF assms(1)] by simp
qed

section \<open>The filters satisfy the contract\<close>

subsection \<open>NonCounting and Block\<close>

definition nc_ok :: "ruby_config \<Rightarrow> nc_filter \<Rightarrow> bool" where
  "nc_ok c f \<longleftrightarrow> 0 < nc_size_bits f \<and> nc_size_bits f \<le> 31 \<and> nc_size f = 2 ^ nat (nc_size_bits f) \<and>
     int (length (nc_cells f)) = nc_size f \<and>
     0 \<le> g_DATA_BLOCK_BITS c + nc_offset f \<and> g_DATA_BLOCK_BITS c + nc_offset f < 64"

definition nc_indices :: "ruby_config \<Rightarrow> physical_address_t \<Rightarrow> nc_filter \<Rightarrow> nat set" where
  "nc_indices c a f = {nat (the (nc_get_index c a f))}"

lemma nc_index_range:
  assumes "nc_ok c f"
  obtains i where "nc_get_index c a f = Some i" "0 \<le> i" "i < int (length (nc_cells f))"
  using assms select_int_range [of "g_DATA_BLOCK_BITS c + nc_offset f" "nc_size_bits f" a]
  by (auto simp: nc_ok_def nc_get_index_def)

lemma nc_insert:
  assumes "nc_ok c f"
  shows "\<exists>f'. nc_set c a f = Some f' \<and> nc_ok c f' \<and>
    cells_of (nc_cells f') = cells_of (nc_cells f) \<union> nc_indices c a f \<and> (\<forall>b. nc_indices c b f' = nc_indices c b f)"
proof -
  obtain i where i: "nc_get_index c a f = Some i" "0 \<le> i" "i < int (length (nc_cells f))"
    using nc_index_range [OF assms] by blast
  then show ?thesis using assms vec_set_1 [OF i(2,3)]
    by (simp add: nc_set_def nc_ok_def nc_indices_def nc_get_index_def)
qed

lemma nc_member:
  assumes "nc_ok c f"
  shows "nc_isSet c a f = Some (nc_indices c a f \<subseteq> cells_of (nc_cells f))"
proof -
  obtain i where i: "nc_get_index c a f = Some i" "0 \<le> i" "i < int (length (nc_cells f))"
    using nc_index_range [OF assms] by blast
  obtain v where v: "vec_ref (nc_cells f) i = Some v" "v \<noteq> 0 \<longleftrightarrow> nat i \<in> cells_of (nc_cells f)"
    using vec_ref_cells [OF i(2,3)] by blast
  then show ?thesis using i(1) by (simp add: nc_isSet_def nc_indices_def)
qed

lemma nc_empty:
  assumes "nc_ok c f"
  shows "nc_ok c (nc_clear f) \<and> cells_of (nc_cells (nc_clear f)) = {} \<and>
    (\<forall>b. nc_indices c b (nc_clear f) = nc_indices c b f)"
  using assms by (simp add: nc_ok_def nc_clear_def nc_indices_def nc_get_index_def)

definition blk_ok :: "ruby_config \<Rightarrow> block_filter \<Rightarrow> bool" where
  "blk_ok c f \<longleftrightarrow> 0 < g_DATA_BLOCK_BITS c \<and> g_DATA_BLOCK_BITS c \<le> blk_size_bits f \<and> blk_size_bits f \<le> 31 \<and>
     2 * g_DATA_BLOCK_BITS c + 5 < 64 \<and> blk_size f = 2 ^ nat (blk_size_bits f) \<and>
     int (length (blk_cells f)) = blk_size f"

definition blk_indices :: "ruby_config \<Rightarrow> physical_address_t \<Rightarrow> block_filter \<Rightarrow> nat set" where
  "blk_indices c a f = {nat (the (blk_get_index c a f))}"

lemma blk_index_range:
  assumes "blk_ok c f"
  obtains i where "blk_get_index c a f = Some i" "0 \<le> i" "i < int (length (blk_cells f))"
proof -
  let ?d = "g_DATA_BLOCK_BITS c" and ?s = "blk_size_bits f"
  let ?b = "take_bit (nat ?d) (drop_bit (nat ?d) a)"
  let ?o = "take_bit (nat ?s) (drop_bit (nat (2 * ?d + 5)) a)"
  have r: "bitSelect a ?d (2 * ?d - 1) = Some ?b" "bitSelect a (2 * ?d + 5) (2 * ?d + 5 + ?s - 1) = Some ?o"
    using bitSelect_eq [of ?d "2 * ?d - 1" a] bitSelect_eq [of "2 * ?d + 5" "2 * ?d + 5 + ?s - 1" a] assms
    by (auto simp: blk_ok_def)
  have "min (nat ?s) (nat ?d) = nat ?d" using assms unfolding blk_ok_def by (intro min.absorb2 nat_mono) simp
  then have "take_bit (nat ?s) (?b XOR ?o) = ?b XOR ?o" by (simp add: take_bit_xor take_bit_take_bit)
  then have "unat (?b XOR ?o) < 2 ^ nat ?s"
    using unat_take_bit [of "nat ?s" "?b XOR ?o"] by (metis mod_less_divisor zero_less_numeral zero_less_power)
  moreover have "nat ?s \<le> 31" using assms unfolding blk_ok_def by linarith
  then have "(2::nat) ^ nat ?s \<le> 2 ^ 31" by (rule power_increasing) simp
  ultimately have "unat (?b XOR ?o) < 2 ^ 31" "unat (?b XOR ?o) < 2 ^ nat ?s" by simp_all
  then have "to_int32 (?b XOR ?o) = int (unat (?b XOR ?o))" "int (unat (?b XOR ?o)) < int (2 ^ nat ?s)"
    using to_int32_small by (auto simp only: of_nat_less_iff)
  then show ?thesis using that [of "int (unat (?b XOR ?o))"] r assms
    by (simp add: blk_get_index_def Let_def blk_ok_def)
qed

lemma blk_insert:
  assumes "blk_ok c f"
  shows "\<exists>f'. blk_set c a f = Some f' \<and> blk_ok c f' \<and>
    cells_of (blk_cells f') = cells_of (blk_cells f) \<union> blk_indices c a f \<and>
    (\<forall>b. blk_indices c b f' = blk_indices c b f)"
proof -
  obtain i where i: "blk_get_index c a f = Some i" "0 \<le> i" "i < int (length (blk_cells f))"
    using blk_index_range [OF assms] by blast
  then show ?thesis using assms vec_set_1 [OF i(2,3)]
    by (simp add: blk_set_def blk_ok_def blk_indices_def blk_get_index_def)
qed

lemma blk_member:
  assumes "blk_ok c f"
  shows "blk_isSet c a f = Some (blk_indices c a f \<subseteq> cells_of (blk_cells f))"
proof -
  obtain i where i: "blk_get_index c a f = Some i" "0 \<le> i" "i < int (length (blk_cells f))"
    using blk_index_range [OF assms] by blast
  obtain v where v: "vec_ref (blk_cells f) i = Some v" "v \<noteq> 0 \<longleftrightarrow> nat i \<in> cells_of (blk_cells f)"
    using vec_ref_cells [OF i(2,3)] by blast
  then show ?thesis using i(1) by (simp add: blk_isSet_def blk_indices_def)
qed

lemma blk_empty:
  assumes "blk_ok c f"
  shows "blk_ok c (blk_clear f) \<and> cells_of (blk_cells (blk_clear f)) = {} \<and>
    (\<forall>b. blk_indices c b (blk_clear f) = blk_indices c b f)"
  using assms by (simp add: blk_ok_def blk_clear_def blk_indices_def blk_get_index_def)

subsection \<open>MultiBitSel and H3\<close>

definition mbs_ok :: "ruby_config \<Rightarrow> mbs_filter \<Rightarrow> bool" where
  "mbs_ok c f \<longleftrightarrow> 0 < mbs_num_hashes f \<and> 0 < mbs_par_size f \<and>
     mbs_num_hashes f * mbs_par_size f \<le> mbs_size f \<and> mbs_size_bits f \<le> 31 \<and>
     0 \<le> mbs_skip_bits f \<and> mbs_skip_bits f < 64 \<and> int (length (mbs_cells f)) = mbs_size f \<and>
     0 \<le> g_DATA_BLOCK_BITS c \<and> g_DATA_BLOCK_BITS c < 64"

definition mbs_indices :: "ruby_config \<Rightarrow> physical_address_t \<Rightarrow> mbs_filter \<Rightarrow> nat set" where
  "mbs_indices c a f = hit_cells (mbs_get_index c a f) (nat (mbs_num_hashes f))"

lemma hash_bitsel_range:
  assumes "n \<le> 31"
  shows "0 \<le> hash_bitsel v i j m n \<and> hash_bitsel v i j m n < 2 ^ n"
  using assms
proof (induction n)
  case 0
  then show ?case by (simp add: hash_bitsel_def)
next
  case (Suc n)
  let ?h = "hash_bitsel v i j m n"
  have h: "0 \<le> ?h" "?h < 2 ^ n" using Suc by auto
  have p: "(2::int) ^ Suc n \<le> 2 ^ 31" using Suc.prems by (intro power_increasing) auto
  let ?w = "word_of_int ?h + push_bit n 1 :: 64 word"
  have "?w = word_of_int (?h + 2 ^ n)" by (simp add: push_bit_of_1)
  then have u: "uint ?w = ?h + 2 ^ n"
    using h p by (simp only: uint_word_of_int) (simp add: take_bit_int_eq_self_iff)
  have "int (unat ?w) < int (2 ^ 31)" using u h p by simp
  then have "to_int32 ?w = ?h + 2 ^ n" using u to_int32_small [of ?w] by (simp only: of_nat_less_iff) simp
  then show ?case using h by (simp add: hash_bitsel_def)
qed

lemma mbs_hits:
  assumes "mbs_ok c f"
  shows "hits (mbs_get_index c a f) (nat (mbs_num_hashes f)) (int (length (mbs_cells f)))"
  unfolding hits_def
proof (intro allI impI)
  fix i assume i: "i < nat (mbs_num_hashes f)"
  obtain line where line: "getLineAddress c a = Some line"
    using bitSelect_eq [of "g_DATA_BLOCK_BITS c" 64 a] assms
    by (auto simp: getLineAddress_def mbs_ok_def ADDRESS_WIDTH_def)
  let ?y = "hash_bitsel (drop_bit (nat (mbs_skip_bits f)) line) i (nat (mbs_num_hashes f)) 30 (nat (mbs_size_bits f))"
  have "nat (mbs_size_bits f) \<le> 31" using assms unfolding mbs_ok_def by linarith
  then have "0 \<le> ?y" using hash_bitsel_range by blast
  from spread_range [OF this i, of "mbs_par_size f" "mbs_size f" "mbs_isParallel f"]
  show "\<exists>j. mbs_get_index c a f i = Some j \<and> 0 \<le> j \<and> j < int (length (mbs_cells f))"
    using line assms by (simp add: mbs_get_index_def Let_def mbs_ok_def shift_defined_def)
qed

lemma mbs_insert:
  assumes "mbs_ok c f"
  shows "\<exists>f'. mbs_set c a f = Some f' \<and> mbs_ok c f' \<and>
    cells_of (mbs_cells f') = cells_of (mbs_cells f) \<union> mbs_indices c a f \<and>
    (\<forall>b. mbs_indices c b f' = mbs_indices c b f)"
proof -
  obtain ys where ys: "set_cells (mbs_get_index c a f) (nat (mbs_num_hashes f)) (mbs_cells f) = Some ys"
    "length ys = length (mbs_cells f)" "cells_of ys = cells_of (mbs_cells f) \<union> mbs_indices c a f"
    using set_cells_law [OF mbs_hits [OF assms]] by (auto simp: mbs_indices_def)
  have "mbs_get_index c b (f\<lparr> mbs_cells := ys \<rparr>) = mbs_get_index c b f" for b
    by (rule ext) (simp add: mbs_get_index_def Let_def cong: if_cong)
  then show ?thesis using ys assms by (simp add: mbs_set_def mbs_indices_def mbs_ok_def)
qed

lemma mbs_member: "mbs_ok c f \<Longrightarrow> mbs_isSet c a f = Some (mbs_indices c a f \<subseteq> cells_of (mbs_cells f))"
  using test_cells_law [OF mbs_hits] by (simp add: mbs_isSet_def mbs_indices_def)

lemma mbs_empty:
  assumes "mbs_ok c f"
  shows "mbs_ok c (mbs_clear f) \<and> cells_of (mbs_cells (mbs_clear f)) = {} \<and>
    (\<forall>b. mbs_indices c b (mbs_clear f) = mbs_indices c b f)"
proof -
  have "mbs_get_index c b (mbs_clear f) = mbs_get_index c b f" for b
    by (rule ext) (simp add: mbs_get_index_def mbs_clear_def Let_def cong: if_cong)
  moreover have "0 \<le> mbs_size f" using assms unfolding mbs_ok_def by linarith
  ultimately show ?thesis using assms by (simp add: mbs_ok_def mbs_indices_def) (simp add: mbs_clear_def)
qed

definition h3_ok :: "ruby_config \<Rightarrow> h3_filter \<Rightarrow> bool" where
  "h3_ok c f \<longleftrightarrow> 0 < h3_num_hashes f \<and> h3_num_hashes f \<le> 16 \<and> 0 < h3_par_size f \<and>
     h3_num_hashes f * h3_par_size f \<le> h3_size f \<and> int (length (h3_cells f)) = h3_size f \<and>
     0 \<le> g_DATA_BLOCK_BITS c \<and> g_DATA_BLOCK_BITS c < 64"

definition h3_indices :: "ruby_config \<Rightarrow> physical_address_t \<Rightarrow> h3_filter \<Rightarrow> nat set" where
  "h3_indices c a f = hit_cells (h3_get_index c a f) (nat (h3_num_hashes f))"

text \<open>The hash of a value is the exclusive or of the table entries of its bits.\<close>

fun xor_rows :: "64 word \<Rightarrow> nat \<Rightarrow> nat \<Rightarrow> int" where
  "xor_rows v index 0 = 0"
| "xor_rows v index (Suc n) = (if bit v n then xor_rows v index n XOR H3 ! n ! index else xor_rows v index n)"

lemma hash_H3_loop:
  assumes "index < 16" "n \<le> 64"
  shows "run_all (hash_H3_step index) [0..<n] (v, 0) = Some (drop_bit n v, xor_rows v index n)"
  using assms(2)
proof (induction n)
  case (Suc n)
  have "drop_bit n v AND 1 \<noteq> 0 \<longleftrightarrow> bit v n"
    using word_test_bit [of "drop_bit n v" 0] by (simp add: bit_simps)
  moreover have "H3_entry n index = Some (H3 ! n ! index)"
    using Suc.prems assms(1) H3_shape by (simp add: H3_entry_def)
  ultimately show ?case using Suc by (simp add: run_all_append hash_H3_step_def)
qed simp

lemma hash_H3_eq: "index < 16 \<Longrightarrow> hash_H3 v index = Some (xor_rows v index 64)"
  using hash_H3_loop [of index 64 v] by (simp add: hash_H3_def)

lemma xor_rows_nonneg:
  assumes "index < 16" "n \<le> 64"
  shows "0 \<le> xor_rows v index n"
  using assms(2) by (induction n) (use assms(1) H3_shape(3) in auto)

lemma xor_rows_xor: "xor_rows (v XOR w) index n = xor_rows v index n XOR xor_rows w index n"
  by (induction n) (auto simp: bit_xor_iff ac_simps)

lemma h3_hits:
  assumes "h3_ok c f"
  shows "hits (h3_get_index c a f) (nat (h3_num_hashes f)) (int (length (h3_cells f)))"
  unfolding hits_def
proof (intro allI impI)
  fix i assume i: "i < nat (h3_num_hashes f)"
  then have i16: "i < 16" using assms unfolding h3_ok_def by linarith
  obtain line where line: "getLineAddress c a = Some line"
    using bitSelect_eq [of "g_DATA_BLOCK_BITS c" 64 a] assms
    by (auto simp: getLineAddress_def h3_ok_def ADDRESS_WIDTH_def)
  have "0 \<le> xor_rows line i 64" by (rule xor_rows_nonneg [OF i16]) simp
  from spread_range [OF this i, of "h3_par_size f" "h3_size f" "h3_isParallel f"]
  show "\<exists>j. h3_get_index c a f i = Some j \<and> 0 \<le> j \<and> j < int (length (h3_cells f))"
    using line assms hash_H3_eq [OF i16] by (simp add: h3_get_index_def h3_ok_def)
qed

lemma h3_insert:
  assumes "h3_ok c f"
  shows "\<exists>f'. h3_set c a f = Some f' \<and> h3_ok c f' \<and>
    cells_of (h3_cells f') = cells_of (h3_cells f) \<union> h3_indices c a f \<and>
    (\<forall>b. h3_indices c b f' = h3_indices c b f)"
proof -
  obtain ys where ys: "set_cells (h3_get_index c a f) (nat (h3_num_hashes f)) (h3_cells f) = Some ys"
    "length ys = length (h3_cells f)" "cells_of ys = cells_of (h3_cells f) \<union> h3_indices c a f"
    using set_cells_law [OF h3_hits [OF assms]] by (auto simp: h3_indices_def)
  have "h3_get_index c b (f\<lparr> h3_cells := ys \<rparr>) = h3_get_index c b f" for b
    by (rule ext) (simp add: h3_get_index_def cong: if_cong)
  then show ?thesis using ys assms by (simp add: h3_set_def h3_indices_def h3_ok_def)
qed

lemma h3_member: "h3_ok c f \<Longrightarrow> h3_isSet c a f = Some (h3_indices c a f \<subseteq> cells_of (h3_cells f))"
  using test_cells_law [OF h3_hits] by (simp add: h3_isSet_def h3_indices_def)

lemma h3_empty:
  assumes "h3_ok c f"
  shows "h3_ok c (h3_clear f) \<and> cells_of (h3_cells (h3_clear f)) = {} \<and>
    (\<forall>b. h3_indices c b (h3_clear f) = h3_indices c b f)"
proof -
  have "h3_get_index c b (h3_clear f) = h3_get_index c b f" for b
    by (rule ext) (simp add: h3_get_index_def h3_clear_def cong: if_cong)
  moreover have "0 \<le> h3_size f" using assms unfolding h3_ok_def by linarith
  ultimately show ?thesis using assms by (simp add: h3_ok_def h3_indices_def) (simp add: h3_clear_def)
qed

subsection \<open>Bulk\<close>

definition bulk_ok :: "ruby_config \<Rightarrow> bulk_filter \<Rightarrow> bool" where
  "bulk_ok c f \<longleftrightarrow> 0 < bulk_sector_bits f \<and> bulk_sector_bits f \<le> 31 \<and>
     bulk_size f = 2 * 2 ^ nat (bulk_sector_bits f) \<and>
     length (bulk_cells f) = 2 * 2 ^ nat (bulk_sector_bits f) \<and>
     bulk_temp f = replicate (2 * 2 ^ nat (bulk_sector_bits f)) 0 \<and>
     0 \<le> g_DATA_BLOCK_BITS c \<and> g_DATA_BLOCK_BITS c + bulk_sector_bits f < 64"

definition bulk_indices :: "ruby_config \<Rightarrow> physical_address_t \<Rightarrow> bulk_filter \<Rightarrow> nat set" where
  "bulk_indices c a f = {nat (the (bulk_c1 c a f)), nat (the (bulk_c0 c a f) + bulk_size f div 2)}"

lemma bulk_index_range:
  assumes "bulk_ok c f"
  obtains i j where "bulk_c0 c a f = Some (int i)" "bulk_c1 c a f = Some (int j)"
    "i < 2 ^ nat (bulk_sector_bits f)" "j < 2 ^ nat (bulk_sector_bits f)"
proof -
  let ?d = "g_DATA_BLOCK_BITS c" and ?k = "bulk_sector_bits f"
  obtain i where i: "bulk_c0 c a f = Some i" "0 \<le> i" "i < 2 ^ nat ?k"
    using select_int_range [of ?d ?k a] assms by (auto simp: bulk_ok_def bulk_c0_def)
  obtain j where j: "select_int a (?d + ?k) (?d + ?k + ?k - 1) = Some j" "0 \<le> j" "j < 2 ^ nat ?k"
    using select_int_range [of "?d + ?k" ?k a] assms by (auto simp: bulk_ok_def)
  have "bulk_c1 c a f = Some j" using j(1) by (simp add: bulk_c1_def algebra_simps)
  then show ?thesis using that [of "nat i" "nat j"] i j by (simp add: nat_less_iff)
qed

lemma bulk_insert:
  assumes "bulk_ok c f"
  shows "\<exists>f'. bulk_set c a f = Some f' \<and> bulk_ok c f' \<and>
    cells_of (bulk_cells f') = cells_of (bulk_cells f) \<union> bulk_indices c a f \<and>
    (\<forall>b. bulk_indices c b f' = bulk_indices c b f)"
proof -
  obtain i j where ij: "bulk_c0 c a f = Some (int i)" "bulk_c1 c a f = Some (int j)"
    "i < 2 ^ nat (bulk_sector_bits f)" "j < 2 ^ nat (bulk_sector_bits f)"
    using bulk_index_range [OF assms] by blast
  define h where "h = (2::nat) ^ nat (bulk_sector_bits f)"
  have h: "bulk_size f div 2 = int h" "length (bulk_cells f) = 2 * h" "i < h" "j < h"
    using assms ij(3,4) by (auto simp: bulk_ok_def h_def)
  let ?xs = "(bulk_cells f)[i + h := 1, j := 1]"
  have "bulk_set c a f = Some (f\<lparr> bulk_cells := ?xs \<rparr>)"
    using ij(1,2) h by (simp add: bulk_set_def vec_set_def nat_add_distrib)
  moreover have "cells_of ?xs = cells_of (bulk_cells f) \<union> {j, i + h}"
    using h by (simp add: cells_of_update)
  moreover have "bulk_indices c a f = {j, i + h}" using ij(1,2) h(1) by (simp add: bulk_indices_def nat_add_distrib)
  ultimately show ?thesis using assms by (simp add: bulk_ok_def bulk_indices_def bulk_c0_def bulk_c1_def)
qed

text \<open>The loops intersect the temporary filter with the filter.\<close>

lemma bulk_intersect_law:
  assumes "from \<le> to" "to \<le> length temp" "length temp = length cells"
  shows "bulk_intersect from to cells temp =
    Some (map (\<lambda>i. if from \<le> i \<and> i < to then if temp ! i \<noteq> 0 \<and> cells ! i \<noteq> 0 then 1 else 0 else temp ! i)
            [0..<length temp],
          \<exists>i. from \<le> i \<and> i < to \<and> temp ! i \<noteq> 0 \<and> cells ! i \<noteq> 0)"
  using assms(1,2)
proof (induction to rule: dec_induct)
  case base
  have "map (\<lambda>i. if from \<le> i \<and> i < from then if temp ! i \<noteq> 0 \<and> cells ! i \<noteq> 0 then 1 else 0 else temp ! i)
      [0..<length temp] = temp" by (auto intro: nth_equalityI)
  then show ?case by (simp add: bulk_intersect_def)
next
  case (step n)
  let ?t = "\<lambda>n. map (\<lambda>i. if from \<le> i \<and> i < n then if temp ! i \<noteq> 0 \<and> cells ! i \<noteq> 0 then 1 else 0 else temp ! i)
      [0..<length temp]"
  let ?v = "if temp ! n \<noteq> 0 \<and> cells ! n \<noteq> 0 then 1 else (0::int)"
  have IH: "bulk_intersect from n cells temp = Some (?t n, \<exists>i. from \<le> i \<and> i < n \<and> temp ! i \<noteq> 0 \<and> cells ! i \<noteq> 0)"
    using step by simp
  have upd: "(?t n)[n := ?v] = ?t (Suc n)"
    using step by (intro nth_equalityI) (auto simp: nth_list_update less_Suc_eq)
  have "bulk_intersect from (Suc n) cells temp = Some ((?t n)[n := ?v],
      (\<exists>i. from \<le> i \<and> i < n \<and> temp ! i \<noteq> 0 \<and> cells ! i \<noteq> 0) \<or> ?v \<noteq> 0)"
    using IH step assms(3) by (simp add: bulk_intersect_def run_all_append vec_ref_def vec_set_def)
  then show ?case unfolding upd using step by (auto simp: less_Suc_eq)
qed

lemma bulk_member:
  assumes "bulk_ok c f"
  shows "bulk_isSet c a f = Some (bulk_indices c a f \<subseteq> cells_of (bulk_cells f), f)"
proof -
  obtain i j where ij: "bulk_c0 c a f = Some (int i)" "bulk_c1 c a f = Some (int j)"
    "i < 2 ^ nat (bulk_sector_bits f)" "j < 2 ^ nat (bulk_sector_bits f)"
    using bulk_index_range [OF assms] by blast
  define h where "h = (2::nat) ^ nat (bulk_sector_bits f)"
  have h: "bulk_size f div 2 = int h" "bulk_size f = int (2 * h)" "length (bulk_cells f) = 2 * h" "i < h" "j < h"
    "bulk_temp f = replicate (2 * h) 0"
    using assms ij(3,4) by (auto simp: bulk_ok_def h_def)
  let ?C = "bulk_cells f"
  define t0 :: "int list" where "t0 = (replicate (2 * h) 0)[i + h := 1, j := 1]"
  have t0: "length t0 = 2 * h" "\<And>n. n < 2 * h \<Longrightarrow> t0 ! n = (if n = j \<or> n = i + h then 1 else 0)"
    using h by (auto simp: t0_def nth_list_update)
  define t1 where "t1 = map (\<lambda>n. if 0 \<le> n \<and> n < h then if t0 ! n \<noteq> 0 \<and> ?C ! n \<noteq> 0 then 1 else 0 else t0 ! n) [0..<2 * h]"
  have i1: "bulk_intersect 0 h ?C t0 = Some (t1, ?C ! j \<noteq> 0)"
  proof -
    have "(\<exists>n. 0 \<le> n \<and> n < h \<and> t0 ! n \<noteq> 0 \<and> ?C ! n \<noteq> 0) \<longleftrightarrow> ?C ! j \<noteq> 0"
      using t0(2) h(4,5) by (auto split: if_splits)
    then show ?thesis using bulk_intersect_law [of 0 h t0 ?C] t0(1) h(3) by (simp add: t1_def)
  qed
  have t1: "length t1 = 2 * h" "\<And>n. n < 2 * h \<Longrightarrow> t1 ! n = (if n = j \<and> ?C ! j \<noteq> 0 \<or> n = i + h then 1 else 0)"
    using t0 h by (auto simp: t1_def)
  define t2 where "t2 = map (\<lambda>n. if h \<le> n \<and> n < 2 * h then if t1 ! n \<noteq> 0 \<and> ?C ! n \<noteq> 0 then 1 else 0 else t1 ! n) [0..<2 * h]"
  have i2: "bulk_intersect h (2 * h) ?C t1 = Some (t2, ?C ! (i + h) \<noteq> 0)"
  proof -
    have "(\<exists>n. h \<le> n \<and> n < 2 * h \<and> t1 ! n \<noteq> 0 \<and> ?C ! n \<noteq> 0) \<longleftrightarrow> ?C ! (i + h) \<noteq> 0"
      using t1(2) h(4,5) by (auto split: if_splits intro!: exI [of _ "i + h"])
    then show ?thesis using bulk_intersect_law [of h "2 * h" t1 ?C] t1(1) h(3) by (simp add: t2_def)
  qed
  have t2: "length t2 = 2 * h" "\<And>n. n < 2 * h \<Longrightarrow> n \<noteq> j \<Longrightarrow> n \<noteq> i + h \<Longrightarrow> t2 ! n = 0"
    using t1 h by (auto simp: t2_def)
  have reset: "bulk_reset (int i) (int j) f t = Some f"
    if "length t = 2 * h" "\<And>n. n < 2 * h \<Longrightarrow> n \<noteq> j \<Longrightarrow> n \<noteq> i + h \<Longrightarrow> t ! n = 0" for t
  proof -
    have "t[i + h := 0, j := 0] = bulk_temp f"
      unfolding h(6) using that h(4,5) by (intro nth_equalityI) (auto simp: nth_list_update)
    then show ?thesis using that(1) h by (simp add: bulk_reset_def vec_set_def nat_add_distrib)
  qed
  have "bulk_isSet c a f = Some (?C ! j \<noteq> 0 \<and> ?C ! (i + h) \<noteq> 0, f)"
    using ij(1,2) h i1 i2 reset [of t1] reset [of t2] t1 t2
    by (simp add: bulk_isSet_def vec_set_def nat_add_distrib nat_mult_distrib t0_def [symmetric])
  moreover have "bulk_indices c a f = {j, i + h}" using ij(1,2) h(1) by (simp add: bulk_indices_def nat_add_distrib)
  ultimately show ?thesis using h by (simp add: cells_of_def)
qed

lemma bulk_empty:
  assumes "bulk_ok c f"
  shows "bulk_ok c (bulk_clear f) \<and> cells_of (bulk_cells (bulk_clear f)) = {} \<and>
    (\<forall>b. bulk_indices c b (bulk_clear f) = bulk_indices c b f)"
  using assms by (simp add: bulk_ok_def bulk_clear_def bulk_indices_def bulk_c0_def bulk_c1_def
      nat_mult_distrib nat_power_eq)

subsection \<open>MultiGrain\<close>

text \<open>The filter works as a Bloom filter on the block index, provided that the second vector is
  at least as long as the first, since it is read and written at the block index too.\<close>

definition mg_ok :: "ruby_config \<Rightarrow> mg_filter \<Rightarrow> bool" where
  "mg_ok c f \<longleftrightarrow> 0 < mg_size_bits f \<and> mg_size_bits f \<le> mg_page_size_bits f \<and> mg_page_size_bits f \<le> 31 \<and>
     mg_size f = 2 ^ nat (mg_size_bits f) \<and> mg_page_size f = 2 ^ nat (mg_page_size_bits f) \<and>
     int (length (mg_cells f)) = mg_size f \<and> int (length (mg_page_cells f)) = mg_page_size f \<and>
     0 \<le> g_DATA_BLOCK_BITS c \<and> g_DATA_BLOCK_BITS c + mg_size_bits f \<le> 64"

definition mg_indices :: "ruby_config \<Rightarrow> physical_address_t \<Rightarrow> mg_filter \<Rightarrow> nat set" where
  "mg_indices c a f = {nat (the (mg_get_block_index c a f))}"

definition mg_marked :: "mg_filter \<Rightarrow> nat set" where
  "mg_marked f = cells_of (mg_cells f) \<inter> cells_of (mg_page_cells f)"

lemma mg_index_range:
  assumes "mg_ok c f"
  obtains i j where "mg_get_block_index c a f = Some i" "mg_get_page_index c a f = Some j" "0 \<le> i"
    "i < mg_size f" "i < mg_page_size f" "j < mg_page_size f"
proof -
  let ?d = "g_DATA_BLOCK_BITS c" and ?k = "mg_size_bits f" and ?p = "mg_page_size_bits f"
  obtain i where i: "mg_get_block_index c a f = Some i" "0 \<le> i" "i < 2 ^ nat ?k"
    using select_int_range [of ?d ?k a] assms by (auto simp: mg_ok_def mg_get_block_index_def)
  obtain j where j: "mg_get_page_index c a f = Some j" "j < 2 ^ nat ?p"
    using select_int_range [of "?d + ?k - 1" ?p a] assms by (auto simp: mg_ok_def mg_get_page_index_def)
  have "nat ?k \<le> nat ?p" using assms unfolding mg_ok_def by linarith
  then have "(2::int) ^ nat ?k \<le> 2 ^ nat ?p" by (rule power_increasing) simp
  then have "i < 2 ^ nat ?p" using i(3) by linarith
  then show ?thesis using that [OF i(1) j(1)] i j assms by (simp add: mg_ok_def)
qed

lemma mg_insert:
  assumes "mg_ok c f"
  shows "\<exists>f'. mg_set c a f = Some f' \<and> mg_ok c f' \<and> mg_marked f' = mg_marked f \<union> mg_indices c a f \<and>
    (\<forall>b. mg_indices c b f' = mg_indices c b f)"
proof -
  obtain i j where i: "mg_get_block_index c a f = Some i" "mg_get_page_index c a f = Some j" "0 \<le> i"
    "i < mg_size f" "i < mg_page_size f" "j < mg_page_size f" using mg_index_range [OF assms] by blast
  have l: "i < int (length (mg_cells f))" "i < int (length (mg_page_cells f))"
    using i assms by (auto simp: mg_ok_def)
  show ?thesis using i assms vec_set_1 [OF i(3) l(1)] vec_set_1 [OF i(3) l(2)]
    by (auto simp: mg_set_def mg_marked_def mg_ok_def mg_indices_def mg_get_block_index_def)
qed

lemma mg_member:
  assumes "mg_ok c f"
  shows "mg_isSet c a f = Some (mg_indices c a f \<subseteq> mg_marked f)"
proof -
  obtain i j where i: "mg_get_block_index c a f = Some i" "mg_get_page_index c a f = Some j" "0 \<le> i"
    "i < mg_size f" "i < mg_page_size f" "j < mg_page_size f" using mg_index_range [OF assms] by blast
  have l: "i < int (length (mg_cells f))" "i < int (length (mg_page_cells f))"
    using i assms by (auto simp: mg_ok_def)
  obtain v w where "vec_ref (mg_cells f) i = Some v" "v \<noteq> 0 \<longleftrightarrow> nat i \<in> cells_of (mg_cells f)"
    "vec_ref (mg_page_cells f) i = Some w" "w \<noteq> 0 \<longleftrightarrow> nat i \<in> cells_of (mg_page_cells f)"
    using vec_ref_cells [OF i(3) l(1)] vec_ref_cells [OF i(3) l(2)] by metis
  then show ?thesis using i by (auto simp: mg_isSet_def mg_indices_def mg_marked_def)
qed

lemma mg_empty:
  assumes "mg_ok c f"
  shows "mg_ok c (mg_clear f) \<and> mg_marked (mg_clear f) = {} \<and>
    (\<forall>b. mg_indices c b (mg_clear f) = mg_indices c b f)"
  using assms by (simp add: mg_ok_def mg_clear_def mg_indices_def mg_marked_def mg_get_block_index_def)

subsection \<open>The dispatch\<close>

text \<open>Which filters are Bloom filters: all of them but \<open>LSB_Counting\<close>, whose \<open>set\<close> is empty and
  whose \<open>isSet\<close> returns nothing.\<close>

fun generic_ok :: "ruby_config \<Rightarrow> abstract_filter \<Rightarrow> bool" where
  "generic_ok c (LSB_CountingBloomFilter f) = False"
| "generic_ok c (NonCountingBloomFilter f) = nc_ok c f"
| "generic_ok c (BulkBloomFilter f) = bulk_ok c f"
| "generic_ok c (BlockBloomFilter f) = blk_ok c f"
| "generic_ok c (MultiGrainBloomFilter f) = mg_ok c f"
| "generic_ok c (MultiBitSelBloomFilter f) = mbs_ok c f"
| "generic_ok c (H3BloomFilter f) = h3_ok c f"

fun generic_indices :: "ruby_config \<Rightarrow> physical_address_t \<Rightarrow> abstract_filter \<Rightarrow> nat set" where
  "generic_indices c a (LSB_CountingBloomFilter f) = {}"
| "generic_indices c a (NonCountingBloomFilter f) = nc_indices c a f"
| "generic_indices c a (BulkBloomFilter f) = bulk_indices c a f"
| "generic_indices c a (BlockBloomFilter f) = blk_indices c a f"
| "generic_indices c a (MultiGrainBloomFilter f) = mg_indices c a f"
| "generic_indices c a (MultiBitSelBloomFilter f) = mbs_indices c a f"
| "generic_indices c a (H3BloomFilter f) = h3_indices c a f"

fun generic_marked :: "abstract_filter \<Rightarrow> nat set" where
  "generic_marked (LSB_CountingBloomFilter f) = {}"
| "generic_marked (NonCountingBloomFilter f) = cells_of (nc_cells f)"
| "generic_marked (BulkBloomFilter f) = cells_of (bulk_cells f)"
| "generic_marked (BlockBloomFilter f) = cells_of (blk_cells f)"
| "generic_marked (MultiGrainBloomFilter f) = mg_marked f"
| "generic_marked (MultiBitSelBloomFilter f) = cells_of (mbs_cells f)"
| "generic_marked (H3BloomFilter f) = cells_of (h3_cells f)"

text \<open>Two filters of a class that implements \<open>merge\<close>, with the same parameters.\<close>

fun generic_alike :: "abstract_filter \<Rightarrow> abstract_filter \<Rightarrow> bool" where
  "generic_alike (NonCountingBloomFilter f) (NonCountingBloomFilter g) =
     (g = f\<lparr> nc_cells := nc_cells g \<rparr>)"
| "generic_alike (MultiBitSelBloomFilter f) (MultiBitSelBloomFilter g) =
     (g = f\<lparr> mbs_cells := mbs_cells g \<rparr>)"
| "generic_alike (H3BloomFilter f) (H3BloomFilter g) = (g = f\<lparr> h3_cells := h3_cells g \<rparr>)"
| "generic_alike _ _ = False"

lemma generic_insert:
  assumes "generic_ok c f"
  shows "\<exists>f'. generic_set c a f = Some f' \<and> generic_ok c f' \<and>
    generic_marked f' = generic_marked f \<union> generic_indices c a f \<and>
    (\<forall>b. generic_indices c b f' = generic_indices c b f)"
proof (cases f)
  case (NonCountingBloomFilter g)
  then show ?thesis using nc_insert [of c g a] assms by (auto simp: map_option_case split: option.splits)
next
  case (BulkBloomFilter g)
  then show ?thesis using bulk_insert [of c g a] assms by auto
next
  case (BlockBloomFilter g)
  then show ?thesis using blk_insert [of c g a] assms by auto
next
  case (MultiGrainBloomFilter g)
  then show ?thesis using mg_insert [of c g a] assms by auto
next
  case (MultiBitSelBloomFilter g)
  then show ?thesis using mbs_insert [of c g a] assms by auto
next
  case (H3BloomFilter g)
  then show ?thesis using h3_insert [of c g a] assms by auto
qed (use assms in simp)

lemma generic_indices_nonempty: "generic_ok c f \<Longrightarrow> generic_indices c a f \<noteq> {}"
  by (cases f) (auto simp: nc_indices_def bulk_indices_def blk_indices_def mg_indices_def mbs_indices_def
      h3_indices_def hit_cells_def mbs_ok_def h3_ok_def lessThan_empty_iff)

interpretation generic: bloom_filter "generic_ok c" "generic_set c" "generic_isSet c" generic_clear
  "generic_indices c" generic_marked for c
proof
  fix f :: abstract_filter and a
  assume ok: "generic_ok c f"
  show "\<exists>f'. generic_set c a f = Some f' \<and> generic_ok c f' \<and>
    generic_marked f' = generic_marked f \<union> generic_indices c a f \<and>
    (\<forall>b. generic_indices c b f' = generic_indices c b f)" using generic_insert [OF ok] .
  show "generic_isSet c a f = Some (generic_indices c a f \<subseteq> generic_marked f, f)"
    using ok by (cases f) (simp_all add: nc_member bulk_member blk_member mg_member mbs_member h3_member)
  show "generic_ok c (generic_clear f) \<and> generic_marked (generic_clear f) = {} \<and>
     (\<forall>b. generic_indices c b (generic_clear f) = generic_indices c b f)"
    using ok by (cases f) (simp_all add: nc_empty bulk_empty blk_empty mg_empty mbs_empty h3_empty)
  show "generic_indices c a f \<noteq> {}" using generic_indices_nonempty [OF ok] .
qed

lemma get_index_cells:
  "nc_get_index c a (f\<lparr> nc_cells := xs \<rparr>) = nc_get_index c a f"
  "mbs_get_index c a (g\<lparr> mbs_cells := xs \<rparr>) = mbs_get_index c a g"
  "h3_get_index c a (h\<lparr> h3_cells := xs \<rparr>) = h3_get_index c a h"
  by (simp_all add: nc_get_index_def mbs_get_index_def h3_get_index_def Let_def fun_eq_iff cong: if_cong)

lemma indices_cells:
  "nc_indices c a (f\<lparr> nc_cells := xs \<rparr>) = nc_indices c a f"
  "mbs_indices c a (g\<lparr> mbs_cells := xs \<rparr>) = mbs_indices c a g"
  "h3_indices c a (h\<lparr> h3_cells := xs \<rparr>) = h3_indices c a h"
  by (simp_all add: nc_indices_def mbs_indices_def h3_indices_def get_index_cells)

lemma generic_merge_law:
  assumes "generic_ok c f" "generic_ok c g" "generic_alike f g"
  shows "\<exists>f'. generic_merge g f = Some f' \<and> generic_ok c f' \<and>
    generic_marked f' = generic_marked f \<union> generic_marked g \<and>
    (\<forall>b. generic_indices c b f' = generic_indices c b f)"
  using assms(3)
proof (cases rule: generic_alike.cases [of "(f, g)"])
  case (1 x y)
  have "length (nc_cells x) = length (nc_cells y)"
    using assms 1 by (simp add: nc_ok_def) (metis nc_filter.select_convs(2) nc_filter.surjective nc_filter.update_convs(1) of_nat_eq_iff)
  from or_cells_law [OF this] 1 assms show ?thesis
    by (auto simp: nc_merge_def nc_ok_def indices_cells)
next
  case (2 x y)
  have "length (mbs_cells x) = length (mbs_cells y)"
    using assms 2 by (simp add: mbs_ok_def) (metis mbs_filter.select_convs(2) mbs_filter.surjective mbs_filter.update_convs(1) of_nat_eq_iff)
  from or_cells_law [OF this] 2 assms show ?thesis
    by (auto simp: mbs_merge_def mbs_ok_def indices_cells)
next
  case (3 x y)
  have "length (h3_cells x) = length (h3_cells y)"
    using assms 3 by (simp add: h3_ok_def) (metis h3_filter.select_convs(2) h3_filter.surjective h3_filter.update_convs(1) of_nat_eq_iff)
  from or_cells_law [OF this] 3 assms show ?thesis
    by (auto simp: h3_merge_def h3_ok_def indices_cells)
qed simp_all

lemma generic_alike_indices:
  assumes "generic_alike f g"
  shows "generic_indices c b g = generic_indices c b f"
  using assms
proof (cases rule: generic_alike.cases [of "(f, g)"])
  case (1 x y)
  then have "y = x\<lparr> nc_cells := nc_cells y \<rparr>" using assms by simp
  then show ?thesis using 1 indices_cells(1) [where f = x and xs = "nc_cells y"] by simp
next
  case (2 x y)
  then have "y = x\<lparr> mbs_cells := mbs_cells y \<rparr>" using assms by simp
  then show ?thesis using 2 indices_cells(2) [where g = x and xs = "mbs_cells y"] by simp
next
  case (3 x y)
  then have "y = x\<lparr> h3_cells := h3_cells y \<rparr>" using assms by simp
  then show ?thesis using 3 indices_cells(3) [where h = x and xs = "h3_cells y"] by simp
qed simp_all

interpretation merging: mergeable_bloom_filter "generic_ok c" "generic_set c" "generic_isSet c" generic_clear
  "generic_indices c" generic_marked generic_merge generic_alike for c
  by unfold_locales (rule generic_merge_law generic_alike_indices; assumption)+

section \<open>What the constructors build\<close>

text \<open>Parameters with which a filter can be used.  The constructors accept others as well.\<close>

fun filter_fits :: "ruby_config \<Rightarrow> abstract_filter \<Rightarrow> bool" where
  "filter_fits c (LSB_CountingBloomFilter f) = False"
| "filter_fits c (NonCountingBloomFilter f) \<longleftrightarrow> 0 < nc_size_bits f \<and> nc_size_bits f \<le> 31 \<and> nc_size f = 2 ^ nat (nc_size_bits f) \<and>
     0 \<le> g_DATA_BLOCK_BITS c + nc_offset f \<and> g_DATA_BLOCK_BITS c + nc_offset f < 64"
| "filter_fits c (BulkBloomFilter f) \<longleftrightarrow> 0 < bulk_sector_bits f \<and> bulk_sector_bits f \<le> 31 \<and> bulk_size f = 2 ^ nat (bulk_size_bits f) \<and>
     0 \<le> g_DATA_BLOCK_BITS c \<and> g_DATA_BLOCK_BITS c + bulk_sector_bits f < 64"
| "filter_fits c (BlockBloomFilter f) \<longleftrightarrow> 0 < g_DATA_BLOCK_BITS c \<and> g_DATA_BLOCK_BITS c \<le> blk_size_bits f \<and> blk_size_bits f \<le> 31 \<and>
     2 * g_DATA_BLOCK_BITS c + 5 < 64 \<and> blk_size f = 2 ^ nat (blk_size_bits f)"
| "filter_fits c (MultiGrainBloomFilter f) \<longleftrightarrow> 0 < mg_size_bits f \<and> mg_size_bits f \<le> mg_page_size_bits f \<and> mg_page_size_bits f \<le> 31 \<and>
     mg_size f = 2 ^ nat (mg_size_bits f) \<and> mg_page_size f = 2 ^ nat (mg_page_size_bits f) \<and>
     0 \<le> g_DATA_BLOCK_BITS c \<and> g_DATA_BLOCK_BITS c + mg_size_bits f \<le> 64"
| "filter_fits c (MultiBitSelBloomFilter f) \<longleftrightarrow> 0 < mbs_num_hashes f \<and> mbs_size_bits f \<le> 31 \<and>
     0 \<le> mbs_skip_bits f \<and> mbs_skip_bits f < 64 \<and> 0 \<le> g_DATA_BLOCK_BITS c \<and> g_DATA_BLOCK_BITS c < 64"
| "filter_fits c (H3BloomFilter f) \<longleftrightarrow> 0 < h3_num_hashes f \<and> h3_num_hashes f \<le> 16 \<and> 0 \<le> g_DATA_BLOCK_BITS c \<and> g_DATA_BLOCK_BITS c < 64"

lemma div_mult_le: "0 < (n :: int) \<Longrightarrow> n * (m div n) \<le> m"
  by (metis div_mult_mod_eq le_add_same_cancel1 mult.commute pos_mod_sign)

lemma built_cells:
  "nc_new str = Some f1 \<Longrightarrow> int (length (nc_cells f1)) = nc_size f1"
  "blk_new str = Some f2 \<Longrightarrow> int (length (blk_cells f2)) = blk_size f2"
  "mg_new str = Some f3 \<Longrightarrow> int (length (mg_cells f3)) = mg_size f3 \<and> int (length (mg_page_cells f3)) = mg_page_size f3"
  "bulk_new str = Some f4 \<Longrightarrow> int (length (bulk_cells f4)) = bulk_size f4 \<and> bulk_temp f4 = replicate (nat (bulk_size f4)) 0 \<and>
     bulk_sector_bits f4 = bulk_size_bits f4 - 1"
  by (auto simp: nc_new_def blk_new_def mg_new_def bulk_new_def bind_Some_iff log_int_def split: prod.splits)

lemma built_hash_cells:
  "\<lbrakk> mbs_new str = Some f; 0 < mbs_num_hashes f \<rbrakk> \<Longrightarrow> int (length (mbs_cells f)) = mbs_size f \<and> 0 < mbs_par_size f \<and>
     mbs_num_hashes f * mbs_par_size f \<le> mbs_size f"
  "\<lbrakk> h3_new str = Some g; 0 < h3_num_hashes g \<rbrakk> \<Longrightarrow> int (length (h3_cells g)) = h3_size g \<and> 0 < h3_par_size g \<and>
     h3_num_hashes g * h3_par_size g \<le> h3_size g"
  by (simp_all add: mbs_new_def h3_new_def bind_Some_iff log_int_def Let_def split_beta) (auto simp: div_mult_le simp del: if_split)

lemma built_generic_ok:
  assumes "GenericBloomFilter_new config = Some f" "filter_fits c f"
  shows "generic_ok c f"
proof -
  obtain head tail where ht: "string_split config (CHR ''_'') = (head, tail)" by (metis surj_pair)
  have bulk: "bulk_ok c g" if "bulk_new tail = Some g" "filter_fits c (BulkBloomFilter g)" for g
  proof -
    have b: "bulk_sector_bits g = bulk_size_bits g - 1" "0 < bulk_sector_bits g" "bulk_size g = 2 ^ nat (bulk_size_bits g)"
      using built_cells(4) [OF that(1)] that(2) by auto
    then have "nat (bulk_size_bits g) = Suc (nat (bulk_sector_bits g))" by simp
    then have sz: "bulk_size g = 2 * 2 ^ nat (bulk_sector_bits g)" using b(3) by simp
    then have "nat (bulk_size g) = 2 * 2 ^ nat (bulk_sector_bits g)" by (simp add: nat_mult_distrib nat_power_eq)
    moreover from this have "length (bulk_cells g) = 2 * 2 ^ nat (bulk_sector_bits g)"
      using built_cells(4) [OF that(1)] by (metis nat_int)
    moreover have "bulk_temp g = replicate (2 * 2 ^ nat (bulk_sector_bits g)) 0"
      using built_cells(4) [OF that(1)] \<open>nat (bulk_size g) = _\<close> by metis
    moreover have "0 < bulk_sector_bits g" "bulk_sector_bits g \<le> 31" "0 \<le> g_DATA_BLOCK_BITS c" "g_DATA_BLOCK_BITS c + bulk_sector_bits g < 64"
      using that(2) by simp_all
    ultimately show ?thesis unfolding bulk_ok_def using sz by blast
  qed
  have new: "case f of NonCountingBloomFilter g \<Rightarrow> nc_new tail = Some g | BulkBloomFilter g \<Rightarrow> bulk_new tail = Some g
      | BlockBloomFilter g \<Rightarrow> blk_new tail = Some g | MultiGrainBloomFilter g \<Rightarrow> mg_new tail = Some g
      | MultiBitSelBloomFilter g \<Rightarrow> mbs_new tail = Some g | H3BloomFilter g \<Rightarrow> h3_new tail = Some g | _ \<Rightarrow> True"
    using assms(1) unfolding GenericBloomFilter_new_def ht prod.case by (auto split: if_splits)
  show ?thesis
  proof (cases f)
    case (NonCountingBloomFilter g)
    then show ?thesis using new assms(2) built_cells(1) [of tail g] by (simp add: nc_ok_def)
  next
    case (BulkBloomFilter g)
    then show ?thesis using new assms(2) bulk [of g] by simp
  next
    case (BlockBloomFilter g)
    then show ?thesis using new assms(2) built_cells(2) [of tail g] by (simp add: blk_ok_def)
  next
    case (MultiGrainBloomFilter g)
    then show ?thesis using new assms(2) built_cells(3) [of tail g] by (simp add: mg_ok_def)
  next
    case (MultiBitSelBloomFilter g)
    then show ?thesis using new assms(2) built_hash_cells(1) [of tail g] by (simp add: mbs_ok_def)
  next
    case (H3BloomFilter g)
    then show ?thesis using new assms(2) built_hash_cells(2) [of tail g] by (simp add: h3_ok_def)
  qed (use assms(2) in simp)
qed

section \<open>Properties\<close>


text \<open>Merging another filter of the same shape keeps the addresses of both.\<close>

theorem bloom_merge_keeps:
  assumes "generic_ok c f" "generic_ok c g" "generic_alike f g"
    and "generic_isSet c a f = Some (True, f) \<or> generic_isSet c a g = Some (True, g)"
  shows "\<exists>f'. generic_merge g f = Some f' \<and> generic_ok c f' \<and> generic_isSet c a f' = Some (True, f')"
  using assms by (rule merging.merge_keeps_members)

text \<open>The H3 hash functions are linear: the hash of an exclusive or is the exclusive or of the
  hashes, and a hash is never negative.\<close>

theorem hash_H3_linear:
  assumes "index < 16"
  shows "\<exists>x y. hash_H3 v index = Some x \<and> hash_H3 w index = Some y \<and>
    hash_H3 (v XOR w) index = Some (x XOR y) \<and> 0 \<le> x"
  using assms xor_rows_nonneg [of index 64 v] by (simp add: hash_H3_eq xor_rows_xor)

text \<open>\<open>BulkBloomFilter::isSet\<close>, two loops over a temporary vector, tests the two cells of the
  address, and restores the temporary vector.\<close>

theorem bulk_isSet_tests_two_cells:
  assumes "bulk_ok c f"
  shows "\<exists>i j. bulk_c0 c a f = Some (int i) \<and> bulk_c1 c a f = Some (int j) \<and>
    bulk_isSet c a f = Some (bulk_cells f ! j \<noteq> 0 \<and>
      bulk_cells f ! (i + 2 ^ nat (bulk_sector_bits f)) \<noteq> 0, f)"
proof -
  obtain i j where ij: "bulk_c0 c a f = Some (int i)" "bulk_c1 c a f = Some (int j)"
    "i < 2 ^ nat (bulk_sector_bits f)" "j < 2 ^ nat (bulk_sector_bits f)"
    using bulk_index_range [OF assms] by blast
  have "bulk_size f div 2 = int (2 ^ nat (bulk_sector_bits f))"
    "length (bulk_cells f) = 2 * 2 ^ nat (bulk_sector_bits f)" using assms by (auto simp: bulk_ok_def)
  then show ?thesis using ij bulk_member [OF assms, of a]
    by (simp add: bulk_indices_def cells_of_def nat_add_distrib nat_power_eq)
qed

text \<open>\<open>MultiGrainBloomFilter::getTotalCount\<close> assigns zero to the cells it means to count:
  after it \<open>isSet\<close> answers no for every address, whatever was set before.\<close>

theorem multigrain_count_forgets:
  assumes "mg_ok c f"
  shows "\<exists>f'. generic_getTotalCount (MultiGrainBloomFilter f) = (sum_list (mg_cells f), MultiGrainBloomFilter f') \<and>
    (\<forall>a. mg_isSet c a f' = Some False)"
proof -
  let ?f = "f\<lparr> mg_page_cells := replicate (nat (mg_page_size f)) 0 \<rparr>"
  have "mg_ok c ?f" using assms by (simp add: mg_ok_def)
  then have "mg_isSet c a ?f = Some False" for a
    using mg_member [of c ?f a] by (simp add: mg_marked_def mg_indices_def)
  then show ?thesis by (simp add: mg_getTotalCount_def)
qed

lemma string_split_head: "string_split str ch = (head, tail) \<Longrightarrow> ch \<notin> set head"
  by (induction str arbitrary: head) (auto split: if_splits prod.splits)

text \<open>The configuration is split at underscores before its head is compared with
  \<open>LSB_Counting\<close>, so that no configuration builds an \<open>LSB_CountingBloomFilter\<close>.\<close>

theorem lsb_filter_unreachable:
  "GenericBloomFilter_new config \<noteq> Some (LSB_CountingBloomFilter f)"
proof -
  obtain head tail where ht: "string_split config (CHR ''_'') = (head, tail)" by (metis surj_pair)
  have "head \<noteq> ''LSB_Counting''" using string_split_head [OF ht] by auto
  then show ?thesis using ht by (auto simp: GenericBloomFilter_new_def)
qed

text \<open>The stray semicolon: \<open>increment\<close> passes the maximal count.\<close>

lemma lsb_increment_unbounded:
  assumes "lsb_get_index c a f = Some i" "0 \<le> i" "i < int (length (lsb_cells f))"
    "lsb_getCount c a f = Some (lsb_count f)"
  shows "\<exists>f'. lsb_increment c a f = Some f' \<and> lsb_getCount c a f' = Some (lsb_count f' + 1)"
  using assms by (auto simp: lsb_increment_def lsb_getCount_def vec_ref_def vec_set_def lsb_get_index_def)

subsection \<open>Witnesses\<close>

definition block_config :: ruby_config where
  "block_config = sample_config\<lparr> g_DATA_BLOCK_BITS := 7 \<rparr>"

text \<open>\<open>set\<close> and \<open>isSet\<close> use the block index for the page filter, too; with fewer pages than blocks, which the constructor
  accepts, it is out of range.\<close>

theorem multigrain_page_out_of_range:
  "case GenericBloomFilter_new ''Multigrain_256_64'' of None \<Rightarrow> False
   | Some f \<Rightarrow> generic_set block_config 25600 f = None"
  by code_simp

definition sample_h3 :: "int list \<Rightarrow> h3_filter" where
  "sample_h3 xs = \<lparr> h3_cells = xs, h3_size = 4, h3_num_hashes = 2, h3_size_bits = 2, h3_par_size = 2,
     h3_par_size_bits = 1, h3_isParallel = True \<rparr>"

definition sample_bulk :: bulk_filter where
  "sample_bulk = \<lparr> bulk_cells = replicate 8 0, bulk_temp = replicate 8 0, bulk_size = 8,
     bulk_size_bits = 3, bulk_sector_bits = 2 \<rparr>"

definition sample_mg :: mg_filter where
  "sample_mg = \<lparr> mg_cells = [0, 1], mg_size = 2, mg_size_bits = 1, mg_page_cells = [0, 1],
     mg_page_size = 2, mg_page_size_bits = 1 \<rparr>"

lemma sample_block_bits: "0 \<le> g_DATA_BLOCK_BITS block_config" "g_DATA_BLOCK_BITS block_config \<le> 32"
  by (simp_all add: block_config_def)

lemma sample_h3_ok: "length xs = 4 \<Longrightarrow> h3_ok block_config (sample_h3 xs)"
  using sample_block_bits by (simp add: h3_ok_def sample_h3_def)


lemma bloom_merge_keeps_witness:
  "\<exists>f'. generic_merge (H3BloomFilter (sample_h3 [1, 1, 1, 1])) (H3BloomFilter (sample_h3 [0, 0, 0, 0])) = Some f' \<and>
    generic_isSet block_config 0x1000 f' = Some (True, f')"
proof -
  have ok: "h3_ok block_config (sample_h3 [1, 1, 1, 1])" by (rule sample_h3_ok) simp
  have "h3_indices block_config 0x1000 (sample_h3 [1, 1, 1, 1]) \<subseteq> {..<4}"
    using h3_hits [OF ok, of "0x1000"] by (auto simp: h3_indices_def hit_cells_def hits_def sample_h3_def)
  moreover have "{..<4} = cells_of [1, 1, 1, 1]" by (auto simp: cells_of_def less_Suc_eq numeral_nat)
  ultimately have "h3_isSet block_config 0x1000 (sample_h3 [1, 1, 1, 1]) = Some True"
    using h3_member [OF ok, of "0x1000"] by (simp add: sample_h3_def)
  then show ?thesis
    using bloom_merge_keeps [of block_config "H3BloomFilter (sample_h3 [0, 0, 0, 0])"
        "H3BloomFilter (sample_h3 [1, 1, 1, 1])" "0x1000"] ok sample_h3_ok [of "[0, 0, 0, 0]"]
    by (auto simp: sample_h3_def)
qed

lemma hash_H3_linear_witness:
  "\<exists>x y. hash_H3 5 3 = Some x \<and> hash_H3 6 3 = Some y \<and> hash_H3 (5 XOR 6) 3 = Some (x XOR y) \<and> 0 \<le> x"
  using hash_H3_linear [of 3 5 6] by simp

lemma bulk_isSet_tests_two_cells_witness:
  "\<exists>i j. bulk_c0 block_config 0x40 sample_bulk = Some (int i) \<and> bulk_c1 block_config 0x40 sample_bulk = Some (int j) \<and>
    bulk_isSet block_config 0x40 sample_bulk = Some (bulk_cells sample_bulk ! j \<noteq> 0 \<and>
      bulk_cells sample_bulk ! (i + 2 ^ nat (bulk_sector_bits sample_bulk)) \<noteq> 0, sample_bulk)"
  by (rule bulk_isSet_tests_two_cells) (use sample_block_bits in \<open>simp add: bulk_ok_def sample_bulk_def\<close>)

lemma multigrain_count_forgets_witness:
  "\<exists>f'. generic_getTotalCount (MultiGrainBloomFilter sample_mg) = (1, MultiGrainBloomFilter f') \<and>
    (\<forall>a. mg_isSet block_config a f' = Some False)"
  using multigrain_count_forgets [of block_config sample_mg] sample_block_bits
  by (simp add: mg_ok_def sample_mg_def)

end
