(* ===== verification/RCC_L2.thy ===== *)
theory RCC_L2
  imports Prelude
begin

text \<open>
  The shared cache of the relativistic coherence protocol, \<open>protocols/tardis-VI-L2cache.sm\<close>
  with the messages of \<open>tardis-VI-msg.sm\<close> and the time functions of
  \<open>slicc_interface/RubySlicc_Util.h\<close>.

  One bank is the record \<open>l2_bank\<close>: its cache, its transaction buffers, its memory timestamp
  \<open>mts\<close>, and its queues.  The queues of requests and of memory replies are consumed at the
  head; what the bank sends to the L1 caches and to memory is appended to \<open>l2_responses\<close> and
  \<open>l2_memory\<close> and stays there, so that these lists are the history of the messages sent.
  Every action of the controller is a definition, every transition a list of actions, and
  \<open>l2_trigger\<close> runs a transition the way the generated controller does: the actions in order,
  then \<open>setState\<close>.  A failed assertion, a lookup of an absent entry and an event without a
  transition are aborted runs.

  Whether a set has room and which line is evicted (\<open>cacheAvail\<close>, \<open>cacheProbe\<close>) are arguments
  of \<open>l2_request_port\<close>: the theorems hold for every replacement policy.  A resource stall
  (no free transaction buffer) leaves the bank unchanged and is not a step.  Data blocks have an
  abstract type; the content of a fresh cache entry is \<open>None\<close>.  Profiling actions are left out.
  \<open>time_to_int\<close> returns the 64-bit timestamp it is given and is left out; timestamps are unbounded.
\<close>

section \<open>Data\<close>

definition getTimeMax :: "Time \<Rightarrow> Time \<Rightarrow> Time" where
  "getTimeMax t1 t2 = (if t1 > t2 then t1 else t2)"

definition getTimePlusTime :: "Time \<Rightarrow> Time \<Rightarrow> Time" where
  "getTimePlusTime addend1 addend2 = addend1 + addend2"

definition getTimePlusInt :: "Time \<Rightarrow> int \<Rightarrow> Time" where
  "getTimePlusInt addend1 addend2 = addend1 + addend2"

definition getIntMax :: "int \<Rightarrow> int \<Rightarrow> int" where
  "getIntMax i1 i2 = (if i1 > i2 then i1 else i2)"

datatype L2Cache_State = L2_NP | L2_V | L2_IV | L2_IAV

datatype L2Cache_Event = L1_GETS | L1_Write | L2_Atomic | L2_Replacement | L2_Replacement_clean
  | Mem_Data_PR | Mem_Data_PW | Mem_Data_PRW

datatype CoherenceRequestType = Request_GETS | Request_GET_INSTR | Request_DATA_UPGRADE
  | Request_DATA | Request_DATA_ATOMIC | Request_MEMORY_DATA

datatype CoherenceResponseType = Response_MEMORY_ACK | Response_DATA | Response_DATA_ATOMIC
  | Response_DATA_GLOBAL | Response_ACK | Response_ACK_GLOBAL | Response_MEMORY_DATA

datatype MemorySpaceType = Space_GLOBAL | Space_LOCAL

datatype MemoryRequestType = MEMORY_READ | MEMORY_WB

text \<open>The fields of the messages that the controller reads or writes; the rest of them
  (sender, message size, program counter, the reasons of an expiry) only reach the network and the
  profiler.\<close>

type_synonym l1_id = nat

record 'd request_msg =
  rq_Address :: physical_address_t
  rq_Type :: CoherenceRequestType
  rq_Requestor :: l1_id
  rq_DataBlk :: "'d option"
  rq_Dirty :: bool
  rq_Space :: MemorySpaceType
  rq_RequestSize :: int
  rq_deltaRequested :: Time
  rq_pts :: Time
  rq_rts :: Time
  rq_memfetch :: nat
  rq_ExpiredInL1 :: bool
  rq_InL1 :: bool

record 'd response_msg =
  rs_Address :: physical_address_t
  rs_Type :: CoherenceResponseType
  rs_Destination :: "l1_id set"
  rs_DataBlk :: "'d option"
  rs_Dirty :: bool
  rs_Space :: MemorySpaceType
  rs_RequestSize :: int
  rs_rts :: Time
  rs_wts :: Time
  rs_memfetch :: nat
  rs_mfset :: "(l1_id \<times> nat) list"

record 'd memory_msg =
  mm_Address :: physical_address_t
  mm_Type :: MemoryRequestType
  mm_DataBlk :: "'d option"

record 'd l2_entry =
  e_CacheState :: L2Cache_State
  e_DataBlk :: "'d option"
  e_Dirty :: bool
  e_rts :: Time
  e_wts :: Time

record 'd l2_tbe =
  t_TBEState :: L2Cache_State
  t_DataBlk :: "'d option"
  t_Dirty :: bool
  t_L1_GetS_IDs :: "l1_id set"
  t_L1_WBAck_ID :: l1_id
  t_Space :: MemorySpaceType
  t_deltaRequested :: Time
  t_RequestSize :: int
  t_max_read_pts :: Time
  t_max_write_pts :: Time
  t_pending_read :: bool
  t_pending_write :: bool
  t_memfetch :: nat
  t_mfset :: "(l1_id \<times> nat) list"

record 'd l2_bank =
  l2_cache :: "physical_address_t \<rightharpoonup> 'd l2_entry"
  l2_TBEs :: "physical_address_t \<rightharpoonup> 'd l2_tbe"
  l2_mts :: Time
  l2_requests :: "'d request_msg list"
  l2_mem_replies :: "'d memory_msg list"
  l2_responses :: "'d response_msg list"
  l2_memory :: "'d memory_msg list"

type_synonym 'd l2_action = "physical_address_t \<Rightarrow> 'd l2_bank \<Rightarrow> 'd l2_bank option"

definition l2_init :: "'d l2_bank" where
  "l2_init = \<lparr> l2_cache = Map.empty, l2_TBEs = Map.empty, l2_mts = 0, l2_requests = [],
     l2_mem_replies = [], l2_responses = [], l2_memory = [] \<rparr>"

section \<open>Access functions\<close>

definition peek_request :: "'d l2_bank \<Rightarrow> 'd request_msg option" where
  "peek_request b = (case l2_requests b of [] \<Rightarrow> None | m # _ \<Rightarrow> Some m)"

definition peek_reply :: "'d l2_bank \<Rightarrow> 'd memory_msg option" where
  "peek_reply b = (case l2_mem_replies b of [] \<Rightarrow> None | m # _ \<Rightarrow> Some m)"

definition set_entry :: "physical_address_t \<Rightarrow> 'd l2_entry \<Rightarrow> 'd l2_bank \<Rightarrow> 'd l2_bank" where
  "set_entry a e b = b\<lparr> l2_cache := (l2_cache b)(a \<mapsto> e) \<rparr>"

definition set_tbe :: "physical_address_t \<Rightarrow> 'd l2_tbe \<Rightarrow> 'd l2_bank \<Rightarrow> 'd l2_bank" where
  "set_tbe a t b = b\<lparr> l2_TBEs := (l2_TBEs b)(a \<mapsto> t) \<rparr>"

definition send_response :: "'d response_msg \<Rightarrow> 'd l2_bank \<Rightarrow> 'd l2_bank" where
  "send_response r b = b\<lparr> l2_responses := l2_responses b @ [r] \<rparr>"

definition send_memory :: "'d memory_msg \<Rightarrow> 'd l2_bank \<Rightarrow> 'd l2_bank" where
  "send_memory m b = b\<lparr> l2_memory := l2_memory b @ [m] \<rparr>"

definition l2_getState :: "physical_address_t \<Rightarrow> 'd l2_bank \<Rightarrow> L2Cache_State" where
  "l2_getState a b = (case l2_TBEs b a of Some t \<Rightarrow> t_TBEState t
     | None \<Rightarrow> (case l2_cache b a of Some e \<Rightarrow> e_CacheState e | None \<Rightarrow> L2_NP))"

text \<open>The permission that \<open>setState\<close> also sets is read only by the replacement.\<close>

definition l2_setState :: "physical_address_t \<Rightarrow> L2Cache_State \<Rightarrow> 'd l2_bank \<Rightarrow> 'd l2_bank" where
  "l2_setState a s b = b\<lparr>
     l2_TBEs := (case l2_TBEs b a of Some t \<Rightarrow> (l2_TBEs b)(a \<mapsto> t\<lparr> t_TBEState := s \<rparr>) | None \<Rightarrow> l2_TBEs b),
     l2_cache := (case l2_cache b a of Some e \<Rightarrow> (l2_cache b)(a \<mapsto> e\<lparr> e_CacheState := s \<rparr>) | None \<Rightarrow> l2_cache b) \<rparr>"

fun request_type_to_event :: "CoherenceRequestType \<Rightarrow> L2Cache_Event option" where
  "request_type_to_event Request_GETS = Some L1_GETS"
| "request_type_to_event Request_DATA = Some L1_Write"
| "request_type_to_event Request_DATA_ATOMIC = Some L2_Atomic"
| "request_type_to_event _ = None"

section \<open>Actions\<close>

definition a_issueFetchToMemory :: "'d l2_action" where
  "a_issueFetchToMemory a b = do {
     _ \<leftarrow> peek_request b;
     Some (send_memory \<lparr> mm_Address = a, mm_Type = MEMORY_READ, mm_DataBlk = None \<rparr> b) }"

definition c_exclusiveReplacement :: "'d l2_action" where
  "c_exclusiveReplacement a b = do {
     e \<leftarrow> l2_cache b a;
     Some (send_memory \<lparr> mm_Address = a, mm_Type = MEMORY_WB, mm_DataBlk = e_DataBlk e \<rparr> b) }"

definition ds_sendDataToRequestor :: "'d l2_action" where
  "ds_sendDataToRequestor a b = do {
     m \<leftarrow> peek_request b;
     e \<leftarrow> l2_cache b a;
     assert_that (e_rts e \<ge> rq_pts m);
     Some (send_response \<lparr> rs_Address = a, rs_Type = Response_DATA, rs_Destination = {rq_Requestor m},
       rs_DataBlk = e_DataBlk e, rs_Dirty = e_Dirty e, rs_Space = rq_Space m,
       rs_RequestSize = rq_RequestSize m, rs_rts = e_rts e, rs_wts = e_wts e, rs_memfetch = 0,
       rs_mfset = [(rq_Requestor m, rq_memfetch m)] \<rparr> b) }"

definition dst_sendDataToGetSRequestors :: "'d l2_action" where
  "dst_sendDataToGetSRequestors a b = do {
     t \<leftarrow> l2_TBEs b a;
     e \<leftarrow> l2_cache b a;
     assert_that (t_L1_GetS_IDs t \<noteq> {});
     assert_that (e_rts e \<ge> t_max_read_pts t);
     Some (send_response \<lparr> rs_Address = a, rs_Type = Response_DATA, rs_Destination = t_L1_GetS_IDs t,
       rs_DataBlk = e_DataBlk e, rs_Dirty = e_Dirty e, rs_Space = t_Space t,
       rs_RequestSize = t_RequestSize t, rs_rts = e_rts e, rs_wts = e_wts e, rs_memfetch = 0,
       rs_mfset = t_mfset t \<rparr> b) }"

definition ds_sendAtomicDataGlobalToRequestor :: "'d l2_action" where
  "ds_sendAtomicDataGlobalToRequestor a b = do {
     m \<leftarrow> peek_request b;
     e \<leftarrow> l2_cache b a;
     Some (send_response \<lparr> rs_Address = a, rs_Type = Response_DATA_ATOMIC,
       rs_Destination = {rq_Requestor m}, rs_DataBlk = e_DataBlk e, rs_Dirty = e_Dirty e,
       rs_Space = rq_Space m, rs_RequestSize = rq_RequestSize m, rs_rts = 0, rs_wts = e_wts e,
       rs_memfetch = rq_memfetch m, rs_mfset = [] \<rparr> b) }"

definition dst_sendAtomicDataToGetSRequestors :: "'d l2_action" where
  "dst_sendAtomicDataToGetSRequestors a b = do {
     t \<leftarrow> l2_TBEs b a;
     e \<leftarrow> l2_cache b a;
     Some (send_response \<lparr> rs_Address = a, rs_Type = Response_DATA_ATOMIC,
       rs_Destination = {t_L1_WBAck_ID t}, rs_DataBlk = e_DataBlk e, rs_Dirty = e_Dirty e,
       rs_Space = t_Space t, rs_RequestSize = t_RequestSize t, rs_rts = 0, rs_wts = e_wts e,
       rs_memfetch = t_memfetch t, rs_mfset = [] \<rparr> b) }"

definition wa_sendAckToRequestor :: "'d l2_action" where
  "wa_sendAckToRequestor a b = do {
     m \<leftarrow> peek_request b;
     e \<leftarrow> l2_cache b a;
     Some (send_response \<lparr> rs_Address = a, rs_Type = Response_ACK, rs_Destination = {rq_Requestor m},
       rs_DataBlk = None, rs_Dirty = False, rs_Space = rq_Space m, rs_RequestSize = rq_RequestSize m,
       rs_rts = 0, rs_wts = e_wts e, rs_memfetch = rq_memfetch m, rs_mfset = [] \<rparr> b) }"

definition wat_sendAckToRequestorFromTBE :: "'d l2_action" where
  "wat_sendAckToRequestorFromTBE a b = do {
     t \<leftarrow> l2_TBEs b a;
     assert_that (l2_cache b a \<noteq> None);
     Some (send_response \<lparr> rs_Address = a, rs_Type = Response_ACK, rs_Destination = {t_L1_WBAck_ID t},
       rs_DataBlk = None, rs_Dirty = False, rs_Space = t_Space t, rs_RequestSize = t_RequestSize t,
       rs_rts = 0, rs_wts = getTimeMax (t_max_write_pts t) (l2_mts b), rs_memfetch = t_memfetch t,
       rs_mfset = [] \<rparr> b) }"

text \<open>A new transaction buffer; the fields that an action does not assign have the defaults of
  SLICC.\<close>

definition i_allocateTBE :: "'d l2_action" where
  "i_allocateTBE a b = do {
     m \<leftarrow> peek_request b;
     assert_that (l2_TBEs b a = None);
     e \<leftarrow> l2_cache b a;
     Some (set_tbe a \<lparr> t_TBEState = L2_NP, t_DataBlk = e_DataBlk e, t_Dirty = e_Dirty e,
       t_L1_GetS_IDs = {}, t_L1_WBAck_ID = 0, t_Space = rq_Space m,
       t_deltaRequested = rq_deltaRequested m, t_RequestSize = rq_RequestSize m,
       t_max_read_pts = rq_pts m, t_max_write_pts = 0, t_pending_read = False,
       t_pending_write = False, t_memfetch = rq_memfetch m, t_mfset = [] \<rparr> b) }"

definition il_allocateTBE :: "'d l2_action" where
  "il_allocateTBE a b = do {
     m \<leftarrow> peek_request b;
     assert_that (l2_TBEs b a = None);
     e \<leftarrow> l2_cache b a;
     Some (set_tbe a \<lparr> t_TBEState = L2_NP, t_DataBlk = e_DataBlk e, t_Dirty = e_Dirty e,
       t_L1_GetS_IDs = {}, t_L1_WBAck_ID = 0, t_Space = rq_Space m, t_deltaRequested = 0,
       t_RequestSize = rq_RequestSize m, t_max_read_pts = 0, t_max_write_pts = rq_pts m,
       t_pending_read = False, t_pending_write = False, t_memfetch = rq_memfetch m,
       t_mfset = [] \<rparr> b) }"

definition s_deallocateTBE :: "'d l2_action" where
  "s_deallocateTBE a b = do {
     _ \<leftarrow> l2_TBEs b a;
     Some (b\<lparr> l2_TBEs := (l2_TBEs b)(a := None) \<rparr>) }"

definition jj_popL1RequestQueue :: "'d l2_action" where
  "jj_popL1RequestQueue a b = do {
     m \<leftarrow> peek_request b;
     assert_that (rq_Type m \<in> {Request_GETS, Request_DATA, Request_DATA_ATOMIC});
     assert_that (rq_Type m = Request_GETS \<longrightarrow> (case l2_cache b a of None \<Rightarrow> True
       | Some e \<Rightarrow> e_CacheState e = L2_V \<and> rq_InL1 m \<and> rq_rts m > e_wts e \<longrightarrow> rq_ExpiredInL1 m));
     Some (b\<lparr> l2_requests := tl (l2_requests b) \<rparr>) }"

definition o_popIncomingResponseQueue :: "'d l2_action" where
  "o_popIncomingResponseQueue a b = do {
     _ \<leftarrow> peek_reply b;
     Some (b\<lparr> l2_mem_replies := tl (l2_mem_replies b) \<rparr>) }"

definition m_writeDataToCache :: "'d l2_action" where
  "m_writeDataToCache a b = do {
     r \<leftarrow> peek_reply b;
     e \<leftarrow> l2_cache b a;
     Some (set_entry a (e\<lparr> e_DataBlk := mm_DataBlk r, e_Dirty := False, e_rts := l2_mts b,
       e_wts := l2_mts b \<rparr>) b) }"

definition mr_writeDataToCacheFromRequest :: "'d l2_action" where
  "mr_writeDataToCacheFromRequest a b = do {
     m \<leftarrow> peek_request b;
     assert_that (rq_Dirty m);
     e \<leftarrow> l2_cache b a;
     Some (set_entry a (e\<lparr> e_DataBlk := rq_DataBlk m, e_Dirty := rq_Dirty m \<rparr>) b) }"

definition mtr_writeDataToTBEFromRequest :: "'d l2_action" where
  "mtr_writeDataToTBEFromRequest a b = do {
     m \<leftarrow> peek_request b;
     assert_that (rq_Dirty m);
     t \<leftarrow> l2_TBEs b a;
     Some (set_tbe a (t\<lparr> t_DataBlk := rq_DataBlk m, t_Dirty := rq_Dirty m \<rparr>) b) }"

definition mt_writeDataToCacheFromTBE :: "'d l2_action" where
  "mt_writeDataToCacheFromTBE a b = do {
     t \<leftarrow> l2_TBEs b a;
     assert_that (t_Dirty t);
     e \<leftarrow> l2_cache b a;
     Some (set_entry a (e\<lparr> e_DataBlk := t_DataBlk t, e_Dirty := t_Dirty t, e_rts := l2_mts b,
       e_wts := getTimeMax (t_max_write_pts t) (l2_mts b) \<rparr>) b) }"

definition ss_recordGetSL1ID :: "'d l2_action" where
  "ss_recordGetSL1ID a b = do {
     m \<leftarrow> peek_request b;
     t \<leftarrow> l2_TBEs b a;
     assert_that (t_Space t = rq_Space m);
     Some (set_tbe a (t\<lparr> t_L1_GetS_IDs := insert (rq_Requestor m) (t_L1_GetS_IDs t),
       t_RequestSize := getIntMax (t_RequestSize t) (rq_RequestSize m),
       t_mfset := t_mfset t @ [(rq_Requestor m, rq_memfetch m)] \<rparr>) b) }"

definition qq_allocateL2CacheBlock :: "'d l2_action" where
  "qq_allocateL2CacheBlock a b = Some (if l2_cache b a = None
     then set_entry a \<lparr> e_CacheState = L2_NP, e_DataBlk = None, e_Dirty = False, e_rts = 0, e_wts = 0 \<rparr> b
     else b)"

definition setmts_setMts :: "'d l2_action" where
  "setmts_setMts a b = do {
     e \<leftarrow> l2_cache b a;
     Some (b\<lparr> l2_mts := getTimeMax (l2_mts b) (getTimeMax (e_rts e) (e_wts e)) \<rparr>) }"

definition tr_updateL2BlockRts :: "'d l2_action" where
  "tr_updateL2BlockRts a b = do {
     m \<leftarrow> peek_request b;
     e \<leftarrow> l2_cache b a;
     Some (set_entry a (e\<lparr> e_rts :=
       getTimeMax (getTimePlusTime (rq_pts m) (rq_deltaRequested m))
         (getTimeMax (getTimePlusTime (e_wts e) (rq_deltaRequested m)) (e_rts e)) \<rparr>) b) }"

definition tw_updateL2BlockWts :: "'d l2_action" where
  "tw_updateL2BlockWts a b = do {
     m \<leftarrow> peek_request b;
     e \<leftarrow> l2_cache b a;
     Some (set_entry a (e\<lparr> e_wts :=
       getTimeMax (getTimeMax (rq_pts m) (e_wts e)) (getTimePlusInt (e_rts e) 1) \<rparr>) b) }"

definition trt_updateL2BlockRts_fromTBE :: "'d l2_action" where
  "trt_updateL2BlockRts_fromTBE a b = do {
     t \<leftarrow> l2_TBEs b a;
     e \<leftarrow> l2_cache b a;
     Some (set_entry a (e\<lparr> e_rts :=
       getTimeMax (getTimePlusTime (t_max_read_pts t) (t_deltaRequested t))
         (getTimeMax (getTimePlusTime (e_wts e) (t_deltaRequested t)) (e_rts e)) \<rparr>) b) }"

definition tmrt_updateMaxReadPtsInTBE :: "'d l2_action" where
  "tmrt_updateMaxReadPtsInTBE a b = do {
     m \<leftarrow> peek_request b;
     t \<leftarrow> l2_TBEs b a;
     Some (set_tbe a (t\<lparr> t_max_read_pts := getTimeMax (rq_pts m) (t_max_read_pts t) \<rparr>) b) }"

definition tmwt_updateMaxWritePtsInTBE :: "'d l2_action" where
  "tmwt_updateMaxWritePtsInTBE a b = do {
     m \<leftarrow> peek_request b;
     t \<leftarrow> l2_TBEs b a;
     Some (set_tbe a (t\<lparr> t_max_write_pts := getTimeMax (rq_pts m) (t_max_write_pts t) \<rparr>) b) }"

definition d_markBlockDirty :: "'d l2_action" where
  "d_markBlockDirty a b = do { e \<leftarrow> l2_cache b a; Some (set_entry a (e\<lparr> e_Dirty := True \<rparr>) b) }"

definition dpr_markPendingRead :: "'d l2_action" where
  "dpr_markPendingRead a b = do { t \<leftarrow> l2_TBEs b a; Some (set_tbe a (t\<lparr> t_pending_read := True \<rparr>) b) }"

definition dpw_markPendingWrite :: "'d l2_action" where
  "dpw_markPendingWrite a b = do { t \<leftarrow> l2_TBEs b a; Some (set_tbe a (t\<lparr> t_pending_write := True \<rparr>) b) }"

definition rr_deallocateL2CacheBlock :: "'d l2_action" where
  "rr_deallocateL2CacheBlock a b = do {
     _ \<leftarrow> l2_cache b a;
     Some (b\<lparr> l2_cache := (l2_cache b)(a := None) \<rparr>) }"

definition xx_recordGetXL1ID :: "'d l2_action" where
  "xx_recordGetXL1ID a b = do {
     m \<leftarrow> peek_request b;
     t \<leftarrow> l2_TBEs b a;
     Some (set_tbe a (t\<lparr> t_L1_WBAck_ID := rq_Requestor m, t_memfetch := rq_memfetch m \<rparr>) b) }"

section \<open>Transitions\<close>

text \<open>The transition table: the actions and the next state.  \<open>z_stall\<close> is the empty list: the
  event is tried again.  The replacement state of the cache (\<open>set_setMRU\<close>) is not modelled.\<close>

fun l2_transition :: "L2Cache_State \<Rightarrow> L2Cache_Event \<Rightarrow> ('d l2_action list \<times> L2Cache_State) option" where
  "l2_transition L2_NP L1_GETS = Some ([qq_allocateL2CacheBlock, i_allocateTBE, ss_recordGetSL1ID,
     dpr_markPendingRead, a_issueFetchToMemory, jj_popL1RequestQueue], L2_IV)"
| "l2_transition L2_NP L1_Write = Some ([qq_allocateL2CacheBlock, d_markBlockDirty, il_allocateTBE,
     xx_recordGetXL1ID, dpw_markPendingWrite, mtr_writeDataToTBEFromRequest, a_issueFetchToMemory,
     wat_sendAckToRequestorFromTBE, jj_popL1RequestQueue], L2_IV)"
| "l2_transition L2_NP L2_Atomic = Some ([qq_allocateL2CacheBlock, d_markBlockDirty, il_allocateTBE,
     xx_recordGetXL1ID, dpw_markPendingWrite, mtr_writeDataToTBEFromRequest, a_issueFetchToMemory,
     jj_popL1RequestQueue], L2_IAV)"
| "l2_transition L2_IAV Mem_Data_PW = Some ([m_writeDataToCache, mt_writeDataToCacheFromTBE,
     dst_sendAtomicDataToGetSRequestors, s_deallocateTBE, o_popIncomingResponseQueue], L2_V)"
| "l2_transition L2_IAV Mem_Data_PR = None"
| "l2_transition L2_IAV Mem_Data_PRW = None"
| "l2_transition L2_IAV _ = Some ([], L2_IAV)"
| "l2_transition L2_IV L1_GETS = Some ([ss_recordGetSL1ID, dpr_markPendingRead,
     tmrt_updateMaxReadPtsInTBE, jj_popL1RequestQueue], L2_IV)"
| "l2_transition L2_IV L1_Write = Some ([xx_recordGetXL1ID, dpw_markPendingWrite,
     tmwt_updateMaxWritePtsInTBE, mtr_writeDataToTBEFromRequest, wat_sendAckToRequestorFromTBE,
     jj_popL1RequestQueue], L2_IV)"
| "l2_transition L2_IV Mem_Data_PR = Some ([m_writeDataToCache, trt_updateL2BlockRts_fromTBE,
     dst_sendDataToGetSRequestors, s_deallocateTBE, o_popIncomingResponseQueue], L2_V)"
| "l2_transition L2_IV Mem_Data_PW = Some ([m_writeDataToCache, mt_writeDataToCacheFromTBE,
     s_deallocateTBE, o_popIncomingResponseQueue], L2_V)"
| "l2_transition L2_IV Mem_Data_PRW = Some ([m_writeDataToCache, mt_writeDataToCacheFromTBE,
     trt_updateL2BlockRts_fromTBE, dst_sendDataToGetSRequestors, s_deallocateTBE,
     o_popIncomingResponseQueue], L2_V)"
| "l2_transition L2_IV _ = Some ([], L2_IV)"
| "l2_transition L2_V L1_GETS = Some ([tr_updateL2BlockRts, ds_sendDataToRequestor,
     jj_popL1RequestQueue], L2_V)"
| "l2_transition L2_V L1_Write = Some ([d_markBlockDirty, tw_updateL2BlockWts, wa_sendAckToRequestor,
     mr_writeDataToCacheFromRequest, jj_popL1RequestQueue], L2_V)"
| "l2_transition L2_V L2_Atomic = Some ([d_markBlockDirty, tw_updateL2BlockWts,
     ds_sendAtomicDataGlobalToRequestor, mr_writeDataToCacheFromRequest, jj_popL1RequestQueue], L2_V)"
| "l2_transition L2_V L2_Replacement_clean = Some ([setmts_setMts, rr_deallocateL2CacheBlock], L2_NP)"
| "l2_transition L2_V L2_Replacement = Some ([setmts_setMts, c_exclusiveReplacement,
     rr_deallocateL2CacheBlock], L2_NP)"
| "l2_transition _ _ = None"

definition l2_trigger :: "L2Cache_Event \<Rightarrow> 'd l2_action" where
  "l2_trigger ev a b = (case l2_transition (l2_getState a b) ev of None \<Rightarrow> None
     | Some (actions, next_state) \<Rightarrow> do {
         b' \<leftarrow> run_all (\<lambda>act. act a) actions b;
         Some (l2_setState a next_state b') })"

section \<open>Ports\<close>

definition l2_mem_port :: "'d l2_bank \<Rightarrow> 'd l2_bank option" where
  "l2_mem_port b = (case peek_reply b of None \<Rightarrow> Some b
     | Some r \<Rightarrow> (case mm_Type r of
         MEMORY_READ \<Rightarrow> do {
           t \<leftarrow> l2_TBEs b (mm_Address r);
           assert_that (t_pending_read t \<or> t_pending_write t);
           (if t_pending_read t \<and> t_pending_write t then l2_trigger Mem_Data_PRW (mm_Address r) b
            else if t_pending_read t then l2_trigger Mem_Data_PR (mm_Address r) b
            else l2_trigger Mem_Data_PW (mm_Address r) b) }
       | MEMORY_WB \<Rightarrow> Some (b\<lparr> l2_mem_replies := tl (l2_mem_replies b) \<rparr>)))"

definition l2_request_port ::
    "(physical_address_t \<Rightarrow> 'd l2_bank \<Rightarrow> bool) \<Rightarrow> (physical_address_t \<Rightarrow> 'd l2_bank \<Rightarrow> physical_address_t) \<Rightarrow>
     'd l2_bank \<Rightarrow> 'd l2_bank option" where
  "l2_request_port cacheAvail cacheProbe b = (case peek_request b of None \<Rightarrow> Some b
     | Some m \<Rightarrow>
         if l2_cache b (rq_Address m) \<noteq> None \<or> cacheAvail (rq_Address m) b
         then do { ev \<leftarrow> request_type_to_event (rq_Type m); l2_trigger ev (rq_Address m) b }
         else do {
           e \<leftarrow> l2_cache b (cacheProbe (rq_Address m) b);
           l2_trigger (if e_Dirty e then L2_Replacement else L2_Replacement_clean)
             (cacheProbe (rq_Address m) b) b })"

section \<open>Steps\<close>

text \<open>A bank in its environment: requests and memory replies arrive in any order and with any
  content, and the two ports run whenever they are scheduled.\<close>

inductive l2_step :: "'d l2_bank \<Rightarrow> 'd l2_bank \<Rightarrow> bool" where
  request_arrives: "l2_step b (b\<lparr> l2_requests := l2_requests b @ [m] \<rparr>)"
| reply_arrives: "l2_step b (b\<lparr> l2_mem_replies := l2_mem_replies b @ [r] \<rparr>)"
| handle_request: "l2_request_port avail probe b = Some b' \<Longrightarrow> l2_step b b'"
| handle_reply: "l2_mem_port b = Some b' \<Longrightarrow> l2_step b b'"

inductive l2_reachable :: "'d l2_bank \<Rightarrow> bool" where
  initial: "l2_reachable l2_init"
| step: "l2_reachable b \<Longrightarrow> l2_step b b' \<Longrightarrow> l2_reachable b'"

section \<open>Invariant\<close>

text \<open>The bound of the leases of a line: while the line is valid its read timestamp, otherwise the
  memory timestamp.\<close>

definition lease_bound :: "physical_address_t \<Rightarrow> 'd l2_bank \<Rightarrow> Time" where
  "lease_bound a b = (case l2_cache b a of Some e \<Rightarrow> if e_CacheState e = L2_V then e_rts e else l2_mts b
     | None \<Rightarrow> l2_mts b)"

text \<open>The timestamp of the newest write of a line.\<close>

definition version :: "physical_address_t \<Rightarrow> 'd l2_bank \<Rightarrow> Time" where
  "version a b = (case l2_TBEs b a of Some t \<Rightarrow> max (t_max_write_pts t) (l2_mts b)
     | None \<Rightarrow> (case l2_cache b a of Some e \<Rightarrow> e_wts e | None \<Rightarrow> l2_mts b))"

text \<open>A line is absent, valid, or in a transaction.\<close>

definition line_ok :: "physical_address_t \<Rightarrow> 'd l2_bank \<Rightarrow> bool" where
  "line_ok a b \<longleftrightarrow> (case l2_cache b a of
       None \<Rightarrow> l2_TBEs b a = None
     | Some e \<Rightarrow> (case l2_TBEs b a of None \<Rightarrow> e_CacheState e = L2_V
         | Some t \<Rightarrow> t_TBEState t = e_CacheState e \<and> e_CacheState e \<in> {L2_IV, L2_IAV} \<and>
             (t_pending_write t \<or> t_max_write_pts t \<le> 0)))"

definition is_lease :: "physical_address_t \<Rightarrow> 'd response_msg \<Rightarrow> bool" where
  "is_lease a r \<longleftrightarrow> rs_Type r = Response_DATA \<and> rs_Address r = a"

definition is_write_reply :: "physical_address_t \<Rightarrow> 'd response_msg \<Rightarrow> bool" where
  "is_write_reply a r \<longleftrightarrow> rs_Type r \<in> {Response_ACK, Response_DATA_ATOMIC} \<and> rs_Address r = a"

text \<open>What a transition of the line \<open>a\<close> may do: it changes no other line, its timestamps do not
  go back, and it sends at most one response, which is within the bound of the leases or between
  the versions before and after.\<close>

definition l2_advances :: "physical_address_t \<Rightarrow> 'd l2_bank \<Rightarrow> 'd l2_bank \<Rightarrow> bool" where
  "l2_advances a b b' \<longleftrightarrow>
     (\<forall>x. x \<noteq> a \<longrightarrow> l2_cache b' x = l2_cache b x \<and> l2_TBEs b' x = l2_TBEs b x) \<and>
     line_ok a b' \<and> l2_mts b \<le> l2_mts b' \<and> lease_bound a b \<le> lease_bound a b' \<and>
     version a b \<le> version a b' \<and>
     (l2_responses b' = l2_responses b \<or> (\<exists>r. l2_responses b' = l2_responses b @ [r] \<and> rs_Address r = a \<and>
        (is_lease a r \<longrightarrow> rs_rts r \<le> lease_bound a b') \<and>
        (is_write_reply a r \<longrightarrow> lease_bound a b \<le> rs_wts r) \<and>
        version a b \<le> rs_wts r \<and> rs_wts r \<le> version a b'))"

text \<open>How two responses of a line are ordered, the earlier one first: their write timestamps do not
  go back, and a write is not within a lease granted before it.\<close>

definition line_order :: "'d response_msg \<Rightarrow> 'd response_msg \<Rightarrow> bool" where
  "line_order q r \<longleftrightarrow> rs_Address q = rs_Address r \<longrightarrow> rs_wts q \<le> rs_wts r \<and>
     (is_lease (rs_Address q) q \<and> is_write_reply (rs_Address r) r \<longrightarrow> rs_rts q \<le> rs_wts r)"

definition l2_ok :: "'d l2_bank \<Rightarrow> bool" where
  "l2_ok b \<longleftrightarrow> (\<forall>a. line_ok a b) \<and> 0 \<le> l2_mts b \<and> sorted_wrt line_order (l2_responses b) \<and>
     (\<forall>r\<in>set (l2_responses b). rs_wts r \<le> version (rs_Address r) b \<and>
        (is_lease (rs_Address r) r \<longrightarrow> rs_rts r \<le> lease_bound (rs_Address r) b))"

lemma getTimeMax_max [simp]: "getTimeMax t1 t2 = max t1 t2"
  by (simp add: getTimeMax_def max_def)

lemmas l2_actions = a_issueFetchToMemory_def c_exclusiveReplacement_def ds_sendDataToRequestor_def
  dst_sendDataToGetSRequestors_def ds_sendAtomicDataGlobalToRequestor_def
  dst_sendAtomicDataToGetSRequestors_def wa_sendAckToRequestor_def wat_sendAckToRequestorFromTBE_def
  i_allocateTBE_def il_allocateTBE_def s_deallocateTBE_def jj_popL1RequestQueue_def
  o_popIncomingResponseQueue_def m_writeDataToCache_def mr_writeDataToCacheFromRequest_def
  mtr_writeDataToTBEFromRequest_def mt_writeDataToCacheFromTBE_def ss_recordGetSL1ID_def
  qq_allocateL2CacheBlock_def setmts_setMts_def tr_updateL2BlockRts_def tw_updateL2BlockWts_def
  trt_updateL2BlockRts_fromTBE_def tmrt_updateMaxReadPtsInTBE_def tmwt_updateMaxWritePtsInTBE_def
  d_markBlockDirty_def dpr_markPendingRead_def dpw_markPendingWrite_def rr_deallocateL2CacheBlock_def
  xx_recordGetXL1ID_def

lemmas l2_run = l2_trigger_def l2_actions peek_request_def peek_reply_def set_entry_def set_tbe_def
  send_response_def send_memory_def l2_getState_def l2_setState_def getTimePlusTime_def
  getTimePlusInt_def

lemmas l2_line = l2_advances_def line_ok_def lease_bound_def version_def is_write_reply_def is_lease_def

lemma line_cases:
  assumes "line_ok a b"
  obtains (NP) "l2_cache b a = None" "l2_TBEs b a = None"
    | (V) e where "l2_cache b a = Some e" "l2_TBEs b a = None" "e_CacheState e = L2_V"
    | (IV) e t where "l2_cache b a = Some e" "l2_TBEs b a = Some t" "e_CacheState e = L2_IV"
        "t_TBEState t = L2_IV" "t_pending_write t \<or> t_max_write_pts t \<le> 0"
    | (IAV) e t where "l2_cache b a = Some e" "l2_TBEs b a = Some t" "e_CacheState e = L2_IAV"
        "t_TBEState t = L2_IAV" "t_pending_write t \<or> t_max_write_pts t \<le> 0"
  using assms by (auto simp: line_ok_def split: option.splits)

text \<open>The effect of the transitions of a valid line.\<close>

definition lease_end :: "'d request_msg \<Rightarrow> 'd l2_entry \<Rightarrow> Time" where
  "lease_end m e = max (rq_pts m + rq_deltaRequested m) (max (e_wts e + rq_deltaRequested m) (e_rts e))"

lemma V_GETS_run:
  assumes "l2_cache b a = Some e" "l2_TBEs b a = None" "e_CacheState e = L2_V" "l2_requests b = m # ms"
    "l2_trigger L1_GETS a b = Some b'"
  shows "l2_cache b' = (l2_cache b)(a \<mapsto> e\<lparr> e_rts := lease_end m e, e_CacheState := L2_V \<rparr>)"
    "l2_TBEs b' = l2_TBEs b" "l2_mts b' = l2_mts b" "l2_requests b' = ms"
    "l2_responses b' = l2_responses b @ [\<lparr> rs_Address = a, rs_Type = Response_DATA,
       rs_Destination = {rq_Requestor m}, rs_DataBlk = e_DataBlk e, rs_Dirty = e_Dirty e,
       rs_Space = rq_Space m, rs_RequestSize = rq_RequestSize m, rs_rts = lease_end m e,
       rs_wts = e_wts e, rs_memfetch = 0, rs_mfset = [(rq_Requestor m, rq_memfetch m)] \<rparr>]"
  using assms by (auto simp: l2_run lease_end_def [symmetric])

lemma V_GETS_advances:
  assumes "l2_cache b a = Some e" "l2_TBEs b a = None" "e_CacheState e = L2_V"
    "l2_trigger L1_GETS a b = Some b'"
  shows "l2_advances a b b'"
proof (cases "l2_requests b")
  case Nil
  then show ?thesis using assms by (simp add: l2_run)
next
  case (Cons m ms)
  have "e_rts e \<le> lease_end m e" by (simp add: lease_end_def)
  then show ?thesis using assms(1-3) V_GETS_run [OF assms(1-3) Cons assms(4)] by (auto simp: l2_line)
qed

lemma NP_advances:
  assumes "l2_cache b a = None" "l2_TBEs b a = None" "l2_trigger ev a b = Some b'"
  shows "l2_advances a b b'"
  using assms
  by (cases ev; cases "l2_requests b") (auto simp: l2_run l2_line abort_simps)

lemma V_advances:
  assumes line: "l2_cache b a = Some e" "l2_TBEs b a = None" "e_CacheState e = L2_V"
    and run: "l2_trigger ev a b = Some b'"
  shows "l2_advances a b b'"
proof (cases ev)
  case L1_GETS
  then show ?thesis using V_GETS_advances [OF line] run by simp
next
  case L1_Write
  show ?thesis using line run unfolding L1_Write
    by (cases "l2_requests b") (auto simp: l2_run l2_line abort_simps)
next
  case L2_Atomic
  show ?thesis using line run unfolding L2_Atomic
    by (cases "l2_requests b") (auto simp: l2_run l2_line abort_simps)
next
  case L2_Replacement
  show ?thesis using line run unfolding L2_Replacement by (auto simp: l2_run l2_line abort_simps)
next
  case L2_Replacement_clean
  show ?thesis using line run unfolding L2_Replacement_clean
    by (auto simp: l2_run l2_line abort_simps)
qed (use line run in \<open>simp_all add: l2_run\<close>)

lemma IV_PRW_run:
  assumes "l2_cache b a = Some e" "l2_TBEs b a = Some t" "t_TBEState t = L2_IV"
    "l2_mem_replies b = r # rs" "l2_trigger Mem_Data_PRW a b = Some b'"
  defines "wts \<equiv> max (t_max_write_pts t) (l2_mts b)"
  defines "rts \<equiv> max (t_max_read_pts t + t_deltaRequested t) (max (wts + t_deltaRequested t) (l2_mts b))"
  shows "l2_cache b' = (l2_cache b)(a \<mapsto> e\<lparr> e_CacheState := L2_V, e_DataBlk := t_DataBlk t,
      e_Dirty := t_Dirty t, e_rts := rts, e_wts := wts \<rparr>)"
    "l2_TBEs b' = (l2_TBEs b)(a := None)" "l2_mts b' = l2_mts b"
    "l2_responses b' = l2_responses b @ [\<lparr> rs_Address = a, rs_Type = Response_DATA,
       rs_Destination = t_L1_GetS_IDs t, rs_DataBlk = t_DataBlk t, rs_Dirty = t_Dirty t,
       rs_Space = t_Space t, rs_RequestSize = t_RequestSize t, rs_rts = rts, rs_wts = wts,
       rs_memfetch = 0, rs_mfset = t_mfset t \<rparr>]"
  unfolding rts_def wts_def using assms(1-5) by (auto simp: l2_run)

lemma IV_advances:
  assumes line: "l2_cache b a = Some e" "l2_TBEs b a = Some t" "e_CacheState e = L2_IV"
      "t_TBEState t = L2_IV" "t_pending_write t \<or> t_max_write_pts t \<le> 0"
    and mts: "0 \<le> l2_mts b" and run: "l2_trigger ev a b = Some b'"
    and read: "ev = Mem_Data_PR \<Longrightarrow> \<not> t_pending_write t"
  shows "l2_advances a b b'"
proof (cases ev)
  case L1_GETS
  show ?thesis using line run unfolding L1_GETS
    by (cases "l2_requests b") (auto simp: l2_run l2_line abort_simps)
next
  case L1_Write
  show ?thesis using line run unfolding L1_Write
    by (cases "l2_requests b") (auto simp: l2_run l2_line abort_simps)
next
  case Mem_Data_PR
  show ?thesis using line mts run read [OF Mem_Data_PR] unfolding Mem_Data_PR
    by (cases "l2_mem_replies b") (auto simp: l2_run l2_line abort_simps)
next
  case Mem_Data_PW
  show ?thesis using line run unfolding Mem_Data_PW
    by (cases "l2_mem_replies b") (auto simp: l2_run l2_line abort_simps)
next
  case Mem_Data_PRW
  show ?thesis
  proof (cases "l2_mem_replies b")
    case Nil
    then show ?thesis using line run unfolding Mem_Data_PRW by (simp add: l2_run)
  next
    case (Cons r rs)
    let ?wts = "max (t_max_write_pts t) (l2_mts b)"
    have le: "l2_mts b \<le> max (t_max_read_pts t + t_deltaRequested t) (max (?wts + t_deltaRequested t) (l2_mts b))"
      by simp
    show ?thesis
      using line(1-3) le IV_PRW_run [OF line(1,2,4) Cons run [unfolded Mem_Data_PRW]]
      by (simp add: l2_line)
  qed
qed (use line run in \<open>auto simp: l2_run l2_line\<close>)

lemma IAV_advances:
  assumes line: "l2_cache b a = Some e" "l2_TBEs b a = Some t" "e_CacheState e = L2_IAV"
      "t_TBEState t = L2_IAV" "t_pending_write t \<or> t_max_write_pts t \<le> 0"
    and run: "l2_trigger ev a b = Some b'"
  shows "l2_advances a b b'"
proof (cases ev)
  case Mem_Data_PW
  show ?thesis using line run unfolding Mem_Data_PW
    by (cases "l2_mem_replies b") (auto simp: l2_run l2_line abort_simps)
qed (use line run in \<open>auto simp: l2_run l2_line\<close>)

lemma trigger_advances:
  assumes "line_ok a b" "0 \<le> l2_mts b" "l2_trigger ev a b = Some b'"
    and "ev = Mem_Data_PR \<Longrightarrow> \<forall>t. l2_TBEs b a = Some t \<longrightarrow> \<not> t_pending_write t"
  shows "l2_advances a b b'"
  using assms(1)
proof (cases rule: line_cases)
  case NP
  then show ?thesis using NP_advances assms(3) by blast
next
  case (V e)
  then show ?thesis using V_advances assms(3) by blast
next
  case (IV e t)
  then show ?thesis using IV_advances assms(2-4) by blast
next
  case (IAV e t)
  then show ?thesis using IAV_advances assms(3) by blast
qed

lemma advances_other:
  assumes "l2_advances a b b'" "x \<noteq> a"
  shows "line_ok x b' = line_ok x b" "lease_bound x b \<le> lease_bound x b'" "version x b \<le> version x b'"
proof -
  have eq: "l2_cache b' x = l2_cache b x" "l2_TBEs b' x = l2_TBEs b x" and mts: "l2_mts b \<le> l2_mts b'"
    using assms unfolding l2_advances_def by blast+
  show "line_ok x b' = line_ok x b" by (simp only: line_ok_def eq)
  show "lease_bound x b \<le> lease_bound x b'" using mts by (simp add: lease_bound_def eq split: option.split)
  show "version x b \<le> version x b'" using mts by (auto simp: version_def eq split: option.split)
qed

lemma advances_ok:
  assumes ok: "l2_ok b" and adv: "l2_advances a b b'"
  shows "l2_ok b'"
proof -
  have mono: "lease_bound x b \<le> lease_bound x b'" "version x b \<le> version x b'" "line_ok x b'" for x
    using advances_other [OF adv, of x] adv ok by (cases "x = a"; auto simp: l2_advances_def l2_ok_def)+
  have before: "rs_wts q \<le> version (rs_Address q) b"
    "is_lease (rs_Address q) q \<Longrightarrow> rs_rts q \<le> lease_bound (rs_Address q) b"
    if "q \<in> set (l2_responses b)" for q using that ok by (simp_all add: l2_ok_def)
  have after: "rs_wts q \<le> version (rs_Address q) b'"
    "is_lease (rs_Address q) q \<Longrightarrow> rs_rts q \<le> lease_bound (rs_Address q) b'"
    if "q \<in> set (l2_responses b)" for q using before [OF that] mono(1,2) [of "rs_Address q"] by auto
  have mts: "0 \<le> l2_mts b'" using ok adv by (auto simp: l2_ok_def l2_advances_def)
  have srt: "sorted_wrt line_order (l2_responses b)" using ok by (simp add: l2_ok_def)
  have "l2_responses b' = l2_responses b \<or> (\<exists>r. l2_responses b' = l2_responses b @ [r] \<and> rs_Address r = a \<and>
        (is_lease a r \<longrightarrow> rs_rts r \<le> lease_bound a b') \<and>
        (is_write_reply a r \<longrightarrow> lease_bound a b \<le> rs_wts r) \<and>
        version a b \<le> rs_wts r \<and> rs_wts r \<le> version a b')"
    using adv unfolding l2_advances_def by blast
  then show ?thesis
  proof (elim disjE exE conjE)
    assume "l2_responses b' = l2_responses b"
    then show ?thesis using mono(3) mts after srt by (simp add: l2_ok_def)
  next
    fix r assume r: "l2_responses b' = l2_responses b @ [r]" "rs_Address r = a"
      "is_lease a r \<longrightarrow> rs_rts r \<le> lease_bound a b'" "is_write_reply a r \<longrightarrow> lease_bound a b \<le> rs_wts r"
      "version a b \<le> rs_wts r" "rs_wts r \<le> version a b'"
    have "line_order q r" if "q \<in> set (l2_responses b)" for q
      using before [OF that] r(2,4,5) unfolding line_order_def by (metis order_trans)
    then show ?thesis using mono(3) mts after r srt by (simp add: l2_ok_def sorted_wrt_append)
  qed
qed

lemma l2_init_ok: "l2_ok l2_init"
  by (simp add: l2_ok_def l2_init_def line_ok_def)

lemma line_cong:
  assumes "l2_cache b' a = l2_cache b a" "l2_TBEs b' a = l2_TBEs b a" "l2_mts b' = l2_mts b"
  shows "line_ok a b' = line_ok a b" "lease_bound a b' = lease_bound a b" "version a b' = version a b"
  using assms by (simp_all only: line_ok_def lease_bound_def version_def)

lemma l2_ok_cong:
  assumes "l2_cache b' = l2_cache b" "l2_TBEs b' = l2_TBEs b" "l2_mts b' = l2_mts b"
    "l2_responses b' = l2_responses b"
  shows "l2_ok b' = l2_ok b"
  using line_cong [of b' _ b] assms by (simp add: l2_ok_def)

lemma l2_ok_queues:
  "l2_ok (b\<lparr> l2_requests := q \<rparr>) = l2_ok b" "l2_ok (b\<lparr> l2_mem_replies := r \<rparr>) = l2_ok b"
  by (rule l2_ok_cong; simp)+

lemma trigger_ok:
  assumes "l2_ok b" "l2_trigger ev a b = Some b'"
    and "ev = Mem_Data_PR \<Longrightarrow> \<forall>t. l2_TBEs b a = Some t \<longrightarrow> \<not> t_pending_write t"
  shows "l2_ok b'"
  using advances_ok [OF assms(1)] trigger_advances [OF _ _ assms(2,3)] assms(1) by (simp add: l2_ok_def)

lemma request_port_cases:
  assumes "l2_request_port avail probe b = Some b'"
  shows "b' = b \<or> (\<exists>ev a. l2_trigger ev a b = Some b' \<and> ev \<noteq> Mem_Data_PR)"
proof (cases "peek_request b")
  case (Some m)
  have "ev \<noteq> Mem_Data_PR" if "request_type_to_event t = Some ev" for t ev
    using that by (cases t) auto
  then show ?thesis using assms Some
    by (auto simp: l2_request_port_def bind_Some_iff split: if_splits)
qed (use assms in \<open>simp add: l2_request_port_def\<close>)

lemma mem_port_cases:
  assumes "l2_mem_port b = Some b'"
  shows "(\<exists>q. b' = b\<lparr> l2_mem_replies := q \<rparr>) \<or>
    (\<exists>ev a. l2_trigger ev a b = Some b' \<and> (ev = Mem_Data_PR \<longrightarrow> (\<forall>t. l2_TBEs b a = Some t \<longrightarrow> \<not> t_pending_write t)))"
proof (cases "peek_reply b")
  case None
  then have "b' = b\<lparr> l2_mem_replies := l2_mem_replies b \<rparr>" using assms by (simp add: l2_mem_port_def)
  then show ?thesis by blast
next
  case (Some r)
  show ?thesis
  proof (cases "mm_Type r")
    case MEMORY_WB
    then show ?thesis using assms Some by (auto simp: l2_mem_port_def)
  next
    case MEMORY_READ
    then obtain t where t: "l2_TBEs b (mm_Address r) = Some t"
      using assms Some by (auto simp: l2_mem_port_def bind_Some_iff)
    let ?ev = "if t_pending_read t \<and> t_pending_write t then Mem_Data_PRW
      else if t_pending_read t then Mem_Data_PR else Mem_Data_PW"
    have "l2_trigger ?ev (mm_Address r) b = Some b'"
      using assms Some MEMORY_READ t by (auto simp: l2_mem_port_def split: if_splits)
    moreover have "?ev = Mem_Data_PR \<longrightarrow> (\<forall>t. l2_TBEs b (mm_Address r) = Some t \<longrightarrow> \<not> t_pending_write t)"
      using t by (auto split: if_splits)
    ultimately show ?thesis by blast
  qed
qed

lemma request_port_ok:
  assumes "l2_ok b" "l2_request_port avail probe b = Some b'"
  shows "l2_ok b'"
  using request_port_cases [OF assms(2)] trigger_ok [OF assms(1)] assms(1) by blast

lemma mem_port_ok:
  assumes "l2_ok b" "l2_mem_port b = Some b'"
  shows "l2_ok b'"
  using mem_port_cases [OF assms(2)]
proof (elim disjE exE conjE)
  fix q assume "b' = b\<lparr> l2_mem_replies := q \<rparr>"
  then show ?thesis using assms(1) by (simp only: l2_ok_queues)
qed (use trigger_ok [OF assms(1)] in blast)

lemma step_ok: "l2_step b b' \<Longrightarrow> l2_ok b \<Longrightarrow> l2_ok b'"
  by (induction rule: l2_step.induct) (auto simp: l2_ok_queues intro: request_port_ok mem_port_ok)

lemma reachable_ok: "l2_reachable b \<Longrightarrow> l2_ok b"
  by (induction rule: l2_reachable.induct) (auto intro: l2_init_ok step_ok)

section \<open>Timestamp order\<close>

lemma V_write_run:
  assumes "l2_cache b a = Some e" "l2_TBEs b a = None" "e_CacheState e = L2_V"
    "l2_requests b = m # ms" "rq_Dirty m" "rq_Type m \<in> {Request_DATA, Request_DATA_ATOMIC}"
    "request_type_to_event (rq_Type m) = Some ev"
  defines "wts \<equiv> max (max (rq_pts m) (e_wts e)) (e_rts e + 1)"
  shows "\<exists>b' r. l2_trigger ev a b = Some b' \<and> l2_responses b' = l2_responses b @ [r] \<and>
     is_write_reply a r \<and> rs_wts r = wts \<and> rs_Destination r = {rq_Requestor m} \<and> l2_requests b' = ms \<and>
     l2_cache b' a = Some (e\<lparr> e_DataBlk := rq_DataBlk m, e_Dirty := True, e_wts := wts \<rparr>)"
  using assms(1-7) unfolding wts_def by (auto simp: l2_run is_write_reply_def)

lemma V_write_port:
  assumes "l2_reachable b" "l2_requests b = m # ms" "rq_Dirty m"
    "rq_Type m \<in> {Request_DATA, Request_DATA_ATOMIC}"
    "l2_cache b (rq_Address m) = Some e" "e_CacheState e = L2_V"
  defines "wts \<equiv> max (max (rq_pts m) (e_wts e)) (e_rts e + 1)"
  shows "\<exists>b' r. l2_request_port avail probe b = Some b' \<and> l2_responses b' = l2_responses b @ [r] \<and>
     is_write_reply (rq_Address m) r \<and> rs_wts r = wts \<and> rs_Destination r = {rq_Requestor m} \<and>
     l2_requests b' = ms \<and>
     l2_cache b' (rq_Address m) = Some (e\<lparr> e_DataBlk := rq_DataBlk m, e_Dirty := True, e_wts := wts \<rparr>)"
proof -
  have line: "line_ok (rq_Address m) b" using reachable_ok [OF assms(1)] by (simp add: l2_ok_def)
  have idle: "l2_TBEs b (rq_Address m) = None"
    using line assms(5,6) by (cases rule: line_cases) auto
  obtain ev where ev: "request_type_to_event (rq_Type m) = Some ev" using assms(4) by auto
  have "l2_request_port avail probe b = l2_trigger ev (rq_Address m) b"
    using assms(2,5) ev by (simp add: l2_request_port_def peek_request_def)
  then show ?thesis
    using V_write_run [OF assms(5) idle assms(6,2,3,4) ev] unfolding wts_def by simp
qed

lemma lease_within:
  assumes "l2_reachable b" "q \<in> set (l2_responses b)" "is_lease a q"
  shows "rs_rts q \<le> lease_bound a b"
  using reachable_ok [OF assms(1)] assms(2,3) by (auto simp: l2_ok_def is_lease_def)

text \<open>C4. A write or an atomic that hits a valid line is served in one call of the request port: the
  line takes the data of the request, the requestor gets one reply, and the timestamp of that reply is
  not before the time of the requestor and strictly after the end of every lease the bank has ever
  granted on the line, in every state the bank can reach.\<close>

theorem rcc_write_after_leases:
  assumes "l2_reachable b" "l2_requests b = m # ms" "rq_Dirty m"
    "rq_Type m \<in> {Request_DATA, Request_DATA_ATOMIC}"
    "l2_cache b (rq_Address m) = Some e" "e_CacheState e = L2_V"
  shows "\<exists>b' r. l2_request_port cacheAvail cacheProbe b = Some b' \<and> l2_responses b' = l2_responses b @ [r] \<and>
     is_write_reply (rq_Address m) r \<and> rs_Destination r = {rq_Requestor m} \<and> l2_requests b' = ms \<and>
     l2_cache b' (rq_Address m) = Some (e\<lparr> e_DataBlk := rq_DataBlk m, e_Dirty := True, e_wts := rs_wts r \<rparr>) \<and>
     rq_pts m \<le> rs_wts r \<and>
     (\<forall>q\<in>set (l2_responses b). is_lease (rq_Address m) q \<longrightarrow> rs_rts q < rs_wts r)"
proof -
  have "rs_rts q \<le> e_rts e" if "q \<in> set (l2_responses b)" "is_lease (rq_Address m) q" for q
    using lease_within [OF assms(1) that] assms(5,6) by (simp add: lease_bound_def)
  then have "\<forall>q\<in>set (l2_responses b). is_lease (rq_Address m) q \<longrightarrow> rs_rts q < max (max (rq_pts m) (e_wts e)) (e_rts e + 1)"
    by force
  moreover have "rq_pts m \<le> max (max (rq_pts m) (e_wts e)) (e_rts e + 1)" by simp
  ultimately show ?thesis using V_write_port [OF assms, of cacheAvail cacheProbe] by fastforce
qed

text \<open>What a read that hits can fail on: the lease must reach the time of the requestor (assertion of
  \<open>ds_sendDataToRequestor\<close>), and a copy that the requestor reports as held, not expired and leased past the
  last write would have been a hit there (assertion of \<open>jj_popL1RequestQueue\<close>).\<close>

definition read_asserts :: "'d request_msg \<Rightarrow> 'd l2_entry \<Rightarrow> bool" where
  "read_asserts m e \<longleftrightarrow> rq_pts m \<le> lease_end m e \<and> (rq_InL1 m \<and> e_wts e < rq_rts m \<longrightarrow> rq_ExpiredInL1 m)"

lemma V_GETS_trigger:
  assumes "l2_cache b a = Some e" "l2_TBEs b a = None" "e_CacheState e = L2_V" "l2_requests b = m # ms"
    "rq_Type m = Request_GETS"
  shows "l2_trigger L1_GETS a b \<noteq> None \<longleftrightarrow> read_asserts m e"
  using assms unfolding read_asserts_def lease_end_def by (auto simp: l2_run)

text \<open>C6. A read that hits a valid line is served in one call of the request port: the requestor gets the
  data and the write timestamp of the line, with a lease that reaches the requested duration past both
  its own time and the last write, and the line keeps that lease as its read timestamp.  Nothing else
  of the cache changes.  The port aborts instead exactly when one of the two assertions on its way fails:
  the new lease would end before the time of the requestor (which needs a negative duration), or the
  requestor holds a copy that has not expired and whose lease ends after the last write.\<close>

theorem rcc_read_returns_lease:
  assumes "l2_reachable b" "l2_requests b = m # ms" "rq_Type m = Request_GETS"
    "l2_cache b (rq_Address m) = Some e" "e_CacheState e = L2_V"
  shows "if lease_end m e < rq_pts m \<or> rq_InL1 m \<and> \<not> rq_ExpiredInL1 m \<and> e_wts e < rq_rts m
    then l2_request_port cacheAvail cacheProbe b = None
    else \<exists>b' r. l2_request_port cacheAvail cacheProbe b = Some b' \<and> l2_responses b' = l2_responses b @ [r] \<and>
     is_lease (rq_Address m) r \<and> rs_Destination r = {rq_Requestor m} \<and> rs_DataBlk r = e_DataBlk e \<and>
     rs_wts r = e_wts e \<and> e_rts e \<le> rs_rts r \<and>
     rq_pts m + rq_deltaRequested m \<le> rs_rts r \<and> e_wts e + rq_deltaRequested m \<le> rs_rts r \<and>
     l2_requests b' = ms \<and> l2_cache b' = (l2_cache b)(rq_Address m \<mapsto> e\<lparr> e_rts := rs_rts r \<rparr>)"
proof -
  have "line_ok (rq_Address m) b" using reachable_ok [OF assms(1)] by (simp add: l2_ok_def)
  then have idle: "l2_TBEs b (rq_Address m) = None"
    using assms(4,5) by (cases rule: line_cases) auto
  have port: "l2_request_port cacheAvail cacheProbe b = l2_trigger L1_GETS (rq_Address m) b"
    using assms(2-4) by (simp add: l2_request_port_def peek_request_def)
  note run = V_GETS_trigger [OF assms(4) idle assms(5,2,3)]
  have ends: "e_rts e \<le> lease_end m e" "rq_pts m + rq_deltaRequested m \<le> lease_end m e"
    "e_wts e + rq_deltaRequested m \<le> lease_end m e" by (simp_all add: lease_end_def)
  have eq: "e\<lparr> e_rts := lease_end m e, e_CacheState := L2_V \<rparr> = e\<lparr> e_rts := lease_end m e \<rparr>"
    using assms(5) by (cases e) simp
  show ?thesis
  proof (cases "read_asserts m e")
    case True
    then obtain b' where b': "l2_trigger L1_GETS (rq_Address m) b = Some b'" using run by blast
    then show ?thesis
      using port ends eq V_GETS_run [OF assms(4) idle assms(5,2) b'] True
      by (auto simp: is_lease_def read_asserts_def)
  next
    case False
    then show ?thesis using port run by (auto simp: read_asserts_def)
  qed
qed

text \<open>C5. The responses that a bank sends are ordered by their timestamps as they are ordered in
  time, in every reachable state.  For two responses of one line, the write timestamp of the later one
  is at least that of the earlier one; and if the earlier one is a lease and the later one acknowledges
  a write, the write is not before the end of the lease.  Reads and writes of a line therefore happen
  in logical time in the order in which the bank serves them.\<close>

theorem rcc_line_history_ordered:
  assumes "l2_reachable b" "i < j" "j < length (l2_responses b)"
    "rs_Address (l2_responses b ! i) = a" "rs_Address (l2_responses b ! j) = a"
  shows "rs_wts (l2_responses b ! i) \<le> rs_wts (l2_responses b ! j) \<and>
    (is_lease a (l2_responses b ! i) \<and> is_write_reply a (l2_responses b ! j) \<longrightarrow>
       rs_rts (l2_responses b ! i) \<le> rs_wts (l2_responses b ! j))"
proof -
  have "sorted_wrt line_order (l2_responses b)" using reachable_ok [OF assms(1)] by (simp add: l2_ok_def)
  from sorted_wrt_nth_less [OF this assms(2,3)] show ?thesis
    using assms(4,5) by (simp add: line_order_def)
qed

text \<open>The form of the requests that the L1 caches send; \<open>l1_sends_wf\<close> of the theory \<open>RCC_L1\<close> shows that
  they have it.\<close>

definition request_wf :: "'d request_msg \<Rightarrow> bool" where
  "request_wf m \<longleftrightarrow> rq_Type m \<in> {Request_GETS, Request_DATA, Request_DATA_ATOMIC} \<and>
     (rq_Type m \<noteq> Request_GETS \<longrightarrow> rq_Dirty m) \<and> 0 \<le> rq_deltaRequested m"

text \<open>The two assertions that depend on the state of the line: merged requests are in one memory space, and
  a read of a valid line satisfies the assertion of \<open>jj_popL1RequestQueue\<close>.\<close>

definition request_fits :: "'d request_msg \<Rightarrow> 'd l2_bank \<Rightarrow> bool" where
  "request_fits m b \<longleftrightarrow> (case l2_TBEs b (rq_Address m) of Some t \<Rightarrow> t_Space t = rq_Space m
     | None \<Rightarrow> (case l2_cache b (rq_Address m) of None \<Rightarrow> True
         | Some e \<Rightarrow> rq_Type m = Request_GETS \<and> rq_InL1 m \<and> e_wts e < rq_rts m \<longrightarrow> rq_ExpiredInL1 m))"

lemma request_runs:
  assumes "line_ok (rq_Address m) b" "l2_requests b = m # ms" "request_wf m"
    "request_type_to_event (rq_Type m) = Some ev" "request_fits m b"
  shows "l2_trigger ev (rq_Address m) b \<noteq> None"
  using assms(1)
proof (cases rule: line_cases)
  case NP
  then show ?thesis using assms(2-4) by (auto simp: l2_run request_wf_def)
next
  case (V e)
  then show ?thesis using assms(2-5) by (auto simp: l2_run request_wf_def request_fits_def)
next
  case (IV e t)
  then show ?thesis using assms(2-5) by (auto simp: l2_run request_wf_def request_fits_def)
next
  case (IAV e t)
  then show ?thesis using assms(2-4) by (auto simp: l2_run request_wf_def)
qed

text \<open>Whatever a request does, its line is in the cache afterwards.\<close>

lemma request_installs_line:
  assumes "line_ok a b" "l2_requests b = m # ms" "request_type_to_event (rq_Type m) = Some ev"
    "l2_trigger ev a b = Some b'"
  shows "l2_cache b' a \<noteq> None"
  using assms(1)
proof (cases rule: line_cases)
  case NP
  then show ?thesis using assms(2-4) by (cases "rq_Type m") (auto simp: l2_run)
next
  case (V e)
  then show ?thesis using assms(2-4) by (cases "rq_Type m") (auto simp: l2_run split: if_splits)
next
  case (IV e t)
  then show ?thesis using assms(2-4) by (cases "rq_Type m") (auto simp: l2_run split: if_splits)
next
  case (IAV e t)
  then show ?thesis using assms(2-4) by (cases "rq_Type m") (auto simp: l2_run split: if_splits)
qed

lemma eviction_runs:
  assumes "line_ok a b" "l2_cache b a \<noteq> None" "ev \<in> {L2_Replacement, L2_Replacement_clean}"
  shows "l2_trigger ev a b \<noteq> None"
  using assms(1)
proof (cases rule: line_cases)
  case NP
  then show ?thesis using assms(2) by simp
qed (use assms(3) in \<open>auto simp: l2_run\<close>)

section \<open>Traces\<close>

text \<open>A run driven by a list of inputs.\<close>

datatype 'd l2_input = Request "'d request_msg" | Reply "'d memory_msg"
  | Serve_request bool physical_address_t | Serve_reply

fun l2_drive :: "'d l2_input \<Rightarrow> 'd l2_bank \<Rightarrow> 'd l2_bank option" where
  "l2_drive (Request m) b = Some (b\<lparr> l2_requests := l2_requests b @ [m] \<rparr>)"
| "l2_drive (Reply r) b = Some (b\<lparr> l2_mem_replies := l2_mem_replies b @ [r] \<rparr>)"
| "l2_drive (Serve_request room victim) b = l2_request_port (\<lambda>_ _. room) (\<lambda>_ _. victim) b"
| "l2_drive Serve_reply b = l2_mem_port b"

lemma drive_step: "l2_drive i b = Some b' \<Longrightarrow> l2_step b b'"
  by (cases i) (auto intro: l2_step.intros)

lemma drive_reachable: "run_all l2_drive is b = Some b' \<Longrightarrow> l2_reachable b \<Longrightarrow> l2_reachable b'"
  by (induction "is" arbitrary: b) (auto simp: bind_Some_iff dest: l2_reachable.step [OF _ drive_step])

definition sample_request :: "CoherenceRequestType \<Rightarrow> nat \<Rightarrow> physical_address_t \<Rightarrow> nat request_msg" where
  "sample_request ty l1 a = \<lparr> rq_Address = a, rq_Type = ty, rq_Requestor = l1, rq_DataBlk = Some 7,
     rq_Dirty = (ty \<noteq> Request_GETS), rq_Space = Space_GLOBAL, rq_RequestSize = 32,
     rq_deltaRequested = 10, rq_pts = 0, rq_rts = 0, rq_memfetch = 1, rq_ExpiredInL1 = False,
     rq_InL1 = False \<rparr>"

text \<open>A read miss of the line 128, answered by memory.\<close>

definition sample_fill :: "nat l2_input list" where
  "sample_fill = [Request (sample_request Request_GETS 0 128), Serve_request True 0,
     Reply \<lparr> mm_Address = 128, mm_Type = MEMORY_READ, mm_DataBlk = Some 3 \<rparr>, Serve_reply]"

text \<open>A read of the line 256 then evicts the line 128.\<close>

definition sample_evict :: "nat l2_input list" where
  "sample_evict = [Request (sample_request Request_GETS 1 256), Serve_request False 128,
     Serve_request True 0]"

lemmas sample_defs = sample_fill_def sample_evict_def sample_request_def l2_init_def
  l2_request_port_def l2_mem_port_def l2_run

lemma sample_hit: "\<exists>b. run_all l2_drive (sample_fill @ [Request (sample_request ty l1 128)]) l2_init = Some b \<and>
   l2_requests b = [sample_request ty l1 128] \<and>
   l2_cache b 128 = Some \<lparr> e_CacheState = L2_V, e_DataBlk = Some 3, e_Dirty = False, e_rts = 10, e_wts = 0 \<rparr> \<and>
   l2_TBEs b 128 = None \<and>
   (\<exists>q\<in>set (l2_responses b). is_lease 128 q \<and> rs_rts q = 10)"
  by (simp add: sample_defs is_lease_def)

definition sample_state :: "CoherenceRequestType \<Rightarrow> nat l2_bank" where
  "sample_state ty = the (run_all l2_drive (sample_fill @ [Request (sample_request ty 1 128)]) l2_init)"

lemma sample_state:
  "l2_reachable (sample_state ty)" "l2_requests (sample_state ty) = [sample_request ty 1 128]"
  "l2_cache (sample_state ty) 128 = Some \<lparr> e_CacheState = L2_V, e_DataBlk = Some 3, e_Dirty = False, e_rts = 10, e_wts = 0 \<rparr>"
  "l2_TBEs (sample_state ty) 128 = None"
  "\<exists>q\<in>set (l2_responses (sample_state ty)). is_lease 128 q \<and> rs_rts q = 10"
proof -
  obtain b where "run_all l2_drive (sample_fill @ [Request (sample_request ty 1 128)]) l2_init = Some b"
    using sample_hit by blast
  then show "l2_reachable (sample_state ty)"
    using drive_reachable l2_reachable.initial by (simp add: sample_state_def) blast
qed (use sample_hit [of ty 1] in \<open>auto simp: sample_state_def\<close>)

section \<open>Misses\<close>

lemma evict_run:
  assumes "l2_cache b a = Some e" "l2_TBEs b a = None" "e_CacheState e = L2_V"
  shows "\<exists>b'. l2_trigger (if e_Dirty e then L2_Replacement else L2_Replacement_clean) a b = Some b' \<and>
     l2_cache b' = (l2_cache b)(a := None) \<and> l2_TBEs b' = l2_TBEs b \<and> l2_requests b' = l2_requests b \<and>
     l2_responses b' = l2_responses b \<and> l2_mts b' = max (l2_mts b) (max (e_rts e) (e_wts e))"
  using assms by (auto simp: l2_run)

lemma miss_read_run:
  assumes "l2_cache b (rq_Address m) = None" "l2_TBEs b (rq_Address m) = None" "l2_requests b = m # ms"
    "rq_Type m = Request_GETS"
  shows "\<exists>b'. l2_request_port (\<lambda>_ _. True) probe b = Some b' \<and> l2_requests b' = ms \<and>
     l2_responses b' = l2_responses b \<and> l2_mts b' = l2_mts b \<and>
     (\<forall>a. a \<noteq> rq_Address m \<longrightarrow> l2_cache b' a = l2_cache b a \<and> l2_TBEs b' a = l2_TBEs b a)"
  using assms by (auto simp: l2_request_port_def l2_run)

lemma miss_write_run:
  assumes "l2_cache b (rq_Address m) = None" "l2_TBEs b (rq_Address m) = None" "l2_requests b = m # ms"
    "rq_Type m = Request_DATA" "rq_Dirty m"
  shows "\<exists>b' r. l2_request_port (\<lambda>_ _. True) probe b = Some b' \<and> l2_responses b' = l2_responses b @ [r] \<and>
     is_write_reply (rq_Address m) r \<and> rs_wts r = max (rq_pts m) (l2_mts b)"
  using assms by (auto simp: l2_request_port_def l2_run is_write_reply_def)



text \<open>C39. An atomic operation returns the old content of its line when it hits and its own operand when it
  misses.  In any reachable bank, the reply to an atomic of a valid line carries the content of the line; an
  atomic of an absent line is answered when memory has answered, and whatever data the memory returns,
  the reply carries the operand of the request.  After a miss the controller writes the operand to the cache
  (\<open>mt_writeDataToCacheFromTBE\<close>) before it sends the data of the cache.\<close>

theorem rcc_atomic_miss_returns_operand:
  assumes "l2_reachable b" "l2_requests b = m # ms" "rq_Type m = Request_DATA_ATOMIC" "rq_Dirty m"
  shows "(\<forall>e. l2_cache b (rq_Address m) = Some e \<and> e_CacheState e = L2_V \<longrightarrow>
       (\<exists>b' r. l2_request_port avail probe b = Some b' \<and> l2_responses b' = l2_responses b @ [r] \<and>
          rs_Type r = Response_DATA_ATOMIC \<and> rs_Destination r = {rq_Requestor m} \<and> rs_DataBlk r = e_DataBlk e)) \<and>
     (l2_cache b (rq_Address m) = None \<longrightarrow>
       (\<exists>b1. l2_request_port (\<lambda>_ _. True) probe b = Some b1 \<and> l2_responses b1 = l2_responses b \<and>
          (\<forall>d rest. \<exists>b2 r. l2_mem_port (b1\<lparr> l2_mem_replies :=
                \<lparr> mm_Address = rq_Address m, mm_Type = MEMORY_READ, mm_DataBlk = d \<rparr> # rest \<rparr>) = Some b2 \<and>
             l2_responses b2 = l2_responses b @ [r] \<and> rs_Type r = Response_DATA_ATOMIC \<and>
             rs_Destination r = {rq_Requestor m} \<and> rs_DataBlk r = rq_DataBlk m)))"
proof -
  have line: "line_ok (rq_Address m) b" using reachable_ok [OF assms(1)] by (simp add: l2_ok_def)
  show ?thesis
    using line
  proof (cases rule: line_cases)
    case NP
    then show ?thesis using assms(2-4) by (auto simp: l2_request_port_def l2_mem_port_def l2_run)
  next
    case (V e)
    then show ?thesis using assms(2-4) by (auto simp: l2_request_port_def l2_run)
  qed auto
qed

theorem rcc_write_after_leases_witness:
  "\<exists>b' r. l2_request_port (\<lambda>_ _. True) (\<lambda>_ _. 0) (sample_state Request_DATA) = Some b' \<and>
     l2_responses b' = l2_responses (sample_state Request_DATA) @ [r] \<and> is_write_reply 128 r \<and> 10 < rs_wts r"
proof -
  let ?m = "sample_request Request_DATA 1 128"
  have m: "rq_Dirty ?m" "rq_Type ?m \<in> {Request_DATA, Request_DATA_ATOMIC}" "rq_Address ?m = 128"
    by (simp_all add: sample_request_def)
  obtain b' r where r: "l2_request_port (\<lambda>_ _. True) (\<lambda>_ _. 0) (sample_state Request_DATA) = Some b'"
    "l2_responses b' = l2_responses (sample_state Request_DATA) @ [r]" "is_write_reply 128 r"
    "\<forall>q\<in>set (l2_responses (sample_state Request_DATA)). is_lease 128 q \<longrightarrow> rs_rts q < rs_wts r"
    using rcc_write_after_leases [OF sample_state(1,2) m(1,2), unfolded m(3), OF sample_state(3),
      of "\<lambda>_ _. True" "\<lambda>_ _. 0"] by auto
  have "10 < rs_wts r" using r(4) sample_state(5) [of Request_DATA] by (elim bexE conjE) fastforce
  then show ?thesis using r by blast
qed

theorem rcc_read_returns_lease_witness:
  "\<exists>b' r. l2_request_port (\<lambda>_ _. True) (\<lambda>_ _. 0) (sample_state Request_GETS) = Some b' \<and>
     l2_responses b' = l2_responses (sample_state Request_GETS) @ [r] \<and> rs_DataBlk r = Some 3"
proof -
  let ?m = "sample_request Request_GETS 1 128"
  have m: "rq_Type ?m = Request_GETS" "rq_Address ?m = 128" "\<not> rq_InL1 ?m" "rq_pts ?m = 0" "rq_deltaRequested ?m = 10"
    by (simp_all add: sample_request_def)
  show ?thesis
    using rcc_read_returns_lease [OF sample_state(1,2) m(1), unfolded m(2), OF sample_state(3),
      of "\<lambda>_ _. True" "\<lambda>_ _. 0"] m(3-5) by (auto simp: lease_end_def)
qed

theorem rcc_atomic_miss_returns_operand_witness:
  "\<exists>b' r. l2_request_port (\<lambda>_ _. True) (\<lambda>_ _. 0) (sample_state Request_DATA_ATOMIC) = Some b' \<and>
     l2_responses b' = l2_responses (sample_state Request_DATA_ATOMIC) @ [r] \<and> rs_DataBlk r = Some 3"
proof -
  let ?m = "sample_request Request_DATA_ATOMIC 1 128"
  have m: "rq_Type ?m = Request_DATA_ATOMIC" "rq_Dirty ?m" "rq_Address ?m = 128" by (simp_all add: sample_request_def)
  show ?thesis
    using rcc_atomic_miss_returns_operand [OF sample_state(1,2) m(1,2), unfolded m(3), of "\<lambda>_ _. True" "\<lambda>_ _. 0"]
      sample_state(3) [of Request_DATA_ATOMIC] by auto
qed

text \<open>A read and a write of a valid line.\<close>

definition sample_pair :: "nat l2_bank" where
  "sample_pair = the (run_all l2_drive
     (sample_fill @ [Request (sample_request Request_DATA 1 128), Serve_request True 0]) l2_init)"

lemma sample_pair: "l2_reachable sample_pair" "map rs_Address (l2_responses sample_pair) = [128, 128]"
  "map (is_lease 128) (l2_responses sample_pair) = [True, False]"
  "map (is_write_reply 128) (l2_responses sample_pair) = [False, True]"
proof -
  obtain b where b: "run_all l2_drive (sample_fill @ [Request (sample_request Request_DATA 1 128), Serve_request True 0]) l2_init = Some b"
     "map rs_Address (l2_responses b) = [128, 128]" "map (is_lease 128) (l2_responses b) = [True, False]"
     "map (is_write_reply 128) (l2_responses b) = [False, True]"
    by (simp add: sample_defs is_lease_def is_write_reply_def)
  then have "sample_pair = b" by (simp add: sample_pair_def)
  then show "l2_reachable sample_pair" "map rs_Address (l2_responses sample_pair) = [128, 128]"
    "map (is_lease 128) (l2_responses sample_pair) = [True, False]"
    "map (is_write_reply 128) (l2_responses sample_pair) = [False, True]"
    using b drive_reachable l2_reachable.initial by blast+
qed

theorem rcc_line_history_ordered_witness:
  "rs_rts (l2_responses sample_pair ! 0) \<le> rs_wts (l2_responses sample_pair ! 1)"
proof -
  have len: "length (l2_responses sample_pair) = 2" using arg_cong [OF sample_pair(2), of length] by simp
  have nth: "rs_Address (l2_responses sample_pair ! i) = 128" if "i < 2" for i
    using sample_pair(2) that len by (metis length_map less_2_cases nth_Cons_0 nth_Cons_Suc nth_map One_nat_def)
  have "is_lease 128 (l2_responses sample_pair ! 0)" "is_write_reply 128 (l2_responses sample_pair ! 1)"
    using arg_cong [OF sample_pair(3), of "\<lambda>l. l ! 0"] arg_cong [OF sample_pair(4), of "\<lambda>l. l ! 1"] len by simp_all
  then show ?thesis
    using rcc_line_history_ordered [OF sample_pair(1), of 0 1 128] len nth by simp
qed

end
