(* ===== verification/RCC_Memory.thy ===== *)
theory RCC_Memory
  imports RCC_L2
begin

text \<open>
  The data of a bank of the relativistic L2 cache, against any memory.

  The memory is not part of the model: at any time it may answer anything to a bank.  (The interface
  \<open>system/GpusimDramInterface.C\<close>, theory \<open>Ruby_Tables\<close>, only hands the messages of the bank to the DRAM
  timing model of GPGPU-Sim and back; no code there reads or writes data.)  Next to the bank runs a log of what it
  did with the data of its lines: a write when its request leaves the queue, a read when its data
  is sent, a fill when it takes the data of a memory answer, a write-back when it sends one.

  The first result is a refinement: the log is a history of a write-back cache (\<open>wb_step\<close>) over
  lines that are unknown, clean or dirty.  A read returns the last write or fill of its line, a write-back
  carries the last write, and no fill replaces a write that was not written back; through hits,
  misses, merged requests, evictions and write-backs.  The second is its consequence for a
  memory that stores what is written back, which is the hypothesis \<open>memory_law\<close>: the reads and writes are then those
  of one atomic memory.  The replies to atomics are not reads of the log: theory \<open>RCC_L2\<close> says what they
  carry.

  \<open>cell_ok\<close> says where the value of a line is in each state of the protocol; \<open>data_step\<close> is what one
  transition may do to it.
\<close>

section \<open>A write-back cache\<close>

type_synonym 'd store = "physical_address_t \<Rightarrow> 'd option"

datatype 'd mem_op = Wr physical_address_t "'d option" | Rd physical_address_t "'d option"
  | Fill physical_address_t "'d option" | Back physical_address_t "'d option"

datatype 'd cell = Unknown | Clean "'d option" | Dirty "'d option"

fun wb_step :: "'d mem_op \<Rightarrow> (physical_address_t \<Rightarrow> 'd cell) \<Rightarrow> (physical_address_t \<Rightarrow> 'd cell) option" where
  "wb_step (Wr a d) c = Some (c(a := Dirty d))"
| "wb_step (Rd a d) c = (if c a = Clean d \<or> c a = Dirty d then Some c else None)"
| "wb_step (Fill a d) c = (case c a of Dirty _ \<Rightarrow> None | _ \<Rightarrow> Some (c(a := Clean d)))"
| "wb_step (Back a d) c = (if c a = Dirty d then Some (c(a := Clean d)) else None)"

section \<open>An atomic memory\<close>

text \<open>The histories of reads and writes that an atomic memory allows: a read returns the content.  Fills and
  write-backs are not seen by its clients.\<close>

fun op_effect :: "'d mem_op \<Rightarrow> 'd store \<Rightarrow> 'd store" where
  "op_effect (Wr a d) st = st(a := d)"
| "op_effect _ st = st"

fun op_allowed :: "'d mem_op \<Rightarrow> 'd store \<Rightarrow> bool" where
  "op_allowed (Rd a d) st = (st a = d)"
| "op_allowed _ st = True"

fun atomic_memory :: "'d store \<Rightarrow> 'd mem_op list \<Rightarrow> bool" where
  "atomic_memory st [] = True"
| "atomic_memory st (x # ops) = (op_allowed x st \<and> atomic_memory (op_effect x st) ops)"

text \<open>What is asked of the memory behind the bank: every fill carries the data of the last write-back of its
  line, or the initial content.  Nothing is asked of the order of the answers of different lines.\<close>

fun memory_law :: "'d store \<Rightarrow> 'd mem_op list \<Rightarrow> bool" where
  "memory_law M [] = True"
| "memory_law M (Fill a d # ops) = (M a = d \<and> memory_law M ops)"
| "memory_law M (Back a d # ops) = memory_law (M(a := d)) ops"
| "memory_law M (_ # ops) = memory_law M ops"

definition cell_content :: "'d cell \<Rightarrow> 'd option \<Rightarrow> 'd option \<Rightarrow> bool" where
  "cell_content x v m = (case x of Unknown \<Rightarrow> v = m | Clean d \<Rightarrow> v = d \<and> m = d | Dirty d \<Rightarrow> v = d)"

lemma wb_atomic:
  assumes "run_all wb_step ops c = Some c'" "memory_law M ops" "\<And>a. cell_content (c a) (st a) (M a)"
  shows "atomic_memory st ops"
  using assms
proof (induction ops arbitrary: c M st)
  case (Cons x ops)
  obtain c1 where c1: "wb_step x c = Some c1" "run_all wb_step ops c1 = Some c'"
    using Cons.prems(1) by (auto simp: bind_Some_iff)
  show ?case
  proof (cases x)
    case (Wr a d)
    have "cell_content (c1 y) ((st(a := d)) y) (M y)" for y
      using Wr c1(1) Cons.prems(3) [of y] by (auto simp: cell_content_def)
    moreover have "memory_law M ops" using Cons.prems(2) Wr by simp
    ultimately have "atomic_memory (st(a := d)) ops" using Cons.IH [OF c1(2)] by blast
    then show ?thesis by (simp add: Wr)
  next
    case (Rd a d)
    then have c: "c1 = c" "c a = Clean d \<or> c a = Dirty d" using c1(1) by (auto split: if_splits)
    have "st a = d" using Cons.prems(3) [of a] c(2) by (auto simp: cell_content_def)
    moreover have "atomic_memory st ops" using Cons.IH [OF c1(2), of M st] Cons.prems(2,3) c(1) Rd by simp
    ultimately show ?thesis by (simp add: Rd)
  next
    case (Fill a d)
    have "cell_content (c1 y) (st y) (M y)" for y
      using Fill c1(1) Cons.prems(2) Cons.prems(3) [of y] by (cases "y = a") (auto simp: cell_content_def split: cell.splits)
    then show ?thesis using Cons.IH [OF c1(2), of M st] Cons.prems(2) Fill by simp
  next
    case (Back a d)
    have "cell_content (c1 y) (st y) ((M(a := d)) y)" for y
      using Back c1(1) Cons.prems(3) [of y] by (cases "y = a") (auto simp: cell_content_def split: if_splits)
    moreover have "memory_law (M(a := d)) ops" using Cons.prems(2) Back by simp
    ultimately have "atomic_memory st ops" using Cons.IH [OF c1(2)] by blast
    then show ?thesis by (simp add: Back)
  qed
qed simp

section \<open>The log of a bank\<close>

record 'd rcc_mem =
  rm_bank :: "'d l2_bank"
  rm_log :: "'d mem_op list"

text \<open>What a run of a port does with data: the write whose request it takes from the queue, the
  answer of the memory whose data it takes (the data of an answer is dropped when a write waits for
  it), the reads whose data it sends, and the write-backs.\<close>

definition served_writes :: "'d l2_bank \<Rightarrow> 'd l2_bank \<Rightarrow> 'd mem_op list" where
  "served_writes b b' = (case l2_requests b of [] \<Rightarrow> []
     | m # ms \<Rightarrow> if l2_requests b' = ms \<and> rq_Type m \<in> {Request_DATA, Request_DATA_ATOMIC}
                then [Wr (rq_Address m) (rq_DataBlk m)] else [])"

definition taken_fills :: "'d l2_bank \<Rightarrow> 'd l2_bank \<Rightarrow> 'd mem_op list" where
  "taken_fills b b' = (case l2_mem_replies b of [] \<Rightarrow> []
     | r # rs \<Rightarrow> if l2_mem_replies b' = rs \<and> mm_Type r = MEMORY_READ \<and>
                   (\<forall>t. l2_TBEs b (mm_Address r) = Some t \<longrightarrow> \<not> t_pending_write t)
                then [Fill (mm_Address r) (mm_DataBlk r)] else [])"

definition sent_reads :: "'d l2_bank \<Rightarrow> 'd l2_bank \<Rightarrow> 'd mem_op list" where
  "sent_reads b b' = map (\<lambda>r. Rd (rs_Address r) (rs_DataBlk r))
     (filter (\<lambda>r. rs_Type r = Response_DATA) (drop (length (l2_responses b)) (l2_responses b')))"

definition sent_backs :: "'d l2_bank \<Rightarrow> 'd l2_bank \<Rightarrow> 'd mem_op list" where
  "sent_backs b b' = map (\<lambda>m. Back (mm_Address m) (mm_DataBlk m))
     (filter (\<lambda>m. mm_Type m = MEMORY_WB) (drop (length (l2_memory b)) (l2_memory b')))"

definition bank_ops :: "'d l2_bank \<Rightarrow> 'd l2_bank \<Rightarrow> 'd mem_op list" where
  "bank_ops b b' = served_writes b b' @ taken_fills b b' @ sent_reads b b' @ sent_backs b b'"

definition rm_bank_step :: "'d l2_bank \<Rightarrow> 'd rcc_mem \<Rightarrow> 'd rcc_mem" where
  "rm_bank_step b' s = \<lparr> rm_bank = b', rm_log = rm_log s @ bank_ops (rm_bank s) b' \<rparr>"

text \<open>Requests and answers of the memory arrive at any time, in any order and with any content.\<close>

inductive rcc_mem_step :: "'d rcc_mem \<Rightarrow> 'd rcc_mem \<Rightarrow> bool" where
  arrive: "rcc_mem_step s (s\<lparr> rm_bank := (rm_bank s)\<lparr> l2_requests := l2_requests (rm_bank s) @ [m] \<rparr> \<rparr>)"
| memory: "rcc_mem_step s (s\<lparr> rm_bank := (rm_bank s)\<lparr> l2_mem_replies := l2_mem_replies (rm_bank s) @ [r] \<rparr> \<rparr>)"
| request: "l2_request_port avail probe (rm_bank s) = Some b' \<Longrightarrow> rcc_mem_step s (rm_bank_step b' s)"
| reply: "l2_mem_port (rm_bank s) = Some b' \<Longrightarrow> rcc_mem_step s (rm_bank_step b' s)"

inductive rcc_mem_reachable :: "'d rcc_mem \<Rightarrow> bool" where
  initial: "rcc_mem_reachable \<lparr> rm_bank = l2_init, rm_log = [] \<rparr>"
| step: "rcc_mem_reachable s \<Longrightarrow> rcc_mem_step s s' \<Longrightarrow> rcc_mem_reachable s'"

section \<open>Invariant\<close>

text \<open>Where the value of a line is: in the transaction buffer while a write waits for memory, in the
  cache while the line is valid.\<close>

definition cell_ok :: "physical_address_t \<Rightarrow> 'd l2_bank \<Rightarrow> 'd cell \<Rightarrow> bool" where
  "cell_ok a b x \<longleftrightarrow> (case l2_TBEs b a of
       Some t \<Rightarrow> if t_pending_write t then t_Dirty t \<and> x = Dirty (t_DataBlk t) else (\<forall>d. x \<noteq> Dirty d)
     | None \<Rightarrow> (case l2_cache b a of None \<Rightarrow> \<forall>d. x \<noteq> Dirty d
         | Some e \<Rightarrow> x = (if e_Dirty e then Dirty (e_DataBlk e) else Clean (e_DataBlk e))))"

definition rm_ok :: "'d rcc_mem \<Rightarrow> bool" where
  "rm_ok s \<longleftrightarrow> l2_ok (rm_bank s) \<and>
     (\<exists>c. run_all wb_step (rm_log s) (\<lambda>_. Unknown) = Some c \<and> (\<forall>a. cell_ok a (rm_bank s) (c a)))"

text \<open>What a transition of the line \<open>a\<close> does to the data.\<close>

definition data_step :: "physical_address_t \<Rightarrow> 'd l2_bank \<Rightarrow> 'd l2_bank \<Rightarrow> bool" where
  "data_step a b b' \<longleftrightarrow> (\<forall>c. cell_ok a b (c a) \<longrightarrow>
     (\<exists>c'. run_all wb_step (bank_ops b b') c = Some c' \<and> cell_ok a b' (c' a) \<and> (\<forall>x. x \<noteq> a \<longrightarrow> c' x = c x)))"

lemmas ops_simps = bank_ops_def served_writes_def taken_fills_def sent_reads_def sent_backs_def

lemma no_fills: "l2_mem_replies b' = l2_mem_replies b \<Longrightarrow> taken_fills b b' = []"
  by (auto simp: taken_fills_def split: list.split)

lemmas data_simps = data_step_def bank_ops_def no_fills served_writes_def sent_reads_def sent_backs_def cell_ok_def

lemma NP_data:
  assumes "l2_cache b a = None" "l2_TBEs b a = None" "l2_requests b = m # rest" "rq_Address m = a"
    "request_type_to_event (rq_Type m) = Some ev" "l2_trigger ev a b = Some b'"
  shows "data_step a b b'"
  using assms by (cases "rq_Type m") (auto simp: l2_run data_simps)

lemma V_data:
  assumes line: "l2_cache b a = Some e" "l2_TBEs b a = None" "e_CacheState e = L2_V"
    and req: "l2_requests b = m # rest" "rq_Address m = a"
    "request_type_to_event (rq_Type m) = Some ev" and run: "l2_trigger ev a b = Some b'"
  shows "data_step a b b'"
proof (cases "rq_Type m")
  case Request_GETS
  then have ev: "l2_trigger L1_GETS a b = Some b'" using req run by simp
  have "l2_memory b' = l2_memory b" "l2_mem_replies b' = l2_mem_replies b"
    using ev line req(1) by (auto simp: l2_run)
  then show ?thesis using V_GETS_run [OF line req(1) ev] line(1,2) req(1) Request_GETS
    by (auto simp: data_simps)
qed (use line req run in \<open>auto simp: l2_run data_simps\<close>)

lemma V_evict_data:
  assumes line: "l2_cache b a = Some e" "l2_TBEs b a = None" "e_CacheState e = L2_V"
    and req: "l2_requests b = m # rest" and ev: "ev = (if e_Dirty e then L2_Replacement else L2_Replacement_clean)"
    and run: "l2_trigger ev a b = Some b'"
  shows "data_step a b b'"
  using line req run unfolding ev by (cases "e_Dirty e") (auto simp: l2_run data_simps)

lemma IV_request_data:
  assumes line: "l2_cache b a = Some e" "l2_TBEs b a = Some t" "t_TBEState t = L2_IV"
    and req: "l2_requests b = m # rest" "rq_Address m = a"
    "request_type_to_event (rq_Type m) = Some ev" and run: "l2_trigger ev a b = Some b'"
  shows "data_step a b b'"
  using line req run by (cases "rq_Type m") (auto simp: l2_run data_simps)

lemma IAV_request_data:
  assumes line: "l2_cache b a = Some e" "l2_TBEs b a = Some t" "t_TBEState t = L2_IAV"
    and req: "l2_requests b = m # rest" "rq_Address m = a"
    "request_type_to_event (rq_Type m) = Some ev" and run: "l2_trigger ev a b = Some b'"
  shows "data_step a b b'"
  using line req run by (cases "rq_Type m") (auto simp: l2_run data_simps l2_setState_def)

lemma stall_evict_data:
  assumes line: "l2_cache b a = Some e" "l2_TBEs b a = Some t" "t_TBEState t \<in> {L2_IV, L2_IAV}"
    and req: "l2_requests b = m # rest" and ev: "ev \<in> {L2_Replacement, L2_Replacement_clean}"
    and run: "l2_trigger ev a b = Some b'"
  shows "data_step a b b'"
  using line req ev run by (auto simp: l2_run data_simps)

lemma reply_queues:
  assumes line: "l2_cache b a = Some e" "l2_TBEs b a = Some t" "t_TBEState t \<in> {L2_IV, L2_IAV}"
    and rep: "l2_mem_replies b = r # rs" and run: "l2_trigger ev a b = Some b'"
    and ev: "ev \<in> {Mem_Data_PR, Mem_Data_PW, Mem_Data_PRW}"
  shows "l2_mem_replies b' = rs" "l2_memory b' = l2_memory b" "l2_requests b' = l2_requests b"
    "l2_TBEs b' a = None"
  using assms by (auto simp: l2_run)

lemma reply_line:
  assumes line: "l2_cache b a = Some e" "l2_TBEs b a = Some t" "t_TBEState t \<in> {L2_IV, L2_IAV}"
    and rep: "l2_mem_replies b = r # rs" and run: "l2_trigger ev a b = Some b'"
  shows "ev = Mem_Data_PR \<Longrightarrow> \<exists>e'. l2_cache b' a = Some e' \<and> e_DataBlk e' = mm_DataBlk r \<and> \<not> e_Dirty e' \<and>
      (\<exists>x. l2_responses b' = l2_responses b @ [x] \<and> rs_Type x = Response_DATA \<and> rs_Address x = a \<and> rs_DataBlk x = mm_DataBlk r)"
    "ev = Mem_Data_PW \<Longrightarrow> \<exists>e'. l2_cache b' a = Some e' \<and> e_DataBlk e' = t_DataBlk t \<and> e_Dirty e' = t_Dirty t \<and>
      (l2_responses b' = l2_responses b \<or> (\<exists>x. l2_responses b' = l2_responses b @ [x] \<and> rs_Type x = Response_DATA_ATOMIC))"
    "ev = Mem_Data_PRW \<Longrightarrow> \<exists>e'. l2_cache b' a = Some e' \<and> e_DataBlk e' = t_DataBlk t \<and> e_Dirty e' = t_Dirty t \<and>
      (\<exists>x. l2_responses b' = l2_responses b @ [x] \<and> rs_Type x = Response_DATA \<and> rs_Address x = a \<and> rs_DataBlk x = t_DataBlk t)"
  using assms by (auto simp: l2_run)

lemma reply_data:
  assumes line: "l2_cache b a = Some e" "l2_TBEs b a = Some t" "t_TBEState t \<in> {L2_IV, L2_IAV}"
    and rep: "l2_mem_replies b = r # rs" "mm_Type r = MEMORY_READ" "mm_Address r = a"
    and ev: "ev = (if t_pending_read t \<and> t_pending_write t then Mem_Data_PRW
      else if t_pending_read t then Mem_Data_PR else Mem_Data_PW)" "t_pending_read t \<or> t_pending_write t"
    and run: "l2_trigger ev a b = Some b'"
  shows "data_step a b b'"
proof -
  have "ev \<in> {Mem_Data_PR, Mem_Data_PW, Mem_Data_PRW}" by (simp add: ev(1))
  note q = reply_queues [OF line rep(1) run this]
  have w: "served_writes b b' = []" using q(3) by (auto simp: served_writes_def split: list.split)
  have f: "taken_fills b b' = (if t_pending_write t then [] else [Fill a (mm_DataBlk r)])"
    using rep q(1) line(2) by (simp add: taken_fills_def)
  have k: "sent_backs b b' = []" by (simp add: sent_backs_def q(2))
  note l = reply_line [OF line rep(1) run]
  consider "ev = Mem_Data_PR" "\<not> t_pending_write t" | "ev = Mem_Data_PW" "t_pending_write t"
    | "ev = Mem_Data_PRW" "t_pending_write t" using ev by (cases "t_pending_read t"; cases "t_pending_write t") auto
  then show ?thesis
    by cases (use l q w f k line in \<open>auto simp: data_step_def bank_ops_def cell_ok_def sent_reads_def split: cell.splits\<close>)
qed

section \<open>The bank refines a write-back cache\<close>

lemma cell_ok_cong:
  assumes "l2_cache b' a = l2_cache b a" "l2_TBEs b' a = l2_TBEs b a"
  shows "cell_ok a b' = cell_ok a b"
  using assms by (intro ext) (simp only: cell_ok_def)

lemma data_step_ok:
  assumes ok: "rm_ok s" and adv: "l2_advances a (rm_bank s) b'" and data: "data_step a (rm_bank s) b'"
  shows "rm_ok (rm_bank_step b' s)"
proof -
  let ?b = "rm_bank s"
  obtain c where c: "run_all wb_step (rm_log s) (\<lambda>_. Unknown) = Some c" "\<And>x. cell_ok x ?b (c x)"
    using ok by (auto simp: rm_ok_def)
  obtain c' where c': "run_all wb_step (bank_ops ?b b') c = Some c'" "cell_ok a b' (c' a)" "\<And>x. x \<noteq> a \<Longrightarrow> c' x = c x"
    using data c(2) [of a] unfolding data_step_def by blast
  have "cell_ok x b' (c' x)" for x
  proof (cases "x = a")
    case False
    then have "l2_cache b' x = l2_cache ?b x" "l2_TBEs b' x = l2_TBEs ?b x"
      using adv unfolding l2_advances_def by blast+
    then show ?thesis using cell_ok_cong [of b' x ?b] c(2) [of x] c'(3) [OF False] by simp
  qed (use c'(2) in simp)
  moreover have "l2_ok b'" using advances_ok [OF _ adv] ok by (simp add: rm_ok_def)
  ultimately show ?thesis using c(1) c'(1) by (simp add: rm_ok_def rm_bank_step_def run_all_append)
qed

lemma idle_step:
  assumes "rm_ok s" "l2_mem_replies (rm_bank s) = r # rs" "mm_Type r = MEMORY_WB"
  shows "rm_ok (rm_bank_step ((rm_bank s)\<lparr> l2_mem_replies := rs \<rparr>) s)"
proof -
  have "bank_ops (rm_bank s) ((rm_bank s)\<lparr> l2_mem_replies := rs \<rparr>) = []"
    using assms(2,3) by (auto simp: ops_simps split: list.split)
  moreover have "cell_ok a ((rm_bank s)\<lparr> l2_mem_replies := rs \<rparr>) = cell_ok a (rm_bank s)" for a
    by (rule cell_ok_cong) simp_all
  ultimately show ?thesis using assms(1) by (simp add: rm_ok_def rm_bank_step_def l2_ok_queues)
qed

lemma idle_bank: "rm_bank_step (rm_bank s) s = s"
  by (cases s) (auto simp: rm_bank_step_def ops_simps split: list.split)

lemma request_data:
  assumes ok: "rm_ok s" and port: "l2_request_port avail probe (rm_bank s) = Some b'"
  shows "rm_ok (rm_bank_step b' s)"
proof (cases "l2_requests (rm_bank s)")
  case Nil
  then show ?thesis using ok port idle_bank [of s] by (simp add: l2_request_port_def peek_request_def)
next
  case (Cons m rest)
  let ?b = "rm_bank s"
  have line: "line_ok x ?b" for x using ok by (simp add: rm_ok_def l2_ok_def)
  have mts: "0 \<le> l2_mts ?b" using ok by (simp add: rm_ok_def l2_ok_def)
  show ?thesis
  proof (cases "l2_cache ?b (rq_Address m) \<noteq> None \<or> avail (rq_Address m) ?b")
    case True
    then obtain ev where ev: "request_type_to_event (rq_Type m) = Some ev" "l2_trigger ev (rq_Address m) ?b = Some b'"
      using port Cons by (auto simp: l2_request_port_def peek_request_def bind_Some_iff split: if_splits)
    have "ev \<noteq> Mem_Data_PR" using ev(1) by (cases "rq_Type m") auto
    then have adv: "l2_advances (rq_Address m) ?b b'" using trigger_advances [OF line mts ev(2)] by blast
    have "data_step (rq_Address m) ?b b'"
      using line [of "rq_Address m"]
      by (cases rule: line_cases) (meson NP_data V_data IV_request_data IAV_request_data Cons ev refl)+
    then show ?thesis using data_step_ok [OF ok adv] by blast
  next
    case False
    let ?p = "probe (rq_Address m) ?b"
    obtain e where e: "l2_cache ?b ?p = Some e"
      "l2_trigger (if e_Dirty e then L2_Replacement else L2_Replacement_clean) ?p ?b = Some b'"
      using port Cons False by (auto simp: l2_request_port_def peek_request_def bind_Some_iff)
    have adv: "l2_advances ?p ?b b'" by (rule trigger_advances [OF line mts e(2)]) (simp split: if_splits)
    have ev: "(if e_Dirty e then L2_Replacement else L2_Replacement_clean) \<in> {L2_Replacement, L2_Replacement_clean}"
      by simp
    have "data_step ?p ?b b'"
      using line [of ?p]
    proof (cases rule: line_cases)
      case NP
      then show ?thesis using e(1) by simp
    next
      case (V e')
      then show ?thesis using V_evict_data [OF e(1) _ _ Cons refl e(2)] e(1) by auto
    next
      case (IV e' t)
      then show ?thesis using stall_evict_data [OF e(1) IV(2) _ Cons ev e(2)] IV(4) by blast
    next
      case (IAV e' t)
      then show ?thesis using stall_evict_data [OF e(1) IAV(2) _ Cons ev e(2)] IAV(4) by blast
    qed
    then show ?thesis using data_step_ok [OF ok adv] by blast
  qed
qed

lemma memory_data:
  assumes ok: "rm_ok s" and port: "l2_mem_port (rm_bank s) = Some b'"
  shows "rm_ok (rm_bank_step b' s)"
proof (cases "l2_mem_replies (rm_bank s)")
  case Nil
  then show ?thesis using ok port idle_bank [of s] by (simp add: l2_mem_port_def peek_reply_def)
next
  case (Cons r rs)
  let ?b = "rm_bank s"
  show ?thesis
  proof (cases "mm_Type r")
    case MEMORY_WB
    then show ?thesis using idle_step [OF ok Cons] port Cons by (simp add: l2_mem_port_def peek_reply_def)
  next
    case MEMORY_READ
    obtain t where t: "l2_TBEs ?b (mm_Address r) = Some t" "t_pending_read t \<or> t_pending_write t"
      using port Cons MEMORY_READ by (auto simp: l2_mem_port_def peek_reply_def bind_Some_iff)
    let ?ev = "if t_pending_read t \<and> t_pending_write t then Mem_Data_PRW
      else if t_pending_read t then Mem_Data_PR else Mem_Data_PW"
    have run: "l2_trigger ?ev (mm_Address r) ?b = Some b'"
      using port Cons MEMORY_READ t by (auto simp: l2_mem_port_def peek_reply_def split: if_splits)
    have line: "line_ok (mm_Address r) ?b" and mts: "0 \<le> l2_mts ?b" using ok by (simp_all add: rm_ok_def l2_ok_def)
    have adv: "l2_advances (mm_Address r) ?b b'"
      by (rule trigger_advances [OF line mts run]) (use t(1) in \<open>auto split: if_splits\<close>)
    have "data_step (mm_Address r) ?b b'"
      using line t(1) reply_data [OF _ t(1) _ Cons MEMORY_READ refl refl t(2) run]
      by (cases rule: line_cases) auto
    then show ?thesis using data_step_ok [OF ok adv] by blast
  qed
qed

lemma rcc_mem_step_ok:
  assumes "rcc_mem_step s s'" "rm_ok s"
  shows "rm_ok s'"
  using assms(1)
proof cases
  case (arrive m)
  have "cell_ok a ((rm_bank s)\<lparr> l2_requests := l2_requests (rm_bank s) @ [m] \<rparr>) = cell_ok a (rm_bank s)" for a
    by (rule cell_ok_cong) simp_all
  then show ?thesis using assms(2) by (simp add: arrive rm_ok_def l2_ok_queues)
next
  case (memory r)
  have "cell_ok a ((rm_bank s)\<lparr> l2_mem_replies := l2_mem_replies (rm_bank s) @ [r] \<rparr>) = cell_ok a (rm_bank s)" for a
    by (rule cell_ok_cong) simp_all
  then show ?thesis using assms(2) by (simp add: memory rm_ok_def l2_ok_queues)
next
  case (request avail probe b')
  then show ?thesis using request_data [OF assms(2)] by simp
next
  case (reply b')
  then show ?thesis using memory_data [OF assms(2)] by simp
qed

lemma rcc_mem_init_ok: "rm_ok \<lparr> rm_bank = l2_init, rm_log = [] \<rparr>"
  using l2_init_ok by (auto simp: rm_ok_def cell_ok_def l2_init_def)

lemma rcc_mem_reachable_ok: "rcc_mem_reachable s \<Longrightarrow> rm_ok s"
  by (induction rule: rcc_mem_reachable.induct) (auto intro: rcc_mem_init_ok rcc_mem_step_ok)

text \<open>C3. A bank refines a write-back cache, and with a memory that keeps data an atomic memory.  In every reachable
  state, for any requests, any replacement policy and any answers of the memory, the log of the bank runs
  through the write-back cache \<open>wb_step\<close> and leaves each line with the value the bank holds for it: every read
  returned the data of the last write or fill of its line, every write-back carried the last write, and no
  fill took the place of a write that was not written back.  If moreover every fill carries the data of the last
  write-back of its line, or the initial content \<open>st\<close>, then the reads and writes, in the order in which the bank
  served them, are a history of one atomic memory.\<close>

theorem rcc_refines_atomic_memory:
  assumes "rcc_mem_reachable s"
  shows "(\<exists>c. run_all wb_step (rm_log s) (\<lambda>_. Unknown) = Some c \<and> (\<forall>a. cell_ok a (rm_bank s) (c a))) \<and>
     (memory_law st (rm_log s) \<longrightarrow> atomic_memory st (rm_log s))"
proof -
  obtain c where c: "run_all wb_step (rm_log s) (\<lambda>_. Unknown) = Some c" "\<forall>a. cell_ok a (rm_bank s) (c a)"
    using rcc_mem_reachable_ok [OF assms] by (auto simp: rm_ok_def)
  moreover have "memory_law st (rm_log s) \<longrightarrow> atomic_memory st (rm_log s)"
    using wb_atomic [OF c(1)] by (auto simp: cell_content_def)
  ultimately show ?thesis by blast
qed

section \<open>Traces\<close>

datatype 'd rm_input = Arrive "'d request_msg" | Memory "'d memory_msg" | Serve bool physical_address_t | Answer

fun rm_drive :: "'d rm_input \<Rightarrow> 'd rcc_mem \<Rightarrow> 'd rcc_mem option" where
  "rm_drive (Arrive m) s = Some (s\<lparr> rm_bank := (rm_bank s)\<lparr> l2_requests := l2_requests (rm_bank s) @ [m] \<rparr> \<rparr>)"
| "rm_drive (Memory r) s = Some (s\<lparr> rm_bank := (rm_bank s)\<lparr> l2_mem_replies := l2_mem_replies (rm_bank s) @ [r] \<rparr> \<rparr>)"
| "rm_drive (Serve room victim) s =
     map_option (\<lambda>b'. rm_bank_step b' s) (l2_request_port (\<lambda>_ _. room) (\<lambda>_ _. victim) (rm_bank s))"
| "rm_drive Answer s = map_option (\<lambda>b'. rm_bank_step b' s) (l2_mem_port (rm_bank s))"

lemma rm_drive_step: "rm_drive i s = Some s' \<Longrightarrow> rcc_mem_step s s'"
  by (cases i) (auto intro: rcc_mem_step.intros)

lemma rm_drive_reachable:
  "run_all rm_drive is s = Some s' \<Longrightarrow> rcc_mem_reachable s \<Longrightarrow> rcc_mem_reachable s'"
  by (induction "is" arbitrary: s) (auto simp: bind_Some_iff dest: rcc_mem_reachable.step [OF _ rm_drive_step])

definition rm_start :: "'d rcc_mem" where
  "rm_start = \<lparr> rm_bank = l2_init, rm_log = [] \<rparr>"

definition sample_read :: "physical_address_t \<Rightarrow> nat \<Rightarrow> nat rm_input" where
  "sample_read a d = Memory \<lparr> mm_Address = a, mm_Type = MEMORY_READ, mm_DataBlk = Some d \<rparr>"

text \<open>A write of the line 128 that misses (memory answers 3, which is dropped), a read of it, its eviction by a read of the line
  256, which memory answers with 3, and a second read of the line 128 that memory answers with what was written back.\<close>

definition sample_run :: "nat rm_input list" where
  "sample_run = [Arrive (sample_request Request_DATA 0 128), Serve True 0, sample_read 128 3, Answer,
     Arrive (sample_request Request_GETS 1 128), Serve True 0,
     Arrive (sample_request Request_GETS 1 256), Serve False 128, Serve True 0, sample_read 256 3, Answer,
     Arrive (sample_request Request_GETS 0 128), Serve True 0, sample_read 128 7, Answer]"

lemmas run_defs = rm_start_def rm_bank_step_def ops_simps sample_read_def sample_defs

lemma sample_run_log:
  "\<exists>s. run_all rm_drive sample_run rm_start = Some s \<and>
     rm_log s = [Wr 128 (Some 7), Rd 128 (Some 7), Back 128 (Some 7), Fill 256 (Some 3), Rd 256 (Some 3),
       Fill 128 (Some 7), Rd 128 (Some 7)]"
  by (simp add: sample_run_def run_defs)

theorem rcc_refines_atomic_memory_witness:
  "\<exists>s. rcc_mem_reachable s \<and> memory_law (\<lambda>_. Some 3) (rm_log s) \<and> atomic_memory (\<lambda>_. Some 3) (rm_log s) \<and>
     rm_log s = [Wr 128 (Some (7 :: nat)), Rd 128 (Some 7), Back 128 (Some 7), Fill 256 (Some 3), Rd 256 (Some 3),
       Fill 128 (Some 7), Rd 128 (Some 7)]"
proof -
  obtain s where s: "run_all rm_drive sample_run rm_start = Some s"
    "rm_log s = [Wr 128 (Some 7), Rd 128 (Some 7), Back 128 (Some 7), Fill 256 (Some 3), Rd 256 (Some 3),
       Fill 128 (Some 7), Rd 128 (Some 7)]"
    using sample_run_log by blast
  have "rcc_mem_reachable s"
    by (rule rm_drive_reachable [OF s(1)]) (simp add: rm_start_def rcc_mem_reachable.initial)
  moreover have "memory_law (\<lambda>_. Some 3) (rm_log s)" by (simp add: s(2))
  ultimately show ?thesis using s(2) rcc_refines_atomic_memory [of s "\<lambda>_. Some 3"] by blast
qed

end
