(* ===== verification/RCC_L1.thy ===== *)
theory RCC_L1
  imports RCC_L2
begin

text \<open>
  The private cache of the relativistic coherence protocol, \<open>protocols/tardis-VI-L1cache.sm\<close>.

  One cache is the record \<open>l1_ctl\<close>: its blocks, its transaction buffers, the timestamp \<open>pts\<close> of its
  processor and its queues.  The mandatory queue of the processor, the responses from the network
  and the delay queue are consumed at the head; the requests sent to the L2 and the callbacks to the
  sequencer are appended to \<open>l1_out\<close> and \<open>l1_done\<close> and stay there as history.  The delay queue is kept in
  the order of the write timestamps, first in first out among equals, which is what its message
  buffer does (theory \<open>Message_Buffer\<close>).

  Each action with a twin for the delay queue is one definition over the message that it peeks, and
  the twins are its two instances.  As in the L2, a failed assertion, an absent entry and an event
  without a transition abort, and \<open>cacheAvail\<close> and \<open>cacheProbe\<close> are arguments.  Left out are the actions that
  only profile: the queue of thread identities, the request recorder, the bits \<open>touched\<close> and
  \<open>expired_by_ownself\<close> and the count of loads.
\<close>

section \<open>Data\<close>

datatype L1Cache_State = L1_I | L1_S | L1_I_S | L1_I_I | L1_SM

datatype L1Cache_Event = Load | L1_WThru | L1_Atomic | L1_Replacement
  | Data | Data_Done | Ack | Ack_Done | DataAtomic | DataAtomic_Done | Delay
  | Delay_Data | Delay_Data_Done | Delay_Ack | Delay_Ack_Done | Delay_DataAtomic | Delay_DataAtomic_Done

record cache_msg =
  cm_Address :: physical_address_t
  cm_Type :: CacheRequestType
  cm_Size :: int
  cm_ThreadID :: int
  cm_Space :: MemorySpaceType
  cm_memfetch :: nat

record 'd l1_entry =
  le_CacheState :: L1Cache_State
  le_DataBlk :: "'d option"
  le_rts :: Time
  le_have_data :: bool

record 'd l1_tbe =
  lt_TBEState :: L1Cache_State
  lt_DataBlk :: "'d option"
  lt_isPrefetch :: bool
  lt_Space :: MemorySpaceType
  lt_ThreadID :: int
  lt_rts :: Time
  lt_pendingReads :: int
  lt_pendingWrites :: int

datatype l1_callback = readCallback physical_address_t | writeCallback physical_address_t nat

record 'd l1_ctl =
  l1_cache :: "physical_address_t \<rightharpoonup> 'd l1_entry"
  l1_TBEs :: "physical_address_t \<rightharpoonup> 'd l1_tbe"
  l1_pts :: Time
  l1_mandatory :: "cache_msg list"
  l1_responses :: "'d response_msg list"
  l1_delayed :: "'d response_msg list"
  l1_out :: "'d request_msg list"
  l1_done :: "l1_callback list"

text \<open>The parameters of a run: the number of the cache, the lease and block size of the configuration,
  and the two parameters of the delay queue.\<close>

record l1_config =
  l1_machineID :: l1_id
  CL_FIXED_LEASE :: Time
  DATA_BLOCK_BYTES :: int
  DELAY_QUEUE_ENABLED :: bool
  DELAY_QUEUE_THRESHOLD :: Time

type_synonym 'd l1_action = "l1_config \<Rightarrow> physical_address_t \<Rightarrow> 'd l1_ctl \<Rightarrow> 'd l1_ctl option"

definition l1_init :: "'d l1_ctl" where
  "l1_init = \<lparr> l1_cache = Map.empty, l1_TBEs = Map.empty, l1_pts = 0, l1_mandatory = [], l1_responses = [],
     l1_delayed = [], l1_out = [], l1_done = [] \<rparr>"

section \<open>Access functions\<close>

definition peek_head :: "'m list \<Rightarrow> 'm option" where
  "peek_head q = (case q of [] \<Rightarrow> None | m # _ \<Rightarrow> Some m)"

definition isLive :: "physical_address_t \<Rightarrow> 'd l1_ctl \<Rightarrow> bool option" where
  "isLive a c = (case l1_TBEs c a of Some t \<Rightarrow> Some (lt_rts t \<ge> l1_pts c)
     | None \<Rightarrow> (case l1_cache c a of Some e \<Rightarrow> Some (le_rts e \<ge> l1_pts c) | None \<Rightarrow> None))"

definition l1_setState :: "physical_address_t \<Rightarrow> L1Cache_State \<Rightarrow> 'd l1_ctl \<Rightarrow> 'd l1_ctl" where
  "l1_setState a s c = c\<lparr>
     l1_TBEs := (case l1_TBEs c a of Some t \<Rightarrow> (l1_TBEs c)(a \<mapsto> t\<lparr> lt_TBEState := s \<rparr>) | None \<Rightarrow> l1_TBEs c),
     l1_cache := (case l1_cache c a of Some e \<Rightarrow> (l1_cache c)(a \<mapsto> e\<lparr> le_CacheState := s \<rparr>) | None \<Rightarrow> l1_cache c) \<rparr>"

definition l1_getState :: "physical_address_t \<Rightarrow> 'd l1_ctl \<Rightarrow> L1Cache_State" where
  "l1_getState a c = (case l1_TBEs c a of
       Some t \<Rightarrow> if lt_TBEState t = L1_SM \<and> isLive a c = Some False then L1_I_I else lt_TBEState t
     | None \<Rightarrow> (case l1_cache c a of
         Some e \<Rightarrow> if isLive a c = Some False then L1_I else le_CacheState e
       | None \<Rightarrow> L1_I))"

fun mandatory_request_type_to_event :: "CacheRequestType \<Rightarrow> L1Cache_Event option" where
  "mandatory_request_type_to_event CR_LD = Some Load"
| "mandatory_request_type_to_event CR_ST = Some L1_WThru"
| "mandatory_request_type_to_event CR_ATOMIC = Some L1_Atomic"
| "mandatory_request_type_to_event _ = None"

definition set_l1_entry :: "physical_address_t \<Rightarrow> 'd l1_entry \<Rightarrow> 'd l1_ctl \<Rightarrow> 'd l1_ctl" where
  "set_l1_entry a e c = c\<lparr> l1_cache := (l1_cache c)(a \<mapsto> e) \<rparr>"

definition set_l1_tbe :: "physical_address_t \<Rightarrow> 'd l1_tbe \<Rightarrow> 'd l1_ctl \<Rightarrow> 'd l1_ctl" where
  "set_l1_tbe a t c = c\<lparr> l1_TBEs := (l1_TBEs c)(a \<mapsto> t) \<rparr>"

definition send_request :: "'d request_msg \<Rightarrow> 'd l1_ctl \<Rightarrow> 'd l1_ctl" where
  "send_request m c = c\<lparr> l1_out := l1_out c @ [m] \<rparr>"

definition callback :: "l1_callback \<Rightarrow> 'd l1_ctl \<Rightarrow> 'd l1_ctl" where
  "callback k c = c\<lparr> l1_done := l1_done c @ [k] \<rparr>"

section \<open>Actions\<close>

definition a_issueGETS :: "'d l1_action" where
  "a_issueGETS k a c = do {
     m \<leftarrow> peek_head (l1_mandatory c);
     assert_that (l1_cache c (cm_Address m) \<noteq> None);
     e \<leftarrow> l1_cache c a;
     Some (send_request \<lparr> rq_Address = a, rq_Type = Request_GETS, rq_Requestor = l1_machineID k,
       rq_DataBlk = None, rq_Dirty = False, rq_Space = cm_Space m, rq_RequestSize = DATA_BLOCK_BYTES k,
       rq_deltaRequested = CL_FIXED_LEASE k, rq_pts = l1_pts c, rq_rts = le_rts e,
       rq_memfetch = cm_memfetch m, rq_ExpiredInL1 = (le_have_data e \<and> l1_pts c > le_rts e),
       rq_InL1 = le_have_data e \<rparr> c) }"

definition send_data_fromTBE :: "CoherenceRequestType \<Rightarrow> 'd l1_action" where
  "send_data_fromTBE ty k a c = do {
     m \<leftarrow> peek_head (l1_mandatory c);
     t \<leftarrow> l1_TBEs c a;
     Some (send_request \<lparr> rq_Address = a, rq_Type = ty, rq_Requestor = l1_machineID k,
       rq_DataBlk = lt_DataBlk t, rq_Dirty = True, rq_Space = cm_Space m, rq_RequestSize = cm_Size m,
       rq_deltaRequested = 0, rq_pts = l1_pts c, rq_rts = 0, rq_memfetch = cm_memfetch m,
       rq_ExpiredInL1 = False, rq_InL1 = False \<rparr> c) }"

definition d2t_sendDataToL2_fromTBE :: "'d l1_action" where
  "d2t_sendDataToL2_fromTBE = send_data_fromTBE Request_DATA"

definition d2t_sendAtomicDataToL2_fromTBE :: "'d l1_action" where
  "d2t_sendAtomicDataToL2_fromTBE = send_data_fromTBE Request_DATA_ATOMIC"

definition h_load_hit :: "'d l1_action" where
  "h_load_hit k a c = Some (callback (readCallback a) c)"

text \<open>The actions over a response, from the network and from the delay queue.\<close>

definition store_hit_from :: "('d l1_ctl \<Rightarrow> 'd response_msg list) \<Rightarrow> 'd l1_action" where
  "store_hit_from q k a c = do {
     r \<leftarrow> peek_head (q c);
     Some (callback (writeCallback (rs_Address r) (rs_memfetch r)) c) }"

definition hh_store_hit :: "'d l1_action" where
  "hh_store_hit = store_hit_from l1_responses"

definition hh_delay_store_hit :: "'d l1_action" where
  "hh_delay_store_hit = store_hit_from l1_delayed"

definition updateL1Lifetime_from :: "('d l1_ctl \<Rightarrow> 'd response_msg list) \<Rightarrow> 'd l1_action" where
  "updateL1Lifetime_from q k a c = do {
     r \<leftarrow> peek_head (q c);
     assert_that (l1_cache c (rs_Address r) \<noteq> None);
     e \<leftarrow> l1_cache c a;
     Some (set_l1_entry a (e\<lparr> le_rts := rs_rts r \<rparr>) c) }"

definition tr_updateL1Lifetime :: "'d l1_action" where
  "tr_updateL1Lifetime = updateL1Lifetime_from l1_responses"

definition tr_delay_updateL1Lifetime :: "'d l1_action" where
  "tr_delay_updateL1Lifetime = updateL1Lifetime_from l1_delayed"

definition updateProcessorTimestamp_from :: "('d l1_ctl \<Rightarrow> 'd response_msg list) \<Rightarrow> 'd l1_action" where
  "updateProcessorTimestamp_from q k a c = do {
     r \<leftarrow> peek_head (q c);
     let c' = c\<lparr> l1_pts := getTimeMax (l1_pts c) (rs_wts r) \<rparr>;
     assert_that (l1_pts c' < 4294967295);
     Some c' }"

definition tp_updateProcessorTimestamp :: "'d l1_action" where
  "tp_updateProcessorTimestamp = updateProcessorTimestamp_from l1_responses"

definition tp_delay_updateProcessorTimestamp :: "'d l1_action" where
  "tp_delay_updateProcessorTimestamp = updateProcessorTimestamp_from l1_delayed"

definition writeDataToL1Cache_from :: "('d l1_ctl \<Rightarrow> 'd response_msg list) \<Rightarrow> 'd l1_action" where
  "writeDataToL1Cache_from q k a c = do {
     r \<leftarrow> peek_head (q c);
     assert_that (l1_cache c (rs_Address r) \<noteq> None);
     e \<leftarrow> l1_cache c a;
     Some (set_l1_entry a (e\<lparr> le_DataBlk := rs_DataBlk r \<rparr>) c) }"

definition dd_writeDataToL1Cache :: "'d l1_action" where
  "dd_writeDataToL1Cache = writeDataToL1Cache_from l1_responses"

definition dd_delay_writeDataToL1Cache :: "'d l1_action" where
  "dd_delay_writeDataToL1Cache = writeDataToL1Cache_from l1_delayed"

definition updateL1Lifetime_inTBE_from :: "('d l1_ctl \<Rightarrow> 'd response_msg list) \<Rightarrow> 'd l1_action" where
  "updateL1Lifetime_inTBE_from q k a c = do {
     r \<leftarrow> peek_head (q c);
     assert_that (l1_TBEs c (rs_Address r) \<noteq> None);
     t \<leftarrow> l1_TBEs c a;
     Some (set_l1_tbe a (t\<lparr> lt_rts := rs_rts r \<rparr>) c) }"

definition trt_updateL1Lifetime_inTBE :: "'d l1_action" where
  "trt_updateL1Lifetime_inTBE = updateL1Lifetime_inTBE_from l1_responses"

definition trt_delay_updateL1Lifetime_inTBE :: "'d l1_action" where
  "trt_delay_updateL1Lifetime_inTBE = updateL1Lifetime_inTBE_from l1_delayed"

text \<open>A new transaction buffer, with the defaults of SLICC in the fields that are not assigned.\<close>

definition new_l1_tbe :: "cache_msg \<Rightarrow> 'd l1_tbe" where
  "new_l1_tbe m = \<lparr> lt_TBEState = L1_I, lt_DataBlk = None, lt_isPrefetch = False, lt_Space = cm_Space m,
     lt_ThreadID = cm_ThreadID m, lt_rts = 0, lt_pendingReads = 0, lt_pendingWrites = 0 \<rparr>"

definition l1_i_allocateTBE :: "'d l1_action" where
  "l1_i_allocateTBE k a c = do {
     m \<leftarrow> peek_head (l1_mandatory c);
     assert_that (l1_TBEs c a = None);
     Some (set_l1_tbe a (new_l1_tbe m) c) }"

definition i_allocateTBEwTime :: "'d l1_action" where
  "i_allocateTBEwTime k a c = do {
     m \<leftarrow> peek_head (l1_mandatory c);
     assert_that (l1_TBEs c a = None);
     e \<leftarrow> l1_cache c a;
     Some (set_l1_tbe a ((new_l1_tbe m)\<lparr> lt_rts := le_rts e \<rparr>) c) }"

definition k_popMandatoryQueue :: "'d l1_action" where
  "k_popMandatoryQueue k a c = do {
     _ \<leftarrow> peek_head (l1_mandatory c);
     Some (c\<lparr> l1_mandatory := tl (l1_mandatory c) \<rparr>) }"

definition l1_o_popIncomingResponseQueue :: "'d l1_action" where
  "l1_o_popIncomingResponseQueue k a c = do {
     r \<leftarrow> peek_head (l1_responses c);
     assert_that (rs_Type r \<in> {Response_DATA, Response_ACK, Response_DATA_ATOMIC});
     Some (c\<lparr> l1_responses := tl (l1_responses c) \<rparr>) }"

definition o_popDelayQueue :: "'d l1_action" where
  "o_popDelayQueue k a c = do {
     _ \<leftarrow> peek_head (l1_delayed c);
     Some (c\<lparr> l1_delayed := tl (l1_delayed c) \<rparr>) }"

definition l1_s_deallocateTBE :: "'d l1_action" where
  "l1_s_deallocateTBE k a c = do {
     t \<leftarrow> l1_TBEs c a;
     assert_that (lt_pendingReads t = 0);
     assert_that (lt_pendingWrites t = 0);
     Some (c\<lparr> l1_TBEs := (l1_TBEs c)(a := None) \<rparr>) }"

definition ff_deallocateL1CacheBlock :: "'d l1_action" where
  "ff_deallocateL1CacheBlock k a c = do {
     _ \<leftarrow> l1_cache c a;
     Some (c\<lparr> l1_cache := (l1_cache c)(a := None) \<rparr>) }"

definition oo_allocateL1DCacheBlock :: "'d l1_action" where
  "oo_allocateL1DCacheBlock k a c = do {
     m \<leftarrow> peek_head (l1_mandatory c);
     Some (if l1_cache c (cm_Address m) = None
       then set_l1_entry (cm_Address m) \<lparr> le_CacheState = L1_I, le_DataBlk = None, le_rts = 0,
              le_have_data = False \<rparr> c
       else c) }"

definition add_pending :: "int \<Rightarrow> int \<Rightarrow> 'd l1_action" where
  "add_pending dr dw k a c = do {
     t \<leftarrow> l1_TBEs c a;
     let t' = t\<lparr> lt_pendingReads := lt_pendingReads t + dr, lt_pendingWrites := lt_pendingWrites t + dw \<rparr>;
     assert_that (dr < 0 \<longrightarrow> lt_pendingReads t' \<ge> 0);
     assert_that (dw < 0 \<longrightarrow> lt_pendingWrites t' \<ge> 0);
     Some (set_l1_tbe a t' c) }"

definition pr_incPendingRead :: "'d l1_action" where "pr_incPendingRead = add_pending 1 0"

definition pw_incPendingWrite :: "'d l1_action" where "pw_incPendingWrite = add_pending 0 1"

definition pr_decPendingRead :: "'d l1_action" where "pr_decPendingRead = add_pending (-1) 0"

definition pw_decPendingWrite :: "'d l1_action" where "pw_decPendingWrite = add_pending 0 (-1)"

definition mhd_markHaveData :: "'d l1_action" where
  "mhd_markHaveData k a c = do { e \<leftarrow> l1_cache c a; Some (set_l1_entry a (e\<lparr> le_have_data := True \<rparr>) c) }"

text \<open>The delay queue is ordered by \<open>reply_wts\<close>.\<close>

definition insert_by_wts :: "'d response_msg \<Rightarrow> 'd response_msg list \<Rightarrow> 'd response_msg list" where
  "insert_by_wts r q = takeWhile (\<lambda>x. rs_wts x \<le> rs_wts r) q @ r # dropWhile (\<lambda>x. rs_wts x \<le> rs_wts r) q"

definition idq_insertDelayQueue :: "'d l1_action" where
  "idq_insertDelayQueue k a c = do {
     r \<leftarrow> peek_head (l1_responses c);
     Some (c\<lparr> l1_delayed := insert_by_wts r (l1_delayed c) \<rparr>) }"

section \<open>Transitions\<close>

text \<open>The actions that handle a response, by the queue it comes from.\<close>

record 'd l1_source =
  src_write_data :: "'d l1_action"
  src_lifetime :: "'d l1_action"
  src_lifetime_tbe :: "'d l1_action"
  src_pts :: "'d l1_action"
  src_store_hit :: "'d l1_action"
  src_pop :: "'d l1_action"

definition from_network :: "'d l1_source" where
  "from_network = \<lparr> src_write_data = dd_writeDataToL1Cache, src_lifetime = tr_updateL1Lifetime,
     src_lifetime_tbe = trt_updateL1Lifetime_inTBE, src_pts = tp_updateProcessorTimestamp,
     src_store_hit = hh_store_hit, src_pop = l1_o_popIncomingResponseQueue \<rparr>"

definition from_delay_queue :: "'d l1_source" where
  "from_delay_queue = \<lparr> src_write_data = dd_delay_writeDataToL1Cache, src_lifetime = tr_delay_updateL1Lifetime,
     src_lifetime_tbe = trt_delay_updateL1Lifetime_inTBE, src_pts = tp_delay_updateProcessorTimestamp,
     src_store_hit = hh_delay_store_hit, src_pop = o_popDelayQueue \<rparr>"

text \<open>The kinds of response, and the transitions on them.\<close>

datatype l1_reply = R_Data | R_Data_Done | R_Write | R_Write_Done

fun l1_reply_transition :: "'d l1_source \<Rightarrow> L1Cache_State \<Rightarrow> l1_reply \<Rightarrow> ('d l1_action list \<times> L1Cache_State) option" where
  "l1_reply_transition q L1_I_S R_Data_Done = Some ([pr_decPendingRead, src_write_data q, src_lifetime q,
     mhd_markHaveData, src_pts q, h_load_hit, l1_s_deallocateTBE, src_pop q], L1_S)"
| "l1_reply_transition q L1_I_I R_Data = Some ([pr_decPendingRead, src_lifetime_tbe q, src_lifetime q,
     mhd_markHaveData, src_pts q, h_load_hit, src_pop q], L1_SM)"
| "l1_reply_transition q L1_SM R_Data = Some ([pr_decPendingRead, src_lifetime_tbe q, src_lifetime q,
     mhd_markHaveData, src_pts q, h_load_hit, src_pop q], L1_SM)"
| "l1_reply_transition q L1_I_I R_Data_Done = Some ([pr_decPendingRead, src_lifetime q, mhd_markHaveData,
     src_pts q, h_load_hit, l1_s_deallocateTBE, src_pop q], L1_S)"
| "l1_reply_transition q L1_SM R_Data_Done = Some ([pr_decPendingRead, src_lifetime q, mhd_markHaveData,
     src_pts q, h_load_hit, l1_s_deallocateTBE, src_pop q], L1_S)"
| "l1_reply_transition q L1_I_I R_Write = Some ([pw_decPendingWrite, src_pts q, src_store_hit q, src_pop q], L1_I_I)"
| "l1_reply_transition q L1_SM R_Write = Some ([pw_decPendingWrite, src_pts q, src_store_hit q, src_pop q], L1_I_I)"
| "l1_reply_transition q L1_I_I R_Write_Done = Some ([pw_decPendingWrite, src_pts q, src_store_hit q,
     l1_s_deallocateTBE, src_pop q], L1_I)"
| "l1_reply_transition q L1_SM R_Write_Done = Some ([pw_decPendingWrite, src_pts q, src_store_hit q,
     l1_s_deallocateTBE, src_pop q], L1_I)"
| "l1_reply_transition _ _ _ = None"

text \<open>The transition table.  \<open>L1_stall\<close> is \<open>z_stall\<close>: the event is tried again and no state is set.\<close>

datatype 'd l1_move = L1_stall | L1_move "'d l1_action list" L1Cache_State

definition l1_on_reply :: "'d l1_source \<Rightarrow> L1Cache_State \<Rightarrow> l1_reply \<Rightarrow> 'd l1_move option" where
  "l1_on_reply q s r = map_option (\<lambda>(acts, next). L1_move acts next) (l1_reply_transition q s r)"

fun l1_transition :: "L1Cache_State \<Rightarrow> L1Cache_Event \<Rightarrow> 'd l1_move option" where
  "l1_transition L1_I Load = Some (L1_move [oo_allocateL1DCacheBlock, l1_i_allocateTBE, pr_incPendingRead,
     a_issueGETS, k_popMandatoryQueue] L1_I_S)"
| "l1_transition L1_I L1_WThru = Some (L1_move [l1_i_allocateTBE, pw_incPendingWrite,
     d2t_sendDataToL2_fromTBE, k_popMandatoryQueue] L1_I_I)"
| "l1_transition L1_I L1_Atomic = Some (L1_move [l1_i_allocateTBE, pw_incPendingWrite,
     d2t_sendAtomicDataToL2_fromTBE, k_popMandatoryQueue] L1_I_I)"
| "l1_transition L1_I L1_Replacement = Some (L1_move [ff_deallocateL1CacheBlock] L1_I)"
| "l1_transition L1_S Load = Some (L1_move [h_load_hit, k_popMandatoryQueue] L1_S)"
| "l1_transition L1_S L1_WThru = Some (L1_move [i_allocateTBEwTime, pw_incPendingWrite,
     d2t_sendDataToL2_fromTBE, k_popMandatoryQueue] L1_SM)"
| "l1_transition L1_S L1_Atomic = Some (L1_move [i_allocateTBEwTime, pw_incPendingWrite,
     d2t_sendAtomicDataToL2_fromTBE, k_popMandatoryQueue] L1_SM)"
| "l1_transition L1_S L1_Replacement = Some (L1_move [ff_deallocateL1CacheBlock] L1_I)"
| "l1_transition L1_I_S L1_WThru = Some (L1_move [pw_incPendingWrite, d2t_sendDataToL2_fromTBE,
     k_popMandatoryQueue] L1_I_I)"
| "l1_transition L1_I_S L1_Atomic = Some (L1_move [pw_incPendingWrite, d2t_sendAtomicDataToL2_fromTBE,
     k_popMandatoryQueue] L1_I_I)"
| "l1_transition L1_I_S L1_Replacement = Some L1_stall"
| "l1_transition L1_I_I L1_Replacement = Some L1_stall"
| "l1_transition L1_SM L1_Replacement = Some L1_stall"
| "l1_transition L1_I_I Load = Some (L1_move [pr_incPendingRead, oo_allocateL1DCacheBlock, a_issueGETS,
     k_popMandatoryQueue] L1_I_I)"
| "l1_transition L1_I_I L1_WThru = Some (L1_move [pw_incPendingWrite, d2t_sendDataToL2_fromTBE,
     k_popMandatoryQueue] L1_I_I)"
| "l1_transition L1_I_I L1_Atomic = Some (L1_move [pw_incPendingWrite, d2t_sendAtomicDataToL2_fromTBE,
     k_popMandatoryQueue] L1_I_I)"
| "l1_transition L1_SM Load = Some (L1_move [h_load_hit, k_popMandatoryQueue] L1_SM)"
| "l1_transition L1_SM L1_WThru = Some (L1_move [pw_incPendingWrite, d2t_sendDataToL2_fromTBE,
     k_popMandatoryQueue] L1_SM)"
| "l1_transition L1_SM L1_Atomic = Some (L1_move [pw_incPendingWrite, d2t_sendAtomicDataToL2_fromTBE,
     k_popMandatoryQueue] L1_SM)"
| "l1_transition s Delay = (if s \<in> {L1_I_I, L1_I_S, L1_SM}
     then Some (L1_move [idq_insertDelayQueue, l1_o_popIncomingResponseQueue] s) else None)"
| "l1_transition s Data = l1_on_reply from_network s R_Data"
| "l1_transition s Data_Done = l1_on_reply from_network s R_Data_Done"
| "l1_transition s Ack = l1_on_reply from_network s R_Write"
| "l1_transition s Ack_Done = l1_on_reply from_network s R_Write_Done"
| "l1_transition s DataAtomic = l1_on_reply from_network s R_Write"
| "l1_transition s DataAtomic_Done = l1_on_reply from_network s R_Write_Done"
| "l1_transition s Delay_Data = l1_on_reply from_delay_queue s R_Data"
| "l1_transition s Delay_Data_Done = l1_on_reply from_delay_queue s R_Data_Done"
| "l1_transition s Delay_Ack = l1_on_reply from_delay_queue s R_Write"
| "l1_transition s Delay_Ack_Done = l1_on_reply from_delay_queue s R_Write_Done"
| "l1_transition s Delay_DataAtomic = l1_on_reply from_delay_queue s R_Write"
| "l1_transition s Delay_DataAtomic_Done = l1_on_reply from_delay_queue s R_Write_Done"
| "l1_transition _ _ = None"

definition l1_trigger :: "L1Cache_Event \<Rightarrow> 'd l1_action" where
  "l1_trigger ev k a c = (case l1_transition (l1_getState a c) ev of
       None \<Rightarrow> None
     | Some L1_stall \<Rightarrow> Some c
     | Some (L1_move actions next_state) \<Rightarrow> do {
         c' \<leftarrow> run_all (\<lambda>act. act k a) actions c;
         Some (l1_setState a next_state c') })"

section \<open>Ports\<close>

definition reply_event :: "bool \<Rightarrow> 'd response_msg \<Rightarrow> 'd l1_ctl \<Rightarrow> L1Cache_Event option" where
  "reply_event delayed r c = do {
     t \<leftarrow> l1_TBEs c (rs_Address r);
     (case rs_Type r of
        Response_DATA \<Rightarrow> do {
          assert_that (lt_pendingReads t = 1);
          Some (if lt_pendingWrites t > 0 then (if delayed then Delay_Data else Data)
                else (if delayed then Delay_Data_Done else Data_Done)) }
      | Response_DATA_ATOMIC \<Rightarrow> do {
          assert_that (lt_pendingWrites t > 0);
          Some (if lt_pendingReads t > 0 \<or> lt_pendingWrites t > 1 then (if delayed then Delay_DataAtomic else DataAtomic)
                else (if delayed then Delay_DataAtomic_Done else DataAtomic_Done)) }
      | Response_ACK \<Rightarrow> do {
          assert_that (lt_pendingWrites t > 0);
          Some (if lt_pendingReads t > 0 \<or> lt_pendingWrites t > 1 then (if delayed then Delay_Ack else Ack)
                else (if delayed then Delay_Ack_Done else Ack_Done)) }
      | _ \<Rightarrow> None) }"

text \<open>The port of the delay queue: \<open>slots\<close> says that the count of its transitions in this cycle is below
  the limit, \<open>stalled\<close> that the scheduler of the core is stalled.\<close>

definition l1_delay_port :: "bool \<Rightarrow> bool \<Rightarrow> l1_config \<Rightarrow> 'd l1_ctl \<Rightarrow> 'd l1_ctl option" where
  "l1_delay_port slots stalled k c = (case peek_head (l1_delayed c) of None \<Rightarrow> Some c
     | Some r \<Rightarrow> if \<not> slots then Some c else do {
         assert_that (DELAY_QUEUE_ENABLED k);
         assert_that (l1_machineID k \<in> rs_Destination r);
         (if stalled then do {
            ev \<leftarrow> reply_event True r c;
            l1_trigger ev k (rs_Address r) c }
          else Some c) })"

definition l1_response_port :: "l1_config \<Rightarrow> 'd l1_ctl \<Rightarrow> 'd l1_ctl option" where
  "l1_response_port k c = (case peek_head (l1_responses c) of None \<Rightarrow> Some c
     | Some r \<Rightarrow> do {
         assert_that (l1_machineID k \<in> rs_Destination r);
         (if DELAY_QUEUE_ENABLED k \<and> rs_wts r - l1_pts c > DELAY_QUEUE_THRESHOLD k
          then l1_trigger Delay k (rs_Address r) c
          else do {
            ev \<leftarrow> reply_event False r c;
            l1_trigger ev k (rs_Address r) c }) })"

definition l1_mandatory_port ::
    "(physical_address_t \<Rightarrow> 'd l1_ctl \<Rightarrow> bool) \<Rightarrow> (physical_address_t \<Rightarrow> 'd l1_ctl \<Rightarrow> physical_address_t) \<Rightarrow>
     l1_config \<Rightarrow> 'd l1_ctl \<Rightarrow> 'd l1_ctl option" where
  "l1_mandatory_port cacheAvail cacheProbe k c = (case peek_head (l1_mandatory c) of None \<Rightarrow> Some c
     | Some m \<Rightarrow>
         if cm_Type m = CR_ST \<or> l1_cache c (cm_Address m) \<noteq> None \<or> cacheAvail (cm_Address m) c
         then do {
           ev \<leftarrow> mandatory_request_type_to_event (cm_Type m);
           l1_trigger ev k (cm_Address m) c }
         else l1_trigger L1_Replacement k (cacheProbe (cm_Address m) c) c)"

section \<open>Leases of a cache\<close>

text \<open>A read timestamp \<open>t\<close> comes from a lease: it is the end of a lease in \<open>H\<close> whose write timestamp the processor,
  at the time \<open>p\<close>, has reached.\<close>

definition leased :: "'d response_msg set \<Rightarrow> Time \<Rightarrow> physical_address_t \<Rightarrow> Time \<Rightarrow> bool" where
  "leased H p a t \<longleftrightarrow> (\<exists>q\<in>H. is_lease a q \<and> rs_rts q = t \<and> rs_wts q \<le> p)"

lemma leased_mono: "H \<subseteq> H' \<Longrightarrow> p \<le> p' \<Longrightarrow> leased H p a t \<Longrightarrow> leased H' p' a t"
  by (force simp: leased_def)

definition l1_line_ok :: "'d response_msg set \<Rightarrow> physical_address_t \<Rightarrow> 'd l1_ctl \<Rightarrow> bool" where
  "l1_line_ok H a c \<longleftrightarrow>
     (case l1_TBEs c a of None \<Rightarrow> True
      | Some t \<Rightarrow> lt_TBEState t \<in> {L1_I_S, L1_I_I, L1_SM} \<and> (lt_TBEState t = L1_SM \<longrightarrow> leased H (l1_pts c) a (lt_rts t))) \<and>
     (case l1_cache c a of None \<Rightarrow> True
      | Some e \<Rightarrow> (le_CacheState e = L1_S \<longrightarrow> leased H (l1_pts c) a (le_rts e)) \<and>
          (l1_TBEs c a = None \<longrightarrow> le_CacheState e \<in> {L1_I, L1_S}))"

definition l1_keeps :: "'d response_msg set \<Rightarrow> physical_address_t \<Rightarrow> 'd l1_ctl \<Rightarrow> 'd l1_ctl \<Rightarrow> bool" where
  "l1_keeps H a c c' \<longleftrightarrow> (\<forall>x. x \<noteq> a \<longrightarrow> l1_cache c' x = l1_cache c x \<and> l1_TBEs c' x = l1_TBEs c x) \<and>
     l1_line_ok H a c' \<and> l1_pts c \<le> l1_pts c' \<and> set (l1_responses c') \<subseteq> set (l1_responses c) \<and>
     set (l1_delayed c') \<subseteq> set (l1_delayed c) \<union> set (l1_responses c)"

lemma set_insert_by_wts [simp]: "set (insert_by_wts r q) = insert r (set q)"
proof -
  have "set q = set (takeWhile (\<lambda>x. rs_wts x \<le> rs_wts r) q @ dropWhile (\<lambda>x. rs_wts x \<le> rs_wts r) q)"
    by (simp only: takeWhile_dropWhile_id)
  then show ?thesis by (auto simp: insert_by_wts_def simp del: takeWhile_dropWhile_id)
qed

lemmas l1_actions = a_issueGETS_def send_data_fromTBE_def d2t_sendDataToL2_fromTBE_def
  d2t_sendAtomicDataToL2_fromTBE_def h_load_hit_def store_hit_from_def hh_store_hit_def hh_delay_store_hit_def
  updateL1Lifetime_from_def tr_updateL1Lifetime_def tr_delay_updateL1Lifetime_def
  updateProcessorTimestamp_from_def tp_updateProcessorTimestamp_def tp_delay_updateProcessorTimestamp_def
  writeDataToL1Cache_from_def dd_writeDataToL1Cache_def dd_delay_writeDataToL1Cache_def
  updateL1Lifetime_inTBE_from_def trt_updateL1Lifetime_inTBE_def trt_delay_updateL1Lifetime_inTBE_def
  new_l1_tbe_def l1_i_allocateTBE_def i_allocateTBEwTime_def k_popMandatoryQueue_def
  l1_o_popIncomingResponseQueue_def o_popDelayQueue_def l1_s_deallocateTBE_def ff_deallocateL1CacheBlock_def
  oo_allocateL1DCacheBlock_def add_pending_def pr_incPendingRead_def pw_incPendingWrite_def
  pr_decPendingRead_def pw_decPendingWrite_def mhd_markHaveData_def idq_insertDelayQueue_def
  from_network_def from_delay_queue_def l1_on_reply_def

lemmas l1_run = l1_trigger_def l1_actions peek_head_def set_l1_entry_def set_l1_tbe_def send_request_def
  callback_def l1_setState_def Let_def

lemmas l1_line = l1_keeps_def l1_line_ok_def

lemma getState_SM: "l1_getState a c = L1_SM \<Longrightarrow> l1_TBEs c a = Some t \<Longrightarrow> lt_TBEState t = L1_SM"
  by (auto simp: l1_getState_def split: if_splits)

lemma getState_S: "l1_getState a c = L1_S \<Longrightarrow> l1_line_ok H a c \<Longrightarrow>
   l1_TBEs c a = None \<and> (\<exists>e. l1_cache c a = Some e \<and> le_CacheState e = L1_S \<and> leased H (l1_pts c) a (le_rts e))"
  by (auto simp: l1_getState_def l1_line_ok_def split: if_splits option.splits)

lemma getState_busy: "l1_getState a c \<in> {L1_I_S, L1_I_I, L1_SM} \<Longrightarrow> l1_line_ok H a c \<Longrightarrow> \<exists>t. l1_TBEs c a = Some t"
  by (auto simp: l1_getState_def l1_line_ok_def split: if_splits option.splits)

lemma l1_line_mono:
  assumes "l1_line_ok H a c" "l1_cache c' a = l1_cache c a" "l1_TBEs c' a = l1_TBEs c a" "l1_pts c \<le> l1_pts c'" "H \<subseteq> H'"
  shows "l1_line_ok H' a c'"
  using assms(1) leased_mono [OF assms(5,4)] unfolding l1_line_ok_def assms(2,3)
  by (cases "l1_TBEs c a"; cases "l1_cache c a") auto

lemma mandatory_keeps:
  assumes line: "l1_line_ok H a c" and msg: "l1_mandatory c = m # ms" "cm_Address m = a"
    and ev: "ev \<in> {Load, L1_WThru, L1_Atomic}" and run: "l1_trigger ev k a c = Some c'"
  shows "l1_keeps H a c c'"
proof (cases "l1_getState a c")
  case L1_I
  then show ?thesis using assms
    by (cases "l1_cache c a"; cases "l1_TBEs c a") (auto simp: l1_run l1_line abort_simps)
next
  case L1_S
  note S = getState_S [OF L1_S line]
  then show ?thesis using L1_S msg ev run by (auto simp: l1_run l1_line abort_simps)
next
  case L1_I_S
  then show ?thesis using assms
    by (cases "l1_cache c a"; cases "l1_TBEs c a") (auto simp: l1_run l1_line abort_simps)
next
  case L1_I_I
  then show ?thesis using assms
    by (cases "l1_cache c a"; cases "l1_TBEs c a") (auto simp: l1_run l1_line abort_simps)
next
  case L1_SM
  obtain t where "l1_TBEs c a = Some t" using getState_busy [OF _ line] L1_SM by blast
  then show ?thesis using L1_SM assms getState_SM [OF L1_SM]
    by (cases "l1_cache c a") (auto simp: l1_run l1_line abort_simps)
qed

lemma getState_idle: "l1_getState a c \<in> {L1_I, L1_S} \<Longrightarrow> l1_line_ok H a c \<Longrightarrow> l1_TBEs c a = None"
  by (auto simp: l1_getState_def l1_line_ok_def split: if_splits option.splits)

lemma l1_keeps_refl: "l1_line_ok H a c \<Longrightarrow> l1_keeps H a c c"
  by (simp add: l1_keeps_def)

lemma replacement_keeps:
  assumes line: "l1_line_ok H a c" and run: "l1_trigger L1_Replacement k a c = Some c'"
  shows "l1_keeps H a c c'"
proof (cases "l1_getState a c \<in> {L1_I, L1_S}")
  case True
  then show ?thesis using run getState_idle [OF True line] line
    by (cases "l1_cache c a") (auto simp: l1_run l1_line abort_simps)
next
  case False
  then have "c' = c" using run by (cases "l1_getState a c") (auto simp: l1_trigger_def)
  then show ?thesis using l1_keeps_refl [OF line] by simp
qed

lemma delay_keeps:
  assumes line: "l1_line_ok H a c" and run: "l1_trigger Delay k a c = Some c'"
  shows "l1_keeps H a c c'"
proof -
  let ?s = "l1_getState a c"
  have s: "?s \<in> {L1_I_I, L1_I_S, L1_SM}"
    using run by (cases ?s) (auto simp: l1_trigger_def l1_on_reply_def)
  then obtain r rs where r: "l1_responses c = r # rs"
    using run by (cases "l1_responses c"; cases ?s) (auto simp: l1_trigger_def idq_insertDelayQueue_def peek_head_def)
  have c': "c' = l1_setState a ?s (c\<lparr> l1_delayed := insert_by_wts r (l1_delayed c), l1_responses := rs \<rparr>)"
    using run s r by (cases ?s) (auto simp: l1_run)
  have "l1_TBEs c a = Some t \<Longrightarrow> lt_TBEState t = L1_SM" if "?s = L1_SM" for t by (rule getState_SM [OF that])
  moreover obtain t where "l1_TBEs c a = Some t" using getState_busy [OF _ line] s by blast
  ultimately show ?thesis using s line r unfolding c'
    by (cases "l1_cache c a") (auto simp: l1_line l1_setState_def)
qed

definition source_head :: "'d l1_source \<Rightarrow> 'd response_msg \<Rightarrow> 'd l1_ctl \<Rightarrow> bool" where
  "source_head q r c \<longleftrightarrow> q = from_network \<and> peek_head (l1_responses c) = Some r \<or>
     q = from_delay_queue \<and> peek_head (l1_delayed c) = Some r"

lemma source_cases:
  assumes "source_head q r c"
  obtains (network) rs where "q = from_network" "l1_responses c = r # rs"
    | (delayed) rs where "q = from_delay_queue" "l1_delayed c = r # rs"
  using assms by (auto simp: source_head_def peek_head_def split: list.splits)

text \<open>What no action on a response changes.\<close>

definition l1_frame :: "physical_address_t \<Rightarrow> 'd l1_ctl \<Rightarrow> 'd l1_ctl \<Rightarrow> bool" where
  "l1_frame a c c' \<longleftrightarrow> (\<forall>x. x \<noteq> a \<longrightarrow> l1_cache c' x = l1_cache c x \<and> l1_TBEs c' x = l1_TBEs c x) \<and>
     l1_pts c \<le> l1_pts c' \<and> set (l1_responses c') \<subseteq> set (l1_responses c) \<and>
     set (l1_delayed c') \<subseteq> set (l1_delayed c)"

lemma set_tl_le: "x \<in> set (tl xs) \<Longrightarrow> x \<in> set xs"
  by (cases xs) auto

lemma frame_reply_action:
  assumes "act \<in> {pr_decPendingRead, pw_decPendingWrite, mhd_markHaveData, h_load_hit, l1_s_deallocateTBE,
      src_write_data q, src_lifetime q, src_lifetime_tbe q, src_pts q, src_store_hit q, src_pop q}"
    "q \<in> {from_network, from_delay_queue}" "act k a c = Some c'"
  shows "l1_frame a c c'"
  using assms by (auto simp: l1_run l1_frame_def abort_simps set_tl_le split: if_splits)

lemma frame_trans: "l1_frame a c c' \<Longrightarrow> l1_frame a c' c'' \<Longrightarrow> l1_frame a c c''"
  unfolding l1_frame_def by auto

lemma frame_run_all:
  assumes "\<And>act c c'. act \<in> set acts \<Longrightarrow> act k a c = Some c' \<Longrightarrow> l1_frame a c c'"
    "run_all (\<lambda>act. act k a) acts c = Some c'"
  shows "l1_frame a c c'"
proof (rule run_all_invariant [where P = "l1_frame a c", OF _ _ assms(2)])
  show "l1_frame a c c" by (simp add: l1_frame_def)
qed (use assms(1) frame_trans in blast)

lemma reply_actions:
  assumes "l1_reply_transition q st kind = Some (acts, next)"
  shows "set acts \<subseteq> {pr_decPendingRead, pw_decPendingWrite, mhd_markHaveData, h_load_hit, l1_s_deallocateTBE,
      src_write_data q, src_lifetime q, src_lifetime_tbe q, src_pts q, src_store_hit q, src_pop q}"
  using assms by (cases st; cases kind) auto

lemma reply_frame:
  assumes "l1_reply_transition q st kind = Some (acts, next)" "q \<in> {from_network, from_delay_queue}"
    "run_all (\<lambda>act. act k a) acts c = Some c'"
  shows "l1_frame a c c'"
proof (rule frame_run_all [OF _ assms(3)])
  fix act c c' assume "act \<in> set acts" "act k a c = Some c'"
  then show "l1_frame a c c'"
    using frame_reply_action [OF subsetD [OF reply_actions [OF assms(1)]] assms(2)] by simp
qed

lemma data_reply:
  assumes src: "source_head q r c" and tr: "l1_reply_transition q st R_Data = Some (acts, next)"
    and run: "run_all (\<lambda>act. act k a) acts c = Some c0"
  shows "next = L1_SM \<and> rs_wts r \<le> l1_pts c0 \<and> (\<exists>t. l1_TBEs c0 a = Some t \<and> lt_rts t = rs_rts r)"
proof -
  have "st \<in> {L1_I_I, L1_SM}" using tr by (cases st) auto
  then have acts: "acts = [pr_decPendingRead, src_lifetime_tbe q, src_lifetime q, mhd_markHaveData, src_pts q,
      h_load_hit, src_pop q]" "next = L1_SM" using tr by auto
  obtain t e where te: "l1_TBEs c a = Some t" "l1_cache c a = Some e"
    using run src unfolding acts
    by (cases "l1_TBEs c a"; cases "l1_cache c a") (auto simp: l1_run bind_Some_iff source_head_def split: list.splits)
  show ?thesis
    using src by (cases rule: source_cases; use run te acts(2) in \<open>auto simp: acts(1) l1_run abort_simps\<close>)
qed

lemma data_done_reply:
  assumes src: "source_head q r c" and tr: "l1_reply_transition q st R_Data_Done = Some (acts, next)"
    and run: "run_all (\<lambda>act. act k a) acts c = Some c0"
  shows "next = L1_S \<and> rs_wts r \<le> l1_pts c0 \<and> l1_TBEs c0 a = None \<and> (\<exists>e. l1_cache c0 a = Some e \<and> le_rts e = rs_rts r)"
proof -
  obtain pre where acts: "acts = pr_decPendingRead # pre @ [src_lifetime q, mhd_markHaveData, src_pts q,
      h_load_hit, l1_s_deallocateTBE, src_pop q]" "pre = [] \<or> pre = [src_write_data q]" and nx: "next = L1_S"
    using tr by (cases st) auto
  obtain t e where te: "l1_TBEs c a = Some t" "l1_cache c a = Some e"
    using run src acts(2) unfolding acts(1)
    by (cases "l1_TBEs c a"; cases "l1_cache c a") (auto simp: l1_run bind_Some_iff source_head_def split: list.splits)
  from acts(2) show ?thesis
  proof
    assume pre: "pre = []"
    show ?thesis using src
      by (cases rule: source_cases; use run te nx in \<open>auto simp: acts(1) pre l1_run abort_simps\<close>)
  next
    assume pre: "pre = [src_write_data q]"
    show ?thesis using src
      by (cases rule: source_cases; use run te nx in \<open>auto simp: acts(1) pre l1_run abort_simps\<close>)
  qed
qed

lemma write_done_reply:
  assumes src: "source_head q r c" and tr: "l1_reply_transition q st R_Write_Done = Some (acts, next)"
    and run: "run_all (\<lambda>act. act k a) acts c = Some c0"
  shows "next = L1_I \<and> l1_TBEs c0 a = None"
proof -
  have acts: "acts = [pw_decPendingWrite, src_pts q, src_store_hit q, l1_s_deallocateTBE, src_pop q]" "next = L1_I"
    using tr by (cases st; auto)+
  obtain t where t: "l1_TBEs c a = Some t"
    using run unfolding acts by (cases "l1_TBEs c a") (auto simp: l1_run)
  show ?thesis using src
    by (cases rule: source_cases; use run t acts(2) in \<open>auto simp: acts(1) l1_run abort_simps\<close>)
qed

lemma write_reply:
  assumes src: "source_head q r c" and tr: "l1_reply_transition q st R_Write = Some (acts, next)"
    and run: "run_all (\<lambda>act. act k a) acts c = Some c0"
  shows "next = L1_I_I \<and> (\<exists>t. l1_TBEs c0 a = Some t)"
proof -
  have acts: "acts = [pw_decPendingWrite, src_pts q, src_store_hit q, src_pop q]" "next = L1_I_I"
    using tr by (cases st; auto)+
  obtain t where t: "l1_TBEs c a = Some t"
    using run unfolding acts by (cases "l1_TBEs c a") (auto simp: l1_run)
  show ?thesis using src
    by (cases rule: source_cases; use run t acts(2) in \<open>auto simp: acts(1) l1_run abort_simps\<close>)
qed

lemma setState_keeps:
  assumes "l1_frame a c c0" "l1_line_ok H a (l1_setState a next c0)"
  shows "l1_keeps H a c (l1_setState a next c0)"
  using assms unfolding l1_keeps_def l1_frame_def
  by (auto simp: l1_setState_def split: option.splits)

lemma reply_keeps:
  assumes src: "source_head q r c" and lease: "kind \<in> {R_Data, R_Data_Done} \<Longrightarrow> r \<in> H \<and> is_lease a r"
    and tr: "l1_reply_transition q st kind = Some (acts, next)"
    and run: "run_all (\<lambda>act. act k a) acts c = Some c0"
  shows "l1_keeps H a c (l1_setState a next c0)"
proof (rule setState_keeps)
  have "q \<in> {from_network, from_delay_queue}" using src by (auto simp: source_head_def)
  from reply_frame [OF tr this run] show "l1_frame a c c0" .
  show "l1_line_ok H a (l1_setState a next c0)"
  proof (cases kind)
    case R_Data
    from data_reply [OF src tr [unfolded R_Data] run] show ?thesis
      using lease R_Data by (auto simp: l1_line_ok_def l1_setState_def leased_def split: option.split)
  next
    case R_Data_Done
    from data_done_reply [OF src tr [unfolded R_Data_Done] run] show ?thesis
      using lease R_Data_Done by (auto simp: l1_line_ok_def l1_setState_def leased_def split: option.split)
  next
    case R_Write_Done
    from write_done_reply [OF src tr [unfolded R_Write_Done] run] show ?thesis
      by (auto simp: l1_line_ok_def l1_setState_def split: option.split)
  next
    case R_Write
    from write_reply [OF src tr [unfolded R_Write] run] show ?thesis by (auto simp: l1_line_ok_def l1_setState_def split: option.split)
  qed
qed

definition l1_ok :: "'d response_msg set \<Rightarrow> 'd l1_ctl \<Rightarrow> bool" where
  "l1_ok H c \<longleftrightarrow> (\<forall>a. l1_line_ok H a c) \<and> set (l1_responses c) \<subseteq> H \<and> set (l1_delayed c) \<subseteq> H"

lemma keeps_ok:
  assumes "l1_ok H c" "l1_keeps H a c c'"
  shows "l1_ok H c'" "l1_pts c \<le> l1_pts c'"
proof -
  have "l1_line_ok H x c'" for x
  proof (cases "x = a")
    case False
    then have "l1_cache c' x = l1_cache c x" "l1_TBEs c' x = l1_TBEs c x" "l1_pts c \<le> l1_pts c'"
      using assms(2) unfolding l1_keeps_def by blast+
    then show ?thesis using assms(1) l1_line_mono [of H x c c' H] by (simp add: l1_ok_def)
  qed (use assms(2) in \<open>simp add: l1_keeps_def\<close>)
  then show "l1_ok H c'" using assms unfolding l1_ok_def l1_keeps_def by blast
  show "l1_pts c \<le> l1_pts c'" using assms by (simp add: l1_keeps_def)
qed

lemma reply_event_kind:
  fixes c :: "'d l1_ctl"
  assumes "reply_event d r c = Some ev"
  shows "\<exists>kind. (\<forall>s. (l1_transition s ev :: 'd l1_move option) = l1_on_reply (if d then from_delay_queue else from_network) s kind) \<and>
    (kind \<in> {R_Data, R_Data_Done} \<longrightarrow> rs_Type r = Response_DATA)" (is "\<exists>kind. ?P kind")
proof -
  have "rs_Type r = Response_DATA \<and> ev \<in> (if d then {Delay_Data, Delay_Data_Done} else {Data, Data_Done}) \<or>
    ev \<in> (if d then {Delay_Ack, Delay_Ack_Done, Delay_DataAtomic, Delay_DataAtomic_Done}
      else {Ack, Ack_Done, DataAtomic, DataAtomic_Done})"
    using assms by (cases "rs_Type r") (auto simp: reply_event_def bind_Some_iff split: if_splits)
  moreover have "\<exists>kind. ?P kind" if "?P R_Data \<or> ?P R_Data_Done \<or> ?P R_Write \<or> ?P R_Write_Done"
    using that by blast
  ultimately show ?thesis by (cases d) auto
qed

lemma reply_trigger_keeps:
  fixes c :: "'d l1_ctl"
  assumes ev: "reply_event d r c = Some ev" and run: "l1_trigger ev k (rs_Address r) c = Some c'"
    and src: "source_head (if d then from_delay_queue else from_network) r c" and hist: "r \<in> H"
  shows "l1_keeps H (rs_Address r) c c'"
proof -
  obtain kind where kind: "\<And>s. (l1_transition s ev :: 'd l1_move option) = l1_on_reply (if d then from_delay_queue else from_network) s kind"
    "kind \<in> {R_Data, R_Data_Done} \<Longrightarrow> rs_Type r = Response_DATA" using reply_event_kind [OF ev] by blast
  obtain acts nxt c0 where m: "l1_reply_transition (if d then from_delay_queue else from_network)
      (l1_getState (rs_Address r) c) kind = Some (acts, nxt)"
    "run_all (\<lambda>act. act k (rs_Address r)) acts c = Some c0" "c' = l1_setState (rs_Address r) nxt c0"
    using run by (auto simp: l1_trigger_def kind(1) l1_on_reply_def bind_Some_iff split: option.splits)
  have "kind \<in> {R_Data, R_Data_Done} \<Longrightarrow> r \<in> H \<and> is_lease (rs_Address r) r"
    using kind(2) hist by (auto simp: is_lease_def)
  from reply_keeps [OF src this m(1,2)] show ?thesis by (simp add: m(3))
qed

lemma response_port_ok:
  assumes ok: "l1_ok H c" and run: "l1_response_port k c = Some c'"
  shows "l1_ok H c'" "l1_pts c \<le> l1_pts c'"
proof -
  have "l1_ok H c' \<and> l1_pts c \<le> l1_pts c'"
  proof (cases "l1_responses c")
    case Nil
    then show ?thesis using ok run by (simp add: l1_response_port_def peek_head_def)
  next
    case (Cons r rs)
    have r: "r \<in> H" and line: "l1_line_ok H (rs_Address r) c" using ok Cons by (auto simp: l1_ok_def)
    have "l1_trigger Delay k (rs_Address r) c = Some c' \<or>
        (\<exists>ev. reply_event False r c = Some ev \<and> l1_trigger ev k (rs_Address r) c = Some c')"
      using run Cons by (auto simp: l1_response_port_def peek_head_def bind_Some_iff split: if_splits)
    then have "l1_keeps H (rs_Address r) c c'"
      using delay_keeps [OF line] reply_trigger_keeps [of False r c _ k c' H] r Cons
      by (auto simp: source_head_def peek_head_def)
    then show ?thesis using keeps_ok [OF ok] by blast
  qed
  then show "l1_ok H c'" "l1_pts c \<le> l1_pts c'" by blast+
qed

lemma delay_port_ok:
  assumes ok: "l1_ok H c" and run: "l1_delay_port slots stalled k c = Some c'"
  shows "l1_ok H c'" "l1_pts c \<le> l1_pts c'"
proof -
  have "l1_ok H c' \<and> l1_pts c \<le> l1_pts c'"
  proof (cases "l1_delayed c")
    case Nil
    then show ?thesis using ok run by (simp add: l1_delay_port_def peek_head_def)
  next
    case (Cons r rs)
    have r: "r \<in> H" using ok Cons by (auto simp: l1_ok_def)
    have "c' = c \<or> (\<exists>ev. reply_event True r c = Some ev \<and> l1_trigger ev k (rs_Address r) c = Some c')"
      using run Cons by (auto simp: l1_delay_port_def peek_head_def bind_Some_iff split: if_splits)
    then show ?thesis
    proof
      assume "\<exists>ev. reply_event True r c = Some ev \<and> l1_trigger ev k (rs_Address r) c = Some c'"
      then have "l1_keeps H (rs_Address r) c c'"
        using reply_trigger_keeps [of True r c _ k c' H] r Cons by (auto simp: source_head_def peek_head_def)
      then show ?thesis using keeps_ok [OF ok] by blast
    qed (use ok in simp)
  qed
  then show "l1_ok H c'" "l1_pts c \<le> l1_pts c'" by blast+
qed

lemma mandatory_port_ok:
  assumes ok: "l1_ok H c" and run: "l1_mandatory_port avail probe k c = Some c'"
  shows "l1_ok H c'" "l1_pts c \<le> l1_pts c'"
proof -
  have "l1_ok H c' \<and> l1_pts c \<le> l1_pts c'"
  proof (cases "l1_mandatory c")
    case Nil
    then show ?thesis using ok run by (simp add: l1_mandatory_port_def peek_head_def)
  next
    case (Cons m ms)
    have line: "l1_line_ok H x c" for x using ok by (simp add: l1_ok_def)
    have ev: "ev \<in> {Load, L1_WThru, L1_Atomic}" if "mandatory_request_type_to_event t = Some ev" for t ev
      using that by (cases t) auto
    have "l1_trigger L1_Replacement k (probe (cm_Address m) c) c = Some c' \<or>
        (\<exists>ev. mandatory_request_type_to_event (cm_Type m) = Some ev \<and> l1_trigger ev k (cm_Address m) c = Some c')"
      using run Cons by (auto simp: l1_mandatory_port_def peek_head_def bind_Some_iff split: if_splits)
    then show ?thesis
    proof (elim disjE exE conjE)
      assume "l1_trigger L1_Replacement k (probe (cm_Address m) c) c = Some c'"
      from replacement_keeps [OF line this] show ?thesis using keeps_ok [OF ok] by blast
    next
      fix ev assume "mandatory_request_type_to_event (cm_Type m) = Some ev" "l1_trigger ev k (cm_Address m) c = Some c'"
      then have "l1_keeps H (cm_Address m) c c'" using mandatory_keeps [OF line Cons refl ev] by blast
      then show ?thesis using keeps_ok [OF ok] by blast
    qed
  qed
  then show "l1_ok H c'" "l1_pts c \<le> l1_pts c'" by blast+
qed

section \<open>Requests\<close>

text \<open>The requests of a cache have the form that the L2 relies on (\<open>request_wf\<close>), if the configured lease is not negative.
  A read that reports a copy which has not expired reports a lease that has not ended.\<close>

definition sent_wf :: "'d request_msg \<Rightarrow> bool" where
  "sent_wf m \<longleftrightarrow> request_wf m \<and> (rq_InL1 m \<and> \<not> rq_ExpiredInL1 m \<longrightarrow> rq_pts m \<le> rq_rts m)"

lemma mandatory_action_sends:
  assumes "act \<in> {oo_allocateL1DCacheBlock, l1_i_allocateTBE, pr_incPendingRead, a_issueGETS, k_popMandatoryQueue,
      pw_incPendingWrite, d2t_sendDataToL2_fromTBE, d2t_sendAtomicDataToL2_fromTBE, i_allocateTBEwTime,
      ff_deallocateL1CacheBlock, h_load_hit}"
    "0 \<le> CL_FIXED_LEASE k" "act k a c = Some c'"
  shows "l1_out c' = l1_out c \<or> (\<exists>m. l1_out c' = l1_out c @ [m] \<and> sent_wf m)"
  using assms by (auto simp: l1_run abort_simps sent_wf_def request_wf_def split: if_splits)

lemma mandatory_actions:
  assumes "l1_transition s ev = Some (L1_move acts nxt)" "ev \<in> {Load, L1_WThru, L1_Atomic, L1_Replacement}"
  shows "set acts \<subseteq> {oo_allocateL1DCacheBlock, l1_i_allocateTBE, pr_incPendingRead, a_issueGETS, k_popMandatoryQueue,
      pw_incPendingWrite, d2t_sendDataToL2_fromTBE, d2t_sendAtomicDataToL2_fromTBE, i_allocateTBEwTime,
      ff_deallocateL1CacheBlock, h_load_hit}"
  using assms by (cases s) auto

lemma mandatory_trigger_sends:
  fixes c :: "'d l1_ctl"
  assumes "ev \<in> {Load, L1_WThru, L1_Atomic, L1_Replacement}" "0 \<le> CL_FIXED_LEASE k"
    "l1_trigger ev k a c = Some c'" "\<forall>m\<in>set (l1_out c). sent_wf m"
  shows "\<forall>m\<in>set (l1_out c'). sent_wf m"
proof (cases "l1_transition (l1_getState a c) ev :: 'd l1_move option")
  case (Some mv)
  show ?thesis
  proof (cases mv)
    case (L1_move acts nxt)
    then obtain c1 where c1: "run_all (\<lambda>act. act k a) acts c = Some c1" "c' = l1_setState a nxt c1"
      using assms(3) Some by (auto simp: l1_trigger_def bind_Some_iff)
    note acts = mandatory_actions [OF Some [unfolded L1_move] assms(1)]
    have "\<forall>m\<in>set (l1_out c1). sent_wf m"
      by (rule run_all_invariant [where P = "\<lambda>c. \<forall>m\<in>set (l1_out c). sent_wf m", OF _ assms(4) c1(1)])
        (use mandatory_action_sends [OF subsetD [OF acts] assms(2)] in fastforce)
    then show ?thesis by (simp add: c1(2) l1_setState_def)
  qed (use assms(3,4) Some in \<open>simp add: l1_trigger_def\<close>)
qed (use assms(3) in \<open>simp add: l1_trigger_def\<close>)

lemma l1_sends_wf:
  assumes "l1_mandatory_port avail probe k c = Some c'" "0 \<le> CL_FIXED_LEASE k" "\<forall>m\<in>set (l1_out c). sent_wf m"
  shows "\<forall>m\<in>set (l1_out c'). sent_wf m"
proof -
  have ev: "ev \<in> {Load, L1_WThru, L1_Atomic, L1_Replacement}" if "mandatory_request_type_to_event t = Some ev" for t ev
    using that by (cases t) auto
  have "c' = c \<or> (\<exists>ev x. ev \<in> {Load, L1_WThru, L1_Atomic, L1_Replacement} \<and> l1_trigger ev k x c = Some c')"
    using assms(1) ev by (auto simp: l1_mandatory_port_def bind_Some_iff split: option.splits if_splits)
  then show ?thesis using mandatory_trigger_sends [OF _ assms(2) _ assms(3)] assms(3) by blast
qed

section \<open>Merged reads\<close>

text \<open>C40. A read that is merged into a transaction of a write loses its data.  The private cache in
  the state \<open>I_I\<close> with one read outstanding takes the lease of the response and marks the block as
  holding data, and later loads hit on it, but the data of the response is not written to the block: the
  block keeps what it held.  (For a cache that does not use the delay queue, with the times below the limit
  that the cache asserts and a lease that covers the time of the processor.)\<close>

theorem l1_merged_read_drops_data:
  assumes "l1_responses c = r # rs" "rs_Type r = Response_DATA" "l1_machineID k \<in> rs_Destination r"
    "l1_TBEs c (rs_Address r) = Some t" "lt_TBEState t = L1_I_I" "lt_pendingReads t = 1" "lt_pendingWrites t = 0"
    "l1_cache c (rs_Address r) = Some e" "\<not> DELAY_QUEUE_ENABLED k"
    "l1_pts c < 4294967295" "rs_wts r < 4294967295" "l1_pts c \<le> rs_rts r" "rs_wts r \<le> rs_rts r"
  shows "\<exists>c'. l1_response_port k c = Some c' \<and> l1_getState (rs_Address r) c' = L1_S \<and>
    l1_cache c' (rs_Address r) =
      Some (e\<lparr> le_CacheState := L1_S, le_rts := rs_rts r, le_have_data := True, le_DataBlk := le_DataBlk e \<rparr>)"
proof -
  have "l1_getState (rs_Address r) c = L1_I_I" using assms(4,5) by (simp add: l1_getState_def)
  then show ?thesis using assms
    by (auto simp: l1_response_port_def reply_event_def l1_run l1_getState_def isLive_def)
qed

definition sample_l1 :: "nat l1_ctl" where
  "sample_l1 = l1_init\<lparr>
     l1_cache := [128 \<mapsto> \<lparr> le_CacheState = L1_I_I, le_DataBlk = None, le_rts = 0, le_have_data = False \<rparr>],
     l1_TBEs := [128 \<mapsto> \<lparr> lt_TBEState = L1_I_I, lt_DataBlk = None, lt_isPrefetch = False, lt_Space = Space_GLOBAL,
       lt_ThreadID = 0, lt_rts = 0, lt_pendingReads = 1, lt_pendingWrites = 0 \<rparr>],
     l1_responses := [\<lparr> rs_Address = 128, rs_Type = Response_DATA, rs_Destination = {0}, rs_DataBlk = Some 5,
       rs_Dirty = False, rs_Space = Space_GLOBAL, rs_RequestSize = 32, rs_rts = 10, rs_wts = 4, rs_memfetch = 0,
       rs_mfset = [] \<rparr>] \<rparr>"

definition sample_l1_config :: "l1_id \<Rightarrow> l1_config" where
  "sample_l1_config i = \<lparr> l1_machineID = i, CL_FIXED_LEASE = 10, DATA_BLOCK_BYTES = 128,
     DELAY_QUEUE_ENABLED = False, DELAY_QUEUE_THRESHOLD = 0 \<rparr>"

theorem l1_merged_read_drops_data_witness:
  "\<exists>c' e. l1_response_port (sample_l1_config 0) sample_l1 = Some c' \<and> l1_getState 128 c' = L1_S \<and>
     l1_cache c' 128 = Some e \<and> le_DataBlk e = None \<and> rs_DataBlk (hd (l1_responses sample_l1)) = Some 5"
  using l1_merged_read_drops_data [of sample_l1 "hd (l1_responses sample_l1)" "[]" "sample_l1_config 0"
      "the (l1_TBEs sample_l1 128)" "the (l1_cache sample_l1 128)"]
  by (auto simp: sample_l1_def sample_l1_config_def l1_init_def)

end
