(* ===== verification/RCC_System.thy ===== *)
theory RCC_System
  imports RCC_L1
begin

text \<open>
  The relativistic protocol as a system: one bank of the L2 and any number of private caches, over a
  network.

  A step is one run of a port of a controller, an access of a processor, an answer of the memory, or
  a message carried by the network.  The network only carries messages that were sent, to a receiver
  they are meant for; it may delay, reorder and repeat them, so that the results do not rest on more than
  this.  Memory may answer anything: the timestamps do not depend on the data.

  The invariant \<open>sys_ok\<close> joins the two sides: every copy on which a private cache can hit is covered
  by a lease in the history of the bank.  With the order of the bank's responses (theory \<open>RCC_L2\<close>) this
  gives the coherence of hits.
\<close>

section \<open>System\<close>

record 'd rcc_sys =
  sys_bank :: "'d l2_bank"
  sys_l1 :: "l1_id \<Rightarrow> 'd l1_ctl"

definition sys_set_l1 :: "l1_id \<Rightarrow> 'd l1_ctl \<Rightarrow> 'd rcc_sys \<Rightarrow> 'd rcc_sys" where
  "sys_set_l1 i c s = s\<lparr> sys_l1 := (sys_l1 s)(i := c) \<rparr>"

definition sys_init :: "'d rcc_sys" where
  "sys_init = \<lparr> sys_bank = l2_init, sys_l1 = \<lambda>_. l1_init \<rparr>"

inductive rcc_step :: "(l1_id \<Rightarrow> l1_config) \<Rightarrow> 'd rcc_sys \<Rightarrow> 'd rcc_sys \<Rightarrow> bool" for cfg where
  processor: "rcc_step cfg s (sys_set_l1 i ((sys_l1 s i)\<lparr> l1_mandatory := l1_mandatory (sys_l1 s i) @ [m] \<rparr>) s)"
| mandatory: "l1_mandatory_port avail probe (cfg i) (sys_l1 s i) = Some c \<Longrightarrow> rcc_step cfg s (sys_set_l1 i c s)"
| response: "l1_response_port (cfg i) (sys_l1 s i) = Some c \<Longrightarrow> rcc_step cfg s (sys_set_l1 i c s)"
| delayed: "l1_delay_port slots stalled (cfg i) (sys_l1 s i) = Some c \<Longrightarrow> rcc_step cfg s (sys_set_l1 i c s)"
| carry_request: "m \<in> set (l1_out (sys_l1 s i)) \<Longrightarrow>
     rcc_step cfg s (s\<lparr> sys_bank := (sys_bank s)\<lparr> l2_requests := l2_requests (sys_bank s) @ [m] \<rparr> \<rparr>)"
| carry_reply: "r \<in> set (l2_responses (sys_bank s)) \<Longrightarrow> i \<in> rs_Destination r \<Longrightarrow>
     rcc_step cfg s (sys_set_l1 i ((sys_l1 s i)\<lparr> l1_responses := l1_responses (sys_l1 s i) @ [r] \<rparr>) s)"
| memory: "rcc_step cfg s (s\<lparr> sys_bank := (sys_bank s)\<lparr> l2_mem_replies := l2_mem_replies (sys_bank s) @ [d] \<rparr> \<rparr>)"
| bank_request: "l2_request_port avail2 probe2 (sys_bank s) = Some b \<Longrightarrow> rcc_step cfg s (s\<lparr> sys_bank := b \<rparr>)"
| bank_reply: "l2_mem_port (sys_bank s) = Some b \<Longrightarrow> rcc_step cfg s (s\<lparr> sys_bank := b \<rparr>)"

inductive rcc_reachable :: "(l1_id \<Rightarrow> l1_config) \<Rightarrow> 'd rcc_sys \<Rightarrow> bool" for cfg where
  initial: "rcc_reachable cfg sys_init"
| step: "rcc_reachable cfg s \<Longrightarrow> rcc_step cfg s s' \<Longrightarrow> rcc_reachable cfg s'"

text \<open>The responses that the bank has sent to a private cache.\<close>

definition replies_to :: "l1_id \<Rightarrow> 'd l2_bank \<Rightarrow> 'd response_msg set" where
  "replies_to i b = {r \<in> set (l2_responses b). i \<in> rs_Destination r}"

definition sys_ok :: "'d rcc_sys \<Rightarrow> bool" where
  "sys_ok s \<longleftrightarrow> l2_reachable (sys_bank s) \<and> (\<forall>i. l1_ok (replies_to i (sys_bank s)) (sys_l1 s i))"

lemma l1_ok_mono: "H \<subseteq> H' \<Longrightarrow> l1_ok H c \<Longrightarrow> l1_ok H' c"
  unfolding l1_ok_def using l1_line_mono [of H _ c c H'] by blast

lemma advances_history: "l2_advances a b b' \<Longrightarrow> set (l2_responses b) \<subseteq> set (l2_responses b')"
  unfolding l2_advances_def by auto

lemma trigger_history:
  assumes "l2_ok b" "l2_trigger ev a b = Some b'"
    "ev = Mem_Data_PR \<longrightarrow> (\<forall>t. l2_TBEs b a = Some t \<longrightarrow> \<not> t_pending_write t)"
  shows "set (l2_responses b) \<subseteq> set (l2_responses b')"
  using advances_history [OF trigger_advances [OF _ _ assms(2)]] assms(1,3) by (auto simp: l2_ok_def)

lemma request_port_history:
  assumes "l2_ok b" "l2_request_port avail probe b = Some b'"
  shows "set (l2_responses b) \<subseteq> set (l2_responses b')"
  using request_port_cases [OF assms(2)] trigger_history [OF assms(1)] by blast

lemma mem_port_history:
  assumes "l2_ok b" "l2_mem_port b = Some b'"
  shows "set (l2_responses b) \<subseteq> set (l2_responses b')"
  using mem_port_cases [OF assms(2)] trigger_history [OF assms(1)] by auto

lemma sys_set_l1_ok:
  assumes "sys_ok s" "l1_ok (replies_to i (sys_bank s)) c"
  shows "sys_ok (sys_set_l1 i c s)"
  using assms by (simp add: sys_ok_def sys_set_l1_def)

lemma sys_set_bank_ok:
  assumes "sys_ok s" "l2_step (sys_bank s) b" "set (l2_responses (sys_bank s)) \<subseteq> set (l2_responses b)"
  shows "sys_ok (s\<lparr> sys_bank := b \<rparr>)"
proof -
  have "l1_ok (replies_to i b) (sys_l1 s i)" for i
  proof (rule l1_ok_mono)
    show "replies_to i (sys_bank s) \<subseteq> replies_to i b" using assms(3) by (auto simp: replies_to_def)
    show "l1_ok (replies_to i (sys_bank s)) (sys_l1 s i)" using assms(1) by (simp add: sys_ok_def)
  qed
  moreover have "l2_reachable b" using l2_reachable.step [OF _ assms(2)] assms(1) by (simp add: sys_ok_def)
  ultimately show ?thesis by (simp add: sys_ok_def)
qed

lemma l1_ok_queues:
  assumes "l1_ok H c"
  shows "l1_ok H (c\<lparr> l1_mandatory := q \<rparr>)" "r \<in> H \<Longrightarrow> l1_ok H (c\<lparr> l1_responses := l1_responses c @ [r] \<rparr>)"
proof -
  have line: "l1_line_ok H a c" for a using assms by (simp add: l1_ok_def)
  have "l1_line_ok H a (c\<lparr> l1_mandatory := q \<rparr>)" "l1_line_ok H a (c\<lparr> l1_responses := l1_responses c @ [r] \<rparr>)" for a
    by (rule l1_line_mono [OF line]; simp)+
  then show "l1_ok H (c\<lparr> l1_mandatory := q \<rparr>)" "r \<in> H \<Longrightarrow> l1_ok H (c\<lparr> l1_responses := l1_responses c @ [r] \<rparr>)"
    using assms by (simp_all add: l1_ok_def)
qed

lemma rcc_step_ok:
  assumes "rcc_step cfg s s'" "sys_ok s"
  shows "sys_ok s'"
proof -
  have l1: "l1_ok (replies_to i (sys_bank s)) (sys_l1 s i)" for i using assms(2) by (simp add: sys_ok_def)
  have bank: "l2_ok (sys_bank s)" using assms(2) reachable_ok by (auto simp: sys_ok_def)
  show ?thesis using assms(1)
  proof cases
    case (processor i m)
    then show ?thesis using sys_set_l1_ok [OF assms(2) l1_ok_queues(1) [OF l1]] by simp
  next
    case (mandatory avail probe i c)
    then show ?thesis using sys_set_l1_ok [OF assms(2) mandatory_port_ok(1) [OF l1]] by blast
  next
    case (response i c)
    then show ?thesis using sys_set_l1_ok [OF assms(2) response_port_ok(1) [OF l1]] by blast
  next
    case (delayed slots stalled i c)
    then show ?thesis using sys_set_l1_ok [OF assms(2) delay_port_ok(1) [OF l1]] by blast
  next
    case (carry_request m i)
    show ?thesis unfolding carry_request(1)
      by (rule sys_set_bank_ok [OF assms(2) l2_step.request_arrives]) simp
  next
    case (carry_reply r i)
    then show ?thesis using sys_set_l1_ok [OF assms(2) l1_ok_queues(2) [OF l1]] by (simp add: replies_to_def)
  next
    case (memory d)
    show ?thesis unfolding memory(1)
      by (rule sys_set_bank_ok [OF assms(2) l2_step.reply_arrives]) simp
  next
    case (bank_request avail2 probe2 b)
    show ?thesis unfolding bank_request(1)
      by (rule sys_set_bank_ok [OF assms(2) l2_step.handle_request [OF bank_request(2)]
            request_port_history [OF bank bank_request(2)]])
  next
    case (bank_reply b)
    show ?thesis unfolding bank_reply(1)
      by (rule sys_set_bank_ok [OF assms(2) l2_step.handle_reply [OF bank_reply(2)]
            mem_port_history [OF bank bank_reply(2)]])
  qed
qed

lemma sys_init_ok: "sys_ok sys_init"
  by (auto simp: sys_ok_def sys_init_def l1_ok_def l1_init_def l1_line_ok_def l2_init_def [symmetric] l2_reachable.initial)

lemma rcc_reachable_ok: "rcc_reachable cfg s \<Longrightarrow> sys_ok s"
  by (induction rule: rcc_reachable.induct) (auto intro: sys_init_ok rcc_step_ok)

text \<open>The read timestamp that a hit rests on, as \<open>isLive\<close> reads it.\<close>

definition copy_rts :: "physical_address_t \<Rightarrow> 'd l1_ctl \<Rightarrow> Time" where
  "copy_rts a c = (case l1_TBEs c a of Some t \<Rightarrow> lt_rts t | None \<Rightarrow> le_rts (the (l1_cache c a)))"

lemma hit_leased:
  assumes "l1_ok H c" "l1_getState a c \<in> {L1_S, L1_SM}"
  shows "l1_pts c \<le> copy_rts a c" "leased H (l1_pts c) a (copy_rts a c)"
proof -
  have line: "l1_line_ok H a c" using assms(1) by (simp add: l1_ok_def)
  have "l1_pts c \<le> copy_rts a c \<and> leased H (l1_pts c) a (copy_rts a c)"
  proof (cases "l1_TBEs c a")
    case None
    then show ?thesis using line assms(2)
      by (auto simp: l1_getState_def l1_line_ok_def isLive_def copy_rts_def split: option.splits if_splits)
  next
    case (Some t)
    then show ?thesis using line assms(2)
      by (auto simp: l1_getState_def l1_line_ok_def isLive_def copy_rts_def split: option.splits if_splits)
  qed
  then show "l1_pts c \<le> copy_rts a c" "leased H (l1_pts c) a (copy_rts a c)" by blast+
qed

text \<open>C1. The lease that a hit rests on is current at the logical time of its processor.  Whenever a private cache of
  a reachable system would hit on a line, the read timestamp it compares with the time of its processor is
  the end of a lease on that line which the bank granted to this cache; the time of the processor lies between the
  write timestamp and the end of that lease; every write of the line that the bank served before the
  lease has a timestamp not after the time of the processor, and every write that it served after the
  lease has a timestamp not before the end of the lease, so not before the time of the processor.  The
  statement is about timestamps: which data the copy holds is the subject of \<open>l1_merged_read_drops_data\<close>.\<close>

theorem rcc_hit_is_current:
  assumes "rcc_reachable cfg s" "l1_getState a (sys_l1 s i) \<in> {L1_S, L1_SM}"
  defines "rs \<equiv> l2_responses (sys_bank s)"
  shows "\<exists>j < length rs. is_lease a (rs ! j) \<and> i \<in> rs_Destination (rs ! j) \<and> rs_rts (rs ! j) = copy_rts a (sys_l1 s i) \<and>
     rs_wts (rs ! j) \<le> l1_pts (sys_l1 s i) \<and> l1_pts (sys_l1 s i) \<le> rs_rts (rs ! j) \<and>
     (\<forall>n < j. is_write_reply a (rs ! n) \<longrightarrow> rs_wts (rs ! n) \<le> l1_pts (sys_l1 s i)) \<and>
     (\<forall>n < length rs. j < n \<and> is_write_reply a (rs ! n) \<longrightarrow> rs_rts (rs ! j) \<le> rs_wts (rs ! n))"
proof -
  have ok: "sys_ok s" by (rule rcc_reachable_ok [OF assms(1)])
  then have l1: "l1_ok (replies_to i (sys_bank s)) (sys_l1 s i)" by (simp add: sys_ok_def)
  note hit = hit_leased [OF l1 assms(2)]
  obtain q where q: "q \<in> set rs" "i \<in> rs_Destination q" "is_lease a q" "rs_rts q = copy_rts a (sys_l1 s i)"
    "rs_wts q \<le> l1_pts (sys_l1 s i)" using hit(2) by (auto simp: leased_def replies_to_def rs_def)
  then obtain j where j: "j < length rs" "rs ! j = q" by (auto simp: in_set_conv_nth)
  have srt: "sorted_wrt line_order rs" using ok reachable_ok by (auto simp: sys_ok_def l2_ok_def rs_def)
  have "rs_rts q \<le> rs_wts (rs ! n)" if "j < n" "n < length rs" "is_write_reply a (rs ! n)" for n
    using sorted_wrt_nth_less [OF srt that(1,2)] j(2) q(3) that(3)
    by (simp add: line_order_def is_lease_def is_write_reply_def)
  moreover have "rs_wts (rs ! n) \<le> rs_wts q" if "n < j" "is_write_reply a (rs ! n)" for n
    using sorted_wrt_nth_less [OF srt that(1) j(1)] j(2) q(3) that(2)
    by (simp add: line_order_def is_lease_def is_write_reply_def)
  ultimately show ?thesis using j q hit(1) by (intro exI [of _ j]) fastforce
qed

text \<open>C2. A write that hits in the bank leaves no stale copy behind.  When the bank serves it, with the
  timestamp of its reply, no private cache whose processor has reached that timestamp can hit on the
  line, although no invalidation is sent.\<close>

theorem rcc_no_stale_hit:
  assumes "rcc_reachable cfg s" "l2_requests (sys_bank s) = m # ms" "rq_Dirty m"
    "rq_Type m \<in> {Request_DATA, Request_DATA_ATOMIC}"
    "l2_cache (sys_bank s) (rq_Address m) = Some e" "e_CacheState e = L2_V"
  shows "\<exists>b' r. l2_request_port cacheAvail cacheProbe (sys_bank s) = Some b' \<and>
     l2_responses b' = l2_responses (sys_bank s) @ [r] \<and> is_write_reply (rq_Address m) r \<and>
     (\<forall>i. rs_wts r \<le> l1_pts (sys_l1 s i) \<longrightarrow> l1_getState (rq_Address m) (sys_l1 s i) \<notin> {L1_S, L1_SM})"
proof -
  have ok: "sys_ok s" by (rule rcc_reachable_ok [OF assms(1)])
  then have b: "l2_reachable (sys_bank s)" by (simp add: sys_ok_def)
  let ?w = "max (max (rq_pts m) (e_wts e)) (e_rts e + 1)"
  have "l1_getState (rq_Address m) (sys_l1 s i) \<notin> {L1_S, L1_SM}" if "?w \<le> l1_pts (sys_l1 s i)" for i
  proof
    assume hit: "l1_getState (rq_Address m) (sys_l1 s i) \<in> {L1_S, L1_SM}"
    have l1: "l1_ok (replies_to i (sys_bank s)) (sys_l1 s i)" using ok by (simp add: sys_ok_def)
    obtain q where "q \<in> set (l2_responses (sys_bank s))" "is_lease (rq_Address m) q"
      "l1_pts (sys_l1 s i) \<le> rs_rts q" using hit_leased [OF l1 hit] by (auto simp: leased_def replies_to_def)
    then have "l1_pts (sys_l1 s i) \<le> e_rts e"
      using lease_within [OF b] assms(5,6) by (fastforce simp: lease_bound_def)
    then show False using that by simp
  qed
  then show ?thesis using V_write_port [OF b assms(2-6), of cacheAvail cacheProbe] by fastforce
qed

section \<open>Traces\<close>

datatype 'd sys_input = Processor l1_id cache_msg | Mandatory l1_id | Response l1_id | Carry_request l1_id nat
  | Carry_reply nat l1_id | Memory_reply "'d memory_msg" | Bank_request | Bank_reply

fun sys_drive :: "(l1_id \<Rightarrow> l1_config) \<Rightarrow> 'd sys_input \<Rightarrow> 'd rcc_sys \<Rightarrow> 'd rcc_sys option" where
  "sys_drive cfg (Processor i m) s =
     Some (sys_set_l1 i ((sys_l1 s i)\<lparr> l1_mandatory := l1_mandatory (sys_l1 s i) @ [m] \<rparr>) s)"
| "sys_drive cfg (Mandatory i) s =
     map_option (\<lambda>c. sys_set_l1 i c s) (l1_mandatory_port (\<lambda>_ _. True) (\<lambda>_ _. 0) (cfg i) (sys_l1 s i))"
| "sys_drive cfg (Response i) s = map_option (\<lambda>c. sys_set_l1 i c s) (l1_response_port (cfg i) (sys_l1 s i))"
| "sys_drive cfg (Carry_request i n) s = (if n < length (l1_out (sys_l1 s i)) then
     Some (s\<lparr> sys_bank := (sys_bank s)\<lparr> l2_requests := l2_requests (sys_bank s) @ [l1_out (sys_l1 s i) ! n] \<rparr> \<rparr>) else None)"
| "sys_drive cfg (Carry_reply n i) s = (if n < length (l2_responses (sys_bank s)) \<and>
       i \<in> rs_Destination (l2_responses (sys_bank s) ! n) then
     Some (sys_set_l1 i ((sys_l1 s i)\<lparr> l1_responses := l1_responses (sys_l1 s i) @ [l2_responses (sys_bank s) ! n] \<rparr>) s)
     else None)"
| "sys_drive cfg (Memory_reply d) s =
     Some (s\<lparr> sys_bank := (sys_bank s)\<lparr> l2_mem_replies := l2_mem_replies (sys_bank s) @ [d] \<rparr> \<rparr>)"
| "sys_drive cfg Bank_request s =
     map_option (\<lambda>b. s\<lparr> sys_bank := b \<rparr>) (l2_request_port (\<lambda>_ _. True) (\<lambda>_ _. 0) (sys_bank s))"
| "sys_drive cfg Bank_reply s = map_option (\<lambda>b. s\<lparr> sys_bank := b \<rparr>) (l2_mem_port (sys_bank s))"

lemma sys_drive_step: "sys_drive cfg x s = Some s' \<Longrightarrow> rcc_step cfg s s'"
  by (cases x) (auto intro: rcc_step.intros nth_mem split: if_splits)

lemma sys_drive_reachable:
  "run_all (sys_drive cfg) xs s = Some s' \<Longrightarrow> rcc_reachable cfg s \<Longrightarrow> rcc_reachable cfg s'"
  by (induction xs arbitrary: s) (auto simp: bind_Some_iff dest: rcc_reachable.step [OF _ sys_drive_step])

definition sample_access :: "CacheRequestType \<Rightarrow> cache_msg" where
  "sample_access ty = \<lparr> cm_Address = 128, cm_Type = ty, cm_Size = 4, cm_ThreadID = 0, cm_Space = Space_GLOBAL,
     cm_memfetch = 1 \<rparr>"

text \<open>The core 0 loads the line 128; then the core 1 stores to it, up to the request of the store at the bank.\<close>

definition sample_load :: "nat sys_input list" where
  "sample_load = [Processor 0 (sample_access CR_LD), Mandatory 0, Carry_request 0 0, Bank_request,
     Memory_reply \<lparr> mm_Address = 128, mm_Type = MEMORY_READ, mm_DataBlk = Some 3 \<rparr>, Bank_reply,
     Carry_reply 0 0, Response 0]"

definition sample_store :: "nat sys_input list" where
  "sample_store = [Processor 1 (sample_access CR_ST), Mandatory 1, Carry_request 1 0]"

lemmas sys_simps = sample_load_def sample_store_def sample_access_def sys_init_def sys_set_l1_def
  l1_init_def sample_l1_config_def l1_mandatory_port_def l1_response_port_def reply_event_def l1_run
  l1_getState_def isLive_def sample_defs

lemma sample_system:
  "\<exists>s. run_all (sys_drive sample_l1_config) (sample_load @ sample_store) sys_init = Some s \<and>
     l1_getState 128 (sys_l1 s 0) = L1_S \<and>
     (\<exists>m e. l2_requests (sys_bank s) = [m] \<and> rq_Address m = 128 \<and> rq_Dirty m \<and> rq_Type m = Request_DATA \<and>
        l2_cache (sys_bank s) 128 = Some e \<and> e_CacheState e = L2_V)"
  by (simp add: sys_simps)

theorem rcc_hit_is_current_witness:
  "\<exists>s :: nat rcc_sys. rcc_reachable sample_l1_config s \<and>
     (\<exists>j < length (l2_responses (sys_bank s)). is_lease 128 (l2_responses (sys_bank s) ! j))"
proof -
  obtain s :: "nat rcc_sys" where s: "run_all (sys_drive sample_l1_config) (sample_load @ sample_store) sys_init = Some s"
    "l1_getState 128 (sys_l1 s 0) = L1_S" using sample_system by blast
  have "rcc_reachable sample_l1_config s" using sys_drive_reachable [OF s(1) rcc_reachable.initial] .
  then show ?thesis using rcc_hit_is_current [of sample_l1_config s 128 0] s(2) by blast
qed

theorem rcc_no_stale_hit_witness:
  "\<exists>(s :: nat rcc_sys) b' r. rcc_reachable sample_l1_config s \<and>
     l2_request_port (\<lambda>_ _. True) (\<lambda>_ _. 0) (sys_bank s) = Some b' \<and>
     l2_responses b' = l2_responses (sys_bank s) @ [r] \<and> is_write_reply 128 r"
proof -
  obtain s :: "nat rcc_sys" and m e where s:
    "run_all (sys_drive sample_l1_config) (sample_load @ sample_store) sys_init = Some s"
    "l2_requests (sys_bank s) = [m]" "rq_Address m = 128" "rq_Dirty m" "rq_Type m = Request_DATA"
    "l2_cache (sys_bank s) 128 = Some e" "e_CacheState e = L2_V" using sample_system by blast
  have "rcc_reachable sample_l1_config s" using sys_drive_reachable [OF s(1) rcc_reachable.initial] .
  then show ?thesis
    using rcc_no_stale_hit [of sample_l1_config s m "[]" e "\<lambda>_ _. True" "\<lambda>_ _. 0"] s(2-7) by auto
qed

end
