(* ===== verification/Replacement_Policy.thy ===== *)
theory Replacement_Policy
  imports Prelude
begin

text \<open>
  The replacement policies of the caches: \<open>system/AbstractReplacementPolicy.h\<close>,
  \<open>system/LRUPolicy.h\<close> and \<open>system/PseudoLRUPolicy.h\<close>.

  The state of a policy is a record; the tree policy extends the abstract one as its class
  does.  An \<open>Index\<close> is a signed 64-bit integer and is modelled by \<open>int\<close>, the array sizes are
  \<open>unsigned int\<close>s and are modelled by their value; an access outside an array is an abort.
  The trees of the tree policy are 64-bit words that the code updates with shifts of 32-bit
  \<open>int\<close>s, and the model keeps both widths.

  The lemmas show that the victim of either policy is a way of the set, that the scan of LRU
  finds the first way with the least time stamp, that the bit vectors of the tree policy
  implement binary trees, that the way touched last is never the tree policy's victim, and that
  with an associativity that is a power of two the victims of consecutive rounds are a
  permutation of the ways.
\<close>

section \<open>The policies\<close>

record abstract_policy =
  m_num_sets :: nat
  m_assoc :: nat
  m_last_ref_ptr :: "Time list list"

record pseudo_lru = abstract_policy +
  m_effective_assoc :: nat
  m_num_levels :: nat
  m_trees :: "64 word list"

definition AbstractReplacementPolicy_new :: "int \<Rightarrow> int \<Rightarrow> abstract_policy" where
  "AbstractReplacementPolicy_new num_sets assoc =
     (let n = nat (num_sets mod 2 ^ 32); a = nat (assoc mod 2 ^ 32)
      in \<lparr>m_num_sets = n, m_assoc = a, m_last_ref_ptr = replicate n (replicate a 0)\<rparr>)"

definition array_at :: "'a list \<Rightarrow> int \<Rightarrow> 'a option" where
  "array_at xs i = (if 0 \<le> i \<and> i < int (length xs) then Some (xs ! nat i) else None)"

definition getLastAccess :: "int \<Rightarrow> int \<Rightarrow> ('a) abstract_policy_scheme \<Rightarrow> Time option" where
  "getLastAccess st way p = do { row \<leftarrow> array_at (m_last_ref_ptr p) st; array_at row way }"

text \<open>The store to \<open>m_last_ref_ptr[set][index]\<close> and the two asserts before it, which open both
  \<open>touch\<close> methods.\<close>

definition touch_asserts :: "int \<Rightarrow> int \<Rightarrow> ('a) abstract_policy_scheme \<Rightarrow> unit option" where
  "touch_asserts st index p = do {
     assert_that (index \<ge> 0 \<and> index < int (m_assoc p));
     assert_that (st \<ge> 0 \<and> st < int (m_num_sets p)) }"

definition set_last_ref ::
  "int \<Rightarrow> int \<Rightarrow> Time \<Rightarrow> ('a) abstract_policy_scheme \<Rightarrow> ('a) abstract_policy_scheme" where
  "set_last_ref st index time p =
     p\<lparr>m_last_ref_ptr := (m_last_ref_ptr p)[nat st := (m_last_ref_ptr p ! nat st)[nat index := time]]\<rparr>"

subsection \<open>LRU\<close>

definition LRUPolicy_new :: "int \<Rightarrow> int \<Rightarrow> abstract_policy" where
  "LRUPolicy_new num_sets assoc = AbstractReplacementPolicy_new num_sets assoc"

definition lru_touch :: "int \<Rightarrow> int \<Rightarrow> Time \<Rightarrow> abstract_policy \<Rightarrow> abstract_policy option" where
  "lru_touch st index time p = do {
     touch_asserts st index p;
     Some (set_last_ref st index time p) }"

primrec lru_scan :: "Time list \<Rightarrow> nat \<Rightarrow> nat \<Rightarrow> Time \<Rightarrow> nat" where
  "lru_scan [] i smallest_index smallest_time = smallest_index"
| "lru_scan (time # ts) i smallest_index smallest_time =
     (if time < smallest_time then lru_scan ts (i + 1) i time
      else lru_scan ts (i + 1) smallest_index smallest_time)"

definition lru_getVictim :: "int \<Rightarrow> abstract_policy \<Rightarrow> int option" where
  "lru_getVictim st p = do {
     row \<leftarrow> array_at (m_last_ref_ptr p) st;
     smallest_time \<leftarrow> array_at row 0;
     Some (int (lru_scan row 0 0 smallest_time)) }"

subsection \<open>Tree-based pseudo-LRU\<close>

text \<open>The two loops of the constructor: the doubling up to the associativity, which starts at
  1 (a zero could not grow), and the count of the levels.\<close>

function effective_assoc_loop :: "int \<Rightarrow> nat \<Rightarrow> nat" where
  "effective_assoc_loop assoc e =
     (if int e < assoc \<and> e \<noteq> 0 then effective_assoc_loop assoc (push_bit 1 e) else e)"
  by auto
termination
  by (relation "measure (\<lambda>(assoc, e). nat (assoc - int e))") (auto simp: push_bit_eq_mult)

function num_levels_loop :: "nat \<Rightarrow> nat \<Rightarrow> nat" where
  "num_levels_loop assoc levels =
     (let a = assoc div 2 in if a = 0 then levels else num_levels_loop a (levels + 1))"
  by auto
termination
  by (relation "measure fst") auto

declare effective_assoc_loop.simps [simp del] num_levels_loop.simps [simp del]

definition PseudoLRUPolicy_new :: "int \<Rightarrow> int \<Rightarrow> pseudo_lru option" where
  "PseudoLRUPolicy_new num_sets assoc = do {
     let p = AbstractReplacementPolicy_new num_sets assoc;
     assert_that (num_sets > 0 \<and> assoc > 1 \<and> assoc \<le> 8 * 4);
     let e = effective_assoc_loop assoc 1;
     let l = num_levels_loop e 0;
     assert_that (l < 4 * 4);
     Some (abstract_policy.extend p
       \<lparr>m_effective_assoc = e, m_num_levels = l, m_trees = replicate (m_num_sets p) 0\<rparr>) }"

text \<open>\<open>node_val << tree_index\<close> and \<open>1 << tree_index\<close> are 32-bit \<open>int\<close>s that are sign-extended
  when they meet the 64-bit tree.\<close>

definition int_shl :: "nat \<Rightarrow> 32 word" where
  "int_shl tree_index = push_bit tree_index 1"

primrec plru_touch_loop :: "nat \<Rightarrow> nat \<Rightarrow> nat \<Rightarrow> 64 word \<Rightarrow> 64 word" where
  "plru_touch_loop 0 index tree_index tree = tree"
| "plru_touch_loop (Suc i) index tree_index tree =
     (let node_val = drop_bit i index AND 1
      in if node_val \<noteq> 0
         then plru_touch_loop i index (tree_index * 2 + 2) (tree OR scast (int_shl tree_index))
         else plru_touch_loop i index (tree_index * 2 + 1) (tree AND scast (NOT (int_shl tree_index))))"

definition plru_touch :: "int \<Rightarrow> int \<Rightarrow> Time \<Rightarrow> pseudo_lru \<Rightarrow> pseudo_lru option" where
  "plru_touch st index time p = do {
     touch_asserts st index p;
     let tree = plru_touch_loop (m_num_levels p) (nat index) 0 (m_trees p ! nat st);
     Some (set_last_ref st index time (p\<lparr>m_trees := (m_trees p)[nat st := tree]\<rparr>)) }"

text \<open>The first argument counts the iterations left, \<open>i\<close> is the loop variable.\<close>

primrec plru_victim_loop :: "nat \<Rightarrow> nat \<Rightarrow> nat \<Rightarrow> 64 word \<Rightarrow> nat \<Rightarrow> nat \<Rightarrow> nat" where
  "plru_victim_loop 0 i effective tree tree_index index = index"
| "plru_victim_loop (Suc n) i effective tree tree_index index =
     (let node_val = drop_bit tree_index tree AND 1
      in plru_victim_loop n (i + 1) effective tree
           (if node_val \<noteq> 0 then tree_index * 2 + 1 else tree_index * 2 + 2)
           (index + (if node_val \<noteq> 0 then 0 else drop_bit (i + 1) effective)))"

definition plru_getVictim :: "int \<Rightarrow> pseudo_lru \<Rightarrow> int option" where
  "plru_getVictim st p = do {
     tree \<leftarrow> array_at (m_trees p) st;
     let index = int (plru_victim_loop (m_num_levels p) 0 (m_effective_assoc p) tree 0 0);
     assert_that (index \<ge> 0 \<and> index < int (m_effective_assoc p));
     Some (if index > int (m_assoc p) - 1 then int (m_assoc p) - 1 else index) }"

subsection \<open>The virtual calls\<close>

datatype replacement_policy = LRU_policy abstract_policy | PseudoLRU_policy pseudo_lru

primrec policy_touch :: "int \<Rightarrow> int \<Rightarrow> Time \<Rightarrow> replacement_policy \<Rightarrow> replacement_policy option" where
  "policy_touch st way time (LRU_policy p) = map_option LRU_policy (lru_touch st way time p)"
| "policy_touch st way time (PseudoLRU_policy p) = map_option PseudoLRU_policy (plru_touch st way time p)"

primrec policy_getVictim :: "int \<Rightarrow> replacement_policy \<Rightarrow> int option" where
  "policy_getVictim st (LRU_policy p) = lru_getVictim st p"
| "policy_getVictim st (PseudoLRU_policy p) = plru_getVictim st p"

primrec policy_getLastAccess :: "int \<Rightarrow> int \<Rightarrow> replacement_policy \<Rightarrow> Time option" where
  "policy_getLastAccess st way (LRU_policy p) = getLastAccess st way p"
| "policy_getLastAccess st way (PseudoLRU_policy p) = getLastAccess st way p"

section \<open>Arrays\<close>

lemma array_at_Some: "array_at xs i = Some x \<longleftrightarrow> 0 \<le> i \<and> i < int (length xs) \<and> x = xs ! nat i"
  by (auto simp: array_at_def)

lemma array_at_in: "0 \<le> i \<Longrightarrow> i < int (length xs) \<Longrightarrow> array_at xs i = Some (xs ! nat i)"
  by (simp add: array_at_def)

lemma array_at_int [simp]: "n < length xs \<Longrightarrow> array_at xs (int n) = Some (xs ! n)"
  by (simp add: array_at_def)

section \<open>Invariants\<close>

definition base_ok :: "nat \<Rightarrow> nat \<Rightarrow> ('a) abstract_policy_scheme \<Rightarrow> bool" where
  "base_ok n a p \<longleftrightarrow> m_num_sets p = n \<and> m_assoc p = a \<and> length (m_last_ref_ptr p) = n \<and>
     (\<forall>row\<in>set (m_last_ref_ptr p). length row = a)"

definition plru_ok :: "nat \<Rightarrow> nat \<Rightarrow> pseudo_lru \<Rightarrow> bool" where
  "plru_ok n a p \<longleftrightarrow> base_ok n a p \<and> m_effective_assoc p = 2 ^ m_num_levels p \<and>
     0 < m_num_levels p \<and> m_num_levels p \<le> 5 \<and> 2 ^ (m_num_levels p - 1) < a \<and>
     a \<le> 2 ^ m_num_levels p \<and> length (m_trees p) = n"

primrec policy_ok :: "nat \<Rightarrow> nat \<Rightarrow> replacement_policy \<Rightarrow> bool" where
  "policy_ok n a (LRU_policy p) \<longleftrightarrow> base_ok n a p \<and> 0 < a"
| "policy_ok n a (PseudoLRU_policy p) \<longleftrightarrow> plru_ok n a p"

lemma base_ok_new:
  "\<lbrakk> 0 \<le> n; n < 2 ^ 32; 0 \<le> a; a < 2 ^ 32 \<rbrakk> \<Longrightarrow>
   base_ok (nat n) (nat a) (AbstractReplacementPolicy_new n a)"
  by (simp add: base_ok_def AbstractReplacementPolicy_new_def Let_def)

lemma set_last_ref_simps [simp]:
  "m_num_sets (set_last_ref st i t p) = m_num_sets p"
  "m_assoc (set_last_ref st i t p) = m_assoc p"
  "length (m_last_ref_ptr (set_last_ref st i t p)) = length (m_last_ref_ptr p)"
  by (simp_all add: set_last_ref_def)

lemma set_last_ref_plru_simps [simp]:
  fixes p :: pseudo_lru
  shows "m_effective_assoc (set_last_ref st i t p) = m_effective_assoc p"
    and "m_num_levels (set_last_ref st i t p) = m_num_levels p"
    and "m_trees (set_last_ref st i t p) = m_trees p"
  by (simp_all add: set_last_ref_def)

lemma base_ok_set_last_ref:
  assumes "base_ok n a p" shows "base_ok n a (set_last_ref st i t p)"
proof (cases "nat st < length (m_last_ref_ptr p)")
  case True
  then have "length (m_last_ref_ptr p ! nat st) = a" using assms by (simp add: base_ok_def)
  then show ?thesis using assms
    by (auto simp: base_ok_def set_last_ref_def dest!: set_update_subset_insert [THEN subsetD])
next
  case False
  then have "(m_last_ref_ptr p)[nat st := row] = m_last_ref_ptr p" for row
    by (simp add: list_update_beyond)
  then show ?thesis using assms by (simp add: base_ok_def set_last_ref_def)
qed

lemma base_ok_row:
  "\<lbrakk> base_ok n a p; 0 \<le> st; st < int n \<rbrakk> \<Longrightarrow>
   \<exists>row. array_at (m_last_ref_ptr p) st = Some row \<and> length row = a"
  by (auto simp: base_ok_def array_at_def)

lemma touch_asserts_in:
  "\<lbrakk> base_ok n a p; 0 \<le> st; st < int n; 0 \<le> i; i < int a \<rbrakk> \<Longrightarrow> touch_asserts st i p = Some ()"
  by (simp add: touch_asserts_def base_ok_def)

section \<open>LRU takes the first way with the least time\<close>

definition first_least :: "'a::linorder list \<Rightarrow> nat \<Rightarrow> nat \<Rightarrow> bool" where
  "first_least xs n j \<longleftrightarrow> j < n \<and> (\<forall>x<n. xs ! j \<le> xs ! x) \<and> (\<forall>x<j. xs ! j < xs ! x)"

lemma first_least_keep: "\<lbrakk> first_least xs i j; xs ! j \<le> xs ! i \<rbrakk> \<Longrightarrow> first_least xs (Suc i) j"
  by (auto simp: first_least_def less_Suc_eq)

lemma first_least_new: "\<lbrakk> first_least xs i j; xs ! i < xs ! j \<rbrakk> \<Longrightarrow> first_least xs (Suc i) i"
  by (auto simp: first_least_def less_Suc_eq intro: less_imp_le less_le_trans)

lemma lru_scan_least:
  assumes "first_least full i j" "drop i full = ts" "i \<le> length full"
  shows "first_least full (length full) (lru_scan ts i j (full ! j))"
  using assms
proof (induction ts arbitrary: i j)
  case (Cons t ts)
  have i: "i < length full" using Cons.prems(2) by (metis drop_all list.distinct(1) not_le)
  have t: "full ! i = t" "drop (Suc i) full = ts"
    using Cons.prems(2) i by (auto simp: Cons_nth_drop_Suc [symmetric])
  show ?case
    using Cons.IH [OF first_least_new [OF Cons.prems(1)] t(2)]
      Cons.IH [OF first_least_keep [OF Cons.prems(1)] t(2)] t(1) i by auto
qed auto

lemma lru_getVictim_least:
  assumes "base_ok n a p" "0 < a" "0 \<le> st" "st < int n"
  obtains v where "lru_getVictim st p = Some (int v)"
    "first_least (m_last_ref_ptr p ! nat st) a v"
proof -
  obtain row where row: "array_at (m_last_ref_ptr p) st = Some row" "length row = a"
    using base_ok_row [OF assms(1,3,4)] by blast
  have "lru_scan row 0 0 (row ! 0) = lru_scan (drop 1 row) 1 0 (row ! 0)"
    using row(2) assms(2) by (cases row) auto
  moreover have "first_least row (length row) (lru_scan (drop 1 row) 1 0 (row ! 0))"
    using row(2) assms(2) by (intro lru_scan_least) (auto simp: first_least_def)
  moreover have "array_at row 0 = Some (row ! 0)" using row(2) assms(2) by (simp add: array_at_def)
  ultimately show thesis using row that [of "lru_scan row 0 0 (row ! 0)"]
    by (simp add: lru_getVictim_def) (simp add: array_at_Some)
qed

section \<open>The bit vectors implement binary trees\<close>

text \<open>The reference: a complete binary tree whose node says which half was touched last.  The
  victim is found by going against the nodes, a touch turns the nodes on the path towards the
  touched way.\<close>

datatype plru_tree = Leaf | Node bool plru_tree plru_tree

primrec depth :: "plru_tree \<Rightarrow> nat" where
  "depth Leaf = 0"
| "depth (Node b l r) = Suc (depth l)"

primrec complete :: "plru_tree \<Rightarrow> bool" where
  "complete Leaf \<longleftrightarrow> True"
| "complete (Node b l r) \<longleftrightarrow> complete l \<and> complete r \<and> depth l = depth r"

primrec tree_victim :: "plru_tree \<Rightarrow> nat" where
  "tree_victim Leaf = 0"
| "tree_victim (Node b l r) = (if b then tree_victim l else 2 ^ depth l + tree_victim r)"

primrec tree_touch :: "nat \<Rightarrow> plru_tree \<Rightarrow> plru_tree" where
  "tree_touch n Leaf = Leaf"
| "tree_touch n (Node b l r) =
     (if bit n (depth l) then Node True l (tree_touch n r) else Node False (tree_touch n l) r)"

text \<open>The tree below the node with index \<open>m - 1\<close>, \<open>d\<close> levels deep.\<close>

primrec tree_of :: "nat \<Rightarrow> (nat \<Rightarrow> bool) \<Rightarrow> nat \<Rightarrow> plru_tree" where
  "tree_of 0 f m = Leaf"
| "tree_of (Suc d) f m = Node (f (m - 1)) (tree_of d f (2 * m)) (tree_of d f (2 * m + 1))"

lemma depth_tree_of [simp]: "depth (tree_of d f m) = d"
  by (induction d arbitrary: m) auto

lemma complete_tree_of [simp]: "complete (tree_of d f m)"
  by (induction d arbitrary: m) auto

definition below :: "nat \<Rightarrow> nat \<Rightarrow> bool" where
  "below m j \<longleftrightarrow> (\<exists>k. (j + 1) div 2 ^ k = m)"

lemma below_child: "below (2 * m) j \<Longrightarrow> below m j" "below (2 * m + 1) j \<Longrightarrow> below m j"
proof -
  have "(j + 1) div 2 ^ k = q \<Longrightarrow> below (q div 2) j" for k q
    unfolding below_def by (intro exI [of _ "Suc k"]) (simp only: power_Suc2 div_mult2_eq)
  from this [of _ "2 * m"] this [of _ "2 * m + 1"]
  show "below (2 * m) j \<Longrightarrow> below m j" "below (2 * m + 1) j \<Longrightarrow> below m j"
    by (auto simp: below_def)
qed

lemma below_self: "0 < m \<Longrightarrow> below m (m - 1)"
  unfolding below_def by (intro exI [of _ 0]) simp

lemma below_disjoint:
  assumes "0 < m" "below (2 * m) j" "below (2 * m + 1) j" shows False
proof -
  obtain k l where kl: "(j + 1) div 2 ^ k = 2 * m" "(j + 1) div 2 ^ l = 2 * m + 1"
    using assms by (auto simp: below_def)
  have shift: "(j + 1) div 2 ^ y = (j + 1) div 2 ^ x div 2 ^ (y - x)" if "x \<le> y" for x y
    using that by (simp add: div_mult2_eq [symmetric] power_add [symmetric])
  consider "k = l" | "k < l" | "l < k" by linarith
  then show False
  proof cases
    case 2
    have "(2 * m) div 2 ^ (l - k) \<le> 2 * m" by (rule div_le_dividend)
    moreover have "(2 * m) div 2 ^ (l - k) = 2 * m + 1" using shift [of k l] 2 kl by simp
    ultimately show ?thesis by linarith
  next
    case 3
    have "(2 * m + 1) div 2 ^ (k - l) \<le> (2 * m + 1) div 2 ^ 1"
      using 3 by (intro div_le_mono2 power_increasing) auto
    then show ?thesis using shift [of l k] 3 kl assms(1) by simp
  qed (use kl in auto)
qed

lemma not_below_parent:
  assumes "0 < m" "m < q" shows "\<not> below q (m - 1)"
proof -
  have "m div 2 ^ k \<noteq> q" for k using div_le_dividend [of m "2 ^ k"] assms(2) by linarith
  then show ?thesis using assms(1) by (simp add: below_def)
qed

lemma tree_of_cong: "0 < m \<Longrightarrow> (\<And>j. below m j \<Longrightarrow> f j = g j) \<Longrightarrow> tree_of d f m = tree_of d g m"
proof (induction d arbitrary: m)
  case (Suc d)
  have "tree_of d f (2 * m) = tree_of d g (2 * m)"
    using Suc.prems(1) by (intro Suc.IH Suc.prems(2)) (auto dest: below_child(1))
  moreover have "tree_of d f (2 * m + 1) = tree_of d g (2 * m + 1)"
    by (intro Suc.IH Suc.prems(2)) (auto dest: below_child(2) [of m, simplified])
  ultimately show ?case using Suc.prems(2) [OF below_self [OF Suc.prems(1)]] by simp
qed simp

lemma bit_scast_shl:
  assumes "t < 31"
  shows "bit (w OR scast (int_shl t) :: 64 word) j \<longleftrightarrow> bit w j \<or> j = t"
    and "bit (w AND scast (NOT (int_shl t)) :: 64 word) j \<longleftrightarrow> bit w j \<and> j \<noteq> t"
  using assms bit_imp_le_length [of w j] by (auto simp: int_shl_def bit_simps)

lemma node_val_bit: "drop_bit i index AND 1 \<noteq> 0 \<longleftrightarrow> bit index i"
  for index :: "'a::{linordered_euclidean_semiring_bit_operations}"
  by (simp add: and_one_eq bit_iff_odd_drop_bit mod_2_eq_odd)

lemma node_val_bit_word: "drop_bit i w AND 1 \<noteq> 0 \<longleftrightarrow> bit w i" for w :: "'a::len word"
  by (simp add: and_one_eq bit_iff_odd_drop_bit mod_2_eq_odd)

text \<open>One level of \<open>touch\<close>, with the node indices counted from 1: the shifts stay inside the
  31 nodes of the five levels.\<close>

lemma plru_touch_loop_step:
  assumes "0 < m" "m < 2 ^ (6 - Suc i)" "Suc i \<le> 5"
  obtains w' where
    "plru_touch_loop (Suc i) n (m - 1) w = plru_touch_loop i n ((if bit n i then 2 * m + 1 else 2 * m) - 1) w'"
    "\<And>j. bit w' j \<longleftrightarrow> (if j = m - 1 then bit n i else bit w j)"
    "2 * m < 2 ^ (6 - i)" "2 * m + 1 < 2 ^ (6 - i)"
proof -
  have "(2::nat) ^ (6 - Suc i) \<le> 2 ^ 5" by (rule power_increasing) auto
  then have t: "m - 1 < 31" using assms by simp
  have e: "(2::nat) ^ (6 - i) = 2 * 2 ^ (6 - Suc i)"
    using assms(3) by (simp add: Suc_diff_Suc flip: power_Suc)
  have ix: "(m - 1) * 2 + 2 = (2 * m + 1) - 1" "(m - 1) * 2 + 1 = 2 * m - 1" using assms(1) by auto
  show thesis
    using that [of "if bit n i then w OR scast (int_shl (m - 1)) else w AND scast (NOT (int_shl (m - 1)))"]
      bit_scast_shl [OF t] assms(2) e node_val_bit [of i n]
    unfolding plru_touch_loop.simps Let_def ix by auto
qed

lemma plru_touch_loop_bits:
  assumes "0 < m" "m < 2 ^ (6 - i)" "i \<le> 5" "\<not> below m j"
  shows "bit (plru_touch_loop i n (m - 1) w) j \<longleftrightarrow> bit w j"
  using assms
proof (induction i arbitrary: m w)
  case (Suc i)
  obtain w' where w': "plru_touch_loop (Suc i) n (m - 1) w =
      plru_touch_loop i n ((if bit n i then 2 * m + 1 else 2 * m) - 1) w'"
    "bit w' j \<longleftrightarrow> (if j = m - 1 then bit n i else bit w j)"
    "2 * m < 2 ^ (6 - i)" "2 * m + 1 < 2 ^ (6 - i)"
    using plru_touch_loop_step [OF Suc.prems(1-3)] by metis
  have "\<not> below (2 * m) j" "\<not> below (2 * m + 1) j"
    using Suc.prems(4) below_child [of m j] by blast+
  moreover have "j \<noteq> m - 1" using Suc.prems(1,4) below_self by blast
  ultimately show ?case
    using Suc.IH [of "2 * m" w'] Suc.IH [of "2 * m + 1" w'] Suc.prems(1,3) w' by simp
qed simp

lemma plru_touch_loop_tree:
  assumes "0 < m" "m < 2 ^ (6 - i)" "i \<le> 5"
  shows "tree_of i (bit (plru_touch_loop i n (m - 1) w)) m = tree_touch n (tree_of i (bit w) m)"
  using assms
proof (induction i arbitrary: m w)
  case (Suc i)
  define c where "c = (if bit n i then 2 * m + 1 else 2 * m)"
  define s where "s = (if bit n i then 2 * m else 2 * m + 1)"
  obtain w' where w': "plru_touch_loop (Suc i) n (m - 1) w = plru_touch_loop i n (c - 1) w'"
    "\<And>j. bit w' j \<longleftrightarrow> (if j = m - 1 then bit n i else bit w j)"
    "2 * m < 2 ^ (6 - i)" "2 * m + 1 < 2 ^ (6 - i)"
    using plru_touch_loop_step [OF Suc.prems, of n w] unfolding c_def by metis
  have c: "0 < c" "c < 2 ^ (6 - i)" "i \<le> 5" "0 < s" "m < c" "m < s"
    using w'(3,4) Suc.prems by (auto simp: c_def s_def)
  have off: "bit (plru_touch_loop i n (c - 1) w') j \<longleftrightarrow> bit w' j" if "\<not> below c j" for j
    using plru_touch_loop_bits [OF c(1-3) that] .
  have apart: "\<not> below c j" if "below s j" for j
    using that below_disjoint [OF Suc.prems(1), of j] by (auto simp: c_def s_def split: if_splits)
  have node: "bit (plru_touch_loop i n (c - 1) w') (m - 1) \<longleftrightarrow> bit n i"
    using off [OF not_below_parent [OF Suc.prems(1) c(5)]] w'(2) by simp
  have parent: "bit w' j \<longleftrightarrow> bit w j" if "below q j" "m < q" for q j
    using that w'(2) not_below_parent [OF Suc.prems(1)] by metis
  have sib: "tree_of i (bit (plru_touch_loop i n (c - 1) w')) s = tree_of i (bit w) s"
    using off apart parent c(6) by (intro tree_of_cong c(4)) metis
  have "tree_of i (bit w') c = tree_of i (bit w) c"
    using parent c(5) by (intro tree_of_cong c(1)) metis
  then have child: "tree_of i (bit (plru_touch_loop i n (c - 1) w')) c = tree_touch n (tree_of i (bit w) c)"
    using Suc.IH [OF c(1-3)] by simp
  show ?case
    unfolding w'(1) using node sib child by (simp add: c_def s_def split: if_splits)
qed simp

lemma plru_victim_loop_tree:
  assumes "0 < m"
  shows "plru_victim_loop d i (2 ^ (i + d)) w (m - 1) index = index + tree_victim (tree_of d (bit w) m)"
  using assms
proof (induction d arbitrary: i m index)
  case (Suc d)
  have ix: "(m - 1) * 2 + 2 = (2 * m + 1) - 1" "(m - 1) * 2 + 1 = 2 * m - 1" using Suc.prems by auto
  have "drop_bit (i + 1) (2 ^ (i + Suc d)) = (2::nat) ^ d"
    by (simp add: drop_bit_eq_div power_add)
  then show ?case
    using Suc.IH [of "2 * m" "Suc i"] Suc.IH [of "2 * m + 1" "Suc i"] Suc.prems
    unfolding plru_victim_loop.simps Let_def ix node_val_bit_word by (simp add: ac_simps)
qed simp

section \<open>Facts on the trees\<close>

lemma tree_victim_less: "complete t \<Longrightarrow> tree_victim t < 2 ^ depth t"
  by (induction t) (auto intro: less_trans)

lemma depth_touch [simp]: "depth (tree_touch n t) = depth t"
  by (induction t) auto

lemma complete_touch: "complete t \<Longrightarrow> complete (tree_touch n t)"
  by (induction t) auto

lemma tree_touch_take_bit:
  "complete t \<Longrightarrow> (\<And>k. k < depth t \<Longrightarrow> bit n k = bit n' k) \<Longrightarrow> tree_touch n t = tree_touch n' t"
  by (induction t) auto

text \<open>The victim after a touch lies in the other half.\<close>

lemma victim_other_half:
  assumes "complete t" "0 < depth t"
  shows "tree_victim (tree_touch n t) < 2 ^ (depth t - 1) \<longleftrightarrow> bit n (depth t - 1)"
proof (cases t)
  case (Node b l r)
  then show ?thesis using assms tree_victim_less [of l] by auto
qed (use assms in simp)

definition tree_round :: "plru_tree \<Rightarrow> plru_tree" where
  "tree_round t = tree_touch (tree_victim t) t"

lemma tree_round_Node:
  assumes "complete (Node b l r)"
  shows "tree_round (Node b l r) =
    (if b then Node False (tree_round l) r else Node True l (tree_round r))"
proof (cases b)
  case True
  have "tree_victim l < 2 ^ depth l" using assms tree_victim_less [of l] by simp
  then have "\<not> bit (tree_victim l) (depth l)"
    by (simp add: bit_iff_odd)
  then show ?thesis using True by (simp add: tree_round_def)
next
  case False
  have v: "tree_victim r < 2 ^ depth l" using assms tree_victim_less [of r] by simp
  then have d: "(2 ^ depth l + tree_victim r) div 2 ^ depth l = 1"
    using div_add_self1 [of "2 ^ depth l" "tree_victim r"] by simp
  then have top: "bit (2 ^ depth l + tree_victim r) (depth l)" by (simp add: bit_iff_odd)
  have "take_bit (depth l) (2 ^ depth l + tree_victim r) = take_bit (depth l) (tree_victim r)"
    by (simp add: take_bit_eq_mod)
  then have "bit (2 ^ depth l + tree_victim r) k = bit (tree_victim r) k" if "k < depth r" for k
    using that assms by (metis bit_take_bit_iff complete.simps(2))
  then have "tree_touch (2 ^ depth l + tree_victim r) r = tree_touch (tree_victim r) r"
    using assms by (intro tree_touch_take_bit) auto
  then show ?thesis using False top by (simp add: tree_round_def)
qed

lemma depth_round [simp]: "depth (tree_round t) = depth t"
  by (simp add: tree_round_def)

lemma round_shape [simp]: "depth ((tree_round ^^ n) t) = depth t"
  by (induction n) simp_all

lemma round_complete: "complete t \<Longrightarrow> complete ((tree_round ^^ n) t)"
  by (induction n) (simp_all add: tree_round_def complete_touch)

lemma rounds_Node:
  assumes "complete (Node b l r)"
  shows "(tree_round ^^ (2 * n)) (Node b l r) = Node b ((tree_round ^^ n) l) ((tree_round ^^ n) r)"
proof (induction n)
  case (Suc n)
  define l' r' where "l' = (tree_round ^^ n) l" and "r' = (tree_round ^^ n) r"
  have c: "complete l'" "complete r'" "depth l' = depth r'"
    using assms by (auto simp: l'_def r'_def round_complete)
  have c': "complete (tree_round l')" "complete (tree_round r')"
    "depth (tree_round l') = depth l'" "depth (tree_round r') = depth r'"
    using c by (simp_all add: tree_round_def complete_touch)
  have "(tree_round ^^ (2 * Suc n)) (Node b l r) = tree_round (tree_round (Node b l' r'))"
    using Suc by (simp add: l'_def r'_def)
  also have "\<dots> = Node b (tree_round l') (tree_round r')"
    using c c' by (simp add: tree_round_Node)
  finally show ?case by (simp add: l'_def r'_def)
qed simp

lemma victim_of_round:
  assumes "complete (Node b l r)"
  shows "tree_victim ((tree_round ^^ (2 * n + (if b then 0 else 1))) (Node b l r)) = tree_victim ((tree_round ^^ n) l)"
    and "tree_victim ((tree_round ^^ (2 * n + (if b then 1 else 0))) (Node b l r)) =
      2 ^ depth l + tree_victim ((tree_round ^^ n) r)"
proof -
  have "complete (Node b ((tree_round ^^ n) l) ((tree_round ^^ n) r))"
    using assms by (simp add: round_complete)
  then show "tree_victim ((tree_round ^^ (2 * n + (if b then 0 else 1))) (Node b l r)) = tree_victim ((tree_round ^^ n) l)"
    "tree_victim ((tree_round ^^ (2 * n + (if b then 1 else 0))) (Node b l r)) =
      2 ^ depth l + tree_victim ((tree_round ^^ n) r)"
    using rounds_Node [OF assms, of n] by (auto simp: tree_round_Node)
qed

text \<open>A period of \<open>2 ^ d\<close> rounds finds every leaf.\<close>

lemma rounds_reach_all:
  "complete t \<Longrightarrow> v < 2 ^ depth t \<Longrightarrow> \<exists>k<2 ^ depth t. tree_victim ((tree_round ^^ k) t) = v"
proof (induction t arbitrary: v)
  case (Node b l r)
  show ?case
  proof (cases "v < 2 ^ depth l")
    case True
    then obtain k where "k < 2 ^ depth l" "tree_victim ((tree_round ^^ k) l) = v"
      using Node by auto
    then show ?thesis using victim_of_round(1) [OF Node.prems(1), of k]
      by (intro exI [of _ "2 * k + (if b then 0 else 1)"]) auto
  next
    case False
    then have "v - 2 ^ depth l < 2 ^ depth r" using Node.prems by auto
    then obtain k where "k < 2 ^ depth r" "tree_victim ((tree_round ^^ k) r) = v - 2 ^ depth l"
      using Node by auto
    then show ?thesis using victim_of_round(2) [OF Node.prems(1), of k] False Node.prems(1)
      by (intro exI [of _ "2 * k + (if b then 1 else 0)"]) auto
  qed
qed auto

lemma rounds_permute:
  assumes "complete t"
  shows "set (map (\<lambda>k. tree_victim ((tree_round ^^ k) t)) [0..<2 ^ depth t]) = {..<2 ^ depth t}"
    and "distinct (map (\<lambda>k. tree_victim ((tree_round ^^ k) t)) [0..<2 ^ depth t])"
proof -
  show eq: "set (map (\<lambda>k. tree_victim ((tree_round ^^ k) t)) [0..<2 ^ depth t]) = {..<2 ^ depth t}"
    using rounds_reach_all [OF assms] tree_victim_less [OF round_complete [OF assms]]
    by (auto simp: image_iff) (metis atLeastLessThan_iff zero_le)
  show "distinct (map (\<lambda>k. tree_victim ((tree_round ^^ k) t)) [0..<2 ^ depth t])"
    by (rule card_distinct) (simp only: eq, simp)
qed

section \<open>The tree policy on its trees\<close>

definition set_tree :: "pseudo_lru \<Rightarrow> int \<Rightarrow> plru_tree" where
  "set_tree p st = tree_of (m_num_levels p) (bit (m_trees p ! nat st)) 1"

lemma set_tree_shape [simp]: "depth (set_tree p st) = m_num_levels p" "complete (set_tree p st)"
  by (simp_all add: set_tree_def)

lemma plru_touch_refines:
  assumes "plru_ok n a p" "0 \<le> st" "st < int n" "0 \<le> i" "i < int a"
  obtains p' where "plru_touch st i time p = Some p'" "plru_ok n a p'"
    "set_tree p' st = tree_touch (nat i) (set_tree p st)"
    "m_num_levels p' = m_num_levels p" "m_effective_assoc p' = m_effective_assoc p"
    "\<And>st'. \<lbrakk> 0 \<le> st'; st' \<noteq> st \<rbrakk> \<Longrightarrow> set_tree p' st' = set_tree p st'"
proof -
  let ?w = "plru_touch_loop (m_num_levels p) (nat i) 0 (m_trees p ! nat st)"
  let ?q = "p\<lparr>m_trees := (m_trees p)[nat st := ?w]\<rparr>"
  let ?p = "set_last_ref st i time ?q"
  have ok: "base_ok n a p" "m_num_levels p \<le> 5" "nat st < length (m_trees p)"
    using assms by (auto simp: plru_ok_def)
  have r: "plru_touch st i time p = Some ?p"
    using touch_asserts_in [OF ok(1) assms(2-5)] by (simp add: plru_touch_def)
  have "base_ok n a ?q" using ok(1) by (simp add: base_ok_def)
  then have "plru_ok n a ?p" using assms(1) base_ok_set_last_ref [of n a ?q st i time]
    by (simp add: plru_ok_def)
  moreover have "(2::nat) ^ 1 \<le> 2 ^ (6 - m_num_levels p)"
    using ok(2) by (intro power_increasing) auto
  then have "set_tree ?p st = tree_touch (nat i) (set_tree p st)"
    using plru_touch_loop_tree [of 1 "m_num_levels p" "nat i" "m_trees p ! nat st"] ok
    by (simp add: set_tree_def)
  moreover have "set_tree ?p st' = set_tree p st'" if "0 \<le> st'" "st' \<noteq> st" for st'
    using that assms(2) by (simp add: set_tree_def nth_list_update eq_nat_nat_iff)
  ultimately show thesis using r by (intro that [of ?p]) auto
qed

lemma plru_victim_refines:
  assumes "plru_ok n a p" "0 \<le> st" "st < int n"
  shows "plru_getVictim st p = Some (min (int (tree_victim (set_tree p st))) (int a - 1))"
proof -
  have ok: "m_effective_assoc p = 2 ^ m_num_levels p" "m_assoc p = a" "length (m_trees p) = n"
    using assms(1) by (auto simp: plru_ok_def base_ok_def)
  have "plru_victim_loop (m_num_levels p) 0 (m_effective_assoc p) (m_trees p ! nat st) 0 0 =
      tree_victim (set_tree p st)"
    using plru_victim_loop_tree [of 1 "m_num_levels p" 0 "m_trees p ! nat st" 0] ok
    by (simp add: set_tree_def)
  moreover have "int (tree_victim (set_tree p st)) < 2 ^ m_num_levels p"
    using tree_victim_less [of "set_tree p st"] by simp
  ultimately show ?thesis
    using ok assms(2,3) by (simp add: plru_getVictim_def array_at_in Let_def min_def)
qed

section \<open>The contract of a replacement policy\<close>

text \<open>What the caches rely on: a touch of a way of a set succeeds and any other touch aborts,
  and the victim is a way.\<close>

locale replacement =
  fixes ok :: "nat \<Rightarrow> nat \<Rightarrow> 'p \<Rightarrow> bool"
    and touch :: "int \<Rightarrow> int \<Rightarrow> Time \<Rightarrow> 'p \<Rightarrow> 'p option"
    and victim :: "int \<Rightarrow> 'p \<Rightarrow> int option"
  assumes touch_in: "\<lbrakk> ok n a p; 0 \<le> st; st < int n; 0 \<le> i; i < int a \<rbrakk> \<Longrightarrow>
      \<exists>p'. touch st i t p = Some p' \<and> ok n a p'"
    and touch_out: "\<lbrakk> ok n a p; \<not> (0 \<le> i \<and> i < int a) \<rbrakk> \<Longrightarrow> touch st i t p = None"
    and victim_in: "\<lbrakk> ok n a p; 0 \<le> st; st < int n \<rbrakk> \<Longrightarrow>
      \<exists>v. victim st p = Some v \<and> 0 \<le> v \<and> v < int a"
begin

lemma touches_in:
  assumes "ok n a p" "\<forall>(st, i, t)\<in>set ts. 0 \<le> st \<and> st < int n \<and> 0 \<le> i \<and> i < int a"
  shows "\<exists>p'. run_all (\<lambda>(st, i, t). touch st i t) ts p = Some p' \<and> ok n a p'"
  using assms
proof (induction ts arbitrary: p)
  case (Cons x ts)
  obtain st i t where x: "x = (st, i, t)" by (cases x)
  obtain p1 where p1: "touch st i t p = Some p1" "ok n a p1"
    using touch_in [of n a p st i t] Cons.prems x by auto
  then show ?case using Cons.IH [OF p1(2)] Cons.prems x by simp
qed simp

lemma victim_after_touches:
  assumes "ok n a p" "\<forall>(st, i, t)\<in>set ts. 0 \<le> st \<and> st < int n \<and> 0 \<le> i \<and> i < int a"
    "0 \<le> s" "s < int n"
  shows "\<exists>p' v. run_all (\<lambda>(st, i, t). touch st i t) ts p = Some p' \<and> victim s p' = Some v \<and>
    0 \<le> v \<and> v < int a"
  using touches_in [OF assms(1,2)] victim_in [OF _ assms(3,4)] by fastforce

end

text \<open>A policy that spares the way touched last, when the touch is newer than every other one of
  the set in the sense of the policy.\<close>

locale mru_safe = replacement ok touch victim
  for ok :: "nat \<Rightarrow> nat \<Rightarrow> 'p \<Rightarrow> bool"
    and touch :: "int \<Rightarrow> int \<Rightarrow> Time \<Rightarrow> 'p \<Rightarrow> 'p option"
    and victim :: "int \<Rightarrow> 'p \<Rightarrow> int option" +
  fixes newer :: "int \<Rightarrow> int \<Rightarrow> Time \<Rightarrow> 'p \<Rightarrow> bool"
  assumes spares: "\<lbrakk> ok n a p; 2 \<le> a; 0 \<le> st; st < int n; newer st i t p; touch st i t p = Some p' \<rbrakk> \<Longrightarrow>
    victim st p' \<noteq> Some i"
begin

lemma victim_is_other_way:
  assumes "ok n a p" "2 \<le> a" "0 \<le> st" "st < int n" "0 \<le> i" "i < int a" "newer st i t p"
  shows "\<exists>p' v. touch st i t p = Some p' \<and> victim st p' = Some v \<and> 0 \<le> v \<and> v < int a \<and> v \<noteq> i"
proof -
  obtain p' where p': "touch st i t p = Some p'" "ok n a p'"
    using touch_in [OF assms(1,3-6)] by blast
  then show ?thesis using victim_in [OF p'(2) assms(3,4)] spares [OF assms(1-4,7) p'(1)] by auto
qed

end

primrec policy_newer :: "int \<Rightarrow> int \<Rightarrow> Time \<Rightarrow> replacement_policy \<Rightarrow> bool" where
  "policy_newer st i t (LRU_policy p) \<longleftrightarrow>
     (\<forall>j<m_assoc p. int j \<noteq> i \<longrightarrow> m_last_ref_ptr p ! nat st ! j < t)"
| "policy_newer st i t (PseudoLRU_policy p) \<longleftrightarrow> True"

lemma lru_touch_in:
  assumes "base_ok n a p" "0 \<le> st" "st < int n" "0 \<le> i" "i < int a"
  shows "lru_touch st i t p = Some (set_last_ref st i t p)"
  using touch_asserts_in [OF assms] by (simp add: lru_touch_def)

lemma touch_asserts_out: "\<lbrakk> base_ok n a p; \<not> (0 \<le> i \<and> i < int a) \<rbrakk> \<Longrightarrow> touch_asserts st i p = None"
  by (auto simp: touch_asserts_def base_ok_def)

lemma lru_touch_out: "\<lbrakk> base_ok n a p; \<not> (0 \<le> i \<and> i < int a) \<rbrakk> \<Longrightarrow> lru_touch st i t p = None"
  using touch_asserts_out [of n a p i st] by (simp add: lru_touch_def)

lemma plru_touch_out: "\<lbrakk> plru_ok n a p; \<not> (0 \<le> i \<and> i < int a) \<rbrakk> \<Longrightarrow> plru_touch st i t p = None"
  using touch_asserts_out [of n a p i st] by (simp add: plru_touch_def plru_ok_def)

interpretation policy: replacement policy_ok policy_touch policy_getVictim
proof
  fix n a p st i t
  show "\<exists>p'. policy_touch st i t p = Some p' \<and> policy_ok n a p'"
    if "policy_ok n a p" "0 \<le> st" "st < int n" "0 \<le> i" "i < int a"
  proof (cases p)
    case (LRU_policy q)
    then show ?thesis using that lru_touch_in [of n a q st i t] base_ok_set_last_ref [of n a q st i t] by simp
  next
    case (PseudoLRU_policy q)
    then have q: "plru_ok n a q" "0 \<le> st" "st < int n" "0 \<le> i" "i < int a" using that by simp_all
    obtain q' where "plru_touch st i t q = Some q'" "plru_ok n a q'"
      by (rule plru_touch_refines [OF q, of t])
    then show ?thesis using PseudoLRU_policy by simp
  qed
  show "policy_touch st i t p = None" if "policy_ok n a p" "\<not> (0 \<le> i \<and> i < int a)"
    using that lru_touch_out [of n a _ i st t] plru_touch_out [of n a _ i st t] by (cases p) auto
  show "\<exists>v. policy_getVictim st p = Some v \<and> 0 \<le> v \<and> v < int a"
    if "policy_ok n a p" "0 \<le> st" "st < int n"
  proof (cases p)
    case (LRU_policy q)
    then have q: "base_ok n a q" "0 < a" "0 \<le> st" "st < int n" using that by simp_all
    obtain v where "lru_getVictim st q = Some (int v)" "first_least (m_last_ref_ptr q ! nat st) a v"
      by (rule lru_getVictim_least [OF q])
    then show ?thesis using LRU_policy by (simp add: first_least_def)
  next
    case (PseudoLRU_policy q)
    then show ?thesis using that plru_victim_refines [of n a q st] by (auto simp: plru_ok_def)
  qed
qed

lemma lru_spares:
  assumes "base_ok n a p" "2 \<le> a" "0 \<le> st" "st < int n" "policy_newer st i t (LRU_policy p)"
    "lru_touch st i t p = Some p'"
  shows "lru_getVictim st p' \<noteq> Some i"
proof -
  have i: "0 \<le> i" "i < int a" "p' = set_last_ref st i t p" "m_assoc p = a"
    using assms(1,6) by (auto simp: lru_touch_def touch_asserts_def base_ok_def abort_simps)
  have len: "nat st < length (m_last_ref_ptr p)" "length (m_last_ref_ptr p ! nat st) = a"
    using assms(1,3,4) by (auto simp: base_ok_def)
  obtain v where v: "lru_getVictim st p' = Some (int v)" "first_least (m_last_ref_ptr p' ! nat st) a v"
    by (rule lru_getVictim_least [of n a p' st])
      (use assms base_ok_set_last_ref [OF assms(1)] i(3) in auto)
  have row: "m_last_ref_ptr p' ! nat st = (m_last_ref_ptr p ! nat st)[nat i := t]"
    using len i(3) by (simp add: set_last_ref_def)
  obtain j where j: "j < a" "int j \<noteq> i" using assms(2) that [of 0] that [of 1] by (cases "i = 0") auto
  then have "m_last_ref_ptr p ! nat st ! j < t" using assms(5) i(4) by simp
  moreover have "m_last_ref_ptr p' ! nat st ! j = m_last_ref_ptr p ! nat st ! j"
    using row j(2) i(1) by (metis nth_list_update_neq int_nat_eq)
  moreover have "m_last_ref_ptr p' ! nat st ! nat i = t" using row len i by simp
  ultimately have "v \<noteq> nat i" using v(2) j(1) by (force simp: first_least_def)
  then show ?thesis using v(1) i(1) by auto
qed

lemma plru_spares:
  assumes "plru_ok n a p" "0 \<le> st" "st < int n" "plru_touch st i t p = Some p'"
  shows "plru_getVictim st p' \<noteq> Some i"
proof -
  have i: "0 \<le> i" "i < int a"
    using assms(1,4) by (auto simp: plru_touch_def touch_asserts_def plru_ok_def base_ok_def abort_simps)
  obtain q where q: "plru_touch st i t p = Some q" "plru_ok n a q"
    "set_tree q st = tree_touch (nat i) (set_tree p st)" "m_num_levels q = m_num_levels p"
    by (rule plru_touch_refines [OF assms(1-3) i, of t])
  define L where "L = m_num_levels p"
  define v where "v = tree_victim (set_tree q st)"
  have L: "0 < L" "2 ^ (L - 1) < a" "a \<le> 2 ^ L" using assms(1) by (auto simp: plru_ok_def L_def)
  have "v < 2 ^ (L - 1) \<longleftrightarrow> bit (nat i) (L - 1)"
    using victim_other_half [of "set_tree p st" "nat i"] L(1) q(3) by (simp add: v_def L_def)
  also have "\<dots> \<longleftrightarrow> 2 ^ (L - 1) \<le> nat i"
  proof -
    have "nat i < 2 * 2 ^ (L - 1)" using i L(1,3) by (cases L) auto
    then have "nat i div 2 ^ (L - 1) < 2" by (simp add: less_mult_imp_div_less)
    then have "odd (nat i div 2 ^ (L - 1)) \<longleftrightarrow> 0 < nat i div 2 ^ (L - 1)"
      by (auto simp: less_2_cases_iff)
    then show ?thesis by (simp add: bit_iff_odd div_greater_zero_iff)
  qed
  finally have "v < 2 ^ (L - 1) \<longleftrightarrow> 2 ^ (L - 1) \<le> nat i" .
  then have "min (int v) (int a - 1) \<noteq> i" using L(2) i by (auto simp: min_def split: if_splits)
  then show ?thesis using plru_victim_refines [OF q(2) assms(2,3)] q(1) assms(4) by (simp add: v_def)
qed

interpretation policy: mru_safe policy_ok policy_touch policy_getVictim policy_newer
proof
  fix n a p st i t p'
  assume "policy_ok n a p" "2 \<le> a" "0 \<le> st" "st < int n" "policy_newer st i t p" "policy_touch st i t p = Some p'"
  then show "policy_getVictim st p' \<noteq> Some i"
    using lru_spares [of n a _ st i t] plru_spares [of n a _ st i t] by (cases p) auto
qed

section \<open>Properties\<close>

text \<open>Rounds of replacement on one set: find the victim, fill it and touch it.\<close>

fun plru_rounds :: "int \<Rightarrow> Time list \<Rightarrow> pseudo_lru \<Rightarrow> int list option" where
  "plru_rounds st [] p = Some []"
| "plru_rounds st (t # ts) p = do {
     v \<leftarrow> plru_getVictim st p;
     p' \<leftarrow> plru_touch st v t p;
     vs \<leftarrow> plru_rounds st ts p';
     Some (v # vs) }"

lemma plru_rounds_trees:
  assumes "plru_ok n (2 ^ m_num_levels p) p" "0 \<le> st" "st < int n"
  shows "plru_rounds st ts p =
    Some (map (\<lambda>k. int (tree_victim ((tree_round ^^ k) (set_tree p st)))) [0..<length ts])"
  using assms
proof (induction ts arbitrary: p)
  case (Cons t ts)
  let ?v = "tree_victim (set_tree p st)"
  have v: "?v < 2 ^ m_num_levels p" using tree_victim_less [of "set_tree p st"] by simp
  then have vi: "int ?v < int (2 ^ m_num_levels p)" by (simp only: of_nat_less_iff)
  have g: "plru_getVictim st p = Some (int ?v)"
    using plru_victim_refines [OF Cons.prems] vi by simp
  obtain p' where p': "plru_touch st (int ?v) t p = Some p'" "plru_ok n (2 ^ m_num_levels p) p'"
    "set_tree p' st = tree_touch (nat (int ?v)) (set_tree p st)" "m_num_levels p' = m_num_levels p"
    by (rule plru_touch_refines [OF Cons.prems _ vi, of t]) auto
  have r: "set_tree p' st = tree_round (set_tree p st)" using p'(3) by (simp add: tree_round_def)
  have "plru_rounds st ts p' =
      Some (map (\<lambda>k. int (tree_victim ((tree_round ^^ Suc k) (set_tree p st)))) [0..<length ts])"
    using Cons.IH [of p'] Cons.prems(2,3) p'(2,4) r by (simp add: funpow_swap1)
  moreover have "[0..<length (t # ts)] = 0 # map Suc [0..<length ts]"
    by (simp add: map_Suc_upt upt_conv_Cons del: upt_Suc)
  ultimately show ?case using g p'(1) by simp
qed simp

lemma effective_assoc_loop_ceiling:
  assumes "assoc \<le> 2 ^ (k + m)" "k = 0 \<or> 2 ^ (k - 1) < assoc"
  shows "\<exists>L\<le>k + m. effective_assoc_loop assoc (2 ^ k) = 2 ^ L \<and> assoc \<le> 2 ^ L \<and> (L = 0 \<or> 2 ^ (L - 1) < assoc)"
  using assms
proof (induction m arbitrary: k)
  case 0
  then show ?case by (intro exI [of _ k]) (simp add: effective_assoc_loop.simps [of _ "2 ^ k"])
next
  case (Suc m)
  show ?case
  proof (cases "2 ^ k < assoc")
    case True
    then have "effective_assoc_loop assoc (2 ^ k) = effective_assoc_loop assoc (2 ^ Suc k)"
      by (simp add: effective_assoc_loop.simps [of _ "2 ^ k"] push_bit_eq_mult mult.commute)
    then show ?thesis using Suc.IH [of "Suc k"] Suc.prems True by simp
  next
    case False
    then show ?thesis using Suc.prems
      by (intro exI [of _ k]) (simp add: effective_assoc_loop.simps [of _ "2 ^ k"])
  qed
qed

lemma num_levels_loop_power: "num_levels_loop (2 ^ L) l = L + l"
proof (induction L arbitrary: l)
  case 0
  show ?case by (simp add: num_levels_loop.simps [of "Suc 0"])
next
  case (Suc L)
  then show ?case by (simp add: num_levels_loop.simps [of "2 * _"])
qed

lemma PseudoLRUPolicy_new_ok:
  assumes "PseudoLRUPolicy_new num_sets assoc = Some p" "num_sets < 2 ^ 32"
  shows "plru_ok (nat num_sets) (nat assoc) p"
proof -
  have r: "0 < num_sets" "1 < assoc" "assoc \<le> 32"
    using assms(1) by (auto simp: PseudoLRUPolicy_new_def Let_def abort_simps)
  obtain L where L: "L \<le> 5" "effective_assoc_loop assoc 1 = 2 ^ L" "assoc \<le> 2 ^ L" "L = 0 \<or> 2 ^ (L - 1) < assoc"
    using effective_assoc_loop_ceiling [of assoc 0 5] r(3) by auto
  have "0 < L" using L(3) r(2) by (cases L) auto
  moreover have "base_ok (nat num_sets) (nat assoc) (AbstractReplacementPolicy_new num_sets assoc)"
    using r assms(2) by (intro base_ok_new) auto
  moreover have "m_num_sets (AbstractReplacementPolicy_new num_sets assoc) = nat num_sets"
    using r assms(2) by (simp add: AbstractReplacementPolicy_new_def Let_def)
  ultimately show ?thesis using assms(1) L r
    by (auto simp: PseudoLRUPolicy_new_def Let_def num_levels_loop_power plru_ok_def base_ok_def
      abort_simps abstract_policy.defs nat_le_iff nat_less_iff zless_nat_conj zless_nat_eq_int_zless)
qed

text \<open>C25. Replacement with the tree policy is fair when the associativity is a power of two: in
  as many consecutive rounds (find the victim of the set, fill it and touch it) as the set has
  ways, from any state of the bits, every way is the victim exactly once.\<close>

theorem plru_rounds_visit_every_way:
  assumes "plru_ok n a p" "a = 2 ^ k" "0 \<le> st" "st < int n" "length ts = a"
  shows "\<exists>vs. plru_rounds st ts p = Some vs \<and> distinct vs \<and> set vs = {0..<int a}"
proof -
  have L: "0 < m_num_levels p" "2 ^ (m_num_levels p - 1) < (2::nat) ^ k" "(2::nat) ^ k \<le> 2 ^ m_num_levels p"
    using assms(1,2) by (auto simp: plru_ok_def)
  then have "m_num_levels p - 1 < k" "k \<le> m_num_levels p" by (simp_all add: power_strict_increasing_iff)
  then have a: "a = 2 ^ m_num_levels p" using L(1) assms(2) by (simp add: le_antisym Suc_leI)
  let ?vs = "map (\<lambda>k. tree_victim ((tree_round ^^ k) (set_tree p st))) [0..<2 ^ depth (set_tree p st)]"
  have "plru_rounds st ts p = Some (map int ?vs)"
    using plru_rounds_trees [of n p st ts] assms a by (simp add: comp_def)
  moreover have "distinct (map int ?vs)"
    using rounds_permute(2) [of "set_tree p st"] by (subst distinct_map) (simp add: inj_on_def)
  moreover have "set (map int ?vs) = {0..<int a}"
    using rounds_permute(1) [of "set_tree p st"] a
    by (subst set_map) (simp add: image_int_atLeastLessThan [of 0, simplified] lessThan_atLeast0)
  ultimately show ?thesis by blast
qed

definition sample_plru :: pseudo_lru where
  "sample_plru = \<lparr>m_num_sets = 2, m_assoc = 4, m_last_ref_ptr = [[0, 0, 0, 0], [0, 0, 0, 0]],
     m_effective_assoc = 4, m_num_levels = 2, m_trees = [0, 6]\<rparr>"

lemma sample_plru_ok: "plru_ok 2 4 sample_plru"
  by (simp add: sample_plru_def plru_ok_def base_ok_def)

lemma plru_rounds_visit_every_way_witness:
  "\<exists>vs. plru_rounds 1 [5, 6, 7, 8] sample_plru = Some vs \<and> distinct vs \<and> set vs = {0..<4}"
  using plru_rounds_visit_every_way [OF sample_plru_ok, of 2 1 "[5, 6, 7, 8]"]
  by (simp del: plru_rounds.simps)

text \<open>Neither policy gives up the way that was just touched: when a set has at least two ways
  and a way is touched (for LRU: at a time later than the last reference of every other way), the
  touch succeeds, and the victim of the set is then another of its ways.  For the tree policy this
  holds for every associativity, powers of two or not.\<close>

theorem policy_spares_touched_way:
  assumes "policy_ok n a p" "2 \<le> a" "0 \<le> st" "st < int n" "0 \<le> way" "way < int a"
    and "policy_newer st way time p"
  shows "\<exists>p' v. policy_touch st way time p = Some p' \<and> policy_getVictim st p' = Some v \<and>
    0 \<le> v \<and> v < int a \<and> v \<noteq> way"
  using assms by (rule policy.victim_is_other_way)

lemma policy_spares_touched_way_witness:
  "\<exists>p' v. policy_touch 1 3 9 (PseudoLRU_policy sample_plru) = Some p' \<and> policy_getVictim 1 p' = Some v \<and>
    0 \<le> v \<and> v < 4 \<and> v \<noteq> 3"
  using policy_spares_touched_way [of 2 4 "PseudoLRU_policy sample_plru" 1 3 9] sample_plru_ok by simp

text \<open>The LRU policy replaces the oldest way: in a policy of positive associativity the victim
  of a set is a way whose last access is no later than that of any way of the set, and the first
  such way.\<close>

theorem lru_victim_is_oldest:
  assumes "policy_ok n a (LRU_policy p)" "0 \<le> st" "st < int n"
  shows "\<exists>v t. policy_getVictim st (LRU_policy p) = Some v \<and> getLastAccess st v p = Some t \<and>
    0 \<le> v \<and> v < int a \<and>
    (\<forall>w t'. getLastAccess st w p = Some t' \<longrightarrow> t \<le> t' \<and> (w < v \<longrightarrow> t < t'))"
proof -
  obtain v where v: "lru_getVictim st p = Some (int v)" "first_least (m_last_ref_ptr p ! nat st) a v"
    by (rule lru_getVictim_least [of n a p st]) (use assms in auto)
  obtain row where row: "array_at (m_last_ref_ptr p) st = Some row" "length row = a"
    using base_ok_row [of n a p st] assms by auto
  then have "row = m_last_ref_ptr p ! nat st" by (simp add: array_at_Some)
  then have "first_least row a v" using v(2) by simp
  moreover have "getLastAccess st w p = array_at row w" for w
    using row(1) by (simp add: getLastAccess_def)
  ultimately have "getLastAccess st (int v) p = Some (row ! v) \<and> int v < int a \<and>
      (\<forall>w t'. getLastAccess st w p = Some t' \<longrightarrow> row ! v \<le> t' \<and> (w < int v \<longrightarrow> row ! v < t'))"
    using row(2) by (auto simp: first_least_def array_at_Some)
  then show ?thesis using v(1) by auto
qed

definition sample_lru :: abstract_policy where
  "sample_lru = \<lparr>m_num_sets = 1, m_assoc = 3, m_last_ref_ptr = [[7, 4, 4]]\<rparr>"

lemma lru_victim_is_oldest_witness:
  "policy_getVictim 0 (LRU_policy sample_lru) = Some 1 \<and>
   (\<exists>v t. policy_getVictim 0 (LRU_policy sample_lru) = Some v \<and> getLastAccess 0 v sample_lru = Some t \<and>
    0 \<le> v \<and> v < 3 \<and>
    (\<forall>w t'. getLastAccess 0 w sample_lru = Some t' \<longrightarrow> t \<le> t' \<and> (w < v \<longrightarrow> t < t')))"
proof
  show "policy_getVictim 0 (LRU_policy sample_lru) = Some 1" by code_simp
  show "\<exists>v t. policy_getVictim 0 (LRU_policy sample_lru) = Some v \<and> getLastAccess 0 v sample_lru = Some t \<and>
    0 \<le> v \<and> v < 3 \<and>
    (\<forall>w t'. getLastAccess 0 w sample_lru = Some t' \<longrightarrow> t \<le> t' \<and> (w < v \<longrightarrow> t < t'))"
    using lru_victim_is_oldest [of 1 3 sample_lru 0]
    by (simp add: sample_lru_def base_ok_def)
qed

end
