(* ===== verification/Cache_Memory.thy ===== *)
theory Cache_Memory
  imports Replacement_Policy Component_Mapping "HOL-Library.AList"
begin

text \<open>
  The set-associative cache array of the controllers: \<open>system/CacheMemory.h\<close>, the base class of
  its entries \<open>slicc_interface/AbstractCacheEntry\<close> and the blocks of data
  \<open>common/DataBlock\<close>.

  The class is a template over the type of its entries.  The entries are the records that extend
  \<open>cache_entry\<close>, with the members the template uses; the value of \<open>ENTRY()\<close> is the argument
  \<open>entry0\<close> of the operations that build entries.  A reference to an entry is its set and
  its way.  The time of the event queue is the argument \<open>now\<close>.  The map and the sets of
  \<open>ctaMap\<close> are association lists and lists without duplicates.

  The lemmas show that every operation keeps the invariant \<open>cache_ok\<close> (each line is in its own
  set and in one way only), that seen through \<open>lookup\<close> the array is a map from lines to entries
  which \<open>allocate\<close>, \<open>deallocate\<close> and the setters update at one address, and that the line that
  \<open>cacheProbe\<close> names is a line of the full set whose removal makes room.
\<close>

section \<open>Blocks of data\<close>

type_synonym data_block = "8 word list"

definition DataBlock_new :: "bool \<Rightarrow> ruby_config \<Rightarrow> data_block" where
  "DataBlock_new DATA_BLOCK c = (if DATA_BLOCK then replicate (nat (g_DATA_BLOCK_BYTES c)) 0 else [])"

definition db_clear :: "data_block \<Rightarrow> data_block" where
  "db_clear m_data = map (\<lambda>_. 0) m_data"

definition db_equal :: "data_block \<Rightarrow> data_block \<Rightarrow> bool option" where
  "db_equal m_data obj =
     (if length m_data \<le> length obj then Some (\<forall>i<length m_data. m_data ! i = obj ! i)
      else if \<forall>i<length obj. m_data ! i = obj ! i then None else Some False)"

definition getByte :: "bool \<Rightarrow> int \<Rightarrow> data_block \<Rightarrow> 8 word option" where
  "getByte DATA_BLOCK whichByte m_data = (if DATA_BLOCK then array_at m_data whichByte else Some 0)"

definition setByte :: "bool \<Rightarrow> int \<Rightarrow> 8 word \<Rightarrow> data_block \<Rightarrow> data_block option" where
  "setByte DATA_BLOCK whichByte data m_data =
     (if DATA_BLOCK then do { array_at m_data whichByte; Some (m_data[nat whichByte := data]) }
      else Some m_data)"

section \<open>Entries\<close>

datatype AccessPermission =
    AccessPermission_Busy | AccessPermission_Read_Only | AccessPermission_Read_Write
  | AccessPermission_Invalid | AccessPermission_NotPresent | AccessPermission_OnHold
  | AccessPermission_ReadUpgradingToWrite | AccessPermission_Stale

type_synonym IDset = "int list"
type_synonym IDmap = "(int \<times> IDset) list"

record cache_entry =
  m_Address :: physical_address_t
  m_Permission :: AccessPermission
  rts :: Time
  wts :: Time
  ctaMap :: IDmap
  expired_by_own_warp :: bool
  expired_by_own_cta :: bool
  expired_by_shared_warp :: bool
  expired_by_shared_cta :: bool
  m_DataBlk :: data_block

definition clear_flags :: "'x cache_entry_scheme \<Rightarrow> 'x cache_entry_scheme" where
  "clear_flags e = e\<lparr>rts := 0, wts := 0, expired_by_own_warp := False, expired_by_own_cta := False,
     expired_by_shared_warp := False, expired_by_shared_cta := False\<rparr>"

section \<open>The cache\<close>

record 'e cache_memory =
  m_machType :: MachineType
  m_is_instruction_cache :: bool
  m_cache :: "'e list list"
  m_replacementPolicy_ptr :: replacement_policy
  m_cache_num_sets :: int
  m_cache_num_set_bits :: int
  m_cache_assoc :: int
  cache_pts :: Time
  cache_mts :: Time
  cache_min_pts :: Time
  cache_lts :: Time
  cache_sts :: Time

definition new_policy :: "string \<Rightarrow> int \<Rightarrow> int \<Rightarrow> replacement_policy option" where
  "new_policy g_REPLACEMENT_POLICY num_sets assoc =
     (if g_REPLACEMENT_POLICY = ''PSEDUO_LRU''
      then map_option PseudoLRU_policy (PseudoLRUPolicy_new num_sets assoc)
      else if g_REPLACEMENT_POLICY = ''LRU'' then Some (LRU_policy (LRUPolicy_new num_sets assoc))
      else None)"

definition CacheMemory_new ::
  "string \<Rightarrow> 'x cache_entry_scheme \<Rightarrow> int \<Rightarrow> int \<Rightarrow> MachineType \<Rightarrow> 'x cache_entry_scheme cache_memory option"
where
  "CacheMemory_new g_REPLACEMENT_POLICY entry0 numSetBits cacheAssoc machType = do {
     assert_that (0 \<le> numSetBits \<and> numSetBits < 31);
     let num_sets = push_bit (nat numSetBits) 1;
     policy \<leftarrow> new_policy g_REPLACEMENT_POLICY num_sets cacheAssoc;
     assert_that (0 \<le> cacheAssoc);
     let e = entry0\<lparr>m_Address := 0, m_Permission := AccessPermission_NotPresent\<rparr>;
     Some \<lparr>m_machType = machType, m_is_instruction_cache = False,
       m_cache = replicate (nat num_sets) (replicate (nat cacheAssoc) e),
       m_replacementPolicy_ptr = policy, m_cache_num_sets = num_sets,
       m_cache_num_set_bits = numSetBits, m_cache_assoc = cacheAssoc,
       cache_pts = 0, cache_mts = 0, cache_min_pts = 0, cache_lts = 0, cache_sts = 0\<rparr> }"

definition line_assert :: "ruby_config \<Rightarrow> physical_address_t \<Rightarrow> unit option" where
  "line_assert c address = do { l \<leftarrow> line_address c address; assert_that (address = l) }"

definition addressToCacheSet ::
  "ruby_config \<Rightarrow> physical_address_t \<Rightarrow> 'e cache_memory \<Rightarrow> int option" where
  "addressToCacheSet c address m = do {
     line_assert c address;
     temp \<leftarrow> (case m_machType m of
         MachineType_L1Cache \<Rightarrow> map_address_to_L1CacheSet c address (m_cache_num_set_bits m)
       | MachineType_L2Cache \<Rightarrow> map_address_to_L2CacheSet c address (m_cache_num_set_bits m)
       | _ \<Rightarrow> None);
     assert_that (temp < m_cache_num_sets m);
     assert_that (temp \<ge> 0);
     Some temp }"

text \<open>The loops over the ways of a set that return at the first hit, and the value \<open>-1\<close> when
  there is none.\<close>

function way_loop :: "('e \<Rightarrow> bool) \<Rightarrow> 'e list \<Rightarrow> int \<Rightarrow> int \<Rightarrow> int option" where
  "way_loop hit row i assoc =
     (if i < assoc then do { e \<leftarrow> array_at row i; (if hit e then Some i else way_loop hit row (i + 1) assoc) }
      else Some (- 1))"
  by auto
termination
  by (relation "measure (\<lambda>(hit, row, i, assoc). nat (assoc - i))") auto

declare way_loop.simps [simp del]

definition ways_of :: "('e \<Rightarrow> bool) \<Rightarrow> int \<Rightarrow> 'e cache_memory \<Rightarrow> int option" where
  "ways_of hit cacheSet m = do {
     row \<leftarrow> array_at (m_cache m) cacheSet;
     way_loop hit row 0 (m_cache_assoc m) }"

abbreviation present :: "'x cache_entry_scheme \<Rightarrow> bool" where
  "present e \<equiv> m_Permission e \<noteq> AccessPermission_NotPresent"

definition tag_hit :: "physical_address_t \<Rightarrow> 'x cache_entry_scheme \<Rightarrow> bool" where
  "tag_hit tag e \<longleftrightarrow> m_Address e = tag \<and> present e"

definition findTagInSet ::
  "ruby_config \<Rightarrow> int \<Rightarrow> physical_address_t \<Rightarrow> 'x cache_entry_scheme cache_memory \<Rightarrow> int option" where
  "findTagInSet c cacheSet tag m = do { line_assert c tag; ways_of (tag_hit tag) cacheSet m }"

definition findTagInSetIgnorePermissions ::
  "ruby_config \<Rightarrow> int \<Rightarrow> physical_address_t \<Rightarrow> 'x cache_entry_scheme cache_memory \<Rightarrow> int option" where
  "findTagInSetIgnorePermissions c cacheSet tag m =
     do { line_assert c tag; ways_of (\<lambda>e. m_Address e = tag) cacheSet m }"

definition isTagPresent ::
  "ruby_config \<Rightarrow> physical_address_t \<Rightarrow> 'x cache_entry_scheme cache_memory \<Rightarrow> bool option" where
  "isTagPresent c address m = do {
     line_assert c address;
     cacheSet \<leftarrow> addressToCacheSet c address m;
     location \<leftarrow> findTagInSet c cacheSet address m;
     Some (location \<noteq> - 1) }"

definition cacheAvail ::
  "ruby_config \<Rightarrow> physical_address_t \<Rightarrow> 'x cache_entry_scheme cache_memory \<Rightarrow> bool option" where
  "cacheAvail c address m = do {
     line_assert c address;
     cacheSet \<leftarrow> addressToCacheSet c address m;
     i \<leftarrow> ways_of (\<lambda>e. m_Address e = address \<or> \<not> present e) cacheSet m;
     Some (i \<noteq> - 1) }"

text \<open>\<open>lookup\<close> returns a reference; \<open>lookup_loc\<close> is that reference, \<open>lookup\<close> the entry read
  through it and \<open>modify_entry\<close> an assignment through it.\<close>

definition lookup_loc ::
  "ruby_config \<Rightarrow> physical_address_t \<Rightarrow> 'x cache_entry_scheme cache_memory \<Rightarrow> (int \<times> int) option" where
  "lookup_loc c address m = do {
     line_assert c address;
     cacheSet \<leftarrow> addressToCacheSet c address m;
     loc \<leftarrow> findTagInSet c cacheSet address m;
     assert_that (loc \<noteq> - 1);
     Some (cacheSet, loc) }"

definition entry_at :: "int \<times> int \<Rightarrow> 'e cache_memory \<Rightarrow> 'e" where
  "entry_at loc m = m_cache m ! nat (fst loc) ! nat (snd loc)"

definition put_entry :: "int \<times> int \<Rightarrow> 'e \<Rightarrow> 'e cache_memory \<Rightarrow> 'e cache_memory" where
  "put_entry loc e m = m\<lparr>m_cache := (m_cache m)[nat (fst loc) :=
     (m_cache m ! nat (fst loc))[nat (snd loc) := e]]\<rparr>"

definition lookup ::
  "ruby_config \<Rightarrow> physical_address_t \<Rightarrow> 'x cache_entry_scheme cache_memory \<Rightarrow> 'x cache_entry_scheme option" where
  "lookup c address m = do { loc \<leftarrow> lookup_loc c address m; Some (entry_at loc m) }"

definition modify_entry ::
  "ruby_config \<Rightarrow> physical_address_t \<Rightarrow> ('x cache_entry_scheme \<Rightarrow> 'x cache_entry_scheme) \<Rightarrow>
   'x cache_entry_scheme cache_memory \<Rightarrow> 'x cache_entry_scheme cache_memory option" where
  "modify_entry c address f m = do {
     loc \<leftarrow> lookup_loc c address m;
     Some (put_entry loc (f (entry_at loc m)) m) }"

definition touch_way :: "int \<Rightarrow> int \<Rightarrow> Time \<Rightarrow> 'e cache_memory \<Rightarrow> 'e cache_memory option" where
  "touch_way cacheSet loc now m = do {
     policy \<leftarrow> policy_touch cacheSet loc now (m_replacementPolicy_ptr m);
     Some (m\<lparr>m_replacementPolicy_ptr := policy\<rparr>) }"

definition allocate ::
  "ruby_config \<Rightarrow> 'x cache_entry_scheme \<Rightarrow> Time \<Rightarrow> physical_address_t \<Rightarrow>
   'x cache_entry_scheme cache_memory \<Rightarrow> 'x cache_entry_scheme cache_memory option" where
  "allocate c entry0 now address m = do {
     line_assert c address;
     found \<leftarrow> isTagPresent c address m;
     assert_that (\<not> found);
     avail \<leftarrow> cacheAvail c address m;
     assert_that avail;
     cacheSet \<leftarrow> addressToCacheSet c address m;
     i \<leftarrow> ways_of (\<lambda>e. \<not> present e) cacheSet m;
     assert_that (i \<noteq> - 1);
     m \<leftarrow> modify_entry c address clear_flags (put_entry (cacheSet, i)
       (entry0\<lparr>m_Address := address, m_Permission := AccessPermission_Invalid, ctaMap := []\<rparr>) m);
     touch_way cacheSet i now m }"

definition deallocate ::
  "ruby_config \<Rightarrow> physical_address_t \<Rightarrow>
   'x cache_entry_scheme cache_memory \<Rightarrow> 'x cache_entry_scheme cache_memory option" where
  "deallocate c address m = do {
     line_assert c address;
     found \<leftarrow> isTagPresent c address m;
     assert_that found;
     modify_entry c address (\<lambda>e. e\<lparr>m_Permission := AccessPermission_NotPresent\<rparr>) m }"

definition cacheProbe ::
  "ruby_config \<Rightarrow> physical_address_t \<Rightarrow> 'x cache_entry_scheme cache_memory \<Rightarrow> physical_address_t option" where
  "cacheProbe c address m = do {
     line_assert c address;
     avail \<leftarrow> cacheAvail c address m;
     assert_that (\<not> avail);
     cacheSet \<leftarrow> addressToCacheSet c address m;
     victim \<leftarrow> policy_getVictim cacheSet (m_replacementPolicy_ptr m);
     row \<leftarrow> array_at (m_cache m) cacheSet;
     e \<leftarrow> array_at row victim;
     Some (m_Address e) }"

definition tryCacheAccess ::
  "ruby_config \<Rightarrow> Time \<Rightarrow> physical_address_t \<Rightarrow> CacheRequestType \<Rightarrow> 'x cache_entry_scheme cache_memory \<Rightarrow>
   (bool \<times> data_block option \<times> 'x cache_entry_scheme cache_memory) option" where
  "tryCacheAccess c now address type m = do {
     line_assert c address;
     cacheSet \<leftarrow> addressToCacheSet c address m;
     loc \<leftarrow> findTagInSet c cacheSet address m;
     if loc \<noteq> - 1 then do {
       let entry = entry_at (cacheSet, loc) m;
       m \<leftarrow> touch_way cacheSet loc now m;
       if m_Permission entry = AccessPermission_Read_Write then Some (True, Some (m_DataBlk entry), m)
       else if m_Permission entry = AccessPermission_Read_Only \<and> (type = CR_LD \<or> type = CR_IFETCH)
       then Some (True, Some (m_DataBlk entry), m)
       else Some (False, None, m) }
     else Some (False, None, m) }"

definition testCacheAccess ::
  "ruby_config \<Rightarrow> Time \<Rightarrow> physical_address_t \<Rightarrow> CacheRequestType \<Rightarrow> 'x cache_entry_scheme cache_memory \<Rightarrow>
   (bool \<times> data_block option \<times> 'x cache_entry_scheme cache_memory) option" where
  "testCacheAccess c now address type m = do {
     line_assert c address;
     cacheSet \<leftarrow> addressToCacheSet c address m;
     loc \<leftarrow> findTagInSet c cacheSet address m;
     if loc \<noteq> - 1 then do {
       let entry = entry_at (cacheSet, loc) m;
       m \<leftarrow> touch_way cacheSet loc now m;
       Some (present entry, Some (m_DataBlk entry), m) }
     else Some (False, None, m) }"

definition flushCache :: "'x cache_entry_scheme cache_memory \<Rightarrow> 'x cache_entry_scheme cache_memory" where
  "flushCache m = m\<lparr>m_cache := map (map (\<lambda>e. clear_flags (e\<lparr>m_Address := 0,
     m_Permission := AccessPermission_NotPresent, ctaMap := []\<rparr>))) (m_cache m)\<rparr>"

definition getPermission ::
  "ruby_config \<Rightarrow> physical_address_t \<Rightarrow> 'x cache_entry_scheme cache_memory \<Rightarrow> AccessPermission option" where
  "getPermission c address m = do { line_assert c address; e \<leftarrow> lookup c address m; Some (m_Permission e) }"

definition changePermission ::
  "ruby_config \<Rightarrow> physical_address_t \<Rightarrow> AccessPermission \<Rightarrow> 'x cache_entry_scheme cache_memory \<Rightarrow>
   'x cache_entry_scheme cache_memory option" where
  "changePermission c address new_perm m = do {
     line_assert c address;
     m \<leftarrow> modify_entry c address (\<lambda>e. e\<lparr>m_Permission := new_perm\<rparr>) m;
     perm \<leftarrow> getPermission c address m;
     assert_that (perm = new_perm);
     Some m }"

definition setMRU ::
  "ruby_config \<Rightarrow> Time \<Rightarrow> physical_address_t \<Rightarrow> 'x cache_entry_scheme cache_memory \<Rightarrow>
   'x cache_entry_scheme cache_memory option" where
  "setMRU c now address m = do {
     cacheSet \<leftarrow> addressToCacheSet c address m;
     loc \<leftarrow> findTagInSet c cacheSet address m;
     touch_way cacheSet loc now m }"

definition setAsInstructionCache :: "bool \<Rightarrow> 'e cache_memory \<Rightarrow> 'e cache_memory" where
  "setAsInstructionCache is_icache m = m\<lparr>m_is_instruction_cache := is_icache\<rparr>"

text \<open>The records that \<open>recordCacheContents\<close> hands to the recorder, in their order: the address,
  the type of the request and the time of the last access.\<close>

definition record_type :: "bool \<Rightarrow> AccessPermission \<Rightarrow> CacheRequestType" where
  "record_type icache perm =
     (if perm = AccessPermission_Read_Only then (if icache then CR_IFETCH else CR_LD)
      else if perm = AccessPermission_Read_Write then CR_ST else CR_NULL)"

definition recordCacheContents ::
  "'x cache_entry_scheme cache_memory \<Rightarrow> (physical_address_t \<times> CacheRequestType \<times> Time option) list" where
  "recordCacheContents m =
     [(m_Address (entry_at (i, j) m), t, policy_getLastAccess i j (m_replacementPolicy_ptr m)).
        i \<leftarrow> [0..m_cache_num_sets m - 1], j \<leftarrow> [0..m_cache_assoc m - 1],
        t \<leftarrow> [record_type (m_is_instruction_cache m) (m_Permission (entry_at (i, j) m))], t \<noteq> CR_NULL]"

subsection \<open>Data\<close>

fun read_bytes :: "bool \<Rightarrow> nat \<Rightarrow> int \<Rightarrow> data_block \<Rightarrow> 8 word list option" where
  "read_bytes DATA_BLOCK 0 pos blk = Some []"
| "read_bytes DATA_BLOCK (Suc n) pos blk = do {
     b \<leftarrow> getByte DATA_BLOCK pos blk;
     bs \<leftarrow> read_bytes DATA_BLOCK n (pos + 1) blk;
     Some (b # bs) }"

fun write_bytes :: "bool \<Rightarrow> 8 word list \<Rightarrow> int \<Rightarrow> data_block \<Rightarrow> data_block option" where
  "write_bytes DATA_BLOCK [] pos blk = Some blk"
| "write_bytes DATA_BLOCK (b # bs) pos blk = do {
     blk \<leftarrow> setByte DATA_BLOCK pos b blk;
     write_bytes DATA_BLOCK bs (pos + 1) blk }"

definition getMemoryValue ::
  "ruby_config \<Rightarrow> bool \<Rightarrow> physical_address_t \<Rightarrow> nat \<Rightarrow> 'x cache_entry_scheme cache_memory \<Rightarrow>
   8 word list option" where
  "getMemoryValue c DATA_BLOCK addr size_in_bytes m = do {
     l \<leftarrow> line_address c addr;
     entry \<leftarrow> lookup c l m;
     read_bytes DATA_BLOCK size_in_bytes (int (unat (addr - l))) (m_DataBlk entry) }"

definition setMemoryValue ::
  "ruby_config \<Rightarrow> bool \<Rightarrow> physical_address_t \<Rightarrow> 8 word list \<Rightarrow> 'x cache_entry_scheme cache_memory \<Rightarrow>
   'x cache_entry_scheme cache_memory option" where
  "setMemoryValue c DATA_BLOCK addr val m = do {
     l \<leftarrow> line_address c addr;
     entry \<leftarrow> lookup c l m;
     assert_that (length val > 0);
     blk \<leftarrow> write_bytes DATA_BLOCK val (int (unat (addr - l))) (m_DataBlk entry);
     modify_entry c l (\<lambda>e. e\<lparr>m_DataBlk := blk\<rparr>) m }"

subsection \<open>Time stamps\<close>

definition checked_get ::
  "('x cache_entry_scheme \<Rightarrow> 'b) \<Rightarrow> ruby_config \<Rightarrow> physical_address_t \<Rightarrow> 'x cache_entry_scheme cache_memory \<Rightarrow>
   'b option" where
  "checked_get sel c addr m = do {
     found \<leftarrow> isTagPresent c addr m; assert_that found; e \<leftarrow> lookup c addr m; Some (sel e) }"

definition checked_set ::
  "('x cache_entry_scheme \<Rightarrow> 'x cache_entry_scheme) \<Rightarrow> ruby_config \<Rightarrow> physical_address_t \<Rightarrow>
   'x cache_entry_scheme cache_memory \<Rightarrow> 'x cache_entry_scheme cache_memory option" where
  "checked_set f c addr m = do {
     found \<leftarrow> isTagPresent c addr m; assert_that found; modify_entry c addr f m }"

definition getRts :: "ruby_config \<Rightarrow> physical_address_t \<Rightarrow> 'x cache_entry_scheme cache_memory \<Rightarrow> Time option" where
  "getRts = checked_get rts"

definition getWts :: "ruby_config \<Rightarrow> physical_address_t \<Rightarrow> 'x cache_entry_scheme cache_memory \<Rightarrow> Time option" where
  "getWts = checked_get wts"

definition setRts :: "ruby_config \<Rightarrow> physical_address_t \<Rightarrow> Time \<Rightarrow> 'x cache_entry_scheme cache_memory \<Rightarrow>
   'x cache_entry_scheme cache_memory option" where
  "setRts c addr t = checked_set (\<lambda>e. e\<lparr>rts := t\<rparr>) c addr"

definition setWts :: "ruby_config \<Rightarrow> physical_address_t \<Rightarrow> Time \<Rightarrow> 'x cache_entry_scheme cache_memory \<Rightarrow>
   'x cache_entry_scheme cache_memory option" where
  "setWts c addr t = checked_set (\<lambda>e. e\<lparr>wts := t\<rparr>) c addr"

definition setOwnWarp :: "ruby_config \<Rightarrow> physical_address_t \<Rightarrow> 'x cache_entry_scheme cache_memory \<Rightarrow>
   'x cache_entry_scheme cache_memory option" where
  "setOwnWarp = checked_set (\<lambda>e. e\<lparr>expired_by_own_warp := True\<rparr>)"

definition setSharedWarp :: "ruby_config \<Rightarrow> physical_address_t \<Rightarrow> 'x cache_entry_scheme cache_memory \<Rightarrow>
   'x cache_entry_scheme cache_memory option" where
  "setSharedWarp = checked_set (\<lambda>e. e\<lparr>expired_by_shared_warp := True\<rparr>)"

definition setOwnCta :: "ruby_config \<Rightarrow> physical_address_t \<Rightarrow> 'x cache_entry_scheme cache_memory \<Rightarrow>
   'x cache_entry_scheme cache_memory option" where
  "setOwnCta = checked_set (\<lambda>e. e\<lparr>expired_by_own_cta := True\<rparr>)"

definition setOwnSharedCta :: "ruby_config \<Rightarrow> physical_address_t \<Rightarrow> 'x cache_entry_scheme cache_memory \<Rightarrow>
   'x cache_entry_scheme cache_memory option" where
  "setOwnSharedCta = checked_set (\<lambda>e. e\<lparr>expired_by_shared_cta := True\<rparr>)"

definition getOwnWarp :: "ruby_config \<Rightarrow> physical_address_t \<Rightarrow> 'x cache_entry_scheme cache_memory \<Rightarrow> bool option" where
  "getOwnWarp = checked_get expired_by_own_warp"

definition getSharedWarp :: "ruby_config \<Rightarrow> physical_address_t \<Rightarrow> 'x cache_entry_scheme cache_memory \<Rightarrow> bool option" where
  "getSharedWarp = checked_get expired_by_shared_warp"

definition getOwnCta :: "ruby_config \<Rightarrow> physical_address_t \<Rightarrow> 'x cache_entry_scheme cache_memory \<Rightarrow> bool option" where
  "getOwnCta = checked_get expired_by_own_cta"

definition getSharedCta :: "ruby_config \<Rightarrow> physical_address_t \<Rightarrow> 'x cache_entry_scheme cache_memory \<Rightarrow> bool option" where
  "getSharedCta = checked_get expired_by_shared_cta"


definition setPts :: "Time \<Rightarrow> 'e cache_memory \<Rightarrow> 'e cache_memory" where
  "setPts processor_ts m = m\<lparr>cache_pts := processor_ts\<rparr>"

definition setMts :: "Time \<Rightarrow> 'e cache_memory \<Rightarrow> 'e cache_memory" where
  "setMts memory_ts m = m\<lparr>cache_mts := memory_ts\<rparr>"

definition setMinPts :: "Time \<Rightarrow> 'e cache_memory \<Rightarrow> 'e cache_memory" where
  "setMinPts processor_ts m =
     m\<lparr>cache_min_pts := if processor_ts < cache_min_pts m then processor_ts else cache_min_pts m\<rparr>"

definition setLts :: "Time \<Rightarrow> 'e cache_memory \<Rightarrow> 'e cache_memory" where
  "setLts load_ts m = m\<lparr>cache_lts := load_ts\<rparr>"

definition setSts :: "Time \<Rightarrow> 'e cache_memory \<Rightarrow> 'e cache_memory" where
  "setSts store_ts m = m\<lparr>cache_sts := store_ts\<rparr>"

definition insert_id :: "int \<Rightarrow> int \<Rightarrow> IDmap \<Rightarrow> IDmap" where
  "insert_id cta_id wid ids = AList.update cta_id
     (List.insert wid (case map_of ids cta_id of None \<Rightarrow> [] | Some warps \<Rightarrow> warps)) ids"

definition insertCtaWarpID ::
  "ruby_config \<Rightarrow> physical_address_t \<Rightarrow> int \<Rightarrow> int \<Rightarrow> 'x cache_entry_scheme cache_memory \<Rightarrow>
   'x cache_entry_scheme cache_memory option" where
  "insertCtaWarpID c addr cta_id wid =
     checked_set (\<lambda>e. e\<lparr>ctaMap := insert_id cta_id wid (ctaMap e)\<rparr>) c addr"

text \<open>The body of the two loops of \<open>setExpired\<close>: whether the block expires, and its flags.\<close>

definition expires :: "Time \<Rightarrow> Time \<Rightarrow> 'x cache_entry_scheme \<Rightarrow> bool" where
  "expires msg_wts load_timestamp e \<longleftrightarrow> present e \<and> load_timestamp < rts e \<and> msg_wts > rts e"

definition mark_expired :: "int \<Rightarrow> int \<Rightarrow> 'x cache_entry_scheme \<Rightarrow> 'x cache_entry_scheme" where
  "mark_expired cta_id wid e =
     (case map_of (ctaMap e) cta_id of
        None \<Rightarrow> e\<lparr>expired_by_shared_cta := False, expired_by_own_cta := False,
                  expired_by_own_warp := False, expired_by_shared_warp := False\<rparr>
      | Some warps \<Rightarrow>
          if length (ctaMap e) = 1 then
            (let e = e\<lparr>expired_by_own_cta := True, expired_by_shared_cta := False\<rparr>
             in if wid \<notin> set warps then e\<lparr>expired_by_own_warp := False, expired_by_shared_warp := False\<rparr>
                else if length warps = 1 then e\<lparr>expired_by_own_warp := True, expired_by_shared_warp := False\<rparr>
                else e\<lparr>expired_by_own_warp := False, expired_by_shared_warp := True\<rparr>)
          else e\<lparr>expired_by_shared_cta := True, expired_by_own_cta := False,
                 expired_by_own_warp := False, expired_by_shared_warp := False\<rparr>)"

definition setExpired ::
  "int \<Rightarrow> int \<Rightarrow> Time \<Rightarrow> Time \<Rightarrow> 'x cache_entry_scheme cache_memory \<Rightarrow>
   int \<times> 'x cache_entry_scheme cache_memory" where
  "setExpired cta_id wid msg_wts load_timestamp m =
     (int (length (filter (expires msg_wts load_timestamp) (concat (m_cache m)))),
      m\<lparr>m_cache := map (map (\<lambda>e. if expires msg_wts load_timestamp e then mark_expired cta_id wid e else e))
          (m_cache m)\<rparr>)"

section \<open>Finding a way\<close>

text \<open>The loop finds the first way that fits, as \<open>List.find\<close> does.\<close>

definition first_way :: "('e \<Rightarrow> bool) \<Rightarrow> 'e list \<Rightarrow> nat" where
  "first_way hit row = length (takeWhile (\<lambda>e. \<not> hit e) row)"

lemma first_way_less: "first_way hit row < length row \<longleftrightarrow> (\<exists>e\<in>set row. hit e)"
  by (induction row) (auto simp: first_way_def)

lemma first_way_hit: "\<exists>e\<in>set row. hit e \<Longrightarrow> hit (row ! first_way hit row)"
  by (induction row) (auto simp: first_way_def)

lemma find_first_way:
  "List.find hit row = (if \<exists>e\<in>set row. hit e then Some (row ! first_way hit row) else None)"
  by (induction row) (auto simp: first_way_def)

lemma way_loop_from:
  assumes "i \<le> length row"
  shows "way_loop hit row (int i) (int (length row)) =
    Some (if \<exists>e\<in>set (drop i row). hit e then int (i + first_way hit (drop i row)) else - 1)"
  using assms
proof (induction "length row - i" arbitrary: i)
  case 0
  then show ?case by (simp add: way_loop.simps)
next
  case (Suc n)
  then have i: "i < length row" by linarith
  have d: "drop i row = row ! i # drop (Suc i) row" using i by (simp add: Cons_nth_drop_Suc)
  have "way_loop hit row (int i) (int (length row)) =
      (if hit (row ! i) then Some (int i) else way_loop hit row (int (Suc i)) (int (length row)))"
    using i by (simp add: way_loop.simps [of hit row "int i"] add.commute)
  then show ?case using Suc.hyps(1) [of "Suc i"] Suc.hyps(2) i
    unfolding d by (simp add: first_way_def)
qed

lemma way_loop_eq:
  "way_loop hit row 0 (int (length row)) = Some (if \<exists>e\<in>set row. hit e then int (first_way hit row) else - 1)"
  using way_loop_from [of 0 row hit] by simp

section \<open>The invariant\<close>

definition set_index :: "ruby_config \<Rightarrow> 'e cache_memory \<Rightarrow> physical_address_t \<Rightarrow> nat" where
  "set_index c m a = (unat a div 2 ^ nat (g_DATA_BLOCK_BITS c +
     (if m_machType m = MachineType_L2Cache \<and> MAP_L2BANKS_TO_LOWEST_BITS c
      then g_NUM_L2_BANKS_PER_CHIP_BITS c else 0))) mod 2 ^ nat (m_cache_num_set_bits m)"

definition geometry_ok :: "ruby_config \<Rightarrow> 'e cache_memory \<Rightarrow> bool" where
  "geometry_ok c m \<longleftrightarrow> config_ok c \<and> m_machType m \<in> {MachineType_L1Cache, MachineType_L2Cache} \<and>
     0 < m_cache_num_set_bits m \<and> m_cache_num_set_bits m < 31 \<and>
     m_cache_num_sets m = 2 ^ nat (m_cache_num_set_bits m) \<and> 0 < m_cache_assoc m \<and>
     length (m_cache m) = nat (m_cache_num_sets m) \<and>
     (\<forall>row\<in>set (m_cache m). length row = nat (m_cache_assoc m)) \<and>
     policy_ok (nat (m_cache_num_sets m)) (nat (m_cache_assoc m)) (m_replacementPolicy_ptr m)"

definition row_ok :: "ruby_config \<Rightarrow> 'x cache_entry_scheme cache_memory \<Rightarrow> nat \<Rightarrow> 'x cache_entry_scheme list \<Rightarrow> bool" where
  "row_ok c m s row \<longleftrightarrow>
     (\<forall>e\<in>set row. present e \<longrightarrow> is_line c (m_Address e) \<and> set_index c m (m_Address e) = s) \<and>
     (\<forall>i<length row. \<forall>j<length row. present (row ! i) \<and> present (row ! j) \<and>
        m_Address (row ! i) = m_Address (row ! j) \<longrightarrow> i = j)"

definition cache_ok :: "ruby_config \<Rightarrow> 'x cache_entry_scheme cache_memory \<Rightarrow> bool" where
  "cache_ok c m \<longleftrightarrow> geometry_ok c m \<and> (\<forall>s<length (m_cache m). row_ok c m s (m_cache m ! s))"

lemma row_ok_unique:
  "\<lbrakk> row_ok c m s row; i < length row; j < length row; tag_hit a (row ! i); tag_hit a (row ! j) \<rbrakk> \<Longrightarrow> i = j"
  unfolding row_ok_def tag_hit_def by metis

lemma row_ok_ix: "set_index c m' = set_index c m \<Longrightarrow> row_ok c m' = row_ok c m"
  by (simp add: row_ok_def fun_eq_iff)

lemma line_assert_line: "is_line c a \<Longrightarrow> line_assert c a = Some ()"
  by (simp add: line_assert_def is_line_def)

lemma line_assert_Some: "line_assert c a = Some u \<Longrightarrow> is_line c a"
  by (auto simp: line_assert_def is_line_def abort_simps)

lemma set_index_less:
  assumes "geometry_ok c m" shows "set_index c m a < length (m_cache m)"
proof -
  have "set_index c m a < 2 ^ nat (m_cache_num_set_bits m)" by (simp add: set_index_def)
  then show ?thesis using assms by (simp add: geometry_ok_def nat_power_eq)
qed

lemma addressToCacheSet_eq:
  assumes "geometry_ok c m" "is_line c a"
  shows "addressToCacheSet c a m = Some (int (set_index c m a))"
proof -
  have b: "0 \<le> g_DATA_BLOCK_BITS c" "g_DATA_BLOCK_BITS c \<le> 30" "0 \<le> g_NUM_L2_BANKS_PER_CHIP_BITS c"
    "g_NUM_L2_BANKS_PER_CHIP_BITS c \<le> 30"
    using assms(1) by (auto simp: geometry_ok_def config_ok_def pow2_of_def)
  have k: "0 < m_cache_num_set_bits m" "m_cache_num_set_bits m \<le> 31"
    using assms(1) by (auto simp: geometry_ok_def)
  have L1: "map_address_to_L1CacheSet c a (m_cache_num_set_bits m) =
      Some (int ((unat a div 2 ^ nat (g_DATA_BLOCK_BITS c)) mod 2 ^ nat (m_cache_num_set_bits m)))"
    unfolding map_address_to_L1CacheSet_def using b k by (intro bitSelect_to_int32) auto
  have L2: "map_address_to_L2CacheSet c a (m_cache_num_set_bits m) =
      Some (int ((unat a div 2 ^ nat (g_DATA_BLOCK_BITS c + (if MAP_L2BANKS_TO_LOWEST_BITS c
        then g_NUM_L2_BANKS_PER_CHIP_BITS c else 0))) mod 2 ^ nat (m_cache_num_set_bits m)))"
    unfolding map_address_to_L2CacheSet_def
    using bitSelect_to_int32 [of "g_DATA_BLOCK_BITS c" "m_cache_num_set_bits m" a]
      bitSelect_to_int32 [of "g_DATA_BLOCK_BITS c + g_NUM_L2_BANKS_PER_CHIP_BITS c" "m_cache_num_set_bits m" a] b k
    by auto
  have "int (set_index c m a) < int (2 ^ nat (m_cache_num_set_bits m))"
    unfolding of_nat_less_iff by (simp add: set_index_def)
  then have "int (set_index c m a) < m_cache_num_sets m" using assms(1) by (simp add: geometry_ok_def)
  then show ?thesis using assms L1 L2
    by (cases "m_machType m") (auto simp: addressToCacheSet_def line_assert_line set_index_def geometry_ok_def)
qed

lemma geometry_dims:
  assumes "geometry_ok c m"
  shows "length (m_cache m) = nat (m_cache_num_sets m)"
    and "s < length (m_cache m) \<Longrightarrow> length (m_cache m ! s) = nat (m_cache_assoc m)"
  using assms by (simp_all add: geometry_ok_def)

lemma geometry_row:
  assumes "geometry_ok c m" "s < length (m_cache m)"
  shows "array_at (m_cache m) (int s) = Some (m_cache m ! s)"
    and "int (length (m_cache m ! s)) = m_cache_assoc m"
  using assms by (auto simp: geometry_ok_def)

abbreviation set_of_line :: "ruby_config \<Rightarrow> 'e cache_memory \<Rightarrow> physical_address_t \<Rightarrow> 'e list" where
  "set_of_line c m a \<equiv> m_cache m ! set_index c m a"

lemma ways_of_eq:
  assumes "geometry_ok c m" "s < length (m_cache m)"
  shows "ways_of hit (int s) m = Some (if \<exists>e\<in>set (m_cache m ! s). hit e then int (first_way hit (m_cache m ! s)) else - 1)"
  using geometry_row [OF assms] way_loop_eq [of hit "m_cache m ! s"] by (simp add: ways_of_def)

lemmas cache_set_simps = addressToCacheSet_eq ways_of_eq set_index_less line_assert_line

lemma isTagPresent_eq:
  assumes "geometry_ok c m" "is_line c a"
  shows "isTagPresent c a m = Some (\<exists>e\<in>set (set_of_line c m a). tag_hit a e)"
  using assms by (simp add: isTagPresent_def findTagInSet_def cache_set_simps)

lemma cacheAvail_eq:
  assumes "geometry_ok c m" "is_line c a"
  shows "cacheAvail c a m = Some (\<exists>e\<in>set (set_of_line c m a). m_Address e = a \<or> \<not> present e)"
  using assms by (simp add: cacheAvail_def cache_set_simps)

lemma lookup_loc_eq:
  assumes "geometry_ok c m" "is_line c a"
  shows "lookup_loc c a m = (if \<exists>e\<in>set (set_of_line c m a). tag_hit a e
    then Some (int (set_index c m a), int (first_way (tag_hit a) (set_of_line c m a))) else None)"
  using assms by (simp add: lookup_loc_def findTagInSet_def cache_set_simps)

lemma lookup_eq:
  assumes "geometry_ok c m"
  shows "lookup c a m = (if is_line c a then List.find (tag_hit a) (set_of_line c m a) else None)"
proof (cases "is_line c a")
  case True
  then show ?thesis using assms by (simp add: lookup_def lookup_loc_eq entry_at_def find_first_way)
next
  case False
  then have "line_assert c a = None" using line_assert_Some [of c a] by (cases "line_assert c a") auto
  then show ?thesis using False by (simp add: lookup_def lookup_loc_def)
qed

lemma lookup_Some:
  assumes "cache_ok c m" "lookup c a m = Some e"
  shows "is_line c a" "e \<in> set (set_of_line c m a)" "m_Address e = a" "present e"
  using assms by (auto simp: cache_ok_def lookup_eq find_Some_iff tag_hit_def split: if_splits)

section \<open>One entry is replaced\<close>

lemma find_update:
  assumes "w < length row" "\<not> P (row ! w)" "\<not> P e" shows "List.find P (row[w := e]) = List.find P row"
  using assms by (induction row arbitrary: w) (auto split: nat.splits)

lemma find_only:
  assumes "w < length row" "\<forall>j<length row. j \<noteq> w \<longrightarrow> \<not> P (row ! j)"
  shows "List.find P (row[w := e]) = (if P e then Some e else None)"
proof -
  have "x = e" if "x \<in> set (row[w := e])" "P x" for x
    using that assms by (auto simp: in_set_conv_nth nth_list_update split: if_splits)
  moreover have "e \<in> set (row[w := e])" using assms(1) by (rule set_update_memI)
  moreover have "P (row[w := e] ! first_way P (row[w := e])) \<and> row[w := e] ! first_way P (row[w := e]) \<in> set (row[w := e])"
    if "\<exists>x\<in>set (row[w := e]). P x"
    using first_way_hit [OF that] that first_way_less [of P "row[w := e]"] nth_mem by blast
  ultimately show ?thesis by (auto simp: find_first_way)
qed

text \<open>The entry of way \<open>w\<close> of the set of \<open>a\<close>, which held \<open>a\<close> or nothing and is the only way that
  may hold \<open>a\<close>, is overwritten by one that holds \<open>a\<close> or nothing.\<close>

lemma put_entry_line:
  fixes m :: "'x cache_entry_scheme cache_memory"
  assumes ok: "cache_ok c m" and line: "is_line c a" and w: "w < length (set_of_line c m a)"
    and only: "\<forall>j<length (set_of_line c m a). j \<noteq> w \<longrightarrow> \<not> tag_hit a (set_of_line c m a ! j)"
    and old: "present (set_of_line c m a ! w) \<Longrightarrow> m_Address (set_of_line c m a ! w) = a"
    and new: "present e \<Longrightarrow> m_Address e = a"
  defines "m' \<equiv> put_entry (int (set_index c m a), int w) e m"
  shows "cache_ok c m'"
    and "lookup c b m' = (if b = a then (if present e then Some e else None) else lookup c b m)"
proof -
  let ?s = "set_index c m a" and ?row = "set_of_line c m a"
  have geo: "geometry_ok c m" and rows: "row_ok c m s (m_cache m ! s)" if "s < length (m_cache m)" for s
    using ok that set_index_less [of c m a] by (auto simp: cache_ok_def)
  have s: "?s < length (m_cache m)" using ok by (auto simp: cache_ok_def intro: set_index_less)
  have geo: "geometry_ok c m" using ok by (simp add: cache_ok_def)
  have m': "m' = m\<lparr>m_cache := (m_cache m)[?s := ?row[w := e]]\<rparr>" by (simp add: m'_def put_entry_def)
  have geo': "geometry_ok c m'"
    using geo s unfolding m' geometry_ok_def by (auto dest!: set_update_subset_insert [THEN subsetD])
  have ix: "set_index c m' = set_index c m" by (simp add: m' set_index_def fun_eq_iff)
  have "row_ok c m ?s (?row[w := e])"
  proof -
    have "is_line c (m_Address x) \<and> set_index c m (m_Address x) = ?s"
      if "x \<in> set (?row[w := e])" "present x" for x
      using that rows [OF s] line new by (auto simp: row_ok_def dest!: set_update_subset_insert [THEN subsetD])
    moreover have "i = j" if "i < length ?row" "j < length ?row" "present (?row[w := e] ! i)"
      "present (?row[w := e] ! j)" "m_Address (?row[w := e] ! i) = m_Address (?row[w := e] ! j)" for i j
    proof -
      have stray: False if "k < length ?row" "k \<noteq> w" "present e" "present (?row ! k)" "m_Address e = m_Address (?row ! k)" for k
        using that only new by (simp add: tag_hit_def)
      consider "i = w" "j = w" | "i = w" "j \<noteq> w" | "i \<noteq> w" "j = w" | "i \<noteq> w" "j \<noteq> w" by blast
      then show ?thesis
      proof cases
        case 2 then show ?thesis using stray [of j] that w by simp
      next
        case 3 then show ?thesis using stray [of i] that w by simp
      next
        case 4
        then show ?thesis
          using that by (intro row_ok_unique [OF rows [OF s], of i j "m_Address (?row ! i)"]) (simp_all add: tag_hit_def)
      qed simp
    qed
    ultimately show ?thesis by (auto simp: row_ok_def)
  qed
  then have "row_ok c m t (m_cache m' ! t)" if "t < length (m_cache m)" for t
    using that rows s by (cases "t = ?s") (simp_all add: m')
  then show "cache_ok c m'" using geo' row_ok_ix [OF ix] by (simp add: cache_ok_def) (simp add: m')
  show "lookup c b m' = (if b = a then (if present e then Some e else None) else lookup c b m)"
  proof (cases "b = a")
    case True
    have "tag_hit a e \<longleftrightarrow> present e" using new by (auto simp: tag_hit_def)
    then have "List.find (tag_hit a) (?row[w := e]) = (if present e then Some e else None)"
      using find_only [OF w only, of e] by simp
    then show ?thesis using True line s by (simp add: lookup_eq geo' ix) (simp add: m')
  next
    case False
    have "List.find (tag_hit b) (?row[w := e]) = List.find (tag_hit b) ?row"
      using w old new False by (intro find_update) (auto simp: tag_hit_def)
    then show ?thesis using False s
      by (simp add: lookup_eq geo geo' ix) (auto simp: m' nth_list_update)
  qed
qed

lemma only_way:
  assumes "cache_ok c m" "lookup c a m = Some e"
  defines "w \<equiv> first_way (tag_hit a) (set_of_line c m a)"
  shows "w < length (set_of_line c m a)" "set_of_line c m a ! w = e" "lookup_loc c a m = Some (int (set_index c m a), int w)"
    and "\<forall>j<length (set_of_line c m a). j \<noteq> w \<longrightarrow> \<not> tag_hit a (set_of_line c m a ! j)"
proof -
  have geo: "geometry_ok c m" using assms(1) by (simp add: cache_ok_def)
  have line: "is_line c a" and hit: "\<exists>x\<in>set (set_of_line c m a). tag_hit a x" and e: "e = set_of_line c m a ! w"
    using assms(2) by (auto simp: lookup_eq geo find_first_way w_def split: if_splits)
  show w: "w < length (set_of_line c m a)" using hit by (simp add: w_def first_way_less)
  show "set_of_line c m a ! w = e" using e by simp
  show "lookup_loc c a m = Some (int (set_index c m a), int w)" using geo line hit by (simp add: lookup_loc_eq w_def)
  have "tag_hit a (set_of_line c m a ! w)" using first_way_hit [OF hit] by (simp add: w_def)
  moreover have "row_ok c m (set_index c m a) (set_of_line c m a)"
    using assms(1) set_index_less [OF geo] by (simp add: cache_ok_def)
  ultimately show "\<forall>j<length (set_of_line c m a). j \<noteq> w \<longrightarrow> \<not> tag_hit a (set_of_line c m a ! j)"
    using w row_ok_unique by blast
qed

section \<open>What the operations do to the map\<close>

lemma modify_entry_law:
  assumes "cache_ok c m" "lookup c a m = Some e" "present (f e) \<Longrightarrow> m_Address (f e) = a"
  obtains m' where "modify_entry c a f m = Some m'" "cache_ok c m'"
    "\<And>b. lookup c b m' = (if b = a then (if present (f e) then Some (f e) else None) else lookup c b m)"
proof -
  define w where "w = first_way (tag_hit a) (set_of_line c m a)"
  note way = only_way [OF assms(1,2), folded w_def]
  have line: "is_line c a" "m_Address e = a" using lookup_Some [OF assms(1,2)] by auto
  have at: "entry_at (int (set_index c m a), int w) m = e" using way(2) by (simp add: entry_at_def)
  show thesis
    using put_entry_line [OF assms(1) line(1) way(1,4) _ assms(3)] way(2) line(2)
    by (intro that [of "put_entry (int (set_index c m a), int w) (f e) m"])
      (simp_all add: modify_entry_def way(3) at)
qed

lemma isTagPresent_lookup:
  assumes "geometry_ok c m" "is_line c a"
  shows "isTagPresent c a m = Some (lookup c a m \<noteq> None)"
  using assms by (simp add: isTagPresent_eq lookup_eq find_first_way)

lemma checked_set_law:
  assumes "cache_ok c m" "lookup c a m = Some e" "present (f e)" "m_Address (f e) = a"
  shows "\<exists>m'. checked_set f c a m = Some m' \<and> cache_ok c m' \<and>
    (\<forall>b. lookup c b m' = (if b = a then Some (f e) else lookup c b m))"
proof -
  obtain m' where "modify_entry c a f m = Some m'" "cache_ok c m'"
    "\<And>b. lookup c b m' = (if b = a then (if present (f e) then Some (f e) else None) else lookup c b m)"
    by (rule modify_entry_law [OF assms(1,2), of f]) (use assms(4) in auto)
  moreover have "geometry_ok c m" "is_line c a" using assms(1) lookup_Some [OF assms(1,2)] by (auto simp: cache_ok_def)
  ultimately show ?thesis using assms(2,3) by (simp add: checked_set_def isTagPresent_lookup)
qed

lemma checked_get_eq:
  assumes "cache_ok c m" "lookup c a m = Some e"
  shows "checked_get sel c a m = Some (sel e)"
proof -
  have "geometry_ok c m" "is_line c a" using assms(1) lookup_Some [OF assms] by (auto simp: cache_ok_def)
  then show ?thesis using assms(2) by (simp add: checked_get_def isTagPresent_lookup)
qed

lemma cacheAvail_iff:
  assumes "cache_ok c m" "is_line c a"
  shows "cacheAvail c a m = Some (lookup c a m \<noteq> None \<or> (\<exists>e\<in>set (set_of_line c m a). \<not> present e))"
proof -
  have geo: "geometry_ok c m" using assms(1) by (simp add: cache_ok_def)
  then have "lookup c a m \<noteq> None \<longleftrightarrow> (\<exists>e\<in>set (set_of_line c m a). tag_hit a e)"
    using assms(2) by (simp add: lookup_eq find_first_way)
  then show ?thesis using geo assms(2) by (auto simp: cacheAvail_eq tag_hit_def)
qed

text \<open>A touch only changes the replacement policy.\<close>

lemma touch_way_law:
  assumes "cache_ok c m" "s < length (m_cache m)" "w < length (m_cache m ! s)"
  obtains m' where "touch_way (int s) (int w) now m = Some m'" "cache_ok c m'"
    "\<And>b. lookup c b m' = lookup c b m"
proof -
  have geo: "geometry_ok c m" using assms(1) by (simp add: cache_ok_def)
  have pol: "policy_ok (nat (m_cache_num_sets m)) (nat (m_cache_assoc m)) (m_replacementPolicy_ptr m)"
    using geo unfolding geometry_ok_def by blast
  have r: "int s < int (nat (m_cache_num_sets m))" "int w < int (nat (m_cache_assoc m))"
    unfolding of_nat_less_iff using geometry_dims [OF geo] assms(2,3) by simp_all
  obtain p' where p': "policy_touch (int s) (int w) now (m_replacementPolicy_ptr m) = Some p'"
    "policy_ok (nat (m_cache_num_sets m)) (nat (m_cache_assoc m)) p'"
    using policy.touch_in [OF pol _ r(1) _ r(2), of now] by auto
  let ?m = "m\<lparr>m_replacementPolicy_ptr := p'\<rparr>"
  have geo': "geometry_ok c ?m" using geo p'(2) by (simp add: geometry_ok_def)
  have ix: "set_index c ?m = set_index c m" by (simp add: set_index_def fun_eq_iff)
  then have "cache_ok c ?m" using geo' assms(1) row_ok_ix [OF ix] by (simp add: cache_ok_def)
  moreover have "lookup c b ?m = lookup c b m" for b using geo geo' ix by (simp add: lookup_eq)
  moreover have "touch_way (int s) (int w) now m = Some ?m" using p'(1) by (simp add: touch_way_def)
  ultimately show thesis using that by blast
qed

lemma touch_way_absent:
  assumes "cache_ok c m" shows "touch_way s (- 1) now m = None"
proof -
  have "policy_touch s (- 1) now (m_replacementPolicy_ptr m) = None"
    using assms by (intro policy.touch_out) (auto simp: cache_ok_def geometry_ok_def)
  then show ?thesis by (simp add: touch_way_def)
qed

definition fresh_entry :: "'x cache_entry_scheme \<Rightarrow> physical_address_t \<Rightarrow> 'x cache_entry_scheme" where
  "fresh_entry entry0 a = clear_flags
     (entry0\<lparr>m_Address := a, m_Permission := AccessPermission_Invalid, ctaMap := []\<rparr>)"

lemma allocate_law:
  assumes "cache_ok c m" "is_line c a" "lookup c a m = None" "cacheAvail c a m = Some True"
  obtains m' where "allocate c entry0 now a m = Some m'" "cache_ok c m'"
    "\<And>b. lookup c b m' = (if b = a then Some (fresh_entry entry0 a) else lookup c b m)"
proof -
  let ?row = "set_of_line c m a" and ?s = "set_index c m a"
  let ?e = "entry0\<lparr>m_Address := a, m_Permission := AccessPermission_Invalid, ctaMap := []\<rparr>"
  have geo: "geometry_ok c m" using assms(1) by (simp add: cache_ok_def)
  have free: "\<exists>e\<in>set ?row. \<not> present e" using cacheAvail_iff [OF assms(1,2)] assms(3,4) by simp
  define w where "w = first_way (\<lambda>e. \<not> present e) ?row"
  have w: "w < length ?row" "\<not> present (?row ! w)"
    using free first_way_less [of "\<lambda>e. \<not> present e" ?row] first_way_hit [OF free] by (simp_all add: w_def)
  have none: "\<not> tag_hit a (?row ! j)" if "j < length ?row" for j
    using assms(2,3) that by (auto simp: lookup_eq geo find_None_iff)
  define m1 where "m1 = put_entry (int ?s, int w) ?e m"
  have m1: "cache_ok c m1" "\<And>b. lookup c b m1 = (if b = a then Some ?e else lookup c b m)"
    using put_entry_line [OF assms(1,2) w(1), of ?e] none w(2) by (auto simp: m1_def)
  obtain m2 where m2: "modify_entry c a clear_flags m1 = Some m2" "cache_ok c m2"
    "\<And>b. lookup c b m2 = (if b = a then (if present (clear_flags ?e) then Some (clear_flags ?e) else None) else lookup c b m1)"
    by (rule modify_entry_law [OF m1(1), of a ?e clear_flags]) (simp_all add: m1(2) clear_flags_def)
  have len: "?s < length (m_cache m2)" "w < length (m_cache m2 ! ?s)"
  proof -
    have "m_cache_num_sets m2 = m_cache_num_sets m \<and> m_cache_assoc m2 = m_cache_assoc m"
      using m2(1) by (auto simp: modify_entry_def m1_def put_entry_def abort_simps)
    then show "?s < length (m_cache m2)" "w < length (m_cache m2 ! ?s)"
      using m2(2) set_index_less [OF geo, of a] geometry_dims [OF geo] geometry_dims [of c m2] w(1)
      by (simp_all add: cache_ok_def)
  qed
  obtain m3 where m3: "touch_way (int ?s) (int w) now m2 = Some m3" "cache_ok c m3" "\<And>b. lookup c b m3 = lookup c b m2"
    by (rule touch_way_law [OF m2(2) len, of now]) blast
  have "ways_of (\<lambda>e. \<not> present e) (int ?s) m = Some (int w)"
    using geo free by (simp add: cache_set_simps w_def)
  then have "allocate c entry0 now a m = Some m3"
    using assms geo m2(1) m3(1)
    by (simp add: allocate_def isTagPresent_lookup addressToCacheSet_eq line_assert_line m1_def)
  moreover have "lookup c b m3 = (if b = a then Some (fresh_entry entry0 a) else lookup c b m)" for b
    using m1(2) m2(3) m3(3) by (simp add: fresh_entry_def clear_flags_def)
  ultimately show thesis using that m3(2) by blast
qed

lemma deallocate_law:
  assumes "cache_ok c m" "lookup c a m = Some e"
  obtains m' where "deallocate c a m = Some m'" "cache_ok c m'"
    "\<And>b. lookup c b m' = (if b = a then None else lookup c b m)"
proof -
  have "geometry_ok c m" "is_line c a" using assms(1) lookup_Some [OF assms] by (auto simp: cache_ok_def)
  moreover obtain m' where "modify_entry c a (\<lambda>e. e\<lparr>m_Permission := AccessPermission_NotPresent\<rparr>) m = Some m'"
    "cache_ok c m'" "\<And>b. lookup c b m' = (if b = a then None else lookup c b m)"
    by (rule modify_entry_law [OF assms, of "\<lambda>e. e\<lparr>m_Permission := AccessPermission_NotPresent\<rparr>"]) auto
  ultimately show thesis using assms(2) that [of m']
    by (simp add: deallocate_def line_assert_line isTagPresent_lookup)
qed

text \<open>The victim of a full set is one of its lines.\<close>

lemma cacheProbe_law:
  assumes "cache_ok c m" "is_line c a" "cacheAvail c a m = Some False"
  obtains v e where "cacheProbe c a m = Some v" "lookup c v m = Some e" "set_index c m v = set_index c m a" "v \<noteq> a"
proof -
  let ?row = "set_of_line c m a" and ?s = "set_index c m a"
  have geo: "geometry_ok c m" and s: "?s < length (m_cache m)" using assms(1) by (auto simp: cache_ok_def set_index_less)
  have row: "row_ok c m ?s ?row" using assms(1) s by (simp add: cache_ok_def)
  have full: "present e" "m_Address e \<noteq> a" if "e \<in> set ?row" for e
    using cacheAvail_eq [OF geo assms(2)] assms(3) that by auto
  have "int ?s < int (nat (m_cache_num_sets m))"
    unfolding of_nat_less_iff using geometry_dims(1) [OF geo] s by simp
  moreover have "policy_ok (nat (m_cache_num_sets m)) (nat (m_cache_assoc m)) (m_replacementPolicy_ptr m)"
    using geo unfolding geometry_ok_def by blast
  ultimately obtain w where w: "policy_getVictim (int ?s) (m_replacementPolicy_ptr m) = Some w"
    "0 \<le> w" "w < int (nat (m_cache_assoc m))" using policy.victim_in [OF _ of_nat_0_le_iff] by blast
  define e where "e = ?row ! nat w"
  have wl: "nat w < length ?row" "array_at ?row w = Some e"
    using w geometry_dims(2) [OF geo s] by (auto simp: e_def array_at_def split: if_splits)
  then have e: "e \<in> set ?row" by (simp add: e_def)
  have "cacheProbe c a m = Some (m_Address e)"
    using assms(2,3) geo w(1) geometry_row(1) [OF geo s] wl(2)
    by (simp add: cacheProbe_def line_assert_line addressToCacheSet_eq)
  moreover have v: "is_line c (m_Address e)" "set_index c m (m_Address e) = ?s"
    using row e full(1) [OF e] by (auto simp: row_ok_def)
  moreover have "List.find (tag_hit (m_Address e)) ?row \<noteq> None"
    using e full(1) [OF e] by (auto simp: find_None_iff tag_hit_def)
  then have "lookup c (m_Address e) m \<noteq> None" using v by (simp add: lookup_eq geo)
  ultimately show thesis using that full(2) [OF e] by blast
qed

text \<open>Taking a line out of the set of \<open>a\<close> makes room for \<open>a\<close>.\<close>

lemma deallocate_makes_room:
  assumes "cache_ok c m" "is_line c a" "lookup c v m = Some e" "set_index c m v = set_index c m a"
    "deallocate c v m = Some m'"
  shows "cacheAvail c a m' = Some True"
proof -
  define w where "w = first_way (tag_hit v) (set_of_line c m v)"
  note way = only_way [OF assms(1,3), folded w_def]
  obtain m1 where "deallocate c v m = Some m1" "cache_ok c m1"
    by (rule deallocate_law [OF assms(1,3)]) blast
  then have geo': "geometry_ok c m'" using assms(5) by (simp add: cache_ok_def)
  have m': "m' = put_entry (int (set_index c m a), int w) (e\<lparr>m_Permission := AccessPermission_NotPresent\<rparr>) m"
    using assms(4,5) way(2,3)
    by (auto simp: deallocate_def modify_entry_def abort_simps entry_at_def)
  have s: "set_index c m a < length (m_cache m)" using assms(1) by (simp add: cache_ok_def set_index_less)
  have "set_index c m' a = set_index c m a" by (simp add: m' put_entry_def set_index_def)
  then have "set_of_line c m' a = (set_of_line c m a)[w := e\<lparr>m_Permission := AccessPermission_NotPresent\<rparr>]"
    using s by (simp add: m' put_entry_def)
  then have "e\<lparr>m_Permission := AccessPermission_NotPresent\<rparr> \<in> set (set_of_line c m' a)"
    using way(1) assms(4) by (simp add: set_update_memI)
  then show ?thesis using cacheAvail_eq [OF geo' assms(2)] by force
qed

lemma row_of_replicate: "\<not> present e \<Longrightarrow> row_ok c m s (replicate n e)"
  by (auto simp: row_ok_def)

lemma new_policy_ok:
  assumes "new_policy name num_sets assoc = Some p" "0 < num_sets" "num_sets < 2 ^ 32" "0 < assoc" "assoc < 2 ^ 32"
  shows "policy_ok (nat num_sets) (nat assoc) p"
  using assms base_ok_new [of num_sets assoc] PseudoLRUPolicy_new_ok [of num_sets assoc]
  by (auto simp: new_policy_def LRUPolicy_new_def split: if_splits)

lemma CacheMemory_new_ok:
  assumes "CacheMemory_new name entry0 bits assoc mt = Some m" "config_ok c" "0 < bits" "0 < assoc" "assoc < 2 ^ 32"
    "mt \<in> {MachineType_L1Cache, MachineType_L2Cache}"
  shows "cache_ok c m" "lookup c a m = None"
proof -
  have b: "bits < 31" using assms(1) by (auto simp: CacheMemory_new_def Let_def abort_simps)
  have "(2::int) ^ nat bits < 2 ^ 32" using b by (intro power_strict_increasing) auto
  then have pol: "new_policy name (2 ^ nat bits) assoc = Some p \<Longrightarrow> policy_ok (nat (2 ^ nat bits)) (nat assoc) p" for p
    using new_policy_ok [of name "2 ^ nat bits" assoc p] assms(4,5) by simp
  have "geometry_ok c m"
    using assms pol b by (auto simp: CacheMemory_new_def geometry_ok_def Let_def abort_simps push_bit_eq_mult)
  moreover have rows: "\<exists>e. \<not> present e \<and> (\<forall>s<length (m_cache m). m_cache m ! s = replicate (nat assoc) e)"
    using assms(1)
    by (intro exI [of _ "entry0\<lparr>m_Address := 0, m_Permission := AccessPermission_NotPresent\<rparr>"])
      (auto simp: CacheMemory_new_def Let_def abort_simps)
  ultimately show "cache_ok c m" using row_of_replicate unfolding cache_ok_def by metis
  obtain e where "\<not> present e" "set_of_line c m a = replicate (nat assoc) e"
    using rows set_index_less [OF \<open>geometry_ok c m\<close>] by blast
  then show "lookup c a m = None" by (auto simp: lookup_eq \<open>geometry_ok c m\<close> find_None_iff tag_hit_def)
qed

section \<open>The interface of the controllers\<close>

text \<open>What a controller that keeps its lines in a cache array relies on: the array is a map from
  lines to entries of bounded capacity, a probe names a line whose removal makes room.\<close>

locale line_store =
  fixes ok :: "'m \<Rightarrow> bool" and line :: "'a \<Rightarrow> bool"
    and get :: "'a \<Rightarrow> 'm \<Rightarrow> 'e option"
    and avail :: "'a \<Rightarrow> 'm \<Rightarrow> bool option"
    and alloc :: "'a \<Rightarrow> 'm \<Rightarrow> 'm option"
    and dealloc :: "'a \<Rightarrow> 'm \<Rightarrow> 'm option"
    and probe :: "'a \<Rightarrow> 'm \<Rightarrow> 'a option"
    and fresh :: "'a \<Rightarrow> 'e"
  assumes get_line: "\<lbrakk> ok m; get a m = Some e \<rbrakk> \<Longrightarrow> line a"
    and avail_total: "\<lbrakk> ok m; line a \<rbrakk> \<Longrightarrow> \<exists>b. avail a m = Some b"
    and avail_hit: "\<lbrakk> ok m; get a m = Some e \<rbrakk> \<Longrightarrow> avail a m = Some True"
    and alloc_new: "\<lbrakk> ok m; line a; get a m = None; avail a m = Some True \<rbrakk> \<Longrightarrow>
      \<exists>m'. alloc a m = Some m' \<and> ok m' \<and> (\<forall>b. get b m' = (if b = a then Some (fresh a) else get b m))"
    and dealloc_line: "\<lbrakk> ok m; get a m = Some e \<rbrakk> \<Longrightarrow>
      \<exists>m'. dealloc a m = Some m' \<and> ok m' \<and> (\<forall>b. get b m' = (if b = a then None else get b m))"
    and probe_line: "\<lbrakk> ok m; line a; avail a m = Some False \<rbrakk> \<Longrightarrow>
      \<exists>v e. probe a m = Some v \<and> get v m = Some e \<and> v \<noteq> a"
    and probe_room: "\<lbrakk> ok m; line a; probe a m = Some v; dealloc v m = Some m' \<rbrakk> \<Longrightarrow> avail a m' = Some True"
begin

text \<open>The replacement that the controllers run on a miss: evict the probed line if there is no
  room, then allocate.\<close>

lemma replace_and_allocate:
  assumes "ok m" "line a" "get a m = None"
  shows "\<exists>m' v. do { b \<leftarrow> avail a m;
      m1 \<leftarrow> (if b then Some m else do { v \<leftarrow> probe a m; dealloc v m });
      alloc a m1 } = Some m' \<and> ok m' \<and> get a m' = Some (fresh a) \<and>
      (\<forall>b. b \<noteq> a \<and> b \<noteq> v \<longrightarrow> get b m' = get b m)"
proof -
  obtain b where b: "avail a m = Some b" using avail_total [OF assms(1,2)] by blast
  show ?thesis
  proof (cases b)
    case True
    then show ?thesis using alloc_new [OF assms] b by fastforce
  next
    case False
    obtain v e where v: "probe a m = Some v" "get v m = Some e" "v \<noteq> a"
      using probe_line [OF assms(1,2)] b False by auto
    obtain m1 where m1: "dealloc v m = Some m1" "ok m1" "\<And>b. get b m1 = (if b = v then None else get b m)"
      using dealloc_line [OF assms(1) v(2)] by auto
    have "avail a m1 = Some True" by (rule probe_room [OF assms(1,2) v(1) m1(1)])
    then obtain m2 where m2: "alloc a m1 = Some m2" "ok m2" "\<And>b. get b m2 = (if b = a then Some (fresh a) else get b m1)"
      using alloc_new [OF m1(2) assms(2)] m1(3) [of a] assms(3) v(3) by auto
    then show ?thesis using b False v(1) m1(1,3) by (intro exI [of _ m2] exI [of _ v]) simp
  qed
qed

end

interpretation cache: line_store "cache_ok c" "is_line c" "lookup c" "cacheAvail c" "allocate c entry0 now"
  "deallocate c" "cacheProbe c" "fresh_entry entry0" for c entry0 now
proof
  fix m :: "'a cache_entry_scheme cache_memory" and a v :: physical_address_t and e m'
  show "is_line c a" if "cache_ok c m" "lookup c a m = Some e" using lookup_Some [OF that] by simp
  show "\<exists>b. cacheAvail c a m = Some b" if "cache_ok c m" "is_line c a"
    using cacheAvail_iff [OF that] by simp
  show "cacheAvail c a m = Some True" if "cache_ok c m" "lookup c a m = Some e"
    using cacheAvail_iff [OF that(1) lookup_Some(1) [OF that]] that(2) by simp
  show "\<exists>m'. allocate c entry0 now a m = Some m' \<and> cache_ok c m' \<and>
      (\<forall>b. lookup c b m' = (if b = a then Some (fresh_entry entry0 a) else lookup c b m))"
    if "cache_ok c m" "is_line c a" "lookup c a m = None" "cacheAvail c a m = Some True"
    by (rule allocate_law [OF that, of entry0 now]) blast
  show "\<exists>m'. deallocate c a m = Some m' \<and> cache_ok c m' \<and>
      (\<forall>b. lookup c b m' = (if b = a then None else lookup c b m))"
    if "cache_ok c m" "lookup c a m = Some e"
    by (rule deallocate_law [OF that]) blast
  show "\<exists>v e. cacheProbe c a m = Some v \<and> lookup c v m = Some e \<and> v \<noteq> a"
    if "cache_ok c m" "is_line c a" "cacheAvail c a m = Some False"
    by (rule cacheProbe_law [OF that]) blast
  show "cacheAvail c a m' = Some True"
    if "cache_ok c m" "is_line c a" "cacheProbe c a m = Some v" "deallocate c v m = Some m'"
  proof -
    note ok = that(1,2)
    have full: "cacheAvail c a m = Some False" using that(3) by (auto simp: cacheProbe_def abort_simps)
    obtain v' e' where "cacheProbe c a m = Some v'" "lookup c v' m = Some e'" "set_index c m v' = set_index c m a"
      by (rule cacheProbe_law [OF ok full])
    then show ?thesis using deallocate_makes_room [OF that(1,2) _ _ that(4)] that(3) by auto
  qed
qed

section \<open>Sequences of operations\<close>

datatype cache_op =
    Op_allocate physical_address_t Time | Op_deallocate physical_address_t
  | Op_changePermission physical_address_t AccessPermission | Op_setMRU physical_address_t Time
  | Op_setRts physical_address_t Time | Op_setWts physical_address_t Time
  | Op_insertCtaWarpID physical_address_t int int | Op_setExpired int int Time Time
  | Op_setMemoryValue physical_address_t "8 word list" | Op_tryCacheAccess physical_address_t CacheRequestType Time
  | Op_setMinPts Time | Op_flushCache

fun cache_step :: "ruby_config \<Rightarrow> bool \<Rightarrow> 'x cache_entry_scheme \<Rightarrow> cache_op \<Rightarrow>
   'x cache_entry_scheme cache_memory \<Rightarrow> 'x cache_entry_scheme cache_memory option" where
  "cache_step c d entry0 (Op_allocate a now) m = allocate c entry0 now a m"
| "cache_step c d entry0 (Op_deallocate a) m = deallocate c a m"
| "cache_step c d entry0 (Op_changePermission a p) m = changePermission c a p m"
| "cache_step c d entry0 (Op_setMRU a now) m = setMRU c now a m"
| "cache_step c d entry0 (Op_setRts a t) m = setRts c a t m"
| "cache_step c d entry0 (Op_setWts a t) m = setWts c a t m"
| "cache_step c d entry0 (Op_insertCtaWarpID a cta wid) m = insertCtaWarpID c a cta wid m"
| "cache_step c d entry0 (Op_setExpired cta wid msg_wts load_ts) m = Some (snd (setExpired cta wid msg_wts load_ts m))"
| "cache_step c d entry0 (Op_setMemoryValue a val) m = setMemoryValue c d a val m"
| "cache_step c d entry0 (Op_tryCacheAccess a t now) m = map_option (\<lambda>(_, _, m'). m') (tryCacheAccess c now a t m)"
| "cache_step c d entry0 (Op_setMinPts t) m = Some (setMinPts t m)"
| "cache_step c d entry0 Op_flushCache m = Some (flushCache m)"

text \<open>Operations that rewrite every entry and keep the tags and the permissions, or that empty
  the cache.\<close>

lemma cache_ok_map:
  assumes "cache_ok c m" "\<And>e. present (f e) \<Longrightarrow> present e \<and> m_Address (f e) = m_Address e"
  shows "cache_ok c (m\<lparr>m_cache := map (map f) (m_cache m)\<rparr>)"
proof -
  let ?m = "m\<lparr>m_cache := map (map f) (m_cache m)\<rparr>"
  have ix: "set_index c ?m = set_index c m" by (simp add: set_index_def fun_eq_iff)
  have geo: "geometry_ok c m" using assms(1) by (simp add: cache_ok_def)
  then have "geometry_ok c ?m" by (auto simp: geometry_ok_def)
  moreover have "row_ok c m s (map f (m_cache m ! s))" if "s < length (m_cache m)" for s
  proof -
    have row: "row_ok c m s (m_cache m ! s)" using assms(1) that by (simp add: cache_ok_def)
    have "i = j" if "i < length (m_cache m ! s)" "j < length (m_cache m ! s)" "present (f (m_cache m ! s ! i))"
      "present (f (m_cache m ! s ! j))" "m_Address (f (m_cache m ! s ! i)) = m_Address (f (m_cache m ! s ! j))" for i j
      using that assms(2) by (intro row_ok_unique [OF row, of i j "m_Address (m_cache m ! s ! i)"]) (auto simp: tag_hit_def)
    moreover have "is_line c (m_Address (f e)) \<and> set_index c m (m_Address (f e)) = s"
      if "e \<in> set (m_cache m ! s)" "present (f e)" for e
      using row assms(2) [OF that(2)] that(1) by (simp add: row_ok_def)
    ultimately show ?thesis by (simp add: row_ok_def)
  qed
  ultimately show ?thesis by (simp add: cache_ok_def row_ok_ix [OF ix])
qed

lemma modify_entry_ok:
  assumes "cache_ok c m" "modify_entry c a f m = Some m'" "\<And>e. m_Address (f e) = m_Address e"
  shows "cache_ok c m'"
proof -
  obtain e where e: "lookup c a m = Some e"
    using assms(2) by (auto simp: modify_entry_def lookup_def abort_simps)
  have "m_Address e = a" using lookup_Some [OF assms(1) e] by simp
  then obtain m1 where "modify_entry c a f m = Some m1" "cache_ok c m1"
    using modify_entry_law [OF assms(1) e, of f] assms(3) by metis
  then show ?thesis using assms(2) by simp
qed

lemma touch_way_ok:
  assumes "cache_ok c m" "touch_way s w now m = Some m'" "0 \<le> s" "s < int (length (m_cache m))"
  shows "cache_ok c m'"
proof -
  obtain p' where p': "policy_touch s w now (m_replacementPolicy_ptr m) = Some p'" "m' = m\<lparr>m_replacementPolicy_ptr := p'\<rparr>"
    using assms(2) by (auto simp: touch_way_def abort_simps)
  have geo: "geometry_ok c m" using assms(1) by (simp add: cache_ok_def)
  have pol: "policy_ok (nat (m_cache_num_sets m)) (nat (m_cache_assoc m)) (m_replacementPolicy_ptr m)"
    using geo unfolding geometry_ok_def by blast
  have w: "0 \<le> w" "w < int (nat (m_cache_assoc m))" using policy.touch_out [OF pol, of w s now] p'(1) by fastforce+
  have d: "length (m_cache m ! nat s) = nat (m_cache_assoc m)"
    using geometry_dims(2) [OF geo, of "nat s"] assms(3,4) by simp
  have ws: "nat s < length (m_cache m)" "nat w < length (m_cache m ! nat s)"
    using w assms(3,4) unfolding d by (auto simp: nat_less_iff split: if_splits)
  show ?thesis
    by (rule touch_way_law [OF assms(1) ws, of now]) (use assms(2,3) w(1) in auto)
qed

lemma addressToCacheSet_range:
  assumes "cache_ok c m" "addressToCacheSet c a m = Some s"
  shows "0 \<le> s" "s < int (length (m_cache m))"
proof -
  have geo: "geometry_ok c m" using assms(1) by (simp add: cache_ok_def)
  have "is_line c a" using assms(2) by (auto simp: addressToCacheSet_def abort_simps dest: line_assert_Some)
  then have "s = int (set_index c m a)" using assms(2) addressToCacheSet_eq [OF geo] by simp
  then show "0 \<le> s" "s < int (length (m_cache m))" using set_index_less [OF geo] by simp_all
qed

lemma allocate_Some:
  assumes "cache_ok c m" "allocate c entry0 now a m = Some m'"
  shows "is_line c a" "lookup c a m = None" "cacheAvail c a m = Some True"
proof -
  have geo: "geometry_ok c m" using assms(1) by (simp add: cache_ok_def)
  show line: "is_line c a" using assms(2) by (auto simp: allocate_def abort_simps dest: line_assert_Some)
  show "lookup c a m = None" "cacheAvail c a m = Some True"
    using assms(2) by (auto simp: allocate_def abort_simps isTagPresent_lookup [OF geo line])
qed

lemma deallocate_Some:
  assumes "cache_ok c m" "deallocate c a m = Some m'"
  shows "lookup c a m \<noteq> None"
proof -
  have geo: "geometry_ok c m" using assms(1) by (simp add: cache_ok_def)
  have line: "is_line c a" using assms(2) by (auto simp: deallocate_def abort_simps dest: line_assert_Some)
  show ?thesis using assms(2) by (auto simp: deallocate_def abort_simps isTagPresent_lookup [OF geo line])
qed

lemma cache_step_ok:
  assumes "cache_ok c m" "cache_step c d entry0 op m = Some m'"
  shows "cache_ok c m'"
proof (cases op)
  case (Op_allocate a now)
  then have al: "allocate c entry0 now a m = Some m'" using assms(2) by simp
  show ?thesis by (rule allocate_law [OF assms(1) allocate_Some [OF assms(1) al], of entry0 now]) (use al in auto)
next
  case (Op_deallocate a)
  then have de: "deallocate c a m = Some m'" using assms(2) by simp
  then obtain e where "lookup c a m = Some e" using deallocate_Some [OF assms(1)] by blast
  then show ?thesis by (rule deallocate_law [OF assms(1)]) (use de in auto)
next
  case (Op_setExpired cta wid msg_wts load_ts)
  then show ?thesis using assms
    by (auto simp: setExpired_def mark_expired_def Let_def split: option.splits if_splits intro!: cache_ok_map)
next
  case (Op_setMinPts t)
  have "set_index c (setMinPts t m) = set_index c m" by (simp add: set_index_def setMinPts_def fun_eq_iff)
  then show ?thesis using Op_setMinPts assms row_ok_ix [of c "setMinPts t m" m]
    by (auto simp: cache_ok_def) (auto simp: setMinPts_def geometry_ok_def)
qed (use assms in \<open>auto simp: changePermission_def setMRU_def setRts_def setWts_def insertCtaWarpID_def
  checked_set_def setMemoryValue_def tryCacheAccess_def flushCache_def clear_flags_def Let_def abort_simps
  split: if_splits intro: touch_way_ok modify_entry_ok cache_ok_map dest: addressToCacheSet_range\<close>)

section \<open>Data\<close>

lemma write_bytes_eq:
  assumes "0 \<le> pos" "nat pos + length bs \<le> length blk"
  shows "\<exists>blk'. write_bytes True bs pos blk = Some blk' \<and> length blk' = length blk \<and>
    (\<forall>i<length blk. blk' ! i = (if nat pos \<le> i \<and> i < nat pos + length bs then bs ! (i - nat pos) else blk ! i))"
  using assms
proof (induction bs arbitrary: pos blk)
  case (Cons b bs)
  have p: "nat (pos + 1) = Suc (nat pos)" "nat pos < length blk" using Cons.prems by auto
  have "setByte True pos b blk = Some (blk[nat pos := b])"
    using Cons.prems by (simp add: setByte_def array_at_in)
  moreover obtain blk' where "write_bytes True bs (pos + 1) (blk[nat pos := b]) = Some blk'" "length blk' = length blk"
    "\<forall>i<length blk. blk' ! i = (if Suc (nat pos) \<le> i \<and> i < Suc (nat pos) + length bs
       then bs ! (i - Suc (nat pos)) else blk[nat pos := b] ! i)"
    using Cons.IH [of "pos + 1" "blk[nat pos := b]"] Cons.prems p by auto
  ultimately show ?case using p
    by (auto simp: nth_list_update nth_Cons' Suc_diff_Suc less_Suc_eq_le not_le split: nat.splits)
qed auto

lemma read_bytes_eq:
  assumes "0 \<le> pos" "nat pos + n \<le> length blk"
  shows "read_bytes True n pos blk = Some (take n (drop (nat pos) blk))"
  using assms
proof (induction n arbitrary: pos)
  case (Suc n)
  have "nat (pos + 1) = Suc (nat pos)" "nat pos < length blk" using Suc.prems by auto
  then show ?case using Suc
    by (simp add: getByte_def array_at_in) (simp add: Cons_nth_drop_Suc [symmetric])
qed simp

lemma write_then_read:
  assumes "0 \<le> pos" "nat pos + length bs \<le> length blk"
  shows "\<exists>blk'. write_bytes True bs pos blk = Some blk' \<and> read_bytes True (length bs) pos blk' = Some bs"
proof -
  obtain blk' where blk': "write_bytes True bs pos blk = Some blk'" "length blk' = length blk"
    "\<forall>i<length blk. blk' ! i = (if nat pos \<le> i \<and> i < nat pos + length bs then bs ! (i - nat pos) else blk ! i)"
    using write_bytes_eq [OF assms] by blast
  have "take (length bs) (drop (nat pos) blk') = bs"
    using blk'(2,3) assms(2) by (intro nth_equalityI) auto
  then show ?thesis using blk'(1,2) read_bytes_eq [of pos "length bs" blk'] assms by simp
qed

section \<open>Properties\<close>

text \<open>C23. A miss can always be filled: in a well-formed cache, for a line that is not present, the
  replacement that the controllers run (test for room, otherwise take out the line that the policy
  names, then allocate) never aborts, with either policy; it ends in a well-formed cache that holds
  the fresh entry for the line, and every other line but the evicted one keeps its entry.\<close>

theorem cache_miss_can_be_filled:
  assumes "cache_ok c m" "is_line c a" "lookup c a m = None"
  shows "\<exists>m' v. do { b \<leftarrow> cacheAvail c a m;
      m1 \<leftarrow> (if b then Some m else do { v \<leftarrow> cacheProbe c a m; deallocate c v m });
      allocate c entry0 now a m1 } = Some m' \<and> cache_ok c m' \<and>
      lookup c a m' = Some (fresh_entry entry0 a) \<and>
      (\<forall>b. b \<noteq> a \<and> b \<noteq> v \<longrightarrow> lookup c b m' = lookup c b m)"
  using assms by (rule cache.replace_and_allocate)

definition sample_entry :: cache_entry where
  "sample_entry = \<lparr>m_Address = 0, m_Permission = AccessPermission_NotPresent, rts = 0, wts = 0, ctaMap = [],
     expired_by_own_warp = False, expired_by_own_cta = False, expired_by_shared_warp = False,
     expired_by_shared_cta = False, m_DataBlk = replicate 64 0\<rparr>"

definition sample_cache :: "cache_entry cache_memory" where
  "sample_cache = \<lparr>m_machType = MachineType_L1Cache, m_is_instruction_cache = False,
     m_cache = replicate 2 [sample_entry], m_replacementPolicy_ptr = LRU_policy (LRUPolicy_new 2 1),
     m_cache_num_sets = 2, m_cache_num_set_bits = 1, m_cache_assoc = 1,
     cache_pts = 0, cache_mts = 0, cache_min_pts = 0, cache_lts = 0, cache_sts = 0\<rparr>"

lemma sample_cache_new: "CacheMemory_new ''LRU'' sample_entry 1 1 MachineType_L1Cache = Some sample_cache"
  by (simp add: CacheMemory_new_def new_policy_def sample_cache_def sample_entry_def numeral_2_eq_2)

lemma sample_cache_ok: "cache_ok sample_config' sample_cache" "lookup sample_config' a sample_cache = None"
  using CacheMemory_new_ok [OF sample_cache_new sample_config'_ok] by auto

lemma cache_miss_can_be_filled_witness:
  "\<exists>m' v. do { b \<leftarrow> cacheAvail sample_config' 0x1200 sample_cache;
      m1 \<leftarrow> (if b then Some sample_cache else do { v \<leftarrow> cacheProbe sample_config' 0x1200 sample_cache;
        deallocate sample_config' v sample_cache });
      allocate sample_config' sample_entry 7 0x1200 m1 } = Some m' \<and> cache_ok sample_config' m' \<and>
      lookup sample_config' 0x1200 m' = Some (fresh_entry sample_entry 0x1200) \<and>
      (\<forall>b. b \<noteq> 0x1200 \<and> b \<noteq> v \<longrightarrow> lookup sample_config' b m' = lookup sample_config' b sample_cache)"
  by (rule cache_miss_can_be_filled [OF sample_cache_ok(1) sample_line sample_cache_ok(2)])

text \<open>C24. The shape of the cache is an invariant of its type: from the constructor on, whatever the
  sequence of operations, as long as none of them aborts, the array keeps its dimensions, every
  present line is aligned, is in the set that its address selects and is held by one way only, and
  the replacement policy keeps its own shape.\<close>

theorem cache_shape_invariant:
  assumes "CacheMemory_new g_REPLACEMENT_POLICY entry0 numSetBits cacheAssoc machType = Some m"
    and "config_ok c" "0 < numSetBits" "0 < cacheAssoc" "cacheAssoc < 2 ^ 32"
    and "machType \<in> {MachineType_L1Cache, MachineType_L2Cache}"
    and "run_all (cache_step c DATA_BLOCK entry0) ops m = Some m'"
  shows "cache_ok c m'"
  by (rule run_all_invariant [of ops "cache_ok c" "cache_step c DATA_BLOCK entry0" m])
    (use assms CacheMemory_new_ok [OF assms(1-6)] cache_step_ok in auto)

lemma cache_shape_invariant_witness:
  "cache_ok sample_config' (setMinPts 3 (flushCache sample_cache))"
  using cache_shape_invariant [OF sample_cache_new sample_config'_ok, where ops = "[Op_flushCache, Op_setMinPts 3]" and
    DATA_BLOCK = True] by simp

text \<open>C32. What is written can be read back: when the simulator keeps data, writing bytes that lie
  inside the block of a present line succeeds, reading as many bytes at the same address returns
  them, and no other line changes.\<close>

theorem cache_data_roundtrip:
  assumes "cache_ok c m" "line_address c addr = Some l" "lookup c l m = Some e"
    and "0 < length val" "unat (addr - l) + length val \<le> length (m_DataBlk e)"
  shows "\<exists>m'. setMemoryValue c True addr val m = Some m' \<and> cache_ok c m' \<and>
    getMemoryValue c True addr (length val) m' = Some val \<and>
    (\<forall>b. b \<noteq> l \<longrightarrow> lookup c b m' = lookup c b m)"
proof -
  obtain blk where blk: "write_bytes True val (int (unat (addr - l))) (m_DataBlk e) = Some blk"
    "read_bytes True (length val) (int (unat (addr - l))) blk = Some val"
    using write_then_read [of "int (unat (addr - l))" val "m_DataBlk e"] assms(5) by auto
  have e: "m_Address e = l" "present e" using lookup_Some [OF assms(1,3)] by auto
  obtain m' where m': "modify_entry c l (\<lambda>e. e\<lparr>m_DataBlk := blk\<rparr>) m = Some m'" "cache_ok c m'"
    "\<And>b. lookup c b m' = (if b = l then (if present (e\<lparr>m_DataBlk := blk\<rparr>) then Some (e\<lparr>m_DataBlk := blk\<rparr>) else None)
       else lookup c b m)"
    by (rule modify_entry_law [OF assms(1,3), of "\<lambda>e. e\<lparr>m_DataBlk := blk\<rparr>"]) (use e in auto)
  have "setMemoryValue c True addr val m = Some m'"
    using assms(2-4) blk(1) m'(1) by (simp add: setMemoryValue_def)
  moreover have "getMemoryValue c True addr (length val) m' = Some val"
    using assms(2) blk(2) e(2) m'(3) by (simp add: getMemoryValue_def)
  ultimately show ?thesis using m'(2,3) by auto
qed

definition sample_filled :: "cache_entry cache_memory" where
  "sample_filled = the (allocate sample_config' sample_entry 7 0x1200 sample_cache)"

lemma sample_filled: "cache_ok sample_config' sample_filled"
  "lookup sample_config' 0x1200 sample_filled = Some (fresh_entry sample_entry 0x1200)"
proof -
  have av: "cacheAvail sample_config' 0x1200 sample_cache = Some True"
    using cacheAvail_iff [OF sample_cache_ok(1) sample_line] set_index_less [of sample_config' sample_cache "0x1200"]
      sample_cache_ok(1) by (simp add: cache_ok_def) (simp add: sample_cache_def sample_entry_def)
  have "\<exists>m'. allocate sample_config' sample_entry 7 0x1200 sample_cache = Some m' \<and> cache_ok sample_config' m' \<and>
      lookup sample_config' 0x1200 m' = Some (fresh_entry sample_entry 0x1200)"
    by (rule allocate_law [OF sample_cache_ok(1) sample_line sample_cache_ok(2) av]) auto
  then show "cache_ok sample_config' sample_filled"
    "lookup sample_config' 0x1200 sample_filled = Some (fresh_entry sample_entry 0x1200)"
    by (auto simp: sample_filled_def)
qed

lemma sample_line_address: "line_address sample_config' 0x1204 = Some 0x1200"
  by code_simp

lemma cache_data_roundtrip_witness:
  "\<exists>m'. setMemoryValue sample_config' True 0x1204 [1, 2, 3] sample_filled = Some m' \<and> cache_ok sample_config' m' \<and>
    getMemoryValue sample_config' True 0x1204 (length [1, 2, 3 :: 8 word]) m' = Some [1, 2, 3] \<and>
    (\<forall>b. b \<noteq> 0x1200 \<longrightarrow> lookup sample_config' b m' = lookup sample_config' b sample_filled)"
  by (rule cache_data_roundtrip [OF sample_filled(1) sample_line_address sample_filled(2)])
    (simp_all add: fresh_entry_def clear_flags_def sample_entry_def)

text \<open>A processor access hits exactly when the line is present with permission to write, or with
  permission to read and the access is a load or a fetch; a hit yields the data of the line.  Hit or
  miss, the access never aborts on an aligned address and leaves the contents of the cache alone.\<close>

theorem tryCacheAccess_hit:
  assumes "cache_ok c m" "is_line c a"
  shows "\<exists>hit data m'. tryCacheAccess c now a t m = Some (hit, data, m') \<and> cache_ok c m' \<and>
    (\<forall>b. lookup c b m' = lookup c b m) \<and>
    (hit \<longleftrightarrow> (\<exists>e. lookup c a m = Some e \<and> (m_Permission e = AccessPermission_Read_Write \<or>
        m_Permission e = AccessPermission_Read_Only \<and> (t = CR_LD \<or> t = CR_IFETCH)))) \<and>
    data = (if hit then map_option m_DataBlk (lookup c a m) else None)"
proof (cases "lookup c a m")
  case None
  have geo: "geometry_ok c m" using assms(1) by (simp add: cache_ok_def)
  have "findTagInSet c (int (set_index c m a)) a m = Some (- 1)"
    using None assms(2) geo by (auto simp: findTagInSet_def cache_set_simps lookup_eq find_first_way split: if_splits)
  then show ?thesis using None assms geo by (auto simp: tryCacheAccess_def addressToCacheSet_eq line_assert_line)
next
  case (Some e)
  have geo: "geometry_ok c m" using assms(1) by (simp add: cache_ok_def)
  define w where "w = first_way (tag_hit a) (set_of_line c m a)"
  note way = only_way [OF assms(1) Some, folded w_def]
  have loc: "findTagInSet c (int (set_index c m a)) a m = Some (int w)"
    using way(3) assms(2) geo by (auto simp: lookup_loc_def addressToCacheSet_eq line_assert_line abort_simps)
  obtain m' where m': "touch_way (int (set_index c m a)) (int w) now m = Some m'" "cache_ok c m'"
    "\<And>b. lookup c b m' = lookup c b m"
    by (rule touch_way_law [OF assms(1) set_index_less [OF geo] way(1), of now]) blast
  have "entry_at (int (set_index c m a), int w) m = e" using way(2) by (simp add: entry_at_def)
  then show ?thesis using m' loc Some assms(2) geo
    by (simp add: tryCacheAccess_def addressToCacheSet_eq line_assert_line)
qed

lemma tryCacheAccess_hit_witness:
  "\<exists>hit data m'. tryCacheAccess sample_config' 9 0x1200 CR_LD sample_filled = Some (hit, data, m') \<and> cache_ok sample_config' m' \<and>
    (\<forall>b. lookup sample_config' b m' = lookup sample_config' b sample_filled) \<and>
    (hit \<longleftrightarrow> (\<exists>e. lookup sample_config' 0x1200 sample_filled = Some e \<and> (m_Permission e = AccessPermission_Read_Write \<or>
        m_Permission e = AccessPermission_Read_Only \<and> (CR_LD = CR_LD \<or> CR_LD = CR_IFETCH)))) \<and>
    data = (if hit then map_option m_DataBlk (lookup sample_config' 0x1200 sample_filled) else None)"
  by (rule tryCacheAccess_hit [OF sample_filled(1) sample_line])

text \<open>The calls that the array cannot serve abort: giving an absent line the most recent
  position, and taking the permission of a line away through \<open>changePermission\<close>, whose final
  assertion looks the line up again.\<close>

theorem cache_misuse_aborts:
  assumes "cache_ok c m" "is_line c a"
  shows "(setMRU c now a m = None \<longleftrightarrow> lookup c a m = None) \<and>
    changePermission c a AccessPermission_NotPresent m = None"
proof
  have geo: "geometry_ok c m" using assms(1) by (simp add: cache_ok_def)
  have find: "findTagInSet c (int (set_index c m a)) a m =
      Some (if lookup c a m = None then - 1 else int (first_way (tag_hit a) (set_of_line c m a)))"
    using assms(2) geo by (auto simp: findTagInSet_def cache_set_simps lookup_eq find_first_way)
  show "setMRU c now a m = None \<longleftrightarrow> lookup c a m = None"
  proof (cases "lookup c a m")
    case None
    then show ?thesis using find assms geo by (simp add: setMRU_def addressToCacheSet_eq touch_way_absent)
  next
    case (Some e)
    have "\<exists>m'. touch_way (int (set_index c m a)) (int (first_way (tag_hit a) (set_of_line c m a))) now m = Some m'"
      by (rule touch_way_law [OF assms(1) set_index_less [OF geo] only_way(1) [OF assms(1) Some], of now]) blast
    then show ?thesis using Some find assms geo by (auto simp: setMRU_def addressToCacheSet_eq)
  qed
  show "changePermission c a AccessPermission_NotPresent m = None"
  proof (rule ccontr)
    assume "changePermission c a AccessPermission_NotPresent m \<noteq> None"
    then obtain m' where m': "modify_entry c a (\<lambda>e. e\<lparr>m_Permission := AccessPermission_NotPresent\<rparr>) m = Some m'"
      "lookup c a m' \<noteq> None" by (auto simp: changePermission_def getPermission_def abort_simps)
    then obtain e where e: "lookup c a m = Some e" by (auto simp: modify_entry_def lookup_def abort_simps)
    show False
      by (rule modify_entry_law [OF assms(1) e, of "\<lambda>e. e\<lparr>m_Permission := AccessPermission_NotPresent\<rparr>"])
        (use m' in auto)
  qed
qed

lemma cache_misuse_aborts_witness:
  "changePermission sample_config' 0x1200 AccessPermission_NotPresent sample_filled = None \<and>
   setMRU sample_config' 9 0x1200 sample_cache = None"
  using cache_misuse_aborts [OF sample_filled(1) sample_line]
    cache_misuse_aborts [OF sample_cache_ok(1) sample_line] sample_cache_ok(2) by simp

text \<open>The minimum that the array keeps of the processors' time stamps never leaves zero upwards:
  it starts at 0 and \<open>setMinPts\<close> only lowers it, so after any sequence of operations it is at most 0,
  whatever time stamps the processors report.\<close>

theorem min_pts_never_rises:
  assumes "CacheMemory_new g_REPLACEMENT_POLICY entry0 numSetBits cacheAssoc machType = Some m"
    and "run_all (cache_step c DATA_BLOCK entry0) ops m = Some m'"
  shows "cache_min_pts m' \<le> 0"
proof (rule run_all_invariant [of ops "\<lambda>m. cache_min_pts m \<le> 0" "cache_step c DATA_BLOCK entry0" m])
  show "cache_min_pts m \<le> 0" using assms(1) by (auto simp: CacheMemory_new_def Let_def abort_simps)
  show "cache_min_pts s' \<le> 0" if "cache_min_pts s \<le> 0" "cache_step c DATA_BLOCK entry0 i s = Some s'" for i s s'
    using that
    by (cases i) (auto simp: allocate_def deallocate_def changePermission_def setMRU_def setRts_def setWts_def
      insertCtaWarpID_def checked_set_def setMemoryValue_def tryCacheAccess_def flushCache_def setExpired_def
      setMinPts_def modify_entry_def put_entry_def touch_way_def Let_def abort_simps split: if_splits)
qed (use assms(2) in auto)

lemma min_pts_never_rises_witness: "cache_min_pts (setMinPts 5 (setMinPts 3 sample_cache)) \<le> 0"
  using min_pts_never_rises [OF sample_cache_new, where ops = "[Op_setMinPts 3, Op_setMinPts 5]" and
    DATA_BLOCK = True and c = sample_config'] by simp

end
