(* ===== verification/RCC_Array.thy ===== *)
theory RCC_Array
  imports RCC_L2 Cache_Memory
begin

text \<open>
  A bank of the relativistic L2 cache on the cache array of \<open>system/CacheMemory.h\<close>.

  The theory \<open>RCC_L2\<close> leaves the array to arguments: whether there is room and who is the victim.  Here the two
  run together.  The ports ask the array, and every transition also makes its calls of the array:
  \<open>allocate\<close> (\<open>qq_allocateL2CacheBlock\<close>), \<open>deallocate\<close> (\<open>rr_deallocateL2CacheBlock\<close>), \<open>setMRU\<close> (\<open>set_setMRU\<close>) and
  the \<open>changePermission\<close> of \<open>setState\<close>.  The fields of a block that the protocol reads (its state, data and
  timestamps) stay in the entries of the bank; the array keeps tags, permissions and the replacement
  state.  A stalled transition calls nothing.
\<close>

section \<open>Model\<close>

text \<open>The calls of the array in the actions of a transition.\<close>

fun array_actions ::
    "ruby_config \<Rightarrow> 'x cache_entry_scheme \<Rightarrow> Time \<Rightarrow> L2Cache_State \<Rightarrow> L2Cache_Event \<Rightarrow> physical_address_t \<Rightarrow>
     'x cache_entry_scheme cache_memory \<Rightarrow> 'x cache_entry_scheme cache_memory option" where
  "array_actions c entry0 now L2_NP ev a m = do {
     found \<leftarrow> isTagPresent c a m;
     if found then Some m else allocate c entry0 now a m }"
| "array_actions c entry0 now L2_V ev a m =
     (if ev \<in> {L2_Replacement, L2_Replacement_clean} then deallocate c a m else setMRU c now a m)"
| "array_actions c entry0 now _ ev a m = Some m"

definition array_setState ::
    "ruby_config \<Rightarrow> L2Cache_State \<Rightarrow> physical_address_t \<Rightarrow>
     'x cache_entry_scheme cache_memory \<Rightarrow> 'x cache_entry_scheme cache_memory option" where
  "array_setState c s a m = do {
     found \<leftarrow> isTagPresent c a m;
     if found
     then changePermission c a (if s = L2_V then AccessPermission_Read_Write else AccessPermission_Busy) m
     else Some m }"

definition z_stalls :: "L2Cache_State \<Rightarrow> L2Cache_Event \<Rightarrow> bool" where
  "z_stalls s ev \<longleftrightarrow> s = L2_IAV \<and> ev \<in> {L1_GETS, L1_Write, L2_Atomic, L2_Replacement, L2_Replacement_clean} \<or>
     s = L2_IV \<and> ev \<in> {L2_Atomic, L2_Replacement, L2_Replacement_clean}"

definition array_trigger ::
    "ruby_config \<Rightarrow> 'x cache_entry_scheme \<Rightarrow> Time \<Rightarrow> L2Cache_Event \<Rightarrow> physical_address_t \<Rightarrow>
     'd l2_bank \<times> 'x cache_entry_scheme cache_memory \<Rightarrow> ('d l2_bank \<times> 'x cache_entry_scheme cache_memory) option" where
  "array_trigger c entry0 now ev a s = (let (b, m) = s in do {
     (_, next_state) \<leftarrow> (l2_transition (l2_getState a b) ev :: ('d l2_action list \<times> L2Cache_State) option);
     b' \<leftarrow> l2_trigger ev a b;
     m' \<leftarrow> (if z_stalls (l2_getState a b) ev then Some m
       else do { m1 \<leftarrow> array_actions c entry0 now (l2_getState a b) ev a m; array_setState c next_state a m1 });
     Some (b', m') })"

definition array_request_port ::
    "ruby_config \<Rightarrow> 'x cache_entry_scheme \<Rightarrow> Time \<Rightarrow>
     'd l2_bank \<times> 'x cache_entry_scheme cache_memory \<Rightarrow> ('d l2_bank \<times> 'x cache_entry_scheme cache_memory) option" where
  "array_request_port c entry0 now s = (let (b, m) = s in case peek_request b of None \<Rightarrow> Some (b, m)
     | Some msg \<Rightarrow> do {
         found \<leftarrow> isTagPresent c (rq_Address msg) m;
         room \<leftarrow> (if found then Some True else cacheAvail c (rq_Address msg) m);
         if room
         then do { ev \<leftarrow> request_type_to_event (rq_Type msg); array_trigger c entry0 now ev (rq_Address msg) s }
         else do {
           victim \<leftarrow> cacheProbe c (rq_Address msg) m;
           e \<leftarrow> l2_cache b victim;
           array_trigger c entry0 now (if e_Dirty e then L2_Replacement else L2_Replacement_clean) victim s } })"

definition array_mem_port ::
    "ruby_config \<Rightarrow> 'x cache_entry_scheme \<Rightarrow> Time \<Rightarrow>
     'd l2_bank \<times> 'x cache_entry_scheme cache_memory \<Rightarrow> ('d l2_bank \<times> 'x cache_entry_scheme cache_memory) option" where
  "array_mem_port c entry0 now s = (let (b, m) = s in case peek_reply b of None \<Rightarrow> Some (b, m)
     | Some r \<Rightarrow> (case mm_Type r of
         MEMORY_READ \<Rightarrow> do {
           t \<leftarrow> l2_TBEs b (mm_Address r);
           assert_that (t_pending_read t \<or> t_pending_write t);
           (if t_pending_read t \<and> t_pending_write t then array_trigger c entry0 now Mem_Data_PRW (mm_Address r) s
            else if t_pending_read t then array_trigger c entry0 now Mem_Data_PR (mm_Address r) s
            else array_trigger c entry0 now Mem_Data_PW (mm_Address r) s) }
       | MEMORY_WB \<Rightarrow> Some (b\<lparr> l2_mem_replies := tl (l2_mem_replies b) \<rparr>, m)))"

text \<open>Runs from a new bank with a new array; requests and answers of the memory arrive at any time.\<close>

inductive array_reachable ::
    "ruby_config \<Rightarrow> 'x cache_entry_scheme \<Rightarrow> 'd l2_bank \<times> 'x cache_entry_scheme cache_memory \<Rightarrow> bool"
  for c entry0 where
  initial: "\<lbrakk> CacheMemory_new name entry0 bits assoc MachineType_L2Cache = Some m; config_ok c; 0 < bits; 0 < assoc;
     assoc < 2 ^ 32 \<rbrakk> \<Longrightarrow> array_reachable c entry0 (l2_init, m)"
| request_arrives: "array_reachable c entry0 (b, m) \<Longrightarrow>
     array_reachable c entry0 (b\<lparr> l2_requests := l2_requests b @ [msg] \<rparr>, m)"
| reply_arrives: "array_reachable c entry0 (b, m) \<Longrightarrow>
     array_reachable c entry0 (b\<lparr> l2_mem_replies := l2_mem_replies b @ [r] \<rparr>, m)"
| handle_request: "array_reachable c entry0 s \<Longrightarrow> array_request_port c entry0 now s = Some s' \<Longrightarrow> array_reachable c entry0 s'"
| handle_reply: "array_reachable c entry0 s \<Longrightarrow> array_mem_port c entry0 now s = Some s' \<Longrightarrow> array_reachable c entry0 s'"

section \<open>The array follows the bank\<close>

text \<open>The array holds the lines of the bank, with the permission of their state.\<close>

definition backs :: "ruby_config \<Rightarrow> 'x cache_entry_scheme cache_memory \<Rightarrow> 'd l2_bank \<Rightarrow> bool" where
  "backs c m b \<longleftrightarrow> cache_ok c m \<and> (\<forall>a. map_option m_Permission (Cache_Memory.lookup c a m) =
     map_option (\<lambda>e. if e_CacheState e = L2_V then AccessPermission_Read_Write else AccessPermission_Busy) (l2_cache b a))"

lemma changePermission_law:
  assumes "cache_ok c m" "Cache_Memory.lookup c a m = Some e" "p \<noteq> AccessPermission_NotPresent"
  obtains m' where "changePermission c a p m = Some m'" "cache_ok c m'"
    "\<And>x. Cache_Memory.lookup c x m' = (if x = a then Some (e\<lparr> m_Permission := p \<rparr>) else Cache_Memory.lookup c x m)"
proof -
  have line: "is_line c a" "m_Address e = a" using lookup_Some [OF assms(1,2)] by auto
  obtain m' where m': "modify_entry c a (\<lambda>e. e\<lparr>m_Permission := p\<rparr>) m = Some m'" "cache_ok c m'"
    "\<And>x. Cache_Memory.lookup c x m' = (if x = a then Some (e\<lparr> m_Permission := p \<rparr>) else Cache_Memory.lookup c x m)"
    by (rule modify_entry_law [OF assms(1,2), of "\<lambda>e. e\<lparr>m_Permission := p\<rparr>"]) (use assms(3) line(2) in auto)
  then have "changePermission c a p m = Some m'"
    using line(1) by (simp add: changePermission_def getPermission_def line_assert_line)
  then show thesis using that m'(2,3) by blast
qed

lemma setMRU_law:
  assumes "cache_ok c m" "Cache_Memory.lookup c a m = Some e"
  obtains m' where "setMRU c now a m = Some m'" "cache_ok c m'" "\<And>x. Cache_Memory.lookup c x m' = Cache_Memory.lookup c x m"
proof -
  define w where "w = first_way (tag_hit a) (set_of_line c m a)"
  note way = only_way [OF assms, folded w_def]
  have s: "set_index c m a < length (m_cache m)" using assms(1) by (simp add: cache_ok_def set_index_less)
  obtain m' where m': "touch_way (int (set_index c m a)) (int w) now m = Some m'" "cache_ok c m'"
    "\<And>x. Cache_Memory.lookup c x m' = Cache_Memory.lookup c x m"
    by (rule touch_way_law [OF assms(1) s way(1)]) blast
  have "setMRU c now a m = Some m'"
    using way(3) m'(1) by (auto simp: setMRU_def lookup_loc_def abort_simps)
  then show thesis using that m'(2,3) by blast
qed

text \<open>The bank's side of a transition: the state and the presence of its line.\<close>

lemma trigger_state:
  fixes b :: "'d l2_bank"
  assumes "l2_trigger ev a b = Some b'" "l2_cache b' a = Some e"
    "(l2_transition (l2_getState a b) ev :: ('d l2_action list \<times> L2Cache_State) option) = Some (acts, nxt)"
  shows "e_CacheState e = nxt"
proof -
  obtain b1 where "b' = l2_setState a nxt b1"
    using assms(1,3) by (auto simp: l2_trigger_def bind_Some_iff)
  then show ?thesis using assms(2) by (cases "l2_cache b1 a") (auto simp: l2_setState_def)
qed

lemma NP_installs:
  assumes "l2_cache b a = None" "l2_TBEs b a = None" "l2_trigger ev a b = Some b'"
  shows "l2_cache b' a \<noteq> None"
  using assms by (cases ev; cases "l2_requests b") (auto simp: l2_run split: if_splits)

lemma V_presence:
  assumes "l2_cache b a = Some e" "l2_TBEs b a = None" "e_CacheState e = L2_V" "l2_trigger ev a b = Some b'"
  shows "l2_cache b' a = None \<longleftrightarrow> ev \<in> {L2_Replacement, L2_Replacement_clean}"
  using assms by (cases ev; cases "l2_requests b") (auto simp: l2_run abort_simps)

lemma busy_presence:
  assumes "l2_cache b a = Some e" "l2_TBEs b a = Some t" "t_TBEState t \<in> {L2_IV, L2_IAV}" "l2_trigger ev a b = Some b'"
  shows "l2_cache b' a \<noteq> None"
  using assms by (cases ev; cases "l2_requests b"; cases "l2_mem_replies b") (auto simp: l2_run abort_simps)

lemma stall_keeps:
  assumes "l2_cache b a = Some e" "l2_TBEs b a = Some t" "t_TBEState t = e_CacheState e" "z_stalls (e_CacheState e) ev"
    "l2_trigger ev a b = Some b'"
  shows "l2_cache b' a = Some e" "l2_requests b' = l2_requests b"
  using assms by (auto simp: z_stalls_def l2_run)

text \<open>The array's side: a call of \<open>setState\<close> gives the line the permission of the state.\<close>

abbreviation perm_of :: "L2Cache_State \<Rightarrow> AccessPermission" where
  "perm_of st \<equiv> (if st = L2_V then AccessPermission_Read_Write else AccessPermission_Busy)"

lemma setState_present:
  assumes "cache_ok c m" "Cache_Memory.lookup c a m = Some e"
  obtains m' where "array_setState c st a m = Some m'" "cache_ok c m'"
    "\<And>x. Cache_Memory.lookup c x m' = (if x = a then Some (e\<lparr> m_Permission := perm_of st \<rparr>) else Cache_Memory.lookup c x m)"
proof -
  have "geometry_ok c m" "is_line c a" using assms lookup_Some [OF assms] by (auto simp: cache_ok_def)
  then have "array_setState c st a m = changePermission c a (perm_of st) m"
    using assms(2) by (simp add: array_setState_def isTagPresent_lookup)
  moreover obtain m' where "changePermission c a (perm_of st) m = Some m'" "cache_ok c m'"
    "\<And>x. Cache_Memory.lookup c x m' = (if x = a then Some (e\<lparr> m_Permission := perm_of st \<rparr>) else Cache_Memory.lookup c x m)"
    by (rule changePermission_law [OF assms, of "perm_of st"]) auto
  ultimately show thesis using that by simp
qed

text \<open>A line that is present before \<open>setState\<close> and after the transition.\<close>

lemma backs_present:
  assumes "backs c m b" "cache_ok c m1" "Cache_Memory.lookup c a m1 = Some x"
    and other: "\<And>y. y \<noteq> a \<Longrightarrow> Cache_Memory.lookup c y m1 = Cache_Memory.lookup c y m"
    and bank: "\<And>y. y \<noteq> a \<Longrightarrow> l2_cache b' y = l2_cache b y" "l2_cache b' a = Some e" "e_CacheState e = st"
  shows "\<exists>m'. array_setState c st a m1 = Some m' \<and> backs c m' b'"
proof -
  obtain m' where m': "array_setState c st a m1 = Some m'" "cache_ok c m'"
    "\<And>y. Cache_Memory.lookup c y m' = (if y = a then Some (x\<lparr> m_Permission := perm_of st \<rparr>) else Cache_Memory.lookup c y m1)"
    by (rule setState_present [OF assms(2,3), of st]) blast
  have "map_option m_Permission (Cache_Memory.lookup c y m') = map_option (\<lambda>e. perm_of (e_CacheState e)) (l2_cache b' y)" for y
    using m'(3) [of y] other [of y] bank assms(1) by (cases "y = a") (auto simp: backs_def)
  then show ?thesis using m'(1,2) unfolding backs_def by blast
qed

lemma backs_lookup: "backs c m b \<Longrightarrow> Cache_Memory.lookup c a m = None \<longleftrightarrow> l2_cache b a = None"
  by (metis backs_def map_option_is_None)

lemma backs_some: "backs c m b \<Longrightarrow> l2_cache b a \<noteq> None \<Longrightarrow> \<exists>x. Cache_Memory.lookup c a m = Some x"
  by (metis backs_lookup not_None_eq)

lemma trigger_others:
  assumes "l2_ok b" "l2_trigger ev a b = Some b'" "ev = Mem_Data_PR \<longrightarrow> (\<forall>t. l2_TBEs b a = Some t \<longrightarrow> \<not> t_pending_write t)"
  shows "y \<noteq> a \<Longrightarrow> l2_cache b' y = l2_cache b y"
  using trigger_advances [OF _ _ assms(2)] assms(1,3) unfolding l2_ok_def l2_advances_def by blast

lemma array_trigger_eq:
  fixes b :: "'d l2_bank"
  assumes "l2_trigger ev a b = Some b'" "(l2_transition (l2_getState a b) ev :: ('d l2_action list \<times> L2Cache_State) option) = Some (acts, nxt)"
    "(if z_stalls (l2_getState a b) ev then Some m
      else do { m1 \<leftarrow> array_actions c entry0 now (l2_getState a b) ev a m; array_setState c nxt a m1 }) = Some m'"
  shows "array_trigger c entry0 now ev a (b, m) = Some (b', m')"
  using assms by (simp add: array_trigger_def)

lemma busy_case:
  fixes b :: "'d l2_bank"
  assumes backs: "backs c m b" and line: "l2_cache b a = Some e" "l2_TBEs b a = Some t"
    and st: "t_TBEState t \<in> {L2_IV, L2_IAV}" "t_TBEState t = e_CacheState e" "l2_getState a b = e_CacheState e"
    and run: "l2_trigger ev a b = Some b'"
    and tr: "(l2_transition (l2_getState a b) ev :: ('d l2_action list \<times> L2Cache_State) option) = Some (acts, nxt)"
    and others: "\<And>y. y \<noteq> a \<Longrightarrow> l2_cache b' y = l2_cache b y" and state: "\<And>e. l2_cache b' a = Some e \<Longrightarrow> e_CacheState e = nxt"
  shows "\<exists>m'. array_trigger c entry0 now ev a (b, m) = Some (b', m') \<and> backs c m' b' \<and>
     (z_stalls (l2_getState a b) ev \<longrightarrow> m' = m)"
proof (cases "z_stalls (l2_getState a b) ev")
  case True
  then have "l2_cache b' a = l2_cache b a" using stall_keeps(1) [OF line st(2) _ run] st(3) line(1) by simp
  then have "l2_cache b' = l2_cache b" using others by (intro ext) metis
  then have "backs c m b'" using backs by (simp add: backs_def)
  then show ?thesis using array_trigger_eq [OF run tr, of m c entry0 now m] True by auto
next
  case False
  obtain x where x: "Cache_Memory.lookup c a m = Some x" using backs_some [OF backs] line(1) by blast
  obtain e' where e': "l2_cache b' a = Some e'" using busy_presence [OF line st(1) run] by blast
  have mok: "cache_ok c m" using backs by (simp add: backs_def)
  obtain m' where m': "array_setState c nxt a m = Some m'" "backs c m' b'"
    using backs_present [OF backs mok x _ others e' state [OF e']] by auto
  have "array_actions c entry0 now (l2_getState a b) ev a m = Some m"
    using st by auto
  then show ?thesis using array_trigger_eq [OF run tr, of m c entry0 now m'] False m' by auto
qed

lemma array_trigger_runs:
  fixes b :: "'d l2_bank"
  assumes backs: "backs c m b" and ok: "l2_ok b" and run: "l2_trigger ev a b = Some b'"
    and pr: "ev = Mem_Data_PR \<longrightarrow> (\<forall>t. l2_TBEs b a = Some t \<longrightarrow> \<not> t_pending_write t)"
    and room: "l2_cache b a = None \<Longrightarrow> is_line c a \<and> cacheAvail c a m = Some True"
  shows "\<exists>m'. array_trigger c entry0 now ev a (b, m) = Some (b', m') \<and> backs c m' b' \<and>
     (z_stalls (l2_getState a b) ev \<longrightarrow> m' = m) \<and>
     (l2_getState a b = L2_V \<and> ev \<in> {L2_Replacement, L2_Replacement_clean} \<longrightarrow> deallocate c a m = Some m')"
proof -
  have mok: "cache_ok c m" using backs by (simp add: backs_def)
  obtain acts nxt where tr: "(l2_transition (l2_getState a b) ev :: ('d l2_action list \<times> L2Cache_State) option) = Some (acts, nxt)"
    using run by (auto simp: l2_trigger_def split: option.splits)
  note state = trigger_state [OF run _ tr] and others = trigger_others [OF ok run pr]
  have line: "line_ok a b" using ok by (simp add: l2_ok_def)
  from line show ?thesis
  proof (cases rule: line_cases)
    case NP
    have st: "l2_getState a b = L2_NP" using NP by (simp add: l2_getState_def)
    obtain e where e: "l2_cache b' a = Some e" using NP_installs [OF NP run] by blast
    have none: "Cache_Memory.lookup c a m = None" using backs_lookup [OF backs] NP(1) by blast
    obtain m1 where m1: "allocate c entry0 now a m = Some m1" "cache_ok c m1"
      "\<And>y. Cache_Memory.lookup c y m1 = (if y = a then Some (fresh_entry entry0 a) else Cache_Memory.lookup c y m)"
      using allocate_law [OF mok _ none] room [OF NP(1)] by metis
    have "isTagPresent c a m = Some False"
      using isTagPresent_lookup [of c m a] mok none room [OF NP(1)] by (simp add: cache_ok_def)
    moreover obtain m' where m': "array_setState c nxt a m1 = Some m'" "backs c m' b'"
      using backs_present [OF backs m1(2), of a "fresh_entry entry0 a" b' e nxt] m1(3) others e state [OF e] by auto
    ultimately have "array_trigger c entry0 now ev a (b, m) = Some (b', m')"
      using array_trigger_eq [OF run tr, of m c entry0 now m'] m1(1) by (simp add: st z_stalls_def)
    then show ?thesis using m'(2) st by (auto simp: z_stalls_def)
  next
    case (V e)
    have st: "l2_getState a b = L2_V" using V by (simp add: l2_getState_def)
    obtain x where x: "Cache_Memory.lookup c a m = Some x" using backs_some [OF backs] V(1) by blast
    show ?thesis
    proof (cases "ev \<in> {L2_Replacement, L2_Replacement_clean}")
      case True
      then have none: "l2_cache b' a = None" using V_presence [OF V run] by simp
      obtain m1 where m1: "deallocate c a m = Some m1" "cache_ok c m1"
        "\<And>y. Cache_Memory.lookup c y m1 = (if y = a then None else Cache_Memory.lookup c y m)"
        by (rule deallocate_law [OF mok x]) blast
      have "is_line c a" using lookup_Some [OF mok x] by simp
      then have "array_setState c nxt a m1 = Some m1"
        using isTagPresent_lookup [of c m1 a] m1(2,3) by (simp add: array_setState_def cache_ok_def)
      then have "array_trigger c entry0 now ev a (b, m) = Some (b', m1)"
        using array_trigger_eq [OF run tr, of m c entry0 now m1] m1(1) True by (simp add: st z_stalls_def)
      moreover have "backs c m1 b'"
        using backs m1(2,3) others none unfolding backs_def by (metis (no_types, lifting) option.simps(8))
      ultimately show ?thesis using m1(1) by (auto simp: st z_stalls_def)
    next
      case False
      then obtain e' where e': "l2_cache b' a = Some e'" using V_presence [OF V run] by blast
      obtain m1 where m1: "setMRU c now a m = Some m1" "cache_ok c m1" "\<And>y. Cache_Memory.lookup c y m1 = Cache_Memory.lookup c y m"
        by (rule setMRU_law [OF mok x]) blast
      obtain m' where m': "array_setState c nxt a m1 = Some m'" "backs c m' b'"
        using backs_present [OF backs m1(2), of a x b' e' nxt] m1(3) x others e' state [OF e'] by auto
      then have "array_trigger c entry0 now ev a (b, m) = Some (b', m')"
        using array_trigger_eq [OF run tr, of m c entry0 now m'] m1(1) False by (simp add: st z_stalls_def)
      then show ?thesis using m'(2) False by (auto simp: st z_stalls_def)
    qed
  next
    case (IV e t)
    have st: "l2_getState a b = L2_IV" "t_TBEState t \<in> {L2_IV, L2_IAV}" "t_TBEState t = e_CacheState e" "l2_getState a b = e_CacheState e"
      using IV by (simp_all add: l2_getState_def)
    show ?thesis using busy_case [OF backs IV(1,2) st(2,3,4) run tr others state] st(1) by auto
  next
    case (IAV e t)
    have st: "l2_getState a b = L2_IAV" "t_TBEState t \<in> {L2_IV, L2_IAV}" "t_TBEState t = e_CacheState e" "l2_getState a b = e_CacheState e"
      using IAV by (simp_all add: l2_getState_def)
    show ?thesis using busy_case [OF backs IAV(1,2) st(2,3,4) run tr others state] st(1) by auto
  qed
qed

section \<open>Runs\<close>

lemma array_trigger_SomeD:
  assumes "array_trigger c entry0 now ev a (b, m) = Some (b', m')"
  shows "l2_trigger ev a b = Some b'"
  using assms by (auto simp: array_trigger_def bind_Some_iff)

lemma array_trigger_backs:
  assumes "backs c m b" "l2_ok b" "array_trigger c entry0 now ev a (b, m) = Some (b', m')"
    "ev = Mem_Data_PR \<longrightarrow> (\<forall>t. l2_TBEs b a = Some t \<longrightarrow> \<not> t_pending_write t)"
    "l2_cache b a = None \<Longrightarrow> is_line c a \<and> cacheAvail c a m = Some True"
  shows "backs c m' b'"
  using array_trigger_runs [OF assms(1,2) array_trigger_SomeD [OF assms(3)] assms(4,5), of entry0 now] assms(3) by auto

lemma isTagPresent_line: "isTagPresent c a m = Some f \<Longrightarrow> is_line c a"
  by (auto simp: isTagPresent_def bind_Some_iff intro: line_assert_Some)

text \<open>A run of the request port is one of the bank with the answers of the array, and keeps the two in step.\<close>

lemma array_request_step:
  assumes "backs c m b" "l2_ok b" "array_request_port c entry0 now (b, m) = Some (b', m')"
  shows "backs c m' b' \<and> (\<exists>avail probe. l2_request_port avail probe b = Some b')"
proof (cases "peek_request b")
  case None
  then show ?thesis using assms(1,3) by (auto simp: array_request_port_def l2_request_port_def)
next
  case (Some msg)
  let ?a = "rq_Address msg"
  have geo: "geometry_ok c m" using assms(1) by (simp add: backs_def cache_ok_def)
  obtain found room where f: "isTagPresent c ?a m = Some found" "(if found then Some True else cacheAvail c ?a m) = Some room"
    using assms(3) Some by (auto simp: array_request_port_def bind_Some_iff)
  have line: "is_line c ?a" using isTagPresent_line [OF f(1)] .
  have found: "found \<longleftrightarrow> l2_cache b ?a \<noteq> None"
    using f(1) isTagPresent_lookup [OF geo line] backs_lookup [OF assms(1), of ?a] by simp
  show ?thesis
  proof (cases room)
    case True
    then obtain ev where ev: "request_type_to_event (rq_Type msg) = Some ev" "array_trigger c entry0 now ev ?a (b, m) = Some (b', m')"
      using assms(3) Some f by (auto simp: array_request_port_def bind_Some_iff)
    have pr: "ev \<noteq> Mem_Data_PR" using ev(1) by (cases "rq_Type msg") auto
    have rm: "is_line c ?a \<and> cacheAvail c ?a m = Some True" if "l2_cache b ?a = None"
      using that found f(2) True line by simp
    have "backs c m' b'" by (rule array_trigger_backs [OF assms(1,2) ev(2) _ rm]) (use pr in simp)
    moreover have "l2_request_port (\<lambda>_ _. True) (\<lambda>_ _. 0) b = Some b'"
      using array_trigger_SomeD [OF ev(2)] ev(1) Some by (simp add: l2_request_port_def)
    ultimately show ?thesis by blast
  next
    case False
    then have miss: "l2_cache b ?a = None" using f(2) found by (auto split: if_splits)
    obtain v e where v: "l2_cache b v = Some e"
      "array_trigger c entry0 now (if e_Dirty e then L2_Replacement else L2_Replacement_clean) v (b, m) = Some (b', m')"
      using assms(3) Some f False by (auto simp: array_request_port_def bind_Some_iff)
    have "backs c m' b'" by (rule array_trigger_backs [OF assms(1,2) v(2)]) (use v(1) in \<open>auto split: if_splits\<close>)
    moreover have "l2_request_port (\<lambda>_ _. False) (\<lambda>_ _. v) b = Some b'"
      using array_trigger_SomeD [OF v(2)] v(1) Some miss by (simp add: l2_request_port_def)
    ultimately show ?thesis by blast
  qed
qed

lemma array_mem_step:
  assumes "backs c m b" "l2_ok b" "array_mem_port c entry0 now (b, m) = Some (b', m')"
  shows "backs c m' b' \<and> l2_mem_port b = Some b'"
proof (cases "peek_reply b")
  case None
  then show ?thesis using assms(1,3) by (auto simp: array_mem_port_def l2_mem_port_def)
next
  case (Some r)
  show ?thesis
  proof (cases "mm_Type r")
    case MEMORY_WB
    then show ?thesis using assms(1,3) Some by (auto simp: array_mem_port_def l2_mem_port_def backs_def)
  next
    case MEMORY_READ
    obtain t where t: "l2_TBEs b (mm_Address r) = Some t" "t_pending_read t \<or> t_pending_write t"
      using assms(3) Some MEMORY_READ by (auto simp: array_mem_port_def bind_Some_iff)
    let ?ev = "if t_pending_read t \<and> t_pending_write t then Mem_Data_PRW
      else if t_pending_read t then Mem_Data_PR else Mem_Data_PW"
    have run: "array_trigger c entry0 now ?ev (mm_Address r) (b, m) = Some (b', m')"
      using assms(3) Some MEMORY_READ t by (auto simp: array_mem_port_def split: if_splits)
    have "line_ok (mm_Address r) b" using assms(2) by (simp add: l2_ok_def)
    then have "l2_cache b (mm_Address r) \<noteq> None" using t(1) by (cases rule: line_cases) auto
    then have "backs c m' b'"
      by (intro array_trigger_backs [OF assms(1,2) run]) (use t(1) in \<open>auto split: if_splits\<close>)
    moreover have "l2_mem_port b = Some b'"
      using array_trigger_SomeD [OF run] Some MEMORY_READ t by (auto simp: l2_mem_port_def split: if_splits)
    ultimately show ?thesis by blast
  qed
qed

lemma array_reachable_ok:
  assumes "array_reachable c entry0 s"
  shows "l2_reachable (fst s) \<and> backs c (snd s) (fst s)"
  using assms
proof (induction rule: array_reachable.induct)
  case (initial name bits assoc m)
  have "cache_ok c m" "Cache_Memory.lookup c a m = None" for a
    using CacheMemory_new_ok [OF initial] by simp_all
  then show ?case using l2_reachable.initial by (simp add: backs_def l2_init_def)
next
  case (request_arrives b m msg)
  then show ?case by (auto simp: backs_def intro: l2_reachable.step l2_step.request_arrives)
next
  case (reply_arrives b m r)
  then show ?case by (auto simp: backs_def intro: l2_reachable.step l2_step.reply_arrives)
next
  case (handle_request s now s')
  obtain b m b' m' where s: "s = (b, m)" "s' = (b', m')" by (cases s; cases s')
  then show ?case
    using array_request_step [of c m b entry0 now b' m'] handle_request reachable_ok [of b]
      l2_reachable.step [OF _ l2_step.handle_request] by auto
next
  case (handle_reply s now s')
  obtain b m b' m' where s: "s = (b, m)" "s' = (b', m')" by (cases s; cases s')
  then show ?case
    using array_mem_step [of c m b entry0 now b' m'] handle_reply reachable_ok [of b]
      l2_reachable.step [OF _ l2_step.handle_reply] by auto
qed

end
