(* ===== verification/Ruby_Vector.thy ===== *)
theory Ruby_Vector
  imports Replacement_Policy
begin

text \<open>
  The growable array \<open>common/Vector.h\<close>, with its capacity, in a build with its bounds checks, and
  \<open>system/GlobalWriteVector\<close>, a client of it.

  \<open>m_vec\<close> is the allocated array, whose length is \<open>m_max_size\<close>; \<open>m_size\<close> of its cells are in use.
  The argument \<open>d\<close> is the value of the cells of a new array.  Accesses beyond the allocated array are
  aborts, like failed assertions.  The lemmas show that the elements in use behave as a list: this
  is the contract \<open>list_container\<close>, which the operations fulfil.
\<close>

record 'a vector =
  m_vec :: "'a list"
  m_size :: int
  m_max_size :: int

section \<open>Operations\<close>

definition Vector_new :: "'a vector" where
  "Vector_new = \<lparr>m_vec = [], m_size = 0, m_max_size = 0\<rparr>"

text \<open>The loops that copy the \<open>m_size\<close> elements in use into a new array.\<close>

definition grow :: "'a \<Rightarrow> int \<Rightarrow> 'a vector \<Rightarrow> 'a vector option" where
  "grow d new_max_size v = do {
     assert_that (0 \<le> new_max_size);
     assert_that (m_size v \<le> new_max_size);
     Some (v\<lparr>m_max_size := new_max_size,
       m_vec := take (nat (m_size v)) (m_vec v) @ replicate (nat new_max_size - nat (m_size v)) d\<rparr>) }"

definition Vector_new_sized :: "'a \<Rightarrow> int \<Rightarrow> 'a vector option" where
  "Vector_new_sized d initial_size =
     grow d initial_size \<lparr>m_vec = [], m_size = 0, m_max_size = initial_size\<rparr>"

definition ref :: "int \<Rightarrow> 'a vector \<Rightarrow> 'a option" where
  "ref index v = do {
     assert_that (m_size v \<noteq> 0);
     assert_that (index < m_size v);
     assert_that (index \<ge> 0);
     array_at (m_vec v) index }"

definition ref_assign :: "int \<Rightarrow> 'a \<Rightarrow> 'a vector \<Rightarrow> 'a vector option" where
  "ref_assign index x v = do { ref index v; Some (v\<lparr>m_vec := (m_vec v)[nat index := x]\<rparr>) }"

definition vector_setSize :: "'a \<Rightarrow> int \<Rightarrow> 'a vector \<Rightarrow> 'a vector option" where
  "vector_setSize d new_size v = do {
     v \<leftarrow> (if new_size > m_max_size v then grow d (max ((m_max_size v + 1) * 2) new_size) v else Some v);
     let v = v\<lparr>m_size := new_size\<rparr>;
     assert_that (m_size v \<le> m_max_size v);
     assert_that (m_size v \<ge> 0);
     Some v }"

definition increaseSize :: "'a \<Rightarrow> int \<Rightarrow> 'a \<Rightarrow> 'a vector \<Rightarrow> 'a vector option" where
  "increaseSize d new_size reset v = do {
     assert_that (new_size \<ge> m_size v);
     v \<leftarrow> (if new_size \<ge> m_max_size v then grow d (max ((m_max_size v + 1) * 2) new_size) v else Some v);
     let old_size = m_size v;
     let v = v\<lparr>m_size := new_size\<rparr>;
     v \<leftarrow> run_all (\<lambda>j. ref_assign j reset) [old_size..new_size - 1] v;
     assert_that (m_size v \<le> m_max_size v);
     assert_that (m_size v \<ge> 0);
     Some v }"

definition vector_clear :: "'a vector \<Rightarrow> 'a vector" where
  "vector_clear v = \<lparr>m_vec = [], m_size = 0, m_max_size = 0\<rparr>"

definition sortVector :: "('a::linorder) vector \<Rightarrow> 'a vector" where
  "sortVector v = v\<lparr>m_vec := sort (take (nat (m_size v)) (m_vec v)) @ drop (nat (m_size v)) (m_vec v)\<rparr>"

definition insertAtTop :: "'a \<Rightarrow> 'a \<Rightarrow> 'a vector \<Rightarrow> 'a vector option" where
  "insertAtTop d element v = do {
     v \<leftarrow> vector_setSize d (m_size v + 1) v;
     v \<leftarrow> run_all (\<lambda>i v. do { x \<leftarrow> ref (i - 1) v; ref_assign i x v }) (rev [1..m_size v - 1]) v;
     ref_assign 0 element v }"

text \<open>\<open>m_vec[i] = m_vec[i+num]\<close>, without the check of \<open>ref\<close>.\<close>

definition raw_move :: "int \<Rightarrow> int \<Rightarrow> 'a vector \<Rightarrow> 'a vector option" where
  "raw_move num i v = do { x \<leftarrow> array_at (m_vec v) (i + num); array_at (m_vec v) i;
     Some (v\<lparr>m_vec := (m_vec v)[nat i := x]\<rparr>) }"

definition removeFromTop :: "int \<Rightarrow> 'a vector \<Rightarrow> 'a vector option" where
  "removeFromTop num v = do {
     let num = (if num > m_size v then m_size v else num);
     v \<leftarrow> run_all (raw_move num) [0..m_size v - num - 1] v;
     Some (v\<lparr>m_size := m_size v - num\<rparr>) }"

definition insertAtBottom :: "'a \<Rightarrow> 'a \<Rightarrow> 'a vector \<Rightarrow> 'a vector option" where
  "insertAtBottom d element v = do {
     v \<leftarrow> vector_setSize d (m_size v + 1) v;
     ref_assign (m_size v - 1) element v }"

definition sum_vector :: "('a::plus) vector \<Rightarrow> 'a option" where
  "sum_vector v = do {
     assert_that (m_size v > 0);
     x \<leftarrow> ref 0 v;
     run_all (\<lambda>i s. do { y \<leftarrow> ref i v; Some (s + y) }) [1..m_size v - 1] x }"

definition copy_vector :: "'a \<Rightarrow> 'a vector \<Rightarrow> 'a vector" where
  "copy_vector d v = v\<lparr>m_vec := take (nat (m_size v)) (m_vec v) @
     replicate (nat (m_max_size v) - nat (m_size v)) d\<rparr>"

section \<open>The elements\<close>

definition vector_ok :: "'a vector \<Rightarrow> bool" where
  "vector_ok v \<longleftrightarrow> 0 \<le> m_size v \<and> m_size v \<le> m_max_size v \<and> int (length (m_vec v)) = m_max_size v"

definition elems :: "'a vector \<Rightarrow> 'a list" where
  "elems v = take (nat (m_size v)) (m_vec v)"

lemma elems_length: "vector_ok v \<Longrightarrow> int (length (elems v)) = m_size v"
  by (auto simp: vector_ok_def elems_def)

lemma ref_eq: "vector_ok v \<Longrightarrow> ref i v = array_at (elems v) i"
  by (auto simp: vector_ok_def elems_def ref_def array_at_def assert_that_def)

lemma ref_assign_eq:
  assumes "vector_ok v" "0 \<le> i" "i < m_size v"
  obtains v' where "ref_assign i x v = Some v'" "vector_ok v'" "elems v' = (elems v)[nat i := x]" "m_size v' = m_size v"
proof -
  have "ref i v \<noteq> None" using assms by (simp add: ref_eq array_at_def elems_length)
  then have "ref_assign i x v = Some (v\<lparr>m_vec := (m_vec v)[nat i := x]\<rparr>)" by (auto simp: ref_assign_def)
  then show thesis using assms that
    by (simp add: vector_ok_def elems_def take_update_swap)
qed

lemma grow_eq:
  assumes "vector_ok v" "m_size v \<le> n"
  obtains v' where "grow d n v = Some v'" "vector_ok v'" "elems v' = elems v" "m_size v' = m_size v" "m_max_size v' = n"
proof -
  let ?v = "v\<lparr>m_max_size := n, m_vec := take (nat (m_size v)) (m_vec v) @ replicate (nat n - nat (m_size v)) d\<rparr>"
  have l: "length (take (nat (m_size v)) (m_vec v)) = nat (m_size v)" using assms(1) by (auto simp: vector_ok_def)
  show thesis using assms l by (intro that [of ?v]) (auto simp: grow_def vector_ok_def elems_def)
qed

lemma setSize_eq:
  assumes "vector_ok v" "m_size v \<le> n"
  obtains v' rest where "vector_setSize d n v = Some v'" "vector_ok v'" "elems v' = elems v @ rest" "m_size v' = n"
proof -
  have n: "0 \<le> n" "0 \<le> m_size v" using assms by (auto simp: vector_ok_def)
  obtain v1 where v1: "(if n > m_max_size v then grow d (max ((m_max_size v + 1) * 2) n) v else Some v) = Some v1"
    "vector_ok v1" "elems v1 = elems v" "m_size v1 = m_size v" "n \<le> m_max_size v1"
  proof (cases "n > m_max_size v")
    case True
    then show ?thesis using grow_eq [OF assms(1), of "max ((m_max_size v + 1) * 2) n" d] assms(2) that
      by (metis max.cobounded2 order_trans)
  next
    case False
    then show ?thesis using that assms(1) by simp
  qed
  let ?v = "v1\<lparr>m_size := n\<rparr>"
  have ok: "vector_ok ?v" using v1(2,5) n by (simp add: vector_ok_def)
  have "elems ?v = elems v1 @ take (nat n - nat (m_size v)) (drop (nat (m_size v)) (m_vec v1))"
    unfolding elems_def using v1(4) assms(2) n
    by (simp add: take_add [symmetric] nat_le_eq_zle)
  then show thesis
    using v1 n by (intro that [of ?v, OF _ ok]) (auto simp: vector_setSize_def)
qed

lemma insertAtBottom_eq:
  assumes "vector_ok v"
  obtains v' where "insertAtBottom d x v = Some v'" "vector_ok v'" "elems v' = elems v @ [x]"
proof -
  have n: "0 \<le> m_size v" using assms by (simp add: vector_ok_def)
  obtain v1 rest where v1: "vector_setSize d (m_size v + 1) v = Some v1" "vector_ok v1" "elems v1 = elems v @ rest"
    "m_size v1 = m_size v + 1"
    by (rule setSize_eq [OF assms, of "m_size v + 1" d]) simp
  have len: "length rest = 1" "length (elems v) = nat (m_size v)"
    using elems_length [OF assms] elems_length [OF v1(2)] v1(3,4) by auto
  obtain v2 where "ref_assign (m_size v1 - 1) x v1 = Some v2" "vector_ok v2"
    "elems v2 = (elems v1)[nat (m_size v1 - 1) := x]"
    by (rule ref_assign_eq [OF v1(2), of "m_size v1 - 1" x]) (use v1(4) n in auto)
  then show thesis using that v1 len n
    by (cases rest) (auto simp: insertAtBottom_def list_update_append)
qed

text \<open>The loop of \<open>insertAtTop\<close> moves the first \<open>k\<close> elements one cell up.\<close>

definition shift_up :: "int \<Rightarrow> 'a vector \<Rightarrow> 'a vector option" where
  "shift_up i v = do { x \<leftarrow> ref (i - 1) v; ref_assign i x v }"

lemma shift_up_loop:
  assumes "vector_ok v" "int k < m_size v"
  shows "\<exists>v'. run_all shift_up (rev [1..int k]) v = Some v' \<and> vector_ok v' \<and> m_size v' = m_size v \<and>
    elems v' = take 1 (elems v) @ take k (elems v) @ drop (k + 1) (elems v)"
  using assms
proof (induction k arbitrary: v)
  case 0
  then show ?case by simp
next
  case (Suc k)
  let ?L = "elems v"
  have len: "Suc k < length ?L" using elems_length [OF Suc.prems(1)] Suc.prems(2) by linarith
  have "ref (int (Suc k) - 1) v = Some (?L ! k)"
    using len by (simp add: ref_eq [OF Suc.prems(1)] array_at_def)
  moreover obtain v1 where v1: "ref_assign (int (Suc k)) (?L ! k) v = Some v1" "vector_ok v1"
    "elems v1 = ?L[nat (int (Suc k)) := ?L ! k]" "m_size v1 = m_size v"
    by (rule ref_assign_eq [OF Suc.prems(1), of "int (Suc k)" "?L ! k"]) (use Suc.prems(2) in auto)
  ultimately have step: "shift_up (int (Suc k)) v = Some v1" by (simp add: shift_up_def)
  have range: "rev [1..int (Suc k)] = int (Suc k) # rev [1..int k]" by (subst upto_rec2) simp_all
  obtain v2 where v2: "run_all shift_up (rev [1..int k]) v1 = Some v2" "vector_ok v2" "m_size v2 = m_size v"
    "elems v2 = take 1 (elems v1) @ take k (elems v1) @ drop (k + 1) (elems v1)"
    using Suc.IH [OF v1(2)] v1(4) Suc.prems(2) by auto
  have v1': "elems v1 = ?L[Suc k := ?L ! k]" using v1(3) by (simp only: nat_int)
  have "drop (k + 1) (elems v1) = ?L ! k # drop (Suc k + 1) ?L"
    using v1' len by (simp add: drop_update_swap Cons_nth_drop_Suc [symmetric, of "Suc k"])
  moreover have "take 1 (elems v1) = take 1 ?L" "take k (elems v1) = take k ?L"
    using v1' by simp_all
  ultimately have "elems v2 = take 1 ?L @ take (Suc k) ?L @ drop (Suc k + 1) ?L"
    using v2(4) len by (simp add: take_Suc_conv_app_nth)
  then show ?case using v2 step unfolding range by simp
qed

lemma insertAtTop_eq:
  assumes "vector_ok v"
  obtains v' where "insertAtTop d x v = Some v'" "vector_ok v'" "elems v' = x # elems v"
proof -
  have n: "0 \<le> m_size v" using assms by (simp add: vector_ok_def)
  obtain v1 rest where v1: "vector_setSize d (m_size v + 1) v = Some v1" "vector_ok v1" "elems v1 = elems v @ rest"
    "m_size v1 = m_size v + 1"
    by (rule setSize_eq [OF assms, of "m_size v + 1" d]) simp
  have len: "length (elems v) = nat (m_size v)" "length (elems v1) = nat (m_size v) + 1"
    using elems_length [OF assms] elems_length [OF v1(2)] v1(4) n by auto
  obtain v2 where v2: "run_all shift_up (rev [1..int (nat (m_size v))]) v1 = Some v2" "vector_ok v2" "m_size v2 = m_size v1"
    "elems v2 = take 1 (elems v1) @ take (nat (m_size v)) (elems v1) @ drop (nat (m_size v) + 1) (elems v1)"
    using shift_up_loop [OF v1(2), of "nat (m_size v)"] v1(4) n by auto
  obtain v3 where v3: "ref_assign 0 x v2 = Some v3" "vector_ok v3" "elems v3 = (elems v2)[nat 0 := x]"
    by (rule ref_assign_eq [OF v2(2), of 0 x]) (use v1(4) v2(3) n in auto)
  have "elems v3 = x # elems v"
  proof (cases "elems v1")
    case (Cons a as)
    then show ?thesis using v3(3) v2(4) v1(3) len by (simp add: append_eq_conv_conj)
  qed (use len(2) in simp)
  moreover have "insertAtTop d x v = Some v3"
    using v1(1,4) v2(1) v3(1) n by (simp add: insertAtTop_def shift_up_def [abs_def])
  ultimately show thesis using that v3(2) by blast
qed

lemma raw_move_loop:
  assumes "0 \<le> num" "int k + num \<le> int (length (m_vec v))"
  shows "run_all (raw_move num) [0..int k - 1] v =
    Some (v\<lparr>m_vec := map (\<lambda>j. if j < k then m_vec v ! (j + nat num) else m_vec v ! j) [0..<length (m_vec v)]\<rparr>)"
  using assms
proof (induction k)
  case 0
  then show ?case by (simp add: map_nth)
next
  case (Suc k)
  let ?f = "\<lambda>k. map (\<lambda>j. if j < k then m_vec v ! (j + nat num) else m_vec v ! j) [0..<length (m_vec v)]"
  have range: "[0..int (Suc k) - 1] = [0..int k - 1] @ [int k]" by (simp add: upto_rec2)
  have k: "k + nat num < length (m_vec v)" "nat (int k + num) = k + nat num" using Suc.prems by auto
  have "(?f k)[k := m_vec v ! (k + nat num)] = ?f (Suc k)"
    using k by (intro nth_equalityI) (auto simp: nth_list_update less_Suc_eq)
  then have "raw_move num (int k) (v\<lparr>m_vec := ?f k\<rparr>) = Some (v\<lparr>m_vec := ?f (Suc k)\<rparr>)"
    using k Suc.prems(1) by (simp add: raw_move_def array_at_def)
  then show ?case using Suc unfolding range run_all_append by simp
qed

lemma removeFromTop_eq:
  assumes "vector_ok v" "0 \<le> num"
  obtains v' where "removeFromTop num v = Some v'" "vector_ok v'" "elems v' = drop (nat num) (elems v)"
proof -
  let ?num = "if num > m_size v then m_size v else num"
  define k where "k = nat (m_size v - ?num)"
  have n: "0 \<le> ?num" "?num \<le> m_size v" "int k = m_size v - ?num" "m_size v \<le> int (length (m_vec v))"
    using assms by (auto simp: k_def vector_ok_def)
  let ?v = "v\<lparr>m_vec := map (\<lambda>j. if j < k then m_vec v ! (j + nat ?num) else m_vec v ! j) [0..<length (m_vec v)],
    m_size := m_size v - ?num\<rparr>"
  have "removeFromTop num v = Some ?v"
    using raw_move_loop [of ?num k v] n by (simp add: removeFromTop_def Let_def)
  moreover have "vector_ok ?v" using assms n by (auto simp: vector_ok_def)
  moreover have "elems ?v = drop (nat num) (elems v)"
    unfolding elems_def using n assms(2)
    by (intro nth_equalityI) (auto simp: k_def nat_diff_distrib add.commute)
  ultimately show thesis using that by blast
qed

lemma sum_loop:
  assumes "vector_ok v" "\<forall>i\<in>set is. 0 \<le> i \<and> i < m_size v"
  shows "run_all (\<lambda>i s. do { y \<leftarrow> ref i v; Some (s + y) }) is s = Some (foldl (+) s (map (\<lambda>i. elems v ! nat i) is))"
  using assms(2)
proof (induction "is" arbitrary: s)
  case (Cons i "is")
  have "ref i v = Some (elems v ! nat i)"
    using Cons.prems elems_length [OF assms(1)] by (simp add: ref_eq [OF assms(1)] array_at_def)
  then show ?case using Cons by simp
qed simp

lemma sum_vector_eq:
  assumes "vector_ok v" "elems v = x # xs"
  shows "sum_vector v = Some (foldl (+) x xs)"
proof -
  have n: "m_size v = int (Suc (length xs))" using elems_length [OF assms(1)] assms(2) by simp
  have "[1..m_size v - 1] = map int [1..<Suc (length xs)]"
    unfolding n by (rule nth_equalityI) (auto simp: nth_upto simp del: upt_Suc)
  then have "map (\<lambda>i. elems v ! nat i) [1..m_size v - 1] = xs"
    using assms(2) by (intro nth_equalityI) (auto simp: nat_add_distrib simp del: upt_Suc)
  moreover have "ref 0 v = Some x" using assms n by (simp add: ref_eq array_at_def)
  ultimately show ?thesis using n sum_loop [OF assms(1), of "[1..m_size v - 1]" x] by (simp add: sum_vector_def)
qed

section \<open>The contract\<close>

text \<open>What the clients of a growable array rely on: its elements are a list.\<close>

locale list_container =
  fixes ok :: "'v \<Rightarrow> bool" and contents :: "'v \<Rightarrow> 'a list"
    and empty :: 'v
    and push_front :: "'a \<Rightarrow> 'v \<Rightarrow> 'v option" and push_back :: "'a \<Rightarrow> 'v \<Rightarrow> 'v option"
    and drop_front :: "int \<Rightarrow> 'v \<Rightarrow> 'v option" and get :: "int \<Rightarrow> 'v \<Rightarrow> 'a option"
  assumes empty_ok: "ok empty" "contents empty = []"
    and front_law: "ok v \<Longrightarrow> \<exists>v'. push_front x v = Some v' \<and> ok v' \<and> contents v' = x # contents v"
    and back_law: "ok v \<Longrightarrow> \<exists>v'. push_back x v = Some v' \<and> ok v' \<and> contents v' = contents v @ [x]"
    and drop_law: "\<lbrakk> ok v; 0 \<le> n \<rbrakk> \<Longrightarrow> \<exists>v'. drop_front n v = Some v' \<and> ok v' \<and> contents v' = drop (nat n) (contents v)"
    and get_law: "ok v \<Longrightarrow> get i v = array_at (contents v) i"
begin

lemma fill_back: "ok v \<Longrightarrow> \<exists>v'. run_all push_back xs v = Some v' \<and> ok v' \<and> contents v' = contents v @ xs"
proof (induction xs arbitrary: v)
  case (Cons x xs)
  then obtain v1 where "push_back x v = Some v1" "ok v1" "contents v1 = contents v @ [x]" using back_law by blast
  then show ?case using Cons.IH [of v1] by auto
qed simp

lemma queue: "\<exists>v'. do { v \<leftarrow> run_all push_back (xs @ ys) empty; drop_front (int (length xs)) v } = Some v' \<and>
  ok v' \<and> contents v' = ys"
proof -
  obtain v where v: "run_all push_back (xs @ ys) empty = Some v" "ok v" "contents v = xs @ ys"
    using fill_back [OF empty_ok(1), of "xs @ ys"] empty_ok(2) by auto
  then show ?thesis using drop_law [OF v(2), of "int (length xs)"] by auto
qed

end

interpretation vector: list_container vector_ok elems Vector_new "insertAtTop d" "insertAtBottom d" removeFromTop ref for d
proof
  fix v :: "'a vector" and x :: 'a and n i :: int
  show "vector_ok Vector_new" "elems Vector_new = []" by (simp_all add: vector_ok_def elems_def Vector_new_def)
  show "\<exists>v'. insertAtTop d x v = Some v' \<and> vector_ok v' \<and> elems v' = x # elems v" if "vector_ok v"
    by (rule insertAtTop_eq [OF that, of d x]) blast
  show "\<exists>v'. insertAtBottom d x v = Some v' \<and> vector_ok v' \<and> elems v' = elems v @ [x]" if "vector_ok v"
    by (rule insertAtBottom_eq [OF that, of d x]) blast
  show "\<exists>v'. removeFromTop n v = Some v' \<and> vector_ok v' \<and> elems v' = drop (nat n) (elems v)" if "vector_ok v" "0 \<le> n"
    by (rule removeFromTop_eq [OF that]) blast
  show "ref i v = array_at (elems v) i" if "vector_ok v" using that by (rule ref_eq)
qed

section \<open>GlobalWriteVector\<close>

record global_write_vector =
  m_num_threads_per_proc :: int
  m_globalWriteTimes :: "Time vector"

definition GlobalWriteVector_new :: "int \<Rightarrow> global_write_vector option" where
  "GlobalWriteVector_new num_threads_per_proc = do {
     v \<leftarrow> Vector_new_sized 0 num_threads_per_proc;
     v \<leftarrow> run_all (\<lambda>t. ref_assign t 0) [0..num_threads_per_proc - 1] v;
     Some \<lparr>m_num_threads_per_proc = num_threads_per_proc, m_globalWriteTimes = v\<rparr> }"

definition gwv_set :: "int \<Rightarrow> Time \<Rightarrow> global_write_vector \<Rightarrow> global_write_vector option" where
  "gwv_set threadId writeTime g = do {
     assert_that (threadId < m_num_threads_per_proc g);
     v \<leftarrow> ref_assign threadId writeTime (m_globalWriteTimes g);
     Some (g\<lparr>m_globalWriteTimes := v\<rparr>) }"

definition gwv_get :: "int \<Rightarrow> global_write_vector \<Rightarrow> Time option" where
  "gwv_get threadId g = do {
     assert_that (threadId < m_num_threads_per_proc g);
     ref threadId (m_globalWriteTimes g) }"

section \<open>Properties\<close>

text \<open>The growable array is a queue of its elements, through every reallocation: elements
  appended at the bottom come out at the top in their order, whatever the element type and however
  many there are; none of the calls aborts.\<close>

theorem vector_is_fifo:
  "\<exists>v. do { v \<leftarrow> run_all (insertAtBottom d) (xs @ ys) Vector_new; removeFromTop (int (length xs)) v } = Some v \<and>
    vector_ok v \<and> elems v = ys"
  by (rule vector.queue)

text \<open>The constructor of \<open>GlobalWriteVector\<close> fails its bounds check for every processor with at
  least one thread: the constructor of \<open>Vector\<close> that takes a size reserves the cells but leaves the
  size at zero, so the first store of the initialisation is out of bounds.\<close>

theorem GlobalWriteVector_new_aborts:
  assumes "0 < num_threads_per_proc"
  shows "GlobalWriteVector_new num_threads_per_proc = None"
proof -
  have "[0..num_threads_per_proc - 1] = 0 # [1..num_threads_per_proc - 1]"
    using assms by (subst upto_rec1) simp_all
  then show ?thesis
    using assms by (simp add: GlobalWriteVector_new_def Vector_new_sized_def grow_def ref_assign_def ref_def)
qed

lemma GlobalWriteVector_new_aborts_witness: "GlobalWriteVector_new 4 = None"
  by (rule GlobalWriteVector_new_aborts) simp

end
