(* ===== verification/Ruby_Tables.thy ===== *)
theory Ruby_Tables
  imports Cache_Memory Ruby_Vector
begin

text \<open>
  The tables of the controllers: the map of \<open>common/Map.h\<close> and its clients
  \<open>system/TBETable.h\<close> (transactions in flight), \<open>system/TimerTable\<close> (time-outs),
  \<open>system/PerfectCacheMemory.h\<close>; and the queues and sets that the GPU protocols keep per address,
  \<open>common/AddrQueueMap.h\<close>, \<open>system/StoreQueueMap\<close>, \<open>system/RequestCwidMap\<close>,
  \<open>system/CtaWarpAddrMap\<close>, \<open>common/MemfetchSet\<close>, \<open>common/IntPairSet\<close> and
  \<open>system/GpusimDramInterface\<close>.

  A hash map is an association list with distinct keys: the order of the list is the order of its
  iteration, about which nothing is assumed.  The time of the event queue is the argument \<open>now\<close>;
  the calls of \<open>scheduleEvent\<close> that an operation makes are part of its result.  Undefined behaviour
  of the C++ library (the front of an empty queue, the increment of an erased iterator) is an abort.
\<close>

section \<open>Map\<close>

type_synonym ('k, 'v) ruby_map = "('k \<times> 'v) list"

definition rmap_add :: "'k \<Rightarrow> 'v \<Rightarrow> ('k, 'v) ruby_map \<Rightarrow> ('k, 'v) ruby_map" where
  "rmap_add key val m_map = AList.update key val m_map"

definition rmap_exist :: "'k \<Rightarrow> ('k, 'v) ruby_map \<Rightarrow> bool" where
  "rmap_exist key m_map \<longleftrightarrow> map_of m_map key \<noteq> None"

definition rmap_size :: "('k, 'v) ruby_map \<Rightarrow> int" where
  "rmap_size m_map = int (length m_map)"

definition rmap_erase :: "'k \<Rightarrow> ('k, 'v) ruby_map \<Rightarrow> ('k, 'v) ruby_map option" where
  "rmap_erase key m_map = do { assert_that (rmap_exist key m_map); Some (AList.delete key m_map) }"

definition rmap_lookup :: "'k \<Rightarrow> ('k, 'v) ruby_map \<Rightarrow> 'v option" where
  "rmap_lookup key m_map = do { assert_that (rmap_exist key m_map); map_of m_map key }"

definition rmap_keys :: "('k, 'v) ruby_map \<Rightarrow> 'k list" where
  "rmap_keys m_map = map fst m_map"

definition rmap_values :: "('k, 'v) ruby_map \<Rightarrow> 'v list" where
  "rmap_values m_map = map snd m_map"

section \<open>TBETable\<close>

text \<open>\<open>NUMBER_OF_TBES\<close> is a parameter of the configuration and \<open>ENTRY()\<close> the argument \<open>entry0\<close>.
  The calls of the profiler are left out.\<close>

type_synonym 'e tbe_table = "(physical_address_t, 'e) ruby_map"

definition tbe_isPresent :: "ruby_config \<Rightarrow> int \<Rightarrow> physical_address_t \<Rightarrow> 'e tbe_table \<Rightarrow> bool option" where
  "tbe_isPresent c NUMBER_OF_TBES address m_map = do {
     line_assert c address;
     assert_that (rmap_size m_map \<le> NUMBER_OF_TBES);
     Some (rmap_exist address m_map) }"

definition tbe_allocate :: "ruby_config \<Rightarrow> int \<Rightarrow> 'e \<Rightarrow> physical_address_t \<Rightarrow> 'e tbe_table \<Rightarrow> 'e tbe_table option" where
  "tbe_allocate c NUMBER_OF_TBES entry0 address m_map = do {
     found \<leftarrow> tbe_isPresent c NUMBER_OF_TBES address m_map;
     assert_that (\<not> found);
     assert_that (rmap_size m_map < NUMBER_OF_TBES);
     Some (rmap_add address entry0 m_map) }"

definition tbe_deallocate :: "ruby_config \<Rightarrow> int \<Rightarrow> physical_address_t \<Rightarrow> 'e tbe_table \<Rightarrow> 'e tbe_table option" where
  "tbe_deallocate c NUMBER_OF_TBES address m_map = do {
     found \<leftarrow> tbe_isPresent c NUMBER_OF_TBES address m_map;
     assert_that found;
     assert_that (rmap_size m_map > 0);
     rmap_erase address m_map }"

definition tbe_areNSlotsAvailable :: "int \<Rightarrow> int \<Rightarrow> 'e tbe_table \<Rightarrow> bool" where
  "tbe_areNSlotsAvailable NUMBER_OF_TBES n m_map \<longleftrightarrow> NUMBER_OF_TBES - rmap_size m_map \<ge> n"

definition tbe_lookup :: "ruby_config \<Rightarrow> int \<Rightarrow> physical_address_t \<Rightarrow> 'e tbe_table \<Rightarrow> 'e option" where
  "tbe_lookup c NUMBER_OF_TBES address m_map = do {
     found \<leftarrow> tbe_isPresent c NUMBER_OF_TBES address m_map;
     assert_that found;
     rmap_lookup address m_map }"

section \<open>TimerTable\<close>

record 'c timer_table =
  timer_map :: "(physical_address_t, Time) ruby_map"
  timer_consumer :: "'c option"
  m_next_valid :: bool
  m_next_time :: Time
  m_next_address :: physical_address_t

definition TimerTable_new :: "'c timer_table" where
  "TimerTable_new = \<lparr>timer_map = [], timer_consumer = None, m_next_valid = False, m_next_time = 0,
     m_next_address = 0\<rparr>"

definition timer_setConsumer :: "'c \<Rightarrow> 'c timer_table \<Rightarrow> 'c timer_table option" where
  "timer_setConsumer consumer t = do {
     assert_that (timer_consumer t = None); Some (t\<lparr>timer_consumer := Some consumer\<rparr>) }"

text \<open>The loop over \<open>addresses[1..]\<close> of \<open>updateNext\<close>, with the two members it updates.\<close>

fun next_loop :: "(physical_address_t, Time) ruby_map \<Rightarrow> physical_address_t list \<Rightarrow>
    physical_address_t \<times> Time \<Rightarrow> (physical_address_t \<times> Time) option" where
  "next_loop m_map [] nxt = Some nxt"
| "next_loop m_map (maybe_next_address # addresses) nxt = do {
     maybe_next_time \<leftarrow> rmap_lookup maybe_next_address m_map;
     next_loop m_map addresses
       (if maybe_next_time < snd nxt then (maybe_next_address, maybe_next_time) else nxt) }"

definition updateNext :: "'c timer_table \<Rightarrow> 'c timer_table option" where
  "updateNext t =
     (case rmap_keys (timer_map t) of
        [] \<Rightarrow> do { assert_that (\<not> m_next_valid t); Some t }
      | first # addresses \<Rightarrow> do {
          time \<leftarrow> rmap_lookup first (timer_map t);
          (a, time) \<leftarrow> next_loop (timer_map t) addresses (first, time);
          Some (t\<lparr>m_next_address := a, m_next_time := time, m_next_valid := True\<rparr>) })"

definition timer_isReady :: "Time \<Rightarrow> 'c timer_table \<Rightarrow> (bool \<times> 'c timer_table) option" where
  "timer_isReady now t =
     (if rmap_size (timer_map t) = 0 then Some (False, t)
      else do {
        t \<leftarrow> (if \<not> m_next_valid t then updateNext t else Some t);
        assert_that (m_next_valid t);
        Some (now \<ge> m_next_time t, t) })"

definition readyAddress :: "Time \<Rightarrow> 'c timer_table \<Rightarrow> (physical_address_t \<times> 'c timer_table) option" where
  "readyAddress now t = do {
     (ready, t) \<leftarrow> timer_isReady now t;
     assert_that ready;
     t \<leftarrow> (if \<not> m_next_valid t then updateNext t else Some t);
     assert_that (m_next_valid t);
     Some (m_next_address t, t) }"

definition timer_set :: "ruby_config \<Rightarrow> Time \<Rightarrow> physical_address_t \<Rightarrow> Time \<Rightarrow> 'c timer_table \<Rightarrow>
    ('c timer_table \<times> ('c \<times> Time) list) option" where
  "timer_set c now address relative_latency t = do {
     line_assert c address;
     assert_that (relative_latency > 0);
     assert_that (\<not> rmap_exist address (timer_map t));
     let ready_time = now + relative_latency;
     let m = rmap_add address ready_time (timer_map t);
     consumer \<leftarrow> timer_consumer t;
     let t = t\<lparr>timer_map := m, m_next_valid := False\<rparr>;
     Some (if ready_time \<le> m_next_time t then t\<lparr>m_next_valid := False\<rparr> else t, [(consumer, ready_time)]) }"

definition timer_unset :: "ruby_config \<Rightarrow> physical_address_t \<Rightarrow> 'c timer_table \<Rightarrow> 'c timer_table option" where
  "timer_unset c address t = do {
     line_assert c address;
     assert_that (rmap_exist address (timer_map t));
     m \<leftarrow> rmap_erase address (timer_map t);
     let t = t\<lparr>timer_map := m\<rparr>;
     Some (if address = m_next_address t then t\<lparr>m_next_valid := False\<rparr> else t) }"

definition timer_isSet :: "physical_address_t \<Rightarrow> 'c timer_table \<Rightarrow> bool" where
  "timer_isSet address t \<longleftrightarrow> rmap_exist address (timer_map t)"

section \<open>PerfectCacheMemory\<close>

text \<open>The permission of a line that was never set is \<open>AccessPermission_NUM\<close>, which no line in the map
  has: \<open>allocate\<close> sets it.\<close>

type_synonym 'e perfect_cache = "(physical_address_t, AccessPermission \<times> 'e) ruby_map"

definition pc_isTagPresent :: "ruby_config \<Rightarrow> physical_address_t \<Rightarrow> 'e perfect_cache \<Rightarrow> bool option" where
  "pc_isTagPresent c address m = do { l \<leftarrow> line_address c address; Some (rmap_exist l m) }"

definition pc_cacheAvail :: "physical_address_t \<Rightarrow> 'e perfect_cache \<Rightarrow> bool" where
  "pc_cacheAvail address m \<longleftrightarrow> True"

definition pc_allocate :: "ruby_config \<Rightarrow> 'e \<Rightarrow> physical_address_t \<Rightarrow> 'e perfect_cache \<Rightarrow> 'e perfect_cache option" where
  "pc_allocate c entry0 address m = do {
     l \<leftarrow> line_address c address; Some (rmap_add l (AccessPermission_Busy, entry0) m) }"

definition pc_deallocate :: "ruby_config \<Rightarrow> physical_address_t \<Rightarrow> 'e perfect_cache \<Rightarrow> 'e perfect_cache option" where
  "pc_deallocate c address m = do { l \<leftarrow> line_address c address; rmap_erase l m }"

definition pc_cacheProbe :: "physical_address_t \<Rightarrow> 'e perfect_cache \<Rightarrow> physical_address_t option" where
  "pc_cacheProbe newAddress m = None"

definition pc_lookup :: "ruby_config \<Rightarrow> physical_address_t \<Rightarrow> 'e perfect_cache \<Rightarrow> 'e option" where
  "pc_lookup c address m = do { l \<leftarrow> line_address c address; e \<leftarrow> rmap_lookup l m; Some (snd e) }"

definition pc_getPermission :: "ruby_config \<Rightarrow> physical_address_t \<Rightarrow> 'e perfect_cache \<Rightarrow> AccessPermission option" where
  "pc_getPermission c address m = do { l \<leftarrow> line_address c address; e \<leftarrow> rmap_lookup l m; Some (fst e) }"

definition pc_changePermission ::
  "ruby_config \<Rightarrow> physical_address_t \<Rightarrow> AccessPermission \<Rightarrow> 'e perfect_cache \<Rightarrow> 'e perfect_cache option" where
  "pc_changePermission c address new_perm m = do {
     l \<leftarrow> line_address c address; e \<leftarrow> rmap_lookup l m; Some (rmap_add l (new_perm, snd e) m) }"

section \<open>Queues per address\<close>

type_synonym 'a queue_map = "physical_address_t \<rightharpoonup> 'a list"

definition aq_push :: "physical_address_t \<Rightarrow> 'a \<Rightarrow> 'a queue_map \<Rightarrow> 'a queue_map" where
  "aq_push addr x qs = qs(addr \<mapsto> (case qs addr of None \<Rightarrow> [] | Some q \<Rightarrow> q) @ [x])"

text \<open>\<open>AddrQueueMap::pop\<close>: the front of the queue, and the queue is erased when it becomes empty.\<close>

definition aq_pop :: "physical_address_t \<Rightarrow> 'a queue_map \<Rightarrow> ('a \<times> 'a queue_map) option" where
  "aq_pop addr qs = do {
     q \<leftarrow> qs addr;
     (case q of [] \<Rightarrow> None
      | x # rest \<Rightarrow> Some (x, qs(addr := if rest = [] then None else Some rest))) }"

definition sq_add :: "physical_address_t \<Rightarrow> 'd \<Rightarrow> 'd queue_map \<Rightarrow> 'd queue_map" where
  "sq_add addr Datablk qs =
     (let qs = (if qs addr = None then qs(addr \<mapsto> []) else qs)
      in qs(addr := map_option (\<lambda>q. q @ [Datablk]) (qs addr)))"

definition sq_discard :: "physical_address_t \<Rightarrow> 'd queue_map \<Rightarrow> 'd queue_map option" where
  "sq_discard addr qs = do {
     q \<leftarrow> qs addr;
     (case q of [] \<Rightarrow> None
      | x # rest \<Rightarrow> Some (if length rest = 0 then qs(addr := None) else qs(addr \<mapsto> rest))) }"

definition return_queue_top :: "physical_address_t \<Rightarrow> 'd queue_map \<Rightarrow> ('d \<times> 'd queue_map) option" where
  "return_queue_top addr qs = do {
     q \<leftarrow> qs addr;
     (case q of [] \<Rightarrow> None | x # rest \<Rightarrow> do { qs \<leftarrow> sq_discard addr qs; Some (x, qs) }) }"

text \<open>\<open>RequestCwidMap\<close>: \<open>operator[]\<close> inserts an empty queue for an absent address before the
  assertion fails.\<close>

type_synonym cwid_map = "(int \<times> int) queue_map"

definition cwid_push :: "physical_address_t \<Rightarrow> int \<Rightarrow> int \<Rightarrow> cwid_map \<Rightarrow> cwid_map" where
  "cwid_push addr cta_id wid qs = aq_push addr (cta_id, wid) qs"

definition returnTopCtaID :: "physical_address_t \<Rightarrow> cwid_map \<Rightarrow> int option" where
  "returnTopCtaID addr qs = (case qs addr of Some (x # _) \<Rightarrow> Some (fst x) | _ \<Rightarrow> None)"

definition returnTopWarpID :: "physical_address_t \<Rightarrow> cwid_map \<Rightarrow> int option" where
  "returnTopWarpID addr qs = (case qs addr of Some (x # _) \<Rightarrow> Some (snd x) | _ \<Rightarrow> None)"

definition cwid_pop :: "physical_address_t \<Rightarrow> cwid_map \<Rightarrow> cwid_map option" where
  "cwid_pop addr qs = (case qs addr of
     Some (_ # rest) \<Rightarrow> Some (if length rest = 0 then qs(addr := None) else qs(addr \<mapsto> rest)) | _ \<Rightarrow> None)"

section \<open>The addresses of each warp\<close>

type_synonym warp_addr_map = "(int \<times> physical_address_t list) list"
type_synonym cta_warp_addr_map = "(int \<times> warp_addr_map) list"

definition cwa_add :: "int \<Rightarrow> int \<Rightarrow> physical_address_t \<Rightarrow> cta_warp_addr_map \<Rightarrow> cta_warp_addr_map" where
  "cwa_add cta_id wid addr m =
     (let warps = (case map_of m cta_id of None \<Rightarrow> [] | Some w \<Rightarrow> w);
          addrs = (case map_of warps wid of None \<Rightarrow> [] | Some a \<Rightarrow> a)
      in AList.update cta_id (AList.update wid (List.insert addr addrs) warps) m)"

text \<open>The inner loop of \<open>discard\<close>, which works on the copy \<open>warp_addr_map\<close> of the map of one group:
  \<open>addr_set\<close> is a copy of the set of one warp.  When the copy becomes empty, its warp is erased from
  the copy of the map while \<open>it2\<close> points at it, and the loop goes on to increment \<open>it2\<close>.\<close>

fun discard_warps :: "physical_address_t \<Rightarrow> warp_addr_map \<Rightarrow> unit option" where
  "discard_warps addr [] = Some ()"
| "discard_warps addr ((warp_id, addr_set) # warps) =
     (if addr \<in> set addr_set then
        (if removeAll addr addr_set = [] then None else discard_warps addr warps)
      else discard_warps addr warps)"

definition cwa_discard :: "physical_address_t \<Rightarrow> cta_warp_addr_map \<Rightarrow> cta_warp_addr_map option" where
  "cwa_discard addr m = do { run_all (\<lambda>(cta_id, warps) _. discard_warps addr warps) m (); Some m }"

definition getWarpAddrMap :: "int \<Rightarrow> cta_warp_addr_map \<Rightarrow> warp_addr_map option" where
  "getWarpAddrMap cta_id m = map_of m cta_id"

definition cwa_count :: "int \<Rightarrow> cta_warp_addr_map \<Rightarrow> int" where
  "cwa_count cta_id m = (if map_of m cta_id = None then 0 else 1)"

section \<open>Small sets and queues\<close>

definition MemfetchSet_new :: "ruby_config \<Rightarrow> 64 word list list" where
  "MemfetchSet_new c = replicate (nat (g_NUM_PROCESSORS c)) []"

definition mf_insert :: "ruby_config \<Rightarrow> MachineID \<Rightarrow> 64 word \<Rightarrow> 64 word list list \<Rightarrow> 64 word list list option" where
  "mf_insert c machine memfetch ms = do {
     assert_that (mach_num machine < g_NUM_PROCESSORS c);
     row \<leftarrow> array_at ms (mach_num machine);
     Some (ms[nat (mach_num machine) := row @ [memfetch]]) }"

definition get_list :: "ruby_config \<Rightarrow> int \<Rightarrow> 64 word list list \<Rightarrow> 64 word list option" where
  "get_list c core_id ms = do {
     assert_that (core_id < g_NUM_PROCESSORS c);
     row \<leftarrow> array_at ms core_id;
     assert_that (row \<noteq> []);
     Some row }"

text \<open>A set of pairs in its order; the loop erases behind the advanced iterator.\<close>

fun removeMatchingSecondElement :: "(int \<times> int) list \<Rightarrow> int \<Rightarrow> (int \<times> int) list" where
  "removeMatchingSecondElement [] T2 = []"
| "removeMatchingSecondElement (it # rest) T2 =
     (if snd it = T2 then removeMatchingSecondElement rest T2 else it # removeMatchingSecondElement rest T2)"

record ('m, 'c) dram_interface =
  m_input_queue :: "'m list"
  m_response_queue :: "'m list"
  dram_consumer :: "'c option"

definition dram_wakeup :: "('m, 'c) dram_interface \<Rightarrow> ('m, 'c) dram_interface \<times> ('c option \<times> Time) list" where
  "dram_wakeup d = (case m_input_queue d of [] \<Rightarrow> (d, [])
     | m # rest \<Rightarrow> (d\<lparr>m_response_queue := m_response_queue d @ [m], m_input_queue := rest\<rparr>, [(dram_consumer d, 1)]))"

definition dram_setConsumer :: "'c \<Rightarrow> ('m, 'c) dram_interface \<Rightarrow> ('m, 'c) dram_interface" where
  "dram_setConsumer consumer d = d\<lparr>dram_consumer := Some consumer\<rparr>"

definition dram_enqueue :: "'m \<Rightarrow> ('m, 'c) dram_interface \<Rightarrow> ('m, 'c) dram_interface" where
  "dram_enqueue message d = d\<lparr>m_input_queue := m_input_queue d @ [message]\<rparr>"

definition dram_dequeue :: "('m, 'c) dram_interface \<Rightarrow> (('m, 'c) dram_interface \<times> ('c option \<times> Time) list) option" where
  "dram_dequeue d = (case m_response_queue d of [] \<Rightarrow> None
     | m # rest \<Rightarrow> Some (d\<lparr>m_response_queue := rest\<rparr>, if rest \<noteq> [] then [(dram_consumer d, 1)] else []))"

definition dram_peek :: "('m, 'c) dram_interface \<Rightarrow> 'm option" where
  "dram_peek d = (case m_response_queue d of [] \<Rightarrow> None | m # rest \<Rightarrow> Some m)"

definition dram_isReady :: "('m, 'c) dram_interface \<Rightarrow> bool" where
  "dram_isReady d \<longleftrightarrow> m_response_queue d \<noteq> []"

text \<open>The calls of the GPU simulator.\<close>

definition inputQueueEmpty :: "('m, 'c) dram_interface \<Rightarrow> bool" where
  "inputQueueEmpty d \<longleftrightarrow> m_input_queue d = []"

definition peekInputRequest :: "('m, 'c) dram_interface \<Rightarrow> 'm option" where
  "peekInputRequest d = (case m_input_queue d of [] \<Rightarrow> None | m # rest \<Rightarrow> Some m)"

definition popInputRequest :: "('m, 'c) dram_interface \<Rightarrow> ('m, 'c) dram_interface option" where
  "popInputRequest d = (case m_input_queue d of [] \<Rightarrow> None | m # rest \<Rightarrow> Some (d\<lparr>m_input_queue := rest\<rparr>))"

definition pushResponseRequest :: "'m \<Rightarrow> ('m, 'c) dram_interface \<Rightarrow>
    ('m, 'c) dram_interface \<times> ('c option \<times> Time) list" where
  "pushResponseRequest msg d =
     (d\<lparr>m_response_queue := m_response_queue d @ [msg]\<rparr>, [(dram_consumer d, 1)])"

section \<open>Facts on maps\<close>

abbreviation map_ok :: "('k, 'v) ruby_map \<Rightarrow> bool" where
  "map_ok m \<equiv> distinct (map fst m)"

lemma rmap_add_simps [simp]:
  "map_of (rmap_add k v m) = (map_of m)(k \<mapsto> v)"
  "map_ok m \<Longrightarrow> map_ok (rmap_add k v m)"
  by (simp_all add: rmap_add_def update_conv' distinct_update)

lemma rmap_size_add: "map_of m k = None \<Longrightarrow> rmap_size (rmap_add k v m) = rmap_size m + 1"
proof -
  have "k \<notin> fst ` set m \<Longrightarrow> length (AList.update k v m) = Suc (length m)" by (induction m) auto
  then show "map_of m k = None \<Longrightarrow> ?thesis" by (simp add: rmap_size_def rmap_add_def map_of_eq_None_iff)
qed

lemma rmap_erase_Some:
  "rmap_exist k m \<Longrightarrow> rmap_erase k m = Some (AList.delete k m)"
  by (simp add: rmap_erase_def)

lemma rmap_lookup_eq: "rmap_lookup k m = map_of m k"
  by (cases "map_of m k") (simp_all add: rmap_lookup_def rmap_exist_def)

section \<open>Timers\<close>

definition earliest :: "(physical_address_t, Time) ruby_map \<Rightarrow> physical_address_t \<Rightarrow> Time \<Rightarrow> bool" where
  "earliest m a time \<longleftrightarrow> map_of m a = Some time \<and> (\<forall>b t. map_of m b = Some t \<longrightarrow> time \<le> t)"

definition timer_ok :: "'c timer_table \<Rightarrow> bool" where
  "timer_ok t \<longleftrightarrow> map_ok (timer_map t) \<and>
     (m_next_valid t \<longrightarrow> earliest (timer_map t) (m_next_address t) (m_next_time t))"

lemma next_loop_least:
  assumes "map_of m (fst nxt) = Some (snd nxt)" "\<forall>a\<in>set as. map_of m a \<noteq> None"
  shows "\<exists>a time. next_loop m as nxt = Some (a, time) \<and> map_of m a = Some time \<and> time \<le> snd nxt \<and>
    (\<forall>b\<in>set as. \<forall>t. map_of m b = Some t \<longrightarrow> time \<le> t)"
  using assms
proof (induction as arbitrary: nxt)
  case Nil
  then show ?case by (cases nxt) simp
next
  case (Cons b as)
  then obtain t where t: "map_of m b = Some t" by auto
  define nxt' where "nxt' = (if t < snd nxt then (b, t) else nxt)"
  have "map_of m (fst nxt') = Some (snd nxt')" using Cons.prems(1) t by (simp add: nxt'_def)
  then obtain a time where "next_loop m as nxt' = Some (a, time)" "map_of m a = Some time" "time \<le> snd nxt'"
    "\<forall>b\<in>set as. \<forall>t. map_of m b = Some t \<longrightarrow> time \<le> t"
    using Cons.IH [of nxt'] Cons.prems(2) by auto
  then show ?case using t by (auto simp: rmap_lookup_eq nxt'_def split: if_splits)
qed

lemma updateNext_earliest:
  assumes "map_ok (timer_map t)" "timer_map t \<noteq> []"
  obtains t' where "updateNext t = Some t'" "timer_map t' = timer_map t" "m_next_valid t'" "timer_ok t'"
    "timer_consumer t' = timer_consumer t"
proof -
  obtain a time rest where m: "timer_map t = (a, time) # rest" using assms(2) by (cases "timer_map t") auto
  have all: "\<forall>x\<in>set (map fst rest). map_of (timer_map t) x \<noteq> None"
    unfolding m map_of_eq_None_iff by simp
  obtain b u where n: "next_loop (timer_map t) (map fst rest) (a, time) = Some (b, u)" "map_of (timer_map t) b = Some u"
    "u \<le> time" "\<forall>x\<in>set (map fst rest). \<forall>v. map_of (timer_map t) x = Some v \<longrightarrow> u \<le> v"
    using next_loop_least [of "timer_map t" "(a, time)" "map fst rest"] all m by auto
  have "u \<le> v" if "map_of (timer_map t) x = Some v" for x v
  proof (cases "x = a")
    case False
    then have "x \<in> set (map fst rest)" using that m by (auto dest!: map_of_SomeD simp: image_iff) force
    then show ?thesis using n(4) that by blast
  qed (use that n(3) m in simp)
  then have "earliest (timer_map t) b u" using n(2) by (simp add: earliest_def)
  then show thesis using n(1) m assms(1)
    by (intro that [of "t\<lparr>m_next_address := b, m_next_time := u, m_next_valid := True\<rparr>"])
      (auto simp: updateNext_def rmap_keys_def rmap_lookup_eq timer_ok_def)
qed

lemma timer_isReady_eq:
  assumes "timer_ok t"
  obtains t' where "timer_isReady now t = Some (\<exists>a time. map_of (timer_map t) a = Some time \<and> time \<le> now, t')"
    "timer_ok t'" "timer_map t' = timer_map t" "timer_map t \<noteq> [] \<Longrightarrow> m_next_valid t'"
proof (cases "timer_map t = []")
  case True
  then show ?thesis using that [of t] assms by (simp add: timer_isReady_def rmap_size_def)
next
  case False
  obtain t1 where t1: "(if \<not> m_next_valid t then updateNext t else Some t) = Some t1" "timer_map t1 = timer_map t"
    "m_next_valid t1" "timer_ok t1"
  proof (cases "m_next_valid t")
    case True
    then show ?thesis using that [of t] assms by simp
  next
    case invalid: False
    have "map_ok (timer_map t)" using assms by (simp add: timer_ok_def)
    then show ?thesis by (rule updateNext_earliest [OF _ False]) (use that invalid in auto)
  qed
  have e: "earliest (timer_map t) (m_next_address t1) (m_next_time t1)" using t1 by (simp add: timer_ok_def)
  have "now \<ge> m_next_time t1 \<longleftrightarrow> (\<exists>a time. map_of (timer_map t) a = Some time \<and> time \<le> now)"
    using e unfolding earliest_def by (meson order_trans)
  moreover have "rmap_size (timer_map t) \<noteq> 0" using False by (simp add: rmap_size_def)
  ultimately show ?thesis using that [of t1] t1 by (simp add: timer_isReady_def)
qed

lemma timer_set_ok:
  assumes "timer_ok t" "timer_set c now a l t = Some (t', calls)"
  shows "timer_ok t'" "map_of (timer_map t') = (map_of (timer_map t))(a \<mapsto> now + l)"
  using assms by (auto simp: timer_set_def timer_ok_def Let_def abort_simps split: if_splits)

lemma timer_unset_ok:
  assumes "timer_ok t" "timer_unset c a t = Some t'"
  shows "timer_ok t'" "map_of (timer_map t') = (map_of (timer_map t))(a := None)"
proof -
  have m: "timer_map t' = AList.delete a (timer_map t)" "m_next_valid t' = (m_next_valid t \<and> a \<noteq> m_next_address t)"
    "m_next_address t' = m_next_address t" "m_next_time t' = m_next_time t"
    using assms(2) by (auto simp: timer_unset_def rmap_erase_def Let_def abort_simps split: if_splits)
  show of: "map_of (timer_map t') = (map_of (timer_map t))(a := None)" by (simp add: m(1) delete_conv')
  show "timer_ok t'" using assms(1) of m
    by (auto simp: timer_ok_def earliest_def distinct_delete)
qed

datatype timer_op = T_set Time physical_address_t Time | T_unset physical_address_t | T_isReady Time

primrec timer_step :: "ruby_config \<Rightarrow> timer_op \<Rightarrow> 'c timer_table \<Rightarrow> 'c timer_table option" where
  "timer_step c (T_set now a l) t = map_option fst (timer_set c now a l t)"
| "timer_step c (T_unset a) t = timer_unset c a t"
| "timer_step c (T_isReady now) t = map_option snd (timer_isReady now t)"

lemma timer_step_ok:
  assumes "timer_ok t" "timer_step c op t = Some t'"
  shows "timer_ok t'"
proof (cases op)
  case (T_set now a l)
  then show ?thesis using assms timer_set_ok(1) [OF assms(1), of c now a l] by auto
next
  case (T_unset a)
  then show ?thesis using assms timer_unset_ok(1) [OF assms(1)] by simp
next
  case (T_isReady now)
  obtain t1 b where "timer_isReady now t = Some (b, t1)" "timer_ok t1"
    by (rule timer_isReady_eq [OF assms(1), of now]) blast
  then show ?thesis using T_isReady assms(2) by simp
qed

section \<open>Queues per address\<close>

text \<open>The contract of a table of queues: a queue per address, first in, first out.\<close>

locale addr_queue =
  fixes ok :: "'q \<Rightarrow> bool" and items :: "'q \<Rightarrow> physical_address_t \<Rightarrow> 'a list"
    and push :: "physical_address_t \<Rightarrow> 'a \<Rightarrow> 'q \<Rightarrow> 'q" and pop :: "physical_address_t \<Rightarrow> 'q \<Rightarrow> ('a \<times> 'q) option"
  assumes push_items: "ok q \<Longrightarrow> ok (push a x q) \<and> items (push a x q) = (items q)(a := items q a @ [x])"
    and pop_items: "\<lbrakk> ok q; items q a = x # rest \<rbrakk> \<Longrightarrow>
      \<exists>q'. pop a q = Some (x, q') \<and> ok q' \<and> items q' = (items q)(a := rest)"
    and pop_empty: "\<lbrakk> ok q; items q a = [] \<rbrakk> \<Longrightarrow> pop a q = None"
begin

lemma push_all:
  "ok q \<Longrightarrow> ok (foldl (\<lambda>q (a, x). push a x q) q es) \<and>
    items (foldl (\<lambda>q (a, x). push a x q) q es) a = items q a @ map snd (filter (\<lambda>e. fst e = a) es)"
proof (induction es arbitrary: q)
  case (Cons e es)
  then show ?case using push_items [of q "fst e" "snd e"] Cons.IH [of "push (fst e) (snd e) q"]
    by (cases e) auto
qed simp

text \<open>What is pushed for an address, between pushes for other addresses, is popped for it in order.\<close>

lemma pop_after_pushes:
  assumes "ok q" "items q a = []" "map snd (filter (\<lambda>e. fst e = a) es) = x # rest"
  shows "\<exists>q'. pop a (foldl (\<lambda>q (a, x). push a x q) q es) = Some (x, q') \<and> ok q' \<and> items q' a = rest"
proof -
  let ?q = "foldl (\<lambda>q (a, x). push a x q) q es"
  have "ok ?q" "items ?q a = x # rest" using push_all [OF assms(1), of es a] assms(2,3) by simp_all
  then obtain q' where "pop a ?q = Some (x, q')" "ok q'" "items q' = (items ?q)(a := rest)"
    using pop_items by blast
  then show ?thesis by auto
qed

end

definition queue_map_ok :: "'a queue_map \<Rightarrow> bool" where
  "queue_map_ok qs \<longleftrightarrow> (\<forall>a. qs a \<noteq> Some [])"

definition queue_items :: "'a queue_map \<Rightarrow> physical_address_t \<Rightarrow> 'a list" where
  "queue_items qs a = (case qs a of None \<Rightarrow> [] | Some q \<Rightarrow> q)"

definition cwid_top_pop :: "physical_address_t \<Rightarrow> cwid_map \<Rightarrow> ((int \<times> int) \<times> cwid_map) option" where
  "cwid_top_pop addr qs = do {
     cta_id \<leftarrow> returnTopCtaID addr qs;
     wid \<leftarrow> returnTopWarpID addr qs;
     qs \<leftarrow> cwid_pop addr qs;
     Some ((cta_id, wid), qs) }"

text \<open>The three tables are the same table of queues.\<close>

lemma sq_add_eq: "sq_add = aq_push"
  by (auto simp: sq_add_def aq_push_def fun_eq_iff split: option.splits)

lemma return_queue_top_eq: "return_queue_top = aq_pop"
proof (intro ext)
  show "return_queue_top a qs = aq_pop a qs" for a and qs :: "'a queue_map"
    by (cases "qs a") (auto simp: return_queue_top_def sq_discard_def aq_pop_def split: list.splits)
qed

lemma cwid_top_pop_eq: "cwid_top_pop = aq_pop"
proof (intro ext)
  show "cwid_top_pop a qs = aq_pop a qs" for a qs
    by (cases "qs a") (auto simp: cwid_top_pop_def returnTopCtaID_def returnTopWarpID_def cwid_pop_def aq_pop_def
      split: list.splits)
qed

lemma aq_push_law:
  "queue_map_ok (aq_push a x qs) \<longleftrightarrow> (\<forall>b. b \<noteq> a \<longrightarrow> qs b \<noteq> Some [])"
  "queue_items (aq_push a x qs) = (queue_items qs)(a := queue_items qs a @ [x])"
  by (auto simp: queue_map_ok_def queue_items_def aq_push_def fun_eq_iff)

lemma aq_pop_law:
  assumes "queue_map_ok qs" "queue_items qs a = x # rest"
  shows "\<exists>qs'. aq_pop a qs = Some (x, qs') \<and> queue_map_ok qs' \<and> queue_items qs' = (queue_items qs)(a := rest)"
proof -
  have "qs a = Some (x # rest)" using assms(2) by (auto simp: queue_items_def split: option.splits)
  then have "aq_pop a qs = Some (x, qs(a := if rest = [] then None else Some rest))" by (simp add: aq_pop_def)
  moreover have "queue_map_ok (qs(a := if rest = [] then None else Some rest))"
    using assms(1) by (simp add: queue_map_ok_def)
  moreover have "queue_items (qs(a := if rest = [] then None else Some rest)) = (queue_items qs)(a := rest)"
    by (simp add: queue_items_def fun_eq_iff)
  ultimately show ?thesis by blast
qed

lemma aq_pop_empty: "queue_map_ok qs \<Longrightarrow> queue_items qs a = [] \<Longrightarrow> aq_pop a qs = None"
  by (cases "qs a") (auto simp: queue_map_ok_def queue_items_def aq_pop_def)

interpretation addr_queue_map: addr_queue queue_map_ok queue_items aq_push aq_pop
proof
  fix qs :: "'a queue_map" and a x rest
  show "queue_map_ok (aq_push a x qs) \<and> queue_items (aq_push a x qs) = (queue_items qs)(a := queue_items qs a @ [x])"
    if "queue_map_ok qs" using that aq_push_law [of a x qs] by (simp add: queue_map_ok_def)
qed (rule aq_pop_law aq_pop_empty, assumption+)+

interpretation store_queue_map: addr_queue queue_map_ok queue_items sq_add return_queue_top
  unfolding sq_add_eq return_queue_top_eq by (rule addr_queue_map.addr_queue_axioms)

interpretation request_cwid_map: addr_queue queue_map_ok queue_items "\<lambda>a x. cwid_push a (fst x) (snd x)" cwid_top_pop
  unfolding cwid_push_def cwid_top_pop_eq prod.collapse by (rule addr_queue_map.addr_queue_axioms)

section \<open>Properties\<close>

text \<open>C33. The timer table tells the truth: after any sequence of timers set, unset and polled that
  the code accepts, \<open>isReady\<close> answers whether some timer has run out, in spite of its cached minimum,
  and when one has, \<open>readyAddress\<close> returns a line whose timer is the earliest of all and has run out.\<close>

theorem timer_table_reports_earliest:
  assumes "run_all (timer_step c) ops (TimerTable_new\<lparr>timer_consumer := consumer\<rparr>) = Some t"
  shows "\<exists>t'. timer_isReady now t = Some (\<exists>a time. map_of (timer_map t) a = Some time \<and> time \<le> now, t') \<and>
    (\<forall>b u. map_of (timer_map t) b = Some u \<and> u \<le> now \<longrightarrow>
      (\<exists>a time t''. readyAddress now t = Some (a, t'') \<and> map_of (timer_map t) a = Some time \<and> time \<le> u))"
proof -
  have "timer_ok t"
    by (rule run_all_invariant [of ops timer_ok "timer_step c"])
      (use assms timer_step_ok in \<open>auto simp: timer_ok_def TimerTable_new_def\<close>)
  then obtain t' where t': "timer_isReady now t = Some (\<exists>a time. map_of (timer_map t) a = Some time \<and> time \<le> now, t')"
    "timer_ok t'" "timer_map t' = timer_map t" "timer_map t \<noteq> [] \<Longrightarrow> m_next_valid t'"
    by (rule timer_isReady_eq [of t now]) blast
  have "\<exists>a time t''. readyAddress now t = Some (a, t'') \<and> map_of (timer_map t) a = Some time \<and> time \<le> u"
    if "map_of (timer_map t) b = Some u" "u \<le> now" for b u
  proof -
    have v: "m_next_valid t'" using t'(4) that(1) by fastforce
    have "readyAddress now t = Some (m_next_address t', t')"
      using t'(1) that v by (auto simp: readyAddress_def)
    moreover have "earliest (timer_map t) (m_next_address t') (m_next_time t')"
      using t'(2,3) v by (simp add: timer_ok_def)
    ultimately show ?thesis using that(1) by (auto simp: earliest_def)
  qed
  then show ?thesis using t'(1) by blast
qed

definition sample_timer :: "nat timer_table" where
  "sample_timer = \<lparr>timer_map = [(0x1200, 12)], timer_consumer = Some 7, m_next_valid = False,
     m_next_time = 0, m_next_address = 0\<rparr>"

lemma timer_table_reports_earliest_witness:
  "\<exists>t'. timer_isReady 20 sample_timer = Some (\<exists>a time. map_of (timer_map sample_timer) a = Some time \<and> time \<le> 20, t') \<and>
    (\<forall>b u. map_of (timer_map sample_timer) b = Some u \<and> u \<le> 20 \<longrightarrow>
      (\<exists>a time t''. readyAddress 20 sample_timer = Some (a, t'') \<and> map_of (timer_map sample_timer) a = Some time \<and> time \<le> u))"
proof (rule timer_table_reports_earliest)
  show "run_all (timer_step sample_config') [T_set 4 0x1200 8] (TimerTable_new\<lparr>timer_consumer := Some 7\<rparr>) = Some sample_timer"
    by (simp add: timer_set_def line_assert_line [OF sample_line] TimerTable_new_def sample_timer_def
      rmap_exist_def rmap_add_def)
qed

text \<open>C34. The slots that the table of transactions reports are there: when \<open>areNSlotsAvailable(n)\<close>
  answers yes, any \<open>n\<close> different lines without a transaction can be allocated one after the other
  without an abort, each of them can then be looked up, and the table never holds more entries than
  it has slots.\<close>

theorem tbe_slots_can_be_allocated:
  assumes "tbe_areNSlotsAvailable NUMBER_OF_TBES (int (length as)) tab" "distinct as"
    and "\<forall>a\<in>set as. is_line c a \<and> map_of tab a = None"
  shows "\<exists>tab'. run_all (tbe_allocate c NUMBER_OF_TBES entry0) as tab = Some tab' \<and>
    rmap_size tab' = rmap_size tab + int (length as) \<and> rmap_size tab' \<le> NUMBER_OF_TBES \<and>
    (\<forall>a\<in>set as. tbe_lookup c NUMBER_OF_TBES a tab' = Some entry0) \<and>
    (\<forall>b. b \<notin> set as \<longrightarrow> map_of tab' b = map_of tab b)"
  using assms
proof (induction as arbitrary: tab)
  case Nil
  then show ?case by (simp add: tbe_areNSlotsAvailable_def)
next
  case (Cons a as)
  have room: "rmap_size tab < NUMBER_OF_TBES" using Cons.prems(1) by (simp add: tbe_areNSlotsAvailable_def)
  have al: "tbe_allocate c NUMBER_OF_TBES entry0 a tab = Some (rmap_add a entry0 tab)"
    using room Cons.prems(3) by (simp add: tbe_allocate_def tbe_isPresent_def line_assert_line rmap_exist_def)
  have sz: "rmap_size (rmap_add a entry0 tab) = rmap_size tab + 1" using Cons.prems(3) by (simp add: rmap_size_add)
  obtain tab' where tab': "run_all (tbe_allocate c NUMBER_OF_TBES entry0) as (rmap_add a entry0 tab) = Some tab'"
    "rmap_size tab' = rmap_size tab + 1 + int (length as)" "rmap_size tab' \<le> NUMBER_OF_TBES"
    "\<forall>b\<in>set as. tbe_lookup c NUMBER_OF_TBES b tab' = Some entry0"
    "\<forall>b. b \<notin> set as \<longrightarrow> map_of tab' b = map_of (rmap_add a entry0 tab) b"
  proof -
    have "tbe_areNSlotsAvailable NUMBER_OF_TBES (int (length as)) (rmap_add a entry0 tab)" "distinct as"
      using Cons.prems(1,2) sz by (simp_all add: tbe_areNSlotsAvailable_def)
    moreover have "\<forall>b\<in>set as. is_line c b \<and> map_of (rmap_add a entry0 tab) b = None"
      using Cons.prems(2,3) by auto
    ultimately show ?thesis using Cons.IH [of "rmap_add a entry0 tab"] that unfolding sz by blast
  qed
  have "map_of tab' a = Some entry0" using tab'(5) Cons.prems(2) by simp
  then have "tbe_lookup c NUMBER_OF_TBES a tab' = Some entry0"
    using tab'(3) Cons.prems(3)
    by (simp add: tbe_lookup_def tbe_isPresent_def line_assert_line rmap_exist_def rmap_lookup_eq)
  then show ?case using al tab' by auto
qed

lemma tbe_slots_can_be_allocated_witness:
  "\<exists>tab'. run_all (tbe_allocate sample_config' 4 9) [0x1200] ([] :: nat tbe_table) = Some tab' \<and>
    rmap_size tab' = rmap_size ([] :: nat tbe_table) + int (length [0x1200 :: physical_address_t]) \<and> rmap_size tab' \<le> 4 \<and>
    (\<forall>a\<in>set [0x1200]. tbe_lookup sample_config' 4 a tab' = Some 9) \<and>
    (\<forall>b. b \<notin> set [0x1200] \<longrightarrow> map_of tab' b = map_of ([] :: nat tbe_table) b)"
  by (rule tbe_slots_can_be_allocated) (simp_all add: tbe_areNSlotsAvailable_def rmap_size_def sample_line)

text \<open>Discarding an address from the table of the addresses of each warp has no effect: the loops
  work on copies of the inner map and sets, so \<open>discard\<close> either erases the element its iterator points
  at (undefined behaviour, when some warp holds the address alone) or leaves the table as it was, with
  the address still in it.\<close>

theorem cta_warp_discard_keeps_address:
  "cwa_discard addr m = Some m' \<Longrightarrow> m' = m"
  by (auto simp: cwa_discard_def abort_simps)

lemma cta_warp_discard_keeps_address_witness:
  "cwa_discard 64 [(0, [(1, [64, 128])])] = Some [(0, [(1, [64, 128])])] \<and>
   the (cwa_discard 64 [(0, [(1, [64, 128])])]) = [(0, [(1, [64, 128])])]"
proof
  show "cwa_discard 64 [(0, [(1, [64, 128])])] = Some [(0, [(1, [64, 128])])]" by (simp add: cwa_discard_def)
  then show "the (cwa_discard 64 [(0, [(1, [64, 128])])]) = [(0, [(1, [64, 128])])]"
    using cta_warp_discard_keeps_address [of 64 "[(0, [(1, [64, 128])])]"] by simp
qed

text \<open>The store queues of the addresses do not mix: whatever blocks are added for whatever
  addresses, the first block taken for an address is the first one added for it, and what stays
  queued for it are the others in their order.\<close>

theorem store_queue_fifo:
  assumes "map snd (filter (\<lambda>e. fst e = a) es) = x # rest"
  shows "\<exists>qs'. return_queue_top a (foldl (\<lambda>qs (b, d). sq_add b d qs) Map.empty es) = Some (x, qs') \<and>
    queue_items qs' a = rest"
  using store_queue_map.pop_after_pushes [of Map.empty a es x rest] assms
  by (auto simp: queue_map_ok_def queue_items_def)

lemma store_queue_fifo_witness:
  "\<exists>qs'. return_queue_top 64 (foldl (\<lambda>qs (b, d). sq_add b d qs) Map.empty [(64, 1 :: nat), (128, 2), (64, 3)]) = Some (1, qs') \<and>
    queue_items qs' 64 = [3]"
  by (rule store_queue_fifo) simp

end
