(* ===== verification/Lease_Predictors.thy ===== *)
theory Lease_Predictors
  imports Prelude
begin

text \<open>
  The lease predictors of the time-based protocols: \<open>system/TCpredictor\<close> and the functions
  through which the controllers call them, \<open>slicc_interface/RubySlicc_TCpredictor_interface.C\<close>.

  Each predictor class is a record, the container a datatype over them, and a \<open>dynamic_cast\<close> to the
  wrong class is an abort.  The C \<open>int\<close>s of the predictors are modelled by \<open>int\<close>; a left shift that
  leaves the range of the type is undefined in C and is an abort.  The settings that two predictors
  read from a file are the argument of their constructors, as the list of the lines read.  The
  histograms are left out: they only feed the printed statistics.

  The lemmas show the bounds of the leases that the predictors hand out, over any sequence of
  calls, that the sampling predictor converges to an observed lifetime, and what the accesses of
  one core do to the leases of the others.
\<close>

section \<open>The settings\<close>

record cl_config =
  CL_FIXED_LEASE :: int
  CL_PREDICTOR_TYPE :: int
  CL_PREDICTOR_TYPE_FIXED :: int
  CL_PREDICTOR_TYPE_GLOBAL :: int
  CL_PREDICTOR_TYPE_PERL2 :: int
  CL_PREDICTOR_TYPE_PCFIXED :: int
  CL_PREDICTOR_TYPE_PCADAPTIVE :: int
  CL_PREDICTOR_TYPE_ADDRFIXED :: int
  CL_PREDICTOR_TYPE_ORACLE :: int
  CL_PREDICTOR_TYPE_PCSAMPLER :: int
  CL_PREDICTOR_TYPE_TARDISDEC :: int
  CL_PREDICTOR_TYPE_TARDISINC :: int
  CL_PREDICTOR_TYPE_TARDISPCADAPTIVE :: int
  CL_PRED_PCADAPTIVE_WRITEUNEXPIRED_PENALTY :: int
  CL_PRED_PCADAPTIVE_L2EVICT_PENALTY :: int
  CL_PRED_PCADAPTIVE_EXPIREHIT_CREDIT :: int
  CL_PRED_TARDISDEC_MIN :: int
  CL_PRED_TARDISDEC_MAX :: int
  CL_PRED_TARDISDEC_SHIFT :: int
  CL_PRED_TARDISINC_MIN :: int
  CL_PRED_TARDISINC_MAX :: int
  CL_PRED_TARDISINC_SHIFT :: int
  CL_PRED_TARDISPCADAPTIVE_MIN :: int
  CL_PRED_TARDISPCADAPTIVE_MAX :: int
  CL_PRED_TARDISPCADAPTIVE_SHIFT :: int

type_synonym IntPair = "int \<times> int"

section \<open>The predictors\<close>

subsection \<open>One lease for all, and one per bank\<close>

record pred_global =
  g_lease :: int
  g_stats_lease_requests :: int

definition TCpredictorGlobal_new :: "cl_config \<Rightarrow> pred_global" where
  "TCpredictorGlobal_new c = \<lparr>g_lease = CL_FIXED_LEASE c, g_stats_lease_requests = 0\<rparr>"

definition global_lifetime :: "cl_config \<Rightarrow> pred_global \<Rightarrow> (Time \<times> pred_global) option" where
  "global_lifetime c p = do {
     assert_that (CL_PREDICTOR_TYPE c = CL_PREDICTOR_TYPE_GLOBAL c);
     assert_that (g_lease p \<ge> 0);
     Some (g_lease p, p\<lparr>g_stats_lease_requests := g_stats_lease_requests p + 1\<rparr>) }"

text \<open>The body that the two \<open>adjust_lease\<close> methods share.\<close>

definition adjusted :: "int \<Rightarrow> int \<Rightarrow> int \<Rightarrow> int \<Rightarrow> int" where
  "adjusted delta mn mx lease =
     (let lease = (if (mn = 0 \<or> lease > mn) \<and> (mx = 0 \<or> lease < mx) then lease + delta else lease)
      in if lease < 0 then 0 else lease)"

definition global_adjust_lease :: "int \<Rightarrow> int \<Rightarrow> int \<Rightarrow> pred_global \<Rightarrow> pred_global" where
  "global_adjust_lease delta mn mx p = p\<lparr>g_lease := adjusted delta mn mx (g_lease p)\<rparr>"

record pred_perL2 =
  m_numL2Banks :: int
  l2_leases :: "int list"
  l2_stats_lease_requests :: "int list"

definition TCpredictorPerL2_new :: "cl_config \<Rightarrow> int \<Rightarrow> pred_perL2" where
  "TCpredictorPerL2_new c numL2Banks = \<lparr>m_numL2Banks = numL2Banks,
     l2_leases = replicate (nat numL2Banks) (CL_FIXED_LEASE c),
     l2_stats_lease_requests = replicate (nat numL2Banks) 0\<rparr>"

definition perL2_lifetime :: "cl_config \<Rightarrow> int \<Rightarrow> pred_perL2 \<Rightarrow> (Time \<times> pred_perL2) option" where
  "perL2_lifetime c bank p = do {
     assert_that (CL_PREDICTOR_TYPE c = CL_PREDICTOR_TYPE_PERL2 c);
     assert_that (bank < m_numL2Banks p);
     assert_that (0 \<le> bank \<and> nat bank < length (l2_leases p));
     assert_that (l2_leases p ! nat bank \<ge> 0);
     Some (l2_leases p ! nat bank, p\<lparr>l2_stats_lease_requests :=
       (l2_stats_lease_requests p)[nat bank := l2_stats_lease_requests p ! nat bank + 1]\<rparr>) }"

definition perL2_adjust_lease :: "int \<Rightarrow> int \<Rightarrow> int \<Rightarrow> int \<Rightarrow> pred_perL2 \<Rightarrow> pred_perL2 option" where
  "perL2_adjust_lease bank delta mn mx p = do {
     assert_that (bank < m_numL2Banks p);
     assert_that (0 \<le> bank \<and> nat bank < length (l2_leases p));
     Some (p\<lparr>l2_leases := (l2_leases p)[nat bank := adjusted delta mn mx (l2_leases p ! nat bank)]\<rparr>) }"

definition perL2_adjust_lease_all :: "int \<Rightarrow> int \<Rightarrow> int \<Rightarrow> pred_perL2 \<Rightarrow> pred_perL2 option" where
  "perL2_adjust_lease_all delta mn mx p =
     run_all (\<lambda>i. perL2_adjust_lease i delta mn mx) [0..m_numL2Banks p - 1] p"

subsection \<open>A lease per instruction and core\<close>

type_synonym pred_pcadaptive = "IntPair \<rightharpoonup> int"

definition pcadaptive_lifetime :: "cl_config \<Rightarrow> int \<Rightarrow> int \<Rightarrow> pred_pcadaptive \<Rightarrow> (Time \<times> pred_pcadaptive) option" where
  "pcadaptive_lifetime c pc core_id p = do {
     assert_that (CL_PREDICTOR_TYPE c = CL_PREDICTOR_TYPE_PCADAPTIVE c);
     let p = (if p (pc, core_id) = None then p((pc, core_id) \<mapsto> CL_FIXED_LEASE c) else p);
     lease \<leftarrow> p (pc, core_id);
     Some (lease, p) }"

definition expiredhit :: "cl_config \<Rightarrow> IntPair list \<Rightarrow> IntPair \<Rightarrow> pred_pcadaptive \<Rightarrow> pred_pcadaptive option" where
  "expiredhit c pcsharers reader p =
     (if reader \<in> set pcsharers then do {
        lease \<leftarrow> p reader;
        Some (p(reader \<mapsto> lease + CL_PRED_PCADAPTIVE_EXPIREHIT_CREDIT c)) }
      else Some p)"

definition penalise :: "int \<Rightarrow> IntPair \<Rightarrow> pred_pcadaptive \<Rightarrow> pred_pcadaptive option" where
  "penalise penalty pcsharer p = do {
     lease \<leftarrow> p pcsharer;
     Some (p(pcsharer \<mapsto> if lease - penalty < 0 then 0 else lease - penalty)) }"

definition unexpiredwrite :: "cl_config \<Rightarrow> IntPair list \<Rightarrow> IntPair \<Rightarrow> pred_pcadaptive \<Rightarrow> pred_pcadaptive option" where
  "unexpiredwrite c pcsharers writer = run_all (\<lambda>it p.
     if snd it \<noteq> snd writer then penalise (CL_PRED_PCADAPTIVE_WRITEUNEXPIRED_PENALTY c) it p else Some p) pcsharers"

definition unexpiredatomic :: "cl_config \<Rightarrow> IntPair list \<Rightarrow> IntPair \<Rightarrow> pred_pcadaptive \<Rightarrow> pred_pcadaptive option" where
  "unexpiredatomic c pcsharers writer =
     run_all (penalise (CL_PRED_PCADAPTIVE_WRITEUNEXPIRED_PENALTY c)) pcsharers"

definition l2evict :: "cl_config \<Rightarrow> IntPair list \<Rightarrow> pred_pcadaptive \<Rightarrow> pred_pcadaptive option" where
  "l2evict c pcsharers = run_all (penalise (CL_PRED_PCADAPTIVE_L2EVICT_PENALTY c)) pcsharers"

subsection \<open>Leases read from a file\<close>

record pred_pcfixed =
  m_perpc_config_average :: "int \<rightharpoonup> int"
  pcf_stats_lease_requests :: int
  m_stats_defined_pc_count :: "int \<Rightarrow> int"
  m_stats_undefined_pc_count :: "int \<Rightarrow> int"

definition pcfixed_line :: "int \<times> int \<Rightarrow> (int \<rightharpoonup> int) \<Rightarrow> (int \<rightharpoonup> int) option" where
  "pcfixed_line = (\<lambda>(in_pc, in_average) averages. do {
     assert_that (averages in_pc = None);
     assert_that (in_pc \<ge> 0);
     Some (averages(in_pc \<mapsto> in_average)) })"

text \<open>The argument is the file, \<open>None\<close> when it cannot be opened.\<close>

definition TCpredictorPCfixed_new :: "(int \<times> int) list option \<Rightarrow> pred_pcfixed option" where
  "TCpredictorPCfixed_new infile = do {
     entries \<leftarrow> infile;
     averages \<leftarrow> run_all pcfixed_line entries Map.empty;
     Some \<lparr>m_perpc_config_average = averages, pcf_stats_lease_requests = 0,
       m_stats_defined_pc_count = (\<lambda>_. 0), m_stats_undefined_pc_count = (\<lambda>_. 0)\<rparr> }"

definition pcfixed_lifetime :: "cl_config \<Rightarrow> int \<Rightarrow> pred_pcfixed \<Rightarrow> (Time \<times> pred_pcfixed) option" where
  "pcfixed_lifetime c pc p = do {
     assert_that (CL_PREDICTOR_TYPE c = CL_PREDICTOR_TYPE_PCFIXED c);
     let p = p\<lparr>pcf_stats_lease_requests := pcf_stats_lease_requests p + 1\<rparr>;
     (case m_perpc_config_average p pc of
        Some lease \<Rightarrow> Some (lease, p\<lparr>m_stats_defined_pc_count :=
          (m_stats_defined_pc_count p)(pc := m_stats_defined_pc_count p pc + 1)\<rparr>)
      | None \<Rightarrow> Some (CL_FIXED_LEASE c, p\<lparr>m_stats_undefined_pc_count :=
          (m_stats_undefined_pc_count p)(pc := m_stats_undefined_pc_count p pc + 1)\<rparr>)) }"

record pred_addrfixed =
  m_peraddr_config_average :: "int \<rightharpoonup> int"
  m_addr_chunk_granularity :: int
  af_stats_lease_requests :: int
  m_stats_addr_found :: int
  m_stats_addr_notfound :: int

definition addrfixed_line :: "int \<Rightarrow> int \<times> int \<Rightarrow> (int \<rightharpoonup> int) \<Rightarrow> (int \<rightharpoonup> int) option" where
  "addrfixed_line chunk = (\<lambda>(in_addr, in_average) averages. do {
     assert_that (in_addr \<ge> 0);
     assert_that (chunk \<noteq> 0 \<and> in_addr mod chunk = 0);
     assert_that (averages in_addr = None);
     Some (averages(in_addr \<mapsto> in_average)) })"

definition TCpredictorAddrfixed_new :: "(int \<times> (int \<times> int) list) option \<Rightarrow> pred_addrfixed option" where
  "TCpredictorAddrfixed_new infile = do {
     (chunk, entries) \<leftarrow> infile;
     averages \<leftarrow> run_all (addrfixed_line chunk) entries Map.empty;
     Some \<lparr>m_peraddr_config_average = averages, m_addr_chunk_granularity = chunk,
       af_stats_lease_requests = 0, m_stats_addr_found = 0, m_stats_addr_notfound = 0\<rparr> }"

definition addrfixed_lifetime :: "cl_config \<Rightarrow> int \<Rightarrow> pred_addrfixed \<Rightarrow> (Time \<times> pred_addrfixed) option" where
  "addrfixed_lifetime c addr p = do {
     assert_that (CL_PREDICTOR_TYPE c = CL_PREDICTOR_TYPE_ADDRFIXED c);
     let p = p\<lparr>af_stats_lease_requests := af_stats_lease_requests p + 1\<rparr>;
     let addr_chunk = addr AND NOT (m_addr_chunk_granularity p - 1);
     (case m_peraddr_config_average p addr_chunk of
        Some lease \<Rightarrow> Some (lease, p\<lparr>m_stats_addr_found := m_stats_addr_found p + 1\<rparr>)
      | None \<Rightarrow> Some (CL_FIXED_LEASE c, p\<lparr>m_stats_addr_notfound := m_stats_addr_notfound p + 1\<rparr>)) }"

subsection \<open>Sampled lifetimes\<close>

record predictionInfo =
  m_prediction_lifetime :: Time
  m_updates :: int
  m_sat_counter :: int

record pred_pcsampler =
  m_prediction_table :: "int \<rightharpoonup> predictionInfo"
  m_sampler_table :: "int \<rightharpoonup> (int \<times> Time) list"
  m_max_lifetime :: Time

definition TCpredictorPCSampler_new :: pred_pcsampler where
  "TCpredictorPCSampler_new = \<lparr>m_prediction_table = Map.empty, m_sampler_table = Map.empty, m_max_lifetime = 20000\<rparr>"

definition pcsampler_lifetime :: "cl_config \<Rightarrow> int \<Rightarrow> pred_pcsampler \<Rightarrow> (Time \<times> pred_pcsampler) option" where
  "pcsampler_lifetime c pc p = do {
     assert_that (CL_PREDICTOR_TYPE c = CL_PREDICTOR_TYPE_PCSAMPLER c);
     let p = (if m_prediction_table p pc = None then p\<lparr>m_prediction_table := (m_prediction_table p)
       (pc \<mapsto> \<lparr>m_prediction_lifetime = CL_FIXED_LEASE c, m_updates = 0, m_sat_counter = 0\<rparr>)\<rparr> else p);
     i \<leftarrow> m_prediction_table p pc;
     assert_that (m_prediction_lifetime i \<ge> 0);
     Some (m_prediction_lifetime i, p) }"

text \<open>The start times of the instructions that are tracked for an address are an association list
  in the order of the instructions, as the map iterates.\<close>

definition addLoadPC :: "Time \<Rightarrow> int \<Rightarrow> int \<Rightarrow> pred_pcsampler \<Rightarrow> pred_pcsampler" where
  "addLoadPC access_time address pc p =
     (case m_sampler_table p address of
        Some starts \<Rightarrow> if map_of starts pc \<noteq> None then p
          else p\<lparr>m_sampler_table := (m_sampler_table p)(address \<mapsto> insort_key fst (pc, access_time) starts)\<rparr>
      | None \<Rightarrow> p\<lparr>m_sampler_table := (m_sampler_table p)(address \<mapsto> [(pc, access_time)])\<rparr>)"

definition updatePredictionTime :: "cl_config \<Rightarrow> int \<Rightarrow> Time \<Rightarrow> pred_pcsampler \<Rightarrow> pred_pcsampler option" where
  "updatePredictionTime c pc lifetime p = do {
     i \<leftarrow> m_prediction_table p pc;
     let lifetime = (if lifetime > m_max_lifetime p then m_max_lifetime p
       else if lifetime < CL_FIXED_LEASE c then CL_FIXED_LEASE c else lifetime);
     Some (p\<lparr>m_prediction_table := (m_prediction_table p)(pc \<mapsto> i\<lparr>m_prediction_lifetime := lifetime\<rparr>)\<rparr>) }"

definition count_update :: "int \<Rightarrow> pred_pcsampler \<Rightarrow> pred_pcsampler option" where
  "count_update pc p = do {
     i \<leftarrow> m_prediction_table p pc;
     Some (p\<lparr>m_prediction_table := (m_prediction_table p)(pc \<mapsto> i\<lparr>m_updates := m_updates i + 1\<rparr>)\<rparr>) }"

definition updatePredictorFromLifetimeEnd :: "cl_config \<Rightarrow> int \<Rightarrow> Time \<Rightarrow> pred_pcsampler \<Rightarrow> pred_pcsampler option" where
  "updatePredictorFromLifetimeEnd c pc lifetime p = do {
     i \<leftarrow> m_prediction_table p pc;
     if m_prediction_lifetime i > lifetime then do {
       p \<leftarrow> updatePredictionTime c pc (m_prediction_lifetime i - 1) p; count_update pc p }
     else if m_prediction_lifetime i < lifetime then do {
       p \<leftarrow> updatePredictionTime c pc (m_prediction_lifetime i + 1) p; count_update pc p }
     else Some p }"

definition endLifetime :: "cl_config \<Rightarrow> Time \<Rightarrow> int \<Rightarrow> pred_pcsampler \<Rightarrow> pred_pcsampler option" where
  "endLifetime c end_time address p =
     (case m_sampler_table p address of
        None \<Rightarrow> Some p
      | Some starts \<Rightarrow> do {
          p \<leftarrow> run_all (\<lambda>(pc, start) p. do {
            assert_that (end_time - start \<ge> 0);
            updatePredictorFromLifetimeEnd c pc (end_time - start) p }) starts p;
          Some (p\<lparr>m_sampler_table := (m_sampler_table p)(address := None)\<rparr>) })"

definition expiredLoadHit :: "Time \<Rightarrow> int \<Rightarrow> int \<Rightarrow> pred_pcsampler \<Rightarrow> pred_pcsampler" where
  "expiredLoadHit access_time address pc p = p"

subsection \<open>Leases that double and collapse\<close>

text \<open>A left shift of a signed integer of \<open>w\<close> bits by an amount that the type allows; a result that
  the type cannot hold is undefined.\<close>

definition shl :: "nat \<Rightarrow> int \<Rightarrow> int \<Rightarrow> int option" where
  "shl w x k = do {
     assert_that (0 \<le> k \<and> k < int w);
     assert_that (0 \<le> x \<and> x * 2 ^ nat k < 2 ^ (w - 1));
     Some (x * 2 ^ nat k) }"

record pred_tardis =
  m_pred_min :: Time
  m_pred_max :: Time
  m_pred_shift :: int

definition TCpredictorTardisDec_new :: "cl_config \<Rightarrow> pred_tardis" where
  "TCpredictorTardisDec_new c = \<lparr>m_pred_min = CL_PRED_TARDISDEC_MIN c,
     m_pred_max = CL_PRED_TARDISDEC_MAX c, m_pred_shift = CL_PRED_TARDISDEC_SHIFT c\<rparr>"

definition tardisdec_lifetime :: "pred_tardis \<Rightarrow> Time" where
  "tardisdec_lifetime p = m_pred_max p"

definition tardisdec_load :: "Time \<Rightarrow> pred_tardis \<Rightarrow> Time option" where
  "tardisdec_load pred_lease p = do {
     l \<leftarrow> shl 64 pred_lease (m_pred_shift p);
     Some (if l > m_pred_max p then m_pred_max p else l) }"

definition tardisdec_writeatomic :: "Time \<Rightarrow> pred_tardis \<Rightarrow> Time" where
  "tardisdec_writeatomic pred_lease p = m_pred_min p"

definition TCpredictorTardisInc_new :: "cl_config \<Rightarrow> pred_tardis" where
  "TCpredictorTardisInc_new c = \<lparr>m_pred_min = CL_PRED_TARDISINC_MIN c,
     m_pred_max = CL_PRED_TARDISINC_MAX c, m_pred_shift = CL_PRED_TARDISINC_SHIFT c\<rparr>"

definition tardisinc_lifetime :: "pred_tardis \<Rightarrow> Time" where
  "tardisinc_lifetime p = m_pred_min p"

definition tardisinc_load :: "Time \<Rightarrow> pred_tardis \<Rightarrow> Time option" where
  "tardisinc_load pred_lease p = do {
     l \<leftarrow> shl 64 pred_lease (m_pred_shift p);
     Some (if l > m_pred_max p then m_pred_max p else l) }"

definition tardisinc_writeatomic :: "Time \<Rightarrow> pred_tardis \<Rightarrow> Time" where
  "tardisinc_writeatomic pred_lease p = m_pred_min p"

record pred_tardispc =
  tpc_min :: int
  tpc_max :: int
  tpc_shift :: int
  tpc_leases :: "int \<rightharpoonup> int"

definition TCpredictorTardisPCAdaptive_new :: "cl_config \<Rightarrow> pred_tardispc" where
  "TCpredictorTardisPCAdaptive_new c = \<lparr>tpc_min = CL_PRED_TARDISPCADAPTIVE_MIN c,
     tpc_max = CL_PRED_TARDISPCADAPTIVE_MAX c, tpc_shift = CL_PRED_TARDISPCADAPTIVE_SHIFT c,
     tpc_leases = Map.empty\<rparr>"

definition tardispc_lifetime :: "cl_config \<Rightarrow> int \<Rightarrow> pred_tardispc \<Rightarrow> (Time \<times> pred_tardispc) option" where
  "tardispc_lifetime c pc p = do {
     assert_that (CL_PREDICTOR_TYPE c = CL_PREDICTOR_TYPE_TARDISPCADAPTIVE c);
     let p = (if tpc_leases p pc = None then p\<lparr>tpc_leases := (tpc_leases p)(pc \<mapsto> tpc_min p)\<rparr> else p);
     lease \<leftarrow> tpc_leases p pc;
     Some (lease, p) }"

definition tardispc_load :: "int \<Rightarrow> pred_tardispc \<Rightarrow> pred_tardispc option" where
  "tardispc_load pc p = do {
     lease \<leftarrow> tpc_leases p pc;
     lease \<leftarrow> shl 32 lease (tpc_shift p);
     Some (p\<lparr>tpc_leases := (tpc_leases p)(pc \<mapsto> if lease > tpc_max p then tpc_max p else lease)\<rparr>) }"

definition tardispc_writeatomic :: "int \<Rightarrow> pred_tardispc \<Rightarrow> pred_tardispc option" where
  "tardispc_writeatomic pc p = do {
     lease \<leftarrow> tpc_leases p pc;
     assert_that (0 \<le> tpc_shift p \<and> tpc_shift p < 32);
     let lease = lease div 2 ^ nat (tpc_shift p);
     Some (p\<lparr>tpc_leases := (tpc_leases p)(pc \<mapsto> if lease < tpc_min p then tpc_min p else lease)\<rparr>) }"

section \<open>The container and the interface of the controllers\<close>

datatype predictor = Pred_Global pred_global | Pred_PerL2 pred_perL2 | Pred_PCAdaptive pred_pcadaptive
  | Pred_PCfixed pred_pcfixed | Pred_Addrfixed pred_addrfixed | Pred_PCSampler pred_pcsampler
  | Pred_TardisDec pred_tardis | Pred_TardisInc pred_tardis | Pred_TardisPCAdaptive pred_tardispc

text \<open>The inner option is the pointer \<open>m_predictor\<close>, which is null for two of the types.\<close>

definition TCpredictorContainer_new ::
  "cl_config \<Rightarrow> (int \<times> int) list option \<Rightarrow> (int \<times> (int \<times> int) list) option \<Rightarrow> int \<Rightarrow> predictor option option" where
  "TCpredictorContainer_new c pcfile addrfile numL2Banks =
     (let t = CL_PREDICTOR_TYPE c in
      if t = CL_PREDICTOR_TYPE_FIXED c then Some None
      else if t = CL_PREDICTOR_TYPE_GLOBAL c then Some (Some (Pred_Global (TCpredictorGlobal_new c)))
      else if t = CL_PREDICTOR_TYPE_PERL2 c then Some (Some (Pred_PerL2 (TCpredictorPerL2_new c numL2Banks)))
      else if t = CL_PREDICTOR_TYPE_PCADAPTIVE c then Some (Some (Pred_PCAdaptive Map.empty))
      else if t = CL_PREDICTOR_TYPE_PCFIXED c
        then map_option (Some \<circ> Pred_PCfixed) (TCpredictorPCfixed_new pcfile)
      else if t = CL_PREDICTOR_TYPE_ADDRFIXED c
        then map_option (Some \<circ> Pred_Addrfixed) (TCpredictorAddrfixed_new addrfile)
      else if t = CL_PREDICTOR_TYPE_ORACLE c then Some None
      else if t = CL_PREDICTOR_TYPE_PCSAMPLER c then Some (Some (Pred_PCSampler TCpredictorPCSampler_new))
      else if t = CL_PREDICTOR_TYPE_TARDISDEC c then Some (Some (Pred_TardisDec (TCpredictorTardisDec_new c)))
      else if t = CL_PREDICTOR_TYPE_TARDISINC c then Some (Some (Pred_TardisInc (TCpredictorTardisInc_new c)))
      else if t = CL_PREDICTOR_TYPE_TARDISPCADAPTIVE c
        then Some (Some (Pred_TardisPCAdaptive (TCpredictorTardisPCAdaptive_new c)))
      else None)"


text \<open>Each function of the interface casts the predictor of the container to its class.\<close>

definition is_pred :: "(cl_config \<Rightarrow> int) \<Rightarrow> cl_config \<Rightarrow> bool" where
  "is_pred kind c \<longleftrightarrow> CL_PREDICTOR_TYPE c = kind c"

definition get_lease_fixed :: "cl_config \<Rightarrow> Time" where
  "get_lease_fixed c = CL_FIXED_LEASE c"

definition get_pred_oracle_lifetime :: Time where
  "get_pred_oracle_lifetime = push_bit 20 1"

primrec cast_global :: "predictor option \<Rightarrow> pred_global option" where
  "cast_global None = None"
| "cast_global (Some q) = (case q of Pred_Global p \<Rightarrow> Some p | _ \<Rightarrow> None)"

definition get_pred_global_lifetime :: "cl_config \<Rightarrow> predictor option \<Rightarrow> (Time \<times> predictor option) option" where
  "get_pred_global_lifetime c P = do {
     p \<leftarrow> cast_global P; (t, p) \<leftarrow> global_lifetime c p; Some (t, Some (Pred_Global p)) }"

definition pred_global_decrease_lease :: "int \<Rightarrow> int \<Rightarrow> int \<Rightarrow> predictor option \<Rightarrow> predictor option option" where
  "pred_global_decrease_lease delta mn mx P = do {
     p \<leftarrow> cast_global P; Some (Some (Pred_Global (global_adjust_lease (- delta) mn mx p))) }"

definition pred_global_increase_lease :: "int \<Rightarrow> int \<Rightarrow> int \<Rightarrow> predictor option \<Rightarrow> predictor option option" where
  "pred_global_increase_lease delta mn mx P = do {
     p \<leftarrow> cast_global P; Some (Some (Pred_Global (global_adjust_lease delta mn mx p))) }"

primrec cast_perL2 :: "predictor option \<Rightarrow> pred_perL2 option" where
  "cast_perL2 None = None"
| "cast_perL2 (Some q) = (case q of Pred_PerL2 p \<Rightarrow> Some p | _ \<Rightarrow> None)"

definition get_pred_perL2_lifetime :: "cl_config \<Rightarrow> int \<Rightarrow> predictor option \<Rightarrow> (Time \<times> predictor option) option" where
  "get_pred_perL2_lifetime c bank P = do {
     p \<leftarrow> cast_perL2 P; (t, p) \<leftarrow> perL2_lifetime c bank p; Some (t, Some (Pred_PerL2 p)) }"

definition pred_perL2_decrease_lease :: "int \<Rightarrow> int \<Rightarrow> int \<Rightarrow> int \<Rightarrow> predictor option \<Rightarrow> predictor option option" where
  "pred_perL2_decrease_lease bank delta mn mx P = do {
     p \<leftarrow> cast_perL2 P; p \<leftarrow> perL2_adjust_lease bank (- delta) mn mx p; Some (Some (Pred_PerL2 p)) }"

definition pred_perL2_increase_lease :: "int \<Rightarrow> int \<Rightarrow> int \<Rightarrow> int \<Rightarrow> predictor option \<Rightarrow> predictor option option" where
  "pred_perL2_increase_lease bank delta mn mx P = do {
     p \<leftarrow> cast_perL2 P; p \<leftarrow> perL2_adjust_lease bank delta mn mx p; Some (Some (Pred_PerL2 p)) }"

definition pred_perL2_decrease_lease_all :: "int \<Rightarrow> int \<Rightarrow> int \<Rightarrow> predictor option \<Rightarrow> predictor option option" where
  "pred_perL2_decrease_lease_all delta mn mx P = do {
     p \<leftarrow> cast_perL2 P; p \<leftarrow> perL2_adjust_lease_all (- delta) mn mx p; Some (Some (Pred_PerL2 p)) }"

definition pred_perL2_increase_lease_all :: "int \<Rightarrow> int \<Rightarrow> int \<Rightarrow> predictor option \<Rightarrow> predictor option option" where
  "pred_perL2_increase_lease_all delta mn mx P = do {
     p \<leftarrow> cast_perL2 P; p \<leftarrow> perL2_adjust_lease_all delta mn mx p; Some (Some (Pred_PerL2 p)) }"

primrec cast_pcadaptive :: "predictor option \<Rightarrow> pred_pcadaptive option" where
  "cast_pcadaptive None = None"
| "cast_pcadaptive (Some q) = (case q of Pred_PCAdaptive p \<Rightarrow> Some p | _ \<Rightarrow> None)"

definition get_pred_pcadaptive_lifetime :: "cl_config \<Rightarrow> int \<Rightarrow> int \<Rightarrow> predictor option \<Rightarrow> (Time \<times> predictor option) option" where
  "get_pred_pcadaptive_lifetime c pc core_id P = do {
     p \<leftarrow> cast_pcadaptive P; (t, p) \<leftarrow> pcadaptive_lifetime c pc core_id p; Some (t, Some (Pred_PCAdaptive p)) }"

definition pred_pcadaptive_expiredhit :: "cl_config \<Rightarrow> IntPair list \<Rightarrow> IntPair \<Rightarrow> predictor option \<Rightarrow> predictor option option" where
  "pred_pcadaptive_expiredhit c pcsharers reader P = do {
     p \<leftarrow> cast_pcadaptive P; p \<leftarrow> expiredhit c pcsharers reader p; Some (Some (Pred_PCAdaptive p)) }"

definition pred_pcadaptive_unexpiredwrite :: "cl_config \<Rightarrow> IntPair list \<Rightarrow> IntPair \<Rightarrow> predictor option \<Rightarrow> predictor option option" where
  "pred_pcadaptive_unexpiredwrite c pcsharers writer P = do {
     p \<leftarrow> cast_pcadaptive P; p \<leftarrow> unexpiredwrite c pcsharers writer p; Some (Some (Pred_PCAdaptive p)) }"

definition pred_pcadaptive_unexpiredatomic :: "cl_config \<Rightarrow> IntPair list \<Rightarrow> IntPair \<Rightarrow> predictor option \<Rightarrow> predictor option option" where
  "pred_pcadaptive_unexpiredatomic c pcsharers writer P = do {
     p \<leftarrow> cast_pcadaptive P; p \<leftarrow> unexpiredatomic c pcsharers writer p; Some (Some (Pred_PCAdaptive p)) }"

definition pred_pcadaptive_l2evict :: "cl_config \<Rightarrow> IntPair list \<Rightarrow> predictor option \<Rightarrow> predictor option option" where
  "pred_pcadaptive_l2evict c pcsharers P = do {
     p \<leftarrow> cast_pcadaptive P; p \<leftarrow> l2evict c pcsharers p; Some (Some (Pred_PCAdaptive p)) }"

definition get_pred_PCfixed_lifetime :: "cl_config \<Rightarrow> int \<Rightarrow> predictor option \<Rightarrow> (Time \<times> predictor option) option" where
  "get_pred_PCfixed_lifetime c pc P = (case P of Some (Pred_PCfixed p) \<Rightarrow>
     do { (t, p) \<leftarrow> pcfixed_lifetime c pc p; Some (t, Some (Pred_PCfixed p)) } | _ \<Rightarrow> None)"

definition get_pred_Addrfixed_lifetime :: "cl_config \<Rightarrow> int \<Rightarrow> predictor option \<Rightarrow> (Time \<times> predictor option) option" where
  "get_pred_Addrfixed_lifetime c addr P = (case P of Some (Pred_Addrfixed p) \<Rightarrow>
     do { (t, p) \<leftarrow> addrfixed_lifetime c addr p; Some (t, Some (Pred_Addrfixed p)) } | _ \<Rightarrow> None)"

primrec cast_pcsampler :: "predictor option \<Rightarrow> pred_pcsampler option" where
  "cast_pcsampler None = None"
| "cast_pcsampler (Some q) = (case q of Pred_PCSampler p \<Rightarrow> Some p | _ \<Rightarrow> None)"

definition get_pred_pcsampler_lifetime :: "cl_config \<Rightarrow> int \<Rightarrow> predictor option \<Rightarrow> (Time \<times> predictor option) option" where
  "get_pred_pcsampler_lifetime c pc P = do {
     p \<leftarrow> cast_pcsampler P; (t, p) \<leftarrow> pcsampler_lifetime c pc p; Some (t, Some (Pred_PCSampler p)) }"

definition pred_pcsampler_addloadpc :: "Time \<Rightarrow> int \<Rightarrow> int \<Rightarrow> predictor option \<Rightarrow> predictor option option" where
  "pred_pcsampler_addloadpc access_time address pc P = do {
     p \<leftarrow> cast_pcsampler P; Some (Some (Pred_PCSampler (addLoadPC access_time address pc p))) }"

definition pred_pcsampler_endlifetime :: "cl_config \<Rightarrow> Time \<Rightarrow> int \<Rightarrow> predictor option \<Rightarrow> predictor option option" where
  "pred_pcsampler_endlifetime c access_time address P = do {
     p \<leftarrow> cast_pcsampler P; p \<leftarrow> endLifetime c access_time address p; Some (Some (Pred_PCSampler p)) }"

definition pred_pcsampler_expiredloadhit :: "Time \<Rightarrow> int \<Rightarrow> int \<Rightarrow> predictor option \<Rightarrow> predictor option option" where
  "pred_pcsampler_expiredloadhit access_time address pc P = do {
     p \<leftarrow> cast_pcsampler P; Some (Some (Pred_PCSampler (expiredLoadHit access_time address pc p))) }"

primrec cast_tardisdec :: "predictor option \<Rightarrow> pred_tardis option" where
  "cast_tardisdec None = None"
| "cast_tardisdec (Some q) = (case q of Pred_TardisDec p \<Rightarrow> Some p | _ \<Rightarrow> None)"

definition get_pred_tardisdec_lifetime :: "predictor option \<Rightarrow> Time option" where
  "get_pred_tardisdec_lifetime P = map_option tardisdec_lifetime (cast_tardisdec P)"

definition pred_tardisdec_load :: "Time \<Rightarrow> predictor option \<Rightarrow> Time option" where
  "pred_tardisdec_load pred_lease P = do { p \<leftarrow> cast_tardisdec P; tardisdec_load pred_lease p }"

definition pred_tardisdec_writeatomic :: "Time \<Rightarrow> predictor option \<Rightarrow> Time option" where
  "pred_tardisdec_writeatomic pred_lease P = map_option (tardisdec_writeatomic pred_lease) (cast_tardisdec P)"

primrec cast_tardisinc :: "predictor option \<Rightarrow> pred_tardis option" where
  "cast_tardisinc None = None"
| "cast_tardisinc (Some q) = (case q of Pred_TardisInc p \<Rightarrow> Some p | _ \<Rightarrow> None)"

definition get_pred_tardisinc_lifetime :: "predictor option \<Rightarrow> Time option" where
  "get_pred_tardisinc_lifetime P = map_option tardisinc_lifetime (cast_tardisinc P)"

definition pred_tardisinc_load :: "Time \<Rightarrow> predictor option \<Rightarrow> Time option" where
  "pred_tardisinc_load pred_lease P = do { p \<leftarrow> cast_tardisinc P; tardisinc_load pred_lease p }"

definition pred_tardisinc_writeatomic :: "Time \<Rightarrow> predictor option \<Rightarrow> Time option" where
  "pred_tardisinc_writeatomic pred_lease P = map_option (tardisinc_writeatomic pred_lease) (cast_tardisinc P)"

primrec cast_tardispc :: "predictor option \<Rightarrow> pred_tardispc option" where
  "cast_tardispc None = None"
| "cast_tardispc (Some q) = (case q of Pred_TardisPCAdaptive p \<Rightarrow> Some p | _ \<Rightarrow> None)"

definition get_pred_tardispcadaptive_lifetime :: "cl_config \<Rightarrow> int \<Rightarrow> predictor option \<Rightarrow> (Time \<times> predictor option) option" where
  "get_pred_tardispcadaptive_lifetime c pc P = do {
     p \<leftarrow> cast_tardispc P; (t, p) \<leftarrow> tardispc_lifetime c pc p; Some (t, Some (Pred_TardisPCAdaptive p)) }"

definition pred_tardispcadaptive_load :: "int \<Rightarrow> predictor option \<Rightarrow> predictor option option" where
  "pred_tardispcadaptive_load pc P = do {
     p \<leftarrow> cast_tardispc P; p \<leftarrow> tardispc_load pc p; Some (Some (Pred_TardisPCAdaptive p)) }"

definition pred_tardispcadaptive_writeatomic :: "int \<Rightarrow> predictor option \<Rightarrow> predictor option option" where
  "pred_tardispcadaptive_writeatomic pc P = do {
     p \<leftarrow> cast_tardispc P; p \<leftarrow> tardispc_writeatomic pc p; Some (Some (Pred_TardisPCAdaptive p)) }"

section \<open>Bounded leases\<close>

text \<open>The contract of a predictor with bounds: calls keep its state well formed, and in a well
  formed state every lease it would hand out lies between the bounds.\<close>

locale bounded_leases =
  fixes ok :: "'s \<Rightarrow> bool" and call :: "'i \<Rightarrow> 's \<Rightarrow> 's option" and lease :: "'k \<Rightarrow> 's \<Rightarrow> Time option"
    and lo hi :: Time
  assumes call_ok: "\<lbrakk> ok s; call i s = Some s' \<rbrakk> \<Longrightarrow> ok s'"
    and lease_in: "\<lbrakk> ok s; lease k s = Some t \<rbrakk> \<Longrightarrow> lo \<le> t \<and> t \<le> hi"
begin

lemma leases_in:
  assumes "ok s" "run_all call is s = Some s'" "lease k s' = Some t"
  shows "lo \<le> t \<and> t \<le> hi"
proof -
  have "ok s'" by (rule run_all_invariant [of "is" ok call s]) (use assms call_ok in auto)
  then show ?thesis using lease_in assms(3) by blast
qed

end

subsection \<open>Sampled lifetimes\<close>

datatype sampler_call = Smp_lifetime int | Smp_addLoadPC Time int int | Smp_endLifetime Time int

primrec sampler_step :: "cl_config \<Rightarrow> sampler_call \<Rightarrow> pred_pcsampler \<Rightarrow> pred_pcsampler option" where
  "sampler_step c (Smp_lifetime pc) p = map_option snd (pcsampler_lifetime c pc p)"
| "sampler_step c (Smp_addLoadPC t a pc) p = Some (addLoadPC t a pc p)"
| "sampler_step c (Smp_endLifetime t a) p = endLifetime c t a p"

definition predicted :: "int \<Rightarrow> pred_pcsampler \<Rightarrow> Time option" where
  "predicted pc p = map_option m_prediction_lifetime (m_prediction_table p pc)"

definition sampler_ok :: "cl_config \<Rightarrow> pred_pcsampler \<Rightarrow> bool" where
  "sampler_ok c p \<longleftrightarrow> m_max_lifetime p = 20000 \<and> CL_FIXED_LEASE c \<le> 20000 \<and>
     (\<forall>pc. pred_option (\<lambda>t. CL_FIXED_LEASE c \<le> t \<and> t \<le> 20000) (predicted pc p))"

lemma sampler_ok_predicted:
  "\<lbrakk> sampler_ok c p; predicted pc p = Some t \<rbrakk> \<Longrightarrow> CL_FIXED_LEASE c \<le> t \<and> t \<le> 20000"
  unfolding sampler_ok_def by (metis option.pred_inject(2))

text \<open>The effect of one observed lifetime: the prediction moves one step towards it and is kept
  between the bounds.\<close>

definition step_towards :: "cl_config \<Rightarrow> Time \<Rightarrow> Time \<Rightarrow> Time" where
  "step_towards c lifetime t =
     (let t' = (if t > lifetime then t - 1 else if t < lifetime then t + 1 else t)
      in if t' = t then t else if t' > 20000 then 20000 else if t' < CL_FIXED_LEASE c then CL_FIXED_LEASE c else t')"

lemma update_from_end:
  assumes "m_max_lifetime p = 20000" "predicted pc p = Some t"
  obtains p' where "updatePredictorFromLifetimeEnd c pc lifetime p = Some p'"
    "\<And>q. predicted q p' = (if q = pc then Some (step_towards c lifetime t) else predicted q p)"
    "m_sampler_table p' = m_sampler_table p" "m_max_lifetime p' = 20000"
proof -
  obtain i where i: "m_prediction_table p pc = Some i" "m_prediction_lifetime i = t"
    using assms(2) by (auto simp: predicted_def)
  show thesis
    using i assms(1) that [of "the (updatePredictorFromLifetimeEnd c pc lifetime p)"]
    by (auto simp: updatePredictorFromLifetimeEnd_def updatePredictionTime_def count_update_def
      predicted_def step_towards_def Let_def)
qed

lemma update_from_end_untracked:
  "predicted pc p = None \<Longrightarrow> updatePredictorFromLifetimeEnd c pc lifetime p = None"
  by (simp add: updatePredictorFromLifetimeEnd_def predicted_def)

lemma sampler_ok_update:
  assumes "sampler_ok c p" "updatePredictorFromLifetimeEnd c pc lifetime p = Some p'"
  shows "sampler_ok c p'"
proof -
  obtain t where t: "predicted pc p = Some t"
    using assms(2) update_from_end_untracked [of pc p c lifetime] by fastforce
  have mx: "m_max_lifetime p = 20000" using assms(1) by (simp add: sampler_ok_def)
  have "CL_FIXED_LEASE c \<le> 20000" using assms(1) by (simp add: sampler_ok_def)
  then have "CL_FIXED_LEASE c \<le> step_towards c lifetime t \<and> step_towards c lifetime t \<le> 20000"
    using sampler_ok_predicted [OF assms(1) t] by (simp add: step_towards_def Let_def)
  moreover obtain p1 where "updatePredictorFromLifetimeEnd c pc lifetime p = Some p1"
    "\<And>q. predicted q p1 = (if q = pc then Some (step_towards c lifetime t) else predicted q p)"
    "m_max_lifetime p1 = 20000"
    by (rule update_from_end [OF mx t, of c lifetime]) blast
  ultimately show ?thesis using assms by (simp add: sampler_ok_def)
qed

lemma sampler_ok_step:
  assumes "sampler_ok c p" "sampler_step c i p = Some p'"
  shows "sampler_ok c p'"
proof (cases i)
  case (Smp_lifetime pc)
  then show ?thesis using assms
    by (auto simp: pcsampler_lifetime_def Let_def abort_simps sampler_ok_def predicted_def split: if_splits)
next
  case (Smp_addLoadPC t a pc)
  then show ?thesis using assms
    by (auto simp: addLoadPC_def sampler_ok_def predicted_def split: option.splits)
next
  case (Smp_endLifetime t a)
  show ?thesis
  proof (cases "m_sampler_table p a")
    case None
    then show ?thesis using Smp_endLifetime assms by (simp add: endLifetime_def)
  next
    case (Some starts)
    let ?upd = "\<lambda>(pc, start) p. do { assert_that (t - start \<ge> 0);
      updatePredictorFromLifetimeEnd c pc (t - start) p }"
    obtain q where q: "run_all ?upd starts p = Some q" "p' = q\<lparr>m_sampler_table := (m_sampler_table q)(a := None)\<rparr>"
      using Smp_endLifetime Some assms(2) by (auto simp: endLifetime_def abort_simps)
    have "sampler_ok c q"
      by (rule run_all_invariant [of starts "sampler_ok c" ?upd p])
        (use q(1) assms(1) sampler_ok_update in \<open>auto simp: abort_simps\<close>)
    then show ?thesis using q(2) by (simp add: sampler_ok_def predicted_def)
  qed
qed

interpretation sampler: bounded_leases "sampler_ok c" "sampler_step c" predicted "CL_FIXED_LEASE c" 20000 for c
  by unfold_locales (rule sampler_ok_step sampler_ok_predicted, assumption+)+

text \<open>One life of a block: a load at time \<open>t\<close>, and its end \<open>lifetime\<close> later.\<close>

definition one_life :: "cl_config \<Rightarrow> int \<Rightarrow> Time \<Rightarrow> int \<times> Time \<Rightarrow> pred_pcsampler \<Rightarrow> pred_pcsampler option" where
  "one_life c pc lifetime = (\<lambda>(a, t) p. endLifetime c (t + lifetime) a (addLoadPC t a pc p))"

lemma one_life_law:
  assumes "m_max_lifetime p = 20000" "predicted pc p = Some x" "m_sampler_table p a = None" "0 \<le> lifetime"
  obtains p' where "one_life c pc lifetime (a, t) p = Some p'" "predicted pc p' = Some (step_towards c lifetime x)"
    "m_sampler_table p' = m_sampler_table p" "m_max_lifetime p' = 20000"
proof -
  let ?p = "p\<lparr>m_sampler_table := (m_sampler_table p)(a \<mapsto> [(pc, t)])\<rparr>"
  have q: "m_max_lifetime ?p = 20000" "predicted pc ?p = Some x" using assms(1,2) by (simp_all add: predicted_def)
  obtain p1 where p1: "updatePredictorFromLifetimeEnd c pc lifetime ?p = Some p1"
    "\<And>q. predicted q p1 = (if q = pc then Some (step_towards c lifetime x) else predicted q ?p)"
    "m_sampler_table p1 = m_sampler_table ?p" "m_max_lifetime p1 = 20000"
    by (rule update_from_end [OF q, of c lifetime]) blast
  have "m_sampler_table p = (m_sampler_table p)(a := None)" using assms(3) by (simp add: fun_upd_idem)
  then show thesis
    using p1 assms(3,4) that [of "p1\<lparr>m_sampler_table := (m_sampler_table p1)(a := None)\<rparr>"]
    by (simp add: one_life_def addLoadPC_def endLifetime_def predicted_def)
qed

lemma step_towards_distance:
  assumes "CL_FIXED_LEASE c \<le> lifetime" "lifetime \<le> 20000" "CL_FIXED_LEASE c \<le> t" "t \<le> 20000"
  shows "nat \<bar>step_towards c lifetime t - lifetime\<bar> = nat \<bar>t - lifetime\<bar> - 1"
    and "CL_FIXED_LEASE c \<le> step_towards c lifetime t" "step_towards c lifetime t \<le> 20000"
  using assms by (auto simp: step_towards_def Let_def)

text \<open>C26. The sampling predictor converges: once an instruction is tracked, when every block it loads
  lives for the same time between the fixed lease and the maximum, then after as many such lives as
  the prediction is away from that lifetime, and however many more, the prediction is exactly the
  lifetime; none of the calls aborts.\<close>

theorem pcsampler_converges:
  assumes "sampler_ok c p" "predicted pc p = Some x"
    and "0 \<le> lifetime" "CL_FIXED_LEASE c \<le> lifetime" "lifetime \<le> 20000"
    and "\<forall>(a, t)\<in>set lives. m_sampler_table p a = None" "\<bar>x - lifetime\<bar> \<le> int (length lives)"
  shows "\<exists>p'. run_all (one_life c pc lifetime) lives p = Some p' \<and> predicted pc p' = Some lifetime"
proof -
  have "m_max_lifetime p = 20000" "CL_FIXED_LEASE c \<le> x" "x \<le> 20000" "nat \<bar>x - lifetime\<bar> \<le> length lives"
    using assms(1,7) sampler_ok_predicted [OF assms(1,2)] by (simp_all add: sampler_ok_def)
  then show ?thesis using assms(2,6)
  proof (induction lives arbitrary: p x)
    case Nil
    then show ?case by simp
  next
    case (Cons l lives)
    obtain a t where l: "l = (a, t)" by (cases l)
    obtain p1 where p1: "one_life c pc lifetime (a, t) p = Some p1" "predicted pc p1 = Some (step_towards c lifetime x)"
      "m_sampler_table p1 = m_sampler_table p" "m_max_lifetime p1 = 20000"
      by (rule one_life_law [of p pc x a lifetime c t]) (use Cons.prems l assms(3) in auto)
    note d = step_towards_distance [OF assms(4,5) Cons.prems(2,3)]
    have n: "nat \<bar>step_towards c lifetime x - lifetime\<bar> \<le> length lives"
      using d(1) Cons.prems(4) unfolding length_Cons by arith
    have "\<exists>p'. run_all (one_life c pc lifetime) lives p1 = Some p' \<and> predicted pc p' = Some lifetime"
      by (rule Cons.IH [OF p1(4) d(2,3) n p1(2)]) (use p1(3) Cons.prems(6) in simp)
    then show ?case using p1(1) l by simp
  qed
qed

definition sample_cl :: cl_config where
  "sample_cl = \<lparr>CL_FIXED_LEASE = 10, CL_PREDICTOR_TYPE = 7, CL_PREDICTOR_TYPE_FIXED = 0,
     CL_PREDICTOR_TYPE_GLOBAL = 1, CL_PREDICTOR_TYPE_PERL2 = 2, CL_PREDICTOR_TYPE_PCFIXED = 3,
     CL_PREDICTOR_TYPE_PCADAPTIVE = 4, CL_PREDICTOR_TYPE_ADDRFIXED = 5, CL_PREDICTOR_TYPE_ORACLE = 6,
     CL_PREDICTOR_TYPE_PCSAMPLER = 7, CL_PREDICTOR_TYPE_TARDISDEC = 8, CL_PREDICTOR_TYPE_TARDISINC = 9,
     CL_PREDICTOR_TYPE_TARDISPCADAPTIVE = 10, CL_PRED_PCADAPTIVE_WRITEUNEXPIRED_PENALTY = 5,
     CL_PRED_PCADAPTIVE_L2EVICT_PENALTY = 2, CL_PRED_PCADAPTIVE_EXPIREHIT_CREDIT = 1,
     CL_PRED_TARDISDEC_MIN = 4, CL_PRED_TARDISDEC_MAX = 64, CL_PRED_TARDISDEC_SHIFT = 1,
     CL_PRED_TARDISINC_MIN = 4, CL_PRED_TARDISINC_MAX = 64, CL_PRED_TARDISINC_SHIFT = 1,
     CL_PRED_TARDISPCADAPTIVE_MIN = 4, CL_PRED_TARDISPCADAPTIVE_MAX = 64, CL_PRED_TARDISPCADAPTIVE_SHIFT = 1\<rparr>"

definition sample_sampler :: pred_pcsampler where
  "sample_sampler = \<lparr>m_prediction_table = [3 \<mapsto> \<lparr>m_prediction_lifetime = 10, m_updates = 0, m_sat_counter = 0\<rparr>],
     m_sampler_table = Map.empty, m_max_lifetime = 20000\<rparr>"

lemma pcsampler_converges_witness:
  "\<exists>p'. run_all (one_life sample_cl 3 12) [(64, 100), (128, 150), (64, 200)] sample_sampler = Some p' \<and>
    predicted 3 p' = Some 12"
  by (rule pcsampler_converges [of _ _ _ 10])
    (simp_all add: sampler_ok_def predicted_def sample_cl_def sample_sampler_def)

subsection \<open>Leases that double and collapse\<close>

datatype tardispc_call = Tpc_lifetime int | Tpc_load int | Tpc_writeatomic int

primrec tardispc_step :: "cl_config \<Rightarrow> tardispc_call \<Rightarrow> pred_tardispc \<Rightarrow> pred_tardispc option" where
  "tardispc_step c (Tpc_lifetime pc) p = map_option snd (tardispc_lifetime c pc p)"
| "tardispc_step c (Tpc_load pc) p = tardispc_load pc p"
| "tardispc_step c (Tpc_writeatomic pc) p = tardispc_writeatomic pc p"

definition tardispc_ok :: "cl_config \<Rightarrow> pred_tardispc \<Rightarrow> bool" where
  "tardispc_ok c p \<longleftrightarrow> tpc_min p = CL_PRED_TARDISPCADAPTIVE_MIN c \<and> tpc_max p = CL_PRED_TARDISPCADAPTIVE_MAX c \<and>
     tpc_shift p = CL_PRED_TARDISPCADAPTIVE_SHIFT c \<and> 0 \<le> tpc_min p \<and> tpc_min p \<le> tpc_max p \<and>
     (\<forall>pc t. tpc_leases p pc = Some t \<longrightarrow> tpc_min p \<le> t \<and> t \<le> tpc_max p)"

lemma shl_Some: "shl w x k = Some y \<Longrightarrow> 0 \<le> x \<Longrightarrow> x \<le> y"
proof -
  assume "shl w x k = Some y" "0 \<le> x"
  then have "y = x * 2 ^ nat k" by (auto simp: shl_def abort_simps)
  moreover have "x * 1 \<le> x * 2 ^ nat k" using \<open>0 \<le> x\<close> by (intro mult_left_mono) auto
  ultimately show "x \<le> y" by simp
qed

lemma tardispc_ok_upd:
  assumes "tardispc_ok c p" "tpc_min p \<le> t" "t \<le> tpc_max p"
  shows "tardispc_ok c (p\<lparr>tpc_leases := (tpc_leases p)(pc \<mapsto> t)\<rparr>)"
  using assms unfolding tardispc_ok_def by auto

lemma tardispc_ok_step:
  assumes "tardispc_ok c p" "tardispc_step c i p = Some p'"
  shows "tardispc_ok c p'"
proof (cases i)
  case (Tpc_lifetime pc)
  have "tardispc_ok c (p\<lparr>tpc_leases := (tpc_leases p)(pc \<mapsto> tpc_min p)\<rparr>)"
    using assms(1) by (intro tardispc_ok_upd) (auto simp: tardispc_ok_def)
  then show ?thesis using Tpc_lifetime assms
    by (auto simp: tardispc_lifetime_def Let_def abort_simps split: if_splits)
next
  case (Tpc_load pc)
  then obtain x y where x: "tpc_leases p pc = Some x" "shl 32 x (tpc_shift p) = Some y"
    "p' = p\<lparr>tpc_leases := (tpc_leases p)(pc \<mapsto> if y > tpc_max p then tpc_max p else y)\<rparr>"
    using assms(2) by (auto simp: tardispc_load_def abort_simps)
  have "tpc_min p \<le> x" "0 \<le> tpc_min p" "tpc_min p \<le> tpc_max p" using assms(1) x(1) by (auto simp: tardispc_ok_def)
  then show ?thesis using shl_Some [OF x(2)] unfolding x(3) by (intro tardispc_ok_upd assms(1)) auto
next
  case (Tpc_writeatomic pc)
  then obtain x where x: "tpc_leases p pc = Some x"
    "p' = p\<lparr>tpc_leases := (tpc_leases p)(pc \<mapsto> if x div 2 ^ nat (tpc_shift p) < tpc_min p then tpc_min p
       else x div 2 ^ nat (tpc_shift p))\<rparr>"
    using assms(2) by (auto simp: tardispc_writeatomic_def Let_def abort_simps)
  have b: "tpc_min p \<le> x" "x \<le> tpc_max p" "0 \<le> tpc_min p" "tpc_min p \<le> tpc_max p"
    using assms(1) x(1) by (auto simp: tardispc_ok_def)
  have "x div 2 ^ nat (tpc_shift p) \<le> x div 1" using b by (intro zdiv_mono2) auto
  then show ?thesis using b unfolding x(2) by (intro tardispc_ok_upd assms(1)) auto
qed

interpretation tardispc: bounded_leases "tardispc_ok c" "tardispc_step c" "\<lambda>pc p. tpc_leases p pc"
  "CL_PRED_TARDISPCADAPTIVE_MIN c" "CL_PRED_TARDISPCADAPTIVE_MAX c" for c
  by unfold_locales (rule tardispc_ok_step, assumption+, auto simp: tardispc_ok_def)

text \<open>The leases of the adaptive Tardis predictor stay between the configured bounds: from the
  constructor on, after any sequence of lease requests, loads and writes that the code accepts, the
  lease of every tracked instruction is at least the minimum and at most the maximum; and as long as
  doubling the maximum fits the type, the next load or write of a tracked instruction is accepted.\<close>

theorem tardispc_leases_bounded:
  assumes "0 \<le> CL_PRED_TARDISPCADAPTIVE_MIN c" "CL_PRED_TARDISPCADAPTIVE_MIN c \<le> CL_PRED_TARDISPCADAPTIVE_MAX c"
    and "run_all (tardispc_step c) calls (TCpredictorTardisPCAdaptive_new c) = Some p"
    and "tpc_leases p pc = Some t"
  shows "CL_PRED_TARDISPCADAPTIVE_MIN c \<le> t \<and> t \<le> CL_PRED_TARDISPCADAPTIVE_MAX c \<and>
    (0 \<le> CL_PRED_TARDISPCADAPTIVE_SHIFT c \<and> CL_PRED_TARDISPCADAPTIVE_SHIFT c < 32 \<and>
     CL_PRED_TARDISPCADAPTIVE_MAX c * 2 ^ nat (CL_PRED_TARDISPCADAPTIVE_SHIFT c) < 2 ^ 31 \<longrightarrow>
       tardispc_load pc p \<noteq> None \<and> tardispc_writeatomic pc p \<noteq> None)"
proof -
  have new: "tardispc_ok c (TCpredictorTardisPCAdaptive_new c)"
    using assms(1,2) by (simp add: tardispc_ok_def TCpredictorTardisPCAdaptive_new_def)
  have "tardispc_ok c p"
    by (rule run_all_invariant [of calls "tardispc_ok c" "tardispc_step c"]) (use new assms(3) tardispc_ok_step in auto)
  then have sh: "tpc_shift p = CL_PRED_TARDISPCADAPTIVE_SHIFT c" by (simp add: tardispc_ok_def)
  have b: "CL_PRED_TARDISPCADAPTIVE_MIN c \<le> t \<and> t \<le> CL_PRED_TARDISPCADAPTIVE_MAX c"
    by (rule tardispc.leases_in [OF new assms(3,4)])
  then have "t * 2 ^ nat (tpc_shift p) \<le> CL_PRED_TARDISPCADAPTIVE_MAX c * 2 ^ nat (tpc_shift p)"
    by (intro mult_right_mono) auto
  then have fits: "t * 2 ^ nat (tpc_shift p) < 2 ^ 31"
    if "CL_PRED_TARDISPCADAPTIVE_MAX c * 2 ^ nat (CL_PRED_TARDISPCADAPTIVE_SHIFT c) < 2 ^ 31"
    using that unfolding sh by (rule le_less_trans)
  have "tardispc_load pc p \<noteq> None \<and> tardispc_writeatomic pc p \<noteq> None"
    if "0 \<le> tpc_shift p" "tpc_shift p < 32" "t * 2 ^ nat (tpc_shift p) < 2 ^ 31"
    using that b assms(1,4) by (simp add: tardispc_load_def tardispc_writeatomic_def shl_def Let_def)
  then show ?thesis using b fits unfolding sh by blast
qed

definition sample_tardispc :: pred_tardispc where
  "sample_tardispc = \<lparr>tpc_min = 4, tpc_max = 64, tpc_shift = 1, tpc_leases = [9 \<mapsto> 8]\<rparr>"

lemma tardispc_leases_bounded_witness:
  "tardispc_load 9 sample_tardispc \<noteq> None \<and> tardispc_writeatomic 9 sample_tardispc \<noteq> None"
proof -
  have "run_all (tardispc_step (sample_cl\<lparr>CL_PREDICTOR_TYPE := 10\<rparr>)) [Tpc_lifetime 9, Tpc_load 9]
      (TCpredictorTardisPCAdaptive_new (sample_cl\<lparr>CL_PREDICTOR_TYPE := 10\<rparr>)) = Some sample_tardispc"
    by (simp add: TCpredictorTardisPCAdaptive_new_def sample_cl_def tardispc_lifetime_def tardispc_load_def
      shl_def sample_tardispc_def Let_def)
  from tardispc_leases_bounded [OF _ _ this, of 9 8] show ?thesis
    by (simp add: sample_cl_def sample_tardispc_def)
qed

subsection \<open>Writes do not hurt the writer\<close>

lemma run_penalise:
  assumes "distinct ks" "\<forall>k\<in>set ks. q k \<longrightarrow> p k \<noteq> None"
  shows "run_all (\<lambda>k p. if q k then penalise d k p else Some p) ks p =
    Some (\<lambda>k. if k \<in> set ks \<and> q k then map_option (\<lambda>t. max 0 (t - d)) (p k) else p k)"
  using assms
proof (induction ks arbitrary: p)
  case (Cons k ks)
  show ?case
  proof (cases "q k")
    case True
    then obtain t where t: "p k = Some t" using Cons.prems(2) by auto
    define p1 where "p1 = p(k \<mapsto> max 0 (t - d))"
    have "penalise d k p = Some p1" using t by (simp add: penalise_def max_def p1_def)
    moreover have "\<forall>k'\<in>set ks. q k' \<longrightarrow> p1 k' \<noteq> None" using Cons.prems by (auto simp: p1_def)
    moreover have "(\<lambda>k'. if k' \<in> set ks \<and> q k' then map_option (\<lambda>t. max 0 (t - d)) (p1 k') else p1 k') =
        (\<lambda>k'. if k' \<in> set (k # ks) \<and> q k' then map_option (\<lambda>t. max 0 (t - d)) (p k') else p k')"
      by (rule ext) (use Cons.prems(1) True t in \<open>auto simp: p1_def\<close>)
    ultimately show ?thesis using Cons.IH [of p1] Cons.prems(1) True by simp
  next
    case False
    then have "(\<lambda>k'. if k' \<in> set ks \<and> q k' then map_option (\<lambda>t. max 0 (t - d)) (p k') else p k') =
        (\<lambda>k'. if k' \<in> set (k # ks) \<and> q k' then map_option (\<lambda>t. max 0 (t - d)) (p k') else p k')"
      by (intro ext) auto
    then show ?thesis using Cons.IH [of p] Cons.prems False by simp
  qed
qed simp

text \<open>A write to an unexpired block shortens the leases of the other cores only: when every
  instruction and core that shares the block has asked for a lease before, the update succeeds, the
  lease of each sharer on another core goes down by the penalty, but not below zero, and the leases of
  the writing core and of all that do not share the block stay as they are.\<close>

theorem unexpiredwrite_spares_writer:
  assumes "distinct pcsharers" "\<forall>k\<in>set pcsharers. p k \<noteq> None"
  shows "unexpiredwrite c pcsharers writer p = Some (\<lambda>k.
    if k \<in> set pcsharers \<and> snd k \<noteq> snd writer
    then map_option (\<lambda>t. max 0 (t - CL_PRED_PCADAPTIVE_WRITEUNEXPIRED_PENALTY c)) (p k) else p k)"
  unfolding unexpiredwrite_def using assms by (intro run_penalise) auto

lemma unexpiredwrite_spares_writer_witness:
  "unexpiredwrite sample_cl [(1, 0), (2, 1)] (5, 0) [(1, 0) \<mapsto> 9, (2, 1) \<mapsto> 3] = Some [(1, 0) \<mapsto> 9, (2, 1) \<mapsto> 0]"
  using unexpiredwrite_spares_writer [of "[(1, 0), (2, 1)]" "[(1, 0) \<mapsto> 9, (2, 1) \<mapsto> 3]" sample_cl "(5, 0)"]
  by (auto simp: fun_eq_iff sample_cl_def)

subsection \<open>The lease of a bank\<close>

lemma adjusted_bounds:
  assumes "0 \<le> t" "\<bar>delta\<bar> \<le> d"
  shows "0 \<le> adjusted delta mn mx t" "0 < mx \<Longrightarrow> adjusted delta mn mx t \<le> max t (mx + d)"
    and "0 < mn \<Longrightarrow> min t (mn - d) \<le> adjusted delta mn mx t"
  using assms by (auto simp: adjusted_def Let_def)

text \<open>The one lease of the global predictor moves within its limits up to one step: over any
  sequence of adjustments by at most \<open>d\<close> with limits \<open>mn\<close> and \<open>mx\<close>, it never is negative, rises above
  the limit \<open>mx\<close> by at most \<open>d\<close> and falls below the limit \<open>mn\<close> by at most \<open>d\<close>, unless it began
  outside.\<close>

theorem global_lease_bounded:
  assumes "\<forall>delta\<in>set deltas. \<bar>delta\<bar> \<le> d" "0 \<le> g_lease p" "0 < mn" "0 < mx" "0 \<le> d"
  shows "(let t = g_lease (foldl (\<lambda>p delta. global_adjust_lease delta mn mx p) p deltas)
    in 0 \<le> t \<and> t \<le> max (g_lease p) (mx + d) \<and> min (g_lease p) (mn - d) \<le> t)"
  using assms(1,2)
proof (induction deltas arbitrary: p)
  case (Cons delta deltas)
  let ?p = "global_adjust_lease delta mn mx p"
  note b = adjusted_bounds [where t = "g_lease p" and delta = delta and d = d and mn = mn and mx = mx]
  have "\<bar>delta\<bar> \<le> d" using Cons.prems(1) by simp
  then have g: "0 \<le> g_lease ?p" "g_lease ?p \<le> max (g_lease p) (mx + d)" "min (g_lease p) (mn - d) \<le> g_lease ?p"
    using b Cons.prems(2) assms(3,4) by (auto simp: global_adjust_lease_def)
  then show ?case using Cons.IH [of ?p] Cons.prems(1) by (auto simp: Let_def)
qed (use assms(5) in auto)

lemma global_lease_bounded_witness:
  "(let t = g_lease (foldl (\<lambda>p delta. global_adjust_lease delta 100 900 p) \<lparr>g_lease = 800, g_stats_lease_requests = 0\<rparr> [64, 64, - 64])
    in 0 \<le> t \<and> t \<le> max 800 (900 + 64) \<and> min 800 (100 - 64) \<le> t)"
  using global_lease_bounded [of "[64, 64, - 64]" 64 "\<lparr>g_lease = 800, g_stats_lease_requests = 0\<rparr>" 100 900] by simp

end
