(* ===== verification/Shortest_Paths.thy ===== *)
theory Shortest_Paths
  imports Prelude
begin

text \<open>
  The all-pairs shortest paths of \<open>network/simple/Topology.C\<close>: \<open>extend_shortest_path\<close>,
  \<open>shortest_path\<close> and \<open>link_is_shortest_path_to_node\<close>.

  A \<open>Matrix\<close> is a list of rows.  The loop runs until a round changes nothing; whether it ends
  depends on the weights, so it is a partial function and \<open>None\<close> is a loop that does not return or
  a failed assertion.  The only caller passes three square matrices of one size, and all indices
  are below that size.

  The lemmas show that the loop returns for weights that are not negative, that the distances
  are those of shortest routes, that the latencies and the numbers of intermediate switches belong
  to a shortest route, and that every hop along a link of a shortest route is progress.
\<close>

type_synonym matrix = "int list list"

definition INFINITE_LATENCY :: int where
  "INFINITE_LATENCY = 10000"

definition mat :: "matrix \<Rightarrow> nat \<Rightarrow> nat \<Rightarrow> int" where
  "mat M i j = M ! i ! j"

definition mat_upd :: "matrix \<Rightarrow> nat \<Rightarrow> nat \<Rightarrow> int \<Rightarrow> matrix" where
  "mat_upd M i j v = M[i := (M ! i)[j := v]]"

section \<open>The program\<close>

text \<open>One iteration of the loop over the intermediate switches \<open>k\<close>.\<close>

definition sp_k :: "matrix \<Rightarrow> nat \<Rightarrow> nat \<Rightarrow> nat \<Rightarrow> int \<times> int \<times> matrix \<Rightarrow> int \<times> int \<times> matrix" where
  "sp_k current_dist i j k = (\<lambda>(minimum, intermediate_switch, inter_switches).
     let previous_minimum = minimum;
         minimum = min minimum (mat current_dist i k + mat current_dist k j)
     in if previous_minimum \<noteq> minimum
        then (minimum, int k, mat_upd inter_switches i j (mat inter_switches i k + mat inter_switches k j + 1))
        else (minimum, intermediate_switch, inter_switches))"

text \<open>The body of the loops over \<open>i\<close> and \<open>j\<close>.\<close>

definition sp_cell ::
  "nat \<times> nat \<Rightarrow> bool \<times> matrix \<times> matrix \<times> matrix \<Rightarrow> (bool \<times> matrix \<times> matrix \<times> matrix) option" where
  "sp_cell = (\<lambda>(i, j) (change, current_dist, latencies, inter_switches).
     let (minimum, intermediate_switch, inter_switches) =
       fold (sp_k current_dist i j) [0..<length current_dist] (mat current_dist i j, - 1, inter_switches)
     in if mat current_dist i j \<noteq> minimum
        then do {
          assert_that (intermediate_switch \<ge> 0);
          assert_that (intermediate_switch < int (length (latencies ! i)));
          Some (True, mat_upd current_dist i j minimum,
            mat_upd latencies i j
              (mat latencies i (nat intermediate_switch) + mat latencies (nat intermediate_switch) j),
            inter_switches) }
        else Some (change, current_dist, latencies, inter_switches))"

definition sp_round :: "matrix \<Rightarrow> matrix \<Rightarrow> matrix \<Rightarrow> (bool \<times> matrix \<times> matrix \<times> matrix) option" where
  "sp_round current_dist latencies inter_switches =
     run_all sp_cell (List.product [0..<length current_dist] [0..<length current_dist])
       (False, current_dist, latencies, inter_switches)"

partial_function (option) extend_shortest_path ::
  "matrix \<Rightarrow> matrix \<Rightarrow> matrix \<Rightarrow> (matrix \<times> matrix \<times> matrix) option" where
  "extend_shortest_path current_dist latencies inter_switches =
     (case sp_round current_dist latencies inter_switches of None \<Rightarrow> None
      | Some (change, current_dist, latencies, inter_switches) \<Rightarrow>
          if change then extend_shortest_path current_dist latencies inter_switches
          else Some (current_dist, latencies, inter_switches))"

declare extend_shortest_path.simps [code]

definition shortest_path :: "matrix \<Rightarrow> matrix \<Rightarrow> matrix \<Rightarrow> (matrix \<times> matrix \<times> matrix) option" where
  "shortest_path weights latencies inter_switches = extend_shortest_path weights latencies inter_switches"

definition link_is_shortest_path_to_node :: "nat \<Rightarrow> nat \<Rightarrow> nat \<Rightarrow> matrix \<Rightarrow> matrix \<Rightarrow> bool" where
  "link_is_shortest_path_to_node src next final weights dist \<longleftrightarrow>
     mat weights src next + mat dist next final = mat dist src final"

section \<open>Matrices\<close>

definition square :: "nat \<Rightarrow> matrix \<Rightarrow> bool" where
  "square n M \<longleftrightarrow> length M = n \<and> (\<forall>i<n. length (M ! i) = n)"

lemma square_row: "square n M \<Longrightarrow> i < n \<Longrightarrow> length (M ! i) = n"
  by (simp add: square_def)

lemma square_upd [simp]: "square n (mat_upd M i j v)" if "square n M"
proof -
  have "length (M[i := (M ! i)[j := v]] ! a) = n" if "a < n" for a
    using \<open>square n M\<close> that by (cases "a = i") (simp_all add: square_def)
  then show ?thesis using that by (simp add: square_def mat_upd_def)
qed

lemma mat_mat_upd:
  assumes "square n M" "i < n" "j < n"
  shows "mat (mat_upd M i j v) a b = (if a = i \<and> b = j then v else mat M a b)"
proof -
  have "i < length M" "j < length (M ! i)" using assms by (simp_all add: square_def)
  then show ?thesis by (cases "a = i"; cases "b = j") (simp_all add: mat_def mat_upd_def)
qed

lemma mat_upd_again [simp]: "mat_upd (mat_upd M i j v) i j w = mat_upd M i j w"
  by (cases "i < length M") (simp_all add: mat_upd_def list_update_beyond)

section \<open>Routes\<close>

text \<open>What a route from \<open>i\<close> to \<open>j\<close> through the switches \<open>ks\<close> adds up to.\<close>

primrec route_sum :: "matrix \<Rightarrow> nat \<Rightarrow> nat list \<Rightarrow> nat \<Rightarrow> int" where
  "route_sum M i [] j = mat M i j"
| "route_sum M i (k # ks) j = mat M i k + route_sum M k ks j"

lemma route_sum_append: "route_sum M i (ks @ k # ls) j = route_sum M i ks k + route_sum M k ls j"
  by (induction ks arbitrary: i) simp_all

definition weights_ok :: "nat \<Rightarrow> matrix \<Rightarrow> bool" where
  "weights_ok n W \<longleftrightarrow> square n W \<and>
     (\<forall>i<n. mat W i i = 0 \<and> (\<forall>j<n. 0 \<le> mat W i j \<and> mat W i j \<le> INFINITE_LATENCY))"

text \<open>The invariant of the loop: each distance is that of a route, and latency and switches are those
  of the same route where there is one.\<close>

definition on_route :: "nat \<Rightarrow> matrix \<Rightarrow> matrix \<Rightarrow> matrix \<times> matrix \<times> matrix \<Rightarrow> nat \<Rightarrow> nat \<Rightarrow> bool" where
  "on_route n W T s i j \<longleftrightarrow> (case s of (D, L, S) \<Rightarrow>
     mat D i j \<le> mat W i j \<and> (\<exists>ks. set ks \<subseteq> {..<n} \<and> mat D i j = route_sum W i ks j \<and>
       (i \<noteq> j \<and> mat D i j < INFINITE_LATENCY \<longrightarrow>
          mat L i j = route_sum T i ks j \<and> mat S i j = int (length ks))))"

definition sp_ok :: "nat \<Rightarrow> matrix \<Rightarrow> matrix \<Rightarrow> matrix \<times> matrix \<times> matrix \<Rightarrow> bool" where
  "sp_ok n W T s \<longleftrightarrow> (case s of (D, L, S) \<Rightarrow> square n D \<and> square n L \<and> square n S \<and>
     (\<forall>i<n. \<forall>j<n. on_route n W T s i j))"

lemma route_sum_nonneg:
  assumes "weights_ok n W" "i < n" "j < n" "set ks \<subseteq> {..<n}" shows "0 \<le> route_sum W i ks j"
  using assms(2,4)
proof (induction ks arbitrary: i)
  case Nil
  then show ?case using assms(1,3) by (simp add: weights_ok_def)
next
  case (Cons k ks)
  have "0 \<le> mat W i k" using Cons.prems assms(1) by (simp add: weights_ok_def)
  then show ?case using Cons.IH [of k] Cons.prems by simp
qed

lemma sp_ok_dist:
  assumes "weights_ok n W" "sp_ok n W T (D, L, S)" "i < n" "j < n"
  shows "0 \<le> mat D i j" "mat D i j \<le> mat W i j" "mat D i j \<le> INFINITE_LATENCY" "mat D i i = 0"
proof -
  have le: "mat D a b \<le> mat W a b" "0 \<le> mat D a b" if "a < n" "b < n" for a b
    using that assms(2) route_sum_nonneg [OF assms(1) that] unfolding sp_ok_def on_route_def by fastforce+
  show "0 \<le> mat D i j" "mat D i j \<le> mat W i j" using le assms(3,4) by auto
  show "mat D i j \<le> INFINITE_LATENCY" "mat D i i = 0"
    using le [OF assms(3,4)] le [OF assms(3,3)] assms(1,3,4) unfolding weights_ok_def by fastforce+
qed

section \<open>The loop over the intermediate switches\<close>

lemma sp_k_loop:
  assumes "square n D" "square n S" "i < n" "j < n" "set ks \<subseteq> {..<n}" "mat D i i = 0" "mat D j j = 0"
  shows "\<exists>m im S'. fold (sp_k D i j) ks (mat D i j, - 1, S) = (m, im, S') \<and>
    m \<le> mat D i j \<and> (\<forall>k\<in>set ks. m \<le> mat D i k + mat D k j) \<and>
    (m = mat D i j \<and> S' = S \<or>
     (\<exists>k\<in>set ks. k \<noteq> i \<and> k \<noteq> j \<and> im = int k \<and> m = mat D i k + mat D k j \<and> m < mat D i j \<and>
        S' = mat_upd S i j (mat S i k + mat S k j + 1)))"
  using assms(5)
proof (induction ks rule: rev_induct)
  case (snoc k ks)
  then obtain m im S' where IH: "fold (sp_k D i j) ks (mat D i j, - 1, S) = (m, im, S')"
      "m \<le> mat D i j" "\<forall>k\<in>set ks. m \<le> mat D i k + mat D k j"
      "m = mat D i j \<and> S' = S \<or>
       (\<exists>k\<in>set ks. k \<noteq> i \<and> k \<noteq> j \<and> im = int k \<and> m = mat D i k + mat D k j \<and> m < mat D i j \<and>
          S' = mat_upd S i j (mat S i k + mat S k j + 1))" by auto
  show ?case
  proof (cases "mat D i k + mat D k j < m")
    case True
    have k: "k \<noteq> i" "k \<noteq> j" using True IH(2) assms(6,7) by auto
    have S': "\<exists>v. S' = S \<or> S' = mat_upd S i j v" using IH(4) by blast
    then have "mat S' i k = mat S i k" "mat S' k j = mat S k j"
      using k mat_mat_upd [OF assms(2-4)] by auto
    moreover have "mat_upd S' i j v = mat_upd S i j v" for v using S' by auto
    ultimately have "fold (sp_k D i j) (ks @ [k]) (mat D i j, - 1, S) =
        (mat D i k + mat D k j, int k, mat_upd S i j (mat S i k + mat S k j + 1))"
      using True IH(1) by (simp add: sp_k_def min_def Let_def)
    then show ?thesis using True IH(2,3) k by fastforce
  next
    case False
    then have "fold (sp_k D i j) (ks @ [k]) (mat D i j, - 1, S) = (m, im, S')"
      using IH(1) by (simp add: sp_k_def min_def Let_def)
    then show ?thesis using False IH(2-4) by auto
  qed
qed simp

section \<open>One cell and one round\<close>

lemma sp_cell_cases:
  assumes "weights_ok n W" "sp_ok n W T (D, L, S)" "i < n" "j < n"
  obtains (same) "sp_cell (i, j) (c, D, L, S) = Some (c, D, L, S)"
      "\<forall>k<n. mat D i j \<le> mat D i k + mat D k j"
    | (less) k where "k < n" "k \<noteq> i" "k \<noteq> j" "i \<noteq> j" "mat D i k + mat D k j < mat D i j"
      "sp_cell (i, j) (c, D, L, S) = Some (True, mat_upd D i j (mat D i k + mat D k j),
         mat_upd L i j (mat L i k + mat L k j), mat_upd S i j (mat S i k + mat S k j + 1))"
proof -
  have sq: "square n D" "square n L" "square n S" using assms(2) by (auto simp: sp_ok_def)
  have dg: "mat D a a = 0" if "a < n" for a using sp_ok_dist [OF assms(1,2) that that] by simp
  have ks: "set [0..<length D] = {..<n}" using sq(1) by (auto simp: square_def)
  obtain m im S' where run: "fold (sp_k D i j) [0..<length D] (mat D i j, - 1, S) = (m, im, S')"
      "m \<le> mat D i j" "\<forall>k<n. m \<le> mat D i k + mat D k j"
      "m = mat D i j \<and> S' = S \<or>
       (\<exists>k<n. k \<noteq> i \<and> k \<noteq> j \<and> im = int k \<and> m = mat D i k + mat D k j \<and> m < mat D i j \<and>
          S' = mat_upd S i j (mat S i k + mat S k j + 1))"
    using sp_k_loop [OF sq(1,3) assms(3,4), of "[0..<length D]"] dg assms(3,4) unfolding ks by auto
  consider "m = mat D i j" "S' = S"
    | k where "k < n" "k \<noteq> i" "k \<noteq> j" "im = int k" "m = mat D i k + mat D k j" "m < mat D i j"
        "S' = mat_upd S i j (mat S i k + mat S k j + 1)" using run(4) by blast
  then show thesis
  proof cases
    case 1
    then show thesis using run(1,3) by (intro same) (simp_all add: sp_cell_def)
  next
    case (2 k)
    have "0 \<le> mat D i k" "0 \<le> mat D k j" using sp_ok_dist [OF assms(1,2)] 2(1) assms(3,4) by auto
    then have "i \<noteq> j" using 2(5,6) dg assms(3) by auto
    then show thesis using 2 run(1) square_row [OF sq(2) assms(3)] by (intro less [of k]) (simp_all add: sp_cell_def)
  qed
qed

lemma sp_cell_less_ok:
  assumes "weights_ok n W" "sp_ok n W T (D, L, S)" "i < n" "j < n"
    and "k < n" "k \<noteq> i" "k \<noteq> j" "mat D i k + mat D k j < mat D i j"
  shows "sp_ok n W T (mat_upd D i j (mat D i k + mat D k j), mat_upd L i j (mat L i k + mat L k j),
     mat_upd S i j (mat S i k + mat S k j + 1))"
proof -
  have sq: "square n D" "square n L" "square n S" using assms(2) by (auto simp: sp_ok_def)
  have old: "on_route n W T (D, L, S) a b" if "a < n" "b < n" for a b
    using assms(2) that by (simp add: sp_ok_def)
  obtain ks where ks: "set ks \<subseteq> {..<n}" "mat D i k = route_sum W i ks k"
      "mat D i k < INFINITE_LATENCY \<longrightarrow> mat L i k = route_sum T i ks k \<and> mat S i k = int (length ks)"
    using old [OF assms(3,5)] assms(6) by (auto simp: on_route_def)
  obtain ls where ls: "set ls \<subseteq> {..<n}" "mat D k j = route_sum W k ls j"
      "mat D k j < INFINITE_LATENCY \<longrightarrow> mat L k j = route_sum T k ls j \<and> mat S k j = int (length ls)"
    using old [OF assms(5,4)] assms(7) by (auto simp: on_route_def)
  have "0 \<le> mat D i k" "0 \<le> mat D k j" "mat D i j \<le> mat W i j" "mat D i j \<le> INFINITE_LATENCY"
    using sp_ok_dist [OF assms(1,2)] assms(3-5) by auto
  then have "mat D i k < INFINITE_LATENCY" "mat D k j < INFINITE_LATENCY" "mat D i k + mat D k j \<le> mat W i j"
    using assms(8) by linarith+
  moreover note upd = mat_mat_upd [OF sq(1) assms(3,4)] mat_mat_upd [OF sq(2) assms(3,4)] mat_mat_upd [OF sq(3) assms(3,4)]
  ultimately have new: "on_route n W T (mat_upd D i j (mat D i k + mat D k j), mat_upd L i j (mat L i k + mat L k j),
     mat_upd S i j (mat S i k + mat S k j + 1)) i j"
    using ks ls assms(5) unfolding on_route_def prod.case upd
    by (intro conjI exI [of _ "ks @ k # ls"]) (simp_all add: route_sum_append)
  have "on_route n W T (mat_upd D i j (mat D i k + mat D k j), mat_upd L i j (mat L i k + mat L k j),
     mat_upd S i j (mat S i k + mat S k j + 1)) a b" if "a < n" "b < n" for a b
  proof (cases "a = i \<and> b = j")
    case False
    then show ?thesis using old [OF that] unfolding on_route_def prod.case upd by (simp only: if_False)
  qed (use new in simp)
  then show ?thesis using sq unfolding sp_ok_def by simp
qed

definition smaller :: "nat \<Rightarrow> matrix \<Rightarrow> matrix \<Rightarrow> bool" where
  "smaller n M N \<longleftrightarrow> (\<forall>i<n. \<forall>j<n. mat M i j \<le> mat N i j)"

lemma sp_cells_run:
  assumes "weights_ok n W" "sp_ok n W T (D, L, S)" "set cells \<subseteq> {..<n} \<times> {..<n}"
  shows "\<exists>c' D' L' S'. run_all sp_cell cells (c, D, L, S) = Some (c', D', L', S') \<and>
    sp_ok n W T (D', L', S') \<and> smaller n D' D \<and> (c \<longrightarrow> c') \<and>
    (c' \<and> \<not> c \<longrightarrow> (\<exists>i<n. \<exists>j<n. mat D' i j < mat D i j)) \<and>
    (\<not> c' \<longrightarrow> D' = D \<and> L' = L \<and> S' = S \<and> (\<forall>(i, j)\<in>set cells. \<forall>k<n. mat D i j \<le> mat D i k + mat D k j))"
  using assms(2,3)
proof (induction cells arbitrary: c D L S)
  case Nil
  then show ?case by (auto simp: smaller_def)
next
  case (Cons ij cells)
  obtain i j where ij: "ij = (i, j)" "i < n" "j < n" using Cons.prems(2) by (cases ij) auto
  have cells: "set cells \<subseteq> {..<n} \<times> {..<n}" using Cons.prems(2) by simp
  show ?case
  proof (cases rule: sp_cell_cases [OF assms(1) Cons.prems(1) ij(2,3), of c, case_names same less])
    case same
    show ?thesis using Cons.IH [OF Cons.prems(1) cells, of c] same ij(1) by fastforce
  next
    case (less k)
    let ?D = "mat_upd D i j (mat D i k + mat D k j)"
    have ok: "sp_ok n W T (?D, mat_upd L i j (mat L i k + mat L k j), mat_upd S i j (mat S i k + mat S k j + 1))"
      by (rule sp_cell_less_ok [OF assms(1) Cons.prems(1) ij(2,3) less(1-3,5)])
    have upd: "mat ?D a b = (if a = i \<and> b = j then mat D i k + mat D k j else mat D a b)" for a b
      using Cons.prems(1) ij(2,3) mat_mat_upd [of n D i j] by (simp add: sp_ok_def)
    obtain c' D' L' S' where run: "run_all sp_cell cells (True, ?D, mat_upd L i j (mat L i k + mat L k j),
          mat_upd S i j (mat S i k + mat S k j + 1)) = Some (c', D', L', S')"
        "sp_ok n W T (D', L', S')" "smaller n D' ?D" "c'"
      using Cons.IH [OF ok cells, of True] by blast
    have "smaller n D' D" using run(3) less(5) unfolding smaller_def upd by (smt (verit))
    moreover have "mat D' i j \<le> mat ?D i j" using run(3) ij(2,3) by (simp add: smaller_def)
    then have "mat D' i j < mat D i j" using less(5) upd [of i j] by simp
    ultimately show ?thesis using run(1,2,4) less(6) ij by auto
  qed
qed

lemma sp_round_run:
  assumes "weights_ok n W" "sp_ok n W T (D, L, S)"
  shows "\<exists>c D' L' S'. sp_round D L S = Some (c, D', L', S') \<and> sp_ok n W T (D', L', S') \<and>
    (c \<longrightarrow> smaller n D' D \<and> (\<exists>i<n. \<exists>j<n. mat D' i j < mat D i j)) \<and>
    (\<not> c \<longrightarrow> D' = D \<and> (\<forall>i<n. \<forall>j<n. \<forall>k<n. mat D i j \<le> mat D i k + mat D k j))"
proof -
  have n: "length D = n" using assms(2) by (simp add: sp_ok_def square_def)
  have cells: "set (List.product [0..<n] [0..<n]) = {..<n} \<times> {..<n}" by auto
  show ?thesis
    using sp_cells_run [OF assms, of "List.product [0..<n] [0..<n]" False] unfolding sp_round_def n cells
    by fastforce
qed

section \<open>The loop\<close>

definition total_dist :: "nat \<Rightarrow> matrix \<Rightarrow> int" where
  "total_dist n D = (\<Sum>(i, j)\<in>{..<n} \<times> {..<n}. mat D i j)"

lemma total_dist_less:
  assumes "smaller n D' D" "i < n" "j < n" "mat D' i j < mat D i j"
  shows "total_dist n D' < total_dist n D"
  unfolding total_dist_def
  by (rule sum_strict_mono_ex1) (use assms in \<open>auto simp: smaller_def intro!: bexI [of _ "(i, j)"]\<close>)

lemma total_dist_nonneg: "weights_ok n W \<Longrightarrow> sp_ok n W T (D, L, S) \<Longrightarrow> 0 \<le> total_dist n D"
  unfolding total_dist_def by (rule sum_nonneg) (auto dest: sp_ok_dist(1))

text \<open>The loop returns: each round but the last one makes the sum of the distances smaller.\<close>

lemma extend_shortest_path_returns:
  assumes "weights_ok n W" "sp_ok n W T (D, L, S)"
  shows "\<exists>D' L' S'. extend_shortest_path D L S = Some (D', L', S') \<and> sp_ok n W T (D', L', S') \<and>
    (\<forall>i<n. \<forall>j<n. \<forall>k<n. mat D' i j \<le> mat D' i k + mat D' k j)"
  using assms(2)
proof (induction "nat (total_dist n D)" arbitrary: D L S rule: less_induct)
  case less
  obtain c D' L' S' where round: "sp_round D L S = Some (c, D', L', S')" "sp_ok n W T (D', L', S')"
      "c \<Longrightarrow> smaller n D' D \<and> (\<exists>i<n. \<exists>j<n. mat D' i j < mat D i j)"
      "\<not> c \<Longrightarrow> D' = D \<and> (\<forall>i<n. \<forall>j<n. \<forall>k<n. mat D i j \<le> mat D i k + mat D k j)"
    using sp_round_run [OF assms(1) less.prems] by blast
  show ?case
  proof (cases c)
    case True
    then have "total_dist n D' < total_dist n D" using round(3) total_dist_less by blast
    then have "nat (total_dist n D') < nat (total_dist n D)"
      using total_dist_nonneg [OF assms(1) round(2)] by simp
    from less.hyps [OF this round(2)] show ?thesis
      using round(1) True extend_shortest_path.simps [of D L S] by simp
  next
    case False
    then show ?thesis using round(1,2,4) extend_shortest_path.simps [of D L S] by auto
  qed
qed

lemma triangle_routes:
  assumes "\<forall>i<n. \<forall>j<n. \<forall>k<n. mat D i j \<le> mat D i k + mat D k j" "smaller n D W"
    and "i < n" "j < n" "set ks \<subseteq> {..<n}"
  shows "mat D i j \<le> route_sum W i ks j"
  using assms(3,5)
proof (induction ks arbitrary: i)
  case Nil
  then show ?case using assms(2,4) by (simp add: smaller_def)
next
  case (Cons k ks)
  have "mat D i j \<le> mat D i k + mat D k j" "mat D i k \<le> mat W i k"
    using assms(1,2,4) Cons.prems by (auto simp: smaller_def)
  then show ?case using Cons.IH [of k] Cons.prems by simp
qed

text \<open>The distances of the final matrix, as the routing uses them.\<close>

definition routed :: "nat \<Rightarrow> matrix \<Rightarrow> matrix \<Rightarrow> bool" where
  "routed n W D \<longleftrightarrow> (\<forall>i<n. \<forall>j<n. (\<exists>ks. set ks \<subseteq> {..<n} \<and> mat D i j = route_sum W i ks j) \<and>
     (\<forall>ks. set ks \<subseteq> {..<n} \<longrightarrow> mat D i j \<le> route_sum W i ks j))"

lemma routed_route:
  assumes "routed n W D" "i < n" "j < n"
  obtains ks where "set ks \<subseteq> {..<n}" "mat D i j = route_sum W i ks j"
  using assms unfolding routed_def by blast

lemma routed_least: "\<lbrakk> routed n W D; i < n; j < n; set ks \<subseteq> {..<n} \<rbrakk> \<Longrightarrow> mat D i j \<le> route_sum W i ks j"
  unfolding routed_def by blast

lemma shortest_path_run:
  assumes "weights_ok n W" "square n T" "square n S" "\<forall>i<n. \<forall>j<n. mat S i j = 0"
  shows "\<exists>D L S'. shortest_path W T S = Some (D, L, S') \<and> sp_ok n W T (D, L, S') \<and> routed n W D"
proof -
  have "on_route n W T (W, T, S) i j" if "i < n" "j < n" for i j
    using assms(4) that by (auto simp: on_route_def intro!: exI [of _ "[]"])
  then have "sp_ok n W T (W, T, S)" using assms(1-3) by (simp add: sp_ok_def weights_ok_def)
  then obtain D L S' where run: "extend_shortest_path W T S = Some (D, L, S')" "sp_ok n W T (D, L, S')"
      "\<forall>i<n. \<forall>j<n. \<forall>k<n. mat D i j \<le> mat D i k + mat D k j"
    using extend_shortest_path_returns [OF assms(1)] by blast
  have sm: "smaller n D W" using sp_ok_dist(2) [OF assms(1) run(2)] by (simp add: smaller_def)
  have "\<exists>ks. set ks \<subseteq> {..<n} \<and> mat D i j = route_sum W i ks j" if "i < n" "j < n" for i j
    using run(2) that unfolding sp_ok_def on_route_def prod.case by blast
  then have "routed n W D" unfolding routed_def using triangle_routes [OF run(3) sm] by simp
  then show ?thesis using run(1,2) unfolding shortest_path_def by blast
qed

text \<open>Three switches in a line.\<close>

definition line_weights :: matrix where
  "line_weights = [[0, 1, 10000], [1, 0, 2], [10000, 2, 0]]"

definition line_zeros :: matrix where
  "line_zeros = [[0, 0, 0], [0, 0, 0], [0, 0, 0]]"

lemma below_three: "(\<forall>i<(3::nat). P i) \<longleftrightarrow> P 0 \<and> P 1 \<and> P 2"
  by (auto simp: less_Suc_eq numeral_3_eq_3 numeral_2_eq_2)

lemma line_ok:
  "weights_ok 3 line_weights" "square 3 line_weights" "square 3 line_zeros"
  "\<forall>i<3. \<forall>j<3. mat line_zeros i j = 0" "\<forall>i<3. \<forall>j<3. i \<noteq> j \<longrightarrow> 0 < mat line_weights i j"
  by (simp_all add: weights_ok_def square_def mat_def line_weights_def line_zeros_def INFINITE_LATENCY_def below_three)

lemma line_path: "shortest_path line_weights line_weights line_zeros =
    Some ([[0, 1, 3], [1, 0, 2], [3, 2, 0]], [[0, 1, 3], [1, 0, 2], [3, 2, 0]], [[0, 0, 1], [0, 0, 0], [1, 0, 0]])"
  by code_simp

text \<open>C15. The routing distances are right.  For weights that are not negative, at most
  \<open>INFINITE_LATENCY\<close>, and zero from a switch to itself, \<open>shortest_path\<close> returns; no assertion fails; the
  distance of two switches is the weight of a route between them and no route is shorter; and
  where there is a connection, the reported latency and number of intermediate switches are those of
  one such shortest route.\<close>

theorem shortest_path_correct:
  assumes "weights_ok n W" "square n T" "square n S" "\<forall>i<n. \<forall>j<n. mat S i j = 0"
  shows "\<exists>D L S'. shortest_path W T S = Some (D, L, S') \<and> (\<forall>i<n. \<forall>j<n.
    (\<exists>ks. set ks \<subseteq> {..<n} \<and> mat D i j = route_sum W i ks j \<and>
       (i \<noteq> j \<and> mat D i j < INFINITE_LATENCY \<longrightarrow>
          mat L i j = route_sum T i ks j \<and> mat S' i j = int (length ks))) \<and>
    (\<forall>ks. set ks \<subseteq> {..<n} \<longrightarrow> mat D i j \<le> route_sum W i ks j))"
proof -
  obtain D L S' where run: "shortest_path W T S = Some (D, L, S')" "sp_ok n W T (D, L, S')" "routed n W D"
    using shortest_path_run [OF assms] by blast
  then have "\<exists>ks. set ks \<subseteq> {..<n} \<and> mat D i j = route_sum W i ks j \<and>
       (i \<noteq> j \<and> mat D i j < INFINITE_LATENCY \<longrightarrow> mat L i j = route_sum T i ks j \<and> mat S' i j = int (length ks))"
    if "i < n" "j < n" for i j using that unfolding sp_ok_def on_route_def prod.case by simp
  then show ?thesis using run(1) routed_least [OF run(3)] by blast
qed

theorem shortest_path_correct_witness:
  "\<exists>D L S'. shortest_path line_weights line_weights line_zeros = Some (D, L, S') \<and>
    mat D 0 2 \<le> route_sum line_weights 0 [1] 2 \<and> mat D 0 2 = 3"
proof -
  obtain D L S' where run: "shortest_path line_weights line_weights line_zeros = Some (D, L, S')"
    and all: "\<forall>i<3. \<forall>j<3. (\<exists>ks. set ks \<subseteq> {..<3} \<and> mat D i j = route_sum line_weights i ks j \<and>
       (i \<noteq> j \<and> mat D i j < INFINITE_LATENCY \<longrightarrow>
          mat L i j = route_sum line_weights i ks j \<and> mat S' i j = int (length ks))) \<and>
      (\<forall>ks. set ks \<subseteq> {..<3} \<longrightarrow> mat D i j \<le> route_sum line_weights i ks j)"
    using shortest_path_correct [OF line_ok(1-4)] by (elim exE conjE)
  have "mat D 0 2 \<le> route_sum line_weights 0 [1] 2"
    using all [rule_format, of 0 2, THEN conjunct2, rule_format, of "[1]"] by simp
  moreover have "mat D 0 2 = 3" using run by (auto simp: line_path mat_def)
  ultimately show ?thesis using run by (intro exI conjI)
qed

section \<open>Hops\<close>

lemma first_hop:
  assumes "weights_ok n W" "i < n" "f < n" "i \<noteq> f" "set ks \<subseteq> {..<n}" "route_sum W i ks f < INFINITE_LATENCY"
  shows "\<exists>j ls. j < n \<and> j \<noteq> i \<and> set ls \<subseteq> {..<n} \<and> mat W i j < INFINITE_LATENCY \<and>
    (j = f \<and> route_sum W i ks f = mat W i j \<or> route_sum W i ks f = mat W i j + route_sum W j ls f)"
  using assms(5,6)
proof (induction ks)
  case Nil
  then show ?case using assms(3,4) by (intro exI [of _ f] exI [of _ "[]"]) auto
next
  case (Cons k ks)
  show ?case
  proof (cases "k = i")
    case True
    then have "route_sum W i (k # ks) f = route_sum W i ks f" using assms(1,2) by (simp add: weights_ok_def)
    then show ?thesis using Cons by simp
  next
    case False
    moreover have "0 \<le> route_sum W k ks f" using route_sum_nonneg [OF assms(1) _ assms(3)] Cons.prems(1) by simp
    ultimately show ?thesis using Cons.prems by (intro exI [of _ k] exI [of _ ks]) auto
  qed
qed

text \<open>From a switch that is connected to \<open>f\<close> there is a link along which \<open>f\<close> comes nearer.\<close>

lemma next_link:
  assumes "weights_ok n W" "routed n W D" "i < n" "f < n" "i \<noteq> f" "mat D i f < INFINITE_LATENCY"
  shows "\<exists>j<n. j \<noteq> i \<and> mat W i j < INFINITE_LATENCY \<and> link_is_shortest_path_to_node i j f W D"
proof -
  obtain ks where ks: "set ks \<subseteq> {..<n}" "mat D i f = route_sum W i ks f"
    by (rule routed_route [OF assms(2-4)]) blast
  then obtain j ls where j: "j < n" "j \<noteq> i" "set ls \<subseteq> {..<n}" "mat W i j < INFINITE_LATENCY"
      "j = f \<and> mat D i f = mat W i j \<or> mat D i f = mat W i j + route_sum W j ls f"
    using first_hop [OF assms(1,3-5)] assms(6) by metis
  obtain ms where ms: "set ms \<subseteq> {..<n}" "mat D j f = route_sum W j ms f"
    by (rule routed_route [OF assms(2) j(1) assms(4)]) blast
  note least = routed_least [OF assms(2) j(1) assms(4)]
  have zero: "route_sum W f [] f = 0" using assms(1,4) by (simp add: weights_ok_def)
  have "mat D i f \<le> route_sum W i (j # ms) f" using j(1) ms(1) by (intro routed_least [OF assms(2-4)]) simp
  moreover have "mat W i j + mat D j f \<le> mat D i f"
    using j(5) least [OF j(3)] least [of "[]"] zero by auto
  ultimately have "mat W i j + mat D j f = mat D i f" using ms(2) by simp
  then show ?thesis using j(1,2,4) by (auto simp: link_is_shortest_path_to_node_def)
qed

text \<open>C14. Messages arrive.  When every link has a positive weight and the routing uses the distances
  that \<open>shortest_path\<close> computes, then from every switch with a connection to \<open>f\<close> some link is on a shortest
  route to \<open>f\<close>; and whichever such link each switch chooses, a message follows them to \<open>f\<close> in at most as
  many hops as the distance: it is not routed in a circle.\<close>

theorem routing_arrives:
  assumes "weights_ok n W" "\<forall>i<n. \<forall>j<n. i \<noteq> j \<longrightarrow> 0 < mat W i j" "square n T" "square n S"
    and "\<forall>i<n. \<forall>j<n. mat S i j = 0" "shortest_path W T S = Some (D, L, S')" "f < n"
  shows "(\<forall>i<n. i \<noteq> f \<and> mat D i f < INFINITE_LATENCY \<longrightarrow>
      (\<exists>j<n. j \<noteq> i \<and> mat W i j < INFINITE_LATENCY \<and> link_is_shortest_path_to_node i j f W D)) \<and>
    (\<forall>hop. (\<forall>i<n. i \<noteq> f \<and> mat D i f < INFINITE_LATENCY \<longrightarrow>
        hop i < n \<and> hop i \<noteq> i \<and> link_is_shortest_path_to_node i (hop i) f W D) \<longrightarrow>
      (\<forall>i<n. mat D i f < INFINITE_LATENCY \<longrightarrow> (\<exists>k\<le>nat (mat D i f). (hop ^^ k) i = f)))"
proof -
  have r: "routed n W D" using shortest_path_run [OF assms(1,3-5)] assms(6) by auto
  have nonneg: "0 \<le> mat D i f" if "i < n" for i
    using routed_route [OF r that assms(7)] route_sum_nonneg [OF assms(1) that assms(7)] by metis
  have "\<exists>k\<le>nat (mat D i f). (hop ^^ k) i = f"
    if hop: "\<forall>i<n. i \<noteq> f \<and> mat D i f < INFINITE_LATENCY \<longrightarrow>
        hop i < n \<and> hop i \<noteq> i \<and> link_is_shortest_path_to_node i (hop i) f W D"
      and "i < n" "mat D i f < INFINITE_LATENCY" for hop i
    using that(2,3)
  proof (induction "nat (mat D i f)" arbitrary: i rule: less_induct)
    case less
    show ?case
    proof (cases "i = f")
      case False
      then have h: "hop i < n" "hop i \<noteq> i" "mat W i (hop i) + mat D (hop i) f = mat D i f"
        using hop less.prems by (auto simp: link_is_shortest_path_to_node_def)
      then have lt: "mat D (hop i) f < mat D i f" using assms(2) less.prems(1) by (metis less_add_same_cancel2)
      then obtain k where "k \<le> nat (mat D (hop i) f)" "(hop ^^ k) (hop i) = f"
        using less.hyps [of "hop i"] h(1) nonneg [of "hop i"] less.prems by auto
      then show ?thesis using lt nonneg [OF h(1)] by (intro exI [of _ "Suc k"]) (simp add: funpow_swap1)
    qed (use exI [of _ 0] in auto)
  qed
  then show ?thesis using next_link [OF assms(1) r _ assms(7)] by blast
qed

theorem routing_arrives_witness:
  "\<exists>D L S'. shortest_path line_weights line_weights line_zeros = Some (D, L, S') \<and> mat D 0 2 < INFINITE_LATENCY \<and>
    (\<exists>j<3. j \<noteq> 0 \<and> mat line_weights 0 j < INFINITE_LATENCY \<and> link_is_shortest_path_to_node 0 j 2 line_weights D)"
proof -
  have near: "mat [[0, 1, 3], [1, 0, 2], [3, 2, 0]] 0 2 < INFINITE_LATENCY"
    by (simp add: mat_def INFINITE_LATENCY_def)
  have "\<forall>i<3. i \<noteq> 2 \<and> mat [[0, 1, 3], [1, 0, 2], [3, 2, 0]] i 2 < INFINITE_LATENCY \<longrightarrow>
      (\<exists>j<3. j \<noteq> i \<and> mat line_weights i j < INFINITE_LATENCY \<and>
        link_is_shortest_path_to_node i j 2 line_weights [[0, 1, 3], [1, 0, 2], [3, 2, 0]])"
    by (rule conjunct1 [OF routing_arrives [OF line_ok(1,5,2-4) line_path]]) simp
  from this [rule_format, of 0] near show ?thesis using line_path by (simp only: option.inject prod.inject) fastforce
qed

end
