(* ===== verification/Network_Topology.thy ===== *)
theory Network_Topology
  imports Shortest_Paths Net_Dest
begin

text \<open>
  The topology of the simple network, \<open>network/simple/Topology.C\<close>: the builders of the topologies,
  and \<open>createLinks\<close>, which computes the routing table of every link.

  Switch identifiers are natural numbers: the first \<open>m_nodes\<close> are the links into the network, the next
  \<open>m_nodes\<close> the links out of it, the rest are switches.  The vectors \<open>nodePairs\<close>, \<open>latencies\<close> and
  \<open>bw_multis\<close> of the builders are filled together, and are one list of links here.  What the protocol
  compiler generates (the machine types, their numbers, levels and numbers per chip) and the
  configuration are the record \<open>net_config\<close>.  The calls of the network that \<open>createLinks\<close> makes are
  its result.

  The lemmas show that a routing entry holds exactly the machines to which the link is on a
  shortest route, that every machine a switch is connected to is in the entry of one of its links,
  and that the crossbar of the GPU configuration connects every switch to every machine.
\<close>

record net_config =
  machine_counts :: "nat list"
  type_L1Cache :: nat
  type_L2Cache :: nat
  type_Directory :: nat
  base_level_NUM :: nat
  chip_count :: "nat \<Rightarrow> nat \<Rightarrow> nat"
  numberOfChips :: nat
  numberOfL1CachePerChip :: nat
  numberOfL2CachePerChip :: nat
  numberOfDirectoryPerChip :: nat
  NETWORK_LINK_LATENCY :: int
  ON_CHIP_LINK_LATENCY :: int
  FAN_OUT_DEGREE :: nat
  g_PROCS_PER_CLUSTER :: nat

record topology =
  m_nodes :: nat
  m_number_of_switches :: nat
  m_links_src_vector :: "nat list"
  m_links_dest_vector :: "nat list"
  m_links_latency_vector :: "int list"
  m_links_weight_vector :: "int list"
  m_bw_multiplier_vector :: "int list"
  m_component_latencies :: matrix
  m_component_inter_switches :: matrix

section \<open>Building a topology\<close>

definition DEFAULT_BW_MULTIPLIER :: int where
  "DEFAULT_BW_MULTIPLIER = 1"

definition newSwitchID :: "topology \<Rightarrow> nat \<times> topology" where
  "newSwitchID t =
     (let t = t\<lparr>m_number_of_switches := m_number_of_switches t + 1\<rparr>
      in (m_number_of_switches t - 1 + m_nodes t + m_nodes t, t))"

definition addLink_weight :: "nat \<Rightarrow> nat \<Rightarrow> int \<Rightarrow> int \<Rightarrow> int \<Rightarrow> topology \<Rightarrow> topology option" where
  "addLink_weight src dest link_latency bw_multiplier link_weight t = do {
     assert_that (src \<le> m_number_of_switches t + m_nodes t + m_nodes t);
     assert_that (dest \<le> m_number_of_switches t + m_nodes t + m_nodes t);
     Some (t\<lparr>m_links_src_vector := m_links_src_vector t @ [src],
             m_links_dest_vector := m_links_dest_vector t @ [dest],
             m_links_latency_vector := m_links_latency_vector t @ [link_latency],
             m_links_weight_vector := m_links_weight_vector t @ [link_weight],
             m_bw_multiplier_vector := m_bw_multiplier_vector t @ [bw_multiplier]\<rparr>) }"

definition addLink_bw :: "nat \<Rightarrow> nat \<Rightarrow> int \<Rightarrow> int \<Rightarrow> topology \<Rightarrow> topology option" where
  "addLink_bw src dest link_latency bw_multiplier = addLink_weight src dest link_latency bw_multiplier link_latency"

definition addLink :: "nat \<Rightarrow> nat \<Rightarrow> int \<Rightarrow> topology \<Rightarrow> topology option" where
  "addLink src dest link_latency = addLink_weight src dest link_latency DEFAULT_BW_MULTIPLIER link_latency"

text \<open>The components of the chips, each with a link to the switch of its chip and one back.\<close>

definition chip_component ::
  "net_config \<Rightarrow> nat \<Rightarrow> nat \<times> nat \<Rightarrow> (nat \<times> nat \<times> int \<times> int) list \<times> bool list \<times> nat list \<Rightarrow>
   ((nat \<times> nat \<times> int \<times> int) list \<times> bool list \<times> nat list) option" where
  "chip_component c nodes = (\<lambda>(chip, mType) (links, endpointConnectionExist, componentCount).
     let (latency, bw_multiplier) =
           (if mType \<noteq> type_Directory c then (ON_CHIP_LINK_LATENCY c, 10) else (NETWORK_LINK_LATENCY c, 1));
         node0 = base_number (machine_counts c) mType + componentCount ! mType;
         node1 = chip + nodes * 2
     in do {
       assert_that (node0 < length endpointConnectionExist);
       assert_that (\<not> endpointConnectionExist ! node0);
       Some (links @ [(node0, node1, latency, int (componentCount ! mType + base_number (machine_counts c) mType)),
                      (node1, node0 + nodes, latency, bw_multiplier)],
             endpointConnectionExist[node0 := True],
             componentCount[mType := componentCount ! mType + 1]) })"

definition makeSwitchesPerChip :: "net_config \<Rightarrow> nat \<Rightarrow> (nat \<times> nat \<times> int \<times> int) list option" where
  "makeSwitchesPerChip c nodes = do {
     (links, endpointConnectionExist, componentCount) \<leftarrow>
       run_all (chip_component c nodes)
         [(chip, mType). chip \<leftarrow> [0..<numberOfChips c], mType \<leftarrow> [0..<length (machine_counts c)],
            component \<leftarrow> [0..<chip_count c mType chip]]
         ([], replicate nodes False, replicate (length (machine_counts c)) 0);
     assert_that (\<forall>k<length endpointConnectionExist. endpointConnectionExist ! k);
     assert_that (componentCount = machine_counts c);
     Some links }"

definition addLinks :: "(nat \<times> nat \<times> int \<times> int) list \<Rightarrow> topology \<Rightarrow> topology option" where
  "addLinks = run_all (\<lambda>(src, dest, latency, bw_multi). addLink_bw src dest latency bw_multi)"

primrec newSwitches :: "nat \<Rightarrow> topology \<Rightarrow> nat list \<times> topology" where
  "newSwitches 0 t = ([], t)"
| "newSwitches (Suc k) t = (let (i, t) = newSwitchID t; (is, t) = newSwitches k t in (i # is, t))"

text \<open>\<open>(int)sqrt((double)n)\<close>\<close>

definition int_sqrt :: "nat \<Rightarrow> nat" where
  "int_sqrt n = last (filter (\<lambda>k. k * k \<le> n) [0..<Suc n])"

definition torus_links :: "net_config \<Rightarrow> nat \<Rightarrow> nat \<Rightarrow> nat \<Rightarrow> (nat \<times> nat \<times> int \<times> int) list" where
  "torus_links c nodes numberOfTorusSwitches s =
     (let lengthOfSide = int_sqrt numberOfTorusSwitches;
          left = (if s mod lengthOfSide = 0 then s - 1 + lengthOfSide else s - 1);
          right = (if (s + 1) mod lengthOfSide = 0 then s + 1 - lengthOfSide else s + 1);
          top = (if int s - int lengthOfSide < int (2 * nodes) then s + lengthOfSide * lengthOfSide - lengthOfSide
                 else s - lengthOfSide);
          bottom = (if s + lengthOfSide \<ge> 2 * nodes + numberOfTorusSwitches
                    then s + lengthOfSide - lengthOfSide * lengthOfSide else s + lengthOfSide)
      in map (\<lambda>d. (s, d, NETWORK_LINK_LATENCY c, 1)) [left, right, top, bottom])"

definition make2DTorus :: "net_config \<Rightarrow> topology \<Rightarrow> topology option" where
  "make2DTorus c t = do {
     let numberOfTorusSwitches = m_nodes t div base_level_NUM c;
     let (torusSwitches, t) = newSwitches numberOfTorusSwitches t;
     links \<leftarrow> makeSwitchesPerChip c (m_nodes t);
     addLinks (links @ concat (map (torus_links c (m_nodes t) numberOfTorusSwitches) torusSwitches)) t }"

text \<open>A level of the hierarchy: one link per element of the level, to or from the last of the
  switches of the next level, with a new one for each \<open>fan_out_degree\<close> elements.\<close>

definition up_link :: "net_config \<Rightarrow> nat \<Rightarrow> nat \<times> nat \<Rightarrow> nat list \<times> topology \<Rightarrow> (nat list \<times> topology) option" where
  "up_link c fan_out_degree = (\<lambda>(i, s) (next_level, t).
     let (next_level, t) = (if i mod fan_out_degree = 0
           then (let (new, t) = newSwitchID t in (next_level @ [new], t)) else (next_level, t))
     in do {
       t \<leftarrow> addLink s (last next_level) (NETWORK_LINK_LATENCY c) t;
       Some (next_level, t) })"

definition down_link ::
  "net_config \<Rightarrow> nat \<Rightarrow> nat \<Rightarrow> nat \<Rightarrow> nat \<times> nat \<Rightarrow> nat list \<times> topology \<Rightarrow> (nat list \<times> topology) option" where
  "down_link c fan_out_degree root_switch out_size = (\<lambda>(i, s) (next_level, t).
     let (next_level, t) = (if i mod fan_out_degree = 0
           then (if out_size > fan_out_degree then (let (new, t) = newSwitchID t in (next_level @ [new], t))
                 else (next_level @ [root_switch], t)) else (next_level, t))
     in do {
       t \<leftarrow> addLink (last next_level) s (NETWORK_LINK_LATENCY c) t;
       Some (next_level, t) })"

partial_function (option) up_levels :: "net_config \<Rightarrow> nat \<Rightarrow> nat list \<Rightarrow> topology \<Rightarrow> (nat list \<times> topology) option" where
  "up_levels c fan_out_degree last_level t =
     (if length last_level > 1
      then (case run_all (up_link c fan_out_degree) (enumerate 0 last_level) ([], t) of None \<Rightarrow> None
            | Some (next_level, t) \<Rightarrow> up_levels c fan_out_degree next_level t)
      else Some (last_level, t))"

partial_function (option) down_levels :: "net_config \<Rightarrow> nat \<Rightarrow> nat \<Rightarrow> nat list \<Rightarrow> topology \<Rightarrow> topology option" where
  "down_levels c fan_out_degree root_switch out_level t =
     (if length out_level \<noteq> 1
      then (case run_all (down_link c fan_out_degree root_switch (length out_level)) (enumerate 0 out_level) ([], t) of
              None \<Rightarrow> None
            | Some (next_level, t) \<Rightarrow> down_levels c fan_out_degree root_switch next_level t)
      else Some t)"

declare up_levels.simps [code]
declare down_levels.simps [code]

definition makeHierarchicalSwitch :: "net_config \<Rightarrow> nat \<Rightarrow> topology \<Rightarrow> topology option" where
  "makeHierarchicalSwitch c fan_out_degree t = do {
     (last_level, t) \<leftarrow> run_all (\<lambda>i (last_level, t).
        let (new_switch, t) = newSwitchID t
        in do { t \<leftarrow> addLink i new_switch (NETWORK_LINK_LATENCY c) t; Some (last_level @ [new_switch], t) })
        [0..<m_nodes t] ([], t);
     (last_level, t) \<leftarrow> up_levels c fan_out_degree last_level t;
     assert_that (last_level \<noteq> []);
     down_levels c fan_out_degree (hd last_level) (map (\<lambda>i. m_nodes t + i) [0..<m_nodes t]) t }"

text \<open>The crossbar of the GPU: clusters of L1 caches, banks and directories around one root.  The remainder by the size of a
  cluster fails when that is zero.\<close>

definition crossbar_L1 :: "net_config \<Rightarrow> nat \<Rightarrow> nat list \<times> topology \<Rightarrow> (nat list \<times> topology) option" where
  "crossbar_L1 c i = (\<lambda>(last_level, t).
     let (last_level, t) = (if i mod g_PROCS_PER_CLUSTER c = 0
           then (let (new_switch_cluster, t) = newSwitchID t in (last_level @ [new_switch_cluster], t))
           else (last_level, t));
         (new_switch, t) = newSwitchID t
     in do {
       assert_that (g_PROCS_PER_CLUSTER c \<noteq> 0);
       t \<leftarrow> addLink (base_number (machine_counts c) (type_L1Cache c) + i) new_switch (NETWORK_LINK_LATENCY c) t;
       assert_that (last_level \<noteq> []);
       t \<leftarrow> addLink new_switch (last last_level) (NETWORK_LINK_LATENCY c) t;
       Some (last_level, t) })"

definition crossbar_leaf :: "net_config \<Rightarrow> nat \<Rightarrow> nat \<Rightarrow> nat list \<times> topology \<Rightarrow> (nat list \<times> topology) option" where
  "crossbar_leaf c mType i = (\<lambda>(last_level, t).
     let (new_switch, t) = newSwitchID t
     in do {
       t \<leftarrow> addLink (base_number (machine_counts c) mType + i) new_switch (NETWORK_LINK_LATENCY c) t;
       Some (last_level @ [new_switch], t) })"

definition makeGPGPUSimCrossbar :: "net_config \<Rightarrow> topology \<Rightarrow> topology option" where
  "makeGPGPUSimCrossbar c t = do {
     s \<leftarrow> run_all (crossbar_L1 c) [0..<numberOfL1CachePerChip c] ([], t);
     s \<leftarrow> run_all (crossbar_leaf c (type_L2Cache c)) [0..<numberOfL2CachePerChip c] s;
     (last_level, t) \<leftarrow> run_all (crossbar_leaf c (type_Directory c)) [0..<numberOfDirectoryPerChip c] s;
     let (root_switch, t) = newSwitchID t;
     t \<leftarrow> run_all (\<lambda>s. addLink s root_switch (NETWORK_LINK_LATENCY c)) last_level t;
     run_all (\<lambda>s. addLink root_switch s (NETWORK_LINK_LATENCY c)) (map (\<lambda>i. m_nodes t + i) [0..<m_nodes t]) t }"

definition makePtToPt :: "net_config \<Rightarrow> topology \<Rightarrow> topology option" where
  "makePtToPt c t = do {
     let numberOfChipSwitches = m_nodes t div base_level_NUM c;
     let t = snd (newSwitches (2 * numberOfChipSwitches) t);
     links \<leftarrow> makeSwitchesPerChip c (m_nodes t);
     let inner = (\<lambda>chip. chip + m_nodes t * 2);
     let outer = (\<lambda>chip. chip + m_nodes t * 2 + numberOfChips c);
     let both = (\<lambda>a b latency bw. [(a, b, latency, bw), (b, a, latency, bw)]);
     addLinks (links @
       concat (map (\<lambda>chip. both (inner chip) (outer chip) (ON_CHIP_LINK_LATENCY c) 10) [0..<numberOfChips c]) @
       concat (map (\<lambda>chip. concat (map (\<lambda>other_chip.
           both (outer chip) (outer other_chip) (NETWORK_LINK_LATENCY c) 1)
         [chip + 1..<numberOfChips c])) [0..<numberOfChips c])) t }"

section \<open>Creating the links\<close>

datatype link_call =
    InLink nat nat net_dest int int bool
  | OutLink nat nat net_dest int int int bool
  | InternalLink nat nat net_dest int int int bool

definition makeLink :: "nat \<Rightarrow> nat \<Rightarrow> nat \<Rightarrow> net_dest \<Rightarrow> int \<Rightarrow> int \<Rightarrow> int \<Rightarrow> bool \<Rightarrow> link_call option" where
  "makeLink nodes src dest routing_table_entry link_latency link_weight bw_multiplier isReconfiguration = do {
     assert_that (src \<ge> 2 * nodes \<or> dest \<ge> 2 * nodes);
     if src < nodes then
       Some (InLink src (dest - 2 * nodes) routing_table_entry link_latency bw_multiplier isReconfiguration)
     else if dest < 2 * nodes then do {
       assert_that (dest \<ge> nodes);
       Some (OutLink (src - 2 * nodes) (dest - nodes) routing_table_entry link_latency link_weight bw_multiplier
         isReconfiguration) }
     else do {
       assert_that (src \<ge> 2 * nodes \<and> dest \<ge> 2 * nodes);
       Some (InternalLink (src - 2 * nodes) (dest - 2 * nodes) routing_table_entry link_latency link_weight
         bw_multiplier isReconfiguration) } }"

definition machines :: "nat list \<Rightarrow> machine_id list" where
  "machines counts = [(m, i). m \<leftarrow> [0..<length counts], i \<leftarrow> [0..<counts ! m]]"

definition shortest_path_to_node :: "nat list \<Rightarrow> nat \<Rightarrow> nat \<Rightarrow> matrix \<Rightarrow> matrix \<Rightarrow> net_dest option" where
  "shortest_path_to_node counts src next weights dist =
     (let max_machines = base_number counts (length counts)
      in run_all (\<lambda>(d, mach) result.
           if link_is_shortest_path_to_node src next (d + max_machines) weights dist then nd_add mach result
           else Some result)
         (enumerate 0 (machines counts)) (nd_setSize counts))"

definition const_matrix :: "nat \<Rightarrow> int \<Rightarrow> matrix" where
  "const_matrix n v = replicate n (replicate n v)"

text \<open>The loops that enter the links into a matrix; a later link replaces an earlier one.\<close>

definition fill :: "topology \<Rightarrow> int list \<Rightarrow> matrix \<Rightarrow> matrix" where
  "fill t vals M = fold (\<lambda>i M. mat_upd M (m_links_src_vector t ! i) (m_links_dest_vector t ! i) (vals ! i))
     [0..<length (m_links_src_vector t)] M"

definition num_switches :: "topology \<Rightarrow> nat" where
  "num_switches t = fold (\<lambda>i m. max (max m (m_links_src_vector t ! i)) (m_links_dest_vector t ! i))
     [0..<length (m_links_src_vector t)] 0 + 1"

definition topology_weights :: "topology \<Rightarrow> matrix" where
  "topology_weights t = fill t (m_links_weight_vector t)
     (fold (\<lambda>i M. mat_upd M i i 0) [0..<num_switches t] (const_matrix (num_switches t) INFINITE_LATENCY))"

definition topology_latency :: "topology \<Rightarrow> matrix" where
  "topology_latency t = fill t (m_links_latency_vector t) (const_matrix (num_switches t) (- 1))"

definition topology_bw_multis :: "topology \<Rightarrow> matrix" where
  "topology_bw_multis t = fill t (m_bw_multiplier_vector t) (const_matrix (num_switches t) (- 1))"

definition createLink :: "net_config \<Rightarrow> bool \<Rightarrow> topology \<Rightarrow> matrix \<Rightarrow> nat \<times> nat \<Rightarrow> link_call option" where
  "createLink c isReconfiguration t dist = (\<lambda>(i, j). do {
     destination_set \<leftarrow> shortest_path_to_node (machine_counts c) i j (topology_weights t) dist;
     assert_that (mat (topology_latency t) i j \<noteq> - 1);
     makeLink (m_nodes t) i j destination_set (mat (topology_latency t) i j) (mat (topology_weights t) i j)
       (mat (topology_bw_multis t) i j) isReconfiguration })"

definition createLinks ::
  "net_config \<Rightarrow> bool \<Rightarrow> topology \<Rightarrow> (link_call list \<times> topology) option" where
  "createLinks c isReconfiguration t = do {
     (dist, component_latencies, inter_switches) \<leftarrow>
       shortest_path (topology_weights t) (topology_latency t) (const_matrix (num_switches t) 0);
     calls \<leftarrow> run_all (\<lambda>(i, j) calls.
        if mat (topology_weights t) i j > 0 \<and> mat (topology_weights t) i j \<noteq> INFINITE_LATENCY
        then do { call \<leftarrow> createLink c isReconfiguration t dist (i, j); Some (calls @ [call]) }
        else Some calls) (List.product [0..<num_switches t] [0..<num_switches t]) [];
     Some (calls, t\<lparr>m_component_latencies := component_latencies, m_component_inter_switches := inter_switches\<rparr>) }"

section \<open>Routing entries\<close>

lemma enumerate_machines:
  "enumerate 0 (machines counts) = map (\<lambda>(m, i). (base_number counts m + i, m, i)) (machines counts)"
proof -
  have block: "enumerate b (map (Pair m) [0..<k]) = map (\<lambda>i. (b + i, m, i)) [0..<k]" for b k and m :: nat
    by (induction k) (simp_all add: enumerate_append_eq)
  have upto: "enumerate 0 (concat (map (\<lambda>m. map (Pair m) [0..<counts ! m]) [0..<k])) =
      concat (map (\<lambda>m. map (\<lambda>i. (base_number counts m + i, m, i)) [0..<counts ! m]) [0..<k]) \<and>
    length (concat (map (\<lambda>m. map (Pair m) [0..<counts ! m]) [0..<k])) = base_number counts k" if "k \<le> length counts" for k
    using that
  proof (induction k)
    case (Suc k)
    then show ?case by (simp add: enumerate_append_eq block base_number_Suc)
  qed (simp add: base_number_def)
  show ?thesis using upto [of "length counts"] by (simp add: machines_def map_concat comp_def)
qed

lemma set_machines: "set (machines counts) = all_machines counts"
  by (auto simp: machines_def all_machines_def)

lemma machine_index_less:
  assumes "m \<in> all_machines counts" shows "base_number counts (fst m) + snd m < sum_list counts"
  using base_number_Suc [of "fst m" counts] assms
    sum_list_append [of "take (Suc (fst m)) counts" "drop (Suc (fst m)) counts"]
  by (auto simp: all_machines_def base_number_def)

lemma add_selected:
  assumes "nd_invar counts r" "\<forall>x\<in>set xs. f x \<in> all_machines counts"
  shows "\<exists>r'. run_all (\<lambda>x r. if P x then nd_add (f x) r else Some r) xs r = Some r' \<and> nd_invar counts r' \<and>
    nd_elems r' = nd_elems r \<union> {f x |x. x \<in> set xs \<and> P x}"
  using assms
proof (induction xs arbitrary: r)
  case (Cons x xs)
  show ?case
  proof (cases "P x")
    case True
    obtain r1 where "nd_add (f x) r = Some r1" "nd_invar counts r1" "nd_elems r1 = insert (f x) (nd_elems r)"
      using nd_add_law [OF Cons.prems(1), of "f x"] Cons.prems(2) by auto
    then show ?thesis using Cons.IH [of r1] Cons.prems(2) True by auto
  next
    case False
    then show ?thesis using Cons.IH [OF Cons.prems(1)] Cons.prems(2) by auto
  qed
qed simp

text \<open>The switch number of the link out of the network to a machine.\<close>

definition endpoint :: "nat list \<Rightarrow> machine_id \<Rightarrow> nat" where
  "endpoint counts m = base_number counts (fst m) + snd m + sum_list counts"

lemma shortest_path_to_node_law:
  "\<exists>r. shortest_path_to_node counts src next W D = Some r \<and> nd_invar counts r \<and>
    nd_elems r = {m \<in> all_machines counts. link_is_shortest_path_to_node src next (endpoint counts m) W D}"
proof -
  let ?f = "\<lambda>(d, mach) result. if link_is_shortest_path_to_node src next (d + sum_list counts) W D
    then nd_add mach result else Some result"
  let ?P = "\<lambda>m. link_is_shortest_path_to_node src next (endpoint counts m) W D"
  have "run_all ?f (map (\<lambda>(m, i). (base_number counts m + i, m, i)) ms) r =
      run_all (\<lambda>m r. if ?P m then nd_add m r else Some r) ms r" for ms r
    by (induction ms arbitrary: r) (auto simp: endpoint_def split: Option.bind_splits)
  then show ?thesis
    using add_selected [of counts "nd_setSize counts" "machines counts" "\<lambda>m. m" ?P] nd_setSize_empty [of counts]
    by (simp add: shortest_path_to_node_def enumerate_machines set_machines base_number_def conj_commute)
qed

section \<open>The matrices of the links\<close>

definition links :: "topology \<Rightarrow> (nat \<times> nat) set" where
  "links t = set (zip (m_links_src_vector t) (m_links_dest_vector t))"

definition link_shape :: "nat \<Rightarrow> nat \<Rightarrow> nat \<times> nat \<Rightarrow> bool" where
  "link_shape n k = (\<lambda>(s, d). s \<noteq> d \<and> s < 2 * n + k \<and> d < 2 * n + k \<and> (2 * n \<le> s \<or> 2 * n \<le> d) \<and>
     (s < n \<or> 2 * n \<le> s) \<and> n \<le> d)"

text \<open>Topologies that \<open>createLinks\<close> can use.\<close>

definition links_ok :: "topology \<Rightarrow> bool" where
  "links_ok t \<longleftrightarrow> length (m_links_dest_vector t) = length (m_links_src_vector t) \<and>
     length (m_links_latency_vector t) = length (m_links_src_vector t) \<and>
     length (m_links_weight_vector t) = length (m_links_src_vector t) \<and>
     length (m_bw_multiplier_vector t) = length (m_links_src_vector t) \<and>
     (\<forall>w\<in>set (m_links_weight_vector t). 0 < w \<and> w < INFINITE_LATENCY) \<and>
     (\<forall>l\<in>set (m_links_latency_vector t). l \<noteq> - 1) \<and>
     (\<forall>l\<in>links t. link_shape (m_nodes t) (m_number_of_switches t) l)"

lemma link_index:
  assumes "links_ok t" "(a, b) \<in> links t"
  obtains i where "i < length (m_links_src_vector t)" "m_links_src_vector t ! i = a" "m_links_dest_vector t ! i = b"
  using assms by (auto simp: links_def links_ok_def set_zip)

lemma index_link:
  "\<lbrakk> links_ok t; i < length (m_links_src_vector t) \<rbrakk> \<Longrightarrow> (m_links_src_vector t ! i, m_links_dest_vector t ! i) \<in> links t"
  by (auto simp: links_def links_ok_def set_zip)

lemma num_switches_bound:
  assumes "links_ok t" "(a, b) \<in> links t" shows "a < num_switches t" "b < num_switches t"
proof -
  have mono: "m \<le> fold (\<lambda>i m. max (max m (f i)) (g i)) is m \<and>
      (\<forall>i\<in>set is. f i \<le> fold (\<lambda>i m. max (max m (f i)) (g i)) is m \<and> g i \<le> fold (\<lambda>i m. max (max m (f i)) (g i)) is m)"
    for f g :: "nat \<Rightarrow> nat" and "is" m
  proof (induction "is" arbitrary: m)
    case (Cons i "is")
    show ?case using Cons.IH [of "max (max m (f i)) (g i)"] by auto
  qed simp
  obtain i where "i < length (m_links_src_vector t)" "m_links_src_vector t ! i = a" "m_links_dest_vector t ! i = b"
    by (rule link_index [OF assms]) blast
  then show "a < num_switches t" "b < num_switches t"
    using mono [of 0 "\<lambda>i. m_links_src_vector t ! i" "\<lambda>i. m_links_dest_vector t ! i" "[0..<length (m_links_src_vector t)]"]
    by (auto simp: num_switches_def less_Suc_eq_le)
qed

lemma num_switches_le:
  assumes "links_ok t" "0 < k" "\<And>a b. (a, b) \<in> links t \<Longrightarrow> a < k \<and> b < k" shows "num_switches t \<le> k"
proof -
  have "fold (\<lambda>i m. max (max m (f i)) (g i)) is m < k" if "\<forall>i\<in>set is. f i < k \<and> g i < k" "m < k"
    for f g :: "nat \<Rightarrow> nat" and "is" m using that by (induction "is" arbitrary: m) auto
  moreover have "\<forall>i\<in>set [0..<length (m_links_src_vector t)]. m_links_src_vector t ! i < k \<and> m_links_dest_vector t ! i < k"
    using assms(3) [OF index_link [OF assms(1)]] by simp
  ultimately show ?thesis using assms(2) by (simp add: num_switches_def Suc_le_eq)
qed

lemma fill_upds:
  assumes "square n M" "\<And>i. i \<in> set is \<Longrightarrow> f i < n \<and> g i < n" "a < n" "b < n"
  shows "square n (fold (\<lambda>i M. mat_upd M (f i) (g i) (v i)) is M) \<and>
    (if (a, b) \<in> (\<lambda>i. (f i, g i)) ` set is
     then \<exists>i\<in>set is. f i = a \<and> g i = b \<and> mat (fold (\<lambda>i M. mat_upd M (f i) (g i) (v i)) is M) a b = v i
     else mat (fold (\<lambda>i M. mat_upd M (f i) (g i) (v i)) is M) a b = mat M a b)"
  using assms(2)
proof (induction "is" rule: rev_induct)
  case (snoc i "is")
  let ?M = "fold (\<lambda>i M. mat_upd M (f i) (g i) (v i)) is M"
  have sq: "square n ?M" using snoc by simp
  have "mat (mat_upd ?M (f i) (g i) (v i)) a b = (if a = f i \<and> b = g i then v i else mat ?M a b)"
    using mat_mat_upd [OF sq] snoc.prems [of i] by simp
  then show ?case using snoc sq by (auto split: if_splits)
qed (use assms(1) in simp)

lemma const_matrix [simp]: "square n (const_matrix n v)" "a < n \<Longrightarrow> b < n \<Longrightarrow> mat (const_matrix n v) a b = v"
  by (auto simp: square_def const_matrix_def mat_def)

lemma fill_mat:
  assumes "links_ok t" "square (num_switches t) M" "a < num_switches t" "b < num_switches t"
    "length vals = length (m_links_src_vector t)"
  shows "square (num_switches t) (fill t vals M)"
    "(a, b) \<in> links t \<Longrightarrow> mat (fill t vals M) a b \<in> set vals"
    "(a, b) \<notin> links t \<Longrightarrow> mat (fill t vals M) a b = mat M a b"
proof -
  let ?is = "[0..<length (m_links_src_vector t)]"
  let ?f = "\<lambda>i. m_links_src_vector t ! i" and ?g = "\<lambda>i. m_links_dest_vector t ! i"
  have in_range: "?f i < num_switches t \<and> ?g i < num_switches t" if "i \<in> set ?is" for i
    using num_switches_bound [OF assms(1) index_link [OF assms(1)]] that by simp
  have img: "(a, b) \<in> (\<lambda>i. (?f i, ?g i)) ` set ?is \<longleftrightarrow> (a, b) \<in> links t"
    using assms(1) by (auto simp: links_def links_ok_def set_zip image_iff)
  note upds = fill_upds [OF assms(2), of ?is ?f ?g, OF in_range assms(3,4), of "\<lambda>i. vals ! i"]
  show "square (num_switches t) (fill t vals M)" using upds by (simp add: fill_def)
  show "mat (fill t vals M) a b = mat M a b" if "(a, b) \<notin> links t" using upds that img by (simp add: fill_def)
  show "mat (fill t vals M) a b \<in> set vals" if "(a, b) \<in> links t"
    using upds that img assms(5) by (auto simp: fill_def)
qed

lemma topology_weights_mat:
  assumes "links_ok t" "a < num_switches t" "b < num_switches t"
  shows "square (num_switches t) (topology_weights t)"
    "(a, b) \<in> links t \<Longrightarrow> 0 < mat (topology_weights t) a b \<and> mat (topology_weights t) a b < INFINITE_LATENCY"
    "(a, b) \<notin> links t \<Longrightarrow> mat (topology_weights t) a b = (if a = b then 0 else INFINITE_LATENCY)"
    "(a, b) \<in> links t \<Longrightarrow> mat (topology_weights t) a b \<in> set (m_links_weight_vector t)"
proof -
  let ?n = "num_switches t" and ?I = "fold (\<lambda>i M. mat_upd M i i 0) [0..<num_switches t] (const_matrix (num_switches t) INFINITE_LATENCY)"
  have I: "square ?n ?I" "mat ?I a b = (if a = b then 0 else INFINITE_LATENCY)"
    using fill_upds [OF const_matrix(1), of "[0..<?n]" "\<lambda>i. i" ?n "\<lambda>i. i" a b "\<lambda>_. 0" INFINITE_LATENCY] assms(2,3)
    by (auto simp: image_iff split: if_splits)
  have vals: "length (m_links_weight_vector t) = length (m_links_src_vector t)"
    "\<forall>w\<in>set (m_links_weight_vector t). 0 < w \<and> w < INFINITE_LATENCY" using assms(1) by (simp_all add: links_ok_def)
  note fill = fill_mat [OF assms(1) I(1) assms(2,3) vals(1), folded topology_weights_def]
  show "square ?n (topology_weights t)" by (rule fill(1))
  show "0 < mat (topology_weights t) a b \<and> mat (topology_weights t) a b < INFINITE_LATENCY" if "(a, b) \<in> links t"
    using fill(2) [OF that] vals(2) by blast
  show "mat (topology_weights t) a b = (if a = b then 0 else INFINITE_LATENCY)" if "(a, b) \<notin> links t"
    using fill(3) [OF that] I(2) by simp
  show "mat (topology_weights t) a b \<in> set (m_links_weight_vector t)" if "(a, b) \<in> links t"
    by (rule fill(2) [OF that])
qed

lemma topology_weights_ok:
  assumes "links_ok t"
  shows "weights_ok (num_switches t) (topology_weights t)"
    "\<forall>i<num_switches t. \<forall>j<num_switches t. i \<noteq> j \<longrightarrow> 0 < mat (topology_weights t) i j"
proof -
  have loop: "(a, a) \<notin> links t" for a using assms by (auto simp: links_ok_def link_shape_def)
  note W = topology_weights_mat [OF assms]
  have pos: "0 \<le> mat (topology_weights t) a b \<and> mat (topology_weights t) a b \<le> INFINITE_LATENCY \<and>
      (a \<noteq> b \<longrightarrow> 0 < mat (topology_weights t) a b)" if "a < num_switches t" "b < num_switches t" for a b
    using W(2,3) [OF that] by (cases "(a, b) \<in> links t") (auto simp: INFINITE_LATENCY_def)
  have "0 < num_switches t" by (simp add: num_switches_def)
  then have "square (num_switches t) (topology_weights t)" using W(1) by blast
  then show "weights_ok (num_switches t) (topology_weights t)"
    using W(3) [OF _ _ loop] pos by (simp add: weights_ok_def)
  show "\<forall>i<num_switches t. \<forall>j<num_switches t. i \<noteq> j \<longrightarrow> 0 < mat (topology_weights t) i j" using pos by blast
qed

section \<open>The links of a topology\<close>

fun call_link :: "nat \<Rightarrow> link_call \<Rightarrow> nat \<times> nat" where
  "call_link n (InLink src dest _ _ _ _) = (src, dest + 2 * n)"
| "call_link n (OutLink src dest _ _ _ _ _) = (src + 2 * n, dest + n)"
| "call_link n (InternalLink src dest _ _ _ _ _) = (src + 2 * n, dest + 2 * n)"

fun call_entry :: "link_call \<Rightarrow> net_dest" where
  "call_entry (InLink _ _ r _ _ _) = r"
| "call_entry (OutLink _ _ r _ _ _ _) = r"
| "call_entry (InternalLink _ _ r _ _ _ _) = r"

fun call_latency :: "link_call \<Rightarrow> int" where
  "call_latency (InLink _ _ _ lat _ _) = lat"
| "call_latency (OutLink _ _ _ lat _ _ _) = lat"
| "call_latency (InternalLink _ _ _ lat _ _ _) = lat"

fun call_bw :: "link_call \<Rightarrow> int" where
  "call_bw (InLink _ _ _ _ bw _) = bw"
| "call_bw (OutLink _ _ _ _ _ bw _) = bw"
| "call_bw (InternalLink _ _ _ _ _ bw _) = bw"

text \<open>The call names existing nodes and is for a reconfiguration if \<open>rc\<close> says so.\<close>

fun call_wf :: "nat \<Rightarrow> bool \<Rightarrow> link_call \<Rightarrow> bool" where
  "call_wf n rc (InLink src _ _ _ _ reconf) \<longleftrightarrow> src < n \<and> reconf = rc"
| "call_wf n rc (OutLink _ dest _ _ _ _ reconf) \<longleftrightarrow> dest < n \<and> reconf = rc"
| "call_wf n rc (InternalLink _ _ _ _ _ _ reconf) \<longleftrightarrow> reconf = rc"

lemma makeLink_law:
  assumes "link_shape n k (i, j)"
  shows "\<exists>call. makeLink n i j r lat w bw rc = Some call \<and> call_link n call = (i, j) \<and> call_entry call = r \<and>
    call_latency call = lat \<and> call_bw call = bw \<and> call_wf n rc call"
  using assms by (auto simp: makeLink_def link_shape_def)

lemma collect_run:
  assumes "\<forall>x\<in>set xs. P x \<longrightarrow> (\<exists>y. f x = Some y \<and> Q x y)"
  shows "\<exists>ys. run_all (\<lambda>x acc. if P x then do { y \<leftarrow> f x; Some (acc @ [y]) } else Some acc) xs acc = Some (acc @ ys) \<and>
    (\<forall>x\<in>set xs. P x \<longrightarrow> (\<exists>y\<in>set ys. Q x y)) \<and> (\<forall>y\<in>set ys. \<exists>x\<in>set xs. P x \<and> Q x y) \<and>
    list_all2 Q (filter P xs) ys"
  using assms
proof (induction xs arbitrary: acc)
  case (Cons x xs)
  show ?case
  proof (cases "P x")
    case True
    then obtain y where y: "f x = Some y" "Q x y" using Cons.prems by auto
    obtain ys where "run_all (\<lambda>x acc. if P x then do { y \<leftarrow> f x; Some (acc @ [y]) } else Some acc) xs (acc @ [y]) = Some ((acc @ [y]) @ ys)"
      "\<forall>x\<in>set xs. P x \<longrightarrow> (\<exists>y\<in>set ys. Q x y)" "\<forall>y\<in>set ys. \<exists>x\<in>set xs. P x \<and> Q x y" "list_all2 Q (filter P xs) ys"
      using Cons.IH [of "acc @ [y]"] Cons.prems by auto
    then show ?thesis using True y by (intro exI [of _ "y # ys"]) auto
  next
    case False
    then show ?thesis using Cons.IH [of acc] Cons.prems by simp
  qed
qed simp

text \<open>The call for a link has the machines to which the link is on a shortest route.\<close>

definition call_for :: "net_config \<Rightarrow> bool \<Rightarrow> topology \<Rightarrow> matrix \<Rightarrow> nat \<times> nat \<Rightarrow> link_call \<Rightarrow> bool" where
  "call_for c rc t D = (\<lambda>(i, j) call. call_link (m_nodes t) call = (i, j) \<and> nd_invar (machine_counts c) (call_entry call) \<and>
     call_wf (m_nodes t) rc call \<and> call_latency call = mat (topology_latency t) i j \<and> call_bw call = mat (topology_bw_multis t) i j \<and>
     nd_elems (call_entry call) = {m \<in> all_machines (machine_counts c).
       link_is_shortest_path_to_node i j (endpoint (machine_counts c) m) (topology_weights t) D})"

lemma topology_latency_mat:
  assumes "links_ok t"
  shows "square (num_switches t) (topology_latency t)" "(i, j) \<in> links t \<Longrightarrow> mat (topology_latency t) i j \<noteq> - 1"
proof -
  have len: "length (m_links_latency_vector t) = length (m_links_src_vector t)" using assms by (simp add: links_ok_def)
  have n: "0 < num_switches t" by (simp add: num_switches_def)
  show "square (num_switches t) (topology_latency t)"
    using fill_mat(1) [OF assms const_matrix(1) n n len] by (simp add: topology_latency_def)
  show "mat (topology_latency t) i j \<noteq> - 1" if "(i, j) \<in> links t"
    using fill_mat(2) [OF assms const_matrix(1) num_switches_bound [OF assms that] len that] assms
    unfolding links_ok_def topology_latency_def by blast
qed

lemma createLink_law:
  assumes "links_ok t" "(i, j) \<in> links t"
  shows "\<exists>call. createLink c rc t D (i, j) = Some call \<and> call_for c rc t D (i, j) call"
proof -
  obtain r where r: "shortest_path_to_node (machine_counts c) i j (topology_weights t) D = Some r"
    "nd_invar (machine_counts c) r"
    "nd_elems r = {m \<in> all_machines (machine_counts c).
       link_is_shortest_path_to_node i j (endpoint (machine_counts c) m) (topology_weights t) D}"
    using shortest_path_to_node_law by blast
  have "link_shape (m_nodes t) (m_number_of_switches t) (i, j)" using assms by (simp add: links_ok_def)
  then obtain call where "makeLink (m_nodes t) i j r (mat (topology_latency t) i j) (mat (topology_weights t) i j)
       (mat (topology_bw_multis t) i j) rc = Some call"
    "call_link (m_nodes t) call = (i, j)" "call_entry call = r" "call_latency call = mat (topology_latency t) i j"
    "call_bw call = mat (topology_bw_multis t) i j" "call_wf (m_nodes t) rc call" using makeLink_law by metis
  then show ?thesis using r topology_latency_mat(2) [OF assms] by (simp add: createLink_def call_for_def)
qed

lemma createLinks_law:
  assumes "links_ok t"
  shows "\<exists>calls t' D. createLinks c rc t = Some (calls, t') \<and> routed (num_switches t) (topology_weights t) D \<and>
    (\<forall>l\<in>links t. \<exists>call\<in>set calls. call_for c rc t D l call) \<and> (\<forall>call\<in>set calls. \<exists>l\<in>links t. call_for c rc t D l call) \<and>
    distinct (map (call_link (m_nodes t)) calls)"
proof -
  let ?n = "num_switches t" and ?W = "topology_weights t"
  obtain D L S where sp: "shortest_path ?W (topology_latency t) (const_matrix ?n 0) = Some (D, L, S)" "routed ?n ?W D"
    using shortest_path_run [OF topology_weights_ok(1) [OF assms] topology_latency_mat(1) [OF assms] const_matrix(1), of 0]
    by auto
  define P where "P = (\<lambda>(i, j). mat ?W i j > 0 \<and> mat ?W i j \<noteq> INFINITE_LATENCY)"
  have P: "P (i, j) \<longleftrightarrow> (i, j) \<in> links t" if "i < ?n" "j < ?n" for i j
    using topology_weights_mat(2,3) [OF assms that] unfolding P_def by (cases "(i, j) \<in> links t"; cases "i = j") auto
  then have "\<forall>x\<in>set (List.product [0..<?n] [0..<?n]). P x \<longrightarrow>
      (\<exists>call. createLink c rc t D x = Some call \<and> call_for c rc t D x call)"
    using createLink_law [OF assms] by auto
  from collect_run [OF this, of "[]"] obtain calls where calls:
      "run_all (\<lambda>x acc. if P x then do { y \<leftarrow> createLink c rc t D x; Some (acc @ [y]) } else Some acc)
         (List.product [0..<?n] [0..<?n]) [] = Some calls"
      "\<forall>x\<in>set (List.product [0..<?n] [0..<?n]). P x \<longrightarrow> (\<exists>y\<in>set calls. call_for c rc t D x y)"
      "\<forall>y\<in>set calls. \<exists>x\<in>set (List.product [0..<?n] [0..<?n]). P x \<and> call_for c rc t D x y"
      "list_all2 (call_for c rc t D) (filter P (List.product [0..<?n] [0..<?n])) calls" by auto
  have "map (call_link (m_nodes t)) ys = xs" if "list_all2 (call_for c rc t D) xs ys" for xs ys
    using that by (induction rule: list_all2_induct) (auto simp: call_for_def)
  from this [OF calls(4)] have "distinct (map (call_link (m_nodes t)) calls)" by (simp add: distinct_product)
  have "(\<lambda>(i, j) calls. if mat ?W i j > 0 \<and> mat ?W i j \<noteq> INFINITE_LATENCY
        then do { call \<leftarrow> createLink c rc t D (i, j); Some (calls @ [call]) } else Some calls) =
      (\<lambda>x acc. if P x then do { y \<leftarrow> createLink c rc t D x; Some (acc @ [y]) } else Some acc)"
    by (auto simp: P_def fun_eq_iff)
  then have "createLinks c rc t = Some (calls, t\<lparr>m_component_latencies := L, m_component_inter_switches := S\<rparr>)"
    using sp(1) calls(1) by (simp add: createLinks_def)
  moreover have "\<exists>call\<in>set calls. call_for c rc t D (i, j) call" if "(i, j) \<in> links t" for i j
    using calls(2) that num_switches_bound [OF assms that] P by fastforce
  moreover have "\<exists>l\<in>links t. call_for c rc t D l call" if "call \<in> set calls" for call
    using calls(3) that P by fastforce
  ultimately show ?thesis using sp(2) \<open>distinct _\<close> by fast
qed

lemma connected_entry:
  assumes "links_ok t" "routed (num_switches t) (topology_weights t) D" "\<forall>l\<in>links t. \<exists>call\<in>set calls. call_for c rc t D l call"
    and "m \<in> all_machines (machine_counts c)" "s < num_switches t" "endpoint (machine_counts c) m < num_switches t"
    and "s \<noteq> endpoint (machine_counts c) m" "set ks \<subseteq> {..<num_switches t}"
    and "route_sum (topology_weights t) s ks (endpoint (machine_counts c) m) < INFINITE_LATENCY"
  shows "\<exists>call\<in>set calls. fst (call_link (m_nodes t) call) = s \<and> m \<in> nd_elems (call_entry call)"
proof -
  let ?W = "topology_weights t" and ?e = "endpoint (machine_counts c) m"
  have "mat D s ?e < INFINITE_LATENCY" using routed_least [OF assms(2,5,6,8)] assms(9) by simp
  then obtain j where j: "j < num_switches t" "j \<noteq> s" "mat ?W s j < INFINITE_LATENCY"
      "link_is_shortest_path_to_node s j ?e ?W D"
    using next_link [OF topology_weights_ok(1) [OF assms(1)] assms(2,5,6,7)] by blast
  then have "(s, j) \<in> links t" using topology_weights_mat(3) [OF assms(1,5) j(1)] by (cases "(s, j) \<in> links t") auto
  then obtain call where "call \<in> set calls" "call_for c rc t D (s, j) call" using assms(3) by blast
  then show ?thesis using j(4) assms(4) by (intro bexI [of _ call]) (auto simp: call_for_def)
qed

section \<open>The crossbar\<close>

definition uniform :: "int \<Rightarrow> topology \<Rightarrow> bool" where
  "uniform L t \<longleftrightarrow> links_ok t \<and> set (m_links_weight_vector t) \<subseteq> {L} \<and> set (m_links_latency_vector t) \<subseteq> {L} \<and>
     set (m_bw_multiplier_vector t) \<subseteq> {DEFAULT_BW_MULTIPLIER}"

definition Topology_new :: "nat \<Rightarrow> topology" where
  "Topology_new number_of_nodes = \<lparr>m_nodes = number_of_nodes, m_number_of_switches = 0, m_links_src_vector = [],
     m_links_dest_vector = [], m_links_latency_vector = [], m_links_weight_vector = [], m_bw_multiplier_vector = [],
     m_component_latencies = [], m_component_inter_switches = []\<rparr>"

lemma uniform_new [simp]: "uniform L (Topology_new n)"
  by (simp add: uniform_def links_ok_def links_def Topology_new_def)

lemma newSwitchID_law:
  assumes "uniform L t"
  shows "\<exists>t'. newSwitchID t = (2 * m_nodes t + m_number_of_switches t, t') \<and> uniform L t' \<and> links t' = links t \<and>
    m_nodes t' = m_nodes t \<and> m_number_of_switches t' = m_number_of_switches t + 1"
proof -
  let ?t = "t\<lparr>m_number_of_switches := m_number_of_switches t + 1\<rparr>"
  have l: "links ?t = links t" by (simp add: links_def)
  have "link_shape n (k + 1) x" if "link_shape n k x" for n k x using that by (auto simp: link_shape_def)
  then have "uniform L ?t" using assms unfolding uniform_def links_ok_def l by simp
  then show ?thesis using l by (intro exI [of _ ?t]) (simp add: newSwitchID_def Let_def)
qed

lemma addLink_law:
  assumes "uniform L t" "0 < L" "L < INFINITE_LATENCY" "link_shape (m_nodes t) (m_number_of_switches t) (s, d)"
  shows "\<exists>t'. addLink s d L t = Some t' \<and> uniform L t' \<and> links t' = insert (s, d) (links t) \<and>
    m_nodes t' = m_nodes t \<and> m_number_of_switches t' = m_number_of_switches t"
proof -
  let ?t = "t\<lparr>m_links_src_vector := m_links_src_vector t @ [s], m_links_dest_vector := m_links_dest_vector t @ [d],
    m_links_latency_vector := m_links_latency_vector t @ [L], m_links_weight_vector := m_links_weight_vector t @ [L],
    m_bw_multiplier_vector := m_bw_multiplier_vector t @ [DEFAULT_BW_MULTIPLIER]\<rparr>"
  have run: "addLink s d L t = Some ?t"
    using assms(4) by (simp add: addLink_def addLink_weight_def link_shape_def)
  have l: "links ?t = insert (s, d) (links t)" using assms(1) by (simp add: links_def uniform_def links_ok_def)
  then have "uniform L ?t" using assms unfolding uniform_def links_ok_def l by simp
  then show ?thesis using run l by simp
qed

lemma addLink_run:
  assumes "uniform L t" "0 < L" "L < INFINITE_LATENCY" "\<forall>x\<in>set xs. link_shape (m_nodes t) (m_number_of_switches t) (f x, g x)"
  shows "\<exists>t'. run_all (\<lambda>x. addLink (f x) (g x) L) xs t = Some t' \<and> uniform L t' \<and>
    links t' = links t \<union> (\<lambda>x. (f x, g x)) ` set xs \<and>
    m_nodes t' = m_nodes t \<and> m_number_of_switches t' = m_number_of_switches t"
  using assms(1,4)
proof (induction xs arbitrary: t)
  case (Cons x xs)
  obtain t1 where t1: "addLink (f x) (g x) L t = Some t1" "uniform L t1" "links t1 = insert (f x, g x) (links t)"
      "m_nodes t1 = m_nodes t" "m_number_of_switches t1 = m_number_of_switches t"
    using addLink_law [OF Cons.prems(1) assms(2,3), of "f x" "g x"] Cons.prems(2) by auto
  then show ?case using Cons.IH [OF t1(2)] Cons.prems(2) by auto
qed simp

lemma run_upt:
  assumes "P 0 s" "\<And>i s. i < k \<Longrightarrow> P i s \<Longrightarrow> \<exists>s'. f i s = Some s' \<and> P (Suc i) s'"
  shows "\<exists>s'. run_all f [0..<k] s = Some s' \<and> P k s'"
  using assms(2)
proof (induction k)
  case (Suc k)
  then obtain s1 where "run_all f [0..<k] s = Some s1" "P k s1" by force
  then show ?case using Suc.prems [of k s1] by (auto simp: run_all_append)
qed (use assms(1) in simp)

text \<open>The switches below the root: each one is in the last level or linked to it, and the machines
  \<open>N\<close> have a link into the network.\<close>

definition below_root :: "int \<Rightarrow> nat \<Rightarrow> nat set \<Rightarrow> nat list \<times> topology \<Rightarrow> bool" where
  "below_root L n N = (\<lambda>(last_level, t). uniform L t \<and> m_nodes t = n \<and>
     set last_level \<subseteq> {2 * n..<2 * n + m_number_of_switches t} \<and>
     (\<forall>s\<in>{2 * n..<2 * n + m_number_of_switches t}. s \<in> set last_level \<or> (\<exists>l\<in>set last_level. (s, l) \<in> links t)) \<and>
     (\<forall>a\<in>N. \<exists>s. 2 * n \<le> s \<and> (a, s) \<in> links t) \<and> (\<forall>(a, s)\<in>links t. 2 * n \<le> s \<and> (a < n \<longrightarrow> a \<in> N)) \<and>
     (\<forall>a<n. \<forall>s s'. (a, s) \<in> links t \<longrightarrow> (a, s') \<in> links t \<longrightarrow> s = s'))"

lemma below_root_extend:
  assumes "below_root L n N (last_level, t)" "uniform L t'" "m_nodes t' = n" "links t \<subseteq> links t'"
    and "set last_level \<subseteq> set last_level'" "set last_level' \<subseteq> {2 * n..<2 * n + m_number_of_switches t'}"
    and "\<And>s. 2 * n + m_number_of_switches t \<le> s \<Longrightarrow> s < 2 * n + m_number_of_switches t' \<Longrightarrow>
      s \<in> set last_level' \<or> (\<exists>l\<in>set last_level'. (s, l) \<in> links t')"
    and "(a, b) \<in> links t'" "2 * n \<le> b" "links t' \<subseteq> insert (a, b) (links t \<union> {2 * n..} \<times> {2 * n..})" "a \<notin> N" "a < n"
  shows "below_root L n (insert a N) (last_level', t')"
proof -
  have old: "s \<in> set last_level \<or> (\<exists>l\<in>set last_level. (s, l) \<in> links t)"
    if "2 * n \<le> s" "s < 2 * n + m_number_of_switches t" for s using that assms(1) by (simp add: below_root_def)
  have "s \<in> set last_level' \<or> (\<exists>l\<in>set last_level'. (s, l) \<in> links t')"
    if "2 * n \<le> s" "s < 2 * n + m_number_of_switches t'" for s
  proof (cases "s < 2 * n + m_number_of_switches t")
    case True
    then show ?thesis using old [OF that(1)] assms(4,5) by blast
  qed (use that(2) assms(7) [of s] in simp)
  moreover have "\<exists>s. 2 * n \<le> s \<and> (x, s) \<in> links t'" if "x \<in> insert a N" for x
    using that assms(1,4,8,9) unfolding below_root_def by blast
  moreover have "2 * n \<le> s \<and> (x < n \<longrightarrow> x \<in> insert a N)" if "(x, s) \<in> links t'" for x s
    using assms(1,9,10) that unfolding below_root_def by fastforce
  moreover have "s = s'" if "x < n" "(x, s) \<in> links t'" "(x, s') \<in> links t'" for x s s'
  proof -
    have "(x, s) \<in> insert (a, b) (links t)" "(x, s') \<in> insert (a, b) (links t)" using assms(10) that by auto
    moreover have "(a, r) \<notin> links t" for r using assms(1,11,12) unfolding below_root_def by blast
    ultimately show ?thesis using assms(1) that(1) unfolding below_root_def by blast
  qed
  ultimately show ?thesis using assms(2,3,6) by (simp add: below_root_def) blast
qed

lemma crossbar_leaf_law:
  assumes "below_root L n N (last_level, t)" "0 < L" "L < INFINITE_LATENCY" "NETWORK_LINK_LATENCY c = L"
    "base_number (machine_counts c) mType + i < n" "base_number (machine_counts c) mType + i \<notin> N"
  shows "\<exists>s. crossbar_leaf c mType i (last_level, t) = Some s \<and>
    below_root L n (insert (base_number (machine_counts c) mType + i) N) s"
proof -
  let ?a = "base_number (machine_counts c) mType + i" and ?k = "m_number_of_switches t"
  have inv: "uniform L t" "m_nodes t = n" using assms(1) by (simp_all add: below_root_def)
  obtain t1 where t1: "newSwitchID t = (2 * n + ?k, t1)" "uniform L t1" "links t1 = links t"
      "m_nodes t1 = n" "m_number_of_switches t1 = ?k + 1" using newSwitchID_law [OF inv(1)] inv(2) by auto
  have "link_shape (m_nodes t1) (m_number_of_switches t1) (?a, 2 * n + ?k)"
    using t1(4,5) assms(5) by (auto simp: link_shape_def)
  then obtain t2 where t2: "addLink ?a (2 * n + ?k) L t1 = Some t2" "uniform L t2"
      "links t2 = insert (?a, 2 * n + ?k) (links t1)" "m_nodes t2 = n" "m_number_of_switches t2 = ?k + 1"
    using addLink_law [OF t1(2) assms(2,3)] t1(4,5) by metis
  have "crossbar_leaf c mType i (last_level, t) = Some (last_level @ [2 * n + ?k], t2)"
    using t1(1) t2(1) assms(4) by (simp add: crossbar_leaf_def)
  moreover have "below_root L n (insert ?a N) (last_level @ [2 * n + ?k], t2)"
    by (rule below_root_extend [OF assms(1) t2(2,4), where b = "2 * n + ?k"])
      (use assms(1,5,6) t2(3,5) t1(3) in \<open>auto simp: below_root_def\<close>)
  ultimately show ?thesis by blast
qed

lemma cluster_law:
  assumes "below_root L n N (last_level, t)" "last_level \<noteq> [] \<or> i mod g = 0"
  obtains ll t1 where "(if i mod g = 0
       then (let (new_switch_cluster, t) = newSwitchID t in (last_level @ [new_switch_cluster], t))
       else (last_level, t)) = (ll, t1)" "ll \<noteq> []" "uniform L t1" "links t1 = links t" "m_nodes t1 = n"
    "set last_level \<subseteq> set ll" "m_number_of_switches t \<le> m_number_of_switches t1"
    "set ll \<subseteq> {2 * n..<2 * n + m_number_of_switches t1}"
    "\<And>s. 2 * n + m_number_of_switches t \<le> s \<Longrightarrow> s < 2 * n + m_number_of_switches t1 \<Longrightarrow> s \<in> set ll"
proof -
  have inv: "uniform L t" "m_nodes t = n" "set last_level \<subseteq> {2 * n..<2 * n + m_number_of_switches t}"
    using assms(1) by (simp_all add: below_root_def)
  show thesis
  proof (cases "i mod g = 0")
    case True
    obtain t1 where t1: "newSwitchID t = (2 * n + m_number_of_switches t, t1)" "uniform L t1" "links t1 = links t"
      "m_nodes t1 = n" "m_number_of_switches t1 = m_number_of_switches t + 1" using newSwitchID_law [OF inv(1)] inv(2) by auto
    show thesis
      by (rule that [of "last_level @ [2 * n + m_number_of_switches t]" t1]) (use True t1 inv(3) in auto)
  next
    case False
    show thesis by (rule that [of last_level t]) (use False assms(2) inv in auto)
  qed
qed

lemma crossbar_L1_law:
  assumes "below_root L n N (last_level, t)" "0 < L" "L < INFINITE_LATENCY" "NETWORK_LINK_LATENCY c = L"
    "base_number (machine_counts c) (type_L1Cache c) + i < n" "last_level \<noteq> [] \<or> i mod g_PROCS_PER_CLUSTER c = 0"
    "base_number (machine_counts c) (type_L1Cache c) + i \<notin> N" "g_PROCS_PER_CLUSTER c \<noteq> 0"
  shows "\<exists>last_level' t'. crossbar_L1 c i (last_level, t) = Some (last_level', t') \<and> last_level' \<noteq> [] \<and>
    below_root L n (insert (base_number (machine_counts c) (type_L1Cache c) + i) N) (last_level', t')"
proof -
  let ?a = "base_number (machine_counts c) (type_L1Cache c) + i"
  obtain ll t1 where c1: "(if i mod g_PROCS_PER_CLUSTER c = 0
           then (let (new_switch_cluster, t) = newSwitchID t in (last_level @ [new_switch_cluster], t))
           else (last_level, t)) = (ll, t1)" "ll \<noteq> []" "uniform L t1" "links t1 = links t" "m_nodes t1 = n"
      "set last_level \<subseteq> set ll" "m_number_of_switches t \<le> m_number_of_switches t1"
      "set ll \<subseteq> {2 * n..<2 * n + m_number_of_switches t1}"
      "\<And>s. 2 * n + m_number_of_switches t \<le> s \<Longrightarrow> s < 2 * n + m_number_of_switches t1 \<Longrightarrow> s \<in> set ll"
    by (rule cluster_law [OF assms(1,6)]) blast
  let ?k = "m_number_of_switches t1"
  obtain t2 where t2: "newSwitchID t1 = (2 * n + ?k, t2)" "uniform L t2" "links t2 = links t1"
      "m_nodes t2 = n" "m_number_of_switches t2 = ?k + 1" using newSwitchID_law [OF c1(3)] c1(5) by auto
  have ll: "last ll \<in> {2 * n..<2 * n + ?k}" using c1(2,8) last_in_set by blast
  have "link_shape (m_nodes t2) (m_number_of_switches t2) (?a, 2 * n + ?k)"
    using t2(4,5) assms(5) by (auto simp: link_shape_def)
  then obtain t3 where t3: "addLink ?a (2 * n + ?k) L t2 = Some t3" "uniform L t3"
      "links t3 = insert (?a, 2 * n + ?k) (links t2)" "m_nodes t3 = n" "m_number_of_switches t3 = ?k + 1"
    using addLink_law [OF t2(2) assms(2,3)] t2(4,5) by metis
  have "link_shape (m_nodes t3) (m_number_of_switches t3) (2 * n + ?k, last ll)"
    using t3(4,5) ll by (auto simp: link_shape_def)
  then obtain t4 where t4: "addLink (2 * n + ?k) (last ll) L t3 = Some t4" "uniform L t4"
      "links t4 = insert (2 * n + ?k, last ll) (links t3)" "m_nodes t4 = n" "m_number_of_switches t4 = ?k + 1"
    using addLink_law [OF t3(2) assms(2,3)] t3(4,5) by metis
  have "crossbar_L1 c i (last_level, t) = Some (ll, t4)"
    using c1(1,2) t2(1) t3(1) t4(1) assms(4,8) by (simp add: crossbar_L1_def)
  moreover have "below_root L n (insert ?a N) (ll, t4)"
  proof (rule below_root_extend [OF assms(1) t4(2,4) _ c1(6), where b = "2 * n + ?k"])
    show "s \<in> set ll \<or> (\<exists>l\<in>set ll. (s, l) \<in> links t4)"
      if "2 * n + m_number_of_switches t \<le> s" "s < 2 * n + m_number_of_switches t4" for s
      using that c1(2) c1(9) [of s] t4(3,5) by (cases "s = 2 * n + ?k") auto
  qed (use assms(5,7) c1(4,8) t2(3) t3(3) t4(3,5) ll in auto)
  ultimately show ?thesis using c1(2) by blast
qed

definition nodes_of :: "net_config \<Rightarrow> nat \<Rightarrow> nat \<Rightarrow> nat set" where
  "nodes_of c mType k = (\<lambda>i. base_number (machine_counts c) mType + i) ` {..<k}"

text \<open>Configurations whose machines are those of the three types the crossbar connects.\<close>

definition crossbar_config :: "net_config \<Rightarrow> bool" where
  "crossbar_config c \<longleftrightarrow> 0 < NETWORK_LINK_LATENCY c \<and> 3 * NETWORK_LINK_LATENCY c < INFINITE_LATENCY \<and>
     (0 < numberOfL1CachePerChip c \<longrightarrow> g_PROCS_PER_CLUSTER c \<noteq> 0) \<and>
     base_number (machine_counts c) (type_L1Cache c) + numberOfL1CachePerChip c \<le> sum_list (machine_counts c) \<and>
     base_number (machine_counts c) (type_L2Cache c) + numberOfL2CachePerChip c \<le> sum_list (machine_counts c) \<and>
     base_number (machine_counts c) (type_Directory c) + numberOfDirectoryPerChip c \<le> sum_list (machine_counts c) \<and>
     nodes_of c (type_L1Cache c) (numberOfL1CachePerChip c) \<inter> nodes_of c (type_L2Cache c) (numberOfL2CachePerChip c) = {} \<and>
     (nodes_of c (type_L1Cache c) (numberOfL1CachePerChip c) \<union> nodes_of c (type_L2Cache c) (numberOfL2CachePerChip c)) \<inter>
       nodes_of c (type_Directory c) (numberOfDirectoryPerChip c) = {}"

lemma nodes_of_Suc: "nodes_of c mType (Suc k) = insert (base_number (machine_counts c) mType + k) (nodes_of c mType k)"
  by (simp add: nodes_of_def lessThan_Suc)

lemma crossbar_leaves_run:
  assumes "below_root L n N s" "0 < L" "L < INFINITE_LATENCY" "NETWORK_LINK_LATENCY c = L"
    "base_number (machine_counts c) mType + k \<le> n" "nodes_of c mType k \<inter> N = {}"
  shows "\<exists>s'. run_all (crossbar_leaf c mType) [0..<k] s = Some s' \<and> below_root L n (nodes_of c mType k \<union> N) s'"
proof (rule run_upt [where P = "\<lambda>i s. below_root L n (nodes_of c mType i \<union> N) s"])
  fix i s assume i: "i < k" "below_root L n (nodes_of c mType i \<union> N) s"
  then have "base_number (machine_counts c) mType + i \<notin> nodes_of c mType i \<union> N" using assms(6) by (auto simp: nodes_of_def)
  with i show "\<exists>s'. crossbar_leaf c mType i s = Some s' \<and> below_root L n (nodes_of c mType (Suc i) \<union> N) s'"
    using crossbar_leaf_law [OF _ assms(2-4), of n _ "fst s" "snd s" mType i] assms(5) by (simp add: nodes_of_Suc)
qed (use assms(1) in \<open>simp add: nodes_of_def\<close>)

lemma crossbar_L1_run:
  assumes "below_root L n {} ([], t)" "0 < L" "L < INFINITE_LATENCY" "NETWORK_LINK_LATENCY c = L"
    "base_number (machine_counts c) (type_L1Cache c) + k \<le> n" "0 < k \<longrightarrow> g_PROCS_PER_CLUSTER c \<noteq> 0"
  shows "\<exists>s'. run_all (crossbar_L1 c) [0..<k] ([], t) = Some s' \<and> below_root L n (nodes_of c (type_L1Cache c) k) s'"
proof -
  let ?P = "\<lambda>i s. below_root L n (nodes_of c (type_L1Cache c) i) s \<and> (0 < i \<longrightarrow> fst s \<noteq> [])"
  have "\<exists>s'. crossbar_L1 c i s = Some s' \<and> ?P (Suc i) s'" if i: "i < k" "?P i s" for i s
  proof -
    have fresh: "base_number (machine_counts c) (type_L1Cache c) + i \<notin> nodes_of c (type_L1Cache c) i" by (auto simp: nodes_of_def)
    have "fst s \<noteq> [] \<or> i mod g_PROCS_PER_CLUSTER c = 0" using i(2) by (cases "i = 0") auto
    then obtain last_level' t' where "crossbar_L1 c i (fst s, snd s) = Some (last_level', t')" "last_level' \<noteq> []"
        "below_root L n (nodes_of c (type_L1Cache c) (Suc i)) (last_level', t')"
      using crossbar_L1_law [OF _ assms(2-4), of n "nodes_of c (type_L1Cache c) i" "fst s" "snd s" i] i assms(5,6) fresh
      unfolding nodes_of_Suc by auto
    then show ?thesis by simp
  qed
  then show ?thesis using run_upt [of ?P "([], t)" k "crossbar_L1 c"] assms(1) by (auto simp: nodes_of_def)
qed

definition crossbar_shape :: "int \<Rightarrow> nat \<Rightarrow> nat \<Rightarrow> topology \<Rightarrow> bool" where
  "crossbar_shape L n root t \<longleftrightarrow> uniform L t \<and> m_nodes t = n \<and> 2 * n \<le> root \<and>
     (\<forall>s. 2 * n \<le> s \<and> s < 2 * n + m_number_of_switches t \<longrightarrow>
        s = root \<or> (s, root) \<in> links t \<or> (\<exists>l. (s, l) \<in> links t \<and> (l, root) \<in> links t)) \<and>
     (\<forall>i<n. (root, n + i) \<in> links t) \<and>
     (\<forall>a<n. \<forall>s s'. (a, s) \<in> links t \<longrightarrow> (a, s') \<in> links t \<longrightarrow> s = s') \<and>
     (\<forall>(s, d)\<in>links t. d < 2 * n \<longrightarrow> s = root)"

lemma crossbar_links:
  assumes "crossbar_config c" "n = sum_list (machine_counts c)" "L = NETWORK_LINK_LATENCY c"
  obtains t root where "makeGPGPUSimCrossbar c (Topology_new n) = Some t" "crossbar_shape L n root t"
    "\<And>a. a \<in> nodes_of c (type_L1Cache c) (numberOfL1CachePerChip c) \<union> nodes_of c (type_L2Cache c) (numberOfL2CachePerChip c) \<union>
        nodes_of c (type_Directory c) (numberOfDirectoryPerChip c) \<Longrightarrow> \<exists>s. 2 * n \<le> s \<and> (a, s) \<in> links t"
proof -
  have L: "0 < L" "L < INFINITE_LATENCY" using assms(1,3) by (auto simp: crossbar_config_def)
  have room: "base_number (machine_counts c) (type_L1Cache c) + numberOfL1CachePerChip c \<le> n"
      "base_number (machine_counts c) (type_L2Cache c) + numberOfL2CachePerChip c \<le> n"
      "base_number (machine_counts c) (type_Directory c) + numberOfDirectoryPerChip c \<le> n"
      "nodes_of c (type_L2Cache c) (numberOfL2CachePerChip c) \<inter> nodes_of c (type_L1Cache c) (numberOfL1CachePerChip c) = {}"
      "nodes_of c (type_Directory c) (numberOfDirectoryPerChip c) \<inter>
        (nodes_of c (type_L2Cache c) (numberOfL2CachePerChip c) \<union> nodes_of c (type_L1Cache c) (numberOfL1CachePerChip c)) = {}"
    using assms(1,2) unfolding crossbar_config_def by blast+
  have cluster: "0 < numberOfL1CachePerChip c \<longrightarrow> g_PROCS_PER_CLUSTER c \<noteq> 0" using assms(1) unfolding crossbar_config_def by blast
  have "below_root L n {} ([], Topology_new n)" by (simp add: below_root_def) (simp add: Topology_new_def links_def)
  then obtain s1 where s1: "run_all (crossbar_L1 c) [0..<numberOfL1CachePerChip c] ([], Topology_new n) = Some s1"
      "below_root L n (nodes_of c (type_L1Cache c) (numberOfL1CachePerChip c)) s1"
    using crossbar_L1_run [OF _ L assms(3) [symmetric] room(1) cluster] by blast
  then obtain s2 where s2: "run_all (crossbar_leaf c (type_L2Cache c)) [0..<numberOfL2CachePerChip c] s1 = Some s2"
      "below_root L n (nodes_of c (type_L2Cache c) (numberOfL2CachePerChip c) \<union> nodes_of c (type_L1Cache c) (numberOfL1CachePerChip c)) s2"
    using crossbar_leaves_run [OF _ L assms(3) [symmetric] room(2,4)] by blast
  then obtain ll t3 where s3: "run_all (crossbar_leaf c (type_Directory c)) [0..<numberOfDirectoryPerChip c] s2 = Some (ll, t3)"
      and b3: "below_root L n (nodes_of c (type_Directory c) (numberOfDirectoryPerChip c) \<union>
        (nodes_of c (type_L2Cache c) (numberOfL2CachePerChip c) \<union> nodes_of c (type_L1Cache c) (numberOfL1CachePerChip c))) (ll, t3)"
    using crossbar_leaves_run [OF _ L assms(3) [symmetric] room(3,5)] by (metis surj_pair)
  have t3: "uniform L t3" "m_nodes t3 = n" "set ll \<subseteq> {2 * n..<2 * n + m_number_of_switches t3}"
    using b3 by (simp_all add: below_root_def)
  define root where "root = 2 * n + m_number_of_switches t3"
  obtain t4 where t4: "newSwitchID t3 = (root, t4)" "uniform L t4" "links t4 = links t3" "m_nodes t4 = n"
      "2 * n + m_number_of_switches t4 = Suc root" using newSwitchID_law [OF t3(1)] t3(2) by (auto simp: root_def)
  have "\<forall>s\<in>set ll. link_shape (m_nodes t4) (m_number_of_switches t4) (s, root)"
    using t3(3) t4(4,5) by (auto simp: link_shape_def root_def)
  then obtain t5 where t5: "run_all (\<lambda>s. addLink s root L) ll t4 = Some t5" "uniform L t5"
      "links t5 = links t4 \<union> (\<lambda>s. (s, root)) ` set ll" "m_nodes t5 = n" "2 * n + m_number_of_switches t5 = Suc root"
    using addLink_run [OF t4(2) L, of ll "\<lambda>s. s" "\<lambda>_. root"] t4(4,5) by auto
  have "\<forall>s\<in>set (map (\<lambda>i. m_nodes t5 + i) [0..<m_nodes t5]). link_shape (m_nodes t5) (m_number_of_switches t5) (root, s)"
    using t5(4,5) by (auto simp: link_shape_def root_def)
  then obtain t where t: "run_all (\<lambda>s. addLink root s L) (map (\<lambda>i. m_nodes t5 + i) [0..<m_nodes t5]) t5 = Some t"
      "uniform L t" "links t = links t5 \<union> (\<lambda>s. (root, s)) ` set (map (\<lambda>i. m_nodes t5 + i) [0..<m_nodes t5])"
      "m_nodes t = n" "2 * n + m_number_of_switches t = Suc root"
    using addLink_run [OF t5(2) L, of _ "\<lambda>_. root" "\<lambda>s. s"] t5(4,5) by metis
  have sub: "links t3 \<subseteq> links t" "(\<lambda>s. (s, root)) ` set ll \<subseteq> links t" using t(3) t5(3) t4(3) by auto
  show thesis
  proof (rule that [of t root])
    show "makeGPGPUSimCrossbar c (Topology_new n) = Some t"
      using s1(1) s2(1) s3 t4(1) t5(1) t(1) assms(3) by (simp add: makeGPGPUSimCrossbar_def)
    have way: "s = root \<or> (s, root) \<in> links t \<or> (\<exists>l. (s, l) \<in> links t \<and> (l, root) \<in> links t)"
      if "2 * n \<le> s" "s < 2 * n + m_number_of_switches t" for s
    proof (cases "s = root")
      case False
      then have "s \<in> set ll \<or> (\<exists>l\<in>set ll. (s, l) \<in> links t3)" using that t(5) b3 by (simp add: below_root_def root_def)
      then show ?thesis using sub by blast
    qed simp
    have outs: "(root, n + i) \<in> links t" if "i < n" for i using that t(3) t5(4) by auto
    have all: "links t = links t3 \<union> (\<lambda>s. (s, root)) ` set ll \<union> (\<lambda>s. (root, s)) ` set (map (\<lambda>i. m_nodes t5 + i) [0..<m_nodes t5])"
      using t(3) t5(3) t4(3) by auto
    have one_in: "s = s'" if "a < n" "(a, s) \<in> links t" "(a, s') \<in> links t" for a s s'
    proof -
      have "(a, s) \<in> links t3" "(a, s') \<in> links t3" using that all t3(3) by (auto simp: root_def)
      then show ?thesis using b3 that(1) unfolding below_root_def by blast
    qed
    have one_out: "s = root" if "(s, d) \<in> links t" "d < 2 * n" for s d
      using that all b3 by (auto simp: below_root_def root_def)
    show "crossbar_shape L n root t"
      unfolding crossbar_shape_def using t(2,4) way outs one_in one_out by (auto simp: root_def)
    show "\<exists>s. 2 * n \<le> s \<and> (a, s) \<in> links t"
      if "a \<in> nodes_of c (type_L1Cache c) (numberOfL1CachePerChip c) \<union> nodes_of c (type_L2Cache c) (numberOfL2CachePerChip c) \<union>
        nodes_of c (type_Directory c) (numberOfDirectoryPerChip c)" for a
      using b3 that sub(1) unfolding below_root_def by blast
  qed
qed

lemma crossbar_weight:
  assumes "uniform L t" "(a, b) \<in> links t" shows "mat (topology_weights t) a b = L"
proof -
  have ok: "links_ok t" using assms(1) by (simp add: uniform_def)
  show ?thesis using topology_weights_mat(4) [OF ok num_switches_bound [OF ok assms(2)] assms(2)] assms(1) by (auto simp: uniform_def)
qed

text \<open>Every switch of the crossbar knows a way to every machine.\<close>

lemma crossbar_entry:
  assumes "crossbar_shape L n root t" "0 < L" "3 * L < INFINITE_LATENCY" "n = sum_list (machine_counts c)"
    "routed (num_switches t) (topology_weights t) D" "\<forall>l\<in>links t. \<exists>call\<in>set calls. call_for c rc t D l call"
    "s < m_number_of_switches t" "m \<in> all_machines (machine_counts c)"
  shows "\<exists>call\<in>set calls. fst (call_link n call) = s + 2 * n \<and> m \<in> nd_elems (call_entry call)"
proof -
  let ?e = "endpoint (machine_counts c) m" and ?N = "{..<num_switches t}" and ?W = "topology_weights t"
  have t: "uniform L t" "m_nodes t = n" using assms(1) by (simp_all add: crossbar_shape_def)
  then have ok: "links_ok t" by (simp add: uniform_def)
  note w = crossbar_weight [OF t(1)] and bound = num_switches_bound [OF ok]
  have "?e = n + (base_number (machine_counts c) (fst m) + snd m)" "base_number (machine_counts c) (fst m) + snd m < n"
    using machine_index_less [OF assms(8)] assms(4) by (simp_all add: endpoint_def)
  then have re: "(root, ?e) \<in> links t" "?e < 2 * n" using assms(1) by (simp_all add: crossbar_shape_def)
  have "s + 2 * n = root \<or> (s + 2 * n, root) \<in> links t \<or> (\<exists>l. (s + 2 * n, l) \<in> links t \<and> (l, root) \<in> links t)"
    using assms(1,7) by (simp add: crossbar_shape_def)
  then have "\<exists>ks. set ks \<subseteq> ?N \<and> s + 2 * n \<in> ?N \<and> route_sum ?W (s + 2 * n) ks ?e < INFINITE_LATENCY"
  proof (elim disjE exE conjE)
    assume "s + 2 * n = root"
    then show ?thesis using re(1) w assms(2,3) bound [OF re(1)] by (intro exI [of _ "[]"]) simp
  next
    assume "(s + 2 * n, root) \<in> links t"
    then show ?thesis using re(1) w assms(2,3) bound by (intro exI [of _ "[root]"]) simp
  next
    fix l assume "(s + 2 * n, l) \<in> links t" "(l, root) \<in> links t"
    then show ?thesis using re(1) w assms(2,3) bound by (intro exI [of _ "[l, root]"]) simp
  qed
  then obtain ks where "set ks \<subseteq> ?N" "s + 2 * n < num_switches t" "route_sum ?W (s + 2 * n) ks ?e < INFINITE_LATENCY" by auto
  then show ?thesis
    using connected_entry [OF ok assms(5,6,8) _ bound(2) [OF re(1)]] re(2) t(2) by fastforce
qed

text \<open>C13. The crossbar of the GPU routes everything.  For a configuration whose link latency is positive and
  small, whose clusters are not empty and whose caches and directories are different machines, \<open>makeGPGPUSimCrossbar\<close> and \<open>createLinks\<close> succeed; every L1 cache, bank and directory gets a link into
  the network; and every switch has, for every machine of the system, an outgoing link whose routing entry contains
  the machine, so that no message gets stuck at a switch that does not know its destination.\<close>

theorem crossbar_routes_all:
  assumes "crossbar_config c"
  shows "\<exists>t calls t'. makeGPGPUSimCrossbar c (Topology_new (sum_list (machine_counts c))) = Some t \<and>
    createLinks c isReconfiguration t = Some (calls, t') \<and>
    (\<forall>a\<in>nodes_of c (type_L1Cache c) (numberOfL1CachePerChip c) \<union> nodes_of c (type_L2Cache c) (numberOfL2CachePerChip c) \<union>
        nodes_of c (type_Directory c) (numberOfDirectoryPerChip c).
       \<exists>call\<in>set calls. fst (call_link (sum_list (machine_counts c)) call) = a) \<and>
    (\<forall>s<m_number_of_switches t. \<forall>m\<in>all_machines (machine_counts c).
       \<exists>call\<in>set calls. fst (call_link (sum_list (machine_counts c)) call) = s + 2 * sum_list (machine_counts c) \<and>
         m \<in> nd_elems (call_entry call))"
proof -
  define n L where "n = sum_list (machine_counts c)" and "L = NETWORK_LINK_LATENCY c"
  have L: "0 < L" "3 * L < INFINITE_LATENCY" using assms by (simp_all add: crossbar_config_def L_def)
  obtain t root where t: "makeGPGPUSimCrossbar c (Topology_new n) = Some t" "crossbar_shape L n root t"
    "\<And>a. a \<in> nodes_of c (type_L1Cache c) (numberOfL1CachePerChip c) \<union> nodes_of c (type_L2Cache c) (numberOfL2CachePerChip c) \<union>
        nodes_of c (type_Directory c) (numberOfDirectoryPerChip c) \<Longrightarrow> \<exists>s. 2 * n \<le> s \<and> (a, s) \<in> links t"
    by (rule crossbar_links [OF assms n_def L_def]) blast
  have ok: "links_ok t" "m_nodes t = n" using t(2) by (simp_all add: crossbar_shape_def uniform_def)
  obtain calls t' D where calls: "createLinks c isReconfiguration t = Some (calls, t')"
      "routed (num_switches t) (topology_weights t) D" "\<forall>l\<in>links t. \<exists>call\<in>set calls. call_for c isReconfiguration t D l call"
    using createLinks_law [OF ok(1), of c isReconfiguration] by (elim exE conjE)
  have "\<exists>call\<in>set calls. fst (call_link n call) = a"
    if a: "a \<in> nodes_of c (type_L1Cache c) (numberOfL1CachePerChip c) \<union> nodes_of c (type_L2Cache c) (numberOfL2CachePerChip c) \<union>
        nodes_of c (type_Directory c) (numberOfDirectoryPerChip c)" for a
  proof -
    obtain x where "(a, x) \<in> links t" using t(3) [OF a] by blast
    then obtain call where "call \<in> set calls" "call_for c isReconfiguration t D (a, x) call" using calls(3) by blast
    then show ?thesis using ok(2) by (intro bexI [of _ call]) (simp_all add: call_for_def)
  qed
  then show ?thesis using t(1) calls(1) crossbar_entry [OF t(2) L n_def calls(2,3)] unfolding n_def by blast
qed

definition sample_net :: net_config where
  "sample_net = \<lparr>machine_counts = [16, 8, 4], type_L1Cache = 0, type_L2Cache = 1, type_Directory = 2, base_level_NUM = 3,
     chip_count = (\<lambda>m _. [16, 8, 4] ! m), numberOfChips = 1, numberOfL1CachePerChip = 16, numberOfL2CachePerChip = 8,
     numberOfDirectoryPerChip = 4, NETWORK_LINK_LATENCY = 1, ON_CHIP_LINK_LATENCY = 1, FAN_OUT_DEGREE = 4,
     g_PROCS_PER_CLUSTER = 4\<rparr>"

lemma sample_net_config: "crossbar_config sample_net"
  by (auto simp: crossbar_config_def sample_net_def base_number_def INFINITE_LATENCY_def nodes_of_def)

lemma crossbar_routes_all_witness:
  "\<exists>t calls t'. makeGPGPUSimCrossbar sample_net (Topology_new (sum_list (machine_counts sample_net))) = Some t \<and>
    createLinks sample_net False t = Some (calls, t') \<and>
    (\<forall>a\<in>nodes_of sample_net (type_L1Cache sample_net) (numberOfL1CachePerChip sample_net) \<union>
        nodes_of sample_net (type_L2Cache sample_net) (numberOfL2CachePerChip sample_net) \<union>
        nodes_of sample_net (type_Directory sample_net) (numberOfDirectoryPerChip sample_net).
       \<exists>call\<in>set calls. fst (call_link (sum_list (machine_counts sample_net)) call) = a) \<and>
    (\<forall>s<m_number_of_switches t. \<forall>m\<in>all_machines (machine_counts sample_net).
       \<exists>call\<in>set calls. fst (call_link (sum_list (machine_counts sample_net)) call) = s + 2 * sum_list (machine_counts sample_net) \<and>
         m \<in> nd_elems (call_entry call))"
  by (rule crossbar_routes_all [OF sample_net_config])

end
