(* ===== verification/Network_Switch.thy ===== *)
theory Network_Switch
  imports Network_Topology Message_Buffer
begin

text \<open>
  The switch of the simple network, \<open>network/simple/PerfectSwitch.C\<close>, and the messages it moves,
  \<open>slicc_interface/NetworkMessage.h\<close>.

  A switch has rows of message buffers, one row per port and one buffer per virtual network.  The
  buffers of different ports are different objects, so a row is a list of values.  The event queue
  is the state \<open>sim\<close> of \<open>Event_Queue\<close>.  \<open>random()\<close> and \<open>random_time()\<close> are sequences, and \<open>k\<close> counts the
  values drawn; the \<open>sort\<close> of the standard library is an argument, because it leaves the order of
  equal elements open.  An index outside a vector is an abort.

  The lemmas show that one wakeup of a switch returns without an abort, loses, duplicates and
  misroutes no message, and leaves no message that could have been moved unless it comes back in
  the next cycle.
\<close>

text \<open>The sizes of messages, \<open>network/Network.h\<close>; the two configured sizes are arguments.\<close>

datatype MessageSizeType
  = MessageSizeType_Undefined | MessageSizeType_Control | MessageSizeType_Data
  | MessageSizeType_Request_Control | MessageSizeType_Reissue_Control | MessageSizeType_Response_Data
  | MessageSizeType_ResponseL2hit_Data | MessageSizeType_ResponseLocal_Data
  | MessageSizeType_Response_Control | MessageSizeType_Writeback_Data | MessageSizeType_Writeback_Control
  | MessageSizeType_Forwarded_Control | MessageSizeType_Invalidate_Control | MessageSizeType_Unblock_Control
  | MessageSizeType_Persistent_Control | MessageSizeType_Completion_Control | MessageSizeType_Custom_8
  | MessageSizeType_Custom_16 | MessageSizeType_Custom_24 | MessageSizeType_Custom_32
  | MessageSizeType_Custom_40 | MessageSizeType_Custom_48 | MessageSizeType_Custom_56
  | MessageSizeType_Custom_64 | MessageSizeType_Custom_72 | MessageSizeType_Custom_80
  | MessageSizeType_Custom_88 | MessageSizeType_Custom_96 | MessageSizeType_Custom_104
  | MessageSizeType_Custom_112 | MessageSizeType_Custom_120 | MessageSizeType_Custom_128
  | MessageSizeType_Custom_136 | MessageSizeType_Custom_144 | MessageSizeType_Custom_152
  | MessageSizeType_Custom_160 | MessageSizeType_Custom_168 | MessageSizeType_Custom_176
  | MessageSizeType_Custom_184 | MessageSizeType_Custom_192 | MessageSizeType_Custom_200
  | MessageSizeType_Custom_208 | MessageSizeType_Custom_216 | MessageSizeType_Custom_224
  | MessageSizeType_Custom_232 | MessageSizeType_Custom_240 | MessageSizeType_Custom_248
  | MessageSizeType_Custom_256

primrec MessageSizeType_to_int :: "int \<Rightarrow> int \<Rightarrow> MessageSizeType \<Rightarrow> int option" where
  "MessageSizeType_to_int CONTROL_MESSAGE_SIZE DATA_MESSAGE_SIZE MessageSizeType_Undefined = None"
| "MessageSizeType_to_int CONTROL_MESSAGE_SIZE DATA_MESSAGE_SIZE MessageSizeType_Control = Some CONTROL_MESSAGE_SIZE"
| "MessageSizeType_to_int CONTROL_MESSAGE_SIZE DATA_MESSAGE_SIZE MessageSizeType_Data = Some (DATA_MESSAGE_SIZE + CONTROL_MESSAGE_SIZE)"
| "MessageSizeType_to_int CONTROL_MESSAGE_SIZE DATA_MESSAGE_SIZE MessageSizeType_Request_Control = Some CONTROL_MESSAGE_SIZE"
| "MessageSizeType_to_int CONTROL_MESSAGE_SIZE DATA_MESSAGE_SIZE MessageSizeType_Reissue_Control = Some CONTROL_MESSAGE_SIZE"
| "MessageSizeType_to_int CONTROL_MESSAGE_SIZE DATA_MESSAGE_SIZE MessageSizeType_Response_Data = Some (DATA_MESSAGE_SIZE + CONTROL_MESSAGE_SIZE)"
| "MessageSizeType_to_int CONTROL_MESSAGE_SIZE DATA_MESSAGE_SIZE MessageSizeType_ResponseL2hit_Data = Some (DATA_MESSAGE_SIZE + CONTROL_MESSAGE_SIZE)"
| "MessageSizeType_to_int CONTROL_MESSAGE_SIZE DATA_MESSAGE_SIZE MessageSizeType_ResponseLocal_Data = Some (DATA_MESSAGE_SIZE + CONTROL_MESSAGE_SIZE)"
| "MessageSizeType_to_int CONTROL_MESSAGE_SIZE DATA_MESSAGE_SIZE MessageSizeType_Response_Control = Some CONTROL_MESSAGE_SIZE"
| "MessageSizeType_to_int CONTROL_MESSAGE_SIZE DATA_MESSAGE_SIZE MessageSizeType_Writeback_Data = Some (DATA_MESSAGE_SIZE + CONTROL_MESSAGE_SIZE)"
| "MessageSizeType_to_int CONTROL_MESSAGE_SIZE DATA_MESSAGE_SIZE MessageSizeType_Writeback_Control = Some CONTROL_MESSAGE_SIZE"
| "MessageSizeType_to_int CONTROL_MESSAGE_SIZE DATA_MESSAGE_SIZE MessageSizeType_Forwarded_Control = Some CONTROL_MESSAGE_SIZE"
| "MessageSizeType_to_int CONTROL_MESSAGE_SIZE DATA_MESSAGE_SIZE MessageSizeType_Invalidate_Control = Some CONTROL_MESSAGE_SIZE"
| "MessageSizeType_to_int CONTROL_MESSAGE_SIZE DATA_MESSAGE_SIZE MessageSizeType_Unblock_Control = Some CONTROL_MESSAGE_SIZE"
| "MessageSizeType_to_int CONTROL_MESSAGE_SIZE DATA_MESSAGE_SIZE MessageSizeType_Persistent_Control = Some CONTROL_MESSAGE_SIZE"
| "MessageSizeType_to_int CONTROL_MESSAGE_SIZE DATA_MESSAGE_SIZE MessageSizeType_Completion_Control = Some CONTROL_MESSAGE_SIZE"
| "MessageSizeType_to_int CONTROL_MESSAGE_SIZE DATA_MESSAGE_SIZE MessageSizeType_Custom_8 = Some 8"
| "MessageSizeType_to_int CONTROL_MESSAGE_SIZE DATA_MESSAGE_SIZE MessageSizeType_Custom_16 = Some 16"
| "MessageSizeType_to_int CONTROL_MESSAGE_SIZE DATA_MESSAGE_SIZE MessageSizeType_Custom_24 = Some 24"
| "MessageSizeType_to_int CONTROL_MESSAGE_SIZE DATA_MESSAGE_SIZE MessageSizeType_Custom_32 = Some 32"
| "MessageSizeType_to_int CONTROL_MESSAGE_SIZE DATA_MESSAGE_SIZE MessageSizeType_Custom_40 = Some 40"
| "MessageSizeType_to_int CONTROL_MESSAGE_SIZE DATA_MESSAGE_SIZE MessageSizeType_Custom_48 = Some 48"
| "MessageSizeType_to_int CONTROL_MESSAGE_SIZE DATA_MESSAGE_SIZE MessageSizeType_Custom_56 = Some 56"
| "MessageSizeType_to_int CONTROL_MESSAGE_SIZE DATA_MESSAGE_SIZE MessageSizeType_Custom_64 = Some 64"
| "MessageSizeType_to_int CONTROL_MESSAGE_SIZE DATA_MESSAGE_SIZE MessageSizeType_Custom_72 = Some 72"
| "MessageSizeType_to_int CONTROL_MESSAGE_SIZE DATA_MESSAGE_SIZE MessageSizeType_Custom_80 = Some 80"
| "MessageSizeType_to_int CONTROL_MESSAGE_SIZE DATA_MESSAGE_SIZE MessageSizeType_Custom_88 = Some 88"
| "MessageSizeType_to_int CONTROL_MESSAGE_SIZE DATA_MESSAGE_SIZE MessageSizeType_Custom_96 = Some 96"
| "MessageSizeType_to_int CONTROL_MESSAGE_SIZE DATA_MESSAGE_SIZE MessageSizeType_Custom_104 = Some 104"
| "MessageSizeType_to_int CONTROL_MESSAGE_SIZE DATA_MESSAGE_SIZE MessageSizeType_Custom_112 = Some 112"
| "MessageSizeType_to_int CONTROL_MESSAGE_SIZE DATA_MESSAGE_SIZE MessageSizeType_Custom_120 = Some 120"
| "MessageSizeType_to_int CONTROL_MESSAGE_SIZE DATA_MESSAGE_SIZE MessageSizeType_Custom_128 = Some 128"
| "MessageSizeType_to_int CONTROL_MESSAGE_SIZE DATA_MESSAGE_SIZE MessageSizeType_Custom_136 = Some 136"
| "MessageSizeType_to_int CONTROL_MESSAGE_SIZE DATA_MESSAGE_SIZE MessageSizeType_Custom_144 = Some 144"
| "MessageSizeType_to_int CONTROL_MESSAGE_SIZE DATA_MESSAGE_SIZE MessageSizeType_Custom_152 = Some 152"
| "MessageSizeType_to_int CONTROL_MESSAGE_SIZE DATA_MESSAGE_SIZE MessageSizeType_Custom_160 = Some 160"
| "MessageSizeType_to_int CONTROL_MESSAGE_SIZE DATA_MESSAGE_SIZE MessageSizeType_Custom_168 = Some 168"
| "MessageSizeType_to_int CONTROL_MESSAGE_SIZE DATA_MESSAGE_SIZE MessageSizeType_Custom_176 = Some 176"
| "MessageSizeType_to_int CONTROL_MESSAGE_SIZE DATA_MESSAGE_SIZE MessageSizeType_Custom_184 = Some 184"
| "MessageSizeType_to_int CONTROL_MESSAGE_SIZE DATA_MESSAGE_SIZE MessageSizeType_Custom_192 = Some 192"
| "MessageSizeType_to_int CONTROL_MESSAGE_SIZE DATA_MESSAGE_SIZE MessageSizeType_Custom_200 = Some 200"
| "MessageSizeType_to_int CONTROL_MESSAGE_SIZE DATA_MESSAGE_SIZE MessageSizeType_Custom_208 = Some 208"
| "MessageSizeType_to_int CONTROL_MESSAGE_SIZE DATA_MESSAGE_SIZE MessageSizeType_Custom_216 = Some 216"
| "MessageSizeType_to_int CONTROL_MESSAGE_SIZE DATA_MESSAGE_SIZE MessageSizeType_Custom_224 = Some 224"
| "MessageSizeType_to_int CONTROL_MESSAGE_SIZE DATA_MESSAGE_SIZE MessageSizeType_Custom_232 = Some 232"
| "MessageSizeType_to_int CONTROL_MESSAGE_SIZE DATA_MESSAGE_SIZE MessageSizeType_Custom_240 = Some 240"
| "MessageSizeType_to_int CONTROL_MESSAGE_SIZE DATA_MESSAGE_SIZE MessageSizeType_Custom_248 = Some 248"
| "MessageSizeType_to_int CONTROL_MESSAGE_SIZE DATA_MESSAGE_SIZE MessageSizeType_Custom_256 = Some 256"

text \<open>The smallest size that a number of bytes fits into.\<close>

definition int_to_MessageSizeType :: "int \<Rightarrow> MessageSizeType option" where
  "int_to_MessageSizeType sz =
     (if sz \<le> 8 then Some MessageSizeType_Custom_8
      else if sz \<le> 16 then Some MessageSizeType_Custom_16
      else if sz \<le> 24 then Some MessageSizeType_Custom_24
      else if sz \<le> 32 then Some MessageSizeType_Custom_32
      else if sz \<le> 40 then Some MessageSizeType_Custom_40
      else if sz \<le> 48 then Some MessageSizeType_Custom_48
      else if sz \<le> 56 then Some MessageSizeType_Custom_56
      else if sz \<le> 64 then Some MessageSizeType_Custom_64
      else if sz \<le> 72 then Some MessageSizeType_Custom_72
      else if sz \<le> 80 then Some MessageSizeType_Custom_80
      else if sz \<le> 88 then Some MessageSizeType_Custom_88
      else if sz \<le> 96 then Some MessageSizeType_Custom_96
      else if sz \<le> 104 then Some MessageSizeType_Custom_104
      else if sz \<le> 112 then Some MessageSizeType_Custom_112
      else if sz \<le> 120 then Some MessageSizeType_Custom_120
      else if sz \<le> 128 then Some MessageSizeType_Custom_128
      else if sz \<le> 136 then Some MessageSizeType_Custom_136
      else if sz \<le> 144 then Some MessageSizeType_Custom_144
      else if sz \<le> 152 then Some MessageSizeType_Custom_152
      else if sz \<le> 160 then Some MessageSizeType_Custom_160
      else if sz \<le> 168 then Some MessageSizeType_Custom_168
      else if sz \<le> 176 then Some MessageSizeType_Custom_176
      else if sz \<le> 184 then Some MessageSizeType_Custom_184
      else if sz \<le> 192 then Some MessageSizeType_Custom_192
      else if sz \<le> 200 then Some MessageSizeType_Custom_200
      else if sz \<le> 208 then Some MessageSizeType_Custom_208
      else if sz \<le> 216 then Some MessageSizeType_Custom_216
      else if sz \<le> 224 then Some MessageSizeType_Custom_224
      else if sz \<le> 232 then Some MessageSizeType_Custom_232
      else if sz \<le> 240 then Some MessageSizeType_Custom_240
      else if sz \<le> 248 then Some MessageSizeType_Custom_248
      else if sz \<le> 256 then Some MessageSizeType_Custom_256
      else None)"

lemma int_to_MessageSizeType_fits:
  "int_to_MessageSizeType sz \<noteq> None \<longleftrightarrow> sz \<le> 256"
  "\<lbrakk> int_to_MessageSizeType sz = Some t; MessageSizeType_to_int control data t = Some n \<rbrakk> \<Longrightarrow>
     sz \<le> n \<and> (0 < sz \<longrightarrow> n < sz + 8)"
  by (auto simp: int_to_MessageSizeType_def split: if_splits)

record 'b network_message =
  nm_body :: 'b
  nm_Destination :: net_dest
  nm_MessageSize :: MessageSizeType
  m_internal_dest_valid :: bool
  m_internal_dest :: net_dest

definition getInternalDestination :: "'b network_message \<Rightarrow> net_dest" where
  "getInternalDestination m = (if \<not> m_internal_dest_valid m then nm_Destination m else m_internal_dest m)"

type_synonym ('c, 'b) net_buffer = "('c, 'b network_message) message_buffer"

record ('c, 'b) perfect_switch =
  ps_this :: 'c
  m_virtual_networks :: nat
  m_round_robin_start :: nat
  m_wakeups_wo_switch :: int
  m_link_order :: "(nat \<times> int) list"
  m_routing_table :: "net_dest list"
  m_in :: "('c, 'b) net_buffer list list"
  m_out :: "('c, 'b) net_buffer list list"

record switch_env =
  env_RANDOMIZATION :: bool
  g_adaptive_routing :: bool
  isVNetOrdered :: "nat \<Rightarrow> bool"
  sort_links :: "(nat \<times> int) list \<Rightarrow> (nat \<times> int) list"
  env_random :: "nat \<Rightarrow> int"
  env_random_time :: "nat \<Rightarrow> int"

definition PRIORITY_SWITCH_LIMIT :: int where
  "PRIORITY_SWITCH_LIMIT = 128"

definition PerfectSwitch_new :: "nat \<Rightarrow> 'c \<Rightarrow> ('c, 'b) perfect_switch" where
  "PerfectSwitch_new NUMBER_OF_VIRTUAL_NETWORKS this = \<lparr>ps_this = this,
     m_virtual_networks = NUMBER_OF_VIRTUAL_NETWORKS, m_round_robin_start = 0, m_wakeups_wo_switch = 0,
     m_link_order = [], m_routing_table = [], m_in = [], m_out = []\<rparr>"

primrec set_consumers :: "'c \<Rightarrow> ('c, 'b) net_buffer list \<Rightarrow> ('c, 'b) net_buffer list option" where
  "set_consumers c [] = Some []"
| "set_consumers c (b # bs) = do { b \<leftarrow> setConsumer (Some c) b; bs \<leftarrow> set_consumers c bs; Some (b # bs) }"

definition ps_addInPort ::
  "('c, 'b) net_buffer list \<Rightarrow> ('c, 'b) perfect_switch \<Rightarrow> ('c, 'b) perfect_switch option" where
  "ps_addInPort ins ps = do {
     assert_that (length ins = m_virtual_networks ps);
     ins \<leftarrow> set_consumers (ps_this ps) ins;
     Some (ps\<lparr>m_in := m_in ps @ [ins]\<rparr>) }"

definition ps_addOutPort ::
  "('c, 'b) net_buffer list \<Rightarrow> net_dest \<Rightarrow> ('c, 'b) perfect_switch \<Rightarrow> ('c, 'b) perfect_switch option" where
  "ps_addOutPort out routing_table_entry ps = do {
     assert_that (length out = m_virtual_networks ps);
     Some (ps\<lparr>m_link_order := m_link_order ps @ [(length (m_out ps), 0)], m_out := m_out ps @ [out],
              m_routing_table := m_routing_table ps @ [routing_table_entry]\<rparr>) }"

definition clearRoutingTables :: "('c, 'b) perfect_switch \<Rightarrow> ('c, 'b) perfect_switch" where
  "clearRoutingTables ps = ps\<lparr>m_routing_table := []\<rparr>"

definition reconfigureOutPort :: "net_dest \<Rightarrow> ('c, 'b) perfect_switch \<Rightarrow> ('c, 'b) perfect_switch" where
  "reconfigureOutPort routing_table_entry ps = ps\<lparr>m_routing_table := m_routing_table ps @ [routing_table_entry]\<rparr>"

section \<open>One message\<close>

definition peekMsgPtr :: "Time \<Rightarrow> ('c, 'm) message_buffer \<Rightarrow> 'm message option" where
  "peekMsgPtr now b = do {
     assert_that (isReady now b);
     n \<leftarrow> peekMin (mb_prio_heap b);
     Some (node_msgptr n) }"

text \<open>The order in which the links are tried: with adaptive routing the emptiest one first.\<close>

definition order_links ::
  "switch_env \<Rightarrow> nat \<Rightarrow> Time \<Rightarrow> ('c, 'b) perfect_switch \<times> nat \<Rightarrow> ('c, 'b) perfect_switch \<times> nat" where
  "order_links env vnet now = (\<lambda>(ps, k).
     if g_adaptive_routing env then
       (if isVNetOrdered env vnet
        then (ps\<lparr>m_link_order := map (\<lambda>outlink. (outlink, 0)) [0..<length (m_out ps)]\<rparr>, k)
        else
          (let out_queue_length = (\<lambda>outlink. sum_list (map (\<lambda>b. fst (getSize now b)) (m_out ps ! outlink)));
               order = map (\<lambda>outlink. (outlink,
                  push_bit 8 (out_queue_length outlink) OR (env_random env (k + outlink) AND 255)))
                 [0..<length (m_out ps)]
           in (ps\<lparr>m_link_order := sort_links env order,
                  m_out := map (map (\<lambda>b. snd (getSize now b))) (m_out ps)\<rparr>, k + length (m_out ps))))
     else (ps, k))"

text \<open>The links of a message with the destinations each is responsible for, and the
  destinations that are left.\<close>

primrec route_links :: "net_dest list \<Rightarrow> nat list \<Rightarrow> net_dest \<Rightarrow> ((nat \<times> net_dest) list \<times> net_dest) option" where
  "route_links table [] msg_destinations = Some ([], msg_destinations)"
| "route_links table (link # ls) msg_destinations = do {
     assert_that (link < length table);
     meets \<leftarrow> nd_intersectionIsNotEmpty msg_destinations (table ! link);
     if meets then do {
       for_link \<leftarrow> nd_AND msg_destinations (table ! link);
       msg_destinations \<leftarrow> nd_removeNetDest (table ! link) msg_destinations;
       (outs, rest) \<leftarrow> route_links table ls msg_destinations;
       Some ((link, for_link) # outs, rest) }
     else route_links table ls msg_destinations }"

definition put_buffer :: "nat \<Rightarrow> nat \<Rightarrow> 'a \<Rightarrow> 'a list list \<Rightarrow> 'a list list" where
  "put_buffer port vnet b bs = bs[port := (bs ! port)[vnet := b]]"

fun check_slots :: "Time \<Rightarrow> nat \<Rightarrow> nat list \<Rightarrow> ('c, 'b) net_buffer list list \<Rightarrow> bool \<times> ('c, 'b) net_buffer list list" where
  "check_slots now vnet [] out = (True, out)"
| "check_slots now vnet (l # ls) out =
     (let (enough, b) = areNSlotsAvailable now 1 (out ! l ! vnet); out = put_buffer l vnet b out
      in if enough then check_slots now vnet ls out else (False, out))"

definition send_copy ::
  "switch_env \<Rightarrow> nat \<Rightarrow> 'b network_message message \<Rightarrow> nat \<times> net_dest \<Rightarrow>
   ('c, 'b) perfect_switch \<times> ('c, 's) sim \<times> nat \<Rightarrow> (('c, 'b) perfect_switch \<times> ('c, 's) sim \<times> nat) option" where
  "send_copy env vnet msg = (\<lambda>(outgoing, dest) (ps, s, k).
     let msg = msg\<lparr>payload := (payload msg)\<lparr>m_internal_dest_valid := True, m_internal_dest := dest\<rparr>\<rparr>
     in do {
       (b, s) \<leftarrow> enqueue (env_RANDOMIZATION env) (env_random_time env k) (Some msg) 1 (m_out ps ! outgoing ! vnet) s;
       Some (ps\<lparr>m_out := put_buffer outgoing vnet b (m_out ps)\<rparr>, s, k + 1) })"

text \<open>The part of the body that checks the resources, sends the copies and removes the message.  The
  result says whether the loop over the messages goes on.\<close>

definition forward_message ::
  "switch_env \<Rightarrow> nat \<Rightarrow> nat \<Rightarrow> 'b network_message message \<Rightarrow> (nat \<times> net_dest) list \<Rightarrow>
   ('c, 'b) perfect_switch \<times> ('c, 's) sim \<times> nat \<Rightarrow> (bool \<times> ('c, 'b) perfect_switch \<times> ('c, 's) sim \<times> nat) option" where
  "forward_message env incoming vnet msg outs = (\<lambda>(ps, s, k).
     let now = m_globalTime s;
         (enough, out) = check_slots now vnet (map fst outs) (m_out ps);
         ps = ps\<lparr>m_out := out\<rparr>
     in if \<not> enough then do {
          s \<leftarrow> scheduleEvent (Some (ps_this ps)) 1 s;
          Some (False, ps, s, k) }
        else do {
          (ps, s, k) \<leftarrow> run_all (send_copy env vnet msg) outs (ps, s, k);
          b \<leftarrow> pop now (m_in ps ! incoming ! vnet);
          Some (True, ps\<lparr>m_in := put_buffer incoming vnet b (m_in ps)\<rparr>, s, k) })"

definition switch_message ::
  "switch_env \<Rightarrow> nat \<Rightarrow> nat \<Rightarrow> ('c, 'b) perfect_switch \<times> ('c, 's) sim \<times> nat \<Rightarrow>
   (bool \<times> ('c, 'b) perfect_switch \<times> ('c, 's) sim \<times> nat) option" where
  "switch_message env incoming vnet = (\<lambda>(ps, s, k). do {
     assert_that (incoming < length (m_in ps) \<and> vnet < length (m_in ps ! incoming));
     msg \<leftarrow> peekMsgPtr (m_globalTime s) (m_in ps ! incoming ! vnet);
     assert_that (length (m_link_order ps) = length (m_routing_table ps));
     assert_that (length (m_link_order ps) = length (m_out ps));
     let (ps, k) = order_links env vnet (m_globalTime s) (ps, k);
     (outs, rest) \<leftarrow> route_links (m_routing_table ps) (map fst (m_link_order ps)) (getInternalDestination (payload msg));
     assert_that (nd_count rest = 0);
     forward_message env incoming vnet msg outs (ps, s, k) })"

section \<open>Termination\<close>

lemma send_copy_in: "send_copy env vnet msg x (ps, s, k) = Some (ps', s', k') \<Longrightarrow> m_in ps' = m_in ps"
  by (cases x) (auto simp: send_copy_def Let_def bind_Some_iff)

lemma send_copies_in: "run_all (send_copy env vnet msg) xs (ps, s, k) = Some (ps', s', k') \<Longrightarrow> m_in ps' = m_in ps"
proof (induction xs arbitrary: ps s k)
  case (Cons x xs)
  then obtain ps1 s1 k1 where "send_copy env vnet msg x (ps, s, k) = Some (ps1, s1, k1)"
    "run_all (send_copy env vnet msg) xs (ps1, s1, k1) = Some (ps', s', k')" by (auto simp: bind_Some_iff)
  then show ?case using Cons.IH send_copy_in by metis
qed simp

lemma order_links_in [simp]: "m_in (fst (order_links env vnet now (ps, k))) = m_in ps"
  by (simp add: order_links_def Let_def)

lemma pop_heap_size: "pop now b = Some b' \<Longrightarrow> heap_size (mb_prio_heap b') < heap_size (mb_prio_heap b)"
  by (auto simp: pop_def extractMin_def heap_size_def bind_Some_iff Let_def)

lemma forward_message_pops:
  assumes "forward_message env incoming vnet msg outs (ps, s, k) = Some (True, ps', s', k')"
  obtains b where "pop (m_globalTime s) (m_in ps ! incoming ! vnet) = Some b" "m_in ps' = put_buffer incoming vnet b (m_in ps)"
proof -
  obtain enough out where c: "check_slots (m_globalTime s) vnet (map fst outs) (m_out ps) = (enough, out)" by fastforce
  obtain ps1 s1 k1 b where r: "run_all (send_copy env vnet msg) outs (ps\<lparr>m_out := out\<rparr>, s, k) = Some (ps1, s1, k1)"
      "pop (m_globalTime s) (m_in ps1 ! incoming ! vnet) = Some b" "ps' = ps1\<lparr>m_in := put_buffer incoming vnet b (m_in ps1)\<rparr>"
    using assms c by (auto simp: forward_message_def Let_def bind_Some_iff split: if_splits)
  then show thesis using that send_copies_in [OF r(1)] by simp
qed

lemma switch_message_pops:
  assumes "switch_message env incoming vnet (ps, s, k) = Some (True, ps', s', k')"
  obtains b where "incoming < length (m_in ps)" "vnet < length (m_in ps ! incoming)"
    "pop (m_globalTime s) (m_in ps ! incoming ! vnet) = Some b" "m_in ps' = put_buffer incoming vnet b (m_in ps)"
proof -
  obtain ps1 k1 where o: "order_links env vnet (m_globalTime s) (ps, k) = (ps1, k1)" by fastforce
  have i: "m_in ps1 = m_in ps" using order_links_in [of env vnet "m_globalTime s" ps k] o by simp
  obtain msg outs where "forward_message env incoming vnet msg outs (ps1, s, k1) = Some (True, ps', s', k')"
      "incoming < length (m_in ps)" "vnet < length (m_in ps ! incoming)"
    using assms o by (auto simp: switch_message_def bind_Some_iff)
  then show thesis using forward_message_pops that i by metis
qed

function switch_loop ::
  "switch_env \<Rightarrow> nat \<Rightarrow> nat \<Rightarrow> ('c, 'b) perfect_switch \<Rightarrow> ('c, 's) sim \<Rightarrow> nat \<Rightarrow>
   (('c, 'b) perfect_switch \<times> ('c, 's) sim \<times> nat) option" where
  "switch_loop env incoming vnet ps s k =
     (if isReady (m_globalTime s) (m_in ps ! incoming ! vnet)
      then (case switch_message env incoming vnet (ps, s, k) of None \<Rightarrow> None
            | Some (again, ps, s, k) \<Rightarrow> if again then switch_loop env incoming vnet ps s k else Some (ps, s, k))
      else Some (ps, s, k))"
  by pat_completeness auto
termination
proof (relation "measure (\<lambda>(env, incoming, vnet, ps, s, k). heap_size (mb_prio_heap (m_in ps ! incoming ! vnet)))")
  fix env incoming vnet ps s k a again b ps' c s' k'
  assume run: "switch_message env incoming vnet (ps, s, k) = Some a" "(again, b) = a" "(ps', c) = b" "(s', k') = c" again
  then obtain x where "incoming < length (m_in ps)" "vnet < length (m_in ps ! incoming)"
    "pop (m_globalTime s) (m_in ps ! incoming ! vnet) = Some x" "m_in ps' = put_buffer incoming vnet x (m_in ps)"
    using switch_message_pops [of env incoming vnet ps s k ps' s' k'] by auto
  then show "((env, incoming, vnet, ps', s', k'), (env, incoming, vnet, ps, s, k))
      \<in> measure (\<lambda>(env, incoming, vnet, ps, s, k). heap_size (mb_prio_heap (m_in ps ! incoming ! vnet)))"
    using pop_heap_size by (simp add: put_buffer_def)
qed simp

declare switch_loop.simps [simp del]

section \<open>The wakeup\<close>

definition next_port :: "nat \<Rightarrow> nat \<Rightarrow> nat" where
  "next_port n incoming = (if incoming + 1 \<ge> n then 0 else incoming + 1)"

definition switch_vnet ::
  "switch_env \<Rightarrow> nat \<Rightarrow> ('c, 'b) perfect_switch \<times> ('c, 's) sim \<times> nat \<Rightarrow>
   (('c, 'b) perfect_switch \<times> ('c, 's) sim \<times> nat) option" where
  "switch_vnet env vnet = (\<lambda>(ps, s, k).
     let incoming = m_round_robin_start ps;
         start = m_round_robin_start ps + 1;
         ps = ps\<lparr>m_round_robin_start := if start \<ge> length (m_in ps) then 0 else start\<rparr>
     in run_all (\<lambda>counter (ps, s, k). switch_loop env ((next_port (length (m_in ps)) ^^ Suc counter) incoming) vnet ps s k)
          [0..<length (m_in ps)] (ps, s, k))"

definition switch_wakeup ::
  "switch_env \<Rightarrow> ('c, 'b) perfect_switch \<times> ('c, 's) sim \<times> nat \<Rightarrow>
   (('c, 'b) perfect_switch \<times> ('c, 's) sim \<times> nat) option" where
  "switch_wakeup env = (\<lambda>(ps, s, k).
     let wakeups = m_wakeups_wo_switch ps + 1;
         (wakeups, vnets) = (if wakeups > PRIORITY_SWITCH_LIMIT then (0, [0..<m_virtual_networks ps])
                             else (wakeups, rev [0..<m_virtual_networks ps]))
     in run_all (switch_vnet env) vnets (ps\<lparr>m_wakeups_wo_switch := wakeups\<rparr>, s, k))"

section \<open>Routing one message\<close>

lemma nd_AND_law:
  assumes "nd_invar counts d" "nd_invar counts e"
  shows "\<exists>r. nd_AND d e = Some r \<and> nd_invar counts r \<and> nd_elems r = nd_elems d \<inter> nd_elems e"
proof -
  have "\<exists>u. opt_AND (d ! i) (e ! i) = Some u \<and> opt_invar u \<and> m_nSize u = counts ! i \<and>
      opt_elems u = {n. n \<in> opt_elems (d ! i) \<and> n \<in> opt_elems (e ! i)}" if "i < length counts" for i
    using opt_set_ops(4) [of "d ! i" "e ! i"] assms that by (auto simp: nd_invar_def)
  from nd_traverse [OF assms this] show ?thesis
    using assms by (auto simp: nd_AND_def nd_invar_def)
qed

lemma nd_elems_finite: "nd_invar counts d \<Longrightarrow> finite (nd_elems d)"
  using finite_subset [OF nd_elems_in_range, of counts d] set_machines [of counts] by (metis List.finite_set)

text \<open>The destinations of a message are divided among the links.\<close>

lemma route_links_law:
  assumes "nd_invar counts d" "\<forall>l\<in>set ls. l < length table \<and> nd_invar counts (table ! l)"
  shows "\<exists>outs rest. route_links table ls d = Some (outs, rest) \<and> nd_invar counts rest \<and>
    nd_elems rest = nd_elems d - (\<Union>l\<in>set ls. nd_elems (table ! l)) \<and>
    (\<forall>(l, x)\<in>set outs. l \<in> set ls \<and> nd_invar counts x \<and> nd_elems x \<subseteq> nd_elems (table ! l)) \<and>
    mset_set (nd_elems d) = (\<Sum>(l, x)\<leftarrow>outs. mset_set (nd_elems x)) + mset_set (nd_elems rest)"
  using assms
proof (induction ls arbitrary: d)
  case (Cons l ls)
  let ?t = "table ! l"
  have t: "l < length table" "nd_invar counts ?t" using Cons.prems(2) by auto
  note meets = nd_intersection_law [OF Cons.prems(1) t(2)]
  show ?case
  proof (cases "nd_elems d \<inter> nd_elems ?t = {}")
    case True
    have "nd_elems d - (\<Union>l\<in>set (l # ls). nd_elems (table ! l)) = nd_elems d - (\<Union>l\<in>set ls. nd_elems (table ! l))"
      using True by auto
    then show ?thesis using Cons.IH [OF Cons.prems(1)] Cons.prems(2) t(1) meets True by fastforce
  next
    case False
    obtain x where x: "nd_AND d ?t = Some x" "nd_invar counts x" "nd_elems x = nd_elems d \<inter> nd_elems ?t"
      using nd_AND_law [OF Cons.prems(1) t(2)] by blast
    obtain d' where d': "nd_removeNetDest ?t d = Some d'" "nd_invar counts d'" "nd_elems d' = nd_elems d - nd_elems ?t"
      using nd_removeNetDest_law [OF Cons.prems(1) t(2)] by blast
    obtain outs rest where r: "route_links table ls d' = Some (outs, rest)" "nd_invar counts rest"
      "nd_elems rest = nd_elems d' - (\<Union>l\<in>set ls. nd_elems (table ! l))"
      "\<forall>(l, x)\<in>set outs. l \<in> set ls \<and> nd_invar counts x \<and> nd_elems x \<subseteq> nd_elems (table ! l)"
      "mset_set (nd_elems d') = (\<Sum>(l, x)\<leftarrow>outs. mset_set (nd_elems x)) + mset_set (nd_elems rest)"
      using Cons.IH [OF d'(2)] Cons.prems(2) by auto
    have "nd_elems d = nd_elems x \<union> nd_elems d'" "nd_elems x \<inter> nd_elems d' = {}" using x(3) d'(3) by auto
    then have "mset_set (nd_elems d) = mset_set (nd_elems x) + mset_set (nd_elems d')"
      using mset_set_Union nd_elems_finite x(2) d'(2) by metis
    moreover have "route_links table (l # ls) d = Some ((l, x) # outs, rest)"
      using t(1) meets False x(1) d'(1) r(1) by simp
    ultimately show ?thesis using r(2-5) x(2,3) d'(3) by auto
  qed
qed simp

section \<open>Deliveries\<close>

text \<open>What the messages of a buffer still have to deliver: the content, once for each machine.\<close>

definition msg_deliveries :: "'b network_message \<Rightarrow> ('b \<times> machine_id) multiset" where
  "msg_deliveries m = image_mset (Pair (nm_body m)) (mset_set (nd_elems (getInternalDestination m)))"

definition buffer_deliveries :: "('c, 'b) net_buffer \<Rightarrow> ('b \<times> machine_id) multiset" where
  "buffer_deliveries b = (\<Sum>n\<in>#mb_nodes b. msg_deliveries (payload (node_msgptr n)))"

definition row_deliveries :: "('c, 'b) net_buffer list list \<Rightarrow> ('b \<times> machine_id) multiset" where
  "row_deliveries bs = (\<Sum>row\<leftarrow>bs. \<Sum>b\<leftarrow>row. buffer_deliveries b)"

definition deliveries :: "('c, 'b) perfect_switch \<Rightarrow> ('b \<times> machine_id) multiset" where
  "deliveries ps = row_deliveries (m_in ps) + row_deliveries (m_out ps)"

lemma sum_list_update_add:
  fixes f :: "'a \<Rightarrow> 'm::comm_monoid_add"
  assumes "i < length xs" shows "(\<Sum>x\<leftarrow>xs[i := y]. f x) + f (xs ! i) = (\<Sum>x\<leftarrow>xs. f x) + f y"
  using assms
proof (induction xs arbitrary: i)
  case (Cons x xs)
  then show ?case by (cases i) (simp_all add: ac_simps)
qed simp

lemma mset_exchange:
  fixes X :: "'a multiset" assumes "X + S = R + T" "T + u = S + v" shows "X + u = R + v"
proof -
  have "X + u + S = R + (T + u)" using assms(1) by (metis add.assoc add.commute)
  then have "(X + u) + S = (R + v) + S" using assms(2) by (simp add: ac_simps)
  then show ?thesis by simp
qed

lemma row_deliveries_put:
  assumes "p < length bs" "v < length (bs ! p)"
  shows "row_deliveries (put_buffer p v b bs) + buffer_deliveries (bs ! p ! v) = row_deliveries bs + buffer_deliveries b"
proof -
  let ?f = "\<lambda>row. \<Sum>b\<leftarrow>row. buffer_deliveries b"
  have "row_deliveries (put_buffer p v b bs) + ?f (bs ! p) = row_deliveries bs + ?f ((bs ! p)[v := b])"
    unfolding row_deliveries_def put_buffer_def using sum_list_update_add [OF assms(1), where f = ?f] .
  moreover have "?f ((bs ! p)[v := b]) + buffer_deliveries (bs ! p ! v) = ?f (bs ! p) + buffer_deliveries b"
    using sum_list_update_add [OF assms(2)] .
  ultimately show ?thesis by (rule mset_exchange)
qed

section \<open>The buffers of a switch\<close>

definition buffer_payloads :: "('c, 'm) message_buffer \<Rightarrow> 'm multiset" where
  "buffer_payloads b = image_mset (\<lambda>n. payload (node_msgptr n)) (mb_nodes b)"

text \<open>A buffer of network messages, and one that may be sent to, whose last message arrives at \<open>latest\<close> at the latest.\<close>

definition net_buffer_ok :: "nat list \<Rightarrow> ('c, 'b) net_buffer \<Rightarrow> bool" where
  "net_buffer_ok counts b \<longleftrightarrow> buffer_ok False b \<and>
     (\<forall>n\<in>#mb_nodes b. m_LastEnqueueTime (node_msgptr n) \<le> node_time n \<and>
        nd_invar counts (getInternalDestination (payload (node_msgptr n))) \<and>
        nm_MessageSize (payload (node_msgptr n)) \<noteq> MessageSizeType_Undefined)"

definition link_buffer_ok :: "bool \<Rightarrow> Time \<Rightarrow> nat list \<Rightarrow> ('c, 'b) net_buffer \<Rightarrow> bool" where
  "link_buffer_ok R latest counts b \<longleftrightarrow> net_buffer_ok counts b \<and> m_ordering_set b \<and> mb_consumer_ptr b \<noteq> None \<and>
     ((\<not> R \<or> \<not> m_randomization b) \<and> m_strict_fifo b \<longrightarrow> m_last_arrival_time b \<le> latest)"

lemma link_buffer_cong:
  assumes "mb_prio_heap b' = mb_prio_heap b" "m_size b' = m_size b" "m_msg_counter b' = m_msg_counter b"
    "m_ordering_set b' = m_ordering_set b" "mb_consumer_ptr b' = mb_consumer_ptr b"
    "m_randomization b' = m_randomization b" "m_strict_fifo b' = m_strict_fifo b"
    "m_last_arrival_time b' = m_last_arrival_time b"
  shows "link_buffer_ok R latest counts b' = link_buffer_ok R latest counts b" "buffer_deliveries b' = buffer_deliveries b"
    "buffer_payloads b' = buffer_payloads b"
  using assms by (simp_all add: link_buffer_ok_def net_buffer_ok_def buffer_ok_def mb_nodes_def buffer_deliveries_def buffer_payloads_def)

lemma areNSlotsAvailable_keeps:
  "link_buffer_ok R latest counts (snd (areNSlotsAvailable t n b)) = link_buffer_ok R latest counts b"
  "buffer_deliveries (snd (areNSlotsAvailable t n b)) = buffer_deliveries b"
  "buffer_payloads (snd (areNSlotsAvailable t n b)) = buffer_payloads b"
  by (rule link_buffer_cong; simp add: areNSlotsAvailable_def Let_def)+

lemma getSize_keeps:
  "link_buffer_ok R latest counts (snd (getSize t b)) = link_buffer_ok R latest counts b"
  "buffer_deliveries (snd (getSize t b)) = buffer_deliveries b"
  "buffer_payloads (snd (getSize t b)) = buffer_payloads b"
  by (rule link_buffer_cong; simp add: getSize_def)+

lemma link_enqueue_pre:
  assumes "link_buffer_ok R (m_globalTime s + delta) counts b" "0 < delta" "1 \<le> rt" "m_LastEnqueueTime msg \<le> m_globalTime s"
  shows "enqueue_pre R rt msg delta b s"
  using assms by (auto simp: enqueue_pre_def link_buffer_ok_def arrival_def arrival_of_def Let_def)

lemma link_arrival:
  assumes "(\<not> R \<or> \<not> m_randomization b)" shows "arrival R rt now delta b = now + delta"
  using assms by (auto simp: arrival_def arrival_of_def)

text \<open>Sending a message over a link adds it to the link's buffer.\<close>

lemma link_enqueue:
  assumes "link_buffer_ok R (m_globalTime s + delta) counts b" "queue_ok s" "0 < delta" "1 \<le> rt"
    "m_LastEnqueueTime msg \<le> m_globalTime s" "nd_invar counts (getInternalDestination (payload msg))"
    "nm_MessageSize (payload msg) \<noteq> MessageSizeType_Undefined"
  shows "\<exists>b' s'. enqueue R rt (Some msg) delta b s = Some (b', s') \<and> link_buffer_ok R (m_globalTime s + delta) counts b' \<and>
    queue_ok s' \<and> scheduled s s' \<and> buffer_payloads b' = add_mset (payload msg) (buffer_payloads b) \<and>
    buffer_deliveries b' = buffer_deliveries b + msg_deliveries (payload msg)"
proof -
  note pre = link_enqueue_pre [OF assms(1,3,4,5)]
  let ?n = "new_node R rt (m_globalTime s) msg delta 0 False b"
  have ok: "buffer_ok False b" using assms(1) by (simp add: link_buffer_ok_def net_buffer_ok_def)
  obtain b' s' where e: "enqueue_node R rt (Some msg) delta 0 False b s = Some (b', s')" "buffer_ok False b'" "queue_ok s'"
      "scheduled s s'" "mb_nodes b' = add_mset ?n (mb_nodes b)"
      "m_last_arrival_time b' = arrival R rt (m_globalTime s) delta b" "m_strict_fifo b' = m_strict_fifo b"
    using enqueue_node_ok [OF ok assms(2) pre, of 0] by blast
  have "m_ordering_set b' = m_ordering_set b" "mb_consumer_ptr b' = mb_consumer_ptr b" "m_randomization b' = m_randomization b"
    using e(1) enqueue_node_eq [OF pre] by (auto simp: bind_Some_iff enqueue_counted_def)
  moreover have "net_buffer_ok counts b'"
    using e(2,5) assms(1,6,7) by (auto simp: net_buffer_ok_def link_buffer_ok_def new_node_def)
  ultimately have "link_buffer_ok R (m_globalTime s + delta) counts b'"
    using assms(1) e(6,7) link_arrival [of R b rt "m_globalTime s" delta] by (auto simp: link_buffer_ok_def)
  moreover have "buffer_deliveries b' = buffer_deliveries b + msg_deliveries (payload msg)"
    "buffer_payloads b' = add_mset (payload msg) (buffer_payloads b)"
    using e(5) by (simp_all add: buffer_deliveries_def buffer_payloads_def new_node_def)
  ultimately show ?thesis using e(1,3,4) by (auto simp: enqueue_def)
qed

text \<open>What the consumer of a buffer does to it: it takes out messages and leaves the rest alone.\<close>

definition drained :: "('c, 'm) message_buffer \<Rightarrow> ('c, 'm) message_buffer \<Rightarrow> bool" where
  "drained b b' \<longleftrightarrow> m_ordering_set b' = m_ordering_set b \<and> mb_consumer_ptr b' = mb_consumer_ptr b \<and>
     m_randomization b' = m_randomization b \<and> m_strict_fifo b' = m_strict_fifo b \<and>
     m_last_arrival_time b' = m_last_arrival_time b \<and> buffer_payloads b' \<subseteq># buffer_payloads b"

lemma drained_refl [simp]: "drained b b"
  by (simp add: drained_def)

lemma drained_trans: "\<lbrakk> drained a b; drained b c \<rbrakk> \<Longrightarrow> drained a c"
  by (auto simp: drained_def)

lemma drained_link:
  "\<lbrakk> drained b b'; link_buffer_ok R latest counts b; net_buffer_ok counts b' \<rbrakk> \<Longrightarrow> link_buffer_ok R latest counts b'"
  by (simp add: drained_def link_buffer_ok_def)

text \<open>Taking the first message out.\<close>

lemma pop_fields:
  assumes "pop now b = Some b'"
  shows "m_ordering_set b' = m_ordering_set b" "mb_consumer_ptr b' = mb_consumer_ptr b" "m_randomization b' = m_randomization b"
    "m_strict_fifo b' = m_strict_fifo b" "m_last_arrival_time b' = m_last_arrival_time b"
  using assms by (auto simp: pop_def Let_def bind_Some_iff split: if_splits)

lemma net_pop:
  assumes "net_buffer_ok counts b" "isReady now b"
  obtains msg b' where "peekMsgPtr now b = Some msg" "pop now b = Some b'" "net_buffer_ok counts b'"
    "m_LastEnqueueTime msg \<le> now" "nd_invar counts (getInternalDestination (payload msg))"
    "buffer_deliveries b = buffer_deliveries b' + msg_deliveries (payload msg)"
    "buffer_payloads b = add_mset (payload msg) (buffer_payloads b')"
    "nm_MessageSize (payload msg) \<noteq> MessageSizeType_Undefined" "drained b b'"
proof -
  have ok: "buffer_ok False b" using assms(1) by (simp add: net_buffer_ok_def)
  then obtain ns where "represents b ns" using buffer_ok_represented by blast
  then obtain n ns where n: "represents b (n # ns)" "node_time n \<le> now"
    using isReady_represents [OF ok] assms(2) by blast
  then obtain b' where b': "pop now b = Some b'" "buffer_ok False b'" "represents b' ns"
    using pop_represents [OF ok] by blast
  have nodes: "mb_nodes b = add_mset n (mb_nodes b')" using n(1) b'(3) by (metis mset.simps(2) represents_def)
  have "peekMsgPtr now b = Some (node_msgptr n)"
    using represents_head [OF ok n(1)] assms(2) by (auto simp: peekMsgPtr_def)
  moreover have "net_buffer_ok counts b'" using assms(1) b'(2) nodes by (simp add: net_buffer_ok_def)
  moreover have "drained b b'"
    using pop_fields [OF b'(1)] nodes by (simp add: drained_def buffer_payloads_def)
  ultimately show thesis
    using b'(1) nodes assms(1) n(2) by (intro that [of "node_msgptr n" b']) (auto simp: net_buffer_ok_def buffer_deliveries_def buffer_payloads_def)
qed

section \<open>The invariant of a switch\<close>

definition rows_ok :: "('a \<Rightarrow> bool) \<Rightarrow> nat \<Rightarrow> 'a list list \<Rightarrow> bool" where
  "rows_ok P n bs \<longleftrightarrow> (\<forall>row\<in>set bs. length row = n \<and> (\<forall>b\<in>set row. P b))"

lemma rows_ok_nth:
  assumes "rows_ok P n bs" "p < length bs" shows "length (bs ! p) = n" "v < n \<Longrightarrow> P (bs ! p ! v)"
proof -
  have "length (bs ! p) = n \<and> (\<forall>b\<in>set (bs ! p). P b)" using assms nth_mem unfolding rows_ok_def by blast
  then show "length (bs ! p) = n" "v < n \<Longrightarrow> P (bs ! p ! v)" by auto
qed

lemma length_put_buffer [simp]: "length (put_buffer p v b bs) = length bs"
  by (simp add: put_buffer_def)

lemma rows_ok_put:
  assumes "rows_ok P n bs" "p < length bs" "P b" shows "rows_ok P n (put_buffer p v b bs)"
proof -
  have "length ((bs ! p)[v := b]) = n \<and> (\<forall>x\<in>set ((bs ! p)[v := b]). P x)"
    using assms set_update_subset_insert [of "bs ! p" v b] by (fastforce simp: rows_ok_def)
  then show ?thesis using assms(1) set_update_subset_insert [of bs p "(bs ! p)[v := b]"]
    unfolding rows_ok_def put_buffer_def by blast
qed

lemma put_buffer_nth:
  assumes "p < length bs" "v < length (bs ! p)"
  shows "put_buffer p v b bs ! a ! c = (if a = p \<and> c = v then b else bs ! a ! c)"
  using assms by (auto simp: put_buffer_def nth_list_update)

text \<open>What the switch relies on outside its sources: random delays are positive, and \<open>sort\<close> permutes.\<close>

definition env_ok :: "switch_env \<Rightarrow> bool" where
  "env_ok env \<longleftrightarrow> (\<forall>k. 1 \<le> env_random_time env k) \<and> (\<forall>xs. mset (sort_links env xs) = mset xs)"

text \<open>The messages of an outgoing link are for machines of its routing entry.\<close>

definition links_routed :: "net_dest list \<Rightarrow> ('c, 'b) net_buffer list list \<Rightarrow> bool" where
  "links_routed table out \<longleftrightarrow> (\<forall>l<length out. \<forall>b\<in>set (out ! l). \<forall>m\<in>#buffer_payloads b.
     nd_elems (getInternalDestination m) \<subseteq> nd_elems (table ! l))"

lemma links_routed_put:
  assumes "links_routed table out" "\<forall>m\<in>#buffer_payloads b. nd_elems (getInternalDestination m) \<subseteq> nd_elems (table ! l)"
  shows "links_routed table (put_buffer l v b out)"
  unfolding links_routed_def
proof (intro allI impI ballI)
  fix i c m assume i: "i < length (put_buffer l v b out)" "c \<in> set (put_buffer l v b out ! i)" "m \<in># buffer_payloads c"
  then have "c = b \<and> i = l \<or> c \<in> set (out ! i)"
    using set_update_subset_insert [of "out ! l" v b] by (cases "i = l") (auto simp: put_buffer_def)
  then show "nd_elems (getInternalDestination m) \<subseteq> nd_elems (table ! i)"
    using assms i(1,3) by (auto simp: links_routed_def)
qed

lemma links_routed_nth:
  assumes "links_routed table out" "l < length out" "v < length (out ! l)" "m \<in># buffer_payloads (out ! l ! v)"
  shows "nd_elems (getInternalDestination m) \<subseteq> nd_elems (table ! l)"
  using assms nth_mem [OF assms(3)] unfolding links_routed_def by blast

definition switch_ok :: "switch_env \<Rightarrow> nat list \<Rightarrow> ('c, 'b) perfect_switch \<Rightarrow> ('c, 's) sim \<Rightarrow> bool" where
  "switch_ok env counts ps s \<longleftrightarrow> queue_ok s \<and>
     length (m_link_order ps) = length (m_out ps) \<and> length (m_routing_table ps) = length (m_out ps) \<and>
     set (map fst (m_link_order ps)) = {..<length (m_out ps)} \<and>
     (\<forall>e\<in>set (m_routing_table ps). nd_invar counts e) \<and> links_routed (m_routing_table ps) (m_out ps) \<and>
     all_machines counts \<subseteq> (\<Union>e\<in>set (m_routing_table ps). nd_elems e) \<and>
     rows_ok (net_buffer_ok counts) (m_virtual_networks ps) (m_in ps) \<and>
     rows_ok (link_buffer_ok (env_RANDOMIZATION env) (m_globalTime s + 1) counts) (m_virtual_networks ps) (m_out ps)"

lemma row_deliveries_map:
  assumes "\<And>b. buffer_deliveries (f b) = buffer_deliveries b"
  shows "row_deliveries (map (map f) bs) = row_deliveries bs"
  using assms by (simp add: row_deliveries_def comp_def)

lemma order_links_law:
  assumes "env_ok env" "switch_ok env counts ps s" "order_links env vnet now (ps, k) = (ps', k')"
  shows "switch_ok env counts ps' s \<and> deliveries ps' = deliveries ps \<and>
    ps' = ps\<lparr>m_link_order := m_link_order ps', m_out := m_out ps'\<rparr>"
proof -
  have sort: "length (sort_links env xs) = length xs" "set (sort_links env xs) = set xs" for xs
    using assms(1) unfolding env_ok_def by (metis size_mset, metis set_mset_mset)
  consider "ps' = ps" | "ps' = ps\<lparr>m_link_order := map (\<lambda>outlink. (outlink, 0)) [0..<length (m_out ps)]\<rparr>"
    | f where "ps' = ps\<lparr>m_link_order := sort_links env (map (\<lambda>outlink. (outlink, f outlink)) [0..<length (m_out ps)]),
        m_out := map (map (\<lambda>b. snd (getSize now b))) (m_out ps)\<rparr>"
    using assms(3) by (auto simp: order_links_def Let_def split: if_splits)
  then show ?thesis
  proof cases
    case 3
    have "fst ` set (map (\<lambda>outlink. (outlink, f outlink)) [0..<length (m_out ps)]) = {..<length (m_out ps)}" by force
    then have "switch_ok env counts ps' s"
      using 3 assms(2) sort by (auto simp: switch_ok_def rows_ok_def links_routed_def getSize_keeps)
    then show ?thesis using 3 by (simp add: deliveries_def row_deliveries_map getSize_keeps)
  qed (use assms(2) in \<open>auto simp: switch_ok_def deliveries_def image_image\<close>)
qed

lemma check_slots_law:
  assumes "rows_ok (link_buffer_ok R now counts) n out" "\<forall>l\<in>set ls. l < length out" "vnet < n"
    "check_slots t vnet ls out = (enough, out')" "links_routed table out"
  shows "rows_ok (link_buffer_ok R now counts) n out' \<and> length out' = length out \<and>
    row_deliveries out' = row_deliveries out \<and> links_routed table out'"
  using assms
proof (induction ls arbitrary: out)
  case (Cons l ls)
  obtain e b where e: "areNSlotsAvailable t 1 (out ! l ! vnet) = (e, b)" by fastforce
  have l: "l < length out" "length (out ! l) = n" using Cons.prems(1,2) by (auto simp: rows_ok_nth)
  have b: "link_buffer_ok R now counts b" "buffer_deliveries b = buffer_deliveries (out ! l ! vnet)"
    "buffer_payloads b = buffer_payloads (out ! l ! vnet)"
    using areNSlotsAvailable_keeps [where t = t and n = 1 and b = "out ! l ! vnet"] e
      rows_ok_nth(2) [OF Cons.prems(1) l(1) assms(3)] by simp_all
  have out: "rows_ok (link_buffer_ok R now counts) n (put_buffer l vnet b out)"
      "row_deliveries (put_buffer l vnet b out) = row_deliveries out"
    using rows_ok_put [OF Cons.prems(1) l(1) b(1)] row_deliveries_put [OF l(1), of vnet b] b(2) l(2) assms(3) by auto
  have "links_routed table (put_buffer l vnet b out)"
    using links_routed_put [OF Cons.prems(5)] links_routed_nth [OF Cons.prems(5) l(1)] l(2) assms(3) b(3) by metis
  then show ?case
    using Cons.IH [OF out(1)] Cons.prems(2,3,4) e out by (cases e) auto
qed simp

lemma send_copies_law:
  assumes "env_ok env" "switch_ok env counts ps s" "vnet < m_virtual_networks ps"
    "m_LastEnqueueTime msg \<le> m_globalTime s" "nm_MessageSize (payload msg) \<noteq> MessageSizeType_Undefined"
    "\<forall>(l, x)\<in>set outs. l < length (m_out ps) \<and> nd_invar counts x \<and> nd_elems x \<subseteq> nd_elems (m_routing_table ps ! l)"
  shows "\<exists>out s' k'. run_all (send_copy env vnet msg) outs (ps, s, k) = Some (ps\<lparr>m_out := out\<rparr>, s', k') \<and>
    switch_ok env counts (ps\<lparr>m_out := out\<rparr>) s' \<and> scheduled s s' \<and>
    row_deliveries out = row_deliveries (m_out ps) +
      (\<Sum>(l, x)\<leftarrow>outs. image_mset (Pair (nm_body (payload msg))) (mset_set (nd_elems x)))"
  using assms(2-6)
proof (induction outs arbitrary: ps s k)
  case Nil
  have "ps = ps\<lparr>m_out := m_out ps\<rparr>" by simp
  then show ?case using Nil by (auto simp: scheduled_def intro!: exI [of _ "m_out ps"])
next
  case (Cons lx outs)
  obtain l x where lx: "lx = (l, x)" by (cases lx)
  let ?R = "env_RANDOMIZATION env" and ?now = "m_globalTime s" and ?n = "m_virtual_networks ps"
  let ?msg = "msg\<lparr>payload := (payload msg)\<lparr>m_internal_dest_valid := True, m_internal_dest := x\<rparr>\<rparr>"
  have rows: "rows_ok (link_buffer_ok ?R (?now + 1) counts) ?n (m_out ps)" "queue_ok s"
    using Cons.prems(1) by (simp_all add: switch_ok_def)
  have l: "l < length (m_out ps)" "nd_invar counts x" "nd_elems x \<subseteq> nd_elems (m_routing_table ps ! l)"
    using Cons.prems(5) lx by auto
  obtain b s1 where b: "enqueue ?R (env_random_time env k) (Some ?msg) 1 (m_out ps ! l ! vnet) s = Some (b, s1)"
      "link_buffer_ok ?R (?now + 1) counts b" "queue_ok s1" "scheduled s s1"
      "buffer_deliveries b = buffer_deliveries (m_out ps ! l ! vnet) + msg_deliveries (payload ?msg)"
      "buffer_payloads b = add_mset (payload ?msg) (buffer_payloads (m_out ps ! l ! vnet))"
    using link_enqueue [OF rows_ok_nth(2) [OF rows(1) l(1) Cons.prems(2)] rows(2), of "env_random_time env k" ?msg]
      assms(1) Cons.prems(3,4) l(2) by (auto simp: env_ok_def getInternalDestination_def)
  let ?out = "put_buffer l vnet b (m_out ps)" and ?ps = "ps\<lparr>m_out := put_buffer l vnet b (m_out ps)\<rparr>"
  have now: "m_globalTime s1 = ?now" using b(4) by (simp add: scheduled_def)
  have routed: "links_routed (m_routing_table ps) (m_out ps)" using Cons.prems(1) by (simp add: switch_ok_def)
  have "vnet < length (m_out ps ! l)" using rows_ok_nth(1) [OF rows(1) l(1)] Cons.prems(2) by simp
  then have "links_routed (m_routing_table ps) ?out"
    using links_routed_put [OF routed] links_routed_nth [OF routed l(1)] b(6) l(3) by (auto simp: getInternalDestination_def)
  then have ok: "switch_ok env counts ?ps s1"
    using Cons.prems(1) b(2,3) rows_ok_put [OF rows(1) l(1)] now by (simp add: switch_ok_def)
  have "row_deliveries ?out + buffer_deliveries (m_out ps ! l ! vnet) = row_deliveries (m_out ps) + buffer_deliveries b"
    using row_deliveries_put [OF l(1)] rows_ok_nth(1) [OF rows(1) l(1)] Cons.prems(2) by simp
  then have add: "row_deliveries ?out = row_deliveries (m_out ps) + msg_deliveries (payload ?msg)"
    using b(5) by (simp add: ac_simps)
  obtain out s' k' where r: "run_all (send_copy env vnet msg) outs (?ps, s1, k + 1) = Some (?ps\<lparr>m_out := out\<rparr>, s', k')"
      "switch_ok env counts (?ps\<lparr>m_out := out\<rparr>) s'" "scheduled s1 s'"
      "row_deliveries out = row_deliveries (m_out ?ps) +
        (\<Sum>(l, x)\<leftarrow>outs. image_mset (Pair (nm_body (payload msg))) (mset_set (nd_elems x)))"
    using Cons.IH [OF ok, of "k + 1"] Cons.prems(2-5) now by auto
  have "?ps\<lparr>m_out := out\<rparr> = ps\<lparr>m_out := out\<rparr>" by simp
  moreover have "run_all (send_copy env vnet msg) (lx # outs) (ps, s, k) = run_all (send_copy env vnet msg) outs (?ps, s1, k + 1)"
    using b(1) by (simp add: send_copy_def lx)
  moreover have "row_deliveries out = row_deliveries (m_out ps) +
      (\<Sum>(l, x)\<leftarrow>lx # outs. image_mset (Pair (nm_body (payload msg))) (mset_set (nd_elems x)))"
    using r(4) add by (simp add: lx msg_deliveries_def getInternalDestination_def ac_simps)
  ultimately show ?case using r(1,2) scheduled_trans [OF b(4) r(3)] by metis
qed

section \<open>One message is moved\<close>

text \<open>The switch works on the buffer \<open>vnet\<close> of the port \<open>incoming\<close>: it keeps its invariant and what there is to
  deliver, and only that buffer among the incoming ones changes.\<close>

definition moved ::
  "switch_env \<Rightarrow> nat list \<Rightarrow> nat \<Rightarrow> nat \<Rightarrow> ('c, 'b) perfect_switch \<times> ('c, 's) sim \<Rightarrow> ('c, 'b) perfect_switch \<times> ('c, 's) sim \<Rightarrow> bool" where
  "moved env counts incoming vnet = (\<lambda>(ps, s) (ps', s'). switch_ok env counts ps' s' \<and> scheduled s s' \<and>
     deliveries ps' = deliveries ps \<and> ps_this ps' = ps_this ps \<and> m_virtual_networks ps' = m_virtual_networks ps \<and>
     m_routing_table ps' = m_routing_table ps \<and>
     m_round_robin_start ps' = m_round_robin_start ps \<and> length (m_in ps') = length (m_in ps) \<and>
     drained (m_in ps ! incoming ! vnet) (m_in ps' ! incoming ! vnet) \<and>
     (\<forall>a c. (a, c) \<noteq> (incoming, vnet) \<longrightarrow> m_in ps' ! a ! c = m_in ps ! a ! c))"

lemma moved_refl: "switch_ok env counts ps s \<Longrightarrow> moved env counts i v (ps, s) (ps, s)"
  by (simp add: moved_def scheduled_def)

lemma moved_trans:
  assumes "moved env counts i v (ps, s) (ps1, s1)" "moved env counts i v (ps1, s1) (ps2, s2)"
  shows "moved env counts i v (ps, s) (ps2, s2)"
  using assms scheduled_trans [of s s1 s2] by (auto simp: moved_def intro: drained_trans)

lemma image_mset_sum_list: "image_mset f (\<Sum>x\<leftarrow>xs. g x) = (\<Sum>x\<leftarrow>xs. image_mset f (g x))"
  by (induction xs) simp_all

lemma route_message:
  assumes "switch_ok env counts ps s" "nd_invar counts d"
  shows "\<exists>outs rest. route_links (m_routing_table ps) (map fst (m_link_order ps)) d = Some (outs, rest) \<and> nd_count rest = 0 \<and>
    (\<forall>(l, x)\<in>set outs. l < length (m_out ps) \<and> nd_invar counts x \<and> nd_elems x \<subseteq> nd_elems (m_routing_table ps ! l)) \<and>
    mset_set (nd_elems d) = (\<Sum>(l, x)\<leftarrow>outs. mset_set (nd_elems x))"
proof -
  let ?T = "m_routing_table ps"
  have ls: "set (map fst (m_link_order ps)) = {..<length ?T}" "length ?T = length (m_out ps)"
    using assms(1) by (simp_all add: switch_ok_def)
  have "\<forall>l\<in>set (map fst (m_link_order ps)). l < length ?T \<and> nd_invar counts (?T ! l)"
    unfolding ls(1) using assms(1) by (simp add: switch_ok_def)
  from route_links_law [OF assms(2) this] obtain outs rest where
    r: "route_links ?T (map fst (m_link_order ps)) d = Some (outs, rest)" "nd_invar counts rest"
      "nd_elems rest = nd_elems d - (\<Union>l\<in>set (map fst (m_link_order ps)). nd_elems (?T ! l))"
      "\<forall>(l, x)\<in>set outs. l \<in> set (map fst (m_link_order ps)) \<and> nd_invar counts x \<and> nd_elems x \<subseteq> nd_elems (?T ! l)"
      "mset_set (nd_elems d) = (\<Sum>(l, x)\<leftarrow>outs. mset_set (nd_elems x)) + mset_set (nd_elems rest)" by blast
  have "(\<Union>l\<in>{..<length ?T}. nd_elems (?T ! l)) = (\<Union>e\<in>set ?T. nd_elems e)"
    unfolding set_conv_nth by blast
  then have "nd_elems rest = {}"
    using r(3) nd_elems_in_range [OF assms(2)] assms(1) unfolding ls(1) switch_ok_def by blast
  then show ?thesis using r(1,4,5) nd_count_law [OF r(2)] unfolding ls by auto
qed

lemma forward_message_law:
  assumes "env_ok env" "switch_ok env counts ps s" "incoming < length (m_in ps)" "vnet < m_virtual_networks ps"
    "peekMsgPtr (m_globalTime s) (m_in ps ! incoming ! vnet) = Some msg" "isReady (m_globalTime s) (m_in ps ! incoming ! vnet)"
    "\<forall>(l, x)\<in>set outs. l < length (m_out ps) \<and> nd_invar counts x \<and> nd_elems x \<subseteq> nd_elems (m_routing_table ps ! l)"
    "mset_set (nd_elems (getInternalDestination (payload msg))) = (\<Sum>(l, x)\<leftarrow>outs. mset_set (nd_elems x))"
  shows "\<exists>again ps' s' k'. forward_message env incoming vnet msg outs (ps, s, k) = Some (again, ps', s', k') \<and>
    moved env counts incoming vnet (ps, s) (ps', s') \<and>
    (again \<or> \<lparr>m_time = m_globalTime s + 1, m_consumer_ptr = ps_this ps\<rparr> \<in># pending s')"
proof -
  let ?now = "m_globalTime s" and ?b = "m_in ps ! incoming ! vnet"
  have rows: "rows_ok (net_buffer_ok counts) (m_virtual_networks ps) (m_in ps)"
    "rows_ok (link_buffer_ok (env_RANDOMIZATION env) (?now + 1) counts) (m_virtual_networks ps) (m_out ps)" "queue_ok s"
    "links_routed (m_routing_table ps) (m_out ps)"
    using assms(2) by (simp_all add: switch_ok_def)
  obtain enough out where c: "check_slots ?now vnet (map fst outs) (m_out ps) = (enough, out)" by fastforce
  have "\<forall>l\<in>set (map fst outs). l < length (m_out ps)" using assms(7) by auto
  from check_slots_law [OF rows(2) this assms(4) c rows(4)] have out:
    "rows_ok (link_buffer_ok (env_RANDOMIZATION env) (?now + 1) counts) (m_virtual_networks ps) out"
    "length out = length (m_out ps)" "row_deliveries out = row_deliveries (m_out ps)"
    "links_routed (m_routing_table ps) out" by auto
  have ok: "switch_ok env counts (ps\<lparr>m_out := out\<rparr>) s" using assms(2) out(1,2,4) by (simp add: switch_ok_def)
  show ?thesis
  proof (cases enough)
    case False
    obtain s' where s': "scheduleEventAbsolute (Some (ps_this ps)) (1 + ?now) s = Some s'" "queue_ok s'" "scheduled s s'"
        "\<lparr>m_time = 1 + ?now, m_consumer_ptr = ps_this ps\<rparr> \<in># pending s'"
      using scheduleEventAbsolute_future [OF rows(3), of "1 + ?now"] by auto
    then have "forward_message env incoming vnet msg outs (ps, s, k) = Some (False, ps\<lparr>m_out := out\<rparr>, s', k)"
      using c False by (simp add: forward_message_def scheduleEvent_def)
    moreover have "switch_ok env counts (ps\<lparr>m_out := out\<rparr>) s'" using ok s'(2,3) by (simp add: switch_ok_def scheduled_def)
    then have "moved env counts incoming vnet (ps, s) (ps\<lparr>m_out := out\<rparr>, s')"
      using s'(3) out(3) by (simp add: moved_def deliveries_def)
    ultimately show ?thesis using s'(4) by (auto simp: add.commute)
  next
    case True
    have "net_buffer_ok counts ?b" by (rule rows_ok_nth(2) [OF rows(1) assms(3,4)])
    then obtain b where b: "pop ?now ?b = Some b" "net_buffer_ok counts b" "m_LastEnqueueTime msg \<le> ?now"
        "buffer_deliveries ?b = buffer_deliveries b + msg_deliveries (payload msg)"
        "nm_MessageSize (payload msg) \<noteq> MessageSizeType_Undefined" "drained ?b b"
      by (rule net_pop [OF _ assms(6)]) (use assms(5) in auto)
    obtain out' s' k' where r: "run_all (send_copy env vnet msg) outs (ps\<lparr>m_out := out\<rparr>, s, k) = Some (ps\<lparr>m_out := out'\<rparr>, s', k')"
        "switch_ok env counts (ps\<lparr>m_out := out'\<rparr>) s'" "scheduled s s'"
        "row_deliveries out' = row_deliveries (m_out ps) +
          (\<Sum>(l, x)\<leftarrow>outs. image_mset (Pair (nm_body (payload msg))) (mset_set (nd_elems x)))"
      using send_copies_law [OF assms(1) ok, of vnet msg outs k] assms(4,7) b(3,5) out(2,3) by auto
    have msg: "msg_deliveries (payload msg) = (\<Sum>(l, x)\<leftarrow>outs. image_mset (Pair (nm_body (payload msg))) (mset_set (nd_elems x)))"
      unfolding msg_deliveries_def assms(8) image_mset_sum_list by (intro arg_cong [where f = sum_list] map_cong) auto
    let ?ps = "ps\<lparr>m_out := out', m_in := put_buffer incoming vnet b (m_in ps)\<rparr>"
    have v: "vnet < length (m_in ps ! incoming)" using rows_ok_nth(1) [OF rows(1) assms(3)] assms(4) by simp
    have "row_deliveries (put_buffer incoming vnet b (m_in ps)) + msg_deliveries (payload msg) = row_deliveries (m_in ps)"
      using row_deliveries_put [OF assms(3) v, of b] b(4) by (simp add: ac_simps)
    then have "deliveries ?ps = deliveries ps" using r(4) msg by (simp add: deliveries_def ac_simps)
    moreover have "switch_ok env counts ?ps s'"
      using r(2) rows_ok_put [OF rows(1) assms(3), of b vnet] b(2) by (simp add: switch_ok_def)
    ultimately have "moved env counts incoming vnet (ps, s) (?ps, s')"
      using r(3) b(6) put_buffer_nth [OF assms(3) v] by (auto simp: moved_def)
    moreover have "forward_message env incoming vnet msg outs (ps, s, k) = Some (True, ?ps, s', k')"
      using c True r(1) b(1) by (simp add: forward_message_def)
    ultimately show ?thesis by blast
  qed
qed

lemma switch_message_law:
  assumes "env_ok env" "switch_ok env counts ps s" "incoming < length (m_in ps)" "vnet < m_virtual_networks ps"
    "isReady (m_globalTime s) (m_in ps ! incoming ! vnet)"
  shows "\<exists>again ps' s' k'. switch_message env incoming vnet (ps, s, k) = Some (again, ps', s', k') \<and>
    moved env counts incoming vnet (ps, s) (ps', s') \<and>
    (again \<or> \<lparr>m_time = m_globalTime s + 1, m_consumer_ptr = ps_this ps\<rparr> \<in># pending s')"
proof -
  let ?b = "m_in ps ! incoming ! vnet"
  have rows: "rows_ok (net_buffer_ok counts) (m_virtual_networks ps) (m_in ps)"
    and len: "length (m_link_order ps) = length (m_out ps)" "length (m_routing_table ps) = length (m_out ps)"
    using assms(2) by (simp_all add: switch_ok_def)
  obtain msg where msg: "peekMsgPtr (m_globalTime s) ?b = Some msg" "nd_invar counts (getInternalDestination (payload msg))"
    by (rule net_pop [OF rows_ok_nth(2) [OF rows assms(3,4)] assms(5)]) blast
  obtain ps1 k1 where o: "order_links env vnet (m_globalTime s) (ps, k) = (ps1, k1)" by fastforce
  have ps1: "switch_ok env counts ps1 s" "deliveries ps1 = deliveries ps"
    "ps1 = ps\<lparr>m_link_order := m_link_order ps1, m_out := m_out ps1\<rparr>"
    using order_links_law [OF assms(1,2) o] by blast+
  have same: "m_in ps1 = m_in ps" "m_virtual_networks ps1 = m_virtual_networks ps" "ps_this ps1 = ps_this ps"
    "m_round_robin_start ps1 = m_round_robin_start ps" "m_routing_table ps1 = m_routing_table ps" by (subst ps1(3), simp)+
  obtain outs rest where r: "route_links (m_routing_table ps1) (map fst (m_link_order ps1)) (getInternalDestination (payload msg)) = Some (outs, rest)"
      "nd_count rest = 0"
      "\<forall>(l, x)\<in>set outs. l < length (m_out ps1) \<and> nd_invar counts x \<and> nd_elems x \<subseteq> nd_elems (m_routing_table ps1 ! l)"
      "mset_set (nd_elems (getInternalDestination (payload msg))) = (\<Sum>(l, x)\<leftarrow>outs. mset_set (nd_elems x))"
    using route_message [OF ps1(1) msg(2)] by fastforce
  obtain again ps' s' k' where f: "forward_message env incoming vnet msg outs (ps1, s, k1) = Some (again, ps', s', k')"
      "moved env counts incoming vnet (ps1, s) (ps', s')"
      "again \<or> \<lparr>m_time = m_globalTime s + 1, m_consumer_ptr = ps_this ps1\<rparr> \<in># pending s'"
    using forward_message_law [OF assms(1) ps1(1), of incoming vnet msg outs k1] assms(3-5) msg(1) r(3,4) same by auto
  have "vnet < length (m_in ps ! incoming)" using rows_ok_nth(1) [OF rows assms(3)] assms(4) by simp
  then have "switch_message env incoming vnet (ps, s, k) = Some (again, ps', s', k')"
    using assms(3) msg(1) len o r(1,2) f(1) by (simp add: switch_message_def)
  moreover have "moved env counts incoming vnet (ps, s) (ps', s')" using f(2) ps1(2) same by (simp add: moved_def)
  ultimately show ?thesis using f(3) same by auto
qed

text \<open>A buffer that a wakeup has worked on is done: it has no message that is ready, or the switch is
  woken again in the next cycle.\<close>

definition port_done :: "nat \<Rightarrow> nat \<Rightarrow> ('c, 'b) perfect_switch \<times> ('c, 's) sim \<Rightarrow> bool" where
  "port_done incoming vnet = (\<lambda>(ps, s). \<not> isReady (m_globalTime s) (m_in ps ! incoming ! vnet) \<or>
     \<lparr>m_time = m_globalTime s + 1, m_consumer_ptr = ps_this ps\<rparr> \<in># pending s)"

lemma switch_loop_law:
  assumes "env_ok env" "switch_ok env counts ps s" "incoming < length (m_in ps)" "vnet < m_virtual_networks ps"
  shows "\<exists>ps' s' k'. switch_loop env incoming vnet ps s k = Some (ps', s', k') \<and>
    moved env counts incoming vnet (ps, s) (ps', s') \<and> port_done incoming vnet (ps', s')"
  using assms
proof (induction env incoming vnet ps s k rule: switch_loop.induct)
  case (1 env incoming vnet ps s k)
  show ?case
  proof (cases "isReady (m_globalTime s) (m_in ps ! incoming ! vnet)")
    case True
    obtain again ps1 s1 k1 where m: "switch_message env incoming vnet (ps, s, k) = Some (again, ps1, s1, k1)"
        "moved env counts incoming vnet (ps, s) (ps1, s1)"
        "again \<or> \<lparr>m_time = m_globalTime s + 1, m_consumer_ptr = ps_this ps\<rparr> \<in># pending s1"
      using switch_message_law [OF 1(2-5) True] by blast
    show ?thesis
    proof (cases again)
      case True
      obtain ps2 s2 k2 where "switch_loop env incoming vnet ps1 s1 k1 = Some (ps2, s2, k2)"
        "moved env counts incoming vnet (ps1, s1) (ps2, s2)" "port_done incoming vnet (ps2, s2)"
        using 1(1) [OF \<open>isReady _ _\<close> m(1) refl refl refl True] m(2) 1(2,4,5) by (auto simp: moved_def)
      then show ?thesis using moved_trans [OF m(2)] m(1) True \<open>isReady _ _\<close> switch_loop.simps [of env incoming vnet ps s k] by auto
    next
      case False
      have "m_globalTime s1 = m_globalTime s" "ps_this ps1 = ps_this ps" using m(2) by (auto simp: moved_def scheduled_def)
      then have "port_done incoming vnet (ps1, s1)" using m(3) False by (simp add: port_done_def)
      then show ?thesis using m(1,2) False \<open>isReady _ _\<close> switch_loop.simps [of env incoming vnet ps s k] by auto
    qed
  next
    case False
    then show ?thesis using moved_refl [OF 1(3)] switch_loop.simps [of env incoming vnet ps s k] by (simp add: port_done_def)
  qed
qed

section \<open>The wakeup\<close>

text \<open>The round robin visits every port once.\<close>

lemma next_port_funpow: "i < n \<Longrightarrow> (next_port n ^^ k) i = (i + k) mod n"
proof (induction k)
  case (Suc k)
  have "(i + k) mod n < n" using Suc.prems by simp
  then have "next_port n ((i + k) mod n) = ((i + k) mod n + 1) mod n"
    by (cases "Suc ((i + k) mod n) = n") (auto simp: next_port_def)
  then show ?case using Suc by (simp add: mod_Suc_eq)
qed simp

lemma round_robin_ports:
  assumes "start < n" shows "(\<lambda>c. (next_port n ^^ Suc c) start) ` {..<n} = {..<n}"
proof -
  have "a \<in> (\<lambda>c. (start + Suc c) mod n) ` {..<n}" if "a < n" for a
  proof (cases "a > start")
    case True
    then show ?thesis using that by (intro image_eqI [of _ _ "a - start - 1"]) auto
  next
    case False
    then have "start + Suc (n + a - start - 1) = n + a" using that assms by simp
    then show ?thesis using that False assms by (intro image_eqI [of _ _ "n + a - start - 1"]) auto
  qed
  moreover have "(\<lambda>c. (next_port n ^^ Suc c) start) ` {..<n} = (\<lambda>c. (start + Suc c) mod n) ` {..<n}"
    using next_port_funpow [OF assms] by (intro image_cong) (simp_all del: funpow.simps)
  ultimately show ?thesis using assms by auto
qed

text \<open>The switch has worked on virtual networks of the set \<open>vs\<close>.\<close>

definition worked ::
  "switch_env \<Rightarrow> nat list \<Rightarrow> nat set \<Rightarrow> ('c, 'b) perfect_switch \<times> ('c, 's) sim \<Rightarrow> ('c, 'b) perfect_switch \<times> ('c, 's) sim \<Rightarrow> bool" where
  "worked env counts vs = (\<lambda>(ps, s) (ps', s'). switch_ok env counts ps' s' \<and> scheduled s s' \<and>
     deliveries ps' = deliveries ps \<and> ps_this ps' = ps_this ps \<and> m_virtual_networks ps' = m_virtual_networks ps \<and>
     m_routing_table ps' = m_routing_table ps \<and>
     length (m_in ps') = length (m_in ps) \<and>
     (m_round_robin_start ps < length (m_in ps) \<or> m_in ps = [] \<longrightarrow> m_round_robin_start ps' < length (m_in ps') \<or> m_in ps' = []) \<and>
     (\<forall>a c. drained (m_in ps ! a ! c) (m_in ps' ! a ! c)) \<and>
     (\<forall>a c. c \<notin> vs \<longrightarrow> m_in ps' ! a ! c = m_in ps ! a ! c))"

lemma worked_refl: "switch_ok env counts ps s \<Longrightarrow> worked env counts vs (ps, s) (ps, s)"
  by (simp add: worked_def scheduled_def)

lemma worked_trans:
  assumes "worked env counts vs (ps, s) (ps1, s1)" "worked env counts ws (ps1, s1) (ps2, s2)"
  shows "worked env counts (vs \<union> ws) (ps, s) (ps2, s2)"
proof -
  have "drained (m_in ps ! a ! c) (m_in ps2 ! a ! c)" for a c
    using assms drained_trans unfolding worked_def by fast
  then show ?thesis using assms scheduled_trans [of s s1 s2] unfolding worked_def by auto
qed

lemma worked_moved: "moved env counts i v (ps, s) (ps', s') \<Longrightarrow> worked env counts {v} (ps, s) (ps', s')"
proof -
  assume m: "moved env counts i v (ps, s) (ps', s')"
  have "drained (m_in ps ! a ! c) (m_in ps' ! a ! c)" for a c
    using m by (cases "(a, c) = (i, v)") (auto simp: moved_def)
  then show ?thesis using m by (auto simp: moved_def worked_def)
qed

lemma port_done_kept:
  assumes "port_done a v (ps, s)" "scheduled s s'" "ps_this ps' = ps_this ps" "m_in ps' ! a ! v = m_in ps ! a ! v"
  shows "port_done a v (ps', s')"
  using assms by (auto simp: port_done_def scheduled_def)

lemma switch_vnet_law:
  assumes "env_ok env" "switch_ok env counts ps s" "vnet < m_virtual_networks ps"
    "m_round_robin_start ps < length (m_in ps) \<or> m_in ps = []"
  shows "\<exists>ps' s' k'. switch_vnet env vnet (ps, s, k) = Some (ps', s', k') \<and> worked env counts {vnet} (ps, s) (ps', s') \<and>
    (\<forall>a<length (m_in ps). port_done a vnet (ps', s'))"
proof -
  let ?n = "length (m_in ps)" and ?start = "m_round_robin_start ps"
  let ?ps = "ps\<lparr>m_round_robin_start := if m_round_robin_start ps + 1 \<ge> length (m_in ps) then 0 else m_round_robin_start ps + 1\<rparr>"
  let ?port = "\<lambda>c. (next_port ?n ^^ Suc c) ?start"
  define P where "P = (\<lambda>c (ps', s', k' :: nat). worked env counts {vnet} (?ps, s) (ps', s') \<and>
    (\<forall>d<c. port_done (?port d) vnet (ps', s')))"
  have start: "switch_ok env counts ?ps s" "worked env counts {vnet} (ps, s) (?ps, s)"
    using assms(2) by (auto simp: switch_ok_def worked_def scheduled_def deliveries_def)
  have "\<exists>st'. (case st of (ps, s, k) \<Rightarrow> switch_loop env ((next_port (length (m_in ps)) ^^ Suc c) ?start) vnet ps s k) = Some st' \<and>
      P (Suc c) st'" if c: "c < ?n" and st: "P c st" for c st
  proof -
    obtain ps1 s1 k1 where eq: "st = (ps1, s1, k1)" by (cases st)
    have w: "worked env counts {vnet} (?ps, s) (ps1, s1)" "\<forall>d<c. port_done (?port d) vnet (ps1, s1)"
      using st by (simp_all add: P_def eq)
    then have len: "length (m_in ps1) = ?n" "m_virtual_networks ps1 = m_virtual_networks ps" "switch_ok env counts ps1 s1"
      by (auto simp: worked_def)
    have "?start < ?n" using assms(4) c by auto
    then have "?port c < ?n" using next_port_funpow [of ?start ?n "Suc c"] by (metis less_nat_zero_code mod_less_divisor not_gr0)
    then obtain ps2 s2 k2 where l: "switch_loop env (?port c) vnet ps1 s1 k1 = Some (ps2, s2, k2)"
        "moved env counts (?port c) vnet (ps1, s1) (ps2, s2)" "port_done (?port c) vnet (ps2, s2)"
      using switch_loop_law [OF assms(1) len(3), of "?port c" vnet k1] len(1,2) assms(3) by auto
    have "port_done (?port d) vnet (ps2, s2)" if "d < Suc c" for d
    proof (cases "?port d = ?port c")
      case False
      then have "d < c" using that less_Suc_eq by auto
      then have "port_done (?port d) vnet (ps1, s1)" using w(2) by blast
      then show ?thesis by (rule port_done_kept) (use l(2) False in \<open>simp_all add: moved_def del: funpow.simps\<close>)
    qed (use l(3) in simp)
    moreover have "worked env counts {vnet} (?ps, s) (ps2, s2)"
      using worked_trans [OF w(1) worked_moved [OF l(2)]] by simp
    ultimately show ?thesis using l(1) len(1) by (simp add: eq P_def del: funpow.simps)
  qed
  moreover have "P 0 (?ps, s, k)" using worked_refl [OF start(1)] by (simp add: P_def)
  ultimately obtain ps' s' k' where r: "run_all (\<lambda>c (ps, s, k). switch_loop env ((next_port (length (m_in ps)) ^^ Suc c) ?start) vnet ps s k)
      [0..<?n] (?ps, s, k) = Some (ps', s', k')" "P ?n (ps', s', k')"
    using run_upt [of P "(?ps, s, k)" ?n "\<lambda>c (ps, s, k). switch_loop env ((next_port (length (m_in ps)) ^^ Suc c) ?start) vnet ps s k"]
    by fastforce
  have "port_done a vnet (ps', s')" if a: "a < ?n" for a
  proof -
    have "?start < ?n" using assms(4) a by auto
    then obtain c where "c < ?n" "a = ?port c" using round_robin_ports [of ?start ?n] a by blast
    then show ?thesis using r(2) unfolding P_def by blast
  qed
  moreover have "worked env counts {vnet} (ps, s) (ps', s')" 
    using worked_trans [OF start(2), of "{vnet}" ps' s'] r(2) unfolding P_def by simp
  moreover have "switch_vnet env vnet (ps, s, k) = Some (ps', s', k')"
    using r(1) by (cases "?n \<le> Suc ?start") (simp_all add: switch_vnet_def del: funpow.simps)
  ultimately show ?thesis by blast
qed

lemma switch_vnets_law:
  assumes "env_ok env" "switch_ok env counts ps s" "set vs \<subseteq> {..<m_virtual_networks ps}" "distinct vs"
    "m_round_robin_start ps < length (m_in ps) \<or> m_in ps = []"
  shows "\<exists>ps' s' k'. run_all (switch_vnet env) vs (ps, s, k) = Some (ps', s', k') \<and> worked env counts (set vs) (ps, s) (ps', s') \<and>
    (\<forall>v\<in>set vs. \<forall>a<length (m_in ps). port_done a v (ps', s'))"
  using assms(2-5)
proof (induction vs arbitrary: ps s k)
  case Nil
  then show ?case using worked_refl by fastforce
next
  case (Cons v vs)
  obtain ps1 s1 k1 where v: "switch_vnet env v (ps, s, k) = Some (ps1, s1, k1)" "worked env counts {v} (ps, s) (ps1, s1)"
      "\<forall>a<length (m_in ps). port_done a v (ps1, s1)"
    using switch_vnet_law [OF assms(1) Cons.prems(1), of v k] Cons.prems(2,4) by auto
  have ps1: "switch_ok env counts ps1 s1" "m_virtual_networks ps1 = m_virtual_networks ps" "length (m_in ps1) = length (m_in ps)"
    "m_round_robin_start ps1 < length (m_in ps1) \<or> m_in ps1 = []" using v(2) Cons.prems(4) by (auto simp: worked_def)
  obtain ps2 s2 k2 where r: "run_all (switch_vnet env) vs (ps1, s1, k1) = Some (ps2, s2, k2)"
      "worked env counts (set vs) (ps1, s1) (ps2, s2)" "\<forall>v\<in>set vs. \<forall>a<length (m_in ps). port_done a v (ps2, s2)"
    using Cons.IH [OF ps1(1) _ _ ps1(4), of k1] Cons.prems(2,3) ps1(2,3) by auto
  have "port_done a v (ps2, s2)" if "a < length (m_in ps)" for a
  proof -
    have "port_done a v (ps1, s1)" using v(3) that by blast
    then show ?thesis by (rule port_done_kept) (use r(2) Cons.prems(3) in \<open>simp_all add: worked_def\<close>)
  qed
  moreover have "worked env counts (set (v # vs)) (ps, s) (ps2, s2)" using worked_trans [OF v(2) r(2)] by simp
  ultimately show ?case using v(1) r(1,3) by simp
qed

lemma switch_wakeup_law:
  assumes "env_ok env" "switch_ok env counts ps s" "m_round_robin_start ps < length (m_in ps) \<or> m_in ps = []"
  shows "\<exists>ps' s' k'. switch_wakeup env (ps, s, k) = Some (ps', s', k') \<and>
    worked env counts {..<m_virtual_networks ps} (ps, s) (ps', s') \<and>
    (\<forall>v<m_virtual_networks ps. \<forall>a<length (m_in ps). port_done a v (ps', s'))"
proof -
  let ?w = "m_wakeups_wo_switch ps + 1"
  define w where "w = (if ?w > PRIORITY_SWITCH_LIMIT then 0 else ?w)"
  define vs where "vs = (if ?w > PRIORITY_SWITCH_LIMIT then [0..<m_virtual_networks ps] else rev [0..<m_virtual_networks ps])"
  let ?ps = "ps\<lparr>m_wakeups_wo_switch := w\<rparr>"
  have vs: "set vs = {..<m_virtual_networks ps}" "distinct vs" by (auto simp: vs_def)
  have ok: "switch_ok env counts ?ps s" using assms(2) by (simp add: switch_ok_def)
  obtain ps' s' k' where r: "run_all (switch_vnet env) vs (?ps, s, k) = Some (ps', s', k')" "worked env counts (set vs) (?ps, s) (ps', s')"
      "\<forall>v\<in>set vs. \<forall>a<length (m_in ps). port_done a v (ps', s')"
    using switch_vnets_law [OF assms(1) ok, of vs k] vs assms(3) by auto
  have "switch_wakeup env (ps, s, k) = Some (ps', s', k')" 
    using r(1) unfolding w_def vs_def by (cases "?w > PRIORITY_SWITCH_LIMIT") (simp_all add: switch_wakeup_def)
  moreover have "worked env counts {..<m_virtual_networks ps} (ps, s) (ps', s')"
    using r(2) unfolding vs(1) by (auto simp: worked_def deliveries_def)
  ultimately show ?thesis using r(3) vs(1) by auto
qed

text \<open>C11. A switch of the network is reliable.  If its buffers are well formed, its routing entries together
  contain every machine, and its outgoing buffers are connected, one \<open>wakeup\<close> returns and aborts nowhere.  What there is
  to deliver, each message once for each of its destinations, is the same before and after: no message is lost,
  duplicated or sent to a machine that was not its destination, and every copy is on a link whose routing
  entry contains the copy's destinations.  Afterwards no incoming buffer has a
  message that is ready, unless a link was full and the switch is scheduled for the next cycle.\<close>

theorem switch_wakeup_reliable:
  assumes "env_ok env" "switch_ok env counts ps s" "m_round_robin_start ps < length (m_in ps) \<or> m_in ps = []"
  shows "\<exists>ps' s' k'. switch_wakeup env (ps, s, k) = Some (ps', s', k') \<and> switch_ok env counts ps' s' \<and>
    deliveries ps' = deliveries ps \<and>
    ((\<forall>v<m_virtual_networks ps. \<forall>a<length (m_in ps). \<not> isReady (m_globalTime s) (m_in ps' ! a ! v)) \<or>
     \<lparr>m_time = m_globalTime s + 1, m_consumer_ptr = ps_this ps\<rparr> \<in># pending s')"
proof -
  obtain ps' s' k' where r: "switch_wakeup env (ps, s, k) = Some (ps', s', k')"
      "worked env counts {..<m_virtual_networks ps} (ps, s) (ps', s')"
      "\<forall>v<m_virtual_networks ps. \<forall>a<length (m_in ps). port_done a v (ps', s')"
    using switch_wakeup_law [OF assms] by blast
  moreover have "m_globalTime s' = m_globalTime s" "ps_this ps' = ps_this ps" "deliveries ps' = deliveries ps" "switch_ok env counts ps' s'"
    using r(2) by (auto simp: worked_def scheduled_def)
  ultimately show ?thesis by (auto simp: port_done_def)
qed

text \<open>A switch with one port in, one link out and a broadcast waiting.\<close>

definition sample_all :: net_dest where
  "sample_all = the (nd_broadcast [2, 2] (nd_setSize [2, 2]))"

definition sample_link :: "(nat, string) net_buffer" where
  "sample_link = MessageBuffer_new\<lparr>m_ordering_set := True, mb_consumer_ptr := Some 0\<rparr>"

definition sample_message :: "string network_message message" where
  "sample_message = \<lparr>payload = \<lparr>nm_body = ''hello'', nm_Destination = sample_all,
     nm_MessageSize = MessageSizeType_Control, m_internal_dest_valid = False,
     m_internal_dest = []\<rparr>, m_LastEnqueueTime = 0, m_DelayedCycles = 0\<rparr>"

definition switch_sim :: "Time \<Rightarrow> (nat, unit) sim" where
  "switch_sim now = (EventQueue_init ())\<lparr>m_globalTime := now\<rparr>"

definition sample_waiting :: "(nat, string) net_buffer" where
  "sample_waiting = fst (the (enqueue False 1 (Some sample_message) 1 sample_link (switch_sim 1)))"

definition sample_switch :: "(nat, string) perfect_switch" where
  "sample_switch = \<lparr>ps_this = 0, m_virtual_networks = 1, m_round_robin_start = 0, m_wakeups_wo_switch = 0,
     m_link_order = [(0, 0)], m_routing_table = [sample_all], m_in = [[sample_waiting]], m_out = [[sample_link]]\<rparr>"

definition sample_env :: switch_env where
  "sample_env = \<lparr>env_RANDOMIZATION = False, g_adaptive_routing = False, isVNetOrdered = (\<lambda>_. True),
     sort_links = (\<lambda>xs. xs), env_random = (\<lambda>_. 0), env_random_time = (\<lambda>_. 1)\<rparr>"

lemma sample_all_law: "nd_invar [2, 2] sample_all" "nd_elems sample_all = all_machines [2, 2]"
proof -
  obtain d where "nd_broadcast [2, 2] (nd_setSize [2, 2]) = Some d" "nd_invar [2, 2] d" "nd_elems d = all_machines [2, 2]"
    using nd_broadcast_law [OF conjunct1 [OF nd_setSize_empty [of "[2, 2]"]]] by blast
  then show "nd_invar [2, 2] sample_all" "nd_elems sample_all = all_machines [2, 2]"
    unfolding sample_all_def by (simp_all only: option.sel)
qed

lemma switch_sim_ok: "0 < now \<Longrightarrow> queue_ok (switch_sim now)" "m_globalTime (switch_sim now) = now"
  by (simp_all add: switch_sim_def EventQueue_init_def queue_ok_def pending_def events.invar_empty events.elems_empty)

lemma sample_link_ok: "0 < now \<Longrightarrow> link_buffer_ok False now [2, 2] sample_link"
  using buffer_ok_new [where d = False and ?'a = nat and ?'b = "string network_message"]
  by (simp add: link_buffer_ok_def net_buffer_ok_def sample_link_def buffer_ok_def mb_nodes_def MessageBuffer_new_def nodes.elems_empty)

lemma sample_link_empty: "buffer_payloads sample_link = {#}"
  by (simp add: buffer_payloads_def sample_link_def mb_nodes_def MessageBuffer_new_def nodes.elems_empty)

lemma sample_waiting_ok: "net_buffer_ok [2, 2] sample_waiting"
proof -
  have d: "nd_invar [2, 2] (getInternalDestination (payload sample_message))"
    using sample_all_law(1) by (simp add: sample_message_def getInternalDestination_def)
  have "m_LastEnqueueTime sample_message \<le> 1" "nm_MessageSize (payload sample_message) \<noteq> MessageSizeType_Undefined" by (simp_all add: sample_message_def)
  then obtain b' s' where "enqueue False 1 (Some sample_message) 1 sample_link (switch_sim 1) = Some (b', s')"
      "link_buffer_ok False 2 [2, 2] b'"
    using link_enqueue [of False "switch_sim 1" 1 "[2, 2]" sample_link 1 sample_message, OF _ _ _ _ _ d] sample_link_ok [of 2]
      switch_sim_ok [of 1] by auto
  then show ?thesis by (auto simp: sample_waiting_def link_buffer_ok_def)
qed

lemma sample_switch_ok: "env_ok sample_env" "switch_ok sample_env [2, 2] sample_switch (switch_sim 5)"
  using sample_all_law sample_waiting_ok sample_link_ok [of 6] switch_sim_ok [of 5] sample_link_empty
  by (simp_all add: links_routed_def env_ok_def sample_env_def switch_ok_def sample_switch_def rows_ok_def lessThan_Suc)

lemma switch_wakeup_reliable_witness:
  "\<exists>ps' s' k'. switch_wakeup sample_env (sample_switch, switch_sim 5, 0) = Some (ps', s', k') \<and>
    switch_ok sample_env [2, 2] ps' s' \<and> deliveries ps' = deliveries sample_switch \<and>
    ((\<forall>v<m_virtual_networks sample_switch. \<forall>a<length (m_in sample_switch).
        \<not> isReady (m_globalTime (switch_sim 5)) (m_in ps' ! a ! v)) \<or>
     \<lparr>m_time = m_globalTime (switch_sim 5) + 1, m_consumer_ptr = ps_this sample_switch\<rparr> \<in># pending s')"
  by (rule switch_wakeup_reliable [OF sample_switch_ok]) (simp add: sample_switch_def)

end
