(* ===== verification/Network_Throttle.thy ===== *)
theory Network_Throttle
  imports Network_Switch
begin

text \<open>
  The bandwidth and latency of a link, \<open>network/simple/Throttle.C\<close>.

  A throttle moves messages from the outgoing buffers of a switch to the buffers of the link, one pair
  per virtual network, and pays for each with units of bandwidth: what a message costs beyond the
  bandwidth of this cycle is remembered in \<open>m_units_remaining\<close> and paid in later cycles.  As in
  \<open>Network_Switch\<close> the buffers are values, the event queue is the state \<open>sim\<close>, and \<open>k\<close> counts the random values
  drawn.  Configured sizes and bandwidth are fields of \<open>throttle_env\<close>.  \<open>above_threshold\<close> is the comparison of two
  floating-point numbers of the bandwidth predictor.  The utilization, a sum of floating-point ratios that is only
  printed, is left out.

  The lemmas show that a wakeup returns without an abort, loses and duplicates no message, keeps the
  order of the virtual networks apart, never spends more than the bandwidth of the link, and
  comes back in the next cycle if there is work left.
\<close>

record throttle_env = switch_env +
  CONTROL_MESSAGE_SIZE :: int
  DATA_MESSAGE_SIZE :: int
  g_endpoint_bandwidth :: int
  above_threshold :: "int \<Rightarrow> int \<Rightarrow> bool"

definition HIGH_RANGE :: int where
  "HIGH_RANGE = 256"

definition ADJUST_INTERVAL :: int where
  "ADJUST_INTERVAL = 50000"

definition MESSAGE_SIZE_MULTIPLIER :: int where
  "MESSAGE_SIZE_MULTIPLIER = 1000"

definition BROADCAST_SCALING :: int where
  "BROADCAST_SCALING = 1"

record ('c, 'b) throttle =
  th_this :: 'c
  th_in :: "('c, 'b) net_buffer list"
  th_out :: "('c, 'b) net_buffer list"
  m_message_counters :: "MessageSizeType \<Rightarrow> int list"
  m_vnets :: nat
  m_units_remaining :: "int list"
  m_bash_counter :: int
  m_bandwidth_since_sample :: int
  m_last_bandwidth_sample :: Time
  m_link_bandwidth_multiplier :: int
  m_link_latency :: int
  th_wakeups_wo_switch :: int

text \<open>The constructor; \<open>m_message_counters\<close> is an empty vector until links are added.\<close>

definition Throttle_new :: "'c \<Rightarrow> int \<Rightarrow> int \<Rightarrow> ('c, 'b) throttle option" where
  "Throttle_new this link_latency link_bandwidth_multiplier = do {
     assert_that (link_bandwidth_multiplier > 0);
     Some \<lparr>th_this = this, th_in = [], th_out = [], m_message_counters = (\<lambda>_. []), m_vnets = 0, m_units_remaining = [],
       m_bash_counter = HIGH_RANGE, m_bandwidth_since_sample = 0, m_last_bandwidth_sample = 0,
       m_link_bandwidth_multiplier = link_bandwidth_multiplier, m_link_latency = link_latency,
       th_wakeups_wo_switch = 0\<rparr> }"

definition getLinkBandwidth :: "throttle_env \<Rightarrow> ('c, 'b) throttle \<Rightarrow> int" where
  "getLinkBandwidth env th = g_endpoint_bandwidth env * m_link_bandwidth_multiplier th"

definition addVirtualNetwork ::
  "('c, 'b) net_buffer \<times> ('c, 'b) net_buffer \<Rightarrow> ('c, 'b) throttle \<Rightarrow> ('c, 'b) throttle option" where
  "addVirtualNetwork = (\<lambda>(in_ptr, out_ptr) th. do {
     in_ptr \<leftarrow> setConsumer (Some (th_this th)) in_ptr;
     Some (th\<lparr>m_units_remaining := m_units_remaining th @ [0], th_in := th_in th @ [in_ptr],
              th_out := th_out th @ [out_ptr], m_vnets := m_vnets th + 1\<rparr>) })"

definition th_addLinks ::
  "('c, 'b) net_buffer list \<Rightarrow> ('c, 'b) net_buffer list \<Rightarrow> ('c, 'b) throttle \<Rightarrow> ('c, 'b) throttle option" where
  "th_addLinks in_vec out_vec th = do {
     assert_that (length in_vec = length out_vec);
     th \<leftarrow> run_all addVirtualNetwork (zip in_vec out_vec) th;
     Some (th\<lparr>m_message_counters := (\<lambda>_. replicate (length in_vec) 0)\<rparr>) }"

primrec clear_all :: "('c, 'b) net_buffer list \<Rightarrow> ('c, 'b) net_buffer list option" where
  "clear_all [] = Some []"
| "clear_all (b # bs) = do { b \<leftarrow> clear b; bs \<leftarrow> clear_all bs; Some (b # bs) }"

definition th_clear :: "('c, 'b) throttle \<Rightarrow> ('c, 'b) throttle option" where
  "th_clear th = do {
     ins \<leftarrow> clear_all (th_in th);
     outs \<leftarrow> clear_all (th_out th);
     Some (th\<lparr>th_in := ins, th_out := outs\<rparr>) }"

definition th_clearStats :: "('c, 'b) throttle \<Rightarrow> ('c, 'b) throttle" where
  "th_clearStats th = th\<lparr>m_message_counters := (\<lambda>t. replicate (length (m_message_counters th t)) 0)\<rparr>"

definition network_message_to_size :: "throttle_env \<Rightarrow> 'b network_message \<Rightarrow> int option" where
  "network_message_to_size env m =
     (if BROADCAST_SCALING > 1 then do {
        broadcast \<leftarrow> nd_isBroadcast (nm_Destination m);
        n \<leftarrow> MessageSizeType_to_int (CONTROL_MESSAGE_SIZE env) (DATA_MESSAGE_SIZE env) (nm_MessageSize m);
        Some (if broadcast then n * MESSAGE_SIZE_MULTIPLIER * BROADCAST_SCALING else n * MESSAGE_SIZE_MULTIPLIER) }
      else do {
        n \<leftarrow> MessageSizeType_to_int (CONTROL_MESSAGE_SIZE env) (DATA_MESSAGE_SIZE env) (nm_MessageSize m);
        Some (n * MESSAGE_SIZE_MULTIPLIER) })"

section \<open>The wakeup\<close>

text \<open>The first part of the loop body: the next message is moved when the previous one is paid.\<close>

definition throttle_move ::
  "throttle_env \<Rightarrow> nat \<Rightarrow> ('c, 'b) throttle \<times> ('c, 's) sim \<times> nat \<Rightarrow> (('c, 'b) throttle \<times> ('c, 's) sim \<times> nat) option" where
  "throttle_move env vnet = (\<lambda>(th, s, k).
     let now = m_globalTime s; in_ptr = th_in th ! vnet
     in if m_units_remaining th ! vnet = 0 \<and> isReady now in_ptr then do {
          msg \<leftarrow> peekMsgPtr now in_ptr;
          n \<leftarrow> network_message_to_size env (payload msg);
          (out_ptr, s) \<leftarrow> enqueue (env_RANDOMIZATION env) (env_random_time env k) (Some msg) (m_link_latency th)
             (th_out th ! vnet) s;
          in_ptr \<leftarrow> pop now in_ptr;
          let t = nm_MessageSize (payload msg);
          let counters = m_message_counters th t;
          assert_that (vnet < length counters);
          Some (th\<lparr>m_units_remaining := (m_units_remaining th)[vnet := m_units_remaining th ! vnet + n],
                   th_out := (th_out th)[vnet := out_ptr], th_in := (th_in th)[vnet := in_ptr],
                   m_message_counters := (m_message_counters th)(t := counters[vnet := counters ! vnet + 1])\<rparr>, s, k + 1) }
        else Some (th, s, k))"

text \<open>The second part: bandwidth is spent on the message.\<close>

definition throttle_spend :: "nat \<Rightarrow> int \<times> ('c, 'b) throttle \<Rightarrow> int \<times> ('c, 'b) throttle" where
  "throttle_spend vnet = (\<lambda>(bw_remaining, th).
     let diff = m_units_remaining th ! vnet - bw_remaining
     in (max 0 (- diff), th\<lparr>m_units_remaining := (m_units_remaining th)[vnet := max 0 diff]\<rparr>))"

definition throttle_busy :: "Time \<Rightarrow> nat \<Rightarrow> int \<times> ('c, 'b) throttle \<Rightarrow> bool" where
  "throttle_busy now vnet = (\<lambda>(bw_remaining, th).
     bw_remaining > 0 \<and> (isReady now (th_in th ! vnet) \<or> m_units_remaining th ! vnet > 0))"

definition throttle_slot :: "Time \<Rightarrow> nat \<Rightarrow> ('c, 'b) throttle \<Rightarrow> bool \<times> ('c, 'b) throttle" where
  "throttle_slot now vnet th =
     (let (available, b) = areNSlotsAvailable now 1 (th_out th ! vnet)
      in (available, th\<lparr>th_out := (th_out th)[vnet := b]\<rparr>))"

lemma throttle_move_cases:
  assumes "throttle_move env vnet (th, s, k) = Some (th', s', k')"
  obtains (stay) "\<not> (m_units_remaining th ! vnet = 0 \<and> isReady (m_globalTime s) (th_in th ! vnet))" "th' = th"
  | (move) b where "pop (m_globalTime s) (th_in th ! vnet) = Some b" "th_in th' = (th_in th)[vnet := b]"
proof (cases "m_units_remaining th ! vnet = 0 \<and> isReady (m_globalTime s) (th_in th ! vnet)")
  case True
  then obtain b where "pop (m_globalTime s) (th_in th ! vnet) = Some b" "th_in th' = (th_in th)[vnet := b]"
    using assms by (simp add: throttle_move_def Let_def bind_Some_iff) fastforce
  then show thesis by (rule move)
next
  case False
  then have "th' = th" using assms unfolding throttle_move_def Let_def prod.case if_not_P [OF False] by simp
  then show thesis using False by (rule stay [rotated])
qed

text \<open>The loop of one virtual network.  Each turn takes out a message or reduces what is left to pay.\<close>

function throttle_loop ::
  "throttle_env \<Rightarrow> nat \<Rightarrow> int \<Rightarrow> ('c, 'b) throttle \<Rightarrow> ('c, 's) sim \<Rightarrow> nat \<Rightarrow>
   (int \<times> ('c, 'b) throttle \<times> ('c, 's) sim \<times> nat) option" where
  "throttle_loop env vnet bw_remaining th s k =
     (if vnet < length (m_units_remaining th) \<and> vnet < length (th_in th) then
        (if throttle_busy (m_globalTime s) vnet (bw_remaining, th) then
           (case throttle_slot (m_globalTime s) vnet th of (available, th) \<Rightarrow>
              if available then
                (case throttle_move env vnet (th, s, k) of None \<Rightarrow> None
                 | Some (th, s, k) \<Rightarrow>
                     (case throttle_spend vnet (bw_remaining, th) of (bw_remaining, th) \<Rightarrow>
                        throttle_loop env vnet bw_remaining th s k))
              else Some (bw_remaining, th, s, k))
         else Some (bw_remaining, th, s, k))
      else None)"
  by pat_completeness auto
termination
proof (relation "measures [\<lambda>(env, vnet, bw, th, s, k). heap_size (mb_prio_heap (th_in th ! vnet)),
    \<lambda>(env, vnet, bw, th, s, k). nat \<bar>m_units_remaining th ! vnet\<bar>]", goal_cases)
  case (2 env vnet bw th s k available th1 x2 th2 y s2 k2 bw3 th3)
  then have th1: "th_in th1 = th_in th" "m_units_remaining th1 = m_units_remaining th"
    by (auto simp: throttle_slot_def split: prod.splits)
  have th3: "th_in th3 = th_in th2"
      "m_units_remaining th3 = (m_units_remaining th2)[vnet := max 0 (m_units_remaining th2 ! vnet - bw)]"
    using 2 by (auto simp: throttle_spend_def Let_def)
  have "throttle_move env vnet (th1, s, k) = Some (th2, s2, k2)" using 2 by simp
  then show ?case
  proof (cases rule: throttle_move_cases)
    case stay
    then have "m_units_remaining th ! vnet \<noteq> 0" using 2(2) th1 by (auto simp: throttle_busy_def)
    then show ?thesis using 2(1,2) stay th1 th3 by (auto simp: throttle_busy_def)
  next
    case (move b)
    then show ?thesis using pop_heap_size [OF move(1)] th1 th3 2(1) by simp
  qed
qed simp

declare throttle_loop.simps [simp del]

definition throttle_vnet ::
  "throttle_env \<Rightarrow> nat \<Rightarrow> bool \<times> int \<times> ('c, 'b) throttle \<times> ('c, 's) sim \<times> nat \<Rightarrow>
   (bool \<times> int \<times> ('c, 'b) throttle \<times> ('c, 's) sim \<times> nat) option" where
  "throttle_vnet env vnet = (\<lambda>(schedule_wakeup, bw_remaining, th, s, k). do {
     assert_that (vnet < length (th_out th));
     assert_that (vnet < length (th_in th));
     assert_that (vnet < length (m_units_remaining th) \<and> m_units_remaining th ! vnet \<ge> 0);
     (bw_remaining, th, s, k) \<leftarrow> throttle_loop env vnet bw_remaining th s k;
     if throttle_busy (m_globalTime s) vnet (bw_remaining, th)
     then (case throttle_slot (m_globalTime s) vnet th of (available, th) \<Rightarrow>
       Some (schedule_wakeup \<or> \<not> available, bw_remaining, th, s, k))
     else Some (schedule_wakeup, bw_remaining, th, s, k) })"

text \<open>The predictor of the bandwidth for broadcasts.\<close>

definition adjust_bash :: "throttle_env \<Rightarrow> ('c, 'b) throttle \<Rightarrow> ('c, 'b) throttle" where
  "adjust_bash env th =
     (let counter = (if above_threshold env (m_bandwidth_since_sample th) (ADJUST_INTERVAL * getLinkBandwidth env th)
                     then m_bash_counter th + 1 else m_bash_counter th - 1)
      in th\<lparr>m_bash_counter := max 0 (min HIGH_RANGE counter),
            m_last_bandwidth_sample := m_last_bandwidth_sample th + ADJUST_INTERVAL, m_bandwidth_since_sample := 0\<rparr>)"

function bash_loop :: "throttle_env \<Rightarrow> Time \<Rightarrow> ('c, 'b) throttle \<Rightarrow> ('c, 'b) throttle" where
  "bash_loop env current_time th =
     (if current_time - m_last_bandwidth_sample th > ADJUST_INTERVAL then bash_loop env current_time (adjust_bash env th)
      else th)"
  by pat_completeness auto
termination
  by (relation "measure (\<lambda>(env, now, th). nat (now - m_last_bandwidth_sample th))")
    (auto simp: adjust_bash_def Let_def ADJUST_INTERVAL_def)

declare bash_loop.simps [simp del]

definition throttle_wakeup ::
  "throttle_env \<Rightarrow> ('c, 'b) throttle \<times> ('c, 's) sim \<times> nat \<Rightarrow> (('c, 'b) throttle \<times> ('c, 's) sim \<times> nat) option" where
  "throttle_wakeup env = (\<lambda>(th, s, k). do {
     assert_that (getLinkBandwidth env th > 0);
     let bw = getLinkBandwidth env th;
     let wakeups = th_wakeups_wo_switch th + 1;
     let (wakeups, vnets) = (if wakeups > PRIORITY_SWITCH_LIMIT then (0, [0..<m_vnets th]) else (wakeups, rev [0..<m_vnets th]));
     (schedule_wakeup, bw_remaining, th, s, k) \<leftarrow>
       run_all (throttle_vnet env) vnets (False, bw, th\<lparr>th_wakeups_wo_switch := wakeups\<rparr>, s, k);
     let th = bash_loop env (m_globalTime s)
       (th\<lparr>m_bandwidth_since_sample := m_bandwidth_since_sample th + (bw - bw_remaining)\<rparr>);
     if bw_remaining > 0 \<and> \<not> schedule_wakeup then Some (th, s, k)
     else do {
       s \<leftarrow> scheduleEvent (Some (th_this th)) 1 s;
       Some (th, s, k) } })"

text \<open>\<open>rand\<close> is what \<open>random()\<close> returned, which is not negative.\<close>

definition broadcastBandwidthAvailable :: "int \<Rightarrow> ('c, 'b) throttle \<Rightarrow> bool" where
  "broadcastBandwidthAvailable rand th \<longleftrightarrow>
     \<not> m_bash_counter th > HIGH_RANGE div 4 + rand mod (HIGH_RANGE div 2)"

section \<open>The predictor\<close>

lemma bash_loop_law:
  "\<exists>c t n. bash_loop env now th = th\<lparr>m_bash_counter := c, m_last_bandwidth_sample := t, m_bandwidth_since_sample := n\<rparr> \<and>
     now - t \<le> ADJUST_INTERVAL \<and> (0 \<le> m_bash_counter th \<and> m_bash_counter th \<le> HIGH_RANGE \<longrightarrow> 0 \<le> c \<and> c \<le> HIGH_RANGE)"
proof (induction env now th rule: bash_loop.induct)
  case (1 env now th)
  show ?case
  proof (cases "now - m_last_bandwidth_sample th > ADJUST_INTERVAL")
    case True
    let ?th = "adjust_bash env th"
    have c: "0 \<le> m_bash_counter ?th \<and> m_bash_counter ?th \<le> HIGH_RANGE"
      by (simp add: adjust_bash_def Let_def HIGH_RANGE_def)
    obtain c t n where "bash_loop env now ?th =
        ?th\<lparr>m_bash_counter := c, m_last_bandwidth_sample := t, m_bandwidth_since_sample := n\<rparr>"
        "now - t \<le> ADJUST_INTERVAL" "0 \<le> c \<and> c \<le> HIGH_RANGE"
      using 1 [OF True] c by blast
    moreover have "?th\<lparr>m_bash_counter := c, m_last_bandwidth_sample := t, m_bandwidth_since_sample := n\<rparr> =
        th\<lparr>m_bash_counter := c, m_last_bandwidth_sample := t, m_bandwidth_since_sample := n\<rparr>"
      by (simp add: adjust_bash_def Let_def)
    ultimately show ?thesis using True bash_loop.simps [of env now th] by metis
  next
    case False
    then show ?thesis using bash_loop.simps [of env now th]
      by (intro exI [of _ "m_bash_counter th"] exI [of _ "m_last_bandwidth_sample th"] exI [of _ "m_bandwidth_since_sample th"]) simp
  qed
qed

text \<open>With the smallest counter a broadcast is always allowed, with the largest it never is.\<close>

lemma broadcast_extremes:
  "m_bash_counter th = 0 \<Longrightarrow> broadcastBandwidthAvailable rand th"
  "m_bash_counter th = HIGH_RANGE \<Longrightarrow> \<not> broadcastBandwidthAvailable rand th"
proof -
  have "0 \<le> rand mod 128" "rand mod 128 < 128" by simp_all
  then show "m_bash_counter th = 0 \<Longrightarrow> broadcastBandwidthAvailable rand th"
    "m_bash_counter th = HIGH_RANGE \<Longrightarrow> \<not> broadcastBandwidthAvailable rand th"
    unfolding broadcastBandwidthAvailable_def HIGH_RANGE_def by simp_all
qed

section \<open>The invariant of a throttle\<close>

definition throttle_env_ok :: "throttle_env \<Rightarrow> bool" where
  "throttle_env_ok env \<longleftrightarrow> 0 \<le> CONTROL_MESSAGE_SIZE env \<and> 0 \<le> DATA_MESSAGE_SIZE env \<and> (\<forall>k. 1 \<le> env_random_time env k)"

definition throttle_ok :: "throttle_env \<Rightarrow> nat list \<Rightarrow> ('c, 'b) throttle \<Rightarrow> ('c, 's) sim \<Rightarrow> bool" where
  "throttle_ok env counts th s \<longleftrightarrow> queue_ok s \<and> 0 < m_link_latency th \<and> 0 < getLinkBandwidth env th \<and>
     length (th_in th) = m_vnets th \<and> length (th_out th) = m_vnets th \<and> length (m_units_remaining th) = m_vnets th \<and>
     (\<forall>t. length (m_message_counters th t) = m_vnets th) \<and> (\<forall>u\<in>set (m_units_remaining th). 0 \<le> u) \<and>
     (\<forall>b\<in>set (th_in th). net_buffer_ok counts b) \<and>
     (\<forall>b\<in>set (th_out th). link_buffer_ok (env_RANDOMIZATION env) (m_globalTime s + m_link_latency th) counts b)"

text \<open>The units of bandwidth that a message costs, and those that a virtual network still has to pay.\<close>

definition msg_units :: "throttle_env \<Rightarrow> 'b network_message \<Rightarrow> int" where
  "msg_units env m = the (network_message_to_size env m)"

definition vnet_debt :: "throttle_env \<Rightarrow> ('c, 'b) throttle \<Rightarrow> nat \<Rightarrow> int" where
  "vnet_debt env th v = m_units_remaining th ! v + (\<Sum>m\<in>#buffer_payloads (th_in th ! v). msg_units env m)"

definition vnet_payloads :: "('c, 'b) throttle \<Rightarrow> nat \<Rightarrow> 'b network_message multiset" where
  "vnet_payloads th v = buffer_payloads (th_in th ! v) + buffer_payloads (th_out th ! v)"

lemma network_message_to_size_sized:
  assumes "throttle_env_ok env" "nm_MessageSize m \<noteq> MessageSizeType_Undefined"
  shows "network_message_to_size env m = Some (msg_units env m)" "0 \<le> msg_units env m"
proof -
  have "\<exists>n. MessageSizeType_to_int (CONTROL_MESSAGE_SIZE env) (DATA_MESSAGE_SIZE env) (nm_MessageSize m) = Some n \<and> 0 \<le> n"
    using assms by (cases "nm_MessageSize m") (simp_all add: throttle_env_ok_def)
  then show "network_message_to_size env m = Some (msg_units env m)" "0 \<le> msg_units env m"
    by (auto simp: msg_units_def network_message_to_size_def BROADCAST_SCALING_def MESSAGE_SIZE_MULTIPLIER_def)
qed

text \<open>A throttle works on the virtual network \<open>vnet\<close>: it keeps its invariant and the messages, touches no
  other virtual network, and what is paid is what is spent.\<close>

definition carried ::
  "throttle_env \<Rightarrow> nat list \<Rightarrow> nat \<Rightarrow> int \<times> ('c, 'b) throttle \<times> ('c, 's) sim \<Rightarrow> int \<times> ('c, 'b) throttle \<times> ('c, 's) sim \<Rightarrow> bool" where
  "carried env counts vnet = (\<lambda>(bw, th, s) (bw', th', s'). throttle_ok env counts th' s' \<and> scheduled s s' \<and> 0 \<le> bw' \<and> bw' \<le> bw \<and>
     th_this th' = th_this th \<and> m_vnets th' = m_vnets th \<and> m_link_latency th' = m_link_latency th \<and>
     m_link_bandwidth_multiplier th' = m_link_bandwidth_multiplier th \<and>
     vnet_payloads th' vnet = vnet_payloads th vnet \<and> vnet_debt env th vnet + bw' = vnet_debt env th' vnet + bw \<and>
     drained (th_in th ! vnet) (th_in th' ! vnet) \<and>
     (\<forall>v. v \<noteq> vnet \<longrightarrow> th_in th' ! v = th_in th ! v \<and> th_out th' ! v = th_out th ! v \<and>
        m_units_remaining th' ! v = m_units_remaining th ! v))"

lemma carried_refl: "\<lbrakk> throttle_ok env counts th s; 0 \<le> bw \<rbrakk> \<Longrightarrow> carried env counts v (bw, th, s) (bw, th, s)"
  by (simp add: carried_def scheduled_def)

lemma carried_trans:
  assumes "carried env counts v (bw, th, s) (bw1, th1, s1)" "carried env counts v (bw1, th1, s1) (bw2, th2, s2)"
  shows "carried env counts v (bw, th, s) (bw2, th2, s2)"
  using assms scheduled_trans [of s s1 s2] by (auto simp: carried_def intro: drained_trans)

lemma list_update_all: "\<lbrakk> \<forall>x\<in>set xs. P x; P y \<rbrakk> \<Longrightarrow> \<forall>x\<in>set (xs[i := y]). P x"
  using set_update_subset_insert [of xs i y] by blast

lemma throttle_slot_law:
  assumes "throttle_ok env counts th s" "vnet < m_vnets th" "0 \<le> bw" "throttle_slot now vnet th = (available, th')"
  shows "carried env counts vnet (bw, th, s) (bw, th', s)" "th_in th' = th_in th" "m_units_remaining th' = m_units_remaining th"
    "fst (areNSlotsAvailable now 1 (th_out th' ! vnet)) = available"
proof -
  obtain b where b: "areNSlotsAvailable now 1 (th_out th ! vnet) = (available, b)" "th' = th\<lparr>th_out := (th_out th)[vnet := b]\<rparr>"
    using assms(4) by (auto simp: throttle_slot_def split: prod.splits)
  have v: "vnet < length (th_out th)" using assms(1,2) by (simp add: throttle_ok_def)
  let ?P = "link_buffer_ok (env_RANDOMIZATION env) (m_globalTime s + m_link_latency th) counts"
  have "?P b" "buffer_payloads b = buffer_payloads (th_out th ! vnet)"
    using areNSlotsAvailable_keeps [where t = now and n = 1 and b = "th_out th ! vnet"] b(1) assms(1) nth_mem [OF v]
    by (auto simp: throttle_ok_def)
  moreover from this have "\<forall>x\<in>set ((th_out th)[vnet := b]). ?P x"
    using assms(1) by (intro list_update_all) (auto simp: throttle_ok_def)
  ultimately show "carried env counts vnet (bw, th, s) (bw, th', s)"
    using assms(1,3) b(2) v
    by (simp add: carried_def scheduled_def throttle_ok_def getLinkBandwidth_def vnet_payloads_def vnet_debt_def)
  show "th_in th' = th_in th" "m_units_remaining th' = m_units_remaining th" using b(2) by simp_all
  show "fst (areNSlotsAvailable now 1 (th_out th' ! vnet)) = available"
    using b v by (auto simp: areNSlotsAvailable_def Let_def split: if_splits)
qed

lemma throttle_move_law:
  assumes "throttle_env_ok env" "throttle_ok env counts th s" "vnet < m_vnets th" "0 \<le> bw"
  shows "\<exists>th' s' k'. throttle_move env vnet (th, s, k) = Some (th', s', k') \<and> carried env counts vnet (bw, th, s) (bw, th', s')"
proof (cases "m_units_remaining th ! vnet = 0 \<and> isReady (m_globalTime s) (th_in th ! vnet)")
  case True
  let ?now = "m_globalTime s" and ?in = "th_in th ! vnet" and ?out = "th_out th ! vnet" and ?R = "env_RANDOMIZATION env"
  let ?P = "link_buffer_ok ?R (?now + m_link_latency th) counts"
  have len: "vnet < length (th_in th)" "vnet < length (th_out th)" "vnet < length (m_units_remaining th)"
    "\<forall>t. vnet < length (m_message_counters th t)" "queue_ok s" "0 < m_link_latency th"
    using assms(2,3) by (simp_all add: throttle_ok_def)
  have bufs: "net_buffer_ok counts ?in" "?P ?out" using assms(2) nth_mem [OF len(1)] nth_mem [OF len(2)] by (auto simp: throttle_ok_def)
  obtain msg b where b: "peekMsgPtr ?now ?in = Some msg" "pop ?now ?in = Some b" "net_buffer_ok counts b"
      "m_LastEnqueueTime msg \<le> ?now" "nd_invar counts (getInternalDestination (payload msg))"
      "buffer_payloads ?in = add_mset (payload msg) (buffer_payloads b)"
      "nm_MessageSize (payload msg) \<noteq> MessageSizeType_Undefined" "drained ?in b"
    using net_pop [OF bufs(1) conjunct2 [OF True]] by metis
  have "1 \<le> env_random_time env k" using assms(1) by (simp add: throttle_env_ok_def)
  then obtain c s' where c: "enqueue ?R (env_random_time env k) (Some msg) (m_link_latency th) ?out s = Some (c, s')" "?P c"
      "queue_ok s'" "scheduled s s'" "buffer_payloads c = add_mset (payload msg) (buffer_payloads ?out)"
    using link_enqueue [OF bufs(2) len(5,6) _ b(4,5,7)] by blast
  note size = network_message_to_size_sized [OF assms(1) b(7)]
  let ?t = "nm_MessageSize (payload msg)"
  define th' where "th' = th\<lparr>m_units_remaining := (m_units_remaining th)[vnet := m_units_remaining th ! vnet + msg_units env (payload msg)],
     th_out := (th_out th)[vnet := c], th_in := (th_in th)[vnet := b],
     m_message_counters := (m_message_counters th)(?t := (m_message_counters th ?t)[vnet := m_message_counters th ?t ! vnet + 1])\<rparr>"
  have "throttle_move env vnet (th, s, k) = Some (th', s', k + 1)"
    using True b(1,2) c(1) size(1) len(4) by (simp add: throttle_move_def th'_def Let_def)
  moreover have "m_globalTime s' = ?now" using c(4) by (simp add: scheduled_def)
  have "throttle_ok env counts th' s'"
    unfolding throttle_ok_def
  proof (intro conjI)
    have "\<forall>u\<in>set ((m_units_remaining th)[vnet := m_units_remaining th ! vnet + msg_units env (payload msg)]). 0 \<le> u"
      using assms(2) size(2) True by (intro list_update_all) (auto simp: throttle_ok_def)
    then show "\<forall>u\<in>set (m_units_remaining th'). 0 \<le> u" by (simp add: th'_def)
    have "\<forall>x\<in>set ((th_in th)[vnet := b]). net_buffer_ok counts x"
      using assms(2) b(3) by (intro list_update_all) (auto simp: throttle_ok_def)
    then show "\<forall>b\<in>set (th_in th'). net_buffer_ok counts b" by (simp add: th'_def)
    have "\<forall>x\<in>set ((th_out th)[vnet := c]). ?P x" using assms(2) c(2) by (intro list_update_all) (auto simp: throttle_ok_def)
    then show "\<forall>b\<in>set (th_out th'). link_buffer_ok ?R (m_globalTime s' + m_link_latency th') counts b"
      using \<open>m_globalTime s' = ?now\<close> by (simp add: th'_def)
  qed (use assms(2) c(3) in \<open>simp_all add: th'_def throttle_ok_def getLinkBandwidth_def\<close>)
  then have "carried env counts vnet (bw, th, s) (bw, th', s')"
    using assms(4) c(4,5) b(6,8) len by (simp add: carried_def th'_def vnet_payloads_def vnet_debt_def)
  ultimately show ?thesis by blast
next
  case False
  then have "throttle_move env vnet (th, s, k) = Some (th, s, k)"
    unfolding throttle_move_def Let_def prod.case if_not_P [OF False] by simp
  then show ?thesis using carried_refl [OF assms(2,4)] by blast
qed

lemma throttle_spend_law:
  assumes "throttle_ok env counts th s" "vnet < m_vnets th" "0 \<le> bw" "throttle_spend vnet (bw, th) = (bw', th')"
  shows "carried env counts vnet (bw, th, s) (bw', th', s)"
proof -
  let ?u = "m_units_remaining th ! vnet"
  have v: "vnet < length (m_units_remaining th)" using assms(1,2) by (simp add: throttle_ok_def)
  then have u: "0 \<le> ?u" using assms(1) nth_mem [OF v] by (auto simp: throttle_ok_def)
  have e: "bw' = max 0 (bw - ?u)" "th' = th\<lparr>m_units_remaining := (m_units_remaining th)[vnet := max 0 (?u - bw)]\<rparr>"
    using assms(4) by (simp_all add: throttle_spend_def Let_def)
  have "\<forall>x\<in>set ((m_units_remaining th)[vnet := max 0 (?u - bw)]). 0 \<le> x"
    using assms(1) by (intro list_update_all) (auto simp: throttle_ok_def)
  then show ?thesis using assms(1,3) u v
    by (simp add: e carried_def scheduled_def throttle_ok_def getLinkBandwidth_def vnet_payloads_def vnet_debt_def max_def)
qed

text \<open>A virtual network is done when it has nothing to do, the bandwidth is spent or the link is full.\<close>

definition vnet_done :: "Time \<Rightarrow> nat \<Rightarrow> int \<times> ('c, 'b) throttle \<Rightarrow> bool" where
  "vnet_done now vnet = (\<lambda>(bw, th). throttle_busy now vnet (bw, th) \<longrightarrow> \<not> fst (areNSlotsAvailable now 1 (th_out th ! vnet)))"

lemma throttle_loop_law:
  assumes "throttle_env_ok env" "throttle_ok env counts th s" "vnet < m_vnets th" "0 \<le> bw"
  shows "\<exists>bw' th' s' k'. throttle_loop env vnet bw th s k = Some (bw', th', s', k') \<and>
    carried env counts vnet (bw, th, s) (bw', th', s') \<and> vnet_done (m_globalTime s) vnet (bw', th')"
  using assms
proof (induction env vnet bw th s k rule: throttle_loop.induct)
  case (1 env vnet bw th s k)
  let ?now = "m_globalTime s"
  have in_range: "vnet < length (m_units_remaining th) \<and> vnet < length (th_in th)" using 1(3,4) by (simp add: throttle_ok_def)
  show ?case
  proof (cases "throttle_busy ?now vnet (bw, th)")
    case True
    obtain available th1 where slot: "throttle_slot ?now vnet th = (available, th1)" by fastforce
    note s1 = throttle_slot_law [OF 1(3,4,5) slot]
    have th1: "throttle_ok env counts th1 s" "vnet < m_vnets th1" using s1(1) 1(4) by (simp_all add: carried_def)
    show ?thesis
    proof (cases available)
      case av: True
      obtain th2 s2 k2 where m: "throttle_move env vnet (th1, s, k) = Some (th2, s2, k2)"
          "carried env counts vnet (bw, th1, s) (bw, th2, s2)"
        using throttle_move_law [OF 1(2) th1 1(5)] by blast
      then have th2: "throttle_ok env counts th2 s2" "vnet < m_vnets th2" "m_globalTime s2 = ?now"
        using th1(2) by (simp_all add: carried_def scheduled_def)
      obtain bw3 th3 where sp: "throttle_spend vnet (bw, th2) = (bw3, th3)" by fastforce
      note s3 = throttle_spend_law [OF th2(1,2) 1(5) sp]
      have th3: "throttle_ok env counts th3 s2" "vnet < m_vnets th3" "0 \<le> bw3" using s3 th2(2) by (simp_all add: carried_def)
      obtain bw' th' s' k' where r: "throttle_loop env vnet bw3 th3 s2 k2 = Some (bw', th', s', k')"
          "carried env counts vnet (bw3, th3, s2) (bw', th', s')" "vnet_done ?now vnet (bw', th')"
        using 1(1) [OF in_range True slot [symmetric] av m(1) refl refl sp [symmetric] 1(2) th3] th2(3) by auto
      have "throttle_loop env vnet bw th s k = Some (bw', th', s', k')"
        using in_range True slot av m(1) sp r(1) throttle_loop.simps [of env vnet bw th s k] by simp
      then show ?thesis using r(2,3) carried_trans [OF s1(1) m(2)] carried_trans [OF _ s3] carried_trans by blast
    next
      case False
      then have "throttle_loop env vnet bw th s k = Some (bw, th1, s, k)"
        using in_range True slot throttle_loop.simps [of env vnet bw th s k] by simp
      then show ?thesis using s1(1,4) False by (auto simp: vnet_done_def)
    qed
  next
    case False
    then have "throttle_loop env vnet bw th s k = Some (bw, th, s, k)"
      using in_range throttle_loop.simps [of env vnet bw th s k] by simp
    then show ?thesis using carried_refl [OF 1(3,5)] False by (auto simp: vnet_done_def)
  qed
qed

lemma throttle_vnet_law:
  assumes "throttle_env_ok env" "throttle_ok env counts th s" "vnet < m_vnets th" "0 \<le> bw"
  shows "\<exists>sched' bw' th' s' k'. throttle_vnet env vnet (sched, bw, th, s, k) = Some (sched', bw', th', s', k') \<and>
    carried env counts vnet (bw, th, s) (bw', th', s') \<and> (sched \<longrightarrow> sched') \<and>
    (throttle_busy (m_globalTime s) vnet (bw', th') \<longrightarrow> sched') \<and>
    (sched' \<longrightarrow> sched \<or> \<not> fst (areNSlotsAvailable (m_globalTime s) 1 (th_out th' ! vnet)))"
proof -
  let ?now = "m_globalTime s"
  obtain bw1 th1 s1 k1 where l: "throttle_loop env vnet bw th s k = Some (bw1, th1, s1, k1)"
      "carried env counts vnet (bw, th, s) (bw1, th1, s1)" "vnet_done ?now vnet (bw1, th1)"
    using throttle_loop_law [OF assms] by blast
  have v: "vnet < length (th_out th)" "vnet < length (th_in th)" "vnet < length (m_units_remaining th)"
    using assms(2,3) by (simp_all add: throttle_ok_def)
  have "0 \<le> m_units_remaining th ! vnet" using assms(2) nth_mem [OF v(3)] by (auto simp: throttle_ok_def)
  then have run: "throttle_vnet env vnet (sched, bw, th, s, k) =
      (if throttle_busy ?now vnet (bw1, th1)
       then (case throttle_slot ?now vnet th1 of (available, th) \<Rightarrow> Some (sched \<or> \<not> available, bw1, th, s1, k1))
       else Some (sched, bw1, th1, s1, k1))"
    using v l(1,2) by (simp add: throttle_vnet_def carried_def scheduled_def)
  show ?thesis
  proof (cases "throttle_busy ?now vnet (bw1, th1)")
    case True
    obtain available th2 where slot: "throttle_slot ?now vnet th1 = (available, th2)" by fastforce
    have th1: "throttle_ok env counts th1 s1" "vnet < m_vnets th1" "0 \<le> bw1" using l(2) assms(3) by (simp_all add: carried_def)
    note s2 = throttle_slot_law [OF th1 slot]
    have "\<not> available" using l(3) True slot by (auto simp: vnet_done_def throttle_slot_def split: prod.splits)
    then show ?thesis using run True slot carried_trans [OF l(2) s2(1)] s2(4) by auto
  next
    case False
    then show ?thesis using run l(2) by simp
  qed
qed

text \<open>The throttle has worked on the virtual networks \<open>vs\<close>.\<close>

definition throttled ::
  "throttle_env \<Rightarrow> nat list \<Rightarrow> nat set \<Rightarrow> int \<times> ('c, 'b) throttle \<times> ('c, 's) sim \<Rightarrow>
   bool \<times> int \<times> ('c, 'b) throttle \<times> ('c, 's) sim \<Rightarrow> bool" where
  "throttled env counts vs = (\<lambda>(bw, th, s) (sched, bw', th', s'). throttle_ok env counts th' s' \<and> scheduled s s' \<and>
     0 \<le> bw' \<and> bw' \<le> bw \<and> th_this th' = th_this th \<and> m_vnets th' = m_vnets th \<and> m_link_latency th' = m_link_latency th \<and>
     m_link_bandwidth_multiplier th' = m_link_bandwidth_multiplier th \<and>
     (\<forall>v. vnet_payloads th' v = vnet_payloads th v) \<and> (\<forall>v. drained (th_in th ! v) (th_in th' ! v)) \<and>
     (\<Sum>v\<in>vs. vnet_debt env th v) + bw' = (\<Sum>v\<in>vs. vnet_debt env th' v) + bw \<and>
     (\<forall>v\<in>vs. throttle_busy (m_globalTime s) v (bw', th') \<longrightarrow> sched) \<and>
     (sched \<longrightarrow> (\<exists>v\<in>vs. \<not> fst (areNSlotsAvailable (m_globalTime s) 1 (th_out th' ! v)))) \<and>
     (\<forall>v. v \<notin> vs \<longrightarrow> th_in th' ! v = th_in th ! v \<and> th_out th' ! v = th_out th ! v \<and>
        m_units_remaining th' ! v = m_units_remaining th ! v))"

lemma throttle_ok_debt_nonneg:
  assumes "throttle_env_ok env" "throttle_ok env counts th s" "v < m_vnets th"
  shows "0 \<le> vnet_debt env th v"
proof -
  have v: "v < length (th_in th)" "v < length (m_units_remaining th)" using assms(2,3) by (simp_all add: throttle_ok_def)
  have ok: "net_buffer_ok counts (th_in th ! v)" "0 \<le> m_units_remaining th ! v"
    using assms(2) nth_mem [OF v(1)] nth_mem [OF v(2)] by (auto simp: throttle_ok_def)
  have nonneg: "0 \<le> (\<Sum>m\<in>#M. msg_units env m)" if "\<forall>m\<in>#M. nm_MessageSize m \<noteq> MessageSizeType_Undefined" for M
    using that
  proof (induction M)
    case (add x M)
    then show ?case using network_message_to_size_sized(2) [OF assms(1), of x] by simp
  qed simp
  from ok(1) have "\<forall>m\<in>#buffer_payloads (th_in th ! v). nm_MessageSize m \<noteq> MessageSizeType_Undefined"
    by (auto simp: buffer_payloads_def net_buffer_ok_def)
  from nonneg [OF this] ok(2) show ?thesis by (simp add: vnet_debt_def)
qed

lemma throttled_refl: "\<lbrakk> throttle_ok env counts th s; 0 \<le> bw \<rbrakk> \<Longrightarrow> throttled env counts {} (bw, th, s) (False, bw, th, s)"
  by (simp add: throttled_def scheduled_def)

lemma throttled_step:
  assumes "throttled env counts vs (bw, th, s) (sched, bw1, th1, s1)" "finite vs" "v \<notin> vs"
    "carried env counts v (bw1, th1, s1) (bw2, th2, s2)" "sched \<longrightarrow> sched'"
    "throttle_busy (m_globalTime s) v (bw2, th2) \<longrightarrow> sched'"
    "sched' \<longrightarrow> sched \<or> \<not> fst (areNSlotsAvailable (m_globalTime s) 1 (th_out th2 ! v))"
  shows "throttled env counts (insert v vs) (bw, th, s) (sched', bw2, th2, s2)"
proof -
  note t = assms(1) [unfolded throttled_def prod.case]
  note c = assms(4) [unfolded carried_def prod.case]
  have other: "th_in th2 ! w = th_in th1 ! w" "th_out th2 ! w = th_out th1 ! w" "m_units_remaining th2 ! w = m_units_remaining th1 ! w"
    if "w \<noteq> v" for w using c that by blast+
  have pay: "vnet_payloads th2 w = vnet_payloads th w" for w
    using t c other [of w] by (cases "w = v") (auto simp: vnet_payloads_def)
  have drain: "drained (th_in th ! w) (th_in th2 ! w)" for w
    using t c other(1) [of w] drained_trans [of "th_in th ! v" "th_in th1 ! v" "th_in th2 ! v"] by (cases "w = v") simp_all
  have debt: "vnet_debt env th2 w = vnet_debt env th1 w" if "w \<noteq> v" for w using other [OF that] by (simp add: vnet_debt_def)
  have "(\<Sum>w\<in>vs. vnet_debt env th2 w) = (\<Sum>w\<in>vs. vnet_debt env th1 w)" by (rule sum.cong) (use debt assms(3) in metis)+
  moreover have "vnet_debt env th1 v = vnet_debt env th v" using t assms(3) by (simp add: vnet_debt_def)
  moreover have "(\<Sum>w\<in>vs. vnet_debt env th w) + bw1 = (\<Sum>w\<in>vs. vnet_debt env th1 w) + bw"
    "vnet_debt env th1 v + bw2 = vnet_debt env th2 v + bw1" using t c by blast+
  ultimately have sum: "(\<Sum>w\<in>insert v vs. vnet_debt env th w) + bw2 = (\<Sum>w\<in>insert v vs. vnet_debt env th2 w) + bw"
    using assms(2,3) by simp
  have busy: "throttle_busy (m_globalTime s) w (bw2, th2) \<longrightarrow> sched'" if "w \<in> insert v vs" for w
  proof (cases "w = v")
    case False
    then have "throttle_busy (m_globalTime s) w (bw2, th2) \<Longrightarrow> throttle_busy (m_globalTime s) w (bw1, th1)"
      using c other [OF False] by (auto simp: throttle_busy_def)
    then show ?thesis using t assms(5) that False by blast
  qed (use assms(6) in simp)
  have full: "\<exists>w\<in>insert v vs. \<not> fst (areNSlotsAvailable (m_globalTime s) 1 (th_out th2 ! w))" if sched'
  proof (cases sched)
    case True
    then obtain w where w: "w \<in> vs" "\<not> fst (areNSlotsAvailable (m_globalTime s) 1 (th_out th1 ! w))" using t by blast
    then have "th_out th2 ! w = th_out th1 ! w" using other(2) assms(3) by metis
    then show ?thesis using w by (intro bexI [of _ w]) simp_all
  qed (use assms(7) that in auto)
  show ?thesis unfolding throttled_def prod.case
  proof (intro conjI)
    show "scheduled s s2" using t c scheduled_trans by blast
    show "\<forall>w. w \<notin> insert v vs \<longrightarrow> th_in th2 ! w = th_in th ! w \<and> th_out th2 ! w = th_out th ! w \<and>
        m_units_remaining th2 ! w = m_units_remaining th ! w" using t other by simp
    show "\<forall>w\<in>insert v vs. throttle_busy (m_globalTime s) w (bw2, th2) \<longrightarrow> sched'" using busy by blast
    show "sched' \<longrightarrow> (\<exists>w\<in>insert v vs. \<not> fst (areNSlotsAvailable (m_globalTime s) 1 (th_out th2 ! w)))" using full by blast
  qed (use t c pay sum drain in auto)
qed

lemma throttle_vnets_law:
  assumes "throttle_env_ok env" "throttle_ok env counts th s" "set vs \<subseteq> {..<m_vnets th}" "distinct vs" "0 \<le> bw"
  shows "\<exists>sched bw' th' s' k'. run_all (throttle_vnet env) vs (False, bw, th, s, k) = Some (sched, bw', th', s', k') \<and>
    throttled env counts (set vs) (bw, th, s) (sched, bw', th', s')"
  using assms(3,4)
proof (induction vs rule: rev_induct)
  case Nil
  then show ?case using throttled_refl [OF assms(2,5)] by auto
next
  case (snoc v vs)
  obtain sched bw1 th1 s1 k1 where r: "run_all (throttle_vnet env) vs (False, bw, th, s, k) = Some (sched, bw1, th1, s1, k1)"
      "throttled env counts (set vs) (bw, th, s) (sched, bw1, th1, s1)"
    using snoc by auto
  then have th1: "throttle_ok env counts th1 s1" "v < m_vnets th1" "0 \<le> bw1" "m_globalTime s1 = m_globalTime s"
    using snoc.prems(1) by (auto simp: throttled_def scheduled_def)
  obtain sched' bw2 th2 s2 k2 where v: "throttle_vnet env v (sched, bw1, th1, s1, k1) = Some (sched', bw2, th2, s2, k2)"
      "carried env counts v (bw1, th1, s1) (bw2, th2, s2)" "sched \<longrightarrow> sched'"
      "throttle_busy (m_globalTime s) v (bw2, th2) \<longrightarrow> sched'"
      "sched' \<longrightarrow> sched \<or> \<not> fst (areNSlotsAvailable (m_globalTime s) 1 (th_out th2 ! v))"
    using throttle_vnet_law [OF assms(1) th1(1-3), of sched k1] unfolding th1(4) by blast
  have "throttled env counts (set (vs @ [v])) (bw, th, s) (sched', bw2, th2, s2)"
    using throttled_step [OF r(2) _ _ v(2-5)] snoc.prems(2) by simp
  then show ?case using r(1) v(1) by (auto simp: run_all_append)
qed

text \<open>Whether a virtual network has nothing to move and nothing to pay.\<close>

definition vnet_idle :: "Time \<Rightarrow> ('c, 'b) throttle \<Rightarrow> nat \<Rightarrow> bool" where
  "vnet_idle now th v \<longleftrightarrow> \<not> isReady now (th_in th ! v) \<and> m_units_remaining th ! v = 0"

lemma throttle_wakeup_law:
  assumes "throttle_env_ok env" "throttle_ok env counts th s"
  shows "\<exists>th' s' k' sched bw'. throttle_wakeup env (th, s, k) = Some (th', s', k') \<and>
    throttled env counts {..<m_vnets th} (getLinkBandwidth env th, th, s) (sched, bw', th', s') \<and>
    (bw' = 0 \<or> sched \<longrightarrow> \<lparr>m_time = m_globalTime s + 1, m_consumer_ptr = th_this th\<rparr> \<in># pending s')"
proof -
  let ?now = "m_globalTime s" and ?bw = "getLinkBandwidth env th" and ?w = "th_wakeups_wo_switch th + 1"
  define w where "w = (if ?w > PRIORITY_SWITCH_LIMIT then 0 else ?w)"
  define vs where "vs = (if ?w > PRIORITY_SWITCH_LIMIT then [0..<m_vnets th] else rev [0..<m_vnets th])"
  let ?th = "th\<lparr>th_wakeups_wo_switch := w\<rparr>"
  have vs: "set vs = {..<m_vnets th}" "distinct vs" by (auto simp: vs_def)
  have ok: "throttle_ok env counts ?th s" "0 < ?bw" using assms(2) by (simp_all add: throttle_ok_def getLinkBandwidth_def)
  obtain sched bw1 th1 s1 k1 where r: "run_all (throttle_vnet env) vs (False, ?bw, ?th, s, k) = Some (sched, bw1, th1, s1, k1)"
      "throttled env counts {..<m_vnets th} (?bw, ?th, s) (sched, bw1, th1, s1)"
    using throttle_vnets_law [OF assms(1) ok(1), of vs ?bw k] vs ok(2) by auto
  have now: "m_globalTime s1 = ?now" "queue_ok s1" "0 \<le> bw1" using r(2) by (auto simp: throttled_def scheduled_def throttle_ok_def)
  obtain c t n where bash: "bash_loop env ?now (th1\<lparr>m_bandwidth_since_sample := m_bandwidth_since_sample th1 + (?bw - bw1)\<rparr>) =
      th1\<lparr>m_bash_counter := c, m_last_bandwidth_sample := t, m_bandwidth_since_sample := n\<rparr>"
    using bash_loop_law [of env ?now "th1\<lparr>m_bandwidth_since_sample := m_bandwidth_since_sample th1 + (?bw - bw1)\<rparr>"] by auto
  let ?th' = "th1\<lparr>m_bash_counter := c, m_last_bandwidth_sample := t, m_bandwidth_since_sample := n\<rparr>"
  have wake: "throttle_wakeup env (th, s, k) =
      (if bw1 > 0 \<and> \<not> sched then Some (?th', s1, k1)
       else do { s \<leftarrow> scheduleEvent (Some (th_this th1)) 1 s1; Some (?th', s, k1) })"
    using ok(2) r(1) bash now(1) unfolding w_def vs_def
    by (cases "?w > PRIORITY_SWITCH_LIMIT") (simp_all add: throttle_wakeup_def Let_def)
  have fin: "throttled env counts {..<m_vnets th} (?bw, th, s) (sched, bw1, ?th', s')" if "queue_ok s'" "scheduled s1 s'" for s'
    using r(2) that scheduled_trans [of s s1 s']
    by (auto simp: throttled_def throttle_ok_def getLinkBandwidth_def vnet_payloads_def vnet_debt_def throttle_busy_def scheduled_def)
  show ?thesis
  proof (cases "bw1 > 0 \<and> \<not> sched")
    case True
    then show ?thesis using wake fin [of s1] now by (auto simp: scheduled_def)
  next
    case False
    obtain s' where s': "scheduleEventAbsolute (Some (th_this th1)) (1 + ?now) s1 = Some s'" "queue_ok s'" "scheduled s1 s'"
        "\<lparr>m_time = 1 + ?now, m_consumer_ptr = th_this th1\<rparr> \<in># pending s'"
      using scheduleEventAbsolute_future [OF now(2), of "1 + ?now"] now(1) by auto
    then have "throttle_wakeup env (th, s, k) = Some (?th', s', k1)" using wake False now(1) by (simp add: scheduleEvent_def)
    moreover have "th_this th1 = th_this th" using r(2) by (simp add: throttled_def)
    ultimately show ?thesis using fin [OF s'(2,3)] s'(4) by (metis add.commute)
  qed
qed

text \<open>C12. A link carries what its bandwidth allows.  One wakeup of a well-formed throttle returns and aborts nowhere.  On
  every virtual network the messages before and after are the same: none is lost, duplicated, changed or moved
  to another virtual network.  What is paid for messages in this cycle is at most the bandwidth of the
  link, and never more than was owed.  Afterwards every virtual network is idle, or the throttle is scheduled for the next
  cycle because the bandwidth is used up or a link buffer is full.\<close>

theorem throttle_within_bandwidth:
  assumes "throttle_env_ok env" "throttle_ok env counts th s"
  shows "\<exists>th' s' k'. throttle_wakeup env (th, s, k) = Some (th', s', k') \<and> throttle_ok env counts th' s' \<and>
    (\<forall>v<m_vnets th. buffer_payloads (th_in th' ! v) + buffer_payloads (th_out th' ! v) =
       buffer_payloads (th_in th ! v) + buffer_payloads (th_out th ! v)) \<and>
    (let paid = (\<Sum>v<m_vnets th. vnet_debt env th v) - (\<Sum>v<m_vnets th. vnet_debt env th' v)
     in 0 \<le> paid \<and> paid \<le> getLinkBandwidth env th \<and> 0 \<le> (\<Sum>v<m_vnets th. vnet_debt env th' v) \<and>
       ((\<forall>v<m_vnets th. vnet_idle (m_globalTime s) th' v) \<or>
        \<lparr>m_time = m_globalTime s + 1, m_consumer_ptr = th_this th\<rparr> \<in># pending s' \<and>
        (paid = getLinkBandwidth env th \<or> (\<exists>v<m_vnets th. \<not> fst (areNSlotsAvailable (m_globalTime s) 1 (th_out th' ! v))))))"
proof -
  let ?V = "{..<m_vnets th}" and ?bw = "getLinkBandwidth env th"
  obtain th' s' k' sched bw' where r: "throttle_wakeup env (th, s, k) = Some (th', s', k')"
      "throttled env counts ?V (?bw, th, s) (sched, bw', th', s')"
      "bw' = 0 \<or> sched \<longrightarrow> \<lparr>m_time = m_globalTime s + 1, m_consumer_ptr = th_this th\<rparr> \<in># pending s'"
    using throttle_wakeup_law [OF assms] by blast
  note t = r(2) [unfolded throttled_def prod.case]
  have ok: "throttle_ok env counts th' s'" "m_vnets th' = m_vnets th" using t by blast+
  have "0 \<le> (\<Sum>v\<in>?V. vnet_debt env th' v)"
    using throttle_ok_debt_nonneg [OF assms(1) ok(1)] ok(2) by (intro sum_nonneg) simp
  moreover have paid: "(\<Sum>v\<in>?V. vnet_debt env th v) - (\<Sum>v\<in>?V. vnet_debt env th' v) = ?bw - bw'" "0 \<le> bw'" "bw' \<le> ?bw"
    using t by auto
  moreover have "vnet_idle (m_globalTime s) th' v" if v: "v < m_vnets th" and "\<not> (bw' = 0 \<or> sched)" for v
  proof -
    have "\<not> throttle_busy (m_globalTime s) v (bw', th')" "0 < bw'" using t that paid(2) by auto
    moreover have "v < length (m_units_remaining th')" using ok v by (simp add: throttle_ok_def)
    then have "0 \<le> m_units_remaining th' ! v" using ok(1) nth_mem by (fastforce simp: throttle_ok_def)
    ultimately show ?thesis by (auto simp: throttle_busy_def vnet_idle_def)
  qed
  moreover have "sched \<longrightarrow> (\<exists>v<m_vnets th. \<not> fst (areNSlotsAvailable (m_globalTime s) 1 (th_out th' ! v)))" using t by auto
  moreover have "\<forall>v. buffer_payloads (th_in th' ! v) + buffer_payloads (th_out th' ! v) =
      buffer_payloads (th_in th ! v) + buffer_payloads (th_out th ! v)" using t by (simp add: vnet_payloads_def)
  ultimately show ?thesis using r(1,3) ok(1) unfolding Let_def by (intro exI conjI) auto
qed

definition sample_throttle_env :: throttle_env where
  "sample_throttle_env = switch_env.extend sample_env (throttle_env.fields 8 64 10 (\<lambda>_ _. False))"

definition sample_throttle :: "(nat, string) throttle" where
  "sample_throttle = \<lparr>th_this = 0, th_in = [sample_waiting], th_out = [sample_link], m_message_counters = (\<lambda>_. [0]),
     m_vnets = 1, m_units_remaining = [0], m_bash_counter = 256, m_bandwidth_since_sample = 0, m_last_bandwidth_sample = 0,
     m_link_bandwidth_multiplier = 2, m_link_latency = 1, th_wakeups_wo_switch = 0\<rparr>"

lemma sample_throttle_ok:
  "throttle_env_ok sample_throttle_env" "throttle_ok sample_throttle_env [2, 2] sample_throttle (switch_sim 5)"
  using sample_waiting_ok sample_link_ok [of 6] switch_sim_ok [of 5]
  by (simp_all add: throttle_env_ok_def throttle_ok_def sample_throttle_def sample_throttle_env_def sample_env_def
      switch_env.defs throttle_env.defs getLinkBandwidth_def)

theorem throttle_within_bandwidth_witness:
  "\<exists>th' s' k'. throttle_wakeup sample_throttle_env (sample_throttle, switch_sim 5, 0) = Some (th', s', k') \<and>
    throttle_ok sample_throttle_env [2, 2] th' s' \<and>
    (\<Sum>v<m_vnets sample_throttle. vnet_debt sample_throttle_env sample_throttle v)
      - (\<Sum>v<m_vnets sample_throttle. vnet_debt sample_throttle_env th' v) \<le> getLinkBandwidth sample_throttle_env sample_throttle"
  using throttle_within_bandwidth [OF sample_throttle_ok, of 0] unfolding Let_def by blast

end
