(* ===== verification/Simple_Network.thy ===== *)
theory Simple_Network
  imports Network_Throttle
begin

text \<open>
  The network as a whole: \<open>network/simple/Switch.C\<close>, a switch with a throttle for each of its links, and
  \<open>network/simple/SimpleNetwork.C\<close>, which builds the switches from the topology and owns the queues of the
  machines.

  The message buffers are shared: an outgoing buffer of a switch is the incoming buffer of a throttle, and the
  buffer behind the throttle is an incoming buffer of the next switch or a queue of a machine.  The network
  therefore keeps all buffers in one store, a list that only grows, and every pointer to a buffer is an address in
  it.  An operation of a switch or of a throttle loads the buffers it points to, works on them as
  \<open>Network_Switch\<close> and \<open>Network_Throttle\<close> do, and writes them back.

  The lemmas show that the whole network delivers: whatever is woken in whatever order, every
  message that a machine has sent is in the network or has been taken out by its destination, once for
  each of them.
\<close>

datatype net_consumer = SwitchC nat | ThrottleC nat nat | NodeC nat

type_synonym 'b node_buffer = "(net_consumer, 'b) net_buffer"

record sn_config = net_config +
  NUMBER_OF_VIRTUAL_NETWORKS :: nat
  FINITE_BUFFERING :: bool
  FINITE_BUFFER_SIZE :: int

record 'b net_throttle =
  nt_throttle :: "(net_consumer, 'b) throttle"
  nt_in :: "nat list"
  nt_out :: "nat list"

record 'b net_switch =
  sw_perfect :: "(net_consumer, 'b) perfect_switch"
  sw_in :: "nat list list"
  sw_out :: "nat list list"
  m_throttles :: "'b net_throttle list"
  m_switch_id :: nat

record 'b simple_network =
  sn_nodes :: nat
  sn_virtual_networks :: nat
  buffers :: "'b node_buffer list"
  m_toNetQueues :: "nat list list"
  m_fromNetQueues :: "nat list list"
  m_in_use :: "bool list"
  m_ordered :: "bool list"
  m_endpoint_switches :: "nat option list"
  m_switch_ptr_vector :: "'b net_switch list"

section \<open>The store of buffers\<close>

definition load :: "'a list \<Rightarrow> nat list \<Rightarrow> 'a list" where
  "load st as = map (\<lambda>a. st ! a) as"

definition write_all :: "nat list \<Rightarrow> 'a list \<Rightarrow> 'a list \<Rightarrow> 'a list" where
  "write_all as bs st = fold (\<lambda>(a, b) st. st[a := b]) (zip as bs) st"

definition load_switch :: "'b node_buffer list \<Rightarrow> 'b net_switch \<Rightarrow> (net_consumer, 'b) perfect_switch" where
  "load_switch st sw = (sw_perfect sw)\<lparr>m_in := map (load st) (sw_in sw), m_out := map (load st) (sw_out sw)\<rparr>"

definition save_switch ::
  "(net_consumer, 'b) perfect_switch \<Rightarrow> 'b node_buffer list \<times> 'b net_switch \<Rightarrow> 'b node_buffer list \<times> 'b net_switch" where
  "save_switch ps = (\<lambda>(st, sw).
     (write_all (concat (sw_in sw) @ concat (sw_out sw)) (concat (m_in ps) @ concat (m_out ps)) st,
      sw\<lparr>sw_perfect := ps\<lparr>m_in := [], m_out := []\<rparr>\<rparr>))"

definition load_throttle :: "'b node_buffer list \<Rightarrow> 'b net_throttle \<Rightarrow> (net_consumer, 'b) throttle" where
  "load_throttle st t = (nt_throttle t)\<lparr>th_in := load st (nt_in t), th_out := load st (nt_out t)\<rparr>"

definition save_throttle ::
  "(net_consumer, 'b) throttle \<Rightarrow> 'b node_buffer list \<times> 'b net_throttle \<Rightarrow> 'b node_buffer list \<times> 'b net_throttle" where
  "save_throttle th = (\<lambda>(st, t).
     (write_all (nt_in t @ nt_out t) (th_in th @ th_out th) st, t\<lparr>nt_throttle := th\<lparr>th_in := [], th_out := []\<rparr>\<rparr>))"

section \<open>A switch with its throttles\<close>

definition Switch_new :: "sn_config \<Rightarrow> nat \<Rightarrow> 'b net_switch" where
  "Switch_new c sid = \<lparr>sw_perfect = PerfectSwitch_new (NUMBER_OF_VIRTUAL_NETWORKS c) (SwitchC sid), sw_in = [], sw_out = [],
     m_throttles = [], m_switch_id = sid\<rparr>"

definition sw_addInPort ::
  "nat list \<Rightarrow> 'b node_buffer list \<times> 'b net_switch \<Rightarrow> ('b node_buffer list \<times> 'b net_switch) option" where
  "sw_addInPort ins = (\<lambda>(st, sw). do {
     ps \<leftarrow> ps_addInPort (load st ins) (load_switch st sw);
     Some (save_switch ps (st, sw\<lparr>sw_in := sw_in sw @ [ins]\<rparr>)) })"

text \<open>The buffers between a switch and its throttles, and those of a link inside the network.\<close>

definition new_link_buffer :: "sn_config \<Rightarrow> 'b node_buffer" where
  "new_link_buffer c =
     (let buffer_ptr = setOrdering True MessageBuffer_new
      in if FINITE_BUFFERING c then setSize (FINITE_BUFFER_SIZE c) buffer_ptr else buffer_ptr)"

definition new_link_buffers :: "sn_config \<Rightarrow> nat \<Rightarrow> 'b node_buffer list \<Rightarrow> nat list \<times> 'b node_buffer list" where
  "new_link_buffers c n st = ([length st..<length st + n], st @ replicate n (new_link_buffer c))"

definition sw_addOutPort ::
  "sn_config \<Rightarrow> nat list \<Rightarrow> net_dest \<Rightarrow> int \<Rightarrow> int \<Rightarrow> 'b node_buffer list \<times> 'b net_switch \<Rightarrow>
   ('b node_buffer list \<times> 'b net_switch) option" where
  "sw_addOutPort c out routing_table_entry link_latency bw_multiplier = (\<lambda>(st, sw). do {
     th \<leftarrow> Throttle_new (ThrottleC (m_switch_id sw) (length (m_throttles sw))) link_latency bw_multiplier;
     let (intermediateBuffers, st) = new_link_buffers c (length out) st;
     ps \<leftarrow> ps_addOutPort (load st intermediateBuffers) routing_table_entry (load_switch st sw);
     let (st, sw) = save_switch ps (st, sw\<lparr>sw_out := sw_out sw @ [intermediateBuffers]\<rparr>);
     th \<leftarrow> th_addLinks (load st intermediateBuffers) (load st out) th;
     let (st, t) = save_throttle th (st, \<lparr>nt_throttle = th, nt_in = intermediateBuffers, nt_out = out\<rparr>);
     Some (st, sw\<lparr>m_throttles := m_throttles sw @ [t]\<rparr>) })"

definition sw_clearRoutingTables :: "'b net_switch \<Rightarrow> 'b net_switch" where
  "sw_clearRoutingTables sw = sw\<lparr>sw_perfect := clearRoutingTables (sw_perfect sw)\<rparr>"

definition sw_reconfigureOutPort :: "net_dest \<Rightarrow> 'b net_switch \<Rightarrow> 'b net_switch" where
  "sw_reconfigureOutPort routing_table_entry sw = sw\<lparr>sw_perfect := reconfigureOutPort routing_table_entry (sw_perfect sw)\<rparr>"

definition clear_at :: "nat \<Rightarrow> 'b node_buffer list \<Rightarrow> 'b node_buffer list option" where
  "clear_at a st = do { b \<leftarrow> clear (st ! a); Some (st[a := b]) }"

text \<open>\<open>PerfectSwitch::clearBuffers\<close>, then the throttles.\<close>

definition sw_clearBuffers :: "'b net_switch \<Rightarrow> 'b node_buffer list \<Rightarrow> 'b node_buffer list option" where
  "sw_clearBuffers sw st = do {
     st \<leftarrow> run_all clear_at (concat (sw_in sw)) st;
     st \<leftarrow> run_all clear_at (concat (sw_out sw)) st;
     run_all (\<lambda>t. run_all clear_at (concat (map (\<lambda>(i, out). [i, out]) (zip (nt_in t) (nt_out t))))) (m_throttles sw) st }"

text \<open>\<open>PerfectSwitch::clearStats\<close> does nothing; the throttles reset their counters.\<close>

definition sw_clearStats :: "'b net_switch \<Rightarrow> 'b net_switch" where
  "sw_clearStats sw = sw\<lparr>m_throttles := map (\<lambda>t. t\<lparr>nt_throttle := th_clearStats (nt_throttle t)\<rparr>) (m_throttles sw)\<rparr>"

definition getThrottle :: "nat \<Rightarrow> 'b net_switch \<Rightarrow> 'b net_throttle option" where
  "getThrottle link_number sw = do {
     assert_that (link_number < length (m_throttles sw));
     Some (m_throttles sw ! link_number) }"

section \<open>Building the network\<close>

definition with_switch ::
  "nat \<Rightarrow> ('b node_buffer list \<times> 'b net_switch \<Rightarrow> ('b node_buffer list \<times> 'b net_switch) option) \<Rightarrow>
   'b simple_network \<Rightarrow> 'b simple_network option" where
  "with_switch i f n = do {
     assert_that (i < length (m_switch_ptr_vector n));
     (st, sw) \<leftarrow> f (buffers n, m_switch_ptr_vector n ! i);
     Some (n\<lparr>buffers := st, m_switch_ptr_vector := (m_switch_ptr_vector n)[i := sw]\<rparr>) }"

definition makeOutLink ::
  "sn_config \<Rightarrow> nat \<Rightarrow> nat \<Rightarrow> net_dest \<Rightarrow> int \<Rightarrow> int \<Rightarrow> bool \<Rightarrow> 'b simple_network \<Rightarrow> 'b simple_network option" where
  "makeOutLink c src dest routing_table_entry link_latency bw_multiplier isReconfiguration n = do {
     assert_that (dest < sn_nodes n);
     assert_that (src < length (m_switch_ptr_vector n));
     if \<not> isReconfiguration then do {
       n \<leftarrow> with_switch src (sw_addOutPort c (m_fromNetQueues n ! dest) routing_table_entry link_latency bw_multiplier) n;
       Some (n\<lparr>m_endpoint_switches := (m_endpoint_switches n)[dest := Some src]\<rparr>) }
     else with_switch src (\<lambda>(st, sw). Some (st, sw_reconfigureOutPort routing_table_entry sw)) n }"

definition makeInLink :: "nat \<Rightarrow> nat \<Rightarrow> bool \<Rightarrow> 'b simple_network \<Rightarrow> 'b simple_network option" where
  "makeInLink src dest isReconfiguration n = do {
     assert_that (src < sn_nodes n);
     if \<not> isReconfiguration then with_switch dest (sw_addInPort (m_toNetQueues n ! src)) n
     else Some n }"

definition makeInternalLink ::
  "sn_config \<Rightarrow> nat \<Rightarrow> nat \<Rightarrow> net_dest \<Rightarrow> int \<Rightarrow> int \<Rightarrow> bool \<Rightarrow> 'b simple_network \<Rightarrow> 'b simple_network option" where
  "makeInternalLink c src dest routing_table_entry link_latency bw_multiplier isReconfiguration n =
     (if \<not> isReconfiguration then do {
        let (queues, st) = new_link_buffers c (sn_virtual_networks n) (buffers n);
        n \<leftarrow> with_switch dest (sw_addInPort queues) (n\<lparr>buffers := st\<rparr>);
        with_switch src (sw_addOutPort c queues routing_table_entry link_latency bw_multiplier) n }
      else with_switch src (\<lambda>(st, sw). Some (st, sw_reconfigureOutPort routing_table_entry sw)) n)"

fun make_link :: "sn_config \<Rightarrow> link_call \<Rightarrow> 'b simple_network \<Rightarrow> 'b simple_network option" where
  "make_link c (InLink src dest entry latency bw reconf) = makeInLink src dest reconf"
| "make_link c (OutLink src dest entry latency weight bw reconf) = makeOutLink c src dest entry latency bw reconf"
| "make_link c (InternalLink src dest entry latency weight bw reconf) = makeInternalLink c src dest entry latency bw reconf"

text \<open>The queues of the machines: for each machine and virtual network one into the network and one out of it.\<close>

definition queue_address :: "nat \<Rightarrow> nat \<Rightarrow> nat \<Rightarrow> nat" where
  "queue_address vnets node j = 2 * (node * vnets + j)"

definition SimpleNetwork_queues :: "sn_config \<Rightarrow> nat \<Rightarrow> 'b simple_network" where
  "SimpleNetwork_queues c nodes =
     (let vnets = NUMBER_OF_VIRTUAL_NETWORKS c
      in \<lparr>sn_nodes = nodes, sn_virtual_networks = vnets, buffers = replicate (2 * (nodes * vnets)) MessageBuffer_new,
          m_toNetQueues = map (\<lambda>node. map (queue_address vnets node) [0..<vnets]) [0..<nodes],
          m_fromNetQueues = map (\<lambda>node. map (\<lambda>j. Suc (queue_address vnets node j)) [0..<vnets]) [0..<nodes],
          m_in_use = replicate vnets False, m_ordered = replicate vnets False,
          m_endpoint_switches = replicate nodes None, m_switch_ptr_vector = []\<rparr>)"

text \<open>The constructor; \<open>init_topology\<close> is the part of \<open>Topology::init\<close> that the configured topology selects.\<close>

definition SimpleNetwork_new ::
  "sn_config \<Rightarrow> (topology \<Rightarrow> topology option) \<Rightarrow> ('b simple_network \<times> topology) option" where
  "SimpleNetwork_new c init_topology = do {
     let nodes = base_number (machine_counts c) (length (machine_counts c));
     let n = SimpleNetwork_queues c nodes;
     t \<leftarrow> init_topology (Topology_new nodes);
     let n = n\<lparr>m_switch_ptr_vector := map (Switch_new c) [0..<m_number_of_switches t]\<rparr>;
     (calls, t) \<leftarrow> createLinks (net_config.truncate c) False t;
     n \<leftarrow> run_all (make_link c) calls n;
     Some (n, t) }"

section \<open>The network at work\<close>

definition checkNetworkAllocation :: "nat \<Rightarrow> bool \<Rightarrow> nat \<Rightarrow> 'b simple_network \<Rightarrow> 'b simple_network option" where
  "checkNetworkAllocation node ordered network_num n = do {
     assert_that (node < sn_nodes n);
     assert_that (network_num < sn_virtual_networks n);
     Some (n\<lparr>m_ordered := (if ordered then (m_ordered n)[network_num := True] else m_ordered n),
             m_in_use := (m_in_use n)[network_num := True]\<rparr>) }"

definition getToNetQueue :: "nat \<Rightarrow> bool \<Rightarrow> nat \<Rightarrow> 'b simple_network \<Rightarrow> (nat \<times> 'b simple_network) option" where
  "getToNetQueue node ordered network_num n = do {
     n \<leftarrow> checkNetworkAllocation node ordered network_num n;
     Some (m_toNetQueues n ! node ! network_num, n) }"

definition getFromNetQueue :: "nat \<Rightarrow> bool \<Rightarrow> nat \<Rightarrow> 'b simple_network \<Rightarrow> (nat \<times> 'b simple_network) option" where
  "getFromNetQueue node ordered network_num n = do {
     n \<leftarrow> checkNetworkAllocation node ordered network_num n;
     Some (m_fromNetQueues n ! node ! network_num, n) }"

definition getThrottles :: "nat \<Rightarrow> 'b simple_network \<Rightarrow> 'b net_throttle list option" where
  "getThrottles node n = do {
     assert_that (node < sn_nodes n);
     i \<leftarrow> m_endpoint_switches n ! node;
     Some (m_throttles (m_switch_ptr_vector n ! i)) }"

definition sn_reset :: "'b simple_network \<Rightarrow> 'b simple_network option" where
  "sn_reset n = do {
     st \<leftarrow> run_all clear_at (concat (map (\<lambda>(to, from). concat (map (\<lambda>(a, b). [a, b]) (zip to from)))
       (zip (m_toNetQueues n) (m_fromNetQueues n)))) (buffers n);
     st \<leftarrow> run_all sw_clearBuffers (m_switch_ptr_vector n) st;
     Some (n\<lparr>buffers := st\<rparr>) }"

definition sn_clearStats :: "'b simple_network \<Rightarrow> 'b simple_network" where
  "sn_clearStats n = n\<lparr>m_switch_ptr_vector := map sw_clearStats (m_switch_ptr_vector n)\<rparr>"

text \<open>The wakeups of the consumers of the network.  The switches ask the network which virtual networks are ordered.\<close>

definition vnet_env :: "throttle_env \<Rightarrow> 'b simple_network \<Rightarrow> switch_env" where
  "vnet_env env n = (switch_env.truncate env)\<lparr>isVNetOrdered := (\<lambda>v. m_ordered n ! v)\<rparr>"

definition net_switch_wakeup ::
  "throttle_env \<Rightarrow> nat \<Rightarrow> 'b simple_network \<times> (net_consumer, 's) sim \<times> nat \<Rightarrow>
   ('b simple_network \<times> (net_consumer, 's) sim \<times> nat) option" where
  "net_switch_wakeup env i = (\<lambda>(n, s, k). do {
     assert_that (i < length (m_switch_ptr_vector n));
     let sw = m_switch_ptr_vector n ! i;
     (ps, s, k) \<leftarrow> switch_wakeup (vnet_env env n) (load_switch (buffers n) sw, s, k);
     let (st, sw) = save_switch ps (buffers n, sw);
     Some (n\<lparr>buffers := st, m_switch_ptr_vector := (m_switch_ptr_vector n)[i := sw]\<rparr>, s, k) })"

definition net_throttle_wakeup ::
  "throttle_env \<Rightarrow> nat \<Rightarrow> nat \<Rightarrow> 'b simple_network \<times> (net_consumer, 's) sim \<times> nat \<Rightarrow>
   ('b simple_network \<times> (net_consumer, 's) sim \<times> nat) option" where
  "net_throttle_wakeup env i l = (\<lambda>(n, s, k). do {
     assert_that (i < length (m_switch_ptr_vector n));
     let sw = m_switch_ptr_vector n ! i;
     assert_that (l < length (m_throttles sw));
     let t = m_throttles sw ! l;
     (th, s, k) \<leftarrow> throttle_wakeup env (load_throttle (buffers n) t, s, k);
     let (st, t) = save_throttle th (buffers n, t);
     Some (n\<lparr>buffers := st, m_switch_ptr_vector := (m_switch_ptr_vector n)[i := sw\<lparr>m_throttles := (m_throttles sw)[l := t]\<rparr>]\<rparr>, s, k) })"

section \<open>Reading and writing the store\<close>

lemma length_load [simp]: "length (load st as) = length as"
  by (simp add: load_def)

lemma load_append [simp]: "load st (as @ bs) = load st as @ load st bs"
  by (simp add: load_def)

lemma concat_load: "concat (map (load st) rows) = load st (concat rows)"
  by (induction rows) (simp_all add: load_def)

lemma write_all_Cons [simp]: "write_all (a # as) (b # bs) st = write_all as bs (st[a := b])"
  "write_all [] bs st = st" "write_all as [] st = st"
  by (simp_all add: write_all_def)

lemma length_write_all [simp]: "length (write_all as bs st) = length st"
proof (induction as arbitrary: bs st)
  case (Cons a as)
  then show ?case by (cases bs) simp_all
qed simp

lemma write_all_other: "a \<notin> set as \<Longrightarrow> write_all as bs st ! a = st ! a"
proof (induction as arbitrary: bs st)
  case (Cons x as)
  then show ?case by (cases bs) simp_all
qed simp

lemma write_all_nth:
  assumes "distinct as" "set as \<subseteq> {..<length st}" "length bs = length as" "i < length as"
  shows "write_all as bs st ! (as ! i) = bs ! i"
  using assms
proof (induction as arbitrary: bs st i)
  case (Cons a as)
  then obtain b bs' where bs: "bs = b # bs'" by (cases bs) auto
  show ?case
  proof (cases i)
    case 0
    then show ?thesis using Cons.prems write_all_other [of a as bs' "st[a := b]"] bs by simp
  next
    case (Suc j)
    then show ?thesis using Cons.IH [of "st[a := b]" bs' j] Cons.prems bs by simp
  qed
qed simp

lemma load_write_all:
  assumes "distinct as" "set as \<subseteq> {..<length st}" "length bs = length as"
  shows "load (write_all as bs st) as = bs"
  using write_all_nth [OF assms] assms(3) by (auto simp: load_def intro: nth_equalityI)

lemma load_other: "set as \<inter> set bs = {} \<Longrightarrow> load (write_all bs xs st) as = load st as"
  unfolding load_def by (intro map_cong refl write_all_other) blast

text \<open>A sum over the store changes as the written buffers do.\<close>

lemma sum_write_all:
  fixes f :: "'a \<Rightarrow> 'm::comm_monoid_add"
  assumes "distinct as" "set as \<subseteq> {..<length st}" "length bs = length as"
  shows "(\<Sum>x\<leftarrow>write_all as bs st. f x) + (\<Sum>x\<leftarrow>load st as. f x) = (\<Sum>x\<leftarrow>st. f x) + (\<Sum>x\<leftarrow>bs. f x)"
  using assms
proof (induction as arbitrary: bs st)
  case (Cons a as)
  then obtain b bs' where bs: "bs = b # bs'" by (cases bs) auto
  have a: "a < length st" "a \<notin> set as" using Cons.prems by auto
  have "load (st[a := b]) as = load st as"
    unfolding load_def by (intro map_cong refl nth_list_update_neq) (use a(2) in blast)
  then have "(\<Sum>x\<leftarrow>write_all as bs' (st[a := b]). f x) + (\<Sum>x\<leftarrow>load st as. f x) = (\<Sum>x\<leftarrow>st[a := b]. f x) + (\<Sum>x\<leftarrow>bs'. f x)"
    using Cons.IH [of "st[a := b]" bs'] Cons.prems bs by simp
  moreover have "(\<Sum>x\<leftarrow>st[a := b]. f x) + f (st ! a) = (\<Sum>x\<leftarrow>st. f x) + f b" by (rule sum_list_update_add [OF a(1)])
  ultimately show ?case using bs by (simp add: load_def ac_simps)
qed (simp add: load_def)

lemma load_rows:
  assumes "concat (map (load st) rows) = concat bs" "map length rows = map length bs"
  shows "map (load st) rows = bs"
proof (rule concat_injective [OF assms(1)])
  show "length (map (load st) rows) = length bs" using arg_cong [OF assms(2), of length] by simp
  show "\<forall>(x, y)\<in>set (zip (map (load st) rows) bs). length x = length y"
    using assms(2) by (auto simp: set_zip list_eq_iff_nth_eq)
qed

text \<open>What is saved is what is loaded afterwards.\<close>

lemma load_save_switch:
  assumes "distinct (concat (sw_in sw) @ concat (sw_out sw))" "set (concat (sw_in sw) @ concat (sw_out sw)) \<subseteq> {..<length st}"
    "map length (m_in ps) = map length (sw_in sw)" "map length (m_out ps) = map length (sw_out sw)"
    "save_switch ps (st, sw) = (st', sw')"
  shows "load_switch st' sw' = ps" "sw' = sw\<lparr>sw_perfect := ps\<lparr>m_in := [], m_out := []\<rparr>\<rparr>" "length st' = length st"
    "a \<notin> set (concat (sw_in sw) @ concat (sw_out sw)) \<Longrightarrow> st' ! a = st ! a"
proof -
  let ?as = "concat (sw_in sw) @ concat (sw_out sw)" and ?bs = "concat (m_in ps) @ concat (m_out ps)"
  have st': "st' = write_all ?as ?bs st" and sw': "sw' = sw\<lparr>sw_perfect := ps\<lparr>m_in := [], m_out := []\<rparr>\<rparr>"
    using assms(5) by (simp_all add: save_switch_def)
  have len: "length ?bs = length ?as" using assms(3,4) by (simp add: length_concat)
  have "load st' ?as = ?bs" unfolding st' by (rule load_write_all [OF assms(1,2) len])
  moreover have "length (load st' (concat (sw_in sw))) = length (concat (m_in ps))" using assms(3) by (simp add: length_concat)
  ultimately have "load st' (concat (sw_in sw)) = concat (m_in ps)" "load st' (concat (sw_out sw)) = concat (m_out ps)" by simp_all
  then have "map (load st') (sw_in sw) = m_in ps" "map (load st') (sw_out sw) = m_out ps"
    using load_rows [of st' "sw_in sw" "m_in ps"] load_rows [of st' "sw_out sw" "m_out ps"] assms(3,4) by (simp_all add: concat_load)
  then show "load_switch st' sw' = ps" by (simp add: load_switch_def sw')
  show "sw' = sw\<lparr>sw_perfect := ps\<lparr>m_in := [], m_out := []\<rparr>\<rparr>" by (rule sw')
  show "length st' = length st" by (simp add: st')
  show "a \<notin> set ?as \<Longrightarrow> st' ! a = st ! a" unfolding st' by (rule write_all_other)
qed

lemma load_save_throttle:
  assumes "distinct (nt_in t @ nt_out t)" "set (nt_in t @ nt_out t) \<subseteq> {..<length st}"
    "length (th_in th) = length (nt_in t)" "length (th_out th) = length (nt_out t)" "save_throttle th (st, t) = (st', t')"
  shows "load_throttle st' t' = th" "t' = t\<lparr>nt_throttle := th\<lparr>th_in := [], th_out := []\<rparr>\<rparr>" "length st' = length st"
    "a \<notin> set (nt_in t @ nt_out t) \<Longrightarrow> st' ! a = st ! a"
proof -
  have st': "st' = write_all (nt_in t @ nt_out t) (th_in th @ th_out th) st"
    and t': "t' = t\<lparr>nt_throttle := th\<lparr>th_in := [], th_out := []\<rparr>\<rparr>"
    using assms(5) by (simp_all add: save_throttle_def)
  have "load st' (nt_in t @ nt_out t) = th_in th @ th_out th"
    unfolding st' by (rule load_write_all [OF assms(1,2)]) (use assms(3,4) in simp)
  then have "load st' (nt_in t) = th_in th" "load st' (nt_out t) = th_out th" using assms(3) by simp_all
  then show "load_throttle st' t' = th" by (simp add: load_throttle_def t')
  show "t' = t\<lparr>nt_throttle := th\<lparr>th_in := [], th_out := []\<rparr>\<rparr>" by (rule t')
  show "length st' = length st" by (simp add: st')
  show "a \<notin> set (nt_in t @ nt_out t) \<Longrightarrow> st' ! a = st ! a" unfolding st' by (rule write_all_other)
qed

section \<open>The invariant of the network\<close>

text \<open>Which buffers the objects of the network point to.  This does not change while it works.  Each buffer has at
  most one producer; the buffers of a switch are different ones, and so are those of a throttle.\<close>

type_synonym pointers = "nat list list \<times> nat list list \<times> nat list list \<times> nat list list"

definition sw_pointers :: "'b net_switch \<Rightarrow> pointers" where
  "sw_pointers sw = (sw_in sw, sw_out sw, map nt_in (m_throttles sw), map nt_out (m_throttles sw))"

definition sw_wiring :: "'b net_switch \<Rightarrow> pointers \<times> net_dest list" where
  "sw_wiring sw = (sw_pointers sw, m_routing_table (sw_perfect sw))"

definition produced :: "pointers \<Rightarrow> nat list" where
  "produced = (\<lambda>(ins, outs, tins, touts). concat outs @ concat touts)"

definition pointers_ok :: "nat \<Rightarrow> nat \<Rightarrow> pointers \<Rightarrow> bool" where
  "pointers_ok V N = (\<lambda>(ins, outs, tins, touts). tins = outs \<and> length touts = length outs \<and>
     (\<forall>row\<in>set ins \<union> set outs \<union> set touts. length row = V \<and> set row \<subseteq> {..<N}) \<and>
     distinct (concat ins @ concat outs) \<and> distinct (concat outs @ concat touts))"

definition net_shape :: "nat \<Rightarrow> nat \<Rightarrow> pointers list \<Rightarrow> bool" where
  "net_shape V N ptrs \<longleftrightarrow> (\<forall>p\<in>set ptrs. pointers_ok V N p) \<and> distinct (concat (map produced ptrs))"

definition link_routed :: "'b node_buffer list \<Rightarrow> net_dest \<Rightarrow> nat list \<Rightarrow> bool" where
  "link_routed st entry as \<longleftrightarrow> (\<forall>a\<in>set as. \<forall>m\<in>#buffer_payloads (st ! a). nd_elems (getInternalDestination m) \<subseteq> nd_elems entry)"

definition sw_ok :: "throttle_env \<Rightarrow> nat list \<Rightarrow> nat \<Rightarrow> 'b node_buffer list \<Rightarrow> (net_consumer, 's) sim \<Rightarrow> 'b net_switch \<Rightarrow> bool" where
  "sw_ok env counts V st s sw \<longleftrightarrow> m_virtual_networks (sw_perfect sw) = V \<and>
     switch_ok (switch_env.truncate env) counts (load_switch st sw) s \<and>
     (m_round_robin_start (sw_perfect sw) < length (sw_in sw) \<or> sw_in sw = []) \<and>
     (\<forall>l<length (m_throttles sw). throttle_ok env counts (load_throttle st (m_throttles sw ! l)) s \<and>
        m_vnets (nt_throttle (m_throttles sw ! l)) = V \<and>
        link_routed st (m_routing_table (sw_perfect sw) ! l) (nt_out (m_throttles sw ! l)))"

definition net_ok :: "throttle_env \<Rightarrow> nat list \<Rightarrow> 'b simple_network \<Rightarrow> (net_consumer, 's) sim \<Rightarrow> bool" where
  "net_ok env counts n s \<longleftrightarrow> queue_ok s \<and>
     net_shape (sn_virtual_networks n) (length (buffers n)) (map sw_pointers (m_switch_ptr_vector n)) \<and>
     (\<forall>b\<in>set (buffers n). net_buffer_ok counts b) \<and>
     (\<forall>sw\<in>set (m_switch_ptr_vector n). sw_ok env counts (sn_virtual_networks n) (buffers n) s sw)"

definition net_env_ok :: "throttle_env \<Rightarrow> bool" where
  "net_env_ok env \<longleftrightarrow> throttle_env_ok env \<and> env_ok (switch_env.truncate env)"

text \<open>What there is to deliver in the whole network.\<close>

definition net_deliveries :: "'b simple_network \<Rightarrow> ('b \<times> machine_id) multiset" where
  "net_deliveries n = (\<Sum>b\<leftarrow>buffers n. buffer_deliveries b)"

section \<open>Frame\<close>

text \<open>A change of the store that is consistent with being a consumer of every buffer outside \<open>P\<close>.\<close>

definition store_step :: "nat list \<Rightarrow> nat set \<Rightarrow> 'b node_buffer list \<Rightarrow> 'b node_buffer list \<Rightarrow> bool" where
  "store_step counts P st st' \<longleftrightarrow> length st' = length st \<and> (\<forall>b\<in>set st'. net_buffer_ok counts b) \<and>
     (\<forall>a<length st. a \<notin> P \<longrightarrow> drained (st ! a) (st' ! a))"

lemma link_buffer_mono:
  "\<lbrakk> link_buffer_ok R t counts b; t \<le> t' \<rbrakk> \<Longrightarrow> link_buffer_ok R t' counts b"
  by (auto simp: link_buffer_ok_def)

lemma store_step_link:
  assumes "store_step counts P st st'" "a < length st" "a \<notin> P" "link_buffer_ok R t counts (st ! a)" "t \<le> t'"
  shows "link_buffer_ok R t' counts (st' ! a)"
proof -
  have "net_buffer_ok counts (st' ! a)" "drained (st ! a) (st' ! a)"
    using assms(1-3) unfolding store_step_def by auto
  then show ?thesis using drained_link [OF _ assms(4)] link_buffer_mono [OF _ assms(5)] by blast
qed

lemma store_step_routed:
  assumes "store_step counts P st st'" "link_routed st entry as" "set as \<subseteq> {..<length st}" "set as \<inter> P = {}"
  shows "link_routed st' entry as"
  unfolding link_routed_def
proof (intro ballI)
  fix a m assume a: "a \<in> set as" "m \<in># buffer_payloads (st' ! a)"
  then have "drained (st ! a) (st' ! a)" using assms(1,3,4) unfolding store_step_def by blast
  then have "m \<in># buffer_payloads (st ! a)" using a(2) by (auto simp: drained_def dest: mset_subset_eqD)
  then show "nd_elems (getInternalDestination m) \<subseteq> nd_elems entry" using assms(2) a(1) unfolding link_routed_def by blast
qed

lemma links_routed_load:
  "links_routed table (map (load st) rows) \<longleftrightarrow> (\<forall>l<length rows. link_routed st (table ! l) (rows ! l))"
  by (auto simp: links_routed_def link_routed_def load_def)

lemma rows_ok_load: "rows_ok Q V (map (load st) rows) \<longleftrightarrow> (\<forall>row\<in>set rows. length row = V \<and> (\<forall>a\<in>set row. Q (st ! a)))"
  by (auto simp: rows_ok_def load_def)

lemma switch_ok_frame:
  assumes "switch_ok env counts (load_switch st sw) s" "store_step counts P st st'"
    "set (concat (sw_in sw) @ concat (sw_out sw)) \<subseteq> {..<length st}" "set (concat (sw_out sw)) \<inter> P = {}"
    "queue_ok s'" "m_globalTime s \<le> m_globalTime s'"
  shows "switch_ok env counts (load_switch st' sw) s'"
proof -
  let ?V = "m_virtual_networks (sw_perfect sw)"
  have addr: "a < length st" if "row \<in> set (sw_in sw) \<union> set (sw_out sw)" "a \<in> set row" for row a
    using assms(3) that by auto
  have notP: "a \<notin> P" if "row \<in> set (sw_out sw)" "a \<in> set row" for row a using assms(4) that by auto
  have "rows_ok (net_buffer_ok counts) ?V (map (load st) (sw_in sw))" using assms(1) by (simp add: switch_ok_def load_switch_def)
  then have ins: "rows_ok (net_buffer_ok counts) ?V (map (load st') (sw_in sw))"
    using assms(2) addr unfolding rows_ok_load store_step_def by (metis UnI1 nth_mem)
  have out: "rows_ok (link_buffer_ok (env_RANDOMIZATION env) (m_globalTime s + 1) counts) ?V (map (load st) (sw_out sw))"
    using assms(1) by (simp add: switch_ok_def load_switch_def)
  have outs: "rows_ok (link_buffer_ok (env_RANDOMIZATION env) (m_globalTime s' + 1) counts) ?V (map (load st') (sw_out sw))"
    unfolding rows_ok_load
  proof (intro ballI conjI)
    fix row assume row: "row \<in> set (sw_out sw)"
    show "length row = ?V" using out row unfolding rows_ok_load by blast
    fix a assume a: "a \<in> set row"
    have link: "link_buffer_ok (env_RANDOMIZATION env) (m_globalTime s + 1) counts (st ! a)"
      using out row a unfolding rows_ok_load by blast
    have "a < length st" using addr row a by blast
    then show "link_buffer_ok (env_RANDOMIZATION env) (m_globalTime s' + 1) counts (st' ! a)"
      using store_step_link [OF assms(2) _ notP [OF row a] link] assms(6) by simp
  qed
  have "link_routed st' (m_routing_table (sw_perfect sw) ! l) (sw_out sw ! l)" if l: "l < length (sw_out sw)" for l
  proof (rule store_step_routed [OF assms(2)])
    show "link_routed st (m_routing_table (sw_perfect sw) ! l) (sw_out sw ! l)"
      using assms(1) l by (simp add: switch_ok_def load_switch_def links_routed_load)
    show "set (sw_out sw ! l) \<subseteq> {..<length st}" "set (sw_out sw ! l) \<inter> P = {}" using addr notP nth_mem [OF l] by blast+
  qed
  then have "links_routed (m_routing_table (sw_perfect sw)) (map (load st') (sw_out sw))" by (simp add: links_routed_load)
  then show ?thesis using assms(1,5) ins outs by (simp add: switch_ok_def load_switch_def)
qed

lemma throttle_ok_frame:
  assumes "throttle_ok env counts (load_throttle st t) s" "store_step counts P st st'"
    "set (nt_in t @ nt_out t) \<subseteq> {..<length st}" "set (nt_out t) \<inter> P = {}" "queue_ok s'" "m_globalTime s \<le> m_globalTime s'"
  shows "throttle_ok env counts (load_throttle st' t) s'"
proof -
  let ?L = "m_link_latency (nt_throttle t)"
  have "net_buffer_ok counts (st' ! a)" if "a \<in> set (nt_in t)" for a
    using assms(2,3) that unfolding store_step_def by auto
  moreover have "link_buffer_ok (env_RANDOMIZATION env) (m_globalTime s' + ?L) counts (st' ! a)" if a: "a \<in> set (nt_out t)" for a
  proof (rule store_step_link [OF assms(2)])
    show "link_buffer_ok (env_RANDOMIZATION env) (m_globalTime s + ?L) counts (st ! a)"
      using assms(1) a by (auto simp: throttle_ok_def load_throttle_def load_def)
    show "a < length st" "a \<notin> P" using assms(3,4) a by auto
  qed (use assms(6) in simp)
  ultimately show ?thesis
    using assms(1,5) by (auto simp: throttle_ok_def load_throttle_def load_def getLinkBandwidth_def)
qed

lemma distinct_concat_disjoint:
  assumes "distinct (concat xs)" "i < length xs" "j < length xs" "i \<noteq> j"
  shows "set (xs ! i) \<inter> set (xs ! j) = {}"
  using assms
proof (induction xs arbitrary: i j)
  case (Cons x xs)
  have in_tail: "set (xs ! k) \<subseteq> set (concat xs)" if "k < length xs" for k using nth_mem [OF that] by auto
  show ?case
  proof (cases i; cases j)
    fix k l assume "i = Suc k" "j = Suc l"
    then show ?thesis using Cons by simp
  qed (use Cons.prems in_tail in \<open>fastforce+\<close>)
qed simp

lemma pointers_ok_facts:
  assumes "pointers_ok V N (sw_pointers sw)"
  shows "distinct (concat (sw_in sw) @ concat (sw_out sw))" "set (concat (sw_in sw) @ concat (sw_out sw)) \<subseteq> {..<N}"
    "distinct (concat (sw_out sw) @ concat (map nt_out (m_throttles sw)))" "length (m_throttles sw) = length (sw_out sw)"
    "\<forall>row\<in>set (sw_in sw) \<union> set (sw_out sw). length row = V"
  using assms unfolding pointers_ok_def sw_pointers_def by auto

lemma pointers_ok_throttle:
  assumes "pointers_ok V N (sw_pointers sw)" "l < length (m_throttles sw)"
  shows "nt_in (m_throttles sw ! l) = sw_out sw ! l" "l < length (sw_out sw)"
    "distinct (nt_in (m_throttles sw ! l) @ nt_out (m_throttles sw ! l))"
    "set (nt_in (m_throttles sw ! l) @ nt_out (m_throttles sw ! l)) \<subseteq> {..<N}"
    "length (nt_in (m_throttles sw ! l)) = V" "length (nt_out (m_throttles sw ! l)) = V"
    "set (nt_out (m_throttles sw ! l)) \<subseteq> set (produced (sw_pointers sw))"
    "set (nt_out (m_throttles sw ! l)) \<inter> set (concat (sw_out sw)) = {}"
    "\<lbrakk> j < length (m_throttles sw); j \<noteq> l \<rbrakk> \<Longrightarrow> set (nt_out (m_throttles sw ! j)) \<inter> set (nt_out (m_throttles sw ! l)) = {}"
proof -
  let ?t = "m_throttles sw ! l" and ?touts = "map nt_out (m_throttles sw)"
  have p: "map nt_in (m_throttles sw) = sw_out sw" "length (m_throttles sw) = length (sw_out sw)"
    "\<forall>row\<in>set (sw_out sw) \<union> set ?touts. length row = V \<and> set row \<subseteq> {..<N}"
    "distinct (concat (sw_out sw) @ concat ?touts)"
    using assms(1) unfolding pointers_ok_def sw_pointers_def by auto
  show "nt_in ?t = sw_out sw ! l" using p(1) assms(2) by (metis nth_map)
  show l: "l < length (sw_out sw)" using p(2) assms(2) by simp
  have rows: "sw_out sw ! l \<in> set (sw_out sw)" "nt_out ?t \<in> set ?touts" "?touts ! l = nt_out ?t"
    using l assms(2) by simp_all
  have t_in: "nt_in ?t \<in> set (sw_out sw)" using rows(1) \<open>nt_in ?t = sw_out sw ! l\<close> by simp
  show "set (nt_in ?t @ nt_out ?t) \<subseteq> {..<N}" "length (nt_in ?t) = V" "length (nt_out ?t) = V" using p(3) rows(2) t_in by auto
  show "set (nt_out ?t) \<subseteq> set (produced (sw_pointers sw))" using rows(2) by (auto simp: produced_def sw_pointers_def)
  have d: "distinct (concat (sw_out sw))" "distinct (concat ?touts)" "set (concat (sw_out sw)) \<inter> set (concat ?touts) = {}"
    using p(4) by simp_all
  show out: "set (nt_out ?t) \<inter> set (concat (sw_out sw)) = {}"
  proof -
    have "set (nt_out ?t) \<subseteq> set (concat ?touts)" unfolding set_concat using rows(2) by (rule UN_upper)
    then show ?thesis using d(3) by (simp only: Int_commute) blast
  qed
  have "distinct (nt_in ?t)" "distinct (nt_out ?t)" using d(1,2) t_in rows(2) by (auto simp: distinct_concat_iff)
  then show "distinct (nt_in ?t @ nt_out ?t)" using out t_in by auto
  show "set (nt_out (m_throttles sw ! j)) \<inter> set (nt_out ?t) = {}" if "j < length (m_throttles sw)" "j \<noteq> l"
    using distinct_concat_disjoint [OF d(2), of j l] that assms(2) by simp
qed

lemma sw_ok_frame:
  assumes "sw_ok env counts V st s sw" "store_step counts P st st'" "pointers_ok V (length st) (sw_pointers sw)"
    "set (produced (sw_pointers sw)) \<inter> P = {}" "queue_ok s'" "m_globalTime s \<le> m_globalTime s'"
  shows "sw_ok env counts V st' s' sw"
proof -
  note p = pointers_ok_facts [OF assms(3)]
  have outs: "set (concat (sw_out sw)) \<inter> P = {}" using assms(4) by (auto simp: produced_def sw_pointers_def)
  have "switch_ok (switch_env.truncate env) counts (load_switch st' sw) s'"
    using switch_ok_frame [OF _ assms(2) p(2) outs assms(5,6)] assms(1) by (simp add: sw_ok_def)
  moreover have "throttle_ok env counts (load_throttle st' (m_throttles sw ! l)) s' \<and>
      link_routed st' (m_routing_table (sw_perfect sw) ! l) (nt_out (m_throttles sw ! l))" if l: "l < length (m_throttles sw)" for l
  proof -
    note t = pointers_ok_throttle [OF assms(3) l]
    have nP: "set (nt_out (m_throttles sw ! l)) \<inter> P = {}" using t(7) assms(4) by blast
    show ?thesis
      using throttle_ok_frame [OF _ assms(2) t(4) nP assms(5,6)] store_step_routed [OF assms(2) _ _ nP] t(4) assms(1) l
      by (simp add: sw_ok_def)
  qed
  ultimately show ?thesis using assms(1) by (simp add: sw_ok_def)
qed

text \<open>A step of the switch \<open>i\<close>, or of one of its throttles, keeps the invariant of the network.\<close>

lemma net_ok_update:
  assumes "net_ok env counts n s" "i < length (m_switch_ptr_vector n)" "store_step counts P (buffers n) st'"
    "P \<subseteq> set (produced (sw_pointers (m_switch_ptr_vector n ! i)))" "queue_ok s'" "m_globalTime s \<le> m_globalTime s'"
    "sw_pointers sw' = sw_pointers (m_switch_ptr_vector n ! i)" "sw_ok env counts (sn_virtual_networks n) st' s' sw'"
  shows "net_ok env counts (n\<lparr>buffers := st', m_switch_ptr_vector := (m_switch_ptr_vector n)[i := sw']\<rparr>) s'"
proof -
  let ?sws = "m_switch_ptr_vector n" and ?V = "sn_virtual_networks n"
  have shape: "net_shape ?V (length (buffers n)) (map sw_pointers ?sws)" using assms(1) by (simp add: net_ok_def)
  have "map sw_pointers (?sws[i := sw']) = map sw_pointers ?sws"
    using assms(2,7) by (simp add: map_update list_update_same_conv)
  moreover have "length st' = length (buffers n)" "\<forall>b\<in>set st'. net_buffer_ok counts b"
    using assms(3) by (simp_all add: store_step_def)
  moreover have "sw_ok env counts ?V st' s' sw" if h: "sw \<in> set (?sws[i := sw'])" for sw
  proof -
    obtain j where j: "j < length ?sws" "sw = ?sws[i := sw'] ! j"
      using h unfolding in_set_conv_nth length_list_update by blast
    show ?thesis
    proof (cases "j = i")
      case True
      then show ?thesis using assms(2,8) j(2) by simp
    next
      case False
      then have sw: "sw = ?sws ! j" "sw \<in> set ?sws" using j by auto
      have "set (produced (sw_pointers (?sws ! j))) \<inter> set (produced (sw_pointers (?sws ! i))) = {}"
        using distinct_concat_disjoint [of "map produced (map sw_pointers ?sws)" j i] shape j(1) assms(2) False
        by (simp add: net_shape_def)
      then have "set (produced (sw_pointers sw)) \<inter> P = {}" using assms(4) sw(1) by blast
      moreover have "pointers_ok ?V (length (buffers n)) (sw_pointers sw)" "sw_ok env counts ?V (buffers n) s sw"
        using shape assms(1) sw(2) by (simp_all add: net_shape_def net_ok_def)
      ultimately show ?thesis using sw_ok_frame [OF _ assms(3) _ _ assms(5,6)] by blast
    qed
  qed
  ultimately show ?thesis using shape assms(5) by (simp add: net_ok_def)
qed

section \<open>The wakeups\<close>

lemma truncate_env [simp]:
  "env_RANDOMIZATION (switch_env.truncate env) = env_RANDOMIZATION env"
  "env_random_time (switch_env.truncate env) = env_random_time env"
  by (simp_all add: switch_env.truncate_def)

lemma vnet_env_ok:
  "env_ok (vnet_env env n) = env_ok (switch_env.truncate env)"
  "switch_ok (vnet_env env n) counts ps s = switch_ok (switch_env.truncate env) counts ps s"
  by (simp_all add: env_ok_def switch_ok_def vnet_env_def switch_env.truncate_def)

lemma rows_ok_lengths: "rows_ok Q V rows \<Longrightarrow> map length rows = replicate (length rows) V"
  by (auto simp: rows_ok_def map_replicate_const list_eq_iff_nth_eq)

lemma lengths_const: "\<forall>row\<in>set rows. length row = V \<Longrightarrow> map length rows = replicate (length rows) V"
  by (auto simp: list_eq_iff_nth_eq)

lemma in_rows:
  assumes "a \<in> set (concat rows)"
  obtains r c where "r < length rows" "c < length (rows ! r)" "rows ! r ! c = a"
  using assms by (auto simp: in_set_conv_nth)

lemma row_deliveries_concat: "row_deliveries rows = (\<Sum>b\<leftarrow>concat rows. buffer_deliveries b)"
  by (induction rows) (simp_all add: row_deliveries_def)

text \<open>A switch that has worked: what its wakeup does to the store.\<close>

lemma save_worked:
  assumes "sw_ok env counts V st s sw" "pointers_ok V (length st) (sw_pointers sw)" "\<forall>b\<in>set st. net_buffer_ok counts b"
    "worked (vnet_env env n) counts vs (load_switch st sw, s) (ps, s')" "save_switch ps (st, sw) = (st', sw')"
  shows "store_step counts (set (concat (sw_out sw))) st st'" "load_switch st' sw' = ps" "sw_pointers sw' = sw_pointers sw"
    "(\<Sum>b\<leftarrow>st'. buffer_deliveries b) = (\<Sum>b\<leftarrow>st. buffer_deliveries b)" "sw' = sw\<lparr>sw_perfect := ps\<lparr>m_in := [], m_out := []\<rparr>\<rparr>"
proof -
  note p = pointers_ok_facts [OF assms(2)] and w = assms(4) [unfolded worked_def prod.case]
  let ?as = "concat (sw_in sw) @ concat (sw_out sw)"
  have ok: "switch_ok (switch_env.truncate env) counts ps s'" using w by (simp add: vnet_env_ok)
  have "m_virtual_networks ps = V" using w assms(1) by (simp add: sw_ok_def load_switch_def)
  then have rows: "rows_ok (net_buffer_ok counts) V (m_in ps)"
      "rows_ok (link_buffer_ok (env_RANDOMIZATION env) (m_globalTime s' + 1) counts) V (m_out ps)"
    using ok by (simp_all add: switch_ok_def)
  have "length (m_in ps) = length (sw_in sw)" using w by (simp add: load_switch_def)
  moreover have "length (m_out ps) = length (m_routing_table ps)" using ok by (simp add: switch_ok_def)
  then have "length (m_out ps) = length (sw_out sw)"
    using w assms(1) by (simp add: sw_ok_def switch_ok_def load_switch_def)
  moreover have "map length (sw_in sw) = replicate (length (sw_in sw)) V" "map length (sw_out sw) = replicate (length (sw_out sw)) V"
    by (rule lengths_const; use p(5) in blast)+
  ultimately have len: "map length (m_in ps) = map length (sw_in sw)" "map length (m_out ps) = map length (sw_out sw)"
    using rows_ok_lengths [OF rows(1)] rows_ok_lengths [OF rows(2)] by simp_all
  note sv = load_save_switch [OF p(1,2) len assms(5)]
  show "load_switch st' sw' = ps" "sw' = sw\<lparr>sw_perfect := ps\<lparr>m_in := [], m_out := []\<rparr>\<rparr>" by (rule sv)+
  have st': "map (load st') (sw_in sw) = m_in ps" "map (load st') (sw_out sw) = m_out ps"
    using arg_cong [OF sv(1), of m_in] arg_cong [OF sv(1), of m_out] sv(2) by (simp_all add: load_switch_def)
  show "sw_pointers sw' = sw_pointers sw" using sv(2) by (simp add: sw_pointers_def)
  have ins: "net_buffer_ok counts (st' ! a)" if "a \<in> set (concat (sw_in sw))" for a
    using rows(1) that unfolding st'(1) [symmetric] rows_ok_load by auto
  have outs: "net_buffer_ok counts (st' ! a)" if "a \<in> set (concat (sw_out sw))" for a
    using rows(2) that unfolding st'(2) [symmetric] rows_ok_load link_buffer_ok_def by auto
  have "net_buffer_ok counts (st' ! a)" if "a < length st" for a
    using ins [of a] outs [of a] sv(4) [of a] assms(3) that by (cases "a \<in> set ?as") auto
  moreover have "drained (st ! a) (st' ! a)" if "a < length st" "a \<notin> set (concat (sw_out sw))" for a
  proof (cases "a \<in> set (concat (sw_in sw))")
    case True
    then obtain r c where rc: "r < length (sw_in sw)" "c < length (sw_in sw ! r)" "sw_in sw ! r ! c = a" by (rule in_rows)
    have "drained (m_in (load_switch st sw) ! r ! c) (m_in ps ! r ! c)" using w by blast
    then show ?thesis using rc by (simp add: load_switch_def st'(1) [symmetric] load_def)
  next
    case False
    then show ?thesis using sv(4) [of a] that(2) by simp
  qed
  ultimately show "store_step counts (set (concat (sw_out sw))) st st'"
    using sv(3) unfolding store_step_def by (metis in_set_conv_nth)
  have wr: "st' = write_all ?as (concat (m_in ps) @ concat (m_out ps)) st" using assms(5) by (simp add: save_switch_def)
  have "length (concat (m_in ps) @ concat (m_out ps)) = length ?as" using len by (simp add: length_concat)
  from sum_write_all [OF p(1,2) this, of buffer_deliveries] w
  have "(\<Sum>b\<leftarrow>st'. buffer_deliveries b) + deliveries (load_switch st sw) = (\<Sum>b\<leftarrow>st. buffer_deliveries b) + deliveries ps"
    unfolding wr by (simp add: deliveries_def row_deliveries_concat load_switch_def concat_load)
  then show "(\<Sum>b\<leftarrow>st'. buffer_deliveries b) = (\<Sum>b\<leftarrow>st. buffer_deliveries b)" using w by simp
qed

lemma net_switch_wakeup_law:
  assumes "net_env_ok env" "net_ok env counts n s" "i < length (m_switch_ptr_vector n)"
  shows "\<exists>n' s' k'. net_switch_wakeup env i (n, s, k) = Some (n', s', k') \<and> net_ok env counts n' s' \<and> scheduled s s' \<and>
    net_deliveries n' = net_deliveries n \<and>
    n' = n\<lparr>buffers := buffers n', m_switch_ptr_vector := m_switch_ptr_vector n'\<rparr> \<and>
    map sw_wiring (m_switch_ptr_vector n') = map sw_wiring (m_switch_ptr_vector n) \<and> length (buffers n') = length (buffers n)"
proof -
  let ?sw = "m_switch_ptr_vector n ! i" and ?st = "buffers n" and ?V = "sn_virtual_networks n"
  have sw: "sw_ok env counts ?V ?st s ?sw" "pointers_ok ?V (length ?st) (sw_pointers ?sw)" "\<forall>b\<in>set ?st. net_buffer_ok counts b"
    using assms(2,3) by (simp_all add: net_ok_def net_shape_def)
  have "env_ok (vnet_env env n)" using assms(1) by (simp add: net_env_ok_def vnet_env_ok)
  moreover have "switch_ok (vnet_env env n) counts (load_switch ?st ?sw) s" using sw(1) by (simp add: sw_ok_def vnet_env_ok)
  moreover have "m_round_robin_start (load_switch ?st ?sw) < length (m_in (load_switch ?st ?sw)) \<or> m_in (load_switch ?st ?sw) = []"
    using sw(1) by (simp add: sw_ok_def load_switch_def)
  ultimately obtain ps s' k' where w: "switch_wakeup (vnet_env env n) (load_switch ?st ?sw, s, k) = Some (ps, s', k')"
      "worked (vnet_env env n) counts {..<m_virtual_networks (load_switch ?st ?sw)} (load_switch ?st ?sw, s) (ps, s')"
    using switch_wakeup_law by blast
  obtain st' sw' where save: "save_switch ps (?st, ?sw) = (st', sw')" by fastforce
  note sv = save_worked [OF sw w(2) save] and wd = w(2) [unfolded worked_def prod.case]
  have time: "queue_ok s'" "m_globalTime s \<le> m_globalTime s'" "scheduled s s'"
    using wd by (auto simp: switch_ok_def scheduled_def)
  have "sw_ok env counts ?V st' s' sw'"
    unfolding sw_ok_def
  proof (intro conjI allI impI)
    show "switch_ok (switch_env.truncate env) counts (load_switch st' sw') s'" using wd sv(2) by (simp add: vnet_env_ok)
    show "m_virtual_networks (sw_perfect sw') = ?V" using sv(5) wd sw(1) by (simp add: sw_ok_def load_switch_def)
    show "m_round_robin_start (sw_perfect sw') < length (sw_in sw') \<or> sw_in sw' = []"
      using sv(5) wd sw(1) by (auto simp: sw_ok_def load_switch_def)
    fix l assume l: "l < length (m_throttles sw')"
    then have l': "l < length (m_throttles ?sw)" "m_throttles sw' = m_throttles ?sw" using sv(5) by simp_all
    note t = pointers_ok_throttle [OF sw(2) l'(1)]
    have "throttle_ok env counts (load_throttle ?st (m_throttles ?sw ! l)) s" "m_vnets (nt_throttle (m_throttles ?sw ! l)) = ?V"
        "link_routed ?st (m_routing_table (sw_perfect ?sw) ! l) (nt_out (m_throttles ?sw ! l))"
      using sw(1) l'(1) by (simp_all add: sw_ok_def)
    moreover have "m_routing_table (sw_perfect sw') = m_routing_table (sw_perfect ?sw)" using sv(5) wd by (simp add: load_switch_def)
    ultimately show "throttle_ok env counts (load_throttle st' (m_throttles sw' ! l)) s'" "m_vnets (nt_throttle (m_throttles sw' ! l)) = ?V"
      "link_routed st' (m_routing_table (sw_perfect sw') ! l) (nt_out (m_throttles sw' ! l))"
      using throttle_ok_frame [OF _ sv(1) t(4,8) time(1,2)] store_step_routed [OF sv(1) _ _ t(8)] t(4) l'(2) by simp_all
  qed
  then have "net_ok env counts (n\<lparr>buffers := st', m_switch_ptr_vector := (m_switch_ptr_vector n)[i := sw']\<rparr>) s'"
    by (intro net_ok_update [OF assms(2,3) sv(1) _ time(1,2) sv(3)]) (auto simp: produced_def sw_pointers_def)
  moreover have "net_switch_wakeup env i (n, s, k) =
      Some (n\<lparr>buffers := st', m_switch_ptr_vector := (m_switch_ptr_vector n)[i := sw']\<rparr>, s', k')"
    using assms(3) w(1) save by (simp add: net_switch_wakeup_def)
  moreover have "m_routing_table (sw_perfect sw') = m_routing_table (sw_perfect ?sw)" using sv(5) wd by (simp add: load_switch_def)
  then have "map sw_wiring ((m_switch_ptr_vector n)[i := sw']) = map sw_wiring (m_switch_ptr_vector n)"
    using assms(3) sv(3) by (simp add: map_update list_update_same_conv sw_wiring_def)
  moreover have "length st' = length ?st" using sv(1) by (simp add: store_step_def)
  ultimately show ?thesis using time(3) sv(4) by (simp add: net_deliveries_def)
qed

lemma buffer_deliveries_payloads: "buffer_deliveries b = (\<Sum>m\<in>#buffer_payloads b. msg_deliveries m)"
  by (simp add: buffer_deliveries_def buffer_payloads_def image_mset.compositionality comp_def)

lemma sum_list_nth_cong:
  fixes f :: "'a \<Rightarrow> 'm::comm_monoid_add"
  assumes "length xs = length xs'" "length ys = length xs" "length ys' = length xs"
    "\<And>v. v < length xs \<Longrightarrow> f (xs ! v) + f (ys ! v) = f (xs' ! v) + f (ys' ! v)"
  shows "(\<Sum>x\<leftarrow>xs. f x) + (\<Sum>y\<leftarrow>ys. f y) = (\<Sum>x\<leftarrow>xs'. f x) + (\<Sum>y\<leftarrow>ys'. f y)"
proof -
  have "(\<Sum>x\<leftarrow>xs. f x) + (\<Sum>y\<leftarrow>ys. f y) = (\<Sum>v<length xs. f (xs ! v) + f (ys ! v))"
    using assms(2) by (simp add: sum_list_sum_nth atLeast0LessThan sum.distrib)
  also have "\<dots> = (\<Sum>v<length xs. f (xs' ! v) + f (ys' ! v))" using assms(4) by (intro sum.cong) auto
  also have "\<dots> = (\<Sum>x\<leftarrow>xs'. f x) + (\<Sum>y\<leftarrow>ys'. f y)"
    using assms(1,3) by (simp add: sum_list_sum_nth atLeast0LessThan sum.distrib)
  finally show ?thesis .
qed

text \<open>A throttle that has worked: what its wakeup does to the store.\<close>

lemma save_throttled:
  assumes "throttle_ok env counts (load_throttle st t) s" "distinct (nt_in t @ nt_out t)" "set (nt_in t @ nt_out t) \<subseteq> {..<length st}"
    "\<forall>b\<in>set st. net_buffer_ok counts b"
    "throttled env counts vs (bw, load_throttle st t, s) (sched, bw', th, s')" "save_throttle th (st, t) = (st', t')"
  shows "store_step counts (set (nt_out t)) st st'" "load_throttle st' t' = th" "nt_in t' = nt_in t" "nt_out t' = nt_out t"
    "(\<Sum>b\<leftarrow>st'. buffer_deliveries b) = (\<Sum>b\<leftarrow>st. buffer_deliveries b)"
    "\<lbrakk> link_routed st entry (nt_in t); link_routed st entry (nt_out t) \<rbrakk> \<Longrightarrow> link_routed st' entry (nt_out t)"
    "m_vnets (nt_throttle t') = m_vnets (nt_throttle t)"
proof -
  note w = assms(5) [unfolded throttled_def prod.case]
  let ?th = "load_throttle st t"
  have ok: "throttle_ok env counts th s'" "m_vnets th = m_vnets ?th" using w by blast+
  have len: "length (th_in th) = length (nt_in t)" "length (th_out th) = length (nt_out t)" "length (nt_out t) = length (nt_in t)"
    using ok assms(1) by (simp_all add: throttle_ok_def load_throttle_def)
  note sv = load_save_throttle [OF assms(2,3) len(1,2) assms(6)]
  show "load_throttle st' t' = th" by (rule sv)
  show ptr: "nt_in t' = nt_in t" "nt_out t' = nt_out t" "m_vnets (nt_throttle t') = m_vnets (nt_throttle t)"
    using sv(2) ok(2) by (simp_all add: load_throttle_def)
  have st': "load st' (nt_in t) = th_in th" "load st' (nt_out t) = th_out th"
    using arg_cong [OF sv(1), of th_in] arg_cong [OF sv(1), of th_out] ptr by (simp_all add: load_throttle_def)
  have nth: "st' ! (nt_in t ! v) = th_in th ! v" "st' ! (nt_out t ! v) = th_out th ! v" "st ! (nt_in t ! v) = th_in ?th ! v"
    "st ! (nt_out t ! v) = th_out ?th ! v" if "v < length (nt_in t)" for v
    using that len(3) by (simp_all add: st' [symmetric] load_def load_throttle_def)
  have ins: "net_buffer_ok counts (st' ! a)" if "a \<in> set (nt_in t)" for a
  proof -
    have "st' ! a \<in> set (th_in th)" using that by (simp add: st'(1) [symmetric] load_def)
    then show ?thesis using ok(1) by (simp add: throttle_ok_def)
  qed
  have outs: "net_buffer_ok counts (st' ! a)" if "a \<in> set (nt_out t)" for a
  proof -
    have "st' ! a \<in> set (th_out th)" using that by (simp add: st'(2) [symmetric] load_def)
    then show ?thesis using ok(1) by (simp add: throttle_ok_def link_buffer_ok_def)
  qed
  have "net_buffer_ok counts (st' ! a)" if "a < length st" for a
    using ins [of a] outs [of a] sv(4) [of a] assms(4) that by (cases "a \<in> set (nt_in t @ nt_out t)") auto
  moreover have "drained (st ! a) (st' ! a)" if "a \<notin> set (nt_out t)" for a
  proof (cases "a \<in> set (nt_in t)")
    case True
    then obtain v where v: "v < length (nt_in t)" "nt_in t ! v = a" by (auto simp: in_set_conv_nth)
    have "drained (th_in ?th ! v) (th_in th ! v)" using w by blast
    then show ?thesis using nth [OF v(1)] v(2) by simp
  next
    case False
    then show ?thesis using sv(4) [of a] that by simp
  qed
  ultimately show "store_step counts (set (nt_out t)) st st'" using sv(3) unfolding store_step_def by (metis in_set_conv_nth)
  have pay: "buffer_payloads (th_in th ! v) + buffer_payloads (th_out th ! v) =
      buffer_payloads (th_in ?th ! v) + buffer_payloads (th_out ?th ! v)" for v using w by (simp add: vnet_payloads_def)
  have "buffer_deliveries (th_in th ! v) + buffer_deliveries (th_out th ! v) =
      buffer_deliveries (th_in ?th ! v) + buffer_deliveries (th_out ?th ! v)" for v
    using arg_cong [OF pay [of v], of "\<lambda>M. \<Sum>m\<in>#M. msg_deliveries m"] by (simp add: buffer_deliveries_payloads)
  then have "(\<Sum>b\<leftarrow>th_in th. buffer_deliveries b) + (\<Sum>b\<leftarrow>th_out th. buffer_deliveries b) =
      (\<Sum>b\<leftarrow>th_in ?th. buffer_deliveries b) + (\<Sum>b\<leftarrow>th_out ?th. buffer_deliveries b)"
    by (intro sum_list_nth_cong) (use len in \<open>simp_all add: load_throttle_def\<close>)
  moreover have "st' = write_all (nt_in t @ nt_out t) (th_in th @ th_out th) st" using assms(6) by (simp add: save_throttle_def)
  moreover have "length (th_in th @ th_out th) = length (nt_in t @ nt_out t)" using len by simp
  ultimately show "(\<Sum>b\<leftarrow>st'. buffer_deliveries b) = (\<Sum>b\<leftarrow>st. buffer_deliveries b)"
    using sum_write_all [OF assms(2,3), of "th_in th @ th_out th" buffer_deliveries] by (simp add: load_throttle_def)
  show "link_routed st' entry (nt_out t)" if routed: "link_routed st entry (nt_in t)" "link_routed st entry (nt_out t)"
    unfolding link_routed_def
  proof (intro ballI)
    fix a m assume a: "a \<in> set (nt_out t)" "m \<in># buffer_payloads (st' ! a)"
    then obtain v where v: "v < length (nt_in t)" "nt_out t ! v = a" using len(3) by (auto simp: in_set_conv_nth)
    then have "m \<in># buffer_payloads (st ! (nt_in t ! v)) + buffer_payloads (st ! (nt_out t ! v))"
      using a(2) nth [OF v(1)] pay [of v] by (metis union_iff)
    moreover have "nt_in t ! v \<in> set (nt_in t)" "nt_out t ! v \<in> set (nt_out t)" using v(1) len(3) by simp_all
    ultimately show "nd_elems (getInternalDestination m) \<subseteq> nd_elems entry"
      using routed unfolding link_routed_def by (metis union_iff)
  qed
qed

lemma net_throttle_wakeup_law:
  assumes "net_env_ok env" "net_ok env counts n s" "i < length (m_switch_ptr_vector n)"
    "l < length (m_throttles (m_switch_ptr_vector n ! i))"
  shows "\<exists>n' s' k'. net_throttle_wakeup env i l (n, s, k) = Some (n', s', k') \<and> net_ok env counts n' s' \<and> scheduled s s' \<and>
    net_deliveries n' = net_deliveries n \<and>
    n' = n\<lparr>buffers := buffers n', m_switch_ptr_vector := m_switch_ptr_vector n'\<rparr> \<and>
    map sw_wiring (m_switch_ptr_vector n') = map sw_wiring (m_switch_ptr_vector n) \<and> length (buffers n') = length (buffers n)"
proof -
  let ?sw = "m_switch_ptr_vector n ! i" and ?st = "buffers n" and ?V = "sn_virtual_networks n"
  let ?t = "m_throttles ?sw ! l" and ?entry = "\<lambda>j. m_routing_table (sw_perfect ?sw) ! j"
  have sw: "sw_ok env counts ?V ?st s ?sw" "pointers_ok ?V (length ?st) (sw_pointers ?sw)" "\<forall>b\<in>set ?st. net_buffer_ok counts b"
    using assms(2,3) by (simp_all add: net_ok_def net_shape_def)
  note p = pointers_ok_facts [OF sw(2)] and t = pointers_ok_throttle [OF sw(2) assms(4)]
  have ok: "throttle_ok env counts (load_throttle ?st ?t) s" "link_routed ?st (?entry l) (nt_out ?t)" "m_vnets (nt_throttle ?t) = ?V"
    using sw(1) assms(4) by (simp_all add: sw_ok_def)
  obtain th s' k' sched bw' where w: "throttle_wakeup env (load_throttle ?st ?t, s, k) = Some (th, s', k')"
      "throttled env counts {..<m_vnets (load_throttle ?st ?t)} (getLinkBandwidth env (load_throttle ?st ?t), load_throttle ?st ?t, s) (sched, bw', th, s')"
    using throttle_wakeup_law [OF _ ok(1), of k] assms(1) unfolding net_env_ok_def by blast
  obtain st' t' where save: "save_throttle th (?st, ?t) = (st', t')" by fastforce
  note sv = save_throttled [OF ok(1) t(3,4) sw(3) w(2) save] and wd = w(2) [unfolded throttled_def prod.case]
  define sw' where "sw' = ?sw\<lparr>m_throttles := (m_throttles ?sw)[l := t']\<rparr>"
  have time: "queue_ok s'" "m_globalTime s \<le> m_globalTime s'" "scheduled s s'" using wd by (auto simp: throttle_ok_def scheduled_def)
  have ptr: "sw_pointers sw' = sw_pointers ?sw"
    using sv(3,4) assms(4) by (simp add: sw_pointers_def sw'_def map_update list_update_same_conv)
  have routed: "link_routed ?st (?entry l) (nt_in ?t)"
    using sw(1) t(1,2) by (simp add: sw_ok_def switch_ok_def load_switch_def links_routed_load)
  have "switch_ok (switch_env.truncate env) counts (load_switch st' ?sw) s'"
    using switch_ok_frame [OF _ sv(1) p(2) _ time(1,2)] sw(1) t(8) by (simp add: sw_ok_def Int_commute)
  moreover have "throttle_ok env counts (load_throttle st' (m_throttles sw' ! j)) s' \<and> m_vnets (nt_throttle (m_throttles sw' ! j)) = ?V \<and>
      link_routed st' (?entry j) (nt_out (m_throttles sw' ! j))" if j: "j < length (m_throttles ?sw)" for j
  proof (cases "j = l")
    case True
    then show ?thesis using assms(4) sv(2,4,6,7) ok(2,3) routed wd by (simp add: sw'_def)
  next
    case False
    note tj = pointers_ok_throttle [OF sw(2) j]
    have "set (nt_out (m_throttles ?sw ! j)) \<inter> set (nt_out ?t) = {}" by (rule t(9) [OF j False])
    moreover have "throttle_ok env counts (load_throttle ?st (m_throttles ?sw ! j)) s" "m_vnets (nt_throttle (m_throttles ?sw ! j)) = ?V"
        "link_routed ?st (?entry j) (nt_out (m_throttles ?sw ! j))" using sw(1) j by (simp_all add: sw_ok_def)
    ultimately show ?thesis
      using throttle_ok_frame [OF _ sv(1) tj(4) _ time(1,2)] store_step_routed [OF sv(1)] tj(4) False by (simp add: sw'_def)
  qed
  ultimately have "sw_ok env counts ?V st' s' sw'"
    using sw(1) by (simp add: sw_ok_def sw'_def load_switch_def)
  then have "net_ok env counts (n\<lparr>buffers := st', m_switch_ptr_vector := (m_switch_ptr_vector n)[i := sw']\<rparr>) s'"
    by (intro net_ok_update [OF assms(2,3) sv(1) t(7) time(1,2) ptr])
  moreover have "net_throttle_wakeup env i l (n, s, k) =
      Some (n\<lparr>buffers := st', m_switch_ptr_vector := (m_switch_ptr_vector n)[i := sw']\<rparr>, s', k')"
    using assms(3,4) w(1) save by (simp add: net_throttle_wakeup_def sw'_def Let_def)
  moreover have "map sw_wiring ((m_switch_ptr_vector n)[i := sw']) = map sw_wiring (m_switch_ptr_vector n)"
    using assms(3) ptr by (simp add: map_update list_update_same_conv sw_wiring_def sw'_def)
  moreover have "length st' = length ?st" using sv(1) by (simp add: store_step_def)
  ultimately show ?thesis using time(3) sv(5) by (simp add: net_deliveries_def)
qed

section \<open>The network among its machines\<close>

text \<open>A machine sends by putting a message into one of its queues to the network, and receives by
  taking the first message out of one of its queues from it.  The number of a machine is that of its queues.\<close>

definition node_send ::
  "throttle_env \<Rightarrow> nat \<Rightarrow> nat \<Rightarrow> 'b network_message message \<Rightarrow> Time \<Rightarrow> 'b simple_network \<times> (net_consumer, 's) sim \<times> nat \<Rightarrow>
   ('b simple_network \<times> (net_consumer, 's) sim \<times> nat) option" where
  "node_send env node v msg delta = (\<lambda>(n, s, k). do {
     let a = m_toNetQueues n ! node ! v;
     (b, s) \<leftarrow> enqueue (env_RANDOMIZATION env) (env_random_time env k) (Some msg) delta (buffers n ! a) s;
     Some (n\<lparr>buffers := (buffers n)[a := b]\<rparr>, s, k + 1) })"

definition node_receive ::
  "nat \<Rightarrow> nat \<Rightarrow> 'b simple_network \<times> (net_consumer, 's) sim \<times> nat \<Rightarrow>
   ('b network_message \<times> 'b simple_network \<times> (net_consumer, 's) sim \<times> nat) option" where
  "node_receive node v = (\<lambda>(n, s, k). do {
     let a = m_fromNetQueues n ! node ! v;
     msg \<leftarrow> peekMsgPtr (m_globalTime s) (buffers n ! a);
     b \<leftarrow> pop (m_globalTime s) (buffers n ! a);
     Some (payload msg, n\<lparr>buffers := (buffers n)[a := b]\<rparr>, s, k) })"

definition machine_number :: "nat list \<Rightarrow> machine_id \<Rightarrow> nat" where
  "machine_number counts m = base_number counts (fst m) + snd m"

text \<open>All runs of a network, with what has been sent and what each machine has received.  Switches and throttles are
  woken in any order; between the steps the rest of the system may let time pass.\<close>

inductive net_run ::
  "throttle_env \<Rightarrow> nat list \<Rightarrow> 'b simple_network \<times> (net_consumer, 's) sim \<times> nat \<Rightarrow> ('b \<times> machine_id) multiset \<Rightarrow>
   (nat \<times> 'b \<times> machine_id) multiset \<Rightarrow> 'b simple_network \<times> (net_consumer, 's) sim \<times> nat \<Rightarrow> bool"
  for env counts x0 where
  start: "net_run env counts x0 {#} {#} x0"
| switch: "\<lbrakk> net_run env counts x0 sent received x; net_switch_wakeup env i x = Some y \<rbrakk> \<Longrightarrow>
    net_run env counts x0 sent received y"
| throttle: "\<lbrakk> net_run env counts x0 sent received x; net_throttle_wakeup env i l x = Some y \<rbrakk> \<Longrightarrow>
    net_run env counts x0 sent received y"
| send: "\<lbrakk> net_run env counts x0 sent received (n, s, k); node < length (m_toNetQueues n); v < length (m_toNetQueues n ! node);
      0 < delta; link_buffer_ok (env_RANDOMIZATION env) (m_globalTime s + delta) counts (buffers n ! (m_toNetQueues n ! node ! v));
      m_LastEnqueueTime msg \<le> m_globalTime s; nd_invar counts (getInternalDestination (payload msg));
      nm_MessageSize (payload msg) \<noteq> MessageSizeType_Undefined; node_send env node v msg delta (n, s, k) = Some y \<rbrakk> \<Longrightarrow>
    net_run env counts x0 (sent + msg_deliveries (payload msg)) received y"
| receive: "\<lbrakk> net_run env counts x0 sent received x; x = (n, s, k); node < length (m_fromNetQueues n);
      v < length (m_fromNetQueues n ! node); node_receive node v x = Some (m, y) \<rbrakk> \<Longrightarrow>
    net_run env counts x0 sent (received + image_mset (Pair node) (msg_deliveries m)) y"
| time: "\<lbrakk> net_run env counts x0 sent received (n, s, k); queue_ok s'; m_globalTime s \<le> m_globalTime s' \<rbrakk> \<Longrightarrow>
    net_run env counts x0 sent received (n, s', k')"

text \<open>The queues of the machines: no switch or throttle puts messages into a queue to the network, and into a
  queue from it only a link whose routing entry is the machine itself.\<close>

definition queues_wired :: "nat list \<Rightarrow> nat \<Rightarrow> nat list list \<Rightarrow> nat list list \<Rightarrow> (pointers \<times> net_dest list) list \<Rightarrow> bool" where
  "queues_wired counts N to from ws \<longleftrightarrow>
     (\<forall>row\<in>set to. \<forall>a\<in>set row. a < N \<and> (\<forall>(p, table)\<in>set ws. a \<notin> set (produced p))) \<and>
     (\<forall>d<length from. \<forall>a\<in>set (from ! d). a < N \<and>
        (\<exists>((ins, outs, tins, touts), table)\<in>set ws. \<exists>l<length touts. a \<in> set (touts ! l) \<and>
           nd_elems (table ! l) \<subseteq> {m. machine_number counts m = d}))"

definition queues_ok :: "nat list \<Rightarrow> 'b simple_network \<Rightarrow> bool" where
  "queues_ok counts n \<longleftrightarrow>
     queues_wired counts (length (buffers n)) (m_toNetQueues n) (m_fromNetQueues n) (map sw_wiring (m_switch_ptr_vector n))"

lemma queues_ok_sent:
  assumes "queues_ok counts n" "node < length (m_toNetQueues n)" "v < length (m_toNetQueues n ! node)"
  shows "m_toNetQueues n ! node ! v < length (buffers n)"
    "\<forall>sw\<in>set (m_switch_ptr_vector n). set (produced (sw_pointers sw)) \<inter> {m_toNetQueues n ! node ! v} = {}"
  using assms(1) nth_mem [OF assms(2)] nth_mem [OF assms(3)] unfolding queues_ok_def queues_wired_def sw_wiring_def by auto

lemma queues_ok_received:
  assumes "queues_ok counts n" "node < length (m_fromNetQueues n)" "a \<in> set (m_fromNetQueues n ! node)"
  obtains sw l where "a < length (buffers n)" "sw \<in> set (m_switch_ptr_vector n)" "l < length (m_throttles sw)"
    "a \<in> set (nt_out (m_throttles sw ! l))" "nd_elems (m_routing_table (sw_perfect sw) ! l) \<subseteq> {m. machine_number counts m = node}"
proof -
  have "a < length (buffers n) \<and>
      (\<exists>((ins, outs, tins, touts), table)\<in>set (map sw_wiring (m_switch_ptr_vector n)). \<exists>l<length touts. a \<in> set (touts ! l) \<and>
         nd_elems (table ! l) \<subseteq> {m. machine_number counts m = node})"
    using assms unfolding queues_ok_def queues_wired_def by blast
  then show thesis using that by (auto simp: sw_wiring_def sw_pointers_def)
qed

lemma net_ok_frame:
  assumes "net_ok env counts n s" "store_step counts P (buffers n) st'"
    "\<forall>sw\<in>set (m_switch_ptr_vector n). set (produced (sw_pointers sw)) \<inter> P = {}" "queue_ok s'" "m_globalTime s \<le> m_globalTime s'"
  shows "net_ok env counts (n\<lparr>buffers := st'\<rparr>) s'"
proof -
  have "sw_ok env counts (sn_virtual_networks n) st' s' sw" if sw: "sw \<in> set (m_switch_ptr_vector n)" for sw
  proof (rule sw_ok_frame [OF _ assms(2) _ _ assms(4,5)])
    show "sw_ok env counts (sn_virtual_networks n) (buffers n) s sw"
      "pointers_ok (sn_virtual_networks n) (length (buffers n)) (sw_pointers sw)"
      using assms(1) sw by (simp_all add: net_ok_def net_shape_def)
    show "set (produced (sw_pointers sw)) \<inter> P = {}" using assms(3) sw by blast
  qed
  moreover have "length st' = length (buffers n)" "\<forall>b\<in>set st'. net_buffer_ok counts b" using assms(2) by (simp_all add: store_step_def)
  ultimately show ?thesis using assms(1,4) by (simp add: net_ok_def)
qed

lemma store_step_update:
  assumes "\<forall>b\<in>set st. net_buffer_ok counts b" "net_buffer_ok counts b"
  shows "store_step counts {a} st (st[a := b])" "drained (st ! a) b \<Longrightarrow> store_step counts {} st (st[a := b])"
proof -
  have ok: "\<forall>x\<in>set (st[a := b]). net_buffer_ok counts x" by (rule list_update_all [OF assms])
  then show "store_step counts {a} st (st[a := b])" by (auto simp: store_step_def nth_list_update)
  have "drained (st ! c) (st[a := b] ! c)" if "drained (st ! a) b" "c < length st" for c
    using that by (cases "a = c") auto
  then show "store_step counts {} st (st[a := b])" if "drained (st ! a) b"
    using ok that by (simp add: store_step_def)
qed

lemma node_send_law:
  assumes "net_env_ok env" "net_ok env counts n s" "queues_ok counts n" "node < length (m_toNetQueues n)"
    "v < length (m_toNetQueues n ! node)" "0 < delta"
    "link_buffer_ok (env_RANDOMIZATION env) (m_globalTime s + delta) counts (buffers n ! (m_toNetQueues n ! node ! v))"
    "m_LastEnqueueTime msg \<le> m_globalTime s" "nd_invar counts (getInternalDestination (payload msg))"
    "nm_MessageSize (payload msg) \<noteq> MessageSizeType_Undefined"
  shows "\<exists>st' s'. node_send env node v msg delta (n, s, k) = Some (n\<lparr>buffers := st'\<rparr>, s', k + 1) \<and>
    net_ok env counts (n\<lparr>buffers := st'\<rparr>) s' \<and> length st' = length (buffers n) \<and>
    (\<Sum>b\<leftarrow>st'. buffer_deliveries b) = (\<Sum>b\<leftarrow>buffers n. buffer_deliveries b) + msg_deliveries (payload msg)"
proof -
  let ?a = "m_toNetQueues n ! node ! v" and ?R = "env_RANDOMIZATION env"
  have a: "?a < length (buffers n)" "\<forall>sw\<in>set (m_switch_ptr_vector n). set (produced (sw_pointers sw)) \<inter> {?a} = {}"
    by (rule queues_ok_sent [OF assms(3-5)])+
  have "1 \<le> env_random_time env k" "queue_ok s" using assms(1,2) by (simp_all add: net_env_ok_def throttle_env_ok_def net_ok_def)
  then obtain b s' where b: "enqueue ?R (env_random_time env k) (Some msg) delta (buffers n ! ?a) s = Some (b, s')"
      "link_buffer_ok ?R (m_globalTime s + delta) counts b" "queue_ok s'" "scheduled s s'"
      "buffer_deliveries b = buffer_deliveries (buffers n ! ?a) + msg_deliveries (payload msg)"
    using link_enqueue [OF assms(7) _ assms(6) _ assms(8-10)] by blast
  have "store_step counts {?a} (buffers n) ((buffers n)[?a := b])"
    by (rule store_step_update(1)) (use assms(2) b(2) in \<open>simp_all add: net_ok_def link_buffer_ok_def\<close>)
  then have "net_ok env counts (n\<lparr>buffers := (buffers n)[?a := b]\<rparr>) s'"
    using net_ok_frame [OF assms(2) _ a(2) b(3)] b(4) by (simp add: scheduled_def)
  moreover have "(\<Sum>x\<leftarrow>(buffers n)[?a := b]. buffer_deliveries x) = (\<Sum>x\<leftarrow>buffers n. buffer_deliveries x) + msg_deliveries (payload msg)"
    using sum_list_update_add [OF a(1), of buffer_deliveries b] b(5) by (simp add: ac_simps)
  ultimately show ?thesis using b(1) by (auto simp: node_send_def Let_def)
qed

lemma node_receive_law:
  assumes "net_ok env counts n s" "queues_ok counts n" "node < length (m_fromNetQueues n)" "v < length (m_fromNetQueues n ! node)"
    "node_receive node v (n, s, k) = Some (m, y)"
  shows "\<exists>st'. y = (n\<lparr>buffers := st'\<rparr>, s, k) \<and> net_ok env counts (n\<lparr>buffers := st'\<rparr>) s \<and> length st' = length (buffers n) \<and>
    (\<Sum>b\<leftarrow>st'. buffer_deliveries b) + msg_deliveries m = (\<Sum>b\<leftarrow>buffers n. buffer_deliveries b) \<and>
    nd_elems (getInternalDestination m) \<subseteq> {x. machine_number counts x = node}"
proof -
  let ?a = "m_fromNetQueues n ! node ! v" and ?now = "m_globalTime s"
  have mem: "?a \<in> set (m_fromNetQueues n ! node)" using nth_mem [OF assms(4)] .
  obtain sw l where sw: "?a < length (buffers n)" "sw \<in> set (m_switch_ptr_vector n)" "l < length (m_throttles sw)"
      "?a \<in> set (nt_out (m_throttles sw ! l))"
      "nd_elems (m_routing_table (sw_perfect sw) ! l) \<subseteq> {m. machine_number counts m = node}"
    by (rule queues_ok_received [OF assms(2,3) mem])
  obtain msg b where r: "peekMsgPtr ?now (buffers n ! ?a) = Some msg" "pop ?now (buffers n ! ?a) = Some b" "m = payload msg"
      "y = (n\<lparr>buffers := (buffers n)[?a := b]\<rparr>, s, k)"
    using assms(5) by (auto simp: node_receive_def Let_def bind_Some_iff)
  have "isReady ?now (buffers n ! ?a)" using r(1) by (auto simp: peekMsgPtr_def bind_Some_iff)
  moreover have ok: "net_buffer_ok counts (buffers n ! ?a)" "queue_ok s" using assms(1) nth_mem [OF sw(1)] by (simp_all add: net_ok_def)
  ultimately obtain msg' b' where p: "peekMsgPtr ?now (buffers n ! ?a) = Some msg'" "pop ?now (buffers n ! ?a) = Some b'" "net_buffer_ok counts b'"
      "buffer_deliveries (buffers n ! ?a) = buffer_deliveries b' + msg_deliveries (payload msg')"
      "buffer_payloads (buffers n ! ?a) = add_mset (payload msg') (buffer_payloads b')" "drained (buffers n ! ?a) b'"
    using net_pop by metis
  have eq: "msg' = msg" "b' = b" using p(1,2) r(1,2) by simp_all
  have "store_step counts {} (buffers n) ((buffers n)[?a := b])"
    by (rule store_step_update(2)) (use assms(1) p(3,6) eq in \<open>simp_all add: net_ok_def\<close>)
  then have "net_ok env counts (n\<lparr>buffers := (buffers n)[?a := b]\<rparr>) s"
    using net_ok_frame [OF assms(1) _ _ ok(2)] by simp
  moreover have "(\<Sum>x\<leftarrow>(buffers n)[?a := b]. buffer_deliveries x) + msg_deliveries m = (\<Sum>x\<leftarrow>buffers n. buffer_deliveries x)"
    using sum_list_update_add [OF sw(1), of buffer_deliveries b] p(4) eq r(3) by (simp add: ac_simps)
  moreover have "link_routed (buffers n) (m_routing_table (sw_perfect sw) ! l) (nt_out (m_throttles sw ! l))"
    using assms(1) sw(2,3) by (simp add: net_ok_def sw_ok_def)
  then have "nd_elems (getInternalDestination m) \<subseteq> {x. machine_number counts x = node}"
    using sw(4,5) p(5) eq r(3) unfolding link_routed_def by fastforce
  ultimately show ?thesis using r(4) by (intro exI [of _ "(buffers n)[?a := b]"]) simp_all
qed

lemma queues_ok_step:
  assumes "n' = n\<lparr>buffers := buffers n', m_switch_ptr_vector := m_switch_ptr_vector n'\<rparr>"
    "map sw_wiring (m_switch_ptr_vector n') = map sw_wiring (m_switch_ptr_vector n)" "length (buffers n') = length (buffers n)"
  shows "queues_ok counts n' = queues_ok counts n"
proof -
  have "m_toNetQueues n' = m_toNetQueues n" "m_fromNetQueues n' = m_fromNetQueues n" by (subst assms(1), simp)+
  then show ?thesis using assms(2,3) by (simp add: queues_ok_def)
qed

text \<open>What every run keeps.\<close>

definition accounted ::
  "throttle_env \<Rightarrow> nat list \<Rightarrow> ('b \<times> machine_id) multiset \<Rightarrow> ('b \<times> machine_id) multiset \<Rightarrow> (nat \<times> 'b \<times> machine_id) multiset \<Rightarrow>
   'b simple_network \<times> (net_consumer, 's) sim \<times> nat \<Rightarrow> bool" where
  "accounted env counts D0 sent received = (\<lambda>(n, s, k). net_ok env counts n s \<and> queues_ok counts n \<and>
     image_mset snd received + net_deliveries n = D0 + sent \<and> (\<forall>(d, b, m)\<in>#received. machine_number counts m = d))"

lemma accounted_wakeup:
  assumes "accounted env counts D0 sent received (n, s, k)" "net_ok env counts n' s'" "net_deliveries n' = net_deliveries n"
    "n' = n\<lparr>buffers := buffers n', m_switch_ptr_vector := m_switch_ptr_vector n'\<rparr>"
    "map sw_wiring (m_switch_ptr_vector n') = map sw_wiring (m_switch_ptr_vector n)" "length (buffers n') = length (buffers n)"
  shows "accounted env counts D0 sent received (n', s', k')"
  using assms(1-3) queues_ok_step [OF assms(4-6)] by (simp add: accounted_def)

lemma net_run_accounted:
  assumes "net_env_ok env" "net_ok env counts n0 s0" "queues_ok counts n0" "net_run env counts (n0, s0, k0) sent received x"
  shows "accounted env counts (net_deliveries n0) sent received x"
  using assms(4)
proof induction
  case start
  then show ?case using assms(2,3) by (simp add: accounted_def)
next
  case (switch sent received x i y)
  obtain n s k where x: "x = (n, s, k)" by (cases x)
  have "i < length (m_switch_ptr_vector n)" using switch.hyps(2) by (auto simp: x net_switch_wakeup_def bind_Some_iff)
  moreover have "net_ok env counts n s" using switch.IH by (simp add: accounted_def x)
  ultimately obtain n' s' k' where "net_switch_wakeup env i (n, s, k) = Some (n', s', k')" "net_ok env counts n' s'"
      "net_deliveries n' = net_deliveries n" "n' = n\<lparr>buffers := buffers n', m_switch_ptr_vector := m_switch_ptr_vector n'\<rparr>"
      "map sw_wiring (m_switch_ptr_vector n') = map sw_wiring (m_switch_ptr_vector n)" "length (buffers n') = length (buffers n)"
    using net_switch_wakeup_law [OF assms(1)] by blast
  then show ?case using accounted_wakeup switch.IH switch.hyps(2) unfolding x by (metis option.inject)
next
  case (throttle sent received x i l y)
  obtain n s k where x: "x = (n, s, k)" by (cases x)
  have "i < length (m_switch_ptr_vector n)" "l < length (m_throttles (m_switch_ptr_vector n ! i))"
    using throttle.hyps(2) by (auto simp: x net_throttle_wakeup_def bind_Some_iff Let_def)
  moreover have "net_ok env counts n s" using throttle.IH by (simp add: accounted_def x)
  ultimately obtain n' s' k' where "net_throttle_wakeup env i l (n, s, k) = Some (n', s', k')" "net_ok env counts n' s'"
      "net_deliveries n' = net_deliveries n" "n' = n\<lparr>buffers := buffers n', m_switch_ptr_vector := m_switch_ptr_vector n'\<rparr>"
      "map sw_wiring (m_switch_ptr_vector n') = map sw_wiring (m_switch_ptr_vector n)" "length (buffers n') = length (buffers n)"
    using net_throttle_wakeup_law [OF assms(1)] by blast
  then show ?case using accounted_wakeup throttle.IH throttle.hyps(2) unfolding x by (metis option.inject)
next
  case (send sent received n s k node v delta msg y)
  have a: "net_ok env counts n s" "queues_ok counts n" "image_mset snd received + net_deliveries n = net_deliveries n0 + sent"
      "\<forall>(d, b, m)\<in>#received. machine_number counts m = d" using send.IH by (simp_all add: accounted_def)
  obtain st' s' where y: "y = (n\<lparr>buffers := st'\<rparr>, s', k + 1)" "net_ok env counts (n\<lparr>buffers := st'\<rparr>) s'" "length st' = length (buffers n)"
      "(\<Sum>b\<leftarrow>st'. buffer_deliveries b) = (\<Sum>b\<leftarrow>buffers n. buffer_deliveries b) + msg_deliveries (payload msg)"
    using node_send_law [OF assms(1) a(1,2) send.hyps(2-8), of k] send.hyps(9) by auto
  have "image_mset snd received + net_deliveries (n\<lparr>buffers := st'\<rparr>) = net_deliveries n0 + (sent + msg_deliveries (payload msg))"
    using a(3) y(4) by (simp add: net_deliveries_def ac_simps)
  moreover have "queues_ok counts (n\<lparr>buffers := st'\<rparr>)" using a(2) y(3) by (simp add: queues_ok_def)
  ultimately show ?case using y(1,2) a(4) by (simp add: accounted_def)
next
  case (receive sent received x n s k node v m y)
  have a: "net_ok env counts n s" "queues_ok counts n" "image_mset snd received + net_deliveries n = net_deliveries n0 + sent"
      "\<forall>(d, b, m)\<in>#received. machine_number counts m = d" using receive.IH receive.hyps(2) by (simp_all add: accounted_def)
  obtain st' where y: "y = (n\<lparr>buffers := st'\<rparr>, s, k)" "net_ok env counts (n\<lparr>buffers := st'\<rparr>) s" "length st' = length (buffers n)"
      "(\<Sum>b\<leftarrow>st'. buffer_deliveries b) + msg_deliveries m = (\<Sum>b\<leftarrow>buffers n. buffer_deliveries b)"
      "nd_elems (getInternalDestination m) \<subseteq> {x. machine_number counts x = node}"
    using node_receive_law [OF a(1,2) receive.hyps(3,4)] receive.hyps(2,5) by blast
  have "image_mset snd (received + image_mset (Pair node) (msg_deliveries m)) + net_deliveries (n\<lparr>buffers := st'\<rparr>) =
      image_mset snd received + net_deliveries n"
    using y(4) by (simp add: net_deliveries_def image_mset.compositionality comp_def ac_simps)
  moreover have "\<forall>(d, b, x)\<in>#image_mset (Pair node) (msg_deliveries m). machine_number counts x = d"
    using y(5) nd_elems_finite by (cases "finite (nd_elems (getInternalDestination m))") (auto simp: msg_deliveries_def)
  moreover have "queues_ok counts (n\<lparr>buffers := st'\<rparr>)" using a(2) y(3) by (simp add: queues_ok_def)
  ultimately show ?case using y(1,2) a(3,4) by (auto simp: accounted_def)
next
  case (time sent received n s k s' k')
  then have a: "net_ok env counts n s" "\<forall>b\<in>set (buffers n). net_buffer_ok counts b" by (simp_all add: accounted_def net_ok_def)
  have "store_step counts {} (buffers n) (buffers n)" using a(2) by (simp add: store_step_def)
  from net_ok_frame [OF a(1) this _ time.hyps(2,3)] have "net_ok env counts n s'" by simp
  then show ?case using time.IH by (simp add: accounted_def)
qed

text \<open>C10. The network delivers.  Take a network that is wired as it should be, and any run of it: switches and throttles are
  woken in any order, machines send and receive, time passes.  Then what the machines have
  received together with what is in the buffers is exactly what was there at the start and what was sent, each message
  once for every destination; a machine has only received what is addressed to it; and every switch and every throttle
  can be woken again without an abort.\<close>

theorem network_delivers:
  assumes "net_env_ok env" "net_ok env counts n0 s0" "queues_ok counts n0" "net_run env counts (n0, s0, k0) sent received (n, s, k)"
  shows "image_mset snd received + net_deliveries n = net_deliveries n0 + sent \<and>
    (\<forall>(d, body, m)\<in>#received. machine_number counts m = d) \<and>
    (\<forall>i<length (m_switch_ptr_vector n). net_switch_wakeup env i (n, s, k) \<noteq> None \<and>
       (\<forall>l<length (m_throttles (m_switch_ptr_vector n ! i)). net_throttle_wakeup env i l (n, s, k) \<noteq> None))"
proof -
  have a: "accounted env counts (net_deliveries n0) sent received (n, s, k)" by (rule net_run_accounted [OF assms])
  then have ok: "net_ok env counts n s" by (simp add: accounted_def)
  have "net_switch_wakeup env i (n, s, k) \<noteq> None" if "i < length (m_switch_ptr_vector n)" for i
    using net_switch_wakeup_law [OF assms(1) ok that, of k] by auto
  moreover have "net_throttle_wakeup env i l (n, s, k) \<noteq> None"
    if "i < length (m_switch_ptr_vector n)" "l < length (m_throttles (m_switch_ptr_vector n ! i))" for i l
    using net_throttle_wakeup_law [OF assms(1) ok that, of k] by auto
  ultimately show ?thesis using a by (simp add: accounted_def)
qed

end
