(* ===== verification/Network_Build.thy ===== *)
theory Network_Build
  imports Simple_Network
begin

text \<open>
  The construction of the network.  \<open>SimpleNetwork_new\<close> makes the links of the topology one by one; this theory
  shows that it succeeds for the crossbar of the GPU configuration and that the network it makes is wired as
  the theorems of \<open>Simple_Network\<close> need it: every buffer has one producer and a consumer, every switch knows
  all machines, and a queue to a machine is behind a link for that machine only.

  The controllers, which are compiled from the protocol, attach to the queues of their machine afterwards;
  \<open>attached\<close> states what their constructors do to them.
\<close>

section \<open>Buffers that nobody has used\<close>

definition idle :: "('c, 'm) message_buffer \<Rightarrow> bool" where
  "idle b \<longleftrightarrow> mb_prio_heap b = heap_init \<and> m_size b = 0 \<and> m_msg_counter b = 0 \<and> m_last_arrival_time b = 0"

lemma idle_new [simp]: "idle MessageBuffer_new" "idle (new_link_buffer c)"
  by (simp_all add: idle_def new_link_buffer_def Let_def setOrdering_def setSize_def MessageBuffer_new_def)

lemma idle_payloads: "idle b \<Longrightarrow> buffer_payloads b = {#}" "idle b \<Longrightarrow> mb_nodes b = {#}"
  by (simp_all add: idle_def buffer_payloads_def mb_nodes_def nodes.elems_empty)

lemma idle_net_ok: assumes "idle b" shows "net_buffer_ok counts b"
  using assms idle_payloads(2) [OF assms]
  by (simp add: net_buffer_ok_def buffer_ok_def nodes_ok_def) (simp add: idle_def nodes.invar_empty)

lemma idle_link_ok:
  "\<lbrakk> idle b; m_ordering_set b; mb_consumer_ptr b \<noteq> None; 0 \<le> latest \<rbrakk> \<Longrightarrow> link_buffer_ok R latest counts b"
  using idle_net_ok [of b counts] by (simp add: link_buffer_ok_def) (simp add: idle_def)

section \<open>Adding a port\<close>

text \<open>The store with \<open>f\<close> applied to the buffers at the addresses \<open>A\<close>.\<close>

definition update_at :: "nat set \<Rightarrow> ('a \<Rightarrow> 'a) \<Rightarrow> 'a list \<Rightarrow> 'a list" where
  "update_at A f st = map (\<lambda>a. if a \<in> A then f (st ! a) else st ! a) [0..<length st]"

lemma update_at_simps [simp]:
  "length (update_at A f st) = length st" "a < length st \<Longrightarrow> update_at A f st ! a = (if a \<in> A then f (st ! a) else st ! a)"
  by (simp_all add: update_at_def)

lemma write_all_map:
  "write_all as (map g as) st = map (\<lambda>a. if a \<in> set as then g a else st ! a) [0..<length st]"
proof (induction as arbitrary: st)
  case Nil
  then show ?case by (simp add: map_nth)
next
  case (Cons x as)
  then show ?case by (auto simp: nth_list_update)
qed

lemma write_all_update:
  assumes "A \<subseteq> set as" "bs = map (\<lambda>a. if a \<in> A then f (st ! a) else st ! a) as"
  shows "write_all as bs st = update_at A f st"
  unfolding assms(2) write_all_map update_at_def using assms(1) by (intro map_cong) auto

definition consume :: "'c \<Rightarrow> ('c, 'm) message_buffer \<Rightarrow> ('c, 'm) message_buffer" where
  "consume c b = b\<lparr>mb_consumer_ptr := Some c\<rparr>"

lemma consume_simps [simp]: "idle (consume c b) = idle b" "m_ordering_set (consume c b) = m_ordering_set b"
  "mb_consumer_ptr (consume c b) = Some c"
  by (simp_all add: consume_def idle_def)

lemma set_consumers_map: "\<forall>b\<in>set bs. mb_consumer_ptr b = None \<Longrightarrow> set_consumers c bs = Some (map (consume c) bs)"
  by (induction bs) (simp_all add: setConsumer_def consume_def)

text \<open>What building a switch keeps of it.\<close>

definition switch_built :: "nat \<Rightarrow> nat list \<Rightarrow> 'b net_switch \<Rightarrow> bool" where
  "switch_built V counts sw \<longleftrightarrow> m_virtual_networks (sw_perfect sw) = V \<and> m_round_robin_start (sw_perfect sw) = 0 \<and>
     m_in (sw_perfect sw) = [] \<and> m_out (sw_perfect sw) = [] \<and>
     m_link_order (sw_perfect sw) = map (\<lambda>l. (l, 0)) [0..<length (sw_out sw)] \<and>
     length (m_routing_table (sw_perfect sw)) = length (sw_out sw) \<and>
     (\<forall>e\<in>set (m_routing_table (sw_perfect sw)). nd_invar counts e) \<and>
     (\<forall>t\<in>set (m_throttles sw). 0 < m_link_latency (nt_throttle t) \<and> 0 < m_link_bandwidth_multiplier (nt_throttle t) \<and>
        m_vnets (nt_throttle t) = V \<and> m_units_remaining (nt_throttle t) = replicate V 0 \<and>
        (\<forall>k. length (m_message_counters (nt_throttle t) k) = V))"

lemma sw_addInPort_law:
  assumes "switch_built V counts sw" "length ins = V" "\<forall>a\<in>set ins. mb_consumer_ptr (st ! a) = None"
    "set ins \<inter> set (concat (sw_in sw) @ concat (sw_out sw)) = {}"
  shows "sw_addInPort ins (st, sw) =
    Some (update_at (set ins) (consume (ps_this (sw_perfect sw))) st, sw\<lparr>sw_in := sw_in sw @ [ins]\<rparr>)"
proof -
  let ?ps = "load_switch st sw" and ?c = "ps_this (sw_perfect sw)"
  let ?ps' = "?ps\<lparr>m_in := m_in ?ps @ [map (consume ?c) (load st ins)]\<rparr>"
  have b: "m_virtual_networks (sw_perfect sw) = V" "m_in (sw_perfect sw) = []" "m_out (sw_perfect sw) = []"
    using assms(1) by (simp_all add: switch_built_def)
  have "set_consumers ?c (load st ins) = Some (map (consume ?c) (load st ins))"
    using assms(3) by (intro set_consumers_map) (simp add: load_def)
  then have run: "ps_addInPort (load st ins) ?ps = Some ?ps'"
    using assms(2) b(1) by (simp add: ps_addInPort_def load_switch_def)
  let ?as = "concat (sw_in sw @ [ins]) @ concat (sw_out sw)"
  let ?g = "\<lambda>a. if a \<in> set ins then consume ?c (st ! a) else st ! a"
  have old: "map ?g as = load st as" if "set ins \<inter> set as = {}" for as
    unfolding load_def by (rule map_cong) (use that in auto)
  have parts: "concat (m_in ?ps') = load st (concat (sw_in sw)) @ map (consume ?c) (load st ins)"
    "concat (m_out ?ps') = load st (concat (sw_out sw))" by (simp_all add: load_switch_def concat_load)
  have "map ?g (concat (sw_in sw)) = load st (concat (sw_in sw))" "map ?g (concat (sw_out sw)) = load st (concat (sw_out sw))"
    by (rule old, use assms(4) in auto)+
  moreover have "map ?g ins = map (consume ?c) (load st ins)" by (simp add: load_def)
  ultimately have "map ?g ?as = concat (m_in ?ps') @ concat (m_out ?ps')" unfolding parts by (simp del: map_concat)
  then have "write_all ?as (concat (m_in ?ps') @ concat (m_out ?ps')) st = update_at (set ins) (consume ?c) st"
    by (intro write_all_update) auto
  moreover have "?ps'\<lparr>m_in := [], m_out := []\<rparr> = sw_perfect sw" using b(2,3) by (simp add: load_switch_def)
  ultimately show ?thesis using run by (simp add: sw_addInPort_def save_switch_def)
qed

lemma addVirtualNetwork_run:
  assumes "\<forall>b\<in>set ins. mb_consumer_ptr b = None" "length outs = length ins"
  shows "run_all addVirtualNetwork (zip ins outs) th = Some (th\<lparr>m_units_remaining := m_units_remaining th @ replicate (length ins) 0,
    th_in := th_in th @ map (consume (th_this th)) ins, th_out := th_out th @ outs, m_vnets := m_vnets th + length ins\<rparr>)"
  using assms
proof (induction ins arbitrary: outs th)
  case (Cons b ins)
  then obtain out outs' where "outs = out # outs'" by (cases outs) auto
  then show ?case using Cons by (simp add: addVirtualNetwork_def setConsumer_def consume_def)
qed simp

text \<open>The throttle of a new link, with the buffers in the store.\<close>

definition built_throttle :: "net_consumer \<Rightarrow> int \<Rightarrow> int \<Rightarrow> nat \<Rightarrow> (net_consumer, 'b) throttle" where
  "built_throttle this latency bw V = \<lparr>th_this = this, th_in = [], th_out = [], m_message_counters = (\<lambda>_. replicate V 0), m_vnets = V,
     m_units_remaining = replicate V 0, m_bash_counter = HIGH_RANGE, m_bandwidth_since_sample = 0, m_last_bandwidth_sample = 0,
     m_link_bandwidth_multiplier = bw, m_link_latency = latency, th_wakeups_wo_switch = 0\<rparr>"

lemma new_throttle_law:
  assumes "0 < bw" "\<forall>b\<in>set ins. mb_consumer_ptr b = None" "length ins = V" "length outs = V"
  shows "Throttle_new this latency bw \<bind> th_addLinks ins outs =
    Some ((built_throttle this latency bw V)\<lparr>th_in := map (consume this) ins, th_out := outs\<rparr>)"
  using addVirtualNetwork_run [OF assms(2), of outs] assms(1,3,4)
  by (simp add: Throttle_new_def th_addLinks_def built_throttle_def)

lemma new_link_buffer_fields [simp]: "mb_consumer_ptr (new_link_buffer c) = None" "m_ordering_set (new_link_buffer c)"
  by (simp_all add: new_link_buffer_def Let_def setOrdering_def setSize_def MessageBuffer_new_def)

definition add_link :: "nat list \<Rightarrow> nat list \<Rightarrow> net_dest \<Rightarrow> int \<Rightarrow> int \<Rightarrow> 'b net_switch \<Rightarrow> 'b net_switch" where
  "add_link mid out entry latency bw sw = sw\<lparr>
     sw_perfect := (sw_perfect sw)\<lparr>m_link_order := m_link_order (sw_perfect sw) @ [(length (sw_out sw), 0)],
       m_routing_table := m_routing_table (sw_perfect sw) @ [entry]\<rparr>,
     sw_out := sw_out sw @ [mid],
     m_throttles := m_throttles sw @ [\<lparr>nt_throttle = built_throttle (ThrottleC (m_switch_id sw) (length (m_throttles sw))) latency bw (length out),
       nt_in = mid, nt_out = out\<rparr>]\<rparr>"

lemma write_all_same: "write_all as (load st as) st = st"
  unfolding load_def write_all_map by (simp add: map_nth)

lemma sw_addOutPort_law:
  fixes sw :: "'b net_switch"
  assumes "switch_built V counts sw" "length out = V" "set out \<subseteq> {..<length st}" "0 < bw"
  shows "sw_addOutPort c out entry latency bw (st, sw) =
    Some (st @ replicate V (consume (ThrottleC (m_switch_id sw) (length (m_throttles sw))) (new_link_buffer c)),
          add_link [length st..<length st + V] out entry latency bw sw)"
proof -
  let ?tc = "ThrottleC (m_switch_id sw) (length (m_throttles sw))" and ?i = "[length st..<length st + V]"
  let ?st = "st @ replicate V (new_link_buffer c)" and ?bt = "built_throttle ?tc latency bw V"
  let ?sw = "sw\<lparr>sw_out := sw_out sw @ [?i]\<rparr>"
  let ?ps = "(load_switch ?st ?sw)\<lparr>m_link_order := m_link_order (sw_perfect sw) @ [(length (sw_out sw), 0)],
       m_routing_table := m_routing_table (sw_perfect sw) @ [entry]\<rparr>"
  have b: "m_virtual_networks (sw_perfect sw) = V" "m_in (sw_perfect sw) = []" "m_out (sw_perfect sw) = []"
    using assms(1) by (simp_all add: switch_built_def)
  have ps: "ps_addOutPort (load ?st ?i) entry (load_switch ?st sw) = Some ?ps"
    using b(1) by (simp add: ps_addOutPort_def load_switch_def load_def)
  have "concat (m_in ?ps) @ concat (m_out ?ps) = load ?st (concat (sw_in ?sw) @ concat (sw_out ?sw))"
    by (simp add: load_switch_def concat_load)
  then have "fst (save_switch ?ps (?st, ?sw)) = ?st" unfolding save_switch_def prod.case fst_conv using write_all_same by metis
  then have sv: "save_switch ?ps (?st, ?sw) = (?st, ?sw\<lparr>sw_perfect := ?ps\<lparr>m_in := [], m_out := []\<rparr>\<rparr>)"
    by (simp add: save_switch_def)
  have new: "?st ! a = new_link_buffer c" if "a \<in> set ?i" for a using that by (auto simp: nth_append)
  obtain th where th: "Throttle_new ?tc latency bw = Some (th :: (net_consumer, 'b) throttle)" using assms(4) by (simp add: Throttle_new_def)
  have "Throttle_new ?tc latency bw \<bind> th_addLinks (load ?st ?i) (load ?st out) =
      Some (?bt\<lparr>th_in := map (consume ?tc) (load ?st ?i), th_out := load ?st out\<rparr>)"
    by (rule new_throttle_law) (use assms(2,4) new in \<open>auto simp: load_def\<close>)
  then have link: "th_addLinks (load ?st ?i) (load ?st out) th = Some (?bt\<lparr>th_in := map (consume ?tc) (load ?st ?i), th_out := load ?st out\<rparr>)"
    using th by simp
  have "write_all (?i @ out) (map (consume ?tc) (load ?st ?i) @ load ?st out) ?st = update_at (set ?i) (consume ?tc) ?st"
    by (rule write_all_update) (use assms(3) in \<open>auto simp: load_def\<close>)
  also have "\<dots> = st @ replicate V (consume ?tc (new_link_buffer c))"
    by (rule nth_equalityI) (auto simp: nth_append)
  finally have w: "write_all (?i @ out) (map (consume ?tc) (load ?st ?i) @ load ?st out) ?st = \<dots>" .
  have "?bt\<lparr>th_in := [], th_out := []\<rparr> = ?bt" by (simp add: built_throttle_def)
  then have st: "save_throttle (?bt\<lparr>th_in := map (consume ?tc) (load ?st ?i), th_out := load ?st out\<rparr>) (?st, \<lparr>nt_throttle = t, nt_in = ?i, nt_out = out\<rparr>) =
      (st @ replicate V (consume ?tc (new_link_buffer c)), \<lparr>nt_throttle = ?bt, nt_in = ?i, nt_out = out\<rparr>)" for t
    using w by (simp add: save_throttle_def)
  have "?sw\<lparr>sw_perfect := ?ps\<lparr>m_in := [], m_out := []\<rparr>, m_throttles := m_throttles sw @ [\<lparr>nt_throttle = ?bt, nt_in = ?i, nt_out = out\<rparr>]\<rparr> =
      add_link ?i out entry latency bw sw"
    using b(2,3) assms(2) by (simp add: add_link_def load_switch_def)
  then show ?thesis
    unfolding sw_addOutPort_def prod.case new_link_buffers_def assms(2) th bind.bind_lunit Let_def ps sv link st by simp
qed

section \<open>The wiring\<close>

lemma mset_concat_update:
  assumes "i < length xs" "mset (f y) = mset (f (xs ! i)) + A"
  shows "mset (concat (map f (xs[i := y]))) = mset (concat (map f xs)) + A"
proof -
  have "(\<Sum>x\<leftarrow>xs[i := y]. mset (f x)) + mset (f (xs ! i)) = (\<Sum>x\<leftarrow>xs. mset (f x)) + mset (f y)"
    by (rule sum_list_update_add [OF assms(1)])
  then show ?thesis using assms(2) by (simp add: mset_concat comp_def)
qed

lemma net_shape_in:
  assumes "net_shape V N ptrs" "i < length ptrs" "ptrs ! i = (ins, outs, tins, touts)" "length row = V" "set row \<subseteq> {..<N}"
    "distinct row" "set row \<inter> set (concat ins @ concat outs) = {}"
  shows "net_shape V N (ptrs[i := (ins @ [row], outs, tins, touts)])"
proof -
  let ?p = "(ins @ [row], outs, tins, touts)"
  have "pointers_ok V N (ptrs ! i)" using assms(1) nth_mem [OF assms(2)] unfolding net_shape_def by blast
  then have "pointers_ok V N ?p" using assms(4-7) unfolding assms(3) pointers_ok_def prod.case by auto
  then have "\<forall>p\<in>set (ptrs[i := ?p]). pointers_ok V N p"
    using assms(1) unfolding net_shape_def by (intro list_update_all) blast
  moreover have "map produced (ptrs[i := ?p]) = map produced ptrs"
    using assms(2,3) by (simp add: map_update list_update_same_conv produced_def)
  ultimately show ?thesis using assms(1) by (simp add: net_shape_def)
qed

lemma net_shape_out:
  assumes "net_shape V N ptrs" "i < length ptrs" "ptrs ! i = (ins, outs, tins, touts)" "length mid = V" "length out = V"
    "set (mid @ out) \<subseteq> {..<N}" "distinct (mid @ out)" "set (mid @ out) \<inter> set (concat (map produced ptrs)) = {}"
    "set mid \<inter> set (concat ins) = {}"
  shows "net_shape V N (ptrs[i := (ins, outs @ [mid], tins @ [mid], touts @ [out])])"
proof -
  let ?p = "(ins, outs @ [mid], tins @ [mid], touts @ [out])"
  have "set (produced (ptrs ! i)) \<subseteq> set (concat (map produced ptrs))" using nth_mem [OF assms(2)] by auto
  moreover have "produced (ptrs ! i) = concat outs @ concat touts" by (simp add: assms(3) produced_def)
  ultimately have "set (mid @ out) \<inter> set (concat outs @ concat touts) = {}" using assms(8) by (simp only:) blast
  moreover have "pointers_ok V N (ptrs ! i)" using assms(1) nth_mem [OF assms(2)] unfolding net_shape_def by blast
  ultimately have "pointers_ok V N ?p" using assms(4-7,9) unfolding assms(3) pointers_ok_def prod.case by auto
  then have "\<forall>p\<in>set (ptrs[i := ?p]). pointers_ok V N p"
    using assms(1) unfolding net_shape_def by (intro list_update_all) blast
  moreover have "mset (concat (map produced (ptrs[i := ?p]))) = mset (concat (map produced ptrs)) + mset (mid @ out)"
    by (rule mset_concat_update [OF assms(2)]) (simp add: assms(3) produced_def)
  then have "distinct (concat (map produced (ptrs[i := ?p]))) = distinct (concat (map produced ptrs) @ mid @ out)"
    by (intro mset_eq_imp_distinct_iff) simp
  then have "distinct (concat (map produced (ptrs[i := ?p])))" using assms(1,7,8) unfolding net_shape_def by auto
  ultimately show ?thesis by (simp add: net_shape_def)
qed

lemma net_shape_mono: "\<lbrakk> net_shape V N ptrs; N \<le> N' \<rbrakk> \<Longrightarrow> net_shape V N' ptrs"
  unfolding net_shape_def pointers_ok_def by fastforce

text \<open>Where the pointers of a network under construction go: \<open>I\<close> are the machines whose queues to the network are connected,
  \<open>O\<close> those whose queues from it are.\<close>

definition rows_of :: "nat list list \<Rightarrow> nat set \<Rightarrow> nat set" where
  "rows_of rows I = (\<Union>d\<in>I. set (rows ! d))"

definition wired ::
  "nat \<Rightarrow> nat \<Rightarrow> nat list list \<Rightarrow> nat list list \<Rightarrow> nat set \<Rightarrow> nat set \<Rightarrow> nat \<Rightarrow> pointers list \<Rightarrow> bool" where
  "wired V Q tonet fromnet I outI N ptrs \<longleftrightarrow> net_shape V N ptrs \<and>
     (\<forall>(ins, outs, tins, touts)\<in>set ptrs. set (concat ins) \<subseteq> {Q..} \<union> rows_of tonet I \<and> set (concat outs) \<subseteq> {Q..} \<and>
        set (concat touts) \<subseteq> {Q..} \<union> rows_of fromnet outI)"

text \<open>What the queues of the machines promise to the construction: they are different buffers, below \<open>Q\<close>.\<close>

locale queue_layout =
  fixes V Q nodes :: nat and tonet fromnet :: "nat list list"
  assumes rows: "length tonet = nodes" "length fromnet = nodes" "d < nodes \<Longrightarrow> length (tonet ! d) = V" "d < nodes \<Longrightarrow> length (fromnet ! d) = V"
    and row_distinct: "d < nodes \<Longrightarrow> distinct (tonet ! d)" "d < nodes \<Longrightarrow> distinct (fromnet ! d)"
    and row_below: "d < nodes \<Longrightarrow> set (tonet ! d) \<subseteq> {..<Q}" "d < nodes \<Longrightarrow> set (fromnet ! d) \<subseteq> {..<Q}"
    and row_disjoint: "\<lbrakk> d < nodes; e < nodes; d \<noteq> e \<rbrakk> \<Longrightarrow> set (tonet ! d) \<inter> set (tonet ! e) = {}"
      "\<lbrakk> d < nodes; e < nodes; d \<noteq> e \<rbrakk> \<Longrightarrow> set (fromnet ! d) \<inter> set (fromnet ! e) = {}"
      "\<lbrakk> d < nodes; e < nodes \<rbrakk> \<Longrightarrow> set (tonet ! d) \<inter> set (fromnet ! e) = {}"
begin

lemma fresh_to: "\<lbrakk> d < nodes; I \<subseteq> {..<nodes}; d \<notin> I \<rbrakk> \<Longrightarrow> set (tonet ! d) \<inter> ({Q..} \<union> rows_of tonet I) = {}"
  using row_below(1) [of d] row_disjoint(1) [of d] unfolding rows_of_def by fastforce

lemma fresh_from: "\<lbrakk> d < nodes; I \<subseteq> {..<nodes}; d \<notin> I \<rbrakk> \<Longrightarrow> set (fromnet ! d) \<inter> ({Q..} \<union> rows_of fromnet I) = {}"
  using row_below(2) [of d] row_disjoint(2) [of d] unfolding rows_of_def by fastforce

lemma to_not_produced: "\<lbrakk> d < nodes; I \<subseteq> {..<nodes} \<rbrakk> \<Longrightarrow> set (tonet ! d) \<inter> ({Q..} \<union> rows_of fromnet I) = {}"
  using row_below(1) [of d] row_disjoint(3) [of d] unfolding rows_of_def by fastforce

lemma wired_produced: "wired V Q tonet fromnet I outI N ptrs \<Longrightarrow> set (concat (map produced ptrs)) \<subseteq> {Q..} \<union> rows_of fromnet outI"
  unfolding wired_def produced_def by fastforce

end

text \<open>The queues that the constructor makes are laid out so.\<close>

definition to_rows :: "nat \<Rightarrow> nat \<Rightarrow> nat list list" where
  "to_rows V nodes = map (\<lambda>node. map (queue_address V node) [0..<V]) [0..<nodes]"

definition from_rows :: "nat \<Rightarrow> nat \<Rightarrow> nat list list" where
  "from_rows V nodes = map (\<lambda>node. map (\<lambda>j. Suc (queue_address V node j)) [0..<V]) [0..<nodes]"

lemma queue_address_inj: "\<lbrakk> queue_address V d j = queue_address V e j'; j < V; j' < V \<rbrakk> \<Longrightarrow> d = e \<and> j = j'"
proof -
  assume a: "queue_address V d j = queue_address V e j'" "j < V" "j' < V"
  then have eq: "d * V + j = e * V + j'" by (simp add: queue_address_def)
  have "(d * V + j) div V = d" "(e * V + j') div V = e" using a(2,3) by simp_all
  then have "d = e" using eq by simp
  then show ?thesis using eq by simp
qed

lemma queue_address_less: "\<lbrakk> d < nodes; j < V \<rbrakk> \<Longrightarrow> Suc (queue_address V d j) < 2 * (nodes * V)"
proof -
  assume a: "d < nodes" "j < V"
  then have "Suc d * V \<le> nodes * V" by (intro mult_le_mono1) simp
  then have "d * V + j < nodes * V" using a(2) by simp
  then show ?thesis unfolding queue_address_def by simp
qed

lemma queue_address_even: "queue_address V d j \<noteq> Suc (queue_address V e j')"
proof
  assume "queue_address V d j = Suc (queue_address V e j')"
  then have "even (Suc (queue_address V e j'))" by (metis dvd_triv_left queue_address_def)
  then show False by (simp add: queue_address_def)
qed

interpretation nq: queue_layout V "2 * (nodes * V)" nodes "to_rows V nodes" "from_rows V nodes" for V nodes
proof unfold_locales
  show "set (to_rows V nodes ! d) \<subseteq> {..<2 * (nodes * V)}" "set (from_rows V nodes ! d) \<subseteq> {..<2 * (nodes * V)}" if "d < nodes" for d
    using that queue_address_less [OF that] Suc_lessD [OF queue_address_less [OF that]] by (auto simp: to_rows_def from_rows_def)
  show "set (to_rows V nodes ! d) \<inter> set (to_rows V nodes ! e) = {}" "set (from_rows V nodes ! d) \<inter> set (from_rows V nodes ! e) = {}"
    if "d < nodes" "e < nodes" "d \<noteq> e" for d e
    using that queue_address_inj [of V d _ e] by (auto simp: to_rows_def from_rows_def)
  show "set (to_rows V nodes ! d) \<inter> set (from_rows V nodes ! e) = {}" if "d < nodes" "e < nodes" for d e
    using that queue_address_even [of V d _ e] by (auto simp: to_rows_def from_rows_def)
  have "inj_on (queue_address V d) {0..<V}" for d by (rule inj_onI) (use queue_address_inj [of V d _ d] in simp)
  then show "distinct (to_rows V nodes ! d)" "distinct (from_rows V nodes ! d)" if "d < nodes" for d
    using that by (simp_all add: to_rows_def from_rows_def distinct_map inj_on_def)
qed (simp_all add: to_rows_def from_rows_def)

section \<open>The network under construction\<close>

definition store_built :: "nat \<Rightarrow> nat \<Rightarrow> nat set \<Rightarrow> 'b node_buffer list \<Rightarrow> bool" where
  "store_built V nodes I st \<longleftrightarrow> 2 * (nodes * V) \<le> length st \<and> (\<forall>b\<in>set st. idle b) \<and>
     (\<forall>a<length st. 2 * (nodes * V) \<le> a \<longrightarrow> m_ordering_set (st ! a) \<and> mb_consumer_ptr (st ! a) \<noteq> None) \<and>
     (\<forall>d<nodes. d \<notin> I \<longrightarrow> (\<forall>a\<in>set (to_rows V nodes ! d). mb_consumer_ptr (st ! a) = None)) \<and>
     (\<forall>d<nodes. d \<in> I \<longrightarrow> (\<forall>a\<in>set (to_rows V nodes ! d). mb_consumer_ptr (st ! a) \<noteq> None))"

text \<open>A link to machine \<open>d\<close>, and that only.\<close>

definition exit_for :: "nat list \<Rightarrow> nat list \<Rightarrow> nat \<Rightarrow> 'b net_switch list \<Rightarrow> bool" where
  "exit_for counts row d sws \<longleftrightarrow> (\<exists>i<length sws. \<exists>l<length (m_throttles (sws ! i)). nt_out (m_throttles (sws ! i) ! l) = row \<and>
     l < length (m_routing_table (sw_perfect (sws ! i))) \<and>
     nd_elems (m_routing_table (sw_perfect (sws ! i)) ! l) \<subseteq> {m. machine_number counts m = d})"

definition entry_in :: "'b net_switch list \<Rightarrow> nat \<times> net_dest \<Rightarrow> bool" where
  "entry_in sws = (\<lambda>(i, e). i < length sws \<and> e \<in> set (m_routing_table (sw_perfect (sws ! i))))"

text \<open>Who is woken by a buffer: a switch by its incoming buffers, a throttle by those between the switch and it.\<close>

definition hooked :: "'b node_buffer list \<Rightarrow> 'b net_switch list \<Rightarrow> bool" where
  "hooked st sws \<longleftrightarrow> (\<forall>i<length sws. ps_this (sw_perfect (sws ! i)) = SwitchC i \<and> m_switch_id (sws ! i) = i \<and>
     (\<forall>a\<in>set (concat (sw_in (sws ! i))). mb_consumer_ptr (st ! a) = Some (SwitchC i)) \<and>
     (\<forall>l<length (m_throttles (sws ! i)). \<forall>a\<in>set (nt_in (m_throttles (sws ! i) ! l)). mb_consumer_ptr (st ! a) = Some (ThrottleC i l)))"

text \<open>Where a buffer leads: the buffers in \<open>enter\<close> are incoming ones of a switch, and those that a throttle fills are in
  \<open>leave\<close> or incoming ones of a switch.\<close>

definition reads :: "'b net_switch list \<Rightarrow> nat \<Rightarrow> bool" where
  "reads sws a \<longleftrightarrow> (\<exists>sw\<in>set sws. a \<in> set (concat (sw_in sw)))"

definition led :: "nat set \<Rightarrow> nat set \<Rightarrow> 'b net_switch list \<Rightarrow> bool" where
  "led enter leave sws \<longleftrightarrow> (\<forall>a\<in>enter. reads sws a) \<and>
     (\<forall>sw\<in>set sws. \<forall>t\<in>set (m_throttles sw). \<forall>a\<in>set (nt_out t). a \<in> leave \<or> reads sws a)"

lemma reads_update:
  assumes "reads sws a" "i < length sws" "set (concat (sw_in (sws ! i))) \<subseteq> set (concat (sw_in sw'))"
  shows "reads (sws[i := sw']) a"
proof -
  obtain j where j: "j < length sws" "a \<in> set (concat (sw_in (sws ! j)))"
    using assms(1) unfolding reads_def by (metis in_set_conv_nth)
  have "a \<in> set (concat (sw_in (sws[i := sw'] ! j)))" using j assms(3) by (cases "j = i") auto
  then show ?thesis using j(1) unfolding reads_def by (metis length_list_update nth_mem)
qed

lemma led_update:
  assumes "led enter leave sws" "i < length sws" "set (concat (sw_in (sws ! i))) \<subseteq> set (concat (sw_in sw'))"
    "leave \<subseteq> leave'" "\<forall>a\<in>enter' - enter. reads (sws[i := sw']) a"
    "\<forall>t\<in>set (m_throttles sw') - set (m_throttles (sws ! i)). \<forall>a\<in>set (nt_out t). a \<in> leave' \<or> reads (sws[i := sw']) a"
  shows "led enter' leave' (sws[i := sw'])"
proof -
  note up = reads_update [OF _ assms(2,3)]
  have old: "a \<in> leave' \<or> reads (sws[i := sw']) a" if "sw \<in> set sws" "t \<in> set (m_throttles sw)" "a \<in> set (nt_out t)" for sw t a
    using assms(1,4) that up unfolding led_def by blast
  have "a \<in> leave' \<or> reads (sws[i := sw']) a" if h: "sw \<in> set (sws[i := sw'])" "t \<in> set (m_throttles sw)" "a \<in> set (nt_out t)" for sw t a
  proof (cases "sw = sw'")
    case True
    then show ?thesis using h(2,3) assms(6) old [OF nth_mem [OF assms(2)], of t a] by blast
  next
    case False
    then have "sw \<in> set sws" using h(1) set_update_subset_insert [of sws i sw'] by blast
    then show ?thesis using old h(2,3) by blast
  qed
  then show ?thesis using assms(1,5) up unfolding led_def by blast
qed

lemma hooked_in:
  assumes "hooked st sws" "i < length sws" "set row \<subseteq> {..<length st + k}"
    "\<And>sw. sw \<in> set sws \<Longrightarrow> set (concat (sw_in sw) @ concat (map nt_in (m_throttles sw))) \<subseteq> {..<length st} - set row"
  shows "hooked (update_at (set row) (consume (ps_this (sw_perfect (sws ! i)))) (st @ replicate k b))
    (sws[i := (sws ! i)\<lparr>sw_in := sw_in (sws ! i) @ [row]\<rparr>])" (is "hooked ?st ?sws")
proof -
  have me: "ps_this (sw_perfect (sws ! i)) = SwitchC i" using assms(1,2) by (simp add: hooked_def)
  have keep: "?st ! a = st ! a" if h: "j < length sws" "a \<in> set (concat (sw_in (sws ! j)) @ concat (map nt_in (m_throttles (sws ! j))))" for j a
  proof -
    have "a < length st" "a \<notin> set row" using assms(4) [OF nth_mem [OF h(1)]] h(2) by blast+
    then show ?thesis by (simp add: nth_append)
  qed
  have new: "mb_consumer_ptr (?st ! a) = Some (SwitchC i)" if "a \<in> set row" for a
    using that assms(3) me by auto
  show ?thesis unfolding hooked_def
  proof (intro allI impI conjI ballI)
    fix j assume j: "j < length ?sws"
    then have jl: "j < length sws" by simp
    have old: "ps_this (sw_perfect (sws ! j)) = SwitchC j" "m_switch_id (sws ! j) = j"
      "\<And>a. a \<in> set (concat (sw_in (sws ! j))) \<Longrightarrow> mb_consumer_ptr (st ! a) = Some (SwitchC j)"
      "\<And>l a. \<lbrakk> l < length (m_throttles (sws ! j)); a \<in> set (nt_in (m_throttles (sws ! j) ! l)) \<rbrakk> \<Longrightarrow>
         mb_consumer_ptr (st ! a) = Some (ThrottleC j l)"
      using assms(1) jl unfolding hooked_def by blast+
    have eq: "m_throttles (?sws ! j) = m_throttles (sws ! j)" by (cases "j = i") (use j in auto)
    show "ps_this (sw_perfect (?sws ! j)) = SwitchC j" "m_switch_id (?sws ! j) = j" by (cases "j = i"; use j old in auto)+
    show "mb_consumer_ptr (?st ! a) = Some (SwitchC j)" if a: "a \<in> set (concat (sw_in (?sws ! j)))" for a
    proof (cases "a \<in> set (concat (sw_in (sws ! j)))")
      case True
      then show ?thesis using keep [of j a] old(3) j by simp
    next
      case False
      then have "j = i" "a \<in> set row" using a j by (cases "j = i"; auto)+
      then show ?thesis using new by simp
    qed
    show "mb_consumer_ptr (?st ! a) = Some (ThrottleC j l)"
      if h: "l < length (m_throttles (?sws ! j))" "a \<in> set (nt_in (m_throttles (?sws ! j) ! l))" for l a
    proof -
      have "a \<in> set (concat (map nt_in (m_throttles (sws ! j))))" using h unfolding eq by (auto intro!: bexI [of _ "m_throttles (sws ! j) ! l"])
      then show ?thesis using keep [of j a] old(4) [of l a] h j unfolding eq by simp
    qed
  qed
qed

lemma hooked_out:
  assumes "hooked st sws" "i < length sws"
    "\<And>sw. sw \<in> set sws \<Longrightarrow> set (concat (sw_in sw) @ concat (map nt_in (m_throttles sw))) \<subseteq> {..<length st}"
  shows "hooked (st @ replicate V (consume (ThrottleC (m_switch_id (sws ! i)) (length (m_throttles (sws ! i)))) b))
    (sws[i := add_link [length st..<length st + V] out entry latency bw (sws ! i)])" (is "hooked ?st ?sws")
proof -
  have keep: "?st ! a = st ! a" if h: "j < length sws" "a \<in> set (concat (sw_in (sws ! j)) @ concat (map nt_in (m_throttles (sws ! j))))" for j a
    using assms(3) [OF nth_mem [OF h(1)]] h(2) by (auto simp: nth_append)
  have id: "m_switch_id (sws ! i) = i" using assms(1,2) by (simp add: hooked_def)
  show ?thesis unfolding hooked_def
  proof (intro allI impI conjI ballI)
    fix j assume j: "j < length ?sws"
    then have jl: "j < length sws" by simp
    have old: "ps_this (sw_perfect (sws ! j)) = SwitchC j" "m_switch_id (sws ! j) = j"
      "\<And>a. a \<in> set (concat (sw_in (sws ! j))) \<Longrightarrow> mb_consumer_ptr (st ! a) = Some (SwitchC j)"
      "\<And>l a. \<lbrakk> l < length (m_throttles (sws ! j)); a \<in> set (nt_in (m_throttles (sws ! j) ! l)) \<rbrakk> \<Longrightarrow>
         mb_consumer_ptr (st ! a) = Some (ThrottleC j l)"
      using assms(1) jl unfolding hooked_def by blast+
    have eq: "sw_in (?sws ! j) = sw_in (sws ! j)" by (cases "j = i") (use j in \<open>auto simp: add_link_def\<close>)
    show "ps_this (sw_perfect (?sws ! j)) = SwitchC j" "m_switch_id (?sws ! j) = j"
      by (cases "j = i"; use j old in \<open>auto simp: add_link_def\<close>)+
    show "mb_consumer_ptr (?st ! a) = Some (SwitchC j)" if a: "a \<in> set (concat (sw_in (?sws ! j)))" for a
      using keep [of j a] old(3) j a unfolding eq by simp
    show "mb_consumer_ptr (?st ! a) = Some (ThrottleC j l)"
      if h: "l < length (m_throttles (?sws ! j))" "a \<in> set (nt_in (m_throttles (?sws ! j) ! l))" for l a
    proof (cases "l < length (m_throttles (sws ! j))")
      case True
      then have a: "a \<in> set (nt_in (m_throttles (sws ! j) ! l))" using h(2) j by (cases "j = i") (auto simp: add_link_def nth_append)
      then have "a \<in> set (concat (map nt_in (m_throttles (sws ! j))))" using True by (auto intro!: bexI [of _ "m_throttles (sws ! j) ! l"])
      then show ?thesis using keep [of j a] old(4) [OF True a] j by simp
    next
      case False
      then have l: "j = i" "l = length (m_throttles (sws ! i))" "a \<in> {length st..<length st + V}"
        using h j by (cases "j = i"; auto simp: add_link_def nth_append)+
      then show ?thesis using id by (auto simp: nth_append)
    qed
  qed
qed

definition net_built ::
  "nat \<Rightarrow> nat \<Rightarrow> nat list \<Rightarrow> nat set \<Rightarrow> nat set \<Rightarrow> (nat \<times> net_dest) set \<Rightarrow> 'b simple_network \<Rightarrow> bool" where
  "net_built V nodes counts I outI E n \<longleftrightarrow> sn_nodes n = nodes \<and> sn_virtual_networks n = V \<and>
     m_toNetQueues n = to_rows V nodes \<and> m_fromNetQueues n = from_rows V nodes \<and> I \<subseteq> {..<nodes} \<and> outI \<subseteq> {..<nodes} \<and>
     store_built V nodes I (buffers n) \<and>
     wired V (2 * (nodes * V)) (to_rows V nodes) (from_rows V nodes) I outI (length (buffers n)) (map sw_pointers (m_switch_ptr_vector n)) \<and>
     (\<forall>sw\<in>set (m_switch_ptr_vector n). switch_built V counts sw) \<and>
     (\<forall>d\<in>outI. exit_for counts (from_rows V nodes ! d) d (m_switch_ptr_vector n)) \<and>
     (\<forall>e\<in>E. entry_in (m_switch_ptr_vector n) e) \<and> hooked (buffers n) (m_switch_ptr_vector n) \<and>
     led (rows_of (to_rows V nodes) I) (rows_of (from_rows V nodes) outI) (m_switch_ptr_vector n)"

text \<open>A switch that gets more links keeps those it has.\<close>

definition extends :: "'b net_switch \<Rightarrow> 'b net_switch \<Rightarrow> bool" where
  "extends sw sw' \<longleftrightarrow> (\<exists>ts es. m_throttles sw' = m_throttles sw @ ts \<and>
     m_routing_table (sw_perfect sw') = m_routing_table (sw_perfect sw) @ es)"

lemma extends_exit:
  assumes "exit_for counts row d sws" "extends (sws ! i) sw'"
  shows "exit_for counts row d (sws[i := sw'])"
proof -
  obtain j l where j: "j < length sws" "l < length (m_throttles (sws ! j))" "nt_out (m_throttles (sws ! j) ! l) = row"
      "l < length (m_routing_table (sw_perfect (sws ! j)))"
      "nd_elems (m_routing_table (sw_perfect (sws ! j)) ! l) \<subseteq> {m. machine_number counts m = d}"
    using assms(1) unfolding exit_for_def by blast
  have "l < length (m_throttles (sws[i := sw'] ! j)) \<and> nt_out (m_throttles (sws[i := sw'] ! j) ! l) = row \<and>
      l < length (m_routing_table (sw_perfect (sws[i := sw'] ! j))) \<and>
      nd_elems (m_routing_table (sw_perfect (sws[i := sw'] ! j)) ! l) \<subseteq> {m. machine_number counts m = d}"
    using assms(2) j by (cases "j = i") (auto simp: extends_def nth_append)
  then show ?thesis using j(1) unfolding exit_for_def by (intro exI [of _ j]) auto
qed

lemma extends_entry: "\<lbrakk> entry_in sws e; extends (sws ! i) sw' \<rbrakk> \<Longrightarrow> entry_in (sws[i := sw']) e"
  by (cases e; cases "fst e = i") (auto simp: entry_in_def extends_def)

lemma built_pointers:
  assumes "net_built V nodes counts I outI E n" "i < length (m_switch_ptr_vector n)" "m_switch_ptr_vector n ! i = sw"
  shows "switch_built V counts sw" "pointers_ok V (length (buffers n)) (sw_pointers sw)"
    "set (concat (sw_in sw)) \<subseteq> {..<length (buffers n)} \<inter> ({2 * (nodes * V)..} \<union> rows_of (to_rows V nodes) I)"
    "set (concat (sw_out sw)) \<subseteq> {2 * (nodes * V)..<length (buffers n)}"
    "set (concat (map produced (map sw_pointers (m_switch_ptr_vector n)))) \<subseteq>
       {..<length (buffers n)} \<inter> ({2 * (nodes * V)..} \<union> rows_of (from_rows V nodes) outI)"
proof -
  let ?ptrs = "map sw_pointers (m_switch_ptr_vector n)"
  have sw: "sw \<in> set (m_switch_ptr_vector n)" using nth_mem [OF assms(2)] assms(3) by simp
  have w: "wired V (2 * (nodes * V)) (to_rows V nodes) (from_rows V nodes) I outI (length (buffers n)) ?ptrs"
    using assms(1) by (simp add: net_built_def)
  have ok: "pointers_ok V (length (buffers n)) p" if "p \<in> set ?ptrs" for p using w that unfolding wired_def net_shape_def by blast
  show "switch_built V counts sw" using assms(1) sw by (simp add: net_built_def)
  show p: "pointers_ok V (length (buffers n)) (sw_pointers sw)" by (rule ok) (use sw in simp)
  have "sw_pointers sw \<in> set ?ptrs" using sw by simp
  then have "set (concat (sw_in sw)) \<subseteq> {2 * (nodes * V)..} \<union> rows_of (to_rows V nodes) I" "set (concat (sw_out sw)) \<subseteq> {2 * (nodes * V)..}"
    using w unfolding wired_def sw_pointers_def by fast+
  then show "set (concat (sw_in sw)) \<subseteq> {..<length (buffers n)} \<inter> ({2 * (nodes * V)..} \<union> rows_of (to_rows V nodes) I)"
    "set (concat (sw_out sw)) \<subseteq> {2 * (nodes * V)..<length (buffers n)}"
    using pointers_ok_facts(2) [OF p] unfolding set_append by fastforce+
  have "set (produced p) \<subseteq> {..<length (buffers n)}" if "p \<in> set ?ptrs" for p
    using ok [OF that] by (cases p) (auto simp: pointers_ok_def produced_def)
  then have "set (concat (map produced ?ptrs)) \<subseteq> {..<length (buffers n)}" unfolding set_concat set_map [of produced] by blast
  then show "set (concat (map produced ?ptrs)) \<subseteq> {..<length (buffers n)} \<inter> ({2 * (nodes * V)..} \<union> rows_of (from_rows V nodes) outI)"
    using nq.wired_produced [OF w] by blast
qed

lemma store_built_in:
  assumes "store_built V nodes I st" "I \<subseteq> I'" "{length st..<length st + k} \<subseteq> set row"
    "\<forall>d<nodes. d \<notin> I' \<longrightarrow> set (to_rows V nodes ! d) \<inter> set row = {}" "\<forall>d\<in>I' - I. set (to_rows V nodes ! d) \<subseteq> set row"
  shows "store_built V nodes I' (update_at (set row) (consume x) (st @ replicate k (new_link_buffer c)))" (is "store_built V nodes I' ?st")
proof -
  let ?Q = "2 * (nodes * V)"
  have Q: "?Q \<le> length st" using assms(1) by (simp add: store_built_def)
  have "idle (?st ! a)" if "a < length ?st" for a
    using assms(1) that nth_mem [of a st] by (auto simp: store_built_def nth_append)
  then have "\<forall>b\<in>set ?st. idle b" by (metis in_set_conv_nth)
  moreover have "m_ordering_set (?st ! a) \<and> mb_consumer_ptr (?st ! a) \<noteq> None" if "a < length ?st" "?Q \<le> a" for a
  proof (cases "a < length st")
    case True
    then show ?thesis using assms(1) that by (auto simp: store_built_def nth_append)
  next
    case False
    then have "a \<in> {length st..<length st + k}" using that(1) by simp
    then have "a \<in> set row" by (rule subsetD [OF assms(3)])
    then show ?thesis using False that(1) by (simp add: nth_append)
  qed
  moreover have "mb_consumer_ptr (?st ! a) = None" if "d < nodes" "d \<notin> I'" "a \<in> set (to_rows V nodes ! d)" for d a
  proof -
    have "a < length st" using nq.row_below(1) [OF that(1), of V] that(3) Q by auto
    moreover have "a \<notin> set row" using assms(4) that by blast
    ultimately show ?thesis using assms(1,2) that by (auto simp: store_built_def nth_append)
  qed
  moreover have "mb_consumer_ptr (?st ! a) \<noteq> None" if "d < nodes" "d \<in> I'" "a \<in> set (to_rows V nodes ! d)" for d a
  proof -
    have a: "a < length st" using nq.row_below(1) [OF that(1), of V] that(3) Q by auto
    have "d \<notin> I \<Longrightarrow> a \<in> set row" using assms(5) that(2,3) by blast
    then show ?thesis using assms(1) a that by (cases "d \<in> I") (auto simp: store_built_def nth_append)
  qed
  ultimately show ?thesis using Q by (simp add: store_built_def)
qed

lemma in_port_built:
  assumes b: "net_built V nodes counts I outI E n" and i: "i < length (m_switch_ptr_vector n)"
    and st: "st = buffers n @ replicate k (new_link_buffer c)"
    and row: "length row = V" "distinct row" "set row \<subseteq> {..<length st}" "{length (buffers n)..<length st} \<subseteq> set row"
      "\<forall>a\<in>set row. mb_consumer_ptr (st ! a) = None"
      "set row \<inter> ({2 * (nodes * V)..<length (buffers n)} \<union> rows_of (to_rows V nodes) I) = {}"
    and I': "I \<subseteq> I'" "I' \<subseteq> {..<nodes}" "set row \<subseteq> {2 * (nodes * V)..} \<union> rows_of (to_rows V nodes) I'"
      "\<forall>d<nodes. d \<notin> I' \<longrightarrow> set (to_rows V nodes ! d) \<inter> set row = {}" "\<forall>d\<in>I' - I. set (to_rows V nodes ! d) \<subseteq> set row"
  shows "\<exists>n'. with_switch i (sw_addInPort row) (n\<lparr>buffers := st\<rparr>) = Some n' \<and> net_built V nodes counts I' outI E n' \<and>
    length (m_switch_ptr_vector n') = length (m_switch_ptr_vector n) \<and> length (buffers n') = length st \<and>
    map produced (map sw_pointers (m_switch_ptr_vector n')) = map produced (map sw_pointers (m_switch_ptr_vector n)) \<and>
    (\<forall>a\<in>set row. reads (m_switch_ptr_vector n') a)"
proof -
  let ?sws = "m_switch_ptr_vector n" and ?sw = "m_switch_ptr_vector n ! i" and ?Q = "2 * (nodes * V)"
  let ?sw' = "?sw\<lparr>sw_in := sw_in ?sw @ [row]\<rparr>" and ?st = "update_at (set row) (consume (ps_this (sw_perfect ?sw))) st"
  let ?n = "n\<lparr>buffers := ?st, m_switch_ptr_vector := ?sws[i := ?sw']\<rparr>"
  note p = built_pointers [OF b i refl]
  have fresh: "set row \<inter> set (concat (sw_in ?sw) @ concat (sw_out ?sw)) = {}" using p(3,4) row(6) by fastforce
  have run: "with_switch i (sw_addInPort row) (n\<lparr>buffers := st\<rparr>) = Some ?n"
    using sw_addInPort_law [OF p(1) row(1,5) fresh] i by (simp add: with_switch_def)
  have "store_built V nodes I (buffers n)" using b by (simp add: net_built_def)
  then have sb: "store_built V nodes I' ?st" unfolding st by (rule store_built_in [OF _ I'(1) _ I'(4,5)]) (use row(4) st in simp)
  have w: "wired V ?Q (to_rows V nodes) (from_rows V nodes) I outI (length (buffers n)) (map sw_pointers ?sws)"
    using b by (simp add: net_built_def)
  have "sw_pointers ?sw = (sw_in ?sw, sw_out ?sw, map nt_in (m_throttles ?sw), map nt_out (m_throttles ?sw))" by (simp add: sw_pointers_def)
  moreover have "net_shape V (length st) (map sw_pointers ?sws)"
    by (rule net_shape_mono [of _ "length (buffers n)"]) (use w st in \<open>simp_all add: wired_def\<close>)
  ultimately have shape: "net_shape V (length st) ((map sw_pointers ?sws)[i := sw_pointers ?sw'])"
    using net_shape_in [of V "length st" "map sw_pointers ?sws" i "sw_in ?sw" "sw_out ?sw"] i row(1-3) fresh
    by (simp add: sw_pointers_def)
  have mono: "rows_of (to_rows V nodes) I \<subseteq> rows_of (to_rows V nodes) I'" using I'(1) by (auto simp: rows_of_def)
  let ?ok = "\<lambda>I (ins, outs, tins, touts). set (concat ins) \<subseteq> {?Q..} \<union> rows_of (to_rows V nodes) I \<and> set (concat outs) \<subseteq> {?Q..} \<and>
    set (concat touts) \<subseteq> {?Q..} \<union> rows_of (from_rows V nodes) outI"
  have old: "?ok I q" if "q \<in> set (map sw_pointers ?sws)" for q using w that unfolding wired_def by blast
  have all: "\<forall>q\<in>set (map sw_pointers ?sws). ?ok I' q" using old mono by fastforce
  moreover have "?ok I' (sw_pointers ?sw')"
    using bspec [OF all, of "sw_pointers ?sw"] nth_mem [OF i] I'(3) by (simp add: sw_pointers_def)
  ultimately have "\<forall>q\<in>set ((map sw_pointers ?sws)[i := sw_pointers ?sw']). ?ok I' q" by (rule list_update_all)
  then have "wired V ?Q (to_rows V nodes) (from_rows V nodes) I' outI (length ?st) (map sw_pointers (?sws[i := ?sw']))"
    using shape by (simp add: wired_def map_update)
  moreover have "\<forall>sw\<in>set (?sws[i := ?sw']). switch_built V counts sw"
    by (rule list_update_all) (use b p(1) in \<open>simp_all add: net_built_def switch_built_def\<close>)
  moreover have ext: "extends ?sw ?sw'" by (simp add: extends_def)
  have "\<forall>d\<in>outI. exit_for counts (from_rows V nodes ! d) d (?sws[i := ?sw'])" "\<forall>e\<in>E. entry_in (?sws[i := ?sw']) e"
    using b extends_exit [OF _ ext] extends_entry [OF _ ext] unfolding net_built_def by blast+
  moreover have rd: "reads (?sws[i := ?sw']) a" if "a \<in> set row" for a
    using that i unfolding reads_def by (intro bexI [of _ ?sw'] set_update_memI) auto
  have "set (concat (sw_in sw) @ concat (map nt_in (m_throttles sw))) \<subseteq> {..<length (buffers n)} - set row" if h: "sw \<in> set ?sws" for sw
  proof -
    obtain j where j: "j < length ?sws" "?sws ! j = sw" using h by (auto simp: in_set_conv_nth)
    note q = built_pointers [OF b j]
    have "concat (map nt_in (m_throttles sw)) = concat (sw_out sw)" using q(2) by (simp add: pointers_ok_def sw_pointers_def)
    then show ?thesis using q(3,4) row(6) by fastforce
  qed
  then have "hooked ?st (?sws[i := ?sw'])"
    using hooked_in [of "buffers n" ?sws i row k "new_link_buffer c"] b i row(3) unfolding st net_built_def by simp
  moreover have "led (rows_of (to_rows V nodes) I') (rows_of (from_rows V nodes) outI) (?sws[i := ?sw'])"
  proof (rule led_update [OF _ i])
    show "led (rows_of (to_rows V nodes) I) (rows_of (from_rows V nodes) outI) ?sws" using b by (simp add: net_built_def)
    have "rows_of (to_rows V nodes) I' - rows_of (to_rows V nodes) I \<subseteq> set row" using I'(5) by (auto simp: rows_of_def)
    then show "\<forall>a\<in>rows_of (to_rows V nodes) I' - rows_of (to_rows V nodes) I. reads (?sws[i := ?sw']) a" using rd by blast
  qed simp_all
  ultimately have "net_built V nodes counts I' outI E ?n"
    using b sb I'(2) unfolding net_built_def by simp
  moreover have "map produced (map sw_pointers (?sws[i := ?sw'])) = map produced (map sw_pointers ?sws)"
    using i by (simp add: map_update list_update_same_conv produced_def sw_pointers_def)
  ultimately show ?thesis using run rd by auto
qed

lemma store_built_out:
  assumes "store_built V nodes I st"
  shows "store_built V nodes I (st @ replicate k (consume x (new_link_buffer c)))"
proof -
  have "(st @ replicate k (consume x (new_link_buffer c))) ! a = st ! a" if "d < nodes" "a \<in> set (to_rows V nodes ! d)" for d a
    using nq.row_below(1) [OF that(1), of V] that(2) assms by (auto simp: store_built_def nth_append)
  then show ?thesis using assms by (auto simp: store_built_def nth_append)
qed

lemma switch_built_link:
  assumes "switch_built V counts sw" "length out = V" "nd_invar counts entry" "0 < latency" "0 < bw"
  shows "switch_built V counts (add_link mid out entry latency bw sw)"
  using assms by (auto simp: switch_built_def add_link_def built_throttle_def)

lemma out_port_built:
  assumes b: "net_built V nodes counts I outI E n" and i: "i < length (m_switch_ptr_vector n)"
    and out: "length out = V" "distinct out" "set out \<subseteq> {..<length (buffers n)}"
      "set out \<inter> set (concat (map produced (map sw_pointers (m_switch_ptr_vector n)))) = {}"
    and entry: "nd_invar counts entry" "0 < latency" "0 < bw"
    and outI': "outI \<subseteq> outI'" "outI' \<subseteq> {..<nodes}" "set out \<subseteq> {2 * (nodes * V)..} \<union> rows_of (from_rows V nodes) outI'"
      "\<forall>d\<in>outI' - outI. out = from_rows V nodes ! d \<and> nd_elems entry \<subseteq> {m. machine_number counts m = d}"
    and leads: "\<forall>a\<in>set out. a \<in> rows_of (from_rows V nodes) outI' \<or> reads (m_switch_ptr_vector n) a"
  shows "\<exists>n'. with_switch i (sw_addOutPort c out entry latency bw) n = Some n' \<and>
    net_built V nodes counts I outI' (insert (i, entry) E) n' \<and> length (m_switch_ptr_vector n') = length (m_switch_ptr_vector n)"
proof -
  let ?sws = "m_switch_ptr_vector n" and ?sw = "m_switch_ptr_vector n ! i" and ?Q = "2 * (nodes * V)" and ?N = "length (buffers n)"
  let ?mid = "[?N..<?N + V]" and ?tc = "ThrottleC (m_switch_id ?sw) (length (m_throttles ?sw))"
  let ?sw' = "add_link ?mid out entry latency bw ?sw" and ?st = "buffers n @ replicate V (consume ?tc (new_link_buffer c))"
  let ?n = "n\<lparr>buffers := ?st, m_switch_ptr_vector := ?sws[i := ?sw']\<rparr>"
  note p = built_pointers [OF b i refl]
  have run: "with_switch i (sw_addOutPort c out entry latency bw) n = Some ?n"
    using sw_addOutPort_law [OF p(1) out(1,3) entry(3)] i by (simp add: with_switch_def)
  have sb: "store_built V nodes I (buffers n)" using b by (simp add: net_built_def)
  then have sb': "store_built V nodes I ?st" by (rule store_built_out)
  have w: "wired V ?Q (to_rows V nodes) (from_rows V nodes) I outI ?N (map sw_pointers ?sws)" using b by (simp add: net_built_def)
  have ptr: "sw_pointers ?sw' = (sw_in ?sw, sw_out ?sw @ [?mid], map nt_in (m_throttles ?sw) @ [?mid], map nt_out (m_throttles ?sw) @ [out])"
    by (simp add: sw_pointers_def add_link_def)
  have "net_shape V (length ?st) ((map sw_pointers ?sws)[i := sw_pointers ?sw'])" unfolding ptr
  proof (rule net_shape_out)
    show "net_shape V (length ?st) (map sw_pointers ?sws)"
      by (rule net_shape_mono [of _ ?N]) (use w in \<open>simp_all add: wired_def\<close>)
    show "map sw_pointers ?sws ! i = (sw_in ?sw, sw_out ?sw, map nt_in (m_throttles ?sw), map nt_out (m_throttles ?sw))"
      using i by (simp add: sw_pointers_def)
    show "set (?mid @ out) \<subseteq> {..<length ?st}" "distinct (?mid @ out)" using out(2,3) by auto
    show "set (?mid @ out) \<inter> set (concat (map produced (map sw_pointers ?sws))) = {}"
      "set ?mid \<inter> set (concat (sw_in ?sw)) = {}" using p(3,5) out(4) unfolding set_append by fastforce+
  qed (use i out(1) in simp_all)
  moreover have mono: "rows_of (from_rows V nodes) outI \<subseteq> rows_of (from_rows V nodes) outI'" using outI'(1) by (auto simp: rows_of_def)
  let ?ok = "\<lambda>outI (ins, outs, tins, touts). set (concat ins) \<subseteq> {?Q..} \<union> rows_of (to_rows V nodes) I \<and> set (concat outs) \<subseteq> {?Q..} \<and>
    set (concat touts) \<subseteq> {?Q..} \<union> rows_of (from_rows V nodes) outI"
  have old: "?ok outI q" if "q \<in> set (map sw_pointers ?sws)" for q using w that unfolding wired_def by blast
  have all: "\<forall>q\<in>set (map sw_pointers ?sws). ?ok outI' q" using old mono by fastforce
  have "?Q \<le> ?N" using sb by (simp add: store_built_def)
  then have "?ok outI' (sw_pointers ?sw')"
    using bspec [OF all, of "sw_pointers ?sw"] nth_mem [OF i] outI'(3) unfolding ptr by (auto simp: sw_pointers_def)
  then have "\<forall>q\<in>set ((map sw_pointers ?sws)[i := sw_pointers ?sw']). ?ok outI' q" by (rule list_update_all [OF all])
  ultimately have w': "wired V ?Q (to_rows V nodes) (from_rows V nodes) I outI' (length ?st) (map sw_pointers (?sws[i := ?sw']))"
    by (simp add: wired_def map_update)
  have sws: "\<forall>sw\<in>set (?sws[i := ?sw']). switch_built V counts sw"
    by (rule list_update_all) (use b switch_built_link [OF p(1) out(1) entry] in \<open>simp_all add: net_built_def\<close>)
  have ext: "extends ?sw ?sw'" by (simp add: extends_def add_link_def)
  have exits: "exit_for counts (from_rows V nodes ! d) d (?sws[i := ?sw'])" if d: "d \<in> outI'" for d
  proof (cases "d \<in> outI")
    case True
    then show ?thesis using b extends_exit [OF _ ext] unfolding net_built_def by blast
  next
    case False
    then have o: "out = from_rows V nodes ! d" "nd_elems entry \<subseteq> {m. machine_number counts m = d}" using outI'(4) d by blast+
    have "length (m_throttles ?sw) = length (m_routing_table (sw_perfect ?sw))"
      using pointers_ok_facts(4) [OF p(2)] p(1) by (simp add: switch_built_def)
    then show ?thesis using i o unfolding exit_for_def
      by (intro exI [of _ i] conjI exI [of _ "length (m_throttles ?sw)"]) (simp_all add: add_link_def nth_append)
  qed
  have entries: "\<forall>e\<in>insert (i, entry) E. entry_in (?sws[i := ?sw']) e"
    using b extends_entry [OF _ ext] i unfolding net_built_def by (auto simp: entry_in_def add_link_def)
  have "set (concat (sw_in sw) @ concat (map nt_in (m_throttles sw))) \<subseteq> {..<?N}" if h: "sw \<in> set ?sws" for sw
  proof -
    obtain j where j: "j < length ?sws" "?sws ! j = sw" using h by (auto simp: in_set_conv_nth)
    note q = built_pointers [OF b j]
    have "concat (map nt_in (m_throttles sw)) = concat (sw_out sw)" using q(2) by (simp add: pointers_ok_def sw_pointers_def)
    then show ?thesis using q(3,4) by fastforce
  qed
  then have hk: "hooked ?st (?sws[i := ?sw'])" using hooked_out [of "buffers n" ?sws i V] b i unfolding net_built_def by simp
  have in_eq: "sw_in ?sw' = sw_in ?sw" by (simp add: add_link_def)
  have ld: "led (rows_of (to_rows V nodes) I) (rows_of (from_rows V nodes) outI') (?sws[i := ?sw'])"
  proof (rule led_update [OF _ i _ mono])
    show "led (rows_of (to_rows V nodes) I) (rows_of (from_rows V nodes) outI) ?sws" using b by (simp add: net_built_def)
    show "\<forall>t\<in>set (m_throttles ?sw') - set (m_throttles ?sw). \<forall>a\<in>set (nt_out t).
        a \<in> rows_of (from_rows V nodes) outI' \<or> reads (?sws[i := ?sw']) a"
      using leads reads_update [OF _ i, of _ ?sw'] unfolding in_eq by (auto simp: add_link_def)
  qed (simp_all add: in_eq)
  have "net_built V nodes counts I outI' (insert (i, entry) E) ?n"
    using b sb' w' sws exits entries outI'(2) hk ld unfolding net_built_def by simp
  then show ?thesis using run by auto
qed

section \<open>Making the links\<close>

fun in_nodes :: "link_call \<Rightarrow> nat list" where
  "in_nodes (InLink src _ _ _ _ _) = [src]"
| "in_nodes _ = []"

fun out_nodes :: "link_call \<Rightarrow> nat list" where
  "out_nodes (OutLink _ dest _ _ _ _ _) = [dest]"
| "out_nodes _ = []"

fun table_entries :: "link_call \<Rightarrow> (nat \<times> net_dest) list" where
  "table_entries (InLink _ _ _ _ _ _) = []"
| "table_entries (OutLink src _ entry _ _ _ _) = [(src, entry)]"
| "table_entries (InternalLink src _ entry _ _ _ _) = [(src, entry)]"

fun call_switches :: "link_call \<Rightarrow> nat set" where
  "call_switches (InLink _ dest _ _ _ _) = {dest}"
| "call_switches (OutLink src _ _ _ _ _ _) = {src}"
| "call_switches (InternalLink src dest _ _ _ _ _) = {src, dest}"

text \<open>Calls that the network can make for a topology with \<open>switches\<close> switches.\<close>

definition call_fits :: "nat list \<Rightarrow> nat \<Rightarrow> nat \<Rightarrow> link_call \<Rightarrow> bool" where
  "call_fits counts nodes switches call \<longleftrightarrow> call_wf nodes False call \<and> nd_invar counts (call_entry call) \<and> 0 < call_latency call \<and>
     0 < call_bw call \<and> call_switches call \<subseteq> {..<switches} \<and>
     (\<forall>d\<in>set (out_nodes call). nd_elems (call_entry call) \<subseteq> {m. machine_number counts m = d})"

lemma makeInLink_built:
  assumes "net_built V nodes counts I outI E n" "dest < length (m_switch_ptr_vector n)" "src < nodes" "src \<notin> I"
  shows "\<exists>n'. makeInLink src dest False n = Some n' \<and> net_built V nodes counts (insert src I) outI E n' \<and>
    length (m_switch_ptr_vector n') = length (m_switch_ptr_vector n)"
proof -
  let ?row = "to_rows V nodes ! src" and ?Q = "2 * (nodes * V)"
  have n: "sn_nodes n = nodes" "m_toNetQueues n = to_rows V nodes" "I \<subseteq> {..<nodes}" "store_built V nodes I (buffers n)"
    using assms(1) by (simp_all add: net_built_def)
  have "\<exists>n'. with_switch dest (sw_addInPort ?row) (n\<lparr>buffers := buffers n\<rparr>) = Some n' \<and> net_built V nodes counts (insert src I) outI E n' \<and>
      length (m_switch_ptr_vector n') = length (m_switch_ptr_vector n) \<and> length (buffers n') = length (buffers n) \<and>
      map produced (map sw_pointers (m_switch_ptr_vector n')) = map produced (map sw_pointers (m_switch_ptr_vector n)) \<and>
      (\<forall>a\<in>set ?row. reads (m_switch_ptr_vector n') a)"
  proof (rule in_port_built [OF assms(1,2)])
    show "buffers n = buffers n @ replicate 0 (new_link_buffer c)" for c by simp
    show "set ?row \<subseteq> {..<length (buffers n)}"
      using nq.row_below(1) [OF assms(3), of V] n(4) by (auto simp: store_built_def)
    show "\<forall>a\<in>set ?row. mb_consumer_ptr (buffers n ! a) = None" using n(4) assms(3,4) by (simp add: store_built_def)
    show "set ?row \<inter> ({?Q..<length (buffers n)} \<union> rows_of (to_rows V nodes) I) = {}"
      using nq.fresh_to [OF assms(3) n(3) assms(4), of V] by auto
    show "set ?row \<subseteq> {?Q..} \<union> rows_of (to_rows V nodes) (insert src I)" by (auto simp: rows_of_def)
    show "\<forall>d<nodes. d \<notin> insert src I \<longrightarrow> set (to_rows V nodes ! d) \<inter> set ?row = {}" using nq.row_disjoint(1) assms(3) by blast
  qed (use assms(3) n(3) nq.rows(3) nq.row_distinct(1) in auto)
  then show ?thesis using n(1,2) assms(3) by (auto simp: makeInLink_def)
qed

lemma makeOutLink_built:
  assumes "net_built V nodes counts I outI E n" "src < length (m_switch_ptr_vector n)" "dest < nodes" "dest \<notin> outI"
    "nd_invar counts entry" "0 < latency" "0 < bw" "nd_elems entry \<subseteq> {m. machine_number counts m = dest}"
  shows "\<exists>n'. makeOutLink c src dest entry latency bw False n = Some n' \<and>
    net_built V nodes counts I (insert dest outI) (insert (src, entry) E) n' \<and>
    length (m_switch_ptr_vector n') = length (m_switch_ptr_vector n)"
proof -
  let ?row = "from_rows V nodes ! dest"
  have n: "sn_nodes n = nodes" "m_fromNetQueues n = from_rows V nodes" "outI \<subseteq> {..<nodes}" "store_built V nodes I (buffers n)"
    using assms(1) by (simp_all add: net_built_def)
  have "\<exists>n'. with_switch src (sw_addOutPort c ?row entry latency bw) n = Some n' \<and>
      net_built V nodes counts I (insert dest outI) (insert (src, entry) E) n' \<and>
      length (m_switch_ptr_vector n') = length (m_switch_ptr_vector n)"
  proof (rule out_port_built [OF assms(1,2)])
    show "set ?row \<subseteq> {..<length (buffers n)}"
      using nq.row_below(2) [OF assms(3), of V] n(4) by (auto simp: store_built_def)
    show "set ?row \<inter> set (concat (map produced (map sw_pointers (m_switch_ptr_vector n)))) = {}"
      using nq.fresh_from [OF assms(3) n(3) assms(4), of V] built_pointers(5) [OF assms(1,2) refl] by blast
    show "set ?row \<subseteq> {2 * (nodes * V)..} \<union> rows_of (from_rows V nodes) (insert dest outI)" by (auto simp: rows_of_def)
    show "\<forall>d\<in>insert dest outI - outI. ?row = from_rows V nodes ! d \<and> nd_elems entry \<subseteq> {m. machine_number counts m = d}"
      using assms(8) by blast
    show "\<forall>a\<in>set ?row. a \<in> rows_of (from_rows V nodes) (insert dest outI) \<or> reads (m_switch_ptr_vector n) a"
      by (auto simp: rows_of_def)
  qed (use assms(3,5-7) n(3) nq.rows(4) nq.row_distinct(2) in auto)
  then show ?thesis using n(1,2) assms(2,3) by (auto simp: makeOutLink_def net_built_def)
qed

lemma makeInternalLink_built:
  assumes "net_built V nodes counts I outI E n" "src < length (m_switch_ptr_vector n)" "dest < length (m_switch_ptr_vector n)"
    "nd_invar counts entry" "0 < latency" "0 < bw"
  shows "\<exists>n'. makeInternalLink c src dest entry latency bw False n = Some n' \<and>
    net_built V nodes counts I outI (insert (src, entry) E) n' \<and> length (m_switch_ptr_vector n') = length (m_switch_ptr_vector n)"
proof -
  let ?N = "length (buffers n)" and ?st = "buffers n @ replicate V (new_link_buffer c)" and ?Q = "2 * (nodes * V)"
  let ?row = "[?N..<?N + V]"
  have n: "sn_virtual_networks n = V" "?Q \<le> ?N" "I \<subseteq> {..<nodes}" "outI \<subseteq> {..<nodes}"
    using assms(1) by (simp_all add: net_built_def store_built_def)
  have "\<exists>n'. with_switch dest (sw_addInPort ?row) (n\<lparr>buffers := ?st\<rparr>) = Some n' \<and> net_built V nodes counts I outI E n' \<and>
      length (m_switch_ptr_vector n') = length (m_switch_ptr_vector n) \<and> length (buffers n') = length ?st \<and>
      map produced (map sw_pointers (m_switch_ptr_vector n')) = map produced (map sw_pointers (m_switch_ptr_vector n)) \<and>
      (\<forall>a\<in>set ?row. reads (m_switch_ptr_vector n') a)"
  proof (rule in_port_built [OF assms(1,3) refl])
    show "\<forall>a\<in>set ?row. mb_consumer_ptr (?st ! a) = None" by (auto simp: nth_append)
    have low: "set (to_rows V nodes ! d) \<subseteq> {..<?N}" if "d < nodes" for d using nq.row_below(1) [OF that, of V] n(2) by fastforce
    then have "rows_of (to_rows V nodes) I \<subseteq> {..<?N}" using n(3) unfolding rows_of_def by fast
    then show "set ?row \<inter> ({?Q..<?N} \<union> rows_of (to_rows V nodes) I) = {}" by fastforce
    show "\<forall>d<nodes. d \<notin> I \<longrightarrow> set (to_rows V nodes ! d) \<inter> set ?row = {}" using low by fastforce
  qed (use n(2,3) in auto)
  then obtain n1 where n1: "with_switch dest (sw_addInPort ?row) (n\<lparr>buffers := ?st\<rparr>) = Some n1" "net_built V nodes counts I outI E n1"
      "length (m_switch_ptr_vector n1) = length (m_switch_ptr_vector n)" "length (buffers n1) = ?N + V"
      "map produced (map sw_pointers (m_switch_ptr_vector n1)) = map produced (map sw_pointers (m_switch_ptr_vector n))"
      "\<forall>a\<in>set ?row. reads (m_switch_ptr_vector n1) a" by auto
  have "\<exists>n'. with_switch src (sw_addOutPort c ?row entry latency bw) n1 = Some n' \<and>
      net_built V nodes counts I outI (insert (src, entry) E) n' \<and> length (m_switch_ptr_vector n') = length (m_switch_ptr_vector n1)"
  proof (rule out_port_built [OF n1(2)])
    show "set ?row \<inter> set (concat (map produced (map sw_pointers (m_switch_ptr_vector n1)))) = {}"
      unfolding n1(5) using built_pointers(5) [OF assms(1,2) refl] by fastforce
    show "\<forall>a\<in>set ?row. a \<in> rows_of (from_rows V nodes) outI \<or> reads (m_switch_ptr_vector n1) a" using n1(6) by blast
  qed (use n1(3,4) n(2,4) assms(2,4-6) in auto)
  then show ?thesis using n1(1,3) n(1) by (auto simp: makeInternalLink_def new_link_buffers_def)
qed

lemma make_link_built:
  assumes "net_built V nodes counts I outI E n" "call_fits counts nodes (length (m_switch_ptr_vector n)) call"
    "set (in_nodes call) \<inter> I = {}" "set (out_nodes call) \<inter> outI = {}"
  shows "\<exists>n'. make_link c call n = Some n' \<and>
    net_built V nodes counts (I \<union> set (in_nodes call)) (outI \<union> set (out_nodes call)) (E \<union> set (table_entries call)) n' \<and>
    length (m_switch_ptr_vector n') = length (m_switch_ptr_vector n)"
proof (cases call)
  case (InLink src dest entry latency bw reconf)
  then show ?thesis using makeInLink_built [OF assms(1), of dest src] assms(2-4) by (simp add: call_fits_def)
next
  case (OutLink src dest entry latency weight bw reconf)
  then show ?thesis using makeOutLink_built [OF assms(1), of src dest entry latency bw c] assms(2-4) by (simp add: call_fits_def)
next
  case (InternalLink src dest entry latency weight bw reconf)
  then show ?thesis using makeInternalLink_built [OF assms(1), of src dest entry latency bw c] assms(2-4) by (simp add: call_fits_def)
qed

lemma make_links_built:
  assumes "net_built V nodes counts I outI E n" "\<forall>call\<in>set calls. call_fits counts nodes (length (m_switch_ptr_vector n)) call"
    "distinct (concat (map in_nodes calls))" "set (concat (map in_nodes calls)) \<inter> I = {}"
    "distinct (concat (map out_nodes calls))" "set (concat (map out_nodes calls)) \<inter> outI = {}"
  shows "\<exists>n'. run_all (make_link c) calls n = Some n' \<and>
    net_built V nodes counts (I \<union> set (concat (map in_nodes calls))) (outI \<union> set (concat (map out_nodes calls)))
      (E \<union> set (concat (map table_entries calls))) n' \<and>
    length (m_switch_ptr_vector n') = length (m_switch_ptr_vector n)"
  using assms
proof (induction calls arbitrary: n I outI E)
  case (Cons call calls)
  obtain n1 where n1: "make_link c call n = Some n1"
      "net_built V nodes counts (I \<union> set (in_nodes call)) (outI \<union> set (out_nodes call)) (E \<union> set (table_entries call)) n1"
      "length (m_switch_ptr_vector n1) = length (m_switch_ptr_vector n)"
    using make_link_built [OF Cons.prems(1), of call c] Cons.prems(2,4,6) by auto
  have "set (concat (map in_nodes calls)) \<inter> (I \<union> set (in_nodes call)) = {}"
    "set (concat (map out_nodes calls)) \<inter> (outI \<union> set (out_nodes call)) = {}" using Cons.prems(3-6) by auto
  then show ?case using Cons.IH [OF n1(2)] n1(1,3) Cons.prems(2,3,5) by (auto simp: Un_assoc)
qed simp

lemma built_start:
  "net_built (NUMBER_OF_VIRTUAL_NETWORKS c) nodes counts {} {} {}
    ((SimpleNetwork_queues c nodes)\<lparr>m_switch_ptr_vector := map (Switch_new c) [0..<k]\<rparr>)"
proof -
  let ?V = "NUMBER_OF_VIRTUAL_NETWORKS c"
  have "concat (map produced (map sw_pointers (map (Switch_new c) [0..<k]))) = []"
    by (induction k) (simp_all add: produced_def sw_pointers_def Switch_new_def)
  moreover have "\<forall>p\<in>set (map sw_pointers (map (Switch_new c) [0..<k])). pointers_ok ?V N p" for N
    by (auto simp: pointers_ok_def sw_pointers_def Switch_new_def)
  ultimately have "net_shape ?V N (map sw_pointers (map (Switch_new c) [0..<k]))" for N
    unfolding net_shape_def by (metis distinct.simps(1))
  then have "wired ?V Q tonet fromnet {} {} N (map sw_pointers (map (Switch_new c) [0..<k]))" for Q tonet fromnet N
    by (auto simp: wired_def sw_pointers_def Switch_new_def)
  moreover have "switch_built ?V counts (Switch_new c i)" for i by (simp add: switch_built_def Switch_new_def PerfectSwitch_new_def)
  moreover have "store_built ?V nodes {} (replicate (2 * (nodes * ?V)) MessageBuffer_new)"
    using nq.row_below(1) [of _ nodes ?V] by (auto simp: store_built_def subset_iff) (simp add: MessageBuffer_new_def)
  moreover have "hooked st (map (Switch_new c) [0..<k])" "led (rows_of rows {}) (rows_of rows' {}) (map (Switch_new c) [0..<k])" for st rows rows'
    by (auto simp: hooked_def led_def rows_of_def Switch_new_def PerfectSwitch_new_def)
  ultimately show ?thesis
    by (auto simp: net_built_def SimpleNetwork_queues_def Let_def to_rows_def from_rows_def)
qed

section \<open>The machines attach\<close>

text \<open>A network in use: consumer and ordering of all queues of the machines are set, and nothing is in them.  This is for
  an example run of the network; the generated controllers attach only the virtual networks they use, and their
  code is not part of the model.\<close>

definition node_queues :: "'b simple_network \<Rightarrow> nat set" where
  "node_queues n = \<Union> (set ` (set (m_toNetQueues n) \<union> set (m_fromNetQueues n)))"

definition attached :: "'b simple_network \<Rightarrow> 'b simple_network \<Rightarrow> bool" where
  "attached n n' \<longleftrightarrow> n' = n\<lparr>buffers := buffers n'\<rparr> \<and> length (buffers n') = length (buffers n) \<and> (\<forall>b\<in>set (buffers n'). idle b) \<and>
     (\<forall>row\<in>set (m_toNetQueues n). \<forall>a\<in>set row. m_ordering_set (buffers n' ! a) \<and> mb_consumer_ptr (buffers n' ! a) = mb_consumer_ptr (buffers n ! a)) \<and>
     (\<forall>a<length (buffers n). a \<notin> node_queues n \<longrightarrow> buffers n' ! a = buffers n ! a) \<and>
     (\<forall>row\<in>set (m_fromNetQueues n). \<forall>a\<in>set row. m_ordering_set (buffers n' ! a) \<and> mb_consumer_ptr (buffers n' ! a) \<noteq> None)"

text \<open>What the inside of the network relies on: the buffers of the links are as they were made, and nothing is in them.\<close>

definition settled :: "'b simple_network \<Rightarrow> 'b simple_network \<Rightarrow> bool" where
  "settled n n' \<longleftrightarrow> length (buffers n') = length (buffers n) \<and> (\<forall>b\<in>set (buffers n'). idle b) \<and>
     (\<forall>a<length (buffers n). a \<notin> node_queues n \<longrightarrow> buffers n' ! a = buffers n ! a)"

lemma attached_settled: "attached n n' \<Longrightarrow> settled n n'"
  by (simp add: attached_def settled_def)

lemma built_settled: "net_built V nodes counts I outI E n \<Longrightarrow> settled n n"
  by (simp add: net_built_def store_built_def settled_def)

lemma settled_link:
  assumes "net_built V nodes counts I outI E n" "settled n n'" "a < length (buffers n)" "2 * (nodes * V) \<le> a" "0 \<le> latest"
  shows "link_buffer_ok R latest counts (buffers n' ! a)"
proof -
  have n: "m_toNetQueues n = to_rows V nodes" "m_fromNetQueues n = from_rows V nodes" "store_built V nodes I (buffers n)"
    using assms(1) by (simp_all add: net_built_def)
  have "row \<in> set (to_rows V nodes) \<union> set (from_rows V nodes) \<Longrightarrow> set row \<subseteq> {..<2 * (nodes * V)}" for row
    using nq.row_below [of _ nodes V] nq.rows(1,2) by (metis Un_iff in_set_conv_nth)
  then have "a \<notin> node_queues n" using assms(4) n(1,2) unfolding node_queues_def by fastforce
  then have "m_ordering_set (buffers n' ! a) \<and> mb_consumer_ptr (buffers n' ! a) \<noteq> None" "idle (buffers n' ! a)"
    using assms(2-4) n(3) by (simp_all add: settled_def store_built_def)
  then show ?thesis using assms(5) by (intro idle_link_ok) simp_all
qed

lemma attached_link:
  assumes "net_built V nodes counts I outI E n" "attached n n'" "a < length (buffers n)"
    "a \<in> {2 * (nodes * V)..} \<union> rows_of (from_rows V nodes) outI" "0 \<le> latest"
  shows "link_buffer_ok R latest counts (buffers n' ! a)"
proof (cases "2 * (nodes * V) \<le> a")
  case True
  then show ?thesis using settled_link [OF assms(1) attached_settled [OF assms(2)] assms(3)] assms(5) by blast
next
  case False
  have n: "m_fromNetQueues n = from_rows V nodes" "outI \<subseteq> {..<nodes}" using assms(1) by (simp_all add: net_built_def)
  then obtain d where d: "d < nodes" "a \<in> set (from_rows V nodes ! d)" using assms(4) False by (auto simp: rows_of_def)
  then have "from_rows V nodes ! d \<in> set (m_fromNetQueues n)" using n(1) nq.rows(2) by simp
  then have "m_ordering_set (buffers n' ! a) \<and> mb_consumer_ptr (buffers n' ! a) \<noteq> None" "idle (buffers n' ! a)"
    using assms(2,3) d(2) unfolding attached_def by auto
  then show ?thesis using assms(5) by (intro idle_link_ok) simp_all
qed

text \<open>All machines are in the tables of every switch.\<close>

definition covered :: "nat list \<Rightarrow> (nat \<times> net_dest) set \<Rightarrow> nat \<Rightarrow> bool" where
  "covered counts E k \<longleftrightarrow> (\<forall>i<k. \<forall>m\<in>all_machines counts. \<exists>e. (i, e) \<in> E \<and> m \<in> nd_elems e)"

lemma idle_routed: "(\<And>a. a \<in> set as \<Longrightarrow> idle (st ! a)) \<Longrightarrow> link_routed st entry as"
  by (simp add: link_routed_def idle_payloads)

lemma built_switch_ok:
  assumes b: "net_built V nodes counts I outI E n" and n': "settled n n'" and s: "queue_ok s" "0 \<le> m_globalTime s"
    and i: "i < length (m_switch_ptr_vector n)" "m_switch_ptr_vector n ! i = sw" and cov: "covered counts E (length (m_switch_ptr_vector n))"
  shows "switch_ok env counts (load_switch (buffers n') sw) s"
proof -
  let ?st = "buffers n'"
  note p = built_pointers [OF b i] and facts = pointers_ok_facts [OF built_pointers(2) [OF b i]]
  have sw: "m_virtual_networks (sw_perfect sw) = V" "m_link_order (sw_perfect sw) = map (\<lambda>l. (l, 0)) [0..<length (sw_out sw)]"
    "length (m_routing_table (sw_perfect sw)) = length (sw_out sw)" "\<forall>e\<in>set (m_routing_table (sw_perfect sw)). nd_invar counts e"
    using p(1) by (simp_all add: switch_built_def)
  have idle: "idle (?st ! a)" if "a < length (buffers n)" for a using n' that by (simp add: settled_def)
  have addr: "a < length (buffers n)" if "row \<in> set (sw_in sw) \<union> set (sw_out sw)" "a \<in> set row" for row a using facts(2) that by auto
  have "rows_ok (net_buffer_ok counts) V (map (load ?st) (sw_in sw))"
    unfolding rows_ok_load using facts(5) idle_net_ok idle addr by blast
  moreover have "rows_ok (link_buffer_ok (env_RANDOMIZATION env) (m_globalTime s + 1) counts) V (map (load ?st) (sw_out sw))"
    unfolding rows_ok_load
  proof (intro ballI conjI)
    fix row assume row: "row \<in> set (sw_out sw)"
    show "length row = V" using facts(5) row by blast
    fix a assume a: "a \<in> set row"
    then have "a \<in> {2 * (nodes * V)..<length (buffers n)}" using p(4) row by fastforce
    then show "link_buffer_ok (env_RANDOMIZATION env) (m_globalTime s + 1) counts (?st ! a)"
      using settled_link [OF b n'] s(2) by simp
  qed
  moreover have "links_routed (m_routing_table (sw_perfect sw)) (map (load ?st) (sw_out sw))"
    unfolding links_routed_load using idle_routed idle addr by (metis UnCI nth_mem)
  moreover have "all_machines counts \<subseteq> (\<Union>e\<in>set (m_routing_table (sw_perfect sw)). nd_elems e)"
  proof
    fix m assume "m \<in> all_machines counts"
    then obtain e where "(i, e) \<in> E" "m \<in> nd_elems e" using cov i(1) unfolding covered_def by blast
    moreover from this have "entry_in (m_switch_ptr_vector n) (i, e)" using b by (simp add: net_built_def)
    ultimately show "m \<in> (\<Union>e\<in>set (m_routing_table (sw_perfect sw)). nd_elems e)" using i(2) by (auto simp: entry_in_def)
  qed
  moreover have "set (map fst (m_link_order (sw_perfect sw))) = {..<length (sw_out sw)}" using sw(2) by (auto simp: comp_def)
  ultimately show ?thesis using s(1) sw by (simp add: switch_ok_def load_switch_def)
qed

lemma built_throttle_ok:
  assumes b: "net_built V nodes counts I outI E n" and n': "attached n n'" and s: "queue_ok s" "0 \<le> m_globalTime s"
    and i: "i < length (m_switch_ptr_vector n)" "m_switch_ptr_vector n ! i = sw" and l: "l < length (m_throttles sw)"
    and bw: "0 < g_endpoint_bandwidth env"
  shows "throttle_ok env counts (load_throttle (buffers n') (m_throttles sw ! l)) s"
    "link_routed (buffers n') entry (nt_out (m_throttles sw ! l))"
proof -
  let ?st = "buffers n'" and ?t = "m_throttles sw ! l" and ?th = "nt_throttle (m_throttles sw ! l)"
  note p = built_pointers [OF b i] and t = pointers_ok_throttle [OF built_pointers(2) [OF b i] l]
  have "?t \<in> set (m_throttles sw)" using l by simp
  then have th: "0 < m_link_latency ?th" "0 < m_link_bandwidth_multiplier ?th" "m_vnets ?th = V" "m_units_remaining ?th = replicate V 0"
      "\<And>k. length (m_message_counters ?th k) = V"
    using p(1) unfolding switch_built_def by blast+
  have idle: "idle (?st ! a)" if "a \<in> set (nt_in ?t @ nt_out ?t)" for a
  proof -
    have "a < length (buffers n')" using t(4) n' that unfolding attached_def by auto
    then show ?thesis using n' nth_mem [of a "buffers n'"] unfolding attached_def by blast
  qed
  show "link_routed ?st entry (nt_out ?t)" by (rule idle_routed) (rule idle, simp)
  have "set (nt_out ?t) \<subseteq> set (produced (sw_pointers sw))" by (rule t(7))
  also have "\<dots> \<subseteq> set (concat (map produced (map sw_pointers (m_switch_ptr_vector n))))" using nth_mem [OF i(1)] i(2) by auto
  finally have out: "set (nt_out ?t) \<subseteq> {..<length (buffers n)} \<inter> ({2 * (nodes * V)..} \<union> rows_of (from_rows V nodes) outI)" using p(5) by blast
  have "link_buffer_ok (env_RANDOMIZATION env) (m_globalTime s + m_link_latency ?th) counts (?st ! a)" if "a \<in> set (nt_out ?t)" for a
    by (rule attached_link [OF b n']) (use out that th(1) s(2) in auto)
  moreover have "net_buffer_ok counts (?st ! a)" if "a \<in> set (nt_in ?t)" for a by (rule idle_net_ok, rule idle) (use that in simp)
  ultimately show "throttle_ok env counts (load_throttle ?st ?t) s"
    using s(1) th bw t(5,6) by (simp add: throttle_ok_def load_throttle_def getLinkBandwidth_def) (simp add: load_def)
qed

text \<open>The finished network satisfies the invariant of its runs, and the machines it connects can send.\<close>

lemma built_net_ok:
  assumes b: "net_built V nodes counts I outI E n" and n': "attached n n'" and s: "queue_ok s" "0 \<le> m_globalTime s"
    and cov: "covered counts E (length (m_switch_ptr_vector n))" and bw: "0 < g_endpoint_bandwidth env"
  shows "net_ok env counts n' s"
proof -
  let ?sws = "m_switch_ptr_vector n"
  have eq: "m_switch_ptr_vector n' = ?sws" "sn_virtual_networks n' = V" "length (buffers n') = length (buffers n)"
    using n' b unfolding attached_def net_built_def by (metis simple_network.ext_inject simple_network.surjective simple_network.update_convs(3))+
  have "sw_ok env counts V (buffers n') s sw" if h: "sw \<in> set ?sws" for sw
  proof -
    obtain i where i: "i < length ?sws" "?sws ! i = sw" using h by (auto simp: in_set_conv_nth)
    have "m_virtual_networks (sw_perfect sw) = V" "m_round_robin_start (sw_perfect sw) = 0" "\<forall>t\<in>set (m_throttles sw). m_vnets (nt_throttle t) = V"
      using built_pointers(1) [OF b i] by (simp_all add: switch_built_def)
    then show ?thesis
      using built_switch_ok [OF b attached_settled [OF n'] s i cov] built_throttle_ok [OF b n' s i _ bw] by (auto simp: sw_ok_def)
  qed
  moreover have "\<forall>x\<in>set (buffers n'). net_buffer_ok counts x" using n' idle_net_ok unfolding attached_def by blast
  moreover have "net_shape V (length (buffers n)) (map sw_pointers ?sws)" using b by (simp add: net_built_def wired_def)
  ultimately show ?thesis using s(1) eq by (simp add: net_ok_def)
qed

lemma built_queues:
  assumes "net_built V nodes counts I {..<nodes} E n"
  shows "queues_ok counts n"
proof -
  let ?sws = "m_switch_ptr_vector n" and ?N = "length (buffers n)"
  have n: "m_toNetQueues n = to_rows V nodes" "m_fromNetQueues n = from_rows V nodes" "2 * (nodes * V) \<le> ?N"
    "\<forall>d<nodes. exit_for counts (from_rows V nodes ! d) d ?sws"
    "wired V (2 * (nodes * V)) (to_rows V nodes) (from_rows V nodes) I {..<nodes} ?N (map sw_pointers ?sws)"
    using assms(1) by (simp_all add: net_built_def store_built_def)
  have low: "a < ?N" if "d < nodes" "a \<in> set (to_rows V nodes ! d) \<union> set (from_rows V nodes ! d)" for a d
    using nq.row_below [OF that(1), of V] that(2) n(3) by fastforce
  have "a \<notin> set (produced (sw_pointers sw))" if "d < nodes" "a \<in> set (to_rows V nodes ! d)" "sw \<in> set ?sws" for a d sw
  proof -
    have "set (produced (sw_pointers sw)) \<subseteq> set (concat (map produced (map sw_pointers ?sws)))" using that(3) by auto
    then show ?thesis using nq.to_not_produced [OF that(1) subset_refl, of V] nq.wired_produced [OF n(5)] that(2) by blast
  qed
  then have to: "\<forall>row\<in>set (to_rows V nodes). \<forall>a\<in>set row. a < ?N \<and> (\<forall>(p, table)\<in>set (map sw_wiring ?sws). a \<notin> set (produced p))"
    using low nq.rows(1) by (auto simp: in_set_conv_nth [of _ "to_rows V nodes"] sw_wiring_def)
  have "\<exists>((ins, outs, tins, touts), table)\<in>set (map sw_wiring ?sws). \<exists>l<length touts. a \<in> set (touts ! l) \<and>
      nd_elems (table ! l) \<subseteq> {m. machine_number counts m = d}" if d: "d < nodes" "a \<in> set (from_rows V nodes ! d)" for d a
  proof -
    obtain i l where i: "i < length ?sws" "l < length (m_throttles (?sws ! i))" "nt_out (m_throttles (?sws ! i) ! l) = from_rows V nodes ! d"
        "nd_elems (m_routing_table (sw_perfect (?sws ! i)) ! l) \<subseteq> {m. machine_number counts m = d}"
      using n(4) d(1) unfolding exit_for_def by blast
    then show ?thesis using d(2) nth_mem [OF i(1)]
      by (intro bexI [of _ "sw_wiring (?sws ! i)"]) (auto simp: sw_wiring_def sw_pointers_def intro!: exI [of _ l])
  qed
  then have "\<forall>d<length (from_rows V nodes). \<forall>a\<in>set (from_rows V nodes ! d). a < ?N \<and>
      (\<exists>((ins, outs, tins, touts), table)\<in>set (map sw_wiring ?sws). \<exists>l<length touts. a \<in> set (touts ! l) \<and>
         nd_elems (table ! l) \<subseteq> {m. machine_number counts m = d})"
    using low nq.rows(2) by simp
  then show ?thesis using to n(1,2) unfolding queues_ok_def queues_wired_def by simp
qed

lemma built_queues_ok:
  assumes "net_built V nodes counts I {..<nodes} E n" "attached n n'"
  shows "queues_ok counts n'"
proof -
  have "m_switch_ptr_vector n' = m_switch_ptr_vector n" "m_toNetQueues n' = m_toNetQueues n" "m_fromNetQueues n' = m_fromNetQueues n"
      "length (buffers n') = length (buffers n)"
    using assms(2) unfolding attached_def by (metis simple_network.ext_inject simple_network.surjective simple_network.update_convs(3))+
  then show ?thesis using built_queues [OF assms(1)] by (simp add: queues_ok_def)
qed

lemma settled_empty: assumes "settled n n'" shows "net_deliveries n' = {#}"
proof -
  have "map buffer_deliveries (buffers n') = map (\<lambda>_. 0) (buffers n')"
    by (rule map_cong) (use assms in \<open>simp_all add: settled_def buffer_deliveries_payloads idle_payloads\<close>)
  then show ?thesis unfolding net_deliveries_def by (simp only: sum_list_0)
qed

lemma built_can_send:
  assumes "net_built V nodes counts I outI E n" "attached n n'" "d \<in> I" "v < V" "0 \<le> latest"
  shows "link_buffer_ok R latest counts (buffers n' ! (to_rows V nodes ! d ! v))"
proof -
  let ?a = "to_rows V nodes ! d ! v"
  have n: "m_toNetQueues n = to_rows V nodes" "I \<subseteq> {..<nodes}" "store_built V nodes I (buffers n)"
    using assms(1) by (simp_all add: net_built_def)
  then have d: "d < nodes" using assms(3) by blast
  have row: "to_rows V nodes ! d \<in> set (to_rows V nodes)" using d nq.rows(1) by simp
  have a: "?a \<in> set (to_rows V nodes ! d)" using assms(4) nq.rows(3) [OF d] by simp
  then have "?a < length (buffers n)" using nq.row_below(1) [OF d, of V] n(3) by (auto simp: store_built_def)
  then have "idle (buffers n' ! ?a)" using assms(2) by (simp add: attached_def)
  moreover have "\<forall>row\<in>set (to_rows V nodes). \<forall>a\<in>set row. m_ordering_set (buffers n' ! a) \<and>
      mb_consumer_ptr (buffers n' ! a) = mb_consumer_ptr (buffers n ! a)" using assms(2) n(1) unfolding attached_def by metis
  then have "m_ordering_set (buffers n' ! ?a) \<and> mb_consumer_ptr (buffers n' ! ?a) = mb_consumer_ptr (buffers n ! ?a)"
    using row a by blast
  moreover have "mb_consumer_ptr (buffers n ! ?a) \<noteq> None" using n(3) d assms(3) a by (simp add: store_built_def)
  ultimately show ?thesis using assms(5) by (intro idle_link_ok) simp_all
qed

text \<open>Such a network.\<close>

definition attach_nodes :: "'b simple_network \<Rightarrow> 'b simple_network" where
  "attach_nodes n = n\<lparr>buffers := map (\<lambda>a. if a \<in> \<Union> (set ` set (m_fromNetQueues n)) then consume (NodeC a) (setOrdering True (buffers n ! a))
     else if a \<in> \<Union> (set ` set (m_toNetQueues n)) then setOrdering True (buffers n ! a) else buffers n ! a) [0..<length (buffers n)]\<rparr>"

lemma setOrdering_simps [simp]: "idle (setOrdering x b) = idle b" "m_ordering_set (setOrdering x b)"
  "mb_consumer_ptr (setOrdering x b) = mb_consumer_ptr b"
  by (simp_all add: setOrdering_def idle_def)

lemma attach_nodes_attached:
  assumes "net_built V nodes counts I outI E n" shows "attached n (attach_nodes n)"
proof -
  have n: "m_toNetQueues n = to_rows V nodes" "m_fromNetQueues n = from_rows V nodes" "store_built V nodes I (buffers n)"
    using assms by (simp_all add: net_built_def)
  have low: "a < length (buffers n)" if h: "row \<in> set (to_rows V nodes) \<union> set (from_rows V nodes)" "a \<in> set row" for row a
  proof -
    obtain d where "d < nodes" "row = to_rows V nodes ! d \<or> row = from_rows V nodes ! d"
      using h(1) nq.rows(1,2) [of V nodes] by (auto simp: in_set_conv_nth)
    then show ?thesis using nq.row_below [of d nodes V] h(2) n(3) by (auto simp: store_built_def)
  qed
  have dis: "a \<notin> set row'" if h: "row \<in> set (to_rows V nodes)" "a \<in> set row" "row' \<in> set (from_rows V nodes)" for a row row'
  proof -
    obtain d e where "d < nodes" "row = to_rows V nodes ! d" "e < nodes" "row' = from_rows V nodes ! e"
      using h(1,3) nq.rows(1,2) [of V nodes] by (auto simp: in_set_conv_nth)
    then show ?thesis using nq.row_disjoint(3) [of d nodes e V] h(2) by blast
  qed
  have idle: "\<forall>a<length (buffers n). idle (buffers n ! a)" using n(3) by (simp add: store_built_def)
  then have "\<forall>b\<in>set (buffers (attach_nodes n)). idle b" by (auto simp: attach_nodes_def)
  moreover have "m_ordering_set (buffers (attach_nodes n) ! a) \<and> mb_consumer_ptr (buffers (attach_nodes n) ! a) = mb_consumer_ptr (buffers n ! a)"
    if h: "row \<in> set (to_rows V nodes)" "a \<in> set row" for row a
  proof -
    have "a < length (buffers n)" using low h by blast
    moreover have "a \<notin> \<Union> (set ` set (from_rows V nodes))" using dis [OF h] by blast
    moreover have "a \<in> \<Union> (set ` set (to_rows V nodes))" using h by blast
    ultimately show ?thesis by (simp add: attach_nodes_def n(1,2) del: UN_iff)
  qed
  moreover have "m_ordering_set (buffers (attach_nodes n) ! a) \<and> mb_consumer_ptr (buffers (attach_nodes n) ! a) \<noteq> None"
    if h: "row \<in> set (from_rows V nodes)" "a \<in> set row" for row a
  proof -
    have "a < length (buffers n)" using low h by blast
    moreover have "a \<in> \<Union> (set ` set (from_rows V nodes))" using h by blast
    ultimately show ?thesis by (simp add: attach_nodes_def n(2) del: UN_iff)
  qed
  moreover have "buffers (attach_nodes n) ! a = buffers n ! a" if "a < length (buffers n)" "a \<notin> node_queues n" for a
    using that by (simp add: attach_nodes_def node_queues_def)
  moreover have "attach_nodes n = n\<lparr>buffers := buffers (attach_nodes n)\<rparr>" "length (buffers (attach_nodes n)) = length (buffers n)"
    by (simp_all add: attach_nodes_def)
  ultimately show ?thesis unfolding attached_def n(1,2) by blast
qed

end
