(* ===== verification/Network_Crossbar.thy ===== *)
theory Network_Crossbar
  imports Network_Build
begin

text \<open>
  The network of the GPU configuration: \<open>SimpleNetwork_new\<close> with the crossbar of \<open>makeGPGPUSimCrossbar\<close> succeeds, and the
  network it makes is wired well.  A run of such a network, with all queues of the machines attached, is the example for the
  invariant of \<open>Simple_Network\<close>.
\<close>

section \<open>The calls of createLinks\<close>

text \<open>The link to a machine is on the way to that machine only: no link leaves the far end of it.\<close>

lemma out_link_entry:
  assumes "links_ok t" "m_nodes t = sum_list (machine_counts c)" "routed (num_switches t) (topology_weights t) D"
    "(s, m_nodes t + d) \<in> links t" "d < m_nodes t" "call_for c rc t D (s, m_nodes t + d) call" "m \<in> nd_elems (call_entry call)"
    "endpoint (machine_counts c) m < num_switches t"
  shows "machine_number (machine_counts c) m = d"
proof (rule ccontr)
  let ?W = "topology_weights t" and ?j = "m_nodes t + d" and ?e = "endpoint (machine_counts c) m" and ?n = "num_switches t"
  assume "machine_number (machine_counts c) m \<noteq> d"
  then have ne: "?j \<noteq> ?e" using assms(2) by (simp add: machine_number_def endpoint_def)
  have s: "s < ?n" "?j < ?n" using num_switches_bound [OF assms(1,4)] by blast+
  have "\<not> mat D ?j ?e < INFINITE_LATENCY"
  proof
    assume "mat D ?j ?e < INFINITE_LATENCY"
    then obtain k where k: "k < ?n" "k \<noteq> ?j" "mat ?W ?j k < INFINITE_LATENCY"
      using next_link [OF topology_weights_ok(1) [OF assms(1)] assms(3) s(2) assms(8) ne] by blast
    then have "(?j, k) \<in> links t" using topology_weights_mat(3) [OF assms(1) s(2) k(1)] by (cases "(?j, k) \<in> links t") auto
    then have "link_shape (m_nodes t) (m_number_of_switches t) (?j, k)" using assms(1) by (simp add: links_ok_def)
    then show False using assms(5) by (simp add: link_shape_def)
  qed
  moreover have "mat ?W s ?j + mat D ?j ?e = mat D s ?e"
    using assms(6,7) by (simp add: call_for_def link_is_shortest_path_to_node_def)
  moreover have "0 < mat ?W s ?j" using topology_weights_mat(2) [OF assms(1) s assms(4)] by simp
  moreover have "mat D s ?e \<le> mat ?W s ?e" using routed_least [OF assms(3) s(1) assms(8), of "[]"] by simp
  moreover have "mat ?W s ?e \<le> INFINITE_LATENCY"
    using topology_weights_mat(2,3) [OF assms(1) s(1) assms(8)] by (cases "(s, ?e) \<in> links t") (auto simp: INFINITE_LATENCY_def)
  ultimately show False by simp
qed

lemma link_vectors:
  assumes "links_ok t" "(i, j) \<in> links t"
  shows "mat (topology_latency t) i j \<in> set (m_links_latency_vector t)" "mat (topology_bw_multis t) i j \<in> set (m_bw_multiplier_vector t)"
proof -
  have len: "length (m_links_latency_vector t) = length (m_links_src_vector t)" "length (m_bw_multiplier_vector t) = length (m_links_src_vector t)"
    using assms(1) by (simp_all add: links_ok_def)
  note fill = fill_mat(2) [OF assms(1) const_matrix(1) num_switches_bound [OF assms] _ assms(2)]
  show "mat (topology_latency t) i j \<in> set (m_links_latency_vector t)" using fill [OF len(1)] by (simp add: topology_latency_def)
  show "mat (topology_bw_multis t) i j \<in> set (m_bw_multiplier_vector t)" using fill [OF len(2)] by (simp add: topology_bw_multis_def)
qed

text \<open>Topologies whose links the network can make: every machine has at most one link in and exactly one out.\<close>

definition ports_ok :: "nat list \<Rightarrow> topology \<Rightarrow> bool" where
  "ports_ok counts t \<longleftrightarrow> links_ok t \<and> m_nodes t = sum_list counts \<and> (\<forall>l\<in>set (m_links_latency_vector t). 0 < l) \<and>
     (\<forall>b\<in>set (m_bw_multiplier_vector t). 0 < b) \<and>
     (\<forall>a<m_nodes t. \<forall>s s'. (a, s) \<in> links t \<longrightarrow> (a, s') \<in> links t \<longrightarrow> s = s') \<and>
     (\<forall>d<m_nodes t. \<exists>!s. (s, m_nodes t + d) \<in> links t)"

lemma distinct_concat_key:
  assumes "distinct (map key xs)" "\<And>x. distinct (f x)"
    "\<And>x y a. \<lbrakk> x \<in> set xs; y \<in> set xs; a \<in> set (f x); a \<in> set (f y) \<rbrakk> \<Longrightarrow> key x = key y"
  shows "distinct (concat (map f xs))"
  using assms(1,3)
proof (induction xs)
  case (Cons x xs)
  have "a \<notin> set (concat (map f xs))" if a: "a \<in> set (f x)" for a
  proof
    assume "a \<in> set (concat (map f xs))"
    then obtain y where y: "y \<in> set xs" "a \<in> set (f y)" by auto
    then have "key x = key y" using Cons.prems(2) a by simp
    then show False using Cons.prems(1) y(1) by (metis distinct.simps(2) image_eqI list.map(2) set_map)
  qed
  moreover have "distinct (concat (map f xs))" using Cons by simp
  ultimately show ?case using assms(2) by auto
qed simp

lemma in_out_nodes:
  "a \<in> set (in_nodes call) \<Longrightarrow> fst (call_link n call) = a" "a \<in> set (out_nodes call) \<Longrightarrow> snd (call_link n call) = n + a"
  "\<lbrakk> a \<in> set (in_nodes call); call_wf n rc call \<rbrakk> \<Longrightarrow> a < n" "\<lbrakk> a \<in> set (out_nodes call); call_wf n rc call \<rbrakk> \<Longrightarrow> a < n"
  by (cases call; simp)+

lemma calls_ports:
  assumes "ports_ok counts t" "\<forall>call\<in>set calls. call_wf (m_nodes t) False call \<and> call_link (m_nodes t) call \<in> links t"
    "distinct (map (call_link (m_nodes t)) calls)" "links t \<subseteq> call_link (m_nodes t) ` set calls"
  shows "distinct (concat (map in_nodes calls))" "distinct (concat (map out_nodes calls))"
    "set (concat (map out_nodes calls)) = {..<m_nodes t}"
proof -
  let ?n = "m_nodes t"
  have d: "distinct (in_nodes x)" "distinct (out_nodes x)" for x by (cases x; simp)+
  have one_in: "s = s'" if "a < ?n" "(a, s) \<in> links t" "(a, s') \<in> links t" for a s s' using assms(1) that unfolding ports_ok_def by blast
  have one_out: "s = s'" if "d < ?n" "(s, ?n + d) \<in> links t" "(s', ?n + d) \<in> links t" for d s s' using assms(1) that unfolding ports_ok_def by blast
  show "distinct (concat (map in_nodes calls))"
  proof (rule distinct_concat_key [OF assms(3) d(1)])
    fix x y a assume xy: "x \<in> set calls" "y \<in> set calls" "a \<in> set (in_nodes x)" "a \<in> set (in_nodes y)"
    then have "fst (call_link ?n x) = a" "fst (call_link ?n y) = a" "a < ?n" using assms(2) in_out_nodes(1,3) by blast+
    then show "call_link ?n x = call_link ?n y" using one_in [of a] assms(2) xy(1,2) by (metis prod.collapse)
  qed
  show "distinct (concat (map out_nodes calls))"
  proof (rule distinct_concat_key [OF assms(3) d(2)])
    fix x y a assume xy: "x \<in> set calls" "y \<in> set calls" "a \<in> set (out_nodes x)" "a \<in> set (out_nodes y)"
    then have "snd (call_link ?n x) = ?n + a" "snd (call_link ?n y) = ?n + a" "a < ?n" using assms(2) in_out_nodes(2,4) by blast+
    then show "call_link ?n x = call_link ?n y" using one_out [of a] assms(2) xy(1,2) by (metis prod.collapse)
  qed
  have "a \<in> set (concat (map out_nodes calls))" if a: "a < ?n" for a
  proof -
    obtain s where "(s, ?n + a) \<in> links t" using assms(1) a unfolding ports_ok_def by blast
    then obtain call where call: "call \<in> set calls" "call_link ?n call = (s, ?n + a)" using assms(4) by fastforce
    have "a \<in> set (out_nodes call)" by (cases call) (use call(2) a in auto)
    then show ?thesis using call(1) by auto
  qed
  moreover have "a < ?n" if "a \<in> set (concat (map out_nodes calls))" for a using that assms(2) in_out_nodes(4) by auto
  ultimately show "set (concat (map out_nodes calls)) = {..<?n}" by blast
qed

lemma call_switches_less:
  assumes "call_wf n rc call" "link_shape n k (call_link n call)"
  shows "call_switches call \<subseteq> {..<k}"
  by (cases call) (use assms in \<open>auto simp: link_shape_def\<close>)

lemma SimpleNetwork_new_built:
  fixes c :: sn_config
  assumes t: "init_topology (Topology_new (sum_list (machine_counts c))) = Some t" "ports_ok (machine_counts c) t"
    and calls: "createLinks (net_config.truncate c) False t = Some (calls, t')" "routed (num_switches t) (topology_weights t) D"
      "\<forall>l\<in>links t. \<exists>call\<in>set calls. call_for (net_config.truncate c) False t D l call"
      "\<forall>call\<in>set calls. \<exists>l\<in>links t. call_for (net_config.truncate c) False t D l call" "distinct (map (call_link (m_nodes t)) calls)"
  shows "\<exists>n :: 'b simple_network. SimpleNetwork_new c init_topology = Some (n, t') \<and>
    net_built (NUMBER_OF_VIRTUAL_NETWORKS c) (sum_list (machine_counts c)) (machine_counts c) (set (concat (map in_nodes calls)))
      {..<sum_list (machine_counts c)} (set (concat (map table_entries calls))) n \<and>
    length (m_switch_ptr_vector n) = m_number_of_switches t"
proof -
  let ?counts = "machine_counts c" and ?c = "net_config.truncate c"
  define N where "N = sum_list ?counts"
  let ?n = "(SimpleNetwork_queues c N :: 'b simple_network)\<lparr>m_switch_ptr_vector := map (Switch_new c) [0..<m_number_of_switches t]\<rparr>"
  have tr: "machine_counts ?c = ?counts" by (simp add: net_config.truncate_def)
  have ok: "links_ok t" "m_nodes t = N" using t(2) by (simp_all add: ports_ok_def N_def)
  have wf: "\<forall>call\<in>set calls. call_wf N False call \<and> call_link N call \<in> links t" using calls(4) ok(2) by (fastforce simp: call_for_def)
  have sub: "links t \<subseteq> call_link N ` set calls"
  proof
    fix l assume "l \<in> links t"
    then obtain call where "call \<in> set calls" "call_for (net_config.truncate c) False t D l call" using calls(3) by blast
    then show "l \<in> call_link N ` set calls" using ok(2) by (cases l) (auto simp: call_for_def intro!: image_eqI [of _ _ call])
  qed
  note ports = calls_ports [OF t(2), unfolded ok(2), OF wf calls(5) [unfolded ok(2)] sub]
  have fits: "call_fits ?counts N (m_number_of_switches t) call" if call: "call \<in> set calls" for call
  proof -
    obtain i j where ij: "(i, j) \<in> links t" "call_for ?c False t D (i, j) call" using calls(4) call by fastforce
    have "link_shape N (m_number_of_switches t) (call_link N call)" using wf call ok by (simp add: links_ok_def)
    then have sw: "call_switches call \<subseteq> {..<m_number_of_switches t}" using call_switches_less wf call by blast
    have "machine_number ?counts m = d" if h: "d \<in> set (out_nodes call)" "m \<in> nd_elems (call_entry call)" for d m
    proof -
      have "call_link N call = (i, j)" "call_wf N False call" using ij(2) ok(2) by (simp_all add: call_for_def)
      then have d: "d < N" "j = N + d" using in_out_nodes(2) [OF h(1), of N] in_out_nodes(4) [OF h(1)] by auto
      have "m \<in> all_machines ?counts" using ij(2) h(2) tr by (simp add: call_for_def)
      then have "machine_number ?counts m < N" "endpoint ?counts m = N + machine_number ?counts m"
        using machine_index_less [of m ?counts] by (simp_all add: machine_number_def endpoint_def N_def)
      then obtain s where "(s, endpoint ?counts m) \<in> links t" using t(2) ok(2) unfolding ports_ok_def by metis
      then have "endpoint ?counts m < num_switches t" using num_switches_bound(2) [OF ok(1)] by blast
      then show ?thesis using out_link_entry [of t ?c D i d False call m] ok calls(2) ij d h(2) tr by (simp add: N_def)
    qed
    then show ?thesis using wf call sw ij link_vectors [OF ok(1) ij(1)] t(2) tr unfolding call_fits_def
      by (auto simp: call_for_def ports_ok_def)
  qed
  have "net_built (NUMBER_OF_VIRTUAL_NETWORKS c) N ?counts {} {} {} ?n" by (rule built_start)
  from make_links_built [OF this, of calls c]
  obtain n where n: "run_all (make_link c) calls ?n = Some n"
      "net_built (NUMBER_OF_VIRTUAL_NETWORKS c) N ?counts (set (concat (map in_nodes calls))) {..<N} (set (concat (map table_entries calls))) n"
      "length (m_switch_ptr_vector n) = m_number_of_switches t"
    using fits ports by auto
  have "base_number ?counts (length ?counts) = N" by (simp add: base_number_def N_def)
  then have "SimpleNetwork_new c init_topology = Some (n, t')"
    using t(1) calls(1) n(1) unfolding SimpleNetwork_new_def Let_def N_def [symmetric] by simp
  then show ?thesis using n(2,3) unfolding N_def by blast
qed

section \<open>The crossbar\<close>

lemma crossbar_ports:
  assumes "crossbar_shape L (sum_list counts) root t" "0 < L"
  shows "ports_ok counts t"
proof -
  let ?n = "sum_list counts"
  have t: "uniform L t" "m_nodes t = ?n" "\<forall>i<?n. (root, ?n + i) \<in> links t"
      "\<forall>a<?n. \<forall>s s'. (a, s) \<in> links t \<longrightarrow> (a, s') \<in> links t \<longrightarrow> s = s'" "\<forall>(s, d)\<in>links t. d < 2 * ?n \<longrightarrow> s = root"
    using assms(1) unfolding crossbar_shape_def by blast+
  have "\<exists>!s. (s, ?n + d) \<in> links t" if "d < ?n" for d using t(3,5) that by (intro ex1I [of _ root]) auto
  then show ?thesis using t(1,2,4) assms(2) unfolding ports_ok_def uniform_def DEFAULT_BW_MULTIPLIER_def by auto
qed

text \<open>The network of the crossbar, with the machines that it connects.\<close>

definition crossbar_nodes :: "net_config \<Rightarrow> nat set" where
  "crossbar_nodes c = nodes_of c (type_L1Cache c) (numberOfL1CachePerChip c) \<union> nodes_of c (type_L2Cache c) (numberOfL2CachePerChip c) \<union>
     nodes_of c (type_Directory c) (numberOfDirectoryPerChip c)"

lemma crossbar_built:
  fixes c :: sn_config
  assumes "crossbar_config (net_config.truncate c)"
  obtains n :: "'b simple_network" and t I E where "SimpleNetwork_new c (makeGPGPUSimCrossbar (net_config.truncate c)) = Some (n, t)"
    "net_built (NUMBER_OF_VIRTUAL_NETWORKS c) (sum_list (machine_counts c)) (machine_counts c) I {..<sum_list (machine_counts c)} E n"
    "covered (machine_counts c) E (length (m_switch_ptr_vector n))" "crossbar_nodes (net_config.truncate c) \<subseteq> I"
proof -
  let ?c = "net_config.truncate c" and ?L = "NETWORK_LINK_LATENCY (net_config.truncate c)" and ?counts = "machine_counts c"
  let ?N = "sum_list ?counts"
  have tr: "machine_counts ?c = ?counts" by (simp add: net_config.truncate_def)
  have L: "0 < ?L" "3 * ?L < INFINITE_LATENCY" using assms by (simp_all add: crossbar_config_def)
  obtain t root where t: "makeGPGPUSimCrossbar ?c (Topology_new ?N) = Some t" "crossbar_shape ?L ?N root t"
      "\<And>a. a \<in> crossbar_nodes ?c \<Longrightarrow> \<exists>s. 2 * ?N \<le> s \<and> (a, s) \<in> links t"
    unfolding crossbar_nodes_def by (rule crossbar_links [OF assms _ refl, of ?N]) (use tr in auto)
  have p: "ports_ok ?counts t" by (rule crossbar_ports [OF t(2) L(1)])
  then have ok: "links_ok t" "m_nodes t = ?N" by (simp_all add: ports_ok_def)
  obtain calls t' D where calls: "createLinks ?c False t = Some (calls, t')" "routed (num_switches t) (topology_weights t) D"
      "\<forall>l\<in>links t. \<exists>call\<in>set calls. call_for ?c False t D l call" "\<forall>call\<in>set calls. \<exists>l\<in>links t. call_for ?c False t D l call"
      "distinct (map (call_link (m_nodes t)) calls)"
    using createLinks_law [OF ok(1), of ?c False] by (elim exE conjE)
  obtain n :: "'b simple_network" where n: "SimpleNetwork_new c (makeGPGPUSimCrossbar ?c) = Some (n, t')"
      "net_built (NUMBER_OF_VIRTUAL_NETWORKS c) ?N ?counts (set (concat (map in_nodes calls))) {..<?N} (set (concat (map table_entries calls))) n"
      "length (m_switch_ptr_vector n) = m_number_of_switches t"
    using SimpleNetwork_new_built [of "makeGPGPUSimCrossbar ?c" c t, OF t(1) p calls] by blast
  have wf: "call_wf ?N False call" if "call \<in> set calls" for call using calls(4) that ok(2) by (fastforce simp: call_for_def)
  have "\<exists>e. (i, e) \<in> set (concat (map table_entries calls)) \<and> m \<in> nd_elems e"
    if h: "i < m_number_of_switches t" "m \<in> all_machines ?counts" for i m
  proof -
    obtain call where call: "call \<in> set calls" "fst (call_link ?N call) = i + 2 * ?N" "m \<in> nd_elems (call_entry call)"
      using crossbar_entry [OF t(2) L _ calls(2,3) h(1), of m] h(2) tr by auto
    have "(i, call_entry call) \<in> set (table_entries call)" by (cases call) (use call(2) wf [OF call(1)] in auto)
    then show ?thesis using call(1,3) by auto
  qed
  then have "covered ?counts (set (concat (map table_entries calls))) (length (m_switch_ptr_vector n))"
    unfolding covered_def n(3) by blast
  moreover have "a \<in> set (concat (map in_nodes calls))" if a: "a \<in> crossbar_nodes ?c" for a
  proof -
    obtain s where s: "2 * ?N \<le> s" "(a, s) \<in> links t" using t(3) [OF a] by blast
    then have "link_shape ?N (m_number_of_switches t) (a, s)" using ok by (simp add: links_ok_def)
    obtain call where call: "call \<in> set calls" "call_for ?c False t D (a, s) call" using calls(3) s(2) by blast
    have "a < ?N" using a assms tr unfolding crossbar_nodes_def nodes_of_def crossbar_config_def by auto
    have "a \<in> set (in_nodes call)" by (cases call) (use call(2) \<open>a < ?N\<close> ok(2) in \<open>auto simp: call_for_def\<close>)
    then show ?thesis using call(1) by auto
  qed
  ultimately show thesis using that [OF n(1,2)] by blast
qed

lemma crossbar_start:
  fixes c :: sn_config
  assumes "crossbar_config (net_config.truncate c)" "0 < g_endpoint_bandwidth env"
  shows "\<exists>(n :: 'b simple_network) t. SimpleNetwork_new c (makeGPGPUSimCrossbar (net_config.truncate c)) = Some (n, t) \<and>
    attached n (attach_nodes n) \<and>
    (\<forall>n0. attached n n0 \<longrightarrow> (\<forall>s :: (net_consumer, 's) sim. queue_ok s \<longrightarrow> 0 \<le> m_globalTime s \<longrightarrow> net_ok env (machine_counts c) n0 s) \<and>
       queues_ok (machine_counts c) n0 \<and> net_deliveries n0 = {#} \<and>
       (\<forall>a\<in>crossbar_nodes (net_config.truncate c). \<forall>v<NUMBER_OF_VIRTUAL_NETWORKS c. \<forall>latest\<ge>0. a < length (m_toNetQueues n0) \<and>
          v < length (m_toNetQueues n0 ! a) \<and>
          link_buffer_ok (env_RANDOMIZATION env) latest (machine_counts c) (buffers n0 ! (m_toNetQueues n0 ! a ! v))))"
proof -
  let ?V = "NUMBER_OF_VIRTUAL_NETWORKS c" and ?N = "sum_list (machine_counts c)"
  obtain n :: "'b simple_network" and t I E where b: "SimpleNetwork_new c (makeGPGPUSimCrossbar (net_config.truncate c)) = Some (n, t)"
      "net_built ?V ?N (machine_counts c) I {..<?N} E n"
      "covered (machine_counts c) E (length (m_switch_ptr_vector n))" "crossbar_nodes (net_config.truncate c) \<subseteq> I"
    by (rule crossbar_built [OF assms(1)])
  have "a < length (m_toNetQueues n0) \<and> v < length (m_toNetQueues n0 ! a) \<and>
      link_buffer_ok (env_RANDOMIZATION env) latest (machine_counts c) (buffers n0 ! (m_toNetQueues n0 ! a ! v))"
    if h: "attached n n0" "a \<in> crossbar_nodes (net_config.truncate c)" "v < ?V" "0 \<le> latest" for n0 a v latest
  proof -
    have "m_toNetQueues n0 = m_toNetQueues n"
      using h(1) unfolding attached_def by (metis simple_network.ext_inject simple_network.surjective simple_network.update_convs(3))
    then have to: "m_toNetQueues n0 = to_rows ?V ?N" using b(2) by (simp add: net_built_def)
    have I: "a \<in> I" using b(4) h(2) by blast
    then have "a < ?N" using b(2) by (auto simp: net_built_def)
    then show ?thesis using built_can_send [OF b(2) h(1) I h(3,4)] nq.rows(1,3) h(3) unfolding to by simp
  qed
  then show ?thesis
    using b(1) attach_nodes_attached [OF b(2)] built_net_ok [OF b(2) _ _ _ b(3) assms(2)] built_queues_ok [OF b(2)] settled_empty [OF attached_settled]
    by (intro exI [of _ n] exI [of _ t]) blast
qed

text \<open>C9. The constructor wires the network of the GPU well.  For a configuration of the crossbar, \<open>SimpleNetwork\<close> is
  made without an abort, and in the network that it leaves, before any controller is attached:
  every buffer has at most one switch or throttle that fills it, and no pointer is out of range (\<open>net_shape\<close>);
  the incoming buffers of a switch wake that switch and the buffers between a switch and a throttle wake that
  throttle (\<open>hooked\<close>); the queues from the caches, banks and directories are incoming buffers of a switch, and a buffer that
  a throttle fills is an incoming buffer of a switch or a queue to a machine (\<open>led\<close>); the queues to a machine are filled by a link whose
  routing entry names no other machine, and no switch fills a queue from a machine (\<open>queues_ok\<close>); nothing is to be
  delivered; and every switch is ready to run at any time: its tables have an entry for every machine and its buffers are
  in order (\<open>switch_ok\<close>).\<close>

theorem crossbar_network_wired:
  fixes c :: sn_config
  assumes "crossbar_config (net_config.truncate c)"
  defines "V \<equiv> NUMBER_OF_VIRTUAL_NETWORKS c" and "N \<equiv> sum_list (machine_counts c)"
  shows "\<exists>(n :: 'b simple_network) t. SimpleNetwork_new c (makeGPGPUSimCrossbar (net_config.truncate c)) = Some (n, t) \<and>
    length (m_toNetQueues n) = N \<and> length (m_fromNetQueues n) = N \<and>
    net_shape V (length (buffers n)) (map sw_pointers (m_switch_ptr_vector n)) \<and>
    hooked (buffers n) (m_switch_ptr_vector n) \<and>
    led (rows_of (m_toNetQueues n) (crossbar_nodes (net_config.truncate c))) (rows_of (m_fromNetQueues n) {..<N}) (m_switch_ptr_vector n) \<and>
    queues_ok (machine_counts c) n \<and> net_deliveries n = {#} \<and>
    (\<forall>sw\<in>set (m_switch_ptr_vector n). \<forall>s :: (net_consumer, 's) sim. queue_ok s \<and> 0 \<le> m_globalTime s \<longrightarrow>
       switch_ok env (machine_counts c) (load_switch (buffers n) sw) s)"
proof -
  obtain n :: "'b simple_network" and t I E where n: "SimpleNetwork_new c (makeGPGPUSimCrossbar (net_config.truncate c)) = Some (n, t)"
      and b: "net_built V N (machine_counts c) I {..<N} E n" and cov: "covered (machine_counts c) E (length (m_switch_ptr_vector n))"
      and I: "crossbar_nodes (net_config.truncate c) \<subseteq> I"
    unfolding V_def N_def by (rule crossbar_built [OF assms(1)])
  have q: "m_toNetQueues n = to_rows V N" "m_fromNetQueues n = from_rows V N" "hooked (buffers n) (m_switch_ptr_vector n)"
    "wired V (2 * (N * V)) (to_rows V N) (from_rows V N) I {..<N} (length (buffers n)) (map sw_pointers (m_switch_ptr_vector n))"
    "led (rows_of (to_rows V N) I) (rows_of (from_rows V N) {..<N}) (m_switch_ptr_vector n)"
    using b by (simp_all add: net_built_def)
  have "led (rows_of (m_toNetQueues n) (crossbar_nodes (net_config.truncate c))) (rows_of (m_fromNetQueues n) {..<N}) (m_switch_ptr_vector n)"
    using q(1,2,5) I unfolding led_def rows_of_def by auto
  moreover have "switch_ok env (machine_counts c) (load_switch (buffers n) sw) s"
    if h: "sw \<in> set (m_switch_ptr_vector n)" "queue_ok s" "0 \<le> m_globalTime s" for sw and s :: "(net_consumer, 's) sim"
  proof -
    obtain i where i: "i < length (m_switch_ptr_vector n)" "m_switch_ptr_vector n ! i = sw" using h(1) by (auto simp: in_set_conv_nth)
    show ?thesis by (rule built_switch_ok [OF b built_settled [OF b] h(2,3) i cov])
  qed
  moreover have "length (m_toNetQueues n) = N" "length (m_fromNetQueues n) = N" using q(1,2) nq.rows(1,2) by simp_all
  moreover have "net_shape V (length (buffers n)) (map sw_pointers (m_switch_ptr_vector n))" using q(4) by (simp add: wired_def)
  ultimately show ?thesis using n q(3) built_queues [OF b] settled_empty [OF built_settled [OF b]] by blast
qed

section \<open>A run\<close>

text \<open>The crossbar of 16 caches, 8 banks and 4 directories, with the virtual networks of the default configuration; the first
  cache sends a message to the last directory.\<close>

definition sample_sn :: sn_config where
  "sample_sn = net_config.extend sample_net (sn_config.fields 6 False 3)"

definition sample_packet :: "string network_message message" where
  "sample_packet = \<lparr>payload = \<lparr>nm_body = ''GETS'', nm_Destination = the (nd_add (2, 3) (nd_setSize [16, 8, 4])),
     nm_MessageSize = MessageSizeType_Control, m_internal_dest_valid = False, m_internal_dest = []\<rparr>,
     m_LastEnqueueTime = 0, m_DelayedCycles = 0\<rparr>"

definition network_sim :: "(net_consumer, unit) sim" where
  "network_sim = (EventQueue_init ())\<lparr>m_globalTime := 5\<rparr>"

lemma sample_sn_ok: "net_config.truncate sample_sn = sample_net" "machine_counts sample_sn = [16, 8, 4]" "NUMBER_OF_VIRTUAL_NETWORKS sample_sn = 6"
  by (simp_all add: sample_sn_def sample_net_def net_config.defs sn_config.defs)

lemma network_env_ok: "net_env_ok sample_throttle_env" "0 < g_endpoint_bandwidth sample_throttle_env" "env_random_time sample_throttle_env k = 1"
  using sample_throttle_ok(1) sample_switch_ok(1)
  by (simp_all add: net_env_ok_def sample_throttle_env_def switch_env.defs throttle_env.defs sample_env_def env_ok_def)

lemma network_sim_ok: "queue_ok network_sim" "m_globalTime network_sim = 5"
  by (simp_all add: network_sim_def EventQueue_init_def queue_ok_def pending_def events.invar_empty events.elems_empty)

lemma sample_packet_ok: "nd_invar [16, 8, 4] (getInternalDestination (payload sample_packet))"
  "nd_elems (getInternalDestination (payload sample_packet)) = {(2, 3)}" "nm_body (payload sample_packet) = ''GETS''"
  "m_LastEnqueueTime sample_packet \<le> 5" "nm_MessageSize (payload sample_packet) \<noteq> MessageSizeType_Undefined"
proof -
  have "(2, 3) \<in> all_machines [16, 8, 4]" by (simp add: all_machines_def)
  then obtain d where d: "nd_add (2, 3) (nd_setSize [16, 8, 4]) = Some d" "nd_invar [16, 8, 4] d" "nd_elems d = {(2, 3)}"
    using nd_add_law [OF conjunct1 [OF nd_setSize_empty [of "[16, 8, 4]"]], of "(2, 3)"] nd_setSize_empty [of "[16, 8, 4]"] by auto
  have "getInternalDestination (payload sample_packet) = d" by (simp only: sample_packet_def getInternalDestination_def d(1)) simp
  then show "nd_invar [16, 8, 4] (getInternalDestination (payload sample_packet))"
    "nd_elems (getInternalDestination (payload sample_packet)) = {(2, 3)}" using d(2,3) by simp_all
qed (simp_all add: sample_packet_def)

lemma network_delivers_witness:
  "\<exists>(n :: string simple_network) t n1 s1. SimpleNetwork_new sample_sn (makeGPGPUSimCrossbar sample_net) = Some (n, t) \<and>
    node_send sample_throttle_env 0 0 sample_packet 1 (attach_nodes n, network_sim, 0) = Some (n1, s1, 1) \<and>
    net_deliveries n1 = {#(''GETS'', 2, 3)#} \<and>
    (\<forall>i<length (m_switch_ptr_vector n1). net_switch_wakeup sample_throttle_env i (n1, s1, 1) \<noteq> None)"
proof -
  let ?env = sample_throttle_env and ?counts = "[16, 8, 4]"
  obtain n :: "string simple_network" and t where n: "SimpleNetwork_new sample_sn (makeGPGPUSimCrossbar sample_net) = Some (n, t)"
      "net_ok ?env ?counts (attach_nodes n) network_sim" "queues_ok ?counts (attach_nodes n)" "net_deliveries (attach_nodes n) = {#}"
      "0 < length (m_toNetQueues (attach_nodes n))" "0 < length (m_toNetQueues (attach_nodes n) ! 0)"
      "link_buffer_ok (env_RANDOMIZATION ?env) 6 ?counts (buffers (attach_nodes n) ! (m_toNetQueues (attach_nodes n) ! 0 ! 0))"
  proof -
    have z: "0 \<in> crossbar_nodes sample_net" by (auto simp: crossbar_nodes_def nodes_of_def sample_net_def base_number_def)
    note start = crossbar_start [where ?'b = string and ?'s = unit, of sample_sn ?env, unfolded sample_sn_ok, OF sample_net_config network_env_ok(2)]
    show thesis using start that z network_sim_ok by (metis zero_less_numeral zero_le_numeral)
  qed
  have g: "m_globalTime network_sim + 1 = 6" using network_sim_ok(2) by simp
  obtain st' s1 where y: "node_send ?env 0 0 sample_packet 1 (attach_nodes n, network_sim, 0) = Some ((attach_nodes n)\<lparr>buffers := st'\<rparr>, s1, 0 + 1)"
    using node_send_law [OF network_env_ok(1) n(2,3,5,6), of 1 sample_packet 0] n(7) sample_packet_ok network_sim_ok(2) g by auto
  have "net_run ?env ?counts (attach_nodes n, network_sim, 0) ({#} + msg_deliveries (payload sample_packet)) {#}
      ((attach_nodes n)\<lparr>buffers := st'\<rparr>, s1, 0 + 1)"
    by (rule net_run.send [OF net_run.start n(5,6) _ _ _ _ _ y]) (use n(7) sample_packet_ok network_sim_ok(2) g in simp_all)
  from network_delivers [OF network_env_ok(1) n(2,3) this] show ?thesis
    using n(1,4) y sample_packet_ok(2,3) by (auto simp: msg_deliveries_def)
qed

lemma crossbar_network_wired_witness:
  "\<exists>(n :: string simple_network) t. SimpleNetwork_new sample_sn (makeGPGPUSimCrossbar sample_net) = Some (n, t) \<and>
    hooked (buffers n) (m_switch_ptr_vector n) \<and> queues_ok [16, 8, 4] n \<and> length (m_toNetQueues n) = 28 \<and>
    (\<forall>sw\<in>set (m_switch_ptr_vector n).
       switch_ok (switch_env.truncate sample_throttle_env) [16, 8, 4] (load_switch (buffers n) sw) network_sim)"
  using crossbar_network_wired [where ?'b = string and ?'s = unit and env = "switch_env.truncate sample_throttle_env",
      of sample_sn, unfolded sample_sn_ok, OF sample_net_config] network_sim_ok
  by fastforce

end
