(* ===== verification/Network_File.thy ===== *)
theory Network_File
  imports Network_Topology Bloom_Filters
begin

text \<open>
  The rest of \<open>network/simple/Topology.C\<close>: topologies that are read from a file, and the choice of the topology in
  \<open>Topology::init\<close>.

  The file system and the conversions of names to enumerations, which the SLICC compiler generates, are parameters
  in the configuration.  A message on the error output followed by \<open>exit\<close> is an abort.  The two node numbers of a line are
  a list of those read so far; a link with a number that was not read, which the code takes from
  uninitialized memory, is an abort as well.

  The lemmas show that a description of the links that is written in the format of the files is read back
  as it is, in both directions.
\<close>

datatype TopologyType = TopologyType_CROSSBAR | TopologyType_GPGPUSIM_CROSSBAR | TopologyType_HIERARCHICAL_SWITCH
  | TopologyType_TORUS_2D | TopologyType_PT_TO_PT | TopologyType_FILE_SPECIFIED

record file_config = net_config +
  g_NETWORK_TOPOLOGY :: string
  g_CACHE_DESIGN :: string
  fc_SIMICS :: bool
  fc_processors :: nat
  fc_procsPerChip :: nat
  fc_L2Cache :: nat
  fc_memories :: nat
  fc_endpoint_bandwidth :: int
  string_to_TopologyType :: "string \<Rightarrow> TopologyType option"
  string_to_MachineType :: "string \<Rightarrow> nat option"
  network_file :: "string \<Rightarrow> string option"

text \<open>The variables of one line, and those of the whole file; \<open>nf_links\<close> are the vectors \<open>nodePairs\<close>, \<open>latencies\<close>,
  \<open>bw_multis\<close> and \<open>weights\<close>.\<close>

record net_line =
  nl_nodes :: "nat list"
  nl_latency :: int
  nl_weight :: int
  nl_bw_multiplier :: int
  varsFound :: nat
  internalNodes :: nat

record net_file =
  nf_topology :: topology
  int_network_switches :: "nat list"
  endpointConnectionExist :: "bool list"
  nf_links :: "(nat \<times> nat \<times> int \<times> int \<times> int) list"

section \<open>Decimal numbers\<close>

definition digit_char :: "nat \<Rightarrow> char" where
  "digit_char d = char_of (48 + d)"

fun nat_to_string :: "nat \<Rightarrow> string" where
  "nat_to_string n = (if n < 10 then [digit_char n] else nat_to_string (n div 10) @ [digit_char (n mod 10)])"

declare nat_to_string.simps [simp del]

section \<open>One line\<close>

definition split_colon :: "string \<Rightarrow> string \<times> string" where
  "split_colon str = string_split str (CHR '':'')"

definition read_int :: "string \<Rightarrow> int" where
  "read_int str = atoi (fst (split_colon str))"

definition read_ext_node :: "file_config \<Rightarrow> string \<Rightarrow> net_line \<times> net_file \<Rightarrow> (net_line \<times> net_file) option" where
  "read_ext_node c varStr = (\<lambda>(ln, nf). do {
     assert_that (length (nl_nodes ln) < 2);
     let (machineStr, varStr) = split_colon varStr;
     machine \<leftarrow> string_to_MachineType c machineStr;
     let (nodeStr, varStr) = split_colon varStr;
     let (bankStr, varStr) = split_colon varStr;
     let node = int (base_number (machine_counts c) machine) + atoi nodeStr +
       (if bankStr = ''bank'' then read_int varStr * int (numberOfChips c) else 0);
     assert_that (node \<ge> 0 \<and> node < int (m_nodes (nf_topology nf)));
     Some (ln\<lparr>nl_nodes := nl_nodes ln @ [nat node], varsFound := varsFound ln + 1\<rparr>,
           nf\<lparr>endpointConnectionExist := (endpointConnectionExist nf)[nat node := True]\<rparr>) })"

definition read_int_node :: "string \<Rightarrow> net_line \<times> net_file \<Rightarrow> (net_line \<times> net_file) option" where
  "read_int_node varStr = (\<lambda>(ln, nf). do {
     assert_that (length (nl_nodes ln) < 2);
     let t = nf_topology nf;
     let node = read_int varStr + int (m_nodes t) * 2;
     assert_that (node \<ge> int (m_nodes t) * 2);
     let nf = (if nat node \<in> set (int_network_switches nf) then nf
       else nf\<lparr>nf_topology := t\<lparr>m_number_of_switches := m_number_of_switches t + 1\<rparr>,
               int_network_switches := int_network_switches nf @ [nat node]\<rparr>);
     Some (ln\<lparr>nl_nodes := nl_nodes ln @ [nat node], varsFound := varsFound ln + 1, internalNodes := internalNodes ln + 1\<rparr>, nf) })"

definition check_int :: "string \<Rightarrow> int \<Rightarrow> 'a \<Rightarrow> 'a option" where
  "check_int varStr v x = do { assert_that (read_int varStr = v); Some x }"

definition read_var :: "file_config \<Rightarrow> string \<Rightarrow> net_line \<times> net_file \<Rightarrow> (net_line \<times> net_file) option" where
  "read_var c varStr = (\<lambda>(ln, nf).
     let (label, varStr) = split_colon varStr
     in if label = ''ext_node'' then read_ext_node c varStr (ln, nf)
        else if label = ''int_node'' then read_int_node varStr (ln, nf)
        else if label = ''link_latency'' then Some (ln\<lparr>nl_latency := read_int varStr, varsFound := varsFound ln + 1\<rparr>, nf)
        else if label = ''bw_multiplier'' then Some (ln\<lparr>nl_bw_multiplier := read_int varStr\<rparr>, nf)
        else if label = ''link_weight'' then Some (ln\<lparr>nl_weight := read_int varStr\<rparr>, nf)
        else if label = ''processors'' then check_int varStr (int (fc_processors c)) (ln, nf)
        else if label = ''bw_unit'' then check_int varStr (fc_endpoint_bandwidth c) (ln, nf)
        else if label = ''procs_per_chip'' then check_int varStr (int (fc_procsPerChip c)) (ln, nf)
        else if label = ''L2banks'' then check_int varStr (int (fc_L2Cache c)) (ln, nf)
        else if label = ''memories'' then check_int varStr (int (fc_memories c)) (ln, nf)
        else None)"

lemma string_split_shorter: "\<lbrakk> (head, tail) = string_split str ch; head \<noteq> [] \<rbrakk> \<Longrightarrow> length tail < length str"
proof (induction str arbitrary: head)
  case (Cons x str)
  show ?case
  proof (cases "x = ch")
    case True
    then show ?thesis using Cons.prems by simp
  next
    case False
    obtain h t where s: "string_split str ch = (h, t)" by fastforce
    then have "tail = t" using Cons.prems(1) False by simp
    moreover have "length t \<le> length str" using Cons.IH [of h] s \<open>tail = t\<close> by (cases "h = []"; cases str) (auto split: if_splits prod.splits)
    ultimately show ?thesis by simp
  qed
qed simp

text \<open>The loop ends at the first empty word: at the end of the line or at two blanks.\<close>

function read_vars :: "file_config \<Rightarrow> string \<Rightarrow> net_line \<times> net_file \<Rightarrow> (net_line \<times> net_file) option" where
  "read_vars c line x = (case string_split line (CHR '' '') of (varStr, line') \<Rightarrow>
     if varStr = [] then Some x else Option.bind (read_var c varStr x) (read_vars c line'))"
  by pat_completeness auto
termination by (relation "measure (\<lambda>(c, line, x). length line)") (simp_all add: string_split_shorter)

declare read_vars.simps [simp del]

definition new_line :: net_line where
  "new_line = \<lparr>nl_nodes = [], nl_latency = - 1, nl_weight = - 1, nl_bw_multiplier = DEFAULT_BW_MULTIPLIER, varsFound = 0, internalNodes = 0\<rparr>"

definition read_line :: "file_config \<Rightarrow> string \<Rightarrow> net_file \<Rightarrow> net_file option" where
  "read_line c line nf = do {
     (ln, nf) \<leftarrow> read_vars c line (new_line, nf);
     if varsFound ln = 3 then do {
       assert_that (length (nl_nodes ln) = 2);
       let node0 = nl_nodes ln ! 0;
       let node1 = nl_nodes ln ! 1;
       let weight = (if nl_weight ln \<noteq> - 1 then nl_weight ln else nl_latency ln);
       let other = (if internalNodes ln = 2 then node0 else node0 + m_nodes (nf_topology nf));
       Some (nf\<lparr>nf_links := nf_links nf @ [(node0, node1, nl_latency ln, nl_bw_multiplier ln, weight),
                                          (node1, other, nl_latency ln, nl_bw_multiplier ln, weight)]\<rparr>) }
     else if varsFound ln = 0 then Some nf
     else None }"

section \<open>The file\<close>

text \<open>\<open>while (!eof) getline\<close>: the last line is the part behind the last line feed.\<close>

primrec file_lines :: "string \<Rightarrow> string list" where
  "file_lines [] = [[]]"
| "file_lines (ch # str) = (if ch = CHR 0x0A then [] # file_lines str
     else case file_lines str of [] \<Rightarrow> [[ch]] | line # lines \<Rightarrow> (ch # line) # lines)"

definition network_filename :: "file_config \<Rightarrow> string" where
  "network_filename c =
     (let filename = ''network/simple/Network_Files/'' @ g_CACHE_DESIGN c @ ''_Procs-'' @ nat_to_string (fc_processors c) @
        ''_ProcsPerChip-'' @ nat_to_string (fc_procsPerChip c) @ ''_L2Banks-'' @ nat_to_string (fc_L2Cache c) @
        ''_Memories-'' @ nat_to_string (fc_memories c) @ ''.txt''
      in if fc_SIMICS c then ''../../../ruby/'' @ filename else filename)"

definition makeFileSpecified :: "file_config \<Rightarrow> topology \<Rightarrow> topology option" where
  "makeFileSpecified c t = do {
     content \<leftarrow> network_file c (network_filename c);
     nf \<leftarrow> run_all (read_line c) (file_lines content)
       \<lparr>nf_topology = t, int_network_switches = [], endpointConnectionExist = replicate (m_nodes t) False, nf_links = []\<rparr>;
     assert_that (\<forall>connected\<in>set (endpointConnectionExist nf). connected);
     run_all (\<lambda>(src, dest, latency, bw, weight). addLink_weight src dest latency bw weight) (nf_links nf) (nf_topology nf) }"

definition Topology_init :: "file_config \<Rightarrow> topology \<Rightarrow> topology option" where
  "Topology_init c t =
     (let nc = net_config.truncate c
      in if m_nodes t = 1 then do {
           let (switch_id, t) = newSwitchID t;
           t \<leftarrow> addLink 0 switch_id (NETWORK_LINK_LATENCY c) t;
           addLink switch_id 1 (NETWORK_LINK_LATENCY c) t }
         else do {
           topology \<leftarrow> string_to_TopologyType c (g_NETWORK_TOPOLOGY c);
           t \<leftarrow> (case topology of
               TopologyType_TORUS_2D \<Rightarrow> make2DTorus nc t
             | TopologyType_HIERARCHICAL_SWITCH \<Rightarrow> makeHierarchicalSwitch nc (FAN_OUT_DEGREE c) t
             | TopologyType_CROSSBAR \<Rightarrow> makeHierarchicalSwitch nc 1024 t
             | TopologyType_GPGPUSIM_CROSSBAR \<Rightarrow> makeGPGPUSimCrossbar nc t
             | TopologyType_PT_TO_PT \<Rightarrow> makePtToPt nc t
             | TopologyType_FILE_SPECIFIED \<Rightarrow> makeFileSpecified c t);
           Some (t\<lparr>m_component_latencies := [], m_component_inter_switches := []\<rparr>) })"

section \<open>Numbers\<close>

lemma digit_char_value: "d < 10 \<Longrightarrow> digit_value (digit_char d) = Some (int d)"
  by (simp add: digit_value_def digit_char_def Let_def)

lemma digit_char_range: "d < 10 \<Longrightarrow> (of_char (digit_char d) :: nat) \<in> {48..57}"
  by (simp add: digit_char_def)

lemma atoi_digits_append: "(\<forall>ch\<in>set xs. digit_value ch \<noteq> None) \<Longrightarrow> atoi_digits (xs @ ys) n = atoi_digits ys (atoi_digits xs n)"
  by (induction xs arbitrary: n) auto

lemma nat_to_string_law:
  "(\<forall>ch\<in>set (nat_to_string n). (of_char ch :: nat) \<in> {48..57}) \<and> nat_to_string n \<noteq> [] \<and> atoi_digits (nat_to_string n) 0 = int n"
proof (induction n rule: nat_to_string.induct)
  case (1 n)
  show ?case
  proof (cases "n < 10")
    case True
    then show ?thesis using digit_char_value [OF True] digit_char_range [OF True] by (simp add: nat_to_string.simps [of n])
  next
    case False
    have IH: "\<forall>ch\<in>set (nat_to_string (n div 10)). (of_char ch :: nat) \<in> {48..57}" "atoi_digits (nat_to_string (n div 10)) 0 = int (n div 10)"
      using 1 [OF False] by blast+
    have d: "n mod 10 < 10" by simp
    have "\<forall>ch\<in>set (nat_to_string (n div 10)). digit_value ch \<noteq> None" using IH(1) by (auto simp: digit_value_def Let_def)
    moreover have "10 * int (n div 10) + int (n mod 10) = int n" by (metis mult_div_mod_eq of_nat_add of_nat_mult of_nat_numeral)
    ultimately have "atoi_digits (nat_to_string n) 0 = int n"
      using False IH(2) digit_char_value [OF d] by (simp add: nat_to_string.simps [of n] atoi_digits_append)
    moreover have "\<forall>ch\<in>set (nat_to_string n). (of_char ch :: nat) \<in> {48..57}"
      using False IH(1) digit_char_range [OF d] by (simp add: nat_to_string.simps [of n])
    ultimately show ?thesis using False by (simp add: nat_to_string.simps [of n])
  qed
qed

lemma atoi_nat_to_string: "atoi (nat_to_string n) = int n"
proof -
  obtain ch str where s: "nat_to_string n = ch # str" using nat_to_string_law [of n] by (cases "nat_to_string n") auto
  then have r: "(of_char ch :: nat) \<in> {48..57}" using nat_to_string_law [of n] by simp
  then have "\<not> is_space ch" "ch \<noteq> CHR ''-''" "ch \<noteq> CHR ''+''" by (auto simp: is_space_def Let_def)
  then show ?thesis using nat_to_string_law [of n] s by (simp add: atoi_def)
qed

lemma nat_to_string_separator: "(of_char ch :: nat) \<notin> {48..57} \<Longrightarrow> ch \<notin> set (nat_to_string n)"
  using nat_to_string_law [of n] by blast

section \<open>The format of the files\<close>

text \<open>The links of a topology: a machine of a type with its switch, and two switches.\<close>

datatype file_link =
    ExtLink (link_type: nat) (link_index: nat) (link_switch: nat) (link_latency: nat) (link_bw: nat)
  | IntLink nat nat (link_latency: nat) (link_bw: nat) nat

definition field :: "string \<Rightarrow> nat \<Rightarrow> string" where
  "field label n = label @ CHR '':'' # nat_to_string n"

fun link_words :: "(nat \<Rightarrow> string) \<Rightarrow> file_link \<Rightarrow> string list" where
  "link_words name (ExtLink m i k latency bw) = [''ext_node:'' @ field (name m) i, field ''int_node'' k, field ''link_latency'' latency,
     field ''bw_multiplier'' bw]"
| "link_words name (IntLink a b latency bw weight) = [field ''int_node'' a, field ''int_node'' b, field ''link_latency'' latency,
     field ''bw_multiplier'' bw, field ''link_weight'' weight]"

definition header_words :: "file_config \<Rightarrow> string list list" where
  "header_words c = [[field ''processors'' (fc_processors c)], [field ''procs_per_chip'' (fc_procsPerChip c)],
     [field ''L2banks'' (fc_L2Cache c)], [field ''memories'' (fc_memories c)], [field ''bw_unit'' (nat (fc_endpoint_bandwidth c))], []]"

fun unwords :: "string list \<Rightarrow> string" where
  "unwords [] = []"
| "unwords [w] = w"
| "unwords (w # ws) = w @ CHR '' '' # unwords ws"

definition print_file :: "file_config \<Rightarrow> (nat \<Rightarrow> string) \<Rightarrow> file_link list \<Rightarrow> string" where
  "print_file c name ls = concat (map (\<lambda>ws. unwords ws @ [CHR 0x0A]) (header_words c @ map (link_words name) ls))"

lemma file_lines_line: "CHR 0x0A \<notin> set line \<Longrightarrow> file_lines (line @ CHR 0x0A # str) = line # file_lines str"
  by (induction line) auto

lemma file_lines_concat:
  assumes "\<forall>line\<in>set lines. CHR 0x0A \<notin> set line"
  shows "file_lines (concat (map (\<lambda>line. line @ [CHR 0x0A]) lines)) = lines @ [[]]"
  using assms by (induction lines) (simp_all add: file_lines_line)

lemma read_vars_words:
  assumes "\<forall>w\<in>set ws. w \<noteq> [] \<and> CHR '' '' \<notin> set w"
  shows "read_vars c (unwords ws) x = run_all (read_var c) ws x"
  using assms
proof (induction ws arbitrary: x rule: unwords.induct)
  case 1
  then show ?case by (simp add: read_vars.simps)
next
  case (2 w)
  have "read_vars c [] = run_all (read_var c) []" by (rule ext) (simp add: read_vars.simps)
  then show ?case using 2 by (simp add: read_vars.simps [of c w] string_split_absent)
next
  case (3 w v ws)
  have "read_vars c (unwords (v # ws)) = run_all (read_var c) (v # ws)" by (rule ext) (rule 3, use 3 in simp)
  then show ?case using 3 by (simp add: read_vars.simps [of c "w @ CHR '' '' # unwords (v # ws)"] string_split_at)
qed

lemma split_colon_field: "CHR '':'' \<notin> set label \<Longrightarrow> split_colon (field label n) = (label, nat_to_string n)"
  by (simp add: split_colon_def field_def string_split_at)

lemma read_int_nat: "read_int (nat_to_string n) = int n" "split_colon (nat_to_string n) = (nat_to_string n, [])"
  using nat_to_string_separator [of "CHR '':''" n] by (simp_all add: read_int_def split_colon_def string_split_absent atoi_nat_to_string)

lemma field_chars: "ch \<in> set (field label n) \<Longrightarrow> ch \<in> set label \<or> ch = CHR '':'' \<or> (of_char ch :: nat) \<in> {48..57}"
  using nat_to_string_law [of n] by (auto simp: field_def)

section \<open>Reading what was written\<close>

text \<open>What has been read: \<open>K\<close> are the internal nodes and \<open>D\<close> the machines that were named.\<close>

definition file_seen :: "nat \<Rightarrow> nat set \<Rightarrow> nat set \<Rightarrow> net_file \<Rightarrow> bool" where
  "file_seen N K D nf \<longleftrightarrow> nf_topology nf = (Topology_new N)\<lparr>m_number_of_switches := card K\<rparr> \<and> finite K \<and>
     set (int_network_switches nf) = (\<lambda>k. k + 2 * N) ` K \<and> endpointConnectionExist nf = map (\<lambda>d. d \<in> D) [0..<N]"

lemma read_int_node_law:
  assumes "file_seen N K D nf" "length (nl_nodes ln) < 2"
  shows "\<exists>nf'. read_int_node (nat_to_string k) (ln, nf) =
      Some (ln\<lparr>nl_nodes := nl_nodes ln @ [k + 2 * N], varsFound := varsFound ln + 1, internalNodes := internalNodes ln + 1\<rparr>, nf') \<and>
    file_seen N (insert k K) D nf' \<and> nf_links nf' = nf_links nf"
proof -
  have N: "m_nodes (nf_topology nf) = N" "m_number_of_switches (nf_topology nf) = card K" using assms(1) by (simp_all add: file_seen_def Topology_new_def)
  have n: "nat (int k + int N * 2) = k + 2 * N" by simp
  have mem: "k + 2 * N \<in> set (int_network_switches nf) \<longleftrightarrow> k \<in> K" using assms(1) by (auto simp: file_seen_def)
  show ?thesis
  proof (cases "k \<in> K")
    case True
    then show ?thesis using assms mem N n by (simp add: read_int_node_def read_int_nat Let_def insert_absorb)
  next
    case False
    then show ?thesis using assms mem N n
      by (simp add: read_int_node_def read_int_nat Let_def) (simp add: file_seen_def)
  qed
qed

lemma read_ext_node_law:
  assumes "file_seen N K D nf" "length (nl_nodes ln) < 2" "string_to_MachineType c (name m) = Some m" "CHR '':'' \<notin> set (name m)"
    "base_number (machine_counts c) m + i = d" "d < N"
  shows "\<exists>nf'. read_ext_node c (field (name m) i) (ln, nf) =
      Some (ln\<lparr>nl_nodes := nl_nodes ln @ [d], varsFound := varsFound ln + 1\<rparr>, nf') \<and>
    file_seen N K (insert d D) nf' \<and> nf_links nf' = nf_links nf"
proof -
  let ?flags = "endpointConnectionExist nf"
  have N: "m_nodes (nf_topology nf) = N" using assms(1) by (simp add: file_seen_def Topology_new_def)
  have "atoi (nat_to_string i) = int i" by (rule atoi_nat_to_string)
  moreover have n: "int (base_number (machine_counts c) m) + int i = int d" using assms(5) by simp
  ultimately have run: "read_ext_node c (field (name m) i) (ln, nf) =
      Some (ln\<lparr>nl_nodes := nl_nodes ln @ [d], varsFound := varsFound ln + 1\<rparr>, nf\<lparr>endpointConnectionExist := ?flags[d := True]\<rparr>)"
    using assms(2,3,6) N split_colon_field [OF assms(4), of i]
    by (simp add: read_ext_node_def read_int_nat) (simp add: split_colon_def)
  have "?flags[d := True] = map (\<lambda>x. x \<in> insert d D) [0..<N]"
    using assms(1,6) by (intro nth_equalityI) (auto simp: file_seen_def nth_list_update)
  then show ?thesis using run assms(1) by (simp add: file_seen_def)
qed

fun link_ints :: "file_link \<Rightarrow> nat set" where
  "link_ints (ExtLink m i k latency bw) = {k}"
| "link_ints (IntLink a b latency bw weight) = {a, b}"

fun link_ends :: "file_config \<Rightarrow> file_link \<Rightarrow> nat set" where
  "link_ends c (ExtLink m i k latency bw) = {base_number (machine_counts c) m + i}"
| "link_ends c (IntLink a b latency bw weight) = {}"

text \<open>The links of the network for one line, with latency, bandwidth multiplier and weight.\<close>

fun both_ways :: "file_config \<Rightarrow> nat \<Rightarrow> file_link \<Rightarrow> (nat \<times> nat \<times> int \<times> int \<times> int) list" where
  "both_ways c N (ExtLink m i k latency bw) =
     (let d = base_number (machine_counts c) m + i
      in [(d, k + 2 * N, int latency, int bw, int latency), (k + 2 * N, d + N, int latency, int bw, int latency)])"
| "both_ways c N (IntLink a b latency bw weight) =
     [(a + 2 * N, b + 2 * N, int latency, int bw, int weight), (b + 2 * N, a + 2 * N, int latency, int bw, int weight)]"

fun link_fits :: "file_config \<Rightarrow> (nat \<Rightarrow> string) \<Rightarrow> nat \<Rightarrow> file_link \<Rightarrow> bool" where
  "link_fits c name N (ExtLink m i k latency bw) \<longleftrightarrow> string_to_MachineType c (name m) = Some m \<and>
     set (name m) \<inter> {CHR '':'', CHR '' '', CHR 0x0A} = {} \<and> base_number (machine_counts c) m + i < N \<and>
     0 < latency \<and> int latency < INFINITE_LATENCY"
| "link_fits c name N (IntLink a b latency bw weight) \<longleftrightarrow> a \<noteq> b \<and> 0 < weight \<and> int weight < INFINITE_LATENCY"

lemma read_var_field:
  "read_var c (''ext_node:'' @ str) (ln, nf) = read_ext_node c str (ln, nf)"
  "read_var c (field ''int_node'' k) (ln, nf) = read_int_node (nat_to_string k) (ln, nf)"
  "read_var c (field ''link_latency'' k) (ln, nf) = Some (ln\<lparr>nl_latency := int k, varsFound := varsFound ln + 1\<rparr>, nf)"
  "read_var c (field ''bw_multiplier'' k) (ln, nf) = Some (ln\<lparr>nl_bw_multiplier := int k\<rparr>, nf)"
  "read_var c (field ''link_weight'' k) (ln, nf) = Some (ln\<lparr>nl_weight := int k\<rparr>, nf)"
proof -
  have "split_colon (''ext_node:'' @ str) = (''ext_node'', str)"
    using string_split_at [of "CHR '':''" "''ext_node''" str] by (simp add: split_colon_def)
  then show "read_var c (''ext_node:'' @ str) (ln, nf) = read_ext_node c str (ln, nf)" by (simp add: read_var_def)
qed (simp_all add: read_var_def split_colon_field read_int_nat)

lemma words_clean:
  assumes "link_fits c name N l" "w \<in> set (link_words name l)"
  shows "w \<noteq> [] \<and> CHR '' '' \<notin> set w \<and> CHR 0x0A \<notin> set w"
proof -
  have num: "CHR '' '' \<notin> set (field label n) \<and> CHR 0x0A \<notin> set (field label n)"
    if "set label \<inter> {CHR '' '', CHR 0x0A} = {}" for label n
    using field_chars [of "CHR '' ''" label n] field_chars [of "CHR 0x0A" label n] that by auto
  have ne: "field label n \<noteq> []" for label n by (simp add: field_def)
  note labels = num [of "''int_node''"] num [of "''link_latency''"] num [of "''bw_multiplier''"] num [of "''link_weight''"]
  show ?thesis
  proof (cases l)
    case (ExtLink m i k latency bw)
    then have "CHR '' '' \<notin> set (field (name m) i) \<and> CHR 0x0A \<notin> set (field (name m) i)"
      using assms(1) by (intro num) auto
    then show ?thesis using ExtLink assms(2) ne labels by auto
  next
    case (IntLink a b latency bw weight)
    then show ?thesis using assms(2) ne labels by auto
  qed
qed

lemma read_link_law:
  assumes "link_fits c name N l" "file_seen N K D nf"
  shows "\<exists>nf'. read_line c (unwords (link_words name l)) nf = Some nf' \<and> file_seen N (K \<union> link_ints l) (D \<union> link_ends c l) nf' \<and>
    nf_links nf' = nf_links nf @ both_ways c N l"
proof -
  have words: "read_vars c (unwords (link_words name l)) x = run_all (read_var c) (link_words name l) x" for x
    using words_clean [OF assms(1)] by (intro read_vars_words) blast
  have N: "m_nodes (nf_topology nf) = N" if "file_seen N K D nf" for K D nf using that by (simp add: file_seen_def Topology_new_def)
  show ?thesis
  proof (cases l)
    case (ExtLink m i k latency bw)
    let ?d = "base_number (machine_counts c) m + i"
    obtain nf1 where nf1: "read_ext_node c (field (name m) i) (new_line, nf) =
        Some (new_line\<lparr>nl_nodes := [?d], varsFound := 1\<rparr>, nf1)" "file_seen N K (insert ?d D) nf1" "nf_links nf1 = nf_links nf"
      using read_ext_node_law [OF assms(2), of new_line c name m i ?d] assms(1) ExtLink by (auto simp: new_line_def)
    obtain nf2 where nf2: "read_int_node (nat_to_string k) (new_line\<lparr>nl_nodes := [?d], varsFound := 1\<rparr>, nf1) =
        Some (new_line\<lparr>nl_nodes := [?d, k + 2 * N], varsFound := 2, internalNodes := 1\<rparr>, nf2)"
        "file_seen N (insert k K) (insert ?d D) nf2" "nf_links nf2 = nf_links nf1"
      using read_int_node_law [OF nf1(2), of "new_line\<lparr>nl_nodes := [?d], varsFound := 1\<rparr>" k] by (auto simp: new_line_def)
    have "read_line c (unwords (link_words name l)) nf = Some (nf2\<lparr>nf_links := nf_links nf @ both_ways c N l\<rparr>)"
      unfolding read_line_def words using nf1(1,3) nf2(1,3) N [OF nf2(2)] ExtLink
      by (simp only: link_words.simps run_all.simps read_var_field bind.bind_lunit prod.case) (simp add: new_line_def Let_def)
    then show ?thesis using nf2(2) ExtLink by (simp add: file_seen_def)
  next
    case (IntLink a b latency bw weight)
    obtain nf1 where nf1: "read_int_node (nat_to_string a) (new_line, nf) =
        Some (new_line\<lparr>nl_nodes := [a + 2 * N], varsFound := 1, internalNodes := 1\<rparr>, nf1)" "file_seen N (insert a K) D nf1" "nf_links nf1 = nf_links nf"
      using read_int_node_law [OF assms(2), of new_line a] by (auto simp: new_line_def)
    obtain nf2 where nf2: "read_int_node (nat_to_string b) (new_line\<lparr>nl_nodes := [a + 2 * N], varsFound := 1, internalNodes := 1\<rparr>, nf1) =
        Some (new_line\<lparr>nl_nodes := [a + 2 * N, b + 2 * N], varsFound := 2, internalNodes := 2\<rparr>, nf2)"
        "file_seen N (insert b (insert a K)) D nf2" "nf_links nf2 = nf_links nf1"
      using read_int_node_law [OF nf1(2), of "new_line\<lparr>nl_nodes := [a + 2 * N], varsFound := 1, internalNodes := 1\<rparr>" b] by (auto simp: new_line_def)
    have "read_line c (unwords (link_words name l)) nf = Some (nf2\<lparr>nf_links := nf_links nf @ both_ways c N l\<rparr>)"
      unfolding read_line_def words using nf1(1,3) nf2(1,3) IntLink
      by (simp only: link_words.simps run_all.simps read_var_field bind.bind_lunit prod.case) (simp add: new_line_def Let_def)
    then show ?thesis using nf2(2) IntLink by (simp add: file_seen_def insert_commute)
  qed
qed

lemma read_links_law:
  assumes "\<forall>l\<in>set ls. link_fits c name N l" "file_seen N K D nf"
  shows "\<exists>nf'. run_all (read_line c) (map (\<lambda>l. unwords (link_words name l)) ls) nf = Some nf' \<and>
    file_seen N (K \<union> \<Union> (link_ints ` set ls)) (D \<union> \<Union> (link_ends c ` set ls)) nf' \<and>
    nf_links nf' = nf_links nf @ concat (map (both_ways c N) ls)"
  using assms
proof (induction ls arbitrary: K D nf)
  case (Cons l ls)
  obtain nf1 where nf1: "read_line c (unwords (link_words name l)) nf = Some nf1" "file_seen N (K \<union> link_ints l) (D \<union> link_ends c l) nf1"
      "nf_links nf1 = nf_links nf @ both_ways c N l"
    using read_link_law [of c name N l K D nf] Cons.prems by auto
  then show ?case using Cons.IH [OF _ nf1(2)] Cons.prems(1) by (auto simp: Un_assoc)
qed simp

lemma read_header_law:
  assumes "0 \<le> fc_endpoint_bandwidth c"
  shows "run_all (read_line c) (map unwords (header_words c)) nf = Some nf"
proof -
  have check: "read_line c (field label n) nf = Some nf"
    if "read_var c (field label n) (new_line, nf) = Some (new_line, nf)" "CHR '' '' \<notin> set label" for label n nf
  proof -
    have "CHR '' '' \<notin> set (field label n)" "field label n \<noteq> []" using field_chars [of "CHR '' ''" label n] that(2) by (auto simp: field_def)
    then have "read_vars c (field label n) (new_line, nf) = Some (new_line, nf)"
      using read_vars_words [of "[field label n]" c] that(1) by simp
    then show ?thesis by (simp add: read_line_def new_line_def)
  qed
  have "read_line c [] nf = Some nf" by (simp add: read_line_def read_vars.simps new_line_def)
  then show ?thesis using assms
    by (simp add: header_words_def check read_var_def split_colon_field check_int_def read_int_nat)
qed

lemma header_clean: "\<forall>line\<in>set (map unwords (header_words c)). CHR 0x0A \<notin> set line"
  using field_chars [of "CHR 0x0A"] by (fastforce simp: header_words_def)

lemma unwords_chars: "ch \<in> set (unwords ws) \<Longrightarrow> ch = CHR '' '' \<or> (\<exists>w\<in>set ws. ch \<in> set w)"
  by (induction ws rule: unwords.induct) auto

lemma add_file_links:
  assumes "\<forall>(src, dest, latency, bw, weight)\<in>set xs. src < 2 * m_nodes t + m_number_of_switches t \<and> dest < 2 * m_nodes t + m_number_of_switches t"
  shows "run_all (\<lambda>(src, dest, latency, bw, weight). addLink_weight src dest latency bw weight) xs t =
    Some (t\<lparr>m_links_src_vector := m_links_src_vector t @ map fst xs, m_links_dest_vector := m_links_dest_vector t @ map (fst \<circ> snd) xs,
      m_links_latency_vector := m_links_latency_vector t @ map (fst \<circ> snd \<circ> snd) xs,
      m_links_weight_vector := m_links_weight_vector t @ map (snd \<circ> snd \<circ> snd \<circ> snd) xs,
      m_bw_multiplier_vector := m_bw_multiplier_vector t @ map (fst \<circ> snd \<circ> snd \<circ> snd) xs\<rparr>)"
  using assms
proof (induction xs arbitrary: t)
  case (Cons x xs)
  obtain src dest latency bw weight where x: "x = (src, dest, latency, bw, weight)" by (cases x)
  then show ?case using Cons by (simp add: addLink_weight_def)
qed simp

lemma both_ways_fit:
  assumes "link_fits c name N l" "link_ints l \<subseteq> {..<k}" "(src, dest, latency, bw, weight) \<in> set (both_ways c N l)"
  shows "link_shape N k (src, dest)" "0 < weight" "weight < INFINITE_LATENCY" "latency \<noteq> - 1"
  using assms by (cases l; auto simp: link_shape_def Let_def)+

lemma zip_pairs: "set (zip (map fst xs) (map (fst \<circ> snd) xs)) = (\<lambda>(a, b, x). (a, b)) ` set xs"
  by (induction xs) auto

text \<open>C16. A network file is read as it was written.  Take any list of links between machines and switches and between
  switches that names every machine and numbers the switches from zero on, and write it, behind the lines that
  state the configuration, in the format of the network files.  Then \<open>makeFileSpecified\<close> reads the file without an
  abort and makes exactly these links, in order and in both directions, with their latencies, bandwidths and weights and
  with one switch for each number; and the topology is one that \<open>createLinks\<close> can use.\<close>

theorem network_file_roundtrip:
  assumes "network_file c (network_filename c) = Some (print_file c name ls)" "0 \<le> fc_endpoint_bandwidth c"
    "\<forall>l\<in>set ls. link_fits c name N l" "{..<N} \<subseteq> \<Union> (link_ends c ` set ls)"
    "K = \<Union> (link_ints ` set ls)" "K \<subseteq> {..<card K}"
  shows "\<exists>t. makeFileSpecified c (Topology_new N) = Some t \<and> m_nodes t = N \<and> m_number_of_switches t = card K \<and> links_ok t \<and>
    zip (m_links_src_vector t) (zip (m_links_dest_vector t) (zip (m_links_latency_vector t)
      (zip (m_bw_multiplier_vector t) (m_links_weight_vector t)))) = concat (map (both_ways c N) ls)"
proof -
  let ?start = "\<lparr>nf_topology = Topology_new N, int_network_switches = [], endpointConnectionExist = replicate N False, nf_links = []\<rparr>"
  define L where "L = concat (map (both_ways c N) ls)"
  let ?lines = "map unwords (header_words c @ map (link_words name) ls)"
  have seen: "file_seen N {} {} ?start" by (auto simp: file_seen_def Topology_new_def map_replicate_const)
  have "CHR 0x0A \<notin> set (unwords (link_words name l))" if "l \<in> set ls" for l
    using unwords_chars [of "CHR 0x0A" "link_words name l"] words_clean [of c name N l] assms(3) that by auto
  then have "file_lines (print_file c name ls) = ?lines @ [[]]"
    using file_lines_concat [of ?lines] header_clean [of c] by (auto simp: print_file_def comp_def)
  moreover have "read_line c [] nf = Some nf" for nf by (simp add: read_line_def read_vars.simps new_line_def)
  moreover obtain nf where nf: "run_all (read_line c) (map (\<lambda>l. unwords (link_words name l)) ls) ?start = Some nf"
      "file_seen N K (\<Union> (link_ends c ` set ls)) nf" "nf_links nf = L"
    using read_links_law [OF assms(3) seen] assms(5) by (auto simp: L_def)
  ultimately have read: "run_all (read_line c) (file_lines (print_file c name ls)) ?start = Some nf"
    using read_header_law [OF assms(2)] by (simp add: run_all_append comp_def)
  have all: "\<forall>x\<in>set (endpointConnectionExist nf). x" using nf(2) assms(4) by (auto simp: file_seen_def)
  have t: "m_nodes (nf_topology nf) = N" "m_number_of_switches (nf_topology nf) = card K" "m_nodes (Topology_new N) = N"
    "nf_topology nf = (Topology_new N)\<lparr>m_number_of_switches := card K\<rparr>" using nf(2) by (simp_all add: file_seen_def Topology_new_def)
  have fit: "link_shape N (card K) (src, dest) \<and> 0 < weight \<and> weight < INFINITE_LATENCY \<and> latency \<noteq> - 1"
    if h: "(src, dest, latency, bw, weight) \<in> set L" for src dest latency bw weight
  proof -
    obtain l where l: "l \<in> set ls" "(src, dest, latency, bw, weight) \<in> set (both_ways c N l)" using h by (auto simp: L_def)
    then have "link_ints l \<subseteq> {..<card K}" using assms(5,6) by blast
    then show ?thesis using both_ways_fit [OF _ _ l(2)] assms(3) l(1) by blast
  qed
  then have "\<forall>(src, dest, latency, bw, weight)\<in>set L. src < 2 * m_nodes (nf_topology nf) + m_number_of_switches (nf_topology nf) \<and>
      dest < 2 * m_nodes (nf_topology nf) + m_number_of_switches (nf_topology nf)" using t(1,2) by (fastforce simp: link_shape_def)
  note add = add_file_links [OF this]
  define t' where "t' = (nf_topology nf)\<lparr>m_links_src_vector := map fst L, m_links_dest_vector := map (fst \<circ> snd) L,
      m_links_latency_vector := map (fst \<circ> snd \<circ> snd) L, m_links_weight_vector := map (snd \<circ> snd \<circ> snd \<circ> snd) L,
      m_bw_multiplier_vector := map (fst \<circ> snd \<circ> snd \<circ> snd) L\<rparr>"
  have "makeFileSpecified c (Topology_new N) = Some t'"
    using assms(1) read all nf(3) add t(3) unfolding makeFileSpecified_def t'_def by (simp add: t(4) Topology_new_def)
  moreover have "links t' = (\<lambda>(src, dest, x). (src, dest)) ` set L"
    unfolding links_def t'_def by (simp add: zip_pairs)
  moreover have "links_ok t'"
    using fit t(1,2) unfolding links_ok_def \<open>links t' = _\<close> by (auto simp: t'_def)
  moreover have "zip (map fst xs) (zip (map (fst \<circ> snd) xs) (zip (map (fst \<circ> snd \<circ> snd) xs)
      (zip (map (fst \<circ> snd \<circ> snd \<circ> snd) xs) (map (snd \<circ> snd \<circ> snd \<circ> snd) xs)))) = xs"
    for xs :: "(nat \<times> nat \<times> int \<times> int \<times> int) list" by (induction xs) simp_all
  ultimately show ?thesis using t(1,2) unfolding L_def [symmetric] by (intro exI [of _ t']) (simp add: t'_def)
qed

text \<open>A cache and a bank with a switch each, and a link between the switches.\<close>

definition sample_links :: "file_link list" where
  "sample_links = [ExtLink 0 0 0 1 64, ExtLink 1 0 1 1 64, IntLink 0 1 5 16 7]"

definition sample_names :: "nat \<Rightarrow> string" where
  "sample_names m = (if m = 0 then ''L1Cache'' else ''L2Cache'')"

definition sample_file_config :: "(string \<Rightarrow> string option) \<Rightarrow> file_config" where
  "sample_file_config files = net_config.extend (sample_net\<lparr>machine_counts := [1, 1]\<rparr>) (file_config.fields ''FILE_SPECIFIED'' ''NUCA'' False 1 1 1 1 1000
     (\<lambda>_. Some TopologyType_FILE_SPECIFIED) (\<lambda>s. if s = ''L1Cache'' then Some 0 else if s = ''L2Cache'' then Some 1 else None) files)"

definition sample_files :: "string \<Rightarrow> string option" where
  "sample_files = (\<lambda>_. Some (print_file (sample_file_config (\<lambda>_. None)) sample_names sample_links))"

theorem network_file_roundtrip_witness:
  "\<exists>t. makeFileSpecified (sample_file_config sample_files) (Topology_new 2) = Some t \<and> m_nodes t = 2 \<and> m_number_of_switches t = 2 \<and> links_ok t \<and>
    zip (m_links_src_vector t) (zip (m_links_dest_vector t) (zip (m_links_latency_vector t)
      (zip (m_bw_multiplier_vector t) (m_links_weight_vector t)))) =
      [(0, 4, 1, 64, 1), (4, 2, 1, 64, 1), (1, 5, 1, 64, 1), (5, 3, 1, 64, 1), (4, 5, 5, 16, 7), (5, 4, 5, 16, 7)]"
proof -
  let ?c = "sample_file_config sample_files"
  have c: "machine_counts ?c = [1, 1]" "fc_endpoint_bandwidth ?c = 1000" "string_to_MachineType ?c (sample_names 0) = Some 0"
      "string_to_MachineType ?c (sample_names 1) = Some 1" "network_file ?c f = sample_files f" for f
    by (simp_all add: sample_file_config_def sample_net_def net_config.defs file_config.defs sample_names_def)
  have "print_file (sample_file_config (\<lambda>_. None)) sample_names sample_links = print_file ?c sample_names sample_links"
    by (simp add: print_file_def header_words_def sample_file_config_def net_config.defs file_config.defs)
  moreover have "sample_files f = Some (print_file (sample_file_config (\<lambda>_. None)) sample_names sample_links)" for f by (simp add: sample_files_def)
  ultimately have "network_file ?c (network_filename ?c) = Some (print_file ?c sample_names sample_links)" unfolding c(5) by simp
  moreover have "\<forall>l\<in>set sample_links. link_fits ?c sample_names 2 l" "{..<2} \<subseteq> \<Union> (link_ends ?c ` set sample_links)"
    using c(3,4) by (auto simp: sample_links_def c(1) base_number_def INFINITE_LATENCY_def sample_names_def)
  moreover have K: "{0, 1} = \<Union> (link_ints ` set sample_links)" "{0, 1} \<subseteq> {..<card {0 :: nat, 1}}" by (auto simp: sample_links_def)
  ultimately have "\<exists>t. makeFileSpecified ?c (Topology_new 2) = Some t \<and> m_nodes t = 2 \<and> m_number_of_switches t = card {0 :: nat, 1} \<and> links_ok t \<and>
    zip (m_links_src_vector t) (zip (m_links_dest_vector t) (zip (m_links_latency_vector t)
      (zip (m_bw_multiplier_vector t) (m_links_weight_vector t)))) = concat (map (both_ways ?c 2) sample_links)"
    using network_file_roundtrip [of ?c sample_names sample_links 2 "{0, 1}"] c(2) by simp
  then show ?thesis by (simp add: sample_links_def c(1) base_number_def numeral_eq_Suc)
qed

end
