(* ===== verification/Spec2Isabelle.thy ===== *)
theory Spec2Isabelle
  imports Message_Buffer Persistent Memory_Control Bloom_Filters RCC_Memory RCC_System RCC_Array
    Ruby_Tables Lease_Predictors Network_Crossbar Network_File
begin

text \<open>
  A verification library of the memory system simulator of the repository: Ruby, the memory
  timing model of GEMS 2.1.1 (\<open>src/src/gems-2.1.1/ruby_clean\<close>, \<open>common\<close>), with the relativistic
  cache coherence protocol (RCC) that this repository adds to it
  (\<open>src/src/gems-2.1.1/protocols/tardis-VI-*.sm\<close>).

  \<^bold>\<open>How the program works.\<close>  Controllers, written in the protocol language SLICC, exchange messages
  through message buffers.  A buffer keeps its messages in a priority heap and, on each enqueue,
  schedules the wakeup of its consumer on the event queue, which is a priority heap too.  A wakeup
  runs the ports of a controller; a port looks at the first message and triggers a transition, a
  list of actions.  Addresses, the run configuration and the component mapping decide which
  controller owns a line; node sets and network destinations name the receivers of a message.  Between
  the buffers of two controllers a network of switches and links moves the messages, along routes computed
  from the topology.  The
  relativistic L2 bank orders reads and writes by timestamps: a read leases a line until a read
  timestamp, and a write takes a timestamp after the leases.

  \<^bold>\<open>Theories.\<close>

  \<^item> \<open>Prelude\<close>: aborting code (\<open>assert_that\<close>, runs of operations), shared types and list facts.
  \<^item> \<open>Ruby_Address\<close>: \<open>common/Address.h\<close>, and the strings and logarithms of \<open>common/util.C\<close>.
  \<^item> \<open>Component_Mapping\<close>: \<open>config/RubyConfig.C\<close> (\<open>RubyConfig_init\<close>) and
    \<open>slicc_interface/RubySlicc_ComponentMapping.h\<close>.  An accepted configuration is consistent; a line
    has one home bank and one directory, and home and module index identify the line.
  \<^item> \<open>Prio_Heap\<close>: \<open>common/PrioHeap.h\<close>.  \<open>insert\<close> and \<open>extractMin\<close> keep the heap order and the bag of
    keys; comparisons may abort.
  \<^item> \<open>Event_Queue\<close>: \<open>eventqueue/EventQueue.C\<close>.  \<open>triggerEvents\<close> returns, wakes every scheduled consumer
    at its time, in order and once per cycle.
  \<^item> \<open>Message_Buffer\<close>: \<open>buffers/MessageBuffer.C\<close>.  The buffer refines a sorted queue; a FIFO buffer
    refines a list; the slot check prevents overflow; the consumer is scheduled.
  \<^item> \<open>Node_Set\<close>, \<open>Opt_Set\<close>: the node sets \<open>common/Set.C\<close>, \<open>BigSet.C\<close>, \<open>OptBigSet.C\<close> against one interface
    (locale) and the sets of natural numbers below the size.
  \<^item> \<open>Net_Dest\<close>: \<open>common/NetDest.C\<close>, one node set per machine type, refining a set of machines.
  \<^item> \<open>Persistent\<close>: \<open>system/PersistentTable.C\<close>, \<open>NodePersistentTable.C\<close>, \<open>PersistentArbiter.C\<close>.
  \<^item> \<open>Memory_Control\<close>: \<open>system/MemoryControl.C\<close>.  A cycle loses and reorders no request of a bank, and
    no rank is activated more often than \<open>tFAW\<close> allows.
  \<^item> \<open>H3_Table\<close>, \<open>Bloom_Filters\<close>: the Bloom filters of \<open>system/\<close> behind \<open>GenericBloomFilter.C\<close>.  No false
    negatives; merging keeps members; the optimised intersection of \<open>BulkBloomFilter\<close> tests two cells.
  \<^item> \<open>RCC_L2\<close>: \<open>protocols/tardis-VI-L2cache.sm\<close>.  Every action, transition and port of a bank as a step
    relation; leases and write timestamps are ordered in every reachable state.
  \<^item> \<open>RCC_Memory\<close>: the data of a bank.  Over any memory a bank refines a write-back cache of lines; over a memory that
    keeps what is written back (a stated hypothesis) it refines an atomic memory: a read returns the last write.
  \<^item> \<open>RCC_L1\<close>: \<open>protocols/tardis-VI-L1cache.sm\<close>.  Every action, transition and port of a private cache,
    with the delay queue of responses.
  \<^item> \<open>RCC_System\<close>: private caches and a bank connected by message queues.  A load that hits does so under a lease
    of its own cache that is current at the logical time of its core, and when a write hits in the bank no
    cache whose core has reached the time of the write can hit on the line.  These are results on timestamps; a copy
    can hold older data than its lease promises (\<open>l1_merged_read_drops_data\<close> in \<open>RCC_L1\<close>).
  \<^item> \<open>RCC_Array\<close>: a bank on the array of \<open>Cache_Memory\<close>.  The transitions also make their calls of the array, and the
    array keeps the lines of the bank with the permissions of their states.
  \<^item> \<open>Replacement_Policy\<close>: \<open>system/AbstractReplacementPolicy.h\<close>, \<open>LRUPolicy.h\<close>, \<open>PseudoLRUPolicy.h\<close>.  The
    victim of LRU is the oldest way, and tree PLRU visits every way within one round.
  \<^item> \<open>Cache_Memory\<close>: \<open>system/CacheMemory.h\<close> with its entries (\<open>slicc_interface/AbstractCacheEntry.h\<close>) and
    data blocks (\<open>common/DataBlock.C\<close>).  The tag array keeps its shape and refines a map of lines; a miss
    can always be filled after at most one eviction.
  \<^item> \<open>Lease_Predictors\<close>: \<open>system/TCpredictor.C\<close> and its interface.  Leases stay within their bounds, and
    the sampler settles.
  \<^item> \<open>Ruby_Vector\<close>, \<open>Ruby_Tables\<close>: the containers \<open>common/Vector.h\<close> and \<open>Map.h\<close>, and the tables and queues the
    controllers keep (\<open>TBETable.h\<close>, \<open>TimerTable.C\<close>, \<open>PerfectCacheMemory.h\<close>, the address, store and request queues).
    Growable vectors refine lists; the timer table reports its earliest entry.

  \<^item> \<open>Shortest_Paths\<close>: the all-pairs shortest paths of \<open>network/simple/Topology.C\<close>.  The distances are those of the
    best routes, and hops along shortest routes arrive.
  \<^item> \<open>Network_Topology\<close>: the topologies of \<open>Topology.C\<close>, the links and the routing entries.  The crossbar of the
    GPU knows a way from every switch to every machine.
  \<^item> \<open>Network_File\<close>: \<open>Topology::init\<close> and the topologies that are read from a file.  A description of the links that is
    written in the format of the files is read back as it is.
  \<^item> \<open>Network_Switch\<close>: \<open>network/simple/PerfectSwitch.C\<close> and \<open>slicc_interface/NetworkMessage.h\<close>.  A switch loses,
    duplicates and misroutes nothing.
  \<^item> \<open>Network_Throttle\<close>: \<open>network/simple/Throttle.C\<close>.  A link loses nothing and stays within its bandwidth.
  \<^item> \<open>Simple_Network\<close>: \<open>network/simple/Switch.C\<close> and \<open>SimpleNetwork.C\<close>.  The switches and throttles share their message
    buffers through a store; in every run of a network that is wired well each message reaches each of its destinations
    at most once and none is lost.
  \<^item> \<open>Network_Build\<close>, \<open>Network_Crossbar\<close>: the constructor of the network.  Making the links one by one wires it well; for the
    crossbar of the GPU, from the configuration to the wiring, routing and readiness of the switches, this is one theorem.  The
    attachment of the controllers, which is generated code, is not modelled: the runs of \<open>Simple_Network\<close> start from
    networks whose queues have consumers.

  This theory composes two of them: a bank of the protocol serves its requests on the array of a cache.

  \<^bold>\<open>Modelling decisions.\<close>  A run that the code aborts (\<open>assert\<close>, \<open>ERROR_MSG\<close>, a vector index out of
  range) is \<open>None\<close>.  An operation is a function from the state record to an updated record.
  Addresses are 64-bit words; C++ \<open>int\<close> and \<open>Time\<close> are integers, at their width where a shift or an
  overflow matters (\<open>int_shift_1\<close>, the words of \<open>OptBigSet\<close>).  \<open>random()\<close>, the wakeup functions of
  consumers and, in the controllers, the choice of a victim are arguments; the theorems hold for all of
  them, and the last section instantiates the victim with the one of the cache array.  Loops are
  recursive functions with termination proofs, and the one loop that runs as long as consumers keep
  scheduling (\<open>triggerEvents\<close> up to a time) is bounded by that time; the iteration of the shortest paths is a
  partial function, proved to return for the weights of a network; nothing uses fuel.  Interfaces
  between components are locales, interpreted on the model's own definitions.

  \<^bold>\<open>Not modelled.\<close>  Printing, statistics, profiling and trace files; the SLICC compiler (its input
  is modelled instead) and the protocols other than the base RCC protocol; the Garnet networks and the
  power models; the front ends (sequencer, Simics, testers); GPGPU-Sim, its interconnect simulator
  and the CUDA and OpenCL runtimes, which are other projects' code bundled here.
\<close>

section \<open>A bank on a cache array\<close>

text \<open>C7. A bank on a real cache array serves its requests.  In every state that a bank and a new cache array
  can reach together, the request port does not abort on a request of the form the L1 caches send, for a
  line address, if the two assertions on the state of its line hold (\<open>request_fits\<close>: requests that are merged into one
  transaction name one memory space; a read that reports a copy which has not expired reports no lease past the last
  write).  Every call that the transition makes of the array succeeds: the allocation or the touch of the
  line, the deallocation of the victim and the permission of the new state.  Afterwards the array again holds
  exactly the lines of the bank, valid ones with the permission to read and write, the others busy.  When there is
  room the line is in the cache afterwards; when the set is full the array names a victim other
  than the line, and either the victim is evicted, which makes room for the line, or the victim is in a
  transaction and the array is unchanged.\<close>

theorem rcc_requests_run_on_array:
  assumes "array_reachable c entry0 (b, m)" "l2_requests b = msg # ms" "request_wf msg" "request_fits msg b"
    "is_line c (rq_Address msg)"
  shows "\<exists>b' m'. array_request_port c entry0 now (b, m) = Some (b', m') \<and> backs c m' b' \<and>
    (if cacheAvail c (rq_Address msg) m = Some True then l2_cache b' (rq_Address msg) \<noteq> None
     else \<exists>v. cacheProbe c (rq_Address msg) m = Some v \<and> v \<noteq> rq_Address msg \<and> l2_cache b v \<noteq> None \<and>
       (if l2_getState v b = L2_V then l2_cache b' v = None \<and> cacheAvail c (rq_Address msg) m' = Some True
        else l2_TBEs b v \<noteq> None \<and> m' = m))"
proof -
  let ?a = "rq_Address msg"
  have reach: "l2_reachable b" and backs: "backs c m b" using array_reachable_ok [OF assms(1)] by simp_all
  have lok: "l2_ok b" and line: "line_ok x b" for x using reachable_ok [OF reach] by (simp_all add: l2_ok_def)
  have mok: "cache_ok c m" using backs by (simp add: backs_def)
  have found: "isTagPresent c ?a m = Some (l2_cache b ?a \<noteq> None)"
    using isTagPresent_lookup [OF _ assms(5), of m] mok unfolding backs_lookup [OF backs, of ?a] cache_ok_def by blast
  have avail: "cacheAvail c ?a m = Some True" if "l2_cache b ?a \<noteq> None"
    using cacheAvail_iff [OF mok assms(5)] backs_lookup [OF backs, of ?a] that by simp
  obtain ev where ev: "request_type_to_event (rq_Type msg) = Some ev" "ev \<noteq> Mem_Data_PR"
    using assms(3) by (cases "rq_Type msg") (auto simp: request_wf_def)
  show ?thesis
  proof (cases "cacheAvail c ?a m = Some True")
    case True
    then have "array_request_port c entry0 now (b, m) = array_trigger c entry0 now ev ?a (b, m)"
      using assms(2) ev(1) found by (simp add: array_request_port_def peek_request_def)
    moreover obtain b' where b': "l2_trigger ev ?a b = Some b'"
      using request_runs [OF line assms(2,3) ev(1) assms(4)] by blast
    moreover have "l2_cache b' ?a \<noteq> None" using request_installs_line [OF line assms(2) ev(1) b'] .
    moreover obtain m' where "array_trigger c entry0 now ev ?a (b, m) = Some (b', m')" "backs c m' b'"
      using array_trigger_runs [OF backs lok b', of entry0 now] ev(2) assms(5) True by blast
    ultimately show ?thesis using True by auto
  next
    case False
    then have full: "cacheAvail c ?a m = Some False" using cacheAvail_iff [OF mok assms(5)] by auto
    have miss: "l2_cache b ?a = None" using avail False by blast
    obtain v e where v: "cacheProbe c ?a m = Some v" "Cache_Memory.lookup c v m = Some e"
      "set_index c m v = set_index c m ?a" "v \<noteq> ?a" by (rule cacheProbe_law [OF mok assms(5) full]) blast
    then obtain f where f: "l2_cache b v = Some f" using backs_lookup [OF backs, of v] by fastforce
    let ?ev = "if e_Dirty f then L2_Replacement else L2_Replacement_clean"
    have port: "array_request_port c entry0 now (b, m) = array_trigger c entry0 now ?ev v (b, m)"
      using assms(2) full miss v(1) f found by (simp add: array_request_port_def peek_request_def)
    have evict: "?ev \<in> {L2_Replacement, L2_Replacement_clean}" by simp
    obtain b' where b': "l2_trigger ?ev v b = Some b'" using eviction_runs [OF line _ evict] f by blast
    obtain m' where m': "array_trigger c entry0 now ?ev v (b, m) = Some (b', m')" "backs c m' b'"
      "z_stalls (l2_getState v b) ?ev \<longrightarrow> m' = m" "l2_getState v b = L2_V \<longrightarrow> deallocate c v m = Some m'"
      using array_trigger_runs [OF backs lok b', of entry0 now] evict f by fastforce
    have "if l2_getState v b = L2_V then l2_cache b' v = None \<and> cacheAvail c ?a m' = Some True
        else l2_TBEs b v \<noteq> None \<and> m' = m"
      using line [of v]
    proof (cases rule: line_cases)
      case (V e')
      then have "l2_cache b' v = None" using V_presence [OF V b'] by simp
      moreover have "l2_getState v b = L2_V" using V by (simp add: l2_getState_def)
      ultimately show ?thesis using deallocate_makes_room [OF mok assms(5) v(2,3)] m'(4) by simp
    qed (use f m'(3) in \<open>auto simp: l2_getState_def z_stalls_def split: if_splits\<close>)
    then show ?thesis using port m'(1,2) v(1,4) f full by auto
  qed
qed

lemma rcc_requests_run_on_array_witness:
  "\<exists>b' m' m. CacheMemory_new ''LRU'' sample_entry 1 1 MachineType_L2Cache = Some m \<and>
    array_request_port sample_config' sample_entry 7 (l2_init\<lparr>l2_requests := [sample_request Request_GETS 1 0x1200]\<rparr>, m)
      = Some (b', m') \<and> backs sample_config' m' b'"
proof -
  let ?m = "sample_request Request_GETS 1 0x1200" and ?b = "l2_init\<lparr>l2_requests := [sample_request Request_GETS 1 0x1200]\<rparr>"
  obtain m where m: "CacheMemory_new ''LRU'' sample_entry 1 1 MachineType_L2Cache = Some m"
    by (simp add: CacheMemory_new_def new_policy_def Let_def)
  have conf: "config_ok sample_config'" using sample_config'_ok .
  have "array_reachable sample_config' sample_entry (l2_init, m)"
    using array_reachable.initial [OF m conf] by simp
  from array_reachable.request_arrives [OF this, of ?m]
  have r: "array_reachable sample_config' sample_entry (?b, m)" by (simp add: l2_init_def)
  have f: "l2_requests ?b = ?m # []" "request_wf ?m" "request_fits ?m ?b" "rq_Address ?m = 0x1200"
    by (simp_all add: request_wf_def request_fits_def sample_request_def l2_init_def)
  show ?thesis
    using rcc_requests_run_on_array [OF r f(1-3), of 7] sample_line f(4) m by auto
qed

end
